(* ===== verification/Prelude.thy ===== *)
theory Prelude
  imports Main "HOL-Library.Word" "HOL-Library.List_Lexorder" "HOL-Library.Char_ord"
    "HOL-Library.Product_Lexorder"
begin

text \<open>
  Shared vocabulary of the development.

  Bytes are \<open>8 word\<close>s, a Rust slice or vector of bytes is a list of them, and the order of
  byte vectors is the lexicographic one (\<open>HOL-Library.List_Lexorder\<close>), as in Rust. A fallible
  function returns \<open>error + 'a\<close>, the error as \<open>Inl\<close>; \<open>rbind\<close> is the \<open>?\<close> operator, \<open>rmap\<close>
  collects a vector of results, \<open>rfold\<close> is a \<open>for\<close> loop that may return early. A
  \<open>BTreeSet\<close> collected into a vector is \<open>btree_list\<close>, a \<open>BTreeMap\<close> is the association
  list sorted by its keys. Every panic of the source that a model can reach is the error
  \<open>Panic\<close>, and a recursion of the source with no bound of its own is given fuel and ends in
  \<open>Diverges\<close> when the fuel is used up.
\<close>

unbundle bit_operations_syntax

type_synonym u8 = "8 word"
type_synonym bytes = "8 word list"

text \<open>Object ids are the 32 bytes of a hash, entity ids are 16 bytes.\<close>

type_synonym oid = bytes
type_synonym eid = bytes

section \<open>Simplification collections\<close>

named_theorems result_simps \<open>unfolding the result monad\<close>
named_theorems trie_simps \<open>equations of the trie operations\<close>

section \<open>Errors and results\<close>

text \<open>
  The errors of \<open>tessra-core\<close> and of \<open>tessra-oplog\<close>, one constructor per variant. The text of a
  message is kept where the code branches on it and dropped elsewhere; a rejection keeps its step
  and its name.
\<close>

datatype error =
    Encode
  | Decode
  | NotCanonical
  | WrongType string string
  | Version string nat nat
  | IdErr
  | Signature
  | NotFound oid
  | Invariant
  | StoreErr
  | Rejected nat string
  | UnknownParent oid
  | Other
  | Panic
  | Diverges

type_synonym 'a res = "error + 'a"

fun rbind :: "'a res \<Rightarrow> ('a \<Rightarrow> 'b res) \<Rightarrow> 'b res" where
  "rbind (Inl e) f = Inl e"
| "rbind (Inr x) f = f x"

lemma rbind_cong [fundef_cong]:
  "m = m' \<Longrightarrow> (\<And>x. m' = Inr x \<Longrightarrow> f x = g x) \<Longrightarrow> rbind m f = rbind m' g"
  by (cases m') simp_all

lemma rbind_Inr_iff [result_simps]:
  "rbind m f = Inr y \<longleftrightarrow> (\<exists>x. m = Inr x \<and> f x = Inr y)"
  by (cases m) auto

lemma rbind_Inl_iff:
  "rbind m f = Inl e \<longleftrightarrow> m = Inl e \<or> (\<exists>x. m = Inr x \<and> f x = Inl e)"
  by (cases m) auto

lemma rbind_InrE:
  assumes "rbind m f = Inr y"
  obtains x where "m = Inr x" and "f x = Inr y"
  using assms by (auto simp: result_simps)

lemma rbind_split:
  "P (rbind m f) \<longleftrightarrow> (\<forall>e. m = Inl e \<longrightarrow> P (Inl e)) \<and> (\<forall>x. m = Inr x \<longrightarrow> P (f x))"
  by (cases m) auto

fun of_opt :: "error \<Rightarrow> 'a option \<Rightarrow> 'a res" where
  "of_opt e None = Inl e"
| "of_opt e (Some x) = Inr x"

lemma of_opt_Inr_iff [result_simps]: "of_opt e m = Inr x \<longleftrightarrow> m = Some x"
  by (cases m) auto

text \<open>\<open>ensure\<close> is the early return \<open>if !b { return Err(e) }\<close>.\<close>

definition ensure :: "bool \<Rightarrow> error \<Rightarrow> unit res" where
  "ensure b e = (if b then Inr () else Inl e)"

lemma ensure_Inr_iff [result_simps]: "ensure b e = Inr u \<longleftrightarrow> b"
  by (auto simp: ensure_def)

lemma ensure_simps [simp]:
  "b \<Longrightarrow> ensure b e = Inr ()"
  "\<not> b \<Longrightarrow> ensure b e = Inl e"
  by (auto simp: ensure_def)

fun rmap :: "('a \<Rightarrow> 'b res) \<Rightarrow> 'a list \<Rightarrow> 'b list res" where
  "rmap f [] = Inr []"
| "rmap f (x # xs) = rbind (f x) (\<lambda>y. rbind (rmap f xs) (\<lambda>ys. Inr (y # ys)))"

lemma rmap_cong [fundef_cong]:
  "xs = ys \<Longrightarrow> (\<And>x. x \<in> set ys \<Longrightarrow> f x = g x) \<Longrightarrow> rmap f xs = rmap g ys"
proof (induction ys arbitrary: xs)
  case (Cons y ys)
  then have "rmap f ys = rmap g ys" by simp
  with Cons.prems show ?case by simp
qed simp

lemma rmap_Inr_iff: "rmap f xs = Inr ys \<longleftrightarrow> list_all2 (\<lambda>x y. f x = Inr y) xs ys"
  by (induction xs arbitrary: ys) (auto simp: result_simps list_all2_Cons1)

lemma rmap_all_Inr: "(\<And>x. x \<in> set xs \<Longrightarrow> f x = Inr (g x)) \<Longrightarrow> rmap f xs = Inr (map g xs)"
  by (induction xs) auto

lemma rmap_Inr_setD: "rmap f xs = Inr ys \<Longrightarrow> y \<in> set ys \<Longrightarrow> \<exists>x \<in> set xs. f x = Inr y"
  by (induction xs arbitrary: ys) (auto simp: result_simps)

lemma rmap_Inr_map: "rmap f xs = Inr ys \<Longrightarrow> ys = map (\<lambda>x. projr (f x)) xs"
  by (induction xs arbitrary: ys) (auto simp: result_simps)

lemma rmap_Inr_iff_all: "(\<exists>ys. rmap f xs = Inr ys) \<longleftrightarrow> (\<forall>x \<in> set xs. \<exists>y. f x = Inr y)"
  by (induction xs) (auto simp: result_simps)

fun rfold :: "('a \<Rightarrow> 'b \<Rightarrow> 'b res) \<Rightarrow> 'a list \<Rightarrow> 'b \<Rightarrow> 'b res" where
  "rfold f [] b = Inr b"
| "rfold f (x # xs) b = rbind (f x b) (rfold f xs)"

lemma rfold_cong [fundef_cong]:
  "xs = ys \<Longrightarrow> b = b' \<Longrightarrow> (\<And>x b. x \<in> set ys \<Longrightarrow> f x b = g x b) \<Longrightarrow> rfold f xs b = rfold g ys b'"
proof (induction ys arbitrary: xs b b')
  case (Cons y ys)
  then have "rfold f ys = rfold g ys" by auto
  with Cons.prems show ?case by simp
qed simp

lemma rfold_append: "rfold f (xs @ ys) b = rbind (rfold f xs b) (rfold f ys)"
proof (induction xs arbitrary: b)
  case (Cons x xs)
  then show ?case by (cases "f x b") simp_all
qed simp

lemma rfold_map: "rfold f (map g xs) b = rfold (\<lambda>x. f (g x)) xs b"
proof (induction xs arbitrary: b)
  case (Cons x xs)
  then have "rfold f (map g xs) = rfold (\<lambda>x. f (g x)) xs" by auto
  then show ?case by simp
qed simp

text \<open>The Hoare rule of the loop: an invariant over the elements done and the state.\<close>

lemma rfold_inv:
  assumes "P [] b"
    and "\<And>xs x ys b. ws = xs @ x # ys \<Longrightarrow> P xs b \<Longrightarrow> \<exists>b'. f x b = Inr b' \<and> P (xs @ [x]) b'"
  shows "\<exists>b'. rfold f ws b = Inr b' \<and> P ws b'"
proof -
  have "zs @ ys = ws \<Longrightarrow> P zs b \<Longrightarrow> \<exists>b'. rfold f ys b = Inr b' \<and> P ws b'" for zs ys b
  proof (induction ys arbitrary: zs b)
    case (Cons y ys)
    from assms(2) [OF Cons.prems(1) [symmetric] Cons.prems(2)]
    obtain b' where "f y b = Inr b'" and "P (zs @ [y]) b'" by blast
    with Cons.IH [of "zs @ [y]" b'] Cons.prems(1) show ?case by auto
  qed auto
  from this [of "[]" ws b] assms(1) show ?thesis by simp
qed

section \<open>Sorted vectors and maps\<close>

definition btree_list :: "'a::linorder list \<Rightarrow> 'a list" where
  "btree_list xs = sort (remdups xs)"

lemma set_btree_list [simp]: "set (btree_list xs) = set xs"
  by (simp add: btree_list_def)

lemma distinct_btree_list [simp]: "distinct (btree_list xs)"
  by (simp add: btree_list_def)

lemma sorted_btree_list [simp]: "sorted (btree_list xs)"
  by (simp add: btree_list_def)

lemma btree_list_eqI: "set xs = set ys \<Longrightarrow> btree_list xs = btree_list ys"
  by (metis distinct_btree_list set_btree_list sorted_btree_list sorted_distinct_set_unique)

lemma btree_list_eq_iff: "btree_list xs = btree_list ys \<longleftrightarrow> set xs = set ys"
  by (metis btree_list_eqI set_btree_list)

lemma btree_list_id: "sorted xs \<Longrightarrow> distinct xs \<Longrightarrow> btree_list xs = xs"
  by (simp add: btree_list_def distinct_remdups_id sorted_sort_id)

type_synonym ('k, 'v) btree = "('k \<times> 'v) list"

fun bt_insert :: "'k::linorder \<Rightarrow> 'v \<Rightarrow> ('k, 'v) btree \<Rightarrow> ('k, 'v) btree" where
  "bt_insert k v [] = [(k, v)]"
| "bt_insert k v ((k', v') # m) =
     (if k < k' then (k, v) # (k', v') # m
      else if k = k' then (k, v) # m
      else (k', v') # bt_insert k v m)"

definition bt_ok :: "('k::linorder, 'v) btree \<Rightarrow> bool" where
  "bt_ok m \<longleftrightarrow> sorted (map fst m) \<and> distinct (map fst m)"

lemma set_bt_insert: "set (map fst (bt_insert k v m)) = insert k (set (map fst m))"
  by (induction k v m rule: bt_insert.induct) auto

lemma bt_ok_Nil [simp]: "bt_ok []"
  by (simp add: bt_ok_def)

lemma bt_ok_Cons [simp]:
  "bt_ok ((k, v) # m) \<longleftrightarrow> (\<forall>k' \<in> fst ` set m. k < k') \<and> bt_ok m"
  by (auto simp: bt_ok_def order.strict_iff_order)

lemma bt_ok_insert [simp]: "bt_ok m \<Longrightarrow> bt_ok (bt_insert k v m)"
proof (induction k v m rule: bt_insert.induct)
  case (2 k v k' v' m)
  then show ?case using set_bt_insert [of k v m] by (auto simp: image_iff)
qed simp

lemma map_of_bt_insert [simp]: "map_of (bt_insert k v m) = (map_of m)(k \<mapsto> v)"
  by (induction k v m rule: bt_insert.induct) auto

lemma bt_ok_tabulate: "bt_ok m \<Longrightarrow> map (\<lambda>k. (k, the (map_of m k))) (map fst m) = m"
  by (auto simp: bt_ok_def intro!: map_idI)

lemma bt_ok_eqI:
  assumes "bt_ok m" and "bt_ok m'" and "map_of m = map_of m'"
  shows "m = m'"
proof -
  have "set (map fst m) = set (map fst m')"
    using assms(3) by (metis dom_map_of_conv_image_fst image_set)
  then have "map fst m = map fst m'"
    using assms(1,2) by (auto simp: bt_ok_def intro: sorted_distinct_set_unique)
  then show ?thesis
    using bt_ok_tabulate [OF assms(1)] bt_ok_tabulate [OF assms(2)] assms(3) by metis
qed

end
