(* ===== verification/Ids.thy ===== *)
theory Ids
  imports Prelude
begin

text \<open>
  Identifiers: \<open>crates/tessra-core/src/id.rs\<close> and \<open>hash.rs\<close>.

  An entity id is 16 bytes and is shown as 32 letters, one per nibble, in an alphabet disjoint from
  the hexadecimal digits. An object id is the 32 bytes of a BLAKE3 hash, taken under a domain that
  names the type of the object. BLAKE3 and the \<open>hex\<close> crate are third-party code: the hash function
  \<open>blake\<close> (over the concatenation of what the hasher was fed) and the pair \<open>hex_encode\<close>,
  \<open>hex_decode\<close> are arguments. A \<open>str\<close> is handled as its bytes here, which is what
  \<open>s.len()\<close>, \<open>as_bytes\<close> and \<open>starts_with\<close> see.
\<close>

text \<open>The bytes of an ASCII string literal.\<close>

definition ascii :: "string \<Rightarrow> bytes" where
  "ascii s = map (\<lambda>c. of_nat (of_char c)) s"

lemma inj_ascii: "inj ascii"
proof (rule injI)
  fix s t :: string
  assume eq: "ascii s = ascii t"
  have "inj (\<lambda>c. of_nat (of_char c) :: u8)"
  proof (rule injI)
    fix c d :: char
    assume "(of_nat (of_char c) :: u8) = of_nat (of_char d)"
    then have "unat (of_nat (of_char c) :: u8) = unat (of_nat (of_char d) :: u8)"
      by (rule arg_cong)
    then have "(of_char c :: nat) mod 256 = of_char d mod 256"
      by (simp only: unat_of_nat) simp
    then show "c = d" by simp
  qed
  with eq show "s = t" by (simp add: ascii_def)
qed

section \<open>Entity ids\<close>

definition alphabet :: bytes where
  "alphabet = ascii ''klmnopqrstuvwxyz''"

definition eid_from_slice :: "bytes \<Rightarrow> eid res" where
  "eid_from_slice v = (if length v \<noteq> 16 then Inl IdErr else Inr v)"

definition to_letters :: "eid \<Rightarrow> bytes" where
  "to_letters b = concat (map (\<lambda>x. [alphabet ! unat (drop_bit 4 x), alphabet ! unat (x AND 15)]) b)"

text \<open>\<open>position\<close> returns the first index, as a \<open>usize\<close> cast to \<open>u8\<close>.\<close>

fun position :: "('a \<Rightarrow> bool) \<Rightarrow> 'a list \<Rightarrow> nat option" where
  "position p [] = None"
| "position p (x # xs) = (if p x then Some 0 else map_option Suc (position p xs))"

definition nibble :: "u8 \<Rightarrow> u8 res" where
  "nibble c = (case position (\<lambda>a. a = c) alphabet of None \<Rightarrow> Inl IdErr | Some p \<Rightarrow> Inr (of_nat p))"

text \<open>The loop body for one pair of letters.\<close>

definition letter_pair :: "bytes \<Rightarrow> nat \<Rightarrow> u8 res" where
  "letter_pair s i =
     rbind (nibble (s ! (2 * i))) (\<lambda>hi.
     rbind (nibble (s ! (2 * i + 1))) (\<lambda>lo.
     Inr (push_bit 4 hi OR lo)))"

definition from_letters :: "bytes \<Rightarrow> eid res" where
  "from_letters s = (if length s \<noteq> 32 then Inl IdErr else rmap (letter_pair s) [0..<16])"

definition eid_matches_prefix :: "eid \<Rightarrow> bytes \<Rightarrow> bool" where
  "eid_matches_prefix e prefix \<longleftrightarrow> take (length prefix) (to_letters e) = prefix"

definition eid_derive :: "(bytes \<Rightarrow> bytes) \<Rightarrow> string \<Rightarrow> bytes \<Rightarrow> eid" where
  "eid_derive blake domain input = take 16 (blake (ascii ''tessra:'' @ ascii domain @ input))"

section \<open>Object ids and domain-separated hashing\<close>

definition oid_from_slice :: "bytes \<Rightarrow> oid res" where
  "oid_from_slice v = (if length v \<noteq> 32 then Inl IdErr else Inr v)"

definition oid_from_hex :: "(bytes \<Rightarrow> bytes option) \<Rightarrow> bytes \<Rightarrow> oid res" where
  "oid_from_hex hex_decode s = rbind (of_opt IdErr (hex_decode s)) oid_from_slice"

definition ascii_lower :: "u8 \<Rightarrow> u8" where
  "ascii_lower c = (if 65 \<le> c \<and> c \<le> 90 then c + 32 else c)"

definition oid_matches_prefix :: "(bytes \<Rightarrow> bytes) \<Rightarrow> oid \<Rightarrow> bytes \<Rightarrow> bool" where
  "oid_matches_prefix hex_encode i prefix \<longleftrightarrow>
     take (length prefix) (hex_encode i) = map ascii_lower prefix"

definition object_id :: "(bytes \<Rightarrow> bytes) \<Rightarrow> string \<Rightarrow> bytes \<Rightarrow> oid" where
  "object_id blake tag bs = blake (ascii ''tessra:'' @ ascii tag @ [10] @ bs)"

definition blob_id :: "(bytes \<Rightarrow> bytes) \<Rightarrow> bytes \<Rightarrow> oid" where
  "blob_id blake bs = object_id blake ''blob'' bs"

definition chunk_id :: "(bytes \<Rightarrow> bytes) \<Rightarrow> bytes \<Rightarrow> oid" where
  "chunk_id blake bs = object_id blake ''chunk'' bs"

definition artifact_content_hash :: "(bytes \<Rightarrow> bytes) \<Rightarrow> bytes \<Rightarrow> oid" where
  "artifact_content_hash blake bs = object_id blake ''artifact-content'' bs"

text \<open>The streaming hasher: its state is what it has been fed.\<close>

definition hasher_new :: "string \<Rightarrow> bytes" where
  "hasher_new domain = ascii ''tessra:'' @ ascii domain @ [10]"

definition hasher_update :: "bytes \<Rightarrow> bytes \<Rightarrow> bytes" where
  "hasher_update st bs = st @ bs"

definition hasher_finalize :: "(bytes \<Rightarrow> bytes) \<Rightarrow> bytes \<Rightarrow> oid" where
  "hasher_finalize blake st = blake st"

definition shard_slot :: "(bytes \<Rightarrow> bytes) \<Rightarrow> string \<Rightarrow> u8" where
  "shard_slot blake name = blake (ascii ''tessra:shard'' @ ascii name) ! 0"

section \<open>Letters round trip\<close>

lemma length_alphabet [simp]: "length alphabet = 16"
  by (simp add: alphabet_def ascii_def)

lemma nibble_alphabet: "n < 16 \<Longrightarrow> nibble (alphabet ! n) = Inr (of_nat n)"
proof -
  assume "n < 16"
  then have "n \<in> set [0..<16]" by simp
  moreover have "\<forall>n \<in> set [0..<16]. nibble (alphabet ! n) = Inr (of_nat n)"
    by code_simp
  ultimately show ?thesis by blast
qed

lemma length_to_letters [simp]: "length (to_letters b) = 2 * length b"
  by (induction b) (auto simp: to_letters_def)

lemma to_letters_nth:
  "i < length b \<Longrightarrow> to_letters b ! (2 * i) = alphabet ! unat (drop_bit 4 (b ! i))
     \<and> to_letters b ! (2 * i + 1) = alphabet ! unat (b ! i AND 15)"
proof (induction b arbitrary: i)
  case (Cons x b)
  show ?case
  proof (cases i)
    case (Suc j)
    with Cons show ?thesis by (simp add: to_letters_def)
  qed (simp add: to_letters_def)
qed simp

lemma unat_high_nibble: "unat (drop_bit 4 (x :: u8)) < 16"
proof -
  have "unat (drop_bit 4 x) = unat x div 16"
    by (simp add: drop_bit_eq_div unat_div)
  moreover have "unat x < 256"
    using unsigned_less [of x] by simp
  ultimately show ?thesis by simp
qed

lemma unat_low_nibble: "unat ((x :: u8) AND 15) = unat x mod 16"
proof -
  have "x AND 15 = x mod 16"
    using take_bit_eq_mask [of 4 x] by (simp add: mask_eq_exp_minus_1 take_bit_eq_mod)
  then show ?thesis by (simp only: unat_mod) simp
qed

lemma join_nibbles: "push_bit 4 (drop_bit 4 x) OR (x AND 15) = (x :: u8)"
proof -
  have "x AND 15 = take_bit 4 x"
    by (simp add: take_bit_eq_mask mask_eq_exp_minus_1)
  then show ?thesis
    by (auto intro!: bit_word_eqI simp: bit_simps)
qed

lemma letter_pair_to_letters:
  "i < length b \<Longrightarrow> letter_pair (to_letters b) i = Inr (b ! i)"
proof -
  assume i: "i < length b"
  have lo: "nibble (alphabet ! unat (b ! i AND 15)) = Inr (b ! i AND 15)"
  proof -
    have "unat (b ! i AND 15) < 16" by (simp add: unat_low_nibble)
    from nibble_alphabet [OF this] show ?thesis by simp
  qed
  have hi: "nibble (alphabet ! unat (drop_bit 4 (b ! i))) = Inr (drop_bit 4 (b ! i))"
    using nibble_alphabet [OF unat_high_nibble [of "b ! i"]] by simp
  from to_letters_nth [OF i] show ?thesis
    unfolding letter_pair_def by (simp only: lo hi rbind.simps join_nibbles)
qed

lemma from_letters_to_letters: "length e = 16 \<Longrightarrow> from_letters (to_letters e) = Inr e"
proof -
  assume len: "length e = 16"
  then have "rmap (letter_pair (to_letters e)) [0..<16] = Inr (map (\<lambda>i. e ! i) [0..<16])"
    by (intro rmap_all_Inr) (simp add: letter_pair_to_letters)
  also have "map (\<lambda>i. e ! i) [0..<16] = e"
    using len map_nth [of e] by simp
  finally show ?thesis using len by (simp add: from_letters_def)
qed

lemma position_Some: "position p xs = Some i \<Longrightarrow> i < length xs \<and> p (xs ! i)"
  by (induction xs arbitrary: i) (auto split: if_splits)

lemma nibble_Inr: "nibble c = Inr n \<Longrightarrow> unat n < 16 \<and> alphabet ! unat n = c"
proof -
  assume "nibble c = Inr n"
  then obtain i where i: "position (\<lambda>a. a = c) alphabet = Some i" and n: "n = of_nat i"
    by (auto simp: nibble_def split: option.splits)
  from position_Some [OF i] have "i < 16" "alphabet ! i = c" by simp_all
  then show ?thesis by (simp add: n unat_of_nat)
qed

lemma split_nibbles:
  fixes hi lo :: u8
  assumes "unat hi < 16" and "unat lo < 16"
  shows "drop_bit 4 (push_bit 4 hi OR lo) = hi" and "(push_bit 4 hi OR lo) AND 15 = lo"
proof -
  have bits: "\<not> bit x n" if "unat x < 16" "4 \<le> n" for x :: u8 and n
  proof -
    have "unat (take_bit 4 x) = unat x"
      using that(1) by (simp only: take_bit_eq_mod unat_mod) simp
    then have "x = take_bit 4 x" by (metis word_unat_eq_iff)
    then show ?thesis using that(2) by (metis bit_take_bit_iff not_le)
  qed
  have mask: "(15 :: u8) = mask 4" by (simp add: mask_eq_exp_minus_1)
  have top: "\<not> bit hi n" if "4 \<le> n" for n using bits [OF assms(1) that] .
  have low: "\<not> bit lo n" if "4 \<le> n" for n using bits [OF assms(2) that] .
  have "n < 4" if "bit hi n" for n using top [of n] that by (meson not_le)
  then show "drop_bit 4 (push_bit 4 hi OR lo) = hi"
    by (intro bit_word_eqI) (use low in \<open>auto simp: bit_simps\<close>)
  show "(push_bit 4 hi OR lo) AND 15 = lo"
    unfolding mask by (rule bit_word_eqI) (use low in \<open>auto simp: bit_simps simp flip: not_le\<close>)
qed

lemma letter_pair_Inr:
  assumes "letter_pair s i = Inr x"
  shows "alphabet ! unat (drop_bit 4 x) = s ! (2 * i)"
    and "alphabet ! unat (x AND 15) = s ! (2 * i + 1)"
proof -
  from assms obtain hi lo where hi: "nibble (s ! (2 * i)) = Inr hi"
    and lo: "nibble (s ! (2 * i + 1)) = Inr lo" and x: "x = push_bit 4 hi OR lo"
    by (auto simp: letter_pair_def result_simps)
  from nibble_Inr [OF hi] nibble_Inr [OF lo] x split_nibbles [of hi lo]
  show "alphabet ! unat (drop_bit 4 x) = s ! (2 * i)"
    and "alphabet ! unat (x AND 15) = s ! (2 * i + 1)" by simp_all
qed

lemma to_letters_from_letters:
  assumes "from_letters s = Inr e"
  shows "length e = 16 \<and> to_letters e = s"
proof
  from assms have len: "length s = 32" and all: "list_all2 (\<lambda>i x. letter_pair s i = Inr x) [0..<16] e"
    by (auto simp: from_letters_def rmap_Inr_iff split: if_splits)
  from all show e16: "length e = 16" by (auto dest: list_all2_lengthD)
  have pair: "letter_pair s i = Inr (e ! i)" if "i < 16" for i
    using list_all2_nthD [OF all, of i] that by simp
  show "to_letters e = s"
  proof (rule nth_equalityI)
    fix j assume "j < length (to_letters e)"
    then have j: "j div 2 < 16" using e16 by simp
    have "j = 2 * (j div 2) \<or> j = 2 * (j div 2) + 1" by presburger
    with to_letters_nth [of "j div 2" e] letter_pair_Inr [OF pair [OF j]] e16 j
    show "to_letters e ! j = s ! j" by metis
  qed (simp add: len e16)
qed

lemma sep_unique:
  "xs @ c # ys = xs' @ c # ys' \<Longrightarrow> c \<notin> set xs \<Longrightarrow> c \<notin> set xs' \<Longrightarrow> xs = xs' \<and> ys = ys'"
proof (induction xs arbitrary: xs')
  case Nil
  then show ?case by (cases xs') auto
next
  case (Cons x xs)
  then show ?case by (cases xs') auto
qed

lemma newline_in_ascii: "10 \<in> set (ascii t) \<Longrightarrow> CHR 0x0A \<in> set t"
proof -
  assume "10 \<in> set (ascii t)"
  then obtain c where c: "c \<in> set t" "10 = (of_nat (of_char c) :: u8)" by (auto simp: ascii_def)
  then have "ascii [CHR 0x0A] = ascii [c]" by (simp add: ascii_def)
  with c(1) inj_ascii show ?thesis by (auto dest: injD)
qed

lemma object_id_separates:
  assumes "inj blake" and "CHR 0x0A \<notin> set tag" and "CHR 0x0A \<notin> set tag'"
    and "object_id blake tag bs = object_id blake tag' bs'"
  shows "tag = tag' \<and> bs = bs'"
proof -
  from assms(1,4) have "ascii tag @ 10 # bs = ascii tag' @ 10 # bs'"
    by (simp add: object_id_def inj_eq)
  moreover have "10 \<notin> set (ascii tag)" and "10 \<notin> set (ascii tag')"
    using newline_in_ascii assms(2,3) by blast+
  ultimately have "ascii tag = ascii tag' \<and> bs = bs'"
    by (rule sep_unique)
  then show ?thesis using inj_ascii by (auto dest: injD)
qed

section \<open>Properties\<close>

text \<open>The letters of an entity id and its bytes determine each other: reading letters gives an id
  exactly when they are the letters of a 16-byte id, and then that id.\<close>

theorem letters_round_trip:
  "from_letters s = Inr e \<longleftrightarrow> length e = 16 \<and> s = to_letters e"
  using from_letters_to_letters to_letters_from_letters by metis

text \<open>Object ids separate domains: under a hash without collisions, objects with different tags or
  different bytes have different ids, for tags without a newline.\<close>

theorem object_id_injective:
  assumes "inj blake" and "CHR 0x0A \<notin> set tag" and "CHR 0x0A \<notin> set tag'"
  shows "object_id blake tag bs = object_id blake tag' bs' \<longleftrightarrow> tag = tag' \<and> bs = bs'"
  using object_id_separates [OF assms] by auto

theorem object_id_injective_witness:
  "object_id id ''blob'' [1, 2] \<noteq> object_id id ''tree'' [1, 2] \<and> object_id id ''blob'' [1] \<noteq> object_id id ''blob'' [2]"
  using object_id_injective [of id "''blob''" "''tree''" "[1, 2]" "[1, 2]"]
    object_id_injective [of id "''blob''" "''blob''" "[1]" "[2]"] by simp

end
