(* ===== verification/Cbor.thy ===== *)
theory Cbor
  imports Ids "HOL-Library.Multiset"
begin

text \<open>
  Deterministic encoding and the object envelope: \<open>crates/tessra-core/src/cbor.rs\<close>.

  \<open>value\<close> is ciborium's \<open>Value\<close>. Its writer and reader are third-party code: \<open>ser\<close> stands for
  \<open>into_writer\<close> into a vector and \<open>de\<close> for \<open>from_reader\<close>. What the code relies on is that
  reading back what was written gives the value again, which is a hypothesis where it is needed.
  A type's own serde code is the pair \<open>ser_obj\<close>, \<open>de_obj\<close> of its codec.
\<close>

datatype "value" =
    VInt int
  | VBytes bytes
  | VFloat "64 word"
  | VText string
  | VBool bool
  | VNull
  | VTag nat "value"
  | VArray "value list"
  | VMap "(value \<times> value) list"

text \<open>
  \<open>TessraObject\<close>: the tag, the newest schema version, and the type's serialization.
\<close>

record 'a codec =
  tag_of :: string
  version_of :: nat
  ser_obj :: "'a \<Rightarrow> value res"
  de_obj :: "value \<Rightarrow> 'a res"

fun has_equal_neighbours :: "'a list \<Rightarrow> bool" where
  "has_equal_neighbours (x # y # xs) = (x = y \<or> has_equal_neighbours (y # xs))"
| "has_equal_neighbours _ = False"

function canonicalize :: "(value \<Rightarrow> bytes res) \<Rightarrow> value \<Rightarrow> value res" where
  "canonicalize ser (VMap entries) =
     rbind (rmap (\<lambda>e.
         rbind (canonicalize ser (fst e)) (\<lambda>k.
         rbind (canonicalize ser (snd e)) (\<lambda>v.
         rbind (ser k) (\<lambda>kb. Inr (kb, k, v))))) entries) (\<lambda>keyed0.
     let keyed = sort_key fst keyed0 in
     if has_equal_neighbours (map fst keyed) then Inl NotCanonical
     else Inr (VMap (map snd keyed)))"
| "canonicalize ser (VArray items) = rbind (rmap (canonicalize ser) items) (\<lambda>vs. Inr (VArray vs))"
| "canonicalize ser (VFloat f) = Inl NotCanonical"
| "canonicalize ser (VTag n v) = Inl NotCanonical"
| "canonicalize ser (VInt i) = Inr (VInt i)"
| "canonicalize ser (VBytes b) = Inr (VBytes b)"
| "canonicalize ser (VText t) = Inr (VText t)"
| "canonicalize ser (VBool b) = Inr (VBool b)"
| "canonicalize ser VNull = Inr VNull"
  by pat_completeness auto

lemma size_pair_less:
  assumes "e \<in> set es"
  shows "size (fst e) < Suc (size_list (size_prod size size) es)"
    and "size (snd e) < Suc (size_list (size_prod size size) es)"
proof -
  have "size_prod size size e \<le> size_list (size_prod size size) es"
    using assms by (rule size_list_estimation') simp
  then show "size (fst e) < Suc (size_list (size_prod size size) es)"
    and "size (snd e) < Suc (size_list (size_prod size size) es)"
    by (cases e; simp)+
qed

termination canonicalize
  by (relation "measure (\<lambda>(ser, v). size v)")
    (auto simp: size_pair_less size_list_estimation' less_Suc_eq_le)

fun as_map :: "error \<Rightarrow> value \<Rightarrow> (value \<times> value) list res" where
  "as_map e (VMap m) = Inr m"
| "as_map e _ = Inl e"

lemma as_map_Inr_iff [result_simps]: "as_map e v = Inr m \<longleftrightarrow> v = VMap m"
  by (cases v) auto

definition encode_value :: "(value \<Rightarrow> bytes res) \<Rightarrow> value \<Rightarrow> bytes res" where
  "encode_value ser v = rbind (canonicalize ser v) ser"

text \<open>\<open>encode\<close>: serialize, add the envelope keys, canonicalize, write, hash.\<close>

definition encode :: "(bytes \<Rightarrow> bytes) \<Rightarrow> (value \<Rightarrow> bytes res) \<Rightarrow> 'a codec \<Rightarrow> 'a \<Rightarrow> (bytes \<times> oid) res" where
  "encode blake ser c obj =
     rbind (ser_obj c obj) (\<lambda>v.
     rbind (as_map Encode v) (\<lambda>entries.
     rbind (canonicalize ser (VMap (entries @
         [(VText ''t'', VText (tag_of c)), (VText ''v'', VInt (int (version_of c)))]))) (\<lambda>canonical.
     rbind (ser canonical) (\<lambda>bs.
     Inr (bs, object_id blake (tag_of c) bs)))))"

text \<open>The scan over the envelope: \<open>(tag, version, rest)\<close>.\<close>

definition u64_of_int :: "int \<Rightarrow> nat res" where
  "u64_of_int n = (if 0 \<le> n \<and> n < 2 ^ 64 then Inr (nat n) else Inl Decode)"

fun envelope :: "(value \<times> value) list \<Rightarrow> string option \<Rightarrow> nat option \<Rightarrow> (value \<times> value) list
    \<Rightarrow> (string option \<times> nat option \<times> (value \<times> value) list) res" where
  "envelope [] tag version rest = Inr (tag, version, rest)"
| "envelope ((k, v) # es) tag version rest =
     (case (k, v) of
        (VText key, VText t) \<Rightarrow>
          if key = ''t'' then envelope es (Some t) version rest
          else envelope es tag version (rest @ [(k, v)])
      | (VText key, VInt n) \<Rightarrow>
          if key = ''v'' then rbind (u64_of_int n) (\<lambda>u. envelope es tag (Some u) rest)
          else envelope es tag version (rest @ [(k, v)])
      | _ \<Rightarrow> envelope es tag version (rest @ [(k, v)]))"

definition decode :: "(value \<Rightarrow> bytes res) \<Rightarrow> (bytes \<Rightarrow> value res) \<Rightarrow> 'a codec \<Rightarrow> bytes \<Rightarrow> 'a res" where
  "decode ser de c bs =
     rbind (de bs) (\<lambda>v.
     rbind (encode_value ser v) (\<lambda>reencoded.
     if reencoded \<noteq> bs then Inl NotCanonical else
     rbind (as_map Decode v) (\<lambda>entries.
     rbind (envelope entries None None []) (\<lambda>(tag, version, rest).
     rbind (of_opt Decode tag) (\<lambda>t.
     if t \<noteq> tag_of c then Inl (WrongType (tag_of c) t) else
     rbind (of_opt Decode version) (\<lambda>n.
     if n > version_of c then Inl (Version (tag_of c) n (version_of c)) else
     de_obj c (VMap rest)))))))"

fun first_tag :: "(value \<times> value) list \<Rightarrow> string option" where
  "first_tag [] = None"
| "first_tag ((VText key, VText t) # es) = (if key = ''t'' then Some t else first_tag es)"
| "first_tag (_ # es) = first_tag es"

definition peek_tag :: "(bytes \<Rightarrow> value res) \<Rightarrow> bytes \<Rightarrow> string res" where
  "peek_tag de bs =
     rbind (de bs) (\<lambda>v. case v of VMap es \<Rightarrow> of_opt Decode (first_tag es) | _ \<Rightarrow> Inl Decode)"

definition to_canonical_bytes :: "(value \<Rightarrow> bytes res) \<Rightarrow> ('a \<Rightarrow> value res) \<Rightarrow> 'a \<Rightarrow> bytes res" where
  "to_canonical_bytes ser serialized x = rbind (serialized x) (\<lambda>v. encode_value ser v)"

definition from_canonical_bytes ::
  "(value \<Rightarrow> bytes res) \<Rightarrow> (bytes \<Rightarrow> value res) \<Rightarrow> (value \<Rightarrow> 'a res) \<Rightarrow> bytes \<Rightarrow> 'a res" where
  "from_canonical_bytes ser de deserialized bs =
     rbind (de bs) (\<lambda>v.
     rbind (encode_value ser v) (\<lambda>reencoded.
     if reencoded \<noteq> bs then Inl NotCanonical else deserialized v))"

section \<open>What canonical form is\<close>

text \<open>No float and no tag anywhere, and the keys of every map strictly increasing in their encoding.\<close>

fun canonical :: "(value \<Rightarrow> bytes res) \<Rightarrow> value \<Rightarrow> bool" where
  "canonical ser (VMap entries) \<longleftrightarrow>
     (\<forall>e \<in> set entries. canonical ser (fst e) \<and> canonical ser (snd e) \<and> (\<exists>b. ser (fst e) = Inr b)) \<and>
     sorted_wrt (<) (map (\<lambda>e. case ser (fst e) of Inr b \<Rightarrow> b | Inl _ \<Rightarrow> []) entries)"
| "canonical ser (VArray items) \<longleftrightarrow> (\<forall>v \<in> set items. canonical ser v)"
| "canonical ser (VFloat f) \<longleftrightarrow> False"
| "canonical ser (VTag n v) \<longleftrightarrow> False"
| "canonical ser _ \<longleftrightarrow> True"

text \<open>What one entry becomes: its encoded key, its key and its value.\<close>

definition keyed_entry :: "(value \<Rightarrow> bytes res) \<Rightarrow> value \<times> value \<Rightarrow> (bytes \<times> value \<times> value) res" where
  "keyed_entry ser e =
     rbind (canonicalize ser (fst e)) (\<lambda>k.
     rbind (canonicalize ser (snd e)) (\<lambda>v.
     rbind (ser k) (\<lambda>kb. Inr (kb, k, v))))"

lemma keyed_entry_Inr_iff:
  "keyed_entry ser e = Inr (kb, k, v) \<longleftrightarrow>
     canonicalize ser (fst e) = Inr k \<and> canonicalize ser (snd e) = Inr v \<and> ser k = Inr kb"
  by (auto simp: keyed_entry_def result_simps)

lemma canonicalize_VMap:
  "canonicalize ser (VMap es) =
     rbind (rmap (keyed_entry ser) es) (\<lambda>ks.
       if has_equal_neighbours (map fst (sort_key fst ks)) then Inl NotCanonical
       else Inr (VMap (map snd (sort_key fst ks))))"
proof -
  have "keyed_entry ser = (\<lambda>e. rbind (canonicalize ser (fst e)) (\<lambda>k.
      rbind (canonicalize ser (snd e)) (\<lambda>v. rbind (ser k) (\<lambda>kb. Inr (kb, k, v)))))"
    by (rule ext) (simp add: keyed_entry_def)
  then show ?thesis by (simp add: Let_def)
qed

declare canonicalize.simps(1) [simp del]

lemma strictly_sorted_iff_no_equal_neighbours:
  "sorted xs \<Longrightarrow> sorted_wrt (<) xs \<longleftrightarrow> \<not> has_equal_neighbours (xs :: 'a::linorder list)"
proof (induction xs rule: has_equal_neighbours.induct)
  case (1 x y xs)
  then have "x \<le> y" and "sorted_wrt (<) (y # xs) \<longleftrightarrow> \<not> has_equal_neighbours (y # xs)" by auto
  moreover have "sorted_wrt (<) (x # y # xs) \<longleftrightarrow> x < y \<and> sorted_wrt (<) (y # xs)"
    by (rule sorted_wrt2) (rule transp_on_less)
  moreover have "x < y \<longleftrightarrow> x \<noteq> y" using \<open>x \<le> y\<close> by auto
  ultimately show ?case by (simp del: sorted_wrt.simps)
qed auto

lemma distinct_keys_sort_key: "distinct (map fst (sort_key fst ks)) \<longleftrightarrow> distinct (map fst ks)"
  by (rule mset_eq_imp_distinct_iff) simp

lemma has_equal_neighbours_sort_key:
  "has_equal_neighbours (map fst (sort_key fst ks)) \<longleftrightarrow> \<not> distinct (map fst ks)"
  using strictly_sorted_iff_no_equal_neighbours [OF sorted_sort_key [of fst ks]]
    distinct_keys_sort_key [of ks]
  by (simp add: strict_sorted_iff)

lemma canonicalize_VMap_Inr_iff:
  "canonicalize ser (VMap es) = Inr w \<longleftrightarrow>
     (\<exists>ks. rmap (keyed_entry ser) es = Inr ks \<and> distinct (map fst ks) \<and>
       w = VMap (map snd (sort_key fst ks)))"
  by (cases "rmap (keyed_entry ser) es")
    (auto simp: canonicalize_VMap has_equal_neighbours_sort_key split: if_splits)

lemma rmap_keyed_entry_ids:
  assumes "\<And>y. y \<in> set ks \<Longrightarrow> keyed_entry ser (snd y) = Inr y"
  shows "rmap (keyed_entry ser) (map snd ks) = Inr ks"
  using assms by (induction ks) auto

lemma canonicalize_keyed_fixpoint:
  assumes "distinct (map fst ks)" and "\<And>y. y \<in> set ks \<Longrightarrow> keyed_entry ser (snd y) = Inr y"
  shows "canonicalize ser (VMap (map snd (sort_key fst ks))) = Inr (VMap (map snd (sort_key fst ks)))"
proof -
  have "rmap (keyed_entry ser) (map snd (sort_key fst ks)) = Inr (sort_key fst ks)"
    by (rule rmap_keyed_entry_ids) (use assms(2) in simp)
  moreover have "sort_key fst (sort_key fst ks) = sort_key fst ks"
    by (rule sort_key_id_if_sorted) (rule sorted_sort_key)
  ultimately show ?thesis
    using assms(1)
    by (simp add: canonicalize_VMap has_equal_neighbours_sort_key distinct_keys_sort_key)
qed

lemma canonicalize_idem: "canonicalize ser v = Inr w \<Longrightarrow> canonicalize ser w = Inr w"
proof (induction ser v arbitrary: w rule: canonicalize.induct)
  case (1 ser entries)
  then obtain ks where ks: "rmap (keyed_entry ser) entries = Inr ks" "distinct (map fst ks)"
    and w: "w = VMap (map snd (sort_key fst ks))"
    by (auto simp: canonicalize_VMap_Inr_iff)
  have "keyed_entry ser (snd y) = Inr y" if "y \<in> set ks" for y
  proof -
    from ks(1) that obtain e where e: "e \<in> set entries" "keyed_entry ser e = Inr y"
      by (blast dest: rmap_Inr_setD)
    obtain kb k v where y: "y = (kb, k, v)" by (cases y) auto
    from e(2) have k: "canonicalize ser (fst e) = Inr k" and v: "canonicalize ser (snd e) = Inr v"
      and "ser k = Inr kb" by (simp_all add: y keyed_entry_Inr_iff)
    moreover have "canonicalize ser k = Inr k" by (rule "1.IH"(1) [OF e(1) k])
    moreover have "canonicalize ser v = Inr v" by (rule "1.IH"(2) [OF e(1) k v])
    ultimately show ?thesis by (simp add: y keyed_entry_Inr_iff)
  qed
  with ks(2) show ?case unfolding w by (rule canonicalize_keyed_fixpoint)
next
  case (2 ser items)
  then obtain vs where vs: "rmap (canonicalize ser) items = Inr vs" and w: "w = VArray vs"
    by (auto simp: result_simps)
  have "rmap (canonicalize ser) vs = Inr (map (\<lambda>v. v) vs)"
  proof (rule rmap_all_Inr)
    fix v assume "v \<in> set vs"
    with vs obtain i where "i \<in> set items" "canonicalize ser i = Inr v"
      by (blast dest: rmap_Inr_setD)
    then show "canonicalize ser v = Inr v" by (rule "2.IH")
  qed
  then show ?case by (simp add: w)
qed auto

lemma fst_keyed: "keyed_entry ser e = Inr y \<Longrightarrow> ser (fst (snd y)) = Inr (fst y)"
  by (cases y) (auto simp: keyed_entry_Inr_iff)

lemma strictly_sorted_keys:
  "distinct (map fst ks) \<Longrightarrow> sorted_wrt (<) (map fst (sort_key fst ks :: (bytes \<times> value \<times> value) list))"
  by (simp add: strict_sorted_iff distinct_keys_sort_key del: map_map)

lemma canonicalize_canonical_form: "canonicalize ser v = Inr w \<Longrightarrow> canonical ser w"
proof (induction ser v arbitrary: w rule: canonicalize.induct)
  case (1 ser entries)
  then obtain ks where ks: "rmap (keyed_entry ser) entries = Inr ks" "distinct (map fst ks)"
    and w: "w = VMap (map snd (sort_key fst ks))"
    by (auto simp: canonicalize_VMap_Inr_iff)
  have each: "canonical ser (fst (snd y)) \<and> canonical ser (snd (snd y)) \<and> ser (fst (snd y)) = Inr (fst y)"
    if "y \<in> set ks" for y
  proof -
    from ks(1) that obtain e where e: "e \<in> set entries" "keyed_entry ser e = Inr y"
      by (blast dest: rmap_Inr_setD)
    obtain kb k v where y: "y = (kb, k, v)" by (cases y) auto
    from e(2) have k: "canonicalize ser (fst e) = Inr k" and v: "canonicalize ser (snd e) = Inr v"
      and "ser k = Inr kb" by (simp_all add: y keyed_entry_Inr_iff)
    with "1.IH"(1) [OF e(1) k] "1.IH"(2) [OF e(1) k v] show ?thesis by (simp add: y)
  qed
  have eq: "map (\<lambda>e. case ser (fst e) of Inr b \<Rightarrow> b | Inl _ \<Rightarrow> []) (map snd (sort_key fst ks))
      = map fst (sort_key fst ks)"
    by (simp add: each)
  have "sorted_wrt (<) (map (\<lambda>e. case ser (fst e) of Inr b \<Rightarrow> b | Inl _ \<Rightarrow> []) (map snd (sort_key fst ks)))"
    unfolding eq by (rule strictly_sorted_keys [OF ks(2)])
  moreover have "\<forall>e \<in> set (map snd (sort_key fst ks)).
      canonical ser (fst e) \<and> canonical ser (snd e) \<and> (\<exists>b. ser (fst e) = Inr b)"
    using each by auto
  ultimately show ?case unfolding w canonical.simps by blast
next
  case (2 ser items)
  then obtain vs where vs: "rmap (canonicalize ser) items = Inr vs" and w: "w = VArray vs"
    by (auto simp: result_simps)
  have "canonical ser v" if "v \<in> set vs" for v
    using rmap_Inr_setD [OF vs that] "2.IH" by blast
  then show ?case by (simp add: w)
qed auto

lemma canonicalize_perm:
  assumes "canonicalize ser (VMap es) = Inr w" and "mset es = mset es'"
  shows "canonicalize ser (VMap es') = Inr w"
proof -
  from assms(1) obtain ks where ks: "rmap (keyed_entry ser) es = Inr ks" "distinct (map fst ks)"
    and w: "w = VMap (map snd (sort_key fst ks))" by (auto simp: canonicalize_VMap_Inr_iff)
  have "set es' = set es" using assms(2) by (metis set_mset_mset)
  with ks(1) obtain ks' where ks': "rmap (keyed_entry ser) es' = Inr ks'"
    by (metis rmap_Inr_iff_all)
  have "mset ks = mset ks'"
    using rmap_Inr_map [OF ks(1)] rmap_Inr_map [OF ks'] assms(2) by (metis mset_map)
  moreover from this have "distinct (map fst ks')"
    using ks(2) by (metis mset_eq_imp_distinct_iff mset_map)
  moreover have "sort_key fst ks = sort_key fst ks'"
  proof (rule sort_key_inj_key_eq)
    show "mset ks = mset (sort_key fst ks')" using \<open>mset ks = mset ks'\<close> by simp
    show "inj_on fst (set ks)" using ks(2) by (simp add: distinct_map)
  qed simp
  ultimately show ?thesis using ks' w by (simp add: canonicalize_VMap_Inr_iff)
qed

section \<open>The envelope\<close>

definition is_tag_entry :: "value \<times> value \<Rightarrow> bool" where
  "is_tag_entry e \<longleftrightarrow> fst e = VText ''t'' \<and> (\<exists>t. snd e = VText t)"

definition is_version_entry :: "value \<times> value \<Rightarrow> bool" where
  "is_version_entry e \<longleftrightarrow> fst e = VText ''v'' \<and> (\<exists>n. snd e = VInt n)"

definition is_payload_entry :: "value \<times> value \<Rightarrow> bool" where
  "is_payload_entry e \<longleftrightarrow> \<not> is_tag_entry e \<and> \<not> is_version_entry e"

lemma envelope_step:
  "is_tag_entry e \<Longrightarrow> \<exists>t. e = (VText ''t'', VText t) \<and> envelope (e # es) tag ver r = envelope es (Some t) ver r"
  "is_version_entry e \<Longrightarrow> \<exists>n. e = (VText ''v'', VInt n) \<and>
     envelope (e # es) tag ver r = rbind (u64_of_int n) (\<lambda>u. envelope es tag (Some u) r)"
  "is_payload_entry e \<Longrightarrow> envelope (e # es) tag ver r = envelope es tag ver (r @ [e])"
  by (cases e; auto simp: is_tag_entry_def is_version_entry_def is_payload_entry_def split: "value.splits")+

lemma envelope_result:
  assumes "\<And>e. e \<in> set es \<Longrightarrow> is_tag_entry e \<Longrightarrow> snd e = VText T"
    and "\<And>e. e \<in> set es \<Longrightarrow> is_version_entry e \<Longrightarrow> snd e = VInt (int n)"
    and "n < 2 ^ 64"
  shows "envelope es tag ver r = Inr
    (if \<exists>e \<in> set es. is_tag_entry e then Some T else tag,
     if \<exists>e \<in> set es. is_version_entry e then Some n else ver,
     r @ filter is_payload_entry es)"
  using assms
proof (induction es arbitrary: tag ver r)
  case (Cons e es)
  note IH = Cons.IH [OF Cons.prems(1,2) Cons.prems(3)]
  consider "is_tag_entry e" | "is_version_entry e" | "is_payload_entry e"
    by (auto simp: is_payload_entry_def)
  then show ?case
  proof cases
    case 1
    then have "\<not> is_version_entry e" "\<not> is_payload_entry e"
      by (auto simp: is_tag_entry_def is_version_entry_def is_payload_entry_def)
    with 1 envelope_step(1) [OF 1, of es tag ver r] Cons.prems(1) [of e] IH show ?thesis by auto
  next
    case 2
    then have "\<not> is_tag_entry e" "\<not> is_payload_entry e"
      by (auto simp: is_tag_entry_def is_version_entry_def is_payload_entry_def)
    moreover have "u64_of_int (int n) = Inr n"
      using Cons.prems(3) by (simp add: u64_of_int_def)
    ultimately show ?thesis
      using 2 envelope_step(2) [OF 2, of es tag ver r] Cons.prems(2) [of e] IH by auto
  next
    case 3
    then have "\<not> is_tag_entry e" "\<not> is_version_entry e" by (auto simp: is_payload_entry_def)
    with 3 envelope_step(3) [OF 3, of es tag ver r] IH show ?thesis by auto
  qed
qed simp

text \<open>The envelope of a canonical map that carries exactly the two keys the encoder added.\<close>

lemma envelope_of_encoded:
  assumes can: "canonicalize ser (VMap (m @ [(VText ''t'', VText T), (VText ''v'', VInt (int n))])) = Inr (VMap es)"
    and n: "n < 2 ^ 64"
  shows "\<exists>rest. envelope es None None [] = Inr (Some T, Some n, rest)
    \<and> canonicalize ser (VMap m) = Inr (VMap rest)"
proof -
  let ?tv = "[(VText ''t'', VText T), (VText ''v'', VInt (int n))]"
  from can obtain ks where ks: "rmap (keyed_entry ser) (m @ ?tv) = Inr ks" "distinct (map fst ks)"
    and es: "es = map snd (sort_key fst ks)" by (auto simp: canonicalize_VMap_Inr_iff)
  define f where "f = (\<lambda>e. projr (keyed_entry ser e))"
  have ksf: "ks = map f m @ [f (VText ''t'', VText T), f (VText ''v'', VInt (int n))]"
    using rmap_Inr_map [OF ks(1)] by (simp add: f_def)
  have fe: "keyed_entry ser e = Inr (f e)" if "e \<in> set (m @ ?tv)" for e
  proof -
    from ks(1) have "\<exists>y. keyed_entry ser e = Inr y" using that by (metis rmap_Inr_iff_all)
    then show ?thesis by (auto simp: f_def)
  qed
  obtain tb where tb: "f (VText ''t'', VText T) = (tb, VText ''t'', VText T)" "ser (VText ''t'') = Inr tb"
    using fe [of "(VText ''t'', VText T)"] by (cases "f (VText ''t'', VText T)") (auto simp: keyed_entry_Inr_iff)
  obtain vb where vb: "f (VText ''v'', VInt (int n)) = (vb, VText ''v'', VInt (int n))"
    "ser (VText ''v'') = Inr vb"
    using fe [of "(VText ''v'', VInt (int n))"]
    by (cases "f (VText ''v'', VInt (int n))") (auto simp: keyed_entry_Inr_iff)
  have key: "ser (fst (snd (f e))) = Inr (fst (f e))" if "e \<in> set m" for e
    using fst_keyed [OF fe] that by simp
  have dist: "distinct (map fst (map f m))" "tb \<notin> fst ` f ` set m" "vb \<notin> fst ` f ` set m"
    using ks(2) by (auto simp: ksf tb vb image_comp)
  have payload: "is_payload_entry (snd y)" if "y \<in> set (map f m)" for y
  proof -
    from that obtain e where e: "e \<in> set m" "y = f e" by auto
    have "fst (snd y) \<noteq> VText ''t''" "fst (snd y) \<noteq> VText ''v''"
      using key [OF e(1)] tb(2) vb(2) dist(2,3) e by force+
    then show ?thesis by (simp add: is_payload_entry_def is_tag_entry_def is_version_entry_def)
  qed
  have set_es: "set es = snd ` set (map f m) \<union> set ?tv" by (simp add: es ksf tb vb)
  have "envelope es None None [] = Inr (Some T, Some n, filter is_payload_entry es)"
  proof -
    have cases: "is_payload_entry e \<or> e \<in> set ?tv" if "e \<in> set es" for e
    proof -
      from that set_es have "e \<in> snd ` set (map f m) \<or> e \<in> set ?tv" by blast
      with payload show ?thesis by blast
    qed
    have "snd e = VText T" if "e \<in> set es" "is_tag_entry e" for e
      using cases [OF that(1)] that(2) by (auto simp: is_payload_entry_def is_tag_entry_def)
    moreover have "snd e = VInt (int n)" if "e \<in> set es" "is_version_entry e" for e
      using cases [OF that(1)] that(2) by (auto simp: is_payload_entry_def is_version_entry_def)
    moreover have "(VText ''t'', VText T) \<in> set es" "is_tag_entry (VText ''t'', VText T)"
      "(VText ''v'', VInt (int n)) \<in> set es" "is_version_entry (VText ''v'', VInt (int n))"
      by (simp_all add: set_es is_tag_entry_def is_version_entry_def)
    ultimately show ?thesis using envelope_result [of es T n None None "[]"] n by auto
  qed
  moreover have "filter is_payload_entry es = map snd (sort_key fst (map f m))"
  proof -
    have "filter is_payload_entry es = map snd (filter (is_payload_entry \<circ> snd) (sort_key fst ks))"
      by (simp add: es filter_map)
    also have "filter (is_payload_entry \<circ> snd) (sort_key fst ks)
        = sort_key fst (filter (is_payload_entry \<circ> snd) ks)" by (rule filter_sort)
    also have "filter (is_payload_entry \<circ> snd) ks = map f m"
      using payload by (simp add: ksf tb vb is_payload_entry_def is_tag_entry_def is_version_entry_def)
    finally show ?thesis .
  qed
  moreover have "canonicalize ser (VMap m) = Inr (VMap (map snd (sort_key fst (map f m))))"
  proof -
    have "rmap (keyed_entry ser) m = Inr (map f m)"
      by (rule rmap_all_Inr) (use fe in simp)
    with dist(1) show ?thesis by (simp add: canonicalize_VMap_Inr_iff del: map_map)
  qed
  ultimately show ?thesis by auto
qed


section \<open>A small writer and reader\<close>

text \<open>
  A writer that knows three keys and one map and fails on everything else, its reader, and a codec for
  the type \<open>unit\<close>: enough to apply the properties below at a concrete object.
\<close>

definition sample_map :: "value" where
  "sample_map = VMap [(VText ''a'', VInt 1), (VText ''t'', VText ''demo''), (VText ''v'', VInt 1)]"

definition sample_ser :: "value \<Rightarrow> bytes res" where
  "sample_ser v =
     (if v = VText ''a'' then Inr [1]
      else if v = VText ''t'' then Inr [2]
      else if v = VText ''v'' then Inr [3]
      else if v = sample_map then Inr [9]
      else Inl Encode)"

definition sample_de :: "bytes \<Rightarrow> value res" where
  "sample_de b =
     (if b = [1] then Inr (VText ''a'')
      else if b = [2] then Inr (VText ''t'')
      else if b = [3] then Inr (VText ''v'')
      else if b = [9] then Inr sample_map
      else Inl Decode)"

definition sample_codec :: "unit codec" where
  "sample_codec = \<lparr>tag_of = ''demo'', version_of = 1,
     ser_obj = (\<lambda>u. Inr (VMap [(VText ''a'', VInt 1)])),
     de_obj = (\<lambda>v. if v = VMap [(VText ''a'', VInt 1)] then Inr () else Inl Decode)\<rparr>"

lemma sample_read_back: "sample_ser v = Inr b \<Longrightarrow> sample_de b = Inr v"
  by (auto simp: sample_ser_def sample_de_def split: if_splits)

lemma sample_canonicalize:
  "canonicalize sample_ser (VMap [(VText ''v'', VInt 1), (VText ''t'', VText ''demo''), (VText ''a'', VInt 1)]) = Inr sample_map"
  "canonicalize sample_ser (VMap [(VText ''a'', VInt 1), (VText ''t'', VText ''demo''), (VText ''v'', VInt 1)]) = Inr sample_map"
  by code_simp+

lemma sample_encode: "encode id sample_ser sample_codec () = Inr ([9], object_id id ''demo'' [9])"
  using sample_canonicalize(2) by (simp add: encode_def sample_codec_def) (simp add: sample_ser_def sample_map_def)

section \<open>Properties\<close>

text \<open>Canonicalization puts a value in canonical form (no floats, no tags, the keys of every map
  strictly increasing in their encoding), leaves a canonical value alone, and encoding what it made
  gives the same bytes again.\<close>

theorem canonicalize_is_canonical_form:
  "canonicalize ser v = Inr w \<Longrightarrow>
     canonical ser w \<and> canonicalize ser w = Inr w \<and> (ser w = Inr bs \<longrightarrow> encode_value ser w = Inr bs)"
  using canonicalize_canonical_form canonicalize_idem by (simp add: encode_value_def)

theorem canonicalize_is_canonical_form_witness:
  "canonical sample_ser sample_map \<and> canonicalize sample_ser sample_map = Inr sample_map \<and>
     encode_value sample_ser sample_map = Inr [9]"
  using canonicalize_is_canonical_form [OF sample_canonicalize(1), of "[9]"]
  by (simp add: sample_ser_def sample_map_def)

text \<open>The order in which the entries of a map are given does not matter to its canonical form.\<close>

theorem canonicalize_ignores_entry_order:
  assumes "mset es = mset es'"
  shows "canonicalize ser (VMap es) = Inr w \<longleftrightarrow> canonicalize ser (VMap es') = Inr w"
  using assms canonicalize_perm by metis

theorem canonicalize_ignores_entry_order_witness:
  "canonicalize sample_ser (VMap [(VText ''t'', VText ''demo''), (VText ''a'', VInt 1), (VText ''v'', VInt 1)]) = Inr sample_map"
  using canonicalize_ignores_entry_order [of
      "[(VText ''t'', VText ''demo''), (VText ''a'', VInt 1), (VText ''v'', VInt 1)]"
      "[(VText ''v'', VInt 1), (VText ''t'', VText ''demo''), (VText ''a'', VInt 1)]" sample_ser sample_map]
    sample_canonicalize(1) by simp

text \<open>C25: an object that was encoded is decoded to itself and its id is the tagged hash of its bytes,
  given that the third-party reader reads back what its writer wrote and that the type's own serde code
  reads its canonicalized serialization.\<close>

theorem decode_encode:
  assumes read_back: "\<And>v b. canonical ser v \<Longrightarrow> ser v = Inr b \<Longrightarrow> de b = Inr v"
    and codec: "\<And>m w. ser_obj c x = Inr (VMap m) \<Longrightarrow> canonicalize ser (VMap m) = Inr w \<Longrightarrow> de_obj c w = Inr x"
    and version: "version_of c < 2 ^ 64"
    and enc: "encode blake ser c x = Inr (bs, i)"
  shows "i = object_id blake (tag_of c) bs \<and> decode ser de c bs = Inr x"
proof -
  from enc obtain m w where m: "ser_obj c x = Inr (VMap m)"
    and w: "canonicalize ser (VMap (m @ [(VText ''t'', VText (tag_of c)), (VText ''v'', VInt (int (version_of c)))])) = Inr w"
    and bs: "ser w = Inr bs" and i: "i = object_id blake (tag_of c) bs"
    by (auto simp: encode_def result_simps split: "value.splits")
  from w obtain es where es: "w = VMap es" by (auto simp: canonicalize_VMap_Inr_iff)
  from envelope_of_encoded [OF w [unfolded es] version] obtain rest
    where rest: "envelope es None None [] = Inr (Some (tag_of c), Some (version_of c), rest)"
      and can: "canonicalize ser (VMap m) = Inr (VMap rest)" by blast
  have "de bs = Inr w" using read_back [OF canonicalize_canonical_form [OF w] bs] .
  moreover have "encode_value ser w = Inr bs"
    using canonicalize_idem [OF w] bs by (simp add: encode_value_def)
  moreover have "de_obj c (VMap rest) = Inr x" using codec [OF m can] .
  ultimately show ?thesis by (simp add: decode_def es rest i)
qed

theorem decode_encode_witness:
  "decode sample_ser sample_de sample_codec [9] = Inr ()"
proof -
  have "de_obj sample_codec w = Inr ()" if "ser_obj sample_codec () = Inr (VMap m)"
    "canonicalize sample_ser (VMap m) = Inr w" for m w
  proof -
    have "canonicalize sample_ser (VMap [(VText ''a'', VInt 1)]) = Inr (VMap [(VText ''a'', VInt 1)])" by code_simp
    with that show ?thesis by (auto simp: sample_codec_def)
  qed
  with decode_encode [of sample_ser sample_de sample_codec "()" id, OF sample_read_back _ _ sample_encode]
  show ?thesis by (simp add: sample_codec_def)
qed

text \<open>Decoding accepts only what encoding could have written: the bytes are the encoding of a value
  in canonical form that names the type's tag and a version that is not newer, and the object is read
  from the remaining entries.\<close>

theorem decode_accepts_only_canonical_bytes:
  assumes "decode ser de c bs = Inr x"
  shows "\<exists>es w n rest. de bs = Inr (VMap es) \<and> canonicalize ser (VMap es) = Inr w \<and> canonical ser w
    \<and> ser w = Inr bs \<and> envelope es None None [] = Inr (Some (tag_of c), Some n, rest)
    \<and> n \<le> version_of c \<and> de_obj c (VMap rest) = Inr x"
proof -
  from assms obtain es where es: "de bs = Inr (VMap es)" and "encode_value ser (VMap es) = Inr bs"
    by (auto simp: decode_def result_simps split: if_splits "value.splits")
  then obtain w where w: "canonicalize ser (VMap es) = Inr w" "ser w = Inr bs"
    by (auto simp: encode_value_def result_simps)
  moreover have "canonical ser w" using w(1) by (rule canonicalize_canonical_form)
  moreover have "\<exists>n rest. envelope es None None [] = Inr (Some (tag_of c), Some n, rest)
      \<and> n \<le> version_of c \<and> de_obj c (VMap rest) = Inr x"
    using assms w es
    by (auto simp: decode_def result_simps split: if_splits)
  ultimately show ?thesis using es by blast
qed

theorem decode_accepts_only_canonical_bytes_witness:
  "\<exists>es n rest. sample_de [9] = Inr (VMap es) \<and> envelope es None None [] = Inr (Some ''demo'', Some n, rest) \<and> n \<le> 1"
proof -
  have "decode sample_ser sample_de sample_codec [9] = Inr ()"
    using sample_canonicalize(2)
    by (simp add: decode_def sample_de_def sample_map_def encode_value_def u64_of_int_def result_simps)
      (simp add: sample_codec_def sample_ser_def sample_map_def)
  from decode_accepts_only_canonical_bytes [OF this] show ?thesis by (auto simp: sample_codec_def)
qed

end
