(* ===== verification/Obj_Store.thy ===== *)
theory Obj_Store
  imports Cbor
begin

text \<open>
  The object store contract and the in-memory store: \<open>crates/tessra-core/src/store.rs\<close>.

  The store maps object ids to bytes. \<open>mem_put\<close> and \<open>mem_get\<close> are the trait's provided methods
  \<open>put\<close> and \<open>get\<close> over the \<open>MemoryStore\<close>; both are pure functions here, the lock
  around the map being invisible to a single caller. The locale \<open>node_store\<close> is the contract that
  the trie relies on, and \<open>mem\<close> its interpretation on this store.
\<close>

section \<open>The in-memory store\<close>

type_synonym mem_store = "oid \<rightharpoonup> bytes"

definition mem_new :: mem_store where
  "mem_new = Map.empty"

definition put_bytes :: "(bytes \<Rightarrow> bytes) \<Rightarrow> mem_store \<Rightarrow> string \<Rightarrow> bytes \<Rightarrow> mem_store \<times> oid" where
  "put_bytes blake s tag bs =
     (let i = object_id blake tag bs
      in ((case s i of None \<Rightarrow> s(i \<mapsto> bs) | Some _ \<Rightarrow> s), i))"

definition get_bytes :: "mem_store \<Rightarrow> oid \<Rightarrow> bytes option" where
  "get_bytes s i = s i"

definition mem_has :: "mem_store \<Rightarrow> oid \<Rightarrow> bool" where
  "mem_has s i \<longleftrightarrow> get_bytes s i \<noteq> None"

definition put_blob :: "(bytes \<Rightarrow> bytes) \<Rightarrow> mem_store \<Rightarrow> bytes \<Rightarrow> mem_store \<times> oid" where
  "put_blob blake s bs = put_bytes blake s ''blob'' bs"

definition mem_put :: "(bytes \<Rightarrow> bytes) \<Rightarrow> (value \<Rightarrow> bytes res) \<Rightarrow> 'a codec \<Rightarrow>
    mem_store \<Rightarrow> 'a \<Rightarrow> (mem_store \<times> oid) res" where
  "mem_put blake ser c s x =
     rbind (encode blake ser c x) (\<lambda>(bs, i). Inr (put_bytes blake s (tag_of c) bs))"

definition mem_get :: "(bytes \<Rightarrow> bytes) \<Rightarrow> (value \<Rightarrow> bytes res) \<Rightarrow> (bytes \<Rightarrow> value res) \<Rightarrow> 'a codec \<Rightarrow>
    mem_store \<Rightarrow> oid \<Rightarrow> 'a res" where
  "mem_get blake ser de c s i =
     rbind (of_opt (NotFound i) (get_bytes s i)) (\<lambda>bs.
     if object_id blake (tag_of c) bs \<noteq> i then Inl StoreErr else decode ser de c bs)"

section \<open>The contract\<close>

text \<open>
  What a client that reads and writes nodes of one type relies on. \<open>addr\<close> is the id a node is stored
  under, \<open>ok\<close> the invariant of the store, and \<open>sound\<close> the documented behaviour of the third-party
  code below the store (the hash and the encoder), under which the store keeps its promises: writing
  returns the node's address, what was written is read back, nothing stored before is lost or
  changed, and two nodes under one id are one node.
\<close>

locale node_store =
  fixes put :: "'s \<Rightarrow> 'a \<Rightarrow> ('s \<times> oid) res"
    and get :: "'s \<Rightarrow> oid \<Rightarrow> 'a res"
    and addr :: "'a \<Rightarrow> oid"
    and ok :: "'s \<Rightarrow> bool"
    and sound :: bool
  assumes put_total: "sound \<Longrightarrow> \<exists>s'. put s n = Inr (s', addr n)"
    and put_ok: "sound \<Longrightarrow> ok s \<Longrightarrow> put s n = Inr (s', i) \<Longrightarrow> ok s'"
    and get_put: "sound \<Longrightarrow> ok s \<Longrightarrow> put s n = Inr (s', i) \<Longrightarrow> get s' i = Inr n"
    and get_mono: "sound \<Longrightarrow> ok s \<Longrightarrow> put s n = Inr (s', i) \<Longrightarrow> get s j = Inr m \<Longrightarrow> get s' j = Inr m"
    and get_addr: "sound \<Longrightarrow> ok s \<Longrightarrow> get s i = Inr n \<Longrightarrow> i = addr n"
begin

lemma put_spec:
  assumes "sound" and "ok s"
  obtains s' where "put s n = Inr (s', addr n)" and "ok s'" and "get s' (addr n) = Inr n"
    and "\<And>j m. get s j = Inr m \<Longrightarrow> get s' j = Inr m"
  using put_total [OF assms(1), of s n] put_ok [OF assms] get_put [OF assms] get_mono [OF assms] by blast

lemma get_inj: "sound \<Longrightarrow> ok s \<Longrightarrow> get s i = Inr n \<Longrightarrow> get s j = Inr n \<Longrightarrow> i = j"
  using get_addr by metis

end

section \<open>The in-memory store keeps the contract\<close>

text \<open>Every entry of the store is filed under its own hash.\<close>

definition plain_tag :: "string \<Rightarrow> bool" where
  "plain_tag tag \<longleftrightarrow> CHR 0x0A \<notin> set tag"

definition mem_ok :: "(bytes \<Rightarrow> bytes) \<Rightarrow> (value \<Rightarrow> bytes res) \<Rightarrow> (bytes \<Rightarrow> value res) \<Rightarrow> 'a codec \<Rightarrow>
    mem_store \<Rightarrow> bool" where
  "mem_ok blake ser de c s \<longleftrightarrow>
     (\<forall>i bs. s i = Some bs \<longrightarrow> (\<exists>tag. plain_tag tag \<and> i = object_id blake tag bs)) \<and>
     (\<forall>i bs x. s i = Some bs \<longrightarrow> i = object_id blake (tag_of c) bs \<longrightarrow> decode ser de c bs = Inr x \<longrightarrow>
        encode blake ser c x = Inr (bs, i))"

text \<open>The hash has no collision, and the codec encodes every object and decodes what it encoded.\<close>

definition mem_sound :: "(bytes \<Rightarrow> bytes) \<Rightarrow> (value \<Rightarrow> bytes res) \<Rightarrow> (bytes \<Rightarrow> value res) \<Rightarrow> 'a codec \<Rightarrow> bool" where
  "mem_sound blake ser de c \<longleftrightarrow> inj blake \<and> plain_tag (tag_of c) \<and>
     (\<forall>x. \<exists>bs. encode blake ser c x = Inr (bs, object_id blake (tag_of c) bs) \<and> decode ser de c bs = Inr x)"

definition mem_addr :: "(bytes \<Rightarrow> bytes) \<Rightarrow> (value \<Rightarrow> bytes res) \<Rightarrow> 'a codec \<Rightarrow> 'a \<Rightarrow> oid" where
  "mem_addr blake ser c x = snd (projr (encode blake ser c x))"

lemma object_id_inject:
  assumes "inj blake" and "plain_tag t" and "plain_tag t'" and "object_id blake t bs = object_id blake t' bs'"
  shows "t = t' \<and> bs = bs'"
  using assms(2,3) by (intro object_id_separates [OF assms(1) _ _ assms(4)]) (simp_all add: plain_tag_def)

lemma mem_put_encoded:
  assumes "encode blake ser c x = Inr (bs, i)" and "i = object_id blake (tag_of c) bs"
  shows "mem_put blake ser c s x = Inr ((case s i of None \<Rightarrow> s(i \<mapsto> bs) | Some _ \<Rightarrow> s), i)"
  unfolding assms(2) using assms(1) by (simp add: assms(2) mem_put_def put_bytes_def Let_def)

lemma mem_okD:
  assumes "mem_ok blake ser de c s" and "s i = Some bs"
  shows "\<exists>tag. plain_tag tag \<and> i = object_id blake tag bs"
    and "i = object_id blake (tag_of c) bs \<Longrightarrow> decode ser de c bs = Inr x \<Longrightarrow> encode blake ser c x = Inr (bs, i)"
  using assms by (simp_all add: mem_ok_def)

lemma mem_put_effect:
  assumes sound: "mem_sound blake ser de c" and ok: "mem_ok blake ser de c s"
    and put: "mem_put blake ser c s x = Inr (s', i)"
  obtains bs where "encode blake ser c x = Inr (bs, i)" and "i = object_id blake (tag_of c) bs"
    and "decode ser de c bs = Inr x" and "s' = s(i \<mapsto> bs)" and "\<And>b. s i = Some b \<Longrightarrow> b = bs"
proof -
  from sound obtain bs where bs: "encode blake ser c x = Inr (bs, object_id blake (tag_of c) bs)"
    "decode ser de c bs = Inr x" unfolding mem_sound_def by blast
  from put mem_put_encoded [OF bs(1) refl] have i: "i = object_id blake (tag_of c) bs"
    and s': "s' = (case s i of None \<Rightarrow> s(i \<mapsto> bs) | Some _ \<Rightarrow> s)" by auto
  have same: "b = bs" if "s i = Some b" for b
  proof -
    from mem_okD(1) [OF ok that] obtain tag where tag: "plain_tag tag" "i = object_id blake tag b"
      by blast
    from sound have "inj blake" "plain_tag (tag_of c)" by (simp_all add: mem_sound_def)
    from object_id_inject [OF this(1) tag(1) this(2)] tag(2) i show ?thesis by simp
  qed
  then have "s' = s(i \<mapsto> bs)" by (auto simp: s' split: option.splits)
  with that bs i same show thesis by simp
qed

interpretation mem: node_store "mem_put blake ser c" "mem_get blake ser de c" "mem_addr blake ser c"
  "mem_ok blake ser de c" "mem_sound blake ser de c" for blake ser de c
proof
  fix s n assume "mem_sound blake ser de c"
  then obtain bs where bs: "encode blake ser c n = Inr (bs, object_id blake (tag_of c) bs)"
    unfolding mem_sound_def by blast
  from mem_put_encoded [OF bs refl] bs show "\<exists>s'. mem_put blake ser c s n = Inr (s', mem_addr blake ser c n)"
    by (auto simp: mem_addr_def)
next
  fix s n s' i
  assume A: "mem_sound blake ser de c" "mem_ok blake ser de c s" "mem_put blake ser c s n = Inr (s', i)"
  from mem_put_effect [OF A] obtain bs where E: "encode blake ser c n = Inr (bs, i)"
    "i = object_id blake (tag_of c) bs" "decode ser de c bs = Inr n" "s' = s(i \<mapsto> bs)"
    and same: "\<And>b. s i = Some b \<Longrightarrow> b = bs" by blast
  show "mem_ok blake ser de c s'"
    unfolding mem_ok_def
  proof (intro conjI allI impI)
    fix j b assume j: "s' j = Some b"
    have "plain_tag (tag_of c)" using A(1) by (simp add: mem_sound_def)
    with j E(2) mem_okD(1) [OF A(2), of j b] show "\<exists>tag. plain_tag tag \<and> j = object_id blake tag b"
      by (cases "j = i") (auto simp: E(4))
    fix x assume d: "j = object_id blake (tag_of c) b" "decode ser de c b = Inr x"
    show "encode blake ser c x = Inr (b, j)"
    proof (cases "j = i")
      case True
      with j E(3) d(2) have "b = bs" "x = n" by (simp_all add: E(4))
      with E(1) True show ?thesis by simp
    next
      case False
      with j have "s j = Some b" by (simp add: E(4))
      from mem_okD(2) [OF A(2) this d] show ?thesis .
    qed
  qed
  from E show "mem_get blake ser de c s' i = Inr n"
    by (simp add: mem_get_def get_bytes_def)
  fix j m assume "mem_get blake ser de c s j = Inr m"
  then show "mem_get blake ser de c s' j = Inr m"
    using E(4) same by (cases "s j") (auto simp: mem_get_def get_bytes_def split: if_splits)
next
  fix s i n
  assume "mem_sound blake ser de c" "mem_ok blake ser de c s" "mem_get blake ser de c s i = Inr n"
  then obtain bs where "s i = Some bs" "i = object_id blake (tag_of c) bs" "decode ser de c bs = Inr n"
    by (auto simp: mem_get_def get_bytes_def result_simps split: if_splits)
  from mem_okD(2) [OF \<open>mem_ok blake ser de c s\<close> this]
  have "encode blake ser c n = Inr (bs, i)" .
  then show "i = mem_addr blake ser c n" by (simp add: mem_addr_def)
qed

end
