(* ===== verification/Trie_Node.thy ===== *)
theory Trie_Node
  imports Obj_Store
begin

text \<open>
  Nodes of the hash array mapped trie: the first half of \<open>crates/tessra-core/src/trie.rs\<close>.

  A node is a bitmap of sixteen bits and the vector of the slots whose bit is set, in the order of
  the bits. Nothing checks on reading that the two agree, so an index computed from the bitmap can
  be outside the vector; that is the panic of the indexing, the result \<open>Panic\<close>. The lemmas show
  that on well-formed nodes \<open>get_slot\<close> and \<open>set_slot\<close> are the lookup and the update of a function
  from nibbles to slots, and that this function determines the node.
\<close>

section \<open>Data\<close>

datatype trie_value = TId oid | TConflict "oid list" | TSet

fun tv_ids :: "trie_value \<Rightarrow> oid list" where
  "tv_ids (TId i) = [i]"
| "tv_ids (TConflict v) = v"
| "tv_ids TSet = []"

definition tv_union :: "trie_value \<Rightarrow> trie_value \<Rightarrow> trie_value" where
  "tv_union a b =
     (let v = btree_list (tv_ids a @ tv_ids b)
      in if length v = 1 then TId (v ! 0) else TConflict v)"

datatype slot = Leaf bytes trie_value | SNode oid

record trie_node =
  bitmap :: "16 word"
  slots :: "slot list"

text \<open>How removed-versus-changed is resolved in a merge.\<close>

datatype merge_policy = Pointers | SetPolicy

text \<open>A slot viewed abstractly during merge.\<close>

datatype sub = Empty | SLeaf bytes trie_value | Sub oid

fun sub_of_slot :: "slot option \<Rightarrow> sub" where
  "sub_of_slot None = Empty"
| "sub_of_slot (Some (Leaf k v)) = SLeaf k v"
| "sub_of_slot (Some (SNode i)) = Sub i"

text \<open>The inverse, the slot that a merged or normalized subtree is stored as.\<close>

fun slot_of_sub :: "sub \<Rightarrow> slot option" where
  "slot_of_sub Empty = None"
| "slot_of_sub (SLeaf k v) = Some (Leaf k v)"
| "slot_of_sub (Sub i) = Some (SNode i)"

section \<open>Serialization of values and slots\<close>

fun value_of_tv :: "trie_value \<Rightarrow> value" where
  "value_of_tv (TId i) = VBytes i"
| "value_of_tv (TConflict v) = VMap [(VText ''conflict'', VArray (map VBytes v))]"
| "value_of_tv TSet = VBool True"

fun oid_of_value :: "value \<Rightarrow> oid res" where
  "oid_of_value (VBytes b) = (case oid_from_slice b of Inl e \<Rightarrow> Inl Decode | Inr i \<Rightarrow> Inr i)"
| "oid_of_value _ = Inl Decode"

text \<open>
  The derived reader of the helper struct \<open>C\<close> with its one field: the first entry under its
  key, an array of ids.
\<close>

definition conflict_of_map :: "(value \<times> value) list \<Rightarrow> oid list res" where
  "conflict_of_map m =
     (case map_of m (VText ''conflict'') of
        Some (VArray items) \<Rightarrow> rmap oid_of_value items
      | _ \<Rightarrow> Inl Decode)"

fun tv_of_value :: "value \<Rightarrow> trie_value res" where
  "tv_of_value (VBytes b) = (case oid_from_slice b of Inl e \<Rightarrow> Inl Decode | Inr i \<Rightarrow> Inr (TId i))"
| "tv_of_value (VBool True) = Inr TSet"
| "tv_of_value (VMap m) = rbind (conflict_of_map m) (\<lambda>v. Inr (TConflict v))"
| "tv_of_value _ = Inl Decode"

fun value_of_slot :: "slot \<Rightarrow> value" where
  "value_of_slot (Leaf k v) = VMap [(VText ''leaf'', VArray [VBytes k, value_of_tv v])]"
| "value_of_slot (SNode i) = VMap [(VText ''node'', VBytes i)]"

definition slot_of_value :: "value \<Rightarrow> slot res" where
  "slot_of_value v =
     (case v of
        VMap [(VText t, x)] \<Rightarrow>
          (case x of
             VArray [a, b] \<Rightarrow>
               if t = ''leaf'' then
                 (case a of VBytes k \<Rightarrow> rbind (tv_of_value b) (\<lambda>w. Inr (Leaf k w)) | _ \<Rightarrow> Inl Decode)
               else Inl Decode
           | VBytes i \<Rightarrow>
               if t = ''node'' then (case oid_from_slice i of Inl e \<Rightarrow> Inl Decode | Inr j \<Rightarrow> Inr (SNode j))
               else Inl Decode
           | _ \<Rightarrow> Inl Decode)
      | _ \<Rightarrow> Inl Decode)"

section \<open>Slots of a node\<close>

definition node_empty :: trie_node where
  "node_empty = \<lparr>bitmap = 0, slots = []\<rparr>"

definition count_ones :: "16 word \<Rightarrow> nat" where
  "count_ones w = length (filter (bit w) [0..<16])"

text \<open>\<open>1 << nibble\<close>, and the bits below, \<open>((1u32 << nibble) as u16).wrapping_sub(1)\<close>.\<close>

definition nib_bit :: "nat \<Rightarrow> 16 word" where
  "nib_bit n = push_bit n 1"

definition below_mask :: "nat \<Rightarrow> 16 word" where
  "below_mask n = nib_bit n - 1"

definition slot_index :: "trie_node \<Rightarrow> nat \<Rightarrow> nat option" where
  "slot_index nd n =
     (if bitmap nd AND nib_bit n = 0 then None
      else Some (count_ones (bitmap nd AND below_mask n)))"

definition get_slot :: "trie_node \<Rightarrow> nat \<Rightarrow> slot option res" where
  "get_slot nd n =
     (case slot_index nd n of
        None \<Rightarrow> Inr None
      | Some i \<Rightarrow> if i < length (slots nd) then Inr (Some (slots nd ! i)) else Inl Panic)"

definition set_slot :: "trie_node \<Rightarrow> nat \<Rightarrow> slot option \<Rightarrow> trie_node res" where
  "set_slot nd n sl =
     (case (slot_index nd n, sl) of
        (Some i, Some s) \<Rightarrow>
          if i < length (slots nd) then Inr (nd\<lparr>slots := (slots nd)[i := s]\<rparr>) else Inl Panic
      | (Some i, None) \<Rightarrow>
          if i < length (slots nd)
          then Inr (nd\<lparr>slots := take i (slots nd) @ drop (Suc i) (slots nd),
                       bitmap := bitmap nd AND NOT (nib_bit n)\<rparr>)
          else Inl Panic
      | (None, Some s) \<Rightarrow>
          let bm = bitmap nd OR nib_bit n; i = count_ones (bm AND below_mask n)
          in if i \<le> length (slots nd)
             then Inr (nd\<lparr>bitmap := bm, slots := take i (slots nd) @ s # drop i (slots nd)\<rparr>)
             else Inl Panic
      | (None, None) \<Rightarrow> Inr nd)"

section \<open>Ranks\<close>

definition rank :: "16 word \<Rightarrow> nat \<Rightarrow> nat" where
  "rank w n = length (filter (bit w) [0..<n])"

lemma rank_0 [simp]: "rank w 0 = 0"
  by (simp add: rank_def)

lemma rank_Suc: "rank w (Suc n) = rank w n + (if bit w n then 1 else 0)"
  by (simp add: rank_def)

lemma rank_mono: "i \<le> j \<Longrightarrow> rank w i \<le> rank w j"
  by (induction j rule: nat_induct_at_least) (auto simp: rank_Suc le_Suc_eq)

lemma rank_strict: "i < j \<Longrightarrow> bit w i \<Longrightarrow> rank w i < rank w j"
proof -
  assume "i < j" and b: "bit w i"
  then have "rank w (Suc i) \<le> rank w j" by (intro rank_mono) simp
  with b show ?thesis by (simp add: rank_Suc)
qed

lemma rank_inj: "bit w i \<Longrightarrow> bit w j \<Longrightarrow> rank w i = rank w j \<Longrightarrow> i = j"
  by (metis less_not_refl nat_neq_iff rank_strict)

lemma below_mask_eq: "below_mask n = mask n"
  by (simp add: below_mask_def nib_bit_def mask_eq_exp_minus_1 push_bit_eq_mult)

lemma count_ones_below:
  assumes "n \<le> 16"
  shows "count_ones (w AND below_mask n) = rank w n"
proof -
  have "[0..<16] = [0..<n] @ [n..<16]"
    using upt_add_eq_append [of 0 n "16 - n"] assms by simp
  moreover have "filter (bit (w AND mask n)) [0..<n] = filter (bit w) [0..<n]"
    using assms by (intro filter_cong) (auto simp: bit_simps)
  moreover have "filter (bit (w AND mask n)) [n..<16] = []"
    by (auto simp: filter_empty_conv bit_simps)
  ultimately show ?thesis
    by (simp add: count_ones_def rank_def below_mask_eq)
qed

lemma count_ones_rank: "count_ones w = rank w 16"
  by (simp add: count_ones_def rank_def)

lemma bit_nib_bit: "bit (nib_bit n) j \<longleftrightarrow> j = n \<and> n < 16"
  by (auto simp: nib_bit_def bit_simps)

lemma single_bit_zero: "n < 16 \<Longrightarrow> (w AND nib_bit n = 0) = (\<not> bit w n)"
  by (metis and_exp_eq_0_iff_not_bit push_bit_of_1 nib_bit_def)

section \<open>Well-formed nodes\<close>

definition wf_node :: "trie_node \<Rightarrow> bool" where
  "wf_node nd \<longleftrightarrow> length (slots nd) = rank (bitmap nd) 16"

definition slot_at :: "trie_node \<Rightarrow> nat \<Rightarrow> slot option" where
  "slot_at nd n = (if bit (bitmap nd) n then Some (slots nd ! rank (bitmap nd) n) else None)"

lemma wf_node_empty [simp]: "wf_node node_empty"
  by (simp add: wf_node_def node_empty_def rank_def)

lemma slot_at_empty [simp]: "slot_at node_empty n = None"
  by (simp add: slot_at_def node_empty_def)

lemma slot_index_eq:
  "n < 16 \<Longrightarrow> slot_index nd n = (if bit (bitmap nd) n then Some (rank (bitmap nd) n) else None)"
  by (simp add: slot_index_def single_bit_zero count_ones_below)

lemma rank_in_bounds:
  "wf_node nd \<Longrightarrow> n < 16 \<Longrightarrow> bit (bitmap nd) n \<Longrightarrow> rank (bitmap nd) n < length (slots nd)"
  using rank_strict [of n 16] by (simp add: wf_node_def)

lemma get_slot_wf [simp]: "wf_node nd \<Longrightarrow> n < 16 \<Longrightarrow> get_slot nd n = Inr (slot_at nd n)"
  by (simp add: get_slot_def slot_index_eq slot_at_def rank_in_bounds)

lemma slot_at_beyond [simp]: "16 \<le> n \<Longrightarrow> slot_at nd n = None"
  by (simp add: slot_at_def bit_word.rep_eq)

lemma slot_at_None_iff: "slot_at nd n = None \<longleftrightarrow> \<not> bit (bitmap nd) n"
  by (simp add: slot_at_def)

lemma bit_set_bit: "n < 16 \<Longrightarrow> bit (w OR nib_bit n) j \<longleftrightarrow> bit w j \<or> j = n"
  by (auto simp: bit_or_iff bit_nib_bit)

lemma bit_clear_bit: "bit (w AND NOT (nib_bit n)) j \<longleftrightarrow> bit w j \<and> j \<noteq> n"
  using bit_imp_le_length [of w j] by (auto simp: bit_and_iff bit_not_iff bit_nib_bit)

lemma rank_set_bit:
  "n < 16 \<Longrightarrow> \<not> bit w n \<Longrightarrow> rank (w OR nib_bit n) j = rank w j + (if n < j then 1 else 0)"
  by (induction j) (auto simp: rank_Suc bit_set_bit less_Suc_eq)

lemma rank_clear_bit:
  "bit w n \<Longrightarrow> rank w j = rank (w AND NOT (nib_bit n)) j + (if n < j then 1 else 0)"
  by (induction j) (auto simp: rank_Suc bit_clear_bit less_Suc_eq)

lemma rank_le_imp: "bit w j \<Longrightarrow> \<not> n \<le> j \<Longrightarrow> rank w j < rank w n"
  by (simp add: rank_strict)

text \<open>The update of a well-formed node, case by case.\<close>

lemma set_slot_replace:
  assumes "wf_node nd" "n < 16" "bit (bitmap nd) n"
  shows "\<exists>nd'. set_slot nd n (Some s) = Inr nd' \<and> wf_node nd' \<and>
    (\<forall>j. slot_at nd' j = (if j = n then Some s else slot_at nd j))"
proof -
  let ?i = "rank (bitmap nd) n"
  let ?nd = "nd\<lparr>slots := (slots nd)[?i := s]\<rparr>"
  have i: "?i < length (slots nd)" by (rule rank_in_bounds [OF assms])
  have "set_slot nd n (Some s) = Inr ?nd"
    using assms i by (simp add: set_slot_def slot_index_eq)
  moreover have "wf_node ?nd" using assms(1) by (simp add: wf_node_def)
  moreover have "slot_at ?nd j = (if j = n then Some s else slot_at nd j)" for j
    using assms(3) i rank_inj [of "bitmap nd" j n] by (auto simp: slot_at_def nth_list_update)
  ultimately show ?thesis by blast
qed

lemma set_slot_delete:
  assumes "wf_node nd" "n < 16" "bit (bitmap nd) n"
  shows "\<exists>nd'. set_slot nd n None = Inr nd' \<and> wf_node nd' \<and>
    (\<forall>j. slot_at nd' j = (if j = n then None else slot_at nd j))"
proof -
  let ?b = "bitmap nd" and ?xs = "slots nd"
  let ?b' = "?b AND NOT (nib_bit n)" and ?i = "rank (bitmap nd) n"
  let ?ys = "take ?i ?xs @ drop (Suc ?i) ?xs"
  let ?nd = "nd\<lparr>slots := ?ys, bitmap := ?b'\<rparr>"
  have i: "?i < length ?xs" by (rule rank_in_bounds [OF assms])
  have "set_slot nd n None = Inr ?nd"
    using assms i by (simp add: set_slot_def slot_index_eq)
  moreover have "wf_node ?nd"
    using assms i rank_clear_bit [OF assms(3), of 16] by (simp add: wf_node_def)
  moreover have "slot_at ?nd j = (if j = n then None else slot_at nd j)" for j
  proof (cases "bit ?b j \<and> j \<noteq> n")
    case True
    have "?ys ! rank ?b' j = ?xs ! rank ?b j"
    proof (cases "n < j")
      case True
      have "?i < rank ?b j" using True by (simp add: rank_strict assms(3))
      with i rank_clear_bit [OF assms(3), of j] True show ?thesis
        by (auto simp: nth_append min_def)
    next
      case False
      with \<open>bit ?b j \<and> j \<noteq> n\<close> have "rank ?b j < ?i" by (simp add: rank_strict)
      with i rank_clear_bit [OF assms(3), of j] False show ?thesis by (simp add: nth_append)
    qed
    with True show ?thesis by (simp add: slot_at_def bit_clear_bit)
  next
    case False
    then show ?thesis by (auto simp: slot_at_def bit_clear_bit)
  qed
  ultimately show ?thesis by blast
qed

lemma set_slot_insert:
  assumes "wf_node nd" "n < 16" "\<not> bit (bitmap nd) n"
  shows "\<exists>nd'. set_slot nd n (Some s) = Inr nd' \<and> wf_node nd' \<and>
    (\<forall>j. slot_at nd' j = (if j = n then Some s else slot_at nd j))"
proof -
  let ?b = "bitmap nd" and ?xs = "slots nd"
  let ?b' = "?b OR nib_bit n" and ?i = "rank (bitmap nd) n"
  let ?ys = "take ?i ?xs @ s # drop ?i ?xs"
  let ?nd = "nd\<lparr>bitmap := ?b', slots := ?ys\<rparr>"
  have i: "?i \<le> length ?xs"
    using assms(1,2) rank_mono [of n 16 ?b] by (simp add: wf_node_def)
  have count: "count_ones (?b' AND below_mask n) = ?i"
    using rank_set_bit [OF assms(2,3), of n] assms(2) by (simp add: count_ones_below)
  have "set_slot nd n (Some s) = Inr ?nd"
    unfolding set_slot_def using assms i count
    by (simp add: slot_index_eq Let_def)
  moreover have "wf_node ?nd"
    using assms i rank_set_bit [OF assms(2,3), of 16] by (simp add: wf_node_def)
  moreover have "slot_at ?nd j = (if j = n then Some s else slot_at nd j)" for j
  proof (cases "j = n")
    case True
    have "rank ?b' n = ?i" using rank_set_bit [OF assms(2,3), of n] by simp
    with True i assms(2) show ?thesis
      by (simp add: slot_at_def nth_append bit_set_bit)
  next
    case False
    show ?thesis
    proof (cases "bit ?b j")
      case True
      have "?ys ! rank ?b' j = ?xs ! rank ?b j"
      proof (cases "n < j")
        case nj: True
        have "?i \<le> rank ?b j" using nj by (intro rank_mono) simp
        with i rank_set_bit [OF assms(2,3), of j] nj show ?thesis
          by (simp add: nth_append Suc_diff_le)
      next
        case nj: False
        with False True have "rank ?b j < ?i" by (simp add: rank_strict)
        with i rank_set_bit [OF assms(2,3), of j] nj show ?thesis
          by (simp add: nth_append)
      qed
      with True False assms(2) show ?thesis by (simp add: slot_at_def bit_set_bit)
    next
      case False
      with \<open>j \<noteq> n\<close> assms(2) show ?thesis by (simp add: slot_at_def bit_set_bit)
    qed
  qed
  ultimately show ?thesis by blast
qed

lemma set_slot_wf:
  assumes "wf_node nd" and "n < 16"
  obtains nd' where "set_slot nd n sl = Inr nd'" and "wf_node nd'"
    and "\<And>j. slot_at nd' j = (if j = n then sl else slot_at nd j)"
proof (cases "bit (bitmap nd) n")
  case True
  with assms that set_slot_replace [of nd n] set_slot_delete [of nd n] show thesis
    by (cases sl) blast+
next
  case False
  show thesis
  proof (cases sl)
    case None
    with False assms have "set_slot nd n sl = Inr nd" by (simp add: set_slot_def slot_index_eq)
    with that [of nd] None False assms(1) show thesis by (auto simp: slot_at_None_iff)
  next
    case (Some s)
    with False assms that set_slot_insert [of nd n s] show thesis by blast
  qed
qed

section \<open>The slots of a node in order\<close>

definition used :: "trie_node \<Rightarrow> nat list" where
  "used nd = filter (\<lambda>j. slot_at nd j \<noteq> None) [0..<16]"

lemma filter_nth_rank:
  "bit w j \<Longrightarrow> j < n \<Longrightarrow> filter (bit w) [0..<n] ! rank w j = j"
proof -
  assume b: "bit w j" and j: "j < n"
  then have "[0..<n] = [0..<j] @ j # [Suc j..<n]"
    by (metis append_Cons append_self_conv2 le_add_diff_inverse less_imp_le_nat upt_add_eq_append upt_conv_Cons zero_le)
  with b show ?thesis by (simp add: rank_def nth_append)
qed

lemma slots_in_order:
  assumes "wf_node nd"
  shows "slots nd = map (\<lambda>j. the (slot_at nd j)) (used nd)"
proof (rule nth_equalityI)
  have used: "used nd = filter (bit (bitmap nd)) [0..<16]"
    by (simp add: used_def slot_at_None_iff)
  then show "length (slots nd) = length (map (\<lambda>j. the (slot_at nd j)) (used nd))"
    using assms by (simp add: wf_node_def rank_def)
  fix i assume i: "i < length (slots nd)"
  then have i': "i < length (used nd)" using assms used by (simp add: wf_node_def rank_def)
  define j where "j = used nd ! i"
  have j: "bit (bitmap nd) j" "j < 16"
    using nth_mem [OF i'] by (auto simp: j_def used)
  have "i = rank (bitmap nd) j"
  proof -
    have "distinct (used nd)" by (simp add: used_def)
    moreover have "used nd ! rank (bitmap nd) j = used nd ! i"
      using filter_nth_rank [OF j] by (simp add: used j_def)
    moreover have "rank (bitmap nd) j < length (used nd)"
      using rank_strict [OF j(2,1)] by (simp add: used rank_def)
    ultimately show ?thesis using i' by (simp add: nth_eq_iff_index_eq)
  qed
  have "map (\<lambda>j. the (slot_at nd j)) (used nd) ! i = the (slot_at nd j)"
    using i' by (simp add: j_def)
  also have "\<dots> = slots nd ! i" using j(1) \<open>i = rank (bitmap nd) j\<close> by (simp add: slot_at_def)
  finally show "slots nd ! i = map (\<lambda>j. the (slot_at nd j)) (used nd) ! i" by simp
qed

text \<open>The function from nibbles to slots determines the node.\<close>

lemma node_eqI:
  fixes nd nd' :: trie_node
  assumes "wf_node nd" and "wf_node nd'" and "\<And>j. j < 16 \<Longrightarrow> slot_at nd j = slot_at nd' j"
  shows "nd = nd'"
proof -
  have all: "slot_at nd j = slot_at nd' j" for j
    using assms(3) [of j] by (cases "j < 16") simp_all
  then have "bit (bitmap nd) j = bit (bitmap nd') j" for j
    by (metis slot_at_None_iff)
  then have "bitmap nd = bitmap nd'" by (simp add: bit_eq_iff)
  moreover have "slots nd = slots nd'"
    using slots_in_order [OF assms(1)] slots_in_order [OF assms(2)] all by (simp add: used_def)
  ultimately show ?thesis by simp
qed

lemma slot_at_in_slots:
  assumes "wf_node nd" and "j < 16" and "slot_at nd j = Some s"
  shows "s \<in> set (slots nd)"
proof -
  have "j \<in> set (used nd)" using assms(2,3) by (simp add: used_def)
  then have "the (slot_at nd j) \<in> set (map (\<lambda>j. the (slot_at nd j)) (used nd))" by simp
  with assms(3) slots_in_order [OF assms(1)] show ?thesis by simp
qed

lemma slots_empty_iff: "wf_node nd \<Longrightarrow> slots nd = [] \<longleftrightarrow> (\<forall>j < 16. slot_at nd j = None)"
proof -
  assume "wf_node nd"
  then have "slots nd = [] \<longleftrightarrow> used nd = []" by (metis slots_in_order map_is_Nil_conv)
  then show ?thesis by (auto simp: used_def filter_empty_conv)
qed

lemma slots_single:
  assumes "wf_node nd" and "slots nd = [s]"
  shows "\<exists>n < 16. slot_at nd n = Some s \<and> (\<forall>j. j \<noteq> n \<longrightarrow> slot_at nd j = None)"
proof -
  from assms slots_in_order [OF assms(1)] obtain n where n: "used nd = [n]" "the (slot_at nd n) = s"
    by (auto simp: map_eq_Cons_conv)
  have "set (used nd) = {j. j < 16 \<and> slot_at nd j \<noteq> None}" by (auto simp: used_def)
  with n(1) have set: "{j. j < 16 \<and> slot_at nd j \<noteq> None} = {n}" by simp
  have "slot_at nd j = None" if "j \<noteq> n" for j
  proof (cases "j < 16")
    case True
    have "j \<notin> {j. j < 16 \<and> slot_at nd j \<noteq> None}" unfolding set using that by simp
    with True show ?thesis by simp
  qed simp
  moreover have "n < 16 \<and> slot_at nd n \<noteq> None"
    using set by blast
  ultimately show ?thesis using n(2) by (intro exI [of _ n]) auto
qed

end
