(* ===== verification/Trie_Ops.thy ===== *)
theory Trie_Ops
  imports Trie_Node
begin

text \<open>
  The operations of the trie: the second half of \<open>crates/tessra-core/src/trie.rs\<close>.

  The Rust type is generic in its store; here every operation takes the store's \<open>put\<close> and \<open>get\<close>
  for trie nodes and threads the store through. Where the recursion of the source follows the key
  (\<open>trie_get\<close>, \<open>insert_in\<close>, \<open>pair_node\<close>, \<open>remove_in\<close>) it ends because the depth cannot pass the
  number of nibbles of the key. \<open>walk\<close> and \<open>merge_sub\<close> follow the nodes, and nothing in the code
  bounds how deep a stored trie is, so they take fuel.
\<close>

type_synonym 's node_put = "'s \<Rightarrow> trie_node \<Rightarrow> ('s \<times> oid) res"
type_synonym 's node_get = "'s \<Rightarrow> oid \<Rightarrow> trie_node res"

text \<open>Indexing past the end of the key panics.\<close>

definition nibble_at :: "bytes \<Rightarrow> nat \<Rightarrow> nat res" where
  "nibble_at key depth =
     (if depth div 2 < length key
      then Inr (let b = key ! (depth div 2)
                in if depth mod 2 = 0 then unat (drop_bit 4 b) else unat (b AND 15))
      else Inl Panic)"

lemma nibble_at_bound: "nibble_at key depth = Inr n \<Longrightarrow> depth < 2 * length key"
  by (simp add: nibble_at_def split: if_splits)

definition empty_root :: "'s node_put \<Rightarrow> 's \<Rightarrow> ('s \<times> oid) res" where
  "empty_root put s = put s node_empty"

section \<open>Lookup\<close>

function get_from :: "'s node_get \<Rightarrow> 's \<Rightarrow> trie_node \<Rightarrow> nat \<Rightarrow> bytes \<Rightarrow> trie_value option res" where
  "get_from get s node depth key =
     (if depth \<ge> length key * 2 then Inr None
      else rbind (nibble_at key depth) (\<lambda>n.
        rbind (get_slot node n) (\<lambda>sl.
        case sl of
          None \<Rightarrow> Inr None
        | Some (Leaf k v) \<Rightarrow> Inr (if k = key then Some v else None)
        | Some (SNode i) \<Rightarrow> rbind (get s i) (\<lambda>node'. get_from get s node' (depth + 1) key))))"
  by pat_completeness auto
termination
  by (relation "measure (\<lambda>(get, s, node, depth, key). length key * 2 - depth)") auto

declare get_from.simps [simp del]

definition trie_get :: "'s node_get \<Rightarrow> 's \<Rightarrow> oid \<Rightarrow> bytes \<Rightarrow> trie_value option res" where
  "trie_get get s root key = rbind (get s root) (\<lambda>node. get_from get s node 0 key)"

section \<open>Insertion\<close>

function pair_node :: "'s node_put \<Rightarrow> 's \<Rightarrow> nat \<Rightarrow> bytes \<Rightarrow> trie_value \<Rightarrow> bytes \<Rightarrow> trie_value \<Rightarrow>
    ('s \<times> trie_node) res" where
  "pair_node put s depth k1 v1 k2 v2 =
     (if depth \<ge> length k1 * 2 then Inl Invariant
      else rbind (nibble_at k1 depth) (\<lambda>n1.
        rbind (nibble_at k2 depth) (\<lambda>n2.
        if n1 = n2 then
          rbind (pair_node put s (depth + 1) k1 v1 k2 v2) (\<lambda>(s1, child).
          rbind (put s1 child) (\<lambda>(s2, cid).
          rbind (set_slot node_empty n1 (Some (SNode cid))) (\<lambda>node. Inr (s2, node))))
        else
          rbind (set_slot node_empty n1 (Some (Leaf k1 v1))) (\<lambda>node.
          rbind (set_slot node n2 (Some (Leaf k2 v2))) (\<lambda>node. Inr (s, node))))))"
  by pat_completeness auto
termination
  by (relation "measure (\<lambda>(put, s, depth, k1, v1, k2, v2). length k1 * 2 - depth)") auto

declare pair_node.simps [simp del]

function insert_in :: "'s node_put \<Rightarrow> 's node_get \<Rightarrow> 's \<Rightarrow> trie_node \<Rightarrow> nat \<Rightarrow> bytes \<Rightarrow> trie_value \<Rightarrow>
    ('s \<times> trie_node) res" where
  "insert_in put get s node depth key v =
     rbind (nibble_at key depth) (\<lambda>n.
     rbind (get_slot node n) (\<lambda>sl.
     rbind (case sl of
         None \<Rightarrow> Inr (s, Leaf key v)
       | Some (Leaf k v0) \<Rightarrow>
           if k = key then Inr (s, Leaf k v)
           else if length k \<noteq> length key then Inl Invariant
           else rbind (pair_node put s (depth + 1) k v0 key v) (\<lambda>(s1, child).
                rbind (put s1 child) (\<lambda>(s2, cid). Inr (s2, SNode cid)))
       | Some (SNode i) \<Rightarrow>
           rbind (get s i) (\<lambda>child.
           rbind (insert_in put get s child (depth + 1) key v) (\<lambda>(s1, child').
           rbind (put s1 child') (\<lambda>(s2, cid). Inr (s2, SNode cid))))) (\<lambda>(s3, new_slot).
     rbind (set_slot node n (Some new_slot)) (\<lambda>node'. Inr (s3, node')))))"
  by pat_completeness auto
termination
  by (relation "measure (\<lambda>(put, get, s, node, depth, key, v). 2 * length key - depth)")
    (auto dest: nibble_at_bound)

declare insert_in.simps [simp del]

definition trie_insert :: "'s node_put \<Rightarrow> 's node_get \<Rightarrow> 's \<Rightarrow> oid \<Rightarrow> bytes \<Rightarrow> trie_value \<Rightarrow> ('s \<times> oid) res" where
  "trie_insert put get s root key v =
     rbind (get s root) (\<lambda>node.
     rbind (insert_in put get s node 0 key v) (\<lambda>(s1, node').
     put s1 node'))"

section \<open>Removal\<close>

text \<open>Canonical form: empty stays empty, a single leaf collapses upward, otherwise a node.\<close>

definition normalize :: "'s node_put \<Rightarrow> 's \<Rightarrow> trie_node \<Rightarrow> ('s \<times> sub) res" where
  "normalize put s node =
     (case slots node of
        [] \<Rightarrow> Inr (s, Empty)
      | [Leaf k v] \<Rightarrow> Inr (s, SLeaf k v)
      | _ \<Rightarrow> rbind (put s node) (\<lambda>(s1, i). Inr (s1, Sub i)))"

function remove_in :: "'s node_put \<Rightarrow> 's node_get \<Rightarrow> 's \<Rightarrow> trie_node \<Rightarrow> nat \<Rightarrow> bytes \<Rightarrow> ('s \<times> sub) res" where
  "remove_in put get s node depth key =
     rbind (nibble_at key depth) (\<lambda>n.
     rbind (get_slot node n) (\<lambda>sl.
     case sl of
       None \<Rightarrow> rbind (put s node) (\<lambda>(s1, i). Inr (s1, Sub i))
     | Some (Leaf k v) \<Rightarrow>
         if k \<noteq> key then rbind (put s node) (\<lambda>(s1, i). Inr (s1, Sub i))
         else rbind (set_slot node n None) (\<lambda>node'. normalize put s node')
     | Some (SNode i) \<Rightarrow>
         rbind (get s i) (\<lambda>child.
         rbind (remove_in put get s child (depth + 1) key) (\<lambda>(s1, r).
         rbind (set_slot node n (slot_of_sub r)) (\<lambda>node'. normalize put s1 node')))))"
  by pat_completeness auto
termination
  by (relation "measure (\<lambda>(put, get, s, node, depth, key). 2 * length key - depth)")
    (auto dest: nibble_at_bound)

declare remove_in.simps [simp del]

text \<open>A root is always a node: what removal and merging leave at the top is put in one.\<close>

definition leaf_root :: "bytes \<Rightarrow> trie_value \<Rightarrow> trie_node res" where
  "leaf_root k v = rbind (nibble_at k 0) (\<lambda>n. set_slot node_empty n (Some (Leaf k v)))"

definition trie_remove :: "'s node_put \<Rightarrow> 's node_get \<Rightarrow> 's \<Rightarrow> oid \<Rightarrow> bytes \<Rightarrow> ('s \<times> oid) res" where
  "trie_remove put get s root key =
     rbind (get s root) (\<lambda>node.
     rbind (remove_in put get s node 0 key) (\<lambda>(s1, r).
     case r of
       Empty \<Rightarrow> put s1 node_empty
     | SLeaf k v \<Rightarrow> rbind (leaf_root k v) (\<lambda>n. put s1 n)
     | Sub i \<Rightarrow> Inr (s1, i)))"

section \<open>Enumeration\<close>

fun walk :: "'s node_get \<Rightarrow> 's \<Rightarrow> nat \<Rightarrow> oid \<Rightarrow> (bytes \<times> trie_value) list \<Rightarrow> (bytes \<times> trie_value) list res" where
  "walk get s 0 i out = Inl Diverges"
| "walk get s (Suc fuel) i out =
     rbind (get s i) (\<lambda>node.
     rfold (\<lambda>sl out. case sl of
         Leaf k v \<Rightarrow> Inr (out @ [(k, v)])
       | SNode c \<Rightarrow> walk get s fuel c out) (slots node) out)"

definition trie_entries :: "'s node_get \<Rightarrow> nat \<Rightarrow> 's \<Rightarrow> oid \<Rightarrow> (bytes \<times> trie_value) list res" where
  "trie_entries get fuel s root = walk get s fuel root []"

definition trie_len :: "'s node_get \<Rightarrow> nat \<Rightarrow> 's \<Rightarrow> oid \<Rightarrow> nat res" where
  "trie_len get fuel s root = rbind (trie_entries get fuel s root) (\<lambda>es. Inr (length es))"

section \<open>Three-way merge\<close>

fun is_flat :: "sub \<Rightarrow> bool" where
  "is_flat (Sub _) = False"
| "is_flat _ = True"

fun leaf_parts :: "sub \<Rightarrow> bytes option \<times> trie_value option" where
  "leaf_parts Empty = (None, None)"
| "leaf_parts (SLeaf k v) = (Some k, Some v)"
| "leaf_parts (Sub _) = (None, None)"

definition expand :: "'s node_get \<Rightarrow> 's \<Rightarrow> sub \<Rightarrow> nat \<Rightarrow> trie_node res" where
  "expand get s r depth =
     (case r of
        Empty \<Rightarrow> Inr node_empty
      | SLeaf k v \<Rightarrow> rbind (nibble_at k depth) (\<lambda>n. set_slot node_empty n (Some (Leaf k v)))
      | Sub i \<Rightarrow> get s i)"

text \<open>The rule for one key, when every side is a leaf or empty and none equals another.\<close>

fun merge_values :: "merge_policy \<Rightarrow> trie_value option \<Rightarrow> trie_value option \<Rightarrow> trie_value option \<Rightarrow>
    trie_value option" where
  "merge_values p vb (Some x) (Some y) = Some (tv_union x y)"
| "merge_values p (Some _) None (Some y) = (case p of Pointers \<Rightarrow> None | SetPolicy \<Rightarrow> Some y)"
| "merge_values p (Some _) (Some y) None = (case p of Pointers \<Rightarrow> None | SetPolicy \<Rightarrow> Some y)"
| "merge_values p vb None None = None"
| "merge_values p None None (Some y) = Some y"
| "merge_values p None (Some y) None = Some y"

definition flat_keys :: "sub \<Rightarrow> sub \<Rightarrow> sub \<Rightarrow> bytes list" where
  "flat_keys base a b = List.map_filter fst [leaf_parts base, leaf_parts a, leaf_parts b]"

fun all_equal_neighbours :: "'a list \<Rightarrow> bool" where
  "all_equal_neighbours (x # y # xs) = (x = y \<and> all_equal_neighbours (y # xs))"
| "all_equal_neighbours _ = True"

text \<open>\<open>keys[0]\<close> panics when there is no key.\<close>

definition merge_flat :: "merge_policy \<Rightarrow> sub \<Rightarrow> sub \<Rightarrow> sub \<Rightarrow> sub res" where
  "merge_flat p base a b =
     (case flat_keys base a b of
        [] \<Rightarrow> Inl Panic
      | key # _ \<Rightarrow>
          Inr (case merge_values p (snd (leaf_parts base)) (snd (leaf_parts a)) (snd (leaf_parts b)) of
                 None \<Rightarrow> Empty
               | Some v \<Rightarrow> SLeaf key v))"

fun merge_sub :: "'s node_put \<Rightarrow> 's node_get \<Rightarrow> merge_policy \<Rightarrow> nat \<Rightarrow> 's \<Rightarrow> nat \<Rightarrow> sub \<Rightarrow> sub \<Rightarrow> sub \<Rightarrow>
    ('s \<times> sub) res" where
  "merge_sub put get p 0 s depth base a b = Inl Diverges"
| "merge_sub put get p (Suc fuel) s depth base a b =
     (if a = base then Inr (s, b)
      else if b = base then Inr (s, a)
      else if a = b then Inr (s, a)
      else if is_flat base \<and> is_flat a \<and> is_flat b \<and> all_equal_neighbours (flat_keys base a b)
      then rbind (merge_flat p base a b) (\<lambda>r. Inr (s, r))
      else
        rbind (expand get s base depth) (\<lambda>nb.
        rbind (expand get s a depth) (\<lambda>na.
        rbind (expand get s b depth) (\<lambda>nb2.
        rbind (rfold (\<lambda>nib (s, out).
            rbind (get_slot nb nib) (\<lambda>sb.
            rbind (get_slot na nib) (\<lambda>sa.
            rbind (get_slot nb2 nib) (\<lambda>sb2.
            rbind (merge_sub put get p fuel s (depth + 1) (sub_of_slot sb) (sub_of_slot sa) (sub_of_slot sb2))
              (\<lambda>(s1, merged).
            rbind (set_slot out nib (slot_of_sub merged)) (\<lambda>out'. Inr (s1, out')))))))
          [0..<16] (s, node_empty)) (\<lambda>(s2, out).
        normalize put s2 out)))))"

definition merge3 :: "'s node_put \<Rightarrow> 's node_get \<Rightarrow> nat \<Rightarrow> 's \<Rightarrow> oid \<Rightarrow> oid \<Rightarrow> oid \<Rightarrow> merge_policy \<Rightarrow>
    ('s \<times> oid) res" where
  "merge3 put get fuel s base a b p =
     rbind (merge_sub put get p fuel s 0 (Sub base) (Sub a) (Sub b)) (\<lambda>(s1, r).
     case r of
       Empty \<Rightarrow> empty_root put s1
     | SLeaf k v \<Rightarrow> rbind (leaf_root k v) (\<lambda>n. put s1 n)
     | Sub i \<Rightarrow> Inr (s1, i))"

end
