(* ===== verification/Trie_Spec.thy ===== *)
theory Trie_Spec
  imports Trie_Ops
begin

text \<open>
  What a stored trie means. \<open>rep get s N p r m\<close> says that the subtree \<open>r\<close>, found under the nibbles
  \<open>p\<close> in a trie whose keys have \<open>N\<close> nibbles, stands for the finite map \<open>m\<close> and is in canonical
  form: a node inside the trie holds at least two keys. \<open>node_rep\<close> says the same of a node and its
  sixteen slots, \<open>root_rep\<close> of a root, which may hold fewer keys.
\<close>

section \<open>Nibbles of a key\<close>

definition nibs :: "bytes \<Rightarrow> nat list" where
  "nibs k = concat (map (\<lambda>b. [unat (drop_bit 4 b), unat (b AND 15)]) k)"

lemma nibs_simps [simp]:
  "nibs [] = []"
  "nibs (b # k) = unat (drop_bit 4 b) # unat (b AND 15) # nibs k"
  by (simp_all add: nibs_def)

lemma length_nibs [simp]: "length (nibs k) = 2 * length k"
  by (induction k) auto

lemma nibs_nth:
  "d < 2 * length k \<Longrightarrow> nibs k ! d =
     (let b = k ! (d div 2) in if d mod 2 = 0 then unat (drop_bit 4 b) else unat (b AND 15))"
proof (induction k arbitrary: d)
  case (Cons b k)
  consider "d = 0" | "d = 1" | e where "d = Suc (Suc e)" by (metis One_nat_def not0_implies_Suc)
  then show ?case using Cons by cases auto
qed simp

lemma nibble_at_nibs: "nibble_at k d = (if d < length (nibs k) then Inr (nibs k ! d) else Inl Panic)"
  by (auto simp: nibble_at_def nibs_nth)

lemma nibs_bound: "n \<in> set (nibs k) \<Longrightarrow> n < 16"
  by (induction k) (auto simp: unat_high_nibble unat_low_nibble)

lemma nibs_nth_bound: "d < length (nibs k) \<Longrightarrow> nibs k ! d < 16"
  by (rule nibs_bound [of _ k], rule nth_mem)

lemma byte_of_nibbles:
  assumes "unat (drop_bit 4 b) = unat (drop_bit 4 c)" and "unat (b AND 15) = unat ((c :: u8) AND 15)"
  shows "b = c"
  using assms by (metis join_nibbles word_unat_eq_iff)

lemma nibs_inject: "nibs k = nibs k' \<Longrightarrow> k = k'"
proof (induction k arbitrary: k')
  case Nil
  then show ?case by (cases k') auto
next
  case (Cons b k)
  then obtain c k'' where "k' = c # k''" by (cases k') auto
  with Cons show ?case by (auto intro: byte_of_nibbles)
qed

section \<open>Keys under a prefix\<close>

definition below :: "nat \<Rightarrow> nat list \<Rightarrow> bytes set" where
  "below N p = {k. length (nibs k) = N \<and> take (length p) (nibs k) = p}"

lemma below_length: "k \<in> below N p \<Longrightarrow> length p \<le> N"
  unfolding below_def by (metis (mono_tags, lifting) length_take mem_Collect_eq min.cobounded1)

lemma below_Nil: "k \<in> below N [] \<longleftrightarrow> 2 * length k = N"
  by (simp add: below_def)

lemma below_snocI: "k \<in> below N p \<Longrightarrow> length p < N \<Longrightarrow> k \<in> below N (p @ [nibs k ! length p])"
  by (auto simp: below_def take_Suc_conv_app_nth)

lemma below_snocD: "k \<in> below N (p @ [j]) \<Longrightarrow> k \<in> below N p \<and> nibs k ! length p = j"
proof -
  assume k: "k \<in> below N (p @ [j])"
  then have len: "length (nibs k) = N" and t: "take (Suc (length p)) (nibs k) = p @ [j]"
    by (auto simp: below_def)
  have "Suc (length p) \<le> length (nibs k)" using below_length [OF k] len by simp
  then have "take (Suc (length p)) (nibs k) = take (length p) (nibs k) @ [nibs k ! length p]"
    by (simp add: take_Suc_conv_app_nth)
  with t len show ?thesis by (simp add: below_def)
qed

lemma below_snoc_iff:
  "length p < N \<Longrightarrow> k \<in> below N (p @ [j]) \<longleftrightarrow> k \<in> below N p \<and> nibs k ! length p = j"
  using below_snocI below_snocD by blast

lemma below_full: "length p = N \<Longrightarrow> k \<in> below N p \<Longrightarrow> k' \<in> below N p \<Longrightarrow> k = k'"
  by (rule nibs_inject) (metis (mono_tags, lifting) below_def mem_Collect_eq order_refl take_all)

lemma below_nibble: "k \<in> below N p \<Longrightarrow> length p < N \<Longrightarrow> nibble_at k (length p) = Inr (nibs k ! length p)"
  by (simp add: nibble_at_nibs below_def)

lemma below_nibble_bound: "k \<in> below N p \<Longrightarrow> length p < N \<Longrightarrow> nibs k ! length p < 16"
  by (rule nibs_nth_bound) (simp add: below_def)

section \<open>Representation\<close>

definition two_keys :: "(bytes \<rightharpoonup> trie_value) \<Rightarrow> bool" where
  "two_keys m \<longleftrightarrow> (\<exists>k1 \<in> dom m. \<exists>k2 \<in> dom m. k1 \<noteq> k2)"

inductive rep :: "'s node_get \<Rightarrow> 's \<Rightarrow> nat \<Rightarrow> nat list \<Rightarrow> sub \<Rightarrow> (bytes \<rightharpoonup> trie_value) \<Rightarrow> bool"
  for get :: "'s node_get" and s :: 's and N :: nat where
  rep_Empty: "rep get s N p Empty Map.empty"
| rep_SLeaf: "k \<in> below N p \<Longrightarrow> rep get s N p (SLeaf k v) [k \<mapsto> v]"
| rep_Sub: "get s i = Inr nd \<Longrightarrow> wf_node nd \<Longrightarrow> length p < N \<Longrightarrow> dom m \<subseteq> below N p \<Longrightarrow>
    (\<And>j. j < 16 \<Longrightarrow> rep get s N (p @ [j]) (sub_of_slot (slot_at nd j)) (m |` below N (p @ [j]))) \<Longrightarrow>
    two_keys m \<Longrightarrow> rep get s N p (Sub i) m"

inductive_cases rep_EmptyE [elim!]: "rep get s N p Empty m"
inductive_cases rep_SLeafE [elim!]: "rep get s N p (SLeaf k v) m"
inductive_cases rep_SubE: "rep get s N p (Sub i) m"

definition node_rep :: "'s node_get \<Rightarrow> 's \<Rightarrow> nat \<Rightarrow> nat list \<Rightarrow> trie_node \<Rightarrow> (bytes \<rightharpoonup> trie_value) \<Rightarrow> bool" where
  "node_rep get s N p nd m \<longleftrightarrow> wf_node nd \<and> length p < N \<and> dom m \<subseteq> below N p \<and>
     (\<forall>j < 16. rep get s N (p @ [j]) (sub_of_slot (slot_at nd j)) (m |` below N (p @ [j])))"

definition root_rep :: "'s node_get \<Rightarrow> 's \<Rightarrow> nat \<Rightarrow> oid \<Rightarrow> (bytes \<rightharpoonup> trie_value) \<Rightarrow> bool" where
  "root_rep get s N i m \<longleftrightarrow> (\<exists>nd. get s i = Inr nd \<and> node_rep get s N [] nd m)"

text \<open>One store extends another when everything readable stays readable.\<close>

definition extends :: "('s \<Rightarrow> oid \<Rightarrow> 'a res) \<Rightarrow> 's \<Rightarrow> 's \<Rightarrow> bool" where
  "extends get s s' \<longleftrightarrow> (\<forall>i n. get s i = Inr n \<longrightarrow> get s' i = Inr n)"

lemma extends_refl [simp]: "extends get s s"
  by (simp add: extends_def)

lemma extends_trans: "extends get s s' \<Longrightarrow> extends get s' s'' \<Longrightarrow> extends get s s''"
  by (simp add: extends_def)

lemma extendsD: "extends get s s' \<Longrightarrow> get s i = Inr n \<Longrightarrow> get s' i = Inr n"
  by (simp add: extends_def)

lemma rep_SLeaf_iff: "rep get s N p (SLeaf k v) m \<longleftrightarrow> m = [k \<mapsto> v] \<and> k \<in> below N p"
  by (auto intro: rep_SLeaf)

lemma rep_Empty_iff: "rep get s N p Empty m \<longleftrightarrow> m = Map.empty"
  by (auto intro: rep_Empty)

lemma rep_Sub_iff:
  "rep get s N p (Sub i) m \<longleftrightarrow> (\<exists>nd. get s i = Inr nd \<and> node_rep get s N p nd m) \<and> two_keys m"
proof
  assume "rep get s N p (Sub i) m"
  then show "(\<exists>nd. get s i = Inr nd \<and> node_rep get s N p nd m) \<and> two_keys m"
    by (rule rep_SubE) (auto simp: node_rep_def)
next
  assume "(\<exists>nd. get s i = Inr nd \<and> node_rep get s N p nd m) \<and> two_keys m"
  then show "rep get s N p (Sub i) m"
    by (auto simp: node_rep_def intro: rep_Sub)
qed

lemmas rep_iffs = rep_Empty_iff rep_SLeaf_iff rep_Sub_iff

lemma rep_dom: "rep get s N p r m \<Longrightarrow> dom m \<subseteq> below N p"
  by (cases r) (auto simp: rep_iffs node_rep_def)

lemma node_rep_wf: "node_rep get s N p nd m \<Longrightarrow> wf_node nd"
  by (simp add: node_rep_def)

lemma node_rep_dom: "node_rep get s N p nd m \<Longrightarrow> dom m \<subseteq> below N p"
  by (simp add: node_rep_def)

lemma node_rep_depth: "node_rep get s N p nd m \<Longrightarrow> length p < N"
  by (simp add: node_rep_def)

lemma node_rep_slot:
  "node_rep get s N p nd m \<Longrightarrow> j < 16 \<Longrightarrow>
     rep get s N (p @ [j]) (sub_of_slot (slot_at nd j)) (m |` below N (p @ [j]))"
  by (simp add: node_rep_def)

lemma rep_mono: "rep get s N p r m \<Longrightarrow> extends get s s' \<Longrightarrow> rep get s' N p r m"
  by (induction rule: rep.induct) (auto intro: rep.intros dest: extendsD)

lemma node_rep_mono: "node_rep get s N p nd m \<Longrightarrow> extends get s s' \<Longrightarrow> node_rep get s' N p nd m"
  by (auto simp: node_rep_def intro: rep_mono)

lemma root_rep_mono: "root_rep get s N i m \<Longrightarrow> extends get s s' \<Longrightarrow> root_rep get s' N i m"
  by (auto simp: root_rep_def intro: node_rep_mono dest: extendsD)

lemma rep_nonempty: "rep get s N p r m \<Longrightarrow> r \<noteq> Empty \<Longrightarrow> \<exists>k. k \<in> dom m"
  by (cases r) (auto simp: rep_iffs two_keys_def)

lemma map_below_eqI:
  assumes "length p < N" and "dom m \<subseteq> below N p" and "dom m' \<subseteq> below N p"
    and "\<And>j. j < 16 \<Longrightarrow> m |` below N (p @ [j]) = m' |` below N (p @ [j])"
  shows "m = m'"
proof
  fix k
  show "m k = m' k"
  proof (cases "k \<in> below N p")
    case True
    let ?j = "nibs k ! length p"
    have "k \<in> below N (p @ [?j])" using True assms(1) by (rule below_snocI)
    with assms(4) [OF below_nibble_bound [OF True assms(1)]] show ?thesis
      by (metis restrict_in)
  next
    case False
    then have "m k = None" "m' k = None" using assms(2,3) by auto
    then show ?thesis by simp
  qed
qed

lemma rep_fun: "rep get s N p r m \<Longrightarrow> rep get s N p r m' \<Longrightarrow> m = m'"
proof (induction arbitrary: m' rule: rep.induct)
  case (rep_Sub i nd p m)
  from rep_Sub.prems obtain nd' where "get s i = Inr nd'" and n: "node_rep get s N p nd' m'"
    by (auto simp only: rep_Sub_iff)
  with rep_Sub.hyps(1) have n: "node_rep get s N p nd m'" by simp
  show ?case
  proof (rule map_below_eqI [OF rep_Sub.hyps(3) rep_Sub.hyps(4) node_rep_dom [OF n]])
    fix j :: nat assume j: "j < 16"
    show "m |` below N (p @ [j]) = m' |` below N (p @ [j])"
      by (rule rep_Sub.IH [OF j node_rep_slot [OF n j]])
  qed
qed auto

lemma node_rep_fun:
  "node_rep get s N p nd m \<Longrightarrow> node_rep get s N p nd m' \<Longrightarrow> m = m'"
proof (rule map_below_eqI [of p N])
  fix j :: nat assume "node_rep get s N p nd m" "node_rep get s N p nd m'" "j < 16"
  then show "m |` below N (p @ [j]) = m' |` below N (p @ [j])"
    by (intro rep_fun [OF node_rep_slot node_rep_slot])
qed (auto dest: node_rep_depth node_rep_dom)

lemma root_rep_fun: "root_rep get s N i m \<Longrightarrow> root_rep get s N i m' \<Longrightarrow> m = m'"
  by (auto simp: root_rep_def intro: node_rep_fun)

lemma sub_of_slot_inject: "sub_of_slot a = sub_of_slot b \<longleftrightarrow> a = b"
  by (cases a rule: sub_of_slot.cases; cases b rule: sub_of_slot.cases) auto

lemma sub_of_slot_of_sub [simp]: "sub_of_slot (slot_of_sub r) = r"
  by (cases r) auto

text \<open>Canonical form is unique: equal maps are equal subtrees, when equal nodes have one id.\<close>

lemma rep_canonical:
  assumes "\<And>i j n. get s i = Inr n \<Longrightarrow> get s' j = Inr n \<Longrightarrow> i = j"
  shows "rep get s N p r m \<Longrightarrow> rep get s' N p r' m \<Longrightarrow> r = r'"
proof (induction arbitrary: r' rule: rep.induct)
  case (rep_Empty p)
  then show ?case using rep_nonempty [of get s' N p r' Map.empty] by auto
next
  case (rep_SLeaf k p v)
  have no: "\<not> two_keys [k \<mapsto> v]" by (simp add: two_keys_def)
  show ?case
  proof (cases r')
    case (SLeaf k' v')
    with rep_SLeaf.prems have "[k \<mapsto> v] = [k' \<mapsto> v']" by (simp only: rep_iffs)
    then have "[k' \<mapsto> v'] k = Some v" by (metis fun_upd_same)
    then have "k = k' \<and> v = v'" by (simp split: if_splits)
    with SLeaf show ?thesis by simp
  next
    case (Sub i)
    with rep_SLeaf.prems have "two_keys [k \<mapsto> v]" by (simp only: rep_iffs)
    with no show ?thesis by contradiction
  next
    case Empty
    with rep_SLeaf.prems have "[k \<mapsto> v] = Map.empty" by (simp only: rep_Empty_iff)
    then show ?thesis by simp
  qed
next
  case (rep_Sub i nd p m)
  have "m \<noteq> Map.empty" "m \<noteq> [k \<mapsto> v]" for k v
    using rep_Sub.hyps(6) by (auto simp: two_keys_def split: if_splits)
  with rep_Sub.prems obtain i' where r': "r' = Sub i'" by (cases r') (auto simp only: rep_iffs)
  with rep_Sub.prems obtain nd' where nd': "get s' i' = Inr nd'" "node_rep get s' N p nd' m"
    by (auto simp only: rep_Sub_iff)
  have "nd = nd'"
  proof (rule node_eqI)
    fix j :: nat assume "j < 16"
    then have "sub_of_slot (slot_at nd j) = sub_of_slot (slot_at nd' j)"
      using rep_Sub.IH node_rep_slot [OF nd'(2)] by blast
    then show "slot_at nd j = slot_at nd' j" by (simp add: sub_of_slot_inject)
  qed (use rep_Sub.hyps nd'(2) in \<open>auto dest: node_rep_wf\<close>)
  with assms rep_Sub.hyps(1) nd'(1) r' show ?case by blast
qed

lemma node_rep_canonical:
  assumes "\<And>i j n. get s i = Inr n \<Longrightarrow> get s' j = Inr n \<Longrightarrow> i = j"
    and "node_rep get s N p nd m" and "node_rep get s' N p nd' m"
  shows "nd = nd'"
proof (rule node_eqI)
  fix j :: nat assume j: "j < 16"
  have "sub_of_slot (slot_at nd j) = sub_of_slot (slot_at nd' j)"
    by (rule rep_canonical [of get s s', OF assms(1) node_rep_slot [OF assms(2) j] node_rep_slot [OF assms(3) j]])
  then show "slot_at nd j = slot_at nd' j" by (simp add: sub_of_slot_inject)
qed (use assms(2,3) in \<open>auto dest: node_rep_wf\<close>)

section \<open>Changing one slot\<close>

lemma restrict_override:
  "j \<noteq> j' \<Longrightarrow> (\<lambda>k. if k \<in> below N (p @ [j]) then f k else m k) |` below N (p @ [j']) = m |` below N (p @ [j'])"
  by (rule ext) (auto simp: restrict_map_def dest: below_snocD)

lemma node_rep_set_slot:
  assumes nd: "node_rep get s N p nd m" and j: "j < 16"
    and wf: "wf_node nd'" and at: "\<And>i. slot_at nd' i = (if i = j then sl else slot_at nd i)"
    and ext: "extends get s s'" and sl: "rep get s' N (p @ [j]) (sub_of_slot sl) mj"
    and m': "m' = (\<lambda>k. if k \<in> below N (p @ [j]) then mj k else m k)"
  shows "node_rep get s' N p nd' m'"
proof -
  have "mj k = None" if "k \<notin> below N (p @ [j])" for k
    using rep_dom [OF sl] that by auto
  then have mj: "m' |` below N (p @ [j]) = mj"
    by (intro HOL.ext) (simp add: m' restrict_map_def)
  have "dom m' \<subseteq> below N p"
  proof
    fix k assume "k \<in> dom m'"
    then have "k \<in> below N (p @ [j]) \<or> k \<in> dom m" by (auto simp: m' split: if_splits)
    then show "k \<in> below N p" using node_rep_dom [OF nd] below_snocD by blast
  qed
  moreover have "rep get s' N (p @ [i]) (sub_of_slot (slot_at nd' i)) (m' |` below N (p @ [i]))"
    if "i < 16" for i
  proof (cases "i = j")
    case True
    with sl mj show ?thesis by (simp add: at)
  next
    case False
    then have "m' |` below N (p @ [i]) = m |` below N (p @ [i])"
      using restrict_override [of j i N p mj m] by (simp add: m')
    with False rep_mono [OF node_rep_slot [OF nd that] ext] show ?thesis by (simp add: at)
  qed
  ultimately show ?thesis using wf node_rep_depth [OF nd] by (simp add: node_rep_def)
qed

lemma node_rep_empty: "length p < N \<Longrightarrow> node_rep get s N p node_empty Map.empty"
  by (simp add: node_rep_def rep_Empty)

lemma root_rep_empty: "0 < N \<Longrightarrow> get s i = Inr node_empty \<Longrightarrow> root_rep get s N i Map.empty"
  using node_rep_empty [of "[]" N get s] by (auto simp: root_rep_def)

text \<open>A node holding one leaf, which is how \<open>expand\<close> and the roots see a lone key.\<close>

lemma node_rep_leaf:
  assumes k: "k \<in> below N p" and p: "length p < N"
  obtains nd where "rbind (nibble_at k (length p)) (\<lambda>n. set_slot node_empty n (Some (Leaf k v))) = Inr nd"
    and "node_rep get s N p nd [k \<mapsto> v]"
proof -
  let ?n = "nibs k ! length p"
  have n: "?n < 16" using below_nibble_bound [OF k p] .
  obtain nd where nd: "set_slot node_empty ?n (Some (Leaf k v)) = Inr nd" "wf_node nd"
    "\<And>i. slot_at nd i = (if i = ?n then Some (Leaf k v) else slot_at node_empty i)"
    using set_slot_wf [OF wf_node_empty n] by blast
  have kn: "k \<in> below N (p @ [?n])" using k p by (rule below_snocI)
  have "node_rep get s N p nd [k \<mapsto> v]"
  proof (rule node_rep_set_slot [OF node_rep_empty [OF p] n nd(2,3) extends_refl])
    show "rep get s N (p @ [?n]) (sub_of_slot (Some (Leaf k v))) [k \<mapsto> v]"
      using kn by (simp add: rep_SLeaf)
    show "[k \<mapsto> v] = (\<lambda>x. if x \<in> below N (p @ [?n]) then [k \<mapsto> v] x else None)"
      using kn by auto
  qed
  with nd(1) that show thesis by (simp add: below_nibble [OF k p])
qed

section \<open>Lookup\<close>

lemma get_from_correct:
  "node_rep get s N p nd m \<Longrightarrow> depth = length p \<Longrightarrow> take depth (nibs key) = p \<Longrightarrow>
     get_from get s nd depth key = Inr (m key)"
proof (induction get s nd depth key arbitrary: p m rule: get_from.induct)
  case (1 get s node depth key)
  note nd = "1.prems"(1) and depth = "1.prems"(2) and pre = "1.prems"(3)
  show ?case
  proof (cases "depth \<ge> length key * 2")
    case True
    then have "length (nibs key) \<noteq> N" using node_rep_depth [OF nd] depth by simp
    then have "m key = None" using node_rep_dom [OF nd] by (auto simp: below_def)
    with True show ?thesis by (simp add: get_from.simps [of get s node])
  next
    case False
    let ?n = "nibs key ! depth"
    have d: "depth < length (nibs key)" using False by simp
    have n: "nibble_at key depth = Inr ?n" and n16: "?n < 16"
      using d nibs_nth_bound [OF d] by (auto simp: nibble_at_nibs)
    have slot: "get_slot node ?n = Inr (slot_at node ?n)"
      using node_rep_wf [OF nd] n16 by simp
    have pre': "take (Suc depth) (nibs key) = p @ [?n]"
      using pre d by (simp add: take_Suc_conv_app_nth)
    have m_key: "m key = (m |` below N (p @ [?n])) key"
    proof (cases "length (nibs key) = N")
      case True
      then have "key \<in> below N (p @ [?n])" using pre' depth by (simp add: below_def)
      then show ?thesis by simp
    next
      case False
      then have "m key = None" using node_rep_dom [OF nd] by (auto simp: below_def)
      then show ?thesis by (simp add: restrict_map_def)
    qed
    have r: "rep get s N (p @ [?n]) (sub_of_slot (slot_at node ?n)) (m |` below N (p @ [?n]))"
      by (rule node_rep_slot [OF nd n16])
    show ?thesis
    proof (cases "slot_at node ?n" rule: sub_of_slot.cases)
      case 1
      with r m_key show ?thesis
        using False by (simp add: get_from.simps [of get s node] n slot rep_iffs)
    next
      case (2 k v)
      with r m_key show ?thesis
        using False by (simp add: get_from.simps [of get s node] n slot rep_iffs)
    next
      case (3 i)
      with r obtain nd' where nd': "get s i = Inr nd'"
        "node_rep get s N (p @ [?n]) nd' (m |` below N (p @ [?n]))" by (auto simp: rep_iffs)
      have "get_from get s nd' (depth + 1) key = Inr ((m |` below N (p @ [?n])) key)"
        by (rule "1.IH" [OF False n slot 3 refl nd']) (use depth pre' in simp_all)
      with 3 m_key show ?thesis
        using False nd'(1) by (simp add: get_from.simps [of get s node] n slot)
    qed
  qed
qed

lemma trie_get_correct: "root_rep get s N i m \<Longrightarrow> trie_get get s i key = Inr (m key)"
  using get_from_correct [of get s N "[]" _ m 0 key] by (auto simp: root_rep_def trie_get_def)

section \<open>The order of keys\<close>

lemma unat_drop_high: "unat (drop_bit 4 (b :: u8)) = unat b div 16"
  by (simp add: drop_bit_eq_div unat_div)

lemma byte_less_high:
  "unat (drop_bit 4 b) < unat (drop_bit 4 (c :: u8)) \<Longrightarrow> b < c"
  by (metis div_le_mono linorder_not_less unat_drop_high word_less_nat_alt)

lemma byte_less_low:
  assumes "unat (drop_bit 4 b) = unat (drop_bit 4 (c :: u8))" and "unat (b AND 15) < unat (c AND 15)"
  shows "b < c"
proof -
  have "unat b div 16 = unat c div 16" "unat b mod 16 < unat c mod 16"
    using assms by (simp_all add: unat_drop_high unat_low_nibble)
  then have "unat b < unat c" by (metis div_mult_mod_eq nat_add_left_cancel_less)
  then show ?thesis by (simp add: word_less_nat_alt)
qed

lemma nibs_less:
  "take d (nibs k) = take d (nibs k') \<Longrightarrow> d < length (nibs k) \<Longrightarrow> d < length (nibs k') \<Longrightarrow>
     nibs k ! d < nibs k' ! d \<Longrightarrow> k < k'"
proof (induction k arbitrary: k' d)
  case (Cons b k)
  then obtain c k'' where k': "k' = c # k''" by (cases k') auto
  consider "d = 0" | "d = 1" | e where "d = Suc (Suc e)" by (metis One_nat_def not0_implies_Suc)
  then show ?case
  proof cases
    case 1
    with Cons.prems k' show ?thesis by (auto dest: byte_less_high)
  next
    case 2
    with Cons.prems k' show ?thesis by (auto dest: byte_less_low)
  next
    case 3
    with Cons.prems k' have "b = c" by (auto intro: byte_of_nibbles)
    with Cons.prems k' 3 Cons.IH [of e k''] show ?thesis by simp
  qed
qed simp

lemma below_less:
  "k \<in> below N (p @ [i]) \<Longrightarrow> k' \<in> below N (p @ [j]) \<Longrightarrow> i < j \<Longrightarrow> k < k'"
proof -
  assume k: "k \<in> below N (p @ [i])" and k': "k' \<in> below N (p @ [j])" and "i < j"
  then have n: "nibs k ! length p = i" "nibs k' ! length p = j" and b: "k \<in> below N p" "k' \<in> below N p"
    using below_snocD by blast+
  have "length p < N" using below_length [OF k] by simp
  with b n \<open>i < j\<close> show ?thesis
    by (intro nibs_less [of "length p"]) (auto simp: below_def simp del: length_nibs)
qed

end
