(* ===== verification/Trie_Correct.thy ===== *)
theory Trie_Correct
  imports Trie_Spec
begin

text \<open>
  The trie is a finite map. Inside the locale \<open>trie_store\<close>, which is the contract of the object store
  for trie nodes, every operation of \<open>crates/tessra-core/src/trie.rs\<close> is shown to compute the
  operation of the same name on the map that the root stands for, to keep canonical form, and to
  leave everything stored readable.
\<close>

section \<open>Maps\<close>

definition only :: "nat \<Rightarrow> nat list \<Rightarrow> nat list \<Rightarrow> (bytes \<rightharpoonup> 'v) \<Rightarrow> (bytes \<rightharpoonup> 'v)" where
  "only N p js f = (\<lambda>k. if k \<in> below N p \<and> nibs k ! length p \<in> set js then f k else None)"

lemma only_Nil [simp]: "only N p [] f = Map.empty"
  by (simp add: only_def)

lemma only_all: "length p < N \<Longrightarrow> dom f \<subseteq> below N p \<Longrightarrow> only N p [0..<16] f = f"
proof
  fix k assume p: "length p < N" and f: "dom f \<subseteq> below N p"
  show "only N p [0..<16] f k = f k"
  proof (cases "k \<in> below N p")
    case True
    with below_nibble_bound [OF True p] show ?thesis by (simp add: only_def)
  next
    case False
    with f have "f k = None" by auto
    with False show ?thesis by (simp add: only_def)
  qed
qed

lemma only_snoc:
  assumes "length p < N"
  shows "only N p (js @ [j]) f =
    (\<lambda>k. if k \<in> below N (p @ [j]) then (f |` below N (p @ [j])) k else only N p js f k)"
  using assms by (intro ext) (auto simp: only_def below_snoc_iff)

lemma override_update:
  assumes "key \<in> below N (p @ [n])"
  shows "(\<lambda>k. if k \<in> below N (p @ [n]) then ((m |` below N (p @ [n]))(key := x)) k else m k) = m(key := x)"
  using assms by auto

lemma two_keys_upd: "two_keys m \<Longrightarrow> two_keys (m(k \<mapsto> v))"
  by (auto simp: two_keys_def) (metis domI)

lemma two_keys_pair: "k1 \<noteq> k2 \<Longrightarrow> two_keys [k1 \<mapsto> v1, k2 \<mapsto> v2]"
  by (auto simp: two_keys_def)

lemma two_keys_restrict: "two_keys (m |` B) \<Longrightarrow> two_keys m"
  by (auto simp: two_keys_def restrict_map_def split: if_splits) blast

text \<open>The rule of the three-way merge for one key, and for two maps.\<close>

definition merge_value :: "merge_policy \<Rightarrow> trie_value option \<Rightarrow> trie_value option \<Rightarrow> trie_value option \<Rightarrow>
    trie_value option" where
  "merge_value pol vb va v2 =
     (if va = vb then v2 else if v2 = vb then va else if va = v2 then va else merge_values pol vb va v2)"

definition merge_maps :: "merge_policy \<Rightarrow> (bytes \<rightharpoonup> trie_value) \<Rightarrow> (bytes \<rightharpoonup> trie_value) \<Rightarrow>
    (bytes \<rightharpoonup> trie_value) \<Rightarrow> (bytes \<rightharpoonup> trie_value)" where
  "merge_maps pol mb ma m2 = (\<lambda>k. merge_value pol (mb k) (ma k) (m2 k))"

lemma tv_union_commute: "tv_union a b = tv_union b a"
proof -
  have "btree_list (tv_ids a @ tv_ids b) = btree_list (tv_ids b @ tv_ids a)"
    by (rule btree_list_eqI) auto
  then show ?thesis by (simp add: tv_union_def)
qed

lemma merge_values_commute: "merge_values pol vb va v2 = merge_values pol vb v2 va"
  by (cases vb; cases va; cases v2) (auto simp: tv_union_commute)

lemma merge_value_commute: "merge_value pol vb va v2 = merge_value pol vb v2 va"
  by (simp add: merge_value_def merge_values_commute)

lemma merge_value_None [simp]: "merge_value pol None None None = None"
  by (simp add: merge_value_def)

lemma merge_value_same [simp]:
  "merge_value pol vb vb v2 = v2" "merge_value pol vb va vb = va" "merge_value pol vb va va = va"
  by (simp_all add: merge_value_def)

lemma merge_maps_same [simp]:
  "merge_maps pol mb mb m2 = m2" "merge_maps pol mb ma mb = ma" "merge_maps pol mb ma ma = ma"
  by (simp_all add: merge_maps_def)

lemma merge_maps_restrict:
  "merge_maps pol (mb |` B) (ma |` B) (m2 |` B) = merge_maps pol mb ma m2 |` B"
  by (auto simp: merge_maps_def restrict_map_def fun_eq_iff)

lemma merge_maps_dom: "dom mb \<subseteq> B \<Longrightarrow> dom ma \<subseteq> B \<Longrightarrow> dom m2 \<subseteq> B \<Longrightarrow> dom (merge_maps pol mb ma m2) \<subseteq> B"
proof
  fix k assume d: "dom mb \<subseteq> B" "dom ma \<subseteq> B" "dom m2 \<subseteq> B" and "k \<in> dom (merge_maps pol mb ma m2)"
  then have "mb k \<noteq> None \<or> ma k \<noteq> None \<or> m2 k \<noteq> None" by (auto simp: merge_maps_def)
  with d show "k \<in> B" by blast
qed

section \<open>Nodes\<close>

lemma node_rep_update:
  assumes nd: "node_rep get s N p nd m" and j: "j < 16" and ext: "extends get s s'"
    and r: "rep get s' N (p @ [j]) (sub_of_slot sl) mj"
  obtains nd' where "set_slot nd j sl = Inr nd'"
    and "node_rep get s' N p nd' (\<lambda>k. if k \<in> below N (p @ [j]) then mj k else m k)"
proof -
  obtain nd' where nd': "set_slot nd j sl = Inr nd'" "wf_node nd'"
    "\<And>i. slot_at nd' i = (if i = j then sl else slot_at nd i)"
    using set_slot_wf [OF node_rep_wf [OF nd] j] by blast
  from node_rep_set_slot [OF nd j nd'(2,3) ext r refl] nd'(1) that show thesis by blast
qed

lemma node_rep_no_slots:
  assumes nd: "node_rep get s N p nd m" and "slots nd = []"
  shows "m = Map.empty"
proof (rule map_below_eqI [OF node_rep_depth [OF nd] node_rep_dom [OF nd]])
  fix j :: nat assume j: "j < 16"
  with assms have "slot_at nd j = None" using slots_empty_iff [OF node_rep_wf [OF nd]] by simp
  with node_rep_slot [OF nd j] show "m |` below N (p @ [j]) = Map.empty |` below N (p @ [j])"
    by (simp add: rep_iffs)
qed simp

lemma node_rep_one_leaf:
  assumes nd: "node_rep get s N p nd m" and "slots nd = [Leaf k v]"
  shows "m = [k \<mapsto> v] \<and> k \<in> below N p"
proof -
  obtain n where n: "n < 16" "slot_at nd n = Some (Leaf k v)" "\<And>j. j \<noteq> n \<Longrightarrow> slot_at nd j = None"
    using slots_single [OF node_rep_wf [OF nd] assms(2)] by blast
  from node_rep_slot [OF nd n(1)] n(2)
  have mn: "m |` below N (p @ [n]) = [k \<mapsto> v]" and kn: "k \<in> below N (p @ [n])"
    by (simp_all add: rep_iffs)
  have k: "k \<in> below N p" using below_snocD [OF kn] by simp
  have "m = [k \<mapsto> v]"
  proof (rule map_below_eqI [OF node_rep_depth [OF nd] node_rep_dom [OF nd]])
    show "dom [k \<mapsto> v] \<subseteq> below N p" using k by simp
    fix j :: nat assume j: "j < 16"
    show "m |` below N (p @ [j]) = [k \<mapsto> v] |` below N (p @ [j])"
    proof (cases "j = n")
      case True
      have "[k \<mapsto> v] |` below N (p @ [n]) = [k \<mapsto> v]" using kn by (simp add: restrict_map_def fun_eq_iff)
      with mn True show ?thesis by simp
    next
      case False
      then have "k \<notin> below N (p @ [j])" using kn below_snocD by blast
      with node_rep_slot [OF nd j] n(3) [OF False] show ?thesis
        by (auto simp: rep_iffs restrict_map_def fun_eq_iff)
    qed
  qed
  with k show ?thesis by simp
qed

lemma rep_slot_key:
  assumes nd: "node_rep get s N p nd m" and j: "j < 16" and "slot_at nd j \<noteq> None"
  obtains k where "k \<in> dom m" and "k \<in> below N (p @ [j])"
proof -
  have "sub_of_slot (slot_at nd j) \<noteq> Empty"
    using assms(3) by (cases "slot_at nd j" rule: sub_of_slot.cases) auto
  from rep_nonempty [OF node_rep_slot [OF nd j] this] that show thesis by auto
qed

text \<open>The shape of a node that holds fewer than two keys.\<close>

lemma node_rep_two_keys:
  assumes nd: "node_rep get s N p nd m" and shape: "slots nd \<noteq> []" "\<And>k v. slots nd \<noteq> [Leaf k v]"
  shows "two_keys m"
proof (cases "slots nd")
  case Nil
  with shape show ?thesis by simp
next
  case (Cons sl rest)
  show ?thesis
  proof (cases rest)
    case Nil
    with Cons shape obtain i where one: "slots nd = [SNode i]" by (cases sl) auto
    obtain n where n: "n < 16" "slot_at nd n = Some (SNode i)"
      using slots_single [OF node_rep_wf [OF nd] one] by blast
    from node_rep_slot [OF nd n(1)] n(2) have "two_keys (m |` below N (p @ [n]))"
      by (simp add: rep_iffs)
    then show ?thesis by (rule two_keys_restrict)
  next
    case (Cons sl2 rest2)
    with \<open>slots nd = sl # rest\<close> slots_in_order [OF node_rep_wf [OF nd]]
    obtain a b js where u: "used nd = a # b # js" by (auto simp: Cons_eq_map_conv)
    have "distinct (used nd)" by (simp add: used_def)
    with u have ab: "a \<noteq> b" by simp
    have "set (used nd) \<subseteq> {j. j < 16 \<and> slot_at nd j \<noteq> None}" by (auto simp: used_def)
    with u have a: "a < 16" "slot_at nd a \<noteq> None" and b: "b < 16" "slot_at nd b \<noteq> None" by auto
    obtain ka where ka: "ka \<in> dom m" "ka \<in> below N (p @ [a])" using rep_slot_key [OF nd a] by blast
    obtain kb where kb: "kb \<in> dom m" "kb \<in> below N (p @ [b])" using rep_slot_key [OF nd b] by blast
    have "ka \<noteq> kb" using ka(2) kb(2) ab below_snocD by blast
    with ka kb show ?thesis by (auto simp: two_keys_def)
  qed
qed

text \<open>What removal and merging may leave at the top: a subtree, or a node with fewer keys.\<close>

definition top_rep :: "'s node_get \<Rightarrow> 's \<Rightarrow> nat \<Rightarrow> nat list \<Rightarrow> sub \<Rightarrow> (bytes \<rightharpoonup> trie_value) \<Rightarrow> bool" where
  "top_rep get s N p r m \<longleftrightarrow> rep get s N p r m \<or>
     (\<exists>i nd. r = Sub i \<and> get s i = Inr nd \<and> node_rep get s N p nd m)"

lemma top_rep_Sub_iff: "top_rep get s N p (Sub i) m \<longleftrightarrow> (\<exists>nd. get s i = Inr nd \<and> node_rep get s N p nd m)"
  by (auto simp: top_rep_def rep_iffs)

lemma top_repI: "rep get s N p r m \<Longrightarrow> top_rep get s N p r m"
  by (simp add: top_rep_def)

lemma top_rep_mono: "top_rep get s N p r m \<Longrightarrow> extends get s s' \<Longrightarrow> top_rep get s' N p r m"
  unfolding top_rep_def by (blast intro: rep_mono node_rep_mono dest: extendsD)

section \<open>The contract for trie nodes\<close>

locale trie_store = node_store put get addr ok sound
  for put :: "'s node_put" and get :: "'s node_get" and addr and ok and sound +
  fixes keeps :: "'s \<Rightarrow> 's \<Rightarrow> bool"
  assumes keeps_refl [simp]: "keeps s s"
    and keeps_trans: "keeps s s' \<Longrightarrow> keeps s' s'' \<Longrightarrow> keeps s s''"
    and put_keeps: "put s n = Inr (s', i) \<Longrightarrow> keeps s s'"
begin

text \<open>
  \<open>keeps\<close> is what a provider promises of everything else it stores beside the nodes; the operations
  pass it on.
\<close>

abbreviation grows :: "'s \<Rightarrow> 's \<Rightarrow> bool" where
  "grows s s' \<equiv> ok s' \<and> extends get s s' \<and> keeps s s'"

lemma grows_trans: "grows s s' \<Longrightarrow> grows s' s'' \<Longrightarrow> grows s s''"
  by (auto intro: extends_trans keeps_trans)

lemma put_grows:
  assumes "sound" and "ok s"
  obtains s' where "put s n = Inr (s', addr n)" and "grows s s'" and "get s' (addr n) = Inr n"
proof -
  obtain s' where "put s n = Inr (s', addr n)" "ok s'" "get s' (addr n) = Inr n"
    "\<And>j m. get s j = Inr m \<Longrightarrow> get s' j = Inr m" using put_spec [OF assms, of n] by blast
  with that put_keeps show thesis by (auto simp: extends_def)
qed

lemma put_sub:
  assumes "sound" and "ok s" and "node_rep get s N p nd m" and "two_keys m"
  obtains s' where "put s nd = Inr (s', addr nd)" and "grows s s'" and "rep get s' N p (Sub (addr nd)) m"
proof -
  obtain s' where "put s nd = Inr (s', addr nd)" "grows s s'" "get s' (addr nd) = Inr nd"
    by (rule put_grows [OF assms(1,2)])
  with that assms(4) node_rep_mono [OF assms(3)] show thesis by (auto simp: rep_Sub_iff)
qed

lemma put_top:
  assumes "sound" and "ok s" and "node_rep get s N p nd m"
  obtains s' where "put s nd = Inr (s', addr nd)" and "grows s s'" and "top_rep get s' N p (Sub (addr nd)) m"
proof -
  obtain s' where "put s nd = Inr (s', addr nd)" "grows s s'" "get s' (addr nd) = Inr nd"
    by (rule put_grows [OF assms(1,2)])
  with that node_rep_mono [OF assms(3)] show thesis by (auto simp: top_rep_Sub_iff)
qed

lemma put_root:
  assumes "sound" and "ok s" and "node_rep get s N [] nd m"
  shows "\<exists>s' i. put s nd = Inr (s', i) \<and> grows s s' \<and> root_rep get s' N i m"
proof -
  obtain s' where "put s nd = Inr (s', addr nd)" "grows s s'" "top_rep get s' N [] (Sub (addr nd)) m"
    by (rule put_top [OF assms])
  then show ?thesis by (auto simp: top_rep_Sub_iff root_rep_def)
qed

subsection \<open>Insertion\<close>

lemma pair_node_correct:
  assumes "sound"
  shows "k1 \<in> below N p \<Longrightarrow> k2 \<in> below N p \<Longrightarrow> k1 \<noteq> k2 \<Longrightarrow> ok s \<Longrightarrow>
    \<exists>s' nd. pair_node put s (length p) k1 v1 k2 v2 = Inr (s', nd) \<and> grows s s' \<and>
      node_rep get s' N p nd [k1 \<mapsto> v1, k2 \<mapsto> v2]"
proof (induction "N - length p" arbitrary: p s rule: less_induct)
  case less
  note k1 = less.prems(1) and k2 = less.prems(2)
  have p: "length p < N"
    using below_full [OF _ k1 k2] below_length [OF k1] less.prems(3) by (cases "length p = N") auto
  let ?n1 = "nibs k1 ! length p" and ?n2 = "nibs k2 ! length p"
  have n: "nibble_at k1 (length p) = Inr ?n1" "nibble_at k2 (length p) = Inr ?n2"
    using below_nibble [OF k1 p] below_nibble [OF k2 p] by auto
  have n16: "?n1 < 16" "?n2 < 16" using below_nibble_bound [OF k1 p] below_nibble_bound [OF k2 p] by auto
  have b: "k1 \<in> below N (p @ [?n1])" "k2 \<in> below N (p @ [?n2])"
    using k1 k2 p by (auto intro: below_snocI)
  have len: "\<not> length k1 * 2 \<le> length p" using k1 p by (auto simp: below_def)
  show ?case
  proof (cases "?n1 = ?n2")
    case True
    let ?q = "p @ [?n1]"
    have "N - length ?q < N - length p" and "k2 \<in> below N ?q" using b True p by auto
    from less.hyps [OF this(1) b(1) this(2) less.prems(3,4)] obtain s1 nd1 where
      1: "pair_node put s (length ?q) k1 v1 k2 v2 = Inr (s1, nd1)" "grows s s1"
         "node_rep get s1 N ?q nd1 [k1 \<mapsto> v1, k2 \<mapsto> v2]" by blast
    from put_sub [OF assms _ 1(3) two_keys_pair [OF less.prems(3)]] 1(2) obtain s2 where
      2: "put s1 nd1 = Inr (s2, addr nd1)" "grows s1 s2" "rep get s2 N ?q (Sub (addr nd1)) [k1 \<mapsto> v1, k2 \<mapsto> v2]"
      by blast
    obtain nd where nd: "set_slot node_empty ?n1 (Some (SNode (addr nd1))) = Inr nd"
      "node_rep get s2 N p nd (\<lambda>k. if k \<in> below N ?q then [k1 \<mapsto> v1, k2 \<mapsto> v2] k else None)"
      using node_rep_update [OF node_rep_empty [OF p] n16(1) extends_refl, of get s2 "Some (SNode (addr nd1))"] 2(3)
      by auto
    have "(\<lambda>k. if k \<in> below N ?q then [k1 \<mapsto> v1, k2 \<mapsto> v2] k else None) = [k1 \<mapsto> v1, k2 \<mapsto> v2]"
      using b True by auto
    with nd have "node_rep get s2 N p nd [k1 \<mapsto> v1, k2 \<mapsto> v2]" by simp
    moreover have "pair_node put s (length p) k1 v1 k2 v2 = Inr (s2, nd)"
      using 1(1) 2(1) nd(1) n True len by (simp add: pair_node.simps [of put s "length p"])
    ultimately show ?thesis using grows_trans [OF 1(2) 2(2)] by blast
  next
    case False
    obtain nd1 where 1: "rbind (nibble_at k1 (length p)) (\<lambda>n. set_slot node_empty n (Some (Leaf k1 v1))) = Inr nd1"
      "node_rep get s N p nd1 [k1 \<mapsto> v1]" by (rule node_rep_leaf [OF k1 p])
    have "rep get s N (p @ [?n2]) (sub_of_slot (Some (Leaf k2 v2))) [k2 \<mapsto> v2]"
      using b by (simp add: rep_SLeaf)
    from node_rep_update [OF 1(2) n16(2) extends_refl this] obtain nd where
      2: "set_slot nd1 ?n2 (Some (Leaf k2 v2)) = Inr nd"
         "node_rep get s N p nd (\<lambda>k. if k \<in> below N (p @ [?n2]) then [k2 \<mapsto> v2] k else [k1 \<mapsto> v1] k)"
      by blast
    have "k1 \<notin> below N (p @ [?n2])" using False below_snocD by blast
    then have "(\<lambda>k. if k \<in> below N (p @ [?n2]) then [k2 \<mapsto> v2] k else [k1 \<mapsto> v1] k) = [k1 \<mapsto> v1, k2 \<mapsto> v2]"
      using b less.prems(3) by auto
    with 2 have "node_rep get s N p nd [k1 \<mapsto> v1, k2 \<mapsto> v2]" by simp
    moreover have "pair_node put s (length p) k1 v1 k2 v2 = Inr (s, nd)"
      using 1(1) 2(1) n False len by (simp add: pair_node.simps [of put s "length p"])
    ultimately show ?thesis using less.prems(4) by auto
  qed
qed

lemma insert_in_correct:
  assumes "sound"
  shows "node_rep get s N p nd m \<Longrightarrow> key \<in> below N p \<Longrightarrow> ok s \<Longrightarrow>
    \<exists>s' nd'. insert_in put get s nd (length p) key v = Inr (s', nd') \<and> grows s s' \<and>
      node_rep get s' N p nd' (m(key \<mapsto> v))"
proof (induction "N - length p" arbitrary: p s nd m rule: less_induct)
  case less
  note nd = less.prems(1) and key = less.prems(2)
  have p: "length p < N" by (rule node_rep_depth [OF nd])
  let ?n = "nibs key ! length p"
  let ?q = "p @ [?n]" and ?B = "below N (p @ [nibs key ! length p])"
  have n: "nibble_at key (length p) = Inr ?n" and n16: "?n < 16" and keyB: "key \<in> ?B"
    using below_nibble [OF key p] below_nibble_bound [OF key p] below_snocI [OF key p] by auto
  have slot: "get_slot nd ?n = Inr (slot_at nd ?n)" using node_rep_wf [OF nd] n16 by simp
  have r: "rep get s N ?q (sub_of_slot (slot_at nd ?n)) (m |` ?B)" by (rule node_rep_slot [OF nd n16])
  have finish: "\<exists>nd'. set_slot nd ?n (Some sl) = Inr nd' \<and> node_rep get s' N p nd' (m(key \<mapsto> v))"
    if "extends get s s'" and "rep get s' N ?q (sub_of_slot (Some sl)) ((m |` ?B)(key \<mapsto> v))" for s' sl
    using node_rep_update [OF nd n16 that] override_update [OF keyB, of m "Some v"] by metis
  note unfold = insert_in.simps [of put get s nd "length p" key v]
  show ?case
  proof (cases "slot_at nd ?n" rule: sub_of_slot.cases)
    case 1
    with r have "rep get s N ?q (sub_of_slot (Some (Leaf key v))) ((m |` ?B)(key \<mapsto> v))"
      using keyB by (simp add: rep_iffs)
    from finish [OF extends_refl this] obtain nd' where nd': "set_slot nd ?n (Some (Leaf key v)) = Inr nd'"
      "node_rep get s N p nd' (m(key \<mapsto> v))" by blast
    then have "insert_in put get s nd (length p) key v = Inr (s, nd')"
      using 1 n slot by (simp add: unfold)
    with nd'(2) less.prems(3) show ?thesis by auto
  next
    case (2 k v0)
    with r have mB: "m |` ?B = [k \<mapsto> v0]" and k: "k \<in> ?B" by (simp_all add: rep_iffs)
    show ?thesis
    proof (cases "k = key")
      case True
      have "rep get s N ?q (sub_of_slot (Some (Leaf k v))) ((m |` ?B)(key \<mapsto> v))"
        using keyB by (simp add: True rep_iffs mB)
      from finish [OF extends_refl this] obtain nd' where nd': "set_slot nd ?n (Some (Leaf k v)) = Inr nd'"
        "node_rep get s N p nd' (m(key \<mapsto> v))" by blast
      then have "insert_in put get s nd (length p) key v = Inr (s, nd')"
        using 2 True n slot by (simp add: unfold)
      with nd'(2) less.prems(3) show ?thesis by auto
    next
      case False
      from pair_node_correct [OF assms k keyB False less.prems(3)] obtain s1 c where
        1: "pair_node put s (length ?q) k v0 key v = Inr (s1, c)" "grows s s1"
           "node_rep get s1 N ?q c [k \<mapsto> v0, key \<mapsto> v]" by blast
      from put_sub [OF assms _ 1(3) two_keys_pair [OF False]] 1(2) obtain s2 where
        2: "put s1 c = Inr (s2, addr c)" "grows s1 s2" "rep get s2 N ?q (Sub (addr c)) [k \<mapsto> v0, key \<mapsto> v]"
        by blast
      have g: "grows s s2" by (rule grows_trans [OF 1(2) 2(2)])
      have "rep get s2 N ?q (sub_of_slot (Some (SNode (addr c)))) ((m |` ?B)(key \<mapsto> v))"
        using 2(3) by (simp add: mB)
      from finish [OF _ this] g obtain nd' where nd': "set_slot nd ?n (Some (SNode (addr c))) = Inr nd'"
        "node_rep get s2 N p nd' (m(key \<mapsto> v))" by blast
      have "length k = length key" using k keyB by (simp add: below_def)
      then have "insert_in put get s nd (length p) key v = Inr (s2, nd')"
        using \<open>slot_at nd ?n = Some (Leaf k v0)\<close> False n slot 1(1) 2(1) nd'(1)
        by (simp add: unfold)
      with nd'(2) g show ?thesis by blast
    qed
  next
    case (3 i)
    with r obtain c where c: "get s i = Inr c" "node_rep get s N ?q c (m |` ?B)" "two_keys (m |` ?B)"
      by (auto simp: rep_iffs)
    have "N - length ?q < N - length p" using p by simp
    from less.hyps [OF this c(2) keyB less.prems(3)] obtain s1 c' where
      1: "insert_in put get s c (length ?q) key v = Inr (s1, c')" "grows s s1"
         "node_rep get s1 N ?q c' ((m |` ?B)(key \<mapsto> v))" by blast
    from put_sub [OF assms _ 1(3) two_keys_upd [OF c(3)]] 1(2) obtain s2 where
      2: "put s1 c' = Inr (s2, addr c')" "grows s1 s2" "rep get s2 N ?q (Sub (addr c')) ((m |` ?B)(key \<mapsto> v))"
      by blast
    have g: "grows s s2" by (rule grows_trans [OF 1(2) 2(2)])
    have "rep get s2 N ?q (sub_of_slot (Some (SNode (addr c')))) ((m |` ?B)(key \<mapsto> v))"
      using 2(3) by simp
    from finish [OF _ this] g obtain nd' where nd': "set_slot nd ?n (Some (SNode (addr c'))) = Inr nd'"
      "node_rep get s2 N p nd' (m(key \<mapsto> v))" by blast
    then have "insert_in put get s nd (length p) key v = Inr (s2, nd')"
      using 3 n slot c(1) 1(1) 2(1) by (simp add: unfold)
    with nd'(2) g show ?thesis by blast
  qed
qed

lemma insert_correct:
  assumes "sound" and "ok s" and "root_rep get s N i m" and "2 * length key = N"
  shows "\<exists>s' j. trie_insert put get s i key v = Inr (s', j) \<and> grows s s' \<and> root_rep get s' N j (m(key \<mapsto> v))"
proof -
  from assms(3) obtain nd where nd: "get s i = Inr nd" "node_rep get s N [] nd m" by (auto simp: root_rep_def)
  from insert_in_correct [OF assms(1) nd(2) _ assms(2), of key v] assms(4) obtain s1 nd1 where
    1: "insert_in put get s nd 0 key v = Inr (s1, nd1)" "grows s s1" "node_rep get s1 N [] nd1 (m(key \<mapsto> v))"
    by (auto simp: below_Nil)
  from put_top [OF assms(1) _ 1(3)] 1(2) obtain s2 where
    2: "put s1 nd1 = Inr (s2, addr nd1)" "grows s1 s2" "top_rep get s2 N [] (Sub (addr nd1)) (m(key \<mapsto> v))"
    by blast
  have "trie_insert put get s i key v = Inr (s2, addr nd1)"
    using nd(1) 1(1) 2(1) by (simp add: trie_insert_def)
  with 2(3) grows_trans [OF 1(2) 2(2)] show ?thesis by (auto simp: top_rep_Sub_iff root_rep_def)
qed

subsection \<open>Removal\<close>

lemma normalize_correct:
  assumes "sound" and "ok s" and nd: "node_rep get s N p nd m"
  shows "\<exists>s' r. normalize put s nd = Inr (s', r) \<and> grows s s' \<and> rep get s' N p r m"
proof -
  consider "slots nd = []" | k v where "slots nd = [Leaf k v]"
    | "slots nd \<noteq> []" "\<And>k v. slots nd \<noteq> [Leaf k v]" by blast
  then show ?thesis
  proof cases
    case 1
    with node_rep_no_slots [OF nd] assms(2) show ?thesis by (simp add: normalize_def rep_iffs)
  next
    case 2
    with node_rep_one_leaf [OF nd] assms(2) show ?thesis by (simp add: normalize_def rep_iffs)
  next
    case 3
    from put_sub [OF assms node_rep_two_keys [OF nd 3]] obtain s' where
      s': "put s nd = Inr (s', addr nd)" "grows s s'" "rep get s' N p (Sub (addr nd)) m" by blast
    have "normalize put s nd = rbind (put s nd) (\<lambda>(s1, i). Inr (s1, Sub i))"
      using 3 by (auto simp: normalize_def split: list.splits slot.splits)
    with s' show ?thesis by auto
  qed
qed

lemma remove_in_correct:
  assumes "sound"
  shows "node_rep get s N p nd m \<Longrightarrow> key \<in> below N p \<Longrightarrow> ok s \<Longrightarrow>
    \<exists>s' r. remove_in put get s nd (length p) key = Inr (s', r) \<and> grows s s' \<and>
      top_rep get s' N p r (m(key := None)) \<and> (two_keys m \<longrightarrow> rep get s' N p r (m(key := None)))"
proof (induction "N - length p" arbitrary: p s nd m rule: less_induct)
  case less
  note nd = less.prems(1) and key = less.prems(2)
  have p: "length p < N" by (rule node_rep_depth [OF nd])
  let ?n = "nibs key ! length p"
  let ?q = "p @ [?n]" and ?B = "below N (p @ [nibs key ! length p])" and ?m' = "m(key := None)"
  have n: "nibble_at key (length p) = Inr ?n" and n16: "?n < 16" and keyB: "key \<in> ?B"
    using below_nibble [OF key p] below_nibble_bound [OF key p] below_snocI [OF key p] by auto
  have slot: "get_slot nd ?n = Inr (slot_at nd ?n)" using node_rep_wf [OF nd] n16 by simp
  have r: "rep get s N ?q (sub_of_slot (slot_at nd ?n)) (m |` ?B)" by (rule node_rep_slot [OF nd n16])
  have m_key: "m key = (m |` ?B) key" using keyB by simp
  note unfold = remove_in.simps [of put get s nd "length p" key]
  have keep: ?case if "remove_in put get s nd (length p) key = rbind (put s nd) (\<lambda>(s1, i). Inr (s1, Sub i))"
    and "m key = None"
  proof -
    have m: "?m' = m" using that(2) by auto
    from put_top [OF assms less.prems(3) nd] obtain s' where
      s': "put s nd = Inr (s', addr nd)" "grows s s'" "top_rep get s' N p (Sub (addr nd)) m" by blast
    then have "two_keys m \<longrightarrow> rep get s' N p (Sub (addr nd)) m"
      by (simp add: top_rep_Sub_iff rep_Sub_iff)
    with s' m that(1) show ?thesis by auto
  qed
  have finish: ?case
    if "remove_in put get s nd (length p) key = rbind (set_slot nd ?n sl) (\<lambda>node'. normalize put s' node')"
      and "grows s s'" and "rep get s' N ?q (sub_of_slot sl) ((m |` ?B)(key := None))" for s' sl
  proof -
    from node_rep_update [OF nd n16 _ that(3)] that(2) override_update [OF keyB, of m None]
    obtain nd' where nd': "set_slot nd ?n sl = Inr nd'" "node_rep get s' N p nd' ?m'" by metis
    from normalize_correct [OF assms _ nd'(2)] that(2) obtain s'' r where
      "normalize put s' nd' = Inr (s'', r)" "grows s' s''" "rep get s'' N p r ?m'" by blast
    with that(1) nd'(1) grows_trans [OF that(2), of s''] show ?thesis by (auto intro: top_repI)
  qed
  show ?case
  proof (cases "slot_at nd ?n" rule: sub_of_slot.cases)
    case 1
    with r m_key have "m key = None" by (simp add: rep_iffs)
    with 1 n slot show ?thesis by (intro keep) (simp_all add: unfold)
  next
    case (2 k v)
    with r have mB: "m |` ?B = [k \<mapsto> v]" by (simp add: rep_iffs)
    show ?thesis
    proof (cases "k = key")
      case True
      have "rep get s N ?q (sub_of_slot None) ((m |` ?B)(key := None))"
        using True by (simp add: mB rep_iffs)
      with 2 True n slot less.prems(3) show ?thesis
        by (intro finish [of None s]) (simp_all add: unfold)
    next
      case False
      with mB m_key have "m key = None" by simp
      with 2 False n slot show ?thesis by (intro keep) (simp_all add: unfold)
    qed
  next
    case (3 i)
    with r obtain c where c: "get s i = Inr c" "node_rep get s N ?q c (m |` ?B)" "two_keys (m |` ?B)"
      by (auto simp: rep_iffs)
    have "N - length ?q < N - length p" using p by simp
    from less.hyps [OF this c(2) keyB less.prems(3)] c(3) obtain s1 r1 where
      1: "remove_in put get s c (length ?q) key = Inr (s1, r1)" "grows s s1"
         "rep get s1 N ?q r1 ((m |` ?B)(key := None))" by blast
    with 3 n slot c(1) show ?thesis
      by (intro finish [of "slot_of_sub r1" s1]) (simp_all add: unfold)
  qed
qed

lemma finish_root:
  assumes "sound" and "ok s" and "top_rep get s N [] r m" and "0 < N"
  shows "\<exists>s' i. (case r of
       Empty \<Rightarrow> put s node_empty
     | SLeaf k v \<Rightarrow> rbind (leaf_root k v) (\<lambda>n. put s n)
     | Sub i \<Rightarrow> Inr (s, i)) = Inr (s', i) \<and> grows s s' \<and> root_rep get s' N i m"
proof (cases r)
  case Empty
  with assms(3) have "node_rep get s N [] node_empty m"
    using node_rep_empty [of "[]" N get s] assms(4) by (simp add: top_rep_def rep_iffs)
  from put_root [OF assms(1,2) this] Empty show ?thesis by simp
next
  case (SLeaf k v)
  with assms(3) have m: "m = [k \<mapsto> v]" "k \<in> below N []" by (simp_all add: top_rep_def rep_iffs)
  obtain nd where "rbind (nibble_at k (length ([] :: nat list))) (\<lambda>n. set_slot node_empty n (Some (Leaf k v))) = Inr nd"
    "node_rep get s N [] nd [k \<mapsto> v]" using node_rep_leaf [OF m(2), of v get s] assms(4) by auto
  then have nd: "leaf_root k v = Inr nd" "node_rep get s N [] nd m" by (simp_all add: leaf_root_def m)
  from put_root [OF assms(1,2) nd(2)] SLeaf nd(1) show ?thesis by simp
next
  case (Sub i)
  with assms(2,3) show ?thesis by (auto simp: top_rep_Sub_iff root_rep_def)
qed

lemma remove_correct:
  assumes "sound" and "ok s" and "root_rep get s N i m" and "2 * length key = N"
  shows "\<exists>s' j. trie_remove put get s i key = Inr (s', j) \<and> grows s s' \<and> root_rep get s' N j (m(key := None))"
proof -
  from assms(3) obtain nd where nd: "get s i = Inr nd" "node_rep get s N [] nd m" by (auto simp: root_rep_def)
  from remove_in_correct [OF assms(1) nd(2) _ assms(2), of key] assms(4) obtain s1 r where
    1: "remove_in put get s nd 0 key = Inr (s1, r)" "grows s s1" "top_rep get s1 N [] r (m(key := None))"
    by (auto simp: below_Nil)
  have "ok s1" and "0 < N" using 1(2) node_rep_depth [OF nd(2)] by simp_all
  from finish_root [OF assms(1) this(1) 1(3) this(2)] grows_trans [OF 1(2)] nd(1) 1(1)
  show ?thesis by (simp add: trie_remove_def) blast
qed

subsection \<open>Enumeration\<close>

lemma walk_correct:
  "get s i = Inr nd \<Longrightarrow> node_rep get s N p nd m \<Longrightarrow> N - length p \<le> fuel \<Longrightarrow>
     \<exists>es. walk get s fuel i out = Inr (out @ es) \<and> sorted_wrt (<) (map fst es) \<and> map_of es = m"
proof (induction fuel arbitrary: i nd p m out)
  case 0
  then show ?case using node_rep_depth by fastforce
next
  case (Suc fuel)
  note nd = Suc.prems(2)
  have p: "length p < N" by (rule node_rep_depth [OF nd])
  let ?f = "\<lambda>sl out. case sl of Leaf k v \<Rightarrow> Inr (out @ [(k, v)]) | SNode c \<Rightarrow> walk get s fuel c out"
  let ?g = "\<lambda>j out. ?f (the (slot_at nd j)) out"
  have step: "\<exists>es. ?g j out = Inr (out @ es) \<and> sorted_wrt (<) (map fst es) \<and> map_of es = m |` below N (p @ [j])"
    if j: "j < 16" and used: "slot_at nd j \<noteq> None" for j out
  proof (cases "slot_at nd j" rule: sub_of_slot.cases)
    case 1
    with used show ?thesis by simp
  next
    case (2 k v)
    with node_rep_slot [OF nd j] show ?thesis by (simp add: rep_iffs)
  next
    case (3 c)
    with node_rep_slot [OF nd j] obtain nd' where "get s c = Inr nd'"
      "node_rep get s N (p @ [j]) nd' (m |` below N (p @ [j]))" by (auto simp: rep_iffs)
    from Suc.IH [OF this, of out] Suc.prems(3) 3 show ?thesis by simp
  qed
  have "\<exists>out'. rfold ?g (used nd) out = Inr out' \<and>
      (\<exists>es. out' = out @ es \<and> sorted_wrt (<) (map fst es) \<and> map_of es = only N p (used nd) m)"
  proof (rule rfold_inv)
    show "\<exists>es. out = out @ es \<and> sorted_wrt (<) (map fst es) \<and> map_of es = only N p [] m"
      by (intro exI [of _ "[]"]) simp
  next
    fix js j js' out'
    assume split: "used nd = js @ j # js'"
      and "\<exists>es. out' = out @ es \<and> sorted_wrt (<) (map fst es) \<and> map_of es = only N p js m"
    then obtain es where es: "out' = out @ es" "sorted_wrt (<) (map fst es)" "map_of es = only N p js m" by blast
    have "j \<in> set (used nd)" using split by simp
    then have j: "j < 16" "slot_at nd j \<noteq> None" by (auto simp: used_def)
    from step [OF j, of out'] obtain es' where es': "?g j out' = Inr (out' @ es')"
      "sorted_wrt (<) (map fst es')" "map_of es' = m |` below N (p @ [j])" by blast
    have "sorted_wrt (<) (used nd)" by (simp add: used_def sorted_wrt_filter)
    with split have less: "i < j" if "i \<in> set js" for i using that by (auto simp: sorted_wrt_append)
    have "k < k'" if "k \<in> fst ` set es" and "k' \<in> fst ` set es'" for k k'
    proof -
      from that(1) es(3) have "k \<in> dom (only N p js m)" by (metis dom_map_of_conv_image_fst)
      then have "k \<in> below N (p @ [nibs k ! length p])" "nibs k ! length p \<in> set js"
        using p by (auto simp: only_def below_snoc_iff split: if_splits)
      moreover from that(2) es'(3) have "k' \<in> dom (m |` below N (p @ [j]))" by (metis dom_map_of_conv_image_fst)
      then have "k' \<in> below N (p @ [j])" by simp
      ultimately show ?thesis using less by (blast intro: below_less)
    qed
    then have "sorted_wrt (<) (map fst (es @ es'))"
      using es(2) es'(2) by (auto simp: sorted_wrt_append)
    moreover have "map_of (es @ es') = only N p (js @ [j]) m"
      unfolding only_snoc [OF p] by (auto simp: es(3) es'(3) map_add_def restrict_map_def only_def
          dest: below_snocD split: option.splits)
    ultimately show "\<exists>b'. ?g j out' = Inr b' \<and> (\<exists>es. b' = out @ es \<and> sorted_wrt (<) (map fst es) \<and>
        map_of es = only N p (js @ [j]) m)"
      using es(1) es'(1) by (intro exI [of _ "out' @ es'"]) auto
  qed
  moreover have "only N p (used nd) m = m"
  proof -
    have "only N p (used nd) m k = only N p [0..<16] m k" for k
    proof (cases "k \<in> below N p \<and> m k \<noteq> None")
      case True
      let ?j = "nibs k ! length p"
      have j: "?j < 16" and k: "k \<in> below N (p @ [?j])"
        using True p by (auto intro: below_nibble_bound below_snocI)
      have "(m |` below N (p @ [?j])) k \<noteq> None" using True k by simp
      with node_rep_slot [OF nd j] have "slot_at nd ?j \<noteq> None"
        by (cases "slot_at nd ?j") (auto simp: rep_Empty_iff)
      with j show ?thesis by (simp add: only_def used_def)
    qed (auto simp: only_def)
    then show ?thesis using only_all [OF p node_rep_dom [OF nd]] by (simp add: fun_eq_iff)
  qed
  moreover have "rfold ?f (slots nd) out = rfold ?g (used nd) out"
    by (subst slots_in_order [OF node_rep_wf [OF nd]]) (rule rfold_map)
  ultimately obtain es where "rfold ?f (slots nd) out = Inr (out @ es)" "sorted_wrt (<) (map fst es)" "map_of es = m"
    by auto
  with Suc.prems(1) show ?case by simp
qed

lemma entries_correct:
  assumes "root_rep get s N i m" and "N \<le> fuel"
  shows "\<exists>es. trie_entries get fuel s i = Inr es \<and> sorted_wrt (<) (map fst es) \<and> map_of es = m"
proof -
  from assms(1) obtain nd where "get s i = Inr nd" "node_rep get s N [] nd m" by (auto simp: root_rep_def)
  from walk_correct [OF this, of fuel "[]"] assms(2) show ?thesis by (simp add: trie_entries_def)
qed

subsection \<open>Three-way merge\<close>

lemma expand_correct:
  assumes "rep get s N p r m" and "length p < N"
  shows "\<exists>nd. expand get s r (length p) = Inr nd \<and> node_rep get s N p nd m"
proof (cases r)
  case Empty
  with assms show ?thesis using node_rep_empty [of p N get s] by (simp add: expand_def rep_iffs)
next
  case (SLeaf k v)
  with assms(1) have m: "m = [k \<mapsto> v]" "k \<in> below N p" by (simp_all add: rep_iffs)
  obtain nd where "rbind (nibble_at k (length p)) (\<lambda>n. set_slot node_empty n (Some (Leaf k v))) = Inr nd"
    "node_rep get s N p nd [k \<mapsto> v]" by (rule node_rep_leaf [OF m(2) assms(2)])
  with SLeaf m(1) show ?thesis by (simp add: expand_def)
next
  case (Sub i)
  with assms show ?thesis by (simp add: expand_def rep_iffs)
qed

lemma merge_flat_correct:
  assumes "rep get s N p base mb" and "rep get s N p a ma" and "rep get s N p b m2"
    and "is_flat base" and "is_flat a" and "is_flat b" and "all_equal_neighbours (flat_keys base a b)"
    and "a \<noteq> base" and "b \<noteq> base" and "a \<noteq> b"
  shows "\<exists>r. merge_flat pol base a b = Inr r \<and> rep get s N p r (merge_maps pol mb ma m2)"
proof -
  note defs = merge_flat_def flat_keys_def map_filter_simps rep_iffs merge_maps_def merge_value_def fun_eq_iff
  show ?thesis
    using assms by (cases base; cases a; cases b) (auto simp: defs split: option.splits merge_policy.splits)
qed

text \<open>The slotwise loop, given that the merge of the children is right.\<close>

lemma merge_nodes_correct:
  assumes "sound" and "ok s"
    and nb: "node_rep get s N p nb mb" and na: "node_rep get s N p na ma" and n2: "node_rep get s N p n2 m2"
    and child: "\<And>s q base a b mb ma m2. ok s \<Longrightarrow> length q = Suc (length p) \<Longrightarrow> rep get s N q base mb \<Longrightarrow>
      rep get s N q a ma \<Longrightarrow> rep get s N q b m2 \<Longrightarrow>
      \<exists>s' r. merge_sub put get pol fuel s (Suc (length p)) base a b = Inr (s', r) \<and> grows s s' \<and>
        rep get s' N q r (merge_maps pol mb ma m2)"
  shows "\<exists>s' r. rbind (rfold (\<lambda>nib (s, out).
            rbind (get_slot nb nib) (\<lambda>sb.
            rbind (get_slot na nib) (\<lambda>sa.
            rbind (get_slot n2 nib) (\<lambda>sb2.
            rbind (merge_sub put get pol fuel s (length p + 1) (sub_of_slot sb) (sub_of_slot sa) (sub_of_slot sb2))
              (\<lambda>(s1, merged).
            rbind (set_slot out nib (slot_of_sub merged)) (\<lambda>out'. Inr (s1, out')))))))
          [0..<16] (s, node_empty)) (\<lambda>(s2, out). normalize put s2 out) = Inr (s', r) \<and>
        grows s s' \<and> rep get s' N p r (merge_maps pol mb ma m2)"
proof -
  have p: "length p < N" by (rule node_rep_depth [OF nb])
  let ?m = "merge_maps pol mb ma m2"
  let ?P = "\<lambda>js (s', out). grows s s' \<and> node_rep get s' N p out (only N p js ?m)"
  have "\<exists>st. rfold (\<lambda>nib (s, out).
            rbind (get_slot nb nib) (\<lambda>sb.
            rbind (get_slot na nib) (\<lambda>sa.
            rbind (get_slot n2 nib) (\<lambda>sb2.
            rbind (merge_sub put get pol fuel s (length p + 1) (sub_of_slot sb) (sub_of_slot sa) (sub_of_slot sb2))
              (\<lambda>(s1, merged).
            rbind (set_slot out nib (slot_of_sub merged)) (\<lambda>out'. Inr (s1, out')))))))
          [0..<16] (s, node_empty) = Inr st \<and> ?P [0..<16] st"
  proof (rule rfold_inv)
    show "?P [] (s, node_empty)" using assms(2) node_rep_empty [OF p] by simp
  next
    fix js j js' st
    assume split: "[0..<16] = js @ j # js'" and st: "?P js st"
    obtain s1 out where [simp]: "st = (s1, out)" by (cases st)
    have g: "grows s s1" and out: "node_rep get s1 N p out (only N p js ?m)" using st by simp_all
    have "j \<in> set [0..<16]" unfolding split by simp
    then have j: "j < 16" by simp
    let ?q = "p @ [j]"
    have r: "rep get s1 N ?q (sub_of_slot (slot_at nd j)) (m |` below N ?q)" if "node_rep get s N p nd m" for nd m
      using rep_mono [OF node_rep_slot [OF that j]] g by simp
    have "ok s1" and len: "length ?q = Suc (length p)" using g by simp_all
    from child [OF this r [OF nb] r [OF na] r [OF n2]] obtain s2 m where
      m: "merge_sub put get pol fuel s1 (Suc (length p)) (sub_of_slot (slot_at nb j)) (sub_of_slot (slot_at na j))
           (sub_of_slot (slot_at n2 j)) = Inr (s2, m)" "grows s1 s2" "rep get s2 N ?q m (?m |` below N ?q)"
      by (auto simp: merge_maps_restrict)
    from m(3) have "rep get s2 N ?q (sub_of_slot (slot_of_sub m)) (?m |` below N ?q)" by simp
    from node_rep_update [OF out j _ this] m(2) obtain out' where
      out': "set_slot out j (slot_of_sub m) = Inr out'" "node_rep get s2 N p out' (only N p (js @ [j]) ?m)"
      unfolding only_snoc [OF p] by blast
    have "get_slot nb j = Inr (slot_at nb j)" "get_slot na j = Inr (slot_at na j)" "get_slot n2 j = Inr (slot_at n2 j)"
      using node_rep_wf [OF nb] node_rep_wf [OF na] node_rep_wf [OF n2] j by simp_all
    with m(1) out' grows_trans [OF g m(2)] show "\<exists>b'. (case st of (s, out) \<Rightarrow>
            rbind (get_slot nb j) (\<lambda>sb.
            rbind (get_slot na j) (\<lambda>sa.
            rbind (get_slot n2 j) (\<lambda>sb2.
            rbind (merge_sub put get pol fuel s (length p + 1) (sub_of_slot sb) (sub_of_slot sa) (sub_of_slot sb2))
              (\<lambda>(s1, merged).
            rbind (set_slot out j (slot_of_sub merged)) (\<lambda>out'. Inr (s1, out')))))) ) = Inr b' \<and> ?P (js @ [j]) b'"
      by simp
  qed
  then obtain s1 out where 1: "rfold (\<lambda>nib (s, out).
            rbind (get_slot nb nib) (\<lambda>sb.
            rbind (get_slot na nib) (\<lambda>sa.
            rbind (get_slot n2 nib) (\<lambda>sb2.
            rbind (merge_sub put get pol fuel s (length p + 1) (sub_of_slot sb) (sub_of_slot sa) (sub_of_slot sb2))
              (\<lambda>(s1, merged).
            rbind (set_slot out nib (slot_of_sub merged)) (\<lambda>out'. Inr (s1, out')))))))
          [0..<16] (s, node_empty) = Inr (s1, out)"
    and g: "grows s s1" and "node_rep get s1 N p out (only N p [0..<16] ?m)" by auto
  moreover have "dom ?m \<subseteq> below N p"
    by (rule merge_maps_dom [OF node_rep_dom [OF nb] node_rep_dom [OF na] node_rep_dom [OF n2]])
  ultimately have "node_rep get s1 N p out ?m" by (simp add: only_all [OF p])
  from normalize_correct [OF assms(1) _ this] g obtain s2 r where
    "normalize put s1 out = Inr (s2, r)" "grows s1 s2" "rep get s2 N p r ?m" by blast
  with 1 grows_trans [OF g] show ?thesis by auto
qed

text \<open>At the last level of the key all leaves carry the same key, so the nodes are never opened there.\<close>

lemma not_flat_depth:
  assumes "rep get s N p base mb" and "rep get s N p a ma" and "rep get s N p b m2"
    and "\<not> (is_flat base \<and> is_flat a \<and> is_flat b \<and> all_equal_neighbours (flat_keys base a b))"
  shows "length p < N"
proof (rule ccontr)
  assume no: "\<not> length p < N"
  have sub: "r \<noteq> Sub i" if "rep get s N p r m" for r i m
    using that no by (auto simp: rep_Sub_iff dest: node_rep_depth)
  have key: "k = k'" if "rep get s N p (SLeaf k v) m" "rep get s N p (SLeaf k' v') m'" for k v m k' v' m'
  proof -
    from that have k: "k \<in> below N p" "k' \<in> below N p" by (simp_all add: rep_SLeaf_iff)
    with no below_length [OF k(1)] show ?thesis by (intro below_full [of p N]) auto
  qed
  show False
    using assms sub [OF assms(1)] sub [OF assms(2)] sub [OF assms(3)] key
    by (cases base; cases a; cases b) (auto simp: flat_keys_def map_filter_simps)
qed

lemma merge_sub_correct:
  assumes "sound"
  shows "ok s \<Longrightarrow> rep get s N p base mb \<Longrightarrow> rep get s N p a ma \<Longrightarrow> rep get s N p b m2 \<Longrightarrow> N - length p < fuel \<Longrightarrow>
    \<exists>s' r. merge_sub put get pol fuel s (length p) base a b = Inr (s', r) \<and> grows s s' \<and>
      rep get s' N p r (merge_maps pol mb ma m2)"
proof (induction fuel arbitrary: s p base a b mb ma m2)
  case (Suc fuel)
  note rb = Suc.prems(2) and ra = Suc.prems(3) and r2 = Suc.prems(4)
  let ?flat = "is_flat base \<and> is_flat a \<and> is_flat b \<and> all_equal_neighbours (flat_keys base a b)"
  consider "a = base" | "a \<noteq> base" "b = base" | "a \<noteq> base" "b \<noteq> base" "a = b"
    | "a \<noteq> base" "b \<noteq> base" "a \<noteq> b" "?flat" | "a \<noteq> base" "b \<noteq> base" "a \<noteq> b" "\<not> ?flat" by blast
  then show ?case
  proof cases
    case 1
    with rep_fun [OF ra, of mb] rb r2 Suc.prems(1) show ?thesis by simp
  next
    case 2
    with rep_fun [OF r2, of mb] rb ra Suc.prems(1) show ?thesis by simp
  next
    case 3
    with rep_fun [OF r2, of ma] ra Suc.prems(1) show ?thesis by simp
  next
    case 4
    then obtain r where "merge_flat pol base a b = Inr r" "rep get s N p r (merge_maps pol mb ma m2)"
      using merge_flat_correct [OF rb ra r2, of pol] by blast
    with 4 Suc.prems(1) show ?thesis by auto
  next
    case 5
    have p: "length p < N" by (rule not_flat_depth [OF rb ra r2 5(4)])
    from expand_correct [OF rb p] expand_correct [OF ra p] expand_correct [OF r2 p] obtain nb na n2 where
      e: "expand get s base (length p) = Inr nb" "expand get s a (length p) = Inr na"
         "expand get s b (length p) = Inr n2"
      and n: "node_rep get s N p nb mb" "node_rep get s N p na ma" "node_rep get s N p n2 m2" by blast
    have step: "merge_sub put get pol (Suc fuel) s (length p) base a b = rbind (rfold (\<lambda>nib (s, out).
            rbind (get_slot nb nib) (\<lambda>sb.
            rbind (get_slot na nib) (\<lambda>sa.
            rbind (get_slot n2 nib) (\<lambda>sb2.
            rbind (merge_sub put get pol fuel s (length p + 1) (sub_of_slot sb) (sub_of_slot sa) (sub_of_slot sb2))
              (\<lambda>(s1, merged).
            rbind (set_slot out nib (slot_of_sub merged)) (\<lambda>out'. Inr (s1, out')))))))
          [0..<16] (s, node_empty)) (\<lambda>(s2, out). normalize put s2 out)"
      using 5 by (simp only: merge_sub.simps if_False e rbind.simps)
    show ?thesis
      unfolding step
    proof (rule merge_nodes_correct [OF assms Suc.prems(1) n])
      fix s q base a b mb ma m2
      assume "ok s" "length q = Suc (length p)" "rep get s N q base mb" "rep get s N q a ma" "rep get s N q b m2"
      with Suc.IH [of s q base mb a ma b m2] p Suc.prems(5)
      show "\<exists>s' r. merge_sub put get pol fuel s (Suc (length p)) base a b = Inr (s', r) \<and> grows s s' \<and>
          rep get s' N q r (merge_maps pol mb ma m2)" by simp
    qed
  qed
qed simp

lemma merge_root_correct:
  assumes "sound" and "ok s" and rb: "root_rep get s N base mb" and ra: "root_rep get s N a ma"
    and r2: "root_rep get s N b m2" and fuel: "N < fuel"
  shows "\<exists>s' r. merge_sub put get pol fuel s 0 (Sub base) (Sub a) (Sub b) = Inr (s', r) \<and> grows s s' \<and>
    top_rep get s' N [] r (merge_maps pol mb ma m2)"
proof -
  obtain f where f: "fuel = Suc f" using fuel by (cases fuel) auto
  from rb ra r2 obtain nb na n2 where e: "get s base = Inr nb" "get s a = Inr na" "get s b = Inr n2"
    and n: "node_rep get s N [] nb mb" "node_rep get s N [] na ma" "node_rep get s N [] n2 m2"
    by (auto simp: root_rep_def)
  have top: "top_rep get s N [] (Sub i) m" if "root_rep get s N i m" for i m
    using that by (auto simp: top_rep_Sub_iff root_rep_def)
  consider "a = base" | "a \<noteq> base" "b = base" | "a \<noteq> base" "b \<noteq> base" "a = b"
    | "a \<noteq> base" "b \<noteq> base" "a \<noteq> b" by blast
  then show ?thesis
  proof cases
    case 1
    with root_rep_fun [OF ra, of mb] rb top [OF r2] assms(2) show ?thesis by (simp add: f)
  next
    case 2
    with root_rep_fun [OF r2, of mb] rb top [OF ra] assms(2) show ?thesis by (simp add: f)
  next
    case 3
    with root_rep_fun [OF r2, of ma] ra top [OF ra] assms(2) show ?thesis by (simp add: f)
  next
    case 4
    have step: "merge_sub put get pol fuel s 0 (Sub base) (Sub a) (Sub b) = rbind (rfold (\<lambda>nib (s, out).
            rbind (get_slot nb nib) (\<lambda>sb.
            rbind (get_slot na nib) (\<lambda>sa.
            rbind (get_slot n2 nib) (\<lambda>sb2.
            rbind (merge_sub put get pol f s (length ([] :: nat list) + 1) (sub_of_slot sb) (sub_of_slot sa) (sub_of_slot sb2))
              (\<lambda>(s1, merged).
            rbind (set_slot out nib (slot_of_sub merged)) (\<lambda>out'. Inr (s1, out')))))))
          [0..<16] (s, node_empty)) (\<lambda>(s2, out). normalize put s2 out)"
      using 4 by (simp add: f expand_def e del: upt.simps upt_rec_numeral rfold.simps)
    have "\<exists>s' r. merge_sub put get pol fuel s 0 (Sub base) (Sub a) (Sub b) = Inr (s', r) \<and> grows s s' \<and>
        rep get s' N [] r (merge_maps pol mb ma m2)"
      unfolding step
    proof (rule merge_nodes_correct [OF assms(1,2) n])
      fix s q base a b mb ma m2
      assume q: "ok s" "length q = Suc (length ([] :: nat list))" "rep get s N q base mb" "rep get s N q a ma"
        "rep get s N q b m2"
      have "N - length q < f" using fuel f q(2) node_rep_depth [OF n(1)] by simp
      from merge_sub_correct [OF assms(1) q(1,3-5) this, of pol] q(2)
      show "\<exists>s' r. merge_sub put get pol f s (Suc (length ([] :: nat list))) base a b = Inr (s', r) \<and> grows s s' \<and>
          rep get s' N q r (merge_maps pol mb ma m2)" by simp
    qed
    then show ?thesis by (blast intro: top_repI)
  qed
qed

lemma merge_correct:
  assumes "sound" and "ok s" and "root_rep get s N base mb" and "root_rep get s N a ma"
    and "root_rep get s N b m2" and "N < fuel"
  shows "\<exists>s' i. merge3 put get fuel s base a b pol = Inr (s', i) \<and> grows s s' \<and>
    root_rep get s' N i (merge_maps pol mb ma m2)"
proof -
  from merge_root_correct [OF assms, of pol] obtain s1 r where
    1: "merge_sub put get pol fuel s 0 (Sub base) (Sub a) (Sub b) = Inr (s1, r)" "grows s s1"
       "top_rep get s1 N [] r (merge_maps pol mb ma m2)" by blast
  have "ok s1" and "0 < N" using 1(2) assms(3) by (auto simp: root_rep_def dest: node_rep_depth)
  from finish_root [OF assms(1) this(1) 1(3) this(2)] grows_trans [OF 1(2)] 1(1)
  show ?thesis by (simp add: merge3_def empty_root_def) blast
qed

subsection \<open>Uniqueness\<close>

text \<open>Two roots for one map, in whatever stores, are one id: the order of operations leaves no trace.\<close>

lemma root_unique:
  assumes "sound" and "ok s" and "ok s'" and "root_rep get s N i m" and "root_rep get s' N j m"
  shows "i = j"
proof -
  from assms(4,5) obtain n n' where n: "get s i = Inr n" "node_rep get s N [] n m"
    and n': "get s' j = Inr n'" "node_rep get s' N [] n' m" by (auto simp: root_rep_def)
  have same: "x = y" if "get s x = Inr z" "get s' y = Inr z" for x y z
    using get_addr [OF assms(1,2) that(1)] get_addr [OF assms(1,3) that(2)] by simp
  have "n = n'"
    by (rule node_rep_canonical [of get s s', OF _ n(2) n'(2)]) (rule same)
  with n(1) n'(1) get_addr [OF assms(1,2) n(1)] get_addr [OF assms(1,3) n'(1)] show ?thesis by simp
qed

lemma get_correct: "root_rep get s N i m \<Longrightarrow> trie_get get s i key = Inr (m key)"
  by (rule trie_get_correct)

lemma empty_correct:
  assumes "sound" and "ok s" and "0 < N"
  shows "\<exists>s' i. empty_root put s = Inr (s', i) \<and> grows s s' \<and> root_rep get s' N i Map.empty"
  using put_root [OF assms(1,2) node_rep_empty [of "[]" N get s]] assms(3) by (simp add: empty_root_def)

end

end
