(* ===== verification/Objects.thy ===== *)
theory Objects
  imports Trie_Correct
begin

text \<open>
  The object catalog, \<open>crates/tessra-core/src/object.rs\<close>, and the store of objects.

  Every struct is a record with the struct's fields in the struct's order, prefixed by an
  abbreviation of its name because record fields are global names. A \<open>u64\<close> is a 64-bit word, an
  \<open>i64\<close> that is only compared is an \<open>int\<close>, a \<open>BTreeMap\<close> is a sorted association list.
  \<open>obj\<close> is any object, one constructor per tag of the catalog.

  The serde code of the types is not modelled type by type. At this level a stored object is the
  object itself and its id is \<open>h o\<close>, where \<open>h\<close> is the composition of encoding and hashing that
  \<open>Cbor.encode\<close> describes. Reading checks the id and the type as \<open>ObjectStore::get\<close> does:
  the bytes of another type hash to another id under the asked-for tag, which is a store error.
\<close>

type_synonym u16 = "16 word"
type_synonym u64 = "64 word"

section \<open>Group A: content\<close>

record artifact =
  art_hash :: "oid"
  art_size :: "u64"
  art_chunks :: "oid list"

datatype entry_kind = File | Dir | Symlink | KArtifact | KConflict

fun u8_of_entry_kind :: "entry_kind \<Rightarrow> u8" where
  "u8_of_entry_kind File = 0"
| "u8_of_entry_kind Dir = 1"
| "u8_of_entry_kind Symlink = 2"
| "u8_of_entry_kind KArtifact = 3"
| "u8_of_entry_kind KConflict = 4"

definition entry_kind_of_u8 :: "u8 \<Rightarrow> entry_kind res" where
  "entry_kind_of_u8 v =
     (if v = 0 then Inr File
      else if v = 1 then Inr Dir
      else if v = 2 then Inr Symlink
      else if v = 3 then Inr KArtifact
      else if v = 4 then Inr KConflict
      else Inl Decode)"

lemma entry_kind_round_trip: "entry_kind_of_u8 v = Inr k \<longleftrightarrow> v = u8_of_entry_kind k"
  by (cases k) (auto simp: entry_kind_of_u8_def)

record conflict_term =
  ct_sign :: "int"
  ct_kind :: "entry_kind"
  ct_mode :: "u8 option"
  ct_ref :: "oid"

record tree_entry =
  te_name :: "string"
  te_kind :: "entry_kind"
  te_mode :: "u8 option"
  te_ref :: "oid option"
  te_terms :: "conflict_term list option"

record tree =
  tree_entries :: "tree_entry list option"
  tree_shards :: "oid option list option"

definition shard_threshold :: nat where
  "shard_threshold = 4096"

definition tree_flat :: "tree_entry list \<Rightarrow> tree" where
  "tree_flat entries = \<lparr>tree_entries = Some (sort_key te_name entries), tree_shards = None\<rparr>"

definition tree_empty :: tree where
  "tree_empty = \<lparr>tree_entries = Some [], tree_shards = None\<rparr>"

record rule =
  rule_pattern :: "string"
  rule_class :: "u8"
  rule_generator :: "string option"
  rule_media :: "string option"

record tracking_rules =
  tr_rules :: "rule list"
  tr_eol :: "string"
  tr_case :: "string"
  tr_portable_names :: "bool"
  tr_artifact_threshold :: "u64 option"

definition default_rules :: tracking_rules where
  "default_rules = \<lparr>tr_rules = [], tr_eol = ''lf'', tr_case = ''check'', tr_portable_names = True,
     tr_artifact_threshold = None\<rparr>"

record environment =
  env_os :: "string"
  env_arch :: "string"
  env_tools :: "(string, string) btree"
  env_image :: "string option"
  env_sandbox :: "string option"
  env_extra :: "(string, value) btree option"

record snapshot =
  snap_root :: "oid"
  snap_rules :: "oid"
  snap_env :: "oid option"
  snap_index :: "oid option"

record node =
  node_nid :: "eid"
  node_path :: "string"
  node_kind :: "string"
  node_name :: "string"
  node_span :: "u64 \<times> u64"
  node_body :: "oid"
  node_parent :: "eid option"
  node_deps :: "eid list option"
  node_setlike :: "bool option"

record node_index =
  ni_root :: "oid"
  ni_grammars :: "string"
  ni_parents :: "oid list"
  ni_nodes :: "node list"
  ni_aliases :: "(bytes, eid) btree option"

section \<open>Group B: change\<close>

record sem_op =
  so_kind :: "string"
  so_args :: "(string, value) btree"

record secret_match =
  sm_path :: "string"
  sm_pattern :: "string"

record flags =
  fl_out_of_scope :: "string list option"
  fl_secrets :: "secret_match list option"
  fl_case_collisions :: "string list list option"
  fl_unportable_names :: "string list option"
  fl_generated_drift :: "string list option"

definition flags_is_empty :: "flags \<Rightarrow> bool" where
  "flags_is_empty f \<longleftrightarrow> fl_out_of_scope f = None \<and> fl_secrets f = None \<and> fl_case_collisions f = None \<and>
     fl_unportable_names f = None \<and> fl_generated_drift f = None"

record revision =
  rev_id :: "eid"
  rev_prev :: "oid option"
  rev_snapshots :: "(string, oid) btree"
  rev_parents :: "oid list"
  rev_intent :: "eid option"
  rev_title :: "string"
  rev_body :: "string option"
  rev_author :: "eid"
  rev_time :: "int"
  rev_ops :: "sem_op list option"
  rev_flags :: "flags option"

record intent =
  intent_id :: "eid"
  intent_prev :: "oid option"
  intent_title :: "string"
  intent_body :: "string option"
  intent_spec :: "oid option"
  intent_evals :: "oid list option"
  intent_parent :: "eid option"
  intent_depends :: "eid list option"
  intent_priority :: "int"
  intent_status :: "string"
  intent_assignee :: "eid option"
  intent_created_by :: "eid"
  intent_time :: "int"
  intent_legacy :: "bool option"

record comment_obj =
  com_subject :: "oid"
  com_scope :: "(string, value) btree option"
  com_body :: "string"
  com_author :: "eid"
  com_time :: "int"
  com_reply_to :: "oid option"
  com_suggest :: "oid option"

section \<open>Group C: evidence\<close>

record attestation =
  att_kind :: "string"
  att_subject :: "bytes option"
  att_bodies :: "oid list option"
  att_subject_type :: "string option"
  att_scope :: "(string, value) btree option"
  att_result :: "value"
  att_env :: "oid option"
  att_verifier :: "eid"
  att_runner :: "eid option"
  att_evidence :: "oid option"
  att_time :: "int"
  att_sigkind :: "string"
  att_sig :: "bytes option"

record memory_scope =
  ms_kind :: "string"
  ms_ref :: "value"

record memory =
  memo_id :: "eid"
  memo_prev :: "oid option"
  memo_kind :: "string"
  memo_scope :: "memory_scope"
  memo_body :: "string"
  memo_anchor :: "oid option"
  memo_confidence :: "u16"
  memo_author :: "eid"
  memo_time :: "int"
  memo_expires :: "int option"
  memo_proposed :: "bool option"
  memo_status :: "string"
  memo_links :: "oid list option"
  memo_visibility :: "string"

record predicate =
  pred_kind :: "string"
  pred_name :: "string option"
  pred_args :: "(string, value) btree option"

record clause =
  cl_op :: "string"
  cl_pred :: "predicate"
  cl_unless :: "predicate option"

record scoped_clauses =
  sc_pattern :: "string"
  sc_clauses :: "clause list"
  sc_only :: "bool option"

record risk_clauses =
  rc_risk_at_least :: "string"
  rc_clauses :: "clause list"

record standard =
  std_id :: "eid"
  std_prev :: "oid option"
  std_name :: "string"
  std_extends :: "eid option"
  std_clauses :: "clause list"
  std_scopes :: "scoped_clauses list option"
  std_when :: "risk_clauses list option"
  std_audit_permille :: "u16 option"

section \<open>Group D: coordination\<close>

record claim_target =
  ctg_kind :: "string"
  ctg_ref :: "value"

record claim =
  claim_id :: "eid"
  claim_prev :: "oid option"
  claim_principal :: "eid"
  claim_targets :: "claim_target list"
  claim_intent :: "eid option"
  claim_exclusive :: "bool"
  claim_expires :: "int"
  claim_note :: "string option"

record workspace =
  ws_id :: "eid"
  ws_principal :: "eid"
  ws_base :: "oid"
  ws_current :: "oid option"
  ws_paths :: "(string, string) btree"
  ws_env :: "oid option"
  ws_created :: "int"
  ws_expires :: "int option"
  ws_holder :: "eid option"

record binding =
  bind_provider :: "string"
  bind_subject :: "string"
  bind_proof :: "bytes option"

record principal =
  prin_id :: "eid"
  prin_prev :: "oid option"
  prin_key :: "bytes option"
  prin_kind :: "string"
  prin_name :: "string"
  prin_parent :: "eid option"
  prin_model :: "string option"
  prin_runtime :: "(string, value) btree option"
  prin_bindings :: "binding list option"
  prin_status :: "string"
  prin_expires :: "int option"
  prin_time :: "int"
  prin_sig :: "bytes option"

record write_scope =
  wsc_roots :: "string list option"
  wsc_paths :: "string list option"
  wsc_nodes :: "eid list option"
  wsc_lines :: "eid list option"
  wsc_targets :: "eid list option"
  wsc_stages :: "string list option"
  wsc_memory_scopes :: "string list option"

record read_scope =
  rsc_roots :: "string list option"
  rsc_paths :: "string list option"
  rsc_memory :: "string option"

record capability =
  cap_issuer :: "eid"
  cap_subject :: "eid"
  cap_verbs :: "string list"
  cap_write :: "write_scope"
  cap_read :: "read_scope"
  cap_hard :: "(string, u64) btree option"
  cap_advisory :: "(string, int) btree option"
  cap_delegable :: "bool"
  cap_parent :: "oid option"
  cap_nonce :: "eid"
  cap_time :: "int"
  cap_sig :: "bytes option"

record hook_action =
  ha_kind :: "string"
  ha_args :: "(string, value) btree"

record hook =
  hook_id :: "eid"
  hook_prev :: "oid option"
  hook_name :: "string"
  hook_on :: "string"
  hook_where :: "predicate option"
  hook_do :: "hook_action list"
  hook_as :: "eid"
  hook_enabled :: "bool"
  hook_order :: "int option"

record channel =
  chan_id :: "eid"
  chan_prev :: "oid option"
  chan_kind :: "string"
  chan_config :: "(string, value) btree"
  chan_principals :: "eid list"
  chan_signing :: "string"
  chan_time :: "int"

record manifest =
  man_replica :: "eid"
  man_serves :: "eid list"
  man_time :: "int"
  man_sig :: "bytes option"

section \<open>Group E: lines and delivery\<close>

record line =
  line_id :: "eid"
  line_prev :: "oid option"
  line_name :: "string"
  line_standard :: "eid"
  line_roots :: "string list"
  line_shared :: "bool"
  line_created :: "int"

record release =
  rel_name :: "string"
  rel_line :: "eid"
  rel_revision :: "oid"
  rel_since :: "oid option"
  rel_changelog :: "oid"
  rel_attestations :: "oid list option"
  rel_signer :: "eid"
  rel_time :: "int"
  rel_sig :: "bytes option"

record target =
  tgt_id :: "eid"
  tgt_prev :: "oid option"
  tgt_name :: "string"
  tgt_deployer :: "(string, value) btree"
  tgt_standard :: "eid"
  tgt_line :: "eid option"
  tgt_observers :: "(string, value) btree list option"
  tgt_risk_budget :: "(string, u64) btree option"
  tgt_sensitivity :: "string option"

record deployment =
  dep_target :: "eid"
  dep_revision :: "oid"
  dep_release :: "oid option"
  dep_principal :: "eid"
  dep_previous :: "oid option"
  dep_step :: "(string, value) btree option"
  dep_time :: "int"

section \<open>Group F: operations and views\<close>

datatype effect =
    EPut oid
  | EPoint eid oid "value option"
  | EUnpoint eid
  | EHead string oid "value option" u64 "oid list" "eid option"
  | EPropose oid
  | EUnpropose oid
  | EClaim eid oid
  | EUnclaim eid
  | ECap oid
  | EUncap oid
  | ERevoke eid
  | ETomb oid oid
  | EDeploy eid oid
  | EPause string
  | EResume string
  | EOwner eid
  | EUnowner eid
  | ERoot string
  | EUnroot string
  | ECoordinator string eid

record op =
  op_parents :: "oid list"
  op_author :: "eid"
  op_key :: "bytes"
  op_cap :: "oid option"
  op_kind :: "string"
  op_args :: "(string, value) btree"
  op_effects :: "effect list"
  op_view :: "oid"
  op_time :: "int"
  op_desc :: "string option"
  op_sig :: "bytes option"

record line_state =
  ls_id :: "eid"
  ls_head :: "value"
  ls_seq :: "u64"
  ls_coordinator :: "eid"

record pause_state =
  ps_scope :: "string"
  ps_by :: "eid"
  ps_op :: "oid"

record view =
  view_entities :: "oid"
  view_proposed :: "oid"
  view_claims :: "oid"
  view_caps :: "oid"
  view_revoked :: "oid"
  view_tombstoned :: "oid"
  view_lines :: "(string, line_state) btree"
  view_roots :: "string list"
  view_owners :: "eid list"
  view_deployed :: "(eid, oid) btree"
  view_paused :: "pause_state list option"

record tombstone =
  tomb_of :: "oid"
  tomb_type :: "string"
  tomb_reason :: "string"
  tomb_op :: "oid"
  tomb_time :: "int"

record anchor =
  anc_heads :: "oid list"
  anc_by :: "eid"
  anc_time :: "int"
  anc_sig :: "bytes option"

section \<open>Any object\<close>

datatype obj =
    OBlob bytes
  | OArtifact artifact
  | OTree tree
  | OTrackingRules tracking_rules
  | OEnvironment environment
  | OSnapshot snapshot
  | ONodeIndex node_index
  | ORevision revision
  | OIntent intent
  | OComment comment_obj
  | OAttestation attestation
  | OMemory memory
  | OStandard standard
  | OClaim claim
  | OWorkspace workspace
  | OPrincipal principal
  | OCapability capability
  | OHook hook
  | OChannel channel
  | OManifest manifest
  | OLine line
  | ORelease release
  | OTarget target
  | ODeployment deployment
  | OTrie trie_node
  | OOp op
  | OView view
  | OTombstone tombstone
  | OAnchor anchor

fun obj_tag :: "obj \<Rightarrow> string" where
  "obj_tag (OBlob x) = ''blob''"
| "obj_tag (OArtifact x) = ''artifact''"
| "obj_tag (OTree x) = ''tree''"
| "obj_tag (OTrackingRules x) = ''trackingrules''"
| "obj_tag (OEnvironment x) = ''environment''"
| "obj_tag (OSnapshot x) = ''snapshot''"
| "obj_tag (ONodeIndex x) = ''nodeindex''"
| "obj_tag (ORevision x) = ''revision''"
| "obj_tag (OIntent x) = ''intent''"
| "obj_tag (OComment x) = ''comment''"
| "obj_tag (OAttestation x) = ''attestation''"
| "obj_tag (OMemory x) = ''memory''"
| "obj_tag (OStandard x) = ''standard''"
| "obj_tag (OClaim x) = ''claim''"
| "obj_tag (OWorkspace x) = ''workspace''"
| "obj_tag (OPrincipal x) = ''principal''"
| "obj_tag (OCapability x) = ''capability''"
| "obj_tag (OHook x) = ''hook''"
| "obj_tag (OChannel x) = ''channel''"
| "obj_tag (OManifest x) = ''manifest''"
| "obj_tag (OLine x) = ''line''"
| "obj_tag (ORelease x) = ''release''"
| "obj_tag (OTarget x) = ''target''"
| "obj_tag (ODeployment x) = ''deployment''"
| "obj_tag (OTrie x) = ''trie''"
| "obj_tag (OOp x) = ''op''"
| "obj_tag (OView x) = ''view''"
| "obj_tag (OTombstone x) = ''tombstone''"
| "obj_tag (OAnchor x) = ''anchor''"

definition obj_tags :: "string list" where
  "obj_tags = [''blob'', ''artifact'', ''tree'', ''trackingrules'', ''environment'', ''snapshot'', ''nodeindex'', ''revision'',
     ''intent'', ''comment'', ''attestation'', ''memory'', ''standard'', ''claim'', ''workspace'', ''principal'',
     ''capability'', ''hook'', ''channel'', ''manifest'', ''line'', ''release'', ''target'', ''deployment'',
     ''trie'', ''op'', ''view'', ''tombstone'', ''anchor'']"

text \<open>The catalog lists every tag, once.\<close>

lemma obj_tag_in_tags: "obj_tag o' \<in> set obj_tags"
  by (cases o') (simp_all add: obj_tags_def)

lemma distinct_obj_tags: "distinct obj_tags"
  by (simp add: obj_tags_def)

section \<open>The store of objects\<close>

type_synonym objs = "oid \<rightharpoonup> obj"

definition obj_put :: "(obj \<Rightarrow> oid) \<Rightarrow> objs \<Rightarrow> obj \<Rightarrow> objs \<times> oid" where
  "obj_put h s x = ((case s (h x) of None \<Rightarrow> s(h x \<mapsto> x) | Some _ \<Rightarrow> s), h x)"

definition obj_get :: "(obj \<Rightarrow> oid) \<Rightarrow> (obj \<Rightarrow> 'a option) \<Rightarrow> objs \<Rightarrow> oid \<Rightarrow> 'a res" where
  "obj_get h sel s i =
     rbind (of_opt (NotFound i) (s i)) (\<lambda>x.
     if h x \<noteq> i then Inl StoreErr else of_opt StoreErr (sel x))"

fun as_tree :: "obj \<Rightarrow> tree option" where
  "as_tree (OTree x) = Some x"
| "as_tree _ = None"

fun as_tracking_rules :: "obj \<Rightarrow> tracking_rules option" where
  "as_tracking_rules (OTrackingRules x) = Some x"
| "as_tracking_rules _ = None"

fun as_snapshot :: "obj \<Rightarrow> snapshot option" where
  "as_snapshot (OSnapshot x) = Some x"
| "as_snapshot _ = None"

fun as_node_index :: "obj \<Rightarrow> node_index option" where
  "as_node_index (ONodeIndex x) = Some x"
| "as_node_index _ = None"

fun as_revision :: "obj \<Rightarrow> revision option" where
  "as_revision (ORevision x) = Some x"
| "as_revision _ = None"

fun as_intent :: "obj \<Rightarrow> intent option" where
  "as_intent (OIntent x) = Some x"
| "as_intent _ = None"

fun as_comment_obj :: "obj \<Rightarrow> comment_obj option" where
  "as_comment_obj (OComment x) = Some x"
| "as_comment_obj _ = None"

fun as_attestation :: "obj \<Rightarrow> attestation option" where
  "as_attestation (OAttestation x) = Some x"
| "as_attestation _ = None"

fun as_memory :: "obj \<Rightarrow> memory option" where
  "as_memory (OMemory x) = Some x"
| "as_memory _ = None"

fun as_standard :: "obj \<Rightarrow> standard option" where
  "as_standard (OStandard x) = Some x"
| "as_standard _ = None"

fun as_claim :: "obj \<Rightarrow> claim option" where
  "as_claim (OClaim x) = Some x"
| "as_claim _ = None"

fun as_principal :: "obj \<Rightarrow> principal option" where
  "as_principal (OPrincipal x) = Some x"
| "as_principal _ = None"

fun as_capability :: "obj \<Rightarrow> capability option" where
  "as_capability (OCapability x) = Some x"
| "as_capability _ = None"

fun as_hook :: "obj \<Rightarrow> hook option" where
  "as_hook (OHook x) = Some x"
| "as_hook _ = None"

fun as_line :: "obj \<Rightarrow> line option" where
  "as_line (OLine x) = Some x"
| "as_line _ = None"

fun as_target :: "obj \<Rightarrow> target option" where
  "as_target (OTarget x) = Some x"
| "as_target _ = None"

fun as_trie_node :: "obj \<Rightarrow> trie_node option" where
  "as_trie_node (OTrie x) = Some x"
| "as_trie_node _ = None"

fun as_op :: "obj \<Rightarrow> op option" where
  "as_op (OOp x) = Some x"
| "as_op _ = None"

fun as_view :: "obj \<Rightarrow> view option" where
  "as_view (OView x) = Some x"
| "as_view _ = None"

fun as_tombstone :: "obj \<Rightarrow> tombstone option" where
  "as_tombstone (OTombstone x) = Some x"
| "as_tombstone _ = None"

section \<open>Trie nodes in the store of objects\<close>

definition node_put :: "(obj \<Rightarrow> oid) \<Rightarrow> objs node_put" where
  "node_put h s n = Inr (obj_put h s (OTrie n))"

definition node_get :: "(obj \<Rightarrow> oid) \<Rightarrow> objs node_get" where
  "node_get h = obj_get h as_trie_node"

text \<open>
  Every object is filed under its own hash, which writing keeps. That no object has the hash of a
  trie node is what collision resistance gives; \<open>collision_free\<close> asks it of the trie nodes only.
\<close>

definition objs_ok :: "(obj \<Rightarrow> oid) \<Rightarrow> objs \<Rightarrow> bool" where
  "objs_ok h s \<longleftrightarrow> (\<forall>i x. s i = Some x \<longrightarrow> h x = i)"

definition collision_free :: "(obj \<Rightarrow> oid) \<Rightarrow> bool" where
  "collision_free h \<longleftrightarrow> (\<forall>n x. h x = h (OTrie n) \<longrightarrow> x = OTrie n)"

lemma objs_ok_empty [simp]: "objs_ok h Map.empty"
  by (simp add: objs_ok_def)

lemma objs_ok_put: "objs_ok h s \<Longrightarrow> objs_ok h (fst (obj_put h s x))"
  by (auto simp: objs_ok_def obj_put_def split: option.splits)

lemma obj_put_keeps: "s i = Some x \<Longrightarrow> fst (obj_put h s y) i = Some x"
  by (auto simp: obj_put_def split: option.splits)

lemma obj_get_Inr_iff: "obj_get h sel s i = Inr x \<longleftrightarrow> (\<exists>y. s i = Some y \<and> h y = i \<and> sel y = Some x)"
  by (cases "s i") (auto simp: obj_get_def result_simps)

lemma obj_put_mono: "obj_get h sel s i = Inr x \<Longrightarrow> obj_get h sel (fst (obj_put h s y)) i = Inr x"
  by (auto simp: obj_get_Inr_iff obj_put_keeps)

lemma obj_put_stored:
  assumes "objs_ok h s" and "\<And>y. h y = h x \<Longrightarrow> y = x"
  shows "fst (obj_put h s x) (h x) = Some x"
  using assms by (auto simp: obj_put_def objs_ok_def split: option.splits)

lemma as_trie_node_Some: "as_trie_node x = Some n \<longleftrightarrow> x = OTrie n"
  by (cases x) auto

text \<open>Whatever a function adds to the store, what was there stays.\<close>

definition kept :: "objs \<Rightarrow> objs \<Rightarrow> bool" where
  "kept s s' \<longleftrightarrow> (\<forall>i x. s i = Some x \<longrightarrow> s' i = Some x)"

lemma kept_refl [simp]: "kept s s"
  by (simp add: kept_def)

lemma kept_trans: "kept s s' \<Longrightarrow> kept s' s'' \<Longrightarrow> kept s s''"
  by (simp add: kept_def)

lemma kept_put [simp]: "kept s (fst (obj_put h s x))"
  by (simp add: kept_def obj_put_keeps)

lemma kept_obj_get: "kept s s' \<Longrightarrow> obj_get h sel s i = Inr x \<Longrightarrow> obj_get h sel s' i = Inr x"
  by (auto simp: obj_get_Inr_iff kept_def)

text \<open>The store of objects keeps the contract of the trie.\<close>

interpretation ot: trie_store "node_put h" "node_get h" "\<lambda>n. h (OTrie n)" "objs_ok h" "collision_free h" kept for h
proof
  fix s n
  show "\<exists>s'. node_put h s n = Inr (s', h (OTrie n))"
    by (simp add: node_put_def obj_put_def)
next
  fix s n s' i
  assume sound: "collision_free h" and ok: "objs_ok h s" and put: "node_put h s n = Inr (s', i)"
  then have s': "s' = fst (obj_put h s (OTrie n))" and i: "i = h (OTrie n)"
    by (auto simp: node_put_def obj_put_def)
  show "objs_ok h s'" unfolding s' by (rule objs_ok_put [OF ok])
  have "fst (obj_put h s (OTrie n)) (h (OTrie n)) = Some (OTrie n)"
    by (rule obj_put_stored [OF ok]) (use sound in \<open>simp add: collision_free_def\<close>)
  then show "node_get h s' i = Inr n"
    by (simp add: node_get_def obj_get_def s' i)
  fix j m assume "node_get h s j = Inr m"
  then show "node_get h s' j = Inr m"
    unfolding node_get_def s' by (rule obj_put_mono)
next
  fix s i n
  assume "node_get h s i = Inr n"
  then show "i = h (OTrie n)"
    by (auto simp: node_get_def obj_get_Inr_iff as_trie_node_Some)
next
  fix s n s' i
  assume "node_put h s n = Inr (s', i)"
  then have "s' = fst (obj_put h s (OTrie n))" by (auto simp: node_put_def obj_put_def)
  then show "kept s s'" by simp
qed (auto intro: kept_trans)

end
