(* ===== verification/Sample.thy ===== *)
theory Sample
  imports Objects
begin

text \<open>
  A concrete hash without collisions among the trie nodes, on which theorems about stored tries are
  applied at concrete inputs. It writes a node out instead of hashing it; every other object gets a
  short id that depends on its type only.
\<close>

section \<open>Self-delimiting codes\<close>

definition delimited :: "('a \<Rightarrow> bytes) \<Rightarrow> bool" where
  "delimited f \<longleftrightarrow> (\<forall>a b r r'. f a @ r = f b @ r' \<longrightarrow> a = b \<and> r = r')"

lemma delimitedD: "delimited f \<Longrightarrow> f a @ r = f b @ r' \<Longrightarrow> a = b \<and> r = r'"
  by (simp add: delimited_def)

fun code_list :: "('a \<Rightarrow> bytes) \<Rightarrow> 'a list \<Rightarrow> bytes" where
  "code_list f [] = [0]"
| "code_list f (x # xs) = 1 # f x @ code_list f xs"

lemma delimited_list:
  assumes "delimited f"
  shows "delimited (code_list f)"
proof -
  have "code_list f xs @ r = code_list f ys @ r' \<Longrightarrow> xs = ys \<and> r = r'" for xs ys r r'
  proof (induction xs arbitrary: ys)
    case Nil
    then show ?case by (cases ys) auto
  next
    case (Cons x xs)
    then obtain y ys' where ys: "ys = y # ys'" by (cases ys) auto
    with Cons.prems have "f x @ (code_list f xs @ r) = f y @ (code_list f ys' @ r')" by simp
    from delimitedD [OF assms this] have "x = y" "code_list f xs @ r = code_list f ys' @ r'" by simp_all
    with Cons.IH ys show ?case by auto
  qed
  then show ?thesis by (simp add: delimited_def)
qed

definition code_bytes :: "bytes \<Rightarrow> bytes" where
  "code_bytes = code_list (\<lambda>b. [b])"

lemma delimited_bytes: "delimited code_bytes"
  unfolding code_bytes_def by (rule delimited_list) (simp add: delimited_def)

fun code_tv :: "trie_value \<Rightarrow> bytes" where
  "code_tv (TId i) = 0 # code_bytes i"
| "code_tv (TConflict c) = 1 # code_list code_bytes c"
| "code_tv TSet = [2]"

lemma delimited_tv: "delimited code_tv"
  unfolding delimited_def
proof (intro allI impI)
  fix a b r r' assume eq: "code_tv a @ r = code_tv b @ r'"
  show "a = b \<and> r = r'"
  proof (cases a; cases b)
    fix i j assume ab: "a = TId i" "b = TId j"
    with eq have "code_bytes i @ r = code_bytes j @ r'" by simp
    from delimitedD [OF delimited_bytes this] ab show ?thesis by simp
  next
    fix c d assume ab: "a = TConflict c" "b = TConflict d"
    with eq have "code_list code_bytes c @ r = code_list code_bytes d @ r'" by simp
    from delimitedD [OF delimited_list [OF delimited_bytes] this] ab show ?thesis by simp
  qed (use eq in auto)
qed

fun code_slot :: "slot \<Rightarrow> bytes" where
  "code_slot (Leaf k v) = 0 # code_bytes k @ code_tv v"
| "code_slot (SNode i) = 1 # code_bytes i"

lemma delimited_slot: "delimited code_slot"
  unfolding delimited_def
proof (intro allI impI)
  fix a b r r' assume eq: "code_slot a @ r = code_slot b @ r'"
  show "a = b \<and> r = r'"
  proof (cases a; cases b)
    fix k v l w assume ab: "a = Leaf k v" "b = Leaf l w"
    with eq have "code_bytes k @ (code_tv v @ r) = code_bytes l @ (code_tv w @ r')" by simp
    from delimitedD [OF delimited_bytes this] have "k = l" "code_tv v @ r = code_tv w @ r'" by simp_all
    with delimitedD [OF delimited_tv this(2)] ab show ?thesis by simp
  next
    fix i j assume ab: "a = SNode i" "b = SNode j"
    with eq have "code_bytes i @ r = code_bytes j @ r'" by simp
    from delimitedD [OF delimited_bytes this] ab show ?thesis by simp
  qed (use eq in auto)
qed

definition code_bits :: "16 word \<Rightarrow> bytes" where
  "code_bits w = map (\<lambda>i. if bit w i then 1 else 0) [0..<16]"

lemma code_bits_inject: "code_bits v = code_bits w \<Longrightarrow> v = w"
proof -
  assume eq: "code_bits v = code_bits w"
  have "bit v i = bit w i" if "i < 16" for i
  proof -
    have "code_bits v ! i = code_bits w ! i" using eq by simp
    with that show ?thesis by (simp add: code_bits_def split: if_splits)
  qed
  then show ?thesis by (intro bit_word_eqI) simp
qed

definition code_node :: "trie_node \<Rightarrow> bytes" where
  "code_node nd = code_bits (bitmap nd) @ code_list code_slot (slots nd)"

lemma code_node_inject: "code_node m = code_node n \<Longrightarrow> m = n"
proof -
  assume "code_node m = code_node n"
  moreover have "length (code_bits (bitmap m)) = length (code_bits (bitmap n))" by (simp add: code_bits_def)
  ultimately have "code_bits (bitmap m) = code_bits (bitmap n)"
    and "code_list code_slot (slots m) @ [] = code_list code_slot (slots n) @ []"
    by (simp_all add: code_node_def)
  with code_bits_inject delimitedD [OF delimited_list [OF delimited_slot]] show ?thesis
    by (metis trie_node.equality unit.exhaust)
qed

section \<open>The hash\<close>

fun sample_hash :: "obj \<Rightarrow> oid" where
  "sample_hash (OTrie n) = 1 # code_node n"
| "sample_hash x = 0 # map of_char (obj_tag x)"

lemma sample_hash_trie: "sample_hash x = sample_hash (OTrie n) \<Longrightarrow> x = OTrie n"
  by (cases x) (auto dest: code_node_inject)

lemma collision_free_sample: "collision_free sample_hash"
  using sample_hash_trie by (auto simp: collision_free_def)

section \<open>Small tries\<close>

text \<open>A store that holds the empty trie, and one that holds also a trie with one and with two keys.\<close>

definition sample_store :: objs where
  "sample_store = fst (obj_put sample_hash Map.empty (OTrie node_empty))"

definition sample_root :: oid where
  "sample_root = sample_hash (OTrie node_empty)"

definition sample_key :: "nat \<Rightarrow> bytes" where
  "sample_key n = replicate 15 0 @ [of_nat n]"

lemma length_sample_key [simp]: "length (sample_key n) = 16"
  by (simp add: sample_key_def)

lemma sample_key_neq [simp]: "sample_key 1 \<noteq> sample_key 2" "sample_key 2 \<noteq> sample_key 1"
  by (simp_all add: sample_key_def)

lemma sample_store_ok: "objs_ok sample_hash sample_store"
  unfolding sample_store_def by (rule objs_ok_put) simp

lemma sample_root_rep: "0 < N \<Longrightarrow> root_rep (node_get sample_hash) sample_store N sample_root Map.empty"
proof -
  assume "0 < N"
  moreover have "node_get sample_hash sample_store sample_root = Inr node_empty"
    by (simp add: node_get_def obj_get_def sample_store_def sample_root_def obj_put_def)
  ultimately show ?thesis by (simp add: root_rep_empty)
qed

lemma sample_tries:
  "\<exists>s i j. objs_ok sample_hash s \<and> root_rep (node_get sample_hash) s 32 sample_root Map.empty \<and>
     root_rep (node_get sample_hash) s 32 i [sample_key 1 \<mapsto> TId [1]] \<and>
     root_rep (node_get sample_hash) s 32 j [sample_key 1 \<mapsto> TId [2], sample_key 2 \<mapsto> TSet]"
proof -
  have e: "root_rep (node_get sample_hash) sample_store 32 sample_root Map.empty" by (rule sample_root_rep) simp
  from ot.insert_correct [OF collision_free_sample sample_store_ok e, of "sample_key 1" "TId [1]"]
  obtain s1 i where 1: "objs_ok sample_hash s1" "extends (node_get sample_hash) sample_store s1"
    "root_rep (node_get sample_hash) s1 32 i [sample_key 1 \<mapsto> TId [1]]" by auto
  from ot.insert_correct [OF collision_free_sample 1(1,3), of "sample_key 1" "TId [2]"]
  obtain s2 j where 2: "objs_ok sample_hash s2" "extends (node_get sample_hash) s1 s2"
    "root_rep (node_get sample_hash) s2 32 j [sample_key 1 \<mapsto> TId [2]]" by auto
  from ot.insert_correct [OF collision_free_sample 2(1,3), of "sample_key 2" TSet]
  obtain s3 j' where 3: "objs_ok sample_hash s3" "extends (node_get sample_hash) s2 s3"
    "root_rep (node_get sample_hash) s3 32 j' [sample_key 1 \<mapsto> TId [2], sample_key 2 \<mapsto> TSet]" by auto
  from root_rep_mono [OF e extends_trans [OF 1(2) extends_trans [OF 2(2) 3(2)]]]
    root_rep_mono [OF 1(3) extends_trans [OF 2(2) 3(2)]] 3 show ?thesis by blast
qed

end
