(* ===== verification/Trie_Props.thy ===== *)
theory Trie_Props
  imports Sample
begin

text \<open>
  The properties of the trie, over the store of objects. \<open>root_rep (node_get h) s N i m\<close> reads: the
  id \<open>i\<close> is a root in the store \<open>s\<close> of a trie in canonical form whose keys have \<open>N\<close> nibbles and which
  stands for the map \<open>m\<close>.
\<close>

text \<open>C18: insertion into a trie is the update of its map: it succeeds, the new root is in canonical form
  and stands for the map with the key set, lookup of every key returns the new map's entry, and every
  root that was in the store still stands for its map.\<close>

theorem insert_updates_map:
  assumes "collision_free h" and "objs_ok h s" and "root_rep (node_get h) s N i m" and "2 * length key = N"
  shows "\<exists>s' j. trie_insert (node_put h) (node_get h) s i key v = Inr (s', j) \<and> objs_ok h s' \<and>
    root_rep (node_get h) s' N j (m(key \<mapsto> v)) \<and>
    (\<forall>k. trie_get (node_get h) s' j k = Inr (if k = key then Some v else m k)) \<and>
    (\<forall>M r f. root_rep (node_get h) s M r f \<longrightarrow> root_rep (node_get h) s' M r f)"
proof -
  from ot.insert_correct [OF assms, of v] obtain s' j where
    1: "trie_insert (node_put h) (node_get h) s i key v = Inr (s', j)" "objs_ok h s'"
       "extends (node_get h) s s'" "root_rep (node_get h) s' N j (m(key \<mapsto> v))" by blast
  from root_rep_mono [OF _ 1(3)] ot.get_correct [OF 1(4)] 1 show ?thesis by auto
qed

theorem insert_updates_map_witness:
  "\<exists>s' j. trie_insert (node_put sample_hash) (node_get sample_hash) sample_store sample_root (sample_key 7) TSet = Inr (s', j) \<and>
    trie_get (node_get sample_hash) s' j (sample_key 7) = Inr (Some TSet)"
  using insert_updates_map [OF collision_free_sample sample_store_ok sample_root_rep [of 32], of "sample_key 7" TSet]
  by auto

text \<open>C19: removal is the deletion of the key from the map: it succeeds, whether or not the key is
  there, collapses the path it leaves behind to canonical form, and changes no other key.\<close>

theorem remove_updates_map:
  assumes "collision_free h" and "objs_ok h s" and "root_rep (node_get h) s N i m" and "2 * length key = N"
  shows "\<exists>s' j. trie_remove (node_put h) (node_get h) s i key = Inr (s', j) \<and> objs_ok h s' \<and>
    root_rep (node_get h) s' N j (m(key := None)) \<and>
    (\<forall>k. trie_get (node_get h) s' j k = Inr (if k = key then None else m k))"
proof -
  from ot.remove_correct [OF assms] obtain s' j where
    1: "trie_remove (node_put h) (node_get h) s i key = Inr (s', j)" "objs_ok h s'"
       "root_rep (node_get h) s' N j (m(key := None))" by blast
  from ot.get_correct [OF 1(3)] 1 show ?thesis by auto
qed

theorem remove_updates_map_witness:
  "\<exists>s i s' j. trie_remove (node_put sample_hash) (node_get sample_hash) s i (sample_key 1) = Inr (s', j) \<and>
    trie_get (node_get sample_hash) s' j (sample_key 1) = Inr None \<and>
    trie_get (node_get sample_hash) s' j (sample_key 2) = Inr (Some TSet)"
proof -
  from sample_tries obtain s j where "objs_ok sample_hash s"
    "root_rep (node_get sample_hash) s 32 j [sample_key 1 \<mapsto> TId [2], sample_key 2 \<mapsto> TSet]" by blast
  from remove_updates_map [OF collision_free_sample this, of "sample_key 1"] obtain s' i where
    r: "trie_remove (node_put sample_hash) (node_get sample_hash) s j (sample_key 1) = Inr (s', i)"
    and g: "\<And>k. trie_get (node_get sample_hash) s' i k =
      Inr (if k = sample_key 1 then None else [sample_key 1 \<mapsto> TId [2], sample_key 2 \<mapsto> TSet] k)" by auto
  have "trie_get (node_get sample_hash) s' i (sample_key 1) = Inr None"
    and "trie_get (node_get sample_hash) s' i (sample_key 2) = Inr (Some TSet)"
    unfolding g using sample_key_neq by simp_all
  with r show ?thesis by blast
qed

text \<open>A history of updates of a trie, from the empty one on: a key with a value is inserted, one without is removed.\<close>

definition trie_update :: "(obj \<Rightarrow> oid) \<Rightarrow> bytes \<times> trie_value option \<Rightarrow> objs \<times> oid \<Rightarrow> (objs \<times> oid) res" where
  "trie_update h u st =
     (case (u, st) of
        ((k, Some v), (s, i)) \<Rightarrow> trie_insert (node_put h) (node_get h) s i k v
      | ((k, None), (s, i)) \<Rightarrow> trie_remove (node_put h) (node_get h) s i k)"

definition trie_history :: "(obj \<Rightarrow> oid) \<Rightarrow> objs \<Rightarrow> (bytes \<times> trie_value option) list \<Rightarrow> (objs \<times> oid) res" where
  "trie_history h s us = rbind (empty_root (node_put h) s) (rfold (trie_update h) us)"

definition map_history :: "(bytes \<times> trie_value option) list \<Rightarrow> bytes \<rightharpoonup> trie_value" where
  "map_history us = fold (\<lambda>(k, v) m. m(k := v)) us Map.empty"

lemma trie_updates_rep:
  assumes "collision_free h"
  shows "objs_ok h s \<Longrightarrow> root_rep (node_get h) s N i m \<Longrightarrow> \<forall>(k, v) \<in> set us. 2 * length k = N \<Longrightarrow>
    \<exists>s' j. rfold (trie_update h) us (s, i) = Inr (s', j) \<and> objs_ok h s' \<and>
      root_rep (node_get h) s' N j (fold (\<lambda>(k, v) m. m(k := v)) us m)"
proof (induction us arbitrary: s i m)
  case (Cons u us)
  obtain k v where u: "u = (k, v)" by (cases u)
  with Cons.prems(3) have k: "2 * length k = N" by simp
  obtain s1 i1 where 1: "trie_update h u (s, i) = Inr (s1, i1)" "objs_ok h s1" "root_rep (node_get h) s1 N i1 (m(k := v))"
  proof (cases v)
    case None
    from ot.remove_correct [OF assms Cons.prems(1,2) k] that show ?thesis by (auto simp: trie_update_def u None)
  next
    case (Some w)
    from ot.insert_correct [OF assms Cons.prems(1,2) k, of w] that show ?thesis by (auto simp: trie_update_def u Some)
  qed
  from Cons.prems(3) have "\<forall>(k, v) \<in> set us. 2 * length k = N" by simp
  from Cons.IH [OF 1(2,3) this] 1(1) show ?case by (simp add: u)
qed simp

lemma trie_history_rep:
  assumes "collision_free h" "objs_ok h s" "0 < n" "\<forall>(k, v) \<in> set us. length k = n"
  obtains s' i where "trie_history h s us = Inr (s', i)" "objs_ok h s'" "root_rep (node_get h) s' (2 * n) i (map_history us)"
proof -
  from assms(3) have "0 < 2 * n" by simp
  from ot.empty_correct [OF assms(1,2) this] obtain s1 r where
    1: "empty_root (node_put h) s = Inr (s1, r)" "objs_ok h s1" "root_rep (node_get h) s1 (2 * n) r Map.empty" by blast
  have "\<forall>(k, v) \<in> set us. 2 * length k = 2 * n" using assms(4) by auto
  from trie_updates_rep [OF assms(1) 1(2,3) this] 1(1) that show thesis by (auto simp: trie_history_def map_history_def)
qed



text \<open>Enumeration of a trie ends within the fuel the views use and lists exactly the entries of its
  map, once each, in the order of their keys.\<close>

theorem entries_sorted_and_complete:
  assumes "root_rep (node_get h) s N i m" and "N \<le> fuel"
  shows "\<exists>es. trie_entries (node_get h) fuel s i = Inr es \<and> sorted_wrt (<) (map fst es) \<and> map_of es = m"
  using assms by (rule ot.entries_correct)

theorem entries_sorted_and_complete_witness:
  "\<exists>s i es. trie_entries (node_get sample_hash) 65 s i = Inr es \<and> map_of es (sample_key 2) = Some TSet"
proof -
  from sample_tries obtain s j where
    "root_rep (node_get sample_hash) s 32 j [sample_key 1 \<mapsto> TId [2], sample_key 2 \<mapsto> TSet]" by blast
  from entries_sorted_and_complete [OF this, of 65] show ?thesis by fastforce
qed

text \<open>C20: the three-way merge of tries merges key by key. With fuel for the depth of the keys it
  succeeds; a side that did not change a key takes the other side's value, two equal changes agree, two
  different values become the conflict that holds the ids of both, and against a removal a changed
  value gives way under the pointer rule and stays under the set rule.\<close>

theorem merge_is_pointwise:
  assumes "collision_free h" and "objs_ok h s" and "root_rep (node_get h) s N base mb"
    and "root_rep (node_get h) s N a ma" and "root_rep (node_get h) s N b m2" and "N < fuel"
  shows "\<exists>s' i m. merge3 (node_put h) (node_get h) fuel s base a b pol = Inr (s', i) \<and> objs_ok h s' \<and>
    root_rep (node_get h) s' N i m \<and>
    (\<forall>k. (ma k = mb k \<longrightarrow> m k = m2 k) \<and> (m2 k = mb k \<longrightarrow> m k = ma k) \<and> (ma k = m2 k \<longrightarrow> m k = ma k) \<and>
      (\<forall>x y. ma k = Some x \<longrightarrow> m2 k = Some y \<longrightarrow> x \<noteq> y \<longrightarrow> ma k \<noteq> mb k \<longrightarrow> m2 k \<noteq> mb k \<longrightarrow> m k = Some (tv_union x y)) \<and>
      (\<forall>y. mb k \<noteq> None \<longrightarrow> (ma k = None \<and> m2 k = Some y \<or> ma k = Some y \<and> m2 k = None) \<longrightarrow> mb k \<noteq> Some y \<longrightarrow>
        m k = (case pol of Pointers \<Rightarrow> None | SetPolicy \<Rightarrow> Some y)))"
proof -
  from ot.merge_correct [OF assms, of pol] obtain s' i where
    "merge3 (node_put h) (node_get h) fuel s base a b pol = Inr (s', i)" "objs_ok h s'"
    "root_rep (node_get h) s' N i (merge_maps pol mb ma m2)" by blast
  then show ?thesis
    by (intro exI [of _ s'] exI [of _ i] exI [of _ "merge_maps pol mb ma m2"])
      (auto simp: merge_maps_def merge_value_def)
qed


theorem merge_is_pointwise_witness:
  "\<exists>s a b s' i. merge3 (node_put sample_hash) (node_get sample_hash) 33 s sample_root a b Pointers = Inr (s', i) \<and>
    trie_get (node_get sample_hash) s' i (sample_key 1) = Inr (Some (TConflict [[1], [2]]))"
proof -
  from sample_tries obtain s a b where s: "objs_ok sample_hash s"
    "root_rep (node_get sample_hash) s 32 sample_root Map.empty"
    "root_rep (node_get sample_hash) s 32 a [sample_key 1 \<mapsto> TId [1]]"
    "root_rep (node_get sample_hash) s 32 b [sample_key 1 \<mapsto> TId [2], sample_key 2 \<mapsto> TSet]" by blast
  obtain s' i m where m: "merge3 (node_put sample_hash) (node_get sample_hash) 33 s sample_root a b Pointers = Inr (s', i)"
    "root_rep (node_get sample_hash) s' 32 i m" "m (sample_key 1) = Some (tv_union (TId [1]) (TId [2]))"
    using merge_is_pointwise [OF collision_free_sample s, of 33 Pointers] by (auto simp: sample_key_def)
  have "tv_union (TId [1]) (TId [2]) = TConflict [[1], [2]]" by (simp add: tv_union_def btree_list_def)
  with m(3) ot.get_correct [OF m(2), of "sample_key 1"]
  have "trie_get (node_get sample_hash) s' i (sample_key 1) = Inr (Some (TConflict [[1], [2]]))" by simp
  with m(1) show ?thesis by blast
qed

text \<open>The merge of tries is symmetric: exchanging the two sides gives the same root.\<close>

theorem merge_symmetric:
  assumes "collision_free h" and "objs_ok h s" and "root_rep (node_get h) s N base mb"
    and "root_rep (node_get h) s N a ma" and "root_rep (node_get h) s N b m2" and "N < fuel"
  shows "\<exists>s1 s2 i. merge3 (node_put h) (node_get h) fuel s base a b pol = Inr (s1, i) \<and>
    merge3 (node_put h) (node_get h) fuel s base b a pol = Inr (s2, i)"
proof -
  from ot.merge_correct [OF assms, of pol] obtain s1 i where
    1: "merge3 (node_put h) (node_get h) fuel s base a b pol = Inr (s1, i)" "objs_ok h s1"
       "root_rep (node_get h) s1 N i (merge_maps pol mb ma m2)" by blast
  from ot.merge_correct [OF assms(1-3,5,4,6), of pol] obtain s2 j where
    2: "merge3 (node_put h) (node_get h) fuel s base b a pol = Inr (s2, j)" "objs_ok h s2"
       "root_rep (node_get h) s2 N j (merge_maps pol mb m2 ma)" by blast
  have "merge_maps pol mb m2 ma = merge_maps pol mb ma m2"
    by (simp add: merge_maps_def merge_value_commute)
  with ot.root_unique [OF assms(1) 1(2) 2(2) 1(3)] 2 1 show ?thesis by auto
qed

theorem merge_symmetric_witness:
  "\<exists>s a b s1 s2 i. merge3 (node_put sample_hash) (node_get sample_hash) 33 s sample_root a b SetPolicy = Inr (s1, i) \<and>
    merge3 (node_put sample_hash) (node_get sample_hash) 33 s sample_root b a SetPolicy = Inr (s2, i)"
proof -
  from sample_tries obtain s a b where s: "objs_ok sample_hash s"
    "root_rep (node_get sample_hash) s 32 sample_root Map.empty"
    "root_rep (node_get sample_hash) s 32 a [sample_key 1 \<mapsto> TId [1]]"
    "root_rep (node_get sample_hash) s 32 b [sample_key 1 \<mapsto> TId [2], sample_key 2 \<mapsto> TSet]" by blast
  have "(32::nat) < 33" by simp
  from merge_symmetric [OF collision_free_sample s this, of SetPolicy] show ?thesis by blast
qed

end
