(* ===== verification/Search.thy ===== *)
theory Search
  imports Prelude
begin

text \<open>
  The breadth first walks of the operation log. \<open>OpLog::ancestors\<close>, \<open>OpLog::open\<close> and
  \<open>landed_revisions\<close> are one loop: pop an id, skip it when it was seen, otherwise append its
  successors to the queue. The loop is a partial function, so that not returning would be the value
  \<open>None\<close>; it returns on every input whose successors stay in a finite set. A result of \<open>None\<close> is
  turned into the error \<open>Diverges\<close>.
\<close>

section \<open>Loops that may not end\<close>

definition returned :: "'a res option \<Rightarrow> 'a res" where
  "returned m = (case m of None \<Rightarrow> Inl Diverges | Some r \<Rightarrow> r)"

lemma returned_Some [simp]: "returned (Some r) = r"
  by (simp add: returned_def)

lemma returned_Inr [result_simps]: "returned m = Inr x \<longleftrightarrow> m = Some (Inr x)"
  by (simp add: returned_def split: option.splits)

fun obind :: "'a res option \<Rightarrow> ('a \<Rightarrow> 'b res option) \<Rightarrow> 'b res option" where
  "obind None f = None"
| "obind (Some (Inl e)) f = Some (Inl e)"
| "obind (Some (Inr x)) f = f x"

lemma obind_mono [partial_function_mono]:
  assumes "mono_option B" and "\<And>y. mono_option (\<lambda>f. C y f)"
  shows "mono_option (\<lambda>f. obind (B f) (\<lambda>y. C y f))"
proof -
  have eq: "obind m f = Option.bind m (\<lambda>r. case r of Inl e \<Rightarrow> Some (Inl e) | Inr x \<Rightarrow> f x)" for m :: "'c res option" and f :: "'c \<Rightarrow> 'd res option"
    by (cases m; cases "the m") auto
  have c: "mono_option (\<lambda>f. case r of Inl e \<Rightarrow> Some (Inl e) | Inr x \<Rightarrow> C x f)" for r
    using assms(2) by (cases r) (simp_all add: partial_function_mono)
  show ?thesis unfolding eq by (rule bind_mono [OF assms(1) c])
qed

fun ofold :: "('a \<Rightarrow> 'b \<Rightarrow> 'b res option) \<Rightarrow> 'a list \<Rightarrow> 'b \<Rightarrow> 'b res option" where
  "ofold f [] b = Some (Inr b)"
| "ofold f (x # xs) b = obind (f x b) (ofold f xs)"

lemma ofold_mono [partial_function_mono]:
  assumes "\<And>x b. mono_option (\<lambda>f. C x b f)"
  shows "mono_option (\<lambda>f. ofold (\<lambda>x b. C x b f) xs b)"
proof (induction xs arbitrary: b)
  case Nil
  then show ?case by (simp add: partial_function_mono)
next
  case (Cons y ys)
  have "mono_option (\<lambda>f. obind (C y b f) (\<lambda>b'. ofold (\<lambda>x b. C x b f) ys b'))"
    by (rule obind_mono [OF assms Cons.IH])
  then show ?case by simp
qed

section \<open>Breadth first search\<close>

partial_function (option) bfs :: "('a \<Rightarrow> 'a list res) \<Rightarrow> 'a list \<Rightarrow> 'a list \<Rightarrow> 'a list res option" where
  "bfs succs seen queue =
     (case queue of
        [] \<Rightarrow> Some (Inr seen)
      | i # rest \<Rightarrow>
          if i \<in> set seen then bfs succs seen rest
          else (case succs i of
                  Inl e \<Rightarrow> Some (Inl e)
                | Inr js \<Rightarrow> bfs succs (seen @ [i]) (rest @ js)))"

lemma bfs_simps [simp]:
  "bfs succs seen [] = Some (Inr seen)"
  "bfs succs seen (i # rest) =
     (if i \<in> set seen then bfs succs seen rest
      else (case succs i of Inl e \<Rightarrow> Some (Inl e) | Inr js \<Rightarrow> bfs succs (seen @ [i]) (rest @ js)))"
  by (simp_all add: bfs.simps)

text \<open>What the walk should find: the nodes that can be reached through successors.\<close>

inductive_set reached :: "('a \<Rightarrow> 'a list res) \<Rightarrow> 'a set \<Rightarrow> 'a set" for succs A where
  start: "i \<in> A \<Longrightarrow> i \<in> reached succs A"
| step: "i \<in> reached succs A \<Longrightarrow> succs i = Inr js \<Longrightarrow> j \<in> set js \<Longrightarrow> j \<in> reached succs A"

definition closed_under :: "('a \<Rightarrow> 'a list res) \<Rightarrow> 'a set \<Rightarrow> bool" where
  "closed_under succs U \<longleftrightarrow> (\<forall>i js. i \<in> U \<longrightarrow> succs i = Inr js \<longrightarrow> set js \<subseteq> U)"

lemma reached_subset: "A \<subseteq> U \<Longrightarrow> closed_under succs U \<Longrightarrow> reached succs A \<subseteq> U"
proof
  fix i assume U: "A \<subseteq> U" "closed_under succs U"
  assume "i \<in> reached succs A"
  then show "i \<in> U" by (induction) (use U in \<open>auto simp: closed_under_def\<close>)
qed

lemma reached_closed: "closed_under succs (reached succs A)"
  by (auto simp: closed_under_def intro: reached.step)

lemma reached_mono: "A \<subseteq> B \<Longrightarrow> reached succs A \<subseteq> reached succs B"
  by (rule reached_subset) (auto intro: reached.start reached_closed)

lemma reached_trans: "i \<in> reached succs A \<Longrightarrow> reached succs {i} \<subseteq> reached succs A"
  by (rule reached_subset) (auto intro: reached_closed)

text \<open>What holds during the walk from \<open>A\<close>.\<close>

definition bfs_inv :: "('a \<Rightarrow> 'a list res) \<Rightarrow> 'a set \<Rightarrow> 'a list \<Rightarrow> 'a list \<Rightarrow> bool" where
  "bfs_inv succs A seen queue \<longleftrightarrow>
     distinct seen \<and> A \<subseteq> set seen \<union> set queue \<and> set seen \<union> set queue \<subseteq> reached succs A \<and>
     (\<forall>i \<in> set seen. \<exists>js. succs i = Inr js \<and> set js \<subseteq> set seen \<union> set queue)"

lemma bfs_inv_skip: "bfs_inv succs A seen (i # rest) \<Longrightarrow> i \<in> set seen \<Longrightarrow> bfs_inv succs A seen rest"
  by (simp add: bfs_inv_def insert_absorb)

lemma bfs_inv_visit:
  "bfs_inv succs A seen (i # rest) \<Longrightarrow> i \<notin> set seen \<Longrightarrow> succs i = Inr js \<Longrightarrow>
     bfs_inv succs A (seen @ [i]) (rest @ js)"
  unfolding bfs_inv_def by (auto intro: reached.step) blast+

lemma bfs_inv_done: "bfs_inv succs A seen [] \<Longrightarrow> set seen = reached succs A"
proof
  assume inv: "bfs_inv succs A seen []"
  then show "set seen \<subseteq> reached succs A" by (simp add: bfs_inv_def)
  from inv have "closed_under succs (set seen)" by (fastforce simp: bfs_inv_def closed_under_def)
  with inv show "reached succs A \<subseteq> set seen" by (intro reached_subset) (simp_all add: bfs_inv_def)
qed

lemma bfs_total:
  assumes "finite (reached succs A)" and "bfs_inv succs A seen queue"
  shows "(\<exists>s. bfs succs seen queue = Some (Inr s) \<and> distinct s \<and> set s = reached succs A \<and>
            (\<forall>i \<in> reached succs A. \<exists>js. succs i = Inr js)) \<or>
         (\<exists>i e. i \<in> reached succs A \<and> succs i = Inl e \<and> bfs succs seen queue = Some (Inl e))"
  using assms(2)
proof (induction "(seen, queue)" arbitrary: seen queue rule: wf_induct_rule
    [OF wf_measures [of "[\<lambda>(s, q). card (reached succs A - set s), \<lambda>(s, q). length q]"]])
  case (1 seen queue)
  let ?post = "\<lambda>s q. (\<exists>t. bfs succs s q = Some (Inr t) \<and> distinct t \<and> set t = reached succs A \<and>
        (\<forall>i \<in> reached succs A. \<exists>js. succs i = Inr js)) \<or>
      (\<exists>i e. i \<in> reached succs A \<and> succs i = Inl e \<and> bfs succs s q = Some (Inl e))"
  have IH: "?post s q" if "bfs_inv succs A s q"
    "((s, q), (seen, queue)) \<in> measures [\<lambda>(s, q). card (reached succs A - set s), \<lambda>(s, q). length q]" for s q
    using "1.hyps" [OF that(2,1)] .
  show ?case
  proof (cases queue)
    case Nil
    with "1.prems" bfs_inv_done [of succs A seen] have "?post seen []"
      unfolding bfs_inv_def by (intro disjI1 exI [of _ seen]) fastforce
    with Nil show ?thesis by simp
  next
    case (Cons i rest)
    have i: "i \<in> reached succs A" using "1.prems" Cons by (auto simp: bfs_inv_def)
    show ?thesis
    proof (cases "i \<in> set seen")
      case True
      have "?post seen rest"
        by (rule IH [OF bfs_inv_skip [OF "1.prems" [unfolded Cons] True]]) (simp add: Cons)
      with True show ?thesis by (simp add: Cons)
    next
      case False
      show ?thesis
      proof (cases "succs i")
        case (Inl e)
        with i False have "bfs succs seen queue = Some (Inl e)" by (simp add: Cons)
        with i Inl show ?thesis by blast
      next
        case (Inr js)
        have "reached succs A - set (seen @ [i]) \<subset> reached succs A - set seen" using i False by auto
        with assms(1) have "card (reached succs A - set (seen @ [i])) < card (reached succs A - set seen)"
          by (intro psubset_card_mono) auto
        then have "?post (seen @ [i]) (rest @ js)"
          by (intro IH [OF bfs_inv_visit [OF "1.prems" [unfolded Cons] False Inr]]) (simp add: Cons)
        with False Inr show ?thesis by (simp add: Cons)
      qed
    qed
  qed
qed

lemma bfs_inv_start: "bfs_inv succs (set queue) [] queue"
  by (auto simp: bfs_inv_def intro: reached.start)

lemma bfs_correct:
  assumes "finite (reached succs (set queue))"
  shows "(\<exists>s. bfs succs [] queue = Some (Inr s) \<and> distinct s \<and> set s = reached succs (set queue)) \<or>
         (\<exists>i e. i \<in> reached succs (set queue) \<and> succs i = Inl e \<and> bfs succs [] queue = Some (Inl e))"
  using bfs_total [OF assms bfs_inv_start] by blast

lemma bfs_Inr:
  assumes "finite (reached succs (set queue))" and "bfs succs [] queue = Some (Inr s)"
  shows "distinct s" and "set s = reached succs (set queue)" and "\<And>i. i \<in> set s \<Longrightarrow> \<exists>js. succs i = Inr js"
  using bfs_total [OF assms(1) bfs_inv_start] assms(2) by auto

lemma bfs_Inr_ex:
  assumes "finite (reached succs (set queue))" and "\<And>i. i \<in> reached succs (set queue) \<Longrightarrow> \<exists>js. succs i = Inr js"
  shows "\<exists>s. bfs succs [] queue = Some (Inr s) \<and> distinct s \<and> set s = reached succs (set queue)"
  using bfs_total [OF assms(1) bfs_inv_start] assms(2) by fastforce

end
