(* ===== verification/View.thy ===== *)
theory View
  imports Objects
begin

text \<open>
  The view, the mutable state of the repository at one operation: \<open>crates/tessra-oplog/src/view.rs\<close>.

  \<open>apply_effects\<close> and \<open>view_merge\<close> are \<open>ViewState::apply\<close> and \<open>ViewState::merge\<close>; they thread
  the store of objects, in which the six tries of a view live. The keys of a view's tries are ids of
  16 or 32 bytes, so no trie that these functions build is deeper than 64 nibbles and \<open>trie_fuel\<close> is
  enough for it; only a stored trie that is deeper than any key makes the walk end in \<open>Diverges\<close>.
\<close>

section \<open>Pointers\<close>

datatype pointer = PId oid | PConflict "oid list"

fun pointer_to_value :: "pointer \<Rightarrow> value" where
  "pointer_to_value (PId i) = VBytes i"
| "pointer_to_value (PConflict v) = VMap [(VText ''conflict'', VArray (map VBytes v))]"

fun opt_oid :: "value \<Rightarrow> oid option" where
  "opt_oid (VBytes b) = (case oid_from_slice b of Inl e \<Rightarrow> None | Inr i \<Rightarrow> Some i)"
| "opt_oid _ = None"

text \<open>The loop over the items of a conflict gives up at the first one that is not an id.\<close>

fun opt_oids :: "value list \<Rightarrow> oid list option" where
  "opt_oids [] = Some []"
| "opt_oids (it # items) =
     (case opt_oid it of
        None \<Rightarrow> None
      | Some i \<Rightarrow> (case opt_oids items of None \<Rightarrow> None | Some is \<Rightarrow> Some (i # is)))"

definition pointer_from_value :: "value \<Rightarrow> pointer option" where
  "pointer_from_value v =
     (case v of
        VBytes b \<Rightarrow> map_option PId (opt_oid v)
      | VMap [(VText k, VArray items)] \<Rightarrow>
          if k = ''conflict'' then map_option PConflict (opt_oids items) else None
      | _ \<Rightarrow> None)"

fun pointer_from_trie :: "trie_value \<Rightarrow> pointer option" where
  "pointer_from_trie (TId i) = Some (PId i)"
| "pointer_from_trie (TConflict c) = Some (PConflict c)"
| "pointer_from_trie TSet = None"

fun pointer_to_trie :: "pointer \<Rightarrow> trie_value" where
  "pointer_to_trie (PId i) = TId i"
| "pointer_to_trie (PConflict c) = TConflict c"

fun pointer_ids :: "pointer \<Rightarrow> oid list" where
  "pointer_ids (PId i) = [i]"
| "pointer_ids (PConflict c) = c"

fun pointer_single :: "pointer \<Rightarrow> oid res" where
  "pointer_single (PId i) = Inr i"
| "pointer_single (PConflict c) = Inl Other"

definition pointer_union :: "pointer \<Rightarrow> pointer \<Rightarrow> pointer" where
  "pointer_union a b =
     (let v = btree_list (pointer_ids a @ pointer_ids b)
      in if length v = 1 then PId (v ! 0) else PConflict v)"

section \<open>Reading a view\<close>

definition trie_fuel :: nat where
  "trie_fuel = 65"

definition view_empty :: "(obj \<Rightarrow> oid) \<Rightarrow> objs \<Rightarrow> (objs \<times> view) res" where
  "view_empty h s =
     rbind (empty_root (node_put h) s) (\<lambda>(s1, e).
     Inr (s1, \<lparr>view_entities = e, view_proposed = e, view_claims = e, view_caps = e, view_revoked = e,
               view_tombstoned = e, view_lines = [], view_roots = [], view_owners = [],
               view_deployed = [], view_paused = None\<rparr>))"

definition store_view :: "(obj \<Rightarrow> oid) \<Rightarrow> objs \<Rightarrow> view \<Rightarrow> objs \<times> oid" where
  "store_view h s v = obj_put h s (OView v)"

definition load_view :: "(obj \<Rightarrow> oid) \<Rightarrow> objs \<Rightarrow> oid \<Rightarrow> view res" where
  "load_view h = obj_get h as_view"

definition view_entity :: "(obj \<Rightarrow> oid) \<Rightarrow> objs \<Rightarrow> view \<Rightarrow> eid \<Rightarrow> pointer option res" where
  "view_entity h s v i =
     rbind (trie_get (node_get h) s (view_entities v) i) (\<lambda>x. Inr (Option.bind x pointer_from_trie))"

definition view_claim :: "(obj \<Rightarrow> oid) \<Rightarrow> objs \<Rightarrow> view \<Rightarrow> eid \<Rightarrow> pointer option res" where
  "view_claim h s v i =
     rbind (trie_get (node_get h) s (view_claims v) i) (\<lambda>x. Inr (Option.bind x pointer_from_trie))"

definition in_set :: "(obj \<Rightarrow> oid) \<Rightarrow> objs \<Rightarrow> oid \<Rightarrow> oid \<Rightarrow> bool res" where
  "in_set h s root i = rbind (trie_get (node_get h) s root i) (\<lambda>x. Inr (x \<noteq> None))"

definition principal_revoked :: "(obj \<Rightarrow> oid) \<Rightarrow> objs \<Rightarrow> view \<Rightarrow> eid \<Rightarrow> bool res" where
  "principal_revoked h s v i = rbind (trie_get (node_get h) s (view_revoked v) i) (\<lambda>x. Inr (x \<noteq> None))"

definition view_entities_list :: "(obj \<Rightarrow> oid) \<Rightarrow> objs \<Rightarrow> view \<Rightarrow> (eid \<times> pointer) list res" where
  "view_entities_list h s v =
     rbind (trie_entries (node_get h) trie_fuel s (view_entities v)) (\<lambda>es.
     Inr (List.map_filter (\<lambda>(k, w).
            case (eid_from_slice k, pointer_from_trie w) of
              (Inr i, Some p) \<Rightarrow> Some (i, p)
            | _ \<Rightarrow> None) es))"

definition set_members :: "(obj \<Rightarrow> oid) \<Rightarrow> objs \<Rightarrow> oid \<Rightarrow> oid list res" where
  "set_members h s root =
     rbind (trie_entries (node_get h) trie_fuel s root) (\<lambda>es.
     Inr (List.map_filter (\<lambda>(k, w). case oid_from_slice k of Inr i \<Rightarrow> Some i | Inl e \<Rightarrow> None) es))"

definition line_head :: "line_state \<Rightarrow> pointer option" where
  "line_head ls = pointer_from_value (ls_head ls)"

section \<open>Applying effects\<close>

definition first_owner :: "view \<Rightarrow> eid \<Rightarrow> eid" where
  "first_owner v dflt = (case view_owners v of [] \<Rightarrow> dflt | p # _ \<Rightarrow> p)"

text \<open>Lifting an operation on one of the tries to the view: the store and the new root.\<close>

definition with_root :: "(objs \<times> oid) res \<Rightarrow> (oid \<Rightarrow> view) \<Rightarrow> (objs \<times> view) res" where
  "with_root m upd = rbind m (\<lambda>(s, i). Inr (s, upd i))"

definition set_insert :: "(obj \<Rightarrow> oid) \<Rightarrow> objs \<Rightarrow> oid \<Rightarrow> bytes \<Rightarrow> trie_value \<Rightarrow> (objs \<times> oid) res" where
  "set_insert h s root k v = trie_insert (node_put h) (node_get h) s root k v"

definition set_remove :: "(obj \<Rightarrow> oid) \<Rightarrow> objs \<Rightarrow> oid \<Rightarrow> bytes \<Rightarrow> (objs \<times> oid) res" where
  "set_remove h s root k = trie_remove (node_put h) (node_get h) s root k"

definition apply_head :: "view \<Rightarrow> string \<Rightarrow> oid \<Rightarrow> u64 \<Rightarrow> eid option \<Rightarrow> view res" where
  "apply_head v l to sq i =
     (let head = pointer_to_value (PId to)
      in case map_of (view_lines v) l of
           Some ls \<Rightarrow> Inr (v\<lparr>view_lines := bt_insert l (ls\<lparr>ls_head := head, ls_seq := sq\<rparr>) (view_lines v)\<rparr>)
         | None \<Rightarrow>
             rbind (of_opt Other i) (\<lambda>lid.
             Inr (v\<lparr>view_lines := bt_insert l
                      \<lparr>ls_id = lid, ls_head = head, ls_seq = sq, ls_coordinator = first_owner v lid\<rparr>
                      (view_lines v)\<rparr>)))"

definition apply_pause :: "view \<Rightarrow> string \<Rightarrow> oid option \<Rightarrow> view" where
  "apply_pause v scope parent_op =
     (let ps = \<lparr>ps_scope = scope, ps_by = first_owner v (replicate 16 0),
                ps_op = (case parent_op of Some i \<Rightarrow> i | None \<Rightarrow> replicate 32 0)\<rparr>;
          list = (case view_paused v of Some l \<Rightarrow> l | None \<Rightarrow> [])
      in v\<lparr>view_paused := Some (if \<exists>p \<in> set list. ps_scope p = scope then list else list @ [ps])\<rparr>)"

definition apply_resume :: "view \<Rightarrow> string \<Rightarrow> view" where
  "apply_resume v scope =
     (case view_paused v of
        None \<Rightarrow> v
      | Some list \<Rightarrow>
          let kept = filter (\<lambda>p. ps_scope p \<noteq> scope) list
          in v\<lparr>view_paused := (if kept = [] then None else Some kept)\<rparr>)"

definition set_coordinator :: "string \<Rightarrow> eid \<Rightarrow> (string, line_state) btree \<Rightarrow> (string, line_state) btree" where
  "set_coordinator l to m =
     (case map_of m l of None \<Rightarrow> m | Some ls \<Rightarrow> bt_insert l (ls\<lparr>ls_coordinator := to\<rparr>) m)"

fun apply_effect :: "(obj \<Rightarrow> oid) \<Rightarrow> oid option \<Rightarrow> effect \<Rightarrow> objs \<times> view \<Rightarrow> (objs \<times> view) res" where
  "apply_effect h op (EPut i) (s, v) = Inr (s, v)"
| "apply_effect h op (EPoint e to from') (s, v) =
     with_root (set_insert h s (view_entities v) e (TId to)) (\<lambda>r. v\<lparr>view_entities := r\<rparr>)"
| "apply_effect h op (EUnpoint e) (s, v) =
     with_root (set_remove h s (view_entities v) e) (\<lambda>r. v\<lparr>view_entities := r\<rparr>)"
| "apply_effect h op (EHead l to from' sq ats i) (s, v) = rbind (apply_head v l to sq i) (\<lambda>v'. Inr (s, v'))"
| "apply_effect h op (EPropose r) (s, v) =
     with_root (set_insert h s (view_proposed v) r TSet) (\<lambda>i. v\<lparr>view_proposed := i\<rparr>)"
| "apply_effect h op (EUnpropose r) (s, v) =
     with_root (set_remove h s (view_proposed v) r) (\<lambda>i. v\<lparr>view_proposed := i\<rparr>)"
| "apply_effect h op (EClaim c to) (s, v) =
     with_root (set_insert h s (view_claims v) c (TId to)) (\<lambda>i. v\<lparr>view_claims := i\<rparr>)"
| "apply_effect h op (EUnclaim c) (s, v) =
     with_root (set_remove h s (view_claims v) c) (\<lambda>i. v\<lparr>view_claims := i\<rparr>)"
| "apply_effect h op (ECap c) (s, v) =
     with_root (set_insert h s (view_caps v) c TSet) (\<lambda>i. v\<lparr>view_caps := i\<rparr>)"
| "apply_effect h op (EUncap c) (s, v) =
     with_root (set_remove h s (view_caps v) c) (\<lambda>i. v\<lparr>view_caps := i\<rparr>)"
| "apply_effect h op (ERevoke p) (s, v) =
     with_root (set_insert h s (view_revoked v) p TSet) (\<lambda>i. v\<lparr>view_revoked := i\<rparr>)"
| "apply_effect h op (ETomb of_id tomb) (s, v) =
     with_root (set_insert h s (view_tombstoned v) of_id TSet) (\<lambda>i. v\<lparr>view_tombstoned := i\<rparr>)"
| "apply_effect h op (EDeploy tg to) (s, v) = Inr (s, v\<lparr>view_deployed := bt_insert tg to (view_deployed v)\<rparr>)"
| "apply_effect h op (EPause sc) (s, v) = Inr (s, apply_pause v sc op)"
| "apply_effect h op (EResume sc) (s, v) = Inr (s, apply_resume v sc)"
| "apply_effect h op (EOwner p) (s, v) =
     Inr (s, if p \<in> set (view_owners v) then v else v\<lparr>view_owners := sort (view_owners v @ [p])\<rparr>)"
| "apply_effect h op (EUnowner p) (s, v) = Inr (s, v\<lparr>view_owners := filter (\<lambda>q. q \<noteq> p) (view_owners v)\<rparr>)"
| "apply_effect h op (ERoot n) (s, v) =
     Inr (s, if n \<in> set (view_roots v) then v else v\<lparr>view_roots := sort (view_roots v @ [n])\<rparr>)"
| "apply_effect h op (EUnroot n) (s, v) = Inr (s, v\<lparr>view_roots := filter (\<lambda>q. q \<noteq> n) (view_roots v)\<rparr>)"
| "apply_effect h op (ECoordinator l to) (s, v) =
     Inr (s, v\<lparr>view_lines := set_coordinator l to (view_lines v)\<rparr>)"

definition apply_effects :: "(obj \<Rightarrow> oid) \<Rightarrow> objs \<Rightarrow> view \<Rightarrow> effect list \<Rightarrow> oid option \<Rightarrow> (objs \<times> view) res" where
  "apply_effects h s v effs op = rfold (apply_effect h op) effs (s, v)"

section \<open>Three-way merge\<close>

definition merge_line :: "line_state \<Rightarrow> line_state \<Rightarrow> line_state \<Rightarrow> line_state" where
  "merge_line base a b =
     \<lparr>ls_id = ls_id a,
      ls_head =
        (if ls_head a = ls_head base then ls_head b
         else if ls_head b = ls_head base \<or> ls_head a = ls_head b then ls_head a
         else case (pointer_from_value (ls_head a), pointer_from_value (ls_head b)) of
                (Some x, Some y) \<Rightarrow> pointer_to_value (pointer_union x y)
              | _ \<Rightarrow> ls_head a),
      ls_seq = max (ls_seq a) (ls_seq b),
      ls_coordinator =
        (if ls_coordinator a = ls_coordinator base then ls_coordinator b
         else if ls_coordinator b = ls_coordinator base \<or> ls_coordinator a = ls_coordinator b
         then ls_coordinator a
         else min (ls_coordinator a) (ls_coordinator b))\<rparr>"

fun merge_line_opt :: "line_state option \<Rightarrow> line_state option \<Rightarrow> line_state option \<Rightarrow> line_state option" where
  "merge_line_opt None (Some x) (Some y) = Some (if x = y then x else merge_line x x y)"
| "merge_line_opt (Some bs) (Some x) (Some y) =
     Some (if x = y then x else if x = bs then y else if y = bs then x else merge_line bs x y)"
| "merge_line_opt None (Some x) None = Some x"
| "merge_line_opt None None (Some x) = Some x"
| "merge_line_opt (Some bs) None (Some x) = Some x"
| "merge_line_opt (Some bs) (Some x) None = Some x"
| "merge_line_opt bs None None = None"

definition merge_set_vec :: "'a::linorder list \<Rightarrow> 'a list \<Rightarrow> 'a list \<Rightarrow> 'a list" where
  "merge_set_vec base a b =
     filter (\<lambda>x.
         let in_b = x \<in> set base; in_a = x \<in> set a; in_b2 = x \<in> set b
         in in_a \<and> in_b2 \<or> in_a \<and> \<not> in_b \<or> in_b2 \<and> \<not> in_b)
       (btree_list (base @ a @ b))"

definition merge_deployed_opt :: "oid option \<Rightarrow> oid option \<Rightarrow> oid option \<Rightarrow> oid option" where
  "merge_deployed_opt vb va vb2 =
     (if va = vb then vb2
      else if vb2 = vb \<or> va = vb2 then va
      else case (va, vb2) of
             (Some x, Some y) \<Rightarrow> Some (min x y)
           | (Some x, None) \<Rightarrow> Some x
           | (None, Some x) \<Rightarrow> Some x
           | (None, None) \<Rightarrow> None)"

text \<open>The loop over the keys of three maps that fills a fourth.\<close>

definition merge_btree :: "('v option \<Rightarrow> 'v option \<Rightarrow> 'v option \<Rightarrow> 'v option) \<Rightarrow>
    ('k::linorder, 'v) btree \<Rightarrow> ('k, 'v) btree \<Rightarrow> ('k, 'v) btree \<Rightarrow> ('k, 'v) btree" where
  "merge_btree f base a b =
     fold (\<lambda>k out.
         case f (map_of base k) (map_of a k) (map_of b k) of
           None \<Rightarrow> out
         | Some v \<Rightarrow> bt_insert k v out)
       (btree_list (map fst base @ map fst a @ map fst b)) []"

definition merge_paused :: "pause_state list option \<Rightarrow> pause_state list option \<Rightarrow> pause_state list option" where
  "merge_paused a b =
     (let flat = (\<lambda>x. case x of None \<Rightarrow> [] | Some l \<Rightarrow> l);
          paused = fold (\<lambda>p out. if \<exists>q \<in> set out. ps_scope q = ps_scope p then out else out @ [p])
                     (flat a @ flat b) [];
          sorted = sort_key ps_scope paused
      in if sorted = [] then None else Some sorted)"

definition union_sets :: "(obj \<Rightarrow> oid) \<Rightarrow> objs \<Rightarrow> oid list \<Rightarrow> (objs \<times> oid) res" where
  "union_sets h s roots =
     rbind (rfold (\<lambda>r all.
         rbind (trie_entries (node_get h) trie_fuel s r) (\<lambda>es. Inr (all @ map fst es))) roots []) (\<lambda>all.
     rbind (empty_root (node_put h) s) (\<lambda>(s1, out).
     rfold (\<lambda>k (s, out). set_insert h s out k TSet) (btree_list all) (s1, out)))"

definition view_merge :: "(obj \<Rightarrow> oid) \<Rightarrow> objs \<Rightarrow> view \<Rightarrow> view \<Rightarrow> view \<Rightarrow> (objs \<times> view) res" where
  "view_merge h s base a b =
     rbind (merge3 (node_put h) (node_get h) trie_fuel s
       (view_entities base) (view_entities a) (view_entities b) Pointers) (\<lambda>(s1, entities).
     rbind (merge3 (node_put h) (node_get h) trie_fuel s1
       (view_claims base) (view_claims a) (view_claims b) Pointers) (\<lambda>(s2, claims).
     rbind (merge3 (node_put h) (node_get h) trie_fuel s2
       (view_proposed base) (view_proposed a) (view_proposed b) SetPolicy) (\<lambda>(s3, proposed).
     rbind (merge3 (node_put h) (node_get h) trie_fuel s3
       (view_caps base) (view_caps a) (view_caps b) SetPolicy) (\<lambda>(s4, caps).
     rbind (union_sets h s4 [view_revoked base, view_revoked a, view_revoked b]) (\<lambda>(s5, revoked).
     rbind (union_sets h s5 [view_tombstoned base, view_tombstoned a, view_tombstoned b]) (\<lambda>(s6, tombstoned).
     Inr (s6, \<lparr>view_entities = entities, view_proposed = proposed, view_claims = claims, view_caps = caps,
               view_revoked = revoked, view_tombstoned = tombstoned,
               view_lines = merge_btree merge_line_opt (view_lines base) (view_lines a) (view_lines b),
               view_roots = merge_set_vec (view_roots base) (view_roots a) (view_roots b),
               view_owners = merge_set_vec (view_owners base) (view_owners a) (view_owners b),
               view_deployed = merge_btree merge_deployed_opt (view_deployed base) (view_deployed a) (view_deployed b),
               view_paused = merge_paused (view_paused a) (view_paused b)\<rparr>)))))))"

end
