(* ===== verification/View_Spec.thy ===== *)
theory View_Spec
  imports View
begin

text \<open>
  What a view means: finite maps and sets. \<open>view_rep h s v av\<close> relates a view, whose tries live in
  the store \<open>s\<close>, to the abstract view \<open>av\<close>; \<open>a_effect\<close> and \<open>a_merge\<close> are the effects and the merge
  of the specification on abstract views. The refinement lemmas \<open>apply_effects_refines\<close> and
  \<open>view_merge_refines\<close> show that the code computes them.
\<close>

section \<open>Abstract views\<close>

record aview =
  av_entities :: "eid \<rightharpoonup> trie_value"
  av_proposed :: "oid set"
  av_claims :: "eid \<rightharpoonup> trie_value"
  av_caps :: "oid set"
  av_revoked :: "eid set"
  av_tombstoned :: "oid set"
  av_lines :: "string \<rightharpoonup> line_state"
  av_roots :: "string set"
  av_owners :: "eid set"
  av_deployed :: "eid \<rightharpoonup> oid"
  av_paused :: "pause_state list option"

definition set_map :: "bytes set \<Rightarrow> bytes \<rightharpoonup> trie_value" where
  "set_map A = (\<lambda>k. if k \<in> A then Some TSet else None)"

definition eid_nibs :: nat where "eid_nibs = 32"
definition oid_nibs :: nat where "oid_nibs = 64"

lemmas nibs_defs = eid_nibs_def oid_nibs_def

definition sorted_set :: "'a::linorder list \<Rightarrow> 'a set \<Rightarrow> bool" where
  "sorted_set xs A \<longleftrightarrow> sorted xs \<and> distinct xs \<and> set xs = A"

definition tries_rep :: "(obj \<Rightarrow> oid) \<Rightarrow> objs \<Rightarrow> view \<Rightarrow> aview \<Rightarrow> bool" where
  "tries_rep h s v av \<longleftrightarrow>
     root_rep (node_get h) s eid_nibs (view_entities v) (av_entities av) \<and>
     root_rep (node_get h) s oid_nibs (view_proposed v) (set_map (av_proposed av)) \<and>
     root_rep (node_get h) s eid_nibs (view_claims v) (av_claims av) \<and>
     root_rep (node_get h) s oid_nibs (view_caps v) (set_map (av_caps av)) \<and>
     root_rep (node_get h) s eid_nibs (view_revoked v) (set_map (av_revoked av)) \<and>
     root_rep (node_get h) s oid_nibs (view_tombstoned v) (set_map (av_tombstoned av))"

definition rest_rep :: "view \<Rightarrow> aview \<Rightarrow> bool" where
  "rest_rep v av \<longleftrightarrow>
     bt_ok (view_lines v) \<and> map_of (view_lines v) = av_lines av \<and>
     sorted_set (view_roots v) (av_roots av) \<and> sorted_set (view_owners v) (av_owners av) \<and>
     bt_ok (view_deployed v) \<and> map_of (view_deployed v) = av_deployed av \<and>
     view_paused v = av_paused av"

definition view_rep :: "(obj \<Rightarrow> oid) \<Rightarrow> objs \<Rightarrow> view \<Rightarrow> aview \<Rightarrow> bool" where
  "view_rep h s v av \<longleftrightarrow> tries_rep h s v av \<and> rest_rep v av"

definition a_empty :: aview where
  "a_empty = \<lparr>av_entities = Map.empty, av_proposed = {}, av_claims = Map.empty, av_caps = {},
     av_revoked = {}, av_tombstoned = {}, av_lines = Map.empty, av_roots = {}, av_owners = {},
     av_deployed = Map.empty, av_paused = None\<rparr>"

section \<open>Abstract effects\<close>

definition a_first_owner :: "aview \<Rightarrow> eid \<Rightarrow> eid" where
  "a_first_owner av dflt = (if av_owners av = {} then dflt else Min (av_owners av))"

definition a_head :: "aview \<Rightarrow> string \<Rightarrow> oid \<Rightarrow> u64 \<Rightarrow> eid option \<Rightarrow> aview res" where
  "a_head av l to sq i =
     (let head = pointer_to_value (PId to)
      in case (av_lines av l, i) of
           (Some ls, _) \<Rightarrow> Inr (av\<lparr>av_lines := (av_lines av)(l \<mapsto> ls\<lparr>ls_head := head, ls_seq := sq\<rparr>)\<rparr>)
         | (None, None) \<Rightarrow> Inl Other
         | (None, Some lid) \<Rightarrow>
             Inr (av\<lparr>av_lines := (av_lines av)(l \<mapsto>
               \<lparr>ls_id = lid, ls_head = head, ls_seq = sq, ls_coordinator = a_first_owner av lid\<rparr>)\<rparr>))"

definition a_pause :: "aview \<Rightarrow> string \<Rightarrow> oid option \<Rightarrow> aview" where
  "a_pause av scope parent_op =
     (let ps = \<lparr>ps_scope = scope, ps_by = a_first_owner av (replicate 16 0),
                ps_op = (case parent_op of Some i \<Rightarrow> i | None \<Rightarrow> replicate 32 0)\<rparr>;
          list = (case av_paused av of Some l \<Rightarrow> l | None \<Rightarrow> [])
      in av\<lparr>av_paused := Some (if \<exists>p \<in> set list. ps_scope p = scope then list else list @ [ps])\<rparr>)"

definition a_resume :: "aview \<Rightarrow> string \<Rightarrow> aview" where
  "a_resume av scope =
     (case av_paused av of
        None \<Rightarrow> av
      | Some list \<Rightarrow>
          let kept = filter (\<lambda>p. ps_scope p \<noteq> scope) list
          in av\<lparr>av_paused := (if kept = [] then None else Some kept)\<rparr>)"

fun a_effect :: "oid option \<Rightarrow> effect \<Rightarrow> aview \<Rightarrow> aview res" where
  "a_effect op (EPut i) av = Inr av"
| "a_effect op (EPoint e to from') av = Inr (av\<lparr>av_entities := (av_entities av)(e \<mapsto> TId to)\<rparr>)"
| "a_effect op (EUnpoint e) av = Inr (av\<lparr>av_entities := (av_entities av)(e := None)\<rparr>)"
| "a_effect op (EHead l to from' sq ats i) av = a_head av l to sq i"
| "a_effect op (EPropose r) av = Inr (av\<lparr>av_proposed := insert r (av_proposed av)\<rparr>)"
| "a_effect op (EUnpropose r) av = Inr (av\<lparr>av_proposed := av_proposed av - {r}\<rparr>)"
| "a_effect op (EClaim c to) av = Inr (av\<lparr>av_claims := (av_claims av)(c \<mapsto> TId to)\<rparr>)"
| "a_effect op (EUnclaim c) av = Inr (av\<lparr>av_claims := (av_claims av)(c := None)\<rparr>)"
| "a_effect op (ECap c) av = Inr (av\<lparr>av_caps := insert c (av_caps av)\<rparr>)"
| "a_effect op (EUncap c) av = Inr (av\<lparr>av_caps := av_caps av - {c}\<rparr>)"
| "a_effect op (ERevoke p) av = Inr (av\<lparr>av_revoked := insert p (av_revoked av)\<rparr>)"
| "a_effect op (ETomb i t) av = Inr (av\<lparr>av_tombstoned := insert i (av_tombstoned av)\<rparr>)"
| "a_effect op (EDeploy tg to) av = Inr (av\<lparr>av_deployed := (av_deployed av)(tg \<mapsto> to)\<rparr>)"
| "a_effect op (EPause sc) av = Inr (a_pause av sc op)"
| "a_effect op (EResume sc) av = Inr (a_resume av sc)"
| "a_effect op (EOwner p) av = Inr (av\<lparr>av_owners := insert p (av_owners av)\<rparr>)"
| "a_effect op (EUnowner p) av = Inr (av\<lparr>av_owners := av_owners av - {p}\<rparr>)"
| "a_effect op (ERoot n) av = Inr (av\<lparr>av_roots := insert n (av_roots av)\<rparr>)"
| "a_effect op (EUnroot n) av = Inr (av\<lparr>av_roots := av_roots av - {n}\<rparr>)"
| "a_effect op (ECoordinator l to) av =
     Inr (av\<lparr>av_lines := (case av_lines av l of
                 None \<Rightarrow> av_lines av
               | Some ls \<Rightarrow> (av_lines av)(l \<mapsto> ls\<lparr>ls_coordinator := to\<rparr>))\<rparr>)"

definition a_effects :: "oid option \<Rightarrow> effect list \<Rightarrow> aview \<Rightarrow> aview res" where
  "a_effects op effs av = rfold (a_effect op) effs av"

lemma a_effects_append: "a_effects op (es @ fs) av = rbind (a_effects op es av) (a_effects op fs)"
  by (simp add: a_effects_def [abs_def] rfold_append)

text \<open>In the Rust types an entity id has 16 bytes and an object id 32.\<close>

fun effect_ids_ok :: "effect \<Rightarrow> bool" where
  "effect_ids_ok (EPoint e to f) = (length e = 16)"
| "effect_ids_ok (EUnpoint e) = (length e = 16)"
| "effect_ids_ok (EPropose r) = (length r = 32)"
| "effect_ids_ok (EUnpropose r) = (length r = 32)"
| "effect_ids_ok (EClaim c to) = (length c = 16)"
| "effect_ids_ok (EUnclaim c) = (length c = 16)"
| "effect_ids_ok (ECap c) = (length c = 32)"
| "effect_ids_ok (EUncap c) = (length c = 32)"
| "effect_ids_ok (ERevoke p) = (length p = 16)"
| "effect_ids_ok (ETomb i t) = (length i = 32)"
| "effect_ids_ok _ = True"

section \<open>Sorted vectors as sets\<close>

lemma sorted_set_insert:
  "sorted_set xs A \<Longrightarrow> sorted_set (if x \<in> set xs then xs else sort (xs @ [x])) (insert x A)"
  by (auto simp: sorted_set_def)

lemma sorted_set_remove: "sorted_set xs A \<Longrightarrow> sorted_set (filter (\<lambda>y. y \<noteq> x) xs) (A - {x})"
  by (auto simp: sorted_set_def sorted_wrt_filter)

lemma sorted_set_Min: "sorted_set xs A \<Longrightarrow> xs \<noteq> [] \<Longrightarrow> hd xs = Min A"
  by (cases xs) (auto simp: sorted_set_def intro!: Min_eqI [symmetric])

lemma sorted_set_empty: "sorted_set xs A \<Longrightarrow> xs = [] \<longleftrightarrow> A = {}"
  by (auto simp: sorted_set_def)

lemma sorted_set_unique: "sorted_set xs A \<Longrightarrow> sorted_set ys A \<Longrightarrow> xs = ys"
  by (auto simp: sorted_set_def intro: sorted_distinct_set_unique)

lemma first_owner_rep: "rest_rep v av \<Longrightarrow> first_owner v d = a_first_owner av d"
proof -
  assume "rest_rep v av"
  then have s: "sorted_set (view_owners v) (av_owners av)" by (simp add: rest_rep_def)
  show ?thesis
    using sorted_set_Min [OF s] sorted_set_empty [OF s]
    by (cases "view_owners v") (simp_all add: first_owner_def a_first_owner_def)
qed

lemma set_map_insert: "(set_map A)(k \<mapsto> TSet) = set_map (insert k A)"
  by (auto simp: set_map_def)

lemma set_map_remove: "(set_map A)(k := None) = set_map (A - {k})"
  by (auto simp: set_map_def)

lemma set_map_eq_None [simp]: "set_map A k = None \<longleftrightarrow> k \<notin> A"
  by (simp add: set_map_def)

lemma dom_set_map [simp]: "dom (set_map A) = A"
  by (auto simp: set_map_def split: if_splits)

lemma set_map_inject: "set_map A = set_map B \<longleftrightarrow> A = B"
  by (metis dom_set_map)

section \<open>Applying effects\<close>

abbreviation step_ok :: "(obj \<Rightarrow> oid) \<Rightarrow> objs \<Rightarrow> objs \<Rightarrow> bool" where
  "step_ok h s s' \<equiv> objs_ok h s' \<and> extends (node_get h) s s' \<and> kept s s'"

lemma set_insert_correct:
  assumes "collision_free h" and "objs_ok h s" and "root_rep (node_get h) s N i m" and "2 * length k = N"
  obtains s' j where "set_insert h s i k v = Inr (s', j)" and "step_ok h s s'"
    and "root_rep (node_get h) s' N j (m(k \<mapsto> v))"
  using ot.insert_correct [OF assms, of v] by (auto simp: set_insert_def)

lemma set_remove_correct:
  assumes "collision_free h" and "objs_ok h s" and "root_rep (node_get h) s N i m" and "2 * length k = N"
  obtains s' j where "set_remove h s i k = Inr (s', j)" and "step_ok h s s'"
    and "root_rep (node_get h) s' N j (m(k := None))"
  using ot.remove_correct [OF assms] by (auto simp: set_remove_def)

lemma tries_rep_mono: "tries_rep h s v av \<Longrightarrow> extends (node_get h) s s' \<Longrightarrow> tries_rep h s' v av"
  by (auto simp: tries_rep_def intro: root_rep_mono)

lemma view_rep_mono: "view_rep h s v av \<Longrightarrow> extends (node_get h) s s' \<Longrightarrow> view_rep h s' v av"
  by (auto simp: view_rep_def intro: tries_rep_mono)

text \<open>The outcome of a step on a view against the outcome of the abstract step.\<close>

definition refines :: "(obj \<Rightarrow> oid) \<Rightarrow> objs \<Rightarrow> (objs \<times> view) res \<Rightarrow> aview res \<Rightarrow> bool" where
  "refines h s r a \<longleftrightarrow>
     (case a of
        Inl e \<Rightarrow> r = Inl e
      | Inr av \<Rightarrow> \<exists>s' v. r = Inr (s', v) \<and> step_ok h s s' \<and> view_rep h s' v av)"

lemma refines_same: "objs_ok h s \<Longrightarrow> view_rep h s v av \<Longrightarrow> refines h s (Inr (s, v)) (Inr av)"
  by (simp add: refines_def)

lemma refines_insert:
  assumes ok: "collision_free h" "objs_ok h s" and "root_rep (node_get h) s N i m" and "2 * length k = N"
    and upd: "\<And>s' j. extends (node_get h) s s' \<Longrightarrow> root_rep (node_get h) s' N j (m(k \<mapsto> x)) \<Longrightarrow> view_rep h s' (upd j) av'"
  shows "refines h s (with_root (set_insert h s i k x) upd) (Inr av')"
proof -
  obtain s' j where s': "set_insert h s i k x = Inr (s', j)" "step_ok h s s'"
    "root_rep (node_get h) s' N j (m(k \<mapsto> x))" using set_insert_correct [OF assms(1-4)] by blast
  with upd [OF _ s'(3)] show ?thesis by (simp add: refines_def with_root_def)
qed

lemma refines_remove:
  assumes ok: "collision_free h" "objs_ok h s" and "root_rep (node_get h) s N i m" and "2 * length k = N"
    and upd: "\<And>s' j. extends (node_get h) s s' \<Longrightarrow> root_rep (node_get h) s' N j (m(k := None)) \<Longrightarrow> view_rep h s' (upd j) av'"
  shows "refines h s (with_root (set_remove h s i k) upd) (Inr av')"
proof -
  obtain s' j where s': "set_remove h s i k = Inr (s', j)" "step_ok h s s'"
    "root_rep (node_get h) s' N j (m(k := None))" using set_remove_correct [OF assms(1-4)] by blast
  with upd [OF _ s'(3)] show ?thesis by (simp add: refines_def with_root_def)
qed

text \<open>Where the key of a trie effect goes, and that the other tries stay.\<close>

lemma view_rep_tries:
  assumes "view_rep h s v av"
  shows "root_rep (node_get h) s 32 (view_entities v) (av_entities av)"
    and "root_rep (node_get h) s 64 (view_proposed v) (set_map (av_proposed av))"
    and "root_rep (node_get h) s 32 (view_claims v) (av_claims av)"
    and "root_rep (node_get h) s 64 (view_caps v) (set_map (av_caps av))"
    and "root_rep (node_get h) s 32 (view_revoked v) (set_map (av_revoked av))"
    and "root_rep (node_get h) s 64 (view_tombstoned v) (set_map (av_tombstoned av))"
    and "rest_rep v av"
  using assms by (simp_all add: view_rep_def tries_rep_def nibs_defs)

lemma view_rep_update:
  assumes "view_rep h s v av" and "extends (node_get h) s s'"
  shows "root_rep (node_get h) s' 32 j m \<Longrightarrow> view_rep h s' (v\<lparr>view_entities := j\<rparr>) (av\<lparr>av_entities := m\<rparr>)"
    and "root_rep (node_get h) s' 64 j (set_map A) \<Longrightarrow> view_rep h s' (v\<lparr>view_proposed := j\<rparr>) (av\<lparr>av_proposed := A\<rparr>)"
    and "root_rep (node_get h) s' 32 j m \<Longrightarrow> view_rep h s' (v\<lparr>view_claims := j\<rparr>) (av\<lparr>av_claims := m\<rparr>)"
    and "root_rep (node_get h) s' 64 j (set_map A) \<Longrightarrow> view_rep h s' (v\<lparr>view_caps := j\<rparr>) (av\<lparr>av_caps := A\<rparr>)"
    and "root_rep (node_get h) s' 32 j (set_map A) \<Longrightarrow> view_rep h s' (v\<lparr>view_revoked := j\<rparr>) (av\<lparr>av_revoked := A\<rparr>)"
    and "root_rep (node_get h) s' 64 j (set_map A) \<Longrightarrow> view_rep h s' (v\<lparr>view_tombstoned := j\<rparr>) (av\<lparr>av_tombstoned := A\<rparr>)"
  using view_rep_mono [OF assms] by (simp_all add: view_rep_def tries_rep_def rest_rep_def nibs_defs)

lemma apply_head_refines:
  assumes "objs_ok h s" and "view_rep h s v av"
  shows "refines h s (rbind (apply_head v l to sq i) (\<lambda>v'. Inr (s, v'))) (a_head av l to sq i)"
proof -
  from assms(2) have r: "map_of (view_lines v) = av_lines av" "bt_ok (view_lines v)" "rest_rep v av" "tries_rep h s v av"
    by (simp_all add: view_rep_def rest_rep_def)
  show ?thesis
    using r assms(1)
    by (cases "av_lines av l"; cases i)
      (simp_all add: apply_head_def a_head_def refines_def Let_def view_rep_def tries_rep_def rest_rep_def
        first_owner_rep [OF r(3)])
qed

lemma apply_pause_refines: "view_rep h s v av \<Longrightarrow> view_rep h s (apply_pause v sc op) (a_pause av sc op)"
  using first_owner_rep [of v av]
  by (simp add: view_rep_def tries_rep_def rest_rep_def apply_pause_def a_pause_def Let_def)

lemma apply_resume_refines: "view_rep h s v av \<Longrightarrow> view_rep h s (apply_resume v sc) (a_resume av sc)"
  by (simp add: view_rep_def tries_rep_def rest_rep_def apply_resume_def a_resume_def Let_def split: option.splits)

lemma set_coordinator_rep: "bt_ok m \<Longrightarrow> bt_ok (set_coordinator l to m)"
  "map_of (set_coordinator l to m) =
    (case map_of m l of None \<Rightarrow> map_of m | Some ls \<Rightarrow> (map_of m)(l \<mapsto> ls\<lparr>ls_coordinator := to\<rparr>))"
  by (auto simp: set_coordinator_def split: option.splits)

lemma apply_effect_refines:
  assumes ok: "collision_free h" "objs_ok h s" and rep: "view_rep h s v av" and e: "effect_ids_ok e"
  shows "refines h s (apply_effect h op e (s, v)) (a_effect op e av)"
proof -
  note tries = view_rep_tries [OF rep] and upd = view_rep_update [OF rep]
  have same: "refines h s (Inr (s, v')) (Inr av')" if "view_rep h s v' av'" for v' av'
    using that ok(2) by (rule refines_same [rotated])
  have rest: "view_rep h s (f v) (g av)" if "tries_rep h s (f v) (g av)" "rest_rep (f v) (g av)" for f g
    using that by (simp add: view_rep_def)
  note ins = refines_insert [OF ok] and del = refines_remove [OF ok]
  note simps = set_map_insert set_map_remove
  show ?thesis
  proof (cases e)
    case (EPut i) with rep show ?thesis by (simp add: same)
  next
    case (EPoint i to f) with e show ?thesis by (auto intro!: ins [OF tries(1)] upd)
  next
    case (EUnpoint i) with e show ?thesis by (auto intro!: del [OF tries(1)] upd)
  next
    case (EHead l to f sq ats i) with apply_head_refines [OF ok(2) rep] show ?thesis by simp
  next
    case (EPropose r) with e show ?thesis by (auto simp: simps intro!: ins [OF tries(2)] upd)
  next
    case (EUnpropose r) with e show ?thesis by (auto simp: simps intro!: del [OF tries(2)] upd)
  next
    case (EClaim c to) with e show ?thesis by (auto intro!: ins [OF tries(3)] upd)
  next
    case (EUnclaim c) with e show ?thesis by (auto intro!: del [OF tries(3)] upd)
  next
    case (ECap c) with e show ?thesis by (auto simp: simps intro!: ins [OF tries(4)] upd)
  next
    case (EUncap c) with e show ?thesis by (auto simp: simps intro!: del [OF tries(4)] upd)
  next
    case (ERevoke p) with e show ?thesis by (auto simp: simps intro!: ins [OF tries(5)] upd)
  next
    case (ETomb i tb) with e show ?thesis by (auto simp: simps intro!: ins [OF tries(6)] upd)
  next
    case (EDeploy tg to) with rep show ?thesis
      by (simp, intro same) (simp add: view_rep_def tries_rep_def rest_rep_def)
  next
    case (EPause sc) with apply_pause_refines [OF rep] show ?thesis by (simp add: same)
  next
    case (EResume sc) with apply_resume_refines [OF rep] show ?thesis by (simp add: same)
  next
    case (EOwner p)
    have "view_owners (if p \<in> set (view_owners v) then v else v\<lparr>view_owners := sort (view_owners v @ [p])\<rparr>) =
        (if p \<in> set (view_owners v) then view_owners v else sort (view_owners v @ [p]))" by simp
    moreover have "sorted_set \<dots> (insert p (av_owners av))"
      using tries(7) by (intro sorted_set_insert) (simp add: rest_rep_def)
    ultimately show ?thesis
      using EOwner rep by (auto simp: view_rep_def tries_rep_def rest_rep_def intro!: same)
  next
    case (EUnowner p) with rep show ?thesis
      by (simp, intro same) (simp add: view_rep_def tries_rep_def rest_rep_def sorted_set_remove)
  next
    case (ERoot n)
    have "sorted_set (if n \<in> set (view_roots v) then view_roots v else sort (view_roots v @ [n])) (insert n (av_roots av))"
      using tries(7) by (intro sorted_set_insert) (simp add: rest_rep_def)
    with ERoot rep show ?thesis by (auto simp: view_rep_def tries_rep_def rest_rep_def intro!: same split: if_splits)
  next
    case (EUnroot n) with rep show ?thesis
      by (simp, intro same) (simp add: view_rep_def tries_rep_def rest_rep_def sorted_set_remove)
  next
    case (ECoordinator l to) with rep show ?thesis
      by (simp, intro same) (simp add: view_rep_def tries_rep_def rest_rep_def set_coordinator_rep split: option.split)
  qed
qed

lemma apply_effects_refines_aux:
  assumes "collision_free h"
  shows "objs_ok h s \<Longrightarrow> view_rep h s v av \<Longrightarrow> \<forall>e \<in> set effs. effect_ids_ok e \<Longrightarrow>
    refines h s (apply_effects h s v effs op) (a_effects op effs av)"
proof (induction effs arbitrary: s v av)
  case Nil
  then show ?case by (simp add: apply_effects_def a_effects_def refines_same)
next
  case (Cons e effs)
  from apply_effect_refines [OF assms Cons.prems(1,2), of e op] Cons.prems(3)
  have step: "refines h s (apply_effect h op e (s, v)) (a_effect op e av)" by simp
  show ?case
  proof (cases "a_effect op e av")
    case (Inl err)
    with step show ?thesis by (simp add: refines_def apply_effects_def a_effects_def)
  next
    case (Inr av1)
    with step obtain s1 v1 where 1: "apply_effect h op e (s, v) = Inr (s1, v1)" "step_ok h s s1" "view_rep h s1 v1 av1"
      by (auto simp: refines_def)
    from Cons.IH [OF _ 1(3)] 1(2) Cons.prems(3)
    have "refines h s1 (apply_effects h s1 v1 effs op) (a_effects op effs av1)" by simp
    with 1 Inr show ?thesis
      by (auto simp: refines_def apply_effects_def a_effects_def split: sum.splits intro: kept_trans extends_trans)
  qed
qed

section \<open>Abstract merge\<close>

definition merge_set :: "'a set \<Rightarrow> 'a set \<Rightarrow> 'a set \<Rightarrow> 'a set" where
  "merge_set B A A' = (A \<inter> A') \<union> (A - B) \<union> (A' - B)"

text \<open>The rule of a merge for one value: the side that changed wins, and two different changes are settled by a rule.\<close>

definition three_way :: "('v \<Rightarrow> 'v \<Rightarrow> 'v) \<Rightarrow> 'v \<Rightarrow> 'v \<Rightarrow> 'v \<Rightarrow> 'v" where
  "three_way settle base a b = (if a = base then b else if b = base then a else if a = b then a else settle a b)"

fun ids_of_value :: "trie_value \<Rightarrow> oid set" where
  "ids_of_value (TId i) = {i}"
| "ids_of_value (TConflict c) = set c"
| "ids_of_value TSet = {}"

text \<open>Two different changes of a pointer make a conflict of all ids; a removal wins over a change.\<close>

definition a_conflict :: "trie_value option \<Rightarrow> trie_value option \<Rightarrow> trie_value option" where
  "a_conflict v w =
     (case (v, w) of
        (Some x, Some y) \<Rightarrow>
          (let I = ids_of_value x \<union> ids_of_value y
           in Some (if card I = 1 then TId (Min I) else TConflict (sorted_list_of_set I)))
      | _ \<Rightarrow> None)"

definition a_merge_line :: "line_state \<Rightarrow> line_state \<Rightarrow> line_state \<Rightarrow> line_state" where
  "a_merge_line base a b =
     \<lparr>ls_id = ls_id a,
      ls_head = three_way (\<lambda>v w. case (pointer_from_value v, pointer_from_value w) of
                    (Some p, Some q) \<Rightarrow>
                      (let I = set (pointer_ids p) \<union> set (pointer_ids q)
                       in pointer_to_value (if card I = 1 then PId (Min I) else PConflict (sorted_list_of_set I)))
                  | _ \<Rightarrow> v) (ls_head base) (ls_head a) (ls_head b),
      ls_seq = (if ls_seq a < ls_seq b then ls_seq b else ls_seq a),
      ls_coordinator = three_way (\<lambda>p q. if p < q then p else q) (ls_coordinator base) (ls_coordinator a) (ls_coordinator b)\<rparr>"

text \<open>A line both sides made is merged with the first side as its base, so that its head is that of the second.\<close>

definition a_merge_lines :: "line_state option \<Rightarrow> line_state option \<Rightarrow> line_state option \<Rightarrow> line_state option" where
  "a_merge_lines base a b =
     (case (a, b) of
        (None, _) \<Rightarrow> b
      | (Some x, None) \<Rightarrow> Some x
      | (Some x, Some y) \<Rightarrow>
          Some (case base of
                  None \<Rightarrow> if x = y then x else a_merge_line x x y
                | Some z \<Rightarrow> three_way (a_merge_line z) z x y))"

definition a_merge_deployed :: "oid option \<Rightarrow> oid option \<Rightarrow> oid option" where
  "a_merge_deployed v w =
     (case (v, w) of (None, _) \<Rightarrow> w | (Some x, None) \<Rightarrow> v | (Some x, Some y) \<Rightarrow> Some (if x < y then x else y))"

text \<open>Pauses by scope, each the first of its scope in the list.\<close>

definition a_merge_paused :: "pause_state list \<Rightarrow> pause_state list option" where
  "a_merge_paused ps =
     (let scopes = sorted_list_of_set (ps_scope ` set ps)
      in if scopes = [] then None else Some (map (\<lambda>sc. the (find (\<lambda>p. ps_scope p = sc) ps)) scopes))"

definition a_merge :: "aview \<Rightarrow> aview \<Rightarrow> aview \<Rightarrow> aview" where
  "a_merge base a b =
     \<lparr>av_entities = (\<lambda>e. three_way a_conflict (av_entities base e) (av_entities a e) (av_entities b e)),
      av_proposed = merge_set (av_proposed base) (av_proposed a) (av_proposed b),
      av_claims = (\<lambda>c. three_way a_conflict (av_claims base c) (av_claims a c) (av_claims b c)),
      av_caps = merge_set (av_caps base) (av_caps a) (av_caps b),
      av_revoked = av_revoked base \<union> av_revoked a \<union> av_revoked b,
      av_tombstoned = av_tombstoned base \<union> av_tombstoned a \<union> av_tombstoned b,
      av_lines = (\<lambda>l. a_merge_lines (av_lines base l) (av_lines a l) (av_lines b l)),
      av_roots = merge_set (av_roots base) (av_roots a) (av_roots b),
      av_owners = merge_set (av_owners base) (av_owners a) (av_owners b),
      av_deployed = (\<lambda>t. three_way a_merge_deployed (av_deployed base t) (av_deployed a t) (av_deployed b t)),
      av_paused = a_merge_paused ((case av_paused a of None \<Rightarrow> [] | Some l \<Rightarrow> l) @
                                  (case av_paused b of None \<Rightarrow> [] | Some l \<Rightarrow> l))\<rparr>"

lemma btree_list_of_set: "btree_list xs = sorted_list_of_set (set xs)"
  by (simp add: btree_list_def sorted_list_of_set_sort_remdups)

lemma one_of_btree: "length (btree_list xs) = 1 \<longleftrightarrow> card (set xs) = 1" "length (btree_list xs) = 1 \<Longrightarrow> btree_list xs ! 0 = Min (set xs)"
proof -
  show "length (btree_list xs) = 1 \<longleftrightarrow> card (set xs) = 1" by (simp add: btree_list_of_set)
  assume l: "length (btree_list xs) = 1"
  then obtain x where x: "btree_list xs = [x]" by (auto simp: length_Suc_conv)
  with set_btree_list [of xs] have "set xs = {x}" by simp
  with x show "btree_list xs ! 0 = Min (set xs)" by simp
qed

lemma ids_of_value_tv: "ids_of_value v = set (tv_ids v)"
  by (cases v) simp_all

lemma tv_union_conflict: "Some (tv_union x y) = a_conflict (Some x) (Some y)"
  using one_of_btree [of "tv_ids x @ tv_ids y"]
  by (auto simp: tv_union_def a_conflict_def ids_of_value_tv Let_def btree_list_of_set [of "tv_ids x @ tv_ids y"])

lemma merge_value_three_way: "merge_value Pointers base a b = three_way a_conflict base a b"
proof -
  have "merge_values Pointers base a b = a_conflict a b" if "a \<noteq> base" "b \<noteq> base" "a \<noteq> b"
    using that by (cases base; cases a; cases b) (simp_all add: tv_union_conflict, simp_all add: a_conflict_def)
  then show ?thesis by (simp add: merge_value_def three_way_def)
qed

lemma pointer_union_conflict:
  "pointer_union p q = (let I = set (pointer_ids p) \<union> set (pointer_ids q)
     in if card I = 1 then PId (Min I) else PConflict (sorted_list_of_set I))"
  using one_of_btree [of "pointer_ids p @ pointer_ids q"]
  by (auto simp: pointer_union_def Let_def btree_list_of_set [of "pointer_ids p @ pointer_ids q"])

lemma merge_line_spec: "merge_line base a b = a_merge_line base a b"
  by (auto simp: merge_line_def a_merge_line_def three_way_def pointer_union_conflict Let_def max_def min_def split: option.split)

lemma merge_line_opt_spec: "merge_line_opt base a b = a_merge_lines base a b"
  by (cases base; cases a; cases b) (simp_all add: a_merge_lines_def three_way_def merge_line_spec)

lemma merge_deployed_spec: "merge_deployed_opt base a b = three_way a_merge_deployed base a b"
  by (auto simp: merge_deployed_opt_def three_way_def a_merge_deployed_def min_def split: option.split)

definition first_by_scope :: "pause_state list \<Rightarrow> pause_state list \<Rightarrow> bool" where
  "first_by_scope ps out \<longleftrightarrow> distinct (map ps_scope out) \<and> ps_scope ` set out = ps_scope ` set ps \<and>
     (\<forall>p \<in> set out. find (\<lambda>q. ps_scope q = ps_scope p) ps = Some p)"

lemma find_append: "find P (xs @ ys) = (case find P xs of Some x \<Rightarrow> Some x | None \<Rightarrow> find P ys)"
  by (induction xs) auto

lemma first_by_scope_step:
  assumes "first_by_scope ps out"
  shows "first_by_scope (ps @ [p]) (if \<exists>q \<in> set out. ps_scope q = ps_scope p then out else out @ [p])"
proof -
  have sc: "(\<exists>q \<in> set out. ps_scope q = ps_scope p) \<longleftrightarrow> ps_scope p \<in> ps_scope ` set ps"
  proof -
    have "(\<exists>q \<in> set out. ps_scope q = ps_scope p) \<longleftrightarrow> ps_scope p \<in> ps_scope ` set out" by (metis image_iff)
    also have "ps_scope ` set out = ps_scope ` set ps" using assms by (simp add: first_by_scope_def)
    finally show ?thesis .
  qed
  have old: "find (\<lambda>q. ps_scope q = ps_scope r) (ps @ [p]) = Some r" if "r \<in> set out" for r
    using assms that by (simp add: first_by_scope_def find_append)
  show ?thesis
  proof (cases "ps_scope p \<in> ps_scope ` set ps")
    case True
    with sc assms old show ?thesis by (auto simp: first_by_scope_def)
  next
    case False
    then have "find (\<lambda>q. ps_scope q = ps_scope p) ps = None" unfolding find_None_iff by (metis image_eqI)
    then have "find (\<lambda>q. ps_scope q = ps_scope p) (ps @ [p]) = Some p" by (simp add: find_append)
    with False sc assms old show ?thesis by (auto simp: first_by_scope_def)
  qed
qed

lemma first_by_scope_fold:
  "first_by_scope ps out \<Longrightarrow>
     first_by_scope (ps @ qs) (fold (\<lambda>p out. if \<exists>q \<in> set out. ps_scope q = ps_scope p then out else out @ [p]) qs out)"
proof (induction qs arbitrary: ps out)
  case (Cons p qs)
  from Cons.IH [OF first_by_scope_step [OF Cons.prems, of p]] show ?case by simp
qed simp

lemma first_by_scope_sorted:
  assumes "first_by_scope ps out"
  shows "sort_key ps_scope out = map (\<lambda>sc. the (find (\<lambda>p. ps_scope p = sc) ps)) (sorted_list_of_set (ps_scope ` set ps))"
proof -
  let ?s = "sort_key ps_scope out" and ?g = "\<lambda>sc. the (find (\<lambda>p. ps_scope p = sc) ps)"
  have "distinct (map ps_scope ?s)"
    using assms by (simp add: first_by_scope_def distinct_map)
  then have "map ps_scope ?s = sorted_list_of_set (ps_scope ` set ps)"
    using assms by (intro sorted_distinct_set_unique) (simp_all add: first_by_scope_def)
  moreover have "map ?g (map ps_scope ?s) = ?s"
    unfolding map_map using assms by (intro map_idI) (auto simp: first_by_scope_def)
  ultimately show ?thesis by metis
qed

lemma merge_paused_spec:
  "merge_paused a b = a_merge_paused ((case a of None \<Rightarrow> [] | Some l \<Rightarrow> l) @ (case b of None \<Rightarrow> [] | Some l \<Rightarrow> l))"
proof -
  define ps where "ps = (case a of None \<Rightarrow> [] | Some l \<Rightarrow> l) @ (case b of None \<Rightarrow> [] | Some l \<Rightarrow> l)"
  let ?out = "fold (\<lambda>p out. if \<exists>q \<in> set out. ps_scope q = ps_scope p then out else out @ [p]) ps []"
  have "first_by_scope ps ?out"
    using first_by_scope_fold [of "[]" "[]" ps] by (simp add: first_by_scope_def)
  from first_by_scope_sorted [OF this] show ?thesis
    unfolding merge_paused_def a_merge_paused_def Let_def ps_def [symmetric] by simp
qed

text \<open>The rules of the specification are what the functions of the code compute.\<close>

lemma a_merge_code:
  "a_merge base a b =
     \<lparr>av_entities = merge_maps Pointers (av_entities base) (av_entities a) (av_entities b),
      av_proposed = merge_set (av_proposed base) (av_proposed a) (av_proposed b),
      av_claims = merge_maps Pointers (av_claims base) (av_claims a) (av_claims b),
      av_caps = merge_set (av_caps base) (av_caps a) (av_caps b),
      av_revoked = av_revoked base \<union> av_revoked a \<union> av_revoked b,
      av_tombstoned = av_tombstoned base \<union> av_tombstoned a \<union> av_tombstoned b,
      av_lines = (\<lambda>l. merge_line_opt (av_lines base l) (av_lines a l) (av_lines b l)),
      av_roots = merge_set (av_roots base) (av_roots a) (av_roots b),
      av_owners = merge_set (av_owners base) (av_owners a) (av_owners b),
      av_deployed = (\<lambda>t. merge_deployed_opt (av_deployed base t) (av_deployed a t) (av_deployed b t)),
      av_paused = merge_paused (av_paused a) (av_paused b)\<rparr>"
  by (simp add: a_merge_def merge_maps_def merge_value_three_way merge_line_opt_spec merge_deployed_spec merge_paused_spec)

lemma merge_maps_set:
  "merge_maps SetPolicy (set_map B) (set_map A) (set_map A') = set_map (merge_set B A A')"
  by (auto simp: merge_maps_def merge_value_def set_map_def merge_set_def fun_eq_iff)

lemma merge_set_vec_rep:
  assumes "sorted_set base B" and "sorted_set a A" and "sorted_set b A'"
  shows "sorted_set (merge_set_vec base a b) (merge_set B A A')"
  using assms by (auto simp: sorted_set_def merge_set_vec_def merge_set_def sorted_wrt_filter Let_def)

lemma fold_bt_insert:
  "bt_ok out \<Longrightarrow> bt_ok (fold (\<lambda>k out. case g k of None \<Rightarrow> out | Some v \<Rightarrow> bt_insert k v out) ks out) \<and>
   map_of (fold (\<lambda>k out. case g k of None \<Rightarrow> out | Some v \<Rightarrow> bt_insert k v out) ks out) =
     (\<lambda>k. if k \<in> set ks \<and> g k \<noteq> None then g k else map_of out k)"
  by (induction ks arbitrary: out) (auto split: option.splits simp: fun_eq_iff)

lemma merge_btree_rep:
  assumes "f None None None = None"
  shows "bt_ok (merge_btree f base a b)"
    and "map_of (merge_btree f base a b) = (\<lambda>k. f (map_of base k) (map_of a k) (map_of b k))"
proof -
  let ?ks = "btree_list (map fst base @ map fst a @ map fst b)"
  have "f (map_of base k) (map_of a k) (map_of b k) = None" if "k \<notin> set ?ks" for k
  proof -
    from that have "map_of base k = None" "map_of a k = None" "map_of b k = None"
      by (auto simp: map_of_eq_None_iff)
    with assms show ?thesis by simp
  qed
  then show "map_of (merge_btree f base a b) = (\<lambda>k. f (map_of base k) (map_of a k) (map_of b k))"
    using fold_bt_insert [of "[]" "\<lambda>k. f (map_of base k) (map_of a k) (map_of b k)" ?ks]
    unfolding merge_btree_def by (auto simp: fun_eq_iff)
  show "bt_ok (merge_btree f base a b)"
    unfolding merge_btree_def by (rule conjunct1 [OF fold_bt_insert]) simp
qed

lemma entries_keys:
  assumes "root_rep (node_get h) s N i m" and "N \<le> 64"
  shows "\<exists>es. trie_entries (node_get h) trie_fuel s i = Inr es \<and> fst ` set es = dom m \<and>
    sorted_wrt (<) (map fst es) \<and> map_of es = m"
  using ot.entries_correct [OF assms(1), of trie_fuel] assms(2)
  by (auto simp: trie_fuel_def dom_map_of_conv_image_fst)

lemma collect_keys:
  assumes "list_all2 (root_rep (node_get h) s N) roots ms" and "N \<le> 64"
  shows "\<exists>all. rfold (\<lambda>r all. rbind (trie_entries (node_get h) trie_fuel s r) (\<lambda>es. Inr (all @ map fst es)))
      roots acc = Inr all \<and> set all = set acc \<union> (\<Union>m \<in> set ms. dom m)"
  using assms(1)
proof (induction arbitrary: acc rule: list_all2_induct)
  case (Cons r roots m ms)
  obtain es where es: "trie_entries (node_get h) trie_fuel s r = Inr es" "fst ` set es = dom m"
    using entries_keys [OF Cons.hyps(1) assms(2)] by blast
  from Cons.IH [of "acc @ map fst es"] es show ?case by auto
qed simp

lemma insert_all:
  assumes "collision_free h"
  shows "objs_ok h s \<Longrightarrow> root_rep (node_get h) s N i (set_map A) \<Longrightarrow> \<forall>k \<in> set ks. 2 * length k = N \<Longrightarrow>
    \<exists>s' j. rfold (\<lambda>k (s, out). set_insert h s out k TSet) ks (s, i) = Inr (s', j) \<and> step_ok h s s' \<and>
      root_rep (node_get h) s' N j (set_map (A \<union> set ks))"
proof (induction ks arbitrary: s i A)
  case (Cons k ks)
  obtain s1 i1 where 1: "set_insert h s i k TSet = Inr (s1, i1)" "step_ok h s s1"
    "root_rep (node_get h) s1 N i1 (set_map (insert k A))"
    using set_insert_correct [OF assms Cons.prems(1,2), of k TSet] Cons.prems(3) by (auto simp: set_map_insert)
  from Cons.IH [OF _ 1(3)] 1(2) Cons.prems(3) obtain s2 j where
    2: "rfold (\<lambda>k (s, out). set_insert h s out k TSet) ks (s1, i1) = Inr (s2, j)" "step_ok h s1 s2"
       "root_rep (node_get h) s2 N j (set_map (insert k A \<union> set ks))" by auto
  have "step_ok h s s2" using 1(2) 2(2) by (auto intro: kept_trans extends_trans)
  with 1(1) 2 show ?case by auto
qed simp

lemma union_sets_correct:
  assumes "collision_free h" and "objs_ok h s" and "list_all2 (root_rep (node_get h) s N) roots ms"
    and "0 < N" and "N \<le> 64"
  shows "\<exists>s' j. union_sets h s roots = Inr (s', j) \<and> step_ok h s s' \<and>
    root_rep (node_get h) s' N j (set_map (\<Union>m \<in> set ms. dom m))"
proof -
  from collect_keys [OF assms(3,5), of "[]"] obtain all where
    all: "rfold (\<lambda>r all. rbind (trie_entries (node_get h) trie_fuel s r) (\<lambda>es. Inr (all @ map fst es))) roots [] = Inr all"
      "set all = (\<Union>m \<in> set ms. dom m)" by auto
  have keys: "2 * length k = N" if "k \<in> set all" for k
  proof -
    from that all(2) obtain m where m: "m \<in> set ms" "k \<in> dom m" by blast
    with assms(3) obtain r where "root_rep (node_get h) s N r m"
      by (metis in_set_conv_nth list_all2_conv_all_nth)
    then have "dom m \<subseteq> below N []" by (auto simp: root_rep_def dest: node_rep_dom)
    with m(2) show ?thesis by (auto simp: below_Nil)
  qed
  from ot.empty_correct [OF assms(1,2,4)] obtain s1 i where
    1: "empty_root (node_put h) s = Inr (s1, i)" "step_ok h s s1" "root_rep (node_get h) s1 N i Map.empty" by blast
  have "root_rep (node_get h) s1 N i (set_map {})" using 1(3) by (simp add: set_map_def)
  from insert_all [OF assms(1) _ this, of "btree_list all"] 1(2) keys obtain s2 j where
    2: "rfold (\<lambda>k (s, out). set_insert h s out k TSet) (btree_list all) (s1, i) = Inr (s2, j)" "step_ok h s1 s2"
       "root_rep (node_get h) s2 N j (set_map (set all))" by auto
  have "step_ok h s s2" using 1(2) 2(2) by (auto intro: kept_trans extends_trans)
  with all 1(1) 2 show ?thesis by (simp add: union_sets_def)
qed

lemma merge_roots:
  assumes "collision_free h" and "objs_ok h s" and "root_rep (node_get h) s N base mb"
    and "root_rep (node_get h) s N a ma" and "root_rep (node_get h) s N b m2" and "N \<le> 64"
  obtains s' i where "merge3 (node_put h) (node_get h) trie_fuel s base a b pol = Inr (s', i)" and "step_ok h s s'"
    and "root_rep (node_get h) s' N i (merge_maps pol mb ma m2)"
proof -
  have "N < trie_fuel" using assms(6) by (simp add: trie_fuel_def)
  from ot.merge_correct [OF assms(1-5) this, of pol] that show thesis by blast
qed

lemma view_merge_refines_aux:
  assumes ok: "collision_free h" "objs_ok h s"
    and rep: "view_rep h s base avb" "view_rep h s a ava" "view_rep h s b av2"
  shows "refines h s (view_merge h s base a b) (Inr (a_merge avb ava av2))"
proof -
  note tb = view_rep_tries [OF rep(1)] and ta = view_rep_tries [OF rep(2)] and t2 = view_rep_tries [OF rep(3)]
  note up = root_rep_mono
  obtain s1 i1 where 1: "merge3 (node_put h) (node_get h) trie_fuel s (view_entities base) (view_entities a)
      (view_entities b) Pointers = Inr (s1, i1)" "step_ok h s s1"
    "root_rep (node_get h) s1 32 i1 (merge_maps Pointers (av_entities avb) (av_entities ava) (av_entities av2))"
    by (rule merge_roots [OF ok tb(1) ta(1) t2(1)]) simp_all
  have e1: "extends (node_get h) s s1" and o1: "objs_ok h s1" and k1: "kept s s1" using 1(2) by auto
  obtain s2 i2 where 2: "merge3 (node_put h) (node_get h) trie_fuel s1 (view_claims base) (view_claims a)
      (view_claims b) Pointers = Inr (s2, i2)" "step_ok h s1 s2"
    "root_rep (node_get h) s2 32 i2 (merge_maps Pointers (av_claims avb) (av_claims ava) (av_claims av2))"
    by (rule merge_roots [OF ok(1) o1 up [OF tb(3) e1] up [OF ta(3) e1] up [OF t2(3) e1]]) simp_all
  have e2: "extends (node_get h) s s2" and o2: "objs_ok h s2" and k2: "kept s s2"
    using 2(2) e1 k1 by (auto intro: extends_trans kept_trans)
  obtain s3 i3 where 3: "merge3 (node_put h) (node_get h) trie_fuel s2 (view_proposed base) (view_proposed a)
      (view_proposed b) SetPolicy = Inr (s3, i3)" "step_ok h s2 s3"
    "root_rep (node_get h) s3 64 i3 (set_map (merge_set (av_proposed avb) (av_proposed ava) (av_proposed av2)))"
    by (rule merge_roots [OF ok(1) o2 up [OF tb(2) e2] up [OF ta(2) e2] up [OF t2(2) e2], of SetPolicy])
      (simp_all add: merge_maps_set)
  have e3: "extends (node_get h) s s3" and o3: "objs_ok h s3" and k3: "kept s s3"
    using 3(2) e2 k2 by (auto intro: extends_trans kept_trans)
  obtain s4 i4 where 4: "merge3 (node_put h) (node_get h) trie_fuel s3 (view_caps base) (view_caps a)
      (view_caps b) SetPolicy = Inr (s4, i4)" "step_ok h s3 s4"
    "root_rep (node_get h) s4 64 i4 (set_map (merge_set (av_caps avb) (av_caps ava) (av_caps av2)))"
    by (rule merge_roots [OF ok(1) o3 up [OF tb(4) e3] up [OF ta(4) e3] up [OF t2(4) e3], of SetPolicy])
      (simp_all add: merge_maps_set)
  have e4: "extends (node_get h) s s4" and o4: "objs_ok h s4" and k4: "kept s s4"
    using 4(2) e3 k3 by (auto intro: extends_trans kept_trans)
  from union_sets_correct [OF ok(1) o4, of 32 "[view_revoked base, view_revoked a, view_revoked b]"
      "[set_map (av_revoked avb), set_map (av_revoked ava), set_map (av_revoked av2)]"]
    up [OF tb(5) e4] up [OF ta(5) e4] up [OF t2(5) e4]
  obtain s5 i5 where 5: "union_sets h s4 [view_revoked base, view_revoked a, view_revoked b] = Inr (s5, i5)"
    "step_ok h s4 s5" "root_rep (node_get h) s5 32 i5 (set_map (av_revoked avb \<union> av_revoked ava \<union> av_revoked av2))"
    by (auto simp: Un_assoc)
  have e5: "extends (node_get h) s s5" and o5: "objs_ok h s5" and k5: "kept s s5"
    using 5(2) e4 k4 by (auto intro: extends_trans kept_trans)
  from union_sets_correct [OF ok(1) o5, of 64 "[view_tombstoned base, view_tombstoned a, view_tombstoned b]"
      "[set_map (av_tombstoned avb), set_map (av_tombstoned ava), set_map (av_tombstoned av2)]"]
    up [OF tb(6) e5] up [OF ta(6) e5] up [OF t2(6) e5]
  obtain s6 i6 where 6: "union_sets h s5 [view_tombstoned base, view_tombstoned a, view_tombstoned b] = Inr (s6, i6)"
    "step_ok h s5 s6"
    "root_rep (node_get h) s6 64 i6 (set_map (av_tombstoned avb \<union> av_tombstoned ava \<union> av_tombstoned av2))"
    by (auto simp: Un_assoc)
  have g6: "step_ok h s s6" using 6(2) e5 k5 by (auto intro: extends_trans kept_trans)
  have x5: "extends (node_get h) s5 s6" using 6(2) by simp
  have x4: "extends (node_get h) s4 s6" using 5(2) extends_trans [OF _ x5] by blast
  have x3: "extends (node_get h) s3 s6" using 4(2) extends_trans [OF _ x4] by blast
  have x2: "extends (node_get h) s2 s6" using 3(2) extends_trans [OF _ x3] by blast
  have x1: "extends (node_get h) s1 s6" using 2(2) extends_trans [OF _ x2] by blast
  note roots = up [OF 1(3) x1] up [OF 2(3) x2] up [OF 3(3) x3] up [OF 4(3) x4] up [OF 5(3) x5] 6(3)
  have lines: "merge_line_opt None None None = None" and dep: "merge_deployed_opt None None None = None"
    by (simp_all add: merge_deployed_opt_def)
  show ?thesis
    using tb(7) ta(7) t2(7) roots g6
    by (simp add: view_merge_def 1(1) 2(1) 3(1) 4(1) 5(1) 6(1) refines_def view_rep_def tries_rep_def rest_rep_def
        nibs_defs a_merge_code merge_btree_rep [of merge_line_opt, OF lines] merge_btree_rep [of merge_deployed_opt, OF dep] merge_set_vec_rep)
qed

end
