(* ===== verification/View_Props.thy ===== *)
theory View_Props
  imports View_Spec Sample
begin

text \<open>
  The properties of views: effects and merges compute their specification, revocation and redaction
  are permanent, merging does not depend on which side is which, and where it does.
\<close>

section \<open>Samples\<close>

definition sample_view :: view where
  "sample_view = \<lparr>view_entities = sample_root, view_proposed = sample_root, view_claims = sample_root,
     view_caps = sample_root, view_revoked = sample_root, view_tombstoned = sample_root,
     view_lines = [], view_roots = [], view_owners = [], view_deployed = [], view_paused = None\<rparr>"

lemma set_map_empty [simp]: "set_map {} = Map.empty"
  by (simp add: set_map_def)

lemma set_map_ex [simp]: "(\<exists>y. set_map A k = Some y) \<longleftrightarrow> k \<in> A"
  by (simp add: set_map_def)

lemma sorted_set_single: "sorted_set xs {x} \<longleftrightarrow> xs = [x]"
  using sorted_set_unique [of xs "{x}" "[x]"] by (auto simp: sorted_set_def)

lemma view_rep_empty:
  assumes "root_rep (node_get h) s 32 i Map.empty" and "root_rep (node_get h) s 64 i Map.empty"
  shows "view_rep h s \<lparr>view_entities = i, view_proposed = i, view_claims = i, view_caps = i, view_revoked = i,
    view_tombstoned = i, view_lines = [], view_roots = [], view_owners = [], view_deployed = [],
    view_paused = None\<rparr> a_empty"
  using assms by (simp add: view_rep_def tries_rep_def rest_rep_def a_empty_def nibs_defs sorted_set_def)

lemma sample_view_rep: "view_rep sample_hash sample_store sample_view a_empty"
  unfolding sample_view_def by (rule view_rep_empty) (simp_all add: sample_root_rep)

lemma view_empty_rep:
  assumes "collision_free h" and "objs_ok h s"
  shows "\<exists>s' v. view_empty h s = Inr (s', v) \<and> step_ok h s s' \<and> view_rep h s' v a_empty"
proof -
  from ot.empty_correct [OF assms, of 32] obtain s1 i where
    1: "empty_root (node_put h) s = Inr (s1, i)" "step_ok h s s1" "root_rep (node_get h) s1 32 i Map.empty" by auto
  from 1(3) obtain nd where nd: "node_get h s1 i = Inr nd" "node_rep (node_get h) s1 32 [] nd Map.empty"
    by (auto simp: root_rep_def)
  have "nd = node_empty"
  proof -
    have "node_rep (node_get h) s1 32 [] node_empty Map.empty" by (rule node_rep_empty) simp
    from node_rep_canonical [of "node_get h" s1 s1, OF _ nd(2) this] ot.get_addr [OF assms(1), of s1] 1(2)
    show ?thesis by metis
  qed
  with nd(1) have "root_rep (node_get h) s1 64 i Map.empty" by (simp add: root_rep_empty)
  from view_rep_empty [OF 1(3) this] 1 show ?thesis by (auto simp: view_empty_def)
qed

section \<open>Effects\<close>

text \<open>C6: applying effects refines the effects of the specification: on a view that stands for an
  abstract view the code returns the error of the specification when a head names an unknown line
  without an id, and otherwise a view that stands for the abstract view with all effects applied in
  order.\<close>

theorem apply_effects_refines:
  assumes "collision_free h" and "objs_ok h s" and "view_rep h s v av" and "\<forall>e \<in> set effs. effect_ids_ok e"
  shows "refines h s (apply_effects h s v effs op) (a_effects op effs av)"
  using assms by (rule apply_effects_refines_aux)

definition sample_effects :: "effect list" where
  "sample_effects = [ERoot ''src'', EOwner (sample_key 1), EPoint (sample_key 1) [5] None,
     EHead ''main'' [7] None 0 [] (Some (sample_key 9))]"

theorem apply_effects_refines_witness:
  "\<exists>s v. apply_effects sample_hash sample_store sample_view sample_effects None = Inr (s, v) \<and>
     view_owners v = [sample_key 1] \<and>
     map_option ls_coordinator (map_of (view_lines v) ''main'') = Some (sample_key 1)"
proof -
  have "refines sample_hash sample_store (apply_effects sample_hash sample_store sample_view sample_effects None)
      (a_effects None sample_effects a_empty)"
    by (rule apply_effects_refines [OF collision_free_sample sample_store_ok sample_view_rep])
      (simp add: sample_effects_def)
  moreover obtain av where "a_effects None sample_effects a_empty = Inr av" "av_owners av = {sample_key 1}"
    "map_option ls_coordinator (av_lines av ''main'') = Some (sample_key 1)"
    by (simp add: a_effects_def sample_effects_def a_empty_def a_head_def a_first_owner_def)
  ultimately obtain s v where "apply_effects sample_hash sample_store sample_view sample_effects None = Inr (s, v)"
    "view_rep sample_hash s v av" by (auto simp: refines_def)
  with \<open>av_owners av = {sample_key 1}\<close> \<open>map_option ls_coordinator (av_lines av ''main'') = Some (sample_key 1)\<close>
  show ?thesis by (auto simp: view_rep_def rest_rep_def sorted_set_single)
qed

lemma a_effect_keeps:
  "a_effect op e av = Inr av' \<Longrightarrow> av_revoked av \<subseteq> av_revoked av' \<and> av_tombstoned av \<subseteq> av_tombstoned av'"
  by (cases e) (auto simp: a_head_def a_pause_def a_resume_def Let_def split: option.splits)

lemma a_effects_keep:
  "a_effects op effs av = Inr av' \<Longrightarrow> av_revoked av \<subseteq> av_revoked av' \<and> av_tombstoned av \<subseteq> av_tombstoned av'"
proof (induction effs arbitrary: av)
  case (Cons e effs)
  then obtain av1 where "a_effect op e av = Inr av1" "a_effects op effs av1 = Inr av'"
    by (auto simp: a_effects_def result_simps)
  with Cons.IH a_effect_keeps show ?case by blast
qed (simp add: a_effects_def)

lemma principal_revoked_rep: "view_rep h s v av \<Longrightarrow> principal_revoked h s v p = Inr (p \<in> av_revoked av)"
  using trie_get_correct [of "node_get h" s eid_nibs "view_revoked v" "set_map (av_revoked av)" p]
  by (simp add: principal_revoked_def view_rep_def tries_rep_def)

lemma tombstoned_rep: "view_rep h s v av \<Longrightarrow> in_set h s (view_tombstoned v) i = Inr (i \<in> av_tombstoned av)"
  using trie_get_correct [of "node_get h" s oid_nibs "view_tombstoned v" "set_map (av_tombstoned av)" i]
  by (simp add: in_set_def view_rep_def tries_rep_def)

lemma caps_rep: "view_rep h s v av \<Longrightarrow> in_set h s (view_caps v) i = Inr (i \<in> av_caps av)"
  using trie_get_correct [of "node_get h" s oid_nibs "view_caps v" "set_map (av_caps av)" i]
  by (simp add: in_set_def view_rep_def tries_rep_def)

lemma view_entity_rep:
  "view_rep h s v av \<Longrightarrow> view_entity h s v i = Inr (Option.bind (av_entities av i) pointer_from_trie)"
  using trie_get_correct [of "node_get h" s eid_nibs "view_entities v" "av_entities av" i]
  by (simp add: view_entity_def view_rep_def tries_rep_def)

lemma view_claim_rep:
  "view_rep h s v av \<Longrightarrow> view_claim h s v i = Inr (Option.bind (av_claims av i) pointer_from_trie)"
  using trie_get_correct [of "node_get h" s eid_nibs "view_claims v" "av_claims av" i]
  by (simp add: view_claim_def view_rep_def tries_rep_def)

lemma sample_revoked:
  "\<exists>s v av. objs_ok sample_hash s \<and> view_rep sample_hash s v av \<and> sample_key 3 \<in> av_revoked av \<and>
     view_rep sample_hash s sample_view a_empty"
proof -
  have "refines sample_hash sample_store (apply_effects sample_hash sample_store sample_view [ERevoke (sample_key 3)] None)
      (a_effects None [ERevoke (sample_key 3)] a_empty)"
    by (rule apply_effects_refines_aux [OF collision_free_sample sample_store_ok sample_view_rep]) simp
  then obtain s v av where 1: "step_ok sample_hash sample_store s" "view_rep sample_hash s v av" "sample_key 3 \<in> av_revoked av"
    by (auto simp: refines_def a_effects_def a_empty_def)
  have "view_rep sample_hash s sample_view a_empty"
    by (rule view_rep_mono [OF sample_view_rep]) (use 1(1) in simp)
  with 1 show ?thesis by blast
qed

text \<open>C26: revocation and redaction are permanent: no effect takes a principal out of the revoked set or
  an object out of the tombstoned set.\<close>

theorem effects_never_unrevoke:
  assumes "collision_free h" and "objs_ok h s" and "view_rep h s v av" and "\<forall>e \<in> set effs. effect_ids_ok e"
    and "apply_effects h s v effs op = Inr (s', v')"
  shows "(principal_revoked h s v p = Inr True \<longrightarrow> principal_revoked h s' v' p = Inr True) \<and>
    (in_set h s (view_tombstoned v) i = Inr True \<longrightarrow> in_set h s' (view_tombstoned v') i = Inr True)"
proof -
  from apply_effects_refines_aux [OF assms(1-4), of op] assms(5) obtain av' where
    a: "a_effects op effs av = Inr av'" "view_rep h s' v' av'"
    by (auto simp: refines_def split: sum.splits)
  with a_effects_keep [OF a(1)] principal_revoked_rep tombstoned_rep assms(3) show ?thesis by auto
qed

theorem effects_never_unrevoke_witness:
  "\<exists>s v s' v'. principal_revoked sample_hash s v (sample_key 3) = Inr True \<and>
     apply_effects sample_hash s v [EUnpoint (sample_key 3)] None = Inr (s', v') \<and>
     principal_revoked sample_hash s' v' (sample_key 3) = Inr True"
proof -
  from sample_revoked obtain s v av where
    1: "objs_ok sample_hash s" "view_rep sample_hash s v av" "sample_key 3 \<in> av_revoked av" by blast
  have "refines sample_hash s (apply_effects sample_hash s v [EUnpoint (sample_key 3)] None)
      (a_effects None [EUnpoint (sample_key 3)] av)"
    by (rule apply_effects_refines_aux [OF collision_free_sample 1(1,2)]) simp
  then obtain s' v' where 2: "apply_effects sample_hash s v [EUnpoint (sample_key 3)] None = Inr (s', v')"
    by (auto simp: refines_def a_effects_def)
  have "\<forall>e \<in> set [EUnpoint (sample_key 3)]. effect_ids_ok e" by simp
  from effects_never_unrevoke [OF collision_free_sample 1(1,2) this 2, of "sample_key 3"]
    principal_revoked_rep [OF 1(2), of "sample_key 3"] 1(3)
  have "principal_revoked sample_hash s v (sample_key 3) = Inr True"
    and "principal_revoked sample_hash s' v' (sample_key 3) = Inr True" by simp_all
  with 2 show ?thesis by blast
qed

section \<open>Merge\<close>



text \<open>A merged view has every revocation and every tombstone of the base and of both sides, even
  one that a side does not know of.\<close>

theorem merge_keeps_revocations:
  assumes "collision_free h" and "objs_ok h s" and "view_rep h s base avb" and "view_rep h s a ava"
    and "view_rep h s b av2" and "view_merge h s base a b = Inr (s', v)"
  shows "principal_revoked h s' v p =
      Inr (principal_revoked h s base p = Inr True \<or> principal_revoked h s a p = Inr True \<or>
           principal_revoked h s b p = Inr True)"
proof -
  from view_merge_refines_aux [OF assms(1-5)] assms(6) have "view_rep h s' v (a_merge avb ava av2)"
    by (simp add: refines_def)
  from principal_revoked_rep [OF this] principal_revoked_rep [OF assms(3)] principal_revoked_rep [OF assms(4)]
    principal_revoked_rep [OF assms(5)] show ?thesis by (auto simp: a_merge_code)
qed

theorem merge_keeps_revocations_witness:
  "\<exists>s v s' v'. principal_revoked sample_hash s v (sample_key 3) = Inr True \<and>
     view_merge sample_hash s sample_view v sample_view = Inr (s', v') \<and>
     principal_revoked sample_hash s' v' (sample_key 3) = Inr True"
proof -
  from sample_revoked obtain s v av where 1: "objs_ok sample_hash s" "view_rep sample_hash s v av"
    "sample_key 3 \<in> av_revoked av" "view_rep sample_hash s sample_view a_empty" by blast
  note ok = 1(1) and e = 1(4)
  from view_merge_refines_aux [OF collision_free_sample ok e 1(2) e] obtain s' v' where
    2: "view_merge sample_hash s sample_view v sample_view = Inr (s', v')" by (auto simp: refines_def)
  from merge_keeps_revocations [OF collision_free_sample ok e 1(2) e 2, of "sample_key 3"] 2
    principal_revoked_rep [OF 1(2), of "sample_key 3"] 1(3) show ?thesis by auto
qed

text \<open>Apart from lines and pauses the merge of views does not depend on which side is which:
  exchanging the sides gives the same roots of all six tries and the same roots, owners and
  deployments.\<close>

theorem view_merge_symmetric:
  assumes "collision_free h" and "objs_ok h s" and "view_rep h s base avb" and "view_rep h s a ava"
    and "view_rep h s b av2"
    and "view_merge h s base a b = Inr (s1, v1)" and "view_merge h s base b a = Inr (s2, v2)"
  shows "v1\<lparr>view_lines := [], view_paused := None\<rparr> = v2\<lparr>view_lines := [], view_paused := None\<rparr>"
proof -
  from view_merge_refines_aux [OF assms(1-5)] assms(6) have
    1: "objs_ok h s1" "view_rep h s1 v1 (a_merge avb ava av2)" by (auto simp: refines_def)
  from view_merge_refines_aux [OF assms(1-3,5,4)] assms(7) have
    2: "objs_ok h s2" "view_rep h s2 v2 (a_merge avb av2 ava)" by (auto simp: refines_def)
  have mm: "merge_maps pol mb ma m2 = merge_maps pol mb m2 ma" for pol mb ma m2
    by (simp add: merge_maps_def merge_value_commute)
  have ms: "merge_set B A A' = merge_set B A' A" for B A A' :: "'x set"
    by (auto simp: merge_set_def)
  have md: "merge_deployed_opt x y z = merge_deployed_opt x z y" for x y z
    by (auto simp: merge_deployed_opt_def min.commute split: option.splits)
  note same = ot.root_unique [OF assms(1) 1(1) 2(1)]
  note r1 = view_rep_tries [OF 1(2)] and r2 = view_rep_tries [OF 2(2)]
  have "view_entities v1 = view_entities v2"
    by (rule same [OF r1(1)]) (use r2(1) in \<open>simp add: a_merge_code mm [of _ _ "av_entities ava"]\<close>)
  moreover have "view_claims v1 = view_claims v2"
    by (rule same [OF r1(3)]) (use r2(3) in \<open>simp add: a_merge_code mm [of _ _ "av_claims ava"]\<close>)
  moreover have "view_proposed v1 = view_proposed v2"
    by (rule same [OF r1(2)]) (use r2(2) in \<open>simp add: a_merge_code ms [of _ "av_proposed ava"]\<close>)
  moreover have "view_caps v1 = view_caps v2"
    by (rule same [OF r1(4)]) (use r2(4) in \<open>simp add: a_merge_code ms [of _ "av_caps ava"]\<close>)
  moreover have "view_revoked v1 = view_revoked v2"
    by (rule same [OF r1(5)]) (use r2(5) in \<open>simp add: a_merge_code Un_ac\<close>)
  moreover have "view_tombstoned v1 = view_tombstoned v2"
    by (rule same [OF r1(6)]) (use r2(6) in \<open>simp add: a_merge_code Un_ac\<close>)
  moreover have "view_roots v1 = view_roots v2" and "view_owners v1 = view_owners v2"
    using r1(7) r2(7) by (auto simp: rest_rep_def a_merge_code ms [of _ "av_roots ava"] ms [of _ "av_owners ava"]
        intro: sorted_set_unique)
  moreover have "view_deployed v1 = view_deployed v2"
    using r1(7) r2(7) by (intro bt_ok_eqI) (auto simp: rest_rep_def a_merge_code md [of _ "av_deployed ava _"])
  ultimately show ?thesis by (simp add: view.equality)
qed

theorem view_merge_symmetric_witness:
  "\<exists>s v s1 v1 s2 v2. principal_revoked sample_hash s v (sample_key 3) = Inr True \<and>
     view_merge sample_hash s sample_view sample_view v = Inr (s1, v1) \<and>
     view_merge sample_hash s sample_view v sample_view = Inr (s2, v2) \<and>
     v1\<lparr>view_lines := [], view_paused := None\<rparr> = v2\<lparr>view_lines := [], view_paused := None\<rparr>"
proof -
  from sample_revoked obtain s v av where 1: "objs_ok sample_hash s" "view_rep sample_hash s v av"
    "sample_key 3 \<in> av_revoked av" "view_rep sample_hash s sample_view a_empty" by blast
  note ok = 1(1) and e = 1(4)
  from view_merge_refines_aux [OF collision_free_sample ok e e 1(2)] obtain s1 v1 where
    m1: "view_merge sample_hash s sample_view sample_view v = Inr (s1, v1)" by (auto simp: refines_def)
  from view_merge_refines_aux [OF collision_free_sample ok e 1(2) e] obtain s2 v2 where
    m2: "view_merge sample_hash s sample_view v sample_view = Inr (s2, v2)" by (auto simp: refines_def)
  have "principal_revoked sample_hash s v (sample_key 3) = Inr True"
    using principal_revoked_rep [OF 1(2)] 1(3) by simp
  with view_merge_symmetric [OF collision_free_sample ok e e 1(2) m1 m2] m1 m2 show ?thesis by blast
qed

section \<open>Lines and pauses\<close>

text \<open>The merge of a line that the base has: its head is the side's that moved it, or the conflict
  holding the ids of both when both moved it differently, its sequence number is the larger one when
  both sides moved the line, and it is a side's coordinator.\<close>

theorem merge_existing_line:
  "\<exists>m. merge_line_opt (Some bs) (Some x) (Some y) = Some m \<and>
     (ls_head x = ls_head bs \<longrightarrow> ls_head m = ls_head y) \<and>
     (ls_head y = ls_head bs \<longrightarrow> ls_head m = ls_head x) \<and>
     (\<forall>p q. ls_head x \<noteq> ls_head bs \<and> ls_head y \<noteq> ls_head bs \<and> ls_head x \<noteq> ls_head y \<and>
        line_head x = Some p \<and> line_head y = Some q \<longrightarrow> ls_head m = pointer_to_value (pointer_union p q)) \<and>
     (x \<noteq> bs \<and> y \<noteq> bs \<longrightarrow> ls_seq m = max (ls_seq x) (ls_seq y)) \<and>
     ls_coordinator m \<in> {ls_coordinator x, ls_coordinator y} \<and> ls_id m \<in> {ls_id x, ls_id y}"
  by (auto simp: merge_line_def line_head_def min_def)

theorem merge_existing_line_witness:
  "merge_line_opt
     (Some \<lparr>ls_id = [9], ls_head = VBytes (replicate 32 1), ls_seq = 4, ls_coordinator = [8]\<rparr>)
     (Some \<lparr>ls_id = [9], ls_head = VBytes (replicate 32 2), ls_seq = 5, ls_coordinator = [8]\<rparr>)
     (Some \<lparr>ls_id = [9], ls_head = VBytes (replicate 32 3), ls_seq = 6, ls_coordinator = [7]\<rparr>) =
   Some \<lparr>ls_id = [9], ls_head = VMap [(VText ''conflict'', VArray [VBytes (replicate 32 2), VBytes (replicate 32 3)])],
         ls_seq = 6, ls_coordinator = [7]\<rparr>"
proof -
  let ?bs = "\<lparr>ls_id = [9], ls_head = VBytes (replicate 32 1), ls_seq = 4, ls_coordinator = [8]\<rparr>"
  let ?x = "\<lparr>ls_id = [9], ls_head = VBytes (replicate 32 2), ls_seq = 5, ls_coordinator = [8]\<rparr>"
  let ?y = "\<lparr>ls_id = [9], ls_head = VBytes (replicate 32 3), ls_seq = 6, ls_coordinator = [7]\<rparr>"
  have u: "pointer_union (PId (replicate 32 2)) (PId (replicate 32 3)) = PConflict [replicate 32 2, replicate 32 3]"
  proof -
    have "replicate (Suc 31) (2::u8) \<le> replicate (Suc 31) 3" by (simp only: replicate_Suc Cons_le_Cons) simp
    then have "replicate 32 (2::u8) \<le> replicate 32 3" by simp
    then show ?thesis by (simp add: pointer_union_def btree_list_def)
  qed
  have h: "line_head ?x = Some (PId (replicate 32 2))" "line_head ?y = Some (PId (replicate 32 3))"
    by (simp_all add: line_head_def pointer_from_value_def oid_from_slice_def)
  obtain m where "merge_line_opt (Some ?bs) (Some ?x) (Some ?y) = Some m"
    "ls_head m = pointer_to_value (pointer_union (PId (replicate 32 2)) (PId (replicate 32 3)))" "ls_seq m = 6"
    using merge_existing_line [of ?bs ?x ?y] h by (auto simp: max_def)
  moreover have "ls_coordinator (merge_line ?bs ?x ?y) = [7]" "ls_id (merge_line ?bs ?x ?y) = [9]"
    by (simp_all add: merge_line_def)
  ultimately show ?thesis by (simp add: u line_state.equality)
qed

text \<open>Two sides that create a line of one name at the same time do not conflict: the merge takes
  the head and the coordinator of the second side, and exchanging the sides exchanges the outcome.\<close>

theorem merge_new_line_takes_second:
  "\<exists>m. merge_line_opt None (Some x) (Some y) = Some m \<and> ls_head m = ls_head y \<and>
     ls_coordinator m = ls_coordinator y \<and> ls_seq m = max (ls_seq x) (ls_seq y)"
  by (auto simp: merge_line_def)

lemma sort_key_Nil_iff [simp]: "sort_key f xs = [] \<longleftrightarrow> xs = []"
  by (metis length_0_conv length_sort)

lemma dedup_scopes:
  "ps_scope ` set (fold (\<lambda>p out. if \<exists>q \<in> set out. ps_scope q = ps_scope p then out else out @ [p]) ps out) =
     ps_scope ` (set out \<union> set ps)"
proof (induction ps arbitrary: out)
  case (Cons p ps)
  have "ps_scope p \<in> ps_scope ` set out" if "\<exists>q \<in> set out. ps_scope q = ps_scope p"
  proof -
    from that obtain q where "q \<in> set out" "ps_scope p = ps_scope q" by auto
    then show ?thesis by (rule image_eqI [rotated])
  qed
  with Cons show ?case by auto
qed simp

definition paused_scopes :: "pause_state list option \<Rightarrow> string set" where
  "paused_scopes p = (case p of None \<Rightarrow> {} | Some l \<Rightarrow> ps_scope ` set l)"

lemma paused_scopes_sorted:
  "paused_scopes (if sort_key f l = [] then None else Some (sort_key f l)) = ps_scope ` set l"
  by (cases l) (simp_all add: paused_scopes_def del: sort_key_simps)

lemma merge_paused_scopes: "paused_scopes (merge_paused p q) = paused_scopes p \<union> paused_scopes q"
  unfolding merge_paused_def Let_def paused_scopes_sorted
  by (auto simp: dedup_scopes paused_scopes_def image_Un split: option.splits)

text \<open>A merged view is paused for exactly the scopes that one of the two sides is paused for. The
  base plays no part, so when one side resumed a scope that the base and the other side have paused,
  the merge pauses it again.\<close>

theorem merge_pauses_either_side:
  assumes "view_merge h s base a b = Inr (s', v)"
  shows "paused_scopes (view_paused v) = paused_scopes (view_paused a) \<union> paused_scopes (view_paused b)"
proof -
  from assms have "view_paused v = merge_paused (view_paused a) (view_paused b)"
    by (auto simp: view_merge_def result_simps)
  then show ?thesis by (simp add: merge_paused_scopes)
qed

theorem merge_pauses_either_side_witness:
  "\<exists>s' v. view_merge sample_hash sample_store
      (sample_view\<lparr>view_paused := Some [\<lparr>ps_scope = ''main'', ps_by = [1], ps_op = [2]\<rparr>]\<rparr>)
      (sample_view\<lparr>view_paused := Some [\<lparr>ps_scope = ''main'', ps_by = [1], ps_op = [2]\<rparr>]\<rparr>)
      sample_view = Inr (s', v) \<and> paused_scopes (view_paused v) = {''main''}"
proof -
  let ?ps = "[\<lparr>ps_scope = ''main'', ps_by = [1], ps_op = [2]\<rparr>]"
  let ?p = "sample_view\<lparr>view_paused := Some ?ps\<rparr>"
  have p: "view_rep sample_hash sample_store ?p (a_empty\<lparr>av_paused := Some ?ps\<rparr>)"
    using sample_view_rep by (simp add: view_rep_def tries_rep_def rest_rep_def)
  from view_merge_refines_aux [OF collision_free_sample sample_store_ok p p sample_view_rep]
  obtain s' v where m: "view_merge sample_hash sample_store ?p ?p sample_view = Inr (s', v)"
    by (auto simp: refines_def)
  from merge_pauses_either_side [OF m] m show ?thesis
    by (auto simp: paused_scopes_def sample_view_def)
qed

end
