(* ===== verification/Signatures.thy ===== *)
theory Signatures
  imports Objects
begin

text \<open>
  Signatures: \<open>crates/tessra-core/src/sig.rs\<close>, and what else the operation log takes from outside.

  \<open>ext\<close> gathers the third-party functions and the local reads that the code of the operation log uses:
  the id of an object and its canonical bytes (\<open>Cbor.encode\<close> over the derived serde code), what the bytes
  of a blob read as when they are taken for an object (\<open>Cbor.peek_tag\<close> and \<open>Cbor.decode\<close>), BLAKE3, the
  Ed25519 operations of ed25519-dalek, the metadata of the store under the key of a snapshot's index,
  and the conversion of a float to permille. A message signed is the tagged hash of the bytes of the
  object with its signature removed.
\<close>

record ext =
  ext_hash :: "obj \<Rightarrow> oid"
  ext_bytes :: "obj \<Rightarrow> bytes res"
  ext_blake :: "bytes \<Rightarrow> bytes"
  ext_key_valid :: "bytes \<Rightarrow> bool"
  ext_key_weak :: "bytes \<Rightarrow> bool"
  ext_verify_strict :: "bytes \<Rightarrow> bytes \<Rightarrow> bytes \<Rightarrow> bool"
  ext_sign :: "bytes \<Rightarrow> bytes \<Rightarrow> bytes"
  ext_public :: "bytes \<Rightarrow> bytes"
  ext_peek :: "bytes \<Rightarrow> string res"
  ext_decode :: "bytes \<Rightarrow> obj res"
  ext_index_meta :: "oid \<Rightarrow> bytes option"
  ext_permille :: "64 word \<Rightarrow> int"

definition key_from_slice :: "bytes \<Rightarrow> bytes res" where
  "key_from_slice v = (if length v \<noteq> 32 then Inl IdErr else Inr v)"

definition signing_message :: "ext \<Rightarrow> string \<Rightarrow> bytes \<Rightarrow> bytes" where
  "signing_message x tag payload = ext_blake x (ascii ''tessra:sig:'' @ ascii tag @ [10] @ payload)"

definition key_sign :: "ext \<Rightarrow> bytes \<Rightarrow> string \<Rightarrow> bytes \<Rightarrow> bytes" where
  "key_sign x sk tag payload = ext_sign x sk (signing_message x tag payload)"

definition key_verify :: "ext \<Rightarrow> bytes \<Rightarrow> string \<Rightarrow> bytes \<Rightarrow> bytes \<Rightarrow> unit res" where
  "key_verify x key tag payload sig =
     rbind (ensure (ext_key_valid x key) Signature) (\<lambda>_.
     rbind (ensure (\<not> ext_key_weak x key) Signature) (\<lambda>_.
     ensure (ext_verify_strict x key (signing_message x tag payload) sig) Signature))"

text \<open>The types with a \<open>sig\<close> field.\<close>

fun obj_sig :: "obj \<Rightarrow> bytes option" where
  "obj_sig (OAttestation a) = att_sig a"
| "obj_sig (OPrincipal p) = prin_sig p"
| "obj_sig (OCapability c) = cap_sig c"
| "obj_sig (OManifest n) = man_sig n"
| "obj_sig (ORelease r) = rel_sig r"
| "obj_sig (OOp p) = op_sig p"
| "obj_sig (OAnchor a) = anc_sig a"
| "obj_sig _ = None"

fun set_sig :: "bytes option \<Rightarrow> obj \<Rightarrow> obj" where
  "set_sig g (OAttestation a) = OAttestation (a\<lparr>att_sig := g\<rparr>)"
| "set_sig g (OPrincipal p) = OPrincipal (p\<lparr>prin_sig := g\<rparr>)"
| "set_sig g (OCapability c) = OCapability (c\<lparr>cap_sig := g\<rparr>)"
| "set_sig g (OManifest n) = OManifest (n\<lparr>man_sig := g\<rparr>)"
| "set_sig g (ORelease r) = ORelease (r\<lparr>rel_sig := g\<rparr>)"
| "set_sig g (OOp p) = OOp (p\<lparr>op_sig := g\<rparr>)"
| "set_sig g (OAnchor a) = OAnchor (a\<lparr>anc_sig := g\<rparr>)"
| "set_sig g x = x"

definition obj_payload :: "ext \<Rightarrow> obj \<Rightarrow> bytes res" where
  "obj_payload x o' = ext_bytes x (set_sig None o')"

definition sign_with :: "ext \<Rightarrow> bytes \<Rightarrow> obj \<Rightarrow> obj res" where
  "sign_with x sk o' =
     rbind (obj_payload x o') (\<lambda>payload. Inr (set_sig (Some (key_sign x sk (obj_tag o') payload)) o'))"

definition verify_with :: "ext \<Rightarrow> obj \<Rightarrow> bytes \<Rightarrow> unit res" where
  "verify_with x o' key =
     rbind (of_opt Signature (obj_sig o')) (\<lambda>sig.
     rbind (obj_payload x o') (\<lambda>payload.
     key_verify x key (obj_tag o') payload sig))"

text \<open>
  Reading the bytes of an object without its id: the tag first, then the content. For a structured
  object these are its own tag and content; the bytes of a blob may be anything.
\<close>

definition peek_obj :: "ext \<Rightarrow> obj \<Rightarrow> string res" where
  "peek_obj x y = (case y of OBlob b \<Rightarrow> ext_peek x b | _ \<Rightarrow> Inr (obj_tag y))"

definition decode_obj :: "ext \<Rightarrow> (obj \<Rightarrow> 'a option) \<Rightarrow> obj \<Rightarrow> 'a res" where
  "decode_obj x sel y =
     (case y of
        OBlob b \<Rightarrow> rbind (ext_decode x b) (\<lambda>z. of_opt Decode (sel z))
      | _ \<Rightarrow> of_opt Decode (sel y))"

section \<open>Signing and verifying\<close>

lemma obj_tag_set_sig [simp]: "obj_tag (set_sig g x) = obj_tag x"
  by (cases x) simp_all

lemma set_sig_set_sig [simp]: "set_sig g (set_sig g' x) = set_sig g x"
  by (cases x) simp_all

lemma obj_payload_set_sig [simp]: "obj_payload x (set_sig g y) = obj_payload x y"
  by (simp add: obj_payload_def)

definition signable :: "obj \<Rightarrow> bool" where
  "signable x \<longleftrightarrow> obj_sig (set_sig (Some []) x) \<noteq> None"

lemma obj_sig_set_sig: "signable x \<Longrightarrow> obj_sig (set_sig g x) = g"
  by (cases x) (simp_all add: signable_def)

lemma verify_with_iff:
  "verify_with x y key = Inr () \<longleftrightarrow>
     (\<exists>sig payload. obj_sig y = Some sig \<and> ext_bytes x (set_sig None y) = Inr payload \<and>
        ext_key_valid x key \<and> \<not> ext_key_weak x key \<and>
        ext_verify_strict x key (signing_message x (obj_tag y) payload) sig)"
  by (auto simp: verify_with_def key_verify_def obj_payload_def result_simps)

text \<open>What was signed verifies: an object signed with a key verifies under the public key, for every
  signed type, whatever signature it carried before, given that the third-party signature scheme accepts
  its own signatures and the key is a valid, not weak one.\<close>

theorem sign_then_verify:
  assumes "\<And>m. ext_verify_strict x (ext_public x sk) m (ext_sign x sk m)"
    and "ext_key_valid x (ext_public x sk)" and "\<not> ext_key_weak x (ext_public x sk)"
    and "signable y" and "sign_with x sk y = Inr z"
  shows "verify_with x z (ext_public x sk) = Inr () \<and> set_sig None z = set_sig None y"
  using assms by (auto simp: sign_with_def verify_with_iff result_simps obj_sig_set_sig key_sign_def obj_payload_def)

definition sample_ext :: ext where
  "sample_ext = \<lparr>ext_hash = (\<lambda>x. []), ext_bytes = (\<lambda>x. Inr (ascii (obj_tag x))), ext_blake = id,
     ext_key_valid = (\<lambda>k. True), ext_key_weak = (\<lambda>k. k = []),
     ext_verify_strict = (\<lambda>k m sig. sig = k @ m), ext_sign = (\<lambda>sk m. sk @ m), ext_public = id,
     ext_peek = (\<lambda>b. Inl Decode), ext_decode = (\<lambda>b. Inl Decode),
     ext_index_meta = (\<lambda>i. None), ext_permille = (\<lambda>f. 0)\<rparr>"

definition sample_anchor :: anchor where
  "sample_anchor = \<lparr>anc_heads = [], anc_by = [1], anc_time = 0, anc_sig = Some [9]\<rparr>"

theorem sign_then_verify_witness:
  "\<exists>z. sign_with sample_ext [7] (OAnchor sample_anchor) = Inr z \<and> verify_with sample_ext z [7] = Inr ()"
proof -
  obtain z where z: "sign_with sample_ext [7] (OAnchor sample_anchor) = Inr z"
    by (simp add: sign_with_def obj_payload_def sample_ext_def)
  have "signable (OAnchor sample_anchor)" by (simp add: signable_def)
  with sign_then_verify [of sample_ext "[7]" "OAnchor sample_anchor" z] z show ?thesis
    by (simp add: sample_ext_def)
qed

text \<open>A signature covers the type and the content: under a hash without collisions two signed
  objects have one signed message only when they have the same tag and the same bytes without their
  signatures.\<close>

theorem signed_message_separates:
  assumes "inj (ext_blake x)" and "CHR 0x0A \<notin> set tag" and "CHR 0x0A \<notin> set tag'"
    and "signing_message x tag payload = signing_message x tag' payload'"
  shows "tag = tag' \<and> payload = payload'"
proof -
  from assms(1,4) have "ascii tag @ 10 # payload = ascii tag' @ 10 # payload'"
    by (simp add: signing_message_def inj_eq)
  moreover have "10 \<notin> set (ascii tag)" and "10 \<notin> set (ascii tag')"
    using newline_in_ascii assms(2,3) by blast+
  ultimately have "ascii tag = ascii tag' \<and> payload = payload'" by (rule sep_unique)
  then show ?thesis using inj_ascii by (auto dest: injD)
qed

theorem signed_message_separates_witness:
  "signing_message sample_ext ''op'' [1] \<noteq> signing_message sample_ext ''principal'' [1]"
  using signed_message_separates [of sample_ext "''op''" "''principal''" "[1]" "[1]"]
  by (auto simp: sample_ext_def)

end
