(* ===== verification/Dag.thy ===== *)
theory Dag
  imports Search View_Props Signatures
begin

text \<open>
  The operation log as a graph: heads, ancestors, latest common ancestors, merged views,
  \<open>crates/tessra-oplog/src/dag.rs\<close>. \<open>accept\<close>, which calls the verifier, is in \<open>Oplog\<close>.

  The log keeps the store, the heads (a \<open>BTreeSet\<close>, a sorted list), the set of verified operations, the
  view each of them produced, and the idempotency index. A \<open>HashSet\<close> of ids is a list without
  duplicates; what is computed from it does not depend on its order.
\<close>

section \<open>State\<close>

record oplog =
  log_store :: objs
  log_heads :: "oid list"
  log_verified :: "oid set"
  log_views :: "oid \<rightharpoonup> oid"
  log_idem :: "eid \<times> bytes \<rightharpoonup> oid"

definition log_new :: "objs \<Rightarrow> oplog" where
  "log_new s = \<lparr>log_store = s, log_heads = [], log_verified = {}, log_views = Map.empty, log_idem = Map.empty\<rparr>"

definition idem_key :: "op \<Rightarrow> (eid \<times> bytes) option" where
  "idem_key p =
     (case map_of (op_args p) ''idem'' of
        Some (VBytes b) \<Rightarrow> if length b = 16 then Some (op_author p, b) else None
      | _ \<Rightarrow> None)"

definition get_op :: "ext \<Rightarrow> oplog \<Rightarrow> oid \<Rightarrow> op res" where
  "get_op x log i = obj_get (ext_hash x) as_op (log_store log) i"

text \<open>\<open>OpLog::open\<close>: every ancestor of the heads is taken as verified.\<close>

partial_function (option) open_loop :: "ext \<Rightarrow> oplog \<Rightarrow> oid list \<Rightarrow> oplog res option" where
  "open_loop x log queue =
     (case queue of
        [] \<Rightarrow> Some (Inr log)
      | i # rest \<Rightarrow>
          if i \<in> log_verified log then open_loop x log rest
          else (case get_op x log i of
                  Inl e \<Rightarrow> Some (Inl e)
                | Inr p \<Rightarrow>
                    open_loop x
                      (log\<lparr>log_views := (log_views log)(i \<mapsto> op_view p),
                           log_idem := (case idem_key p of
                               None \<Rightarrow> log_idem log
                             | Some k \<Rightarrow> (log_idem log)(k \<mapsto> i)),
                           log_verified := insert i (log_verified log)\<rparr>)
                      (rest @ op_parents p)))"

definition log_open :: "ext \<Rightarrow> objs \<Rightarrow> oid list \<Rightarrow> oplog res" where
  "log_open x s heads =
     rbind (returned (open_loop x (log_new s) heads)) (\<lambda>log. Inr (log\<lparr>log_heads := btree_list heads\<rparr>))"

section \<open>Queries\<close>

definition view_of :: "ext \<Rightarrow> oplog \<Rightarrow> oid \<Rightarrow> view res" where
  "view_of x log i =
     rbind (case log_views log i of
              Some v \<Rightarrow> Inr v
            | None \<Rightarrow> rbind (get_op x log i) (\<lambda>p. Inr (op_view p))) (\<lambda>vid.
     obj_get (ext_hash x) as_view (log_store log) vid)"

definition parents_of :: "ext \<Rightarrow> oplog \<Rightarrow> oid \<Rightarrow> oid list res" where
  "parents_of x log i = rbind (get_op x log i) (\<lambda>p. Inr (op_parents p))"

definition ancestors :: "ext \<Rightarrow> oplog \<Rightarrow> oid \<Rightarrow> oid list res" where
  "ancestors x log i = returned (bfs (parents_of x log) [] [i])"

text \<open>The intersection of the ancestors of all the operations, \<open>None\<close> when there are none.\<close>

definition common_ancestors :: "ext \<Rightarrow> oplog \<Rightarrow> oid list \<Rightarrow> oid list option res" where
  "common_ancestors x log ops =
     rfold (\<lambda>i common.
       rbind (ancestors x log i) (\<lambda>a.
       Inr (Some (case common of None \<Rightarrow> a | Some c \<Rightarrow> filter (\<lambda>j. j \<in> set a) c)))) ops None"

text \<open>Whatever is a proper ancestor of another common ancestor is taken out.\<close>

definition drop_older :: "ext \<Rightarrow> oplog \<Rightarrow> oid list \<Rightarrow> oid list res" where
  "drop_older x log common =
     rfold (\<lambda>c latest.
       rbind (ancestors x log c) (\<lambda>anc.
       Inr (filter (\<lambda>d. d = c \<or> d \<notin> set anc) latest))) common (btree_list common)"

definition lca :: "ext \<Rightarrow> oplog \<Rightarrow> oid list \<Rightarrow> oid option res" where
  "lca x log ops =
     (if ops = [] then Inr None
      else
        rbind (common_ancestors x log ops) (\<lambda>common.
        let common = (case common of None \<Rightarrow> [] | Some c \<Rightarrow> c)
        in if common = [] then Inr None
           else rbind (drop_older x log common) (\<lambda>latest.
                Inr (case latest of [] \<Rightarrow> None | i # _ \<Rightarrow> Some i))))"

section \<open>Merged views\<close>

text \<open>
  A merge writes trie nodes, so the store is threaded; the log itself does not change, only its store.
  One round of the fold: the base is the view of the latest common ancestor of everything folded so
  far and the next operation, or the empty view.
\<close>

definition merge_base :: "ext \<Rightarrow> oplog \<Rightarrow> objs \<Rightarrow> oid list \<Rightarrow> (objs \<times> view) res" where
  "merge_base x log s ops =
     rbind (lca x log ops) (\<lambda>b.
     case b of
       Some i \<Rightarrow> rbind (view_of x log i) (\<lambda>v. Inr (s, v))
     | None \<Rightarrow> view_empty (ext_hash x) s)"

fun merge_fold :: "ext \<Rightarrow> oplog \<Rightarrow> oid list \<Rightarrow> oid list \<Rightarrow> objs \<times> view \<Rightarrow> (objs \<times> view) res" where
  "merge_fold x log folded [] (s, acc) = Inr (s, acc)"
| "merge_fold x log folded (i # is) (s, acc) =
     rbind (merge_base x log s (folded @ [i])) (\<lambda>(s1, base).
     rbind (view_of x log i) (\<lambda>nv.
     rbind (view_merge (ext_hash x) s1 base acc nv) (\<lambda>(s2, acc').
     merge_fold x log (folded @ [i]) is (s2, acc'))))"

definition merged_view :: "ext \<Rightarrow> oplog \<Rightarrow> oid list \<Rightarrow> (objs \<times> view) res" where
  "merged_view x log ops =
     (case btree_list ops of
        [] \<Rightarrow> view_empty (ext_hash x) (log_store log)
      | [i] \<Rightarrow> rbind (view_of x log i) (\<lambda>v. Inr (log_store log, v))
      | i # is \<Rightarrow> rbind (view_of x log i) (\<lambda>acc. merge_fold x log [i] is (log_store log, acc)))"

definition current_view :: "ext \<Rightarrow> oplog \<Rightarrow> (objs \<times> view) res" where
  "current_view x log = merged_view x log (log_heads log)"

definition lookup_idem :: "oplog \<Rightarrow> eid \<Rightarrow> bytes \<Rightarrow> oid option" where
  "lookup_idem log author idem = log_idem log (author, idem)"

section \<open>Ancestry\<close>

text \<open>The ancestors of an operation, itself included.\<close>

definition anc :: "ext \<Rightarrow> oplog \<Rightarrow> oid \<Rightarrow> oid set" where
  "anc x log i = reached (parents_of x log) {i}"

lemma parents_of_dom: "parents_of x log i = Inr ps \<Longrightarrow> i \<in> dom (log_store log)"
  by (auto simp: parents_of_def get_op_def obj_get_Inr_iff result_simps)

text \<open>The ancestors of an operation are finitely many in a finite store, and when they stay in a finite set.\<close>

lemma finite_store_anc:
  assumes "finite (dom (log_store log))"
  shows "finite (anc x log i)"
proof -
  let ?U = "{i} \<union> (\<Union>i \<in> dom (log_store log). set (case parents_of x log i of Inl e \<Rightarrow> [] | Inr ps \<Rightarrow> ps))"
  have "set js \<subseteq> ?U" if "parents_of x log i = Inr js" for i js
    using parents_of_dom [OF that] that by (auto intro!: bexI [of _ i])
  then have "closed_under (parents_of x log) ?U" unfolding closed_under_def by blast
  then have "anc x log i \<subseteq> ?U" unfolding anc_def by (intro reached_subset) auto
  moreover have "finite ?U"
    using assms by (intro finite_UnI finite_UN_I finite_set) simp
  ultimately show ?thesis by (rule finite_subset)
qed

lemma anc_subset: "i \<in> U \<Longrightarrow> closed_under (parents_of x log) U \<Longrightarrow> anc x log i \<subseteq> U"
  unfolding anc_def by (rule reached_subset) auto

lemma finite_anc_sub: "finite (anc x log i) \<Longrightarrow> j \<in> anc x log i \<Longrightarrow> finite (anc x log j)"
  unfolding anc_def by (rule finite_subset [OF reached_trans])

lemma anc_refl [simp]: "i \<in> anc x log i"
  by (simp add: anc_def reached.start)

lemma anc_trans: "j \<in> anc x log i \<Longrightarrow> k \<in> anc x log j \<Longrightarrow> k \<in> anc x log i"
  unfolding anc_def using reached_trans [of j "parents_of x log" "{i}"] by blast

lemma ancestors_Inr:
  assumes "finite (anc x log i)" and "ancestors x log i = Inr a"
  shows "set a = anc x log i" and "distinct a" and "\<And>j. j \<in> anc x log i \<Longrightarrow> \<exists>ps. parents_of x log j = Inr ps"
proof -
  from assms(2) have b: "bfs (parents_of x log) [] [i] = Some (Inr a)" by (simp add: ancestors_def result_simps)
  have f: "finite (reached (parents_of x log) (set [i]))" using assms(1) by (simp add: anc_def)
  note r = bfs_Inr [OF f b]
  from r show "set a = anc x log i" "distinct a" by (simp_all add: anc_def)
  with r(3) show "\<And>j. j \<in> anc x log i \<Longrightarrow> \<exists>ps. parents_of x log j = Inr ps" by simp
qed

lemma ancestors_ex:
  assumes "finite (anc x log i)" and "\<And>j. j \<in> anc x log i \<Longrightarrow> \<exists>ps. parents_of x log j = Inr ps"
  shows "\<exists>a. ancestors x log i = Inr a \<and> distinct a \<and> set a = anc x log i"
proof -
  have f: "finite (reached (parents_of x log) (set [i]))" using assms(1) by (simp add: anc_def)
  from bfs_Inr_ex [OF f] assms(2) show ?thesis by (simp add: ancestors_def anc_def result_simps)
qed

section \<open>Latest common ancestors\<close>

definition common_anc :: "ext \<Rightarrow> oplog \<Rightarrow> oid list \<Rightarrow> oid set" where
  "common_anc x log ops = (\<Inter>i \<in> set ops. anc x log i)"

text \<open>A common ancestor that is not an ancestor of another one.\<close>

definition latest_common :: "ext \<Rightarrow> oplog \<Rightarrow> oid list \<Rightarrow> oid set" where
  "latest_common x log ops =
     {d \<in> common_anc x log ops. \<forall>c \<in> common_anc x log ops. c \<noteq> d \<longrightarrow> d \<notin> anc x log c}"

lemma common_ancestors_aux:
  assumes "\<forall>i \<in> set ops. finite (anc x log i)"
    and "rfold (\<lambda>i common. rbind (ancestors x log i) (\<lambda>a.
       Inr (Some (case common of None \<Rightarrow> a | Some c \<Rightarrow> filter (\<lambda>j. j \<in> set a) c)))) ops (Some c0) = Inr r"
  shows "\<exists>c. r = Some c \<and> set c = set c0 \<inter> common_anc x log ops"
  using assms
proof (induction ops arbitrary: c0)
  case Nil
  then show ?case by (auto simp: common_anc_def)
next
  case (Cons i ops)
  then obtain a where a: "ancestors x log i = Inr a" by (auto simp: result_simps)
  with Cons.prems Cons.IH [where ?c0.0 = "filter (\<lambda>j. j \<in> set a) c0"] obtain c where
    "r = Some c" "set c = set (filter (\<lambda>j. j \<in> set a) c0) \<inter> common_anc x log ops" by auto
  with ancestors_Inr(1) [OF _ a] Cons.prems(1) show ?case by (auto simp: common_anc_def)
qed

lemma common_ancestors_Inr:
  assumes "\<forall>i \<in> set ops. finite (anc x log i)" and "ops \<noteq> []" and "common_ancestors x log ops = Inr r"
  shows "\<exists>c. r = Some c \<and> set c = common_anc x log ops"
proof -
  from assms(2) obtain i rest where ops: "ops = i # rest" by (cases ops) auto
  with assms(3) obtain a where a: "ancestors x log i = Inr a"
    by (auto simp: common_ancestors_def result_simps)
  with assms(3) ops have "rfold (\<lambda>i common. rbind (ancestors x log i) (\<lambda>a.
       Inr (Some (case common of None \<Rightarrow> a | Some c \<Rightarrow> filter (\<lambda>j. j \<in> set a) c)))) rest (Some a) = Inr r"
    by (simp add: common_ancestors_def)
  from common_ancestors_aux [OF _ this] ancestors_Inr(1) [OF _ a] ops assms(1) show ?thesis
    by (auto simp: common_anc_def)
qed

lemma drop_older_aux:
  assumes "\<forall>c \<in> set cs. finite (anc x log c)"
    and "rfold (\<lambda>c latest. rbind (ancestors x log c) (\<lambda>anc.
       Inr (filter (\<lambda>d. d = c \<or> d \<notin> set anc) latest))) cs latest = Inr r"
  shows "r = filter (\<lambda>d. \<forall>c \<in> set cs. d = c \<or> d \<notin> anc x log c) latest"
  using assms
proof (induction cs arbitrary: latest)
  case (Cons c cs)
  then obtain a where a: "ancestors x log c = Inr a" by (auto simp: result_simps)
  with Cons.prems Cons.IH [where latest = "filter (\<lambda>d. d = c \<or> d \<notin> set a) latest"]
  have "r = filter (\<lambda>d. \<forall>c \<in> set cs. d = c \<or> d \<notin> anc x log c) (filter (\<lambda>d. d = c \<or> d \<notin> set a) latest)" by simp
  then show ?case using ancestors_Inr(1) [OF _ a] Cons.prems(1) by (simp add: conj_commute)
qed simp

lemma drop_older_Inr:
  assumes "\<forall>c \<in> common_anc x log ops. finite (anc x log c)" and "drop_older x log c = Inr r"
    and "set c = common_anc x log ops"
  shows "sorted r" and "set r = latest_common x log ops"
proof -
  from drop_older_aux [of c x log "btree_list c" r] assms
  have r: "r = filter (\<lambda>d. \<forall>c \<in> set c. d = c \<or> d \<notin> anc x log c) (btree_list c)" by (simp add: drop_older_def)
  then show "sorted r" by (simp add: sorted_wrt_filter)
  from r assms(3) show "set r = latest_common x log ops" by (auto simp: latest_common_def)
qed

lemma latest_common_subset: "latest_common x log ops \<subseteq> common_anc x log ops"
  by (auto simp: latest_common_def)

lemma lca_cases:
  assumes "\<forall>i \<in> set ops. finite (anc x log i)" and "ops \<noteq> []" and "lca x log ops = Inr r"
  shows "r = (if latest_common x log ops = {} then None else Some (Min (latest_common x log ops)))"
proof -
  have f: "\<forall>c \<in> common_anc x log ops. finite (anc x log c)"
    using assms(1,2) finite_anc_sub by (cases ops) (auto simp: common_anc_def)
  from assms(2,3) obtain cm where "common_ancestors x log ops = Inr cm" by (auto simp: lca_def result_simps)
  with common_ancestors_Inr [OF assms(1,2)] obtain c where
    c: "common_ancestors x log ops = Inr (Some c)" "set c = common_anc x log ops" by blast
  show ?thesis
  proof (cases "c = []")
    case True
    with c(2) latest_common_subset [of x log ops] have "latest_common x log ops = {}" by simp
    with assms(2,3) c(1) True show ?thesis by (simp add: lca_def)
  next
    case False
    with assms(2,3) c(1) obtain l where l: "drop_older x log c = Inr l"
      and r: "r = (case l of [] \<Rightarrow> None | i # _ \<Rightarrow> Some i)" by (auto simp: lca_def result_simps)
    note d = drop_older_Inr [OF f l c(2)]
    show ?thesis
    proof (cases l)
      case (Cons j js)
      with d(1) have "Min (set l) = j" by (intro Min_eqI) auto
      with Cons r d(2) show ?thesis by auto
    qed (use r d(2) in auto)
  qed
qed

lemma ancestors_readable:
  assumes "finite (anc x log i)" and "\<forall>j \<in> anc x log i. \<exists>ps. parents_of x log j = Inr ps"
  obtains a where "ancestors x log i = Inr a" "set a = anc x log i"
  using ancestors_ex [OF assms(1)] assms(2) by blast

lemma rfold_total:
  assumes "\<And>y b. y \<in> set ys \<Longrightarrow> \<exists>c. f y b = Inr c"
  shows "\<exists>c. rfold f ys b = Inr c"
  using assms
proof (induction ys arbitrary: b)
  case (Cons y ys)
  from Cons.prems [of y b] obtain c where "f y b = Inr c" by auto
  with Cons.IH [of c] Cons.prems show ?case by simp
qed simp

lemma lca_total:
  assumes "\<forall>i \<in> set ops. finite (anc x log i) \<and> (\<forall>j \<in> anc x log i. \<exists>ps. parents_of x log j = Inr ps)"
  shows "\<exists>r. lca x log ops = Inr r"
proof (cases "ops = []")
  case False
  have an: "\<exists>a. ancestors x log c = Inr a" if "i \<in> set ops" "c \<in> anc x log i" for i c
  proof -
    have "finite (anc x log c)" using assms finite_anc_sub that by blast
    moreover have "\<forall>j \<in> anc x log c. \<exists>ps. parents_of x log j = Inr ps" using assms anc_trans that by blast
    ultimately show ?thesis by (metis ancestors_readable)
  qed
  have "\<exists>cm. common_ancestors x log ops = Inr cm"
    unfolding common_ancestors_def by (rule rfold_total) (use an anc_refl in \<open>fastforce simp: result_simps\<close>)
  with common_ancestors_Inr [of ops x log] assms False obtain c where
    c: "common_ancestors x log ops = Inr (Some c)" "set c = common_anc x log ops" by blast
  have "\<exists>r. drop_older x log c = Inr r"
    unfolding drop_older_def
  proof (rule rfold_total)
    fix y b assume "y \<in> set c"
    then have "y \<in> anc x log (hd ops)" using c(2) False by (auto simp: common_anc_def)
    with an [of "hd ops" y] False show "\<exists>r. rbind (ancestors x log y) (\<lambda>anc. Inr (filter (\<lambda>d. d = y \<or> d \<notin> set anc) b)) = Inr r"
      by auto
  qed
  with c(1) False show ?thesis by (auto simp: lca_def)
qed (simp add: lca_def)

end
