(* ===== verification/Glob.thy ===== *)
theory Glob
  imports Prelude
begin

text \<open>
  Path patterns: \<open>crates/tessra-oplog/src/glob.rs\<close>.

  \<open>**\<close> matches any number of segments, \<open>*\<close> any characters within a segment, \<open>?\<close> one character, and a
  pattern without a slash matches at any depth. The matcher is compared with a relational reading of
  patterns, and \<open>contained\<close>, which delegation of capabilities rests on, with the inclusion of the
  matched paths.
\<close>

section \<open>The matcher\<close>

definition trim_slashes :: "string \<Rightarrow> string" where
  "trim_slashes s = dropWhile (\<lambda>c. c = CHR ''/'') s"

text \<open>\<open>str::split\<close> on one character: never empty, empty parts kept.\<close>

fun split_on :: "'a \<Rightarrow> 'a list \<Rightarrow> 'a list list" where
  "split_on c [] = [[]]"
| "split_on c (x # xs) =
     (if x = c then [] # split_on c xs
      else (case split_on c xs of [] \<Rightarrow> [[x]] | w # ws \<Rightarrow> (x # w) # ws))"

definition nonempty_parts :: "string \<Rightarrow> string list" where
  "nonempty_parts s = filter (\<lambda>w. w \<noteq> []) (split_on (CHR ''/'') s)"

fun match_chars :: "string \<Rightarrow> string \<Rightarrow> bool" where
  "match_chars [] s = (s = [])"
| "match_chars (c # rest) s =
     (if c = CHR ''*'' then list_ex (\<lambda>i. match_chars rest (drop i s)) [0..<Suc (length s)]
      else if c = CHR ''?'' then s \<noteq> [] \<and> match_chars rest (tl s)
      else s \<noteq> [] \<and> hd s = c \<and> match_chars rest (tl s))"

definition match_segment :: "string \<Rightarrow> string \<Rightarrow> bool" where
  "match_segment p s = match_chars p s"

fun match_segments :: "string list \<Rightarrow> string list \<Rightarrow> bool" where
  "match_segments [] segs = (segs = [])"
| "match_segments (p # rest) segs =
     (if p = ''**'' then list_ex (\<lambda>i. match_segments rest (drop i segs)) [0..<Suc (length segs)]
      else (case segs of
              [] \<Rightarrow> False
            | s # srest \<Rightarrow> match_segment p s \<and> match_segments rest srest))"

definition glob_matches :: "string \<Rightarrow> string \<Rightarrow> bool" where
  "glob_matches pattern path =
     (let pattern = trim_slashes pattern; path = trim_slashes path
      in if CHR ''/'' \<notin> set pattern
         then match_segments [''**'', pattern] (split_on (CHR ''/'') path)
         else match_segments (nonempty_parts pattern) (nonempty_parts path))"

definition strip_suffix :: "string \<Rightarrow> string \<Rightarrow> string option" where
  "strip_suffix s suffix =
     (if length suffix \<le> length s \<and> drop (length s - length suffix) s = suffix
      then Some (take (length s - length suffix) s) else None)"

definition starts_with :: "string \<Rightarrow> string \<Rightarrow> bool" where
  "starts_with s prefix \<longleftrightarrow> take (length prefix) s = prefix"

definition has_wildcard :: "string \<Rightarrow> bool" where
  "has_wildcard s \<longleftrightarrow> list_ex (\<lambda>c. c = CHR ''*'' \<or> c = CHR ''?'') s"

definition contained :: "string \<Rightarrow> string \<Rightarrow> bool" where
  "contained child parent =
     (if child = parent then True
      else if (case strip_suffix parent ''**'' of Some prefix \<Rightarrow> starts_with child prefix | None \<Rightarrow> False) then True
      else if \<not> has_wildcard child \<and> glob_matches parent child then True
      else False)"

definition any_match :: "string list \<Rightarrow> string \<Rightarrow> bool" where
  "any_match patterns path = list_ex (\<lambda>p. glob_matches p path) patterns"

section \<open>The reading of patterns\<close>

inductive chars_in :: "string \<Rightarrow> string \<Rightarrow> bool" where
  "chars_in [] []"
| "chars_in p s \<Longrightarrow> chars_in (CHR ''*'' # p) (w @ s)"
| "chars_in p s \<Longrightarrow> chars_in (CHR ''?'' # p) (c # s)"
| "c \<noteq> CHR ''*'' \<Longrightarrow> c \<noteq> CHR ''?'' \<Longrightarrow> chars_in p s \<Longrightarrow> chars_in (c # p) (c # s)"

inductive segments_in :: "string list \<Rightarrow> string list \<Rightarrow> bool" where
  "segments_in [] []"
| "segments_in ps ss \<Longrightarrow> segments_in (''**'' # ps) (ws @ ss)"
| "p \<noteq> ''**'' \<Longrightarrow> chars_in p s \<Longrightarrow> segments_in ps ss \<Longrightarrow> segments_in (p # ps) (s # ss)"

inductive_cases chars_in_ConsE: "chars_in (c # p) s"
inductive_cases segments_in_ConsE: "segments_in (p # ps) ss"
inductive_simps chars_in_Nil [simp]: "chars_in [] s"
inductive_simps segments_in_Nil [simp]: "segments_in [] ss"

lemma drop_ex_iff: "list_ex (\<lambda>i. P (drop i s)) [0..<Suc (length s)] \<longleftrightarrow> (\<exists>w t. s = w @ t \<and> P t)"
proof
  assume "list_ex (\<lambda>i. P (drop i s)) [0..<Suc (length s)]"
  then obtain i where "P (drop i s)" by (auto simp: list_ex_iff simp del: upt_Suc)
  then show "\<exists>w t. s = w @ t \<and> P t" by (metis append_take_drop_id)
next
  assume "\<exists>w t. s = w @ t \<and> P t"
  then obtain w t where "s = w @ t" "P t" by blast
  then have "length w \<in> set [0..<Suc (length s)]" and "P (drop (length w) s)" by (auto simp del: upt_Suc)
  then show "list_ex (\<lambda>i. P (drop i s)) [0..<Suc (length s)]" by (auto simp: list_ex_iff simp del: upt_Suc)
qed

lemma match_chars_iff: "match_chars p s \<longleftrightarrow> chars_in p s"
proof (induction p arbitrary: s)
  case (Cons c p)
  consider "c = CHR ''*''" | "c = CHR ''?''" | "c \<noteq> CHR ''*''" "c \<noteq> CHR ''?''" by blast
  then show ?case
  proof cases
    case 1
    have "match_chars (c # p) s \<longleftrightarrow> (\<exists>w t. s = w @ t \<and> chars_in p t)"
      using 1 by (simp only: match_chars.simps simp_thms if_True drop_ex_iff Cons.IH)
    with 1 show ?thesis by (auto intro: chars_in.intros elim: chars_in_ConsE)
  next
    case 2
    with Cons.IH show ?thesis by (cases s) (auto intro: chars_in.intros elim: chars_in_ConsE)
  next
    case 3
    with Cons.IH show ?thesis by (cases s) (auto intro: chars_in.intros elim: chars_in_ConsE)
  qed
qed auto

lemma match_segments_iff: "match_segments ps ss \<longleftrightarrow> segments_in ps ss"
proof (induction ps arbitrary: ss)
  case (Cons p ps)
  show ?case
  proof (cases "p = ''**''")
    case True
    have "match_segments (p # ps) ss \<longleftrightarrow> (\<exists>w t. ss = w @ t \<and> segments_in ps t)"
      using True by (simp only: match_segments.simps simp_thms if_True drop_ex_iff Cons.IH)
    with True show ?thesis by (auto intro: segments_in.intros elim: segments_in_ConsE)
  next
    case False
    with Cons.IH show ?thesis
      by (cases ss) (auto simp: match_segment_def match_chars_iff intro: segments_in.intros elim: segments_in_ConsE)
  qed
qed auto

text \<open>Concatenated patterns match concatenated paths.\<close>

lemma segments_in_append: "segments_in (ps @ qs) ss \<longleftrightarrow> (\<exists>us vs. ss = us @ vs \<and> segments_in ps us \<and> segments_in qs vs)"
proof (induction ps arbitrary: ss)
  case (Cons p ps)
  show ?case
  proof
    assume "segments_in ((p # ps) @ qs) ss"
    then show "\<exists>us vs. ss = us @ vs \<and> segments_in (p # ps) us \<and> segments_in qs vs"
    proof (simp, elim segments_in_ConsE)
      fix ws ss' assume "p = ''**''" "ss = ws @ ss'" "segments_in (ps @ qs) ss'"
      with Cons.IH obtain us vs where "ss' = us @ vs" "segments_in ps us" "segments_in qs vs" by blast
      with \<open>p = ''**''\<close> \<open>ss = ws @ ss'\<close> show ?thesis
        by (intro exI [of _ "ws @ us"] exI [of _ vs]) (auto intro: segments_in.intros)
    next
      fix s ss' assume "ss = s # ss'" "p \<noteq> ''**''" "chars_in p s" "segments_in (ps @ qs) ss'"
      with Cons.IH obtain us vs where "ss' = us @ vs" "segments_in ps us" "segments_in qs vs" by blast
      with \<open>ss = s # ss'\<close> \<open>p \<noteq> ''**''\<close> \<open>chars_in p s\<close> show ?thesis
        by (intro exI [of _ "s # us"] exI [of _ vs]) (auto intro: segments_in.intros)
    qed
  next
    assume "\<exists>us vs. ss = us @ vs \<and> segments_in (p # ps) us \<and> segments_in qs vs"
    then obtain us vs where "ss = us @ vs" "segments_in (p # ps) us" "segments_in qs vs" by blast
    from this(2) show "segments_in ((p # ps) @ qs) ss"
    proof (rule segments_in_ConsE)
      fix ss' ws assume "us = ws @ ss'" "p = ''**''" "segments_in ps ss'"
      with Cons.IH [of "ss' @ vs"] \<open>segments_in qs vs\<close> \<open>ss = us @ vs\<close> segments_in.intros(2) [of "ps @ qs" "ss' @ vs" ws]
      show ?thesis by auto
    next
      fix s ss' assume "us = s # ss'" "p \<noteq> ''**''" "chars_in p s" "segments_in ps ss'"
      with Cons.IH [of "ss' @ vs"] \<open>segments_in qs vs\<close> \<open>ss = us @ vs\<close> segments_in.intros(3) [of p s "ps @ qs" "ss' @ vs"]
      show ?thesis by auto
    qed
  qed
qed auto

lemma segments_in_any: "segments_in [''**''] ss"
  using segments_in.intros(2) [OF segments_in.intros(1), of ss] by simp

section \<open>Splitting\<close>

lemma split_on_not_Nil [simp]: "split_on c s \<noteq> []"
  by (induction s) (auto split: list.splits)

lemma split_on_append: "split_on c (a @ c # b) = split_on c a @ split_on c b"
proof (induction a)
  case (Cons x a)
  then show ?case by (cases "split_on c a") auto
qed simp

lemma nonempty_parts_append: "nonempty_parts (a @ CHR ''/'' # b) = nonempty_parts a @ nonempty_parts b"
  by (simp add: nonempty_parts_def split_on_append)

lemma split_on_no_sep: "c \<notin> set s \<Longrightarrow> split_on c s = [s]"
  by (induction s) auto

lemma nonempty_parts_single: "CHR ''/'' \<notin> set s \<Longrightarrow> s \<noteq> [] \<Longrightarrow> nonempty_parts s = [s]"
  by (simp add: nonempty_parts_def split_on_no_sep)

lemma nonempty_parts_trim [simp]: "nonempty_parts (trim_slashes s) = nonempty_parts s"
proof (induction s)
  case (Cons x s)
  then show ?case by (auto simp: trim_slashes_def nonempty_parts_def)
qed (simp add: trim_slashes_def)

text \<open>A pattern with a slash beyond its leading ones is matched part by part.\<close>

lemma glob_matches_parts:
  "CHR ''/'' \<in> set (trim_slashes pattern) \<Longrightarrow>
     glob_matches pattern path \<longleftrightarrow> segments_in (nonempty_parts pattern) (nonempty_parts path)"
  by (simp add: glob_matches_def match_segments_iff)

lemma trim_slashes_append:
  "dropWhile (\<lambda>c. c = CHR ''/'') a \<noteq> [] \<Longrightarrow> trim_slashes (a @ b) = trim_slashes a @ b"
  by (induction a) (auto simp: trim_slashes_def split: if_splits)

section \<open>Containment\<close>

text \<open>
  A directory pattern: \<open>dir/**\<close> where \<open>dir\<close> has a part of its own.
\<close>

definition under :: "string \<Rightarrow> string" where
  "under dir = dir @ ''/**''"

lemma under_slash: "trim_slashes dir \<noteq> [] \<Longrightarrow> CHR ''/'' \<in> set (trim_slashes (dir @ CHR ''/'' # rest))"
  using trim_slashes_append [of dir "CHR ''/'' # rest"] by (simp add: trim_slashes_def)

lemma under_contains:
  assumes dir: "trim_slashes dir \<noteq> []" and "glob_matches (dir @ CHR ''/'' # rest) path"
  shows "glob_matches (under dir) path"
proof -
  have u: "under dir = dir @ CHR ''/'' # ''**''" by (simp add: under_def)
  from assms(2) have "segments_in (nonempty_parts dir @ nonempty_parts rest) (nonempty_parts path)"
    by (simp add: glob_matches_parts [OF under_slash [OF dir]] nonempty_parts_append)
  then obtain us vs where "nonempty_parts path = us @ vs" "segments_in (nonempty_parts dir) us"
    by (auto simp: segments_in_append)
  moreover have "nonempty_parts ''**'' = [''**'']" by (rule nonempty_parts_single) auto
  ultimately have "segments_in (nonempty_parts (under dir)) (nonempty_parts path)"
    using segments_in_any by (auto simp: u nonempty_parts_append segments_in_append)
  with under_slash [OF dir, of "''**''"] show ?thesis by (simp add: u glob_matches_parts)
qed

lemma starts_with_iff: "starts_with s p \<longleftrightarrow> (\<exists>t. s = p @ t)"
  by (auto simp: starts_with_def) (metis append_take_drop_id)

lemma strip_suffix_under: "strip_suffix (under dir) ''**'' = Some (dir @ ''/'')"
  by (simp add: strip_suffix_def under_def)

text \<open>The matcher of path patterns is the reading of patterns: two stars stand for any number of
  segments, a star for any characters within a segment, a question mark for one character, everything
  else for itself.\<close>

theorem match_segments_reads_patterns:
  "match_segments ps ss \<longleftrightarrow> segments_in ps ss"
  by (rule match_segments_iff)

text \<open>Containment in a directory pattern is sound: when a capability's pattern is accepted as
  contained in \<open>dir/**\<close> because it starts with \<open>dir/\<close>, every path it matches is matched by \<open>dir/**\<close>.\<close>

theorem contained_in_directory_sound:
  assumes "trim_slashes dir \<noteq> []" and "starts_with child (dir @ ''/'')"
  shows "contained child (under dir) \<and> (glob_matches child path \<longrightarrow> glob_matches (under dir) path)"
proof -
  from assms(2) obtain rest where child: "child = dir @ CHR ''/'' # rest" by (auto simp: starts_with_iff)
  with assms show ?thesis
    using under_contains [OF assms(1)] by (auto simp: contained_def strip_suffix_under)
qed

theorem contained_in_directory_sound_witness:
  "contained ''src/a/*.rs'' ''src/**'' \<and> glob_matches ''src/**'' ''src/a/x.rs''"
proof -
  have "glob_matches ''src/a/*.rs'' ''src/a/x.rs''" by code_simp
  with contained_in_directory_sound [of "''src''" "''src/a/*.rs''" "''src/a/x.rs''"] show ?thesis
    by (simp add: under_def starts_with_def trim_slashes_def)
qed

text \<open>Containment as a whole is not inclusion. A pattern ending in two stars that do not follow a
  slash is stripped to a prefix of characters, so \<open>a/bc/d\<close> counts as contained in \<open>a/b**\<close>, which does
  not match it; and a literal child without a slash is checked as a path, although as a pattern it
  matches at any depth, so \<open>src\<close> counts as contained in \<open>src/**\<close> and matches \<open>lib/src\<close>.\<close>

theorem contained_is_not_inclusion:
  "contained ''a/bc/d'' ''a/b**'' \<and> glob_matches ''a/bc/d'' ''a/bc/d'' \<and> \<not> glob_matches ''a/b**'' ''a/bc/d'' \<and>
   contained ''src'' ''src/**'' \<and> glob_matches ''src'' ''lib/src'' \<and> \<not> glob_matches ''src/**'' ''lib/src''"
  by code_simp

end
