(* ===== verification/Standards.thy ===== *)
theory Standards
  imports View_Props Signatures
begin

text \<open>
  Standards: what a revision has to meet to land, \<open>crates/tessra-oplog/src/standard.rs\<close>.

  \<open>evaluate\<close> returns the clauses that did not hold. The texts that the code composes for people are
  left out: an unmet clause is the clause itself, with the risk level it stood under, and \<open>holds\<close> is
  the truth of a predicate, the \<open>Result\<close> around it being always \<open>Ok\<close> in the source. Parsing and
  printing of predicates are not modelled here.
\<close>

section \<open>Attestations and contexts\<close>

datatype unmet = Unmet clause | UnmetWhen string clause | NoRisk string

definition default_trunk_standard :: "eid \<Rightarrow> string \<Rightarrow> standard" where
  "default_trunk_standard i name =
     \<lparr>std_id = i, std_prev = None, std_name = name, std_extends = None,
      std_clauses = [\<lparr>cl_op = ''require'',
        cl_pred = \<lparr>pred_kind = ''structural'', pred_name = Some ''flags.none'', pred_args = None\<rparr>,
        cl_unless = None\<rparr>],
      std_scopes = None, std_when = None, std_audit_permille = None\<rparr>"

definition trusted_attesters :: "string list" where
  "trusted_attesters = [''verifier'', ''daemon'', ''hook'', ''external'', ''human'', ''observer'', ''deployer'']"

definition uncoverable_kinds :: "string list" where
  "uncoverable_kinds = [''import'', ''chunk'', ''test'', ''test.skipped'', ''impl'', ''module'', ''variant'', ''field'']"

record loaded =
  ld_att :: attestation
  ld_kind :: "string option"
  ld_parent :: "eid option"
  ld_model :: "string option"
  ld_name :: "string option"

record ctx =
  cx_revision :: revision
  cx_attests :: "loaded list"
  cx_subjects :: "bytes list"
  cx_index :: "node_index option"
  cx_parent_index :: "node_index option"
  cx_author_parent :: "eid option"

definition level_rank :: "string \<Rightarrow> nat" where
  "level_rank level =
     (if level = ''low'' then 0
      else if level = ''medium'' then 1
      else if level = ''high'' then 2
      else if level = ''critical'' then 3
      else 0)"

definition is_test_kind :: "string \<Rightarrow> bool" where
  "is_test_kind k \<longleftrightarrow> k = ''test'' \<or> k = ''test.skipped''"

fun truthy :: "value \<Rightarrow> bool" where
  "truthy (VBool b) = b"
| "truthy (VMap m) = list_ex (\<lambda>(k, v). k = VText ''ok'' \<and> v = VBool True) m"
| "truthy (VInt i) = True"
| "truthy (VText t) = True"
| "truthy (VArray a) = True"
| "truthy _ = False"

fun as_text :: "value \<Rightarrow> string option" where
  "as_text (VText t) = Some t"
| "as_text _ = None"

text \<open>\<open>i128 as i64\<close> and \<open>i128 as u32\<close> keep the low bits.\<close>

definition as_i64 :: "int \<Rightarrow> int" where
  "as_i64 i = sint (word_of_int i :: 64 word)"

definition as_u32 :: "int \<Rightarrow> 32 word" where
  "as_u32 i = word_of_int i"

text \<open>\<open>str::parse::<i64>\<close>: an optional sign and at least one digit, in range.\<close>

definition digit :: "char \<Rightarrow> nat option" where
  "digit c = (let n = of_char c :: nat in if 48 \<le> n \<and> n \<le> 57 then Some (n - 48) else None)"

fun digits :: "nat \<Rightarrow> string \<Rightarrow> nat option" where
  "digits acc [] = Some acc"
| "digits acc (c # cs) = (case digit c of None \<Rightarrow> None | Some d \<Rightarrow> digits (10 * acc + d) cs)"

definition parse_i64 :: "string \<Rightarrow> int option" where
  "parse_i64 s =
     (let (neg, ds) = (case s of
            c # cs \<Rightarrow> if c = CHR ''-'' then (True, cs) else if c = CHR ''+'' then (False, cs) else (False, s)
          | [] \<Rightarrow> (False, []))
      in if ds = [] then None
         else case digits 0 ds of
                None \<Rightarrow> None
              | Some n \<Rightarrow> let i = (if neg then - int n else int n)
                          in if - (2 ^ 63) \<le> i \<and> i < 2 ^ 63 then Some i else None)"

definition is_ident :: "string \<Rightarrow> bool" where
  "is_ident s =
     (let alpha = (\<lambda>c. let n = of_char c :: nat in 65 \<le> n \<and> n \<le> 90 \<or> 97 \<le> n \<and> n \<le> 122 \<or> c = CHR ''_'');
          num = (\<lambda>c. digit c \<noteq> None)
      in case s of [] \<Rightarrow> False | c # cs \<Rightarrow> alpha c \<and> list_all (\<lambda>d. alpha d \<or> num d) cs)"

section \<open>Units of the revision and its parent\<close>

text \<open>A map collected from the nodes keeps the last node of an id.\<close>

definition node_by_id :: "node list \<Rightarrow> eid \<rightharpoonup> node" where
  "node_by_id ns = map_of (rev (map (\<lambda>n. (node_nid n, n)) ns))"

definition changed_units :: "ctx \<Rightarrow> node list option" where
  "changed_units cx =
     Option.bind (cx_index cx) (\<lambda>idx.
     Option.bind (cx_parent_index cx) (\<lambda>parent.
     Some (filter (\<lambda>n. case node_by_id (ni_nodes parent) (node_nid n) of
             None \<Rightarrow> True
           | Some p \<Rightarrow> node_body p \<noteq> node_body n \<or> node_name p \<noteq> node_name n) (ni_nodes idx))))"

definition deleted_units :: "ctx \<Rightarrow> node list option" where
  "deleted_units cx =
     Option.bind (cx_index cx) (\<lambda>idx.
     Option.bind (cx_parent_index cx) (\<lambda>parent.
     Some (filter (\<lambda>n. node_nid n \<notin> set (map node_nid (ni_nodes idx))) (ni_nodes parent))))"

definition new_tests :: "ctx \<Rightarrow> node list option" where
  "new_tests cx =
     Option.bind (cx_parent_index cx) (\<lambda>parent.
     Option.bind (changed_units cx) (\<lambda>changed.
     Some (filter (\<lambda>n. is_test_kind (node_kind n) \<and> node_nid n \<notin> set (map node_nid (ni_nodes parent)) \<and>
             node_body n \<notin> set (map node_body (ni_nodes parent))) changed)))"

definition trusted :: "loaded \<Rightarrow> bool \<Rightarrow> bool" where
  "trusted l allow_self =
     (if allow_self then True
      else case ld_kind l of None \<Rightarrow> False | Some k \<Rightarrow> k \<in> set trusted_attesters)"

definition uncovered_by_bodies :: "ctx \<Rightarrow> string \<Rightarrow> node list \<Rightarrow> bool \<Rightarrow> node list" where
  "uncovered_by_bodies cx kind units allow_self =
     (let covered = concat (map (\<lambda>l.
            if att_kind (ld_att l) = kind \<and> truthy (att_result (ld_att l)) \<and> trusted l allow_self
            then (case att_bodies (ld_att l) of None \<Rightarrow> [] | Some b \<Rightarrow> b) else []) (cx_attests cx))
      in filter (\<lambda>u. node_body u \<notin> set covered) units)"

definition names_us :: "ctx \<Rightarrow> loaded \<Rightarrow> bool" where
  "names_us cx l = (case att_subject (ld_att l) of None \<Rightarrow> False | Some s \<Rightarrow> s \<in> set (cx_subjects cx))"

definition subject_attested :: "ctx \<Rightarrow> string \<Rightarrow> bool \<Rightarrow> bool" where
  "subject_attested cx kind allow_self =
     list_ex (\<lambda>l. att_kind (ld_att l) = kind \<and> truthy (att_result (ld_att l)) \<and> trusted l allow_self \<and>
       names_us cx l) (cx_attests cx)"

text \<open>The latest trusted risk of the revision: the first of those with the greatest time.\<close>

definition latest_risk :: "ctx \<Rightarrow> attestation option" where
  "latest_risk cx =
     fold (\<lambda>l best.
       if att_kind (ld_att l) \<noteq> ''risk.change'' \<or> \<not> trusted l False then best
       else if names_us cx l \<and> (case best of None \<Rightarrow> True | Some b \<Rightarrow> att_time (ld_att l) > att_time b)
            then Some (ld_att l) else best) (cx_attests cx) None"

definition map_get :: "(value \<times> value) list \<Rightarrow> string \<Rightarrow> value option" where
  "map_get m k = map_of m (VText k)"

definition risk :: "ctx \<Rightarrow> (32 word \<times> string) option" where
  "risk cx =
     Option.bind (latest_risk cx) (\<lambda>att.
     case att_result att of
       VMap m \<Rightarrow>
         (case map_get m ''score'' of
            Some (VInt i) \<Rightarrow>
              (case map_get m ''level'' of
                 Some (VText t) \<Rightarrow> Some (as_u32 i, t)
               | _ \<Rightarrow> None)
          | _ \<Rightarrow> None)
     | _ \<Rightarrow> None)"

definition structural_units :: "ctx \<Rightarrow> string \<Rightarrow> node list option" where
  "structural_units cx name =
     (let modified = Option.bind (cx_parent_index cx) (\<lambda>parent.
            Option.bind (changed_units cx) (\<lambda>changed.
            Some (filter (\<lambda>n. is_test_kind (node_kind n) \<and> node_nid n \<in> set (map node_nid (ni_nodes parent))) changed)));
          deleted = Option.bind (deleted_units cx) (\<lambda>us. Some (filter (\<lambda>n. is_test_kind (node_kind n)) us))
      in if name = ''test.modified'' then modified
         else if name = ''test.deleted'' then deleted
         else if name = ''test.weakened'' then
           Option.bind modified (\<lambda>v. Option.bind deleted (\<lambda>w. Some (v @ w)))
         else if name = ''test.skipped'' then
           Option.bind (changed_units cx) (\<lambda>us. Some (filter (\<lambda>n. node_kind n = ''test.skipped'') us))
         else None)"

section \<open>Predicates\<close>

text \<open>
  The predicates inside \<open>all\<close>, \<open>any\<close> and \<open>not\<close> are read from the argument \<open>preds\<close> by the derived
  reader of \<open>Predicate\<close>: \<open>kind\<close> a text, \<open>name\<close> and \<open>args\<close> optional, a field given twice an error, other
  keys ignored. Reading fails as a whole or not at all; failure counts as no predicates.
\<close>

fun field_of :: "string \<Rightarrow> (value \<times> value) list \<Rightarrow> value option res" where
  "field_of k es =
     (case filter (\<lambda>e. fst e = VText k) es of
        [] \<Rightarrow> Inr None
      | [e] \<Rightarrow> Inr (Some (snd e))
      | _ \<Rightarrow> Inl Decode)"

fun text_field :: "value option \<Rightarrow> string option res" where
  "text_field None = Inr None"
| "text_field (Some VNull) = Inr None"
| "text_field (Some (VText t)) = Inr (Some t)"
| "text_field (Some _) = Inl Decode"

fun args_btree :: "(value \<times> value) list \<Rightarrow> (string, value) btree \<Rightarrow> (string, value) btree res" where
  "args_btree [] acc = Inr acc"
| "args_btree ((VText k, v) # es) acc = args_btree es (bt_insert k v acc)"
| "args_btree (_ # es) acc = Inl Decode"

fun args_field :: "value option \<Rightarrow> (string, value) btree option res" where
  "args_field None = Inr None"
| "args_field (Some VNull) = Inr None"
| "args_field (Some (VMap es)) = rbind (args_btree es []) (\<lambda>a. Inr (Some a))"
| "args_field (Some _) = Inl Decode"

fun predicate_of_value :: "value \<Rightarrow> predicate res" where
  "predicate_of_value (VMap es) =
     rbind (field_of ''kind'' es) (\<lambda>k.
     rbind (text_field k) (\<lambda>kind.
     rbind (of_opt Decode kind) (\<lambda>kind.
     rbind (field_of ''name'' es) (\<lambda>n.
     rbind (text_field n) (\<lambda>name.
     rbind (field_of ''args'' es) (\<lambda>a.
     rbind (args_field a) (\<lambda>args.
     Inr \<lparr>pred_kind = kind, pred_name = name, pred_args = args\<rparr>)))))))"
| "predicate_of_value _ = Inl Decode"

fun predicates_of_value :: "value \<Rightarrow> predicate list res" where
  "predicates_of_value (VArray items) = rmap predicate_of_value items"
| "predicates_of_value _ = Inl Decode"

definition pred_arg :: "predicate \<Rightarrow> string \<Rightarrow> value option" where
  "pred_arg p k = (case pred_args p of None \<Rightarrow> None | Some a \<Rightarrow> map_of a k)"

definition sub_preds :: "predicate \<Rightarrow> predicate list" where
  "sub_preds p =
     (case pred_arg p ''preds'' of
        None \<Rightarrow> []
      | Some v \<Rightarrow> (case predicates_of_value v of Inl e \<Rightarrow> [] | Inr ps \<Rightarrow> ps))"

text \<open>The predicates inside a predicate are smaller, which is why evaluation ends.\<close>

definition args_size :: "(string, value) btree \<Rightarrow> nat" where
  "args_size a = sum_list (map (\<lambda>e. size (snd e)) a)"

definition pred_size :: "predicate \<Rightarrow> nat" where
  "pred_size p = (case pred_args p of None \<Rightarrow> 0 | Some a \<Rightarrow> args_size a)"

lemma args_size_insert: "args_size (bt_insert k v m) \<le> size v + args_size m"
  by (induction k v m rule: bt_insert.induct) (auto simp: args_size_def)

lemma args_btree_size:
  "args_btree es acc = Inr a \<Longrightarrow> args_size a \<le> size_list (size_prod size size) es + args_size acc"
proof (induction es acc rule: args_btree.induct)
  case (2 k v es acc)
  then have "args_size a \<le> size_list (size_prod size size) es + args_size (bt_insert k v acc)" by simp
  with args_size_insert [of k v acc] show ?case by simp
qed auto

lemma field_of_size:
  assumes "field_of k es = Inr (Some v)"
  shows "size v < Suc (size_list (size_prod size size) es)"
proof -
  from assms obtain e where "filter (\<lambda>e. fst e = VText k) es = [e]" and v: "v = snd e"
    by (auto split: list.splits)
  then have "e \<in> set (filter (\<lambda>e. fst e = VText k) es)" by simp
  then have "e \<in> set es" by simp
  with size_pair_less(2) v show ?thesis by blast
qed

lemma args_field_size:
  "args_field a = Inr args \<Longrightarrow> (case args of None \<Rightarrow> 0 | Some m \<Rightarrow> args_size m) \<le> (case a of None \<Rightarrow> 0 | Some v \<Rightarrow> size v)"
  by (induction a rule: args_field.induct)
    (auto simp: result_simps args_size_def dest!: args_btree_size)

lemma predicate_of_value_size: "predicate_of_value v = Inr q \<Longrightarrow> pred_size q < Suc (size v)"
proof (induction v rule: predicate_of_value.induct)
  case (1 es)
  from "1.prems" obtain a args where a: "field_of ''args'' es = Inr a" "args_field a = Inr args"
    and q: "pred_args q = args" by (auto simp: result_simps simp del: field_of.simps)
  from args_field_size [OF a(2)] field_of_size [of "''args''" es] a(1) q
  show ?case by (cases a) (auto simp: pred_size_def)
qed simp_all

lemma pred_arg_size: "pred_arg p k = Some v \<Longrightarrow> size v \<le> pred_size p"
proof -
  assume "pred_arg p k = Some v"
  then obtain a where a: "pred_args p = Some a" "map_of a k = Some v" by (auto simp: pred_arg_def split: option.splits)
  then have "size v \<in> set (map (\<lambda>e. size (snd e)) a)" using map_of_SomeD by force
  then have "size v \<le> sum_list (map (\<lambda>e. size (snd e)) a)" by (intro member_le_sum_list) auto
  with a(1) show ?thesis by (simp add: pred_size_def args_size_def)
qed

lemma sub_preds_size: "q \<in> set (sub_preds p) \<Longrightarrow> pred_size q < pred_size p"
proof -
  assume "q \<in> set (sub_preds p)"
  then obtain v qs where v: "pred_arg p ''preds'' = Some v" "predicates_of_value v = Inr qs" "q \<in> set qs"
    by (cases "pred_arg p ''preds''"; cases "predicates_of_value (the (pred_arg p ''preds''))")
       (auto simp: sub_preds_def)
  then obtain items where items: "v = VArray items" "rmap predicate_of_value items = Inr qs"
    by (cases v) auto
  from rmap_Inr_setD [OF items(2) v(3)] obtain w where w: "w \<in> set items" "predicate_of_value w = Inr q" by blast
  have "size w \<le> size_list size items" using w(1) by (rule size_list_estimation') simp
  with predicate_of_value_size [OF w(2)] pred_arg_size [OF v(1)] items(1) show ?thesis by simp
qed

section \<open>Truth of a predicate\<close>

definition flag_arg :: "predicate \<Rightarrow> string \<Rightarrow> bool" where
  "flag_arg p k \<longleftrightarrow> pred_arg p k = Some (VBool True)"

definition int_arg :: "predicate \<Rightarrow> string \<Rightarrow> int option" where
  "int_arg p k =
     (case pred_arg p k of
        Some (VInt i) \<Rightarrow> Some (as_i64 i)
      | Some (VText t) \<Rightarrow> parse_i64 t
      | _ \<Rightarrow> None)"

definition pred_name_or :: "string \<Rightarrow> predicate \<Rightarrow> string" where
  "pred_name_or d p = (case pred_name p of None \<Rightarrow> d | Some n \<Rightarrow> n)"

definition coverable :: "node \<Rightarrow> bool" where
  "coverable n \<longleftrightarrow> node_kind n \<notin> set uncoverable_kinds"

definition holds_structural :: "ctx \<Rightarrow> predicate \<Rightarrow> bool" where
  "holds_structural cx p =
     (case pred_name p of
        None \<Rightarrow> False
      | Some n \<Rightarrow>
          if n = ''flags.none'' then
            (case rev_flags (cx_revision cx) of None \<Rightarrow> True | Some f \<Rightarrow> flags_is_empty f)
          else if n = ''intent.linked'' then rev_intent (cx_revision cx) \<noteq> None
          else if n \<in> set [''test.modified'', ''test.deleted'', ''test.weakened'', ''test.skipped''] then
            (case structural_units cx n of None \<Rightarrow> False | Some units \<Rightarrow> units \<noteq> [])
          else if n = ''changed.covered'' then
            (case cx_index cx of
               None \<Rightarrow> False
             | Some idx \<Rightarrow>
                 (case changed_units cx of
                    None \<Rightarrow> False
                  | Some changed \<Rightarrow>
                      let covered = concat (map (\<lambda>t. case node_deps t of None \<Rightarrow> [] | Some d \<Rightarrow> d)
                                      (filter (\<lambda>t. node_kind t = ''test'') (ni_nodes idx)))
                      in filter (\<lambda>n. node_nid n \<notin> set covered)
                           (filter (\<lambda>n. coverable n \<and> is_ident (node_name n)) changed) = []))
          else False)"

definition holds_attest :: "ctx \<Rightarrow> predicate \<Rightarrow> bool" where
  "holds_attest cx p =
     (let name = pred_name_or [] p; allow_self = flag_arg p ''self''
      in case Option.bind (pred_arg p ''for'') as_text of
           None \<Rightarrow>
             if subject_attested cx name allow_self then True
             else (case changed_units cx of
                     None \<Rightarrow> False
                   | Some changed \<Rightarrow>
                       changed \<noteq> [] \<and>
                       (let c = filter (\<lambda>n. coverable n \<or> is_test_kind (node_kind n)) changed
                        in c \<noteq> [] \<and> uncovered_by_bodies cx name c allow_self = []))
         | Some f \<Rightarrow>
             if f = ''new_tests'' then
               (case new_tests cx of
                  None \<Rightarrow> False
                | Some tests \<Rightarrow> tests = [] \<or> uncovered_by_bodies cx name tests allow_self = [])
             else if f = ''changed_nodes'' then
               (case changed_units cx of
                  None \<Rightarrow> False
                | Some changed \<Rightarrow> uncovered_by_bodies cx name (filter coverable changed) allow_self = [])
             else False)"

definition holds_approved :: "ctx \<Rightarrow> predicate \<Rightarrow> bool" where
  "holds_approved cx p =
     (if pred_name_or ''human'' p \<noteq> ''human'' then False
      else list_ex (\<lambda>l.
        att_kind (ld_att l) = ''approval.human'' \<and> truthy (att_result (ld_att l)) \<and>
        ld_kind l = Some ''human'' \<and> (\<not> flag_arg p ''keysigned'' \<or> att_runner (ld_att l) = None) \<and>
        names_us cx l) (cx_attests cx))"

text \<open>The confidence a judge reports, 1000 when it reports none, the last one when it reports several.\<close>

definition judge_confidence :: "(64 word \<Rightarrow> int) \<Rightarrow> value \<Rightarrow> int" where
  "judge_confidence permille v =
     (case v of
        VMap m \<Rightarrow> fold (\<lambda>(k, w) conf.
            if k = VText ''confidence''
            then (case w of VInt i \<Rightarrow> as_i64 i | VFloat f \<Rightarrow> permille f | _ \<Rightarrow> conf)
            else conf) m 1000
      | _ \<Rightarrow> 1000)"

definition judges_of :: "ctx \<Rightarrow> string \<Rightarrow> loaded list" where
  "judges_of cx kind = filter (\<lambda>l. att_kind (ld_att l) = kind \<and> names_us cx l) (cx_attests cx)"

text \<open>One pass over the verdicts: the judges that said yes, one per agent, and whether one said no.\<close>

definition judge_votes :: "(64 word \<Rightarrow> int) \<Rightarrow> ctx \<Rightarrow> string \<Rightarrow> int \<Rightarrow> (eid \<times> string option) list \<times> bool" where
  "judge_votes permille cx kind min_conf =
     fold (\<lambda>l (yes, no).
       if ld_parent l \<noteq> None \<and> ld_parent l = cx_author_parent cx then (yes, no)
       else if judge_confidence permille (att_result (ld_att l)) < min_conf then (yes, no)
       else if truthy (att_result (ld_att l)) then
         (let key = (case ld_parent l of Some q \<Rightarrow> q | None \<Rightarrow> att_verifier (ld_att l))
          in if key \<in> set (map fst yes) then (yes, no) else (yes @ [(key, ld_model l)], no))
       else (yes, True)) (judges_of cx kind) ([], False)"

definition holds_judge :: "(64 word \<Rightarrow> int) \<Rightarrow> ctx \<Rightarrow> predicate \<Rightarrow> bool" where
  "holds_judge permille cx p =
     (let kind = ''judge.'' @ pred_name_or [] p;
          needed = nat (max (case int_arg p ''judges'' of Some n \<Rightarrow> n | None \<Rightarrow> 1) 1);
          min_conf = (case int_arg p ''min_confidence'' of Some n \<Rightarrow> n | None \<Rightarrow> 0);
          (yes, no) = judge_votes permille cx kind min_conf
      in if no then False
         else if length yes < needed then False
         else if flag_arg p ''distinct_models'' then
           \<not> length (remdups (map snd yes)) < min needed (length yes)
         else True)"

text \<open>\<open>max_by_key\<close> keeps the last of several maxima.\<close>

definition latest_observation :: "ctx \<Rightarrow> string \<Rightarrow> loaded option" where
  "latest_observation cx kind =
     fold (\<lambda>l best. case best of
         None \<Rightarrow> Some l
       | Some b \<Rightarrow> if att_time (ld_att l) \<ge> att_time (ld_att b) then Some l else best)
       (filter (\<lambda>l. att_kind (ld_att l) = kind \<and> names_us cx l \<and> trusted l False) (cx_attests cx)) None"

definition holds_observe :: "(64 word \<Rightarrow> int) \<Rightarrow> ctx \<Rightarrow> predicate \<Rightarrow> bool" where
  "holds_observe permille cx p =
     (case latest_observation cx (''observe.'' @ pred_name_or [] p) of
        None \<Rightarrow> False
      | Some l \<Rightarrow>
          let v = (case att_result (ld_att l) of VInt i \<Rightarrow> as_i64 i | VFloat f \<Rightarrow> permille f | _ \<Rightarrow> 0)
          in if (case int_arg p ''max'' of Some m \<Rightarrow> v > m | None \<Rightarrow> False) then False
             else if (case int_arg p ''min'' of Some m \<Rightarrow> v < m | None \<Rightarrow> False) then False
             else True)"

function holds :: "(64 word \<Rightarrow> int) \<Rightarrow> ctx \<Rightarrow> predicate \<Rightarrow> bool" where
  "holds permille cx p =
     (if pred_kind p = ''structural'' then holds_structural cx p
      else if pred_kind p = ''attest'' then holds_attest cx p
      else if pred_kind p = ''all'' then list_all (holds permille cx) (sub_preds p)
      else if pred_kind p = ''any'' then list_ex (holds permille cx) (sub_preds p)
      else if pred_kind p = ''not'' then
        (case map (holds permille cx) (sub_preds p) of [] \<Rightarrow> False | b # _ \<Rightarrow> \<not> b)
      else if pred_kind p = ''approved'' then holds_approved cx p
      else if pred_kind p = ''judge'' then holds_judge permille cx p
      else if pred_kind p = ''observe'' then holds_observe permille cx p
      else False)"
  by pat_completeness auto
termination
  by (relation "measure (\<lambda>(permille, cx, p). pred_size p)") (auto dest: sub_preds_size)

declare holds.simps [simp del]

section \<open>Clauses and standards\<close>

definition check_clause :: "(64 word \<Rightarrow> int) \<Rightarrow> ctx \<Rightarrow> clause \<Rightarrow> clause option" where
  "check_clause permille cx c =
     (if (case cl_unless c of Some u \<Rightarrow> holds permille cx u | None \<Rightarrow> False) then None
      else
        let h = holds permille cx (cl_pred c)
        in if cl_op c = ''require'' then (if h then None else Some c)
           else if cl_op c = ''forbid'' then (if h then Some c else None)
           else Some c)"

text \<open>The chain of a standard, most general first; the walk gives up after 32 standards.\<close>

fun chain_from :: "ext \<Rightarrow> objs \<Rightarrow> view \<Rightarrow> nat \<Rightarrow> eid option \<Rightarrow> standard list \<Rightarrow> standard list res" where
  "chain_from x s v n None acc = Inr (rev acc)"
| "chain_from x s v 0 (Some i) acc = Inl Other"
| "chain_from x s v (Suc n) (Some i) acc =
     rbind (view_entity (ext_hash x) s v i) (\<lambda>ptr.
     rbind (of_opt Other ptr) (\<lambda>ptr.
     rbind (pointer_single ptr) (\<lambda>oid.
     rbind (obj_get (ext_hash x) as_standard s oid) (\<lambda>st.
     chain_from x s v n (std_extends st) (acc @ [st])))))"

definition standard_chain :: "ext \<Rightarrow> objs \<Rightarrow> view \<Rightarrow> eid \<Rightarrow> standard list res" where
  "standard_chain x s v i = chain_from x s v 32 (Some i) []"

function walk_attests :: "predicate \<Rightarrow> (string \<times> string option) list \<Rightarrow> (string \<times> string option) list" where
  "walk_attests p out =
     (if pred_kind p = ''attest'' then
        (case pred_name p of
           None \<Rightarrow> out
         | Some n \<Rightarrow>
             let f = Option.bind (pred_arg p ''for'') as_text
             in if (n, f) \<in> set out then out else out @ [(n, f)])
      else if pred_kind p = ''all'' \<or> pred_kind p = ''any'' \<or> pred_kind p = ''not'' then
        fold (\<lambda>q out. walk_attests q out) (sub_preds p) out
      else out)"
  by pat_completeness auto
termination
  by (relation "measure (\<lambda>(p, out). pred_size p)") (auto dest: sub_preds_size)

declare walk_attests.simps [simp del]

definition required_attestations :: "standard list \<Rightarrow> (string \<times> string option) list" where
  "required_attestations ch =
     fold (\<lambda>st out. fold (\<lambda>c out.
         let out = walk_attests (cl_pred c) out
         in case cl_unless c of Some u \<Rightarrow> walk_attests u out | None \<Rightarrow> out) (std_clauses st) out) ch []"

definition index_of :: "ext \<Rightarrow> objs \<Rightarrow> oid \<Rightarrow> node_index option res" where
  "index_of x s snap_id =
     rbind (obj_get (ext_hash x) as_snapshot s snap_id) (\<lambda>snap.
     let cached =
       (case ext_index_meta x snap_id of
          None \<Rightarrow> None
        | Some bs \<Rightarrow>
            (case oid_from_slice bs of
               Inl e \<Rightarrow> None
             | Inr i \<Rightarrow> (case obj_get (ext_hash x) as_node_index s i of Inl e \<Rightarrow> None | Inr idx \<Rightarrow> Some idx)))
     in case cached of
          Some idx \<Rightarrow> Inr (Some idx)
        | None \<Rightarrow>
            (case snap_index snap of
               Some i \<Rightarrow> rbind (obj_get (ext_hash x) as_node_index s i) (\<lambda>idx. Inr (Some idx))
             | None \<Rightarrow> Inr None))"

definition principal_of :: "ext \<Rightarrow> objs \<Rightarrow> view \<Rightarrow> eid \<Rightarrow> principal option res" where
  "principal_of x s v i =
     rbind (view_entity (ext_hash x) s v i) (\<lambda>ptr.
     case ptr of
       None \<Rightarrow> Inr None
     | Some q \<Rightarrow>
         rbind (pointer_single q) (\<lambda>oid.
         Inr (case obj_get (ext_hash x) as_principal s oid of Inl e \<Rightarrow> None | Inr pr \<Rightarrow> Some pr)))"

definition load_attestation :: "ext \<Rightarrow> objs \<Rightarrow> view \<Rightarrow> oid \<Rightarrow> loaded res" where
  "load_attestation x s v a =
     rbind (obj_get (ext_hash x) as_attestation s a) (\<lambda>att.
     let signer = (case att_runner att of Some r \<Rightarrow> r | None \<Rightarrow> att_verifier att)
     in rbind (principal_of x s v signer) (\<lambda>p.
        Inr \<lparr>ld_att = att, ld_kind = map_option prin_kind p, ld_parent = Option.bind p prin_parent,
             ld_model = Option.bind p prin_model, ld_name = map_option prin_name p\<rparr>))"

definition root_index :: "ext \<Rightarrow> objs \<Rightarrow> revision \<Rightarrow> node_index option res" where
  "root_index x s r =
     (case map_of (rev_snapshots r) [] of Some i \<Rightarrow> index_of x s i | None \<Rightarrow> Inr None)"

definition empty_index :: node_index where
  "empty_index = \<lparr>ni_root = replicate 32 0, ni_grammars = [], ni_parents = [], ni_nodes = [], ni_aliases = None\<rparr>"

definition revision_subjects :: "oid \<Rightarrow> revision \<Rightarrow> bytes list" where
  "revision_subjects i r =
     [i] @
     (case rev_prev r of
        Some q \<Rightarrow> if length (rev_parents r) > 1 \<and> rev_parents r ! 1 = q then [q] else []
      | None \<Rightarrow> []) @
     map snd (rev_snapshots r)"

definition make_ctx :: "ext \<Rightarrow> objs \<Rightarrow> view \<Rightarrow> oid \<Rightarrow> revision \<Rightarrow> oid list \<Rightarrow> ctx res" where
  "make_ctx x s v i r attests =
     rbind (rmap (load_attestation x s v) attests) (\<lambda>ld.
     rbind (principal_of x s v (rev_author r)) (\<lambda>author.
     rbind (root_index x s r) (\<lambda>index.
     rbind (case rev_parents r of
         p # _ \<Rightarrow> rbind (obj_get (ext_hash x) as_revision s p) (root_index x s)
       | [] \<Rightarrow> Inr (Some empty_index)) (\<lambda>parent_index.
     Inr \<lparr>cx_revision = r, cx_attests = ld, cx_subjects = revision_subjects i r, cx_index = index,
          cx_parent_index = parent_index, cx_author_parent = Option.bind author prin_parent\<rparr>))))"

definition check_when :: "(64 word \<Rightarrow> int) \<Rightarrow> ctx \<Rightarrow> risk_clauses \<Rightarrow> unmet list" where
  "check_when permille cx w =
     (case risk cx of
        None \<Rightarrow> [NoRisk (rc_risk_at_least w)]
      | Some (score, level) \<Rightarrow>
          if level_rank level \<ge> level_rank (rc_risk_at_least w)
          then map (UnmetWhen (rc_risk_at_least w)) (List.map_filter (check_clause permille cx) (rc_clauses w))
          else [])"

definition check_standard :: "(64 word \<Rightarrow> int) \<Rightarrow> ctx \<Rightarrow> standard \<Rightarrow> unmet list" where
  "check_standard permille cx st =
     map Unmet (List.map_filter (check_clause permille cx) (std_clauses st)) @
     concat (map (check_when permille cx) (case std_when st of None \<Rightarrow> [] | Some ws \<Rightarrow> ws))"

definition evaluate :: "ext \<Rightarrow> objs \<Rightarrow> view \<Rightarrow> eid \<Rightarrow> oid \<Rightarrow> revision \<Rightarrow> oid list \<Rightarrow> unmet list res" where
  "evaluate x s v st i r attests =
     rbind (standard_chain x s v st) (\<lambda>ch.
     rbind (make_ctx x s v i r attests) (\<lambda>cx.
     Inr (concat (map (check_standard (ext_permille x) cx) ch))))"

end
