(* ===== verification/Standard_Props.thy ===== *)
theory Standard_Props
  imports Standards
begin

text \<open>
  What a standard promises: when its list of unmet clauses is empty, which attestations it counts and
  which it does not, and how long the chain of standards may be.
\<close>

section \<open>When a standard is met\<close>

definition clause_met :: "(64 word \<Rightarrow> int) \<Rightarrow> ctx \<Rightarrow> clause \<Rightarrow> bool" where
  "clause_met permille cx c \<longleftrightarrow>
     (\<exists>u. cl_unless c = Some u \<and> holds permille cx u) \<or>
     cl_op c = ''require'' \<and> holds permille cx (cl_pred c) \<or>
     cl_op c = ''forbid'' \<and> \<not> holds permille cx (cl_pred c)"

lemma check_clause_None: "check_clause permille cx c = None \<longleftrightarrow> clause_met permille cx c"
  by (auto simp: check_clause_def clause_met_def Let_def split: option.splits)

lemma map_filter_Nil: "List.map_filter f xs = [] \<longleftrightarrow> (\<forall>x \<in> set xs. f x = None)"
  by (induction xs) (auto simp: List.map_filter_simps split: option.splits)

definition when_met :: "(64 word \<Rightarrow> int) \<Rightarrow> ctx \<Rightarrow> risk_clauses \<Rightarrow> bool" where
  "when_met permille cx w \<longleftrightarrow>
     (\<exists>score level. risk cx = Some (score, level) \<and>
        (level_rank (rc_risk_at_least w) \<le> level_rank level \<longrightarrow>
           (\<forall>c \<in> set (rc_clauses w). clause_met permille cx c)))"

lemma check_when_Nil: "check_when permille cx w = [] \<longleftrightarrow> when_met permille cx w"
  by (auto simp: check_when_def when_met_def map_filter_Nil check_clause_None split: option.splits)

definition standard_met :: "(64 word \<Rightarrow> int) \<Rightarrow> ctx \<Rightarrow> standard \<Rightarrow> bool" where
  "standard_met permille cx st \<longleftrightarrow>
     (\<forall>c \<in> set (std_clauses st). clause_met permille cx c) \<and>
     (\<forall>ws. std_when st = Some ws \<longrightarrow> (\<forall>w \<in> set ws. when_met permille cx w))"

lemma check_standard_Nil: "check_standard permille cx st = [] \<longleftrightarrow> standard_met permille cx st"
  by (cases "std_when st")
     (auto simp: check_standard_def standard_met_def map_filter_Nil check_clause_None check_when_Nil)

text \<open>A landing meets its standard exactly when the chain of standards and the evidence load and every
  clause of every standard of the chain is met, those under a risk level that the latest trusted risk
  reaches included; a standard with risk clauses is unmet when there is no such risk.\<close>

theorem evaluate_empty_iff:
  "evaluate x s v st i r attests = Inr [] \<longleftrightarrow>
     (\<exists>ch cx. standard_chain x s v st = Inr ch \<and> make_ctx x s v i r attests = Inr cx \<and>
        (\<forall>d \<in> set ch. standard_met (ext_permille x) cx d))"
  by (auto simp: evaluate_def result_simps check_standard_Nil)

section \<open>The chain of standards\<close>

definition std_at :: "ext \<Rightarrow> objs \<Rightarrow> view \<Rightarrow> eid \<Rightarrow> standard \<Rightarrow> bool" where
  "std_at x s v i st \<longleftrightarrow>
     (\<exists>oid. view_entity (ext_hash x) s v i = Inr (Some (PId oid)) \<and> obj_get (ext_hash x) as_standard s oid = Inr st)"

fun linked :: "ext \<Rightarrow> objs \<Rightarrow> view \<Rightarrow> eid option \<Rightarrow> standard list \<Rightarrow> bool" where
  "linked x s v i [] \<longleftrightarrow> i = None"
| "linked x s v i (st # sts) \<longleftrightarrow> (\<exists>e. i = Some e \<and> std_at x s v e st) \<and> linked x s v (std_extends st) sts"

lemma pointer_single_Inr: "pointer_single q = Inr i \<longleftrightarrow> q = PId i"
  by (cases q) auto

lemma chain_from_linked:
  "chain_from x s v n i acc = Inr ch \<Longrightarrow>
     \<exists>sts. ch = rev (acc @ sts) \<and> length sts \<le> n \<and> linked x s v i sts"
proof (induction x s v n i acc rule: chain_from.induct)
  case (3 x s v n i acc)
  from "3.prems" obtain oid st where st: "view_entity (ext_hash x) s v i = Inr (Some (PId oid))"
    "obj_get (ext_hash x) as_standard s oid = Inr st" "chain_from x s v n (std_extends st) (acc @ [st]) = Inr ch"
    by (auto simp: result_simps pointer_single_Inr)
  from "3.IH" [OF st(1) _ _ st(2,3)] obtain sts where
    "ch = rev ((acc @ [st]) @ sts)" "length sts \<le> n" "linked x s v (std_extends st) sts" by auto
  with st show ?case by (intro exI [of _ "st # sts"]) (auto simp: std_at_def)
qed auto

lemma chain_from_complete:
  "linked x s v i sts \<Longrightarrow> length sts \<le> n \<Longrightarrow> chain_from x s v n i acc = Inr (rev (acc @ sts))"
proof (induction sts arbitrary: i n acc)
  case (Cons st sts)
  then obtain m where n: "n = Suc m" by (cases n) auto
  from Cons.prems(1) obtain e oid where "i = Some e" "view_entity (ext_hash x) s v e = Inr (Some (PId oid))"
    "obj_get (ext_hash x) as_standard s oid = Inr st" by (auto simp: std_at_def)
  with Cons.IH [of "std_extends st" m "acc @ [st]"] Cons.prems n show ?case by simp
qed simp

text \<open>The chain of a standard is the standard, what it extends, and so on to one that extends nothing,
  most general first; it is found exactly when it has at most 32 standards, each at a pointer without a
  conflict, so a cycle is an error and not a loop.\<close>

theorem standard_chain_iff:
  "standard_chain x s v i = Inr ch \<longleftrightarrow> linked x s v (Some i) (rev ch) \<and> length ch \<le> 32"
  using chain_from_linked [of x s v 32 "Some i" "[]" ch]
    chain_from_complete [of x s v "Some i" "rev ch" 32 "[]"]
  by (auto simp: standard_chain_def)

section \<open>Which attestations count\<close>

definition only_trusted :: "ctx \<Rightarrow> ctx" where
  "only_trusted cx = cx\<lparr>cx_attests := filter (\<lambda>l. trusted l False) (cx_attests cx)\<rparr>"

text \<open>A predicate that asks for no judge and takes nobody's word for themselves.\<close>

function independent :: "predicate \<Rightarrow> bool" where
  "independent p \<longleftrightarrow>
     pred_kind p \<noteq> ''judge'' \<and> \<not> (pred_kind p = ''attest'' \<and> flag_arg p ''self'') \<and>
     list_all independent (sub_preds p)"
  by pat_completeness auto
termination by (relation "measure pred_size") (auto dest: sub_preds_size)

declare independent.simps [simp del]

lemma only_trusted_units [simp]:
  "cx_revision (only_trusted cx) = cx_revision cx" "cx_index (only_trusted cx) = cx_index cx"
  "cx_parent_index (only_trusted cx) = cx_parent_index cx" "cx_subjects (only_trusted cx) = cx_subjects cx"
  "changed_units (only_trusted cx) = changed_units cx" "new_tests (only_trusted cx) = new_tests cx"
  "structural_units (only_trusted cx) = structural_units cx" "names_us (only_trusted cx) = names_us cx"
  by (simp_all add: only_trusted_def changed_units_def new_tests_def structural_units_def deleted_units_def
      names_us_def fun_eq_iff cong: option.case_cong)

lemma only_trusted_attests: "cx_attests (only_trusted cx) = filter (\<lambda>l. trusted l False) (cx_attests cx)"
  by (simp add: only_trusted_def)

lemma uncovered_only_trusted: "uncovered_by_bodies (only_trusted cx) k us False = uncovered_by_bodies cx k us False"
  by (auto simp: uncovered_by_bodies_def only_trusted_attests intro!: filter_cong)

lemma subject_only_trusted: "subject_attested (only_trusted cx) k False = subject_attested cx k False"
  by (auto simp: subject_attested_def only_trusted_attests list_ex_iff)

lemma human_trusted: "ld_kind l = Some ''human'' \<Longrightarrow> trusted l False"
  by (simp add: trusted_def trusted_attesters_def)

lemma approved_only_trusted: "holds_approved (only_trusted cx) p = holds_approved cx p"
  by (auto simp: holds_approved_def only_trusted_attests list_ex_iff dest: human_trusted)

lemma observe_only_trusted: "holds_observe permille (only_trusted cx) p = holds_observe permille cx p"
proof -
  have "latest_observation (only_trusted cx) k = latest_observation cx k" for k
    by (simp add: latest_observation_def only_trusted_attests conj_ac)
  then show ?thesis by (simp add: holds_observe_def)
qed

lemma attest_only_trusted: "\<not> flag_arg p ''self'' \<Longrightarrow> holds_attest (only_trusted cx) p = holds_attest cx p"
  by (simp add: holds_attest_def subject_only_trusted uncovered_only_trusted cong: option.case_cong)

lemma structural_only_trusted: "holds_structural (only_trusted cx) p = holds_structural cx p"
  by (simp add: holds_structural_def cong: option.case_cong)

lemma fold_filter_skip:
  "(\<And>x b. \<not> P x \<Longrightarrow> f x b = b) \<Longrightarrow> fold f (filter P xs) b = fold f xs b"
  by (induction xs arbitrary: b) auto

lemma risk_only_trusted: "risk (only_trusted cx) = risk cx"
proof -
  have "latest_risk (only_trusted cx) = latest_risk cx"
    unfolding latest_risk_def only_trusted_attests only_trusted_units by (rule fold_filter_skip) simp
  then show ?thesis by (simp add: risk_def)
qed

lemma holds_only_trusted: "independent p \<Longrightarrow> holds permille (only_trusted cx) p = holds permille cx p"
proof (induction permille cx p rule: holds.induct)
  case (1 permille cx p)
  have sub: "q \<in> set (sub_preds p) \<Longrightarrow> independent q" for q
    using "1.prems" by (simp add: independent.simps [of p] list_all_iff)
  have self: "pred_kind p = ''attest'' \<Longrightarrow> \<not> flag_arg p ''self''" and judge: "pred_kind p \<noteq> ''judge''"
    using "1.prems" by (simp_all add: independent.simps [of p])
  consider "pred_kind p = ''all''" | "pred_kind p = ''any''" | "pred_kind p = ''not''"
    | "pred_kind p \<notin> {''all'', ''any'', ''not''}" by blast
  then show ?case
  proof cases
    case 4
    with self judge show ?thesis
      by (simp add: holds.simps [of _ _ p] structural_only_trusted attest_only_trusted approved_only_trusted
          observe_only_trusted)
  qed (use "1.IH" sub in \<open>auto simp: holds.simps [of _ _ p] list_all_iff list_ex_iff cong: map_cong\<close>)
qed

lemma check_clause_only_trusted:
  "independent (cl_pred c) \<Longrightarrow> \<forall>u. cl_unless c = Some u \<longrightarrow> independent u \<Longrightarrow>
     check_clause permille (only_trusted cx) c = check_clause permille cx c"
  by (cases "cl_unless c") (simp_all add: check_clause_def holds_only_trusted)

definition independent_clause :: "clause \<Rightarrow> bool" where
  "independent_clause c \<longleftrightarrow> independent (cl_pred c) \<and> (case cl_unless c of None \<Rightarrow> True | Some u \<Rightarrow> independent u)"

definition independent_standard :: "standard \<Rightarrow> bool" where
  "independent_standard st \<longleftrightarrow>
     list_all independent_clause (std_clauses st) \<and>
     (case std_when st of None \<Rightarrow> True | Some ws \<Rightarrow> list_all (\<lambda>w. list_all independent_clause (rc_clauses w)) ws)"

lemma map_filter_cong': "(\<And>x. x \<in> set xs \<Longrightarrow> f x = g x) \<Longrightarrow> List.map_filter f xs = List.map_filter g xs"
  by (induction xs) (simp_all add: List.map_filter_simps cong: option.case_cong)

lemma clauses_only_trusted:
  "list_all independent_clause cs \<Longrightarrow>
     List.map_filter (check_clause permille (only_trusted cx)) cs = List.map_filter (check_clause permille cx) cs"
  by (rule map_filter_cong')
     (auto simp: list_all_iff independent_clause_def intro!: check_clause_only_trusted split: option.splits)

text \<open>Evidence from untrusted signers is worth nothing: for a standard that asks for no judge and
  takes nobody's word for themselves, the unmet clauses are those found when every attestation whose
  signer is not a verifier, daemon, hook, external, human, observer or deployer is left out. A session
  or an agent cannot attest its own way past such a standard.\<close>

theorem untrusted_attestations_do_not_count:
  assumes "independent_standard st"
  shows "check_standard permille (only_trusted cx) st = check_standard permille cx st"
proof -
  have w: "check_when permille (only_trusted cx) w = check_when permille cx w"
    if "list_all independent_clause (rc_clauses w)" for w
    by (cases "risk cx") (auto simp: clauses_only_trusted [OF that] check_when_def risk_only_trusted)
  show ?thesis
    using assms w
    by (cases "std_when st")
       (auto simp: check_standard_def independent_standard_def clauses_only_trusted list_all_iff
         intro!: arg_cong [where f = concat] map_cong)
qed

definition sample_attestation :: attestation where
  "sample_attestation = \<lparr>att_kind = ''test.pass'', att_subject = Some [4], att_bodies = None,
     att_subject_type = None, att_scope = None, att_result = VBool True, att_env = None, att_verifier = [9],
     att_runner = None, att_evidence = None, att_time = 5, att_sigkind = ''ed25519'', att_sig = None\<rparr>"

definition sample_loaded :: "string \<Rightarrow> loaded" where
  "sample_loaded kind = \<lparr>ld_att = sample_attestation, ld_kind = Some kind, ld_parent = None, ld_model = None,
     ld_name = None\<rparr>"

definition sample_revision :: revision where
  "sample_revision = \<lparr>rev_id = [3], rev_prev = None, rev_snapshots = [], rev_parents = [], rev_intent = None,
     rev_title = [], rev_body = None, rev_author = [9], rev_time = 0, rev_ops = None, rev_flags = None\<rparr>"

definition sample_ctx :: "string \<Rightarrow> ctx" where
  "sample_ctx kind = \<lparr>cx_revision = sample_revision, cx_attests = [sample_loaded kind], cx_subjects = [[4]],
     cx_index = None, cx_parent_index = None, cx_author_parent = None\<rparr>"

definition tests_standard :: standard where
  "tests_standard = (default_trunk_standard [1] ''trunk'')\<lparr>std_clauses :=
     [\<lparr>cl_op = ''require'', cl_pred = \<lparr>pred_kind = ''attest'', pred_name = Some ''test.pass'', pred_args = None\<rparr>,
       cl_unless = None\<rparr>]\<rparr>"

lemma tests_standard_independent: "independent_standard tests_standard"
  by (simp add: independent_standard_def tests_standard_def default_trunk_standard_def independent_clause_def
      independent.simps [of "\<lparr>pred_kind = _, pred_name = _, pred_args = _\<rparr>"] sub_preds_def pred_arg_def flag_arg_def)

lemma holds_attest_kind: "pred_kind p = ''attest'' \<Longrightarrow> holds permille cx p = holds_attest cx p"
  by (simp add: holds.simps [of _ _ p])

lemmas tests_simps =
  check_standard_def tests_standard_def default_trunk_standard_def check_clause_def holds_attest_kind
  holds_attest_def pred_arg_def flag_arg_def pred_name_or_def subject_attested_def sample_ctx_def sample_loaded_def
  sample_attestation_def trusted_def trusted_attesters_def names_us_def only_trusted_def changed_units_def
  List.map_filter_simps

theorem untrusted_attestations_do_not_count_witness:
  "check_standard (\<lambda>f. 0) (sample_ctx ''session'') tests_standard \<noteq> [] \<and>
   check_standard (\<lambda>f. 0) (sample_ctx ''verifier'') tests_standard = []"
proof
  show "check_standard (\<lambda>f. 0) (sample_ctx ''session'') tests_standard \<noteq> []"
    using untrusted_attestations_do_not_count [OF tests_standard_independent, of "\<lambda>f. 0" "sample_ctx ''session''"]
    by (simp add: tests_simps)
  show "check_standard (\<lambda>f. 0) (sample_ctx ''verifier'') tests_standard = []"
    by (simp add: tests_simps)
qed

section \<open>Signatures of attestations\<close>

definition set_att_sigs :: "(attestation \<Rightarrow> bytes option) \<Rightarrow> ctx \<Rightarrow> ctx" where
  "set_att_sigs f cx = cx\<lparr>cx_attests :=
     map (\<lambda>l. l\<lparr>ld_att := (ld_att l)\<lparr>att_sig := f (ld_att l)\<rparr>\<rparr>) (cx_attests cx)\<rparr>"

lemma set_att_sigs_units [simp]:
  "cx_revision (set_att_sigs f cx) = cx_revision cx" "cx_index (set_att_sigs f cx) = cx_index cx"
  "cx_parent_index (set_att_sigs f cx) = cx_parent_index cx" "cx_subjects (set_att_sigs f cx) = cx_subjects cx"
  "cx_author_parent (set_att_sigs f cx) = cx_author_parent cx"
  "changed_units (set_att_sigs f cx) = changed_units cx" "new_tests (set_att_sigs f cx) = new_tests cx"
  "structural_units (set_att_sigs f cx) = structural_units cx"
  by (simp_all add: set_att_sigs_def changed_units_def new_tests_def structural_units_def deleted_units_def
      fun_eq_iff)

lemma names_us_sigs [simp]:
  "names_us (set_att_sigs f cx) (l\<lparr>ld_att := (ld_att l)\<lparr>att_sig := g\<rparr>\<rparr>) = names_us cx l"
  by (simp add: names_us_def set_att_sigs_def cong: option.case_cong)

lemma trusted_sigs [simp]: "trusted (l\<lparr>ld_att := a\<rparr>) b = trusted l b"
  by (simp add: trusted_def)

lemma set_att_sigs_attests:
  "cx_attests (set_att_sigs f cx) = map (\<lambda>l. l\<lparr>ld_att := (ld_att l)\<lparr>att_sig := f (ld_att l)\<rparr>\<rparr>) (cx_attests cx)"
  by (simp add: set_att_sigs_def)

lemma structural_sigs: "holds_structural (set_att_sigs f cx) p = holds_structural cx p"
  by (simp add: holds_structural_def cong: option.case_cong)

lemma attest_sigs: "holds_attest (set_att_sigs f cx) p = holds_attest cx p"
proof -
  have "subject_attested (set_att_sigs f cx) = subject_attested cx"
    by (simp add: fun_eq_iff subject_attested_def set_att_sigs_attests list_ex_iff)
  moreover have "uncovered_by_bodies (set_att_sigs f cx) = uncovered_by_bodies cx"
    by (simp add: fun_eq_iff uncovered_by_bodies_def set_att_sigs_attests o_def cong: if_cong)
  ultimately show ?thesis by (simp add: holds_attest_def cong: option.case_cong)
qed

lemma approved_sigs: "holds_approved (set_att_sigs f cx) p = holds_approved cx p"
  by (simp add: holds_approved_def set_att_sigs_attests list_ex_iff)

lemma judge_sigs: "holds_judge permille (set_att_sigs f cx) p = holds_judge permille cx p"
proof -
  have "judges_of (set_att_sigs f cx) k = map (\<lambda>l. l\<lparr>ld_att := (ld_att l)\<lparr>att_sig := f (ld_att l)\<rparr>\<rparr>) (judges_of cx k)" for k
    by (simp add: judges_of_def set_att_sigs_attests filter_map o_def)
  then have "judge_votes permille (set_att_sigs f cx) k c = judge_votes permille cx k c" for k c
    by (simp add: judge_votes_def fold_map o_def cong: if_cong option.case_cong)
  then show ?thesis by (simp add: holds_judge_def)
qed

lemma fold_map_rel:
  assumes "r a b" and "\<And>x a b. r a b \<Longrightarrow> r (f (h x) a) (g x b)"
  shows "r (fold f (map h xs) a) (fold g xs b)"
  using assms(1) by (induction xs arbitrary: a b) (auto intro: assms(2))

lemma observe_sigs: "holds_observe permille (set_att_sigs f cx) p = holds_observe permille cx p"
proof -
  let ?h = "\<lambda>l. l\<lparr>ld_att := (ld_att l)\<lparr>att_sig := f (ld_att l)\<rparr>\<rparr>"
  have "latest_observation (set_att_sigs f cx) k = map_option ?h (latest_observation cx k)" for k
  proof -
    let ?sel = "filter (\<lambda>l. att_kind (ld_att l) = k \<and> names_us cx l \<and> trusted l False) (cx_attests cx)"
    have sel: "filter (\<lambda>l. att_kind (ld_att l) = k \<and> names_us (set_att_sigs f cx) l \<and> trusted l False)
        (cx_attests (set_att_sigs f cx)) = map ?h ?sel"
      by (simp add: set_att_sigs_attests filter_map o_def)
    show ?thesis
      unfolding latest_observation_def sel
      by (rule fold_map_rel [where r = "\<lambda>a b. a = map_option ?h b"]) (auto split: option.splits)
  qed
  then show ?thesis by (simp add: holds_observe_def split: option.split)
qed

lemma risk_sigs: "risk (set_att_sigs f cx) = risk cx"
proof -
  have "latest_risk (set_att_sigs f cx) = map_option (\<lambda>a. a\<lparr>att_sig := f a\<rparr>) (latest_risk cx)"
    unfolding latest_risk_def set_att_sigs_attests
    by (rule fold_map_rel [where r = "\<lambda>a b. a = map_option (\<lambda>a. a\<lparr>att_sig := f a\<rparr>) b"]) (auto split: option.splits)
  then show ?thesis by (cases "latest_risk cx") (simp_all add: risk_def)
qed

lemma holds_sigs: "holds permille (set_att_sigs f cx) p = holds permille cx p"
proof (induction permille cx p rule: holds.induct)
  case (1 permille cx p)
  consider "pred_kind p = ''all''" | "pred_kind p = ''any''" | "pred_kind p = ''not''"
    | "pred_kind p \<notin> {''all'', ''any'', ''not''}" by blast
  then show ?case
  proof cases
    case 4
    then show ?thesis
      by (simp add: holds.simps [of _ _ p] structural_sigs attest_sigs approved_sigs observe_sigs judge_sigs)
  qed (use "1.IH" in \<open>auto simp: holds.simps [of _ _ p] list_all_iff list_ex_iff cong: map_cong\<close>)
qed

text \<open>Evaluation never looks at the signature of an attestation: whatever bytes stand there, or none at
  all, the unmet clauses are the same. An unsigned attestation that names a human as its verifier counts
  as that human's approval.\<close>

theorem attestation_signatures_unchecked:
  "check_standard permille (set_att_sigs f cx) st = check_standard permille cx st"
proof -
  have clauses: "check_clause permille (set_att_sigs f cx) = check_clause permille cx"
    by (simp add: fun_eq_iff check_clause_def holds_sigs cong: option.case_cong)
  have "check_when permille (set_att_sigs f cx) = check_when permille cx"
    by (intro ext) (simp only: check_when_def clauses risk_sigs)
  with clauses show ?thesis by (simp add: check_standard_def)
qed

end
