(* ===== verification/Verify.thy ===== *)
theory Verify
  imports Dag Glob Standard_Props
begin

text \<open>
  The verification of operations, \<open>crates/tessra-oplog/src/verify.rs\<close>, step by step.

  A rejection is \<open>Rejected\<close> with the step and the name the code gives it. The functions read the store
  of the log; merging views and applying effects add trie nodes to it, so \<open>verify_op\<close> returns the
  store beside the view it produced.
\<close>

section \<open>Capabilities\<close>

definition ungated :: "string list" where
  "ungated = [''status'', ''context'', ''query'', ''workspace'', ''snapshot'', ''claim'', ''undo'', ''sync'', ''merge_view'']"

text \<open>The author's current version at a view: the id of the object and its content.\<close>

definition resolve_principal :: "ext \<Rightarrow> objs \<Rightarrow> view \<Rightarrow> eid \<Rightarrow> (oid \<times> principal) option res" where
  "resolve_principal x s v i =
     rbind (view_entity (ext_hash x) s v i) (\<lambda>ptr.
     case ptr of
       None \<Rightarrow> Inr None
     | Some (PConflict c) \<Rightarrow> Inl (Rejected 3 ''author'')
     | Some (PId j) \<Rightarrow> rbind (obj_get (ext_hash x) as_principal s j) (\<lambda>p. Inr (Some (j, p))))"

definition paths_within :: "string list option \<Rightarrow> string list option \<Rightarrow> bool" where
  "paths_within c p =
     (case (c, p) of
        (_, None) \<Rightarrow> True
      | (None, Some _) \<Rightarrow> False
      | (Some cs, Some ps) \<Rightarrow> \<forall>cp \<in> set cs. \<exists>pp \<in> set ps. contained cp pp)"

definition list_within :: "'a list option \<Rightarrow> 'a list option \<Rightarrow> bool" where
  "list_within c p =
     (case (c, p) of
        (_, None) \<Rightarrow> True
      | (None, Some _) \<Rightarrow> False
      | (Some cs, Some ps) \<Rightarrow> set cs \<subseteq> set ps)"

definition hard_within :: "(string, u64) btree option \<Rightarrow> (string, u64) btree option \<Rightarrow> bool" where
  "hard_within c p =
     (case (c, p) of
        (_, None) \<Rightarrow> True
      | (None, Some _) \<Rightarrow> False
      | (Some cs, Some ps) \<Rightarrow>
          \<forall>(k, w) \<in> set cs. (case map_of ps k of None \<Rightarrow> False | Some pw \<Rightarrow> w \<le> pw))"

definition contained_in :: "capability \<Rightarrow> capability \<Rightarrow> bool" where
  "contained_in child parent \<longleftrightarrow>
     set (cap_verbs child) \<subseteq> set (cap_verbs parent) \<and>
     paths_within (wsc_paths (cap_write child)) (wsc_paths (cap_write parent)) \<and>
     paths_within (rsc_paths (cap_read child)) (rsc_paths (cap_read parent)) \<and>
     list_within (wsc_roots (cap_write child)) (wsc_roots (cap_write parent)) \<and>
     list_within (wsc_stages (cap_write child)) (wsc_stages (cap_write parent)) \<and>
     list_within (wsc_memory_scopes (cap_write child)) (wsc_memory_scopes (cap_write parent)) \<and>
     list_within (wsc_nodes (cap_write child)) (wsc_nodes (cap_write parent)) \<and>
     list_within (wsc_lines (cap_write child)) (wsc_lines (cap_write parent)) \<and>
     list_within (wsc_targets (cap_write child)) (wsc_targets (cap_write parent)) \<and>
     hard_within (cap_hard child) (cap_hard parent)"

text \<open>The error of a failed signature check inside a step is the rejection of that step.\<close>

definition verify_as :: "error \<Rightarrow> unit res \<Rightarrow> unit res" where
  "verify_as e r = (case r of Inl _ \<Rightarrow> Inl e | Inr u \<Rightarrow> Inr u)"

lemma verify_as_Inr [result_simps]: "verify_as e r = Inr u \<longleftrightarrow> r = Inr ()"
  by (auto simp: verify_as_def split: sum.splits)

text \<open>One link of the chain: the issuer is known, active, not revoked and signed the capability.\<close>

definition check_issuer :: "ext \<Rightarrow> objs \<Rightarrow> view \<Rightarrow> capability \<Rightarrow> unit res" where
  "check_issuer x s v c =
     (let bad = Rejected 6 ''capability''
      in rbind (resolve_principal x s v (cap_issuer c)) (\<lambda>r.
         rbind (of_opt bad r) (\<lambda>(_, issuer).
         rbind (if prin_status issuer \<noteq> ''active'' then Inr True
                else principal_revoked (ext_hash x) s v (cap_issuer c)) (\<lambda>out.
         rbind (ensure (\<not> out) bad) (\<lambda>_.
         rbind (of_opt bad (prin_key issuer)) (\<lambda>key.
         verify_as bad (verify_with x (OCapability c) key)))))))"

text \<open>The step from a capability to its parent.\<close>

definition check_parent :: "ext \<Rightarrow> objs \<Rightarrow> view \<Rightarrow> capability \<Rightarrow> oid \<Rightarrow> capability res" where
  "check_parent x s v c pid =
     (let bad = Rejected 6 ''capability''
      in rbind (in_set (ext_hash x) s (view_caps v) pid) (\<lambda>live.
         rbind (ensure live bad) (\<lambda>_.
         rbind (obj_get (ext_hash x) as_capability s pid) (\<lambda>parent.
         rbind (ensure (cap_subject parent = cap_issuer c) bad) (\<lambda>_.
         rbind (ensure (cap_delegable parent) bad) (\<lambda>_.
         rbind (ensure (contained_in c parent) bad) (\<lambda>_.
         Inr parent)))))))"

text \<open>The loop over the chain, which looks at 64 capabilities at most.\<close>

fun chain_loop :: "ext \<Rightarrow> objs \<Rightarrow> view \<Rightarrow> nat \<Rightarrow> capability \<Rightarrow> unit res" where
  "chain_loop x s v 0 c = Inl (Rejected 6 ''capability'')"
| "chain_loop x s v (Suc n) c =
     rbind (check_issuer x s v c) (\<lambda>_.
     case cap_parent c of
       None \<Rightarrow> ensure (cap_issuer c \<in> set (view_owners v)) (Rejected 6 ''capability'')
     | Some pid \<Rightarrow> rbind (check_parent x s v c pid) (chain_loop x s v n))"

definition check_chain :: "ext \<Rightarrow> objs \<Rightarrow> view \<Rightarrow> capability \<Rightarrow> unit res" where
  "check_chain x s v c = chain_loop x s v 64 c"

section \<open>Changed paths\<close>

definition load_entries :: "ext \<Rightarrow> objs \<Rightarrow> oid \<Rightarrow> tree_entry list res" where
  "load_entries x s i =
     rbind (obj_get (ext_hash x) as_tree s i) (\<lambda>t.
     case tree_entries t of
       Some es \<Rightarrow> Inr es
     | None \<Rightarrow>
         rbind (rfold (\<lambda>shard all.
             rbind (obj_get (ext_hash x) as_tree s shard) (\<lambda>st.
             Inr (all @ (case tree_entries st of None \<Rightarrow> [] | Some es \<Rightarrow> es))))
             (List.map_filter id (case tree_shards t of None \<Rightarrow> [] | Some sh \<Rightarrow> sh)) []) (\<lambda>all.
         Inr (sort_key te_name all)))"

definition entries_of :: "ext \<Rightarrow> objs \<Rightarrow> oid option \<Rightarrow> tree_entry list res" where
  "entries_of x s t = (case t of None \<Rightarrow> Inr [] | Some i \<Rightarrow> load_entries x s i)"

definition find_entry :: "tree_entry list \<Rightarrow> string \<Rightarrow> tree_entry option" where
  "find_entry es name = List.find (\<lambda>e. te_name e = name) es"

definition join_path :: "string \<Rightarrow> string \<Rightarrow> string" where
  "join_path prefix name = (if prefix = [] then name else prefix @ ''/'' @ name)"

text \<open>
  What one name contributes: nothing, the subtrees to compare, or a changed path. Trees may be cyclic
  as far as the model knows, so the comparison is a partial function.
\<close>

datatype diff_step = Same | Descend "oid option" "oid option" | Changed

definition diff_entry :: "tree_entry option \<Rightarrow> tree_entry option \<Rightarrow> diff_step" where
  "diff_entry ov nv =
     (case (ov, nv) of
        (Some a, Some b) \<Rightarrow>
          if a = b then Same
          else if te_kind a = Dir \<and> te_kind b = Dir then Descend (te_ref a) (te_ref b)
          else Changed
      | (Some a, None) \<Rightarrow> if te_kind a = Dir then Descend (te_ref a) None else Changed
      | (None, Some b) \<Rightarrow> if te_kind b = Dir then Descend None (te_ref b) else Changed
      | (None, None) \<Rightarrow> Changed)"

partial_function (option) diff_trees ::
  "ext \<Rightarrow> objs \<Rightarrow> oid option \<Rightarrow> oid option \<Rightarrow> string \<Rightarrow> string list \<Rightarrow> string list res option" where
  "diff_trees x s old new prefix out =
     (if old = new then Some (Inr out)
      else
        obind (Some (entries_of x s old)) (\<lambda>oe.
        obind (Some (entries_of x s new)) (\<lambda>ne.
        ofold (\<lambda>name out.
            case diff_entry (find_entry oe name) (find_entry ne name) of
              Same \<Rightarrow> Some (Inr out)
            | Changed \<Rightarrow> Some (Inr (out @ [join_path prefix name]))
            | Descend a b \<Rightarrow> diff_trees x s a b (join_path prefix name) out)
          (btree_list (map te_name oe @ map te_name ne)) out)))"

definition changed_paths :: "ext \<Rightarrow> objs \<Rightarrow> oid option \<Rightarrow> oid \<Rightarrow> string list res" where
  "changed_paths x s old new = returned (diff_trees x s old (Some new) [] [])"

definition old_root :: "ext \<Rightarrow> objs \<Rightarrow> revision option \<Rightarrow> string \<Rightarrow> oid option res" where
  "old_root x s parent root =
     (case parent of
        None \<Rightarrow> Inr None
      | Some p \<Rightarrow>
          (case map_of (rev_snapshots p) root of
             None \<Rightarrow> Inr None
           | Some i \<Rightarrow> rbind (obj_get (ext_hash x) as_snapshot s i) (\<lambda>sn. Inr (Some (snap_root sn)))))"

definition check_write_scope :: "ext \<Rightarrow> objs \<Rightarrow> capability \<Rightarrow> oid \<Rightarrow> unit res" where
  "check_write_scope x s c rev_id' =
     (let out = Rejected 6 ''scope''
      in rbind (obj_get (ext_hash x) as_revision s rev_id') (\<lambda>r.
         rbind (case rev_parents r of
             [] \<Rightarrow> Inr None
           | p # _ \<Rightarrow> rbind (obj_get (ext_hash x) as_revision s p) (\<lambda>q. Inr (Some q))) (\<lambda>parent.
         rfold (\<lambda>(root, snap_id) _.
             rbind (ensure (case wsc_roots (cap_write c) of None \<Rightarrow> True | Some roots \<Rightarrow> root \<in> set roots) out) (\<lambda>_.
             rbind (obj_get (ext_hash x) as_snapshot s snap_id) (\<lambda>new_snap.
             rbind (old_root x s parent root) (\<lambda>old.
             rbind (changed_paths x s old (snap_root new_snap)) (\<lambda>changed.
             ensure (case wsc_paths (cap_write c) of
                       None \<Rightarrow> True
                     | Some paths \<Rightarrow> list_all (\<lambda>p. any_match paths p) changed) out)))))
           (rev_snapshots r) ())))"

section \<open>Step 6: authorization\<close>

definition allows :: "'a list option \<Rightarrow> 'a \<Rightarrow> bool" where
  "allows lim a = (case lim of None \<Rightarrow> True | Some l \<Rightarrow> a \<in> set l)"

definition stored :: "objs \<Rightarrow> oid \<Rightarrow> obj res" where
  "stored s i = of_opt (NotFound i) (s i)"

fun authorize_effect :: "ext \<Rightarrow> objs \<Rightarrow> view \<Rightarrow> capability \<Rightarrow> effect \<Rightarrow> unit res" where
  "authorize_effect x s v c (EPropose r) =
     rbind (check_write_scope x s c r) (\<lambda>_.
     ensure (allows (wsc_stages (cap_write c)) ''proposed'') (Rejected 6 ''scope''))"
| "authorize_effect x s v c (EHead l to from' sq ats i) =
     rbind (check_write_scope x s c to) (\<lambda>_.
     rbind (of_opt (Rejected 6 ''scope'') (map_of (view_lines v) l)) (\<lambda>ls.
     rbind (ensure (allows (wsc_lines (cap_write c)) (ls_id ls)) (Rejected 6 ''scope'')) (\<lambda>_.
     ensure (allows (wsc_stages (cap_write c)) ''landed'') (Rejected 6 ''scope''))))"
| "authorize_effect x s v c (EDeploy tg to) =
     ensure (allows (wsc_targets (cap_write c)) tg) (Rejected 6 ''scope'')"
| "authorize_effect x s v c (EPoint e to from') =
     rbind (stored s to) (\<lambda>y.
     rbind (peek_obj x y) (\<lambda>tag.
     if tag = ''memory'' then
       rbind (decode_obj x as_memory y) (\<lambda>m.
       ensure (allows (wsc_memory_scopes (cap_write c)) (ms_kind (memo_scope m))) (Rejected 6 ''scope''))
     else if tag \<in> {''standard'', ''hook'', ''channel'', ''target'', ''line''} then
       ensure (tag \<in> set (cap_verbs c)) (Rejected 6 ''verb'')
     else Inr ()))"
| "authorize_effect x s v c (EOwner p) = Inl (Rejected 6 ''scope'')"
| "authorize_effect x s v c (EUnowner p) = Inl (Rejected 6 ''scope'')"
| "authorize_effect x s v c (ECoordinator l to) = Inl (Rejected 6 ''scope'')"
| "authorize_effect x s v c (ERoot n) = Inl (Rejected 6 ''scope'')"
| "authorize_effect x s v c (EUnroot n) = Inl (Rejected 6 ''scope'')"
| "authorize_effect x s v c (ERevoke p) = ensure (''revoke'' \<in> set (cap_verbs c)) (Rejected 6 ''verb'')"
| "authorize_effect x s v c (ETomb i t) = ensure (''redact'' \<in> set (cap_verbs c)) (Rejected 6 ''verb'')"
| "authorize_effect x s v c _ = Inr ()"

definition each :: "('a \<Rightarrow> unit res) \<Rightarrow> 'a list \<Rightarrow> unit res" where
  "each f xs = rfold (\<lambda>y _. f y) xs ()"

lemma each_Inr_iff [result_simps]: "each f xs = Inr u \<longleftrightarrow> (\<forall>y \<in> set xs. f y = Inr ())"
  by (induction xs) (auto simp: each_def result_simps)

definition check_authorizes :: "ext \<Rightarrow> objs \<Rightarrow> view \<Rightarrow> capability \<Rightarrow> op \<Rightarrow> unit res" where
  "check_authorizes x s v c p =
     rbind (ensure (op_kind p \<in> set ungated \<or> op_kind p \<in> set (cap_verbs c)) (Rejected 6 ''verb'')) (\<lambda>_.
     each (authorize_effect x s v c) (op_effects p))"

section \<open>Landed revisions\<close>

text \<open>
  \<open>landed_revisions\<close> keeps the last 16 sets it computed in a process-wide cache, by the sorted heads
  they were computed from and nothing else. The cache is an argument here, and the cache after the call
  is returned beside the set.
\<close>

type_synonym landed_cache = "(oid list \<times> oid list) list"

definition landed_kept :: nat where
  "landed_kept = 16"

definition landed_key :: "view \<Rightarrow> oid list" where
  "landed_key v =
     sort (concat (map (\<lambda>(l, ls). case line_head ls of None \<Rightarrow> [] | Some p \<Rightarrow> pointer_ids p) (view_lines v)))"

definition revision_parents :: "ext \<Rightarrow> objs \<Rightarrow> oid \<Rightarrow> oid list res" where
  "revision_parents x s i =
     Inr (case s i of
            None \<Rightarrow> []
          | Some y \<Rightarrow> (case decode_obj x as_revision y of Inl e \<Rightarrow> [] | Inr r \<Rightarrow> rev_parents r))"

definition landed_walk :: "ext \<Rightarrow> objs \<Rightarrow> oid list \<Rightarrow> oid list res" where
  "landed_walk x s key = returned (bfs (revision_parents x s) [] key)"

definition cache_push :: "landed_cache \<Rightarrow> oid list \<Rightarrow> oid list \<Rightarrow> landed_cache" where
  "cache_push cache key seen = (if length cache \<ge> landed_kept then drop 1 cache else cache) @ [(key, seen)]"

definition landed_revisions :: "ext \<Rightarrow> landed_cache \<Rightarrow> objs \<Rightarrow> view \<Rightarrow> (oid list \<times> landed_cache) res" where
  "landed_revisions x cache s v =
     (let key = landed_key v
      in case map_of cache key of
           Some seen \<Rightarrow> Inr (seen, cache)
         | None \<Rightarrow> rbind (landed_walk x s key) (\<lambda>seen. Inr (seen, cache_push cache key seen)))"

section \<open>Step 7: legality\<close>

definition from_matches :: "pointer option \<Rightarrow> value option \<Rightarrow> bool" where
  "from_matches current from' \<longleftrightarrow> current = Option.bind from' pointer_from_value"

definition legal_revision :: "oid list \<Rightarrow> op \<Rightarrow> eid \<Rightarrow> pointer option \<Rightarrow> revision \<Rightarrow> unit res" where
  "legal_revision landed p entity current r =
     rbind (ensure (rev_id r = entity) (Rejected 7 ''entity'')) (\<lambda>_.
     case current of
       Some (PId cur) \<Rightarrow>
         rbind (ensure (\<not> (cur \<in> set landed \<and> op_kind p \<noteq> ''restack'')) (Rejected 7 ''immutable'')) (\<lambda>_.
         ensure (rev_prev r = Some cur) (Rejected 7 ''prev''))
     | _ \<Rightarrow> Inr ())"

text \<open>A new principal: a session signed by its parent agent, anything else by the owner who authors the op.\<close>

definition legal_new_principal :: "ext \<Rightarrow> objs \<Rightarrow> view \<Rightarrow> op \<Rightarrow> bool \<Rightarrow> principal \<Rightarrow> unit res" where
  "legal_new_principal x s v p is_owner q =
     (let bad = Rejected 7 ''principal''
      in if prin_kind q = ''session'' then
           rbind (of_opt bad (prin_parent q)) (\<lambda>pid.
           rbind (resolve_principal x s v pid) (\<lambda>r.
           rbind (of_opt bad r) (\<lambda>(_, parent).
           rbind (ensure (prin_kind parent = ''agent'') bad) (\<lambda>_.
           rbind (of_opt bad (prin_key parent)) (\<lambda>k.
           verify_as bad (verify_with x (OPrincipal q) k))))))
         else if \<not> is_owner then Inl bad
         else verify_as bad (verify_with x (OPrincipal q) (op_key p)))"

definition legal_next_principal :: "ext \<Rightarrow> objs \<Rightarrow> view \<Rightarrow> bool \<Rightarrow> oid \<Rightarrow> principal \<Rightarrow> unit res" where
  "legal_next_principal x s v is_owner cur q =
     (let bad = Rejected 7 ''principal''
      in rbind (obj_get (ext_hash x) as_principal s cur) (\<lambda>old.
         rbind (ensure (prin_prev q = Some cur) (Rejected 7 ''prev'')) (\<lambda>_.
         if prin_status q = ''revoked'' then
           (if is_owner then Inr ()
            else rbind (principal_revoked (ext_hash x) s v (prin_id q)) (\<lambda>out. ensure out bad))
         else
           rbind (of_opt bad (prin_key old)) (\<lambda>k.
           verify_as bad (verify_with x (OPrincipal q) k)))))"

definition legal_principal ::
  "ext \<Rightarrow> objs \<Rightarrow> view \<Rightarrow> op \<Rightarrow> bool \<Rightarrow> eid \<Rightarrow> pointer option \<Rightarrow> principal \<Rightarrow> unit res" where
  "legal_principal x s v p is_owner entity current q =
     rbind (ensure (prin_id q = entity) (Rejected 7 ''entity'')) (\<lambda>_.
     case current of
       None \<Rightarrow> legal_new_principal x s v p is_owner q
     | Some (PId cur) \<Rightarrow> legal_next_principal x s v is_owner cur q
     | Some (PConflict c) \<Rightarrow> Inr ())"

definition legal_point ::
  "ext \<Rightarrow> oid list \<Rightarrow> objs \<Rightarrow> view \<Rightarrow> op \<Rightarrow> bool \<Rightarrow> eid \<Rightarrow> oid \<Rightarrow> value option \<Rightarrow> unit res" where
  "legal_point x landed s v p is_owner entity to from' =
     rbind (view_entity (ext_hash x) s v entity) (\<lambda>current.
     rbind (ensure (from_matches current from') (Rejected 7 ''from'')) (\<lambda>_.
     rbind (stored s to) (\<lambda>y.
     rbind (peek_obj x y) (\<lambda>tag.
     if tag = ''revision'' then
       rbind (decode_obj x as_revision y) (\<lambda>r. legal_revision landed p entity current r)
     else if tag = ''hook'' then
       rbind (decode_obj x as_hook y) (\<lambda>hk.
       ensure (hook_as hk = op_author p \<or> is_owner) (Rejected 7 ''hook''))
     else if tag = ''principal'' then
       rbind (decode_obj x as_principal y) (\<lambda>q. legal_principal x s v p is_owner entity current q)
     else Inr ()))))"

text \<open>A git commit landed as history: the intent is looked for in the operation itself first.\<close>

definition point_of :: "eid \<Rightarrow> effect list \<Rightarrow> oid option" where
  "point_of i effs =
     (case List.map_filter (\<lambda>e. case e of EPoint j to from' \<Rightarrow> if j = i then Some to else None | _ \<Rightarrow> None) effs of
        [] \<Rightarrow> None
      | to # _ \<Rightarrow> Some to)"

definition legacy_intent :: "ext \<Rightarrow> objs \<Rightarrow> view \<Rightarrow> op \<Rightarrow> revision \<Rightarrow> bool res" where
  "legacy_intent x s v p r =
     (case rev_intent r of
        None \<Rightarrow> Inr False
      | Some i \<Rightarrow>
          rbind (case point_of i (op_effects p) of
              Some to \<Rightarrow> Inr (Some to)
            | None \<Rightarrow>
                rbind (view_entity (ext_hash x) s v i) (\<lambda>ptr.
                Inr (case ptr of Some (PId j) \<Rightarrow> Some j | _ \<Rightarrow> None))) (\<lambda>oid.
          case oid of
            None \<Rightarrow> Inr False
          | Some j \<Rightarrow> rbind (obj_get (ext_hash x) as_intent s j) (\<lambda>it. Inr (intent_legacy it = Some True))))"

definition line_object :: "ext \<Rightarrow> objs \<Rightarrow> view \<Rightarrow> eid \<Rightarrow> line res" where
  "line_object x s v i =
     rbind (view_entity (ext_hash x) s v i) (\<lambda>ptr.
     rbind (of_opt (Rejected 7 ''line'') ptr) (\<lambda>q.
     rbind (pointer_single q) (\<lambda>j. obj_get (ext_hash x) as_line s j)))"

text \<open>Advancing a line. The sequence number is a \<open>u64\<close>, which wraps in a release build.\<close>

definition legal_advance ::
  "ext \<Rightarrow> objs \<Rightarrow> view \<Rightarrow> op \<Rightarrow> bool \<Rightarrow> line_state \<Rightarrow> oid \<Rightarrow> value option \<Rightarrow> u64 \<Rightarrow> oid list \<Rightarrow> revision \<Rightarrow> unit res" where
  "legal_advance x s v p is_owner ls to from' sq ats to_rev =
     rbind (ensure (ls_coordinator ls = op_author p) (Rejected 7 ''coordinator'')) (\<lambda>_.
     rbind (ensure (line_head ls = Option.bind from' pointer_from_value) (Rejected 7 ''from'')) (\<lambda>_.
     rbind (ensure (sq = ls_seq ls + 1) (Rejected 7 ''seq'')) (\<lambda>_.
     rbind (each (\<lambda>a. ensure (s a \<noteq> None) (Rejected 7 ''attests'')) ats) (\<lambda>_.
     rbind (if is_owner \<and> op_kind p = ''import'' \<and> ats = [] then legacy_intent x s v p to_rev else Inr False) (\<lambda>legacy.
     if legacy then
       ensure (case (line_head ls, rev_parents to_rev) of
                 (Some (PId hd'), q # _) \<Rightarrow> hd' = q
               | _ \<Rightarrow> False) (Rejected 7 ''history'')
     else
       rbind (line_object x s v (ls_id ls)) (\<lambda>lo.
       rbind (evaluate x s v (line_standard lo) to to_rev ats) (\<lambda>unmet.
       ensure (unmet = []) (Rejected 7 ''standard''))))))))"

definition legal_head ::
  "ext \<Rightarrow> objs \<Rightarrow> view \<Rightarrow> op \<Rightarrow> bool \<Rightarrow> string \<Rightarrow> oid \<Rightarrow> value option \<Rightarrow> u64 \<Rightarrow> oid list \<Rightarrow> eid option \<Rightarrow> unit res" where
  "legal_head x s v p is_owner l to from' sq ats i =
     rbind (obj_get (ext_hash x) as_revision s to) (\<lambda>to_rev.
     case map_of (view_lines v) l of
       None \<Rightarrow>
         rbind (ensure is_owner (Rejected 7 ''line'')) (\<lambda>_.
         ensure (i \<noteq> None \<and> from' = None \<and> sq = 0) (Rejected 7 ''line''))
     | Some ls \<Rightarrow> legal_advance x s v p is_owner ls to from' sq ats to_rev)"

definition legal_claim :: "ext \<Rightarrow> objs \<Rightarrow> op \<Rightarrow> eid \<Rightarrow> oid \<Rightarrow> unit res" where
  "legal_claim x s p c to =
     rbind (obj_get (ext_hash x) as_claim s to) (\<lambda>cl.
     rbind (ensure (claim_principal cl = op_author p) (Rejected 7 ''claim'')) (\<lambda>_.
     ensure (claim_id cl = c) (Rejected 7 ''claim'')))"

definition legal_unclaim :: "ext \<Rightarrow> objs \<Rightarrow> view \<Rightarrow> op \<Rightarrow> bool \<Rightarrow> eid \<Rightarrow> unit res" where
  "legal_unclaim x s v p is_owner c =
     rbind (view_claim (ext_hash x) s v c) (\<lambda>ptr.
     case ptr of
       Some (PId cur) \<Rightarrow>
         rbind (obj_get (ext_hash x) as_claim s cur) (\<lambda>cl.
         ensure (claim_principal cl = op_author p \<or> is_owner) (Rejected 7 ''claim''))
     | _ \<Rightarrow> Inr ())"

fun legal_effect :: "ext \<Rightarrow> oid list \<Rightarrow> objs \<Rightarrow> view \<Rightarrow> op \<Rightarrow> bool \<Rightarrow> effect \<Rightarrow> unit res" where
  "legal_effect x landed s v p is_owner (EPoint e to from') = legal_point x landed s v p is_owner e to from'"
| "legal_effect x landed s v p is_owner (EHead l to from' sq ats i) =
     legal_head x s v p is_owner l to from' sq ats i"
| "legal_effect x landed s v p is_owner (ETomb i t) = ensure (op_kind p = ''redact'') (Rejected 7 ''tomb'')"
| "legal_effect x landed s v p is_owner (EOwner q) = ensure is_owner (Rejected 7 ''owner'')"
| "legal_effect x landed s v p is_owner (EUnowner q) = ensure is_owner (Rejected 7 ''owner'')"
| "legal_effect x landed s v p is_owner (ECoordinator l q) = ensure is_owner (Rejected 7 ''owner'')"
| "legal_effect x landed s v p is_owner (EClaim c to) = legal_claim x s p c to"
| "legal_effect x landed s v p is_owner (EUnclaim c) = legal_unclaim x s v p is_owner c"
| "legal_effect x landed s v p is_owner _ = Inr ()"

definition check_legality :: "ext \<Rightarrow> landed_cache \<Rightarrow> objs \<Rightarrow> view \<Rightarrow> op \<Rightarrow> bool \<Rightarrow> unit res" where
  "check_legality x cache s v p is_owner =
     rbind (landed_revisions x cache s v) (\<lambda>(landed, _).
     each (legal_effect x landed s v p is_owner) (op_effects p))"

section \<open>The steps in order\<close>

definition check_author_v :: "ext \<Rightarrow> objs \<Rightarrow> view \<Rightarrow> op \<Rightarrow> oid res" where
  "check_author_v x s v p =
     rbind (resolve_principal x s v (op_author p)) (\<lambda>r.
     rbind (of_opt (Rejected 3 ''author'') r) (\<lambda>(ver, author).
     rbind (ensure (prin_status author = ''active'') (Rejected 3 ''author'')) (\<lambda>_.
     rbind (ensure (prin_key author = Some (op_key p)) (Rejected 3 ''author'')) (\<lambda>_.
     Inr ver))))"

definition check_author_c :: "ext \<Rightarrow> objs \<Rightarrow> view \<Rightarrow> oid \<Rightarrow> op \<Rightarrow> unit res" where
  "check_author_c x s c ver_v p =
     rbind (principal_revoked (ext_hash x) s c (op_author p)) (\<lambda>out.
     rbind (ensure (\<not> out) (Rejected 4 ''revoked'')) (\<lambda>_.
     rbind (resolve_principal x s c (op_author p)) (\<lambda>r.
     case r of
       None \<Rightarrow> Inr ()
     | Some (ver_c, author) \<Rightarrow>
         rbind (ensure (\<not> (ver_c \<noteq> ver_v \<and> prin_key author \<noteq> Some (op_key p))) (Rejected 4 ''rotated'')) (\<lambda>_.
         ensure (prin_status author = ''active'') (Rejected 4 ''revoked'')))))"

definition check_signature :: "ext \<Rightarrow> op \<Rightarrow> unit res" where
  "check_signature x p = verify_as (Rejected 5 ''signature'') (verify_with x (OOp p) (op_key p))"

definition check_authorization :: "ext \<Rightarrow> objs \<Rightarrow> view \<Rightarrow> view \<Rightarrow> op \<Rightarrow> unit res" where
  "check_authorization x s v c p =
     (if op_author p \<in> set (view_owners v) then Inr ()
      else
        let bad = Rejected 6 ''capability''
        in rbind (of_opt bad (op_cap p)) (\<lambda>cid.
           rbind (in_set (ext_hash x) s (view_caps v) cid) (\<lambda>at_v.
           rbind (ensure at_v bad) (\<lambda>_.
           rbind (in_set (ext_hash x) s (view_caps c) cid) (\<lambda>at_c.
           rbind (ensure at_c bad) (\<lambda>_.
           rbind (obj_get (ext_hash x) as_capability s cid) (\<lambda>cap.
           rbind (ensure (cap_subject cap = op_author p) bad) (\<lambda>_.
           rbind (check_chain x s v cap) (\<lambda>_.
           check_authorizes x s v cap p)))))))))"

definition check_determinism :: "ext \<Rightarrow> objs \<Rightarrow> view \<Rightarrow> op \<Rightarrow> oid option \<Rightarrow> (objs \<times> view) res" where
  "check_determinism x s v p parent =
     rbind (apply_effects (ext_hash x) s v (op_effects p) parent) (\<lambda>(s1, produced).
     let (s2, i) = store_view (ext_hash x) s1 produced
     in rbind (ensure (i = op_view p) (Rejected 8 ''determinism'')) (\<lambda>_. Inr (s2, produced)))"

text \<open>The effects of \<open>init\<close>: its author made an owner, and the author's principal, signed by itself.\<close>

fun init_effect :: "ext \<Rightarrow> objs \<Rightarrow> op \<Rightarrow> effect \<Rightarrow> bool \<times> bool \<Rightarrow> (bool \<times> bool) res" where
  "init_effect x s p (EOwner q) (own, prin) = Inr (own \<or> q = op_author p, prin)"
| "init_effect x s p (EPoint e to from') (own, prin) =
     (if e \<noteq> op_author p then Inr (own, prin)
      else rbind (obj_get (ext_hash x) as_principal s to) (\<lambda>q.
           if prin_id q = op_author p \<and> prin_key q = Some (op_key p) \<and> prin_status q = ''active'' then
             rbind (verify_as (Rejected 5 ''signature'') (verify_with x (OPrincipal q) (op_key p))) (\<lambda>_.
             Inr (own, True))
           else Inr (own, prin)))"
| "init_effect x s p _ acc = Inr acc"

definition verify_init :: "ext \<Rightarrow> oplog \<Rightarrow> op \<Rightarrow> (objs \<times> view) res" where
  "verify_init x log p =
     (let s = log_store log
      in rbind (ensure (op_kind p = ''init'') (Rejected 2 ''parents'')) (\<lambda>_.
         rbind (ensure (log_heads log = []) (Rejected 2 ''parents'')) (\<lambda>_.
         rbind (check_signature x p) (\<lambda>_.
         rbind (rfold (init_effect x s p) (op_effects p) (False, False)) (\<lambda>(own, prin).
         rbind (ensure (own \<and> prin) (Rejected 7 ''legality'')) (\<lambda>_.
         rbind (view_empty (ext_hash x) s) (\<lambda>(s1, empty).
         check_determinism x s1 empty p None)))))))"

text \<open>The merges of the parents and of the heads write to one store, the second after the first.\<close>

definition verify_op :: "ext \<Rightarrow> landed_cache \<Rightarrow> oplog \<Rightarrow> op \<Rightarrow> (objs \<times> view) res" where
  "verify_op x cache log p =
     rbind (ext_bytes x (OOp p)) (\<lambda>_.
     if op_parents p = [] then verify_init x log p
     else
       rbind (each (\<lambda>q. ensure (q \<in> log_verified log) (UnknownParent q)) (op_parents p)) (\<lambda>_.
       rbind (merged_view x log (op_parents p)) (\<lambda>(s1, v).
       rbind (current_view x (log\<lparr>log_store := s1\<rparr>)) (\<lambda>(s, c).
       rbind (check_author_v x s v p) (\<lambda>ver.
       rbind (check_author_c x s c ver p) (\<lambda>_.
       rbind (check_signature x p) (\<lambda>_.
       rbind (check_authorization x s v c p) (\<lambda>_.
       rbind (check_legality x cache s v p (op_author p \<in> set (view_owners v))) (\<lambda>_.
       check_determinism x s v p (case op_parents p of [] \<Rightarrow> None | q # _ \<Rightarrow> Some q))))))))))"

end
