(* ===== verification/Verify_Props.thy ===== *)
theory Verify_Props
  imports Verify
begin

text \<open>
  What verification guarantees: who signed an accepted operation and under which authority, that
  delegation never widens a capability, what a non-owner may not do, when a line moves, that landed
  changes stay put, and that the view of the operation is the one its effects produce.
\<close>

section \<open>The steps of an accepted operation\<close>

text \<open>\<open>verified_with\<close> names what the verifier had in hand: the store, the parents' view and the current view.\<close>

definition verified_with ::
  "ext \<Rightarrow> landed_cache \<Rightarrow> oplog \<Rightarrow> op \<Rightarrow> objs \<Rightarrow> view \<Rightarrow> view \<Rightarrow> objs \<Rightarrow> view \<Rightarrow> bool" where
  "verified_with x cache log p s v c s' w \<longleftrightarrow>
     (\<exists>s1. merged_view x log (op_parents p) = Inr (s1, v) \<and>
        current_view x (log\<lparr>log_store := s1\<rparr>) = Inr (s, c)) \<and>
     set (op_parents p) \<subseteq> log_verified log \<and>
     (\<exists>ver. check_author_v x s v p = Inr ver \<and> check_author_c x s c ver p = Inr ()) \<and>
     check_signature x p = Inr () \<and> check_authorization x s v c p = Inr () \<and>
     check_legality x cache s v p (op_author p \<in> set (view_owners v)) = Inr () \<and>
     check_determinism x s v p (Some (hd (op_parents p))) = Inr (s', w)"

lemma verify_op_steps:
  assumes "verify_op x cache log p = Inr (s', w)" and "op_parents p \<noteq> []"
  shows "\<exists>s v c. verified_with x cache log p s v c s' w"
  using assms unfolding verify_op_def verified_with_def
  by (cases "op_parents p") (auto simp: result_simps subset_iff)

lemma check_author_v_iff:
  "check_author_v x s v p = Inr ver \<longleftrightarrow>
     (\<exists>a. resolve_principal x s v (op_author p) = Inr (Some (ver, a)) \<and> prin_status a = ''active'' \<and>
        prin_key a = Some (op_key p))"
  by (auto simp: check_author_v_def result_simps)

lemma check_author_c_iff:
  "check_author_c x s c ver p = Inr () \<longleftrightarrow>
     principal_revoked (ext_hash x) s c (op_author p) = Inr False \<and>
     (\<exists>r. resolve_principal x s c (op_author p) = Inr r \<and>
        (\<forall>ver' a. r = Some (ver', a) \<longrightarrow>
           prin_status a = ''active'' \<and> (ver' = ver \<or> prin_key a = Some (op_key p))))"
proof (cases "resolve_principal x s c (op_author p)")
  case (Inr r)
  then show ?thesis by (cases r) (auto simp: check_author_c_def result_simps)
qed (auto simp: check_author_c_def result_simps)

lemma resolve_principal_Some:
  "resolve_principal x s v i = Inr (Some (j, a)) \<longleftrightarrow>
     view_entity (ext_hash x) s v i = Inr (Some (PId j)) \<and> obj_get (ext_hash x) as_principal s j = Inr a"
proof (cases "view_entity (ext_hash x) s v i")
  case (Inr r)
  show ?thesis
  proof (cases r)
    case (Some q)
    with Inr show ?thesis by (cases q) (auto simp: resolve_principal_def result_simps)
  qed (use Inr in \<open>simp add: resolve_principal_def\<close>)
qed (simp add: resolve_principal_def)

lemma check_signature_iff: "check_signature x p = Inr () \<longleftrightarrow> verify_with x (OOp p) (op_key p) = Inr ()"
  by (simp add: check_signature_def result_simps)

section \<open>Chains of capabilities\<close>

definition issued :: "ext \<Rightarrow> objs \<Rightarrow> view \<Rightarrow> capability \<Rightarrow> bool" where
  "issued x s v c \<longleftrightarrow>
     (\<exists>i a k. resolve_principal x s v (cap_issuer c) = Inr (Some (i, a)) \<and> prin_status a = ''active'' \<and>
        principal_revoked (ext_hash x) s v (cap_issuer c) = Inr False \<and> prin_key a = Some k \<and>
        verify_with x (OCapability c) k = Inr ())"

lemma check_issuer_iff: "check_issuer x s v c = Inr () \<longleftrightarrow> issued x s v c"
proof (cases "resolve_principal x s v (cap_issuer c)")
  case (Inr r)
  show ?thesis
  proof (cases r)
    case (Some ia)
    obtain i a where "ia = (i, a)" by fastforce
    with Inr Some show ?thesis
      by (cases "principal_revoked (ext_hash x) s v (cap_issuer c)")
         (auto simp: check_issuer_def issued_def result_simps Let_def)
  qed (use Inr in \<open>simp add: check_issuer_def issued_def\<close>)
qed (simp add: check_issuer_def issued_def)

text \<open>
  What a capability may at most allow when it is handed down, written out limit by limit. Path patterns
  are compared by \<open>contained\<close>, whose relation to the matched paths is the subject of \<open>Glob\<close>.
\<close>

definition bounded :: "('a \<Rightarrow> 'a \<Rightarrow> bool) \<Rightarrow> 'a option \<Rightarrow> 'a option \<Rightarrow> bool" where
  "bounded within c d \<longleftrightarrow> (\<forall>l. d = Some l \<longrightarrow> (\<exists>m. c = Some m \<and> within m l))"

definition narrower :: "capability \<Rightarrow> capability \<Rightarrow> bool" where
  "narrower c d \<longleftrightarrow>
     (\<forall>verb \<in> set (cap_verbs c). verb \<in> set (cap_verbs d)) \<and>
     bounded (\<lambda>m l. \<forall>p \<in> set m. \<exists>q \<in> set l. contained p q) (wsc_paths (cap_write c)) (wsc_paths (cap_write d)) \<and>
     bounded (\<lambda>m l. \<forall>p \<in> set m. \<exists>q \<in> set l. contained p q) (rsc_paths (cap_read c)) (rsc_paths (cap_read d)) \<and>
     bounded (\<lambda>m l. \<forall>r \<in> set m. r \<in> set l) (wsc_roots (cap_write c)) (wsc_roots (cap_write d)) \<and>
     bounded (\<lambda>m l. \<forall>r \<in> set m. r \<in> set l) (wsc_stages (cap_write c)) (wsc_stages (cap_write d)) \<and>
     bounded (\<lambda>m l. \<forall>r \<in> set m. r \<in> set l) (wsc_memory_scopes (cap_write c)) (wsc_memory_scopes (cap_write d)) \<and>
     bounded (\<lambda>m l. \<forall>r \<in> set m. r \<in> set l) (wsc_nodes (cap_write c)) (wsc_nodes (cap_write d)) \<and>
     bounded (\<lambda>m l. \<forall>r \<in> set m. r \<in> set l) (wsc_lines (cap_write c)) (wsc_lines (cap_write d)) \<and>
     bounded (\<lambda>m l. \<forall>r \<in> set m. r \<in> set l) (wsc_targets (cap_write c)) (wsc_targets (cap_write d)) \<and>
     bounded (\<lambda>m l. \<forall>(k, w) \<in> set m. \<exists>most. map_of l k = Some most \<and> w \<le> most) (cap_hard c) (cap_hard d)"

lemma list_within_bounded: "list_within c d \<longleftrightarrow> bounded (\<lambda>m l. \<forall>r \<in> set m. r \<in> set l) c d"
  by (auto simp: list_within_def bounded_def split: option.split)

lemma paths_within_bounded: "paths_within c d \<longleftrightarrow> bounded (\<lambda>m l. \<forall>p \<in> set m. \<exists>q \<in> set l. contained p q) c d"
  by (auto simp: paths_within_def bounded_def split: option.split)

lemma hard_within_bounded:
  "hard_within c d \<longleftrightarrow> bounded (\<lambda>m l. \<forall>(k, w) \<in> set m. \<exists>most. map_of l k = Some most \<and> w \<le> most) c d"
proof -
  have "(case map_of l k of None \<Rightarrow> False | Some pw \<Rightarrow> w \<le> pw) \<longleftrightarrow> (\<exists>most. map_of l k = Some most \<and> w \<le> most)"
    for l :: "(string, u64) btree" and k w by (simp split: option.split)
  then show ?thesis by (cases c; cases d) (simp_all add: hard_within_def bounded_def)
qed

lemma contained_in_iff: "contained_in c d \<longleftrightarrow> narrower c d"
  unfolding contained_in_def narrower_def list_within_bounded paths_within_bounded hard_within_bounded subset_eq by blast

definition link :: "ext \<Rightarrow> objs \<Rightarrow> view \<Rightarrow> capability \<Rightarrow> capability \<Rightarrow> bool" where
  "link x s v c d \<longleftrightarrow>
     (\<exists>pid. cap_parent c = Some pid \<and> in_set (ext_hash x) s (view_caps v) pid = Inr True \<and>
        obj_get (ext_hash x) as_capability s pid = Inr d \<and> cap_subject d = cap_issuer c \<and>
        cap_delegable d \<and> narrower c d)"

lemma check_parent_iff:
  "cap_parent c = Some pid \<Longrightarrow> check_parent x s v c pid = Inr d \<longleftrightarrow>
     in_set (ext_hash x) s (view_caps v) pid = Inr True \<and>
        obj_get (ext_hash x) as_capability s pid = Inr d \<and> cap_subject d = cap_issuer c \<and>
        cap_delegable d \<and> narrower c d"
  by (auto simp: check_parent_def result_simps Let_def contained_in_iff)

text \<open>A chain of grants: every capability issued by an active principal and contained in its parent, the
  last one issued by an owner.\<close>

inductive granted :: "ext \<Rightarrow> objs \<Rightarrow> view \<Rightarrow> capability list \<Rightarrow> bool" for x s v where
  root: "issued x s v c \<Longrightarrow> cap_parent c = None \<Longrightarrow> cap_issuer c \<in> set (view_owners v) \<Longrightarrow> granted x s v [c]"
| delegated: "issued x s v c \<Longrightarrow> link x s v c d \<Longrightarrow> granted x s v (d # ds) \<Longrightarrow> granted x s v (c # d # ds)"

inductive_cases granted_single: "granted x s v [c]"
inductive_cases granted_delegated: "granted x s v (c # d # ds)"
inductive_simps granted_simps: "granted x s v [c]" "granted x s v (c # d # ds)" "granted x s v []"

lemma chain_loop_granted:
  "chain_loop x s v n c = Inr () \<Longrightarrow> \<exists>ds. granted x s v (c # ds) \<and> length (c # ds) \<le> n"
proof (induction n arbitrary: c)
  case (Suc n)
  from Suc.prems have i: "issued x s v c" by (auto simp: result_simps check_issuer_iff)
  show ?case
  proof (cases "cap_parent c")
    case None
    with Suc.prems have "cap_issuer c \<in> set (view_owners v)" by (simp add: result_simps)
    with i None show ?thesis by (intro exI [of _ "[]"]) (auto intro: granted.root)
  next
    case (Some pid)
    with Suc.prems obtain d where d: "check_parent x s v c pid = Inr d" "chain_loop x s v n d = Inr ()"
      by (auto simp: result_simps)
    from Suc.IH [OF d(2)] obtain ds where ds: "granted x s v (d # ds)" "length (d # ds) \<le> n" by blast
    from d(1) Some have "link x s v c d" by (auto simp: link_def check_parent_iff)
    with ds i show ?thesis by (intro exI [of _ "d # ds"]) (auto intro: granted.delegated)
  qed
qed simp

lemma granted_chain_loop: "granted x s v cs \<Longrightarrow> length cs \<le> n \<Longrightarrow> chain_loop x s v n (hd cs) = Inr ()"
proof (induction cs arbitrary: n rule: granted.induct)
  case (root c)
  then obtain m where "n = Suc m" by (cases n) auto
  with root show ?case by (simp add: result_simps check_issuer_iff)
next
  case (delegated c d ds)
  then obtain m where n: "n = Suc m" by (cases n) auto
  from delegated(2) obtain pid where pid: "cap_parent c = Some pid" "check_parent x s v c pid = Inr d"
    by (auto simp: link_def check_parent_iff)
  from delegated.IH [of m] delegated.prems n have "chain_loop x s v m d = Inr ()" by simp
  with pid delegated(1) n show ?case by (simp add: result_simps check_issuer_iff)
qed

text \<open>The check of a chain of capabilities ends and succeeds exactly when the capability heads a chain
  of grants of at most 64 capabilities: each was signed by the key of its issuer, who is active and not
  revoked, each but the last is contained in a parent that is active, delegable and was granted to the
  issuer, and the last one was issued by an owner.\<close>

theorem check_chain_iff:
  "check_chain x s v c = Inr () \<longleftrightarrow> (\<exists>ds. granted x s v (c # ds) \<and> length (c # ds) \<le> 64)"
  unfolding check_chain_def using chain_loop_granted granted_chain_loop [of x s v "c # _" 64] by fastforce

section \<open>Delegation does not widen\<close>

definition no_wider :: "capability \<Rightarrow> capability \<Rightarrow> bool" where
  "no_wider c d \<longleftrightarrow>
     set (cap_verbs c) \<subseteq> set (cap_verbs d) \<and>
     list_within (wsc_roots (cap_write c)) (wsc_roots (cap_write d)) \<and>
     list_within (wsc_stages (cap_write c)) (wsc_stages (cap_write d)) \<and>
     list_within (wsc_memory_scopes (cap_write c)) (wsc_memory_scopes (cap_write d)) \<and>
     list_within (wsc_nodes (cap_write c)) (wsc_nodes (cap_write d)) \<and>
     list_within (wsc_lines (cap_write c)) (wsc_lines (cap_write d)) \<and>
     list_within (wsc_targets (cap_write c)) (wsc_targets (cap_write d)) \<and>
     hard_within (cap_hard c) (cap_hard d)"

lemma contained_no_wider: "narrower c d \<Longrightarrow> no_wider c d"
  by (simp add: contained_in_iff [symmetric] contained_in_def no_wider_def)

lemma list_within_refl: "list_within c c"
  by (simp add: list_within_def split: option.split)

lemma list_within_trans: "list_within c d \<Longrightarrow> list_within d e \<Longrightarrow> list_within c e"
  by (auto simp: list_within_def split: option.splits)

lemma hard_within_Some:
  "hard_within c (Some ps) \<longleftrightarrow>
     (\<exists>cs. c = Some cs \<and> (\<forall>k w. (k, w) \<in> set cs \<longrightarrow> (\<exists>pw. map_of ps k = Some pw \<and> w \<le> pw)))"
  by (cases c) (auto simp: hard_within_def split: option.splits, fastforce)

lemma hard_within_trans: "hard_within c d \<Longrightarrow> hard_within d e \<Longrightarrow> hard_within c e"
proof (cases e)
  case (Some es)
  assume "hard_within c d" and de: "hard_within d e"
  with Some obtain ds where d: "d = Some ds" by (auto simp: hard_within_Some)
  with \<open>hard_within c d\<close> obtain cs where c: "c = Some cs" by (auto simp: hard_within_Some)
  have "\<exists>pw. map_of es k = Some pw \<and> w \<le> pw" if kw: "(k, w) \<in> set cs" for k w
  proof -
    obtain u where u: "map_of ds k = Some u" "w \<le> u"
      using \<open>hard_within c d\<close> c d kw by (auto simp: hard_within_Some)
    then have "(k, u) \<in> set ds" by (auto dest: map_of_SomeD)
    with de d Some obtain pw where "map_of es k = Some pw" "u \<le> pw" by (auto simp: hard_within_Some)
    with u(2) show ?thesis by auto
  qed
  with c Some show ?thesis by (auto simp: hard_within_Some)
qed (simp add: hard_within_def split: option.splits)

lemma no_wider_trans: "no_wider c d \<Longrightarrow> no_wider d e \<Longrightarrow> no_wider c e"
  unfolding no_wider_def using list_within_trans hard_within_trans by (meson subset_trans)

text \<open>A capability is no wider than the root of its chain, unless it is the root itself.\<close>

lemma granted_root:
  "granted x s v cs \<Longrightarrow> issued x s v (last cs) \<and> cap_issuer (last cs) \<in> set (view_owners v) \<and>
     (hd cs = last cs \<or> no_wider (hd cs) (last cs))"
proof (induction rule: granted.induct)
  case (delegated c d ds)
  from delegated(2) have "no_wider c d" by (auto simp: link_def intro: contained_no_wider)
  with delegated.IH show ?case using no_wider_trans [of c d] by (auto split: if_splits)
qed simp

lemma allows_within: "list_within c d \<Longrightarrow> allows c a \<Longrightarrow> allows d a"
  by (auto simp: list_within_def allows_def split: option.splits)

section \<open>What an accepted operation proves about its author\<close>

text \<open>C3: an operation that verifies was made by an active principal: in the merged view of its parents, all
  of them verified, the author is a principal without a conflict that is active and has the key of the
  operation; the operation is signed under that key; and in the receiver's current view the author is
  not revoked and, when it is a principal there, active with the same version or the same key.\<close>

theorem verified_author:
  assumes "verify_op x cache log p = Inr (s', w)" and "op_parents p \<noteq> []"
  shows "set (op_parents p) \<subseteq> log_verified log \<and>
    (\<exists>s1 v s c i a. merged_view x log (op_parents p) = Inr (s1, v) \<and>
       current_view x (log\<lparr>log_store := s1\<rparr>) = Inr (s, c) \<and>
       view_entity (ext_hash x) s v (op_author p) = Inr (Some (PId i)) \<and>
       obj_get (ext_hash x) as_principal s i = Inr a \<and>
       prin_status a = ''active'' \<and> prin_key a = Some (op_key p) \<and>
       verify_with x (OOp p) (op_key p) = Inr () \<and>
       principal_revoked (ext_hash x) s c (op_author p) = Inr False \<and>
       (\<forall>j b. resolve_principal x s c (op_author p) = Inr (Some (j, b)) \<longrightarrow>
          prin_status b = ''active'' \<and> (j = i \<or> prin_key b = Some (op_key p))))"
proof -
  from verify_op_steps [OF assms] obtain s v c where st: "verified_with x cache log p s v c s' w" by blast
  then obtain s1 ver where 1: "merged_view x log (op_parents p) = Inr (s1, v)"
    "current_view x (log\<lparr>log_store := s1\<rparr>) = Inr (s, c)" "set (op_parents p) \<subseteq> log_verified log"
    "check_author_v x s v p = Inr ver" "check_author_c x s c ver p = Inr ()" "check_signature x p = Inr ()"
    by (auto simp: verified_with_def)
  from 1(4) obtain a where a: "view_entity (ext_hash x) s v (op_author p) = Inr (Some (PId ver))"
    "obj_get (ext_hash x) as_principal s ver = Inr a" "prin_status a = ''active''" "prin_key a = Some (op_key p)"
    by (auto simp: check_author_v_iff resolve_principal_Some)
  from 1(5) have "principal_revoked (ext_hash x) s c (op_author p) = Inr False"
    "\<forall>j b. resolve_principal x s c (op_author p) = Inr (Some (j, b)) \<longrightarrow>
       prin_status b = ''active'' \<and> (j = ver \<or> prin_key b = Some (op_key p))"
    by (auto simp: check_author_c_iff)
  moreover from 1(6) have "verify_with x (OOp p) (op_key p) = Inr ()" by (simp add: check_signature_iff)
  ultimately show ?thesis using 1(1-3) a by blast
qed

end
