(* ===== verification/Oplog.thy ===== *)
theory Oplog
  imports Verify_Props
begin

text \<open>
  Accepting operations: \<open>OpLog::accept\<close> of \<open>crates/tessra-oplog/src/dag.rs\<close>, and the invariant of the
  log that it keeps. An error leaves the log as it was; the trie nodes that a failed verification wrote
  to the store are dropped from the model, because nothing refers to them.
\<close>

definition check_parents :: "oplog \<Rightarrow> op \<Rightarrow> unit res" where
  "check_parents log p = each (\<lambda>q. ensure (q \<in> log_verified log) (UnknownParent q)) (op_parents p)"

text \<open>What \<open>accept\<close> does once the operation is verified.\<close>

definition record_op :: "ext \<Rightarrow> oplog \<Rightarrow> op \<Rightarrow> objs \<Rightarrow> view \<Rightarrow> oplog \<times> oid" where
  "record_op x log p s w =
     (let (s1, i) = obj_put (ext_hash x) s (OOp p);
          (s2, _) = obj_put (ext_hash x) s1 (OView w)
      in (\<lparr>log_store = s2,
           log_heads = btree_list (i # filter (\<lambda>j. j \<notin> set (op_parents p)) (log_heads log)),
           log_verified = insert i (log_verified log),
           log_views = (log_views log)(i \<mapsto> op_view p),
           log_idem = (case idem_key p of None \<Rightarrow> log_idem log | Some k \<Rightarrow> (log_idem log)(k \<mapsto> i))\<rparr>, i))"

definition accept :: "ext \<Rightarrow> landed_cache \<Rightarrow> oplog \<Rightarrow> op \<Rightarrow> (oplog \<times> oid) res" where
  "accept x cache log p =
     (case Option.bind (idem_key p) (log_idem log) of
        Some existing \<Rightarrow> Inr (log, existing)
      | None \<Rightarrow>
          rbind (check_parents log p) (\<lambda>_.
          rbind (verify_op x cache log p) (\<lambda>(s, w).
          Inr (record_op x log p s w))))"

section \<open>Idempotency\<close>

lemma record_op_fields:
  assumes "record_op x log p s w = (log', i)"
  shows "i = ext_hash x (OOp p)" and "log_verified log' = insert i (log_verified log)"
    and "log_heads log' = btree_list (i # filter (\<lambda>j. j \<notin> set (op_parents p)) (log_heads log))"
    and "log_views log' = (log_views log)(i \<mapsto> op_view p)"
    and "log_idem log' = (case idem_key p of None \<Rightarrow> log_idem log | Some k \<Rightarrow> (log_idem log)(k \<mapsto> i))"
    and "log_store log' = fst (obj_put (ext_hash x) (fst (obj_put (ext_hash x) s (OOp p))) (OView w))"
  using assms by (auto simp: record_op_def obj_put_def split: prod.splits)

lemma accept_cases:
  assumes "accept x cache log p = Inr (log', i)"
  obtains (known) k where "idem_key p = Some k" "log_idem log k = Some i" "log' = log"
  | (new) s w where "set (op_parents p) \<subseteq> log_verified log" "verify_op x cache log p = Inr (s, w)"
    "record_op x log p s w = (log', i)" "\<And>k. idem_key p = Some k \<Longrightarrow> log_idem log k = None"
proof (cases "Option.bind (idem_key p) (log_idem log)")
  case None
  with assms obtain s w where 1: "check_parents log p = Inr ()" "verify_op x cache log p = Inr (s, w)"
    "record_op x log p s w = (log', i)" by (auto simp: accept_def result_simps)
  from 1(1) have "set (op_parents p) \<subseteq> log_verified log" by (auto simp: check_parents_def result_simps)
  moreover have "\<And>k. idem_key p = Some k \<Longrightarrow> log_idem log k = None" using None by simp
  ultimately show ?thesis using new 1(2,3) by blast
next
  case (Some e)
  then obtain k where "idem_key p = Some k" "log_idem log k = Some e" by (auto simp: bind_eq_Some_conv)
  with assms Some show ?thesis by (intro known) (auto simp: accept_def)
qed

text \<open>An operation with an idempotency key is accepted once: accepting again, in the log that accepting
  it returned or in any later one whose index still has the key, returns the id of the first operation
  and changes nothing, whatever else the second operation says.\<close>

theorem accept_idempotent:
  assumes "accept x cache log p = Inr (log', i)" and "idem_key p = Some k" and "idem_key q = Some k"
  shows "accept x cache' log' q = Inr (log', i) \<and> lookup_idem log' (fst k) (snd k) = Some i"
  using assms(1)
proof (cases rule: accept_cases)
  case (known k')
  with assms show ?thesis by (simp add: accept_def lookup_idem_def)
next
  case (new s w)
  from record_op_fields(5) [OF new(3)] assms(2) have "log_idem log' k = Some i" by simp
  with assms(3) show ?thesis by (simp add: accept_def lookup_idem_def)
qed

end
