(* ===== verification/Dag_Props.thy ===== *)
theory Dag_Props
  imports Dag
begin

text \<open>
  What the graph promises: ancestors are the reachable operations, the latest common ancestor is one,
  and a merged view is the fold of the specification's merge over the abstract views of the operations.
\<close>

section \<open>Ancestors\<close>

text \<open>On a log with a finite store the walk over the ancestors of an operation ends; it returns every
  operation that parents lead to, once, and fails only when one of them cannot be read.\<close>

theorem ancestors_are_reachable:
  assumes "finite (dom (log_store log))"
  shows "case ancestors x log i of
           Inr a \<Rightarrow> distinct a \<and> set a = anc x log i
         | Inl e \<Rightarrow> \<exists>j \<in> anc x log i. parents_of x log j = Inl e"
proof -
  have f: "finite (reached (parents_of x log) (set [i]))"
    using finite_store_anc [OF assms] by (simp add: anc_def)
  show ?thesis
    using bfs_correct [OF f]
  proof (elim disjE exE conjE)
    fix s assume s: "bfs (parents_of x log) [] [i] = Some (Inr s)" "distinct s"
      "set s = reached (parents_of x log) (set [i])"
    from s(1) have "ancestors x log i = Inr s" by (simp only: ancestors_def returned_Some)
    with s(2,3) show ?thesis by (simp add: anc_def)
  next
    fix j e assume e: "j \<in> reached (parents_of x log) (set [i])" "parents_of x log j = Inl e"
      "bfs (parents_of x log) [] [i] = Some (Inl e)"
    from e(3) have "ancestors x log i = Inl e" by (simp only: ancestors_def returned_Some)
    with e(1,2) show ?thesis by (auto simp: anc_def)
  qed
qed

lemma latest_common_ex:
  assumes "finite (common_anc x log ops)" and "common_anc x log ops \<noteq> {}"
    and "\<And>i. i \<in> common_anc x log ops \<Longrightarrow> finite (anc x log i)"
    and acyclic: "\<And>i j. i \<in> anc x log j \<Longrightarrow> j \<in> anc x log i \<Longrightarrow> i = j"
  shows "latest_common x log ops \<noteq> {}"
proof -
  let ?C = "common_anc x log ops" and ?f = "\<lambda>c. card (anc x log c)"
  have "Max (?f ` ?C) \<in> ?f ` ?C" using assms(1,2) by (intro Max_in) auto
  then obtain c where c: "c \<in> ?C" "Max (?f ` ?C) = ?f c" by (rule imageE) blast
  have "c \<notin> anc x log b" if b: "b \<in> ?C" "b \<noteq> c" for b
  proof
    assume cb: "c \<in> anc x log b"
    then have "anc x log c \<subseteq> anc x log b" using anc_trans [OF cb] by blast
    moreover have "b \<notin> anc x log c" using acyclic cb b(2) by blast
    ultimately have "anc x log c \<subset> anc x log b" by auto
    then have "?f c < ?f b" using assms(3) [OF b(1)] by (rule psubset_card_mono [rotated])
    with c(2) Max_ge [of "?f ` ?C" "?f b"] assms(1) b(1) show False by auto
  qed
  with c(1) show ?thesis by (auto simp: latest_common_def)
qed

text \<open>C23: the latest common ancestor of a set of operations is a common ancestor that is not an ancestor of
  another common ancestor, the one with the lowest id of those; there is none exactly when there is no
  such operation, which on a graph without cycles means that there is no common ancestor at all.\<close>

theorem lca_is_latest:
  assumes "finite (dom (log_store log))" and "ops \<noteq> []" and "lca x log ops = Inr r"
  shows "r = (if latest_common x log ops = {} then None else Some (Min (latest_common x log ops))) \<and>
     ((\<forall>i j. i \<in> anc x log j \<and> j \<in> anc x log i \<longrightarrow> i = j) \<longrightarrow> (r = None \<longleftrightarrow> common_anc x log ops = {}))"
proof (intro conjI impI)
  have fin: "finite (anc x log i)" for i by (rule finite_store_anc [OF assms(1)])
  from lca_cases [OF _ assms(2,3)] fin
  show r: "r = (if latest_common x log ops = {} then None else Some (Min (latest_common x log ops)))" by blast
  assume acyclic: "\<forall>i j. i \<in> anc x log j \<and> j \<in> anc x log i \<longrightarrow> i = j"
  have "finite (common_anc x log ops)" using assms(2) fin by (cases ops) (auto simp: common_anc_def)
  with latest_common_ex [of x log ops] fin acyclic have "common_anc x log ops \<noteq> {} \<Longrightarrow> latest_common x log ops \<noteq> {}"
    by blast
  with r latest_common_subset [of x log ops] show "r = None \<longleftrightarrow> common_anc x log ops = {}" by auto
qed

section \<open>Merged views\<close>

text \<open>
  \<open>log_rep x log \<alpha>\<close>: the parents of every verified operation are verified, and its view is stored and
  stands for the abstract view \<open>\<alpha>\<close> gives to the operation.
\<close>

definition log_rep :: "ext \<Rightarrow> oplog \<Rightarrow> (oid \<Rightarrow> aview) \<Rightarrow> bool" where
  "log_rep x log \<alpha> \<longleftrightarrow>
     objs_ok (ext_hash x) (log_store log) \<and> finite (log_verified log) \<and>
     (\<forall>i \<in> log_verified log.
        (\<exists>ps. parents_of x log i = Inr ps \<and> set ps \<subseteq> log_verified log) \<and>
        (\<exists>v. view_of x log i = Inr v \<and> view_rep (ext_hash x) (log_store log) v (\<alpha> i)))"

lemma log_rep_parents:
  "log_rep x log \<alpha> \<Longrightarrow> i \<in> log_verified log \<Longrightarrow> parents_of x log i = Inr ps \<Longrightarrow> set ps \<subseteq> log_verified log"
  unfolding log_rep_def by fastforce

lemma log_rep_anc: "log_rep x log \<alpha> \<Longrightarrow> i \<in> log_verified log \<Longrightarrow> anc x log i \<subseteq> log_verified log"
  by (rule anc_subset) (use log_rep_parents in \<open>auto simp: closed_under_def\<close>)

lemma log_rep_lca:
  assumes "log_rep x log \<alpha>" and "set ops \<subseteq> log_verified log" and "ops \<noteq> []"
  shows "lca x log ops = Inr (if latest_common x log ops = {} then None else Some (Min (latest_common x log ops)))"
    and "latest_common x log ops \<subseteq> log_verified log" and "finite (latest_common x log ops)"
proof -
  have an: "anc x log i \<subseteq> log_verified log" "finite (anc x log i)" if "i \<in> set ops" for i
    using log_rep_anc [OF assms(1), of i] that assms(1,2) finite_subset by (auto simp: log_rep_def)
  have "\<forall>i \<in> set ops. finite (anc x log i) \<and> (\<forall>j \<in> anc x log i. \<exists>ps. parents_of x log j = Inr ps)"
    using an assms(1) by (fastforce simp: log_rep_def)
  from lca_total [OF this] obtain r where r: "lca x log ops = Inr r" by blast
  with lca_cases [OF _ assms(3) r] an(2)
  show "lca x log ops = Inr (if latest_common x log ops = {} then None else Some (Min (latest_common x log ops)))" by auto
  have "common_anc x log ops \<subseteq> anc x log (hd ops)" using assms(3) by (auto simp: common_anc_def)
  with latest_common_subset [of x log ops] an [of "hd ops"] assms(3)
  show "latest_common x log ops \<subseteq> log_verified log" "finite (latest_common x log ops)"
    by (auto intro: finite_subset)
qed

definition a_base :: "ext \<Rightarrow> oplog \<Rightarrow> (oid \<Rightarrow> aview) \<Rightarrow> oid list \<Rightarrow> aview" where
  "a_base x log \<alpha> ops =
     (if latest_common x log ops = {} then a_empty else \<alpha> (Min (latest_common x log ops)))"

fun a_merge_fold :: "ext \<Rightarrow> oplog \<Rightarrow> (oid \<Rightarrow> aview) \<Rightarrow> oid list \<Rightarrow> oid list \<Rightarrow> aview \<Rightarrow> aview" where
  "a_merge_fold x log \<alpha> folded [] acc = acc"
| "a_merge_fold x log \<alpha> folded (i # is) acc =
     a_merge_fold x log \<alpha> (folded @ [i]) is (a_merge (a_base x log \<alpha> (folded @ [i])) acc (\<alpha> i))"

definition a_merged :: "ext \<Rightarrow> oplog \<Rightarrow> (oid \<Rightarrow> aview) \<Rightarrow> oid list \<Rightarrow> aview" where
  "a_merged x log \<alpha> ops =
     (case btree_list ops of [] \<Rightarrow> a_empty | i # is \<Rightarrow> a_merge_fold x log \<alpha> [i] is (\<alpha> i))"

lemma extends_of_step: "step_ok h s s' \<Longrightarrow> extends (node_get h) s s'"
  by simp

lemma step_ok_refl [simp]: "objs_ok h s \<Longrightarrow> step_ok h s s"
  by (simp add: extends_def)

lemma step_ok_trans: "step_ok h s s' \<Longrightarrow> step_ok h s' s'' \<Longrightarrow> step_ok h s s''"
  by (meson extends_trans kept_trans)

lemma merge_base_rep:
  assumes h: "collision_free (ext_hash x)" and log: "log_rep x log \<alpha>"
    and ops: "set ops \<subseteq> log_verified log" "ops \<noteq> []" and s: "step_ok (ext_hash x) (log_store log) s"
  shows "\<exists>s' b. merge_base x log s ops = Inr (s', b) \<and> step_ok (ext_hash x) s s' \<and>
     view_rep (ext_hash x) s' b (a_base x log \<alpha> ops)"
proof (cases "latest_common x log ops = {}")
  case True
  with view_empty_rep [OF h, of s] s log_rep_lca(1) [OF log ops] show ?thesis
    by (auto simp: merge_base_def a_base_def)
next
  case False
  let ?i = "Min (latest_common x log ops)"
  have "?i \<in> latest_common x log ops" using log_rep_lca(3) [OF log ops] False by simp
  with log_rep_lca(2) [OF log ops] have "?i \<in> log_verified log" by blast
  then obtain v where v: "view_of x log ?i = Inr v" "view_rep (ext_hash x) (log_store log) v (\<alpha> ?i)"
    using log by (auto simp: log_rep_def)
  from view_rep_mono [OF v(2) extends_of_step [OF s]] False v(1) log_rep_lca(1) [OF log ops] s show ?thesis
    by (auto simp: merge_base_def a_base_def intro!: exI [of _ s] step_ok_refl)
qed

lemma merge_fold_rep:
  assumes h: "collision_free (ext_hash x)" and log: "log_rep x log \<alpha>"
  shows "set folded \<subseteq> log_verified log \<Longrightarrow> set is \<subseteq> log_verified log \<Longrightarrow>
     step_ok (ext_hash x) (log_store log) s \<Longrightarrow> view_rep (ext_hash x) s acc av \<Longrightarrow>
     \<exists>s' w. merge_fold x log folded is (s, acc) = Inr (s', w) \<and> step_ok (ext_hash x) s s' \<and>
       view_rep (ext_hash x) s' w (a_merge_fold x log \<alpha> folded is av)"
proof (induction "is" arbitrary: folded s acc av)
  case Nil
  then show ?case by (auto intro!: exI [of _ s])
next
  case (Cons i "is")
  let ?h = "ext_hash x"
  obtain s1 b where 1: "merge_base x log s (folded @ [i]) = Inr (s1, b)" "step_ok ?h s s1"
    "view_rep ?h s1 b (a_base x log \<alpha> (folded @ [i]))"
    using merge_base_rep [OF h log _ _ Cons.prems(3), of "folded @ [i]"] Cons.prems(1,2) by auto
  from Cons.prems(2) log obtain nv where nv: "view_of x log i = Inr nv" "view_rep ?h (log_store log) nv (\<alpha> i)"
    by (auto simp: log_rep_def)
  have s1: "step_ok ?h (log_store log) s1" by (rule step_ok_trans [OF Cons.prems(3) 1(2)])
  have "refines ?h s1 (view_merge ?h s1 b acc nv) (Inr (a_merge (a_base x log \<alpha> (folded @ [i])) av (\<alpha> i)))"
    by (rule view_merge_refines_aux [OF h _ 1(3) view_rep_mono [OF Cons.prems(4)] view_rep_mono [OF nv(2)]])
       (use 1(2) s1 in auto)
  then obtain s2 acc' where 2: "view_merge ?h s1 b acc nv = Inr (s2, acc')" "step_ok ?h s1 s2"
    "view_rep ?h s2 acc' (a_merge (a_base x log \<alpha> (folded @ [i])) av (\<alpha> i))" by (auto simp: refines_def)
  have s2: "step_ok ?h (log_store log) s2" by (rule step_ok_trans [OF s1 2(2)])
  from Cons.IH [OF _ _ s2 2(3), of "folded @ [i]"] Cons.prems(1,2) obtain s' w where
    3: "merge_fold x log (folded @ [i]) is (s2, acc') = Inr (s', w)" "step_ok ?h s2 s'"
    "view_rep ?h s' w (a_merge_fold x log \<alpha> (folded @ [i]) is (a_merge (a_base x log \<alpha> (folded @ [i])) av (\<alpha> i)))"
    by auto
  have "step_ok ?h s s'" by (rule step_ok_trans [OF 1(2) step_ok_trans [OF 2(2) 3(2)]])
  with 1(1) 2(1) 3 nv(1) show ?case by simp
qed

lemma merged_view_rep:
  assumes h: "collision_free (ext_hash x)" and log: "log_rep x log \<alpha>" and ops: "set ops \<subseteq> log_verified log"
  shows "refines (ext_hash x) (log_store log) (merged_view x log ops) (Inr (a_merged x log \<alpha> ops))"
proof (cases "btree_list ops")
  case Nil
  with view_empty_rep [OF h, of "log_store log"] log show ?thesis
    by (auto simp: refines_def merged_view_def a_merged_def log_rep_def)
next
  case (Cons i "is")
  then have mem: "i \<in> log_verified log" "set is \<subseteq> log_verified log"
    using ops set_btree_list [of ops] by auto
  from log have ok: "objs_ok (ext_hash x) (log_store log)" by (simp add: log_rep_def)
  from mem(1) log obtain v where v: "view_of x log i = Inr v" "view_rep (ext_hash x) (log_store log) v (\<alpha> i)"
    by (auto simp: log_rep_def)
  have mv: "merged_view x log ops = rbind (view_of x log i) (\<lambda>acc. merge_fold x log [i] is (log_store log, acc))"
    using Cons by (cases "is") (simp_all add: merged_view_def)
  from merge_fold_rep [OF h log _ mem(2) step_ok_refl [OF ok] v(2), of "[i]"] mem(1) v(1) mv Cons show ?thesis
    by (auto simp: refines_def a_merged_def)
qed

text \<open>C8: on a log whose verified operations have stored views, the merged view of verified operations
  exists, and it stands for the fold of the specification's merge over their abstract views in the order
  of the ids, each round over the view of the latest common ancestor of what was folded so far.\<close>

theorem merged_view_refines:
  assumes "collision_free (ext_hash x)" and "log_rep x log \<alpha>" and "set ops \<subseteq> log_verified log"
  shows "refines (ext_hash x) (log_store log) (merged_view x log ops) (Inr (a_merged x log \<alpha> ops))"
  using assms by (rule merged_view_rep)

text \<open>The merged view depends on the set of operations only, not on the order or the repetition in which
  a replica names them.\<close>

theorem merged_view_order:
  "set ops = set ops' \<Longrightarrow> merged_view x log ops = merged_view x log ops'"
  by (simp add: merged_view_def btree_list_eqI [of ops ops'])

end
