(* ===== verification/Oplog_Props.thy ===== *)
theory Oplog_Props
  imports Oplog Dag_Props
begin

text \<open>
  The invariant of the log, kept by every accepted operation: verified operations are closed under
  parents, have stored views that stand for abstract views, the heads are the verified operations that
  no verified operation has as a parent, and the idempotency index points at the operations that carry
  its keys. The view of an accepted operation is the abstract view its effects produce.
\<close>

section \<open>Growing the store\<close>

lemma parents_of_kept:
  "kept (log_store log) (log_store log') \<Longrightarrow> parents_of x log i = Inr ps \<Longrightarrow> parents_of x log' i = Inr ps"
  by (auto simp: parents_of_def get_op_def result_simps dest: kept_obj_get)

lemma reached_cong:
  assumes "A \<subseteq> U" and "closed_under succs U" and "\<And>i. i \<in> U \<Longrightarrow> succs' i = succs i"
  shows "reached succs' A = reached succs A"
proof
  have le: "reached f A \<subseteq> reached g A"
    if fg: "closed_under f U" "\<And>i. i \<in> U \<Longrightarrow> f i = g i" for f g :: "'a \<Rightarrow> 'a list res"
  proof
    fix i assume "i \<in> reached f A"
    then have "i \<in> reached g A \<and> i \<in> U"
    proof induction
      case (step i js j)
      with fg have "g i = Inr js" "set js \<subseteq> U" unfolding closed_under_def by auto
      with step show ?case by (auto intro: reached.step)
    qed (use assms(1) in \<open>auto intro: reached.start\<close>)
    then show "i \<in> reached g A" ..
  qed
  show "reached succs A \<subseteq> reached succs' A" by (rule le) (use assms in auto)
  have "closed_under succs' U" using assms(2,3) by (simp add: closed_under_def)
  then show "reached succs' A \<subseteq> reached succs A" by (rule le) (use assms in auto)
qed

lemma anc_kept:
  assumes "log_rep x log \<alpha>" and "kept (log_store log) (log_store log')" and "i \<in> log_verified log"
  shows "anc x log' i = anc x log i"
  unfolding anc_def
proof (rule reached_cong [where U = "log_verified log"])
  show "closed_under (parents_of x log) (log_verified log)"
    using log_rep_parents [OF assms(1)] by (auto simp: closed_under_def)
  fix j assume "j \<in> log_verified log"
  with assms(1) obtain ps where "parents_of x log j = Inr ps" unfolding log_rep_def by blast
  with parents_of_kept [OF assms(2)] show "parents_of x log' j = parents_of x log j" by simp
qed (use assms(3) in simp)

lemma latest_common_kept:
  assumes "log_rep x log \<alpha>" and "kept (log_store log) (log_store log')" and "set ops \<subseteq> log_verified log" and "ops \<noteq> []"
  shows "latest_common x log' ops = latest_common x log ops"
proof -
  note same = anc_kept [OF assms(1,2)]
  have c: "common_anc x log' ops = common_anc x log ops"
    using assms(3) same by (auto simp: common_anc_def)
  have "common_anc x log ops \<subseteq> anc x log (hd ops)" using assms(4) by (auto simp: common_anc_def)
  also have "\<dots> \<subseteq> log_verified log" using assms(3,4) by (intro log_rep_anc [OF assms(1)]) (cases ops; auto)
  finally have "\<And>b. b \<in> common_anc x log ops \<Longrightarrow> anc x log' b = anc x log b" using same by blast
  with c show ?thesis by (auto simp: latest_common_def)
qed

lemma a_merged_kept:
  assumes "log_rep x log \<alpha>" and "kept (log_store log) (log_store log')" and "set ops \<subseteq> log_verified log"
  shows "a_merged x log' \<alpha> ops = a_merged x log \<alpha> ops"
proof -
  have base: "a_base x log' \<alpha> os = a_base x log \<alpha> os" if "set os \<subseteq> log_verified log" "os \<noteq> []" for os
    using latest_common_kept [OF assms(1,2) that] by (simp add: a_base_def)
  have fold: "a_merge_fold x log' \<alpha> folded is acc = a_merge_fold x log \<alpha> folded is acc"
    if "set folded \<subseteq> log_verified log" "set is \<subseteq> log_verified log" for folded "is" acc
    using that
  proof (induction "is" arbitrary: folded acc)
    case (Cons j js)
    with base [of "folded @ [j]"] show ?case by simp
  qed simp
  show ?thesis
  proof (cases "btree_list ops")
    case (Cons i "is")
    then have "i \<in> log_verified log" "set is \<subseteq> log_verified log" using assms(3) set_btree_list [of ops] by auto
    with fold Cons show ?thesis by (simp add: a_merged_def)
  qed (simp add: a_merged_def)
qed

lemma view_of_store: "view_of x (log\<lparr>log_store := s\<rparr>) i = Inr v" if "view_of x log i = Inr v" "kept (log_store log) s"
proof (cases "log_views log i")
  case None
  with that obtain p where "get_op x log i = Inr p" "obj_get (ext_hash x) as_view (log_store log) (op_view p) = Inr v"
    by (auto simp: view_of_def result_simps)
  with that(2) None show ?thesis by (auto simp: view_of_def get_op_def result_simps dest: kept_obj_get)
qed (use that in \<open>auto simp: view_of_def dest: kept_obj_get\<close>)

lemma log_rep_store:
  assumes "log_rep x log \<alpha>" and "step_ok (ext_hash x) (log_store log) s"
  shows "log_rep x (log\<lparr>log_store := s\<rparr>) \<alpha>"
  unfolding log_rep_def
proof (intro conjI ballI)
  fix i assume "i \<in> log_verified (log\<lparr>log_store := s\<rparr>)"
  then have i: "i \<in> log_verified log" by simp
  then obtain ps v where 1: "parents_of x log i = Inr ps" "set ps \<subseteq> log_verified log"
    "view_of x log i = Inr v" "view_rep (ext_hash x) (log_store log) v (\<alpha> i)"
    using assms(1) unfolding log_rep_def by blast
  have "parents_of x (log\<lparr>log_store := s\<rparr>) i = Inr ps"
    by (rule parents_of_kept [OF _ 1(1)]) (use assms(2) in simp)
  with 1(2) show "\<exists>ps. parents_of x (log\<lparr>log_store := s\<rparr>) i = Inr ps \<and> set ps \<subseteq> log_verified (log\<lparr>log_store := s\<rparr>)" by simp
  have "view_of x (log\<lparr>log_store := s\<rparr>) i = Inr v" by (rule view_of_store [OF 1(3)]) (use assms(2) in simp)
  with view_rep_mono [OF 1(4) extends_of_step [OF assms(2)]]
  show "\<exists>v. view_of x (log\<lparr>log_store := s\<rparr>) i = Inr v \<and>
      view_rep (ext_hash x) (log_store (log\<lparr>log_store := s\<rparr>)) v (\<alpha> i)" by simp
qed (use assms in \<open>simp_all add: log_rep_def\<close>)

section \<open>The view of a verified operation\<close>

lemma extends_put: "extends (node_get h) s (fst (obj_put h s y))"
  by (auto simp: extends_def node_get_def intro: obj_put_mono)

lemma step_ok_put: "objs_ok h s \<Longrightarrow> step_ok h s (fst (obj_put h s y))"
  by (simp add: objs_ok_put extends_put)

lemma check_determinism_rep:
  assumes h: "collision_free (ext_hash x)" and s: "objs_ok (ext_hash x) s" and v: "view_rep (ext_hash x) s v av"
    and ids: "\<forall>e \<in> set (op_effects p). effect_ids_ok e"
    and d: "check_determinism x s v p parent = Inr (s', w)"
  shows "step_ok (ext_hash x) s s' \<and> ext_hash x (OView w) = op_view p \<and> s' (op_view p) \<noteq> None \<and>
     (\<exists>aw. a_effects parent (op_effects p) av = Inr aw \<and> view_rep (ext_hash x) s' w aw)"
proof -
  from d obtain s1 where 1: "apply_effects (ext_hash x) s v (op_effects p) parent = Inr (s1, w)"
    "s' = fst (obj_put (ext_hash x) s1 (OView w))" "ext_hash x (OView w) = op_view p"
    by (auto simp: check_determinism_def store_view_def obj_put_def result_simps)
  from apply_effects_refines_aux [OF h s v ids, of parent] 1(1) obtain aw where
    aw: "a_effects parent (op_effects p) av = Inr aw" and s1: "step_ok (ext_hash x) s s1" "view_rep (ext_hash x) s1 w aw"
    by (auto simp: refines_def split: sum.splits)
  have put: "step_ok (ext_hash x) s1 s'" unfolding 1(2) by (rule step_ok_put) (use s1 in simp)
  have "s' (op_view p) \<noteq> None" using 1(2,3) by (auto simp: obj_put_def split: option.splits)
  with step_ok_trans [OF s1(1) put] 1(3) aw view_rep_mono [OF s1(2) extends_of_step [OF put]] show ?thesis by blast
qed

lemma verify_op_rep:
  assumes h: "collision_free (ext_hash x)" and log: "log_rep x log \<alpha>" and heads: "set (log_heads log) \<subseteq> log_verified log"
    and ids: "\<forall>e \<in> set (op_effects p). effect_ids_ok e" and v: "verify_op x cache log p = Inr (s', w)"
  shows "step_ok (ext_hash x) (log_store log) s' \<and> ext_hash x (OView w) = op_view p \<and> s' (op_view p) \<noteq> None \<and>
     set (op_parents p) \<subseteq> log_verified log \<and>
     (\<exists>aw. view_rep (ext_hash x) s' w aw \<and>
        (if op_parents p = [] then log_heads log = [] \<and> a_effects None (op_effects p) a_empty = Inr aw
         else a_effects (Some (hd (op_parents p))) (op_effects p) (a_merged x log \<alpha> (op_parents p)) = Inr aw))"
proof (cases "op_parents p = []")
  case True
  with v have "verify_init x log p = Inr (s', w)" by (auto simp: verify_op_def result_simps)
  then obtain s1 e where 1: "log_heads log = []" "view_empty (ext_hash x) (log_store log) = Inr (s1, e)"
    "check_determinism x s1 e p None = Inr (s', w)"
    by (auto simp: verify_init_def result_simps Let_def)
  from log have "objs_ok (ext_hash x) (log_store log)" by (simp add: log_rep_def)
  from view_empty_rep [OF h this] 1(2) have s1: "step_ok (ext_hash x) (log_store log) s1" "view_rep (ext_hash x) s1 e a_empty"
    by auto
  from check_determinism_rep [OF h _ s1(2) ids 1(3)] s1(1) True 1(1) show ?thesis
    using step_ok_trans [OF s1(1)] by auto
next
  case False
  from verify_op_steps [OF v False] obtain s u c where "verified_with x cache log p s u c s' w" by blast
  then obtain s1 where 1: "set (op_parents p) \<subseteq> log_verified log" "merged_view x log (op_parents p) = Inr (s1, u)"
    "current_view x (log\<lparr>log_store := s1\<rparr>) = Inr (s, c)" "check_determinism x s u p (Some (hd (op_parents p))) = Inr (s', w)"
    by (auto simp: verified_with_def)
  from merged_view_rep [OF h log 1(1)] 1(2) have s1: "step_ok (ext_hash x) (log_store log) s1"
    "view_rep (ext_hash x) s1 u (a_merged x log \<alpha> (op_parents p))" by (auto simp: refines_def)
  have "refines (ext_hash x) s1 (current_view x (log\<lparr>log_store := s1\<rparr>))
      (Inr (a_merged x (log\<lparr>log_store := s1\<rparr>) \<alpha> (log_heads log)))"
    using merged_view_rep [OF h log_rep_store [OF log s1(1)], of "log_heads log"] heads by (simp add: current_view_def)
  with 1(3) have s: "step_ok (ext_hash x) s1 s" by (auto simp: refines_def)
  have u: "view_rep (ext_hash x) s u (a_merged x log \<alpha> (op_parents p))"
    by (rule view_rep_mono [OF s1(2) extends_of_step [OF s]])
  from check_determinism_rep [OF h _ u ids 1(4)] s False 1(1) show ?thesis
    using step_ok_trans [OF step_ok_trans [OF s1(1) s]] by auto
qed

end
