(* ===== verification/Log_Invariant.thy ===== *)
theory Log_Invariant
  imports Oplog_Props
begin

text \<open>
  The invariant of the operation log, by rule induction over the logs that can be reached from an empty
  one by accepting operations and by adding objects to the store: every verified operation is stored
  with its view, its parents were verified before it, its view stands for the abstract view that its
  effects produce from the merged views of its parents, the heads cover all verified operations, and
  the idempotency index points at operations that carry the key.
\<close>

section \<open>The invariant\<close>

text \<open>No object shares its id with a trie node, an operation or a view.\<close>

definition sound_hash :: "(obj \<Rightarrow> oid) \<Rightarrow> bool" where
  "sound_hash h \<longleftrightarrow> collision_free h \<and> (\<forall>p y. h y = h (OOp p) \<longrightarrow> y = OOp p) \<and>
     (\<forall>v y. h y = h (OView v) \<longrightarrow> y = OView v)"

definition stored_op :: "oplog \<Rightarrow> oid \<Rightarrow> op \<Rightarrow> bool" where
  "stored_op log i p \<longleftrightarrow> log_store log i = Some (OOp p)"

text \<open>The abstract view that the effects of an operation produce.\<close>

definition a_op :: "ext \<Rightarrow> oplog \<Rightarrow> (oid \<Rightarrow> aview) \<Rightarrow> op \<Rightarrow> aview res" where
  "a_op x log \<alpha> p =
     (if op_parents p = [] then a_effects None (op_effects p) a_empty
      else a_effects (Some (hd (op_parents p))) (op_effects p) (a_merged x log \<alpha> (op_parents p)))"

definition ops_ok :: "ext \<Rightarrow> oplog \<Rightarrow> (oid \<Rightarrow> aview) \<Rightarrow> bool" where
  "ops_ok x log \<alpha> \<longleftrightarrow>
     (\<forall>i \<in> log_verified log. \<exists>p. stored_op log i p \<and> ext_hash x (OOp p) = i \<and>
        log_views log i = Some (op_view p) \<and> a_op x log \<alpha> p = Inr (\<alpha> i))"

definition heads_ok :: "ext \<Rightarrow> oplog \<Rightarrow> bool" where
  "heads_ok x log \<longleftrightarrow>
     sorted (log_heads log) \<and> distinct (log_heads log) \<and> set (log_heads log) \<subseteq> log_verified log \<and>
     (\<forall>i \<in> log_verified log. \<exists>h \<in> set (log_heads log). i \<in> anc x log h)"

definition idem_ok :: "oplog \<Rightarrow> bool" where
  "idem_ok log \<longleftrightarrow>
     (\<forall>k i. log_idem log k = Some i \<longrightarrow>
        i \<in> log_verified log \<and> (\<exists>p. stored_op log i p \<and> idem_key p = Some k))"

text \<open>The operations, the latest first, with the parents of each among the earlier ones.\<close>

fun history :: "ext \<Rightarrow> oplog \<Rightarrow> oid list \<Rightarrow> bool" where
  "history x log [] \<longleftrightarrow> True"
| "history x log (i # is) \<longleftrightarrow>
     i \<notin> set is \<and> (\<exists>ps. parents_of x log i = Inr ps \<and> set ps \<subseteq> set is) \<and> history x log is"

definition log_ok :: "ext \<Rightarrow> oplog \<Rightarrow> (oid \<Rightarrow> aview) \<Rightarrow> bool" where
  "log_ok x log \<alpha> \<longleftrightarrow>
     log_rep x log \<alpha> \<and> ops_ok x log \<alpha> \<and> heads_ok x log \<and> idem_ok log \<and>
     (\<exists>is. set is = log_verified log \<and> history x log is)"

lemma ops_okE:
  assumes "ops_ok x log \<alpha>" and "i \<in> log_verified log"
  obtains p :: op where "stored_op log i p" "ext_hash x (OOp p) = i" "log_views log i = Some (op_view p)"
    "a_op x log \<alpha> p = Inr (\<alpha> i)"
  using assms unfolding ops_ok_def by blast

lemma idem_okD: "idem_ok log \<Longrightarrow> log_idem log k = Some i \<Longrightarrow> i \<in> log_verified log"
  unfolding idem_ok_def by (cases k) blast

section \<open>What does not change\<close>

lemma history_kept: "history x log is \<Longrightarrow> kept (log_store log) (log_store log') \<Longrightarrow> history x log' is"
  by (induction "is") (auto dest: parents_of_kept)

lemma log_rep_cong: "log_rep x log \<alpha> \<Longrightarrow> (\<And>j. j \<in> log_verified log \<Longrightarrow> \<beta> j = \<alpha> j) \<Longrightarrow> log_rep x log \<beta>"
  by (simp add: log_rep_def)

lemma a_merged_cong:
  assumes "log_rep x log \<alpha>" and "set ops \<subseteq> log_verified log" and "\<And>i. i \<in> log_verified log \<Longrightarrow> \<beta> i = \<alpha> i"
  shows "a_merged x log \<beta> ops = a_merged x log \<alpha> ops"
proof -
  have base: "a_base x log \<beta> os = a_base x log \<alpha> os" if "set os \<subseteq> log_verified log" "os \<noteq> []" for os
  proof (cases "latest_common x log os = {}")
    case False
    then have "Min (latest_common x log os) \<in> log_verified log"
      using log_rep_lca(2,3) [OF assms(1) that] Min_in by blast
    with False assms(3) show ?thesis by (simp add: a_base_def)
  qed (simp add: a_base_def)
  have fold: "a_merge_fold x log \<beta> folded is acc = a_merge_fold x log \<alpha> folded is acc"
    if "set folded \<subseteq> log_verified log" "set is \<subseteq> log_verified log" for folded "is" acc
    using that
  proof (induction "is" arbitrary: folded acc)
    case (Cons j js)
    with base [of "folded @ [j]"] assms(3) show ?case by simp
  qed simp
  show ?thesis
  proof (cases "btree_list ops")
    case (Cons i "is")
    then have "i \<in> log_verified log" "set is \<subseteq> log_verified log" using assms(2) set_btree_list [of ops] by auto
    with fold Cons assms(3) show ?thesis by (simp add: a_merged_def)
  qed (simp add: a_merged_def)
qed

text \<open>A log that grew: more objects, more operations, the same views for the old ones.\<close>

definition grown :: "oplog \<Rightarrow> oplog \<Rightarrow> bool" where
  "grown log log' \<longleftrightarrow> kept (log_store log) (log_store log') \<and> log_verified log \<subseteq> log_verified log' \<and>
     (\<forall>i \<in> log_verified log. log_views log' i = log_views log i)"

lemma grown_op:
  assumes "log_rep x log \<alpha>" and "ops_ok x log \<alpha>" and "grown log log'" and "i \<in> log_verified log"
    and "\<And>j. j \<in> log_verified log \<Longrightarrow> \<beta> j = \<alpha> j"
  shows "\<exists>p. stored_op log' i p \<and> ext_hash x (OOp p) = i \<and> log_views log' i = Some (op_view p) \<and>
    a_op x log' \<beta> p = Inr (\<beta> i)"
proof -
  from assms(2,4) obtain p where p: "stored_op log i p" "ext_hash x (OOp p) = i" "log_views log i = Some (op_view p)"
    "a_op x log \<alpha> p = Inr (\<alpha> i)" unfolding ops_ok_def by blast
  from p(1,2) have "parents_of x log i = Inr (op_parents p)"
    by (simp add: stored_op_def parents_of_def get_op_def obj_get_def)
  with log_rep_parents [OF assms(1,4)] have ps: "set (op_parents p) \<subseteq> log_verified log" by blast
  have k: "kept (log_store log) (log_store log')" using assms(3) by (simp add: grown_def)
  have r: "a_merged x log' \<beta> (op_parents p) = a_merged x log \<alpha> (op_parents p)"
    using a_merged_cong [OF assms(1) ps assms(5)] a_merged_kept [OF log_rep_cong [OF assms(1,5)] k ps] by simp
  from p(1) k have "stored_op log' i p" by (auto simp: stored_op_def kept_def)
  with p(2-4) r assms(3-5) show ?thesis by (auto simp: grown_def a_op_def)
qed

lemma log_ok_cong:
  assumes "log_ok x log \<alpha>" and "\<And>j. j \<in> log_verified log \<Longrightarrow> \<beta> j = \<alpha> j"
  shows "log_ok x log \<beta>"
proof -
  from assms(1) have l: "log_rep x log \<alpha>" "ops_ok x log \<alpha>" by (simp_all add: log_ok_def)
  have "grown log log" by (simp add: grown_def)
  from grown_op [OF l this _ assms(2)] have "ops_ok x log \<beta>" unfolding ops_ok_def by blast
  with assms(1) log_rep_cong [OF l(1) assms(2)] show ?thesis by (simp add: log_ok_def)
qed

section \<open>Recording an operation\<close>

lemma record_op_store:
  assumes h: "sound_hash (ext_hash x)" and s: "objs_ok (ext_hash x) s" and r: "record_op x log p s w = (log', i)"
  shows "step_ok (ext_hash x) s (log_store log')" and "stored_op log' i p"
    and "log_store log' (ext_hash x (OView w)) = Some (OView w)"
proof -
  let ?s1 = "fst (obj_put (ext_hash x) s (OOp p))"
  note f = record_op_fields [OF r]
  have 1: "step_ok (ext_hash x) s ?s1" by (rule step_ok_put [OF s])
  have 2: "step_ok (ext_hash x) ?s1 (log_store log')" unfolding f(6) by (rule step_ok_put) (use 1 in simp)
  from step_ok_trans [OF 1 2] show "step_ok (ext_hash x) s (log_store log')" .
  have "?s1 i = Some (OOp p)"
    unfolding f(1) by (rule obj_put_stored [OF s]) (use h in \<open>simp add: sound_hash_def\<close>)
  with 2 show "stored_op log' i p" by (simp add: stored_op_def kept_def)
  show "log_store log' (ext_hash x (OView w)) = Some (OView w)"
    unfolding f(6) by (rule obj_put_stored) (use 1 h in \<open>simp_all add: sound_hash_def\<close>)
qed

lemma stored_parents: "stored_op log i p \<Longrightarrow> ext_hash x (OOp p) = i \<Longrightarrow> parents_of x log i = Inr (op_parents p)"
  by (simp add: stored_op_def parents_of_def get_op_def obj_get_def)

lemma stored_view:
  "log_views log i = Some vid \<Longrightarrow> log_store log vid = Some (OView v) \<Longrightarrow> ext_hash x (OView v) = vid \<Longrightarrow>
     view_of x log i = Inr v"
  by (simp add: view_of_def obj_get_def)

text \<open>Two operations with the same id are one.\<close>

lemma stored_same: "sound_hash (ext_hash x) \<Longrightarrow> ext_hash x (OOp p) = ext_hash x (OOp q) \<Longrightarrow> p = q"
  by (auto simp: sound_hash_def)

lemma record_grown:
  assumes h: "sound_hash (ext_hash x)" and ops: "ops_ok x log \<alpha>" and s: "step_ok (ext_hash x) (log_store log) s"
    and r: "record_op x log p s w = (log', i)"
  shows "grown log log'"
  unfolding grown_def
proof (intro conjI ballI)
  note f = record_op_fields [OF r]
  have "objs_ok (ext_hash x) s" using s by simp
  note st = record_op_store [OF h this r]
  from step_ok_trans [OF s st(1)] show "kept (log_store log) (log_store log')" by simp
  from f(2) show "log_verified log \<subseteq> log_verified log'" by auto
  fix j assume "j \<in> log_verified log"
  with ops obtain q where "ext_hash x (OOp q) = j" "log_views log j = Some (op_view q)"
    unfolding ops_ok_def by blast
  with f(1,4) stored_same [OF h] show "log_views log' j = log_views log j" by (cases "j = i") auto
qed

lemma record_heads_ok:
  assumes log: "log_rep x log \<alpha>" and heads: "heads_ok x log" and g: "grown log log'"
    and r: "record_op x log p s w = (log', i)" and p: "parents_of x log' i = Inr (op_parents p)"
  shows "heads_ok x log'"
proof -
  note f = record_op_fields [OF r]
  have k: "kept (log_store log) (log_store log')" using g by (simp add: grown_def)
  have "\<exists>h \<in> set (log_heads log'). j \<in> anc x log' h" if j: "j \<in> log_verified log'" for j
  proof (cases "j = i")
    case True
    then show ?thesis using f(3) by auto
  next
    case False
    with j f(2) have "j \<in> log_verified log" by simp
    with heads obtain h where h: "h \<in> set (log_heads log)" "j \<in> anc x log h" unfolding heads_ok_def by blast
    then have "h \<in> log_verified log" using heads by (auto simp: heads_ok_def)
    with anc_kept [OF log k] h(2) have jh: "j \<in> anc x log' h" by simp
    show ?thesis
    proof (cases "h \<in> set (op_parents p)")
      case True
      then have "h \<in> anc x log' i" using p by (auto simp: anc_def intro: reached.intros)
      with jh f(3) anc_trans [of h x log' i j] show ?thesis by auto
    qed (use jh h(1) f(3) in auto)
  qed
  moreover have "set (log_heads log') \<subseteq> log_verified log'" using f(2,3) heads by (auto simp: heads_ok_def)
  ultimately show ?thesis using f(3) by (simp add: heads_ok_def)
qed

lemma record_idem_ok:
  assumes "idem_ok log" and "grown log log'" and "record_op x log p s w = (log', i)" and "stored_op log' i p"
  shows "idem_ok log'"
  unfolding idem_ok_def
proof (intro allI impI)
  fix k j assume kj: "log_idem log' k = Some j"
  note f = record_op_fields [OF assms(3)]
  show "j \<in> log_verified log' \<and> (\<exists>p. stored_op log' j p \<and> idem_key p = Some k)"
  proof (cases "idem_key p = Some k")
    case True
    with kj f(2,5) assms(4) show ?thesis by auto
  next
    case False
    with kj f(5) have "log_idem log k = Some j" by (auto split: option.splits if_splits)
    with assms(1) obtain q where "j \<in> log_verified log" "stored_op log j q" "idem_key q = Some k"
      unfolding idem_ok_def by blast
    with assms(2) f(2) show ?thesis by (auto simp: grown_def stored_op_def kept_def)
  qed
qed

lemma record_history:
  assumes "set is = log_verified log" and "history x log is" and "grown log log'"
    and "record_op x log p s w = (log', i)" and "parents_of x log' i = Inr (op_parents p)"
    and "set (op_parents p) \<subseteq> log_verified log"
  shows "\<exists>is. set is = log_verified log' \<and> history x log' is"
proof -
  note f = record_op_fields [OF assms(4)]
  have h: "history x log' is" using history_kept [OF assms(2)] assms(3) by (simp add: grown_def)
  show ?thesis
  proof (cases "i \<in> log_verified log")
    case True
    with f(2) assms(1) h show ?thesis by (intro exI [of _ "is"]) auto
  next
    case False
    with f(2) assms(1,5,6) h show ?thesis by (intro exI [of _ "i # is"]) auto
  qed
qed

text \<open>The parts of the invariant that speak of views: the new operation gets the view \<open>aw\<close>, unless it was there.\<close>

lemma record_views:
  assumes h: "sound_hash (ext_hash x)" and log: "log_rep x log \<alpha>" "ops_ok x log \<alpha>"
    and s: "step_ok (ext_hash x) (log_store log) s" and r: "record_op x log p s w = (log', i)"
    and w: "view_rep (ext_hash x) s w aw" "ext_hash x (OView w) = op_view p"
    and ps: "set (op_parents p) \<subseteq> log_verified log" and a: "a_op x log \<alpha> p = Inr aw"
  shows "\<exists>\<beta>. log_rep x log' \<beta> \<and> ops_ok x log' \<beta> \<and> \<beta> i = aw \<and> (\<forall>j \<in> log_verified log. \<beta> j = \<alpha> j)"
proof -
  note f = record_op_fields [OF r]
  have ok: "objs_ok (ext_hash x) s" using s by simp
  note st = record_op_store [OF h ok r]
  have g: "grown log log'" by (rule record_grown [OF h log(2) s r])
  have k: "kept (log_store log) (log_store log')" using g by (simp add: grown_def)
  have i: "ext_hash x (OOp p) = i" using f(1) by simp
  have old: "\<alpha> i = aw" if "i \<in> log_verified log"
  proof -
    from log(2) that obtain q where "ext_hash x (OOp q) = i" "a_op x log \<alpha> q = Inr (\<alpha> i)"
      unfolding ops_ok_def by blast
    with stored_same [OF h, of q p] i a show ?thesis by simp
  qed
  let ?\<beta> = "\<alpha>(i := aw)"
  have \<beta>: "\<And>j. j \<in> log_verified log \<Longrightarrow> ?\<beta> j = \<alpha> j" using old by fastforce
  have same: "a_merged x log' ?\<beta> (op_parents p) = a_merged x log \<alpha> (op_parents p)"
    by (rule trans [OF a_merged_kept [OF log_rep_cong [OF log(1) \<beta>] k ps] a_merged_cong [OF log(1) ps \<beta>]])
  have "ops_ok x log' ?\<beta>"
    unfolding ops_ok_def
  proof
    fix j assume "j \<in> log_verified log'"
    then consider "j \<in> log_verified log" | "j = i" using f(2) by auto
    then show "\<exists>p. stored_op log' j p \<and> ext_hash x (OOp p) = j \<and> log_views log' j = Some (op_view p) \<and>
        a_op x log' ?\<beta> p = Inr (?\<beta> j)"
    proof cases
      case 1
      with grown_op [OF log g _ \<beta>] show ?thesis by blast
    next
      case 2
      with st(2) i f(4) a same show ?thesis by (intro exI [of _ p]) (auto simp: a_op_def split: if_splits)
    qed
  qed
  moreover have "log_rep x log' ?\<beta>"
    unfolding log_rep_def
  proof (intro conjI ballI)
    show "objs_ok (ext_hash x) (log_store log')" using st(1) by simp
    show "finite (log_verified log')" using f(2) log(1) by (simp add: log_rep_def)
    fix j assume j: "j \<in> log_verified log'"
    show "\<exists>ps. parents_of x log' j = Inr ps \<and> set ps \<subseteq> log_verified log'"
    proof (cases "j = i")
      case True
      with stored_parents [OF st(2) i] ps f(2) show ?thesis by auto
    next
      case False
      with j f(2) log(1) obtain ps' where "parents_of x log j = Inr ps'" "set ps' \<subseteq> log_verified log"
        unfolding log_rep_def by blast
      with parents_of_kept [OF k] f(2) show ?thesis by blast
    qed
    show "\<exists>v. view_of x log' j = Inr v \<and> view_rep (ext_hash x) (log_store log') v (?\<beta> j)"
    proof (cases "j = i")
      case True
      with stored_view [of log' i "op_view p" w x] f(4) st(3) w(2) have "view_of x log' j = Inr w" by simp
      with True view_rep_mono [OF w(1) extends_of_step [OF st(1)]] show ?thesis by simp
    next
      case False
      with j f(2) have j: "j \<in> log_verified log" by simp
      with log(1) obtain v where v: "view_of x log j = Inr v" "view_rep (ext_hash x) (log_store log) v (\<alpha> j)"
        unfolding log_rep_def by blast
      from log(2) j obtain q :: op where q: "log_views log j = Some (op_view q)" by (rule ops_okE)
      with g j have q': "log_views log' j = Some (op_view q)" by (simp add: grown_def)
      from v(1) q have "view_of x log' j = Inr v" using kept_obj_get [OF k] q' by (simp add: view_of_def)
      with False view_rep_mono [OF v(2) extends_of_step [OF step_ok_trans [OF s st(1)]]] show ?thesis by auto
    qed
  qed
  ultimately show ?thesis using \<beta> by (intro exI [of _ ?\<beta>]) simp
qed

section \<open>Accepting keeps the invariant\<close>

lemma accept_new_ok:
  assumes h: "sound_hash (ext_hash x)" and log: "log_ok x log \<alpha>" and ids: "\<forall>e \<in> set (op_effects p). effect_ids_ok e"
    and v: "verify_op x cache log p = Inr (s, w)" and r: "record_op x log p s w = (log', i)"
  shows "\<exists>\<beta>. log_ok x log' \<beta> \<and> a_op x log \<alpha> p = Inr (\<beta> i) \<and> (\<forall>j \<in> log_verified log. \<beta> j = \<alpha> j) \<and>
     set (op_parents p) \<subseteq> log_verified log"
proof -
  have c: "collision_free (ext_hash x)" using h by (simp add: sound_hash_def)
  from log have l: "log_rep x log \<alpha>" "ops_ok x log \<alpha>" "heads_ok x log" "idem_ok log" by (simp_all add: log_ok_def)
  from log obtain "is" where hist: "set is = log_verified log" "history x log is" by (auto simp: log_ok_def)
  have hd: "set (log_heads log) \<subseteq> log_verified log" using l(3) by (simp add: heads_ok_def)
  from verify_op_rep [OF c l(1) hd ids v] obtain aw where
    s: "step_ok (ext_hash x) (log_store log) s" and w: "ext_hash x (OView w) = op_view p" "view_rep (ext_hash x) s w aw"
    and ps: "set (op_parents p) \<subseteq> log_verified log" and a: "a_op x log \<alpha> p = Inr aw"
    by (auto simp: a_op_def split: if_splits)
  from record_views [OF h l(1,2) s r w(2,1) ps a] obtain \<beta> where
    b: "log_rep x log' \<beta>" "ops_ok x log' \<beta>" "\<beta> i = aw" "\<forall>j \<in> log_verified log. \<beta> j = \<alpha> j" by blast
  have "objs_ok (ext_hash x) s" using s by simp
  note st = record_op_store [OF h this r]
  have g: "grown log log'" by (rule record_grown [OF h l(2) s r])
  have "ext_hash x (OOp p) = i" using record_op_fields(1) [OF r] by simp
  note par = stored_parents [OF st(2) this]
  from record_heads_ok [OF l(1,3) g r par] record_idem_ok [OF l(4) g r st(2)]
    record_history [OF hist g r par ps] b a ps show ?thesis by (auto simp: log_ok_def)
qed

lemma log_ok_new: "objs_ok (ext_hash x) s \<Longrightarrow> log_ok x (log_new s) \<alpha>"
  by (auto simp: log_ok_def log_new_def log_rep_def ops_ok_def heads_ok_def idem_ok_def intro: exI [of _ "[]"])

lemma anc_store:
  "log_rep x log \<alpha> \<Longrightarrow> step_ok (ext_hash x) (log_store log) s \<Longrightarrow> i \<in> log_verified log \<Longrightarrow>
     anc x (log\<lparr>log_store := s\<rparr>) i = anc x log i"
  by (rule anc_kept) simp_all

lemma log_ok_store:
  assumes "log_ok x log \<alpha>" and "step_ok (ext_hash x) (log_store log) s"
  shows "log_ok x (log\<lparr>log_store := s\<rparr>) \<alpha>"
proof -
  let ?log = "log\<lparr>log_store := s\<rparr>"
  from assms(1) have l: "log_rep x log \<alpha>" "ops_ok x log \<alpha>" "heads_ok x log" "idem_ok log" by (simp_all add: log_ok_def)
  from assms(1) obtain "is" where hist: "set is = log_verified log" "history x log is" by (auto simp: log_ok_def)
  have g: "grown log ?log" using assms(2) by (simp add: grown_def)
  then have k: "kept (log_store log) (log_store ?log)" by (simp add: grown_def)
  have "ops_ok x ?log \<alpha>" using grown_op [OF l(1,2) g] unfolding ops_ok_def by simp
  moreover have "heads_ok x ?log"
    using l(3) anc_store [OF l(1) assms(2)] by (fastforce simp: heads_ok_def subset_iff)
  moreover have "idem_ok ?log" using l(4) k by (fastforce simp: idem_ok_def stored_op_def kept_def)
  moreover have "history x ?log is" by (rule history_kept [OF hist(2) k])
  ultimately show ?thesis using log_rep_store [OF l(1) assms(2)] hist(1) by (auto simp: log_ok_def)
qed

text \<open>The logs that can be reached: from an empty one, by accepting operations and by adding to the store.\<close>

inductive log_reach :: "ext \<Rightarrow> oplog \<Rightarrow> bool" for x where
  new: "objs_ok (ext_hash x) s \<Longrightarrow> log_reach x (log_new s)"
| stored: "log_reach x log \<Longrightarrow> step_ok (ext_hash x) (log_store log) s \<Longrightarrow> log_reach x (log\<lparr>log_store := s\<rparr>)"
| accepted: "log_reach x log \<Longrightarrow> \<forall>e \<in> set (op_effects p). effect_ids_ok e \<Longrightarrow>
    accept x cache log p = Inr (log', i) \<Longrightarrow> log_reach x log'"

lemma accept_ok:
  assumes "sound_hash (ext_hash x)" and "log_ok x log \<alpha>" and "\<forall>e \<in> set (op_effects p). effect_ids_ok e"
    and "accept x cache log p = Inr (log', i)"
  shows "\<exists>\<beta>. log_ok x log' \<beta> \<and> (\<forall>j \<in> log_verified log. \<beta> j = \<alpha> j)"
  using assms(4)
proof (cases rule: accept_cases)
  case (new s w)
  from accept_new_ok [OF assms(1-3) new(2,3)] show ?thesis by blast
qed (use assms(2) in blast)

lemma log_reach_ok: "log_reach x log \<Longrightarrow> sound_hash (ext_hash x) \<Longrightarrow> \<exists>\<alpha>. log_ok x log \<alpha>"
proof (induction rule: log_reach.induct)
  case (new s)
  then show ?case using log_ok_new by blast
next
  case (stored log s)
  then show ?case using log_ok_store by blast
next
  case (accepted log p cache log' i)
  then show ?case using accept_ok by blast
qed

section \<open>Parents before children\<close>

lemma history_closed: "history x log is \<Longrightarrow> closed_under (parents_of x log) (set is)"
  by (induction "is") (auto simp: closed_under_def)

text \<open>Only later operations descend from an operation, so no operation descends from itself.\<close>

lemma history_acyclic:
  "history x log is \<Longrightarrow> i \<in> set is \<Longrightarrow> j \<in> set is \<Longrightarrow> i \<in> anc x log j \<Longrightarrow> j \<in> anc x log i \<Longrightarrow> i = j"
proof (induction "is")
  case (Cons k ks)
  have ks: "closed_under (parents_of x log) (set ks)" using Cons.prems(1) history_closed by auto
  have no: "k \<notin> anc x log l" if "l \<in> set ks" for l
    using anc_subset [OF that ks] Cons.prems(1) by auto
  show ?case
  proof (cases "i = k \<or> j = k")
    case True
    with no [of i] no [of j] Cons.prems show ?thesis by auto
  qed (use Cons in auto)
qed simp

text \<open>The verified operations that are not a parent of a verified one.\<close>

definition tips :: "ext \<Rightarrow> oplog \<Rightarrow> oid set" where
  "tips x log = {i \<in> log_verified log. \<forall>j \<in> log_verified log. \<forall>ps. parents_of x log j = Inr ps \<longrightarrow> i \<notin> set ps}"

lemma tips_insert:
  assumes "log_verified log' = insert i (log_verified log)" and "i \<notin> log_verified log"
    and "parents_of x log' i = Inr ps" and "set ps \<subseteq> log_verified log"
    and "\<And>j. j \<in> log_verified log \<Longrightarrow>
      \<exists>qs. parents_of x log j = Inr qs \<and> parents_of x log' j = Inr qs \<and> set qs \<subseteq> log_verified log"
  shows "tips x log' = insert i (tips x log - set ps)"
proof (rule set_eqI)
  fix k
  have same: "j \<in> log_verified log \<Longrightarrow> parents_of x log' j = parents_of x log j" for j using assms(5) by fastforce
  have no: "j \<in> log_verified log \<Longrightarrow> parents_of x log j = Inr qs \<Longrightarrow> i \<notin> set qs" for j qs
    using assms(2,5) by fastforce
  show "k \<in> tips x log' \<longleftrightarrow> k \<in> insert i (tips x log - set ps)"
  proof (cases "k = i")
    case True
    with assms(1-4) same no show ?thesis by (auto simp: tips_def)
  next
    case False
    with assms(1,3) same show ?thesis by (auto simp: tips_def)
  qed
qed

lemma as_view_Some: "as_view y = Some v \<longleftrightarrow> y = OView v"
  by (cases y) auto

section \<open>What acceptance guarantees\<close>

text \<open>C1: the log keeps its invariant: in every log reached from an empty one by accepting operations and by
  adding objects to the store, every verified operation is stored, its parents are verified and were
  accepted before it, so no operation is its own ancestor; its stored view stands for the abstract view
  that its effects produce from the merged views of its parents; the heads are sorted, distinct,
  verified, and every verified operation is an ancestor of a head; and the idempotency index points at
  verified operations that carry the key.\<close>

theorem log_invariant:
  assumes "sound_hash (ext_hash x)" and "log_reach x log"
  shows "(\<exists>\<alpha>. log_rep x log \<alpha> \<and> ops_ok x log \<alpha>) \<and> heads_ok x log \<and> idem_ok log \<and>
    (\<forall>i \<in> log_verified log. \<forall>j \<in> log_verified log. i \<in> anc x log j \<and> j \<in> anc x log i \<longrightarrow> i = j)"
proof -
  from log_reach_ok [OF assms(2,1)] obtain \<alpha> where l: "log_ok x log \<alpha>" by blast
  then obtain "is" where "set is = log_verified log" "history x log is" by (auto simp: log_ok_def)
  with l history_acyclic show ?thesis unfolding log_ok_def by blast
qed

text \<open>C4: accepting a new operation adds exactly it to the verified ones, its view is the abstract view that
  its effects make of the merged views of its parents, stored under the id the operation declares, and
  the views of all the other operations stay as they are.\<close>

theorem accept_refines:
  assumes "sound_hash (ext_hash x)" and "log_ok x log \<alpha>" and "\<forall>e \<in> set (op_effects p). effect_ids_ok e"
    and "accept x cache log p = Inr (log', i)" and "i \<notin> log_verified log"
  shows "\<exists>\<beta> v. log_ok x log' \<beta> \<and> (\<forall>j \<in> log_verified log. \<beta> j = \<alpha> j) \<and>
    log_verified log' = insert i (log_verified log) \<and> set (op_parents p) \<subseteq> log_verified log \<and>
    a_op x log \<alpha> p = Inr (\<beta> i) \<and> view_of x log' i = Inr v \<and> ext_hash x (OView v) = op_view p \<and>
    view_rep (ext_hash x) (log_store log') v (\<beta> i)"
  using assms(4)
proof (cases rule: accept_cases)
  case (known k)
  with assms(2,5) idem_okD [of log k i] show ?thesis by (simp add: log_ok_def)
next
  case (new s w)
  from accept_new_ok [OF assms(1-3) new(2,3)] obtain \<beta> where
    b: "log_ok x log' \<beta>" "a_op x log \<alpha> p = Inr (\<beta> i)" "\<forall>j \<in> log_verified log. \<beta> j = \<alpha> j" by blast
  note f = record_op_fields [OF new(3)]
  from b(1) f(2) obtain v where v: "view_of x log' i = Inr v" "view_rep (ext_hash x) (log_store log') v (\<beta> i)"
    unfolding log_ok_def log_rep_def by auto
  with f(4) have "ext_hash x (OView v) = op_view p" by (auto simp: view_of_def obj_get_Inr_iff as_view_Some)
  with b v f(2) new(1) show ?thesis by blast
qed

text \<open>C22: the heads are the verified operations without verified children: accepting a new operation keeps
  the heads that.\<close>

theorem accept_heads:
  assumes "sound_hash (ext_hash x)" and "log_ok x log \<alpha>" and "\<forall>e \<in> set (op_effects p). effect_ids_ok e"
    and "accept x cache log p = Inr (log', i)" and "i \<notin> log_verified log" and "set (log_heads log) = tips x log"
  shows "set (log_heads log') = tips x log'"
  using assms(4)
proof (cases rule: accept_cases)
  case (known k)
  with assms(6) show ?thesis by simp
next
  case (new s w)
  note f = record_op_fields [OF new(3)]
  from accept_new_ok [OF assms(1-3) new(2,3)] obtain \<beta> where b: "log_ok x log' \<beta>" by blast
  then obtain q where "stored_op log' i q" "ext_hash x (OOp q) = i" using f(2) by (auto simp: log_ok_def ops_ok_def)
  moreover from this(2) f(1) stored_same [OF assms(1)] have "q = p" by auto
  ultimately have pi: "parents_of x log' i = Inr (op_parents p)" using stored_parents by blast
  have old: "\<exists>ps. parents_of x log j = Inr ps \<and> parents_of x log' j = Inr ps \<and> set ps \<subseteq> log_verified log"
    if "j \<in> log_verified log" for j
  proof -
    from assms(2) that obtain ps where ps: "parents_of x log j = Inr ps" "set ps \<subseteq> log_verified log"
      unfolding log_ok_def log_rep_def by blast
    have "grown log log'"
    proof (rule record_grown [OF assms(1) _ _ new(3)])
      show "ops_ok x log \<alpha>" using assms(2) by (simp add: log_ok_def)
      show "step_ok (ext_hash x) (log_store log) s"
        using verify_op_rep [OF _ _ _ assms(3) new(2), of \<alpha>] assms(1,2) by (simp add: sound_hash_def log_ok_def heads_ok_def)
    qed
    with ps parents_of_kept show ?thesis unfolding grown_def by blast
  qed
  have "tips x log' = insert i (tips x log - set (op_parents p))"
    by (rule tips_insert [OF f(2) assms(5) pi new(1) old])
  with f(3) assms(6) show ?thesis by auto
qed

end
