(* ===== verification/Build.thy ===== *)
theory Build
  imports Log_Invariant
begin

text \<open>
  Building operations: \<open>crates/tessra-oplog/src/build.rs\<close>, that is ordinary operations from effects,
  the initial operation of a repository, and undo.

  What a builder adds to the store is returned beside the operation. The random entity ids of \<open>init\<close>
  are an argument, a function from the place of the draw: 0 the daemon, 1 the standard, 2 the line,
  3 + k the change of the k-th revision.
\<close>

section \<open>Operations from effects\<close>

record signer =
  sg_principal :: eid
  sg_key :: bytes

definition args_with_idem :: "bytes \<Rightarrow> (string, value) btree \<Rightarrow> (string, value) btree" where
  "args_with_idem idem extra = bt_insert ''idem'' (VBytes idem) extra"

definition unsigned_op ::
  "ext \<Rightarrow> oid list \<Rightarrow> signer \<Rightarrow> oid option \<Rightarrow> string \<Rightarrow> (string, value) btree \<Rightarrow> effect list \<Rightarrow> oid \<Rightarrow> int \<Rightarrow> op" where
  "unsigned_op x parents sg cap kind args effs vid time =
     \<lparr>op_parents = parents, op_author = sg_principal sg, op_key = ext_public x (sg_key sg), op_cap = cap,
      op_kind = kind, op_args = args, op_effects = effs, op_view = vid, op_time = time, op_desc = None,
      op_sig = None\<rparr>"

definition build_op ::
  "ext \<Rightarrow> oplog \<Rightarrow> signer \<Rightarrow> oid option \<Rightarrow> string \<Rightarrow> (string, value) btree \<Rightarrow> effect list \<Rightarrow> int \<Rightarrow> (objs \<times> op) res" where
  "build_op x log sg cap kind args effs time =
     (let parents = log_heads log
      in rbind (merged_view x log parents) (\<lambda>(s1, v).
         rbind (apply_effects (ext_hash x) s1 v effs (case parents of [] \<Rightarrow> None | q # _ \<Rightarrow> Some q)) (\<lambda>(s2, nxt).
         let (s3, vid) = store_view (ext_hash x) s2 nxt
         in rbind (sign_with x (sg_key sg) (OOp (unsigned_op x parents sg cap kind args effs vid time))) (\<lambda>y.
            rbind (of_opt Other (as_op y)) (\<lambda>p. Inr (s3, p))))))"

text \<open>Point an entity at a new version, with \<open>from\<close> read from the current view.\<close>

definition point_effect :: "ext \<Rightarrow> oplog \<Rightarrow> eid \<Rightarrow> oid \<Rightarrow> (objs \<times> effect) res" where
  "point_effect x log entity to =
     rbind (current_view x log) (\<lambda>(s, c).
     rbind (view_entity (ext_hash x) s c entity) (\<lambda>now.
     Inr (s, EPoint entity to (map_option pointer_to_value now))))"

section \<open>The initial operation\<close>

record init_content =
  ic_snapshot :: oid
  ic_title :: string
  ic_body :: "string option"
  ic_intent :: "intent option"
  ic_change :: "eid option"
  ic_time :: "int option"

record initialized =
  in_op :: oid
  in_daemon :: eid
  in_standard :: eid
  in_trunk :: eid
  in_root_change :: eid
  in_root_revision :: oid

definition init_principal :: "ext \<Rightarrow> bytes \<Rightarrow> string \<Rightarrow> int \<Rightarrow> eid \<Rightarrow> principal" where
  "init_principal x sk name time daemon =
     \<lparr>prin_id = daemon, prin_prev = None, prin_key = Some (ext_public x sk), prin_kind = ''daemon'',
      prin_name = name, prin_parent = None, prin_model = None, prin_runtime = None, prin_bindings = None,
      prin_status = ''active'', prin_expires = None, prin_time = time, prin_sig = None\<rparr>"

text \<open>What stands for the content when there is none: an empty tree under the default rules.\<close>

definition init_empty :: "ext \<Rightarrow> objs \<Rightarrow> objs \<times> init_content" where
  "init_empty x s =
     (let (s1, rules) = obj_put (ext_hash x) s (OTrackingRules default_rules);
          (s2, tree) = obj_put (ext_hash x) s1 (OTree tree_empty);
          (s3, snap) = obj_put (ext_hash x) s2
            (OSnapshot \<lparr>snap_root = tree, snap_rules = rules, snap_env = None, snap_index = None\<rparr>)
      in (s3, \<lparr>ic_snapshot = snap, ic_title = ''init'', ic_body = None, ic_intent = None, ic_change = None,
               ic_time = None\<rparr>))"

text \<open>The state of the loop over the contents: store, effects of intents, effects of revisions, the last revision.\<close>

record init_loop =
  il_store :: objs
  il_intents :: "effect list"
  il_revs :: "effect list"
  il_prev :: "(eid \<times> oid) option"

definition init_revision :: "eid \<Rightarrow> int \<Rightarrow> init_content \<Rightarrow> eid \<Rightarrow> oid option \<Rightarrow> revision" where
  "init_revision daemon time c change prev =
     \<lparr>rev_id = change, rev_prev = None, rev_snapshots = [('''', ic_snapshot c)],
      rev_parents = (case prev of None \<Rightarrow> [] | Some i \<Rightarrow> [i]),
      rev_intent = map_option intent_id (ic_intent c), rev_title = ic_title c, rev_body = ic_body c,
      rev_author = daemon, rev_time = (case ic_time c of None \<Rightarrow> time | Some t \<Rightarrow> t),
      rev_ops = None, rev_flags = None\<rparr>"

definition init_step :: "ext \<Rightarrow> eid \<Rightarrow> int \<Rightarrow> eid \<times> init_content \<Rightarrow> init_loop \<Rightarrow> init_loop" where
  "init_step x daemon time rc st =
     (let (fresh, c) = rc;
          (s1, intents) = (case ic_intent c of
              Some i \<Rightarrow> (let (s, oid) = obj_put (ext_hash x) (il_store st) (OIntent i)
                         in (s, il_intents st @ [EPut oid, EPoint (intent_id i) oid None]))
            | None \<Rightarrow> (il_store st, il_intents st));
          change = (case ic_change c of None \<Rightarrow> fresh | Some e \<Rightarrow> e);
          (s2, rid) = obj_put (ext_hash x) s1
            (ORevision (init_revision daemon time c change (map_option snd (il_prev st))))
      in \<lparr>il_store = s2, il_intents = intents, il_revs = il_revs st @ [EPut rid, EPoint change rid None],
          il_prev = Some (change, rid)\<rparr>)"

definition init_line :: "eid \<Rightarrow> eid \<Rightarrow> int \<Rightarrow> line" where
  "init_line i std time =
     \<lparr>line_id = i, line_prev = None, line_name = ''trunk'', line_standard = std, line_roots = [''''],
      line_shared = False, line_created = time\<rparr>"

definition init_with ::
  "ext \<Rightarrow> landed_cache \<Rightarrow> oplog \<Rightarrow> bytes \<Rightarrow> string \<Rightarrow> int \<Rightarrow> init_content list \<Rightarrow> (nat \<Rightarrow> eid) \<Rightarrow>
     (oplog \<times> initialized) res" where
  "init_with x cache log sk name time content rnd =
     rbind (ensure (log_heads log = []) Other) (\<lambda>_.
     let daemon = rnd 0; std = rnd 1; trunk = rnd 2
     in rbind (sign_with x sk (OPrincipal (init_principal x sk name time daemon))) (\<lambda>prin.
        let (s1, prin_oid) = obj_put (ext_hash x) (log_store log) prin;
            (s2, std_oid) = obj_put (ext_hash x) s1 (OStandard (default_trunk_standard std ''trunk''));
            (s3, contents) = (if content = [] then (let (s, c) = init_empty x s2 in (s, [c])) else (s2, content));
            st = fold (init_step x daemon time) (zip (map (\<lambda>k. rnd (3 + k)) [0..<length contents]) contents)
                   \<lparr>il_store = s3, il_intents = [], il_revs = [], il_prev = None\<rparr>;
            (change, rev_oid) = (case il_prev st of None \<Rightarrow> (rnd 3, replicate 32 0) | Some cr \<Rightarrow> cr);
            (s4, line_oid) = obj_put (ext_hash x) (il_store st) (OLine (init_line trunk std time));
            effs = [ERoot '''', EOwner daemon, EPut prin_oid, EPoint daemon prin_oid None, EPut std_oid,
                    EPoint std std_oid None, EPut line_oid, EPoint trunk line_oid None] @
                   il_revs st @
                   [EHead ''trunk'' rev_oid None (of_nat (length contents - 1)) [] (Some trunk),
                    ECoordinator ''trunk'' daemon] @
                   il_intents st;
            sg = \<lparr>sg_principal = daemon, sg_key = sk\<rparr>
        in rbind (build_op x (log\<lparr>log_store := s4\<rparr>) sg None ''init'' [] effs time) (\<lambda>(s5, p).
           rbind (accept x cache (log\<lparr>log_store := s5\<rparr>) p) (\<lambda>(log', i).
           Inr (log', \<lparr>in_op = i, in_daemon = daemon, in_standard = std, in_trunk = trunk,
                       in_root_change = change, in_root_revision = rev_oid\<rparr>)))))"

definition init_log :: "ext \<Rightarrow> landed_cache \<Rightarrow> oplog \<Rightarrow> bytes \<Rightarrow> string \<Rightarrow> int \<Rightarrow> (nat \<Rightarrow> eid) \<Rightarrow> (oplog \<times> initialized) res" where
  "init_log x cache log sk name time rnd = init_with x cache log sk name time [] rnd"

section \<open>Undo\<close>

text \<open>The effects that take one effect back, at the current view.\<close>

fun inverse_effect :: "ext \<Rightarrow> objs \<Rightarrow> view \<Rightarrow> effect \<Rightarrow> effect list res" where
  "inverse_effect x s c (EPut i) = Inr []"
| "inverse_effect x s c (EPoint e to from') =
     rbind (view_entity (ext_hash x) s c e) (\<lambda>now.
     rbind (ensure (now = Some (PId to)) Other) (\<lambda>_.
     case Option.bind from' pointer_from_value of
       Some (PId prev) \<Rightarrow> Inr [EPoint e prev (Some (pointer_to_value (PId to)))]
     | Some (PConflict ids) \<Rightarrow> Inl Other
     | None \<Rightarrow> Inr [EUnpoint e]))"
| "inverse_effect x s c (EPropose r) = Inr [EUnpropose r]"
| "inverse_effect x s c (EUnpropose r) = Inr [EPropose r]"
| "inverse_effect x s c (EClaim i to) = Inr [EUnclaim i]"
| "inverse_effect x s c (ECap i) = Inr [EUncap i]"
| "inverse_effect x s c (EUncap i) = Inr [ECap i]"
| "inverse_effect x s c (EPause scope) = Inr [EResume scope]"
| "inverse_effect x s c (EResume scope) = Inr [EPause scope]"
| "inverse_effect x s c _ = Inl Other"

definition inverse_effects :: "ext \<Rightarrow> objs \<Rightarrow> view \<Rightarrow> effect list \<Rightarrow> effect list res" where
  "inverse_effects x s c effs =
     rfold (\<lambda>e inv. rbind (inverse_effect x s c e) (\<lambda>new. Inr (inv @ new))) (rev effs) []"

definition undo_as ::
  "ext \<Rightarrow> oplog \<Rightarrow> signer \<Rightarrow> oid option \<Rightarrow> eid list \<Rightarrow> oid \<Rightarrow> bytes \<Rightarrow> int \<Rightarrow> (objs \<times> op) res" where
  "undo_as x log sg cap allowed target idem time =
     rbind (get_op x log target) (\<lambda>t.
     rbind (ensure (op_author t \<in> set allowed) Other) (\<lambda>_.
     rbind (current_view x log) (\<lambda>(s, c).
     rbind (inverse_effects x s c (op_effects t)) (\<lambda>inv.
     let args = bt_insert ''target'' (VBytes target) (args_with_idem idem [])
     in build_op x (log\<lparr>log_store := s\<rparr>) sg cap ''undo'' args inv time))))"

definition undo :: "ext \<Rightarrow> oplog \<Rightarrow> signer \<Rightarrow> oid \<Rightarrow> bytes \<Rightarrow> int \<Rightarrow> (objs \<times> op) res" where
  "undo x log sg target idem time = undo_as x log sg None [sg_principal sg] target idem time"

end
