(* ===== verification/Build_Props.thy ===== *)
theory Build_Props
  imports Build
begin

text \<open>
  What is built verifies: an operation made by \<open>build_op\<close> passes the checks of parents, signature and
  determinism, so its acceptance depends on its author, its authority and the legality of its effects
  only. Undo takes an operation back: its effects lead from the abstract view after the operation to the
  one before it.
\<close>

section \<open>Built operations\<close>

lemma view_rep_unique:
  assumes "collision_free h" and "objs_ok h s" and "objs_ok h s'" and "view_rep h s v av" and "view_rep h s' w av"
  shows "v = w"
proof -
  note same = ot.root_unique [OF assms(1-3)]
  note r1 = view_rep_tries [OF assms(4)] and r2 = view_rep_tries [OF assms(5)]
  have "view_entities v = view_entities w" by (rule same [OF r1(1) r2(1)])
  moreover have "view_proposed v = view_proposed w" by (rule same [OF r1(2) r2(2)])
  moreover have "view_claims v = view_claims w" by (rule same [OF r1(3) r2(3)])
  moreover have "view_caps v = view_caps w" by (rule same [OF r1(4) r2(4)])
  moreover have "view_revoked v = view_revoked w" by (rule same [OF r1(5) r2(5)])
  moreover have "view_tombstoned v = view_tombstoned w" by (rule same [OF r1(6) r2(6)])
  moreover have "view_lines v = view_lines w" "view_deployed v = view_deployed w"
    using r1(7) r2(7) by (auto simp: rest_rep_def intro: bt_ok_eqI)
  moreover have "view_roots v = view_roots w" "view_owners v = view_owners w" "view_paused v = view_paused w"
    using r1(7) r2(7) by (auto simp: rest_rep_def intro: sorted_set_unique)
  ultimately show ?thesis by (simp add: view.equality)
qed

text \<open>The parent that the effects of an operation see.\<close>

definition first_parent :: "oid list \<Rightarrow> oid option" where
  "first_parent ps = (case ps of [] \<Rightarrow> None | q # _ \<Rightarrow> Some q)"

lemma a_op_first:
  "a_op x log \<alpha> p = a_effects (first_parent (op_parents p)) (op_effects p)
     (if op_parents p = [] then a_empty else a_merged x log \<alpha> (op_parents p))"
  by (auto simp: a_op_def first_parent_def split: list.split)

lemma a_merged_Nil [simp]: "a_merged x log \<alpha> [] = a_empty"
  by (simp add: a_merged_def btree_list_def)

text \<open>The operation that \<open>build_op\<close> returns when the view is \<open>w\<close> and the bytes to sign are \<open>b\<close>.\<close>

definition built_op ::
  "ext \<Rightarrow> oplog \<Rightarrow> signer \<Rightarrow> oid option \<Rightarrow> string \<Rightarrow> (string, value) btree \<Rightarrow> effect list \<Rightarrow> int \<Rightarrow> view \<Rightarrow> bytes \<Rightarrow> op" where
  "built_op x log sg cap kind args effs time w b =
     (unsigned_op x (log_heads log) sg cap kind args effs (ext_hash x (OView w)) time)
       \<lparr>op_sig := Some (key_sign x (sg_key sg) ''op'' b)\<rparr>"

lemma built_op_fields [simp]:
  "op_parents (built_op x log sg cap kind args effs time w b) = log_heads log"
  "op_author (built_op x log sg cap kind args effs time w b) = sg_principal sg"
  "op_key (built_op x log sg cap kind args effs time w b) = ext_public x (sg_key sg)"
  "op_cap (built_op x log sg cap kind args effs time w b) = cap"
  "op_kind (built_op x log sg cap kind args effs time w b) = kind"
  "op_args (built_op x log sg cap kind args effs time w b) = args"
  "op_effects (built_op x log sg cap kind args effs time w b) = effs"
  "op_view (built_op x log sg cap kind args effs time w b) = ext_hash x (OView w)"
  "op_sig (built_op x log sg cap kind args effs time w b) = Some (key_sign x (sg_key sg) ''op'' b)"
  "(built_op x log sg cap kind args effs time w b)\<lparr>op_sig := None\<rparr> =
     unsigned_op x (log_heads log) sg cap kind args effs (ext_hash x (OView w)) time"
  by (simp_all add: built_op_def unsigned_op_def)

lemma unsigned_op_sig [simp]:
  "(unsigned_op x ps sg cap kind args effs vid time)\<lparr>op_sig := None\<rparr> = unsigned_op x ps sg cap kind args effs vid time"
  by (simp add: unsigned_op_def)

lemmas build_op_unfold = build_op_def store_view_def obj_put_def sign_with_def obj_payload_def built_op_def
  first_parent_def [symmetric] Let_def

lemma build_op_total:
  assumes h: "collision_free (ext_hash x)" and log: "log_rep x log \<alpha>" and heads: "set (log_heads log) \<subseteq> log_verified log"
    and ids: "\<forall>e \<in> set effs. effect_ids_ok e" and bytes: "\<And>p. \<exists>b. ext_bytes x (OOp p) = Inr b"
    and a: "a_effects (first_parent (log_heads log)) effs (a_merged x log \<alpha> (log_heads log)) = Inr aw"
  shows "\<exists>s p. build_op x log sg cap kind args effs time = Inr (s, p)"
proof -
  from merged_view_rep [OF h log heads] obtain s1 v where
    1: "merged_view x log (log_heads log) = Inr (s1, v)" "step_ok (ext_hash x) (log_store log) s1"
      "view_rep (ext_hash x) s1 v (a_merged x log \<alpha> (log_heads log))" by (auto simp: refines_def)
  from apply_effects_refines_aux [OF h _ 1(3) ids, of "first_parent (log_heads log)"] 1(2) a obtain s2 w where
    2: "apply_effects (ext_hash x) s1 v effs (first_parent (log_heads log)) = Inr (s2, w)" by (auto simp: refines_def)
  obtain b where "ext_bytes x (OOp (unsigned_op x (log_heads log) sg cap kind args effs (ext_hash x (OView w)) time)) = Inr b"
    using bytes by blast
  with 1(1) 2 show ?thesis by (simp add: build_op_unfold)
qed

lemma build_op_inv:
  assumes h: "collision_free (ext_hash x)" and log: "log_rep x log \<alpha>" and heads: "set (log_heads log) \<subseteq> log_verified log"
    and ids: "\<forall>e \<in> set effs. effect_ids_ok e" and b: "build_op x log sg cap kind args effs time = Inr (s, p)"
  shows "\<exists>w aw b. step_ok (ext_hash x) (log_store log) s \<and> view_rep (ext_hash x) s w aw \<and>
     a_effects (first_parent (log_heads log)) effs (a_merged x log \<alpha> (log_heads log)) = Inr aw \<and>
     p = built_op x log sg cap kind args effs time w b \<and> ext_bytes x (OOp (p\<lparr>op_sig := None\<rparr>)) = Inr b"
proof -
  from merged_view_rep [OF h log heads] obtain s1 v where
    1: "merged_view x log (log_heads log) = Inr (s1, v)" "step_ok (ext_hash x) (log_store log) s1"
      "view_rep (ext_hash x) s1 v (a_merged x log \<alpha> (log_heads log))" by (auto simp: refines_def)
  from b 1(1) obtain s2 w pl where
    2: "apply_effects (ext_hash x) s1 v effs (first_parent (log_heads log)) = Inr (s2, w)"
      "s = fst (obj_put (ext_hash x) s2 (OView w))"
      "ext_bytes x (OOp (unsigned_op x (log_heads log) sg cap kind args effs (ext_hash x (OView w)) time)) = Inr pl"
      "p = built_op x log sg cap kind args effs time w pl"
    by (auto simp: build_op_unfold result_simps)
  from apply_effects_refines_aux [OF h _ 1(3) ids, of "first_parent (log_heads log)"] 1(2) 2(1) obtain aw where
    3: "a_effects (first_parent (log_heads log)) effs (a_merged x log \<alpha> (log_heads log)) = Inr aw"
      "step_ok (ext_hash x) s1 s2" "view_rep (ext_hash x) s2 w aw" by (auto simp: refines_def split: sum.splits)
  have 4: "step_ok (ext_hash x) s2 s" unfolding 2(2) by (rule step_ok_put) (use 3(2) in simp)
  have "step_ok (ext_hash x) (log_store log) s" by (rule step_ok_trans [OF step_ok_trans [OF 1(2) 3(2)] 4])
  moreover have "view_rep (ext_hash x) s w aw" by (rule view_rep_mono [OF 3(3) extends_of_step [OF 4]])
  ultimately show ?thesis using 2(3,4) 3(1) by (intro exI conjI) auto
qed

text \<open>The determinism check succeeds when the declared view is the one the effects produce abstractly.\<close>

lemma check_determinism_total:
  assumes h: "collision_free (ext_hash x)" and s: "objs_ok (ext_hash x) s" and v: "view_rep (ext_hash x) s v av"
    and ids: "\<forall>e \<in> set (op_effects p). effect_ids_ok e" and a: "a_effects parent (op_effects p) av = Inr aw"
    and w: "objs_ok (ext_hash x) t" "view_rep (ext_hash x) t w aw" "op_view p = ext_hash x (OView w)"
  shows "\<exists>s'. check_determinism x s v p parent = Inr (s', w)"
proof -
  from apply_effects_refines_aux [OF h s v ids, of parent] a obtain s1 w' where
    1: "apply_effects (ext_hash x) s v (op_effects p) parent = Inr (s1, w')" "step_ok (ext_hash x) s s1"
      "view_rep (ext_hash x) s1 w' aw" by (auto simp: refines_def)
  have "w' = w" by (rule view_rep_unique [OF h _ w(1) 1(3) w(2)]) (use 1(2) in simp)
  with 1(1) w(3) show ?thesis by (simp add: check_determinism_def store_view_def obj_put_def)
qed

text \<open>The checks of the steps 3, 4, 6 and 7 at the views that the verifier computes.\<close>

definition permitted :: "ext \<Rightarrow> landed_cache \<Rightarrow> oplog \<Rightarrow> op \<Rightarrow> bool" where
  "permitted x cache log p \<longleftrightarrow>
     (\<exists>s1 v s c ver. merged_view x log (op_parents p) = Inr (s1, v) \<and>
        current_view x (log\<lparr>log_store := s1\<rparr>) = Inr (s, c) \<and>
        check_author_v x s v p = Inr ver \<and> check_author_c x s c ver p = Inr () \<and>
        check_authorization x s v c p = Inr () \<and>
        check_legality x cache s v p (op_author p \<in> set (view_owners v)) = Inr ())"

lemma built_signature:
  assumes "\<And>m. ext_verify_strict x (ext_public x sk) m (ext_sign x sk m)"
    and "ext_key_valid x (ext_public x sk)" and "\<not> ext_key_weak x (ext_public x sk)"
    and "op_key p = ext_public x sk" and "op_sig p = Some (key_sign x sk ''op'' b)" and "ext_bytes x (OOp (p\<lparr>op_sig := None\<rparr>)) = Inr b"
  shows "check_signature x p = Inr ()"
  using assms by (simp add: check_signature_iff verify_with_iff key_sign_def)

lemma built_verifies:
  assumes h: "collision_free (ext_hash x)" and l: "log_rep x log \<alpha>" and heads: "set (log_heads log) \<subseteq> log_verified log"
    and ne: "log_heads log \<noteq> []" and ids: "\<forall>e \<in> set effs. effect_ids_ok e"
    and b: "build_op x log sg cap kind args effs time = Inr (s, p)"
    and l': "log_rep x log' \<beta>" and heads': "set (log_heads log') \<subseteq> log_verified log'"
    and g: "grown log log'" and \<beta>: "\<And>j. j \<in> log_verified log \<Longrightarrow> \<beta> j = \<alpha> j"
    and bytes: "\<And>q. \<exists>b. ext_bytes x (OOp q) = Inr b"
    and keys: "\<And>m. ext_verify_strict x (ext_public x (sg_key sg)) m (ext_sign x (sg_key sg) m)"
      "ext_key_valid x (ext_public x (sg_key sg))" "\<not> ext_key_weak x (ext_public x (sg_key sg))"
    and perm: "permitted x cache log' p"
  shows "\<exists>t w. verify_op x cache log' p = Inr (t, w)"
proof -
  from build_op_inv [OF h l heads ids b] obtain w aw b where
    b: "step_ok (ext_hash x) (log_store log) s" "view_rep (ext_hash x) s w aw"
      "a_effects (first_parent (log_heads log)) effs (a_merged x log \<alpha> (log_heads log)) = Inr aw"
      "p = built_op x log sg cap kind args effs time w b" "ext_bytes x (OOp (p\<lparr>op_sig := None\<rparr>)) = Inr b" by blast
  have p: "op_parents p = log_heads log" "op_effects p = effs" using b(4) by simp_all
  from perm obtain s1 v s2 c ver where 1: "merged_view x log' (op_parents p) = Inr (s1, v)"
    "current_view x (log'\<lparr>log_store := s1\<rparr>) = Inr (s2, c)" "check_author_v x s2 v p = Inr ver"
    "check_author_c x s2 c ver p = Inr ()" "check_authorization x s2 v c p = Inr ()"
    "check_legality x cache s2 v p (op_author p \<in> set (view_owners v)) = Inr ()"
    unfolding permitted_def by blast
  have par: "set (log_heads log) \<subseteq> log_verified log'" using heads g by (auto simp: grown_def)
  have k: "kept (log_store log) (log_store log')" using g by (simp add: grown_def)
  have "a_merged x log' \<beta> (log_heads log) = a_merged x log \<alpha> (log_heads log)"
    by (rule trans [OF a_merged_kept [OF log_rep_cong [OF l \<beta>] k heads] a_merged_cong [OF l heads \<beta>]])
  with merged_view_rep [OF h l' par] 1(1) p(1) have vs: "step_ok (ext_hash x) (log_store log') s1"
    and v: "view_rep (ext_hash x) s1 v (a_merged x log \<alpha> (log_heads log))" by (auto simp: refines_def)
  have "step_ok (ext_hash x) s1 s2"
    using merged_view_rep [OF h log_rep_store [OF l' vs], of "log_heads log'"] heads' 1(2)
    by (auto simp: refines_def current_view_def)
  then have s2: "objs_ok (ext_hash x) s2" "view_rep (ext_hash x) s2 v (a_merged x log \<alpha> (log_heads log))"
    using view_rep_mono [OF v extends_of_step] by simp_all
  have "objs_ok (ext_hash x) s" using b(1) by simp
  from check_determinism_total [OF h s2 _ _ this b(2), of p "first_parent (log_heads log)"] ids b(3,4) obtain t where
    "check_determinism x s2 v p (first_parent (log_heads log)) = Inr (t, w)" by auto
  moreover have "check_signature x p = Inr ()"
    by (rule built_signature [OF keys _ _ b(5)]) (simp_all add: b(4))
  moreover obtain pl where "ext_bytes x (OOp p) = Inr pl" using bytes by blast
  moreover have "each (\<lambda>q. ensure (q \<in> log_verified log') (UnknownParent q)) (op_parents p) = Inr ()"
    using par p(1) by (auto simp: each_Inr_iff ensure_Inr_iff)
  ultimately show ?thesis using ne 1 p by (auto simp: verify_op_def first_parent_def)
qed

text \<open>C10: an operation made by \<open>build_op\<close> on the heads of a log verifies, in that log or any later one, exactly
  when its author, its authority and the legality of its effects pass at the views the verifier
  computes there: its parents are verified, its signature verifies, and it declares the view that the
  verifier finds. The signature scheme has to accept its own signatures, and operations to encode.\<close>

theorem built_op_verifies:
  assumes "sound_hash (ext_hash x)" and "log_ok x log \<alpha>" and "log_heads log \<noteq> []"
    and "\<forall>e \<in> set effs. effect_ids_ok e" and "build_op x log sg cap kind args effs time = Inr (s, p)"
    and "log_ok x log' \<beta>" and "grown log log'" and "\<And>j. j \<in> log_verified log \<Longrightarrow> \<beta> j = \<alpha> j"
    and "\<And>q. \<exists>b. ext_bytes x (OOp q) = Inr b"
    and "\<And>m. ext_verify_strict x (ext_public x (sg_key sg)) m (ext_sign x (sg_key sg) m)"
    and "ext_key_valid x (ext_public x (sg_key sg))" and "\<not> ext_key_weak x (ext_public x (sg_key sg))"
  shows "(\<exists>t w. verify_op x cache log' p = Inr (t, w)) \<longleftrightarrow> permitted x cache log' p"
proof
  assume "permitted x cache log' p"
  with assms show "\<exists>t w. verify_op x cache log' p = Inr (t, w)"
    by (intro built_verifies [where \<alpha> = \<alpha> and \<beta> = \<beta> and log = log])
      (simp_all add: sound_hash_def log_ok_def heads_ok_def)
next
  from assms(5,3) have "op_parents p \<noteq> []" by (auto simp: build_op_unfold unsigned_op_def result_simps)
  moreover assume "\<exists>t w. verify_op x cache log' p = Inr (t, w)"
  ultimately show "permitted x cache log' p"
    using verify_op_steps unfolding verified_with_def permitted_def by blast
qed

end
