(* ===== verification/Undo_Props.thy ===== *)
theory Undo_Props
  imports Build_Props
begin

text \<open>
  Undo takes an operation back: the effects it builds lead from the abstract view after the operation to
  the view before it, up to the records of pauses, whose scopes are restored but not who paused them.
\<close>

section \<open>One effect\<close>

definition same_view :: "aview \<Rightarrow> aview \<Rightarrow> bool" where
  "same_view a b \<longleftrightarrow> a\<lparr>av_paused := None\<rparr> = b\<lparr>av_paused := None\<rparr> \<and>
     paused_scopes (av_paused a) = paused_scopes (av_paused b)"

lemma same_view_fields:
  "same_view a b \<longleftrightarrow>
     av_entities a = av_entities b \<and> av_proposed a = av_proposed b \<and> av_claims a = av_claims b \<and>
     av_caps a = av_caps b \<and> av_revoked a = av_revoked b \<and> av_tombstoned a = av_tombstoned b \<and>
     av_lines a = av_lines b \<and> av_roots a = av_roots b \<and> av_owners a = av_owners b \<and>
     av_deployed a = av_deployed b \<and> paused_scopes (av_paused a) = paused_scopes (av_paused b)"
  by (cases a; cases b) (auto simp: same_view_def)

text \<open>The effect did something, and its \<open>from\<close> is what it replaced.\<close>

fun effective :: "aview \<Rightarrow> effect \<Rightarrow> bool" where
  "effective a (EPoint e to from') \<longleftrightarrow>
     Option.bind (av_entities a e) pointer_from_trie = Option.bind from' pointer_from_value \<and> av_entities a e \<noteq> Some TSet"
| "effective a (EPropose r) \<longleftrightarrow> r \<notin> av_proposed a"
| "effective a (EUnpropose r) \<longleftrightarrow> r \<in> av_proposed a"
| "effective a (EClaim i to) \<longleftrightarrow> av_claims a i = None"
| "effective a (ECap i) \<longleftrightarrow> i \<notin> av_caps a"
| "effective a (EUncap i) \<longleftrightarrow> i \<in> av_caps a"
| "effective a (EPause scope) \<longleftrightarrow> scope \<notin> paused_scopes (av_paused a)"
| "effective a (EResume scope) \<longleftrightarrow> scope \<in> paused_scopes (av_paused a)"
| "effective a _ \<longleftrightarrow> True"

fun all_effective :: "oid option \<Rightarrow> effect list \<Rightarrow> aview \<Rightarrow> bool" where
  "all_effective op [] a \<longleftrightarrow> True"
| "all_effective op (e # es) a \<longleftrightarrow> effective a e \<and> (\<forall>b. a_effect op e a = Inr b \<longrightarrow> all_effective op es b)"

fun invertible :: "effect \<Rightarrow> bool" where
  "invertible (EPut i) \<longleftrightarrow> True"
| "invertible (EPoint e to from') \<longleftrightarrow> (\<forall>ids. Option.bind from' pointer_from_value \<noteq> Some (PConflict ids))"
| "invertible (EPropose r) \<longleftrightarrow> True"
| "invertible (EUnpropose r) \<longleftrightarrow> True"
| "invertible (EClaim i to) \<longleftrightarrow> True"
| "invertible (ECap i) \<longleftrightarrow> True"
| "invertible (EUncap i) \<longleftrightarrow> True"
| "invertible (EPause scope) \<longleftrightarrow> True"
| "invertible (EResume scope) \<longleftrightarrow> True"
| "invertible _ \<longleftrightarrow> False"

fun inverse_of :: "effect \<Rightarrow> effect list" where
  "inverse_of (EPoint e to from') =
     (case Option.bind from' pointer_from_value of
        Some (PId prev) \<Rightarrow> [EPoint e prev (Some (pointer_to_value (PId to)))]
      | _ \<Rightarrow> [EUnpoint e])"
| "inverse_of (EPropose r) = [EUnpropose r]"
| "inverse_of (EUnpropose r) = [EPropose r]"
| "inverse_of (EClaim i to) = [EUnclaim i]"
| "inverse_of (ECap i) = [EUncap i]"
| "inverse_of (EUncap i) = [ECap i]"
| "inverse_of (EPause scope) = [EResume scope]"
| "inverse_of (EResume scope) = [EPause scope]"
| "inverse_of _ = []"

lemma inverse_effect_Inr: "inverse_effect x s c e = Inr es \<Longrightarrow> invertible e \<and> es = inverse_of e"
  by (cases e) (auto simp: result_simps split: option.splits pointer.splits)

lemma inverse_effects_Inr:
  assumes "inverse_effects x s c effs = Inr back"
  shows "back = concat (map inverse_of (rev effs)) \<and> (\<forall>e \<in> set effs. invertible e)"
proof -
  have "rfold (\<lambda>e inv. rbind (inverse_effect x s c e) (\<lambda>new. Inr (inv @ new))) es acc = Inr back \<Longrightarrow>
      back = acc @ concat (map inverse_of es) \<and> (\<forall>e \<in> set es. invertible e)" for es acc
  proof (induction es arbitrary: acc)
    case (Cons e es)
    from Cons.prems obtain new where new: "inverse_effect x s c e = Inr new"
      "rfold (\<lambda>e inv. rbind (inverse_effect x s c e) (\<lambda>new. Inr (inv @ new))) es (acc @ new) = Inr back"
      by (auto simp: result_simps)
    from Cons.IH [OF new(2)] inverse_effect_Inr [OF new(1)] show ?case by simp
  qed simp
  from this [of "rev effs" "[]"] assms show ?thesis by (simp add: inverse_effects_def)
qed

lemma paused_scopes_pause: "paused_scopes (av_paused (a_pause a sc op)) = insert sc (paused_scopes (av_paused a))"
  by (auto simp: a_pause_def paused_scopes_def Let_def split: option.splits)

lemma paused_scopes_resume: "paused_scopes (av_paused (a_resume a sc)) = paused_scopes (av_paused a) - {sc}"
  by (auto simp: a_resume_def paused_scopes_def Let_def filter_empty_conv split: option.splits)

lemma a_pause_rest: "(a_pause a sc op)\<lparr>av_paused := None\<rparr> = a\<lparr>av_paused := None\<rparr>"
  by (simp add: a_pause_def Let_def)

lemma a_resume_rest: "(a_resume a sc)\<lparr>av_paused := None\<rparr> = a\<lparr>av_paused := None\<rparr>"
  by (simp add: a_resume_def Let_def split: option.splits)

lemmas pauses = paused_scopes_pause paused_scopes_resume a_pause_rest a_resume_rest

lemma pointer_from_trie_PId: "pointer_from_trie v = Some (PId i) \<longleftrightarrow> v = TId i"
  by (cases v) auto

lemma pointer_from_trie_None: "pointer_from_trie v = None \<longleftrightarrow> v = TSet"
  by (cases v) auto

lemma undo_point:
  assumes "effective a (EPoint e to from')" and "invertible (EPoint e to from')"
  shows "\<exists>b. a_effects op' (inverse_of (EPoint e to from')) (a\<lparr>av_entities := (av_entities a)(e \<mapsto> TId to)\<rparr>) = Inr b \<and> b = a"
proof (cases "Option.bind from' pointer_from_value")
  case None
  with assms(1) have "av_entities a e = None" by (cases "av_entities a e") (auto simp: pointer_from_trie_None)
  then have "(av_entities a)(e := None) = av_entities a" by (simp add: fun_upd_idem)
  with None show ?thesis by (simp add: a_effects_def)
next
  case (Some q)
  with assms(2) obtain i where i: "q = PId i" by (cases q) auto
  with Some assms(1) have "av_entities a e = Some (TId i)" by (auto simp: bind_eq_Some_conv pointer_from_trie_PId)
  then have "(av_entities a)(e \<mapsto> TId i) = av_entities a" by (simp add: fun_upd_idem)
  with Some i show ?thesis by (simp add: a_effects_def)
qed

lemma undo_one:
  assumes "effective a e" and "invertible e" and "a_effect op e a = Inr b"
  shows "\<exists>c. a_effects op' (inverse_of e) b = Inr c \<and> same_view c a"
proof (cases e)
  case (EPoint i to from')
  with undo_point [of a i to from' op'] assms show ?thesis by (auto simp: same_view_def)
qed (use assms in \<open>auto simp: a_effects_def same_view_def pauses insert_absorb fun_upd_idem\<close>)

text \<open>The effects of an undo do the same to views that differ in the records of pauses only.\<close>

fun undoing :: "effect \<Rightarrow> bool" where
  "undoing (EPoint e to from') \<longleftrightarrow> True"
| "undoing (EUnpoint e) \<longleftrightarrow> True"
| "undoing (EPropose r) \<longleftrightarrow> True"
| "undoing (EUnpropose r) \<longleftrightarrow> True"
| "undoing (EUnclaim i) \<longleftrightarrow> True"
| "undoing (ECap i) \<longleftrightarrow> True"
| "undoing (EUncap i) \<longleftrightarrow> True"
| "undoing (EPause scope) \<longleftrightarrow> True"
| "undoing (EResume scope) \<longleftrightarrow> True"
| "undoing _ \<longleftrightarrow> False"

lemma inverse_of_undoing: "f \<in> set (inverse_of e) \<Longrightarrow> undoing f"
  by (cases e) (auto split: option.splits pointer.splits)

lemma a_pause_same: "same_view a b \<Longrightarrow> same_view (a_pause a sc op) (a_pause b sc op)"
  by (simp add: same_view_def pauses)

lemma a_resume_same: "same_view a b \<Longrightarrow> same_view (a_resume a sc) (a_resume b sc)"
  by (simp add: same_view_def pauses)

lemma undoing_same:
  "undoing e \<Longrightarrow> same_view a b \<Longrightarrow> \<exists>a' b'. a_effect op e a = Inr a' \<and> a_effect op e b = Inr b' \<and> same_view a' b'"
  by (cases e) (auto simp: a_pause_same a_resume_same, auto simp: same_view_fields)

lemma undoing_same_all:
  "\<forall>e \<in> set es. undoing e \<Longrightarrow> same_view a b \<Longrightarrow> a_effects op es b = Inr b' \<Longrightarrow>
     \<exists>a'. a_effects op es a = Inr a' \<and> same_view a' b'"
proof (induction es arbitrary: a b)
  case (Cons e es)
  from undoing_same [of e a b op] Cons.prems obtain a1 b1 where
    1: "a_effect op e a = Inr a1" "a_effect op e b = Inr b1" "same_view a1 b1" by auto
  with Cons.IH [of a1 b1] Cons.prems show ?case by (simp add: a_effects_def)
qed (simp add: a_effects_def)

lemma undo_all:
  "all_effective op es a \<Longrightarrow> \<forall>e \<in> set es. invertible e \<Longrightarrow> a_effects op es a = Inr b \<Longrightarrow>
     \<exists>c. a_effects op' (concat (map inverse_of (rev es))) b = Inr c \<and> same_view c a"
proof (induction es arbitrary: a)
  case Nil
  then show ?case by (simp add: a_effects_def same_view_def)
next
  case (Cons e es)
  from Cons.prems(3) obtain a1 where a1: "a_effect op e a = Inr a1" "a_effects op es a1 = Inr b"
    by (auto simp: a_effects_def result_simps)
  from Cons.IH [of a1] Cons.prems a1 obtain c where
    c: "a_effects op' (concat (map inverse_of (rev es))) b = Inr c" "same_view c a1" by auto
  from undo_one [of a e op a1 op'] Cons.prems a1(1) obtain d where
    d: "a_effects op' (inverse_of e) a1 = Inr d" "same_view d a" by auto
  from undoing_same_all [OF _ c(2) d(1)] inverse_of_undoing obtain d' where
    "a_effects op' (inverse_of e) c = Inr d'" "same_view d' d" by blast
  with c(1) d(2) show ?case by (auto simp: a_effects_append same_view_def)
qed

section \<open>The whole operation\<close>

text \<open>Undo restores: when an operation led from one abstract view to the current one, every one of its
  effects did something and named what it replaced, and undo does not refuse, then the effects that undo
  builds lead back to a view with the entities, proposals, claims, capabilities, lines, owners, roots,
  deployments, revocations and tombstones from before, and with the same scopes paused.\<close>

theorem undo_restores:
  assumes "a_effects op effs a = Inr b" and "all_effective op effs a" and "inverse_effects x s c effs = Inr back"
  shows "\<exists>d. a_effects op' back b = Inr d \<and> same_view d a"
  using undo_all [OF assms(2) _ assms(1)] inverse_effects_Inr [OF assms(3)] by blast

text \<open>Undo takes back only what still stands: it refuses when one of the entities the operation pointed
  has moved on since, when the operation resolved a conflict, landed, revoked, or has any other effect
  without an inverse; otherwise the inverse effects, in reverse order, are what it builds.\<close>

theorem undo_refuses:
  "(\<exists>back. inverse_effects x s c effs = Inr back) \<longleftrightarrow>
     (\<forall>e \<in> set effs. invertible e \<and>
        (\<forall>i to from'. e = EPoint i to from' \<longrightarrow> view_entity (ext_hash x) s c i = Inr (Some (PId to))))"
proof -
  have one: "(\<exists>es. inverse_effect x s c e = Inr es) \<longleftrightarrow> invertible e \<and>
      (\<forall>i to from'. e = EPoint i to from' \<longrightarrow> view_entity (ext_hash x) s c i = Inr (Some (PId to)))" for e
    by (cases e) (auto simp: result_simps split: option.splits pointer.splits)
  have "(\<exists>back. rfold (\<lambda>e inv. rbind (inverse_effect x s c e) (\<lambda>new. Inr (inv @ new))) es acc = Inr back) \<longleftrightarrow>
      (\<forall>e \<in> set es. \<exists>es. inverse_effect x s c e = Inr es)" for es acc
    by (induction es arbitrary: acc) (auto simp: result_simps)
  from this [of "rev effs" "[]"] one show ?thesis by (simp add: inverse_effects_def)
qed

lemma build_op_shape:
  "build_op x log sg cap kind args effs time = Inr (s, p) \<Longrightarrow>
     op_parents p = log_heads log \<and> op_effects p = effs \<and> op_author p = sg_principal sg \<and> op_kind p = kind"
  by (auto simp: build_op_unfold unsigned_op_def result_simps)

lemma a_merged_single [simp]: "a_merged x log \<alpha> [i] = \<alpha> i"
  by (simp add: a_merged_def btree_list_def)

text \<open>C11: undoing the latest operation takes the repository back: when it is the only head, and everything it
  did had an effect, the abstract view of the undo operation is the merged view of the parents of the
  undone one, up to who paused a scope; and the undone operation was by an author that may be undone.\<close>

theorem undo_latest:
  assumes "log_ok x log \<alpha>" and "log_heads log = [i]" and "stored_op log i t"
    and "all_effective (first_parent (op_parents t)) (op_effects t) (a_merged x log \<alpha> (op_parents t))"
    and "undo_as x log sg cap allowed i idem time = Inr (s, p)"
  shows "op_author t \<in> set allowed \<and> op_parents p = [i] \<and>
    (\<exists>d. a_op x log \<alpha> p = Inr d \<and> same_view d (a_merged x log \<alpha> (op_parents t)))"
proof -
  from assms(1) have l: "ops_ok x log \<alpha>" "i \<in> log_verified log" using assms(2) by (auto simp: log_ok_def heads_ok_def)
  from l(1,2) obtain t' :: op where "stored_op log i t'" "ext_hash x (OOp t') = i" "a_op x log \<alpha> t' = Inr (\<alpha> i)"
    by (rule ops_okE)
  with assms(3) have t: "ext_hash x (OOp t) = i" "a_op x log \<alpha> t = Inr (\<alpha> i)" by (auto simp: stored_op_def)
  from assms(3) t(1) have "get_op x log i = Inr t" by (simp add: stored_op_def get_op_def obj_get_def)
  with assms(5) obtain s1 c inverse args where 1: "op_author t \<in> set allowed" "inverse_effects x s1 c (op_effects t) = Inr inverse"
    "build_op x (log\<lparr>log_store := s1\<rparr>) sg cap ''undo'' args inverse time = Inr (s, p)"
    by (auto simp: undo_as_def Let_def result_simps)
  from build_op_shape [OF 1(3)] assms(2) have p: "op_parents p = [i]" "op_effects p = inverse" by simp_all
  have "a_effects (first_parent (op_parents t)) (op_effects t) (a_merged x log \<alpha> (op_parents t)) = Inr (\<alpha> i)"
    using t(2) by (auto simp: a_op_first split: if_splits)
  from undo_all [OF assms(4) _ this, of "Some i"] inverse_effects_Inr [OF 1(2)] obtain d where
    "a_effects (Some i) inverse (\<alpha> i) = Inr d" "same_view d (a_merged x log \<alpha> (op_parents t))" by blast
  with p 1(1) show ?thesis by (simp add: a_op_def)
qed

end
