(* ===== verification/World.thy ===== *)
theory World
  imports Undo_Props "HOL-Library.Countable"
begin

text \<open>
  A small concrete world on which the theorems about the operation log are applied: a hash without
  collisions among trie nodes, operations and views, an owner, an agent with a capability that the
  owner issued, and a log with an initial operation, one operation of the agent and one of the owner.
\<close>

section \<open>The hash\<close>

instance "value" :: countable
  by countable_datatype

instance effect :: countable
  by countable_datatype

definition op_code :: "op \<Rightarrow> nat" where
  "op_code p = to_nat (op_parents p, op_author p, op_key p, op_cap p, op_kind p, op_args p, op_effects p,
     op_view p, op_time p, op_desc p, op_sig p)"

definition line_code :: "line_state \<Rightarrow> nat" where
  "line_code l = to_nat (ls_id l, ls_head l, ls_seq l, ls_coordinator l)"

definition pause_code :: "pause_state \<Rightarrow> nat" where
  "pause_code p = to_nat (ps_scope p, ps_by p, ps_op p)"

definition view_code :: "view \<Rightarrow> nat" where
  "view_code v = to_nat (view_entities v, view_proposed v, view_claims v, view_caps v, view_revoked v,
     view_tombstoned v, map (\<lambda>(k, l). (k, line_code l)) (view_lines v), view_roots v, view_owners v,
     view_deployed v, map_option (map pause_code) (view_paused v))"

lemma inj_op_code: "inj op_code"
  by (rule injI) (simp add: op_code_def)

lemma inj_line_code: "inj line_code"
  by (rule injI) (simp add: line_code_def)

lemma inj_pause_code: "inj pause_code"
  by (rule injI) (simp add: pause_code_def)

lemma inj_view_code: "inj view_code"
proof (rule injI)
  fix v w assume eq: "view_code v = view_code w"
  have l: "inj (\<lambda>(k, l). (k :: string, line_code l))" using inj_line_code by (auto simp: inj_def)
  have p: "inj (map_option (map pause_code))" using inj_pause_code by (intro option.inj_map list.inj_map)
  from eq have "map (\<lambda>(k, l). (k, line_code l)) (view_lines v) = map (\<lambda>(k, l). (k, line_code l)) (view_lines w)"
    and "map_option (map pause_code) (view_paused v) = map_option (map pause_code) (view_paused w)"
    by (simp_all add: view_code_def)
  with inj_map_eq_map [OF l] injD [OF p] have "view_lines v = view_lines w" "view_paused v = view_paused w" by blast+
  with eq show "v = w" by (simp add: view_code_def)
qed

fun world_hash :: "obj \<Rightarrow> oid" where
  "world_hash (OTrie n) = 1 # code_node n"
| "world_hash (OOp p) = 2 # replicate (op_code p) 0"
| "world_hash (OView v) = 3 # replicate (view_code v) 0"
| "world_hash (OPrincipal q) = 4 # prin_id q"
| "world_hash (ORevision r) = 6 # replicate 30 0 @ [of_nat (length (rev_title r))]"
| "world_hash (OLine l) = 7 # line_id l"
| "world_hash (OStandard d) = 8 # std_id d"
| "world_hash (OCapability c) = 5 # replicate 15 0 @ cap_nonce c"
| "world_hash y = 0 # map of_char (obj_tag y)"

lemma numeral_u8_neq: "(1::u8) \<noteq> 0" "(2::u8) \<noteq> 0" "(2::u8) \<noteq> 1" "(3::u8) \<noteq> 0" "(3::u8) \<noteq> 1" "(3::u8) \<noteq> 2"
  "(4::u8) \<noteq> 1" "(4::u8) \<noteq> 2" "(4::u8) \<noteq> 3" "(5::u8) \<noteq> 1" "(5::u8) \<noteq> 2" "(5::u8) \<noteq> 3"
  by simp_all

lemma sound_world: "sound_hash world_hash"
  unfolding sound_hash_def collision_free_def
proof (intro conjI allI impI)
  fix n y assume "world_hash y = world_hash (OTrie n)"
  then show "y = OTrie n" by (cases y) (auto dest: code_node_inject)
next
  fix p y assume "world_hash y = world_hash (OOp p)"
  then show "y = OOp p" using injD [OF inj_op_code] by (cases y) auto
next
  fix v y assume "world_hash y = world_hash (OView v)"
  then show "y = OView v" using injD [OF inj_view_code] by (cases y) auto
qed

section \<open>The actors\<close>

definition world :: ext where
  "world = sample_ext\<lparr>ext_hash := world_hash\<rparr>"

lemma world_fields [simp]:
  "ext_hash world = world_hash"
  "ext_bytes world y = Inr (ascii (obj_tag y))"
  "ext_public world k = k"
  "ext_key_valid world k"
  "ext_key_weak world k \<longleftrightarrow> k = []"
  "ext_verify_strict world k m g \<longleftrightarrow> g = k @ m"
  "ext_sign world k m = k @ m"
  by (simp_all add: world_def sample_ext_def)

definition world_signed :: "bytes \<Rightarrow> string \<Rightarrow> bytes option" where
  "world_signed k tag = Some (k @ signing_message world tag (ascii tag))"

definition world_principal :: "nat \<Rightarrow> string \<Rightarrow> principal" where
  "world_principal n kind =
     \<lparr>prin_id = sample_key n, prin_prev = None, prin_key = Some [of_nat n], prin_kind = kind, prin_name = ''p'',
      prin_parent = None, prin_model = None, prin_runtime = None, prin_bindings = None, prin_status = ''active'',
      prin_expires = None, prin_time = 0, prin_sig = world_signed [of_nat n] ''principal''\<rparr>"

abbreviation owner :: eid where "owner \<equiv> sample_key 1"
abbreviation agent :: eid where "agent \<equiv> sample_key 2"

definition world_cap :: capability where
  "world_cap = \<lparr>cap_issuer = owner, cap_subject = agent, cap_verbs = [''land''],
     cap_write = \<lparr>wsc_roots = None, wsc_paths = None, wsc_nodes = None, wsc_lines = None, wsc_targets = None,
       wsc_stages = None, wsc_memory_scopes = None\<rparr>,
     cap_read = \<lparr>rsc_roots = None, rsc_paths = None, rsc_memory = None\<rparr>, cap_hard = None, cap_advisory = None,
     cap_delegable = True, cap_parent = None, cap_nonce = sample_key 3, cap_time = 0,
     cap_sig = world_signed [1] ''capability''\<rparr>"

definition world_signer :: "nat \<Rightarrow> signer" where
  "world_signer n = \<lparr>sg_principal = sample_key n, sg_key = [of_nat n]\<rparr>"

text \<open>A trunk with a first revision, and a change of the agent in two versions on top of it.\<close>

abbreviation change :: eid where "change \<equiv> sample_key 5"
abbreviation trunk :: eid where "trunk \<equiv> sample_key 6"
abbreviation rules :: eid where "rules \<equiv> sample_key 7"

definition world_rev :: "string \<Rightarrow> eid \<Rightarrow> oid option \<Rightarrow> oid list \<Rightarrow> eid \<Rightarrow> revision" where
  "world_rev title i prev parents author =
     \<lparr>rev_id = i, rev_prev = prev, rev_snapshots = [], rev_parents = parents, rev_intent = None, rev_title = title,
      rev_body = None, rev_author = author, rev_time = 0, rev_ops = None, rev_flags = None\<rparr>"

definition rev_oid :: "nat \<Rightarrow> oid" where
  "rev_oid n = 6 # replicate 30 0 @ [of_nat n]"

definition first_rev :: revision where "first_rev = world_rev [] (sample_key 4) None [] owner"
definition draft :: revision where "draft = world_rev ''a'' change None [rev_oid 0] agent"
definition redraft :: revision where "redraft = world_rev ''bb'' change (Some (rev_oid 1)) [rev_oid 0] agent"

definition world_line :: line where
  "world_line = init_line trunk rules 0"

definition world_standard :: standard where
  "world_standard = default_trunk_standard rules ''trunk''"

definition cap_oid :: oid where
  "cap_oid = 5 # replicate 15 0 @ sample_key 3"

definition prin_oid :: "nat \<Rightarrow> oid" where
  "prin_oid n = 4 # sample_key n"

definition world_objects :: objs where
  "world_objects = [prin_oid 1 \<mapsto> OPrincipal (world_principal 1 ''human''),
     prin_oid 2 \<mapsto> OPrincipal (world_principal 2 ''agent''), cap_oid \<mapsto> OCapability world_cap,
     rev_oid 0 \<mapsto> ORevision first_rev, rev_oid 1 \<mapsto> ORevision draft, rev_oid 2 \<mapsto> ORevision redraft,
     7 # trunk \<mapsto> OLine world_line, 8 # rules \<mapsto> OStandard world_standard]"

lemma sample_key_eq_iff [simp]: "sample_key m = sample_key n \<longleftrightarrow> (of_nat m :: u8) = of_nat n"
  by (simp add: sample_key_def)

lemmas world_object_defs = world_principal_def world_cap_def world_rev_def first_rev_def draft_def redraft_def
  world_line_def init_line_def world_standard_def default_trunk_standard_def
lemmas world_oid_defs = prin_oid_def cap_oid_def rev_oid_def

lemma world_objects_ok: "objs_ok world_hash world_objects"
  by (auto simp: objs_ok_def world_objects_def world_oid_defs world_object_defs split: if_splits)

lemma world_objects_at:
  "world_objects (prin_oid 1) = Some (OPrincipal (world_principal 1 ''human''))"
  "world_objects (prin_oid 2) = Some (OPrincipal (world_principal 2 ''agent''))"
  "world_objects cap_oid = Some (OCapability world_cap)"
  "world_objects (rev_oid 0) = Some (ORevision first_rev)"
  "world_objects (rev_oid 1) = Some (ORevision draft)"
  "world_objects (rev_oid 2) = Some (ORevision redraft)"
  "world_objects (7 # trunk) = Some (OLine world_line)"
  "world_objects (8 # rules) = Some (OStandard world_standard)"
  by (simp_all add: world_objects_def world_oid_defs)

lemma world_stored:
  assumes "kept world_objects s"
  shows "s (prin_oid 1) = Some (OPrincipal (world_principal 1 ''human''))"
    and "s (prin_oid 2) = Some (OPrincipal (world_principal 2 ''agent''))"
    and "s cap_oid = Some (OCapability world_cap)"
    and "s (rev_oid 0) = Some (ORevision first_rev)"
    and "s (rev_oid 1) = Some (ORevision draft)"
    and "s (rev_oid 2) = Some (ORevision redraft)"
    and "s (7 # trunk) = Some (OLine world_line)"
    and "s (8 # rules) = Some (OStandard world_standard)"
  using assms world_objects_at unfolding kept_def by blast+

lemma world_hashes:
  "world_hash (OPrincipal (world_principal n kind)) = prin_oid n"
  "world_hash (OCapability world_cap) = cap_oid"
  "world_hash (ORevision first_rev) = rev_oid 0"
  "world_hash (ORevision draft) = rev_oid 1"
  "world_hash (ORevision redraft) = rev_oid 2"
  "world_hash (OLine world_line) = 7 # trunk"
  "world_hash (OStandard world_standard) = 8 # rules"
  by (simp_all add: world_oid_defs world_object_defs)

lemma world_objects_get:
  assumes "kept world_objects s"
  shows "obj_get world_hash as_principal s (prin_oid 1) = Inr (world_principal 1 ''human'')"
    and "obj_get world_hash as_principal s (prin_oid 2) = Inr (world_principal 2 ''agent'')"
    and "obj_get world_hash as_capability s cap_oid = Inr world_cap"
    and "obj_get world_hash as_revision s (rev_oid 0) = Inr first_rev"
    and "obj_get world_hash as_revision s (rev_oid 1) = Inr draft"
    and "obj_get world_hash as_line s (7 # trunk) = Inr world_line"
    and "obj_get world_hash as_standard s (8 # rules) = Inr world_standard"
  using world_stored [OF assms] world_hashes by (simp_all add: obj_get_def del: world_hash.simps)

definition world_effects :: "effect list" where
  "world_effects = [EOwner owner, EPoint owner (prin_oid 1) None, EPoint agent (prin_oid 2) None,
     ECap cap_oid, EPoint change (rev_oid 1) None, EPoint trunk (7 # trunk) None, EPoint rules (8 # rules) None,
     EHead ''trunk'' (rev_oid 0) None 0 [] (Some trunk)]"

definition trunk_at :: "oid \<Rightarrow> u64 \<Rightarrow> string \<rightharpoonup> line_state" where
  "trunk_at i sq = [''trunk'' \<mapsto> \<lparr>ls_id = trunk, ls_head = VBytes i, ls_seq = sq, ls_coordinator = owner\<rparr>]"

definition world_view :: aview where
  "world_view = a_empty\<lparr>av_entities := [owner \<mapsto> TId (prin_oid 1), agent \<mapsto> TId (prin_oid 2),
       change \<mapsto> TId (rev_oid 1), trunk \<mapsto> TId (7 # trunk), rules \<mapsto> TId (8 # rules)],
     av_owners := {owner}, av_caps := {cap_oid}, av_lines := trunk_at (rev_oid 0) 0\<rparr>"

lemma world_effects_view: "a_effects None world_effects a_empty = Inr world_view"
  by (simp add: a_effects_def world_effects_def world_view_def a_empty_def a_head_def trunk_at_def a_first_owner_def)

lemma world_effects_ok: "\<forall>e \<in> set world_effects. effect_ids_ok e"
  by (simp add: world_effects_def cap_oid_def)

text \<open>The agent pauses a scope and moves its change on; the owner pauses another one and advances the trunk to it.\<close>

definition agent_effects :: "effect list" where
  "agent_effects = [EPause ''a'', EPoint change (rev_oid 2) (Some (VBytes (rev_oid 1)))]"

definition owner_effects :: "effect list" where
  "owner_effects = [EPause ''b'', EHead ''trunk'' (rev_oid 1) (Some (VBytes (rev_oid 0))) 1 [] None]"

definition agent_view :: "oid option \<Rightarrow> aview" where
  "agent_view op = (a_pause world_view ''a'' op)\<lparr>av_entities := (av_entities world_view)(change \<mapsto> TId (rev_oid 2))\<rparr>"

definition owner_view :: "oid option \<Rightarrow> aview" where
  "owner_view op = (a_pause world_view ''b'' op)\<lparr>av_lines := trunk_at (rev_oid 1) 1\<rparr>"

lemma agent_effects_view: "a_effects op agent_effects world_view = Inr (agent_view op)"
  by (simp add: a_effects_def agent_effects_def agent_view_def a_pause_def Let_def)

lemma owner_effects_view: "a_effects op owner_effects world_view = Inr (owner_view op)"
  by (simp add: a_effects_def owner_effects_def owner_view_def a_pause_def a_head_def world_view_def trunk_at_def Let_def)

lemma later_effects_ok: "\<forall>e \<in> set agent_effects. effect_ids_ok e" "\<forall>e \<in> set owner_effects. effect_ids_ok e"
  by (simp_all add: agent_effects_def owner_effects_def)

section \<open>The first operation\<close>

lemma build_op_fields:
  assumes "sound_hash (ext_hash x)" and "log_ok x log \<alpha>" and "\<forall>e \<in> set effs. effect_ids_ok e"
    and "build_op x log sg cap kind args effs time = Inr (s, p)"
  shows "step_ok (ext_hash x) (log_store log) s \<and> op_parents p = log_heads log \<and> op_author p = sg_principal sg \<and>
    op_key p = ext_public x (sg_key sg) \<and> op_cap p = cap \<and> op_kind p = kind \<and> op_args p = args \<and>
    op_effects p = effs"
proof -
  from assms(1,2) have "collision_free (ext_hash x)" "log_rep x log \<alpha>" "set (log_heads log) \<subseteq> log_verified log"
    by (simp_all add: sound_hash_def log_ok_def heads_ok_def)
  from build_op_inv [OF this assms(3,4)] show ?thesis by auto
qed

lemma world_first:
  "\<exists>log p i \<alpha>. log_reach world log \<and> log_ok world log \<alpha> \<and> \<alpha> i = world_view \<and> kept world_objects (log_store log) \<and>
     log_heads log = [i] \<and> log_verified log = {i} \<and> stored_op log i p \<and> op_kind p = ''init'' \<and> op_parents p = [] \<and>
     op_author p = owner \<and> op_effects p = world_effects \<and> log_idem log = Map.empty \<and>
     idem_key p = None"
proof -
  let ?new = "log_new world_objects" and ?sg = "world_signer 1"
  have h: "sound_hash (ext_hash world)" and c: "collision_free (ext_hash world)"
    using sound_world by (simp_all add: sound_hash_def)
  have new: "log_ok world ?new (\<lambda>_. world_view)" by (rule log_ok_new) (simp add: world_objects_ok)
  then have l: "log_rep world ?new (\<lambda>_. world_view)" by (simp add: log_ok_def)
  have hd: "log_heads ?new = []" "log_verified ?new = {}" "log_store ?new = world_objects" by (simp_all add: log_new_def)
  from build_op_total [OF c l _ world_effects_ok, of world_view ?sg None "''init''" "[]" 0] world_effects_view hd
  obtain s p where b: "build_op world ?new ?sg None ''init'' [] world_effects 0 = Inr (s, p)"
    by (auto simp: first_parent_def)
  note f = build_op_fields [OF h new world_effects_ok b]
  from build_op_inv [OF c l _ world_effects_ok b] hd world_effects_view obtain w pl where
    w: "view_rep world_hash s w world_view" "op_view p = world_hash (OView w)" "op_sig p = Some (key_sign world [1] ''op'' pl)"
      "ext_bytes world (OOp (p\<lparr>op_sig := None\<rparr>)) = Inr pl"
    by (auto simp: first_parent_def world_signer_def)
  have s: "objs_ok world_hash s" "kept world_objects s" using f hd by simp_all
  let ?log = "log_new s"
  have "check_signature world p = Inr ()"
    by (rule built_signature [where sk = "[1]" and b = pl]) (use f w in \<open>simp_all add: world_signer_def\<close>)
  moreover have "rfold (init_effect world s p) (op_effects p) (False, False) = Inr (True, True)"
    using f world_objects_get(1) [OF s(2)]
    by (simp add: world_effects_def world_signer_def world_principal_def verify_as_Inr verify_as_def
        verify_with_def obj_payload_def key_verify_def world_signed_def)
  moreover obtain s1 e where e: "view_empty world_hash s = Inr (s1, e)" "step_ok world_hash s s1" "view_rep world_hash s1 e a_empty"
    using view_empty_rep [of world_hash s] c s(1) by auto
  moreover from check_determinism_total [of world s1 e a_empty p None world_view s w] e(2,3) c s(1) w(1,2) f
    world_effects_view world_effects_ok obtain t where d: "check_determinism world s1 e p None = Inr (t, w)" by auto
  ultimately have v: "verify_op world [] ?log p = Inr (t, w)"
    using f hd by (simp add: verify_op_def verify_init_def log_new_def)
  obtain log i where r: "record_op world ?log p t w = (log, i)" by fastforce
  have "idem_key p = None" using f by (simp add: idem_key_def)
  with v r f hd have acc: "accept world [] ?log p = Inr (log, i)"
    by (simp add: accept_def check_parents_def each_def)
  have ok: "log_ok world ?log (\<lambda>_. world_view)" by (rule log_ok_new) (simp add: s(1))
  from accept_new_ok [OF h ok _ v r] f world_effects_ok obtain \<beta> where
    \<beta>: "log_ok world log \<beta>" "a_op world ?log (\<lambda>_. world_view) p = Inr (\<beta> i)" by auto
  have view: "\<beta> i = world_view" using \<beta>(2) f hd world_effects_view by (simp add: a_op_def)
  have reach: "log_reach world log"
    by (rule log_reach.accepted [OF log_reach.new _ acc]) (use s(1) f world_effects_ok in simp_all)
  note fr = record_op_fields [OF r]
  have "step_ok world_hash s1 t"
    using check_determinism_rep [of world s1 e a_empty p None t w] c e(2,3) d f world_effects_ok by simp
  with e(2) record_op_store [of world, OF h _ r] have "kept s (log_store log)" "stored_op log i p"
    by (auto intro: kept_trans)
  then have "kept world_objects (log_store log)" "stored_op log i p" using s(2) kept_trans by blast+
  moreover have "log_heads log = [i]" "log_verified log = {i}" "log_idem log = Map.empty"
    using fr \<open>idem_key p = None\<close> by (simp_all add: log_new_def btree_list_def)
  ultimately show ?thesis using \<beta>(1) f hd view reach \<open>idem_key p = None\<close>
    by (intro exI [of _ log] exI [of _ p] exI [of _ i] exI [of _ \<beta>] conjI) (simp_all add: world_signer_def)
qed

section \<open>Later operations\<close>

text \<open>An abstract view in which the owner and the agent may act.\<close>

definition world_like :: "aview \<Rightarrow> bool" where
  "world_like a \<longleftrightarrow> (\<forall>k. k \<noteq> change \<longrightarrow> av_entities a k = av_entities world_view k) \<and> av_owners a = {owner} \<and>
     av_caps a = {cap_oid} \<and> av_revoked a = {}"

lemma world_view_like [simp]: "world_like world_view"
  by (simp add: world_like_def world_view_def a_empty_def)

lemma agent_view_like [simp]: "world_like (agent_view op)"
  using world_view_like by (simp add: world_like_def agent_view_def a_pause_def Let_def)

text \<open>Who acts: the owner, or the agent with the capability.\<close>

definition world_actor :: "op \<Rightarrow> bool" where
  "world_actor p \<longleftrightarrow>
     op_author p = owner \<and> op_key p = [1] \<and> op_kind p = ''land'' \<and> op_effects p = owner_effects \<or>
     op_author p = agent \<and> op_key p = [2] \<and> op_cap p = Some cap_oid \<and> op_kind p = ''sync'' \<and> op_effects p = agent_effects"

lemma world_principals:
  assumes "view_rep world_hash s v a" and "world_like a" and "kept world_objects s"
  shows "resolve_principal world s v owner = Inr (Some (prin_oid 1, world_principal 1 ''human''))"
    and "resolve_principal world s v agent = Inr (Some (prin_oid 2, world_principal 2 ''agent''))"
proof -
  have "av_entities a owner = Some (TId (prin_oid 1))" "av_entities a agent = Some (TId (prin_oid 2))"
    using assms(2) by (simp_all add: world_like_def world_view_def a_empty_def)
  then show "resolve_principal world s v owner = Inr (Some (prin_oid 1, world_principal 1 ''human''))"
    "resolve_principal world s v agent = Inr (Some (prin_oid 2, world_principal 2 ''agent''))"
    using view_entity_rep [OF assms(1)] world_objects_get [OF assms(3)] by (simp_all add: resolve_principal_def)
qed

lemma world_chain:
  assumes "view_rep world_hash s v a" and "world_like a" and "kept world_objects s"
  shows "check_chain world s v world_cap = Inr ()"
proof -
  have "check_issuer world s v world_cap = Inr ()"
    using world_principals(1) [OF assms] principal_revoked_rep [OF assms(1)] assms(2)
    by (simp add: check_issuer_def world_cap_def world_principal_def world_like_def verify_as_def
        verify_with_def obj_payload_def key_verify_def world_signed_def)
  moreover have "view_owners v = [owner]"
    using assms(1,2) by (auto simp: view_rep_def rest_rep_def world_like_def sorted_set_single)
  moreover have "cap_parent world_cap = None" "cap_issuer world_cap = owner" by (simp_all add: world_cap_def)
  ultimately have "chain_loop world s v (Suc n) world_cap = Inr ()" for n by simp
  from this [of 63] show ?thesis by (simp add: check_chain_def)
qed

lemma world_lines:
  assumes "view_rep world_hash s v world_view"
  shows "view_lines v = [(''trunk'', \<lparr>ls_id = trunk, ls_head = VBytes (rev_oid 0), ls_seq = 0, ls_coordinator = owner\<rparr>)]"
  using assms by (intro bt_ok_eqI) (auto simp: view_rep_def rest_rep_def world_view_def trunk_at_def bt_ok_def)

lemma world_entity:
  "view_rep world_hash s v world_view \<Longrightarrow>
     view_entity world_hash s v i = Inr (Option.bind (av_entities world_view i) pointer_from_trie)"
  by (simp add: view_entity_rep)

lemma rev_oid_eq_iff [simp]: "rev_oid m = rev_oid n \<longleftrightarrow> (of_nat m :: u8) = of_nat n"
  by (simp add: rev_oid_def)

lemma oid_of_rev [simp]: "pointer_from_value (VBytes (rev_oid n)) = Some (PId (rev_oid n))"
  by (simp add: pointer_from_value_def rev_oid_def oid_from_slice_def)

lemma world_landed:
  assumes v: "view_rep world_hash s v world_view" and k: "kept world_objects s"
  shows "\<exists>c. landed_revisions world [] s v = Inr ([rev_oid 0], c)"
proof -
  have "landed_key v = [rev_oid 0]" using world_lines [OF v] by (simp add: landed_key_def line_head_def)
  moreover have "revision_parents world s (rev_oid 0) = Inr []"
    using world_stored(4) [OF k] by (simp add: revision_parents_def decode_obj_def first_rev_def world_rev_def)
  ultimately show ?thesis by (simp add: landed_revisions_def landed_walk_def Let_def)
qed

lemma world_evaluate:
  assumes v: "view_rep world_hash s v world_view" and k: "kept world_objects s"
  shows "evaluate world s v rules (rev_oid 1) draft [] = Inr []"
proof -
  have "chain_from world s v (Suc n) (Some rules) [] = Inr [world_standard]" for n
    using world_entity [OF v] world_objects_get(7) [OF k]
    by (simp add: world_view_def a_empty_def world_standard_def default_trunk_standard_def)
  from this [of 31] have "standard_chain world s v rules = Inr [world_standard]" by (simp add: standard_chain_def)
  moreover obtain cx where "make_ctx world s v (rev_oid 1) draft [] = Inr cx" "cx_revision cx = draft"
    using world_entity [OF v] world_objects_get(2,4) [OF k]
    by (simp add: make_ctx_def draft_def world_rev_def principal_of_def root_index_def first_rev_def world_view_def a_empty_def)
  ultimately show ?thesis
    by (simp add: evaluate_def check_standard_def world_standard_def default_trunk_standard_def check_clause_def draft_def
        world_rev_def holds.simps holds_structural_def)
qed

lemma world_legal:
  assumes v: "view_rep world_hash s v world_view" and k: "kept world_objects s" and p: "world_actor p"
  shows "check_legality world [] s v p (op_author p \<in> set (view_owners v)) = Inr ()"
proof -
  from world_landed [OF v k] obtain c where l: "landed_revisions world [] s v = Inr ([rev_oid 0], c)" by blast
  have ow: "view_owners v = [owner]"
    using v by (auto simp: view_rep_def rest_rep_def world_view_def sorted_set_single)
  consider "op_author p = owner" "op_kind p = ''land''" "op_effects p = owner_effects"
    | "op_author p = agent" "op_effects p = agent_effects" using p by (auto simp: world_actor_def)
  then show ?thesis
  proof cases
    case 1
    have lo: "line_object world s v trunk = Inr world_line"
      using world_entity [OF v] world_objects_get(6) [OF k]
      by (simp add: line_object_def world_view_def a_empty_def)
    have "line_standard world_line = rules" by (simp add: world_line_def init_line_def)
    with 1 lo world_lines [OF v] world_objects_get(5) [OF k] world_evaluate [OF v k]
    have "legal_effect world [rev_oid 0] s v p True (EHead ''trunk'' (rev_oid 1) (Some (VBytes (rev_oid 0))) 1 [] None) = Inr ()"
      by (simp add: legal_head_def legal_advance_def line_head_def each_def)
    with 1 l ow show ?thesis by (simp add: check_legality_def each_def owner_effects_def)
  next
    case 2
    have "legal_effect world [rev_oid 0] s v p False (EPoint change (rev_oid 2) (Some (VBytes (rev_oid 1)))) = Inr ()"
      using world_entity [OF v] world_stored(6) [OF k]
      by (simp add: legal_point_def world_view_def a_empty_def from_matches_def stored_def peek_obj_def decode_obj_def
          legal_revision_def redraft_def world_rev_def)
    with 2 l ow show ?thesis by (simp add: check_legality_def each_def agent_effects_def)
  qed
qed

lemma world_permitted:
  assumes l: "log_rep world log \<alpha>" and k: "kept world_objects (log_store log)"
    and ps: "set (op_parents p) \<subseteq> log_verified log" and hd: "set (log_heads log) \<subseteq> log_verified log"
    and like: "a_merged world log \<alpha> (op_parents p) = world_view" "world_like (a_merged world log \<alpha> (log_heads log))"
    and p: "world_actor p"
  shows "permitted world [] log p"
proof -
  have h: "collision_free (ext_hash world)" using sound_world by (simp add: sound_hash_def)
  from merged_view_rep [OF h l ps] like(1) obtain s1 v where 1: "merged_view world log (op_parents p) = Inr (s1, v)"
    "step_ok world_hash (log_store log) s1" "view_rep world_hash s1 v world_view"
    by (auto simp: refines_def)
  have l1: "log_rep world (log\<lparr>log_store := s1\<rparr>) \<alpha>" by (rule log_rep_store [OF l]) (simp only: world_fields 1(2))
  have same: "a_merged world (log\<lparr>log_store := s1\<rparr>) \<alpha> (log_heads log) = a_merged world log \<alpha> (log_heads log)"
    by (rule a_merged_kept [OF l _ hd]) (use 1(2) in simp)
  from merged_view_rep [OF h l1, of "log_heads log"] hd same obtain s2 c where
    2: "current_view world (log\<lparr>log_store := s1\<rparr>) = Inr (s2, c)" "step_ok world_hash s1 s2"
      "view_rep world_hash s2 c (a_merged world log \<alpha> (log_heads log))"
    by (auto simp: refines_def current_view_def)
  have v: "view_rep world_hash s2 v world_view"
    by (rule view_rep_mono [OF 1(3)]) (use 2(2) in simp)
  have k2: "kept world_objects s2" using kept_trans [OF kept_trans [OF k, of s1], of s2] 1(2) 2(2) by simp
  note pv = world_principals [OF v world_view_like k2] and pc = world_principals [OF 2(3) like(2) k2]
  have rev: "principal_revoked world_hash s2 c q = Inr False" for q
    using principal_revoked_rep [OF 2(3)] like(2) by (simp add: world_like_def)
  obtain ver where "check_author_v world s2 v p = Inr ver" "check_author_c world s2 c ver p = Inr ()"
    using p pv pc rev
    by (auto simp: world_actor_def check_author_v_def check_author_c_def world_principal_def)
  moreover have "check_authorization world s2 v c p = Inr ()"
  proof -
    have ow: "view_owners v = [owner]"
      using v by (auto simp: view_rep_def rest_rep_def world_view_def sorted_set_single)
    have cv: "in_set world_hash s2 (view_caps v) cap_oid = Inr True" "in_set world_hash s2 (view_caps c) cap_oid = Inr True"
      using caps_rep [OF v] caps_rep [OF 2(3)] like by (simp_all add: world_like_def world_view_def)
    have "check_authorizes world s2 v world_cap p = Inr ()" if "op_kind p = ''sync''" "op_effects p = agent_effects"
      using that world_stored(6) [OF k2]
      by (simp add: check_authorizes_def each_def ungated_def agent_effects_def stored_def peek_obj_def)
    with p ow cv world_objects_get(3) [OF k2] world_chain [OF v world_view_like k2] show ?thesis
      by (auto simp: check_authorization_def world_actor_def world_cap_def)
  qed
  ultimately show ?thesis using 1(1) 2(1) world_legal [OF v k2 p] unfolding permitted_def by blast
qed

text \<open>One more operation, built on \<open>log\<close>, accepted in \<open>log'\<close>.\<close>

lemma world_accept:
  assumes ok: "log_ok world log \<alpha>" and ne: "log_heads log \<noteq> []" and k: "kept world_objects (log_store log)"
    and ids: "\<forall>e \<in> set effs. effect_ids_ok e"
    and b: "build_op world log (world_signer n) cap kind args effs 0 = Inr (s, p)"
    and n: "n = 1 \<or> n = 2" and actor: "world_actor p"
    and ok': "log_ok world log' \<beta>" and g: "grown log log'" and \<beta>: "\<And>j. j \<in> log_verified log \<Longrightarrow> \<beta> j = \<alpha> j"
    and like: "a_merged world log \<alpha> (log_heads log) = world_view" "world_like (a_merged world log' \<beta> (log_heads log'))"
    and idem: "Option.bind (idem_key p) (log_idem log') = None"
  shows "\<exists>log'' i. accept world [] log' p = Inr (log'', i) \<and> (\<exists>s w. verify_op world [] log' p = Inr (s, w) \<and>
     record_op world log' p s w = (log'', i))"
proof -
  have h: "sound_hash (ext_hash world)" and c: "collision_free (ext_hash world)"
    using sound_world by (simp_all add: sound_hash_def)
  from ok have l: "log_rep world log \<alpha>" and hd: "set (log_heads log) \<subseteq> log_verified log"
    by (simp_all add: log_ok_def heads_ok_def)
  from ok' have l': "log_rep world log' \<beta>" and hd': "set (log_heads log') \<subseteq> log_verified log'"
    by (simp_all add: log_ok_def heads_ok_def)
  note f = build_op_fields [OF h ok ids b]
  have par: "set (op_parents p) \<subseteq> log_verified log'" using f hd g by (auto simp: grown_def)
  have kk: "kept (log_store log) (log_store log')" using g by (simp add: grown_def)
  have "a_merged world log' \<beta> (op_parents p) = a_merged world log \<alpha> (op_parents p)"
    using f trans [OF a_merged_kept [OF log_rep_cong [OF l \<beta>] kk hd] a_merged_cong [OF l hd \<beta>]] by simp
  then have "permitted world [] log' p"
    using like actor f by (intro world_permitted [OF l' kept_trans [OF k kk] par hd']) simp_all
  from built_verifies [OF c l hd ne ids b l' hd' g \<beta> _ _ _ _ this] n obtain t w where
    v: "verify_op world [] log' p = Inr (t, w)" by (auto simp: world_signer_def)
  obtain log'' i where r: "record_op world log' p t w = (log'', i)" by fastforce
  have "check_parents log' p = Inr ()" using par by (auto simp: check_parents_def each_Inr_iff ensure_Inr_iff)
  with v r idem show ?thesis by (auto simp: accept_def)
qed

section \<open>A log with two heads\<close>

text \<open>
  \<open>log0\<close> has the first operation \<open>i0\<close>; the agent built \<open>p1\<close> on it, whose acceptance gives \<open>log1\<close>. An operation
  that the owner built on \<open>log0\<close> too, with an idempotency key, is accepted in \<open>log1\<close>, which gives two heads.
\<close>

record world_run =
  wr_log0 :: oplog
  wr_i0 :: oid
  wr_s1 :: objs
  wr_p1 :: op
  wr_log1 :: oplog
  wr_i1 :: oid
  wr_views :: "oid \<Rightarrow> aview"

definition world_args :: "(string, value) btree" where
  "world_args = args_with_idem (replicate 16 7) []"

lemma world_record:
  assumes ok: "log_ok world log \<alpha>" and ids: "\<forall>e \<in> set (op_effects p). effect_ids_ok e"
    and acc: "accept world cache log p = Inr (log', i)"
    and v: "verify_op world cache log p = Inr (s, w)" and r: "record_op world log p s w = (log', i)"
    and reach: "log_reach world log" and objs: "kept world_objects (log_store log)"
  shows "\<exists>\<beta>. log_ok world log' \<beta> \<and> (\<forall>j \<in> log_verified log. \<beta> j = \<alpha> j) \<and> a_op world log \<alpha> p = Inr (\<beta> i) \<and>
     log_reach world log' \<and> grown log log' \<and> kept world_objects (log_store log') \<and> stored_op log' i p \<and>
     i = world_hash (OOp p) \<and> parents_of world log' i = Inr (op_parents p)"
proof -
  have h: "sound_hash (ext_hash world)" using sound_world by simp
  then have c: "collision_free (ext_hash world)" by (simp add: sound_hash_def)
  from accept_new_ok [OF h ok ids v r] obtain \<beta> where
    b: "log_ok world log' \<beta>" "a_op world log \<alpha> p = Inr (\<beta> i)" "\<forall>j \<in> log_verified log. \<beta> j = \<alpha> j" by blast
  from ok have l: "log_rep world log \<alpha>" "ops_ok world log \<alpha>" "set (log_heads log) \<subseteq> log_verified log"
    by (simp_all add: log_ok_def heads_ok_def)
  from verify_op_rep [OF c l(1,3) ids v] have s: "step_ok world_hash (log_store log) s" by simp
  then have g: "grown log log'" by (intro record_grown [OF h l(2) _ r]) simp
  moreover have "kept world_objects (log_store log')" using kept_trans [OF objs] g by (simp add: grown_def)
  moreover have "log_reach world log'" by (rule log_reach.accepted [OF reach ids acc])
  moreover have st: "stored_op log' i p" by (rule record_op_store(2) [OF h _ r]) (use s in simp)
  moreover have "i = world_hash (OOp p)" using record_op_fields(1) [OF r] by simp
  moreover have "parents_of world log' i = Inr (op_parents p)" by (rule stored_parents [OF st]) (simp add: \<open>i = _\<close>)
  ultimately show ?thesis using b by blast
qed

definition run_ok :: "world_run \<Rightarrow> bool" where
  "run_ok r \<longleftrightarrow>
     log_reach world (wr_log0 r) \<and> log_ok world (wr_log0 r) (wr_views r) \<and> kept world_objects (log_store (wr_log0 r)) \<and>
     log_heads (wr_log0 r) = [wr_i0 r] \<and> log_verified (wr_log0 r) = {wr_i0 r} \<and> log_idem (wr_log0 r) = Map.empty \<and>
     build_op world (wr_log0 r) (world_signer 2) (Some cap_oid) ''sync'' [] agent_effects 0 = Inr (wr_s1 r, wr_p1 r) \<and>
     accept world [] ((wr_log0 r)\<lparr>log_store := wr_s1 r\<rparr>) (wr_p1 r) = Inr (wr_log1 r, wr_i1 r) \<and>
     (\<exists>s w. verify_op world [] ((wr_log0 r)\<lparr>log_store := wr_s1 r\<rparr>) (wr_p1 r) = Inr (s, w)) \<and>
     log_reach world (wr_log1 r) \<and> log_ok world (wr_log1 r) (wr_views r) \<and>
     grown (wr_log0 r) (wr_log1 r) \<and> log_idem (wr_log1 r) = Map.empty \<and>
     kept world_objects (log_store (wr_log1 r)) \<and>
     (\<forall>i q. i \<in> {wr_i0 r, wr_i1 r} \<longrightarrow> stored_op (wr_log1 r) i q \<longrightarrow> idem_key q = None) \<and>
     log_heads (wr_log1 r) = [wr_i1 r] \<and> log_verified (wr_log1 r) = {wr_i0 r, wr_i1 r} \<and> wr_i0 r \<noteq> wr_i1 r \<and>
     stored_op (wr_log1 r) (wr_i1 r) (wr_p1 r) \<and> world_hash (OOp (wr_p1 r)) = wr_i1 r \<and>
     parents_of world (wr_log1 r) (wr_i0 r) = Inr [] \<and> parents_of world (wr_log1 r) (wr_i1 r) = Inr [wr_i0 r] \<and>
     wr_views r (wr_i0 r) = world_view \<and> wr_views r (wr_i1 r) = agent_view (Some (wr_i0 r))"

lemma run_first: "\<exists>r. run_ok r"
proof -
  have h: "sound_hash (ext_hash world)" and c: "collision_free (ext_hash world)"
    using sound_world by (simp_all add: sound_hash_def)
  from world_first obtain log0 p0 i0 \<alpha> where 0: "log_reach world log0" "log_ok world log0 \<alpha>" "\<alpha> i0 = world_view"
    "kept world_objects (log_store log0)" "log_heads log0 = [i0]" "log_verified log0 = {i0}" "stored_op log0 i0 p0"
    "op_kind p0 = ''init''" "log_idem log0 = Map.empty" "idem_key p0 = None" "op_parents p0 = []" by blast
  from 0(2) have l: "log_rep world log0 \<alpha>" and hd: "set (log_heads log0) \<subseteq> log_verified log0"
    by (simp_all add: log_ok_def heads_ok_def)
  note ids = later_effects_ok(1)
  have m: "a_merged world log0 \<alpha> (log_heads log0) = world_view" using 0(3,5) by simp
  have eff: "a_effects (first_parent (log_heads log0)) agent_effects (a_merged world log0 \<alpha> (log_heads log0)) =
      Inr (agent_view (first_parent (log_heads log0)))" using m agent_effects_view by simp
  from build_op_total [OF c l hd ids _ eff, of "world_signer 2" "Some cap_oid" "''sync''" "[]" 0] obtain s p where
    b: "build_op world log0 (world_signer 2) (Some cap_oid) ''sync'' [] agent_effects 0 = Inr (s, p)" by auto
  note f = build_op_fields [OF h 0(2) ids b]
  let ?log = "log0\<lparr>log_store := s\<rparr>"
  have st: "step_ok (ext_hash world) (log_store log0) s" using f by blast
  have ok: "log_ok world ?log \<alpha>" by (rule log_ok_store [OF 0(2) st])
  have g: "grown log0 ?log" using st by (simp add: grown_def)
  have m': "a_merged world ?log \<alpha> (log_heads ?log) = world_view" using 0(3,5) by simp
  have actor: "world_actor p" using f by (simp add: world_actor_def world_signer_def)
  have "\<exists>log'' i. accept world [] ?log p = Inr (log'', i) \<and> (\<exists>s w. verify_op world [] ?log p = Inr (s, w) \<and>
     record_op world ?log p s w = (log'', i))"
    by (rule world_accept [OF 0(2) _ 0(4) ids b _ actor ok g _ m]) (use 0(5,9) f m' in \<open>auto simp: idem_key_def\<close>)
  then obtain log1 i1 t w where 1: "accept world [] ?log p = Inr (log1, i1)" "verify_op world [] ?log p = Inr (t, w)"
    "record_op world ?log p t w = (log1, i1)" by blast
  have reach: "log_reach world ?log" by (rule log_reach.stored [OF 0(1) st])
  have objs: "kept world_objects (log_store ?log)" using kept_trans [OF 0(4)] st by simp
  have idp: "\<forall>e \<in> set (op_effects p). effect_ids_ok e" using f ids by simp
  from world_record [OF ok idp 1 reach objs] f obtain \<beta> where 2: "log_ok world log1 \<beta>" "\<beta> i0 = \<alpha> i0"
    "a_op world ?log \<alpha> p = Inr (\<beta> i1)" "log_reach world log1" "i1 = world_hash (OOp p)"
    "grown ?log log1" "kept world_objects (log_store log1)" "stored_op log1 i1 p"
    "parents_of world log1 i1 = Inr (op_parents p)" using 0(6) by auto
  have g1: "grown log0 log1" using g 2(6) kept_trans by (auto simp: grown_def)
  have ne: "i0 \<noteq> i1"
  proof
    assume "i0 = i1"
    obtain q where "stored_op log0 i0 q" "ext_hash world (OOp q) = i0"
      using 0(2,6) by (auto simp: log_ok_def ops_ok_def)
    with 0(7) have "world_hash (OOp p0) = i0" by (simp add: stored_op_def)
    with \<open>i0 = i1\<close> 2(5) stored_same [OF h, of p0 p] have "p0 = p" by simp
    with 0(8) f show False by simp
  qed
  have "log_ok world log0 \<beta>" by (rule log_ok_cong [OF 0(2)]) (simp add: 0(6) 2(2))
  moreover have "\<beta> i1 = agent_view (Some i0)"
    using 2(3) f 0(3,5) by (simp add: a_op_def agent_effects_view)
  moreover have "log_heads log1 = [i1]" "log_verified log1 = {i0, i1}" "log_idem log1 = Map.empty"
    using record_op_fields(2,3,5) [OF 1(3)] f 0(5,6,9) by (auto simp: btree_list_def idem_key_def)
  moreover have "parents_of world log1 i0 = Inr []"
  proof -
    obtain q :: op where q: "stored_op log0 i0 q" "ext_hash world (OOp q) = i0"
      using 0(2,6) by (auto simp: log_ok_def ops_ok_def)
    with 0(7) have "q = p0" by (simp add: stored_op_def)
    with stored_parents [OF q] 0(11) have "parents_of world log0 i0 = Inr []" by simp
    then show ?thesis by (rule parents_of_kept [rotated]) (use g1 in \<open>simp add: grown_def\<close>)
  qed
  moreover have "parents_of world log1 i1 = Inr [i0]" using 2(9) f 0(5) by simp
  moreover have "\<forall>i q. i \<in> {i0, i1} \<longrightarrow> stored_op log1 i q \<longrightarrow> idem_key q = None"
    using 0(7,10) g1 2(8) f by (auto simp: stored_op_def grown_def kept_def idem_key_def)
  ultimately have "run_ok \<lparr>wr_log0 = log0, wr_i0 = i0, wr_s1 = s, wr_p1 = p, wr_log1 = log1, wr_i1 = i1, wr_views = \<beta>\<rparr>"
    using 0(1-6,9) 1(1,2) 2(1,2,4,5,7,8) ne b g1 by (simp add: run_ok_def)
  then show ?thesis ..
qed

lemma run_second:
  assumes "run_ok r"
  shows "\<exists>s p log i \<beta>. build_op world (wr_log0 r) (world_signer 1) None ''land'' world_args owner_effects 0 = Inr (s, p) \<and>
     accept world [] (wr_log1 r) p = Inr (log, i) \<and> (\<exists>t w. verify_op world [] (wr_log1 r) p = Inr (t, w)) \<and>
     log_reach world log \<and> log_ok world log \<beta> \<and>
     i \<notin> {wr_i0 r, wr_i1 r} \<and> set (log_heads log) = {i, wr_i1 r} \<and> log_verified log = {i, wr_i0 r, wr_i1 r} \<and>
     parents_of world log i = Inr [wr_i0 r] \<and> idem_key p = Some (owner, replicate 16 7)"
proof -
  have h: "sound_hash (ext_hash world)" and c: "collision_free (ext_hash world)"
    using sound_world by (simp_all add: sound_hash_def)
  let ?log0 = "wr_log0 r" and ?log1 = "wr_log1 r" and ?\<alpha> = "wr_views r" and ?i0 = "wr_i0 r" and ?i1 = "wr_i1 r"
  from assms have 0: "log_ok world ?log0 ?\<alpha>" "log_heads ?log0 = [?i0]" "kept world_objects (log_store ?log0)"
    "?\<alpha> ?i0 = world_view" "log_verified ?log0 = {?i0}" by (simp_all add: run_ok_def)
  from assms have 1: "log_ok world ?log1 ?\<alpha>" "log_heads ?log1 = [?i1]" "grown ?log0 ?log1" "log_idem ?log1 = Map.empty"
    "?\<alpha> ?i1 = agent_view (Some ?i0)" "log_verified ?log1 = {?i0, ?i1}" "?i0 \<noteq> ?i1" "log_reach world ?log1"
    "kept world_objects (log_store ?log1)" by (simp_all add: run_ok_def)
  from 0(1) have l: "log_rep world ?log0 ?\<alpha>" and hd: "set (log_heads ?log0) \<subseteq> log_verified ?log0"
    by (simp_all add: log_ok_def heads_ok_def)
  note ids = later_effects_ok(2)
  have m: "a_merged world ?log0 ?\<alpha> (log_heads ?log0) = world_view" using 0(2,4) by simp
  have eff: "a_effects (first_parent (log_heads ?log0)) owner_effects (a_merged world ?log0 ?\<alpha> (log_heads ?log0)) =
      Inr (owner_view (first_parent (log_heads ?log0)))" using m owner_effects_view by simp
  from build_op_total [OF c l hd ids _ eff, of "world_signer 1" None "''land''" world_args 0] obtain s p where
    b: "build_op world ?log0 (world_signer 1) None ''land'' world_args owner_effects 0 = Inr (s, p)" by auto
  note f = build_op_fields [OF h 0(1) ids b]
  have like: "a_merged world ?log0 ?\<alpha> (log_heads ?log0) = world_view" "world_like (a_merged world ?log1 ?\<alpha> (log_heads ?log1))"
    using m 1(2,5) by simp_all
  have actor: "world_actor p" using f by (simp add: world_actor_def world_signer_def)
  have "\<exists>log'' i. accept world [] ?log1 p = Inr (log'', i) \<and> (\<exists>s w. verify_op world [] ?log1 p = Inr (s, w) \<and>
     record_op world ?log1 p s w = (log'', i))"
    by (rule world_accept [OF 0(1) _ 0(3) ids b _ actor 1(1,3) _ like]) (use 0(2) 1(4) in simp_all)
  then obtain log i t w where 2: "accept world [] ?log1 p = Inr (log, i)" "verify_op world [] ?log1 p = Inr (t, w)"
    "record_op world ?log1 p t w = (log, i)" by blast
  have idp: "\<forall>e \<in> set (op_effects p). effect_ids_ok e" using f ids by simp
  from world_record [OF 1(1) idp 2 1(8,9)] f obtain \<beta> where 3: "log_ok world log \<beta>" "log_reach world log"
    "i = world_hash (OOp p)" "parents_of world log i = Inr [?i0]" using 0(2) by auto
  have "i \<notin> {?i0, ?i1}"
  proof
    assume i: "i \<in> {?i0, ?i1}"
    then have "i \<in> log_verified ?log1" using 1(6) by simp
    with 1(1) obtain q :: op where q: "stored_op ?log1 i q" "ext_hash world (OOp q) = i"
      by (auto simp: log_ok_def ops_ok_def)
    have "q = p" by (rule stored_same [OF h]) (use q(2) 3(3) in simp)
    moreover have "idem_key p \<noteq> None"
      using f by (simp add: idem_key_def world_args_def args_with_idem_def)
    ultimately show False using assms i q(1) by (auto simp: run_ok_def)
  qed
  moreover have "set (log_heads log) = {i, ?i1}" "log_verified log = {i, ?i0, ?i1}"
    using record_op_fields(2,3) [OF 2(3)] f 0(2) 1(2,6,7) by auto
  moreover have "idem_key p = Some (owner, replicate 16 7)"
    using f by (simp add: idem_key_def world_args_def args_with_idem_def world_signer_def)
  ultimately show ?thesis using b 2 3 by blast
qed

end
