(* ===== verification/Legality_Props.thy ===== *)
theory Legality_Props
  imports Verify_Props
begin

text \<open>
  The rules of step 7: which revisions have landed and stay as they are, when a line moves, and what the
  rules leave open.
\<close>

section \<open>Landed revisions\<close>

definition landed_set :: "ext \<Rightarrow> objs \<Rightarrow> view \<Rightarrow> oid set" where
  "landed_set x s v = reached (revision_parents x s) (set (landed_key v))"

text \<open>What every set in the cache should be: the revisions its heads lead to in the store at hand.\<close>

definition cache_ok :: "ext \<Rightarrow> objs \<Rightarrow> landed_cache \<Rightarrow> bool" where
  "cache_ok x s cache \<longleftrightarrow>
     length cache \<le> landed_kept \<and>
     (\<forall>(key, seen) \<in> set cache. set seen = reached (revision_parents x s) (set key))"

lemma finite_revisions:
  assumes "finite (dom s)"
  shows "finite (reached (revision_parents x s) (set key))"
proof -
  let ?U = "set key \<union> (\<Union>i \<in> dom s. set (projr (revision_parents x s i)))"
  have "set js \<subseteq> ?U" if "revision_parents x s i = Inr js" for i js
  proof (cases "s i")
    case None
    with that show ?thesis by (simp add: revision_parents_def)
  next
    case (Some y)
    then have "i \<in> dom s" by blast
    with that show ?thesis by (auto intro!: bexI [of _ i])
  qed
  then have "reached (revision_parents x s) (set key) \<subseteq> ?U"
    by (intro reached_subset) (auto simp: closed_under_def)
  moreover have "finite ?U" using assms by (intro finite_UnI finite_UN_I finite_set)
  ultimately show ?thesis by (rule finite_subset)
qed

lemma landed_walk_ex:
  assumes "finite (reached (revision_parents x s) (set key))"
  shows "\<exists>seen. landed_walk x s key = Inr seen \<and> set seen = reached (revision_parents x s) (set key)"
proof -
  have "\<exists>js. revision_parents x s i = Inr js" for i by (simp add: revision_parents_def)
  with bfs_Inr_ex [OF assms] show ?thesis
    by (auto simp: landed_walk_def result_simps)
qed

lemma landed_revisions_aux:
  assumes "finite (landed_set x s v)" and "cache_ok x s cache"
  shows "\<exists>seen cache'. landed_revisions x cache s v = Inr (seen, cache') \<and> set seen = landed_set x s v \<and>
     cache_ok x s cache'"
proof (cases "map_of cache (landed_key v)")
  case None
  obtain seen where seen: "landed_walk x s (landed_key v) = Inr seen"
    "set seen = reached (revision_parents x s) (set (landed_key v))"
    using landed_walk_ex [of x s "landed_key v"] assms(1) by (auto simp: landed_set_def)
  have "cache_ok x s (cache_push cache (landed_key v) seen)"
    using assms(2) seen(2) set_drop_subset [of 1 cache]
    by (auto simp: cache_ok_def cache_push_def landed_kept_def) blast+
  with None seen show ?thesis by (simp add: landed_revisions_def landed_set_def)
next
  case (Some seen)
  then have "(landed_key v, seen) \<in> set cache" by (rule map_of_SomeD)
  with assms(2) Some show ?thesis
    by (auto simp: landed_revisions_def landed_set_def cache_ok_def)
qed

lemma landed_set_of:
  "finite (landed_set x s v) \<Longrightarrow> cache_ok x s cache \<Longrightarrow> landed_revisions x cache s v = Inr (seen, cache') \<Longrightarrow>
     set seen = landed_set x s v"
  using landed_revisions_aux [of x s v cache] by auto

text \<open>\<open>landed_revisions\<close> returns: in a finite store and with a cache that holds what its keys lead to in
  this store, the result is the set of the revisions reachable from the heads of the lines, and the cache
  still holds what its keys lead to, in at most 16 entries.\<close>

theorem landed_revisions_correct:
  assumes "finite (dom s)" and "cache_ok x s cache"
  shows "\<exists>seen cache'. landed_revisions x cache s v = Inr (seen, cache') \<and> set seen = landed_set x s v \<and>
     cache_ok x s cache'"
  using finite_revisions [OF assms(1)] assms(2) by (intro landed_revisions_aux) (simp_all add: landed_set_def)

text \<open>The cache goes by the heads alone: with a set in it for the heads of a view, that set is the
  answer, whichever store the verifier reads and whatever revisions arrived there since.\<close>

theorem landed_cache_ignores_store:
  "landed_revisions x [(landed_key v, seen)] s v = Inr (seen, [(landed_key v, seen)])"
  by (simp add: landed_revisions_def)

section \<open>What a legal operation does\<close>

lemma verified_legal:
  assumes "verify_op x cache log p = Inr (s', w)" and "op_parents p \<noteq> []"
  obtains s1 v s c landed cache' where "merged_view x log (op_parents p) = Inr (s1, v)"
    "current_view x (log\<lparr>log_store := s1\<rparr>) = Inr (s, c)" "landed_revisions x cache s v = Inr (landed, cache')"
    "\<And>e. e \<in> set (op_effects p) \<Longrightarrow> legal_effect x landed s v p (op_author p \<in> set (view_owners v)) e = Inr ()"
proof -
  from verify_op_steps [OF assms] obtain s v c where st: "verified_with x cache log p s v c s' w" by blast
  then obtain s1 where 1: "merged_view x log (op_parents p) = Inr (s1, v)"
    "current_view x (log\<lparr>log_store := s1\<rparr>) = Inr (s, c)"
    "check_legality x cache s v p (op_author p \<in> set (view_owners v)) = Inr ()"
    by (auto simp: verified_with_def)
  from 1(3) obtain landed cache' where "landed_revisions x cache s v = Inr (landed, cache')"
    "\<forall>e \<in> set (op_effects p). legal_effect x landed s v p (op_author p \<in> set (view_owners v)) e = Inr ()"
    by (auto simp: check_legality_def result_simps)
  with 1 that show ?thesis by blast
qed

lemma legal_point_revision:
  assumes "legal_point x landed s v p own e to from' = Inr ()" and "s to = Some (ORevision r)"
    and "view_entity (ext_hash x) s v e = Inr (Some (PId cur))"
  shows "rev_id r = e" and "rev_prev r = Some cur" and "cur \<in> set landed \<Longrightarrow> op_kind p = ''restack''"
    and "Option.bind from' pointer_from_value = Some (PId cur)"
  using assms
  by (auto simp: legal_point_def legal_revision_def stored_def peek_obj_def decode_obj_def from_matches_def result_simps)

text \<open>Landed changes are immutable: an accepted operation that moves a change whose current version is
  among the revisions reachable from the heads of the lines is a restack, and moves the change from that
  version to one that names it as its predecessor.\<close>

theorem landed_is_immutable:
  assumes "verify_op x cache log p = Inr (s', w)" and "op_parents p \<noteq> []" and "EPoint e to from' \<in> set (op_effects p)"
  shows "\<exists>s1 v s c. merged_view x log (op_parents p) = Inr (s1, v) \<and>
       current_view x (log\<lparr>log_store := s1\<rparr>) = Inr (s, c) \<and>
       (\<forall>cur r. finite (landed_set x s v) \<and> cache_ok x s cache \<and> s to = Some (ORevision r) \<and>
          view_entity (ext_hash x) s v e = Inr (Some (PId cur)) \<longrightarrow>
          rev_id r = e \<and> rev_prev r = Some cur \<and> (cur \<in> landed_set x s v \<longrightarrow> op_kind p = ''restack''))"
proof -
  from verified_legal [OF assms(1,2)] obtain s1 v s c landed cache' where
    1: "merged_view x log (op_parents p) = Inr (s1, v)" "current_view x (log\<lparr>log_store := s1\<rparr>) = Inr (s, c)"
    "landed_revisions x cache s v = Inr (landed, cache')"
    "\<And>e. e \<in> set (op_effects p) \<Longrightarrow> legal_effect x landed s v p (op_author p \<in> set (view_owners v)) e = Inr ()" by blast
  have "rev_id r = e \<and> rev_prev r = Some cur \<and> (cur \<in> landed_set x s v \<longrightarrow> op_kind p = ''restack'')"
    if "finite (landed_set x s v)" "cache_ok x s cache" "s to = Some (ORevision r)"
      "view_entity (ext_hash x) s v e = Inr (Some (PId cur))" for cur r
  proof -
    from landed_set_of [OF that(1,2) 1(3)] have "set landed = landed_set x s v" by simp
    with legal_point_revision [OF _ that(3,4)] 1(4) [OF assms(3)] show ?thesis by auto
  qed
  with 1(1,2) show ?thesis by blast
qed

section \<open>Lines\<close>

lemma legal_advance_iff:
  "legal_advance x s v p own ls to from' sq ats r = Inr () \<longleftrightarrow>
     ls_coordinator ls = op_author p \<and> line_head ls = Option.bind from' pointer_from_value \<and> sq = ls_seq ls + 1 \<and>
     (\<forall>a \<in> set ats. s a \<noteq> None) \<and>
     (\<exists>legacy. (if own \<and> op_kind p = ''import'' \<and> ats = [] then legacy_intent x s v p r else Inr False) = Inr legacy \<and>
        (if legacy
         then \<exists>h q qs. line_head ls = Some (PId h) \<and> rev_parents r = q # qs \<and> h = q
         else \<exists>lo. line_object x s v (ls_id ls) = Inr lo \<and> evaluate x s v (line_standard lo) to r ats = Inr []))"
proof -
  let ?m = "if own \<and> op_kind p = ''import'' \<and> ats = [] then legacy_intent x s v p r else Inr False"
  show ?thesis
  proof (cases ?m)
    case (Inl err)
    then show ?thesis by (simp add: legal_advance_def result_simps)
  next
    case (Inr legacy)
    then show ?thesis
      by (cases legacy)
         (auto simp: legal_advance_def result_simps split: option.splits pointer.splits list.splits)
  qed
qed

text \<open>C5: a line moves only by the rules: an accepted operation that moves the head of an existing line is
  by the line's coordinator, names the head it moves from, and takes the next sequence number modulo
  \<open>2 ^ 64\<close>; the attestations it cites are in the store; and the standard of the line is met by the
  revision, unless an owner imports history without evidence and the revision sits on the head. A new
  line is created by an owner, with an id and the sequence number 0.\<close>

theorem line_moves_by_the_rules:
  assumes "verify_op x cache log p = Inr (s', w)" and "op_parents p \<noteq> []"
    and "EHead l to from' sq ats i \<in> set (op_effects p)"
  shows "\<exists>s1 v s c r. merged_view x log (op_parents p) = Inr (s1, v) \<and>
       current_view x (log\<lparr>log_store := s1\<rparr>) = Inr (s, c) \<and> obj_get (ext_hash x) as_revision s to = Inr r \<and>
       (case map_of (view_lines v) l of
          None \<Rightarrow> op_author p \<in> set (view_owners v) \<and> i \<noteq> None \<and> from' = None \<and> sq = 0
        | Some ls \<Rightarrow>
            ls_coordinator ls = op_author p \<and> line_head ls = Option.bind from' pointer_from_value \<and>
            sq = ls_seq ls + 1 \<and> (\<forall>a \<in> set ats. s a \<noteq> None) \<and>
            ((\<exists>lo. line_object x s v (ls_id ls) = Inr lo \<and> evaluate x s v (line_standard lo) to r ats = Inr []) \<or>
             op_author p \<in> set (view_owners v) \<and> op_kind p = ''import'' \<and> ats = [] \<and>
             legacy_intent x s v p r = Inr True \<and>
             (\<exists>h qs. line_head ls = Some (PId h) \<and> rev_parents r = h # qs)))"
proof -
  from verified_legal [OF assms(1,2)] obtain s1 v s c landed cache' where
    1: "merged_view x log (op_parents p) = Inr (s1, v)" "current_view x (log\<lparr>log_store := s1\<rparr>) = Inr (s, c)"
    "landed_revisions x cache s v = Inr (landed, cache')"
    "\<And>e. e \<in> set (op_effects p) \<Longrightarrow> legal_effect x landed s v p (op_author p \<in> set (view_owners v)) e = Inr ()" by blast
  let ?own = "op_author p \<in> set (view_owners v)"
  from 1(4) [OF assms(3)] have "legal_head x s v p ?own l to from' sq ats i = Inr ()" by simp
  then obtain r where r: "obj_get (ext_hash x) as_revision s to = Inr r"
    and body: "(case map_of (view_lines v) l of
       None \<Rightarrow>
         rbind (ensure ?own (Rejected 7 ''line'')) (\<lambda>_.
         ensure (i \<noteq> None \<and> from' = None \<and> sq = 0) (Rejected 7 ''line''))
     | Some ls \<Rightarrow> legal_advance x s v p ?own ls to from' sq ats r) = Inr ()"
    by (auto simp: legal_head_def result_simps)
  show ?thesis
  proof (cases "map_of (view_lines v) l")
    case None
    with body 1(1,2) r show ?thesis by (auto simp: result_simps)
  next
    case (Some ls)
    with body have adv: "legal_advance x s v p ?own ls to from' sq ats r = Inr ()" by simp
    then obtain legacy where
      "(if ?own \<and> op_kind p = ''import'' \<and> ats = [] then legacy_intent x s v p r else Inr False) = Inr legacy"
      "if legacy
         then \<exists>h q qs. line_head ls = Some (PId h) \<and> rev_parents r = q # qs \<and> h = q
         else \<exists>lo. line_object x s v (ls_id ls) = Inr lo \<and> evaluate x s v (line_standard lo) to r ats = Inr []"
      unfolding legal_advance_iff by blast
    with adv Some 1(1,2) r show ?thesis
      by (cases legacy) (auto simp: legal_advance_iff split: if_splits)
  qed
qed

section \<open>What the rules leave open\<close>

text \<open>A principal rotates itself into any kind: a next version that is signed under the key of the
  current one and names it as its predecessor is legal whatever kind, name and parent it claims, for an
  author who is not an owner. A session can sign a version of itself of kind \<open>human\<close> or \<open>verifier\<close>,
  which the standards then trust.\<close>

theorem rotation_may_change_kind:
  assumes "obj_get (ext_hash x) as_principal s cur = Inr old" and "prin_key old = Some k"
    and "prin_id q = e" and "prin_prev q = Some cur" and "prin_status q \<noteq> ''revoked''"
    and "verify_with x (OPrincipal q) k = Inr ()"
  shows "legal_principal x s v p False e (Some (PId cur)) q = Inr ()"
  using assms by (simp add: legal_principal_def legal_next_principal_def result_simps Let_def)

end
