(* ===== verification/Path_Props.thy ===== *)
theory Path_Props
  imports Verify_Props
begin

text \<open>
  The paths a revision changes: the comparison of two trees ends on trees without cycles and covers
  every path at which they differ, so that a write scope covers what changed.
\<close>

section \<open>Paths in trees\<close>

text \<open>The entry at a path, a list of names, through directories and shards.\<close>

inductive at_path :: "ext \<Rightarrow> objs \<Rightarrow> oid option \<Rightarrow> string list \<Rightarrow> tree_entry \<Rightarrow> bool" for x s where
  here: "entries_of x s t = Inr es \<Longrightarrow> find_entry es n = Some e \<Longrightarrow> at_path x s t [n] e"
| below: "entries_of x s t = Inr es \<Longrightarrow> find_entry es n = Some d \<Longrightarrow> te_kind d = Dir \<Longrightarrow>
     at_path x s (te_ref d) ns e \<Longrightarrow> at_path x s t (n # ns) e"

inductive_cases at_path_NilE [elim]: "at_path x s t [] e"
inductive_cases at_path_ConsE: "at_path x s t (n # ns) e"

lemma at_path_nonempty: "at_path x s t ns e \<Longrightarrow> ns \<noteq> []"
  by (cases rule: at_path.cases) auto

lemma at_path_None [simp]: "\<not> at_path x s None ns e"
proof
  assume "at_path x s None ns e"
  then show False by (cases rule: at_path.cases) (auto simp: entries_of_def find_entry_def)
qed

definition at_entry :: "ext \<Rightarrow> objs \<Rightarrow> tree_entry option \<Rightarrow> string list \<Rightarrow> tree_entry \<Rightarrow> bool" where
  "at_entry x s ov ns e =
     (case ov of
        None \<Rightarrow> False
      | Some d \<Rightarrow> ns = [] \<and> e = d \<or> te_kind d = Dir \<and> at_path x s (te_ref d) ns e)"

lemma at_path_Cons:
  "entries_of x s t = Inr es \<Longrightarrow> at_path x s t (n # ns) e \<longleftrightarrow> at_entry x s (find_entry es n) ns e"
  by (auto simp: at_entry_def elim!: at_path_ConsE intro: at_path.intros split: option.splits)

definition path_string :: "string \<Rightarrow> string list \<Rightarrow> string" where
  "path_string prefix ns = foldl join_path prefix ns"

text \<open>Two trees differ at a path when one has a file, link or the like there that the other does not.\<close>

definition differ :: "ext \<Rightarrow> objs \<Rightarrow> oid option \<Rightarrow> oid option \<Rightarrow> string list \<Rightarrow> bool" where
  "differ x s old new ns \<longleftrightarrow> (\<exists>e. te_kind e \<noteq> Dir \<and> at_path x s old ns e \<noteq> at_path x s new ns e)"

definition covered :: "string \<Rightarrow> string list \<Rightarrow> string list \<Rightarrow> bool" where
  "covered prefix out ns \<longleftrightarrow> (\<exists>ks rest. ns = ks @ rest \<and> ks \<noteq> [] \<and> path_string prefix ks \<in> set out)"

lemma covered_mono: "covered prefix out ns \<Longrightarrow> set out \<subseteq> set out' \<Longrightarrow> covered prefix out' ns"
  by (auto simp: covered_def)

lemma covered_below: "covered (join_path prefix n) out ns \<Longrightarrow> covered prefix out (n # ns)"
  unfolding covered_def by (metis append_Cons foldl_Cons list.distinct(1) path_string_def)

lemma covered_here: "join_path prefix n \<in> set out \<Longrightarrow> covered prefix out (n # ns)"
  unfolding covered_def by (intro exI [of _ "[n]"] exI [of _ ns]) (simp add: path_string_def)

section \<open>The comparison covers every difference\<close>

lemma diff_entry_Same: "diff_entry ov nv = Same \<Longrightarrow> at_entry x s ov = at_entry x s nv"
  by (auto simp: diff_entry_def split: option.splits if_splits)

lemma diff_entry_Descend:
  assumes "diff_entry ov nv = Descend a b" and "te_kind e \<noteq> Dir"
  shows "at_entry x s ov ns e \<longleftrightarrow> at_path x s a ns e" and "at_entry x s nv ns e \<longleftrightarrow> at_path x s b ns e"
  using assms by (auto simp: diff_entry_def at_entry_def split: option.splits if_splits)

lemma find_entry_mem: "find_entry es n = Some e \<Longrightarrow> n \<in> te_name ` set es"
  by (auto simp: find_entry_def find_Some_iff)

lemma ofold_collect:
  assumes "ofold f ns b = Some (Inr c)"
    and "\<And>n b b'. n \<in> set ns \<Longrightarrow> f n b = Some (Inr b') \<Longrightarrow> set b \<subseteq> set b' \<and> Q n b'"
    and "\<And>n b c. Q n b \<Longrightarrow> set b \<subseteq> set c \<Longrightarrow> Q n c"
  shows "set b \<subseteq> set c \<and> (\<forall>n \<in> set ns. Q n c)"
  using assms(1,2)
proof (induction ns arbitrary: b)
  case (Cons n ns)
  from Cons.prems(1) obtain b' where b': "f n b = Some (Inr b')" "ofold f ns b' = Some (Inr c)"
  proof (cases "f n b")
    case (Some r)
    with Cons.prems(1) that show ?thesis by (cases r) auto
  qed simp
  from Cons.prems(2) [of n b b'] b'(1) have 1: "set b \<subseteq> set b'" "Q n b'" by auto
  from Cons.IH [OF b'(2)] Cons.prems(2) have 2: "set b' \<subseteq> set c" "\<forall>n \<in> set ns. Q n c" by auto
  with 1 assms(3) show ?case by auto
qed simp

lemma diff_trees_covers:
  assumes "diff_trees x s old new prefix out = Some r"
  shows "\<forall>out'. r = Inr out' \<longrightarrow>
    set out \<subseteq> set out' \<and> (\<forall>ns. differ x s old new ns \<longrightarrow> covered prefix out' ns)"
proof (rule diff_trees.raw_induct [where P = "\<lambda>x s old new prefix out r. \<forall>out'. r = Inr out' \<longrightarrow>
    set out \<subseteq> set out' \<and> (\<forall>ns. differ x s old new ns \<longrightarrow> covered prefix out' ns)"
    and xa = "(((((x, s), old), new), prefix), out)" and y = r, unfolded prod.case, OF _ assms])
  fix dt x s old new prefix out r
  assume step:
    "\<And>x s old new prefix out r. dt x s old new prefix out = Some r \<Longrightarrow> \<forall>out'. r = Inr out' \<longrightarrow>
       set out \<subseteq> set out' \<and> (\<forall>ns. differ x s old new ns \<longrightarrow> covered prefix out' ns)"
    "(if old = new then Some (Inr out)
      else
        obind (Some (entries_of x s old)) (\<lambda>oe.
        obind (Some (entries_of x s new)) (\<lambda>ne.
        ofold (\<lambda>name out.
            case diff_entry (find_entry oe name) (find_entry ne name) of
              Same \<Rightarrow> Some (Inr out)
            | Descend a b \<Rightarrow> dt x s a b (join_path prefix name) out
            | Changed \<Rightarrow> Some (Inr (out @ [join_path prefix name])))
          (btree_list (map te_name oe @ map te_name ne)) out))) = Some r"
  show "\<forall>out'. r = Inr out' \<longrightarrow>
    set out \<subseteq> set out' \<and> (\<forall>ns. differ x s old new ns \<longrightarrow> covered prefix out' ns)"
  proof (intro allI impI)
    fix out' assume r: "r = Inr out'"
    show "set out \<subseteq> set out' \<and> (\<forall>ns. differ x s old new ns \<longrightarrow> covered prefix out' ns)"
    proof (cases "old = new")
      case True
      with step(2) r show ?thesis by (auto simp: differ_def)
    next
      case False
      from step(2) r False obtain oe ne where es: "entries_of x s old = Inr oe" "entries_of x s new = Inr ne"
        by (cases "entries_of x s old"; cases "entries_of x s new") auto
      let ?f = "\<lambda>name out. case diff_entry (find_entry oe name) (find_entry ne name) of
              Same \<Rightarrow> Some (Inr out)
            | Changed \<Rightarrow> Some (Inr (out @ [join_path prefix name]))
            | Descend a b \<Rightarrow> dt x s a b (join_path prefix name) out"
      let ?names = "btree_list (map te_name oe @ map te_name ne)"
      let ?Q = "\<lambda>n out. \<forall>ns. differ x s old new (n # ns) \<longrightarrow> covered prefix out (n # ns)"
      from step(2) r False es have "ofold ?f ?names out = Some (Inr out')" by simp
      then have col: "set out \<subseteq> set out' \<and> (\<forall>n \<in> set ?names. ?Q n out')"
      proof (rule ofold_collect)
        fix n b b' assume f: "?f n b = Some (Inr b')"
        show "set b \<subseteq> set b' \<and> ?Q n b'"
        proof (cases "diff_entry (find_entry oe n) (find_entry ne n)")
          case Same
          with f diff_entry_Same [OF Same, of x s] show ?thesis by (auto simp: differ_def at_path_Cons [OF es(1)] at_path_Cons [OF es(2)])
        next
          case Changed
          with f show ?thesis by (auto intro: covered_here)
        next
          case (Descend t u)
          with f have "dt x s t u (join_path prefix n) b = Some (Inr b')" by simp
          from step(1) [OF this] have 1: "set b \<subseteq> set b'" "\<And>ns. differ x s t u ns \<Longrightarrow> covered (join_path prefix n) b' ns"
            by auto
          have "differ x s t u ns" if "differ x s old new (n # ns)" for ns
            using that diff_entry_Descend [OF Descend] by (auto simp: differ_def at_path_Cons [OF es(1)] at_path_Cons [OF es(2)])
          with 1 show ?thesis by (auto intro: covered_below)
        qed
      qed (auto intro: covered_mono)
      have "n \<in> set ?names" if "differ x s old new (n # ns)" for n ns
        using that find_entry_mem [of oe n] find_entry_mem [of ne n]
        by (auto simp: differ_def at_path_Cons [OF es(1)] at_path_Cons [OF es(2)] at_entry_def split: option.splits)
      with col have "covered prefix out' ns" if "differ x s old new ns" for ns
        using that by (cases ns) (auto simp: differ_def)
      with col show ?thesis by blast
    qed
  qed
qed

text \<open>C24: the changed paths cover the difference of two trees: at every path where one tree has a file, a
  link or another entry that is not a directory and the other does not have the same one, the path or a
  path above it is listed. A path above it is what is listed when a directory took the place of a file,
  or a file that of a directory: nothing below it is.\<close>

theorem changed_paths_cover:
  assumes "changed_paths x s old new = Inr out" and "te_kind e \<noteq> Dir"
    and "at_path x s old ns e \<noteq> at_path x s (Some new) ns e"
  shows "\<exists>ks rest. ns = ks @ rest \<and> ks \<noteq> [] \<and> path_string [] ks \<in> set out"
proof -
  from assms(1) have "diff_trees x s old (Some new) [] [] = Some (Inr out)" by (simp add: changed_paths_def result_simps)
  moreover from assms(2,3) have "differ x s old (Some new) ns" by (auto simp: differ_def)
  ultimately show ?thesis using diff_trees_covers by (fastforce simp: covered_def)
qed

section \<open>Exactly the changed paths\<close>

text \<open>The entry at a path as a function.\<close>

fun entry_at :: "ext \<Rightarrow> objs \<Rightarrow> oid option \<Rightarrow> string list \<Rightarrow> tree_entry option" where
  "entry_at x s t [] = None"
| "entry_at x s t (n # ns) =
     (case entries_of x s t of
        Inl e \<Rightarrow> None
      | Inr es \<Rightarrow>
          (case find_entry es n of
             None \<Rightarrow> None
           | Some d \<Rightarrow> if ns = [] then Some d else if te_kind d = Dir then entry_at x s (te_ref d) ns else None))"

text \<open>
  A path is replaced when the two trees have different entries there and not both are directories; a
  directory that is there in one tree only is not itself replaced, what is in it is. The comparison lists
  the paths replaced below directories that are not.
\<close>

definition replaced :: "tree_entry option \<Rightarrow> tree_entry option \<Rightarrow> bool" where
  "replaced ov nv \<longleftrightarrow> ov \<noteq> nv \<and>
     (case (ov, nv) of
        (Some a, Some b) \<Rightarrow> \<not> (te_kind a = Dir \<and> te_kind b = Dir)
      | (Some a, None) \<Rightarrow> te_kind a \<noteq> Dir
      | (None, Some b) \<Rightarrow> te_kind b \<noteq> Dir
      | (None, None) \<Rightarrow> False)"

definition topmost_change :: "ext \<Rightarrow> objs \<Rightarrow> oid option \<Rightarrow> oid option \<Rightarrow> string list \<Rightarrow> bool" where
  "topmost_change x s old new ns \<longleftrightarrow>
     replaced (entry_at x s old ns) (entry_at x s new ns) \<and>
     (\<forall>i. 0 < i \<and> i < length ns \<longrightarrow> \<not> replaced (entry_at x s old (take i ns)) (entry_at x s new (take i ns)))"

lemma replaced_same [simp]: "\<not> replaced v v"
  by (simp add: replaced_def)

lemma entry_at_None [simp]: "entry_at x s None ns = None"
  by (cases ns) (simp_all add: entries_of_def find_entry_def)

lemma topmost_Nil [simp]: "\<not> topmost_change x s old new []"
  by (simp add: topmost_change_def)

definition entry_below :: "ext \<Rightarrow> objs \<Rightarrow> tree_entry option \<Rightarrow> string list \<Rightarrow> tree_entry option" where
  "entry_below x s v ns =
     (if ns = [] then v else case v of None \<Rightarrow> None | Some d \<Rightarrow> if te_kind d = Dir then entry_at x s (te_ref d) ns else None)"

lemma entry_at_Cons: "entries_of x s t = Inr es \<Longrightarrow> entry_at x s t (n # ns) = entry_below x s (find_entry es n) ns"
  by (simp add: entry_below_def split: option.split)

lemma topmost_Cons:
  assumes "entries_of x s old = Inr oe" "entries_of x s new = Inr ne"
  shows "topmost_change x s old new (n # ns) \<longleftrightarrow>
    replaced (entry_below x s (find_entry oe n) ns) (entry_below x s (find_entry ne n) ns) \<and>
    (\<forall>i < length ns. \<not> replaced (entry_below x s (find_entry oe n) (take i ns)) (entry_below x s (find_entry ne n) (take i ns)))"
proof -
  have "(\<forall>i. 0 < i \<and> i < length (n # ns) \<longrightarrow> \<not> replaced (entry_at x s old (take i (n # ns))) (entry_at x s new (take i (n # ns)))) \<longleftrightarrow>
    (\<forall>i < length ns. \<not> replaced (entry_at x s old (n # take i ns)) (entry_at x s new (n # take i ns)))"
    by (auto simp: gr0_conv_Suc)
  then show ?thesis unfolding topmost_change_def by (simp only: entry_at_Cons [OF assms(1)] entry_at_Cons [OF assms(2)])
qed

lemma topmost_Same: "diff_entry ov nv = Same \<Longrightarrow> \<not> replaced (entry_below x s ov ns) (entry_below x s nv ns)"
  by (auto simp: diff_entry_def split: option.splits if_splits)

lemma topmost_Changed: "diff_entry ov nv = Changed \<Longrightarrow> (ov, nv) \<noteq> (None, None) \<Longrightarrow> replaced (entry_below x s ov []) (entry_below x s nv [])"
  by (auto simp: diff_entry_def entry_below_def replaced_def split: option.splits if_splits)

lemma topmost_Descend:
  assumes "diff_entry ov nv = Descend a b"
  shows "\<not> replaced (entry_below x s ov []) (entry_below x s nv [])"
    and "ns \<noteq> [] \<Longrightarrow> entry_below x s ov ns = entry_at x s a ns \<and> entry_below x s nv ns = entry_at x s b ns"
  using assms by (auto simp: diff_entry_def entry_below_def replaced_def split: option.splits if_splits)

definition listed :: "ext \<Rightarrow> objs \<Rightarrow> oid option \<Rightarrow> oid option \<Rightarrow> string \<Rightarrow> string set" where
  "listed x s old new prefix = {path_string prefix ns | ns. topmost_change x s old new ns}"

definition listed_at :: "ext \<Rightarrow> objs \<Rightarrow> oid option \<Rightarrow> oid option \<Rightarrow> string \<Rightarrow> string \<Rightarrow> string set" where
  "listed_at x s old new prefix n = {path_string prefix (n # ns) | ns. topmost_change x s old new (n # ns)}"

lemma listed_at_step:
  assumes "entries_of x s old = Inr oe" "entries_of x s new = Inr ne" "(find_entry oe n, find_entry ne n) \<noteq> (None, None)"
  shows "listed_at x s old new prefix n =
    (case diff_entry (find_entry oe n) (find_entry ne n) of
       Same \<Rightarrow> {} | Changed \<Rightarrow> {join_path prefix n} | Descend a b \<Rightarrow> listed x s a b (join_path prefix n))"
proof -
  let ?o = "find_entry oe n" and ?n = "find_entry ne n"
  note top = topmost_Cons [OF assms(1,2), of n]
  have path: "path_string prefix (n # ns) = path_string (join_path prefix n) ns" for ns by (simp add: path_string_def)
  show ?thesis
  proof (cases "diff_entry ?o ?n")
    case Same
    then show ?thesis using topmost_Same [OF Same] by (auto simp: listed_at_def top)
  next
    case Changed
    have "topmost_change x s old new (n # ns) \<longleftrightarrow> ns = []" for ns
      using topmost_Changed [OF Changed assms(3), of x s] unfolding top by (cases ns) auto
    then show ?thesis using Changed by (auto simp: listed_at_def path_string_def)
  next
    case (Descend a b)
    have "topmost_change x s old new (n # ns) \<longleftrightarrow> topmost_change x s a b ns" for ns
    proof (cases "ns = []")
      case True
      then show ?thesis using topmost_Descend(1) [OF Descend] by (simp add: top)
    next
      case False
      have "(\<forall>i < length ns. \<not> replaced (entry_below x s ?o (take i ns)) (entry_below x s ?n (take i ns))) \<longleftrightarrow>
        (\<forall>i. 0 < i \<and> i < length ns \<longrightarrow> \<not> replaced (entry_at x s a (take i ns)) (entry_at x s b (take i ns)))"
      proof -
        have "\<not> replaced (entry_below x s ?o (take i ns)) (entry_below x s ?n (take i ns)) \<longleftrightarrow>
            (0 < i \<longrightarrow> \<not> replaced (entry_at x s a (take i ns)) (entry_at x s b (take i ns)))" for i
          using topmost_Descend(1) [OF Descend, where x = x and s = s] topmost_Descend(2) [OF Descend, where ns = "take i ns" and x = x and s = s] False
          by (cases "i = 0") auto
        then show ?thesis by blast
      qed
      then show ?thesis using topmost_Descend(2) [OF Descend False, where x = x and s = s] unfolding top unfolding topmost_change_def [of x s a b ns] by simp
    qed
    then show ?thesis using Descend by (auto simp: listed_at_def listed_def path)
  qed
qed

lemma listed_by_name:
  assumes "entries_of x s old = Inr oe" "entries_of x s new = Inr ne"
  shows "listed x s old new prefix = (\<Union>n \<in> set (btree_list (map te_name oe @ map te_name ne)). listed_at x s old new prefix n)"
proof -
  have "n \<in> set (btree_list (map te_name oe @ map te_name ne))" if "topmost_change x s old new (n # ns)" for n ns
  proof (rule ccontr)
    assume "n \<notin> set (btree_list (map te_name oe @ map te_name ne))"
    then have "find_entry oe n = None" "find_entry ne n = None"
      using find_entry_mem [of oe n] find_entry_mem [of ne n] by auto
    with that show False by (simp add: topmost_Cons [OF assms] entry_below_def split: if_splits)
  qed
  note names = this
  show ?thesis
  proof (intro set_eqI iffI)
    fix p assume "p \<in> listed x s old new prefix"
    then obtain ns where ns: "p = path_string prefix ns" "topmost_change x s old new ns" by (auto simp: listed_def)
    then obtain n ms where "ns = n # ms" by (cases ns) auto
    with ns names show "p \<in> (\<Union>n \<in> set (btree_list (map te_name oe @ map te_name ne)). listed_at x s old new prefix n)"
      unfolding listed_at_def by blast
  next
    fix p assume "p \<in> (\<Union>n \<in> set (btree_list (map te_name oe @ map te_name ne)). listed_at x s old new prefix n)"
    then show "p \<in> listed x s old new prefix" unfolding listed_def listed_at_def by blast
  qed
qed

lemma ofold_listed:
  assumes "ofold f ns b = Some (Inr c)"
    and "\<And>n b b'. n \<in> set ns \<Longrightarrow> f n b = Some (Inr b') \<Longrightarrow> set b' = set b \<union> L n"
  shows "set c = set b \<union> (\<Union>n \<in> set ns. L n)"
  using assms
proof (induction ns arbitrary: b)
  case (Cons n ns)
  from Cons.prems(1) obtain b' where b': "f n b = Some (Inr b')" "ofold f ns b' = Some (Inr c)"
  proof (cases "f n b")
    case (Some r)
    with Cons.prems(1) that show ?thesis by (cases r) auto
  qed simp
  from Cons.prems(2) [of n b b'] b'(1) have 1: "set b' = set b \<union> L n" by auto
  from Cons.IH [OF b'(2)] Cons.prems(2) have "set c = set b' \<union> (\<Union>n \<in> set ns. L n)" by auto
  with 1 show ?case by auto
qed simp

lemma find_entry_None: "find_entry es n = None \<longleftrightarrow> n \<notin> te_name ` set es"
  by (auto simp: find_entry_def find_None_iff)

lemma diff_trees_listed:
  assumes "diff_trees x s old new prefix out = Some r"
  shows "\<forall>out'. r = Inr out' \<longrightarrow> set out' = set out \<union> listed x s old new prefix"
proof (rule diff_trees.raw_induct [where P = "\<lambda>x s old new prefix out r. \<forall>out'. r = Inr out' \<longrightarrow>
    set out' = set out \<union> listed x s old new prefix"
    and xa = "(((((x, s), old), new), prefix), out)" and y = r, unfolded prod.case, OF _ assms])
  fix dt x s old new prefix out r
  assume step:
    "\<And>x s old new prefix out r. dt x s old new prefix out = Some r \<Longrightarrow> \<forall>out'. r = Inr out' \<longrightarrow>
       set out' = set out \<union> listed x s old new prefix"
    "(if old = new then Some (Inr out)
      else
        obind (Some (entries_of x s old)) (\<lambda>oe.
        obind (Some (entries_of x s new)) (\<lambda>ne.
        ofold (\<lambda>name out.
            case diff_entry (find_entry oe name) (find_entry ne name) of
              Same \<Rightarrow> Some (Inr out)
            | Descend a b \<Rightarrow> dt x s a b (join_path prefix name) out
            | Changed \<Rightarrow> Some (Inr (out @ [join_path prefix name])))
          (btree_list (map te_name oe @ map te_name ne)) out))) = Some r"
  show "\<forall>out'. r = Inr out' \<longrightarrow> set out' = set out \<union> listed x s old new prefix"
  proof (intro allI impI)
    fix out' assume r: "r = Inr out'"
    show "set out' = set out \<union> listed x s old new prefix"
    proof (cases "old = new")
      case True
      with step(2) r show ?thesis by (auto simp: listed_def topmost_change_def)
    next
      case False
      from step(2) r False obtain oe ne where es: "entries_of x s old = Inr oe" "entries_of x s new = Inr ne"
        by (cases "entries_of x s old"; cases "entries_of x s new") auto
      let ?f = "\<lambda>name out. case diff_entry (find_entry oe name) (find_entry ne name) of
              Same \<Rightarrow> Some (Inr out)
            | Changed \<Rightarrow> Some (Inr (out @ [join_path prefix name]))
            | Descend a b \<Rightarrow> dt x s a b (join_path prefix name) out"
      let ?names = "btree_list (map te_name oe @ map te_name ne)"
      from step(2) r False es have f: "ofold ?f ?names out = Some (Inr out')" by simp
      have "set out' = set out \<union> (\<Union>n \<in> set ?names. listed_at x s old new prefix n)"
      proof (rule ofold_listed [OF f])
        fix n b b' assume n: "n \<in> set ?names" and b': "?f n b = Some (Inr b')"
        from n have "(find_entry oe n, find_entry ne n) \<noteq> (None, None)" by (auto simp: find_entry_None)
        from listed_at_step [OF es this, of prefix] b' step(1)
        show "set b' = set b \<union> listed_at x s old new prefix n"
          by (cases "diff_entry (find_entry oe n) (find_entry ne n)") auto
      qed
      with listed_by_name [OF es] show ?thesis by simp
    qed
  qed
qed

lemma changed_paths_listed:
  "changed_paths x s old new = Inr out \<Longrightarrow> set out = {path_string [] ns | ns. topmost_change x s old (Some new) ns}"
  using diff_trees_listed [of x s old "Some new" "[]" "[]" "Inr out"]
  by (simp add: changed_paths_def result_simps listed_def)

section \<open>The write scope, exactly\<close>

definition rev_parent :: "ext \<Rightarrow> objs \<Rightarrow> revision \<Rightarrow> revision option res" where
  "rev_parent x s r =
     (case rev_parents r of [] \<Rightarrow> Inr None | p # _ \<Rightarrow> rbind (obj_get (ext_hash x) as_revision s p) (\<lambda>q. Inr (Some q)))"

text \<open>A root of a revision is inside the scope: its name is allowed and so is every path replaced in it.\<close>

definition root_in_scope :: "ext \<Rightarrow> objs \<Rightarrow> write_scope \<Rightarrow> revision option \<Rightarrow> string \<Rightarrow> oid \<Rightarrow> bool" where
  "root_in_scope x s w parent root snap_id \<longleftrightarrow>
     (\<forall>roots. wsc_roots w = Some roots \<longrightarrow> root \<in> set roots) \<and>
     (\<exists>sn old changed. obj_get (ext_hash x) as_snapshot s snap_id = Inr sn \<and> old_root x s parent root = Inr old \<and>
        changed_paths x s old (snap_root sn) = Inr changed \<and>
        (\<forall>pats ns. wsc_paths w = Some pats \<longrightarrow> topmost_change x s old (Some (snap_root sn)) ns \<longrightarrow>
           (\<exists>p \<in> set pats. glob_matches p (path_string [] ns))))"

definition in_write_scope :: "ext \<Rightarrow> objs \<Rightarrow> capability \<Rightarrow> oid \<Rightarrow> bool" where
  "in_write_scope x s c i \<longleftrightarrow>
     (\<exists>r parent. obj_get (ext_hash x) as_revision s i = Inr r \<and> rev_parent x s r = Inr parent \<and>
        (\<forall>(root, snap_id) \<in> set (rev_snapshots r). root_in_scope x s (cap_write c) parent root snap_id))"

lemma rfold_unit_iff: "rfold (\<lambda>y (u :: unit). f y) ys () = Inr () \<longleftrightarrow> (\<forall>y \<in> set ys. f y = Inr ())"
proof (induction ys)
  case (Cons z zs)
  then show ?case by (cases "f z") auto
qed simp

definition scope_step :: "ext \<Rightarrow> objs \<Rightarrow> write_scope \<Rightarrow> revision option \<Rightarrow> string \<Rightarrow> oid \<Rightarrow> unit res" where
  "scope_step x s w parent root snap_id =
     rbind (ensure (case wsc_roots w of None \<Rightarrow> True | Some roots \<Rightarrow> root \<in> set roots) (Rejected 6 ''scope'')) (\<lambda>_.
     rbind (obj_get (ext_hash x) as_snapshot s snap_id) (\<lambda>new_snap.
     rbind (old_root x s parent root) (\<lambda>old.
     rbind (changed_paths x s old (snap_root new_snap)) (\<lambda>changed.
     ensure (case wsc_paths w of None \<Rightarrow> True | Some paths \<Rightarrow> list_all (\<lambda>p. any_match paths p) changed) (Rejected 6 ''scope'')))))"

lemma ensure_unit: "ensure b e = Inr u \<longleftrightarrow> b"
  by (simp add: result_simps)

lemma paths_in_scope:
  assumes "changed_paths x s old t = Inr changed"
  shows "(case ps of None \<Rightarrow> True | Some paths \<Rightarrow> list_all (\<lambda>p. any_match paths p) changed) \<longleftrightarrow>
    (\<forall>pats ns. ps = Some pats \<longrightarrow> topmost_change x s old (Some t) ns \<longrightarrow> (\<exists>p \<in> set pats. glob_matches p (path_string [] ns)))"
  using changed_paths_listed [OF assms] by (auto simp: list_all_iff any_match_def list_ex_iff split: option.split)

lemma scope_step_iff: "scope_step x s w parent root snap_id = Inr () \<longleftrightarrow> root_in_scope x s w parent root snap_id"
proof -
  have "scope_step x s w parent root snap_id = Inr () \<longleftrightarrow>
    (case wsc_roots w of None \<Rightarrow> True | Some roots \<Rightarrow> root \<in> set roots) \<and>
    (\<exists>sn old changed. obj_get (ext_hash x) as_snapshot s snap_id = Inr sn \<and> old_root x s parent root = Inr old \<and>
       changed_paths x s old (snap_root sn) = Inr changed \<and>
       (case wsc_paths w of None \<Rightarrow> True | Some paths \<Rightarrow> list_all (\<lambda>p. any_match paths p) changed))"
    unfolding scope_step_def rbind_Inr_iff ensure_unit by blast
  also have "\<dots> \<longleftrightarrow>
    (case wsc_roots w of None \<Rightarrow> True | Some roots \<Rightarrow> root \<in> set roots) \<and>
    (\<exists>sn old changed. obj_get (ext_hash x) as_snapshot s snap_id = Inr sn \<and> old_root x s parent root = Inr old \<and>
       changed_paths x s old (snap_root sn) = Inr changed \<and>
       (\<forall>pats ns. wsc_paths w = Some pats \<longrightarrow> topmost_change x s old (Some (snap_root sn)) ns \<longrightarrow>
          (\<exists>p \<in> set pats. glob_matches p (path_string [] ns))))"
    by (intro conj_cong refl ex_cong1 paths_in_scope)
  also have "(case wsc_roots w of None \<Rightarrow> True | Some roots \<Rightarrow> root \<in> set roots) \<longleftrightarrow> (\<forall>roots. wsc_roots w = Some roots \<longrightarrow> root \<in> set roots)"
    by (simp split: option.split)
  finally show ?thesis unfolding root_in_scope_def .
qed

lemma check_write_scope_iff: "check_write_scope x s c i = Inr () \<longleftrightarrow> in_write_scope x s c i"
proof -
  have "check_write_scope x s c i =
    rbind (obj_get (ext_hash x) as_revision s i) (\<lambda>r. rbind (rev_parent x s r) (\<lambda>parent.
      rfold (\<lambda>y (u :: unit). scope_step x s (cap_write c) parent (fst y) (snd y)) (rev_snapshots r) ()))"
    unfolding check_write_scope_def rev_parent_def scope_step_def Let_def case_prod_unfold ..
  also have "\<dots> = Inr () \<longleftrightarrow> in_write_scope x s c i"
    unfolding rbind_Inr_iff rfold_unit_iff in_write_scope_def scope_step_iff case_prod_unfold by blast
  finally show ?thesis .
qed


section \<open>The comparison ends\<close>

lemma ofold_returns: "(\<And>n b. n \<in> set ns \<Longrightarrow> f n b \<noteq> None) \<Longrightarrow> ofold f ns b \<noteq> None"
proof (induction ns arbitrary: b)
  case (Cons n ns)
  from Cons.prems [of n b] obtain r where "f n b = Some r" by auto
  with Cons show ?case by (cases r) auto
qed simp

fun tree_rank :: "(oid \<Rightarrow> nat) \<Rightarrow> oid option \<Rightarrow> nat" where
  "tree_rank rk None = 0"
| "tree_rank rk (Some t) = Suc (rk t)"

text \<open>Comparing two trees returns, with the paths or an error, whenever the directories of the store have
  no cycle, which content addressing sees to: every directory an entry of a tree refers to ranks below
  the tree.\<close>

theorem diff_trees_ends:
  fixes rk :: "oid \<Rightarrow> nat"
  assumes "\<And>t es d u. entries_of x s (Some t) = Inr es \<Longrightarrow> d \<in> set es \<Longrightarrow> te_kind d = Dir \<Longrightarrow> te_ref d = Some u \<Longrightarrow> rk u < rk t"
  shows "\<exists>r. diff_trees x s old new prefix out = Some r"
proof (induction "tree_rank rk old + tree_rank rk new" arbitrary: old new prefix out rule: less_induct)
  case less
  have sub: "tree_rank rk (te_ref d) < tree_rank rk t"
    if "entries_of x s t = Inr es" "find_entry es n = Some d" "te_kind d = Dir" for t es n d
  proof (cases t)
    case (Some u)
    have "d \<in> set es" using that(2) by (auto simp: find_entry_def find_Some_iff)
    with assms that(1,3) Some show ?thesis by (cases "te_ref d") auto
  qed (use that in \<open>simp add: entries_of_def find_entry_def\<close>)
  show ?case
  proof (cases "old = new")
    case False
    show ?thesis
    proof (cases "entries_of x s old"; cases "entries_of x s new")
      fix oe ne assume es: "entries_of x s old = Inr oe" "entries_of x s new = Inr ne"
      have "ofold (\<lambda>name out.
            case diff_entry (find_entry oe name) (find_entry ne name) of
              Same \<Rightarrow> Some (Inr out)
            | Changed \<Rightarrow> Some (Inr (out @ [join_path prefix name]))
            | Descend a b \<Rightarrow> diff_trees x s a b (join_path prefix name) out)
          (btree_list (map te_name oe @ map te_name ne)) out \<noteq> None"
      proof (rule ofold_returns)
        fix n b
        have "tree_rank rk t + tree_rank rk u < tree_rank rk old + tree_rank rk new"
          if "diff_entry (find_entry oe n) (find_entry ne n) = Descend t u" for t u
          using that sub [OF es(1), of n] sub [OF es(2), of n]
          by (auto simp: diff_entry_def split: option.splits if_splits intro: add_less_mono trans_less_add1 trans_less_add2)
        with less show "(case diff_entry (find_entry oe n) (find_entry ne n) of
              Same \<Rightarrow> Some (Inr b)
            | Changed \<Rightarrow> Some (Inr (b @ [join_path prefix n]))
            | Descend t u \<Rightarrow> diff_trees x s t u (join_path prefix n) b) \<noteq> None"
          by (cases "diff_entry (find_entry oe n) (find_entry ne n)") auto
      qed
      with False es show ?thesis by (simp add: diff_trees.simps [of x s old])
    qed (use False in \<open>simp_all add: diff_trees.simps [of x s old]\<close>)
  qed (simp add: diff_trees.simps)
qed

end
