(* ===== verification/Authority_Props.thy ===== *)
theory Authority_Props
  imports Path_Props
begin

text \<open>
  What an accepted operation proves about the authority behind it: step 6 of \<open>verify.rs\<close>, from the
  capability the operation cites through the chain of grants up to an owner, and effect by effect.
\<close>

section \<open>The effects a capability allows\<close>

text \<open>
  One rule per effect, written out. The effects at the end are not limited by any capability.
\<close>

fun effect_allowed :: "ext \<Rightarrow> objs \<Rightarrow> view \<Rightarrow> capability \<Rightarrow> effect \<Rightarrow> bool" where
  "effect_allowed x s v c (EPropose r) \<longleftrightarrow>
     in_write_scope x s c r \<and> (\<forall>l. wsc_stages (cap_write c) = Some l \<longrightarrow> ''proposed'' \<in> set l)"
| "effect_allowed x s v c (EHead line to from' sq ats i) \<longleftrightarrow>
     in_write_scope x s c to \<and> (\<forall>l. wsc_stages (cap_write c) = Some l \<longrightarrow> ''landed'' \<in> set l) \<and>
     (\<exists>ls. map_of (view_lines v) line = Some ls \<and> (\<forall>l. wsc_lines (cap_write c) = Some l \<longrightarrow> ls_id ls \<in> set l))"
| "effect_allowed x s v c (EDeploy tg to) \<longleftrightarrow> (\<forall>l. wsc_targets (cap_write c) = Some l \<longrightarrow> tg \<in> set l)"
| "effect_allowed x s v c (EPoint e to from') \<longleftrightarrow>
     (\<exists>y tag. s to = Some y \<and> peek_obj x y = Inr tag \<and>
        (tag = ''memory'' \<longrightarrow>
           (\<exists>m. decode_obj x as_memory y = Inr m \<and>
              (\<forall>l. wsc_memory_scopes (cap_write c) = Some l \<longrightarrow> ms_kind (memo_scope m) \<in> set l))) \<and>
        (tag \<in> {''standard'', ''hook'', ''channel'', ''target'', ''line''} \<longrightarrow> tag \<in> set (cap_verbs c)))"
| "effect_allowed x s v c (ERevoke p) \<longleftrightarrow> ''revoke'' \<in> set (cap_verbs c)"
| "effect_allowed x s v c (ETomb i t) \<longleftrightarrow> ''redact'' \<in> set (cap_verbs c)"
| "effect_allowed x s v c (EOwner p) \<longleftrightarrow> False"
| "effect_allowed x s v c (EUnowner p) \<longleftrightarrow> False"
| "effect_allowed x s v c (ECoordinator line to) \<longleftrightarrow> False"
| "effect_allowed x s v c (ERoot n) \<longleftrightarrow> False"
| "effect_allowed x s v c (EUnroot n) \<longleftrightarrow> False"
| "effect_allowed x s v c (EPut i) \<longleftrightarrow> True"
| "effect_allowed x s v c (EUnpoint e) \<longleftrightarrow> True"
| "effect_allowed x s v c (EUnpropose r) \<longleftrightarrow> True"
| "effect_allowed x s v c (EClaim cl to) \<longleftrightarrow> True"
| "effect_allowed x s v c (EUnclaim cl) \<longleftrightarrow> True"
| "effect_allowed x s v c (ECap i) \<longleftrightarrow> True"
| "effect_allowed x s v c (EUncap i) \<longleftrightarrow> True"
| "effect_allowed x s v c (EPause sc) \<longleftrightarrow> True"
| "effect_allowed x s v c (EResume sc) \<longleftrightarrow> True"

lemma allows_iff: "allows lim a \<longleftrightarrow> (\<forall>l. lim = Some l \<longrightarrow> a \<in> set l)"
  by (simp add: allows_def split: option.split)

lemma authorize_point:
  "authorize_effect x s v c (EPoint e to from') = Inr () \<longleftrightarrow> effect_allowed x s v c (EPoint e to from')"
proof (cases "s to")
  case (Some y)
  show ?thesis
  proof (cases "peek_obj x y")
    case (Inr tag)
    consider "tag = ''memory''" | "tag \<noteq> ''memory''" "tag \<in> {''standard'', ''hook'', ''channel'', ''target'', ''line''}"
      | "tag \<noteq> ''memory''" "tag \<notin> {''standard'', ''hook'', ''channel'', ''target'', ''line''}" by blast
    then show ?thesis
    proof cases
      case 1
      then show ?thesis using Some Inr by (cases "decode_obj x as_memory y") (simp_all add: stored_def result_simps allows_iff)
    next
      case 2
      then show ?thesis using Some Inr by (auto simp: stored_def result_simps)
    next
      case 3
      then show ?thesis using Some Inr by (simp add: stored_def result_simps)
    qed
  qed (use Some in \<open>simp add: stored_def\<close>)
qed (simp add: stored_def)

lemma authorize_effect_iff: "authorize_effect x s v c e = Inr () \<longleftrightarrow> effect_allowed x s v c e"
proof (cases e)
  case (EPoint i to f)
  then show ?thesis by (simp only: authorize_point)
qed (auto simp: result_simps allows_iff check_write_scope_iff)

lemma granted_verbs: "granted x s v cs \<Longrightarrow> k \<in> set (cap_verbs (hd cs)) \<Longrightarrow> d \<in> set cs \<Longrightarrow> k \<in> set (cap_verbs d)"
proof (induction rule: granted.induct)
  case (delegated c d' ds)
  from delegated(2) have "narrower c d'" by (auto simp: link_def)
  then have "k \<in> set (cap_verbs c) \<Longrightarrow> k \<in> set (cap_verbs d')" by (simp add: narrower_def)
  with delegated show ?case by auto
qed simp

section \<open>Authority\<close>

lemma check_authorization_nonowner:
  assumes "check_authorization x s v c p = Inr ()" and "op_author p \<notin> set (view_owners v)"
  obtains cid cap where "op_cap p = Some cid" "in_set (ext_hash x) s (view_caps v) cid = Inr True"
    "in_set (ext_hash x) s (view_caps c) cid = Inr True" "obj_get (ext_hash x) as_capability s cid = Inr cap"
    "cap_subject cap = op_author p" "check_chain x s v cap = Inr ()" "check_authorizes x s v cap p = Inr ()"
  using assms by (auto simp: check_authorization_def Let_def result_simps)


end
