(* ===== verification/Log_Witnesses.thy ===== *)
theory Log_Witnesses
  imports World Legality_Props Authority_Props
begin

text \<open>
  The theorems on the operation log applied in the small world: an operation of an agent, which moves a
  change on under a capability, one of the owner, which lands it, and the log with both as heads.
\<close>

section \<open>The operations of the world\<close>

lemma run_agent:
  obtains r where "run_ok r" "op_parents (wr_p1 r) = [wr_i0 r]" "op_author (wr_p1 r) = agent"
    "op_effects (wr_p1 r) = agent_effects" "op_kind (wr_p1 r) = ''sync''"
    "step_ok world_hash (log_store (wr_log0 r)) (wr_s1 r)"
proof -
  from run_first obtain r where r: "run_ok r" by blast
  with sound_world have "sound_hash (ext_hash world)" "log_ok world (wr_log0 r) (wr_views r)"
    "build_op world (wr_log0 r) (world_signer 2) (Some cap_oid) ''sync'' [] agent_effects 0 = Inr (wr_s1 r, wr_p1 r)"
    by (simp_all add: run_ok_def)
  from build_op_fields [OF this(1,2) later_effects_ok(1) this(3)] r that show ?thesis
    by (simp add: run_ok_def world_signer_def)
qed

lemma run_owner:
  assumes "run_ok r"
  obtains p log i t w where "accept world [] (wr_log1 r) p = Inr (log, i)" "op_parents p = [wr_i0 r]" "op_author p = owner"
    "op_effects p = owner_effects" "op_kind p = ''land''" "verify_op world [] (wr_log1 r) p = Inr (t, w)"
    "i \<notin> {wr_i0 r, wr_i1 r}" "idem_key p = Some (owner, replicate 16 7)" "set (log_heads log) = {i, wr_i1 r}"
proof -
  from run_second [OF assms] obtain s p log i t w where
    1: "build_op world (wr_log0 r) (world_signer 1) None ''land'' world_args owner_effects 0 = Inr (s, p)"
      "accept world [] (wr_log1 r) p = Inr (log, i)" "verify_op world [] (wr_log1 r) p = Inr (t, w)"
      "i \<notin> {wr_i0 r, wr_i1 r}" "idem_key p = Some (owner, replicate 16 7)" "set (log_heads log) = {i, wr_i1 r}" by blast
  from assms sound_world have "sound_hash (ext_hash world)" "log_ok world (wr_log0 r) (wr_views r)"
    "log_heads (wr_log0 r) = [wr_i0 r]" by (simp_all add: run_ok_def)
  with build_op_fields [OF this(1,2) later_effects_ok(2) 1(1)] 1(2-6) that show ?thesis by (simp add: world_signer_def)
qed

lemma run_parents_view:
  assumes "run_ok r" and "step_ok world_hash (log_store (wr_log0 r)) (wr_s1 r)"
    and "merged_view world ((wr_log0 r)\<lparr>log_store := wr_s1 r\<rparr>) [wr_i0 r] = Inr (s, u)"
  shows "view_rep world_hash s u world_view \<and> step_ok world_hash (wr_s1 r) s"
proof -
  from assms(1) have l: "log_rep world (wr_log0 r) (wr_views r)" "wr_views r (wr_i0 r) = world_view"
    "log_verified (wr_log0 r) = {wr_i0 r}" by (simp_all add: run_ok_def log_ok_def)
  have "log_rep world ((wr_log0 r)\<lparr>log_store := wr_s1 r\<rparr>) (wr_views r)"
    by (rule log_rep_store [OF l(1)]) (simp only: world_fields assms(2))
  from merged_view_rep [OF _ this, of "[wr_i0 r]"] assms(3) l(2,3) sound_world show ?thesis
    by (auto simp: refines_def sound_hash_def)
qed

section \<open>Authors and authority\<close>

theorem verified_author_witness:
  "\<exists>(log :: oplog) p s c. set (op_parents p) \<subseteq> log_verified log \<and> op_author p = agent \<and>
     principal_revoked world_hash s c agent = Inr False \<and> verify_with world (OOp p) (op_key p) = Inr ()"
proof -
  obtain r where r: "run_ok r" "op_parents (wr_p1 r) = [wr_i0 r]" "op_author (wr_p1 r) = agent" by (rule run_agent)
  then obtain s w where "verify_op world [] ((wr_log0 r)\<lparr>log_store := wr_s1 r\<rparr>) (wr_p1 r) = Inr (s, w)"
    by (auto simp: run_ok_def)
  from verified_author [OF this] r(2,3) obtain s c where
    "set (op_parents (wr_p1 r)) \<subseteq> log_verified ((wr_log0 r)\<lparr>log_store := wr_s1 r\<rparr>)"
    "principal_revoked world_hash s c agent = Inr False" "verify_with world (OOp (wr_p1 r)) (op_key (wr_p1 r)) = Inr ()"
    by auto
  with r(3) show ?thesis by blast
qed


section \<open>Accepting\<close>

theorem accept_idempotent_witness:
  "\<exists>log p i. accept world [] log p = Inr (log, i) \<and> lookup_idem log owner (replicate 16 7) = Some i"
proof -
  obtain r where r: "run_ok r" by (rule run_agent)
  obtain p log i where p: "accept world [] (wr_log1 r) p = Inr (log, i)" "idem_key p = Some (owner, replicate 16 7)"
    by (rule run_owner [OF r])
  from accept_idempotent [OF p(1,2) p(2), of "[]"] show ?thesis by auto
qed

theorem log_invariant_witness:
  "\<exists>log :: oplog. card (log_verified log) = 3 \<and> heads_ok world log \<and> idem_ok log \<and> length (log_heads log) = 2"
proof -
  obtain r where r: "run_ok r" by (rule run_agent)
  from run_second [OF r] obtain log i where 1: "log_reach world log" "i \<notin> {wr_i0 r, wr_i1 r}"
    "set (log_heads log) = {i, wr_i1 r}" "log_verified log = {i, wr_i0 r, wr_i1 r}" by blast
  from log_invariant [OF _ 1(1)] sound_world have inv: "heads_ok world log" "idem_ok log" by simp_all
  then have "length (log_heads log) = card {i, wr_i1 r}" using 1(3) by (metis heads_ok_def distinct_card)
  moreover have "wr_i0 r \<noteq> wr_i1 r" using r by (simp add: run_ok_def)
  ultimately show ?thesis using inv 1 by (intro exI [of _ log]) auto
qed

theorem accept_refines_witness:
  "\<exists>log p log' i v. accept world [] log p = Inr (log', i) \<and> i \<notin> log_verified log \<and>
     log_verified log' = insert i (log_verified log) \<and> view_of world log' i = Inr v \<and> world_hash (OView v) = op_view p"
proof -
  obtain r where r: "run_ok r" by (rule run_agent)
  obtain p log i where p: "accept world [] (wr_log1 r) p = Inr (log, i)" "op_effects p = owner_effects" "i \<notin> {wr_i0 r, wr_i1 r}"
    by (rule run_owner [OF r])
  from r have l: "log_ok world (wr_log1 r) (wr_views r)" "i \<notin> log_verified (wr_log1 r)" using p(3) by (auto simp: run_ok_def)
  from accept_refines [OF _ l(1) _ p(1) l(2)] sound_world later_effects_ok(2) p(2) obtain v where
    "log_verified log = insert i (log_verified (wr_log1 r))" "view_of world log i = Inr v" "world_hash (OView v) = op_view p"
    by auto
  with p(1) l(2) show ?thesis by blast
qed

theorem accept_heads_witness:
  "\<exists>log :: oplog. set (log_heads log) = tips world log \<and> card (tips world log) = 2"
proof -
  obtain r where r: "run_ok r" by (rule run_agent)
  obtain p log i where p: "accept world [] (wr_log1 r) p = Inr (log, i)" "op_effects p = owner_effects" "i \<notin> {wr_i0 r, wr_i1 r}"
    "set (log_heads log) = {i, wr_i1 r}"
    by (rule run_owner [OF r])
  from r have l: "log_ok world (wr_log1 r) (wr_views r)" "i \<notin> log_verified (wr_log1 r)"
    "set (log_heads (wr_log1 r)) = tips world (wr_log1 r)" using p(3) by (auto simp: run_ok_def tips_def)
  from accept_heads [OF _ l(1) _ p(1) l(2,3)] sound_world later_effects_ok(2) p(2)
  have tips: "set (log_heads log) = tips world log" by simp
  with p(3,4) have "card (tips world log) = 2" by auto
  with tips show ?thesis by blast
qed

section \<open>Building and undoing\<close>

theorem built_op_verifies_witness:
  "\<exists>log p. permitted world [] log p \<and> op_author p = agent \<and> (\<exists>t w. verify_op world [] log p = Inr (t, w))"
proof -
  obtain r where r: "run_ok r" "op_author (wr_p1 r) = agent" "step_ok world_hash (log_store (wr_log0 r)) (wr_s1 r)"
    by (rule run_agent)
  let ?log = "(wr_log0 r)\<lparr>log_store := wr_s1 r\<rparr>"
  from r(1) obtain t w where v: "verify_op world [] ?log (wr_p1 r) = Inr (t, w)" by (auto simp: run_ok_def)
  from r(1) have l: "log_ok world (wr_log0 r) (wr_views r)" "log_heads (wr_log0 r) = [wr_i0 r]"
    "build_op world (wr_log0 r) (world_signer 2) (Some cap_oid) ''sync'' [] agent_effects 0 = Inr (wr_s1 r, wr_p1 r)"
    by (simp_all add: run_ok_def)
  have l': "log_ok world ?log (wr_views r)" by (rule log_ok_store [OF l(1)]) (simp only: world_fields r(3))
  have g: "grown (wr_log0 r) ?log" using r(3) by (simp add: grown_def)
  from built_op_verifies [OF _ l(1) _ later_effects_ok(1) l(3) l' g, of "[]"] l(2) sound_world v
  have "permitted world [] ?log (wr_p1 r)" by (auto simp: world_signer_def)
  with v r(2) show ?thesis by blast
qed

lemma run_current:
  assumes "run_ok r"
  obtains s c where "current_view world (wr_log1 r) = Inr (s, c)" "step_ok world_hash (log_store (wr_log1 r)) s"
    "view_rep world_hash s c (agent_view (Some (wr_i0 r)))"
proof -
  from assms have l: "log_rep world (wr_log1 r) (wr_views r)" "log_heads (wr_log1 r) = [wr_i1 r]"
    "log_verified (wr_log1 r) = {wr_i0 r, wr_i1 r}" "wr_views r (wr_i1 r) = agent_view (Some (wr_i0 r))"
    by (simp_all add: run_ok_def log_ok_def)
  from merged_view_rep [OF _ l(1), of "[wr_i1 r]"] l(2-4) sound_world that show ?thesis
    by (auto simp: refines_def current_view_def sound_hash_def)
qed

lemma agent_view_change: "av_entities (agent_view op) change = Some (TId (rev_oid 2))"
  by (simp add: agent_view_def)

definition agent_inverse :: "effect list" where
  "agent_inverse = [EPoint change (rev_oid 1) (Some (VBytes (rev_oid 2))), EResume ''a'']"

lemma agent_inverse_effects:
  assumes "view_entity world_hash s c change = Inr (Some (PId (rev_oid 2)))"
  shows "inverse_effects world s c agent_effects = Inr agent_inverse"
  using assms by (simp add: inverse_effects_def agent_effects_def agent_inverse_def)

theorem undo_refuses_witness:
  "\<exists>s c d. (\<exists>b. inverse_effects world s c agent_effects = Inr b) \<and> \<not> (\<exists>b. inverse_effects world s d agent_effects = Inr b)"
proof -
  obtain r where r: "run_ok r" by (rule run_agent)
  obtain s c where c: "view_rep world_hash s c (agent_view (Some (wr_i0 r)))" "step_ok world_hash (log_store (wr_log1 r)) s"
    by (rule run_current [OF r])
  have e: "view_entity world_hash s c change = Inr (Some (PId (rev_oid 2)))"
    using view_entity_rep [OF c(1)] agent_view_change by simp
  have "\<exists>b. inverse_effects world s c agent_effects = Inr b"
    unfolding undo_refuses by (simp add: agent_effects_def e)
  moreover obtain s' d where d: "view_empty world_hash s = Inr (s', d)" "step_ok world_hash s s'" "view_rep world_hash s' d a_empty"
    using view_empty_rep [of world_hash s] sound_world c(2) by (auto simp: sound_hash_def)
  ultimately obtain c' where "\<exists>b. inverse_effects world s' c agent_effects = Inr b"
    using view_entity_rep [OF view_rep_mono [OF c(1)], of s'] d(2) agent_view_change agent_inverse_effects by auto
  moreover have "\<not> (\<exists>b. inverse_effects world s' d agent_effects = Inr b)"
    unfolding undo_refuses using view_entity_rep [OF d(3), of change] by (simp add: agent_effects_def a_empty_def)
  ultimately show ?thesis by blast
qed

lemma agent_all_effective: "all_effective op agent_effects world_view"
  by (simp add: agent_effects_def world_view_def a_empty_def paused_scopes_def a_pause_def Let_def)

theorem undo_restores_witness:
  "\<exists>d. a_effects None agent_inverse (agent_view None) = Inr d \<and> same_view d world_view"
proof -
  obtain r where r: "run_ok r" by (rule run_agent)
  obtain s c where c: "view_rep world_hash s c (agent_view (Some (wr_i0 r)))" by (rule run_current [OF r])
  have "inverse_effects world s c agent_effects = Inr agent_inverse"
    by (rule agent_inverse_effects) (simp add: view_entity_rep [OF c] agent_view_change)
  from undo_restores [OF agent_effects_view agent_all_effective this] show ?thesis .
qed

theorem undo_latest_witness:
  "\<exists>log \<alpha> s p d. undo_as world log (world_signer 2) (Some cap_oid) [agent] (hd (log_heads log)) (replicate 16 9) 0 = Inr (s, p) \<and>
     a_op world log \<alpha> p = Inr d \<and> same_view d world_view"
proof -
  obtain r where r: "run_ok r" "op_parents (wr_p1 r) = [wr_i0 r]" "op_author (wr_p1 r) = agent"
    "op_effects (wr_p1 r) = agent_effects" by (rule run_agent)
  obtain s c where c: "current_view world (wr_log1 r) = Inr (s, c)" "step_ok world_hash (log_store (wr_log1 r)) s"
    "view_rep world_hash s c (agent_view (Some (wr_i0 r)))" by (rule run_current [OF r(1)])
  let ?log = "(wr_log1 r)\<lparr>log_store := s\<rparr>"
  from r(1) have l: "log_ok world (wr_log1 r) (wr_views r)" "log_heads (wr_log1 r) = [wr_i1 r]" "stored_op (wr_log1 r) (wr_i1 r) (wr_p1 r)"
    "wr_views r (wr_i0 r) = world_view" "wr_views r (wr_i1 r) = agent_view (Some (wr_i0 r))" "world_hash (OOp (wr_p1 r)) = wr_i1 r"
    by (simp_all add: run_ok_def)
  have ok: "log_ok world ?log (wr_views r)" by (rule log_ok_store [OF l(1)]) (simp only: world_fields c(2))
  have inv: "inverse_effects world s c agent_effects = Inr agent_inverse"
    by (rule agent_inverse_effects) (simp add: view_entity_rep [OF c(3)] agent_view_change)
  have "\<exists>d. a_effects (Some (wr_i1 r)) agent_inverse (agent_view (Some (wr_i0 r))) = Inr d"
    by (simp add: agent_inverse_def a_effects_def)
  then obtain d where d: "a_effects (first_parent (log_heads ?log)) agent_inverse (a_merged world ?log (wr_views r) (log_heads ?log)) = Inr d"
    using l(2,5) by (auto simp: first_parent_def)
  let ?args = "bt_insert ''target'' (VBytes (wr_i1 r)) (args_with_idem (replicate 16 9) [])"
  have "\<forall>e \<in> set agent_inverse. effect_ids_ok e" by (simp add: agent_inverse_def)
  with build_op_total [OF _ _ _ this _ d, of "world_signer 2" "Some cap_oid" "''undo''" ?args 0] ok sound_world
  obtain s' p where b: "build_op world ?log (world_signer 2) (Some cap_oid) ''undo'' ?args agent_inverse 0 = Inr (s', p)"
    by (auto simp: log_ok_def heads_ok_def sound_hash_def)
  have "get_op world (wr_log1 r) (wr_i1 r) = Inr (wr_p1 r)"
    using l(3,6) by (simp add: stored_op_def get_op_def obj_get_def)
  with r(3,4) c(1) inv b have u: "undo_as world (wr_log1 r) (world_signer 2) (Some cap_oid) [agent] (wr_i1 r) (replicate 16 9) 0 = Inr (s', p)"
    by (simp add: undo_as_def Let_def)
  have eff: "all_effective (first_parent (op_parents (wr_p1 r))) (op_effects (wr_p1 r))
      (a_merged world (wr_log1 r) (wr_views r) (op_parents (wr_p1 r)))"
    using r(2,4) l(4) agent_all_effective by simp
  from undo_latest [OF l(1-3) eff u] r(2) l(4) obtain d where "a_op world (wr_log1 r) (wr_views r) p = Inr d" "same_view d world_view"
    by auto
  with u l(2) show ?thesis by (intro exI [of _ "wr_log1 r"] exI [of _ "wr_views r"] exI [of _ s'] exI [of _ p] exI [of _ d]) simp
qed

section \<open>Legal steps\<close>

lemma world_views:
  assumes "log_ok world log \<alpha>" and "kept world_objects (log_store log)" and "i \<in> log_verified log" and "\<alpha> i = world_view"
    and "merged_view world log [i] = Inr (s1, v)" and "current_view world (log\<lparr>log_store := s1\<rparr>) = Inr (s, c)"
  shows "view_rep world_hash s v world_view \<and> kept world_objects s"
proof -
  have c: "collision_free (ext_hash world)" using sound_world by (simp add: sound_hash_def)
  from assms(1) have l: "log_rep world log \<alpha>" "set (log_heads log) \<subseteq> log_verified log" by (simp_all add: log_ok_def heads_ok_def)
  from merged_view_rep [OF c l(1), of "[i]"] assms(3-5) have
    1: "step_ok world_hash (log_store log) s1" "view_rep world_hash s1 v world_view" by (auto simp: refines_def)
  have "log_rep world (log\<lparr>log_store := s1\<rparr>) \<alpha>" by (rule log_rep_store [OF l(1)]) (simp only: world_fields 1(1))
  from merged_view_rep [OF c this, of "log_heads log"] l(2) assms(6) have "step_ok world_hash s1 s"
    by (auto simp: refines_def current_view_def)
  with view_rep_mono [OF 1(2) extends_of_step] kept_trans [OF kept_trans [OF assms(2)]] 1(1) show ?thesis by auto
qed

lemma landed_first:
  assumes "view_rep world_hash s v world_view" and "kept world_objects s"
  shows "landed_set world s v = {rev_oid 0}"
proof -
  have k: "landed_key v = [rev_oid 0]" using world_lines [OF assms(1)] by (simp add: landed_key_def line_head_def)
  have "revision_parents world s (rev_oid 0) = Inr []"
    using world_stored(4) [OF assms(2)] by (simp add: revision_parents_def decode_obj_def first_rev_def world_rev_def)
  then have "closed_under (revision_parents world s) {rev_oid 0}" by (simp add: closed_under_def)
  then have "reached (revision_parents world s) {rev_oid 0} \<subseteq> {rev_oid 0}" by (intro reached_subset) simp
  with k show ?thesis by (auto simp: landed_set_def intro: reached.start)
qed

theorem landed_is_immutable_witness:
  "\<exists>(p :: op) s v. EPoint change (rev_oid 2) (Some (VBytes (rev_oid 1))) \<in> set (op_effects p) \<and>
     s (rev_oid 2) = Some (ORevision redraft) \<and> view_entity world_hash s v change = Inr (Some (PId (rev_oid 1))) \<and>
     rev_prev redraft = Some (rev_oid 1) \<and> rev_oid 1 \<notin> landed_set world s v"
proof -
  obtain r where r: "run_ok r" "op_parents (wr_p1 r) = [wr_i0 r]" "op_effects (wr_p1 r) = agent_effects"
    "step_ok world_hash (log_store (wr_log0 r)) (wr_s1 r)" by (rule run_agent)
  let ?log = "(wr_log0 r)\<lparr>log_store := wr_s1 r\<rparr>"
  from r(1) obtain t w where v: "verify_op world [] ?log (wr_p1 r) = Inr (t, w)" by (auto simp: run_ok_def)
  from r(1) have l: "log_ok world (wr_log0 r) (wr_views r)" "wr_views r (wr_i0 r) = world_view"
    "log_verified (wr_log0 r) = {wr_i0 r}" "kept world_objects (log_store (wr_log0 r))" by (simp_all add: run_ok_def)
  have ok: "log_ok world ?log (wr_views r)" by (rule log_ok_store [OF l(1)]) (simp only: world_fields r(4))
  have kept: "kept world_objects (log_store ?log)" using kept_trans [OF l(4)] r(4) by simp
  have e: "EPoint change (rev_oid 2) (Some (VBytes (rev_oid 1))) \<in> set (op_effects (wr_p1 r))"
    using r(3) by (simp add: agent_effects_def)
  from landed_is_immutable [OF v _ e] r(2) obtain s1 u s c where
    1: "merged_view world ?log [wr_i0 r] = Inr (s1, u)" "current_view world (?log\<lparr>log_store := s1\<rparr>) = Inr (s, c)"
      "\<And>cur q. finite (landed_set world s u) \<Longrightarrow> cache_ok world s [] \<Longrightarrow> s (rev_oid 2) = Some (ORevision q) \<Longrightarrow>
         view_entity world_hash s u change = Inr (Some (PId cur)) \<Longrightarrow> rev_prev q = Some cur"
    by auto
  from world_views [OF ok kept _ l(2) 1(1,2)] l(3) have s: "view_rep world_hash s u world_view" "kept world_objects s" by simp_all
  have cur: "view_entity world_hash s u change = Inr (Some (PId (rev_oid 1)))"
    using world_entity [OF s(1)] by (simp add: world_view_def)
  have "rev_prev redraft = Some (rev_oid 1)"
    by (rule 1(3) [OF _ _ world_stored(6) [OF s(2)] cur]) (simp_all add: landed_first [OF s] cache_ok_def)
  with e cur world_stored(6) [OF s(2)] landed_first [OF s] show ?thesis
    by (intro exI [of _ "wr_p1 r"] exI [of _ s] exI [of _ u]) simp
qed

theorem line_moves_by_the_rules_witness:
  "\<exists>(p :: op) s v ls. op_effects p = owner_effects \<and> map_of (view_lines v) ''trunk'' = Some ls \<and> ls_coordinator ls = op_author p \<and>
     ls_seq ls = 0 \<and> evaluate world s v rules (rev_oid 1) draft [] = Inr []"
proof -
  obtain r where r: "run_ok r" by (rule run_agent)
  obtain p t w where p: "op_parents p = [wr_i0 r]" "op_effects p = owner_effects" "op_kind p = ''land''"
    "verify_op world [] (wr_log1 r) p = Inr (t, w)" by (rule run_owner [OF r])
  from r have l: "log_ok world (wr_log1 r) (wr_views r)" "wr_views r (wr_i0 r) = world_view"
    "wr_i0 r \<in> log_verified (wr_log1 r)" "kept world_objects (log_store (wr_log1 r))" by (simp_all add: run_ok_def)
  have e: "EHead ''trunk'' (rev_oid 1) (Some (VBytes (rev_oid 0))) 1 [] None \<in> set (op_effects p)"
    using p(2) by (simp add: owner_effects_def)
  from line_moves_by_the_rules [OF p(4) _ e] p(1,3) obtain s1 v s c q where
    1: "merged_view world (wr_log1 r) [wr_i0 r] = Inr (s1, v)" "current_view world ((wr_log1 r)\<lparr>log_store := s1\<rparr>) = Inr (s, c)"
      "obj_get world_hash as_revision s (rev_oid 1) = Inr q"
      "case map_of (view_lines v) ''trunk'' of None \<Rightarrow> False | Some ls \<Rightarrow> ls_coordinator ls = op_author p \<and>
         (\<exists>lo. line_object world s v (ls_id ls) = Inr lo \<and> evaluate world s v (line_standard lo) (rev_oid 1) q [] = Inr [])"
    by (auto split: option.splits)
  from world_views [OF l(1,4,3,2) 1(1,2)] have s: "view_rep world_hash s v world_view" "kept world_objects s" by simp_all
  have "q = draft" using 1(3) world_objects_get(5) [OF s(2)] by simp
  moreover have "line_object world s v trunk = Inr world_line"
    using world_entity [OF s(1)] world_objects_get(6) [OF s(2)] by (simp add: line_object_def world_view_def a_empty_def)
  ultimately show ?thesis
    using 1(4) world_lines [OF s(1)] p(2)
    by (intro exI [of _ p] exI [of _ s] exI [of _ v]) (auto simp: world_line_def init_line_def)
qed

theorem landed_revisions_correct_witness:
  "\<exists>v seen c. view_lines v \<noteq> [] \<and> landed_revisions world [] world_objects v = Inr (seen, c) \<and> rev_oid 0 \<in> set seen"
proof -
  let ?v = "sample_view\<lparr>view_lines := [(''trunk'', \<lparr>ls_id = trunk, ls_head = VBytes (rev_oid 1), ls_seq = 0, ls_coordinator = owner\<rparr>)]\<rparr>"
  have "finite (dom world_objects)" by (simp add: world_objects_def)
  from landed_revisions_correct [OF this, of world "[]" ?v] obtain seen c where
    1: "landed_revisions world [] world_objects ?v = Inr (seen, c)" "set seen = landed_set world world_objects ?v"
    by (auto simp: cache_ok_def)
  have "revision_parents world world_objects (rev_oid 1) = Inr [rev_oid 0]"
    using world_objects_at(5) by (simp add: revision_parents_def decode_obj_def draft_def world_rev_def)
  moreover have "landed_key ?v = [rev_oid 1]" by (simp add: landed_key_def line_head_def)
  ultimately have "rev_oid 0 \<in> landed_set world world_objects ?v"
    by (auto simp: landed_set_def intro: reached.intros)
  with 1 show ?thesis by (intro exI [of _ ?v] exI [of _ seen] exI [of _ c]) simp
qed

theorem rotation_may_change_kind_witness:
  "\<exists>(p :: op) q. prin_kind q = ''human'' \<and> prin_kind (world_principal 2 ''agent'') = ''agent'' \<and>
     legal_principal world world_objects sample_view p False agent (Some (PId (prin_oid 2))) q = Inr ()"
proof -
  let ?q = "(world_principal 2 ''human'')\<lparr>prin_prev := Some (prin_oid 2)\<rparr>"
  have "obj_get world_hash as_principal world_objects (prin_oid 2) = Inr (world_principal 2 ''agent'')"
    by (rule world_objects_get(2)) simp
  from rotation_may_change_kind [of world, unfolded world_fields, OF this, of "[2]" ?q agent] show ?thesis
    by (auto simp: world_principal_def verify_with_def obj_payload_def key_verify_def world_signed_def intro!: exI [of _ ?q])
qed

section \<open>Ancestors and merges\<close>

text \<open>An operation and two that follow it.\<close>

definition node_op :: "string \<Rightarrow> oid list \<Rightarrow> op" where
  "node_op kind parents = \<lparr>op_parents = parents, op_author = owner, op_key = [1], op_cap = None, op_kind = kind, op_args = [],
     op_effects = [], op_view = [], op_time = 0, op_desc = None, op_sig = None\<rparr>"

definition fork_id :: "nat \<Rightarrow> oid" where
  "fork_id n = (let i = world_hash (OOp (node_op ''init'' []))
     in if n = 0 then i else world_hash (OOp (node_op (if n = 1 then ''a'' else ''b'') [i])))"

definition fork_log :: oplog where
  "fork_log = log_new [fork_id 0 \<mapsto> OOp (node_op ''init'' []), fork_id 1 \<mapsto> OOp (node_op ''a'' [fork_id 0]),
     fork_id 2 \<mapsto> OOp (node_op ''b'' [fork_id 0])]"

lemma fork_ids [simp]: "fork_id 0 \<noteq> fork_id 1" "fork_id 1 \<noteq> fork_id 0" "fork_id 0 \<noteq> fork_id 2" "fork_id 2 \<noteq> fork_id 0"
  "fork_id 1 \<noteq> fork_id 2" "fork_id 2 \<noteq> fork_id 1"
  by (simp_all add: fork_id_def Let_def node_op_def inj_eq [OF inj_op_code])

lemma fork_parents:
  "parents_of world fork_log (fork_id 0) = Inr []"
  "parents_of world fork_log (fork_id 1) = Inr [fork_id 0]"
  "parents_of world fork_log (fork_id 2) = Inr [fork_id 0]"
proof -
  have st: "log_store fork_log (fork_id 0) = Some (OOp (node_op ''init'' []))"
    "log_store fork_log (fork_id 1) = Some (OOp (node_op ''a'' [fork_id 0]))"
    "log_store fork_log (fork_id 2) = Some (OOp (node_op ''b'' [fork_id 0]))"
    by (simp_all add: fork_log_def log_new_def del: One_nat_def)
  have "world_hash (OOp (node_op ''init'' [])) = fork_id 0" "world_hash (OOp (node_op ''a'' [fork_id 0])) = fork_id 1"
    "world_hash (OOp (node_op ''b'' [fork_id 0])) = fork_id 2" by (simp_all add: fork_id_def)
  with st show "parents_of world fork_log (fork_id 0) = Inr []"
    "parents_of world fork_log (fork_id 1) = Inr [fork_id 0]" "parents_of world fork_log (fork_id 2) = Inr [fork_id 0]"
    by (simp_all add: parents_of_def get_op_def obj_get_def node_op_def del: world_hash.simps)
qed

lemma fork_finite: "finite (dom (log_store fork_log))"
  by (simp add: fork_log_def log_new_def)

lemma fork_ancestors:
  "ancestors world fork_log (fork_id 0) = Inr [fork_id 0]"
  "ancestors world fork_log (fork_id 1) = Inr [fork_id 1, fork_id 0]"
  "ancestors world fork_log (fork_id 2) = Inr [fork_id 2, fork_id 0]"
  using fork_parents by (simp_all add: ancestors_def del: One_nat_def)

theorem ancestors_are_reachable_witness:
  "ancestors world fork_log (fork_id 1) = Inr [fork_id 1, fork_id 0] \<and> anc world fork_log (fork_id 1) = {fork_id 1, fork_id 0}"
  using ancestors_are_reachable [OF fork_finite, of world "fork_id 1"] fork_ancestors(2) by auto

theorem lca_is_latest_witness:
  "lca world fork_log [fork_id 1, fork_id 2] = Inr (Some (fork_id 0)) \<and>
     latest_common world fork_log [fork_id 1, fork_id 2] = {fork_id 0}"
proof -
  have "common_ancestors world fork_log [fork_id 1, fork_id 2] = Inr (Some [fork_id 0])"
    using fork_ancestors(2,3) by (simp add: common_ancestors_def del: One_nat_def)
  then have l: "lca world fork_log [fork_id 1, fork_id 2] = Inr (Some (fork_id 0))"
    using fork_ancestors(1) by (simp add: lca_def drop_older_def btree_list_def)
  have "common_anc world fork_log [fork_id 1, fork_id 2] = {fork_id 0}"
    unfolding common_anc_def
    using ancestors_Inr(1) [OF finite_store_anc [OF fork_finite] fork_ancestors(2), symmetric]
      ancestors_Inr(1) [OF finite_store_anc [OF fork_finite] fork_ancestors(3), symmetric] fork_ids
    by simp
  then have "latest_common world fork_log [fork_id 1, fork_id 2] \<subseteq> {fork_id 0}" using latest_common_subset by blast
  moreover have "latest_common world fork_log [fork_id 1, fork_id 2] \<noteq> {}"
    using lca_is_latest [OF fork_finite _ l] by (auto split: if_splits)
  ultimately show ?thesis using l by blast
qed

theorem merged_view_refines_witness:
  "\<exists>(log :: oplog) \<alpha> s v. merged_view world log (log_heads log) = Inr (s, v) \<and> card (set (log_heads log)) = 2 \<and>
     view_rep world_hash s v (a_merged world log \<alpha> (log_heads log))"
proof -
  obtain r where r: "run_ok r" by (rule run_agent)
  from run_second [OF r] obtain log i \<beta> where 1: "log_ok world log \<beta>" "i \<notin> {wr_i0 r, wr_i1 r}"
    "set (log_heads log) = {i, wr_i1 r}" by blast
  then have "log_rep world log \<beta>" "set (log_heads log) \<subseteq> log_verified log" by (simp_all add: log_ok_def heads_ok_def)
  from merged_view_refines [OF _ this] sound_world obtain s v where
    "merged_view world log (log_heads log) = Inr (s, v)" "view_rep world_hash s v (a_merged world log \<beta> (log_heads log))"
    by (auto simp: refines_def sound_hash_def)
  moreover have "card (set (log_heads log)) = 2" using 1(2,3) by simp
  ultimately show ?thesis by blast
qed

section \<open>Changed paths\<close>

text \<open>A tree with one file, then with another content of it, and a revision that makes the change.\<close>

fun tree_hash :: "obj \<Rightarrow> oid" where
  "tree_hash (OTree t) = (case tree_entries t of None \<Rightarrow> [] | Some es \<Rightarrow>
     concat (map (\<lambda>e. case te_ref e of None \<Rightarrow> [] | Some i \<Rightarrow> i) es))"
| "tree_hash (OSnapshot sn) = 3 # snap_root sn"
| "tree_hash (ORevision r) = [4, of_nat (length (rev_parents r))]"
| "tree_hash y = []"

definition tree_ext :: ext where
  "tree_ext = sample_ext\<lparr>ext_hash := tree_hash\<rparr>"

lemma tree_ext_hash [simp]: "ext_hash tree_ext = tree_hash"
  by (simp add: tree_ext_def)

definition file_entry :: "u8 \<Rightarrow> tree_entry" where
  "file_entry b = \<lparr>te_name = ''f'', te_kind = File, te_mode = None, te_ref = Some [b], te_terms = None\<rparr>"

definition file_tree :: "u8 \<Rightarrow> obj" where
  "file_tree b = OTree \<lparr>tree_entries = Some [file_entry b], tree_shards = None\<rparr>"

definition file_snap :: "u8 \<Rightarrow> snapshot" where
  "file_snap b = \<lparr>snap_root = [b], snap_rules = [], snap_env = None, snap_index = None\<rparr>"

definition file_rev :: "u8 \<Rightarrow> oid list \<Rightarrow> revision" where
  "file_rev b ps = (world_rev [] change None ps owner)\<lparr>rev_snapshots := [([], [3, b])]\<rparr>"

definition file_store :: objs where
  "file_store = [[1] \<mapsto> file_tree 1, [2] \<mapsto> file_tree 2, [3, 1] \<mapsto> OSnapshot (file_snap 1), [3, 2] \<mapsto> OSnapshot (file_snap 2),
     [4, 0] \<mapsto> ORevision (file_rev 1 []), [4, 1] \<mapsto> ORevision (file_rev 2 [[4, 0]])]"

lemma file_gets:
  "obj_get tree_hash as_snapshot file_store [3, 1] = Inr (file_snap 1)"
  "obj_get tree_hash as_snapshot file_store [3, 2] = Inr (file_snap 2)"
  "obj_get tree_hash as_revision file_store [4, 0] = Inr (file_rev 1 [])"
  "obj_get tree_hash as_revision file_store [4, 1] = Inr (file_rev 2 [[4, 0]])"
  by (simp_all add: obj_get_def file_store_def file_snap_def file_rev_def world_rev_def)

lemma file_entries:
  "entries_of tree_ext file_store (Some [1]) = Inr [file_entry 1]"
  "entries_of tree_ext file_store (Some [2]) = Inr [file_entry 2]"
  by (simp_all add: entries_of_def load_entries_def obj_get_def file_store_def file_tree_def file_entry_def)

lemma file_differs:
  "at_path tree_ext file_store (Some [1]) [''f''] (file_entry 1) \<noteq> at_path tree_ext file_store (Some [2]) [''f''] (file_entry 1)"
  using at_path_Cons [OF file_entries(1), of "''f''" "[]"] at_path_Cons [OF file_entries(2), of "''f''" "[]"]
  by (simp add: find_entry_def file_entry_def at_entry_def)

lemma file_changed: "changed_paths tree_ext file_store (Some [1]) [2] = Inr [''f'']"
  using file_entries
  by (simp add: changed_paths_def diff_trees.simps find_entry_def file_entry_def diff_entry_def join_path_def btree_list_def)

theorem changed_paths_cover_witness:
  "\<exists>ks rest. [''f''] = ks @ rest \<and> ks \<noteq> [] \<and> path_string [] ks \<in> set [''f'']"
  by (rule changed_paths_cover [OF file_changed _ file_differs]) (simp add: file_entry_def)


theorem diff_trees_ends_witness:
  "\<exists>r. diff_trees tree_ext file_store (Some [1]) (Some [2]) [] [] = Some r"
proof (rule diff_trees_ends [where rk = length])
  fix t es d u assume "entries_of tree_ext file_store (Some t) = Inr es" "d \<in> set es" "te_kind d = Dir"
  then show "length u < length t"
    by (auto simp: entries_of_def load_entries_def obj_get_Inr_iff file_store_def file_tree_def file_entry_def result_simps
        split: if_splits)
qed

end
