(* ===== verification/Renames.thy ===== *)
theory Renames
  imports Ids Objects
begin

text \<open>
  Identifier renames: \<open>crates/tessra-semantic/src/rename.rs\<close>, and the languages of \<open>lib.rs\<close>.

  Source text is a list of bytes, names are strings of one character per byte. A parse tree is what
  tree-sitter hands out: \<open>ts_node\<close> has the kind of a node, the field of its parent that it fills, whether
  it is named, its range of bytes and its children. The parser is an argument of the definitions that
  parse. A position in a tree is the node with the list of its ancestors, the nearest first, each with
  the number of the child that leads on; that number is the identity the code compares.

  A reference into a slice of renames is the number of the rename in it together with the rename, so
  that pointer equality is equality of numbers.
\<close>

lemma size_list_less: "x \<in> set xs \<Longrightarrow> size x < size_list size xs"
  by (induction xs) auto

section \<open>Languages and renames\<close>

datatype language = Rust | Python | JavaScript | TypeScript | Tsx

record rename =
  rn_from :: string
  rn_to :: string
  rn_path :: "string option"

definition rename_new :: "string \<Rightarrow> string \<Rightarrow> rename" where
  "rename_new f t = \<lparr>rn_from = f, rn_to = t, rn_path = None\<rparr>"

definition rename_applies_to :: "rename \<Rightarrow> string \<Rightarrow> bool" where
  "rename_applies_to r path = (case rn_path r of None \<Rightarrow> True | Some p \<Rightarrow> p = path)"

section \<open>Whole words\<close>

definition ident_byte :: "u8 \<Rightarrow> bool" where
  "ident_byte b \<longleftrightarrow> 48 \<le> b \<and> b \<le> 57 \<or> 65 \<le> b \<and> b \<le> 90 \<or> 97 \<le> b \<and> b \<le> 122 \<or> b = 95"

definition is_identifier :: "string \<Rightarrow> bool" where
  "is_identifier s =
     (case s of
        [] \<Rightarrow> False
      | c # cs \<Rightarrow>
          (let b = of_char c :: u8
           in (65 \<le> b \<and> b \<le> 90 \<or> 97 \<le> b \<and> b \<le> 122 \<or> b = 95) \<and>
              list_all (\<lambda>d. ident_byte (of_char d)) cs))"

definition word_at :: "bytes \<Rightarrow> bytes \<Rightarrow> nat \<Rightarrow> bool" where
  "word_at src w i \<longleftrightarrow>
     take (length w) (drop i src) = w \<and>
     (i = 0 \<or> \<not> ident_byte (src ! (i - 1))) \<and>
     (i + length w = length src \<or> \<not> ident_byte (src ! (i + length w)))"

function find_loop :: "bytes \<Rightarrow> bytes \<Rightarrow> nat \<Rightarrow> nat option" where
  "find_loop src w i =
     (if i + length w \<le> length src
      then if word_at src w i then Some i else find_loop src w (i + 1)
      else None)"
  by pat_completeness auto
termination by (relation "measure (\<lambda>(src, w, i). length src + 1 - i)") auto

declare find_loop.simps [simp del]

definition find_ident :: "bytes \<Rightarrow> bytes \<Rightarrow> nat \<Rightarrow> nat option" where
  "find_ident src w i = (if w = [] \<or> length src < length w then None else find_loop src w i)"

definition contains_ident :: "bytes \<Rightarrow> string \<Rightarrow> bool" where
  "contains_ident src w \<longleftrightarrow> find_ident src (ascii w) 0 \<noteq> None"

lemma find_loop_Some:
  "find_loop src w i = Some p \<Longrightarrow>
     i \<le> p \<and> p + length w \<le> length src \<and> word_at src w p \<and> (\<forall>j. i \<le> j \<and> j < p \<longrightarrow> \<not> word_at src w j)"
proof (induction src w i rule: find_loop.induct)
  case (1 src w i)
  from 1(2) have len: "i + length w \<le> length src"
    by (subst (asm) find_loop.simps) (auto split: if_splits)
  show ?case
  proof (cases "word_at src w i")
    case True
    with 1(2) len have "p = i" by (simp add: find_loop.simps)
    with True len show ?thesis by auto
  next
    case False
    with 1(2) len have "find_loop src w (i + 1) = Some p" by (subst (asm) find_loop.simps) simp
    from 1(1) [OF len False this] False show ?thesis by (metis Suc_eq_plus1 Suc_leI Suc_leD le_neq_implies_less)
  qed
qed

lemma find_loop_None:
  "find_loop src w i = None \<Longrightarrow> i \<le> p \<Longrightarrow> p + length w \<le> length src \<Longrightarrow> \<not> word_at src w p"
proof (induction src w i rule: find_loop.induct)
  case (1 src w i)
  show ?case
  proof (cases "i + length w \<le> length src")
    case len: True
    with 1(2) have no: "\<not> word_at src w i" and "find_loop src w (i + 1) = None"
      by (subst (asm) find_loop.simps, simp split: if_splits)+
    with 1 len show ?thesis by (cases "p = i") auto
  qed (use 1 in auto)
qed

lemma find_ident_Some:
  assumes "find_ident src w i = Some p"
  shows "w \<noteq> []" "i \<le> p" "p + length w \<le> length src" "word_at src w p"
    "\<And>j. i \<le> j \<Longrightarrow> j < p \<Longrightarrow> \<not> word_at src w j"
  using assms find_loop_Some [of src w i p] by (auto simp: find_ident_def split: if_splits)

function replace_loop :: "bytes \<Rightarrow> bytes \<Rightarrow> bytes \<Rightarrow> nat \<Rightarrow> nat \<Rightarrow> bytes" where
  "replace_loop src f t copied pos =
     take (pos - copied) (drop copied src) @ t @
     (case find_ident src f (pos + length f) of
        Some p \<Rightarrow> replace_loop src f t (pos + length f) p
      | None \<Rightarrow> drop (pos + length f) src)"
  by pat_completeness auto
termination
proof (relation "measure (\<lambda>(src, f, t, copied, pos). length src - pos)", simp, clarsimp)
  fix src f :: bytes and pos p
  assume "find_ident src f (pos + length f) = Some p"
  from find_ident_Some(1-3) [OF this] show "length src - p < length src - pos" by (cases f) auto
qed

declare replace_loop.simps [simp del]

definition replace_ident :: "bytes \<Rightarrow> string \<Rightarrow> string \<Rightarrow> bytes option" where
  "replace_ident src f t =
     (case find_ident src (ascii f) 0 of
        None \<Rightarrow> None
      | Some pos \<Rightarrow> Some (replace_loop src (ascii f) (ascii t) 0 pos))"

section \<open>Edits\<close>

type_synonym rename_ref = "nat \<times> rename"

record edit =
  ed_start :: nat
  ed_end :: nat
  ed_to :: string
  ed_applied :: "rename_ref list"

text \<open>The loop of \<open>apply_edits\<close>: \<open>copied\<close> (\<open>last\<close> there) is where the text copied so far ends.\<close>

definition note_applied :: "rename_ref list \<Rightarrow> rename_ref list \<Rightarrow> rename_ref list" where
  "note_applied rs applied =
     fold (\<lambda>r applied. if list_ex (\<lambda>a. fst a = fst r) applied then applied else applied @ [r]) rs applied"

fun edit_loop :: "bytes \<Rightarrow> nat \<Rightarrow> nat \<Rightarrow> edit list \<Rightarrow> nat \<Rightarrow> bytes \<Rightarrow> rename_ref list \<Rightarrow> bytes \<times> rename_ref list" where
  "edit_loop src from to [] copied out applied = (out @ take (to - copied) (drop copied src), applied)"
| "edit_loop src from to (e # es) copied out applied =
     (if ed_start e < from \<or> to < ed_end e \<or> ed_start e < copied
      then edit_loop src from to es copied out applied
      else edit_loop src from to es (ed_end e)
             (out @ take (ed_start e - copied) (drop copied src) @ ascii (ed_to e))
             (note_applied (ed_applied e) applied))"

definition apply_edits :: "bytes \<Rightarrow> nat \<Rightarrow> nat \<Rightarrow> edit list \<Rightarrow> bytes \<times> rename_ref list" where
  "apply_edits src from to edits =
     (let to = min to (length src);
          from = min from to
      in edit_loop src from to edits from [] [])"

section \<open>Where renames land in a parse tree\<close>

datatype ts_node =
  Ts (ts_kind: string) (ts_field: "string option") (ts_named: bool) (ts_start: nat) (ts_end: nat)
     (ts_children: "ts_node list")

type_synonym ts_path = "(ts_node \<times> nat) list"

definition ts_text :: "bytes \<Rightarrow> ts_node \<Rightarrow> bytes" where
  "ts_text src n = take (ts_end n - ts_start n) (drop (ts_start n) src)"

text \<open>\<open>child_by_field_name\<close>: the number of the first child that fills the field.\<close>

fun field_from :: "string \<Rightarrow> nat \<Rightarrow> ts_node list \<Rightarrow> nat option" where
  "field_from f i [] = None"
| "field_from f i (c # cs) = (if ts_field c = Some f then Some i else field_from f (i + 1) cs)"

definition field_child :: "string \<Rightarrow> ts_node \<Rightarrow> nat option" where
  "field_child f n = field_from f 0 (ts_children n)"

definition child_by_field :: "string \<Rightarrow> ts_node \<Rightarrow> ts_node option" where
  "child_by_field f n = map_option (\<lambda>i. ts_children n ! i) (field_child f n)"

definition string_kinds :: "string list" where
  "string_kinds =
     [''string_literal'', ''raw_string_literal'', ''char_literal'', ''string'', ''concatenated_string'',
      ''template_string'', ''regex'', ''line_comment'', ''block_comment'', ''comment'']"

definition is_function :: "language \<Rightarrow> string \<Rightarrow> bool" where
  "is_function lang kind =
     (case lang of
        Rust \<Rightarrow> kind \<in> {''function_item'', ''closure_expression''}
      | Python \<Rightarrow> kind \<in> {''function_definition'', ''lambda''}
      | _ \<Rightarrow> kind \<in> {''function_declaration'', ''function_expression'', ''generator_function'',
                     ''generator_function_declaration'', ''arrow_function'', ''method_definition''})"

fun identifiers :: "bytes \<Rightarrow> ts_node \<Rightarrow> bytes list"
and identifiers_all :: "bytes \<Rightarrow> ts_node list \<Rightarrow> bytes list" where
  "identifiers src (Ts k f nm s e cs) =
     (if cs = [] then if k = ''identifier'' then [ts_text src (Ts k f nm s e cs)] else []
      else identifiers_all src cs)"
| "identifiers_all src [] = []"
| "identifiers_all src (c # cs) = identifiers src c @ identifiers_all src cs"

definition is_binder :: "language \<Rightarrow> string \<Rightarrow> bool" where
  "is_binder lang kind =
     (case lang of
        Rust \<Rightarrow> kind \<in> {''parameter'', ''closure_parameters'', ''let_declaration'', ''for_expression''}
      | Python \<Rightarrow> kind \<in> {''parameters'', ''lambda_parameters'', ''assignment'', ''for_statement'', ''named_expression''}
      | _ \<Rightarrow> kind \<in> {''formal_parameters'', ''variable_declarator''})"

definition binder_target :: "language \<Rightarrow> ts_node \<Rightarrow> ts_node option" where
  "binder_target lang n =
     (case lang of
        Rust \<Rightarrow>
          if ts_kind n \<in> {''parameter'', ''let_declaration'', ''for_expression''}
          then child_by_field ''pattern'' n else Some n
      | Python \<Rightarrow>
          if ts_kind n \<in> {''assignment'', ''for_statement'', ''named_expression''}
          then (case child_by_field ''left'' n of None \<Rightarrow> child_by_field ''name'' n | Some c \<Rightarrow> Some c)
          else Some n
      | _ \<Rightarrow>
          if ts_kind n = ''variable_declarator'' then child_by_field ''name'' n else Some n)"

fun bindings :: "language \<Rightarrow> bytes \<Rightarrow> ts_node \<Rightarrow> bytes list"
and bindings_all :: "language \<Rightarrow> bytes \<Rightarrow> ts_node list \<Rightarrow> bytes list" where
  "bindings lang src (Ts k f nm s e cs) =
     (let n = Ts k f nm s e cs;
          own = (if is_binder lang k
                 then (case binder_target lang n of Some t \<Rightarrow> identifiers src t | None \<Rightarrow> [])
                 else [])
      in if is_binder lang k \<and> k \<noteq> ''for_expression'' \<and> k \<noteq> ''for_statement'' then own
         else own @ bindings_all lang src cs)"
| "bindings_all lang src [] = []"
| "bindings_all lang src (c # cs) =
     (if is_function lang (ts_kind c) then [] else bindings lang src c) @ bindings_all lang src cs"

text \<open>Whether the leaf that is child \<open>i\<close> of \<open>p\<close>, the head of the path, can name the renamed unit.\<close>

definition is_called :: "ts_path \<Rightarrow> bool" where
  "is_called anc =
     (case anc of
        _ # (call, j) # _ \<Rightarrow> ts_kind call \<in> {''call_expression'', ''call''} \<and> field_child ''function'' call = Some j
      | _ \<Rightarrow> False)"

definition renamable :: "language \<Rightarrow> ts_path \<Rightarrow> string \<Rightarrow> bool" where
  "renamable lang anc kind =
     (case anc of
        [] \<Rightarrow> True
      | (p, i) # _ \<Rightarrow>
          (case lang of
             Rust \<Rightarrow>
               if kind = ''identifier'' then ts_kind p \<notin> {''lifetime'', ''label'', ''shorthand_field_initializer''}
               else if kind = ''type_identifier'' then True
               else if kind = ''field_identifier'' then ts_kind p = ''field_expression'' \<and> is_called anc
               else False
           | Python \<Rightarrow>
               if kind = ''identifier''
               then if ts_kind p = ''attribute'' \<and> field_child ''attribute'' p = Some i then is_called anc
                    else \<not> (ts_kind p = ''keyword_argument'' \<and> field_child ''name'' p = Some i)
               else False
           | _ \<Rightarrow>
               if kind \<in> {''identifier'', ''type_identifier'', ''shorthand_property_identifier''} then True
               else if kind \<in> {''property_identifier'', ''private_property_identifier''}
               then if ts_kind p = ''member_expression'' then is_called anc
                    else if ts_kind p \<in> {''method_definition'', ''method_signature'', ''abstract_method_signature''}
                    then field_child ''name'' p = Some i
                    else False
               else False))"

text \<open>The renames applied to one name, in order.\<close>

definition chain_renames :: "rename list \<Rightarrow> bytes \<Rightarrow> bytes \<times> rename_ref list" where
  "chain_renames rens ident =
     fold (\<lambda>(i, r) (name, applied).
             if name = ascii (rn_from r) then (ascii (rn_to r), applied @ [(i, r)]) else (name, applied))
          (enumerate 0 rens) (ident, [])"

text \<open>
  \<open>String::from_utf8\<close> of the renamed bytes: they are those of the name of the last rename applied,
  which is a string.
\<close>

definition leaf_edits :: "rename list \<Rightarrow> bytes list list \<Rightarrow> nat \<Rightarrow> nat \<Rightarrow> bytes \<Rightarrow> edit list" where
  "leaf_edits rens scopes s e ident =
     (if list_ex (\<lambda>sc. list_ex (\<lambda>b. b = ident) sc) scopes then []
      else (case snd (chain_renames rens ident) of
              [] \<Rightarrow> []
            | applied \<Rightarrow>
                [\<lparr>ed_start = s, ed_end = e, ed_to = rn_to (snd (last applied)), ed_applied = applied\<rparr>]))"

fun walk_node :: "language \<Rightarrow> bytes \<Rightarrow> rename list \<Rightarrow> bytes list list \<Rightarrow> ts_path \<Rightarrow> ts_node \<Rightarrow> edit list"
and walk_embedded :: "language \<Rightarrow> bytes \<Rightarrow> rename list \<Rightarrow> bytes list list \<Rightarrow> ts_path \<Rightarrow> ts_node \<Rightarrow> nat \<Rightarrow> ts_node list \<Rightarrow> edit list"
and walk_all :: "language \<Rightarrow> bytes \<Rightarrow> rename list \<Rightarrow> bytes list list \<Rightarrow> ts_path \<Rightarrow> ts_node \<Rightarrow> nat \<Rightarrow> ts_node list \<Rightarrow> edit list" where
  "walk_node lang src rens scopes anc (Ts k f nm s e cs) =
     (let n = Ts k f nm s e cs
      in if k \<in> set string_kinds then walk_embedded lang src rens scopes anc n 0 cs
         else if cs = []
         then if renamable lang anc k then leaf_edits rens scopes s e (ts_text src n) else []
         else let scopes = (if is_function lang k
                            then filter (\<lambda>b. list_ex (\<lambda>r. ascii (rn_from r) = b) rens) (bindings lang src n) # scopes
                            else scopes)
              in walk_all lang src rens scopes anc n 0 cs)"
| "walk_embedded lang src rens scopes anc n i [] = []"
| "walk_embedded lang src rens scopes anc n i (c # cs) =
     (if ts_named c \<and> ts_children c \<noteq> [] then walk_node lang src rens scopes ((n, i) # anc) c else []) @
     walk_embedded lang src rens scopes anc n (i + 1) cs"
| "walk_all lang src rens scopes anc n i [] = []"
| "walk_all lang src rens scopes anc n i (c # cs) =
     walk_node lang src rens scopes ((n, i) # anc) c @ walk_all lang src rens scopes anc n (i + 1) cs"

type_synonym parser = "language \<Rightarrow> bytes \<Rightarrow> ts_node option"

definition rename_edits :: "parser \<Rightarrow> language \<Rightarrow> bytes \<Rightarrow> rename list \<Rightarrow> edit list" where
  "rename_edits parse lang src rens =
     (if rens = [] \<or> \<not> list_ex (\<lambda>r. contains_ident src (rn_from r)) rens then []
      else (case parse lang src of None \<Rightarrow> [] | Some tree \<Rightarrow> walk_node lang src rens [] [] tree))"

definition rename_source :: "parser \<Rightarrow> language \<Rightarrow> bytes \<Rightarrow> rename list \<Rightarrow> bytes \<times> rename_ref list" where
  "rename_source parse lang src rens = apply_edits src 0 (length src) (rename_edits parse lang src rens)"

end
