(* ===== verification/Merge_Keys.thy ===== *)
theory Merge_Keys
  imports Renames "HOL-Library.Sublist"
begin

text \<open>
  Lining up the units of three versions of a file: the first half of
  \<open>crates/tessra-semantic/src/merge.rs\<close>.

  A unit is a function, a type or the like, with its text span and the units it contains. \<open>keys\<close> gives
  every unit of a side the key under which it meets the units of the other versions, \<open>ordered_keys\<close> is
  the order of the keys in the merged file. Byte offsets are naturals.
\<close>

section \<open>Units\<close>

datatype munit =
  MUnit (mu_nid: eid) (mu_kind: string) (mu_name: string) (mu_start: nat) (mu_end: nat) (mu_body: oid)
    (mu_gap: nat) (mu_children: "munit list")

datatype key = KId eid | KNew string string nat

text \<open>
  The nodes of a level of the tree, in document order. The recursion over the children has no bound in
  the source; a chain of containers longer than the number of nodes repeats one, so the fuel runs out
  exactly when the recursion does not end.
\<close>

definition nodes_under :: "node list \<Rightarrow> eid option \<Rightarrow> node list" where
  "nodes_under nodes p = filter (\<lambda>n. node_parent n = p) nodes"

definition span_start :: "node \<Rightarrow> nat" where
  "span_start n = unat (fst (node_span n))"

definition span_end :: "node \<Rightarrow> nat" where
  "span_end n = unat (snd (node_span n))"

fun make_units :: "nat \<Rightarrow> node list \<Rightarrow> node list \<Rightarrow> nat \<Rightarrow> munit list res" where
  "make_units fuel nodes [] prev_end = Inr []"
| "make_units 0 nodes (n # ns) prev_end = Inl Diverges"
| "make_units (Suc fuel) nodes (n # ns) prev_end =
     (let kids = nodes_under nodes (Some (node_nid n));
          first_kid = (case kids of [] \<Rightarrow> span_end n | k # _ \<Rightarrow> span_start k)
      in rbind (make_units fuel nodes kids first_kid) (\<lambda>children.
         rbind (make_units (Suc fuel) nodes ns (span_end n)) (\<lambda>units.
         Inr (MUnit (node_nid n) (node_kind n) (node_name n) (span_start n) (span_end n) (node_body n)
                prev_end children # units))))"

definition build_units :: "node list \<Rightarrow> munit list res" where
  "build_units nodes = make_units (length nodes) nodes (nodes_under nodes None) 0"

section \<open>Keys\<close>

fun first_pos :: "('a \<Rightarrow> bool) \<Rightarrow> 'a list \<Rightarrow> nat option" where
  "first_pos P [] = None"
| "first_pos P (x # xs) = (if P x then Some 0 else map_option Suc (first_pos P xs))"

type_synonym key_state = "key option list \<times> bool list"

text \<open>The map from ids to positions collected from a level: the last position of an id counts.\<close>

definition by_nid :: "munit list \<Rightarrow> eid \<Rightarrow> nat option" where
  "by_nid base = map_of (rev (zip (map mu_nid base) [0..<length base]))"

definition same_name :: "munit \<Rightarrow> munit \<Rightarrow> bool" where
  "same_name u v \<longleftrightarrow> mu_kind u = mu_kind v \<and> mu_name u = mu_name v"

definition id_step :: "munit list \<Rightarrow> nat \<times> munit \<Rightarrow> key_state \<Rightarrow> key_state" where
  "id_step base = (\<lambda>(i, u) (out, taken).
     (case by_nid base (mu_nid u) of
        None \<Rightarrow> (out, taken)
      | Some b \<Rightarrow>
          if taken ! b then (out, taken)
          else (out[i := Some (KId (mu_nid u))], taken[b := True])))"

definition recorded_step :: "munit list \<Rightarrow> munit list \<Rightarrow> rename \<Rightarrow> key_state \<Rightarrow> key_state" where
  "recorded_step base side r = (\<lambda>(out, taken).
     (case first_pos (\<lambda>u. mu_name u = rn_from r \<and> \<not> taken ! the (by_nid base (mu_nid u))) base of
        None \<Rightarrow> (out, taken)
      | Some b \<Rightarrow>
          if list_ex (\<lambda>u. mu_name u = rn_from r \<and> mu_kind u = mu_kind (base ! b)) side then (out, taken)
          else (case first_pos (\<lambda>(i, u). out ! i = None \<and> mu_name u = rn_to r \<and> mu_kind u = mu_kind (base ! b))
                       (enumerate 0 side) of
                  None \<Rightarrow> (out, taken)
                | Some i \<Rightarrow> (out[i := Some (KId (mu_nid (base ! b)))], taken[b := True]))))"

text \<open>Units of one kind and name that are left: the same body first, then in order.\<close>

definition body_step :: "munit list \<Rightarrow> munit list \<Rightarrow> nat \<Rightarrow> nat list \<times> key_state \<Rightarrow> nat list \<times> key_state" where
  "body_step base side j = (\<lambda>(candidates, out, taken).
     (case first_pos (\<lambda>b. mu_body (base ! b) = mu_body (side ! j)) candidates of
        None \<Rightarrow> (candidates, out, taken)
      | Some pos \<Rightarrow>
          let b = candidates ! pos
          in (take pos candidates @ drop (Suc pos) candidates,
              out[j := Some (KId (mu_nid (base ! b)))], taken[b := True])))"

definition rest_step :: "munit list \<Rightarrow> nat \<Rightarrow> nat list \<times> key_state \<Rightarrow> nat list \<times> key_state" where
  "rest_step base j = (\<lambda>(rest, out, taken).
     if out ! j = None
     then (case rest of
             [] \<Rightarrow> (rest, out, taken)
           | b # rest \<Rightarrow> (rest, out[j := Some (KId (mu_nid (base ! b)))], taken[b := True]))
     else (rest, out, taken))"

definition group_step :: "munit list \<Rightarrow> munit list \<Rightarrow> nat \<Rightarrow> key_state \<Rightarrow> key_state" where
  "group_step base side i = (\<lambda>(out, taken).
     (let u = side ! i;
          members = filter (\<lambda>j. out ! j = None \<and> same_name (side ! j) u) [i..<length side];
          candidates = filter (\<lambda>b. \<not> taken ! b \<and> same_name (base ! b) u) [0..<length base]
      in snd (fold (rest_step base) members
           (fold (body_step base side) members (candidates, out, taken)))))"

definition name_step ::
  "munit list \<Rightarrow> munit list \<Rightarrow> nat \<Rightarrow> key_state \<times> (string \<times> string) list \<Rightarrow> key_state \<times> (string \<times> string) list" where
  "name_step base side i = (\<lambda>((out, taken), seen).
     (let u = side ! i; kn = (mu_kind u, mu_name u)
      in if out ! i \<noteq> None \<or> kn \<in> set seen then ((out, taken), seen)
         else (group_step base side i (out, taken), kn # seen)))"

definition count_step ::
  "munit list \<Rightarrow> nat \<Rightarrow> key option list \<times> (string \<times> string \<Rightarrow> nat option) \<Rightarrow>
   key option list \<times> (string \<times> string \<Rightarrow> nat option)" where
  "count_step side i = (\<lambda>(out, counts).
     (if out ! i = None
      then (let u = side ! i; kn = (mu_kind u, mu_name u);
                k = (case counts kn of None \<Rightarrow> 0 | Some c \<Rightarrow> c + 1)
            in (out[i := Some (KNew (mu_kind u) (mu_name u) k)], counts(kn \<mapsto> k)))
      else (out, counts)))"

text \<open>What lines up with the base: the three passes over a side.\<close>

definition aligned :: "munit list \<Rightarrow> munit list \<Rightarrow> rename list \<Rightarrow> key_state" where
  "aligned base side recorded =
     (let s = (replicate (length side) None, replicate (length base) False);
          s = fold (id_step base) (enumerate 0 side) s;
          s = fold (recorded_step base side) recorded s
      in fst (fold (name_step base side) [0..<length side] (s, [])))"

definition unit_keys :: "munit list option \<Rightarrow> munit list \<Rightarrow> rename list \<Rightarrow> key list" where
  "unit_keys base side recorded =
     (let base = (case base of None \<Rightarrow> [] | Some us \<Rightarrow> us);
          out = fst (aligned base side recorded)
      in map the (fst (fold (count_step side) [0..<length side] (out, Map.empty))))"

section \<open>The order of the merged level\<close>

type_synonym order_state = "key list \<times> key option"

definition order_step :: "key list \<Rightarrow> key \<Rightarrow> order_state \<Rightarrow> order_state" where
  "order_step base k = (\<lambda>(result, prev).
     (if k \<in> set result then (result, Some k)
      else (let pos = (case prev of
                         None \<Rightarrow> 0
                       | Some p \<Rightarrow> (case first_pos (\<lambda>x. x = p) result of Some i \<Rightarrow> i + 1 | None \<Rightarrow> length result));
                pos = pos + length (takeWhile (\<lambda>x. x \<notin> set base) (drop pos result))
            in (take pos result @ k # drop pos result, Some k))))"

definition order_side :: "key list \<Rightarrow> key list \<Rightarrow> key list \<Rightarrow> key list" where
  "order_side base side result = fst (fold (order_step base) side (result, None))"

definition ordered_keys :: "key list \<Rightarrow> key list \<Rightarrow> key list \<Rightarrow> key list" where
  "ordered_keys base a b = order_side base b (order_side base a base)"

end
