(* ===== verification/Merge_File.thy ===== *)
theory Merge_File
  imports Merge_Keys
begin

text \<open>
  The merge of one file: the second half of \<open>crates/tessra-semantic/src/merge.rs\<close>, with
  \<open>inferred_renames\<close> of \<open>matching.rs\<close>.

  The output text and the reports are one record that every step returns updated. \<open>merge_choice\<close> is the
  case analysis on a unit in the three versions, and says what is reported and what is emitted;
  \<open>merge_level\<close> and \<open>merge_container\<close> are mutually recursive over the units of the first side.
\<close>

section \<open>The context of a merge\<close>

datatype side = SideA | SideB

fun side_other :: "side \<Rightarrow> side" where
  "side_other SideA = SideB"
| "side_other SideB = SideA"

record merged =
  mg_text :: bytes
  mg_conflicts :: "string list"
  mg_resolved :: "string list"

record file_nodes =
  fl_text :: bytes
  fl_nodes :: "node list"

record merge_ctx =
  cx_base :: "bytes option"
  cx_a :: bytes
  cx_b :: bytes
  cx_ren_a :: "rename list"
  cx_ren_b :: "rename list"
  cx_ops_a :: "rename list"
  cx_ops_b :: "rename list"
  cx_edits_a :: "edit list"
  cx_edits_b :: "edit list"
  cx_base_edits_a :: "edit list"
  cx_base_edits_b :: "edit list"

fun cx_text :: "merge_ctx \<Rightarrow> side \<Rightarrow> bytes" where
  "cx_text c SideA = cx_a c" | "cx_text c SideB = cx_b c"

fun cx_renames :: "merge_ctx \<Rightarrow> side \<Rightarrow> rename list" where
  "cx_renames c SideA = cx_ren_a c" | "cx_renames c SideB = cx_ren_b c"

fun cx_recorded :: "merge_ctx \<Rightarrow> side \<Rightarrow> rename list" where
  "cx_recorded c SideA = cx_ops_a c" | "cx_recorded c SideB = cx_ops_b c"

fun cx_edits :: "merge_ctx \<Rightarrow> side \<Rightarrow> edit list" where
  "cx_edits c SideA = cx_edits_a c" | "cx_edits c SideB = cx_edits_b c"

fun cx_base_edits :: "merge_ctx \<Rightarrow> side \<Rightarrow> edit list" where
  "cx_base_edits c SideA = cx_base_edits_a c" | "cx_base_edits c SideB = cx_base_edits_b c"

section \<open>Levels, slices and gaps\<close>

record level =
  lv_units :: "munit list"
  lv_keys :: "key list"

text \<open>The unit at the position of a key: units and keys are aligned.\<close>

definition level_find :: "level \<Rightarrow> key \<Rightarrow> munit option" where
  "level_find l k = map_of (zip (lv_keys l) (lv_units l)) k"

definition slice :: "bytes \<Rightarrow> nat \<Rightarrow> nat \<Rightarrow> bytes" where
  "slice src from to =
     (let to = min to (length src); from = min from to
      in take (to - from) (drop from src))"

definition gap_text :: "merge_ctx \<Rightarrow> side \<Rightarrow> munit \<Rightarrow> bytes" where
  "gap_text c sd u = slice (cx_text c sd) (mu_gap u) (mu_start u)"

definition gap_on :: "merge_ctx \<Rightarrow> level \<Rightarrow> side \<Rightarrow> key \<Rightarrow> key option \<Rightarrow> bytes option" where
  "gap_on c l sd k prev =
     (case first_pos (\<lambda>x. x = k) (lv_keys l) of
        None \<Rightarrow> None
      | Some i \<Rightarrow>
          (let pred = (if i = 0 then None else Some (lv_keys l ! (i - 1)))
           in if pred = prev then Some (gap_text c sd (lv_units l ! i)) else None))"

text \<open>
  The last resort is the gap on the preferred side; the source panics when that side does not hold the
  unit, and only asks for a gap from a side that does.
\<close>

definition gap_before :: "merge_ctx \<Rightarrow> level \<Rightarrow> level \<Rightarrow> key \<Rightarrow> side \<Rightarrow> key option \<Rightarrow> bytes" where
  "gap_before c la lb k prefer prev =
     (let level_of = (\<lambda>sd. case sd of SideA \<Rightarrow> la | SideB \<Rightarrow> lb)
      in case gap_on c (level_of prefer) prefer k prev of
           Some g \<Rightarrow> g
         | None \<Rightarrow>
             (case gap_on c (level_of (side_other prefer)) (side_other prefer) k prev of
                Some g \<Rightarrow> g
              | None \<Rightarrow> gap_text c prefer (the (level_find (level_of prefer) k))))"

definition ascii_whitespace :: "u8 \<Rightarrow> bool" where
  "ascii_whitespace b \<longleftrightarrow> b = 32 \<or> b = 9 \<or> b = 10 \<or> b = 12 \<or> b = 13"

definition line_tail :: "bytes \<Rightarrow> bytes" where
  "line_tail out = rev (takeWhile (\<lambda>b. b \<noteq> 10) (rev out))"

definition push_gap :: "bytes \<Rightarrow> bytes \<Rightarrow> bytes" where
  "push_gap out gap =
     (if gap = [] \<and> out \<noteq> [] \<and> list_ex (\<lambda>b. \<not> ascii_whitespace b) (line_tail out) then out @ [10] else out) @ gap"

definition resolved_note :: "munit \<Rightarrow> rename_ref \<Rightarrow> string" where
  "resolved_note u r =
     mu_kind u @ '' '' @ mu_name u @ '': '' @ rn_from (snd r) @ '' renamed to '' @ rn_to (snd r)"

definition emit_leaf :: "merge_ctx \<Rightarrow> side \<Rightarrow> munit \<Rightarrow> bytes \<Rightarrow> merged \<Rightarrow> merged" where
  "emit_leaf c sd u gap m =
     (let (fixed, applied) = apply_edits (cx_text c sd) (mu_start u) (mu_end u) (cx_edits c sd)
      in m\<lparr>mg_text := push_gap (mg_text m) gap @ fixed,
           mg_resolved := mg_resolved m @ map (resolved_note u) applied\<rparr>)"

definition head_end :: "munit \<Rightarrow> nat" where
  "head_end u = (case mu_children u of [] \<Rightarrow> mu_end u | c # _ \<Rightarrow> mu_start c)"

definition unit_header :: "bytes \<Rightarrow> munit \<Rightarrow> bytes" where
  "unit_header src u = slice src (mu_start u) (head_end u)"

definition unit_footer :: "bytes \<Rightarrow> munit \<Rightarrow> bytes" where
  "unit_footer src u =
     slice src (if mu_children u = [] then mu_end u else mu_end (last (mu_children u))) (mu_end u)"

definition change_is_renames :: "merge_ctx \<Rightarrow> side \<Rightarrow> munit \<Rightarrow> munit \<Rightarrow> bool" where
  "change_is_renames c sd b0 u =
     (case cx_base c of
        None \<Rightarrow> False
      | Some base_text \<Rightarrow>
          (let (renamed, applied) = apply_edits base_text (mu_start b0) (mu_end b0) (cx_base_edits c sd)
           in applied \<noteq> [] \<and> renamed = slice (cx_text c sd) (mu_start u) (mu_end u)))"

section \<open>Collisions of names\<close>

definition added_collision :: "rename list \<Rightarrow> munit \<Rightarrow> string list" where
  "added_collision rens u =
     (case find (\<lambda>r. rn_to r = mu_name u) rens of
        None \<Rightarrow> []
      | Some r \<Rightarrow>
          [mu_kind u @ '' '' @ mu_name u @ '' (added on one side, '' @ rn_from r @ '' renamed to it on the other)''])"

definition in_base :: "munit list \<Rightarrow> eid \<Rightarrow> munit \<Rightarrow> bool" where
  "in_base base nid u = list_ex (\<lambda>x. mu_nid x \<noteq> nid \<and> mu_kind x = mu_kind u \<and> mu_name x = mu_name u) base"

fun elsewhere :: "eid \<Rightarrow> munit \<Rightarrow> munit list \<Rightarrow> key list \<Rightarrow> eid option" where
  "elsewhere nid u (x # xs) (KId oi # ks) =
     (if mu_kind x = mu_kind u \<and> mu_name x = mu_name u \<and> oi \<noteq> nid then Some oi else elsewhere nid u xs ks)"
| "elsewhere nid u (x # xs) (k # ks) = elsewhere nid u xs ks"
| "elsewhere nid u _ _ = None"

definition renamed_collision :: "level option \<Rightarrow> level \<Rightarrow> eid \<Rightarrow> munit \<Rightarrow> string list" where
  "renamed_collision base other nid u =
     (case base of
        None \<Rightarrow> []
      | Some bl \<Rightarrow>
          (case level_find bl (KId nid) of
             None \<Rightarrow> []
           | Some b0 \<Rightarrow>
               if mu_name u = mu_name b0 \<or> \<not> is_identifier (mu_name u) then []
               else if in_base (lv_units bl) nid u
               then [mu_kind u @ '' '' @ mu_name b0 @ '' (renamed to '' @ mu_name u @ '', which the base already defines)'']
               else (case elsewhere nid u (lv_units other) (lv_keys other) of
                       None \<Rightarrow> []
                     | Some oi \<Rightarrow>
                         [mu_kind u @ '' '' @ mu_name b0 @ '' (renamed to '' @ mu_name u @ '' on one side, '' @
                            (case level_find bl (KId oi) of Some x \<Rightarrow> mu_name x | None \<Rightarrow> '''') @
                            '' renamed to it on the other)''])))"

definition side_collisions :: "merge_ctx \<Rightarrow> level option \<Rightarrow> side \<Rightarrow> level \<Rightarrow> level \<Rightarrow> string list" where
  "side_collisions c base sd l other =
     concat (map (\<lambda>(u, k). case k of
                    KNew _ _ _ \<Rightarrow> added_collision (cx_renames c (side_other sd)) u
                  | KId nid \<Rightarrow> renamed_collision base other nid u)
               (zip (lv_units l) (lv_keys l)))"

section \<open>The choice for one unit\<close>

datatype merge_act = Nothing | Leaf_Of side munit | Container_Of "munit option" munit munit

definition changed :: "munit \<Rightarrow> munit \<Rightarrow> bool" where
  "changed b0 x \<longleftrightarrow> mu_body x \<noteq> mu_body b0 \<or> mu_name x \<noteq> mu_name b0"

definition deleted_changed :: "munit \<Rightarrow> string" where
  "deleted_changed x = mu_kind x @ '' '' @ mu_name x @ '' (deleted on one side, changed on the other)''"

definition choice_new :: "munit \<Rightarrow> munit \<Rightarrow> string list \<times> merge_act" where
  "choice_new x y =
     (if mu_body x = mu_body y then ([], Leaf_Of SideA x)
      else if mu_children x \<noteq> [] \<and> mu_children y \<noteq> [] then ([], Container_Of None x y)
      else ([mu_kind x @ '' '' @ mu_name x], Leaf_Of SideA x))"

definition choice_both :: "merge_ctx \<Rightarrow> munit \<Rightarrow> munit \<Rightarrow> munit \<Rightarrow> string list \<times> merge_act" where
  "choice_both c b0 x y =
     (if mu_body x = mu_body y \<and> mu_name x = mu_name y then ([], Leaf_Of SideA x)
      else if mu_name x \<noteq> mu_name b0 \<and> mu_name y \<noteq> mu_name b0 \<and> mu_name x \<noteq> mu_name y
      then ([mu_kind b0 @ '' '' @ mu_name b0 @ '' (renamed to '' @ mu_name x @ '' on one side and '' @
               mu_name y @ '' on the other)''], Leaf_Of SideA x)
      else if change_is_renames c SideA b0 x then ([], Leaf_Of SideB y)
      else if change_is_renames c SideB b0 y then ([], Leaf_Of SideA x)
      else if mu_children x \<noteq> [] \<and> mu_children y \<noteq> [] \<and> mu_children b0 \<noteq> []
      then ([], Container_Of (Some b0) x y)
      else ([mu_kind b0 @ '' '' @ mu_name b0 @
               (if mu_name x \<noteq> mu_name b0 \<or> mu_name y \<noteq> mu_name b0
                then '' (renamed on one side, changed on the other)'' else '''')], Leaf_Of SideA x))"

definition choice_held :: "merge_ctx \<Rightarrow> munit \<Rightarrow> munit \<Rightarrow> munit \<Rightarrow> string list \<times> merge_act" where
  "choice_held c b0 x y =
     (case (changed b0 x, changed b0 y) of
        (False, False) \<Rightarrow>
          (let base_text = (case cx_base c of Some t \<Rightarrow> slice t (mu_start b0) (mu_end b0) | None \<Rightarrow> [])
           in if slice (cx_a c) (mu_start x) (mu_end x) \<noteq> base_text then ([], Leaf_Of SideA x)
              else ([], Leaf_Of SideB y))
      | (True, False) \<Rightarrow> ([], Leaf_Of SideA x)
      | (False, True) \<Rightarrow> ([], Leaf_Of SideB y)
      | (True, True) \<Rightarrow> choice_both c b0 x y)"

definition merge_choice :: "merge_ctx \<Rightarrow> munit option \<Rightarrow> munit option \<Rightarrow> munit option \<Rightarrow> string list \<times> merge_act" where
  "merge_choice c bu au bbu =
     (case (bu, au, bbu) of
        (_, None, None) \<Rightarrow> ([], Nothing)
      | (None, Some x, None) \<Rightarrow> ([], Leaf_Of SideA x)
      | (None, None, Some y) \<Rightarrow> ([], Leaf_Of SideB y)
      | (None, Some x, Some y) \<Rightarrow> choice_new x y
      | (Some b0, None, Some y) \<Rightarrow>
          if changed b0 y then ([deleted_changed y], Leaf_Of SideB y) else ([], Nothing)
      | (Some b0, Some x, None) \<Rightarrow>
          if changed b0 x then ([deleted_changed x], Leaf_Of SideA x) else ([], Nothing)
      | (Some b0, Some x, Some y) \<Rightarrow> choice_held c b0 x y)"

section \<open>Levels and containers\<close>

definition add_conflicts :: "string list \<Rightarrow> merged \<Rightarrow> merged" where
  "add_conflicts cs m = m\<lparr>mg_conflicts := mg_conflicts m @ cs\<rparr>"

definition base_level_of :: "munit list option \<Rightarrow> level option" where
  "base_level_of base = map_option (\<lambda>us. \<lparr>lv_units = us, lv_keys = map (\<lambda>x. KId (mu_nid x)) us\<rparr>) base"

definition base_keys_of :: "munit list option \<Rightarrow> key list" where
  "base_keys_of base = (case base of None \<Rightarrow> [] | Some us \<Rightarrow> map (\<lambda>x. KId (mu_nid x)) us)"

definition find_base :: "level option \<Rightarrow> key \<Rightarrow> munit option" where
  "find_base bl k = (case bl of None \<Rightarrow> None | Some l \<Rightarrow> level_find l k)"

text \<open>The header of a container that both sides changed comes from the side that changed it.\<close>

definition head_side :: "merge_ctx \<Rightarrow> munit option \<Rightarrow> munit \<Rightarrow> side" where
  "head_side c base x =
     (case (base, cx_base c) of
        (Some b, Some t) \<Rightarrow> if unit_header (cx_a c) x = unit_header t b then SideB else SideA
      | _ \<Rightarrow> SideA)"

definition foot_text :: "merge_ctx \<Rightarrow> munit option \<Rightarrow> munit \<Rightarrow> munit \<Rightarrow> bytes" where
  "foot_text c base x y =
     (case (base, cx_base c) of
        (Some b, Some t) \<Rightarrow>
          if unit_footer (cx_a c) x = unit_footer t b then unit_footer (cx_b c) y else unit_footer (cx_a c) x
      | _ \<Rightarrow> unit_footer (cx_a c) x)"

definition emit_header :: "merge_ctx \<Rightarrow> munit option \<Rightarrow> munit \<Rightarrow> munit \<Rightarrow> bytes \<Rightarrow> bytes \<Rightarrow> merged \<Rightarrow> merged" where
  "emit_header c base x y gap_a gap_b m =
     (let sd = head_side c base x;
          (head_unit, gap) = (case sd of SideA \<Rightarrow> (x, gap_a) | SideB \<Rightarrow> (y, gap_b));
          (head, applied) = apply_edits (cx_text c sd) (mu_start head_unit) (head_end head_unit) (cx_edits c sd)
      in m\<lparr>mg_text := push_gap (mg_text m) gap @ head,
           mg_resolved := mg_resolved m @ map (resolved_note x) applied\<rparr>)"

definition sides_of :: "merge_ctx \<Rightarrow> munit list option \<Rightarrow> munit list \<Rightarrow> munit list \<Rightarrow> level \<times> level" where
  "sides_of c base a b =
     (\<lparr>lv_units = a, lv_keys = unit_keys base a (cx_recorded c SideA)\<rparr>,
      \<lparr>lv_units = b, lv_keys = unit_keys base b (cx_recorded c SideB)\<rparr>)"

lemma level_find_in: "level_find l k = Some x \<Longrightarrow> x \<in> set (lv_units l)"
  by (auto simp: level_find_def dest!: map_of_SomeD in_set_zipE)

lemma merge_choice_container:
  "merge_choice c bu au bbu = (cs, Container_Of bb x y) \<Longrightarrow> au = Some x \<and> bbu = Some y \<and> (bb = None \<or> bb = bu)"
  by (auto simp: merge_choice_def choice_new_def choice_held_def choice_both_def Let_def split: option.splits if_splits bool.splits)

lemma munit_children_size: "size_list size (mu_children u) < size u"
  by (cases u) simp

function merge_level ::
    "merge_ctx \<Rightarrow> munit list option \<Rightarrow> munit list \<Rightarrow> munit list \<Rightarrow> merged \<Rightarrow> merged"
  and merge_keys ::
    "merge_ctx \<Rightarrow> level option \<Rightarrow> level \<Rightarrow> level \<Rightarrow> key list \<Rightarrow> key option \<Rightarrow> merged \<Rightarrow> merged"
  and merge_container ::
    "merge_ctx \<Rightarrow> munit option \<Rightarrow> munit \<Rightarrow> munit \<Rightarrow> bytes \<Rightarrow> bytes \<Rightarrow> merged \<Rightarrow> merged" where
  "merge_level c base a b m =
     (let la = fst (sides_of c base a b); lb = snd (sides_of c base a b); bl = base_level_of base
      in merge_keys c bl la lb (ordered_keys (base_keys_of base) (lv_keys la) (lv_keys lb)) None
           (add_conflicts (side_collisions c bl SideA la lb @ side_collisions c bl SideB lb la) m))"
| "merge_keys c bl la lb [] prev m = m"
| "merge_keys c bl la lb (k # ks) prev m =
     (let (cs, act) = merge_choice c (find_base bl k) (level_find la k) (level_find lb k);
          m0 = add_conflicts cs m;
          m1 = (case act of
                  Nothing \<Rightarrow> m0
                | Leaf_Of sd u \<Rightarrow> emit_leaf c sd u (gap_before c la lb k sd prev) m0
                | Container_Of bb x y \<Rightarrow>
                    merge_container c bb x y (gap_before c la lb k SideA prev) (gap_before c la lb k SideB prev) m0)
      in merge_keys c bl la lb ks (if length (mg_text m1) = length (mg_text m) then prev else Some k) m1)"
| "merge_container c bb x y gap_a gap_b m =
     (let m = merge_level c (map_option mu_children bb) (mu_children x) (mu_children y)
                (emit_header c bb x y gap_a gap_b m)
      in m\<lparr>mg_text := mg_text m @ foot_text c bb x y\<rparr>)"
  by pat_completeness auto

termination
  by (relation "measures
    [\<lambda>s. case s of Inl (c, base, a, b, m) \<Rightarrow> size_list size a
       | Inr (Inl (c, bl, la, lb, ks, prev, m)) \<Rightarrow> size_list size (lv_units la)
       | Inr (Inr (c, bb, x, y, ga, gb, m)) \<Rightarrow> size x,
     \<lambda>s. case s of Inl _ \<Rightarrow> 1 | _ \<Rightarrow> 0,
     \<lambda>s. case s of Inr (Inl (c, bl, la, lb, ks, prev, m)) \<Rightarrow> length ks | _ \<Rightarrow> 0]")
    (auto simp: sides_of_def munit_children_size dest!: merge_choice_container sym [of "(_, _)"] intro!: size_list_less dest: level_find_in)

declare merge_level.simps [simp del] merge_keys.simps [simp del] merge_container.simps [simp del]

section \<open>The merge of a file\<close>

definition inferred_renames :: "string \<Rightarrow> node list \<Rightarrow> node list \<Rightarrow> (eid \<times> rename) list" where
  "inferred_renames path before after =
     concat (map (\<lambda>n.
       (case map_of (rev (map (\<lambda>x. (node_nid x, x)) before)) (node_nid n) of
          None \<Rightarrow> []
        | Some b0 \<Rightarrow>
            if node_name b0 \<noteq> node_name n \<and> is_identifier (node_name b0) \<and> is_identifier (node_name n)
            then [(node_nid n, \<lparr>rn_from = node_name b0, rn_to = node_name n, rn_path = Some path\<rparr>)]
            else []))
       after)"

definition all_renames :: "(eid \<times> rename) list \<Rightarrow> rename list \<Rightarrow> rename list" where
  "all_renames inferred recorded =
     fold (\<lambda>r out. if list_ex (\<lambda>x. rn_from x = rn_from r \<and> rn_to x = rn_to r) out then out else out @ [r])
       recorded (map snd inferred)"

definition edits_in :: "parser \<Rightarrow> language option \<Rightarrow> bytes option \<Rightarrow> rename list \<Rightarrow> edit list" where
  "edits_in parse lang src rens =
     (case (lang, src) of (Some l, Some t) \<Rightarrow> rename_edits parse l t rens | _ \<Rightarrow> [])"

definition file_ctx ::
  "parser \<Rightarrow> language option \<Rightarrow> file_nodes option \<Rightarrow> file_nodes \<Rightarrow> file_nodes \<Rightarrow> rename list \<Rightarrow> rename list \<Rightarrow> merge_ctx" where
  "file_ctx parse lang base a b ops_a ops_b =
     (let base_nodes = (case base of None \<Rightarrow> [] | Some f \<Rightarrow> fl_nodes f);
          ren_a = all_renames (inferred_renames [] base_nodes (fl_nodes a)) ops_a;
          ren_b = all_renames (inferred_renames [] base_nodes (fl_nodes b)) ops_b
      in \<lparr>cx_base = map_option fl_text base, cx_a = fl_text a, cx_b = fl_text b,
          cx_ren_a = ren_a, cx_ren_b = ren_b, cx_ops_a = ops_a, cx_ops_b = ops_b,
          cx_edits_a = edits_in parse lang (Some (fl_text a)) ren_b,
          cx_edits_b = edits_in parse lang (Some (fl_text b)) ren_a,
          cx_base_edits_a = edits_in parse lang (map_option fl_text base) ren_a,
          cx_base_edits_b = edits_in parse lang (map_option fl_text base) ren_b\<rparr>)"

definition tail_text :: "bytes \<Rightarrow> munit list \<Rightarrow> bytes" where
  "tail_text src us = drop (min (if us = [] then 0 else mu_end (last us)) (length src)) src"

definition merged_empty :: merged where
  "merged_empty = \<lparr>mg_text = [], mg_conflicts = [], mg_resolved = []\<rparr>"

definition chosen_tail :: "(bytes \<times> munit list) option \<Rightarrow> bytes \<times> munit list \<Rightarrow> bytes \<times> munit list \<Rightarrow> bytes" where
  "chosen_tail base a b =
     (case base of
        Some t \<Rightarrow> if tail_text (fst a) (snd a) = tail_text (fst t) (snd t) then tail_text (fst b) (snd b)
                  else tail_text (fst a) (snd a)
      | None \<Rightarrow> tail_text (fst a) (snd a))"

text \<open>The merge once the units are built.\<close>

definition merge_units :: "merge_ctx \<Rightarrow> munit list option \<Rightarrow> munit list \<Rightarrow> munit list \<Rightarrow> merged" where
  "merge_units c bu au bbu =
     (let m = merge_level c bu au bbu merged_empty
      in m\<lparr>mg_text := mg_text m @
             chosen_tail (case (cx_base c, bu) of (Some t, Some us) \<Rightarrow> Some (t, us) | _ \<Rightarrow> None)
               (cx_a c, au) (cx_b c, bbu)\<rparr>)"

definition merge_file ::
  "parser \<Rightarrow> language option \<Rightarrow> file_nodes option \<Rightarrow> file_nodes \<Rightarrow> file_nodes \<Rightarrow> rename list \<Rightarrow> rename list \<Rightarrow> merged res" where
  "merge_file parse lang base a b ops_a ops_b =
     rbind (case base of None \<Rightarrow> Inr None | Some f \<Rightarrow> rbind (build_units (fl_nodes f)) (\<lambda>us. Inr (Some us))) (\<lambda>bu.
     rbind (build_units (fl_nodes a)) (\<lambda>au.
     rbind (build_units (fl_nodes b)) (\<lambda>bbu.
     Inr (merge_units (file_ctx parse lang base a b ops_a ops_b) bu au bbu))))"

end
