(* ===== verification/Merge_Order.thy ===== *)
theory Merge_Order
  imports Merge_Keys
begin

text \<open>
  The order of a merged level and the keys of a side: every key appears once, the base keeps its order
  and so does a side that did not reorder; the keys of a side are distinct and a unit that carries the
  id of a base unit meets it.
\<close>

section \<open>Order\<close>

definition insert_at :: "nat \<Rightarrow> 'a \<Rightarrow> 'a list \<Rightarrow> 'a list" where
  "insert_at i x xs = take i xs @ x # drop i xs"

lemma set_insert_at [simp]: "set (insert_at i x xs) = insert x (set xs)"
  by (simp add: insert_at_def) (metis append_take_drop_id set_append)

lemma distinct_insert_at: "distinct xs \<Longrightarrow> x \<notin> set xs \<Longrightarrow> distinct (insert_at i x xs)"
  by (auto simp: insert_at_def set_take_disj_set_drop_if_distinct dest: in_set_takeD in_set_dropD)

lemma filter_insert_at: "\<not> P x \<Longrightarrow> filter P (insert_at i x xs) = filter P xs"
  by (simp add: insert_at_def) (metis append_take_drop_id filter_append)

lemma order_step_cases:
  obtains (present) "k \<in> set result" "order_step base k (result, prev) = (result, Some k)"
  | (absent) i where "k \<notin> set result" "order_step base k (result, prev) = (insert_at i k result, Some k)"
proof (cases "k \<in> set result")
  case True
  then show thesis using present by (simp add: order_step_def)
next
  case False
  then show thesis using absent by (auto simp: order_step_def insert_at_def Let_def)
qed

lemma set_order_step: "set (fst (order_step base k s)) = insert k (set (fst s))"
  by (cases s) (rule order_step_cases [of k "fst s" base "snd s"]; auto)

lemma distinct_order_step: "distinct (fst s) \<Longrightarrow> distinct (fst (order_step base k s))"
  by (cases s) (rule order_step_cases [of k "fst s" base "snd s"]; auto intro: distinct_insert_at)

lemma filter_order_step:
  "(P k \<Longrightarrow> k \<in> set (fst s)) \<Longrightarrow> filter P (fst (order_step base k s)) = filter P (fst s)"
  by (cases s) (rule order_step_cases [of k "fst s" base "snd s"]; auto intro!: filter_insert_at)

lemma set_order_fold: "set (fst (fold (order_step base) ks s)) = set ks \<union> set (fst s)"
  by (induction ks arbitrary: s) (auto simp: set_order_step)

lemma distinct_order_fold: "distinct (fst s) \<Longrightarrow> distinct (fst (fold (order_step base) ks s))"
  by (induction ks arbitrary: s) (auto simp: distinct_order_step)

lemma filter_order_fold:
  "(\<And>k. k \<in> set ks \<Longrightarrow> P k \<Longrightarrow> k \<in> set (fst s)) \<Longrightarrow> filter P (fst (fold (order_step base) ks s)) = filter P (fst s)"
proof (induction ks arbitrary: s)
  case (Cons k ks)
  have "filter P (fst (fold (order_step base) ks (order_step base k s))) = filter P (fst (order_step base k s))"
    using Cons.prems by (intro Cons.IH) (auto simp: set_order_step)
  also have "\<dots> = filter P (fst s)"
    using Cons.prems by (intro filter_order_step) auto
  finally show ?case by simp
qed simp

lemma set_order_side [simp]: "set (order_side base ks result) = set ks \<union> set result"
  by (simp add: order_side_def set_order_fold)

lemma distinct_order_side: "distinct result \<Longrightarrow> distinct (order_side base ks result)"
  by (simp add: order_side_def distinct_order_fold)

lemma filter_order_side:
  "(\<And>k. k \<in> set ks \<Longrightarrow> P k \<Longrightarrow> k \<in> set result) \<Longrightarrow> filter P (order_side base ks result) = filter P result"
  by (simp add: order_side_def filter_order_fold)

text \<open>Two lists agree when they have their common elements in the same order.\<close>

definition agrees :: "'a list \<Rightarrow> 'a list \<Rightarrow> bool" where
  "agrees xs ys \<longleftrightarrow> filter (\<lambda>x. x \<in> set ys) xs = filter (\<lambda>y. y \<in> set xs) ys"

lemma agrees_refl [simp]: "agrees xs xs"
  by (simp add: agrees_def)

lemma first_pos_append:
  "\<lbrakk>\<forall>x \<in> set xs. \<not> P x; P y\<rbrakk> \<Longrightarrow> first_pos P (xs @ y # ys) = Some (length xs)"
  by (induction xs) auto

lemma first_pos_None: "first_pos P xs = None \<longleftrightarrow> (\<forall>x \<in> set xs. \<not> P x)"
  by (induction xs) auto

lemma first_pos_SomeD: "first_pos P xs = Some i \<Longrightarrow> i < length xs \<and> P (xs ! i)"
  by (induction xs arbitrary: i) (auto split: if_splits)

lemma filter_takeWhile_none:
  assumes "\<And>x. x \<in> set xs \<Longrightarrow> P x \<Longrightarrow> \<not> Q x"
  shows "filter P (take (length (takeWhile Q xs)) xs) = []"
    and "filter P (drop (length (takeWhile Q xs)) xs) = filter P xs"
proof -
  have a: "take (length (takeWhile Q xs)) xs = takeWhile Q xs" by (rule takeWhile_eq_take [symmetric])
  have b: "drop (length (takeWhile Q xs)) xs = dropWhile Q xs" by (rule dropWhile_eq_drop [symmetric])
  show 1: "filter P (take (length (takeWhile Q xs)) xs) = []"
    unfolding a using assms by (auto simp: filter_empty_conv dest: set_takeWhileD)
  show "filter P (drop (length (takeWhile Q xs)) xs) = filter P xs"
    using 1 unfolding a b by (metis append_Nil filter_append takeWhile_dropWhile_id)
qed

text \<open>One step keeps the side in order: the keys done so far come first, then those still to come.\<close>

definition in_order :: "key list \<Rightarrow> key list \<Rightarrow> key list \<Rightarrow> key list \<Rightarrow> bool" where
  "in_order side past todo result \<longleftrightarrow>
     filter (\<lambda>k. k \<in> set side) result = past @ filter (\<lambda>k. k \<in> set result) todo"

lemma order_step_in_order:
  assumes side: "side = past @ k # todo" and dist: "distinct side" "distinct result"
    and ord: "in_order side past (k # todo) result"
    and todo: "set todo \<inter> set result \<subseteq> set base"
    and prev: "prev = (if past = [] then None else Some (last past))"
  shows "in_order side (past @ [k]) todo (fst (order_step base k (result, prev)))"
    and "snd (order_step base k (result, prev)) = Some k"
proof -
  let ?P = "\<lambda>x. x \<in> set side"
  let ?res = "\<lambda>r. filter (\<lambda>x. x \<in> set r)"
  show "snd (order_step base k (result, prev)) = Some k"
    by (rule order_step_cases [of k result base prev]) auto
  show "in_order side (past @ [k]) todo (fst (order_step base k (result, prev)))"
  proof (cases "k \<in> set result")
    case True
    with ord show ?thesis by (simp add: in_order_def order_step_def)
  next
    case False
    have ord': "filter ?P result = past @ ?res result todo" using ord False by (simp add: in_order_def)
    define p where "p = (case prev of None \<Rightarrow> 0
       | Some q \<Rightarrow> (case first_pos (\<lambda>x. x = q) result of Some i \<Rightarrow> i + 1 | None \<Rightarrow> length result))"
    have split: "filter ?P (take p result) = past \<and> filter ?P (drop p result) = ?res result todo"
    proof (cases "past = []")
      case True
      then show ?thesis using prev ord' by (simp add: p_def)
    next
      case nonempty: False
      have "last past \<in> set (filter ?P result)" using nonempty ord' by simp
      then obtain xs ys where r: "result = xs @ last past # ys" by (auto dest: split_list)
      with dist have q: "last past \<notin> set xs" "last past \<notin> set ys" by auto
      have p: "p = length xs + 1"
      proof -
        have "\<forall>x \<in> set xs. \<not> x = last past" using q by auto
        from first_pos_append [OF this refl] show ?thesis using nonempty prev r by (simp add: p_def)
      qed
      have "filter ?P xs @ last past # filter ?P ys = butlast past @ last past # ?res result todo"
        using ord' r nonempty side by (cases past rule: rev_cases) auto
      moreover have "last past \<notin> set (butlast past)"
        using dist(1) side nonempty by (cases past rule: rev_cases) auto
      ultimately have "filter ?P xs = butlast past" "filter ?P ys = ?res result todo"
        using q append_Cons_eq_iff [of "last past" "filter ?P xs" "filter ?P ys"] by auto
      with p r nonempty side show ?thesis by (cases past rule: rev_cases) auto
    qed
    let ?w = "length (takeWhile (\<lambda>x. x \<notin> set base) (drop p result))"
    have rest: "\<not> x \<notin> set base" if "x \<in> set (drop p result)" "?P x" for x
    proof -
      have "x \<in> set (filter ?P (drop p result))" using that by simp
      then have "x \<in> set todo \<inter> set result" using split by auto
      with todo show ?thesis by auto
    qed
    have new: "fst (order_step base k (result, prev)) = take (p + ?w) result @ k # drop (p + ?w) result"
      using False by (simp add: order_step_def p_def Let_def)
    note skip = filter_takeWhile_none [of "drop p result" ?P "\<lambda>x. x \<notin> set base", OF rest]
    have "filter ?P (take (p + ?w) result) = past"
      using split skip(1) by (simp add: take_add)
    moreover have "filter ?P (drop (p + ?w) result) = ?res result todo"
      using split skip(2) by (simp add: add.commute [of p])
    moreover have "?res (take (p + ?w) result @ k # drop (p + ?w) result) todo = ?res result todo"
    proof (rule filter_cong [OF refl])
      fix x assume "x \<in> set todo"
      then have "x \<noteq> k" using dist(1) side by auto
      then show "x \<in> set (take (p + ?w) result @ k # drop (p + ?w) result) \<longleftrightarrow> x \<in> set result"
        using set_insert_at [of "p + ?w" k result] unfolding insert_at_def by auto
    qed
    ultimately show ?thesis unfolding in_order_def new using side by simp
  qed
qed

lemma order_fold_in_order:
  assumes "side = past @ todo" and "distinct side" "distinct result"
    and "in_order side past todo result" and "set todo \<inter> set result \<subseteq> set base"
    and "prev = (if past = [] then None else Some (last past))"
  shows "filter (\<lambda>k. k \<in> set side) (fst (fold (order_step base) todo (result, prev))) = side"
  using assms
proof (induction todo arbitrary: past result prev)
  case Nil
  then show ?case by (simp add: in_order_def)
next
  case (Cons k todo)
  have todo: "set todo \<inter> set result \<subseteq> set base" using Cons.prems(5) by auto
  let ?r = "fst (order_step base k (result, prev))"
  note one = order_step_in_order [OF Cons.prems(1-4) todo Cons.prems(6)]
  have "filter (\<lambda>k. k \<in> set side) (fst (fold (order_step base) todo (?r, Some k))) = side"
  proof (rule Cons.IH)
    show "distinct ?r" using distinct_order_step [of "(result, prev)"] Cons.prems(3) by simp
    show "set todo \<inter> set ?r \<subseteq> set base"
      using todo Cons.prems(1,2) by (auto simp: set_order_step)
  qed (use Cons.prems(1,2) one(1) in auto)
  moreover have "order_step base k (result, prev) = (?r, Some k)" using one(2) by (simp add: prod_eq_iff)
  ultimately show ?case by simp
qed

lemma order_side_keeps_side:
  assumes "distinct side" "distinct result" "agrees side result" "set side \<inter> set result \<subseteq> set base"
  shows "filter (\<lambda>k. k \<in> set side) (order_side base side result) = side"
  unfolding order_side_def
  by (rule order_fold_in_order [of side "[]" side]) (use assms in \<open>auto simp: in_order_def agrees_def\<close>)

section \<open>The merged order\<close>

lemma agrees_after_side:
  assumes "agrees b base" and "set a \<inter> set b \<subseteq> set base"
  shows "agrees b (order_side base a base)"
proof -
  have "filter (\<lambda>y. y \<in> set b) (order_side base a base) = filter (\<lambda>y. y \<in> set b) base"
    using assms(2) by (intro filter_order_side) auto
  moreover have "filter (\<lambda>x. x \<in> set a \<union> set base) b = filter (\<lambda>x. x \<in> set base) b"
    using assms(2) by (intro filter_cong) auto
  ultimately show ?thesis using assms(1) by (simp add: agrees_def)
qed

lemma ordered_keys_set: "set (ordered_keys base a b) = set base \<union> set a \<union> set b"
  by (auto simp: ordered_keys_def)

lemma ordered_keys_distinct: "distinct base \<Longrightarrow> distinct (ordered_keys base a b)"
  by (simp add: ordered_keys_def distinct_order_side)

lemma ordered_keys_base: "filter (\<lambda>k. k \<in> set base) (ordered_keys base a b) = base"
  by (simp add: ordered_keys_def filter_order_side)

lemma ordered_keys_a:
  assumes "distinct base" "distinct a" "agrees a base"
  shows "filter (\<lambda>k. k \<in> set a) (ordered_keys base a b) = a"
  using assms by (simp add: ordered_keys_def filter_order_side order_side_keeps_side)

lemma ordered_keys_b:
  assumes "distinct base" "distinct b" "agrees b base" "set a \<inter> set b \<subseteq> set base"
  shows "filter (\<lambda>k. k \<in> set b) (ordered_keys base a b) = b"
  unfolding ordered_keys_def
  by (rule order_side_keeps_side) (use assms agrees_after_side in \<open>auto simp: distinct_order_side\<close>)

lemma kept_agrees:
  assumes "filter (\<lambda>k. k \<in> set xs) ks = xs" "filter (\<lambda>k. k \<in> set ys) ks = ys"
  shows "agrees xs ys"
proof -
  have "filter (\<lambda>k. k \<in> set ys) xs = filter (\<lambda>k. k \<in> set ys) (filter (\<lambda>k. k \<in> set xs) ks)" using assms(1) by simp
  also have "\<dots> = filter (\<lambda>k. k \<in> set xs) (filter (\<lambda>k. k \<in> set ys) ks)" by (simp add: conj_commute)
  also have "\<dots> = filter (\<lambda>k. k \<in> set xs) ys" using assms(2) by simp
  finally show ?thesis by (simp add: agrees_def)
qed

lemma ordered_keys_a_iff:
  "distinct base \<Longrightarrow> distinct a \<Longrightarrow> filter (\<lambda>k. k \<in> set a) (ordered_keys base a b) = a \<longleftrightarrow> agrees a base"
  using kept_agrees [OF _ ordered_keys_base, of a] ordered_keys_a by blast

lemma ordered_keys_b_iff:
  "distinct base \<Longrightarrow> distinct b \<Longrightarrow> set a \<inter> set b \<subseteq> set base \<Longrightarrow>
   filter (\<lambda>k. k \<in> set b) (ordered_keys base a b) = b \<longleftrightarrow> agrees b base"
  using kept_agrees [OF _ ordered_keys_base, of b] ordered_keys_b by blast

text \<open>C28: The merged level holds every key of the base and of both sides once, and the base keeps its order. The
  first side keeps its order exactly when it did not reorder units of the base, whatever the second side
  did. The second side keeps its order exactly when it did not reorder units of the base, provided the
  two sides added no key in common; keys that both sides added come out in the order of the first side
  (\<open>first_side_orders_added\<close>).\<close>

theorem merged_order:
  assumes "distinct base" "distinct a" "distinct b"
  shows "distinct (ordered_keys base a b) \<and>
    set (ordered_keys base a b) = set base \<union> set a \<union> set b \<and>
    filter (\<lambda>k. k \<in> set base) (ordered_keys base a b) = base \<and>
    (filter (\<lambda>k. k \<in> set a) (ordered_keys base a b) = a \<longleftrightarrow> agrees a base) \<and>
    (set a \<inter> set b \<subseteq> set base \<longrightarrow> (filter (\<lambda>k. k \<in> set b) (ordered_keys base a b) = b \<longleftrightarrow> agrees b base))"
  using assms by (simp add: ordered_keys_set ordered_keys_distinct ordered_keys_base ordered_keys_a_iff ordered_keys_b_iff)

end
