(* ===== verification/Key_Props.thy ===== *)
theory Key_Props
  imports Merge_Order
begin

text \<open>
  The keys of a side. The passes fill slots, one per unit of the side, with units of the base that are
  not taken yet; a slot that is filled stays, and no unit of the base is taken twice.
\<close>

section \<open>Slots\<close>

definition filled_once :: "'a option list \<Rightarrow> bool" where
  "filled_once out \<longleftrightarrow>
     (\<forall>i j. i < length out \<longrightarrow> j < length out \<longrightarrow> out ! i \<noteq> None \<longrightarrow> out ! i = out ! j \<longrightarrow> i = j)"

lemma filled_once_update:
  assumes "filled_once out" and "\<And>j. j < length out \<Longrightarrow> out ! j \<noteq> x"
  shows "filled_once (out[i := x])"
  unfolding filled_once_def
proof (intro allI impI)
  fix j l assume "j < length (out[i := x])" "l < length (out[i := x])" "out[i := x] ! j \<noteq> None" "out[i := x] ! j = out[i := x] ! l"
  with assms show "j = l"
    unfolding filled_once_def by (cases "j = i"; cases "l = i") (metis length_list_update nth_list_update_eq nth_list_update_neq)+
qed

text \<open>Why a unit may meet a base unit: its id, a recorded rename, or kind and name.\<close>

definition meets :: "rename list \<Rightarrow> munit \<Rightarrow> munit \<Rightarrow> bool" where
  "meets rs u b0 \<longleftrightarrow> mu_nid u = mu_nid b0 \<or> same_name b0 u \<or>
     (\<exists>r \<in> set rs. mu_name b0 = rn_from r \<and> mu_name u = rn_to r \<and> mu_kind u = mu_kind b0)"

definition slots_ok :: "rename list \<Rightarrow> munit list \<Rightarrow> munit list \<Rightarrow> key_state \<Rightarrow> bool" where
  "slots_ok rs base side = (\<lambda>(out, taken).
     length out = length side \<and> length taken = length base \<and>
     (\<forall>i < length out. \<forall>k. out ! i = Some k \<longrightarrow>
        (\<exists>b < length base. taken ! b \<and> k = KId (mu_nid (base ! b)) \<and> meets rs (side ! i) (base ! b))) \<and>
     filled_once out)"

definition keeps :: "key option list \<Rightarrow> key option list \<Rightarrow> bool" where
  "keeps out out' \<longleftrightarrow> length out' = length out \<and> (\<forall>i < length out. out ! i \<noteq> None \<longrightarrow> out' ! i = out ! i)"

lemma keeps_refl [simp]: "keeps out out"
  by (simp add: keeps_def)

lemma keeps_trans: "keeps a b \<Longrightarrow> keeps b c \<Longrightarrow> keeps a c"
  by (simp add: keeps_def)

lemma keeps_update: "out ! i = None \<Longrightarrow> keeps out (out[i := x])"
  by (cases "i < length out") (auto simp: keeps_def nth_list_update)

lemma slots_assign:
  assumes "distinct (map mu_nid base)" "slots_ok rs base side (out, taken)"
    and "b < length base" "\<not> taken ! b" "i < length side" "meets rs (side ! i) (base ! b)"
  shows "slots_ok rs base side (out[i := Some (KId (mu_nid (base ! b)))], taken[b := True])"
proof -
  let ?k = "Some (KId (mu_nid (base ! b)))"
  have len: "length out = length side" "length taken = length base"
    and from_base: "\<And>j k. j < length out \<Longrightarrow> out ! j = Some k \<Longrightarrow>
      \<exists>c < length base. taken ! c \<and> k = KId (mu_nid (base ! c)) \<and> meets rs (side ! j) (base ! c)"
    and once: "filled_once out"
    using assms(2) by (auto simp: slots_ok_def)
  have fresh: "out ! j \<noteq> ?k" if j: "j < length out" for j
  proof
    assume "out ! j = ?k"
    from from_base [OF j this] obtain c where "c < length base" "taken ! c" "mu_nid (base ! b) = mu_nid (base ! c)" by auto
    with assms(1,3,4) show False using nth_eq_iff_index_eq [of "map mu_nid base" b c] by auto
  qed
  have "\<exists>c < length base. taken[b := True] ! c \<and> k = KId (mu_nid (base ! c)) \<and> meets rs (side ! j) (base ! c)"
    if "j < length out" "out[i := ?k] ! j = Some k" for j k
  proof (cases "j = i")
    case True
    with that assms(3,6) len show ?thesis by auto
  next
    case False
    with that from_base [of j k] obtain c where "c < length base" "taken ! c" "k = KId (mu_nid (base ! c))" "meets rs (side ! j) (base ! c)" by auto
    moreover have "taken[b := True] ! c" using calculation assms(3) len by (cases "c = b") (auto simp: nth_list_update)
    ultimately show ?thesis by blast
  qed
  then show ?thesis
    using len filled_once_update [OF once fresh] unfolding slots_ok_def by (auto simp only: length_list_update prod.case)
qed

lemma by_nid_Some: "by_nid base n = Some b \<Longrightarrow> b < length base \<and> mu_nid (base ! b) = n"
  by (auto simp: by_nid_def dest!: map_of_SomeD simp: set_zip)

lemma by_nid_None: "by_nid base n = None \<longleftrightarrow> n \<notin> mu_nid ` set base"
  by (simp add: by_nid_def map_of_eq_None_iff) (simp flip: set_map)

lemma by_nid_nth:
  assumes "distinct (map mu_nid base)" "b < length base"
  shows "by_nid base (mu_nid (base ! b)) = Some b"
proof -
  have "by_nid base (mu_nid (base ! b)) \<noteq> None" using assms(2) by (simp add: by_nid_None)
  then obtain c where c: "by_nid base (mu_nid (base ! b)) = Some c" by auto
  with by_nid_Some [OF c] assms have "c = b" by (auto simp: distinct_conv_nth)
  with c show ?thesis by simp
qed

section \<open>The passes\<close>

lemma id_step_ok:
  assumes "distinct (map mu_nid base)" "slots_ok rs base side s" "i < length side" "side ! i = u"
  shows "slots_ok rs base side (id_step base (i, u) s)"
  using assms slots_assign [OF assms(1)] by_nid_Some [of base "mu_nid u"]
  by (cases s) (fastforce simp: id_step_def meets_def split: option.splits)

lemma recorded_step_ok:
  assumes "distinct (map mu_nid base)" "slots_ok rs base side s" "r \<in> set rs"
  shows "slots_ok rs base side (recorded_step base side r s)" "keeps (fst s) (fst (recorded_step base side r s))"
proof -
  obtain out taken where s: "s = (out, taken)" by (cases s)
  have "slots_ok rs base side (recorded_step base side r s) \<and> keeps (fst s) (fst (recorded_step base side r s))"
  proof (cases "recorded_step base side r s = s")
    case False
    then obtain b i where b: "first_pos (\<lambda>u. mu_name u = rn_from r \<and> \<not> taken ! the (by_nid base (mu_nid u))) base = Some b"
      and i: "first_pos (\<lambda>(i, u). out ! i = None \<and> mu_name u = rn_to r \<and> mu_kind u = mu_kind (base ! b))
            (enumerate 0 side) = Some i"
      and new: "recorded_step base side r s = (out[i := Some (KId (mu_nid (base ! b)))], taken[b := True])"
      by (auto simp: s recorded_step_def split: option.splits if_splits)
    have b': "b < length base" "\<not> taken ! b" "mu_name (base ! b) = rn_from r"
      using first_pos_SomeD [OF b] by_nid_nth [OF assms(1)] by auto
    moreover have "i < length side" "out ! i = None" "mu_name (side ! i) = rn_to r" "mu_kind (side ! i) = mu_kind (base ! b)"
      using first_pos_SomeD [OF i] by (auto simp: nth_enumerate_eq)
    moreover from this(3,4) b'(3) assms(3) have "meets rs (side ! i) (base ! b)" by (auto simp: meets_def)
    ultimately show ?thesis using assms(2) slots_assign [OF assms(1)] unfolding new unfolding s by (simp add: keeps_update)
  qed (use assms in simp)
  then show "slots_ok rs base side (recorded_step base side r s)" "keeps (fst s) (fst (recorded_step base side r s))"
    by auto
qed

text \<open>Inside a group: candidates are units of the base that are not taken, each listed once.\<close>

definition group_ok :: "rename list \<Rightarrow> munit list \<Rightarrow> munit list \<Rightarrow> munit \<Rightarrow> nat list \<times> key_state \<Rightarrow> bool" where
  "group_ok rs base side u = (\<lambda>(candidates, out, taken).
     slots_ok rs base side (out, taken) \<and> distinct candidates \<and>
     (\<forall>b \<in> set candidates. b < length base \<and> \<not> taken ! b \<and> same_name (base ! b) u))"

lemma distinct_cut:
  assumes "distinct xs" "pos < length xs"
  shows "distinct (take pos xs @ drop (Suc pos) xs)" "set (take pos xs @ drop (Suc pos) xs) = set xs - {xs ! pos}"
proof -
  have xs: "xs = take pos xs @ xs ! pos # drop (Suc pos) xs" using assms(2) by (simp add: id_take_nth_drop)
  have "distinct (take pos xs @ xs ! pos # drop (Suc pos) xs)"
    and "set xs = set (take pos xs @ xs ! pos # drop (Suc pos) xs)"
    using assms(1) xs by simp_all
  then show "distinct (take pos xs @ drop (Suc pos) xs)" "set (take pos xs @ drop (Suc pos) xs) = set xs - {xs ! pos}"
    by auto
qed

lemma body_step_ok:
  assumes "distinct (map mu_nid base)" "group_ok rs base side u s" "j < length side" "same_name (side ! j) u"
  shows "group_ok rs base side u (body_step base side j s)"
proof -
  obtain cs out taken where s: "s = (cs, out, taken)" by (cases s)
  show ?thesis
  proof (cases "first_pos (\<lambda>b. mu_body (base ! b) = mu_body (side ! j)) cs")
    case None
    with assms(2) show ?thesis by (simp add: s body_step_def)
  next
    case (Some pos)
    then have pos: "pos < length cs" using first_pos_SomeD by blast
    let ?b = "cs ! pos"
    have b: "?b < length base" "\<not> taken ! ?b" and ok: "slots_ok rs base side (out, taken)"
      and meets: "meets rs (side ! j) (base ! ?b)"
      using assms(2,4) pos by (auto simp: s group_ok_def meets_def same_name_def)
    have new: "body_step base side j s =
        (take pos cs @ drop (Suc pos) cs, out[j := Some (KId (mu_nid (base ! ?b)))], taken[?b := True])"
      using Some by (simp add: s body_step_def Let_def)
    have dist: "distinct cs" and free: "\<And>b. b \<in> set cs \<Longrightarrow> b < length base \<and> \<not> taken ! b \<and> same_name (base ! b) u"
      using assms(2) by (auto simp: s group_ok_def)
    note cut = distinct_cut [OF dist pos]
    have "c < length base \<and> \<not> taken[?b := True] ! c \<and> same_name (base ! c) u" if "c \<in> set (take pos cs @ drop (Suc pos) cs)" for c
      using that free [of c] unfolding cut(2) by auto
    then show ?thesis
      unfolding new using slots_assign [OF assms(1) ok b assms(3) meets] cut(1) by (simp add: group_ok_def)
  qed
qed

lemma rest_step_ok:
  assumes "distinct (map mu_nid base)" "group_ok rs base side u s" "j < length side" "same_name (side ! j) u"
  shows "group_ok rs base side u (rest_step base j s)" "keeps (fst (snd s)) (fst (snd (rest_step base j s)))"
proof -
  obtain cs out taken where s: "s = (cs, out, taken)" by (cases s)
  have "group_ok rs base side u (rest_step base j s) \<and> keeps (fst (snd s)) (fst (snd (rest_step base j s)))"
  proof (cases "out ! j = None \<and> cs \<noteq> []")
    case True
    then obtain b rest where cs: "cs = b # rest" by (cases cs) auto
    with assms(2) have b: "b < length base" "\<not> taken ! b" and ok: "slots_ok rs base side (out, taken)"
      and rest: "distinct rest" "b \<notin> set rest" "\<forall>c \<in> set rest. c < length base \<and> \<not> taken ! c \<and> same_name (base ! c) u"
      and meets: "meets rs (side ! j) (base ! b)"
      using assms(4) by (auto simp: s group_ok_def meets_def same_name_def)
    have "\<forall>c \<in> set rest. \<not> taken[b := True] ! c" using rest by (metis nth_list_update_neq)
    then show ?thesis
      using True slots_assign [OF assms(1) ok b assms(3) meets] rest
      by (simp add: s cs rest_step_def group_ok_def keeps_update)
  next
    case False
    then have "rest_step base j s = s" by (auto simp: s rest_step_def split: list.splits)
    with assms(2) show ?thesis by simp
  qed
  then show "group_ok rs base side u (rest_step base j s)" "keeps (fst (snd s)) (fst (snd (rest_step base j s)))" by auto
qed

lemma body_fold_keeps:
  "\<lbrakk>distinct js; \<forall>j \<in> set js. out ! j = None\<rbrakk> \<Longrightarrow>
     keeps out (fst (snd (fold (body_step base side) js (cs, out, taken))))"
proof (induction js arbitrary: cs out taken)
  case (Cons j js)
  obtain cs' out' taken' where s: "body_step base side j (cs, out, taken) = (cs', out', taken')"
    by (cases "body_step base side j (cs, out, taken)")
  then have out': "out' = out \<or> (\<exists>x. out' = out[j := x])"
    by (auto simp: body_step_def Let_def split: option.splits)
  then have "keeps out out'" using Cons.prems by (auto simp: keeps_update)
  moreover have "\<forall>i \<in> set js. out' ! i = None"
    using out' Cons.prems by (metis distinct.simps(2) list.set_intros(2) nth_list_update_neq)
  ultimately show ?case
    using Cons.IH [of out' cs' taken'] Cons.prems keeps_trans [of out out'] by (simp add: s)
qed simp

lemma group_step_ok:
  assumes "distinct (map mu_nid base)" "slots_ok rs base side s"
  shows "slots_ok rs base side (group_step base side i s)" "keeps (fst s) (fst (group_step base side i s))"
proof -
  obtain out taken where s: "s = (out, taken)" by (cases s)
  define js where "js = filter (\<lambda>j. out ! j = None \<and> same_name (side ! j) (side ! i)) [i..<length side]"
  define cs where "cs = filter (\<lambda>b. \<not> taken ! b \<and> same_name (base ! b) (side ! i)) [0..<length base]"
  define mid where "mid = fold (body_step base side) js (cs, out, taken)"
  let ?u = "side ! i"
  have js: "distinct js" "\<forall>j \<in> set js. j < length side \<and> out ! j = None \<and> same_name (side ! j) ?u" by (auto simp: js_def)
  have "group_ok rs base side ?u (cs, out, taken)"
    using assms(2) by (auto simp: s cs_def group_ok_def)
  then have mid: "group_ok rs base side ?u mid"
    unfolding mid_def
    by (rule fold_invariant [where Q = "\<lambda>j. j < length side \<and> same_name (side ! j) ?u", rotated])
       (use js(2) body_step_ok [OF assms(1)] in auto)
  have "group_ok rs base side ?u (fold (rest_step base) js mid) \<and> keeps (fst (snd mid)) (fst (snd (fold (rest_step base) js mid)))"
    by (rule fold_invariant [where Q = "\<lambda>j. j < length side \<and> same_name (side ! j) ?u" and P = "\<lambda>s. group_ok rs base side ?u s \<and> keeps (fst (snd mid)) (fst (snd s))"])
       (use js(2) mid rest_step_ok [OF assms(1)] in \<open>auto intro: keeps_trans\<close>)
  moreover have "keeps out (fst (snd mid))" unfolding mid_def using body_fold_keeps js by blast
  moreover have "group_step base side i s = snd (fold (rest_step base) js mid)"
    by (simp add: s group_step_def js_def cs_def mid_def Let_def)
  ultimately show "slots_ok rs base side (group_step base side i s)" "keeps (fst s) (fst (group_step base side i s))"
    by (auto simp: s group_ok_def split: prod.splits intro: keeps_trans)
qed

definition initial_slots :: "munit list \<Rightarrow> munit list \<Rightarrow> key_state" where
  "initial_slots base side = (replicate (length side) None, replicate (length base) False)"

lemma initial_slots_ok: "slots_ok rs base side (initial_slots base side)"
  by (simp add: initial_slots_def slots_ok_def filled_once_def)

lemma id_pass_ok:
  assumes "distinct (map mu_nid base)"
  shows "slots_ok rs base side (fold (id_step base) (enumerate 0 side) (initial_slots base side))"
  by (rule fold_invariant [where Q = "\<lambda>(i, u). i < length side \<and> side ! i = u"])
     (use id_step_ok [OF assms] initial_slots_ok in \<open>auto simp: in_set_enumerate_eq\<close>)

lemma aligned_ok:
  assumes "distinct (map mu_nid base)"
  shows "slots_ok rs base side (aligned base side rs)"
    and "keeps (fst (fold (id_step base) (enumerate 0 side) (initial_slots base side))) (fst (aligned base side rs))"
proof -
  define s0 where "s0 = fold (id_step base) (enumerate 0 side) (initial_slots base side)"
  let ?P = "\<lambda>s. slots_ok rs base side s \<and> keeps (fst s0) (fst s)"
  define s1 where "s1 = fold (recorded_step base side) rs s0"
  have "?P s1" unfolding s1_def
    by (rule fold_invariant [where Q = "\<lambda>r. r \<in> set rs"])
       (use id_pass_ok [OF assms] recorded_step_ok [OF assms] in \<open>auto simp: s0_def intro: keeps_trans\<close>)
  then have "?P (fst (fold (name_step base side) [0..<length side] (s1, [])))"
    by (intro fold_invariant [where Q = "\<lambda>_. True" and P = "\<lambda>s. ?P (fst s)"])
       (use group_step_ok [OF assms] in \<open>auto simp: name_step_def Let_def intro: keeps_trans\<close>)
  then show "slots_ok rs base side (aligned base side rs)"
    and "keeps (fst (fold (id_step base) (enumerate 0 side) (initial_slots base side))) (fst (aligned base side rs))"
    by (auto simp: aligned_def Let_def s0_def s1_def initial_slots_def)
qed

section \<open>Additions\<close>

text \<open>
  The additions are numbered per kind and name: \<open>counts\<close> holds the highest number given so far.
\<close>

definition counted :: "key option list \<Rightarrow> (string \<times> string \<Rightarrow> nat option) \<Rightarrow> bool" where
  "counted out counts \<longleftrightarrow>
     (\<forall>i < length out. \<forall>kd nm n. out ! i = Some (KNew kd nm n) \<longrightarrow> (\<exists>c. counts (kd, nm) = Some c \<and> n \<le> c)) \<and>
     filled_once out"

lemma count_step_ok:
  assumes "counted out counts"
  shows "counted (fst (count_step side i (out, counts))) (snd (count_step side i (out, counts)))"
    and "keeps out (fst (count_step side i (out, counts)))"
    and "i < length out \<Longrightarrow> fst (count_step side i (out, counts)) ! i \<noteq> None"
proof -
  let ?kn = "(mu_kind (side ! i), mu_name (side ! i))"
  define n where "n = (case counts ?kn of None \<Rightarrow> 0 | Some c \<Rightarrow> c + 1)"
  let ?k = "Some (KNew (mu_kind (side ! i)) (mu_name (side ! i)) n)"
  have bound: "\<And>j kd nm m. j < length out \<Longrightarrow> out ! j = Some (KNew kd nm m) \<Longrightarrow> \<exists>c. counts (kd, nm) = Some c \<and> m \<le> c"
    and once: "filled_once out"
    using assms by (auto simp: counted_def)
  have fresh: "out ! j \<noteq> ?k" if "j < length out" for j
    using bound [OF that, of "mu_kind (side ! i)" "mu_name (side ! i)" n] by (auto simp: n_def)
  have step: "count_step side i (out, counts) =
      (if out ! i = None then (out[i := ?k], counts(?kn \<mapsto> n)) else (out, counts))"
    by (simp add: count_step_def n_def Let_def)
  have new: "counted (out[i := ?k]) (counts(?kn \<mapsto> n))"
  proof -
    have "\<exists>c. (counts(?kn \<mapsto> n)) (kd, nm) = Some c \<and> m \<le> c"
      if "j < length out" "out[i := ?k] ! j = Some (KNew kd nm m)" for j kd nm m
    proof (cases "j = i")
      case False
      with that bound [of j kd nm m] show ?thesis by (auto simp: n_def)
    qed (use that in auto)
    then show ?thesis
      using filled_once_update [OF once fresh] unfolding counted_def by (auto simp only: length_list_update)
  qed
  show "counted (fst (count_step side i (out, counts))) (snd (count_step side i (out, counts)))"
    using assms new by (simp add: step)
  show "keeps out (fst (count_step side i (out, counts)))"
    by (simp add: step keeps_update)
  show "i < length out \<Longrightarrow> fst (count_step side i (out, counts)) ! i \<noteq> None"
    by (simp add: step)
qed

lemma count_fold_ok:
  assumes "counted out counts"
  shows "counted (fst (fold (count_step side) js (out, counts))) (snd (fold (count_step side) js (out, counts))) \<and>
    keeps out (fst (fold (count_step side) js (out, counts))) \<and>
    (\<forall>i \<in> set js. i < length out \<longrightarrow> fst (fold (count_step side) js (out, counts)) ! i \<noteq> None)"
  using assms
proof (induction js arbitrary: out counts)
  case (Cons i is')
  obtain out' counts' where s: "count_step side i (out, counts) = (out', counts')" by (cases "count_step side i (out, counts)")
  note one = count_step_ok [OF Cons.prems, where side = side and i = i, unfolded s fst_conv snd_conv]
  from Cons.IH [OF one(1)] one(2,3) keeps_trans [OF one(2)] show ?case by (auto simp: s keeps_def)
qed simp

lemma count_fold_ids:
  "fst (fold (count_step side) js (out, counts)) ! j = Some (KId n) \<Longrightarrow> out ! j = Some (KId n)"
proof (induction js arbitrary: out counts)
  case (Cons i js)
  obtain out' counts' where s: "count_step side i (out, counts) = (out', counts')" by (cases "count_step side i (out, counts)")
  with Cons have "out' ! j = Some (KId n)" by simp
  with s show ?case
    by (cases "i = j"; cases "j < length out") (auto simp: count_step_def Let_def list_update_beyond split: if_splits)
qed simp

lemma count_fold_new:
  "fst (fold (count_step side) js (out, counts)) ! j = Some (KNew kd nm n) \<Longrightarrow>
     out ! j = Some (KNew kd nm n) \<or> kd = mu_kind (side ! j) \<and> nm = mu_name (side ! j)"
proof (induction js arbitrary: out counts)
  case (Cons i js)
  obtain out' counts' where s: "count_step side i (out, counts) = (out', counts')" by (cases "count_step side i (out, counts)")
  with Cons have "out' ! j = Some (KNew kd nm n) \<or> kd = mu_kind (side ! j) \<and> nm = mu_name (side ! j)" by simp
  with s show ?case
    by (cases "i = j"; cases "j < length out") (auto simp: count_step_def Let_def list_update_beyond split: if_splits)
qed simp

lemma slots_counted: "slots_ok rs base side (out, taken) \<Longrightarrow> counted out Map.empty"
  by (auto simp: slots_ok_def counted_def)

section \<open>The keys of a side\<close>

lemma unit_keys_slots:
  assumes "distinct (map mu_nid base)"
  obtains out where "unit_keys (Some base) side rs = map the out" "length out = length side" "None \<notin> set out"
    "filled_once out"
    "keeps (fst (aligned base side rs)) out"
    "\<forall>i < length side. \<forall>n. out ! i = Some (KId n) \<longrightarrow> (\<exists>b0 \<in> set base. n = mu_nid b0 \<and> meets rs (side ! i) b0)"
proof -
  obtain out0 taken where al: "aligned base side rs = (out0, taken)" by (cases "aligned base side rs")
  have ok: "slots_ok rs base side (out0, taken)" using aligned_ok(1) [OF assms] by (simp flip: al)
  then have len: "length out0 = length side" by (simp add: slots_ok_def)
  define out where "out = fst (fold (count_step side) [0..<length side] (out0, Map.empty))"
  from count_fold_ok [OF slots_counted [OF ok], of side "[0..<length side]", folded out_def]
  have "keeps out0 out" "\<forall>i < length side. out ! i \<noteq> None"
    and "filled_once out"
    using len by (auto simp: counted_def)
  moreover from this(1) len have "length out = length side" by (simp add: keeps_def)
  moreover have "\<exists>b0 \<in> set base. n = mu_nid b0 \<and> meets rs (side ! i) b0" if "i < length side" "out ! i = Some (KId n)" for i n
    using count_fold_ids [OF that(2) [unfolded out_def]] ok that(1) len unfolding slots_ok_def by fastforce
  ultimately show thesis
    by (intro that [of out]) (auto simp: unit_keys_def al out_def in_set_conv_nth keeps_def)
qed

lemma unit_keys_distinct:
  assumes "distinct (map mu_nid base)"
  shows "distinct (unit_keys (Some base) side rs)" "length (unit_keys (Some base) side rs) = length side"
proof -
  obtain out where out: "unit_keys (Some base) side rs = map the out" "length out = length side" "None \<notin> set out"
    "filled_once out"
    by (rule unit_keys_slots [OF assms, of side rs]) blast
  have "distinct out"
    using out(3,4) unfolding distinct_conv_nth filled_once_def by (metis nth_mem)
  moreover have "inj_on the (set out)"
  proof (rule inj_onI)
    fix x y :: "key option" assume "x \<in> set out" "y \<in> set out" "the x = the y"
    with out(3) show "x = y" by (cases x; cases y) auto
  qed
  ultimately show "distinct (unit_keys (Some base) side rs)" by (simp add: out(1) distinct_map)
  show "length (unit_keys (Some base) side rs) = length side" by (simp add: out)
qed

text \<open>A unit that carries the id of a base unit has its key.\<close>

lemma id_fold_assigns:
  assumes base: "distinct (map mu_nid base)" and dist: "distinct (map mu_nid us)"
    and "length taken = length base"
    and "\<forall>u \<in> set us. \<forall>b. by_nid base (mu_nid u) = Some b \<longrightarrow> \<not> taken ! b"
    and "n + length us \<le> length out" and "j < length us" and "mu_nid (us ! j) \<in> mu_nid ` set base"
  shows "fst (fold (id_step base) (enumerate n us) (out, taken)) ! (n + j) = Some (KId (mu_nid (us ! j)))"
  using assms(2-)
proof (induction us arbitrary: n out taken j)
  case (Cons u us)
  obtain out' taken' where s: "id_step base (n, u) (out, taken) = (out', taken')" by (cases "id_step base (n, u) (out, taken)")
  have len: "length out' = length out" "length taken' = length taken"
    using s by (auto simp: id_step_def split: option.splits if_splits)
  have free: "\<forall>v \<in> set us. \<forall>b. by_nid base (mu_nid v) = Some b \<longrightarrow> \<not> taken' ! b"
  proof (intro ballI allI impI)
    fix v b assume v: "v \<in> set us" and b: "by_nid base (mu_nid v) = Some b"
    have "mu_nid v \<noteq> mu_nid u" using v Cons.prems(1) by (auto simp: image_iff)
    with by_nid_Some [OF b] have "by_nid base (mu_nid u) \<noteq> Some b" using by_nid_Some by metis
    moreover have "\<not> taken ! b" using Cons.prems(3) v b by auto
    ultimately show "\<not> taken' ! b"
      using s by (auto simp: id_step_def nth_list_update split: option.splits if_splits)
  qed
  show ?case
  proof (cases j)
    case (Suc l)
    with Cons.IH [of taken' "Suc n" out' l] Cons.prems free len show ?thesis by (simp add: s)
  next
    case 0
    with Cons.prems(6) obtain b where b: "by_nid base (mu_nid u) = Some b" using by_nid_None by fastforce
    with Cons.prems have out': "out' ! n = Some (KId (mu_nid u))"
      using s by (auto simp: id_step_def)
    have "fst (fold (id_step base) (enumerate m vs) (o1, t1)) ! n = o1 ! n" if "n < m" for m vs o1 t1
      using that
    proof (induction vs arbitrary: m o1 t1)
      case (Cons v vs)
      have "fst (id_step base (m, v) (o1, t1)) ! n = o1 ! n"
        using Cons.prems by (auto simp: id_step_def split: option.splits)
      with Cons.IH [of "Suc m"] Cons.prems show ?case by (cases "id_step base (m, v) (o1, t1)") simp
    qed simp
    from this [of "Suc n" us out' taken'] out' 0 show ?thesis by (simp add: s)
  qed
qed simp

lemma unit_keys_by_id:
  assumes "distinct (map mu_nid base)" "distinct (map mu_nid side)"
    and "i < length side" and "mu_nid (side ! i) \<in> mu_nid ` set base"
  shows "unit_keys (Some base) side rs ! i = KId (mu_nid (side ! i))"
proof -
  obtain out where out: "unit_keys (Some base) side rs = map the out" "length out = length side"
    and keeps: "keeps (fst (aligned base side rs)) out"
    by (rule unit_keys_slots [OF assms(1), of side rs]) blast
  let ?first = "fst (fold (id_step base) (enumerate 0 side) (initial_slots base side))"
  have "?first ! (0 + i) = Some (KId (mu_nid (side ! i)))"
    unfolding initial_slots_def
    by (rule id_fold_assigns) (use assms by_nid_Some in auto)
  moreover have "keeps ?first out" using keeps aligned_ok(2) [OF assms(1)] keeps_trans by blast
  ultimately have "out ! i = Some (KId (mu_nid (side ! i)))"
    using assms(3) out(2) by (auto simp: keeps_def)
  with out assms(3) show ?thesis by simp
qed

lemma unit_keys_base:
  assumes "distinct (map mu_nid base)"
  shows "unit_keys (Some base) base rs = map (\<lambda>u. KId (mu_nid u)) base"
  by (rule nth_equalityI) (use assms in \<open>auto simp: unit_keys_distinct unit_keys_by_id\<close>)

lemma unit_keys_new:
  assumes "distinct (map mu_nid base)" "i < length side" "unit_keys (Some base) side rs ! i = KNew kd nm n"
  shows "kd = mu_kind (side ! i)" "nm = mu_name (side ! i)"
proof -
  obtain out0 taken where al: "aligned base side rs = (out0, taken)" by (cases "aligned base side rs")
  have ok: "slots_ok rs base side (out0, taken)" using aligned_ok(1) [OF assms(1)] by (simp flip: al)
  obtain out where out: "unit_keys (Some base) side rs = map the out" "length out = length side" "None \<notin> set out"
    by (rule unit_keys_slots [OF assms(1), of side rs]) blast
  let ?out = "fst (fold (count_step side) [0..<length side] (out0, Map.empty))"
  have len: "length out0 = length side" using ok by (simp add: slots_ok_def)
  from count_fold_ok [OF slots_counted [OF ok], of side "[0..<length side]"] len
  have filled: "length ?out = length side" "?out ! i \<noteq> None" using assms(2) by (auto simp: keeps_def)
  have "map the ?out ! i = KNew kd nm n" using assms(3) by (simp add: unit_keys_def al)
  with filled assms(2) have "?out ! i = Some (KNew kd nm n)" by auto
  from count_fold_new [OF this] ok assms(2) show "kd = mu_kind (side ! i)" "nm = mu_name (side ! i)"
    unfolding slots_ok_def by force+
qed

text \<open>C27: Keys line units up: they are distinct; a key that names a base unit has a reason for it, and the unit
  that carries the id of a base unit has its key.\<close>

theorem keys_line_up:
  assumes "distinct (map mu_nid base)" and "distinct (map mu_nid side)"
  shows "length (unit_keys (Some base) side rs) = length side \<and> distinct (unit_keys (Some base) side rs) \<and>
    (\<forall>i < length side.
       (mu_nid (side ! i) \<in> mu_nid ` set base \<longrightarrow> unit_keys (Some base) side rs ! i = KId (mu_nid (side ! i))) \<and>
       (\<forall>n. unit_keys (Some base) side rs ! i = KId n \<longrightarrow> (\<exists>b0 \<in> set base. n = mu_nid b0 \<and> meets rs (side ! i) b0)))"
proof (intro conjI allI impI)
  show "length (unit_keys (Some base) side rs) = length side" "distinct (unit_keys (Some base) side rs)"
    by (simp_all add: unit_keys_distinct assms)
next
  fix i assume "i < length side" "mu_nid (side ! i) \<in> mu_nid ` set base"
  then show "unit_keys (Some base) side rs ! i = KId (mu_nid (side ! i))" by (rule unit_keys_by_id [OF assms])
next
  fix i n assume i: "i < length side" and key: "unit_keys (Some base) side rs ! i = KId n"
  obtain out where out: "unit_keys (Some base) side rs = map the out" "length out = length side" "None \<notin> set out"
    "\<forall>i < length side. \<forall>n. out ! i = Some (KId n) \<longrightarrow> (\<exists>b0 \<in> set base. n = mu_nid b0 \<and> meets rs (side ! i) b0)"
    by (rule unit_keys_slots [OF assms(1), of side rs]) blast
  have "out ! i \<noteq> None" using i out(2,3) by (metis nth_mem)
  moreover have "the (out ! i) = KId n" using key i out(2) by (simp add: out(1))
  ultimately have "out ! i = Some (KId n)" by (simp add: option.expand)
  with out(4) i show "\<exists>b0 \<in> set base. n = mu_nid b0 \<and> meets rs (side ! i) b0" by blast
qed

end
