(* ===== verification/Merge_Props.thy ===== *)
theory Merge_Props
  imports Merge_File Key_Props
begin

text \<open>
  What the merge of a file promises: a first side that changed nothing gives way to the second, and equal
  sides merge to themselves.
\<close>

section \<open>Slices and edits\<close>

lemma edit_loop_Nil [simp]: "edit_loop src from to [] copied out applied = (out @ take (to - copied) (drop copied src), applied)"
  by simp

lemma apply_edits_Nil [simp]: "apply_edits src from to [] = (slice src from to, [])"
  by (simp add: apply_edits_def slice_def Let_def)

lemma slice_append:
  assumes "i \<le> j" "j \<le> k" "k \<le> length src"
  shows "take i src @ slice src i j @ slice src j k = take k src"
proof -
  have "take i src @ slice src i j = take j src" and "take j src @ slice src j k = take k src"
    using assms by (simp_all add: slice_def min_def) (metis le_add_diff_inverse take_add)+
  then show ?thesis by (metis append_assoc)
qed

lemma slice_nonempty: "i < j \<Longrightarrow> j \<le> length src \<Longrightarrow> slice src i j \<noteq> []"
  by (simp add: slice_def min_def)

lemma push_gap_plain: "out = [] \<or> gap \<noteq> [] \<Longrightarrow> push_gap out gap = out @ gap"
  by (auto simp: push_gap_def)

lemma push_gap_prefix: "\<exists>t. push_gap out gap = out @ t"
  by (auto simp: push_gap_def)

lemma rename_edits_Nil [simp]: "rename_edits parse l t [] = []"
  by (simp add: rename_edits_def)

lemma edits_in_Nil [simp]: "edits_in parse lang src [] = []"
  by (auto simp: edits_in_def split: option.splits)

section \<open>Levels\<close>

definition level_ok :: "level \<Rightarrow> bool" where
  "level_ok l \<longleftrightarrow> length (lv_keys l) = length (lv_units l) \<and> distinct (lv_keys l)"

lemma level_find_nth: "level_ok l \<Longrightarrow> i < length (lv_keys l) \<Longrightarrow> level_find l (lv_keys l ! i) = Some (lv_units l ! i)"
  by (simp add: level_find_def level_ok_def map_of_zip_nth)

lemma level_find_None: "level_ok l \<Longrightarrow> level_find l k = None \<longleftrightarrow> k \<notin> set (lv_keys l)"
  by (simp add: level_find_def level_ok_def map_of_zip_is_None)

lemma first_pos_nth: "distinct xs \<Longrightarrow> i < length xs \<Longrightarrow> first_pos (\<lambda>x. x = xs ! i) xs = Some i"
proof (induction xs arbitrary: i)
  case (Cons x xs)
  then show ?case by (cases i) (auto simp: nth_mem)
qed simp

lemma gap_on_nth:
  assumes "level_ok l" "i < length (lv_keys l)"
  shows "gap_on c l sd (lv_keys l ! i) (if i = 0 then None else Some (lv_keys l ! (i - 1))) = Some (gap_text c sd (lv_units l ! i))"
  using assms by (simp add: gap_on_def level_ok_def first_pos_nth)

section \<open>Following one side\<close>

text \<open>Units that cover a text in order, separated by text, as extraction gives them.\<close>

definition end_of :: "munit list \<Rightarrow> nat \<Rightarrow> nat" where
  "end_of us i = (if i = 0 then 0 else mu_end (us ! (i - 1)))"

definition file_units :: "bytes \<Rightarrow> munit list \<Rightarrow> bool" where
  "file_units t us \<longleftrightarrow>
     list_all (\<lambda>i. mu_gap (us ! i) = end_of us i \<and> mu_gap (us ! i) \<le> mu_start (us ! i) \<and>
                   mu_start (us ! i) < mu_end (us ! i) \<and> mu_end (us ! i) \<le> length t \<and>
                   (i = 0 \<or> mu_gap (us ! i) < mu_start (us ! i))) [0..<length us]"

lemma file_units_nth:
  assumes "file_units t us" "i < length us"
  shows "mu_gap (us ! i) = end_of us i" "end_of us i \<le> mu_start (us ! i)" "mu_start (us ! i) < mu_end (us ! i)"
    "mu_end (us ! i) \<le> length t" "i = 0 \<or> end_of us i < mu_start (us ! i)"
proof -
  have "i \<in> set [0..<length us]" using assms(2) by simp
  with assms(1) show "mu_gap (us ! i) = end_of us i" "end_of us i \<le> mu_start (us ! i)" "mu_start (us ! i) < mu_end (us ! i)"
    "mu_end (us ! i) \<le> length t" "i = 0 \<or> end_of us i < mu_start (us ! i)"
    unfolding file_units_def list_all_iff by metis+
qed

text \<open>
  The keys that side B holds are emitted with the text of B and the others emit nothing: then the
  output is the text of B up to its last unit.
\<close>

definition emits_b :: "merge_ctx \<Rightarrow> level option \<Rightarrow> level \<Rightarrow> level \<Rightarrow> key \<Rightarrow> bool" where
  "emits_b c bl la lb k \<longleftrightarrow>
     (case level_find lb k of
        None \<Rightarrow> \<exists>cs. merge_choice c (find_base bl k) (level_find la k) None = (cs, Nothing)
      | Some y \<Rightarrow>
          \<exists>cs sd u. merge_choice c (find_base bl k) (level_find la k) (Some y) = (cs, Leaf_Of sd u) \<and>
            fst (apply_edits (cx_text c sd) (mu_start u) (mu_end u) (cx_edits c sd)) =
              slice (cx_b c) (mu_start y) (mu_end y) \<and>
            (\<forall>prev g. gap_on c lb SideB k prev = Some g \<longrightarrow> gap_before c la lb k sd prev = g))"

lemma merge_keys_follow_b:
  assumes lb: "level_ok lb" "file_units (cx_b c) (lv_units lb)"
    and emits: "\<forall>k \<in> set ks. emits_b c bl la lb k"
    and rest: "filter (\<lambda>k. k \<in> set (lv_keys lb)) ks = drop j (lv_keys lb)" "j \<le> length (lv_keys lb)"
    and prev: "prev = (if j = 0 then None else Some (lv_keys lb ! (j - 1)))"
    and out: "mg_text m = take (end_of (lv_units lb) j) (cx_b c)"
  shows "mg_text (merge_keys c bl la lb ks prev m) = take (end_of (lv_units lb) (length (lv_units lb))) (cx_b c)"
  using emits rest prev out
proof (induction ks arbitrary: j prev m)
  case Nil
  then have "j = length (lv_units lb)" using lb(1) by (auto simp: level_ok_def)
  with Nil show ?case by (simp add: merge_keys.simps)
next
  case (Cons k ks)
  show ?case
  proof (cases "k \<in> set (lv_keys lb)")
    case False
    then obtain cs where "merge_choice c (find_base bl k) (level_find la k) (level_find lb k) = (cs, Nothing)"
      using Cons.prems(1) lb(1) level_find_None [OF lb(1), of k] by (auto simp: emits_b_def)
    then have "merge_keys c bl la lb (k # ks) prev m = merge_keys c bl la lb ks prev (add_conflicts cs m)"
      by (simp add: merge_keys.simps add_conflicts_def)
    with Cons.IH [of j prev "add_conflicts cs m"] Cons.prems False show ?thesis by (simp add: add_conflicts_def)
  next
    case True
    then have j: "j < length (lv_keys lb)" "k = lv_keys lb ! j"
      and rest': "filter (\<lambda>k. k \<in> set (lv_keys lb)) ks = drop (Suc j) (lv_keys lb)"
      using Cons.prems(2,3) by (cases "j < length (lv_keys lb)"; auto simp: Cons_nth_drop_Suc [symmetric])+
    let ?y = "lv_units lb ! j"
    have y: "level_find lb k = Some ?y" using level_find_nth [OF lb(1) j(1)] j(2) by simp
    have ju: "j < length (lv_units lb)" using lb(1) j by (simp add: level_ok_def)
    note spans = file_units_nth [OF lb(2) ju]
    from Cons.prems(1) y obtain cs sd u where
      choice: "merge_choice c (find_base bl k) (level_find la k) (level_find lb k) = (cs, Leaf_Of sd u)"
      and same: "fst (apply_edits (cx_text c sd) (mu_start u) (mu_end u) (cx_edits c sd)) = slice (cx_b c) (mu_start ?y) (mu_end ?y)"
      and gap: "\<And>prev g. gap_on c lb SideB k prev = Some g \<Longrightarrow> gap_before c la lb k sd prev = g"
      by (auto simp: emits_b_def)
    have g: "gap_before c la lb k sd prev = slice (cx_b c) (mu_gap ?y) (mu_start ?y)"
      using gap [OF gap_on_nth [OF lb(1) j(1), of c SideB, folded j(2), folded Cons.prems(4)]] by (simp add: gap_text_def)
    define m1 where "m1 = emit_leaf c sd u (gap_before c la lb k sd prev) (add_conflicts cs m)"
    have plain: "mg_text m = [] \<or> gap_before c la lb k sd prev \<noteq> []"
      using spans slice_nonempty [of "mu_gap ?y" "mu_start ?y" "cx_b c"] Cons.prems(5) by (cases "j = 0") (auto simp: g end_of_def)
    have "mg_text m1 = take (mu_gap ?y) (cx_b c) @ slice (cx_b c) (mu_gap ?y) (mu_start ?y) @ slice (cx_b c) (mu_start ?y) (mu_end ?y)"
      using same plain Cons.prems(5) spans(1)
      by (auto simp: m1_def emit_leaf_def add_conflicts_def push_gap_plain g split: prod.splits)
    also have "\<dots> = take (mu_end ?y) (cx_b c)" by (rule slice_append) (use spans in auto)
    finally have m1: "mg_text m1 = take (mu_end ?y) (cx_b c)" .
    have "length (mg_text m1) \<noteq> length (mg_text m)"
      using m1 spans Cons.prems(5) by simp
    then have "merge_keys c bl la lb (k # ks) prev m = merge_keys c bl la lb ks (Some k) m1"
      using choice by (simp add: merge_keys.simps m1_def Let_def)
    with Cons.IH [of "Suc j" "Some k" m1] Cons.prems(1) rest' j m1 show ?thesis by (simp add: end_of_def)
  qed
qed

lemma merge_level_follow_b:
  fixes base a b c
  defines "la \<equiv> fst (sides_of c base a b)" and "lb \<equiv> snd (sides_of c base a b)" and "bl \<equiv> base_level_of base"
  assumes lb: "level_ok lb" "file_units (cx_b c) b"
    and emits: "\<And>k. k \<in> set (base_keys_of base) \<union> set (lv_keys la) \<union> set (lv_keys lb) \<Longrightarrow> emits_b c bl la lb k"
    and order: "filter (\<lambda>k. k \<in> set (lv_keys lb)) (ordered_keys (base_keys_of base) (lv_keys la) (lv_keys lb)) = lv_keys lb"
    and m: "mg_text m = []"
  shows "mg_text (merge_level c base a b m) = take (end_of b (length b)) (cx_b c)"
proof -
  have units: "lv_units lb = b" by (simp add: lb_def sides_of_def)
  have "mg_text (merge_keys c bl la lb (ordered_keys (base_keys_of base) (lv_keys la) (lv_keys lb)) None m') =
      take (end_of (lv_units lb) (length (lv_units lb))) (cx_b c)" if "mg_text m' = []" for m'
    by (rule merge_keys_follow_b [where j = 0])
       (use lb emits order that in \<open>auto simp: units ordered_keys_set end_of_def\<close>)
  then show ?thesis
    using m by (simp add: merge_level.simps Let_def la_def lb_def bl_def add_conflicts_def units [unfolded lb_def])
qed

section \<open>Building units\<close>

lemma make_units_nids: "make_units f nodes ns s = Inr us \<Longrightarrow> map mu_nid us = map node_nid ns"
  by (induction f nodes ns s arbitrary: us rule: make_units.induct) (auto simp: Let_def result_simps)

lemma build_units_distinct:
  "build_units nodes = Inr us \<Longrightarrow> distinct (map node_nid nodes) \<Longrightarrow> distinct (map mu_nid us)"
  by (auto simp: build_units_def nodes_under_def dest!: make_units_nids intro: distinct_map_filter)

lemma inferred_renames_self:
  assumes "distinct (map node_nid ns)"
  shows "inferred_renames path ns ns = []"
proof -
  have "map_of (rev (map (\<lambda>x. (node_nid x, x)) ns)) (node_nid n) = Some n" if "n \<in> set ns" for n
  proof (rule map_of_is_SomeI)
    show "distinct (map fst (rev (map (\<lambda>x. (node_nid x, x)) ns)))"
      using assms by (simp add: rev_map comp_def flip: rev_map)
    show "(node_nid n, n) \<in> set (rev (map (\<lambda>x. (node_nid x, x)) ns))" using that by auto
  qed
  then show ?thesis by (simp add: inferred_renames_def)
qed

lemma all_renames_Nil [simp]: "all_renames [] [] = []"
  by (simp add: all_renames_def)

definition units_or_none :: "munit list option \<Rightarrow> munit list" where
  "units_or_none base = (case base of None \<Rightarrow> [] | Some us \<Rightarrow> us)"

lemma unit_keys_or_none: "unit_keys base side rs = unit_keys (Some (units_or_none base)) side rs"
  by (cases base) (simp_all add: unit_keys_def units_or_none_def)

lemma base_keys_or_none: "base_keys_of base = map (\<lambda>u. KId (mu_nid u)) (units_or_none base)"
  by (cases base) (simp_all add: base_keys_of_def units_or_none_def)

lemma sides_ok:
  assumes "distinct (map mu_nid (units_or_none base))"
  shows "level_ok (fst (sides_of c base a b))" "level_ok (snd (sides_of c base a b))"
  using unit_keys_distinct [OF assms] by (simp_all add: sides_of_def level_ok_def unit_keys_or_none [of base])

lemma tail_text_end:
  assumes "file_units t us"
  shows "take (end_of us (length us)) t @ tail_text t us = t"
proof -
  have "(if us = [] then 0 else mu_end (last us)) = end_of us (length us)"
    by (simp add: end_of_def last_conv_nth)
  moreover have "end_of us (length us) \<le> length t"
    using file_units_nth(4) [OF assms, of "length us - 1"] by (cases us) (auto simp: end_of_def)
  ultimately show ?thesis by (simp add: tail_text_def)
qed

section \<open>One side unchanged\<close>

lemma choice_unchanged_a:
  "merge_choice c bu bu None = ([], Nothing)"
  "cx_a c = t \<Longrightarrow> cx_base c = Some t \<Longrightarrow> \<exists>cs. merge_choice c bu bu (Some y) = (cs, Leaf_Of SideB y)"
  by (auto simp: merge_choice_def choice_held_def changed_def Let_def split: option.splits bool.splits)

lemma gap_before_prefers_b: "gap_on c lb SideB k prev = Some g \<Longrightarrow> gap_before c la lb k SideB prev = g"
  by (simp add: gap_before_def)

lemma merge_level_unchanged_a:
  assumes c: "cx_base c = Some (cx_a c)" "cx_edits_b c = []"
    and us: "distinct (map mu_nid us)" and b: "file_units (cx_b c) b"
    and order: "agrees (unit_keys (Some us) b (cx_ops_b c)) (map (\<lambda>u. KId (mu_nid u)) us)"
    and m: "mg_text m = []"
  shows "mg_text (merge_level c (Some us) us b m) = take (end_of b (length b)) (cx_b c)"
proof (rule merge_level_follow_b [OF _ b _ _ m])
  let ?la = "fst (sides_of c (Some us) us b)" and ?lb = "snd (sides_of c (Some us) us b)"
  let ?kb = "map (\<lambda>u. KId (mu_nid u)) us"
  have la: "?la = \<lparr>lv_units = us, lv_keys = ?kb\<rparr>" by (simp add: sides_of_def unit_keys_base us)
  show ok: "level_ok ?lb" using sides_ok(2) [of "Some us"] us by (simp add: units_or_none_def)
  have dist: "distinct ?kb" using us by (simp add: distinct_map inj_on_def)
  show "filter (\<lambda>k. k \<in> set (lv_keys ?lb)) (ordered_keys (base_keys_of (Some us)) (lv_keys ?la) (lv_keys ?lb)) = lv_keys ?lb"
    unfolding la base_keys_of_def option.case level.simps
    by (rule ordered_keys_b) (use dist order ok in \<open>auto simp: level_ok_def sides_of_def\<close>)
  fix k
  have same: "find_base (base_level_of (Some us)) k = level_find ?la k"
    by (simp add: find_base_def base_level_of_def la)
  show "emits_b c (base_level_of (Some us)) ?la ?lb k"
  proof (cases "level_find ?lb k")
    case None
    then show ?thesis using choice_unchanged_a(1) by (simp add: emits_b_def same)
  next
    case (Some y)
    obtain cs where "merge_choice c (level_find ?la k) (level_find ?la k) (Some y) = (cs, Leaf_Of SideB y)"
      using choice_unchanged_a(2) [OF refl c(1)] by blast
    with Some c(2) show ?thesis by (simp add: emits_b_def same gap_before_prefers_b)
  qed
qed

text \<open>C13: A first side that did not change gives way: the merged file is the second side, byte for byte, when the
  second side kept the order of the units of the base. This is not so for an unchanged second side: text
  between the units then comes from the second side, and a change that the first side made there is
  dropped (\<open>first_side_alone_lost\<close>).\<close>

theorem merge_unchanged_side:
  assumes "build_units (fl_nodes base) = Inr us" and "build_units (fl_nodes b) = Inr bs"
    and "distinct (map node_nid (fl_nodes base))" and "file_units (fl_text b) bs"
    and "agrees (unit_keys (Some us) bs ops_b) (map (\<lambda>u. KId (mu_nid u)) us)"
  shows "\<exists>m. merge_file parse lang (Some base) base b [] ops_b = Inr m \<and> mg_text m = fl_text b"
proof -
  define c where "c = file_ctx parse lang (Some base) base b [] ops_b"
  have c: "cx_base c = Some (cx_a c)" "cx_edits_b c = []" "cx_b c = fl_text b" "cx_ops_b c = ops_b"
    by (simp_all add: c_def file_ctx_def Let_def inferred_renames_self assms(3))
  have "mg_text (merge_level c (Some us) us bs merged_empty) = take (end_of bs (length bs)) (fl_text b)"
    unfolding c(3) [symmetric]
    by (rule merge_level_unchanged_a)
       (use assms c build_units_distinct in \<open>auto simp: merged_empty_def\<close>)
  then have "mg_text (merge_units c (Some us) us bs) = fl_text b"
    using tail_text_end [OF assms(4)] c by (simp add: merge_units_def Let_def chosen_tail_def)
  then show ?thesis using assms(1,2) by (simp add: merge_file_def flip: c_def)
qed

section \<open>Equal sides\<close>

lemma gap_before_same:
  assumes "cx_a c = cx_b c" "gap_on c l SideB k prev = Some g"
  shows "gap_before c l l k SideA prev = g"
proof -
  have "gap_on c l SideA k prev = gap_on c l SideB k prev"
    unfolding gap_on_def gap_text_def cx_text.simps assms(1) ..
  with assms(2) show ?thesis by (simp add: gap_before_def)
qed

lemma choice_same:
  "merge_choice c bu None None = ([], Nothing)"
  "\<exists>sd. merge_choice c bu (Some x) (Some x) = ([], Leaf_Of sd x)"
  by (auto simp: merge_choice_def choice_held_def choice_new_def choice_both_def Let_def split: option.splits bool.splits)

text \<open>Two equal sides merge to themselves, whatever the base, when there is no rename to carry across.\<close>

theorem merge_equal_sides:
  assumes "base = None \<or> (\<exists>f. base = Some f \<and> build_units (fl_nodes f) = Inr us \<and> distinct (map node_nid (fl_nodes f)))"
    and "base = None \<longrightarrow> us = []"
    and "build_units (fl_nodes a) = Inr xs" and "file_units (fl_text a) xs"
    and "inferred_renames [] (case base of None \<Rightarrow> [] | Some f \<Rightarrow> fl_nodes f) (fl_nodes a) = []"
    and "agrees (unit_keys (Some us) xs []) (map (\<lambda>u. KId (mu_nid u)) us)"
  shows "\<exists>m. merge_file parse lang base a a [] [] = Inr m \<and> mg_text m = fl_text a"
proof -
  define bu where "bu = (case base of None \<Rightarrow> None | Some f \<Rightarrow> Some us)"
  have bu: "units_or_none bu = us" using assms(2) by (auto simp: bu_def units_or_none_def split: option.splits)
  have build: "(case base of None \<Rightarrow> Inr None | Some f \<Rightarrow> rbind (build_units (fl_nodes f)) (\<lambda>us. Inr (Some us))) = Inr bu"
    using assms(1) by (auto simp: bu_def)
  have us: "distinct (map mu_nid us)" using assms(1,2) build_units_distinct by auto
  define c where "c = file_ctx parse lang base a a [] []"
  have c: "cx_edits_a c = []" "cx_edits_b c = []" "cx_a c = fl_text a" "cx_b c = fl_text a" "cx_ops_a c = []" "cx_ops_b c = []"
    using assms(5) by (simp_all add: c_def file_ctx_def Let_def)
  let ?la = "fst (sides_of c bu xs xs)" and ?lb = "snd (sides_of c bu xs xs)"
  have same: "?la = ?lb" by (simp add: sides_of_def c)
  have ok: "level_ok ?lb" using sides_ok(2) us bu by metis
  have "mg_text (merge_level c bu xs xs merged_empty) = take (end_of xs (length xs)) (cx_b c)"
  proof (rule merge_level_follow_b [OF ok])
    have dist: "distinct (base_keys_of bu)" using us by (simp add: base_keys_or_none bu distinct_map inj_on_def)
    show "filter (\<lambda>k. k \<in> set (lv_keys ?lb)) (ordered_keys (base_keys_of bu) (lv_keys ?la) (lv_keys ?lb)) = lv_keys ?lb"
      unfolding same
      by (rule ordered_keys_a)
         (use dist ok assms(6) in \<open>auto simp: level_ok_def sides_of_def c base_keys_or_none bu unit_keys_or_none [of bu]\<close>)
    fix k show "emits_b c (base_level_of bu) ?la ?lb k"
    proof (cases "level_find ?lb k")
      case None
      then show ?thesis using choice_same(1) by (simp add: emits_b_def same)
    next
      case (Some x)
      obtain sd where sd: "merge_choice c (find_base (base_level_of bu) k) (Some x) (Some x) = ([], Leaf_Of sd x)"
        using choice_same(2) by blast
      have "gap_before c ?lb ?lb k sd prev = g" if "gap_on c ?lb SideB k prev = Some g" for prev g
        using that by (cases sd) (auto simp: gap_before_prefers_b c intro: gap_before_same)
      with sd Some show ?thesis by (cases sd) (auto simp: emits_b_def same c)
    qed
  qed (use assms(4) c in \<open>simp_all add: merged_empty_def\<close>)
  then have "mg_text (merge_units c bu xs xs) = fl_text a"
    using tail_text_end [OF assms(4)] c by (simp add: merge_units_def Let_def chosen_tail_def split: option.splits)
  then show ?thesis using assms(3) by (simp add: merge_file_def build flip: c_def)
qed

end
