(* ===== verification/Merge_Clean.thy ===== *)
theory Merge_Clean
  imports Merge_Props
begin

text \<open>
  Conflicts of a merge: which there are is a function of the units alone, a merge without conflicts
  carries every changed unit, at any depth, and it is free of conflicts in either order of the sides.
\<close>

section \<open>Output only grows\<close>

lemma emit_leaf_grows: "\<exists>t. mg_text (emit_leaf c sd u gap m) = mg_text m @ t"
  using push_gap_prefix [of "mg_text m" gap] by (auto simp: emit_leaf_def split: prod.splits)

lemma emit_header_grows: "\<exists>t. mg_text (emit_header c bb x y ga gb m) = mg_text m @ t"
proof -
  have "\<exists>t. mg_text (emit_header c bb x y ga gb m) = push_gap (mg_text m) (case head_side c bb x of SideA \<Rightarrow> ga | SideB \<Rightarrow> gb) @ t"
    by (auto simp: emit_header_def Let_def split: prod.splits side.splits)
  with push_gap_prefix show ?thesis by (metis append_assoc)
qed

lemma merge_grows:
  "\<exists>t. mg_text (merge_level c base a b m) = mg_text m @ t"
  "\<exists>t. mg_text (merge_keys c bl la lb ks prev m) = mg_text m @ t"
  "\<exists>t. mg_text (merge_container c bb x y ga gb m) = mg_text m @ t"
proof (induction c base a b m and c bl la lb ks prev m and c bb x y ga gb m
    rule: merge_level_merge_keys_merge_container.induct)
  case (1 c base a b m)
  then show ?case by (simp add: merge_level.simps Let_def add_conflicts_def)
next
  case (2 c bl la lb prev m)
  then show ?case by (simp add: merge_keys.simps)
next
  case (3 c bl la lb k ks prev m)
  obtain cs act where ch: "merge_choice c (find_base bl k) (level_find la k) (level_find lb k) = (cs, act)"
    by (cases "merge_choice c (find_base bl k) (level_find la k) (level_find lb k)")
  define m1 where "m1 = (case act of Nothing \<Rightarrow> add_conflicts cs m
    | Leaf_Of sd u \<Rightarrow> emit_leaf c sd u (gap_before c la lb k sd prev) (add_conflicts cs m)
    | Container_Of bb x y \<Rightarrow> merge_container c bb x y (gap_before c la lb k SideA prev) (gap_before c la lb k SideB prev) (add_conflicts cs m))"
  have "\<exists>t. mg_text m1 = mg_text m @ t"
    using 3(1) [OF ch [symmetric] refl] emit_leaf_grows [of c _ _ _ "add_conflicts cs m"]
    by (cases act) (simp_all add: m1_def add_conflicts_def)
  moreover have "\<exists>t. mg_text (merge_keys c bl la lb (k # ks) prev m) = mg_text m1 @ t"
    using 3(2) [OF ch [symmetric] refl] ch by (simp add: merge_keys.simps m1_def Let_def)
  ultimately show ?case by auto
next
  case (4 c bb x y gap_a gap_b m)
  from 4 emit_header_grows [of c bb x y gap_a gap_b m] show ?case
    by (auto simp: merge_container.simps Let_def)
qed

section \<open>Conflicts do not depend on the output\<close>

definition level_conflicts :: "merge_ctx \<Rightarrow> munit list option \<Rightarrow> munit list \<Rightarrow> munit list \<Rightarrow> string list" where
  "level_conflicts c base a b = mg_conflicts (merge_level c base a b merged_empty)"

definition key_conflicts :: "merge_ctx \<Rightarrow> level option \<Rightarrow> level \<Rightarrow> level \<Rightarrow> key \<Rightarrow> string list" where
  "key_conflicts c bl la lb k =
     (case merge_choice c (find_base bl k) (level_find la k) (level_find lb k) of
        (cs, act) \<Rightarrow> cs @
          (case act of
             Container_Of bb x y \<Rightarrow> level_conflicts c (map_option mu_children bb) (mu_children x) (mu_children y)
           | _ \<Rightarrow> []))"

lemma conflicts_emit [simp]:
  "mg_conflicts (emit_leaf c sd u gap m) = mg_conflicts m"
  "mg_conflicts (emit_header c bb x y ga gb m) = mg_conflicts m"
  "mg_conflicts (add_conflicts cs m) = mg_conflicts m @ cs"
  by (auto simp: emit_leaf_def emit_header_def add_conflicts_def Let_def split: prod.splits side.splits)

lemma conflicts_added:
  "\<exists>cs. \<forall>m. mg_conflicts (merge_level c base a b m) = mg_conflicts m @ cs"
  "\<exists>cs. \<forall>m prev. mg_conflicts (merge_keys c bl la lb ks prev m) = mg_conflicts m @ cs"
  "\<exists>cs. \<forall>m ga gb. mg_conflicts (merge_container c bb x y ga gb m) = mg_conflicts m @ cs"
proof (induction c base a b "m :: merged" and c bl la lb ks "prev :: key option" "m :: merged"
    and c bb x y "ga :: bytes" "gb :: bytes" "m :: merged" rule: merge_level_merge_keys_merge_container.induct)
  case (1 c base a b m)
  from 1 [OF refl refl refl] show ?case by (auto simp: merge_level.simps Let_def)
next
  case (3 c bl la lb k ks prev m)
  obtain cs act where ch: "merge_choice c (find_base bl k) (level_find la k) (level_find lb k) = (cs, act)"
    by (cases "merge_choice c (find_base bl k) (level_find la k) (level_find lb k)")
  obtain ds where ds: "\<And>m prev. mg_conflicts (merge_keys c bl la lb ks prev m) = mg_conflicts m @ ds"
    using 3(2) [OF ch [symmetric] refl refl] by blast
  have step: "merge_keys c bl la lb (k # ks) prev m =
      (let m0 = add_conflicts cs m;
           m1 = (case act of Nothing \<Rightarrow> m0
             | Leaf_Of sd u \<Rightarrow> emit_leaf c sd u (gap_before c la lb k sd prev) m0
             | Container_Of bb x y \<Rightarrow>
                 merge_container c bb x y (gap_before c la lb k SideA prev) (gap_before c la lb k SideB prev) m0)
       in merge_keys c bl la lb ks (if length (mg_text m1) = length (mg_text m) then prev else Some k) m1)" for prev m
    by (simp only: merge_keys.simps ch Let_def prod.case)
  show ?case
  proof (cases act)
    case Nothing
    then show ?thesis by (intro exI [of _ "cs @ ds"]) (simp add: step ds Let_def)
  next
    case (Leaf_Of sd u)
    then show ?thesis by (intro exI [of _ "cs @ ds"]) (simp add: step ds Let_def)
  next
    case (Container_Of bb x y)
    with 3(1) [OF ch [symmetric] refl] obtain es where
      "\<And>m ga gb. mg_conflicts (merge_container c bb x y ga gb m) = mg_conflicts m @ es" by blast
    with Container_Of show ?thesis by (intro exI [of _ "cs @ es @ ds"]) (simp add: step ds Let_def)
  qed
next
  case (4 c bb x y gap_a gap_b m)
  from 4 show ?case by (auto simp: merge_container.simps Let_def)
qed (simp add: merge_keys.simps)

lemma merge_level_conflicts: "mg_conflicts (merge_level c base a b m) = mg_conflicts m @ level_conflicts c base a b"
proof -
  obtain cs where cs: "\<And>m. mg_conflicts (merge_level c base a b m) = mg_conflicts m @ cs"
    using conflicts_added(1) by blast
  then have "level_conflicts c base a b = cs" by (simp add: level_conflicts_def merged_empty_def)
  with cs show ?thesis by simp
qed

lemma merge_keys_conflicts:
  "mg_conflicts (merge_keys c bl la lb ks prev m) = mg_conflicts m @ concat (map (key_conflicts c bl la lb) ks)"
proof (induction ks arbitrary: prev m)
  case (Cons k ks)
  obtain cs act where ch: "merge_choice c (find_base bl k) (level_find la k) (level_find lb k) = (cs, act)"
    by (cases "merge_choice c (find_base bl k) (level_find la k) (level_find lb k)")
  with Cons show ?case
    by (cases act) (simp_all add: merge_keys.simps Let_def key_conflicts_def merge_container.simps merge_level_conflicts)
qed (simp add: merge_keys.simps)

lemma level_conflicts_eq:
  "level_conflicts c base a b =
     (let la = fst (sides_of c base a b); lb = snd (sides_of c base a b); bl = base_level_of base
      in side_collisions c bl SideA la lb @ side_collisions c bl SideB lb la @
         concat (map (key_conflicts c bl la lb) (ordered_keys (base_keys_of base) (lv_keys la) (lv_keys lb))))"
  by (simp add: level_conflicts_def merge_level.simps Let_def merge_keys_conflicts merged_empty_def)

section \<open>Either order of the sides\<close>

definition swap_ctx :: "merge_ctx \<Rightarrow> merge_ctx" where
  "swap_ctx c =
     \<lparr>cx_base = cx_base c, cx_a = cx_b c, cx_b = cx_a c, cx_ren_a = cx_ren_b c, cx_ren_b = cx_ren_a c,
      cx_ops_a = cx_ops_b c, cx_ops_b = cx_ops_a c, cx_edits_a = cx_edits_b c, cx_edits_b = cx_edits_a c,
      cx_base_edits_a = cx_base_edits_b c, cx_base_edits_b = cx_base_edits_a c\<rparr>"

lemma swap_ctx_simps [simp]:
  "cx_base (swap_ctx c) = cx_base c" "cx_a (swap_ctx c) = cx_b c" "cx_b (swap_ctx c) = cx_a c"
  "cx_ops_a (swap_ctx c) = cx_ops_b c" "cx_ops_b (swap_ctx c) = cx_ops_a c"
  "cx_text (swap_ctx c) sd = cx_text c (side_other sd)"
  "cx_renames (swap_ctx c) sd = cx_renames c (side_other sd)"
  "cx_recorded (swap_ctx c) sd = cx_recorded c (side_other sd)"
  "cx_edits (swap_ctx c) sd = cx_edits c (side_other sd)"
  "cx_base_edits (swap_ctx c) sd = cx_base_edits c (side_other sd)"
  by (simp_all add: swap_ctx_def) (cases sd; simp)+

lemma side_other_other [simp]: "side_other (side_other sd) = sd"
  by (cases sd) simp_all

lemma sides_of_swap: "sides_of (swap_ctx c) base b a = (snd (sides_of c base a b), fst (sides_of c base a b))"
  by (simp add: sides_of_def)

lemma side_collisions_swap: "side_collisions (swap_ctx c) bl sd l other = side_collisions c bl (side_other sd) l other"
  unfolding side_collisions_def swap_ctx_simps ..

lemma change_is_renames_swap: "change_is_renames (swap_ctx c) sd b0 u = change_is_renames c (side_other sd) b0 u"
  unfolding change_is_renames_def swap_ctx_simps ..

fun act_children :: "merge_act \<Rightarrow> (munit option \<times> munit \<times> munit) option" where
  "act_children (Container_Of bb x y) = Some (bb, x, y)"
| "act_children _ = None"

lemma choice_new_swap:
  "fst (choice_new y x) = [] \<longleftrightarrow> fst (choice_new x y) = []"
  "act_children (snd (choice_new y x)) = map_option (\<lambda>(bb, x, y). (bb, y, x)) (act_children (snd (choice_new x y)))"
  by (auto simp: choice_new_def)

lemma choice_both_swap:
  "fst (choice_both (swap_ctx c) b0 y x) = [] \<longleftrightarrow> fst (choice_both c b0 x y) = []"
  "act_children (snd (choice_both (swap_ctx c) b0 y x)) =
     map_option (\<lambda>(bb, x, y). (bb, y, x)) (act_children (snd (choice_both c b0 x y)))"
  by (auto simp: choice_both_def change_is_renames_swap)

lemma choice_held_swap:
  "fst (choice_held (swap_ctx c) b0 y x) = [] \<longleftrightarrow> fst (choice_held c b0 x y) = []"
  "act_children (snd (choice_held (swap_ctx c) b0 y x)) =
     map_option (\<lambda>(bb, x, y). (bb, y, x)) (act_children (snd (choice_held c b0 x y)))"
  by (cases "changed b0 x"; cases "changed b0 y"; simp add: choice_held_def choice_both_swap Let_def)+

lemma choice_swap:
  "fst (merge_choice (swap_ctx c) bu y x) = [] \<longleftrightarrow> fst (merge_choice c bu x y) = []"
  "act_children (snd (merge_choice (swap_ctx c) bu y x)) =
     map_option (\<lambda>(bb, x, y). (bb, y, x)) (act_children (snd (merge_choice c bu x y)))"
  by (cases bu; cases x; cases y; simp add: merge_choice_def choice_held_swap; (rule choice_new_swap)?)+

lemma key_conflicts_eq:
  "key_conflicts c bl la lb k =
     (let ch = merge_choice c (find_base bl k) (level_find la k) (level_find lb k)
      in fst ch @ (case act_children (snd ch) of
                     None \<Rightarrow> []
                   | Some (bb, x, y) \<Rightarrow> level_conflicts c (map_option mu_children bb) (mu_children x) (mu_children y)))"
  by (auto simp: key_conflicts_def Let_def split: prod.splits merge_act.splits)

lemma act_children_in:
  "act_children (snd (merge_choice c bu x y)) = Some (bb, u, v) \<Longrightarrow> x = Some u \<and> y = Some v"
  using merge_choice_container [of c bu x y "fst (merge_choice c bu x y)" bb u v]
  by (cases "merge_choice c bu x y"; cases "snd (merge_choice c bu x y)") auto

lemma level_conflicts_swap: "level_conflicts (swap_ctx c) base b a = [] \<longleftrightarrow> level_conflicts c base a b = []"
proof (induction "size_list size a" arbitrary: base a b rule: less_induct)
  case less
  let ?la = "fst (sides_of c base a b)" and ?lb = "snd (sides_of c base a b)" and ?bl = "base_level_of base"
  have key: "key_conflicts (swap_ctx c) ?bl ?lb ?la k = [] \<longleftrightarrow> key_conflicts c ?bl ?la ?lb k = []" for k
  proof (cases "act_children (snd (merge_choice c (find_base ?bl k) (level_find ?la k) (level_find ?lb k)))")
    case None
    then show ?thesis by (simp add: key_conflicts_eq choice_swap Let_def)
  next
    case (Some t)
    obtain bb x y where t: "t = (bb, x, y)" by (cases t)
    from act_children_in [OF Some [unfolded t]] level_find_in [of ?la k x] have "x \<in> set a"
      by (simp add: sides_of_def)
    then have "size_list size (mu_children x) < size_list size a"
      using munit_children_size [of x] size_list_less [of x a] by linarith
    from less [OF this] Some t show ?thesis by (simp add: key_conflicts_eq choice_swap Let_def)
  qed
  show ?case
    by (simp add: level_conflicts_eq [of "swap_ctx c"] level_conflicts_eq [of c] sides_of_swap side_collisions_swap
        Let_def concat_eq_Nil_conv ordered_keys_set key) blast
qed

lemma file_ctx_swap: "file_ctx parse lang base b a ops_b ops_a = swap_ctx (file_ctx parse lang base a b ops_a ops_b)"
  by (simp add: file_ctx_def swap_ctx_def Let_def)

text \<open>C14: Whether a merge has conflicts does not depend on which side lands first.\<close>

theorem merge_clean_symmetric:
  assumes "merge_file parse lang base a b ops_a ops_b = Inr m"
  shows "\<exists>m'. merge_file parse lang base b a ops_b ops_a = Inr m' \<and> (mg_conflicts m' = [] \<longleftrightarrow> mg_conflicts m = [])"
proof -
  from assms obtain bu au bbu where
    "(case base of None \<Rightarrow> Inr None | Some f \<Rightarrow> rbind (build_units (fl_nodes f)) (\<lambda>us. Inr (Some us))) = Inr bu"
    "build_units (fl_nodes a) = Inr au" "build_units (fl_nodes b) = Inr bbu"
    and m: "m = merge_units (file_ctx parse lang base a b ops_a ops_b) bu au bbu"
    by (auto simp: merge_file_def result_simps)
  moreover have "mg_conflicts (merge_units c bu x y) = level_conflicts c bu x y" for c x y
    by (simp add: merge_units_def Let_def level_conflicts_def)
  ultimately show ?thesis
    by (simp add: merge_file_def file_ctx_swap [of parse lang base b a] level_conflicts_swap)
qed

section \<open>No change is lost\<close>

definition leaf_text :: "merge_ctx \<Rightarrow> side \<Rightarrow> munit \<Rightarrow> bytes" where
  "leaf_text c sd u = fst (apply_edits (cx_text c sd) (mu_start u) (mu_end u) (cx_edits c sd))"

lemma merge_keys_emits:
  assumes "merge_choice c (find_base bl k) (level_find la k) (level_find lb k) = (cs, Leaf_Of sd u)" "k \<in> set ks"
  shows "sublist (leaf_text c sd u) (mg_text (merge_keys c bl la lb ks prev m))"
  using assms(2)
proof (induction ks arbitrary: prev m)
  case (Cons j ks)
  show ?case
  proof (cases "j = k")
    case True
    let ?m1 = "emit_leaf c sd u (gap_before c la lb k sd prev) (add_conflicts cs m)"
    obtain prev' t where "mg_text (merge_keys c bl la lb (j # ks) prev m) = mg_text ?m1 @ t"
      using merge_grows(2) [of c bl la lb ks _ ?m1] by (simp add: merge_keys.simps True assms(1) Let_def) blast
    moreover obtain p where "mg_text ?m1 = p @ leaf_text c sd u"
      by (auto simp: emit_leaf_def leaf_text_def split: prod.splits)
    ultimately have "mg_text (merge_keys c bl la lb (j # ks) prev m) = p @ leaf_text c sd u @ t" by simp
    then show ?thesis unfolding sublist_def by blast
  next
    case False
    with Cons show ?thesis by (simp add: merge_keys.simps Let_def split: prod.splits)
  qed
qed simp

definition level_side :: "merge_ctx \<Rightarrow> munit list option \<Rightarrow> munit list \<Rightarrow> munit list \<Rightarrow> side \<Rightarrow> level" where
  "level_side c base a b sd = (case sd of SideA \<Rightarrow> fst (sides_of c base a b) | SideB \<Rightarrow> snd (sides_of c base a b))"

lemma find_base_iff:
  assumes "distinct (map mu_nid (units_or_none base))"
  shows "find_base (base_level_of base) k = Some b0 \<longleftrightarrow> b0 \<in> set (units_or_none base) \<and> k = KId (mu_nid b0)"
proof (cases base)
  case (Some us)
  let ?ks = "map (\<lambda>x. KId (mu_nid x)) us"
  have dist: "distinct ?ks" using assms Some by (simp add: units_or_none_def distinct_map inj_on_def)
  have "find_base (base_level_of base) k = map_of (zip ?ks us) k"
    by (simp add: Some find_base_def base_level_of_def level_find_def)
  moreover have "set (zip ?ks us) = {(KId (mu_nid x), x) | x. x \<in> set us}"
    by (induction us) auto
  moreover have "map_of (zip ?ks us) k = Some b0 \<longleftrightarrow> (k, b0) \<in> set (zip ?ks us)"
    using dist by (intro map_of_eq_Some_iff) simp
  ultimately show ?thesis by (auto simp: Some units_or_none_def)
qed (simp add: find_base_def base_level_of_def units_or_none_def)

lemma added_names_agree:
  assumes base: "distinct (map mu_nid (units_or_none base))"
    and none: "find_base (base_level_of base) k = None"
    and x: "level_find (level_side c base a b sd) k = Some x" and y: "level_find (level_side c base a b sd') k = Some y"
  shows "mu_name x = mu_name y"
proof -
  have key: "\<exists>n. k = KNew (mu_kind u) (mu_name u) n" if "level_find (level_side c base a b s) k = Some u" for s u
  proof -
    let ?l = "level_side c base a b s"
    obtain side rs where l: "lv_units ?l = side" "lv_keys ?l = unit_keys (Some (units_or_none base)) side rs"
      by (cases s) (auto simp: level_side_def sides_of_def unit_keys_or_none [of base])
    have "(k, u) \<in> set (zip (lv_keys ?l) (lv_units ?l))"
      using that by (simp add: level_find_def map_of_SomeD)
    then obtain i where i: "i < length side" "lv_keys ?l ! i = k" "side ! i = u"
      using that unit_keys_distinct(2) [OF base, of side rs]
      by (auto simp: in_set_zip l)
    show ?thesis
    proof (cases k)
      case (KNew kd nm n)
      with unit_keys_new [OF base i(1), of rs kd nm n] i l show ?thesis by auto
    next
      case (KId n)
      obtain out where out: "unit_keys (Some (units_or_none base)) side rs = map the out" "length out = length side" "None \<notin> set out"
        "\<forall>i < length side. \<forall>n. out ! i = Some (KId n) \<longrightarrow> (\<exists>b0 \<in> set (units_or_none base). n = mu_nid b0 \<and> meets rs (side ! i) b0)"
        by (rule unit_keys_slots [OF base, of side rs]) blast
      have "out ! i \<noteq> None" using i(1) out(2,3) by (metis nth_mem)
      moreover have "the (out ! i) = KId n" using i KId l out(1,2) by simp
      ultimately have "out ! i = Some (KId n)" by (simp add: option.expand)
      with out(4) i(1) obtain b0 where "b0 \<in> set (units_or_none base)" "n = mu_nid b0" by blast
      with none find_base_iff [OF base, of k b0] KId show ?thesis by simp
    qed
  qed
  from key [OF x] key [OF y] show ?thesis by auto
qed

text \<open>
  What a side did to a unit of a level: it added it, or changed its body or its name by more than its
  own renames.
\<close>

definition altered :: "merge_ctx \<Rightarrow> munit list option \<Rightarrow> munit list \<Rightarrow> munit list \<Rightarrow> side \<Rightarrow> nat \<Rightarrow> bool" where
  "altered c base a b sd i \<longleftrightarrow>
     (let l = level_side c base a b sd; u = lv_units l ! i
      in case find_base (base_level_of base) (lv_keys l ! i) of
           None \<Rightarrow> True
         | Some b0 \<Rightarrow> changed b0 u \<and> \<not> change_is_renames c sd b0 u)"

text \<open>
  How the merged text carries a unit of a side: whole, as that side or the other wrote it, with the same
  body and name; or, for a unit with members on both sides, member by member: the members are merged
  with those of the unit that the other side has under the same key, against those of the base unit with
  that key, and every member the side altered is carried in turn.
\<close>

inductive carried :: "merge_ctx \<Rightarrow> bytes \<Rightarrow> munit list option \<Rightarrow> munit list \<Rightarrow> munit list \<Rightarrow> side \<Rightarrow> munit \<Rightarrow> bool"
  for c :: merge_ctx and out :: bytes
where
  whole: "u' \<in> set (lv_units (level_side c base a b sd')) \<Longrightarrow> mu_body u' = mu_body u \<Longrightarrow> mu_name u' = mu_name u \<Longrightarrow>
     sublist (leaf_text c sd' u') out \<Longrightarrow> carried c out base a b sd u"
| members: "level_find (level_side c base a b SideA) k = Some x \<Longrightarrow> level_find (level_side c base a b SideB) k = Some y \<Longrightarrow>
     u = (case sd of SideA \<Rightarrow> x | SideB \<Rightarrow> y) \<Longrightarrow> mu_children x \<noteq> [] \<Longrightarrow> mu_children y \<noteq> [] \<Longrightarrow>
     base' = map_option mu_children (find_base (base_level_of base) k) \<Longrightarrow>
     (\<And>i. i < length (mu_children u) \<Longrightarrow> altered c base' (mu_children x) (mu_children y) sd i \<Longrightarrow>
        carried c out base' (mu_children x) (mu_children y) sd (mu_children u ! i)) \<Longrightarrow>
     carried c out base a b sd u"

text \<open>The ids of the units of a level are distinct, and so on in the members.\<close>

function distinct_units :: "munit list \<Rightarrow> bool" where
  "distinct_units us \<longleftrightarrow> distinct (map mu_nid us) \<and> (\<forall>u \<in> set us. distinct_units (mu_children u))"
  by pat_completeness auto
termination
proof (relation "measure (size_list size)")
  fix us :: "munit list" and u assume "u \<in> set us"
  then show "(mu_children u, us) \<in> measure (size_list size)"
    using munit_children_size [of u] size_list_less [of u us] by simp
qed simp

declare distinct_units.simps [simp del]

lemma distinct_units_top: "distinct_units us \<Longrightarrow> distinct (map mu_nid us)"
  by (simp add: distinct_units.simps [of us])

lemma distinct_units_in: "distinct_units us \<Longrightarrow> u \<in> set us \<Longrightarrow> distinct_units (mu_children u)"
  by (simp add: distinct_units.simps [of us])

lemma distinct_units_Nil [simp]: "distinct_units []"
  by (simp add: distinct_units.simps [of "[]"])

lemma make_units_distinct:
  "distinct (map node_nid nodes) \<Longrightarrow> distinct (map node_nid ns) \<Longrightarrow> make_units fuel nodes ns pe = Inr us \<Longrightarrow> map mu_nid us = map node_nid ns \<and> distinct_units us"
proof (induction fuel nodes ns pe arbitrary: us rule: make_units.induct)
  case (3 fuel nodes n ns pe)
  let ?kids = "nodes_under nodes (Some (node_nid n))"
  from 3(5) obtain cs us' where cs: "make_units fuel nodes ?kids (case ?kids of [] \<Rightarrow> span_end n | k # _ \<Rightarrow> span_start k) = Inr cs"
    and rest: "make_units (Suc fuel) nodes ns (span_end n) = Inr us'"
    and us: "us = MUnit (node_nid n) (node_kind n) (node_name n) (span_start n) (span_end n) (node_body n) pe cs # us'"
    by (auto simp: Let_def result_simps)
  have "distinct (map node_nid ?kids)" unfolding nodes_under_def by (rule distinct_map_filter [OF 3(3)])
  from 3(1) [OF refl refl 3(3) this cs] have "distinct_units cs" ..
  moreover have "map mu_nid us' = map node_nid ns \<and> distinct_units us'"
    using 3(2) [OF refl refl cs 3(3) _ rest] 3(4) by simp
  ultimately show ?case using 3(4) by (simp add: us distinct_units.simps [of us'] distinct_units.simps [of "_ # us'"])
qed simp_all

lemma level_find_keys:
  assumes "distinct (map mu_nid (units_or_none base))" "i < length (lv_units (level_side c base a b sd))"
  shows "level_find (level_side c base a b sd) (lv_keys (level_side c base a b sd) ! i) = Some (lv_units (level_side c base a b sd) ! i)"
    and "lv_keys (level_side c base a b sd) ! i \<in> set (ordered_keys (base_keys_of base)
       (lv_keys (level_side c base a b SideA)) (lv_keys (level_side c base a b SideB)))"
proof -
  let ?l = "level_side c base a b sd"
  have ok: "level_ok ?l" using sides_ok [OF assms(1)] by (cases sd) (auto simp: level_side_def)
  then have ik: "i < length (lv_keys ?l)" using assms(2) by (simp add: level_ok_def)
  show "level_find ?l (lv_keys ?l ! i) = Some (lv_units ?l ! i)" by (rule level_find_nth [OF ok ik])
  show "lv_keys ?l ! i \<in> set (ordered_keys (base_keys_of base)
       (lv_keys (level_side c base a b SideA)) (lv_keys (level_side c base a b SideB)))"
    using ik by (cases sd) (auto simp: ordered_keys_set)
qed

text \<open>What the merge of a level does for a key with no conflict: the text goes into the output.\<close>

lemma merge_keys_reaches:
  assumes "merge_choice c (find_base bl k) (level_find la k) (level_find lb k) = (cs, Container_Of bb x y)" "k \<in> set ks"
  shows "\<exists>m' s. mg_text (merge_keys c bl la lb ks prev m) =
    mg_text (merge_level c (map_option mu_children bb) (mu_children x) (mu_children y) m') @ s"
  using assms(2)
proof (induction ks arbitrary: prev m)
  case (Cons j ks)
  show ?case
  proof (cases "j = k")
    case True
    let ?m1 = "merge_container c bb x y (gap_before c la lb k SideA prev) (gap_before c la lb k SideB prev) (add_conflicts cs m)"
    obtain t where "mg_text (merge_keys c bl la lb (j # ks) prev m) = mg_text ?m1 @ t"
      using merge_grows(2) [of c bl la lb ks _ ?m1] by (simp add: merge_keys.simps True assms(1) Let_def) blast
    then show ?thesis by (auto simp: merge_container.simps Let_def)
  next
    case False
    with Cons show ?thesis by (simp add: merge_keys.simps Let_def split: prod.splits)
  qed
qed simp

text \<open>The choice for an altered unit, on either side.\<close>

lemma choice_carries_a:
  assumes "fst (merge_choice c bu (Some u) bbu) = []"
    and "\<And>b0. bu = Some b0 \<Longrightarrow> changed b0 u \<and> \<not> change_is_renames c SideA b0 u"
  shows "merge_choice c bu (Some u) bbu = ([], Leaf_Of SideA u) \<or>
    (\<exists>y. bbu = Some y \<and> mu_children u \<noteq> [] \<and> mu_children y \<noteq> [] \<and> merge_choice c bu (Some u) bbu = ([], Container_Of bu u y))"
  using assms
  by (cases bu; cases bbu)
     (auto simp: merge_choice_def choice_new_def choice_held_def choice_both_def split: if_splits bool.splits)

lemma choice_carries_b:
  assumes "fst (merge_choice c bu au (Some u)) = []"
    and "\<And>b0. bu = Some b0 \<Longrightarrow> changed b0 u \<and> \<not> change_is_renames c SideB b0 u"
  shows "merge_choice c bu au (Some u) = ([], Leaf_Of SideB u) \<or>
    (\<exists>x. au = Some x \<and> mu_body x = mu_body u \<and> (bu \<noteq> None \<longrightarrow> mu_name x = mu_name u) \<and>
         merge_choice c bu au (Some u) = ([], Leaf_Of SideA x)) \<or>
    (\<exists>x. au = Some x \<and> mu_children x \<noteq> [] \<and> mu_children u \<noteq> [] \<and> merge_choice c bu au (Some u) = ([], Container_Of bu x u))"
  using assms
  by (cases bu; cases au)
     (auto simp: merge_choice_def choice_new_def choice_held_def choice_both_def split: if_splits bool.splits)


lemma sublist_between: "sublist xs ys \<Longrightarrow> sublist xs (p @ ys @ s)"
  unfolding sublist_def by (metis append_assoc)

text \<open>What the merge does with an altered unit when it reports no conflict for its key.\<close>

lemma altered_choice:
  fixes base a b c
  defines "la \<equiv> level_side c base a b SideA" and "lb \<equiv> level_side c base a b SideB" and "bl \<equiv> base_level_of base"
  assumes base: "distinct (map mu_nid (units_or_none base))"
    and i: "i < length (lv_units (level_side c base a b sd))" "altered c base a b sd i"
    and u: "u = lv_units (level_side c base a b sd) ! i" and k: "k = lv_keys (level_side c base a b sd) ! i"
    and quiet: "fst (merge_choice c (find_base bl k) (level_find la k) (level_find lb k)) = []"
  shows "(\<exists>sd' u'. merge_choice c (find_base bl k) (level_find la k) (level_find lb k) = ([], Leaf_Of sd' u') \<and>
            u' \<in> set (lv_units (level_side c base a b sd')) \<and> mu_body u' = mu_body u \<and> mu_name u' = mu_name u) \<or>
         (\<exists>x y. merge_choice c (find_base bl k) (level_find la k) (level_find lb k) = ([], Container_Of (find_base bl k) x y) \<and>
            level_find la k = Some x \<and> level_find lb k = Some y \<and> u = (case sd of SideA \<Rightarrow> x | SideB \<Rightarrow> y) \<and>
            mu_children x \<noteq> [] \<and> mu_children y \<noteq> [])"
proof -
  have find: "level_find (level_side c base a b sd) k = Some u" using level_find_keys [OF base i(1)] by (simp add: u k)
  have own: "\<And>b0. find_base bl k = Some b0 \<Longrightarrow> changed b0 u \<and> \<not> change_is_renames c sd b0 u"
    using i(2) by (simp add: altered_def Let_def u k bl_def)
  have there: "x \<in> set (lv_units (level_side c base a b s))" if "level_find (level_side c base a b s) k = Some x" for s x
    using level_find_in [OF that] .
  show ?thesis
  proof (cases sd)
    case SideA
    with choice_carries_a [of c "find_base bl k" u "level_find lb k"] quiet find own there [of SideA u]
    show ?thesis unfolding la_def by auto
  next
    case SideB
    from choice_carries_b [of c "find_base bl k" "level_find la k" u] quiet find own
    consider "merge_choice c (find_base bl k) (level_find la k) (level_find lb k) = ([], Leaf_Of SideB u)"
      | x where "level_find la k = Some x" "mu_body x = mu_body u" "find_base bl k \<noteq> None \<longrightarrow> mu_name x = mu_name u"
        "merge_choice c (find_base bl k) (level_find la k) (level_find lb k) = ([], Leaf_Of SideA x)"
      | x where "level_find la k = Some x" "mu_children x \<noteq> []" "mu_children u \<noteq> []"
        "merge_choice c (find_base bl k) (level_find la k) (level_find lb k) = ([], Container_Of (find_base bl k) x u)"
      by (auto simp: SideB lb_def)
    then show ?thesis
    proof cases
      case 1
      with there [of SideB u] find show ?thesis by (auto simp: SideB)
    next
      case 2
      have "mu_name x = mu_name u"
        using 2(3) added_names_agree [OF base _ 2(1) [unfolded la_def] find] by (cases "find_base bl k") (auto simp: bl_def)
      with 2 there [of SideA x] show ?thesis unfolding la_def by blast
    next
      case 3
      with find show ?thesis by (auto simp: SideB lb_def)
    qed
  qed
qed

text \<open>A merge of a level without conflicts carries every altered unit of either side.\<close>

lemma altered_carried:
  assumes "distinct_units (units_or_none base)" "level_conflicts c base a b = []"
    and "out = p @ mg_text (merge_level c base a b m) @ s"
    and "i < length (lv_units (level_side c base a b sd))" "altered c base a b sd i"
  shows "carried c out base a b sd (lv_units (level_side c base a b sd) ! i)"
  using assms
proof (induction "size_list size a" arbitrary: base a b m p s i rule: less_induct)
  case less
  let ?la = "level_side c base a b SideA" and ?lb = "level_side c base a b SideB" and ?bl = "base_level_of base"
  let ?k = "lv_keys (level_side c base a b sd) ! i" and ?u = "lv_units (level_side c base a b sd) ! i"
  let ?ch = "merge_choice c (find_base ?bl ?k) (level_find ?la ?k) (level_find ?lb ?k)"
  let ?b = "map_option mu_children (find_base ?bl ?k)"
  have l: "fst (sides_of c base a b) = ?la" "snd (sides_of c base a b) = ?lb" by (simp_all add: level_side_def)
  note base = distinct_units_top [OF less.prems(1)]
  note find = level_find_keys [OF base less.prems(4)]
  have kc: "key_conflicts c ?bl ?la ?lb ?k = []"
    using less.prems(2) find(2) by (simp add: level_conflicts_eq [of c base a b] l Let_def)
  then have quiet: "fst ?ch = []" by (simp add: key_conflicts_eq [of c ?bl ?la ?lb ?k] Let_def)
  have out: "out = p @ mg_text (merge_keys c ?bl ?la ?lb (ordered_keys (base_keys_of base) (lv_keys ?la) (lv_keys ?lb)) None
      (add_conflicts (side_collisions c ?bl SideA ?la ?lb @ side_collisions c ?bl SideB ?lb ?la) m)) @ s"
    using less.prems(3) by (simp add: merge_level.simps l Let_def)
  from altered_choice [OF base less.prems(4,5) refl refl quiet]
  consider sd' u' where "?ch = ([], Leaf_Of sd' u')" "u' \<in> set (lv_units (level_side c base a b sd'))"
      "mu_body u' = mu_body ?u" "mu_name u' = mu_name ?u"
    | x y where "?ch = ([], Container_Of (find_base ?bl ?k) x y)" "level_find ?la ?k = Some x" "level_find ?lb ?k = Some y"
        "?u = (case sd of SideA \<Rightarrow> x | SideB \<Rightarrow> y)" "mu_children x \<noteq> []" "mu_children y \<noteq> []" by blast
  then show ?case
  proof cases
    case 1
    have "sublist (leaf_text c sd' u') out" unfolding out by (rule sublist_between [OF merge_keys_emits [OF 1(1) find(2)]])
    from carried.whole [OF 1(2-4) this] show ?thesis .
  next
    case 2
    show ?thesis
    proof (rule carried.members [OF 2(2-6) refl])
      fix j assume j: "j < length (mu_children ?u)" "altered c ?b (mu_children x) (mu_children y) sd j"
      have "x \<in> set a" using level_find_in [OF 2(2)] by (simp add: level_side_def sides_of_def)
      then have "size_list size (mu_children x) < size_list size a"
        using munit_children_size [of x] size_list_less [of x a] by linarith
      moreover have "distinct_units (units_or_none ?b)"
        using find_base_iff [OF base, of ?k] distinct_units_in [OF less.prems(1)]
        by (cases "find_base ?bl ?k") (auto simp: units_or_none_def)
      moreover have "level_conflicts c ?b (mu_children x) (mu_children y) = []"
        using kc 2(1) by (simp add: key_conflicts_eq [of c ?bl ?la ?lb ?k])
      moreover obtain m' s' where "out = p @ mg_text (merge_level c ?b (mu_children x) (mu_children y) m') @ s'"
        using merge_keys_reaches [OF 2(1) find(2)] out by (metis append_assoc)
      moreover have "lv_units (level_side c ?b (mu_children x) (mu_children y) sd) = mu_children ?u"
        by (cases sd) (use 2(4) in \<open>simp_all add: level_side_def sides_of_def\<close>)
      ultimately show "carried c out ?b (mu_children x) (mu_children y) sd (mu_children ?u ! j)"
        using less.hyps [of "mu_children x" ?b "mu_children y" p m' s' j] j by simp
    qed
  qed
qed

lemma build_units_distinct_units:
  assumes "build_units nodes = Inr us" "distinct (map node_nid nodes)"
  shows "distinct_units us"
proof -
  have "distinct (map node_nid (nodes_under nodes None))" unfolding nodes_under_def by (rule distinct_map_filter [OF assms(2)])
  from make_units_distinct [OF assms(2) this] assms(1) show ?thesis by (simp add: build_units_def)
qed

text \<open>C12: When a file merges without a conflict, every unit, at any depth, that a side added, or whose body or name
  it changed by more than its own renames, is carried: the merged text holds the unit, with the renames
  of the other side applied, as that side or as the other wrote it, with the same body and the same name
  in both; or both sides have the unit and it has members on both, and then every member of it that the
  side added or changed is carried in turn. The header and the footer of such a unit and the text
  between units are not units and not covered: the merge can drop a change to them
  (\<open>header_change_lost\<close>, \<open>gap_change_lost\<close>).\<close>

theorem no_lost_change:
  assumes "merge_file parse lang base a b ops_a ops_b = Inr m" and "mg_conflicts m = []"
    and "\<And>f. base = Some f \<Longrightarrow> distinct (map node_nid (fl_nodes f)) \<and> build_units (fl_nodes f) = Inr us"
    and "build_units (fl_nodes a) = Inr xs" and "build_units (fl_nodes b) = Inr ys"
    and "i < length (case sd of SideA \<Rightarrow> xs | SideB \<Rightarrow> ys)"
    and "altered (file_ctx parse lang base a b ops_a ops_b) (map_option (\<lambda>_. us) base) xs ys sd i"
  shows "carried (file_ctx parse lang base a b ops_a ops_b) (mg_text m) (map_option (\<lambda>_. us) base) xs ys sd
           ((case sd of SideA \<Rightarrow> xs | SideB \<Rightarrow> ys) ! i)"
proof -
  let ?c = "file_ctx parse lang base a b ops_a ops_b" and ?b = "map_option (\<lambda>_. us) base"
  have m: "m = merge_units ?c ?b xs ys"
    using assms(1,3-5) by (cases base) (auto simp: merge_file_def result_simps)
  have "distinct_units (units_or_none ?b)"
    using assms(3) build_units_distinct_units by (cases base) (auto simp: units_or_none_def)
  moreover have "level_conflicts ?c ?b xs ys = []"
    using assms(2) by (simp add: m merge_units_def Let_def level_conflicts_def)
  moreover obtain s where "mg_text m = [] @ mg_text (merge_level ?c ?b xs ys merged_empty) @ s"
    by (simp add: m merge_units_def Let_def)
  moreover have "lv_units (level_side ?c ?b xs ys sd) = (case sd of SideA \<Rightarrow> xs | SideB \<Rightarrow> ys)"
    by (cases sd) (simp_all add: level_side_def sides_of_def)
  ultimately show ?thesis using altered_carried [of ?b ?c xs ys "mg_text m" "[]" merged_empty s i sd] assms(6,7) by simp
qed

end
