(* ===== verification/Merge_Witnesses.thy ===== *)
theory Merge_Witnesses
  imports Merge_Clean
begin

text \<open>
  Concrete merges: witnesses of the theorems on merged files, and two changes that a merge loses without
  a conflict.
\<close>

section \<open>Small files\<close>

definition sample_node :: "eid \<Rightarrow> string \<Rightarrow> nat \<Rightarrow> nat \<Rightarrow> oid \<Rightarrow> eid option \<Rightarrow> node" where
  "sample_node nid name s e body parent =
     \<lparr>node_nid = nid, node_path = ''f.rs'', node_kind = ''function'', node_name = name,
      node_span = (of_nat s, of_nat e), node_body = body, node_parent = parent, node_deps = None,
      node_setlike = None\<rparr>"

definition sample_file :: "string \<Rightarrow> node list \<Rightarrow> file_nodes" where
  "sample_file src nodes = \<lparr>fl_text = ascii src, fl_nodes = nodes\<rparr>"

definition no_parser :: parser where
  "no_parser = (\<lambda>_ _. None)"

definition two_units :: file_nodes where
  "two_units = sample_file ''f1 g1'' [sample_node [1] ''f'' 0 2 [1] None, sample_node [2] ''g'' 3 5 [2] None]"

definition three_units :: file_nodes where
  "three_units = sample_file ''f9 g1 h1''
     [sample_node [1] ''f'' 0 2 [9] None, sample_node [2] ''g'' 3 5 [2] None, sample_node [3] ''h'' 6 8 [3] None]"

definition units_of :: "file_nodes \<Rightarrow> munit list" where
  "units_of f = (case build_units (fl_nodes f) of Inr us \<Rightarrow> us | Inl _ \<Rightarrow> [])"

text \<open>Another file: a container whose header and member may change.\<close>

definition one_container :: "string \<Rightarrow> oid \<Rightarrow> oid \<Rightarrow> file_nodes" where
  "one_container src body member =
     sample_file src [sample_node [1] ''K'' 0 7 body None, sample_node [2] ''m'' 4 6 member (Some [1])]"

definition two_spaces :: file_nodes where
  "two_spaces = sample_file ''f1  g1'' [sample_node [1] ''f'' 0 2 [1] None, sample_node [2] ''g'' 4 6 [2] None]"

definition merged_text :: "merged res \<Rightarrow> bytes option" where
  "merged_text r = (case r of Inr m \<Rightarrow> Some (mg_text m) | Inl _ \<Rightarrow> None)"

definition is_clean :: "merged res \<Rightarrow> bool" where
  "is_clean r = (case r of Inr m \<Rightarrow> mg_conflicts m = [] | Inl _ \<Rightarrow> False)"

lemma sample_units:
  "build_units (fl_nodes two_units) = Inr (units_of two_units)"
  "build_units (fl_nodes three_units) = Inr (units_of three_units)"
  "distinct (map node_nid (fl_nodes two_units))"
  "distinct (map mu_nid (units_of two_units))" "distinct (map mu_nid (units_of three_units))"
  "file_units (fl_text three_units) (units_of three_units)"
  "agrees (unit_keys (Some (units_of two_units)) (units_of three_units) []) (map (\<lambda>u. KId (mu_nid u)) (units_of two_units))"
  by code_simp+

section \<open>Witnesses\<close>

lemma keys_line_up_witness:
  "length (unit_keys (Some (units_of two_units)) (units_of three_units) []) = length (units_of three_units) \<and>
   distinct (unit_keys (Some (units_of two_units)) (units_of three_units) [])"
  using keys_line_up [OF sample_units(4,5), of "[]"] by blast

lemma merged_order_witness:
  "filter (\<lambda>k. k \<in> {KId [1], KNew ''f'' ''x'' 0, KId [2]})
     (ordered_keys [KId [1], KId [2]] [KId [1], KNew ''f'' ''x'' 0, KId [2]] [KId [2], KNew ''f'' ''y'' 0]) =
   [KId [1], KNew ''f'' ''x'' 0, KId [2]] \<and>
   filter (\<lambda>k. k \<in> {KId [2], KNew ''f'' ''y'' 0})
     (ordered_keys [KId [1], KId [2]] [KId [1], KNew ''f'' ''x'' 0, KId [2]] [KId [2], KNew ''f'' ''y'' 0]) =
   [KId [2], KNew ''f'' ''y'' 0]"
  using merged_order [of "[KId [1], KId [2]]" "[KId [1], KNew ''f'' ''x'' 0, KId [2]]" "[KId [2], KNew ''f'' ''y'' 0]"]
  by (simp add: agrees_def)

text \<open>Two keys that both sides add in opposite orders come out in the order of the first side.\<close>

lemma first_side_orders_added:
  "ordered_keys [] [KNew ''f'' ''x'' 0, KNew ''f'' ''y'' 0] [KNew ''f'' ''y'' 0, KNew ''f'' ''x'' 0] =
   [KNew ''f'' ''x'' 0, KNew ''f'' ''y'' 0]"
  by code_simp

lemma merge_unchanged_side_witness:
  "\<exists>m. merge_file no_parser None (Some two_units) two_units three_units [] [] = Inr m \<and> mg_text m = fl_text three_units"
  by (rule merge_unchanged_side [OF sample_units(1,2,3,6,7)])

lemma merge_equal_sides_witness:
  "\<exists>m. merge_file no_parser None (Some two_units) three_units three_units [] [] = Inr m \<and> mg_text m = fl_text three_units"
  by (rule merge_equal_sides [where us = "units_of two_units" and xs = "units_of three_units"])
     (simp add: sample_units, simp, (rule sample_units)+, code_simp, rule sample_units)

lemma merge_clean_symmetric_witness:
  "\<exists>m m'. merge_file no_parser None (Some two_units) three_units two_spaces [] [] = Inr m \<and>
     merge_file no_parser None (Some two_units) two_spaces three_units [] [] = Inr m' \<and>
     (mg_conflicts m' = [] \<longleftrightarrow> mg_conflicts m = [])"
proof -
  have "is_clean (merge_file no_parser None (Some two_units) three_units two_spaces [] [])" by code_simp
  then obtain m where "merge_file no_parser None (Some two_units) three_units two_spaces [] [] = Inr m"
    by (auto simp: is_clean_def split: sum.splits)
  with merge_clean_symmetric [OF this] show ?thesis by blast
qed

text \<open>Both sides change a member of a container, each another one.\<close>

definition two_members :: "string \<Rightarrow> oid \<Rightarrow> oid \<Rightarrow> oid \<Rightarrow> file_nodes" where
  "two_members src body m n =
     sample_file src [sample_node [1] ''K'' 0 9 body None, sample_node [2] ''m'' 3 5 m (Some [1]),
       sample_node [3] ''n'' 6 8 n (Some [1])]"

definition members_text :: "string \<Rightarrow> string \<Rightarrow> string" where
  "members_text m n = ''K{'' @ [CHR 0x0A] @ m @ '' '' @ n @ ''}''"

definition members_base :: file_nodes where "members_base = two_members (members_text ''m1'' ''n1'') [1] [2] [3]"
definition members_a :: file_nodes where "members_a = two_members (members_text ''m9'' ''n1'') [4] [5] [3]"
definition members_b :: file_nodes where "members_b = two_members (members_text ''m1'' ''n9'') [6] [2] [7]"

lemma sample_members:
  "build_units (fl_nodes members_base) = Inr (units_of members_base)"
  "build_units (fl_nodes members_a) = Inr (units_of members_a)"
  "build_units (fl_nodes members_b) = Inr (units_of members_b)"
  "distinct (map node_nid (fl_nodes members_base))"
  "merged_text (merge_file no_parser None (Some members_base) members_a members_b [] []) = Some (ascii (members_text ''m9'' ''n9''))"
  "is_clean (merge_file no_parser None (Some members_base) members_a members_b [] [])"
  "0 < length (units_of members_b)"
  "altered (file_ctx no_parser None (Some members_base) members_a members_b [] []) (Some (units_of members_base))
     (units_of members_a) (units_of members_b) SideB 0"
  by code_simp+

lemma no_lost_change_witness:
  "merged_text (merge_file no_parser None (Some members_base) members_a members_b [] []) = Some (ascii (members_text ''m9'' ''n9'')) \<and>
   carried (file_ctx no_parser None (Some members_base) members_a members_b [] []) (ascii (members_text ''m9'' ''n9'')) (Some (units_of members_base))
     (units_of members_a) (units_of members_b) SideB (units_of members_b ! 0)"
proof -
  obtain m where m: "merge_file no_parser None (Some members_base) members_a members_b [] [] = Inr m"
    "mg_conflicts m = []" "mg_text m = ascii (members_text ''m9'' ''n9'')"
    using sample_members(5,6) by (auto simp: merged_text_def is_clean_def split: sum.splits)
  have "Some members_base = Some f \<Longrightarrow> distinct (map node_nid (fl_nodes f)) \<and> build_units (fl_nodes f) = Inr (units_of members_base)" for f
    using sample_members(1,4) by auto
  from no_lost_change [OF m(1,2) this sample_members(2,3), of 0 SideB] sample_members(5,7,8) m(3) show ?thesis by simp
qed

section \<open>Changes that are lost\<close>

text \<open>
  Text between units is taken from the second side unless only the first side has the unit or changed
  it: a change that the first side made before a unit that neither side touched is dropped, although the
  second side did not make one there.
\<close>

lemma gap_change_lost:
  "merged_text (merge_file no_parser None (Some two_units) two_spaces three_units [] []) = Some (fl_text three_units)"
  "is_clean (merge_file no_parser None (Some two_units) two_spaces three_units [] [])"
  "fl_text two_spaces \<noteq> fl_text two_units"
  by code_simp+

text \<open>
  The same holds when the second side changed nothing at all: a file that only the first side changed,
  between two units, merges to the file of the second side.
\<close>

lemma first_side_alone_lost:
  "merged_text (merge_file no_parser None (Some two_units) two_spaces two_units [] []) = Some (fl_text two_units)"
  "is_clean (merge_file no_parser None (Some two_units) two_spaces two_units [] [])"
  by code_simp+

text \<open>
  When both sides change the header of a container, the header of the second side is dropped.
\<close>

lemma header_change_lost:
  "merged_text (merge_file no_parser None (Some (one_container ''K:p{m1}'' [1] [2]))
     (one_container ''K:q{m1}'' [3] [2]) (one_container ''K:r{m2}'' [4] [5]) [] []) = Some (ascii (''K:q{'' @ [CHR 0x0A] @ ''m2}''))"
  "is_clean (merge_file no_parser None (Some (one_container ''K:p{m1}'' [1] [2]))
     (one_container ''K:q{m1}'' [3] [2]) (one_container ''K:r{m2}'' [4] [5]) [] [])"
  by code_simp+

end
