(* ===== verification/Extract.thy ===== *)
theory Extract
  imports Renames Glob
begin

text \<open>
  Extraction of the units of a file: \<open>crates/tessra-semantic/src/extract.rs\<close>, with \<open>body_hash\<close> and
  \<open>extract\<close> of \<open>lib.rs\<close>.

  The parser, BLAKE3 and the standard library's hash of a pair of tokens are the record \<open>sem_ext\<close>. Source
  is taken to be ASCII where the code converts it to text, so that conversion does not fail and white
  space is the ASCII one.
\<close>

section \<open>Raw nodes\<close>

record sem_ext =
  sx_parse :: parser
  sx_blake :: "bytes \<Rightarrow> bytes"
  sx_bigram :: "bytes \<Rightarrow> bytes \<Rightarrow> 64 word"

record raw_node =
  rw_kind :: string
  rw_name :: string
  rw_span :: "nat \<times> nat"
  rw_body :: oid
  rw_parent :: "nat option"
  rw_setlike :: bool
  rw_refs :: "string list"
  rw_shingles :: "64 word list"

section \<open>Text\<close>

definition chars_of :: "bytes \<Rightarrow> string" where
  "chars_of bs = map (\<lambda>b. char_of (unat b)) bs"

definition node_text :: "bytes \<Rightarrow> ts_node \<Rightarrow> string" where
  "node_text src n = chars_of (ts_text src n)"

definition is_space :: "char \<Rightarrow> bool" where
  "is_space c \<longleftrightarrow> (let n = of_char c :: nat in 9 \<le> n \<and> n \<le> 13 \<or> n = 32)"

fun split_space :: "string \<Rightarrow> string list" where
  "split_space [] = []"
| "split_space (c # cs) =
     (if is_space c then split_space cs
      else (case cs of
              [] \<Rightarrow> [[c]]
            | d # _ \<Rightarrow>
                if is_space d then [c] # split_space cs
                else (case split_space cs of [] \<Rightarrow> [[c]] | w # ws \<Rightarrow> (c # w) # ws)))"

fun join_with :: "string \<Rightarrow> string list \<Rightarrow> string" where
  "join_with sep [] = []"
| "join_with sep [w] = w"
| "join_with sep (w # v # ws) = w @ sep @ join_with sep (v # ws)"

definition one_line :: "string \<Rightarrow> string" where
  "one_line s = join_with '' '' (split_space s)"

definition str_contains :: "string \<Rightarrow> string \<Rightarrow> bool" where
  "str_contains s p \<longleftrightarrow> list_ex (\<lambda>i. take (length p) (drop i s) = p) [0..<Suc (length s)]"

definition ends_with :: "string \<Rightarrow> string \<Rightarrow> bool" where
  "ends_with s p \<longleftrightarrow> strip_suffix s p \<noteq> None"

lemma strip_suffix_shorter: "strip_suffix s p = Some t \<Longrightarrow> p \<noteq> [] \<Longrightarrow> length t < length s"
  by (cases p; cases s) (auto simp: strip_suffix_def split: if_splits)

function trim_end_str :: "string \<Rightarrow> string \<Rightarrow> string" where
  "trim_end_str s p =
     (if p = [] then s
      else (case strip_suffix s p of Some t \<Rightarrow> trim_end_str t p | None \<Rightarrow> s))"
  by pat_completeness auto
termination by (relation "measure (\<lambda>(s, p). length s)") (auto dest: strip_suffix_shorter)

declare trim_end_str.simps [simp del]

definition trim_chars :: "(char \<Rightarrow> bool) \<Rightarrow> string \<Rightarrow> string" where
  "trim_chars P s = rev (dropWhile P (rev (dropWhile P s)))"

section \<open>Names\<close>

definition field_text :: "ts_node \<Rightarrow> string \<Rightarrow> bytes \<Rightarrow> string option" where
  "field_text n f src = map_option (node_text src) (child_by_field f n)"

definition opt_text :: "string option \<Rightarrow> string" where
  "opt_text t = (case t of None \<Rightarrow> [] | Some s \<Rightarrow> s)"

definition first_ident :: "ts_node \<Rightarrow> bytes \<Rightarrow> string" where
  "first_ident n src =
     (case find (\<lambda>c. ts_kind c \<in> {''identifier'', ''type_identifier'', ''property_identifier'', ''private_property_identifier''})
             (ts_children n) of
        None \<Rightarrow> []
      | Some c \<Rightarrow> node_text src c)"

definition name_of :: "ts_node \<Rightarrow> bytes \<Rightarrow> string" where
  "name_of n src = (case field_text n ''name'' src of Some t \<Rightarrow> t | None \<Rightarrow> first_ident n src)"

definition first_named :: "ts_node \<Rightarrow> ts_node option" where
  "first_named n = find ts_named (ts_children n)"

section \<open>Classification\<close>

datatype node_class =
    CUnit string string bool "ts_node option" bool
  | CPrefix
  | CSkip

abbreviation plain_unit :: "string \<Rightarrow> string \<Rightarrow> node_class" where
  "plain_unit kind name \<equiv> CUnit kind name False None False"

abbreviation set_unit :: "string \<Rightarrow> string \<Rightarrow> node_class" where
  "set_unit kind name \<equiv> CUnit kind name True None False"

abbreviation statement_unit :: node_class where
  "statement_unit \<equiv> plain_unit ''statement'' []"

definition container_unit :: "string \<Rightarrow> string \<Rightarrow> ts_node \<Rightarrow> bool \<Rightarrow> node_class" where
  "container_unit kind name n kids_setlike = CUnit kind name False (child_by_field ''body'' n) kids_setlike"

definition impl_name :: "ts_node \<Rightarrow> bytes \<Rightarrow> string" where
  "impl_name n src =
     (let ty = opt_text (field_text n ''type'' src)
      in case field_text n ''trait'' src of Some t \<Rightarrow> t @ '' for '' @ ty | None \<Rightarrow> ty)"

definition classify_rust :: "ts_node \<Rightarrow> bytes \<Rightarrow> node_class" where
  "classify_rust n src =
     (let k = ts_kind n
      in if k \<in> {''function_item'', ''function_signature_item''} then plain_unit ''function'' (name_of n src)
         else if k = ''impl_item'' then container_unit ''impl'' (impl_name n src) n True
         else if k = ''trait_item'' then container_unit ''trait'' (name_of n src) n True
         else if k = ''mod_item'' then container_unit ''module'' (name_of n src) n False
         else if k \<in> {''struct_item'', ''union_item''} then container_unit ''struct'' (name_of n src) n True
         else if k = ''enum_item'' then container_unit ''enum'' (name_of n src) n True
         else if k = ''field_declaration'' then set_unit ''field'' (name_of n src)
         else if k = ''enum_variant'' then set_unit ''variant'' (name_of n src)
         else if k \<in> {''use_declaration'', ''extern_crate_declaration''} then set_unit ''import'' (one_line (node_text src n))
         else if k = ''const_item'' then plain_unit ''const'' (name_of n src)
         else if k = ''static_item'' then plain_unit ''static'' (name_of n src)
         else if k = ''type_item'' then plain_unit ''type'' (name_of n src)
         else if k = ''macro_definition'' then plain_unit ''macro'' (name_of n src)
         else if k = ''foreign_mod_item'' then plain_unit ''extern'' []
         else if k \<in> {''attribute_item'', ''inner_attribute_item''} then CPrefix
         else if k \<in> {''line_comment'', ''block_comment''}
         then let t = node_text src n
              in if starts_with t ''///'' \<or> starts_with t ''//!'' \<or> starts_with t ''/**'' then CPrefix else CSkip
         else if k = ''empty_statement'' then CSkip
         else statement_unit)"

definition variable_name :: "ts_node \<Rightarrow> bytes \<Rightarrow> string" where
  "variable_name n src =
     (case first_named n of
        Some d \<Rightarrow> if ts_kind d = ''variable_declarator'' then one_line (opt_text (field_text d ''name'' src)) else []
      | None \<Rightarrow> [])"

definition is_quote :: "char \<Rightarrow> bool" where
  "is_quote c \<longleftrightarrow> c = CHR 0x22 \<or> c = CHR 0x27 \<or> c = CHR 0x60"

definition classify_call :: "ts_node \<Rightarrow> bytes \<Rightarrow> node_class" where
  "classify_call call src =
     (let callee = opt_text (field_text call ''function'' src);
          base = trim_end_str callee ''.only'';
          skipped = base \<in> {''xit'', ''xtest'', ''xdescribe''} \<or> ends_with base ''.skip'' \<or> ends_with base ''.todo''
      in if skipped \<or> base \<in> {''test'', ''it'', ''describe''}
         then let arg = (case child_by_field ''arguments'' call of None \<Rightarrow> None | Some a \<Rightarrow> first_named a);
                  title = (case arg of
                             Some s \<Rightarrow> if ts_kind s \<in> {''string'', ''template_string''}
                                       then one_line (trim_chars is_quote (node_text src s))
                                       else one_line callee
                           | None \<Rightarrow> one_line callee)
              in plain_unit (if skipped then ''test.skipped'' else ''test'') title
         else statement_unit)"

lemma child_by_field_in: "child_by_field f n = Some c \<Longrightarrow> c \<in> set (ts_children n)"
proof -
  have "field_from f i cs = Some j \<Longrightarrow> i \<le> j \<and> j < i + length cs" for i j cs
    by (induction cs arbitrary: i) (auto split: if_splits, fastforce+)
  then show "child_by_field f n = Some c \<Longrightarrow> c \<in> set (ts_children n)"
    by (fastforce simp: child_by_field_def field_child_def)
qed

lemma first_named_in: "first_named n = Some c \<Longrightarrow> c \<in> set (ts_children n)"
  by (auto simp: first_named_def find_Some_iff)

lemma child_size: "c \<in> set (ts_children n) \<Longrightarrow> size c < size n"
  using size_list_less [of c "ts_children n"] by (cases n) simp

function classify_python :: "ts_node \<Rightarrow> bytes \<Rightarrow> node_class" where
  "classify_python n src =
     (let k = ts_kind n
      in if k = ''function_definition'' then plain_unit ''function'' (name_of n src)
         else if k = ''class_definition'' then container_unit ''class'' (name_of n src) n True
         else if k = ''decorated_definition''
         then (case child_by_field ''definition'' n of Some d \<Rightarrow> classify_python d src | None \<Rightarrow> statement_unit)
         else if k \<in> {''import_statement'', ''import_from_statement'', ''future_import_statement''}
         then set_unit ''import'' (one_line (node_text src n))
         else if k = ''expression_statement''
         then (case first_named n of
                 Some a \<Rightarrow>
                   if ts_kind a \<in> {''assignment'', ''augmented_assignment''}
                   then plain_unit ''assignment'' (opt_text (map_option one_line (field_text a ''left'' src)))
                   else statement_unit
               | None \<Rightarrow> statement_unit)
         else if k = ''comment'' then CPrefix
         else statement_unit)"
  by pat_completeness auto
termination by (relation "measure (\<lambda>(n, src). size n)") (auto intro: child_size child_by_field_in)

definition export_inner :: "ts_node \<Rightarrow> ts_node option" where
  "export_inner n =
     (case child_by_field ''declaration'' n of
        Some d \<Rightarrow> Some d
      | None \<Rightarrow>
          (case first_named n of
             Some c \<Rightarrow> if ts_kind c \<in> {''export_clause'', ''string''} then None else Some c
           | None \<Rightarrow> None))"

lemma export_inner_in: "export_inner n = Some d \<Longrightarrow> d \<in> set (ts_children n)"
  by (auto simp: export_inner_def child_by_field_in first_named_in split: option.splits if_splits)

definition export_unit :: "ts_node \<Rightarrow> bytes \<Rightarrow> node_class" where
  "export_unit n src = set_unit ''export'' (one_line (node_text src n))"

function classify_js :: "ts_node \<Rightarrow> bytes \<Rightarrow> node_class" where
  "classify_js n src =
     (let k = ts_kind n
      in if k \<in> {''function_declaration'', ''generator_function_declaration'', ''function_signature''}
         then plain_unit ''function'' (name_of n src)
         else if k \<in> {''class_declaration'', ''abstract_class_declaration'', ''class''}
         then container_unit ''class'' (name_of n src) n True
         else if k \<in> {''method_definition'', ''method_signature'', ''abstract_method_signature''}
         then set_unit ''method'' (name_of n src)
         else if k \<in> {''public_field_definition'', ''field_definition'', ''property_signature''}
         then set_unit ''field'' (name_of n src)
         else if k \<in> {''lexical_declaration'', ''variable_declaration''} then plain_unit ''variable'' (variable_name n src)
         else if k = ''import_statement'' then set_unit ''import'' (one_line (node_text src n))
         else if k = ''export_statement''
         then (case export_inner n of
                 Some d \<Rightarrow>
                   if ts_kind d \<noteq> ''identifier''
                   then (case classify_js d src of
                           CUnit kind name sl body ks \<Rightarrow> CUnit kind name sl body ks
                         | _ \<Rightarrow> export_unit n src)
                   else export_unit n src
               | None \<Rightarrow> export_unit n src)
         else if k = ''interface_declaration'' then container_unit ''interface'' (name_of n src) n True
         else if k = ''type_alias_declaration'' then plain_unit ''type'' (name_of n src)
         else if k = ''enum_declaration'' then container_unit ''enum'' (name_of n src) n True
         else if k \<in> {''enum_assignment'', ''property_identifier''}
         then set_unit ''variant'' (if k = ''enum_assignment'' then name_of n src else node_text src n)
         else if k = ''decorator'' then CPrefix
         else if k = ''comment'' then if starts_with (node_text src n) ''/**'' then CPrefix else CSkip
         else if k = ''empty_statement'' then CSkip
         else if k = ''expression_statement''
         then (case first_named n of
                 Some call \<Rightarrow> if ts_kind call = ''call_expression'' then classify_call call src else statement_unit
               | None \<Rightarrow> statement_unit)
         else statement_unit)"
  by pat_completeness auto
termination by (relation "measure (\<lambda>(n, src). size n)") (auto intro: child_size export_inner_in)

declare classify_python.simps [simp del] classify_js.simps [simp del]

definition classify :: "language \<Rightarrow> ts_node \<Rightarrow> bytes \<Rightarrow> node_class" where
  "classify lang n src =
     (case lang of Rust \<Rightarrow> classify_rust n src | Python \<Rightarrow> classify_python n src | _ \<Rightarrow> classify_js n src)"

section \<open>Tokens\<close>

definition comment_kinds :: "string list" where
  "comment_kinds = [''line_comment'', ''block_comment'', ''comment'']"

definition ident_kinds :: "string list" where
  "ident_kinds =
     [''identifier'', ''type_identifier'', ''field_identifier'', ''property_identifier'',
      ''shorthand_property_identifier'', ''shorthand_property_identifier_pattern'']"

definition is_closer :: "string \<Rightarrow> bool" where
  "is_closer kind \<longleftrightarrow> kind \<in> {'')'', '']'', ''}'', ''>''}"

definition is_tuple :: "string \<Rightarrow> bool" where
  "is_tuple kind \<longleftrightarrow> kind \<in> {''tuple_expression'', ''tuple_type'', ''tuple_pattern'', ''tuple''}"

text \<open>A separator directly before the closing bracket of its group.\<close>

definition trailing_comma :: "ts_node \<Rightarrow> ts_node list \<Rightarrow> bool" where
  "trailing_comma c cs \<longleftrightarrow> ts_kind c = '','' \<and> (case cs of d # _ \<Rightarrow> is_closer (ts_kind d) | [] \<Rightarrow> False)"

fun tokens :: "language \<Rightarrow> bytes \<Rightarrow> ts_node \<Rightarrow> bytes list \<times> bytes list"
and tokens_all :: "language \<Rightarrow> bytes \<Rightarrow> bool \<Rightarrow> ts_node list \<Rightarrow> bytes list \<times> bytes list" where
  "tokens lang src (Ts k f nm s e cs) =
     (if k \<in> set comment_kinds then ([], [])
      else if cs = []
      then (if s < e
            then let t = ts_text src (Ts k f nm s e cs) in ([t], if k \<in> set ident_kinds then [t] else [])
            else ([], []))
      else let indented = (lang = Python \<and> k = ''block'');
               separators = length (filter (\<lambda>c. ts_kind c = '','') cs);
               (toks, refs) = tokens_all lang src (is_tuple k \<and> separators = 1) cs
           in ((if indented then [[0x0e]] else []) @ toks @ (if indented then [[0x0f]] else []), refs))"
| "tokens_all lang src keep_lone [] = ([], [])"
| "tokens_all lang src keep_lone (c # cs) =
     (let (toks, refs) = (if \<not> keep_lone \<and> trailing_comma c cs then ([], []) else tokens lang src c);
          (toks', refs') = tokens_all lang src keep_lone cs
      in (toks @ toks', refs @ refs'))"

section \<open>Units\<close>

definition is_doc :: "language \<Rightarrow> ts_node \<Rightarrow> bool" where
  "is_doc lang n \<longleftrightarrow> lang \<noteq> Python \<and> ts_kind n \<in> set comment_kinds"

definition is_test :: "language \<Rightarrow> string \<Rightarrow> string \<Rightarrow> bool" where
  "is_test lang prefix name =
     (case lang of
        Rust \<Rightarrow> str_contains prefix ''#[test]'' \<or> str_contains prefix ''::test]'' \<or> str_contains prefix ''#[test(''
      | Python \<Rightarrow> starts_with name ''test_'' \<or> starts_with name ''test''
      | _ \<Rightarrow> name = ''test'' \<or> name = ''it'' \<or> starts_with name ''test'')"

definition is_skipped :: "language \<Rightarrow> string \<Rightarrow> string \<Rightarrow> bool" where
  "is_skipped lang prefix name =
     (case lang of
        Rust \<Rightarrow> str_contains prefix ''#[ignore''
      | Python \<Rightarrow> str_contains prefix ''mark.skip'' \<or> str_contains prefix ''unittest.skip''
      | _ \<Rightarrow> name = ''xit'' \<or> name = ''xtest'' \<or> starts_with name ''xdescribe'')"

definition drop_own_name :: "bytes list \<Rightarrow> nat \<Rightarrow> bytes \<Rightarrow> bytes list" where
  "drop_own_name toks from name =
     (if name = [] then toks else take from toks @ remove1 name (drop from toks))"

definition shingles_of :: "sem_ext \<Rightarrow> bytes list \<Rightarrow> bytes \<Rightarrow> 64 word list" where
  "shingles_of x toks name =
     (let kept = filter (\<lambda>t. name = [] \<or> t \<noteq> name) toks
      in btree_list (map (\<lambda>(a, b). sx_bigram x a b) (zip kept (tl kept))))"

text \<open>The tokens are fed to the hasher with a separator between them.\<close>

fun feed_tokens :: "bytes \<Rightarrow> bool \<Rightarrow> bytes list \<Rightarrow> bytes" where
  "feed_tokens st first [] = st"
| "feed_tokens st first (t # ts) =
     feed_tokens (hasher_update (if first then st else hasher_update st [0x1f]) t) False ts"

definition body_hash :: "sem_ext \<Rightarrow> bytes list \<Rightarrow> oid" where
  "body_hash x toks = hasher_finalize (sx_blake x) (feed_tokens (hasher_new ''nodebody'') True toks)"

text \<open>The tokens that a prefix contributes: a doc comment is one token, another comment none.\<close>

definition prefix_tokens :: "language \<Rightarrow> bytes \<Rightarrow> ts_node \<Rightarrow> bytes list \<times> bytes list" where
  "prefix_tokens lang src p =
     (if is_doc lang p then ([ascii (one_line (node_text src p))], [])
      else if ts_kind p \<in> set comment_kinds then ([], [])
      else tokens lang src p)"

definition unit_node ::
  "sem_ext \<Rightarrow> language \<Rightarrow> bytes \<Rightarrow> nat option \<Rightarrow> bool \<Rightarrow> ts_node list \<Rightarrow> ts_node \<Rightarrow> string \<Rightarrow> string \<Rightarrow> bool \<Rightarrow> raw_node" where
  "unit_node x lang src parent kids_setlike prefix c kind name setlike =
     (let start = (case prefix of p # _ \<Rightarrow> ts_start p | [] \<Rightarrow> ts_start c);
          pre = map (prefix_tokens lang src) prefix;
          pre_toks = concat (map fst pre);
          (item_toks, item_refs) = tokens lang src c;
          toks = drop_own_name (pre_toks @ item_toks) (length pre_toks) (ascii name);
          titled_test = kind \<in> {''test'', ''test.skipped''};
          refs = btree_list (filter (\<lambda>r. (titled_test \<or> r \<noteq> name) \<and> is_identifier r)
                   (map chars_of (concat (map snd pre) @ item_refs)));
          pre_text = chars_of (take (ts_start c - start) (drop start src));
          kind' = (if kind = ''function'' \<and> is_test lang pre_text name
                   then if is_skipped lang pre_text name then ''test.skipped'' else ''test''
                   else kind)
      in \<lparr>rw_kind = kind', rw_name = name, rw_span = (start, ts_end c), rw_body = body_hash x toks,
          rw_parent = parent, rw_setlike = (setlike \<or> kids_setlike), rw_refs = refs,
          rw_shingles = shingles_of x toks (ascii name)\<rparr>)"

lemma classify_body_size: "classify lang n src = CUnit kind name sl (Some b) ks \<Longrightarrow> size b < size n"
proof -
  have cont: "container_unit k nm m s = CUnit kind name sl (Some b) ks \<Longrightarrow> size b < size m" for k nm m s
    by (auto simp: container_unit_def intro: child_size child_by_field_in)
  have rust: "classify_rust n src = CUnit kind name sl (Some b) ks \<Longrightarrow> size b < size n"
    by (auto simp: classify_rust_def Let_def intro: cont split: if_splits)
  have python: "classify_python n src = CUnit kind name sl (Some b) ks \<Longrightarrow> size b < size n"
    by (induction n src rule: classify_python.induct)
       (subst (asm) classify_python.simps, auto simp: Let_def split: if_splits option.splits
          intro: cont less_trans [OF _ child_size [OF child_by_field_in]])
  have js: "classify_js n src = CUnit kind name sl (Some b) ks \<Longrightarrow> size b < size n"
    by (induction n src rule: classify_js.induct)
       (subst (asm) classify_js.simps, auto simp: Let_def export_unit_def classify_call_def
          split: if_splits option.splits node_class.splits intro: cont less_trans [OF _ child_size [OF export_inner_in]])
  show "classify lang n src = CUnit kind name sl (Some b) ks \<Longrightarrow> size b < size n"
    using rust python js by (cases lang) (auto simp: classify_def)
qed

lemma classify_children_size:
  assumes "classify lang n src = CUnit kind name sl (Some b) ks"
  shows "size_list size (ts_children b) < Suc (size n + m)"
proof -
  have "size_list size (ts_children b) \<le> size b" by (cases b) simp
  with classify_body_size [OF assms] show ?thesis by simp
qed

section \<open>The walk over containers\<close>

text \<open>
  The children of one container in turn, with the prefix nodes that wait for the next unit and the units
  found so far: the number of a unit is its position among them.
\<close>

function collect_children ::
    "sem_ext \<Rightarrow> language \<Rightarrow> bytes \<Rightarrow> nat option \<Rightarrow> bool \<Rightarrow> ts_node list \<Rightarrow> ts_node list \<Rightarrow> raw_node list \<Rightarrow> raw_node list" where
  "collect_children x lang src parent ks prefix [] out = out"
| "collect_children x lang src parent ks prefix (c # cs) out =
     (if \<not> ts_named c then collect_children x lang src parent ks prefix cs out
      else (case classify lang c src of
              CPrefix \<Rightarrow> collect_children x lang src parent ks (prefix @ [c]) cs out
            | CSkip \<Rightarrow> collect_children x lang src parent ks prefix cs out
            | CUnit kind name sl body kids \<Rightarrow>
                let out1 = out @ [unit_node x lang src parent ks prefix c kind name sl];
                    out2 = (case body of
                              None \<Rightarrow> out1
                            | Some b \<Rightarrow> collect_children x lang src (Some (length out)) kids [] (ts_children b) out1)
                in collect_children x lang src parent ks [] cs out2))"
  by pat_completeness auto
termination
  by (relation "measure (\<lambda>(x, lang, src, parent, ks, prefix, cs, out). size_list size cs)")
     (auto dest!: sym [of "CUnit _ _ _ _ _"] classify_children_size)

definition collect_units :: "sem_ext \<Rightarrow> language \<Rightarrow> bytes \<Rightarrow> ts_node \<Rightarrow> raw_node list" where
  "collect_units x lang src root = collect_children x lang src None False [] (ts_children root) []"

definition with_grammar :: "sem_ext \<Rightarrow> language \<Rightarrow> bytes \<Rightarrow> raw_node list option" where
  "with_grammar x lang src = map_option (collect_units x lang src) (sx_parse x lang src)"

section \<open>Chunks\<close>

fun split_lines :: "bytes \<Rightarrow> bytes list" where
  "split_lines [] = []"
| "split_lines (b # bs) =
     (if b = 10 then [b] # split_lines bs
      else (case split_lines bs of [] \<Rightarrow> [[b]] | l # ls \<Rightarrow> (b # l) # ls))"

definition trim_line :: "bytes \<Rightarrow> bytes" where
  "trim_line l = rev (dropWhile (\<lambda>b. b \<in> {32, 9, 13, 10}) (rev l))"

definition flush_chunk :: "sem_ext \<Rightarrow> nat option \<Rightarrow> nat \<Rightarrow> bytes list \<Rightarrow> raw_node list \<Rightarrow> raw_node list" where
  "flush_chunk x start end ls out =
     (case start of
        None \<Rightarrow> out
      | Some s \<Rightarrow>
          out @ [\<lparr>rw_kind = ''chunk'', rw_name = [], rw_span = (s, end), rw_body = body_hash x (map trim_line ls),
                  rw_parent = None, rw_setlike = False, rw_refs = [], rw_shingles = []\<rparr>])"

fun chunk_loop :: "sem_ext \<Rightarrow> bytes list \<Rightarrow> nat option \<Rightarrow> nat \<Rightarrow> bytes list \<Rightarrow> raw_node list \<Rightarrow> raw_node list" where
  "chunk_loop x [] start pos ls out = flush_chunk x start pos ls out"
| "chunk_loop x (l # lines) start pos ls out =
     (if trim_line l = []
      then chunk_loop x lines None (pos + length l) (if start = None then ls else []) (flush_chunk x start pos ls out)
      else chunk_loop x lines (Some (case start of None \<Rightarrow> pos | Some s \<Rightarrow> s)) (pos + length l) (ls @ [l]) out)"

definition chunks :: "sem_ext \<Rightarrow> bytes \<Rightarrow> raw_node list" where
  "chunks x src = chunk_loop x (split_lines src) None 0 [] []"

section \<open>Files\<close>

definition lower_char :: "char \<Rightarrow> char" where
  "lower_char c = (let n = of_char c :: nat in if 65 \<le> n \<and> n \<le> 90 then char_of (n + 32) else c)"

definition language_of_path :: "string \<Rightarrow> language option" where
  "language_of_path path =
     (let ext = map lower_char (last (split_on (CHR ''.'') path))
      in if ext = ''rs'' then Some Rust
         else if ext \<in> {''py'', ''pyi''} then Some Python
         else if ext \<in> {''js'', ''mjs'', ''cjs'', ''jsx''} then Some JavaScript
         else if ext \<in> {''ts'', ''mts'', ''cts''} then Some TypeScript
         else if ext = ''tsx'' then Some Tsx
         else None)"

definition extract_units :: "sem_ext \<Rightarrow> string \<Rightarrow> bytes \<Rightarrow> raw_node list option" where
  "extract_units x path src =
     (if list_ex (\<lambda>b. b = 0) (take 8192 src) then Some []
      else (case language_of_path path of
              Some lang \<Rightarrow> with_grammar x lang src
            | None \<Rightarrow> Some (chunks x src)))"

end
