(* ===== verification/Matching.thy ===== *)
theory Matching
  imports Complex_Main Extract Merge_File
begin

text \<open>
  Identity of units across versions of a file: \<open>crates/tessra-semantic/src/matching.rs\<close>.

  \<open>assigned\<close> holds per unit the id it carries over, \<open>owned\<close> (\<open>used\<close> there) the ids that are taken. The ids drawn at
  random for what is new are an argument, one per unit. The overlap of two sets of shingles is the exact
  quotient: sets are far smaller than \<open>2 ^ 26\<close>, so that the comparisons of the source on \<open>f64\<close> have the
  same outcomes. Where the code has two maps of the same list, the last entry of a key counts.
\<close>

section \<open>Overlap of shingles\<close>

fun common_count :: "64 word list \<Rightarrow> 64 word list \<Rightarrow> nat" where
  "common_count (a # as) (b # bs) =
     (if a < b then common_count as (b # bs)
      else if b < a then common_count (a # as) bs
      else Suc (common_count as bs))"
| "common_count _ _ = 0"

definition jaccard :: "64 word list \<Rightarrow> 64 word list \<Rightarrow> rat" where
  "jaccard a b =
     (if a = [] \<or> b = [] then 0
      else (let both = common_count a b
            in of_nat both / of_nat (length a + length b - both)))"

definition similarity :: rat where
  "similarity = 3 / 5"

section \<open>Groups\<close>

type_synonym slots = "bool list \<times> nat option list"

definition slot_body :: "raw_node list \<Rightarrow> nat list \<Rightarrow> node list \<Rightarrow> nat list \<Rightarrow> nat \<Rightarrow> slots \<Rightarrow> slots" where
  "slot_body raw members prev prevs m = (\<lambda>(taken, slot).
     (case find (\<lambda>q. \<not> taken ! q \<and> node_body (prev ! (prevs ! q)) = rw_body (raw ! (members ! m))) [0..<length prevs] of
        None \<Rightarrow> (taken, slot)
      | Some q \<Rightarrow> (taken[q := True], slot[m := Some q])))"

definition some_of :: "nat option list \<Rightarrow> nat option" where
  "some_of xs = (case find (\<lambda>x. x \<noteq> None) xs of None \<Rightarrow> None | Some x \<Rightarrow> x)"

definition slot_between :: "nat \<Rightarrow> nat \<Rightarrow> slots \<Rightarrow> slots" where
  "slot_between n m = (\<lambda>(taken, slot).
     if slot ! m \<noteq> None then (taken, slot)
     else (let lo = (case some_of (rev (take m slot)) of Some q \<Rightarrow> q + 1 | None \<Rightarrow> 0);
               hi = (case some_of (drop (m + 1) slot) of Some q \<Rightarrow> q | None \<Rightarrow> n)
           in case find (\<lambda>q. \<not> taken ! q) [lo..<hi] of
                None \<Rightarrow> (taken, slot)
              | Some q \<Rightarrow> (taken[q := True], slot[m := Some q])))"

definition match_group :: "raw_node list \<Rightarrow> nat list \<Rightarrow> node list \<Rightarrow> nat list \<Rightarrow> nat option list" where
  "match_group raw members prev prevs =
     (let s = (replicate (length prevs) False, replicate (length members) None);
          s = fold (slot_body raw members prev prevs) [0..<length members] s
      in snd (fold (slot_between (length prevs)) [0..<length members] s))"

section \<open>The passes\<close>

type_synonym ids = "eid option list \<times> eid list"

definition take_id :: "nat \<Rightarrow> eid \<Rightarrow> ids \<Rightarrow> ids" where
  "take_id i n = (\<lambda>(assigned, owned).
     if n \<in> set owned then (assigned, owned) else (assigned[i := Some n], n # owned))"

definition parent_id :: "raw_node list \<Rightarrow> eid option list \<Rightarrow> nat \<Rightarrow> eid option" where
  "parent_id raw assigned i = (case rw_parent (raw ! i) of None \<Rightarrow> None | Some p \<Rightarrow> assigned ! p)"

definition prev_group :: "node list \<Rightarrow> eid option \<Rightarrow> string \<Rightarrow> string \<Rightarrow> nat list" where
  "prev_group prev parent kind name =
     filter (\<lambda>p. node_name (prev ! p) \<noteq> [] \<and> node_parent (prev ! p) = parent \<and> node_kind (prev ! p) = kind \<and>
                 node_name (prev ! p) = name) [0..<length prev]"

definition raw_group :: "raw_node list \<Rightarrow> nat \<Rightarrow> nat list" where
  "raw_group raw i =
     filter (\<lambda>j. rw_parent (raw ! j) = rw_parent (raw ! i) \<and> rw_kind (raw ! j) = rw_kind (raw ! i) \<and>
                 rw_name (raw ! j) = rw_name (raw ! i)) [i..<length raw]"

type_synonym group_key = "nat option \<times> string \<times> string"

definition name_pass :: "raw_node list \<Rightarrow> node list \<Rightarrow> nat \<Rightarrow> ids \<times> group_key list \<Rightarrow> ids \<times> group_key list" where
  "name_pass raw prev i = (\<lambda>((assigned, owned), grouped).
     (let r = raw ! i; k = (rw_parent r, rw_kind r, rw_name r)
      in if rw_name r = [] \<or> k \<in> set grouped then ((assigned, owned), grouped)
         else (let members = raw_group raw i;
                   prevs = prev_group prev (parent_id raw assigned i) (rw_kind r) (rw_name r)
               in if prevs = [] then ((assigned, owned), k # grouped)
                  else (let slots = match_group raw members prev prevs
                        in (fold (\<lambda>(j, s) ids. case s of None \<Rightarrow> ids | Some q \<Rightarrow> take_id j (node_nid (prev ! (prevs ! q))) ids)
                              (zip members slots) (assigned, owned), k # grouped)))))"

text \<open>The lists of ids by parent, kind and body, which the second pass uses up.\<close>

type_synonym by_body = "eid option \<times> string \<times> oid \<Rightarrow> eid list"

definition prev_by_body :: "node list \<Rightarrow> eid list \<Rightarrow> by_body" where
  "prev_by_body prev owned k =
     map node_nid (filter (\<lambda>n. node_nid n \<notin> set owned \<and> (node_parent n, node_kind n, node_body n) = k) prev)"

definition body_pass :: "raw_node list \<Rightarrow> nat \<Rightarrow> ids \<times> by_body \<Rightarrow> ids \<times> by_body" where
  "body_pass raw i = (\<lambda>((assigned, owned), lists).
     if assigned ! i \<noteq> None then ((assigned, owned), lists)
     else (let k = (parent_id raw assigned i, rw_kind (raw ! i), rw_body (raw ! i))
           in case dropWhile (\<lambda>n. n \<in> set owned) (lists k) of
                [] \<Rightarrow> ((assigned, owned), lists(k := []))
              | n # ns \<Rightarrow> ((assigned[i := Some n], n # owned), lists(k := ns))))"

text \<open>The matched neighbours: the last one before and the first one after each unit.\<close>

fun scan_last :: "nat option \<Rightarrow> nat option list \<Rightarrow> nat option list" where
  "scan_last l [] = []"
| "scan_last l (a # as) = l # scan_last (case a of None \<Rightarrow> l | Some p \<Rightarrow> Some p) as"

definition old_pos :: "node list \<Rightarrow> eid \<Rightarrow> nat option" where
  "old_pos prev = map_of (rev (zip (map node_nid prev) [0..<length prev]))"

definition anchors :: "node list \<Rightarrow> eid option list \<Rightarrow> nat option list" where
  "anchors prev assigned = map (\<lambda>a. case a of None \<Rightarrow> None | Some n \<Rightarrow> old_pos prev n) assigned"

definition chunk_pass ::
  "raw_node list \<Rightarrow> node list \<Rightarrow> nat option list \<Rightarrow> nat option list \<Rightarrow> nat \<Rightarrow> ids \<times> nat \<Rightarrow> ids \<times> nat" where
  "chunk_pass raw prev before after i = (\<lambda>((assigned, owned), cursor).
     if assigned ! i \<noteq> None \<or> rw_name (raw ! i) \<noteq> [] then ((assigned, owned), cursor)
     else (let lo = max (case before ! i of Some p \<Rightarrow> p + 1 | None \<Rightarrow> 0) cursor;
               hi = (case after ! i of Some p \<Rightarrow> p | None \<Rightarrow> length prev)
           in case find (\<lambda>p. node_name (prev ! p) = [] \<and> node_kind (prev ! p) = rw_kind (raw ! i) \<and>
                             node_parent (prev ! p) = parent_id raw assigned i \<and> node_nid (prev ! p) \<notin> set owned)
                     [lo..<min hi (length prev)] of
                None \<Rightarrow> ((assigned, owned), cursor)
              | Some p \<Rightarrow> ((assigned[i := Some (node_nid (prev ! p))], node_nid (prev ! p) # owned), p + 1)))"

definition prev_shingles :: "sem_ext \<Rightarrow> string \<Rightarrow> node list \<Rightarrow> bytes \<Rightarrow> (eid \<Rightarrow> 64 word list option)" where
  "prev_shingles x path prev src =
     (let old = (case extract_units x path src of None \<Rightarrow> [] | Some rs \<Rightarrow> rs);
          by_span = map_of (rev (map (\<lambda>r. ((of_nat (fst (rw_span r)), of_nat (snd (rw_span r))), rw_shingles r)) old))
      in map_of (rev (concat (map (\<lambda>n. case by_span (node_span n) of None \<Rightarrow> [] | Some s \<Rightarrow> [(node_nid n, s)]) prev))))"

definition wants_similarity :: "raw_node list \<Rightarrow> node list \<Rightarrow> ids \<Rightarrow> bool" where
  "wants_similarity raw prev = (\<lambda>(assigned, owned).
     list_ex (\<lambda>i. assigned ! i = None \<and> rw_name (raw ! i) \<noteq> [] \<and> rw_shingles (raw ! i) \<noteq> []) [0..<length raw] \<and>
     list_ex (\<lambda>n. node_nid n \<notin> set owned \<and> node_name n \<noteq> []) prev)"

text \<open>\<open>max_by\<close> keeps the last of the greatest.\<close>

definition best_of :: "(eid \<times> rat) list \<Rightarrow> (eid \<times> rat) option" where
  "best_of cs = fold (\<lambda>c best. case best of None \<Rightarrow> Some c | Some b \<Rightarrow> if snd c < snd b then Some b else Some c) cs None"

definition similar_pass :: "raw_node list \<Rightarrow> node list \<Rightarrow> (eid \<Rightarrow> 64 word list option) \<Rightarrow> nat \<Rightarrow> ids \<Rightarrow> ids" where
  "similar_pass raw prev shingles i = (\<lambda>(assigned, owned).
     (let r = raw ! i
      in if assigned ! i \<noteq> None \<or> rw_name r = [] \<or> rw_shingles r = [] then (assigned, owned)
         else (let cands = filter (\<lambda>n. node_nid n \<notin> set owned \<and> node_name n \<noteq> [] \<and> node_kind n = rw_kind r \<and>
                                       node_parent n = parent_id raw assigned i) prev;
                   scored = concat (map (\<lambda>n. case shingles (node_nid n) of None \<Rightarrow> []
                                             | Some s \<Rightarrow> [(node_nid n, jaccard s (rw_shingles r))]) cands)
               in case best_of scored of
                    None \<Rightarrow> (assigned, owned)
                  | Some (n, score) \<Rightarrow> if similarity \<le> score then take_id i n (assigned, owned) else (assigned, owned))))"

section \<open>All passes\<close>

definition pass_names :: "raw_node list \<Rightarrow> node list \<Rightarrow> ids" where
  "pass_names raw prev = fst (fold (name_pass raw prev) [0..<length raw] ((replicate (length raw) None, []), []))"

definition pass_bodies :: "raw_node list \<Rightarrow> node list \<Rightarrow> ids \<Rightarrow> ids" where
  "pass_bodies raw prev ids = fst (fold (body_pass raw) [0..<length raw] (ids, prev_by_body prev (snd ids)))"

definition pass_chunks :: "raw_node list \<Rightarrow> node list \<Rightarrow> ids \<Rightarrow> ids" where
  "pass_chunks raw prev ids =
     (let as = anchors prev (fst ids)
      in fst (fold (chunk_pass raw prev (scan_last None as) (rev (scan_last None (rev as)))) [0..<length raw] (ids, 0)))"

definition pass_similar :: "sem_ext \<Rightarrow> string \<Rightarrow> raw_node list \<Rightarrow> node list \<Rightarrow> bytes option \<Rightarrow> ids \<Rightarrow> ids" where
  "pass_similar x path raw prev prev_src ids =
     (case prev_src of
        None \<Rightarrow> ids
      | Some src \<Rightarrow>
          if wants_similarity raw prev ids
          then fold (similar_pass raw prev (prev_shingles x path prev src)) [0..<length raw] ids
          else ids)"

definition carried_ids :: "sem_ext \<Rightarrow> string \<Rightarrow> raw_node list \<Rightarrow> node list \<Rightarrow> bytes option \<Rightarrow> ids" where
  "carried_ids x path raw prev prev_src =
     pass_similar x path raw prev prev_src (pass_chunks raw prev (pass_bodies raw prev (pass_names raw prev)))"

definition final_ids :: "(nat \<Rightarrow> eid) \<Rightarrow> eid option list \<Rightarrow> eid list" where
  "final_ids fresh assigned = map (\<lambda>i. case assigned ! i of Some n \<Rightarrow> n | None \<Rightarrow> fresh i) [0..<length assigned]"

definition node_of_raw :: "string \<Rightarrow> eid list \<Rightarrow> raw_node \<Rightarrow> eid \<Rightarrow> node" where
  "node_of_raw path ids r n =
     \<lparr>node_nid = n, node_path = path, node_kind = rw_kind r, node_name = rw_name r,
      node_span = (of_nat (fst (rw_span r)), of_nat (snd (rw_span r))), node_body = rw_body r,
      node_parent = map_option (\<lambda>p. ids ! p) (rw_parent r), node_deps = None,
      node_setlike = (if rw_setlike r then Some True else None)\<rparr>"

definition assign_only ::
  "sem_ext \<Rightarrow> (nat \<Rightarrow> eid) \<Rightarrow> string \<Rightarrow> raw_node list \<Rightarrow> node list \<Rightarrow> bytes option \<Rightarrow> node list" where
  "assign_only x fresh path raw prev prev_src =
     (let ids = final_ids fresh (fst (carried_ids x path raw prev prev_src))
      in map (\<lambda>(r, n). node_of_raw path ids r n) (zip raw ids))"

section \<open>References\<close>

definition name_table :: "node list \<Rightarrow> string \<Rightarrow> eid list option" where
  "name_table nodes name =
     (let ids = map node_nid (filter (\<lambda>n. is_identifier (node_name n) \<and> node_kind n \<notin> {''test'', ''test.skipped''} \<and>
                                          node_name n = name) nodes)
      in if ids = [] then None else Some ids)"

definition resolve_refs :: "node list \<Rightarrow> raw_node \<Rightarrow> eid \<Rightarrow> eid list \<times> string list" where
  "resolve_refs nodes r own =
     (btree_list (concat (map (\<lambda>name. case name_table nodes name of
                                 Some ids \<Rightarrow> filter (\<lambda>i. i \<noteq> own) ids | None \<Rightarrow> []) (rw_refs r))),
      filter (\<lambda>name. name_table nodes name = None) (rw_refs r))"

definition assign_ids_with_refs ::
  "sem_ext \<Rightarrow> (nat \<Rightarrow> eid) \<Rightarrow> string \<Rightarrow> raw_node list \<Rightarrow> node list \<Rightarrow> bytes option \<Rightarrow> node list \<times> string list list" where
  "assign_ids_with_refs x fresh path raw prev prev_src =
     (let nodes = assign_only x fresh path raw prev prev_src;
          resolved = map (\<lambda>(r, n). resolve_refs nodes r (node_nid n)) (zip raw nodes)
      in (map (\<lambda>(n, (deps, left)). n\<lparr>node_deps := (if deps = [] then None else Some deps)\<rparr>) (zip nodes resolved),
          map snd resolved))"

definition assign_ids :: "sem_ext \<Rightarrow> (nat \<Rightarrow> eid) \<Rightarrow> string \<Rightarrow> raw_node list \<Rightarrow> node list \<Rightarrow> node list" where
  "assign_ids x fresh path raw prev = fst (assign_ids_with_refs x fresh path raw prev None)"

end
