(* ===== verification/Extract_Props.thy ===== *)
theory Extract_Props
  imports Extract
begin

text \<open>
  The units of a file: a container comes before what it holds, the spans of units are nested or apart and
  in the order of the text, and the tokens that a body hash covers do not depend on the layout.
\<close>

section \<open>Trees in the order of the text\<close>

fun tree_ok :: "ts_node \<Rightarrow> bool"
and kids_ok :: "nat \<Rightarrow> nat \<Rightarrow> ts_node list \<Rightarrow> bool" where
  "tree_ok (Ts k f nm s e cs) \<longleftrightarrow> s \<le> e \<and> kids_ok s e cs"
| "kids_ok lo hi [] \<longleftrightarrow> lo \<le> hi"
| "kids_ok lo hi (c # cs) \<longleftrightarrow> lo \<le> ts_start c \<and> tree_ok c \<and> kids_ok (ts_end c) hi cs"

lemma tree_ok_span: "tree_ok c \<Longrightarrow> ts_start c \<le> ts_end c"
  by (cases c) simp

lemma kids_ok_le: "kids_ok lo hi cs \<Longrightarrow> lo \<le> hi"
  by (induction cs arbitrary: lo) (auto dest: tree_ok_span, metis le_trans tree_ok_span)

lemma kids_ok_mem: "kids_ok lo hi cs \<Longrightarrow> c \<in> set cs \<Longrightarrow> lo \<le> ts_start c \<and> ts_end c \<le> hi \<and> tree_ok c"
proof (induction cs arbitrary: lo)
  case (Cons d ds)
  then have "ts_end d \<le> hi" "lo \<le> ts_end d" using kids_ok_le tree_ok_span [of d] by (auto intro: le_trans)
  with Cons show ?case by (auto intro: le_trans)
qed simp

definition inside :: "ts_node \<Rightarrow> ts_node \<Rightarrow> bool" where
  "inside b n \<longleftrightarrow> tree_ok b \<and> ts_start n \<le> ts_start b \<and> ts_end b \<le> ts_end n"

lemma inside_child: "tree_ok n \<Longrightarrow> c \<in> set (ts_children n) \<Longrightarrow> inside c n"
  by (cases n) (auto simp: inside_def dest: kids_ok_mem)

lemma inside_trans: "inside b c \<Longrightarrow> inside c n \<Longrightarrow> inside b n"
  by (auto simp: inside_def)

lemma inside_ok: "inside c n \<Longrightarrow> tree_ok c"
  by (simp add: inside_def)

lemma classify_body_inside: "tree_ok n \<Longrightarrow> classify lang n src = CUnit kind name sl (Some b) ks \<Longrightarrow> inside b n"
proof -
  have cont: "container_unit k nm m s = CUnit kind name sl (Some b) ks \<Longrightarrow> tree_ok m \<Longrightarrow> inside b m" for k nm m s
    by (auto simp: container_unit_def intro: inside_child child_by_field_in)
  have rust: "classify_rust n src = CUnit kind name sl (Some b) ks \<Longrightarrow> tree_ok n \<Longrightarrow> inside b n"
    by (auto simp: classify_rust_def Let_def intro: cont split: if_splits)
  have python: "classify_python n src = CUnit kind name sl (Some b) ks \<Longrightarrow> tree_ok n \<Longrightarrow> inside b n"
  proof (induction n src rule: classify_python.induct)
    case (1 n src)
    have down: "inside b n" if "child_by_field ''definition'' n = Some d" "tree_ok d \<Longrightarrow> inside b d" for d
      using inside_child [OF 1(3) child_by_field_in [OF that(1)]] that(2) inside_trans inside_ok by blast
    show ?case
      using 1 down by (auto simp: classify_python.simps [of n src] Let_def split: if_splits option.splits intro: cont)
  qed
  have js: "classify_js n src = CUnit kind name sl (Some b) ks \<Longrightarrow> tree_ok n \<Longrightarrow> inside b n"
  proof (induction n src rule: classify_js.induct)
    case (1 n src)
    have down: "inside b n" if "export_inner n = Some d" "tree_ok d \<Longrightarrow> inside b d" for d
      using inside_child [OF 1(3) export_inner_in [OF that(1)]] that(2) inside_trans inside_ok by blast
    show ?case
      using 1 down by (auto simp: classify_js.simps [of n src] Let_def export_unit_def classify_call_def
          split: if_splits option.splits node_class.splits intro: cont)
  qed
  show "tree_ok n \<Longrightarrow> classify lang n src = CUnit kind name sl (Some b) ks \<Longrightarrow> inside b n"
    using rust python js by (cases lang) (auto simp: classify_def)
qed

section \<open>Containers first\<close>

definition parents_first :: "raw_node list \<Rightarrow> bool" where
  "parents_first us \<longleftrightarrow> (\<forall>i < length us. \<forall>p. rw_parent (us ! i) = Some p \<longrightarrow> p < i)"

lemma parents_first_snoc:
  "parents_first us \<Longrightarrow> (\<And>p. rw_parent u = Some p \<Longrightarrow> p < length us) \<Longrightarrow> parents_first (us @ [u])"
  by (auto simp: parents_first_def nth_append less_Suc_eq)

lemma unit_node_parent [simp]: "rw_parent (unit_node x lang src parent ks prefix c kind name sl) = parent"
  by (simp add: unit_node_def Let_def split: prod.splits)

lemma collect_children_parents:
  "parents_first out \<Longrightarrow> (\<And>p. parent = Some p \<Longrightarrow> p < length out) \<Longrightarrow>
   parents_first (collect_children x lang src parent ks prefix cs out) \<and>
   length out \<le> length (collect_children x lang src parent ks prefix cs out)"
proof (induction x lang src parent ks prefix cs out rule: collect_children.induct)
  case (2 x lang src parent ks prefix c cs out)
  show ?case
  proof (cases "ts_named c")
    case named: True
    show ?thesis
    proof (cases "classify lang c src")
      case (CUnit kind name sl body kids)
      let ?out1 = "out @ [unit_node x lang src parent ks prefix c kind name sl]"
      define out2 where "out2 = (case body of None \<Rightarrow> ?out1
        | Some b \<Rightarrow> collect_children x lang src (Some (length out)) kids [] (ts_children b) ?out1)"
      have out1: "parents_first ?out1" using 2(6,7) by (intro parents_first_snoc) auto
      have out2: "parents_first out2 \<and> length out < length out2"
        using out1 2(2) [OF _ CUnit refl _ out1] named by (auto simp: out2_def Suc_le_eq split: option.split)
      with 2(3) [OF _ CUnit refl out2_def] 2(7) named show ?thesis
        by (fastforce simp: CUnit out2_def Let_def dest: less_trans)
    qed (use 2 named in auto)
  qed (use 2 in simp)
qed simp

lemma extract_parents_first: "extract_units x path src = Some us \<Longrightarrow> parents_first us"
proof -
  have "parents_first (chunk_loop x ls start pos acc out)"
    if "\<forall>u \<in> set out. rw_parent u = None" for ls start pos acc and out :: "raw_node list"
  proof -
    have "\<forall>u \<in> set (chunk_loop x ls start pos acc out). rw_parent u = None"
      using that
    proof (induction ls arbitrary: start pos acc out)
      case (Cons l ls)
      then have "\<forall>u \<in> set (flush_chunk x start pos acc out). rw_parent u = None"
        by (auto simp: flush_chunk_def split: option.splits)
      with Cons show ?case by simp
    qed (auto simp: flush_chunk_def split: option.splits)
    then show ?thesis by (simp add: parents_first_def)
  qed
  moreover have "parents_first (collect_units x lang src root)" for lang root
    unfolding collect_units_def using collect_children_parents [of "[]" None] by (simp add: parents_first_def)
  moreover have "parents_first []" by (simp add: parents_first_def)
  ultimately show "extract_units x path src = Some us \<Longrightarrow> parents_first us"
    by (auto simp: extract_units_def with_grammar_def chunks_def split: if_splits option.splits)
qed

section \<open>The order of units\<close>

text \<open>Two units, the earlier one first: apart, or the later one inside.\<close>

definition apart_or_inside :: "nat \<times> nat \<Rightarrow> nat \<times> nat \<Rightarrow> bool" where
  "apart_or_inside a b \<longleftrightarrow> snd a \<le> fst b \<or> fst a \<le> fst b \<and> snd b \<le> snd a"

definition nested_units :: "raw_node list \<Rightarrow> bool" where
  "nested_units us \<longleftrightarrow>
     (\<forall>i < length us. fst (rw_span (us ! i)) \<le> snd (rw_span (us ! i)) \<and>
        (\<forall>p. rw_parent (us ! i) = Some p \<longrightarrow> p < i \<and> fst (rw_span (us ! p)) \<le> fst (rw_span (us ! i)) \<and>
           snd (rw_span (us ! i)) \<le> snd (rw_span (us ! p)))) \<and>
     (\<forall>i j. i < j \<and> j < length us \<longrightarrow> apart_or_inside (rw_span (us ! i)) (rw_span (us ! j))) \<and>
     (\<forall>i j. i < j \<and> j < length us \<and> rw_parent (us ! i) = rw_parent (us ! j) \<longrightarrow> snd (rw_span (us ! i)) \<le> fst (rw_span (us ! j)))"

text \<open>What a further unit within \<open>lo\<close> and \<open>hi\<close> under a parent needs of the units before it.\<close>

definition room :: "raw_node list \<Rightarrow> nat option \<Rightarrow> nat \<Rightarrow> nat \<Rightarrow> bool" where
  "room us parent lo hi \<longleftrightarrow>
     (\<forall>u \<in> set us. snd (rw_span u) \<le> lo \<or> fst (rw_span u) \<le> lo \<and> hi \<le> snd (rw_span u)) \<and>
     (\<forall>u \<in> set us. rw_parent u = parent \<longrightarrow> snd (rw_span u) \<le> lo) \<and>
     (\<forall>p. parent = Some p \<longrightarrow> p < length us \<and> fst (rw_span (us ! p)) \<le> lo \<and> hi \<le> snd (rw_span (us ! p)))"

lemma nested_units_snoc:
  assumes "nested_units us" "room us parent lo hi" "rw_parent u = parent" "lo \<le> fst (rw_span u)"
    and "fst (rw_span u) \<le> snd (rw_span u)" "snd (rw_span u) \<le> hi"
  shows "nested_units (us @ [u])"
proof -
  have old: "us ! i \<in> set us" if "i < length us" for i using that by simp
  have apart: "snd (rw_span v) \<le> lo \<or> fst (rw_span v) \<le> lo \<and> hi \<le> snd (rw_span v)" if "v \<in> set us" for v
    using assms(2) that unfolding room_def by blast
  have before: "apart_or_inside (rw_span v) (rw_span u)" if "v \<in> set us" for v
    using apart [OF that] assms(4,6) by (auto simp: apart_or_inside_def)
  have "snd (rw_span v) \<le> lo" if "v \<in> set us" "rw_parent v = parent" for v
    using assms(2) that unfolding room_def by blast
  then have sibling: "snd (rw_span v) \<le> fst (rw_span u)" if "v \<in> set us" "rw_parent v = parent" for v
    using that assms(4) le_trans by blast
  have below: "p < length us \<and> fst (rw_span (us ! p)) \<le> lo \<and> hi \<le> snd (rw_span (us ! p))" if "parent = Some p" for p
    using assms(2) that unfolding room_def by blast
  have up: "p < length us \<and> fst (rw_span (us ! p)) \<le> fst (rw_span u) \<and> snd (rw_span u) \<le> snd (rw_span (us ! p))"
    if "parent = Some p" for p
    using below [OF that] assms(4,6) by simp
  let ?n = "length us"
  have nth: "(us @ [u]) ! i = us ! i" if "i < ?n" for i using that by (simp add: nth_append)
  show ?thesis
    unfolding nested_units_def
  proof (intro conjI allI impI)
    fix i assume i: "i < length (us @ [u])"
    show "fst (rw_span ((us @ [u]) ! i)) \<le> snd (rw_span ((us @ [u]) ! i))"
      using assms(1,5) i unfolding nested_units_def by (cases "i < ?n") (simp_all add: nth_append less_Suc_eq)
    fix p assume p: "rw_parent ((us @ [u]) ! i) = Some p"
    have "p < i \<and> fst (rw_span ((us @ [u]) ! p)) \<le> fst (rw_span ((us @ [u]) ! i)) \<and>
        snd (rw_span ((us @ [u]) ! i)) \<le> snd (rw_span ((us @ [u]) ! p))"
    proof (cases "i < ?n")
      case True
      then have "p < i \<and> fst (rw_span (us ! p)) \<le> fst (rw_span (us ! i)) \<and> snd (rw_span (us ! i)) \<le> snd (rw_span (us ! p))"
        using assms(1) p unfolding nested_units_def nth [OF True] by blast
      with True nth [of p] show ?thesis by (simp add: nth)
    next
      case False
      with i p up [of p] assms(3) nth [of p] show ?thesis by (simp add: less_Suc_eq)
    qed
    then show "p < i" "fst (rw_span ((us @ [u]) ! p)) \<le> fst (rw_span ((us @ [u]) ! i))"
        "snd (rw_span ((us @ [u]) ! i)) \<le> snd (rw_span ((us @ [u]) ! p))" by auto
  next
    fix i j assume ij: "i < j \<and> j < length (us @ [u])"
    show "apart_or_inside (rw_span ((us @ [u]) ! i)) (rw_span ((us @ [u]) ! j))"
    proof (cases "j < ?n")
      case True
      with ij assms(1) show ?thesis by (simp add: nested_units_def nth)
    next
      case False
      with ij before [of "us ! i"] show ?thesis by (simp add: nth less_Suc_eq)
    qed
  next
    fix i j assume ij: "i < j \<and> j < length (us @ [u]) \<and> rw_parent ((us @ [u]) ! i) = rw_parent ((us @ [u]) ! j)"
    show "snd (rw_span ((us @ [u]) ! i)) \<le> fst (rw_span ((us @ [u]) ! j))"
    proof (cases "j < ?n")
      case True
      with ij have "rw_parent (us ! i) = rw_parent (us ! j)" using nth [of i] nth [of j] by simp
      with ij True assms(1) nth [of i] nth [of j] show ?thesis by (auto simp: nested_units_def)
    next
      case False
      with ij have "j = ?n" by simp
      with ij sibling [of "us ! i"] assms(3) nth [of i] show ?thesis by simp
    qed
  qed
qed

text \<open>Where the next unit starts: at the first of the nodes that wait, or after the last node.\<close>

definition next_start :: "ts_node list \<Rightarrow> nat \<Rightarrow> nat" where
  "next_start prefix lo = (case prefix of p # _ \<Rightarrow> ts_start p | [] \<Rightarrow> lo)"

lemma room_unit:
  assumes "nested_units out" "room out parent s hi" "rw_parent u = parent" "s \<le> fst (rw_span u)"
    and "fst (rw_span u) \<le> b" "b \<le> e" "e \<le> snd (rw_span u)" "snd (rw_span u) \<le> hi"
  shows "room (out @ [u]) (Some (length out)) b e"
proof -
  have apart: "snd (rw_span v) \<le> s \<or> fst (rw_span v) \<le> s \<and> hi \<le> snd (rw_span v)" if "v \<in> set out" for v
    using assms(2) that unfolding room_def by blast
  have "rw_parent v \<noteq> Some (length out)" if v: "v \<in> set out" for v
  proof -
    obtain i where i: "i < length out" "v = out ! i" using v by (metis in_set_conv_nth)
    have "rw_parent (out ! i) = Some p \<Longrightarrow> p < i" for p using assms(1) i(1) unfolding nested_units_def by blast
    with i show ?thesis by fastforce
  qed
  moreover have "parent \<noteq> Some (length out)" using assms(2) unfolding room_def by blast
  moreover have "snd (rw_span v) \<le> b \<or> fst (rw_span v) \<le> b \<and> e \<le> snd (rw_span v)" if "v \<in> set out" for v
    using apart [OF that] assms(4-8) by auto
  ultimately show ?thesis using assms(3,5-7) by (auto simp: room_def nth_append)
qed

lemma room_after:
  assumes "room out parent s hi" "s \<le> e" "\<forall>u \<in> set new. snd (rw_span u) \<le> e"
  shows "room (out @ new) parent e hi"
proof -
  have r: "\<forall>u \<in> set out. snd (rw_span u) \<le> s \<or> fst (rw_span u) \<le> s \<and> hi \<le> snd (rw_span u)"
    "\<forall>u \<in> set out. rw_parent u = parent \<longrightarrow> snd (rw_span u) \<le> s"
    "\<forall>p. parent = Some p \<longrightarrow> p < length out \<and> fst (rw_span (out ! p)) \<le> s \<and> hi \<le> snd (rw_span (out ! p))"
    using assms(1) unfolding room_def by blast+
  show ?thesis
    unfolding room_def
  proof (intro conjI)
    show "\<forall>u \<in> set (out @ new). snd (rw_span u) \<le> e \<or> fst (rw_span u) \<le> e \<and> hi \<le> snd (rw_span u)"
      using r(1) assms(2,3) by (force intro: le_trans)
    show "\<forall>u \<in> set (out @ new). rw_parent u = parent \<longrightarrow> snd (rw_span u) \<le> e"
      using r(2) assms(2,3) by (force intro: le_trans)
    show "\<forall>p. parent = Some p \<longrightarrow> p < length (out @ new) \<and> fst (rw_span ((out @ new) ! p)) \<le> e \<and> hi \<le> snd (rw_span ((out @ new) ! p))"
      using r(3) assms(2) by (auto simp: nth_append)
  qed
qed

lemma room_later: "room us parent lo hi \<Longrightarrow> lo \<le> lo' \<Longrightarrow> room us parent lo' hi"
  using room_after [of us parent lo hi lo' "[]"] by simp

lemma unit_node_shape:
  "rw_parent (unit_node x lang src parent ks prefix c kind name sl) = parent"
  "rw_span (unit_node x lang src parent ks prefix c kind name sl) = (next_start prefix (ts_start c), ts_end c)"
  by (simp_all add: unit_node_def Let_def next_start_def split: prod.splits)

definition grows_within :: "raw_node list \<Rightarrow> nat \<Rightarrow> nat \<Rightarrow> raw_node list \<Rightarrow> bool" where
  "grows_within out s hi res \<longleftrightarrow>
     nested_units res \<and> (\<exists>new. res = out @ new \<and> (\<forall>u \<in> set new. s \<le> fst (rw_span u) \<and> snd (rw_span u) \<le> hi))"

lemma grows_within_mono: "grows_within out s' hi res \<Longrightarrow> s \<le> s' \<Longrightarrow> grows_within out s hi res"
  unfolding grows_within_def by (fastforce intro: le_trans)

lemma collect_children_nested:
  assumes "nested_units out" "room out parent (next_start prefix lo) hi" "kids_ok lo hi cs" "next_start prefix lo \<le> lo"
  shows "grows_within out (next_start prefix lo) hi (collect_children x lang src parent ks prefix cs out)"
  using assms
proof (induction x lang src parent ks prefix cs out arbitrary: lo hi rule: collect_children.induct)
  case (1 x lang src parent ks prefix out)
  then show ?case by (simp add: grows_within_def)
next
  case (2 x lang src parent ks prefix c cs out)
  note out = 2(6) and room = 2(7) and before = 2(9)
  from 2(8) have lo: "lo \<le> ts_start c" and c: "tree_ok c" and cs: "kids_ok (ts_end c) hi cs" by auto
  note span = tree_ok_span [OF c] and hi = kids_ok_le [OF cs]
  have skip: "next_start prefix lo \<le> next_start prefix (ts_end c)" "next_start prefix (ts_end c) \<le> ts_end c"
    using before lo span by (auto simp: next_start_def split: list.splits)
  have wait: "next_start prefix lo \<le> next_start (prefix @ [c]) (ts_end c)" "next_start (prefix @ [c]) (ts_end c) \<le> ts_end c"
    using before lo span by (auto simp: next_start_def split: list.splits)
  show ?case
  proof (cases "ts_named c")
    case False
    with 2(1) [OF False out room_later [OF room skip(1)] cs skip(2)] skip(1) grows_within_mono show ?thesis by simp
  next
    case True
    note named = this
    show ?thesis
    proof (cases "classify lang c src")
      case CPrefix
      from 2(4) [OF _ CPrefix out room_later [OF room wait(1)] cs wait(2)] named wait(1) grows_within_mono
      show ?thesis by (simp add: CPrefix)
    next
      case CSkip
      from 2(5) [OF _ CSkip out room_later [OF room skip(1)] cs skip(2)] named skip(1) grows_within_mono
      show ?thesis by (simp add: CSkip)
    next
      case (CUnit kind name sl body kids)
      let ?u = "unit_node x lang src parent ks prefix c kind name sl" and ?s = "next_start prefix lo"
      have s: "?s \<le> next_start prefix (ts_start c)" "next_start prefix (ts_start c) \<le> ts_start c"
        using before lo by (auto simp: next_start_def split: list.splits)
      note shape = unit_node_shape [of x lang src parent ks prefix c kind name sl]
      have u: "?s \<le> fst (rw_span ?u)" "fst (rw_span ?u) \<le> snd (rw_span ?u)" "snd (rw_span ?u) = ts_end c"
        using s span by (simp_all add: shape)
      have out1: "nested_units (out @ [?u])"
        by (rule nested_units_snoc [OF out room shape(1)]) (use u hi in simp_all)
      define out2 where "out2 = (case body of None \<Rightarrow> out @ [?u]
        | Some b \<Rightarrow> collect_children x lang src (Some (length out)) kids [] (ts_children b) (out @ [?u]))"
      have grown: "nested_units out2 \<and> (\<exists>new. out2 = out @ new \<and> (\<forall>v \<in> set new. ?s \<le> fst (rw_span v) \<and> snd (rw_span v) \<le> ts_end c))"
      proof (cases body)
        case None
        then show ?thesis using out1 u by (auto simp: out2_def)
      next
        case (Some b)
        from classify_body_inside [OF c CUnit [unfolded Some]] have b: "tree_ok b" "ts_start c \<le> ts_start b" "ts_end b \<le> ts_end c"
          by (auto simp: inside_def)
        have kids: "kids_ok (ts_start b) (ts_end b) (ts_children b)" using b(1) by (cases b) simp
        have inner: "room (out @ [?u]) (Some (length out)) (ts_start b) (ts_end b)"
          by (rule room_unit [OF out room shape(1)]) (use u b s hi tree_ok_span [OF b(1)] in \<open>simp_all add: shape\<close>)
        have "grows_within (out @ [?u]) (ts_start b) (ts_end b) out2"
          using 2(2) [OF _ CUnit refl Some out1 _ kids] named inner by (simp add: out2_def Some next_start_def)
        then obtain new where "nested_units out2" "out2 = (out @ [?u]) @ new"
          "\<forall>v \<in> set new. ts_start b \<le> fst (rw_span v) \<and> snd (rw_span v) \<le> ts_end b"
          unfolding grows_within_def by blast
        then show ?thesis using u b s by (intro conjI exI [of _ "?u # new"]) auto
      qed
      then obtain new where out2: "nested_units out2" "out2 = out @ new"
        "\<forall>v \<in> set new. ?s \<le> fst (rw_span v) \<and> snd (rw_span v) \<le> ts_end c" by blast
      have room2: "room out2 parent (ts_end c) hi"
        unfolding out2(2) by (rule room_after [OF room]) (use out2(3) skip in auto)
      have "grows_within out2 (ts_end c) hi (collect_children x lang src parent ks [] cs out2)"
        using 2(3) [OF _ CUnit refl out2_def out2(1) _ cs] named room2 by (simp add: next_start_def)
      then obtain more where "nested_units (collect_children x lang src parent ks [] cs out2)"
        "collect_children x lang src parent ks [] cs out2 = out2 @ more"
        "\<forall>v \<in> set more. ts_end c \<le> fst (rw_span v) \<and> snd (rw_span v) \<le> hi" unfolding grows_within_def by blast
      then have "grows_within out ?s hi (collect_children x lang src parent ks [] cs out2)"
        unfolding grows_within_def using out2 skip hi by (intro conjI exI [of _ "new @ more"]) (auto intro: le_trans)
      then show ?thesis using named by (simp add: CUnit out2_def Let_def)
    qed
  qed
qed

text \<open>C17: the units of a file whose parse lies in the order of the text come out in that order: a container
  precedes and encloses what it holds, any two units are apart or nested, and the units of one container
  do not overlap.\<close>

theorem extracted_units_nested:
  assumes "with_grammar x lang src = Some us" and "\<And>root. sx_parse x lang src = Some root \<Longrightarrow> tree_ok root"
  shows "nested_units us"
proof -
  from assms obtain root where root: "us = collect_units x lang src root" "tree_ok root"
    by (auto simp: with_grammar_def)
  have "kids_ok (ts_start root) (ts_end root) (ts_children root)" using root(2) by (cases root) simp
  from collect_children_nested [OF _ _ this, of "[]" None "[]" x lang src False] show ?thesis
    by (simp add: root(1) collect_units_def next_start_def grows_within_def nested_units_def room_def)
qed

section \<open>Layout\<close>

text \<open>
  Two parses of the same code: leaves have the same text, wherever they stand, and comments come and go,
  except directly behind a separator.
\<close>

definition is_comment :: "ts_node \<Rightarrow> bool" where
  "is_comment n \<longleftrightarrow> ts_kind n \<in> set comment_kinds"

inductive relaid :: "bytes \<Rightarrow> bytes \<Rightarrow> ts_node \<Rightarrow> ts_node \<Rightarrow> bool"
and relaid_all :: "bytes \<Rightarrow> bytes \<Rightarrow> bool \<Rightarrow> ts_node list \<Rightarrow> ts_node list \<Rightarrow> bool"
for src :: bytes and src' :: bytes where
  relaid_comment: "is_comment n \<Longrightarrow> ts_kind n = ts_kind n' \<Longrightarrow> relaid src src' n n'"
| relaid_leaf: "ts_kind n = ts_kind n' \<Longrightarrow> ts_children n = [] \<Longrightarrow> ts_children n' = [] \<Longrightarrow> ts_text src n = ts_text src' n' \<Longrightarrow>
    (ts_start n < ts_end n \<longleftrightarrow> ts_start n' < ts_end n') \<Longrightarrow> relaid src src' n n'"
| relaid_inner: "ts_kind n = ts_kind n' \<Longrightarrow> ts_children n \<noteq> [] \<Longrightarrow> ts_children n' \<noteq> [] \<Longrightarrow>
    relaid_all src src' False (ts_children n) (ts_children n') \<Longrightarrow> relaid src src' n n'"
| relaid_nil: "relaid_all src src' after [] []"
| relaid_cons: "ts_kind c = ts_kind c' \<Longrightarrow> relaid src src' c c' \<Longrightarrow> relaid_all src src' (ts_kind c = '','') cs cs' \<Longrightarrow>
    relaid_all src src' after (c # cs) (c' # cs')"
| relaid_add: "is_comment c' \<Longrightarrow> relaid_all src src' False cs cs' \<Longrightarrow> relaid_all src src' False cs (c' # cs')"
| relaid_drop: "is_comment c \<Longrightarrow> relaid_all src src' False cs cs' \<Longrightarrow> relaid_all src src' False (c # cs) cs'"

definition next_kind :: "ts_node list \<Rightarrow> string option" where
  "next_kind cs = (case cs of [] \<Rightarrow> None | c # _ \<Rightarrow> Some (ts_kind c))"

definition comma_count :: "ts_node list \<Rightarrow> nat" where
  "comma_count cs = length (filter (\<lambda>c. ts_kind c = '','') cs)"

lemma trailing_comma_next:
  "trailing_comma c cs \<longleftrightarrow> ts_kind c = '','' \<and> (case next_kind cs of Some k \<Rightarrow> is_closer k | None \<Rightarrow> False)"
  by (auto simp: trailing_comma_def next_kind_def split: list.split)

lemma comment_tokens: "is_comment n \<Longrightarrow> tokens lang src n = ([], [])"
  by (cases n) (simp add: is_comment_def)

lemma comment_no_comma: "is_comment n \<Longrightarrow> ts_kind n \<noteq> '',''"
  by (auto simp: is_comment_def comment_kinds_def)

lemma tokens_inner:
  "\<not> is_comment n \<Longrightarrow> ts_children n \<noteq> [] \<Longrightarrow>
   tokens lang src n =
     (let indented = (lang = Python \<and> ts_kind n = ''block'');
          (toks, refs) = tokens_all lang src (is_tuple (ts_kind n) \<and> comma_count (ts_children n) = 1) (ts_children n)
      in ((if indented then [[0x0e]] else []) @ toks @ (if indented then [[0x0f]] else []), refs))"
  by (cases n) (simp add: is_comment_def comma_count_def Let_def)

lemma tokens_leaf:
  "\<not> is_comment n \<Longrightarrow> ts_children n = [] \<Longrightarrow>
   tokens lang src n =
     (if ts_start n < ts_end n then ([ts_text src n], if ts_kind n \<in> set ident_kinds then [ts_text src n] else []) else ([], []))"
  by (cases n) (simp add: is_comment_def Let_def)

lemma relaid_tokens:
  "relaid src src' n n' \<Longrightarrow> tokens lang src n = tokens lang src' n'"
  "relaid_all src src' after cs cs' \<Longrightarrow>
     comma_count cs = comma_count cs' \<and> (\<forall>keep. tokens_all lang src keep cs = tokens_all lang src' keep cs') \<and>
     (after \<longrightarrow> next_kind cs = next_kind cs')"
proof (induction rule: relaid_relaid_all.inducts)
  case (relaid_comment n n')
  then have "is_comment n'" by (simp add: is_comment_def)
  with relaid_comment show ?case by (simp add: comment_tokens)
next
  case (relaid_leaf n n')
  then have "is_comment n' \<longleftrightarrow> is_comment n" by (simp add: is_comment_def)
  with relaid_leaf show ?case by (cases "is_comment n") (simp_all add: comment_tokens tokens_leaf)
next
  case (relaid_inner n n')
  then have "is_comment n' \<longleftrightarrow> is_comment n" by (simp add: is_comment_def)
  with relaid_inner show ?case by (cases "is_comment n") (simp_all add: comment_tokens tokens_inner)
next
  case (relaid_cons c c' cs cs' "after")
  then have "trailing_comma c cs \<longleftrightarrow> trailing_comma c' cs'" by (auto simp: trailing_comma_next)
  with relaid_cons show ?case by (simp add: comma_count_def next_kind_def)
next
  case (relaid_add c' cs cs')
  then have "\<not> trailing_comma c' cs'" by (simp add: trailing_comma_next comment_no_comma)
  with relaid_add show ?case by (simp add: comma_count_def comment_no_comma comment_tokens)
next
  case (relaid_drop c cs cs')
  then have "\<not> trailing_comma c cs" by (simp add: trailing_comma_next comment_no_comma)
  with relaid_drop show ?case by (simp add: comma_count_def comment_no_comma comment_tokens)
qed simp

text \<open>What the body hash, the references and the shingles of a unit see does not depend on its layout: two
  parses with the same leaves, at whatever positions, and with other comments, except directly behind a
  separator, give units with the same hash, references and shingles.\<close>

theorem layout_keeps_body:
  assumes "relaid src src' c c'"
  shows "rw_body (unit_node x lang src parent ks [] c kind name sl) = rw_body (unit_node x lang src' parent' ks' [] c' kind name sl') \<and>
    rw_refs (unit_node x lang src parent ks [] c kind name sl) = rw_refs (unit_node x lang src' parent' ks' [] c' kind name sl') \<and>
    rw_shingles (unit_node x lang src parent ks [] c kind name sl) = rw_shingles (unit_node x lang src' parent' ks' [] c' kind name sl')"
  using relaid_tokens(1) [OF assms, of lang] by (simp add: unit_node_def Let_def split: prod.split)

end
