(* ===== verification/Matching_Props.thy ===== *)
theory Matching_Props
  imports Matching Extract_Props Key_Props
begin

text \<open>
  Identity across versions: no id is given twice, what carries an id over is of the same kind as what had
  it, and an unchanged file keeps every id.
\<close>

lemma find_Some_in: "find P xs = Some x \<Longrightarrow> x \<in> set xs \<and> P x"
  by (auto simp: find_Some_iff)

section \<open>Overlap\<close>

lemma common_count_card:
  "sorted_wrt (<) as \<Longrightarrow> sorted_wrt (<) bs \<Longrightarrow> common_count as bs = card (set as \<inter> set bs)"
proof (induction as bs rule: common_count.induct)
  case (1 a as b bs)
  have min: "\<forall>y \<in> set as. a < y" "\<forall>y \<in> set bs. b < y" using 1(4,5) by auto
  consider "a < b" | "b < a" | "a = b" by (metis linorder_less_linear)
  then show ?case
  proof cases
    case 1
    then have "a \<notin> set (b # bs)" using min by auto
    then have "set (a # as) \<inter> set (b # bs) = set as \<inter> set (b # bs)" by auto
    with "1.IH"(1) [OF 1] "1.prems" 1 show ?thesis by simp
  next
    case 2
    then have "b \<notin> set (a # as)" using min by auto
    then have "set (a # as) \<inter> set (b # bs) = set (a # as) \<inter> set bs" by auto
    moreover have "\<not> a < b" using 2 by simp
    ultimately show ?thesis using "1.IH"(2) [OF _ 2] "1.prems" 2 by simp
  next
    case 3
    then have "a \<notin> set as" "a \<notin> set bs" using min by auto
    then have "set (a # as) \<inter> set (b # bs) = insert a (set as \<inter> set bs)" "a \<notin> set as \<inter> set bs" using 3 by auto
    with "1.IH"(3) "1.prems" 3 show ?thesis by simp
  qed
qed simp_all

lemma strictly_sorted_eq: "sorted_wrt (<) as \<Longrightarrow> sorted_wrt (<) bs \<Longrightarrow> set as = set bs \<Longrightarrow> as = (bs :: 'a :: linorder list)"
  by (metis strict_sorted_equal)

text \<open>C30: the likeness of two units is the share of the token pairs they have in common: for sorted sets of
  shingles it is the size of the intersection by the size of the union, it lies between 0 and 1, does not
  depend on the order of the two, and is 1 only for equal sets that are not empty.\<close>

theorem jaccard_is_overlap:
  assumes "sorted_wrt (<) a" and "sorted_wrt (<) b"
  shows "jaccard a b = of_nat (card (set a \<inter> set b)) / of_nat (card (set a \<union> set b)) \<and>
    0 \<le> jaccard a b \<and> jaccard a b \<le> 1 \<and> jaccard a b = jaccard b a \<and> (jaccard a b = 1 \<longleftrightarrow> a = b \<and> a \<noteq> [])"
proof -
  let ?i = "card (set a \<inter> set b)" and ?u = "card (set a \<union> set b)"
  have len: "length a = card (set a)" "length b = card (set b)"
    using assms by (simp_all add: distinct_card strict_sorted_iff)
  have sum: "card (set a) + card (set b) = ?u + ?i" by (rule card_Un_Int) simp_all
  have share: "jaccard x y = of_nat (card (set x \<inter> set y)) / of_nat (card (set x \<union> set y))"
    if "sorted_wrt (<) x" "sorted_wrt (<) y" for x y :: "64 word list"
  proof -
    have "length x + length y - card (set x \<inter> set y) = card (set x \<union> set y)"
      using that card_Un_Int [of "set x" "set y"] by (simp add: distinct_card strict_sorted_iff)
    then show ?thesis by (auto simp: jaccard_def common_count_card [OF that] Let_def)
  qed
  have le: "?i \<le> ?u" by (rule card_mono) auto
  have "?i = ?u \<longleftrightarrow> set a = set b"
    using card_subset_eq [of "set a \<union> set b" "set a \<inter> set b"] by auto
  then have one: "?i = ?u \<longleftrightarrow> a = b" using strictly_sorted_eq [OF assms] by auto
  have "jaccard a b = 1 \<longleftrightarrow> ?i = ?u \<and> ?u \<noteq> 0"
    unfolding share [OF assms] by (cases "?u = 0") (auto simp: field_simps simp del: card_0_eq)
  moreover have "?u = 0 \<longleftrightarrow> a = [] \<and> b = []" by auto
  moreover have "jaccard b a = jaccard a b" by (simp add: share assms Int_commute Un_commute)
  ultimately show ?thesis
    using share [OF assms] le one by (auto simp: divide_le_eq_1 simp del: card_0_eq)
qed

section \<open>Groups\<close>

definition slots_below :: "nat \<Rightarrow> nat option list \<Rightarrow> bool" where
  "slots_below n slot \<longleftrightarrow> (\<forall>s \<in> set slot. \<forall>q. s = Some q \<longrightarrow> q < n)"

lemma slots_below_update: "slots_below n slot \<Longrightarrow> q < n \<Longrightarrow> slots_below n (slot[m := Some q])"
  unfolding slots_below_def using set_update_subset_insert [of slot m "Some q"] by auto

lemma some_of_below: "slots_below n xs \<Longrightarrow> some_of xs = Some q \<Longrightarrow> q < n"
  by (auto simp: some_of_def slots_below_def split: option.splits dest: find_Some_in)

lemma match_group_below: "slots_below (length prevs) (match_group raw members prev prevs)"
proof -
  let ?n = "length prevs"
  have "slots_below ?n (snd (slot_body raw members prev prevs m s))" if "slots_below ?n (snd s)" for m s
    using that by (cases s) (auto simp: slot_body_def split: option.splits intro!: slots_below_update dest: find_Some_in)
  then have 1: "slots_below ?n (snd (fold (slot_body raw members prev prevs) ms s))" if "slots_below ?n (snd s)" for ms s
    using that by (induction ms arbitrary: s) auto
  have "slots_below ?n (snd (slot_between ?n m s))" if below: "slots_below ?n (snd s)" for m s
  proof -
    obtain taken slot where s: "s = (taken, slot)" by (cases s)
    have "slots_below ?n (drop (m + 1) slot)" using below by (auto simp: s slots_below_def dest: in_set_dropD)
    then have "(case some_of (drop (m + 1) slot) of Some q \<Rightarrow> q | None \<Rightarrow> ?n) \<le> ?n"
      by (auto split: option.splits dest: some_of_below)
    then show ?thesis
      using below by (auto simp: s slot_between_def Let_def split: option.splits intro!: slots_below_update dest!: find_Some_in)
  qed
  then have 2: "slots_below ?n (snd (fold (slot_between ?n) ms s))" if "slots_below ?n (snd s)" for ms s
    using that by (induction ms arbitrary: s) auto
  show ?thesis
    unfolding match_group_def Let_def by (rule 2, rule 1) (simp add: slots_below_def)
qed

section \<open>No id twice\<close>

text \<open>What is assigned is owned, once, and comes from a previous unit of the same kind.\<close>

definition ids_ok :: "raw_node list \<Rightarrow> node list \<Rightarrow> ids \<Rightarrow> bool" where
  "ids_ok raw prev = (\<lambda>(assigned, owned).
     length assigned = length raw \<and> filled_once assigned \<and>
     (\<forall>i < length raw. \<forall>n. assigned ! i = Some n \<longrightarrow>
        n \<in> set owned \<and> (\<exists>p \<in> set prev. node_nid p = n \<and> node_kind p = rw_kind (raw ! i))))"

lemma ids_ok_assign:
  assumes "ids_ok raw prev (assigned, owned)" "n \<notin> set owned" "p \<in> set prev" "node_nid p = n"
    and "i < length raw \<longrightarrow> node_kind p = rw_kind (raw ! i)"
  shows "ids_ok raw prev (assigned[i := Some n], n # owned)"
proof -
  have len: "length assigned = length raw" and once: "filled_once assigned"
    and old: "\<And>j m. j < length raw \<Longrightarrow> assigned ! j = Some m \<Longrightarrow>
      m \<in> set owned \<and> (\<exists>p \<in> set prev. node_nid p = m \<and> node_kind p = rw_kind (raw ! j))"
    using assms(1) by (auto simp: ids_ok_def)
  have "filled_once (assigned[i := Some n])"
    by (rule filled_once_update [OF once]) (use old assms(2) len in auto)
  moreover have "m \<in> set (n # owned) \<and> (\<exists>p \<in> set prev. node_nid p = m \<and> node_kind p = rw_kind (raw ! j))"
    if "j < length raw" "assigned[i := Some n] ! j = Some m" for j m
    using that old [of j m] assms(3-5) len by (cases "j = i") auto
  ultimately show ?thesis using len by (simp add: ids_ok_def)
qed

lemma ids_ok_take:
  assumes "ids_ok raw prev ids" "p \<in> set prev" "node_nid p = n" "i < length raw \<longrightarrow> node_kind p = rw_kind (raw ! i)"
  shows "ids_ok raw prev (take_id i n ids)"
  using assms ids_ok_assign by (cases ids) (auto simp: take_id_def)

lemma ids_ok_names: "ids_ok raw prev (fst s) \<Longrightarrow> i < length raw \<Longrightarrow> ids_ok raw prev (fst (name_pass raw prev i s))"
proof -
  assume ok: "ids_ok raw prev (fst s)" and i: "i < length raw"
  obtain assigned owned grouped where s: "s = ((assigned, owned), grouped)" by (metis prod.exhaust)
  let ?members = "raw_group raw i"
  let ?prevs = "prev_group prev (parent_id raw assigned i) (rw_kind (raw ! i)) (rw_name (raw ! i))"
  let ?slots = "match_group raw ?members prev ?prevs"
  let ?step = "\<lambda>(j, s) ids. case s of None \<Rightarrow> ids | Some q \<Rightarrow> take_id j (node_nid (prev ! (?prevs ! q))) ids"
  have "ids_ok raw prev (fold ?step (zip ?members ?slots) (assigned, owned))"
  proof (rule fold_invariant [where Q = "\<lambda>(j, s). j \<in> set ?members \<and> s \<in> set ?slots"])
    show "case z of (j, s) \<Rightarrow> j \<in> set ?members \<and> s \<in> set ?slots" if "z \<in> set (zip ?members ?slots)" for z
      using that by (auto dest: set_zip_leftD set_zip_rightD)
    show "ids_ok raw prev (assigned, owned)" using ok s by simp
    fix z ids assume z: "case z of (j, s) \<Rightarrow> j \<in> set ?members \<and> s \<in> set ?slots" and ids: "ids_ok raw prev ids"
    obtain j sl where zz: "z = (j, sl)" by (cases z)
    show "ids_ok raw prev (?step z ids)"
    proof (cases sl)
      case (Some q)
      then have "q < length ?prevs" using z match_group_below zz by (auto simp: slots_below_def)
      then have "?prevs ! q \<in> set ?prevs" by simp
      then have "prev ! (?prevs ! q) \<in> set prev" "node_kind (prev ! (?prevs ! q)) = rw_kind (raw ! i)"
        by (auto simp: prev_group_def)
      moreover have "rw_kind (raw ! j) = rw_kind (raw ! i)" using z zz by (auto simp: raw_group_def)
      ultimately show ?thesis using ids_ok_take [OF ids] by (simp add: zz Some)
    qed (use ids zz in simp)
  qed
  with ok show ?thesis by (simp add: s name_pass_def Let_def)
qed

lemma ids_ok_bodies:
  assumes "ids_ok raw prev (fst s)" "i < length raw"
    and "\<forall>k. \<forall>n \<in> set (snd s k). \<exists>p \<in> set prev. node_nid p = n \<and> node_kind p = fst (snd k)"
  shows "ids_ok raw prev (fst (body_pass raw i s)) \<and>
    (\<forall>k. \<forall>n \<in> set (snd (body_pass raw i s) k). \<exists>p \<in> set prev. node_nid p = n \<and> node_kind p = fst (snd k))"
proof -
  obtain assigned owned lists where s: "s = ((assigned, owned), lists)" by (metis prod.exhaust)
  let ?k = "(parent_id raw assigned i, rw_kind (raw ! i), rw_body (raw ! i))"
  show ?thesis
  proof (cases "assigned ! i \<noteq> None")
    case False
    show ?thesis
    proof (cases "dropWhile (\<lambda>n. n \<in> set owned) (lists ?k)")
      case Nil
      then have "body_pass raw i s = ((assigned, owned), lists(?k := []))"
        using False by (simp add: s body_pass_def Let_def del: dropWhile_eq_Nil_conv)
      with assms show ?thesis by (simp add: s)
    next
      case (Cons n ns)
      have sub: "set (n # ns) \<subseteq> set (lists ?k)" unfolding Cons [symmetric] by (auto dest: set_dropWhileD)
      have "n \<notin> set owned" using Cons by (metis dropWhile_eq_Cons_conv)
      moreover obtain p where "p \<in> set prev" "node_nid p = n" "node_kind p = rw_kind (raw ! i)"
        using assms(3) sub by (fastforce simp: s)
      ultimately have ok: "ids_ok raw prev (assigned[i := Some n], n # owned)"
        using ids_ok_assign assms(1) by (auto simp: s)
      have new: "body_pass raw i s = ((assigned[i := Some n], n # owned), lists(?k := ns))"
        using False Cons by (simp add: s body_pass_def Let_def)
      have "\<exists>p \<in> set prev. node_nid p = m \<and> node_kind p = fst (snd k)" if "m \<in> set ((lists(?k := ns)) k)" for m k
      proof -
        have "m \<in> set (lists k)" using that sub by (auto split: if_splits)
        with assms(3) show ?thesis unfolding s snd_conv by blast
      qed
      then show ?thesis unfolding new fst_conv snd_conv using ok by blast
    qed
  qed (use assms in \<open>simp add: s body_pass_def\<close>)
qed

lemma ids_ok_chunks: "ids_ok raw prev (fst s) \<Longrightarrow> i < length raw \<Longrightarrow> ids_ok raw prev (fst (chunk_pass raw prev b a i s))"
  by (cases s; cases "fst s")
     (auto simp: chunk_pass_def Let_def split: option.splits intro!: ids_ok_assign dest!: find_Some_in)

lemma best_of_in: "best_of cs = Some c \<Longrightarrow> c \<in> set cs"
proof -
  have "fold (\<lambda>c best. case best of None \<Rightarrow> Some c | Some b \<Rightarrow> if snd c < snd b then Some b else Some c) cs m = Some c \<Longrightarrow>
      c \<in> set cs \<or> m = Some c" for m and cs :: "(eid \<times> rat) list"
    by (induction cs arbitrary: m) (fastforce split: option.splits if_splits)+
  then show "best_of cs = Some c \<Longrightarrow> c \<in> set cs" by (auto simp: best_of_def)
qed

lemma ids_ok_similar: "ids_ok raw prev ids \<Longrightarrow> ids_ok raw prev (similar_pass raw prev sh i ids)"
proof -
  assume ok: "ids_ok raw prev ids"
  obtain assigned owned where ids: "ids = (assigned, owned)" by (cases ids)
  show ?thesis
  proof (cases "similar_pass raw prev sh i ids = ids")
    case False
    then obtain n score cs where best: "best_of cs = Some (n, score)"
      and new: "similar_pass raw prev sh i ids = take_id i n ids"
      and cs: "cs = concat (map (\<lambda>n. case sh (node_nid n) of None \<Rightarrow> [] | Some s \<Rightarrow> [(node_nid n, jaccard s (rw_shingles (raw ! i)))])
         (filter (\<lambda>n. node_nid n \<notin> set owned \<and> node_name n \<noteq> [] \<and> node_kind n = rw_kind (raw ! i) \<and>
            node_parent n = parent_id raw assigned i) prev))"
      by (auto simp: ids similar_pass_def Let_def split: option.splits if_splits)
    from best_of_in [OF best] obtain p where "p \<in> set prev" "node_nid p = n" "node_kind p = rw_kind (raw ! i)"
      by (auto simp: cs split: option.splits)
    with ids_ok_take [OF ok] show ?thesis by (simp add: new)
  qed (use ok in simp)
qed

lemma carried_ids_ok: "ids_ok raw prev (carried_ids x path raw prev prev_src)"
proof -
  let ?inv = "\<lambda>s. ids_ok raw prev (fst s)"
  have "filled_once (replicate (length raw) None)" by (simp add: filled_once_def)
  then have "ids_ok raw prev (pass_names raw prev)"
    unfolding pass_names_def
    by (intro fold_invariant [where Q = "\<lambda>i. i < length raw" and P = ?inv])
       (auto simp: ids_ok_names, simp add: ids_ok_def)
  then have "ids_ok raw prev (pass_bodies raw prev (pass_names raw prev))"
    unfolding pass_bodies_def
    by (intro conjunct1 [OF fold_invariant [where Q = "\<lambda>i. i < length raw" and
          P = "\<lambda>s. ?inv s \<and> (\<forall>k. \<forall>n \<in> set (snd s k). \<exists>p \<in> set prev. node_nid p = n \<and> node_kind p = fst (snd k))"]])
       (use ids_ok_bodies in \<open>auto simp: prev_by_body_def\<close>)
  then have "ids_ok raw prev (pass_chunks raw prev (pass_bodies raw prev (pass_names raw prev)))"
    unfolding pass_chunks_def Let_def
    by (intro fold_invariant [where Q = "\<lambda>i. i < length raw" and P = ?inv]) (auto simp: ids_ok_chunks)
  then show ?thesis
    unfolding carried_ids_def pass_similar_def
    by (auto split: option.splits intro!: fold_invariant [where Q = "\<lambda>_. True" and P = "ids_ok raw prev"] ids_ok_similar)
qed

lemma final_ids_ok:
  assumes "ids_ok raw prev (assigned, owned)"
    and "\<forall>i < length raw. fresh i \<notin> node_nid ` set prev" "inj_on fresh {..<length raw}"
  shows "length (final_ids fresh assigned) = length raw" "distinct (final_ids fresh assigned)"
    and "\<And>i. i < length raw \<Longrightarrow> final_ids fresh assigned ! i \<in> node_nid ` set prev \<Longrightarrow>
      \<exists>p \<in> set prev. node_nid p = final_ids fresh assigned ! i \<and> node_kind p = rw_kind (raw ! i)"
proof -
  have len: "length assigned = length raw" and once: "filled_once assigned"
    and old: "\<And>j m. j < length raw \<Longrightarrow> assigned ! j = Some m \<Longrightarrow> \<exists>p \<in> set prev. node_nid p = m \<and> node_kind p = rw_kind (raw ! j)"
    using assms(1) by (auto simp: ids_ok_def)
  show l: "length (final_ids fresh assigned) = length raw" by (simp add: final_ids_def len)
  have nth: "final_ids fresh assigned ! i = (case assigned ! i of Some n \<Rightarrow> n | None \<Rightarrow> fresh i)" if "i < length raw" for i
    using that by (cases "assigned ! i") (simp_all add: final_ids_def len)
  have before: "m \<in> node_nid ` set prev" if "j < length raw" "assigned ! j = Some m" for j m
    using old [OF that] by (metis image_eqI)
  have new: "fresh j \<notin> node_nid ` set prev" if "j < length raw" for j using assms(2) that by simp
  show "distinct (final_ids fresh assigned)"
    unfolding distinct_conv_nth l
  proof (intro allI impI)
    fix i j assume ij: "i < length raw" "j < length raw" "i \<noteq> j"
    show "final_ids fresh assigned ! i \<noteq> final_ids fresh assigned ! j"
    proof (cases "assigned ! i"; cases "assigned ! j")
      fix m n assume "assigned ! i = Some m" "assigned ! j = Some n"
      moreover from this have "m \<noteq> n" using once ij len unfolding filled_once_def by (metis option.distinct(1))
      ultimately show ?thesis using ij nth by simp
    next
      assume "assigned ! i = None" "assigned ! j = None"
      then show ?thesis using ij nth assms(3) by (auto dest: inj_onD)
    next
      fix n assume "assigned ! i = None" "assigned ! j = Some n"
      moreover from this have "n \<noteq> fresh i" using before [OF ij(2)] new [OF ij(1)] by metis
      ultimately show ?thesis using ij nth by simp
    next
      fix m assume "assigned ! i = Some m" "assigned ! j = None"
      moreover from this have "m \<noteq> fresh j" using before [OF ij(1)] new [OF ij(2)] by metis
      ultimately show ?thesis using ij nth by simp
    qed
  qed
  fix i assume i: "i < length raw" "final_ids fresh assigned ! i \<in> node_nid ` set prev"
  have "assigned ! i \<noteq> None"
  proof
    assume "assigned ! i = None"
    with nth [OF i(1)] i(2) have "fresh i \<in> node_nid ` set prev" by simp
    with new [OF i(1)] show False by simp
  qed
  then obtain n where n: "assigned ! i = Some n" by blast
  from old [OF i(1) n] nth [OF i(1)] n
  show "\<exists>p \<in> set prev. node_nid p = final_ids fresh assigned ! i \<and> node_kind p = rw_kind (raw ! i)" by simp
qed

lemma assign_only_nth:
  assumes "length (final_ids fresh (fst (carried_ids x path raw prev src))) = length raw" "i < length raw"
  shows "assign_only x fresh path raw prev src ! i =
    node_of_raw path (final_ids fresh (fst (carried_ids x path raw prev src))) (raw ! i)
      (final_ids fresh (fst (carried_ids x path raw prev src)) ! i)"
  using assms by (simp add: assign_only_def Let_def)

lemma length_carried: "length (fst (carried_ids x path raw prev src)) = length raw"
  using carried_ids_ok [of raw prev x path src] by (auto simp: ids_ok_def split: prod.splits)

lemma length_assign_only [simp]: "length (assign_only x fresh path raw prev src) = length raw"
  using length_carried [of x path raw prev src] by (simp add: assign_only_def Let_def final_ids_def)

lemma node_nid_of_raw [simp]: "node_nid (node_of_raw path ids r n) = n"
  by (simp add: node_of_raw_def)

lemma nids_assign_only:
  "map node_nid (assign_only x fresh path raw prev src) = final_ids fresh (fst (carried_ids x path raw prev src))"
  using length_carried [of x path raw prev src]
  by (simp add: assign_only_def Let_def comp_def case_prod_beta final_ids_def flip: map_map [of snd])

lemma assign_with_refs_ids:
  "map node_nid (fst (assign_ids_with_refs x fresh path raw prev src)) = map node_nid (assign_only x fresh path raw prev src)"
  by (rule nth_equalityI) (simp_all add: assign_ids_with_refs_def Let_def split: prod.splits)

text \<open>C16: no id is given to two units, and a unit that carries the id of a previous one is of its kind,
  provided that the ids drawn for new units are fresh.\<close>

theorem identities_are_distinct:
  assumes "\<forall>i < length raw. fresh i \<notin> node_nid ` set prev" and "inj_on fresh {..<length raw}"
  shows "distinct (map node_nid (fst (assign_ids_with_refs x fresh path raw prev src))) \<and>
    (\<forall>n \<in> set (fst (assign_ids_with_refs x fresh path raw prev src)). node_nid n \<in> node_nid ` set prev \<longrightarrow>
       (\<exists>p \<in> set prev. node_nid p = node_nid n \<and> node_kind p = node_kind n))"
proof -
  obtain assigned owned where ids: "carried_ids x path raw prev src = (assigned, owned)" by (cases "carried_ids x path raw prev src")
  note fin = final_ids_ok [OF carried_ids_ok [of raw prev x path src, unfolded ids] assms]
  let ?out = "fst (assign_ids_with_refs x fresh path raw prev src)"
  have len: "length ?out = length raw" by (simp add: assign_ids_with_refs_def Let_def)
  have out: "node_nid (?out ! i) = final_ids fresh assigned ! i" "node_kind (?out ! i) = rw_kind (raw ! i)" if "i < length raw" for i
    using that fin(1) ids
    by (simp_all add: assign_ids_with_refs_def Let_def assign_only_nth node_of_raw_def split: prod.splits)
  have "map node_nid ?out = final_ids fresh assigned" by (simp add: assign_with_refs_ids nids_assign_only ids)
  then have "distinct (map node_nid ?out)" using fin(2) by simp
  moreover have "\<exists>p \<in> set prev. node_nid p = node_nid n \<and> node_kind p = node_kind n"
    if "n \<in> set ?out" "node_nid n \<in> node_nid ` set prev" for n
  proof -
    from that(1) len have "\<exists>i < length raw. n = ?out ! i" by (metis in_set_conv_nth)
    then obtain i where i: "i < length raw" "n = ?out ! i" by blast
    with fin(3) [OF i(1)] that(2) out [OF i(1)] show ?thesis by auto
  qed
  ultimately show ?thesis by blast
qed

section \<open>An unchanged file\<close>

definition prev_nid :: "node list \<Rightarrow> nat \<Rightarrow> eid" where
  "prev_nid prev j = node_nid (prev ! j)"

text \<open>The units of a file are the recorded ones: the same kinds, names, bodies and containers.\<close>

definition same_units :: "raw_node list \<Rightarrow> node list \<Rightarrow> bool" where
  "same_units raw prev \<longleftrightarrow>
     length raw = length prev \<and> distinct (map node_nid prev) \<and>
     list_all (\<lambda>i. node_kind (prev ! i) = rw_kind (raw ! i) \<and> node_name (prev ! i) = rw_name (raw ! i) \<and>
         node_body (prev ! i) = rw_body (raw ! i) \<and>
         node_parent (prev ! i) = map_option (prev_nid prev) (rw_parent (raw ! i)) \<and>
         (case rw_parent (raw ! i) of None \<Rightarrow> True | Some p \<Rightarrow> p < i \<and> rw_name (raw ! p) \<noteq> []))
       [0..<length raw]"

lemma same_units_nth:
  assumes "same_units raw prev" "i < length raw"
  shows "node_kind (prev ! i) = rw_kind (raw ! i)" "node_name (prev ! i) = rw_name (raw ! i)"
    "node_body (prev ! i) = rw_body (raw ! i)" "node_parent (prev ! i) = map_option (prev_nid prev) (rw_parent (raw ! i))"
    "rw_parent (raw ! i) = Some p \<Longrightarrow> p < i \<and> rw_name (raw ! p) \<noteq> []"
proof -
  have "i \<in> set [0..<length raw]" using assms(2) by simp
  with assms(1) have "node_kind (prev ! i) = rw_kind (raw ! i) \<and> node_name (prev ! i) = rw_name (raw ! i) \<and>
         node_body (prev ! i) = rw_body (raw ! i) \<and>
         node_parent (prev ! i) = map_option (prev_nid prev) (rw_parent (raw ! i)) \<and>
         (case rw_parent (raw ! i) of None \<Rightarrow> True | Some p \<Rightarrow> p < i \<and> rw_name (raw ! p) \<noteq> [])"
    unfolding same_units_def list_all_iff by blast
  then show "node_kind (prev ! i) = rw_kind (raw ! i)" "node_name (prev ! i) = rw_name (raw ! i)"
    "node_body (prev ! i) = rw_body (raw ! i)" "node_parent (prev ! i) = map_option (prev_nid prev) (rw_parent (raw ! i))"
    "rw_parent (raw ! i) = Some p \<Longrightarrow> p < i \<and> rw_name (raw ! p) \<noteq> []" by simp_all
qed

lemma prev_nid_inj:
  assumes "same_units raw prev" "i < length raw" "j < length raw"
  shows "prev_nid prev i = prev_nid prev j \<longleftrightarrow> i = j"
  using assms by (auto simp: same_units_def prev_nid_def distinct_conv_nth)

lemma same_parent_iff:
  assumes "same_units raw prev" "i < length raw" "j < length raw"
  shows "node_parent (prev ! i) = node_parent (prev ! j) \<longleftrightarrow> rw_parent (raw ! i) = rw_parent (raw ! j)"
proof -
  have "p < length raw" if "rw_parent (raw ! i) = Some p \<or> rw_parent (raw ! j) = Some p" for p
    using that same_units_nth(5) [OF assms(1)] assms(2,3) by (metis order.strict_trans)
  then show ?thesis
    unfolding same_units_nth(4) [OF assms(1,2)] same_units_nth(4) [OF assms(1,3)]
    using prev_nid_inj [OF assms(1)]
    by (cases "rw_parent (raw ! i)"; cases "rw_parent (raw ! j)") auto
qed

text \<open>In a group matched with itself each member takes its own place.\<close>

lemma find_first_at:
  assumes "m < n" "P m" "\<And>q. q < m \<Longrightarrow> \<not> P q"
  shows "find P [0..<n] = Some m"
  using assms by (auto simp: find_Some_iff intro!: exI [of _ m])

lemma slot_body_own:
  assumes "\<forall>q < length ms. node_body (prev ! (ms ! q)) = rw_body (raw ! (ms ! q))" "k \<le> length ms"
  shows "fold (slot_body raw ms prev ms) [0..<k] (replicate (length ms) False, replicate (length ms) None) =
    (map (\<lambda>q. q < k) [0..<length ms], map (\<lambda>q. if q < k then Some q else None) [0..<length ms])"
  using assms(2)
proof (induction k)
  case 0
  show ?case by (simp add: map_replicate_const)
next
  case (Suc k)
  let ?taken = "map (\<lambda>q. q < k) [0..<length ms]" and ?slot = "map (\<lambda>q. if q < k then Some q else None) [0..<length ms]"
  have "find (\<lambda>q. \<not> ?taken ! q \<and> node_body (prev ! (ms ! q)) = rw_body (raw ! (ms ! k))) [0..<length ms] = Some k"
    using Suc.prems assms(1) by (intro find_first_at) auto
  then have "slot_body raw ms prev ms k (?taken, ?slot) = (?taken[k := True], ?slot[k := Some k])"
    by (simp add: slot_body_def)
  moreover have "?taken[k := True] = map (\<lambda>q. q < Suc k) [0..<length ms]"
    using Suc.prems by (intro nth_equalityI) (auto simp: nth_list_update)
  moreover have "?slot[k := Some k] = map (\<lambda>q. if q < Suc k then Some q else None) [0..<length ms]"
    using Suc.prems by (intro nth_equalityI) (auto simp: nth_list_update)
  ultimately show ?case using Suc by simp
qed

lemma match_group_own:
  assumes "\<forall>q < length ms. node_body (prev ! (ms ! q)) = rw_body (raw ! (ms ! q))"
  shows "match_group raw ms prev ms = map Some [0..<length ms]"
proof -
  have slots: "map (\<lambda>q. if q < length ms then Some q else None) [0..<length ms] = map Some [0..<length ms]" by simp
  have "fold (slot_between (length ms)) ks (taken, map Some [0..<length ms]) = (taken, map Some [0..<length ms])"
    if "set ks \<subseteq> {..<length ms}" for ks taken
    using that by (induction ks) (auto simp: slot_between_def)
  then show ?thesis
    by (simp add: match_group_def slot_body_own [OF assms] slots lessThan_atLeast0 flip: atLeast_upt)
qed

lemma fold_own_slots:
  "fold (\<lambda>(j, s) ids. case s of None \<Rightarrow> ids | Some q \<Rightarrow> take_id j (node_nid (prev ! (ms ! q))) ids)
     (zip ms (map Some [0..<length ms])) ids = fold (\<lambda>j. take_id j (prev_nid prev j)) ms ids"
proof -
  have "zip ms (map Some [0..<length ms]) = map (\<lambda>q. (ms ! q, Some q)) [0..<length ms]"
    by (rule nth_equalityI) auto
  then have "fold (\<lambda>(j, s) ids. case s of None \<Rightarrow> ids | Some q \<Rightarrow> take_id j (node_nid (prev ! (ms ! q))) ids)
     (zip ms (map Some [0..<length ms])) ids = fold (\<lambda>j. take_id j (prev_nid prev j)) (map ((!) ms) [0..<length ms]) ids"
    by (simp add: fold_map comp_def prev_nid_def)
  then show ?thesis by (simp add: map_nth)
qed

lemma fold_take_ids:
  assumes "same_units raw prev" "length assigned = length raw" "set ms \<subseteq> {..<length raw}" "distinct ms"
    and "\<forall>j \<in> set ms. prev_nid prev j \<notin> set owned"
  shows "\<exists>owned'. fold (\<lambda>j. take_id j (prev_nid prev j)) ms (assigned, owned) =
      (map (\<lambda>j. if j \<in> set ms then Some (prev_nid prev j) else assigned ! j) [0..<length raw], owned') \<and>
    set owned' = prev_nid prev ` set ms \<union> set owned"
  using assms(2-5)
proof (induction ms arbitrary: assigned owned)
  case Nil
  then show ?case by (auto intro: nth_equalityI)
next
  case (Cons m ms)
  have "\<forall>j \<in> set ms. prev_nid prev j \<notin> set (prev_nid prev m # owned)"
    using Cons.prems prev_nid_inj [OF assms(1)] by auto
  with Cons.IH [of "assigned[m := Some (prev_nid prev m)]" "prev_nid prev m # owned"] Cons.prems
  obtain owned' where new: "fold (\<lambda>j. take_id j (prev_nid prev j)) ms (assigned[m := Some (prev_nid prev m)], prev_nid prev m # owned) =
      (map (\<lambda>j. if j \<in> set ms then Some (prev_nid prev j) else assigned[m := Some (prev_nid prev m)] ! j) [0..<length raw], owned')"
    and owned': "set owned' = prev_nid prev ` set ms \<union> set (prev_nid prev m # owned)" by auto
  have "map (\<lambda>j. if j \<in> set ms then Some (prev_nid prev j) else assigned[m := Some (prev_nid prev m)] ! j) [0..<length raw] =
    map (\<lambda>j. if j \<in> set (m # ms) then Some (prev_nid prev j) else assigned ! j) [0..<length raw]"
    using Cons.prems(1,2) by (auto simp: nth_list_update)
  moreover have "take_id m (prev_nid prev m) (assigned, owned) = (assigned[m := Some (prev_nid prev m)], prev_nid prev m # owned)"
    using Cons.prems(4) by (simp add: take_id_def)
  ultimately show ?case using new owned' by auto
qed

text \<open>The first pass gives every named unit its own id.\<close>

definition group_of :: "raw_node list \<Rightarrow> nat \<Rightarrow> group_key" where
  "group_of raw j = (rw_parent (raw ! j), rw_kind (raw ! j), rw_name (raw ! j))"

definition named_in :: "raw_node list \<Rightarrow> group_key list \<Rightarrow> nat \<Rightarrow> bool" where
  "named_in raw grouped j \<longleftrightarrow> j < length raw \<and> rw_name (raw ! j) \<noteq> [] \<and> group_of raw j \<in> set grouped"

definition own_ids :: "raw_node list \<Rightarrow> node list \<Rightarrow> (nat \<Rightarrow> bool) \<Rightarrow> ids \<Rightarrow> bool" where
  "own_ids raw prev P = (\<lambda>(assigned, owned).
     assigned = map (\<lambda>j. if P j then Some (prev_nid prev j) else None) [0..<length raw] \<and>
     set owned = prev_nid prev ` {j. j < length raw \<and> P j})"

lemma own_ids_parent:
  assumes "same_units raw prev" "own_ids raw prev P (assigned, owned)" "i < length raw"
    and "\<And>p. p < i \<Longrightarrow> rw_name (raw ! p) \<noteq> [] \<Longrightarrow> P p"
  shows "parent_id raw assigned i = node_parent (prev ! i)"
proof (cases "rw_parent (raw ! i)")
  case (Some p)
  with same_units_nth(5) [OF assms(1,3)] have p: "p < i" "rw_name (raw ! p) \<noteq> []" by auto
  with assms show ?thesis
    by (simp add: parent_id_def Some same_units_nth(4) [OF assms(1,3)] own_ids_def)
qed (simp add: parent_id_def same_units_nth(4) [OF assms(1,3)])

lemma own_group:
  assumes "same_units raw prev" "i < length raw" "rw_name (raw ! i) \<noteq> []"
    and "\<And>j. j < i \<Longrightarrow> group_of raw j \<noteq> group_of raw i"
  shows "prev_group prev (node_parent (prev ! i)) (rw_kind (raw ! i)) (rw_name (raw ! i)) = raw_group raw i"
proof -
  have "prev_group prev (node_parent (prev ! i)) (rw_kind (raw ! i)) (rw_name (raw ! i)) =
      filter (\<lambda>j. group_of raw j = group_of raw i) [0..<length raw]"
    unfolding prev_group_def
    using assms same_units_nth [OF assms(1)] same_parent_iff [OF assms(1) _ assms(2)]
    by (intro filter_cong) (auto simp: group_of_def same_units_def)
  also have "[0..<length raw] = [0..<i] @ [i..<length raw]" using upt_add_eq_append [of 0 i "length raw - i"] assms(2) by simp
  also have "filter (\<lambda>j. group_of raw j = group_of raw i) \<dots> = filter (\<lambda>j. group_of raw j = group_of raw i) [i..<length raw]"
    using assms(4) by (simp add: filter_empty_conv)
  finally show ?thesis by (simp add: raw_group_def group_of_def)
qed

lemma name_pass_own:
  assumes same: "same_units raw prev" and i: "i < length raw"
    and own: "own_ids raw prev (named_in raw grouped) (assigned, owned)"
    and seen: "\<And>j. j < i \<Longrightarrow> rw_name (raw ! j) \<noteq> [] \<Longrightarrow> group_of raw j \<in> set grouped"
    and just: "set grouped \<subseteq> {group_of raw j | j. j < i \<and> rw_name (raw ! j) \<noteq> []}"
  shows "\<exists>ids' grouped'. name_pass raw prev i ((assigned, owned), grouped) = (ids', grouped') \<and>
    own_ids raw prev (named_in raw grouped') ids' \<and>
    (\<forall>j < Suc i. rw_name (raw ! j) \<noteq> [] \<longrightarrow> group_of raw j \<in> set grouped') \<and>
    set grouped' \<subseteq> {group_of raw j | j. j < Suc i \<and> rw_name (raw ! j) \<noteq> []}"
proof (cases "rw_name (raw ! i) = [] \<or> group_of raw i \<in> set grouped")
  case True
  then have "name_pass raw prev i ((assigned, owned), grouped) = ((assigned, owned), grouped)"
    by (simp add: name_pass_def group_of_def Let_def)
  then show ?thesis using own seen just True by (auto simp: less_Suc_eq)
next
  case False
  then have named: "rw_name (raw ! i) \<noteq> []" and fresh: "group_of raw i \<notin> set grouped" by auto
  let ?ms = "raw_group raw i" and ?g = "group_of raw i # grouped"
  have other: "group_of raw j \<noteq> group_of raw i" if "j < i" for j
  proof
    assume eq: "group_of raw j = group_of raw i"
    then have "rw_name (raw ! j) \<noteq> []" using named by (simp add: group_of_def)
    with seen [OF that] eq fresh show False by simp
  qed
  have parent: "parent_id raw assigned i = node_parent (prev ! i)"
    using own_ids_parent [OF same own i] seen i by (simp add: named_in_def)
  have prevs: "prev_group prev (node_parent (prev ! i)) (rw_kind (raw ! i)) (rw_name (raw ! i)) = ?ms"
    by (rule own_group [OF same i named other])
  have ms: "set ?ms = {j. j < length raw \<and> group_of raw j = group_of raw i}"
    using other by (auto simp: raw_group_def group_of_def not_less [symmetric])
  have "i \<in> set ?ms" using i by (simp add: ms)
  then have ne: "?ms \<noteq> []" by auto
  have slots: "match_group raw ?ms prev ?ms = map Some [0..<length ?ms]"
  proof (rule match_group_own, intro allI impI)
    fix q assume "q < length ?ms"
    then have "?ms ! q < length raw" using ms nth_mem by blast
    then show "node_body (prev ! (?ms ! q)) = rw_body (raw ! (?ms ! q))" by (rule same_units_nth(3) [OF same])
  qed
  have len: "length assigned = length raw" and taken: "set owned = prev_nid prev ` {j. j < length raw \<and> named_in raw grouped j}"
    and asg: "assigned = map (\<lambda>j. if named_in raw grouped j then Some (prev_nid prev j) else None) [0..<length raw]"
    using own by (auto simp: own_ids_def)
  have "prev_nid prev j \<notin> set owned" if "j \<in> set ?ms" for j
    using that fresh by (auto simp: taken ms prev_nid_inj [OF same] named_in_def)
  then obtain owned' where new: "fold (\<lambda>j. take_id j (prev_nid prev j)) ?ms (assigned, owned) =
      (map (\<lambda>j. if j \<in> set ?ms then Some (prev_nid prev j) else assigned ! j) [0..<length raw], owned')"
    and owned': "set owned' = prev_nid prev ` set ?ms \<union> set owned"
    using fold_take_ids [OF same len, of ?ms owned] ms by (auto simp: raw_group_def)
  have step: "name_pass raw prev i ((assigned, owned), grouped) =
      (fold (\<lambda>j. take_id j (prev_nid prev j)) ?ms (assigned, owned), ?g)"
    using named fresh ne parent prevs slots fold_own_slots [of prev ?ms "(assigned, owned)"]
    by (simp add: name_pass_def group_of_def Let_def)
  have here: "named_in raw ?g j \<longleftrightarrow> named_in raw grouped j \<or> j \<in> set ?ms" for j
    using named by (auto simp: named_in_def ms group_of_def)
  have "own_ids raw prev (named_in raw ?g) (fold (\<lambda>j. take_id j (prev_nid prev j)) ?ms (assigned, owned))"
    unfolding new own_ids_def here using ms by (auto simp: asg owned' taken)
  moreover have "\<forall>j < Suc i. rw_name (raw ! j) \<noteq> [] \<longrightarrow> group_of raw j \<in> set ?g" using seen by (auto simp: less_Suc_eq)
  moreover have "set ?g \<subseteq> {group_of raw j | j. j < Suc i \<and> rw_name (raw ! j) \<noteq> []}"
    using just named by (auto simp: less_Suc_eq)
  ultimately show ?thesis using step by blast
qed

lemma pass_names_own:
  assumes "same_units raw prev"
  shows "own_ids raw prev (\<lambda>j. rw_name (raw ! j) \<noteq> []) (pass_names raw prev)"
proof -
  have "\<exists>ids' grouped'. fold (name_pass raw prev) [0..<k] ((replicate (length raw) None, []), []) = (ids', grouped') \<and>
    own_ids raw prev (named_in raw grouped') ids' \<and>
    (\<forall>j < k. rw_name (raw ! j) \<noteq> [] \<longrightarrow> group_of raw j \<in> set grouped') \<and>
    set grouped' \<subseteq> {group_of raw j | j. j < k \<and> rw_name (raw ! j) \<noteq> []}" if "k \<le> length raw" for k
    using that
  proof (induction k)
    case 0
    show ?case by (auto simp: own_ids_def named_in_def map_replicate_const)
  next
    case (Suc k)
    then obtain assigned owned grouped where
      "fold (name_pass raw prev) [0..<k] ((replicate (length raw) None, []), []) = ((assigned, owned), grouped)"
      "own_ids raw prev (named_in raw grouped) (assigned, owned)"
      "\<forall>j < k. rw_name (raw ! j) \<noteq> [] \<longrightarrow> group_of raw j \<in> set grouped"
      "set grouped \<subseteq> {group_of raw j | j. j < k \<and> rw_name (raw ! j) \<noteq> []}" by auto
    with name_pass_own [OF assms, of k grouped assigned owned] Suc.prems show ?case by auto
  qed
  from this [OF order_refl] obtain assigned owned grouped where
    run: "fold (name_pass raw prev) [0..<length raw] ((replicate (length raw) None, []), []) = ((assigned, owned), grouped)"
    and own: "own_ids raw prev (named_in raw grouped) (assigned, owned)"
    and all: "\<forall>j < length raw. rw_name (raw ! j) \<noteq> [] \<longrightarrow> group_of raw j \<in> set grouped" by auto
  have "named_in raw grouped j \<longleftrightarrow> rw_name (raw ! j) \<noteq> []" if "j < length raw" for j
    using all that by (auto simp: named_in_def)
  with own have "own_ids raw prev (\<lambda>j. rw_name (raw ! j) \<noteq> []) (assigned, owned)"
    by (auto simp: own_ids_def cong: conj_cong)
  then show ?thesis by (simp add: pass_names_def run)
qed

text \<open>The second pass gives every nameless unit its own id, and leaves nothing for the others.\<close>

definition chunk_ids :: "node list \<Rightarrow> nat \<Rightarrow> by_body" where
  "chunk_ids prev i k =
     map (prev_nid prev) (filter (\<lambda>j. node_name (prev ! j) = [] \<and>
       (node_parent (prev ! j), node_kind (prev ! j), node_body (prev ! j)) = k) [i..<length prev])"

lemma chunk_ids_Cons:
  assumes "i < length prev"
  shows "chunk_ids prev i k =
    (if node_name (prev ! i) = [] \<and> (node_parent (prev ! i), node_kind (prev ! i), node_body (prev ! i)) = k
     then prev_nid prev i # chunk_ids prev (Suc i) k else chunk_ids prev (Suc i) k)"
  using assms by (simp add: chunk_ids_def upt_conv_Cons)

lemma prev_by_body_own:
  assumes "same_units raw prev" "set owned = prev_nid prev ` {j. j < length raw \<and> rw_name (raw ! j) \<noteq> []}"
  shows "prev_by_body prev owned = chunk_ids prev 0"
proof
  fix k
  have free: "node_nid (prev ! j) \<notin> set owned \<longleftrightarrow> node_name (prev ! j) = []" if "j < length prev" for j
    using that assms same_units_nth(2) [OF assms(1)] prev_nid_inj [OF assms(1)]
    by (auto simp: same_units_def simp flip: prev_nid_def)
  have "prev_by_body prev owned k = map node_nid (filter (\<lambda>n. node_nid n \<notin> set owned \<and>
      (node_parent n, node_kind n, node_body n) = k) (map ((!) prev) [0..<length prev]))"
    by (simp add: prev_by_body_def map_nth)
  also have "\<dots> = chunk_ids prev 0 k"
    unfolding filter_map map_map chunk_ids_def comp_def prev_nid_def
    using free by (intro arg_cong [where f = "map _"] filter_cong) auto
  finally show "prev_by_body prev owned k = chunk_ids prev 0 k" .
qed

definition done_below :: "raw_node list \<Rightarrow> nat \<Rightarrow> nat \<Rightarrow> bool" where
  "done_below raw i j \<longleftrightarrow> rw_name (raw ! j) \<noteq> [] \<or> j < i"

lemma body_pass_own:
  assumes same: "same_units raw prev" and i: "i < length raw"
    and own: "own_ids raw prev (done_below raw i) (assigned, owned)"
  shows "\<exists>ids'. body_pass raw i ((assigned, owned), chunk_ids prev i) = (ids', chunk_ids prev (Suc i)) \<and>
    own_ids raw prev (done_below raw (Suc i)) ids'"
proof (cases "rw_name (raw ! i) = []")
  case False
  then have here: "done_below raw (Suc i) = done_below raw i"
    by (auto simp: fun_eq_iff done_below_def less_Suc_eq)
  have "assigned ! i \<noteq> None" using own False i by (simp add: own_ids_def done_below_def)
  moreover have "chunk_ids prev i = chunk_ids prev (Suc i)"
    using False i same same_units_nth(2) [OF same i] by (intro ext) (simp add: chunk_ids_Cons same_units_def)
  ultimately have "body_pass raw i ((assigned, owned), chunk_ids prev i) = ((assigned, owned), chunk_ids prev (Suc i))"
    by (simp add: body_pass_def)
  with own show ?thesis by (simp add: here)
next
  case True
  have len: "i < length prev" using i same by (simp add: same_units_def)
  have taken: "set owned = prev_nid prev ` {j. j < length raw \<and> done_below raw i j}"
    and asg: "assigned = map (\<lambda>j. if done_below raw i j then Some (prev_nid prev j) else None) [0..<length raw]"
    using own by (auto simp: own_ids_def)
  have none: "assigned ! i = None" using asg i True by (simp add: done_below_def)
  have parent: "parent_id raw assigned i = node_parent (prev ! i)"
    using own_ids_parent [OF same own i] by (simp add: done_below_def)
  let ?k = "(node_parent (prev ! i), rw_kind (raw ! i), rw_body (raw ! i))"
  have list: "chunk_ids prev i ?k = prev_nid prev i # chunk_ids prev (Suc i) ?k"
    using True same_units_nth [OF same i] by (simp add: chunk_ids_Cons [OF len])
  have free: "prev_nid prev i \<notin> set owned"
    using i True by (auto simp: taken prev_nid_inj [OF same] done_below_def)
  have rest: "(chunk_ids prev i)(?k := chunk_ids prev (Suc i) ?k) = chunk_ids prev (Suc i)"
    using True same_units_nth [OF same i] by (intro ext) (simp add: chunk_ids_Cons [OF len])
  have step: "body_pass raw i ((assigned, owned), chunk_ids prev i) =
      ((assigned[i := Some (prev_nid prev i)], prev_nid prev i # owned), chunk_ids prev (Suc i))"
    using none free rest by (simp add: body_pass_def parent list Let_def)
  have "assigned[i := Some (prev_nid prev i)] =
      map (\<lambda>j. if done_below raw (Suc i) j then Some (prev_nid prev j) else None) [0..<length raw]"
    using i by (intro nth_equalityI) (auto simp: asg nth_list_update done_below_def)
  moreover have "set (prev_nid prev i # owned) = prev_nid prev ` {j. j < length raw \<and> done_below raw (Suc i) j}"
    using i by (auto simp: taken done_below_def less_Suc_eq)
  ultimately show ?thesis using step by (auto simp: own_ids_def)
qed

lemma pass_bodies_own:
  assumes "same_units raw prev"
  shows "fst (pass_bodies raw prev (pass_names raw prev)) = map (Some \<circ> prev_nid prev) [0..<length raw]"
proof -
  obtain assigned owned where ids: "pass_names raw prev = (assigned, owned)" by (cases "pass_names raw prev")
  have own: "own_ids raw prev (done_below raw 0) (assigned, owned)"
    using pass_names_own [OF assms] by (simp add: ids done_below_def [abs_def])
  have lists: "prev_by_body prev owned = chunk_ids prev 0"
    using own by (intro prev_by_body_own [OF assms]) (auto simp: own_ids_def done_below_def)
  have "\<exists>ids'. fold (body_pass raw) [0..<k] ((assigned, owned), chunk_ids prev 0) = (ids', chunk_ids prev k) \<and>
      own_ids raw prev (done_below raw k) ids'" if "k \<le> length raw" for k
    using that
  proof (induction k)
    case (Suc k)
    then obtain a' o' where "fold (body_pass raw) [0..<k] ((assigned, owned), chunk_ids prev 0) = ((a', o'), chunk_ids prev k)"
      "own_ids raw prev (done_below raw k) (a', o')" by (auto simp: Suc_le_eq)
    with body_pass_own [OF assms, of k a' o'] Suc.prems show ?case by auto
  qed (use own in simp)
  from this [OF order_refl] obtain a' o' where
    "fold (body_pass raw) [0..<length raw] ((assigned, owned), chunk_ids prev 0) = ((a', o'), chunk_ids prev (length raw))"
    "own_ids raw prev (done_below raw (length raw)) (a', o')" by auto
  then show ?thesis
    by (simp add: pass_bodies_def ids lists own_ids_def done_below_def)
qed

lemma chunk_pass_all:
  assumes "set ks \<subseteq> {..<length raw}" "\<forall>i < length raw. fst ids ! i \<noteq> None"
  shows "fold (chunk_pass raw prev b a) ks (ids, c) = (ids, c)"
  using assms by (induction ks) (auto simp: chunk_pass_def split: prod.splits)

lemma same_units_ids:
  assumes "same_units raw prev"
  shows "map node_nid (fst (assign_ids_with_refs x fresh path raw prev src)) = map node_nid prev"
proof -
  let ?ids = "pass_bodies raw prev (pass_names raw prev)"
  have all: "fst ?ids = map (Some \<circ> prev_nid prev) [0..<length raw]" by (rule pass_bodies_own [OF assms])
  have "pass_chunks raw prev ?ids = ?ids"
    unfolding pass_chunks_def Let_def by (subst chunk_pass_all) (auto simp: all)
  moreover have "pass_similar x path raw prev src ?ids = ?ids"
    using all by (auto simp: pass_similar_def wants_similarity_def list_ex_iff split: option.splits prod.splits)
  ultimately have "carried_ids x path raw prev src = ?ids" by (simp add: carried_ids_def)
  then have "final_ids fresh (fst (carried_ids x path raw prev src)) = map (prev_nid prev) [0..<length raw]"
    by (simp add: all final_ids_def)
  also have "\<dots> = map node_nid prev"
    using assms by (intro nth_equalityI) (auto simp: same_units_def prev_nid_def)
  finally show ?thesis by (simp add: assign_with_refs_ids nids_assign_only)
qed

text \<open>What was assigned to the units of a file records them.\<close>

definition containers_named :: "raw_node list \<Rightarrow> bool" where
  "containers_named us \<longleftrightarrow>
     list_all (\<lambda>u. case rw_parent u of None \<Rightarrow> True | Some p \<Rightarrow> rw_name (us ! p) \<noteq> []) us"

lemma assigned_same_units:
  assumes "parents_first raw" "containers_named raw"
    and "\<forall>i < length raw. fresh i \<notin> node_nid ` set prev" "inj_on fresh {..<length raw}"
  shows "same_units raw (fst (assign_ids_with_refs x fresh path raw prev src))"
proof -
  let ?ids = "final_ids fresh (fst (carried_ids x path raw prev src))" and ?out = "fst (assign_ids_with_refs x fresh path raw prev src)"
  obtain assigned owned where ids: "carried_ids x path raw prev src = (assigned, owned)" by (cases "carried_ids x path raw prev src")
  note fin = final_ids_ok [OF carried_ids_ok [of raw prev x path src, unfolded ids] assms(3,4)]
  have nids: "map node_nid ?out = ?ids" by (simp add: assign_with_refs_ids nids_assign_only)
  have len: "length ?out = length raw" by (simp add: assign_ids_with_refs_def Let_def)
  have nid: "prev_nid ?out p = ?ids ! p" if "p < length raw" for p
    using that nids len by (metis nth_map prev_nid_def)
  have unit: "node_kind (?out ! i) = rw_kind (raw ! i)" "node_name (?out ! i) = rw_name (raw ! i)"
    "node_body (?out ! i) = rw_body (raw ! i)" "node_parent (?out ! i) = map_option (\<lambda>p. ?ids ! p) (rw_parent (raw ! i))"
    if "i < length raw" for i
    using that fin(1) ids
    by (simp_all add: assign_ids_with_refs_def Let_def assign_only_nth node_of_raw_def split: prod.splits)
  have first: "p < i" "rw_name (raw ! p) \<noteq> []" if "i < length raw" "rw_parent (raw ! i) = Some p" for i p
  proof -
    show "p < i" using assms(1) that by (simp add: parents_first_def)
    have "raw ! i \<in> set raw" using that(1) by simp
    with assms(2) that(2) show "rw_name (raw ! p) \<noteq> []" by (auto simp: containers_named_def list_all_iff)
  qed
  have "node_parent (?out ! i) = map_option (prev_nid ?out) (rw_parent (raw ! i))" if i: "i < length raw" for i
    using unit(4) [OF i] nid first(1) [OF i] i by (cases "rw_parent (raw ! i)") (simp, metis less_trans option.simps(9))
  moreover have "case rw_parent (raw ! i) of None \<Rightarrow> True | Some p \<Rightarrow> p < i \<and> rw_name (raw ! p) \<noteq> []" if "i < length raw" for i
    using first [OF that] by (auto split: option.split)
  moreover have "distinct (map node_nid ?out)" using fin(2) by (simp add: nids ids)
  ultimately show ?thesis using len unit by (simp add: same_units_def list_all_iff)
qed

text \<open>C15: extracting a file again that has not changed keeps every identity: ids assigned against what an
  earlier indexing of the same source assigned are the same ids, whatever ids are drawn and with or without
  the previous source, provided that the containers of the file have names.\<close>

theorem reindex_keeps_ids:
  assumes "extract_units x path src = Some raw" and "containers_named raw"
    and "\<forall>i < length raw. fresh i \<notin> node_nid ` set prev" and "inj_on fresh {..<length raw}"
  shows "map node_nid (fst (assign_ids_with_refs x fresh2 path raw (fst (assign_ids_with_refs x fresh path raw prev psrc)) psrc2)) =
    map node_nid (fst (assign_ids_with_refs x fresh path raw prev psrc))"
  by (rule same_units_ids [OF assigned_same_units [OF extract_parents_first [OF assms(1)] assms(2-4)]])

end
