(* ===== verification/Extract_Witnesses.thy ===== *)
theory Extract_Witnesses
  imports Extract_Props
begin

text \<open>
  A small Rust file and its parse, for the properties of extraction, and two call expressions that differ
  in a comment only.
\<close>

text \<open>The source \<open>mod m{fn f(){}}fn g(){}\<close>.\<close>

definition sample_source :: bytes where
  "sample_source = ascii ''mod m{fn f(){}}fn g(){}''"

definition token_leaf :: "string \<Rightarrow> nat \<Rightarrow> nat \<Rightarrow> ts_node" where
  "token_leaf kind s e = Ts kind None False s e []"

definition named_leaf :: "string \<Rightarrow> string \<Rightarrow> nat \<Rightarrow> nat \<Rightarrow> ts_node" where
  "named_leaf kind field s e = Ts kind (Some field) True s e []"

definition sample_fn :: "nat \<Rightarrow> ts_node" where
  "sample_fn s = Ts ''function_item'' None True s (s + 8)
     [token_leaf ''fn'' s (s + 2), named_leaf ''identifier'' ''name'' (s + 3) (s + 4),
      Ts ''parameters'' (Some ''parameters'') True (s + 4) (s + 6) [token_leaf ''('' (s + 4) (s + 5), token_leaf '')'' (s + 5) (s + 6)],
      Ts ''block'' (Some ''body'') True (s + 6) (s + 8) [token_leaf ''{'' (s + 6) (s + 7), token_leaf ''}'' (s + 7) (s + 8)]]"

definition sample_tree :: ts_node where
  "sample_tree = Ts ''source_file'' None True 0 23
     [Ts ''mod_item'' None True 0 15
        [token_leaf ''mod'' 0 3, named_leaf ''identifier'' ''name'' 4 5,
         Ts ''declaration_list'' (Some ''body'') True 5 15 [token_leaf ''{'' 5 6, sample_fn 6, token_leaf ''}'' 14 15]],
      sample_fn 15]"

definition file_ext :: sem_ext where
  "file_ext = \<lparr>sx_parse = (\<lambda>lang src. if src = sample_source then Some sample_tree else None),
     sx_blake = (\<lambda>bs. take 32 (rev bs @ replicate 32 0)), sx_bigram = (\<lambda>a b. of_nat (length a + length b))\<rparr>"

definition found_units :: "raw_node list" where
  "found_units = collect_units file_ext Rust sample_source sample_tree"

lemma sample_parse: "with_grammar file_ext Rust sample_source = Some found_units"
  by (simp add: with_grammar_def file_ext_def found_units_def)

lemma sample_extract: "extract_units file_ext ''src/a.rs'' sample_source = Some found_units"
proof -
  have "language_of_path ''src/a.rs'' = Some Rust" "\<not> list_ex (\<lambda>b. b = 0) (take 8192 sample_source)" by code_simp+
  then show ?thesis by (simp add: extract_units_def sample_parse)
qed

lemma sample_shape:
  "map (\<lambda>u. (rw_kind u, rw_name u, rw_span u, rw_parent u)) found_units =
    [(''module'', ''m'', (0, 15), None), (''function'', ''f'', (6, 14), Some 0), (''function'', ''g'', (15, 23), None)]"
  by code_simp

lemma sample_tree_ok: "sx_parse file_ext Rust sample_source = Some root \<Longrightarrow> tree_ok root"
proof -
  have "tree_ok sample_tree" by code_simp
  then show "sx_parse file_ext Rust sample_source = Some root \<Longrightarrow> tree_ok root" by (simp add: file_ext_def)
qed

theorem extracted_units_nested_witness: "nested_units found_units"
  by (rule extracted_units_nested [OF sample_parse sample_tree_ok])

text \<open>The call \<open>(a,)\<close> again, with blanks and with a comment before the separator: \<open>( a /*x*/ , )\<close>.\<close>

definition args_plain :: ts_node where
  "args_plain = Ts ''arguments'' None True 0 4
     [token_leaf ''('' 0 1, Ts ''identifier'' None True 1 2 [], token_leaf '','' 2 3, token_leaf '')'' 3 4]"

definition args_spaced :: ts_node where
  "args_spaced = Ts ''arguments'' None True 0 13
     [token_leaf ''('' 0 1, Ts ''identifier'' None True 2 3 [], Ts ''block_comment'' None True 4 9 [],
      token_leaf '','' 10 11, token_leaf '')'' 12 13]"

lemma args_relaid: "relaid (ascii ''(a,)'') (ascii ''( a /*x*/ , )'') args_plain args_spaced"
proof -
  let ?s = "ascii ''(a,)''" and ?s' = "ascii ''( a /*x*/ , )''"
  have leaves: "relaid ?s ?s' (token_leaf ''('' 0 1) (token_leaf ''('' 0 1)" "relaid ?s ?s' (token_leaf '','' 2 3) (token_leaf '','' 10 11)"
    "relaid ?s ?s' (token_leaf '')'' 3 4) (token_leaf '')'' 12 13)"
    "relaid ?s ?s' (Ts ''identifier'' None True 1 2 []) (Ts ''identifier'' None True 2 3 [])"
    by (rule relaid_leaf; simp add: token_leaf_def ts_text_def ascii_def)+
  have comment: "is_comment (Ts ''block_comment'' None True 4 9 [])" by (simp add: is_comment_def comment_kinds_def)
  have "relaid_all ?s ?s' True [token_leaf '')'' 3 4] [token_leaf '')'' 12 13]"
    by (rule relaid_cons [OF _ leaves(3)]) (simp_all add: token_leaf_def relaid_nil)
  then have "relaid_all ?s ?s' False [token_leaf '','' 2 3, token_leaf '')'' 3 4] [token_leaf '','' 10 11, token_leaf '')'' 12 13]"
    by (intro relaid_cons [OF _ leaves(2)]) (simp_all add: token_leaf_def)
  from relaid_add [OF comment this] relaid_cons [OF _ leaves(4)]
  have "relaid_all ?s ?s' False (tl (ts_children args_plain)) (tl (ts_children args_spaced))"
    by (simp add: args_plain_def args_spaced_def)
  from relaid_cons [OF _ leaves(1), where after = False] this
  show ?thesis by (intro relaid_inner) (simp_all add: args_plain_def args_spaced_def token_leaf_def)
qed

theorem layout_keeps_body_witness:
  "rw_body (unit_node file_ext Rust (ascii ''(a,)'') None False [] args_plain ''statement'' [] False) =
   rw_body (unit_node file_ext Rust (ascii ''( a /*x*/ , )'') None False [] args_spaced ''statement'' [] False)"
  using layout_keeps_body [OF args_relaid] by blast

section \<open>A comment behind a trailing comma\<close>

text \<open>The argument lists \<open>(a,)\<close> and \<open>(a,/*x*/)\<close>, the second one with a comment before the bracket.\<close>

definition args_commented :: ts_node where
  "args_commented = Ts ''arguments'' None True 0 9
     [token_leaf ''('' 0 1, Ts ''identifier'' None True 1 2 [], token_leaf '','' 2 3,
      Ts ''block_comment'' None True 3 8 [], token_leaf '')'' 8 9]"

lemma comment_changes_tokens:
  "fst (tokens Rust (ascii ''(a,)'') args_plain) = map ascii [''('', ''a'', '')'']"
  "fst (tokens Rust (ascii ''(a,/*x*/)'') args_commented) = map ascii [''('', ''a'', '','', '')'']"
  by code_simp+

end
