(* ===== verification/Matching_Witnesses.thy ===== *)
theory Matching_Witnesses
  imports Matching_Props Extract_Witnesses
begin

text \<open>
  Concrete files for the properties of unit matching, and one run in which an identity goes astray.
\<close>

definition unit_of :: "string \<Rightarrow> string \<Rightarrow> nat \<Rightarrow> nat option \<Rightarrow> raw_node" where
  "unit_of kind name body parent =
     \<lparr>rw_kind = kind, rw_name = name, rw_span = (body, Suc body), rw_body = [of_nat body],
      rw_parent = parent, rw_setlike = False, rw_refs = [], rw_shingles = []\<rparr>"

definition recorded :: "string \<Rightarrow> string \<Rightarrow> nat \<Rightarrow> eid option \<Rightarrow> eid \<Rightarrow> node" where
  "recorded kind name body parent n =
     \<lparr>node_nid = n, node_path = ''src/a.rs'', node_kind = kind, node_name = name,
      node_span = (of_nat body, of_nat (Suc body)), node_body = [of_nat body], node_parent = parent,
      node_deps = None, node_setlike = None\<rparr>"

text \<open>A module with a function, and a function of the same name outside of it.\<close>

definition old_units :: "node list" where
  "old_units = [recorded ''module'' ''a'' 1 None [1], recorded ''function'' ''foo'' 2 (Some [1]) [2],
     recorded ''function'' ''foo'' 3 None [3]]"

definition new_ids :: "nat \<Rightarrow> eid" where
  "new_ids i = [of_nat (100 + i)]"

definition old_id :: "nat \<Rightarrow> eid" where
  "old_id i = [of_nat i]"

text \<open>The module is renamed and its function edited; the function outside is untouched.\<close>

definition renamed_file :: "raw_node list" where
  "renamed_file = [unit_of ''module'' ''b'' 4 None, unit_of ''function'' ''foo'' 5 (Some 0), unit_of ''function'' ''foo'' 3 None]"

lemma renamed_fresh: "\<forall>i < length renamed_file. new_ids i \<notin> node_nid ` set old_units"
  by code_simp

lemma renamed_inj: "inj_on new_ids {..<length renamed_file}"
proof -
  have "distinct (map new_ids [0..<length renamed_file])" by code_simp
  then show ?thesis by (simp add: distinct_map atLeast0LessThan)
qed

theorem identities_are_distinct_witness:
  "distinct (map node_nid (fst (assign_ids_with_refs file_ext new_ids ''src/a.rs'' renamed_file old_units None)))"
  using identities_are_distinct [OF renamed_fresh renamed_inj] by blast

text \<open>The extracted sample, indexed twice.\<close>

lemma sample_named: "containers_named found_units" "length found_units = 3"
  by code_simp+

lemma sample_fresh:
  "\<forall>i < length found_units. new_ids i \<notin> node_nid ` set old_units" "inj_on new_ids {..<length found_units}"
proof -
  have "length found_units = length renamed_file" by (simp add: sample_named renamed_file_def)
  then show "\<forall>i < length found_units. new_ids i \<notin> node_nid ` set old_units" "inj_on new_ids {..<length found_units}"
    using renamed_fresh renamed_inj by simp_all
qed

theorem reindex_keeps_ids_witness:
  "map node_nid (fst (assign_ids_with_refs file_ext old_id ''src/a.rs'' found_units
     (fst (assign_ids_with_refs file_ext new_ids ''src/a.rs'' found_units old_units None)) (Some sample_source))) =
   map node_nid (fst (assign_ids_with_refs file_ext new_ids ''src/a.rs'' found_units old_units None))"
  by (rule reindex_keeps_ids [OF sample_extract sample_named(1) sample_fresh])

text \<open>
  The function of the module takes over the identity of the function outside of it, which is unchanged and
  gets a new one: a container without an identity of its own is taken for the top of the file.
\<close>

lemma outer_identity_lost:
  "map node_nid (fst (assign_ids_with_refs file_ext new_ids ''src/a.rs'' renamed_file old_units None)) = [[100], [3], [102]]"
  by code_simp

theorem jaccard_is_overlap_witness: "jaccard [1, 2, 3] [2, 3, 4] = 1 / 2"
proof -
  have "card (set [1, 2, 3] \<inter> set [2, 3, 4 :: 64 word]) = 2" "card (set [1, 2, 3] \<union> set [2, 3, 4 :: 64 word]) = 4"
    by code_simp+
  with jaccard_is_overlap [of "[1, 2, 3]" "[2, 3, 4]"] show ?thesis by simp
qed

end
