(* ===== verification/Imports.thy ===== *)
theory Imports
  imports Extract
begin

text \<open>
  The files that import statements name: \<open>crates/tessra-semantic/src/imports.rs\<close>.

  \<open>exists\<close> is the caller's test for a path in the tree. Text is ASCII. A slice of a string whose end lies
  before its start panics; \<open>expand_braces\<close> and what calls it return \<open>None\<close> for that. Where the code pushes onto
  its output, the definition returns what is pushed, in order.
\<close>

section \<open>Paths\<close>

definition dir_of :: "string \<Rightarrow> string" where
  "dir_of path = (if CHR ''/'' \<in> set path then rev (tl (dropWhile (\<lambda>c. c \<noteq> CHR ''/'') (rev path))) else [])"

definition base_of :: "string \<Rightarrow> string" where
  "base_of path = rev (takeWhile (\<lambda>c. c \<noteq> CHR ''/'') (rev path))"

definition join_dir :: "string \<Rightarrow> string \<Rightarrow> string" where
  "join_dir dir name = (if dir = [] then name else if name = [] then dir else dir @ ''/'' @ name)"

fun resolve_parts :: "string list \<Rightarrow> string list \<Rightarrow> string list option" where
  "resolve_parts parts [] = Some parts"
| "resolve_parts parts (s # ss) =
     (if s = [] \<or> s = ''.'' then resolve_parts parts ss
      else if s = ''..'' then (if parts = [] then None else resolve_parts (butlast parts) ss)
      else resolve_parts (parts @ [s]) ss)"

definition relative :: "string \<Rightarrow> string \<Rightarrow> string option" where
  "relative dir rel =
     map_option (join_with ''/'')
       (resolve_parts (filter (\<lambda>s. s \<noteq> []) (split_on (CHR ''/'') dir)) (split_on (CHR ''/'') rel))"

lemma dir_of_shorter: "d \<noteq> [] \<Longrightarrow> length (dir_of d) < length d"
proof -
  assume "d \<noteq> []"
  moreover have "length (dropWhile (\<lambda>c. c \<noteq> CHR ''/'') (rev d)) \<le> length d"
    using length_dropWhile_le [of _ "rev d"] by simp
  ultimately show ?thesis by (cases "dropWhile (\<lambda>c. c \<noteq> CHR ''/'') (rev d)") (auto simp: dir_of_def)
qed

function ancestor_dirs :: "string \<Rightarrow> string list" where
  "ancestor_dirs dir = dir # (if dir = [] then [] else ancestor_dirs (dir_of dir))"
  by pat_completeness auto
termination by (relation "measure length") (auto intro: dir_of_shorter)

declare ancestor_dirs.simps [simp del]

section \<open>JavaScript and TypeScript\<close>

definition js_extensions :: "string list" where
  "js_extensions = [''ts'', ''tsx'', ''js'', ''jsx'', ''mts'', ''cts'', ''mjs'', ''cjs'', ''d.ts'', ''svelte'', ''vue'', ''json'']"

function quoted :: "string \<Rightarrow> string list" where
  "quoted stmt =
     (case dropWhile (\<lambda>c. \<not> is_quote c) stmt of
        [] \<Rightarrow> []
      | q # rest \<Rightarrow>
          if q \<in> set rest
          then takeWhile (\<lambda>c. c \<noteq> q) rest # quoted (tl (dropWhile (\<lambda>c. c \<noteq> q) rest))
          else [])"
  by pat_completeness auto
termination
proof (relation "measure length", simp)
  fix stmt q and rest :: string
  assume eq: "dropWhile (\<lambda>c. \<not> is_quote c) stmt = q # rest" and "q \<in> set rest"
  have "length (q # rest) \<le> length stmt" unfolding eq [symmetric] by (rule length_dropWhile_le)
  moreover have "length (tl (dropWhile (\<lambda>c. c \<noteq> q) rest)) \<le> length rest"
    using length_dropWhile_le [of "\<lambda>c. c \<noteq> q" rest] by simp
  ultimately show "(tl (dropWhile (\<lambda>c. c \<noteq> q) rest), stmt) \<in> measure length" by simp
qed

declare quoted.simps [simp del]

definition swapped_extensions :: "string \<Rightarrow> string list" where
  "swapped_extensions base =
     concat (map (\<lambda>(ext, tos). case strip_suffix base ext of None \<Rightarrow> [] | Some stem \<Rightarrow> map (\<lambda>e. stem @ ''.'' @ e) tos)
       [(''.js'', [''ts'', ''tsx'']), (''.jsx'', [''tsx'']), (''.mjs'', [''mts'']), (''.cjs'', [''cts''])])"

definition js_file :: "string \<Rightarrow> (string \<Rightarrow> bool) \<Rightarrow> string option" where
  "js_file base exists =
     (if list_ex (\<lambda>e. ends_with base (''.'' @ e)) js_extensions \<and> exists base then Some base
      else find exists
        (map (\<lambda>e. base @ ''.'' @ e) js_extensions @ map (\<lambda>e. base @ ''/index.'' @ e) js_extensions @ swapped_extensions base))"

definition strip_prefix :: "string \<Rightarrow> string \<Rightarrow> string option" where
  "strip_prefix s p = (if starts_with s p then Some (drop (length p) s) else None)"

definition js_bases :: "string \<Rightarrow> string \<Rightarrow> string list" where
  "js_bases dir spec =
     (if spec = ''.'' \<or> spec = ''..'' \<or> starts_with spec ''./'' \<or> starts_with spec ''../''
      then (case relative dir spec of Some p \<Rightarrow> [p] | None \<Rightarrow> [])
      else (case strip_prefix spec ''$lib/'' of
              Some rest \<Rightarrow> map (\<lambda>a. join_dir (join_dir a ''src/lib'') rest) (ancestor_dirs dir)
            | None \<Rightarrow>
                (case (case strip_prefix spec ''@/'' of Some r \<Rightarrow> Some r | None \<Rightarrow> strip_prefix spec ''~/'') of
                   Some rest \<Rightarrow> map (\<lambda>a. join_dir (join_dir a ''src'') rest) (ancestor_dirs dir)
                 | None \<Rightarrow> [])))"

fun first_file :: "(string \<Rightarrow> bool) \<Rightarrow> string list \<Rightarrow> string list" where
  "first_file exists [] = []"
| "first_file exists (b # bs) = (case js_file b exists of Some p \<Rightarrow> [p] | None \<Rightarrow> first_file exists bs)"

definition javascript :: "string \<Rightarrow> string \<Rightarrow> (string \<Rightarrow> bool) \<Rightarrow> string list" where
  "javascript path stmt exists = concat (map (\<lambda>spec. first_file exists (js_bases (dir_of path) spec)) (quoted stmt))"

section \<open>Python\<close>

definition module_hits :: "string \<Rightarrow> nat \<Rightarrow> string list \<Rightarrow> (string \<Rightarrow> bool) \<Rightarrow> string \<Rightarrow> string list" where
  "module_hits rel dots names exists base =
     (if rel \<noteq> [] \<or> 0 < dots
      then (if base \<noteq> [] \<and> exists (base @ ''.py'') then [base @ ''.py''] else []) @
           filter exists [join_dir base ''__init__.py'']
      else []) @
     concat (map (\<lambda>n. filter exists [join_dir base (n @ ''.py''), join_dir (join_dir base n) ''__init__.py'']) names)"

fun first_hits :: "(string \<Rightarrow> string list) \<Rightarrow> string list \<Rightarrow> string list" where
  "first_hits h [] = []"
| "first_hits h (b # bs) = (let hits = h b in if hits \<noteq> [] then hits else first_hits h bs)"

definition python_module :: "string \<Rightarrow> string \<Rightarrow> string list \<Rightarrow> (string \<Rightarrow> bool) \<Rightarrow> string list" where
  "python_module dir module names exists =
     (let dots = length (takeWhile (\<lambda>c. c = CHR ''.'') module);
          rel = map (\<lambda>c. if c = CHR ''.'' then CHR ''/'' else c) (drop dots module);
          bases = (if 0 < dots then [join_dir ((dir_of ^^ (dots - 1)) dir) rel]
                   else map (\<lambda>a. join_dir a rel) (ancestor_dirs dir))
      in first_hits (module_hits rel dots names exists) bases)"

definition trim_space :: "string \<Rightarrow> string" where
  "trim_space s = trim_chars is_space s"

definition trim_semicolons :: "string \<Rightarrow> string" where
  "trim_semicolons s = rev (dropWhile (\<lambda>c. c = CHR '';'') (rev s))"

text \<open>The text before and after the first occurrence of a pattern.\<close>

fun split_once :: "string \<Rightarrow> string \<Rightarrow> (string \<times> string) option" where
  "split_once p [] = (if p = [] then Some ([], []) else None)"
| "split_once p (c # cs) =
     (if starts_with (c # cs) p then Some ([], drop (length p) (c # cs))
      else map_option (\<lambda>(a, b). (c # a, b)) (split_once p cs))"

definition first_word :: "string \<Rightarrow> string list" where
  "first_word s = take 1 (split_space s)"

definition python :: "string \<Rightarrow> string \<Rightarrow> (string \<Rightarrow> bool) \<Rightarrow> string list" where
  "python path stmt exists =
     (let dir = dir_of path; stmt = trim_space (trim_semicolons (trim_space stmt))
      in case strip_prefix stmt ''from '' of
           Some rest \<Rightarrow>
             (case split_space rest of
                [] \<Rightarrow> []
              | module # _ \<Rightarrow>
                  let names = (case split_once '' import '' rest of
                                 Some (_, list) \<Rightarrow>
                                   filter (\<lambda>n. n \<noteq> ''*'')
                                     (concat (map first_word (split_on (CHR '','')
                                        (trim_chars (\<lambda>c. c = CHR ''('' \<or> c = CHR '')'') list))))
                               | None \<Rightarrow> [])
                  in python_module dir module names exists)
         | None \<Rightarrow>
             (case strip_prefix stmt ''import '' of
                Some rest \<Rightarrow>
                  concat (map (\<lambda>m. concat (map (\<lambda>module. python_module dir module [] exists) (first_word m)))
                    (split_on (CHR '','') rest))
              | None \<Rightarrow> []))"

section \<open>Rust\<close>

text \<open>The items of a group: split on the commas at depth zero.\<close>

fun group_items :: "nat \<Rightarrow> string \<Rightarrow> string \<Rightarrow> string list" where
  "group_items depth item [] = [item]"
| "group_items depth item (c # cs) =
     (if c = CHR ''{'' then group_items (depth + 1) (item @ [c]) cs
      else if c = CHR ''}'' then group_items (depth - 1) (item @ [c]) cs
      else if c = CHR '','' \<and> depth = 0 then item # group_items depth [] cs
      else group_items depth (item @ [c]) cs)"

lemma group_items_length: "i \<in> set (group_items depth item cs) \<Longrightarrow> length i \<le> length item + length cs"
  by (induction depth item cs rule: group_items.induct) (auto split: if_splits)

lemma trim_chars_length: "length (trim_chars P s) \<le> length s"
  using length_dropWhile_le [of P s] length_dropWhile_le [of P "rev (dropWhile P s)"] by (simp add: trim_chars_def)

text \<open>The text around the first opening brace, and what is before the last closing one.\<close>

definition before_brace :: "string \<Rightarrow> string" where
  "before_brace tree = takeWhile (\<lambda>c. c \<noteq> CHR ''{'') tree"

definition last_close :: "string \<Rightarrow> nat" where
  "last_close tree = length tree - 1 - length (takeWhile (\<lambda>c. c \<noteq> CHR ''}'') (rev tree))"

definition without_as :: "string \<Rightarrow> string" where
  "without_as tree = trim_space (case split_once '' as '' tree of Some (a, _) \<Rightarrow> a | None \<Rightarrow> tree)"

definition collect_options :: "'a list option list \<Rightarrow> 'a list option" where
  "collect_options xs = (if None \<in> set xs then None else Some (concat (map the xs)))"

function expand_braces :: "string \<Rightarrow> string list option" where
  "expand_braces item =
     (let tree = trim_space item
      in if CHR ''{'' \<notin> set tree
         then Some (if without_as tree = [] then [] else [without_as tree])
         else (let prefix = trim_end_str (trim_space (before_brace tree)) ''::''
               in if CHR ''}'' \<notin> set tree then Some []
                  else (let lo = length (before_brace tree); hi = last_close tree
                        in if hi < lo + 1 then None
                           else map_option (map (\<lambda>sub. if prefix = [] then sub else prefix @ ''::'' @ sub))
                                  (collect_options (map expand_braces (group_items 0 [] (take (hi - (lo + 1)) (drop (lo + 1) tree))))))))"
  by pat_completeness auto
termination
proof (relation "measure length", simp)
  fix item tree prefix :: string and lo hi :: nat and i
  assume tree: "tree = trim_space item" and brace: "\<not> CHR ''{'' \<notin> set tree"
    and i: "i \<in> set (group_items 0 [] (take (hi - (lo + 1)) (drop (lo + 1) tree)))"
  have "length i \<le> length (take (hi - (lo + 1)) (drop (lo + 1) tree))"
    using group_items_length [OF i] by simp
  then have "length i \<le> length tree - (lo + 1)" by simp
  moreover have "tree \<noteq> []" using brace by auto
  moreover have "length tree \<le> length item" unfolding tree trim_space_def by (rule trim_chars_length)
  ultimately have "length i < length item" by (cases tree) auto
  then show "(i, item) \<in> measure length" by simp
qed

declare expand_braces.simps [simp del]

definition module_dir :: "string \<Rightarrow> string" where
  "module_dir path =
     (if base_of path \<in> {''mod.rs'', ''lib.rs'', ''main.rs''} then dir_of path
      else (case strip_suffix path ''.rs'' of Some s \<Rightarrow> s | None \<Rightarrow> path))"

definition crate_src :: "string \<Rightarrow> (string \<Rightarrow> bool) \<Rightarrow> string" where
  "crate_src path exists =
     (let dir = dir_of path
      in case find (\<lambda>a. exists (join_dir a ''lib.rs'') \<or> exists (join_dir a ''main.rs'')) (ancestor_dirs dir) of
           Some a \<Rightarrow> a
         | None \<Rightarrow> (case find (\<lambda>a. a = ''src'' \<or> ends_with a ''/src'') (ancestor_dirs dir) of Some a \<Rightarrow> a | None \<Rightarrow> dir))"

definition crate_dirs_named :: "string \<Rightarrow> string \<Rightarrow> (string \<Rightarrow> bool) \<Rightarrow> string list" where
  "crate_dirs_named path name exists =
     (let spellings = [name, map (\<lambda>c. if c = CHR ''_'' then CHR ''-'' else c) name];
          out = concat (map (\<lambda>n. filter (\<lambda>base. exists (join_dir base ''lib.rs'')) [''crates/'' @ n @ ''/src'', n @ ''/src'']) spellings);
          own = crate_src path exists;
          crate_name = base_of (dir_of own);
          in_tests = (starts_with path ''tests/'' \<or> str_contains path ''/tests/'')
      in out @ (if (crate_name \<in> set spellings \<or> in_tests) \<and> own \<notin> set out then [own] else []))"

fun walk_segments :: "(string \<Rightarrow> bool) \<Rightarrow> string \<Rightarrow> string list \<Rightarrow> string list" where
  "walk_segments exists dir [] = []"
| "walk_segments exists dir (s # ss) =
     (if s = ''*'' \<or> s = ''self'' then []
      else filter exists [join_dir dir (s @ ''.rs''), join_dir (join_dir dir s) ''mod.rs''] @
           walk_segments exists (join_dir dir s) ss)"

definition rust_walk :: "string \<Rightarrow> string list \<Rightarrow> (string \<Rightarrow> bool) \<Rightarrow> string list" where
  "rust_walk base segments exists =
     filter exists (map (join_dir base) [''lib.rs'', ''main.rs'', ''mod.rs'']) @
     (if base \<noteq> [] \<and> exists (base @ ''.rs'') then [base @ ''.rs''] else []) @
     walk_segments exists base segments"

fun super_dir :: "string \<Rightarrow> string list \<Rightarrow> string \<times> string list" where
  "super_dir dir (s # ss) = (if s = ''super'' then super_dir (dir_of dir) ss else (dir, s # ss))"
| "super_dir dir [] = (dir, [])"

fun split_sep :: "string \<Rightarrow> string \<Rightarrow> nat \<Rightarrow> string \<Rightarrow> string list" where
  "split_sep p cur skip [] = [cur]"
| "split_sep p cur (Suc skip) (c # cs) = split_sep p cur skip cs"
| "split_sep p cur 0 (c # cs) =
     (if starts_with (c # cs) p then cur # split_sep p [] (length p - 1) cs
      else split_sep p (cur @ [c]) 0 cs)"

definition rust_path :: "string \<Rightarrow> (string \<Rightarrow> bool) \<Rightarrow> string \<Rightarrow> string list" where
  "rust_path path exists p =
     (case map trim_space (split_sep ''::'' [] 0 p) of
        [] \<Rightarrow> []
      | first # rest \<Rightarrow>
          if first = ''crate'' then rust_walk (crate_src path exists) rest exists
          else if first = ''self'' then rust_walk (module_dir path) rest exists
          else if first = ''super''
          then (case super_dir (dir_of (module_dir path)) rest of (dir, rest) \<Rightarrow> rust_walk dir rest exists)
          else if first \<in> {''std'', ''core'', ''alloc''} then []
          else concat (map (\<lambda>base. rust_walk base rest exists) (crate_dirs_named path first exists)))"

definition rust :: "string \<Rightarrow> string \<Rightarrow> (string \<Rightarrow> bool) \<Rightarrow> string list option" where
  "rust path stmt exists =
     (case split_once ''use '' (trim_space stmt) of
        None \<Rightarrow> Some []
      | Some (_, rest) \<Rightarrow>
          map_option (\<lambda>ps. concat (map (rust_path path exists) ps))
            (expand_braces (trim_space (trim_semicolons (trim_space rest)))))"

section \<open>All statements\<close>

definition imported_paths :: "string \<Rightarrow> string list \<Rightarrow> (string \<Rightarrow> bool) \<Rightarrow> string list option" where
  "imported_paths path statements exists =
     map_option (\<lambda>out. btree_list (filter (\<lambda>p. p \<noteq> path) out))
       (case language_of_path path of
          Some Rust \<Rightarrow> collect_options (map (\<lambda>s. rust path s exists) statements)
        | Some Python \<Rightarrow> Some (concat (map (\<lambda>s. python path s exists) statements))
        | Some _ \<Rightarrow> Some (concat (map (\<lambda>s. javascript path s exists) statements))
        | None \<Rightarrow> Some [])"

end
