(* ===== verification/Import_Props.thy ===== *)
theory Import_Props
  imports Imports
begin

text \<open>
  Imports: what is found exists, a relative specifier stays inside the tree, and the expansion of a use
  tree is the list of its paths.
\<close>

section \<open>What is found exists\<close>

definition all_exist :: "(string \<Rightarrow> bool) \<Rightarrow> string list \<Rightarrow> bool" where
  "all_exist exists ps \<longleftrightarrow> (\<forall>p \<in> set ps. exists p)"

named_theorems exist_rules

lemma all_exist_simps [exist_rules]:
  "all_exist exists []" "all_exist exists (p # ps) \<longleftrightarrow> exists p \<and> all_exist exists ps"
  "all_exist exists (ps @ qs) \<longleftrightarrow> all_exist exists ps \<and> all_exist exists qs" "all_exist exists (filter exists ps)"
  by (auto simp: all_exist_def)

lemma all_exist_concat: "(\<And>x. x \<in> set xs \<Longrightarrow> all_exist exists (f x)) \<Longrightarrow> all_exist exists (concat (map f xs))"
  by (auto simp: all_exist_def)

lemma js_file_exists: "js_file b exists = Some p \<Longrightarrow> exists p"
  by (auto simp: js_file_def find_Some_iff split: if_splits)

lemma first_file_exist [exist_rules]: "all_exist exists (first_file exists bs)"
  by (induction bs) (auto simp: exist_rules dest: js_file_exists split: option.split)

lemma first_hits_exist: "(\<And>b. all_exist exists (h b)) \<Longrightarrow> all_exist exists (first_hits h bs)"
  by (induction bs) (auto simp: exist_rules Let_def)

lemma python_module_exist [exist_rules]: "all_exist exists (python_module dir module names exists)"
  unfolding python_module_def Let_def
  by (rule first_hits_exist) (auto simp: module_hits_def all_exist_def split: if_splits)

lemma walk_segments_exist [exist_rules]: "all_exist exists (walk_segments exists dir ss)"
  by (induction ss arbitrary: dir) (auto simp: exist_rules)

lemma rust_walk_exist [exist_rules]: "all_exist exists (rust_walk base ss exists)"
  by (simp add: rust_walk_def exist_rules del: filter.simps list.map)

lemma rust_path_exist: "all_exist exists (rust_path path exists p)"
  by (auto simp: rust_path_def exist_rules intro: all_exist_concat split: list.split prod.split)

lemma javascript_exist: "all_exist exists (javascript path stmt exists)"
  by (simp add: javascript_def exist_rules all_exist_concat)

lemma python_exist: "all_exist exists (python path stmt exists)"
  by (auto simp: python_def Let_def exist_rules intro!: all_exist_concat split: list.split option.split)

lemma rust_exist: "rust path stmt exists = Some ps \<Longrightarrow> all_exist exists ps"
  by (auto simp: rust_def intro: all_exist_concat rust_path_exist simp: exist_rules split: option.splits)

lemma collect_options_exist:
  "collect_options xs = Some ps \<Longrightarrow> (\<And>qs. Some qs \<in> set xs \<Longrightarrow> all_exist exists qs) \<Longrightarrow> all_exist exists ps"
  by (auto simp: collect_options_def all_exist_def split: if_splits) (metis option.collapse option.distinct(1))

text \<open>C29: the paths that the import statements of a file name are files of the tree, come sorted and without
  duplicates, and never include the file itself.\<close>

theorem imported_paths_sound:
  assumes "imported_paths path statements exists = Some ps"
  shows "(\<forall>p \<in> set ps. exists p \<and> p \<noteq> path) \<and> sorted_wrt (<) ps"
proof -
  obtain out where ps: "ps = btree_list (filter (\<lambda>p. p \<noteq> path) out)"
    and found: "(case language_of_path path of
        Some Rust \<Rightarrow> collect_options (map (\<lambda>s. rust path s exists) statements)
      | Some Python \<Rightarrow> Some (concat (map (\<lambda>s. python path s exists) statements))
      | Some _ \<Rightarrow> Some (concat (map (\<lambda>s. javascript path s exists) statements))
      | None \<Rightarrow> Some []) = Some out"
    using assms unfolding imported_paths_def map_option_eq_Some by blast
  have "all_exist exists out" if "collect_options (map (\<lambda>s. rust path s exists) statements) = Some out"
    using that by (rule collect_options_exist) (metis (no_types, lifting) imageE list.set_map rust_exist)
  then have out: "all_exist exists out"
    using found by (auto simp: exist_rules intro: all_exist_concat javascript_exist python_exist split: option.splits language.splits)
  have "sorted_wrt (<) ps" unfolding ps btree_list_def by (simp add: strict_sorted_iff)
  with out ps show ?thesis by (auto simp: all_exist_def)
qed

section \<open>Relative specifiers\<close>

lemma split_on_parts: "s \<in> set (split_on c xs) \<Longrightarrow> c \<notin> set s"
proof (induction xs arbitrary: s)
  case (Cons x xs)
  then show ?case by (cases "split_on c xs") (auto split: if_splits)
qed simp

lemma split_join:
  "ws \<noteq> [] \<Longrightarrow> \<forall>w \<in> set ws. c \<notin> set w \<Longrightarrow> split_on c (join_with [c] ws) = ws"
  by (induction "[c]" ws rule: join_with.induct) (simp_all add: split_on_no_sep split_on_append)

definition proper_part :: "string \<Rightarrow> bool" where
  "proper_part s \<longleftrightarrow> s \<noteq> [] \<and> s \<noteq> ''.'' \<and> s \<noteq> ''..'' \<and> CHR ''/'' \<notin> set s"

lemma resolve_parts_proper:
  "resolve_parts parts ss = Some ps \<Longrightarrow> \<forall>s \<in> set parts. proper_part s \<Longrightarrow> \<forall>s \<in> set ss. CHR ''/'' \<notin> set s \<Longrightarrow>
   \<forall>s \<in> set ps. proper_part s"
proof (induction parts ss rule: resolve_parts.induct)
  case (2 parts s ss)
  have shorter: "\<forall>s \<in> set (butlast parts). proper_part s" using 2(5) by (auto dest: in_set_butlastD)
  consider "s = [] \<or> s = ''.''" | "s = ''..''" | "proper_part s" using 2(6) by (auto simp: proper_part_def)
  then show ?case
  proof cases
    case 3
    then have "s \<noteq> []" "s \<noteq> ''.''" "s \<noteq> ''..''" by (simp_all add: proper_part_def)
    with 2(3-6) 3 show ?thesis by simp
  qed (use 2(1,2,4-6) shorter in \<open>auto split: if_splits\<close>)
qed simp

text \<open>
  A relative specifier that resolves names a path inside the tree: none of its segments is empty, a dot
  or two dots, and one that would climb out of the tree resolves to nothing.
\<close>

theorem relative_stays_inside:
  assumes "\<forall>s \<in> set (split_on (CHR ''/'') dir). s \<noteq> ''.'' \<and> s \<noteq> ''..''"
  shows "case relative dir rel of
      None \<Rightarrow> length (filter (\<lambda>s. s \<noteq> []) (split_on (CHR ''/'') dir)) < length (filter (\<lambda>s. s = ''..'') (split_on (CHR ''/'') rel))
    | Some p \<Rightarrow> p = [] \<or> list_all proper_part (split_on (CHR ''/'') p)"
proof (cases "relative dir rel")
  case None
  have "length parts < length (filter (\<lambda>s. s = ''..'') ss)" if "resolve_parts parts ss = None" for parts ss
    using that by (induction parts ss rule: resolve_parts.induct) (auto split: if_splits)
  with None show ?thesis by (simp add: relative_def)
next
  case (Some p)
  then obtain ps where p: "p = join_with ''/'' ps"
    and res: "resolve_parts (filter (\<lambda>s. s \<noteq> []) (split_on (CHR ''/'') dir)) (split_on (CHR ''/'') rel) = Some ps"
    by (auto simp: relative_def)
  have ps: "\<forall>s \<in> set ps. proper_part s"
    by (rule resolve_parts_proper [OF res]) (use assms in \<open>auto simp: proper_part_def dest: split_on_parts\<close>)
  show ?thesis
  proof (cases "ps = []")
    case False
    then have "split_on (CHR ''/'') p = ps" using ps split_join unfolding p by (auto simp: proper_part_def)
    with ps Some show ?thesis by (simp add: list_all_iff)
  qed (use Some p in simp)
qed

section \<open>Use trees\<close>

text \<open>A use tree as the grammar has it, its text without blanks, and the paths it stands for.\<close>

datatype use_tree = UsePath string | UseGroup string "use_tree list"

fun show_use :: "use_tree \<Rightarrow> string" where
  "show_use (UsePath s) = s"
| "show_use (UseGroup p ts) = (if p = [] then [] else p @ ''::'') @ ''{'' @ join_with '','' (map show_use ts) @ ''}''"

fun use_paths :: "use_tree \<Rightarrow> string list" where
  "use_paths (UsePath s) = [s]"
| "use_paths (UseGroup p ts) = map (\<lambda>q. if p = [] then q else p @ ''::'' @ q) (concat (map use_paths ts))"

definition plain_text :: "string \<Rightarrow> bool" where
  "plain_text s \<longleftrightarrow> list_all (\<lambda>c. \<not> is_space c \<and> c \<noteq> CHR ''{'' \<and> c \<noteq> CHR ''}'' \<and> c \<noteq> CHR '','') s"

fun use_ok :: "use_tree \<Rightarrow> bool" where
  "use_ok (UsePath s) \<longleftrightarrow> s \<noteq> [] \<and> plain_text s"
| "use_ok (UseGroup p ts) \<longleftrightarrow> plain_text p \<and> \<not> ends_with p ''::'' \<and> list_all use_ok ts"

lemma group_items_plain:
  "plain_text s \<Longrightarrow> group_items d item (s @ rest) = group_items d (item @ s) rest"
  by (induction s arbitrary: item) (auto simp: plain_text_def)

lemma group_items_show: "use_ok t \<Longrightarrow> group_items d item (show_use t @ rest) = group_items d (item @ show_use t) rest"
proof (induction t arbitrary: d item rest)
  case (UseGroup p ts)
  have inner: "group_items (Suc d) item (join_with '','' (map show_use us) @ rest) =
      group_items (Suc d) (item @ join_with '','' (map show_use us)) rest" if "set us \<subseteq> set ts" for us item rest
    using that
  proof (induction us arbitrary: item)
    case (Cons u us)
    then have "use_ok u" "u \<in> set ts" using UseGroup.prems by (auto simp: list_all_iff)
    with UseGroup.IH Cons show ?case by (cases us) auto
  qed simp
  have "plain_text ''::''" by code_simp
  then have lead: "plain_text (if p = [] then [] else p @ ''::'')" using UseGroup.prems by (simp add: plain_text_def)
  show ?case
    using inner [OF order_refl] by (simp add: group_items_plain [OF lead])
qed (simp add: group_items_plain)

lemma group_items_join:
  "list_all use_ok ts \<Longrightarrow> ts \<noteq> [] \<Longrightarrow> group_items 0 [] (join_with '','' (map show_use ts)) = map show_use ts"
proof (induction ts)
  case (Cons t ts)
  then show ?case
    using group_items_show [of t 0 "[]" "[]"] group_items_show [of t 0 "[]" "CHR '','' # join_with '','' (map show_use ts)"]
    by (cases ts) auto
qed simp

lemma show_no_space: "use_ok t \<Longrightarrow> list_all (\<lambda>c. \<not> is_space c) (show_use t)"
proof (induction t)
  case (UseGroup p ts)
  have punct: "\<not> is_space (CHR ''{'')" "\<not> is_space (CHR ''}'')" "\<not> is_space (CHR '','')" "\<not> is_space (CHR '':'')"
    by code_simp+
  have "list_all (\<lambda>c. \<not> is_space c) (join_with '','' (map show_use us))" if "set us \<subseteq> set ts" for us
    using that
  proof (induction us)
    case (Cons u us)
    then show ?case using UseGroup punct by (cases us) (auto simp: list_all_iff)
  qed simp
  then show ?case using UseGroup.prems punct by (auto simp: plain_text_def list_all_iff)
qed (auto simp: plain_text_def list_all_iff)

lemma trim_chars_id: "list_all (\<lambda>c. \<not> P c) s \<Longrightarrow> trim_chars P s = s"
proof -
  assume s: "list_all (\<lambda>c. \<not> P c) s"
  then have "dropWhile P s = s" by (cases s) auto
  moreover have "dropWhile P (rev s) = rev s" using s by (cases s rule: rev_cases) auto
  ultimately show ?thesis by (simp add: trim_chars_def)
qed

lemma split_once_absent: "c \<in> set p \<Longrightarrow> c \<notin> set s \<Longrightarrow> split_once p s = None"
proof (induction s)
  case (Cons d ds)
  have "\<not> starts_with (d # ds) p"
  proof
    assume "starts_with (d # ds) p"
    then have "set p \<subseteq> set (d # ds)" unfolding starts_with_def by (metis set_take_subset)
    with Cons.prems show False by auto
  qed
  with Cons show ?case by simp
qed auto

lemma without_as_plain: "list_all (\<lambda>c. \<not> is_space c) s \<Longrightarrow> without_as s = s"
proof -
  assume s: "list_all (\<lambda>c. \<not> is_space c) s"
  have "is_space (CHR '' '')" by code_simp
  with s have "CHR '' '' \<notin> set s" by (auto simp: list_all_iff)
  then have "split_once '' as '' s = None" by (rule split_once_absent [rotated]) simp
  with s show ?thesis by (simp add: without_as_def trim_space_def trim_chars_id)
qed

lemma trim_end_once: "\<not> ends_with p ''::'' \<Longrightarrow> trim_end_str (p @ ''::'') ''::'' = p"
  by (subst trim_end_str.simps, subst trim_end_str.simps) (auto simp: ends_with_def strip_suffix_def)

lemma collect_options_Some: "(\<And>x. x \<in> set xs \<Longrightarrow> f x = Some (g x)) \<Longrightarrow> collect_options (map f xs) = Some (concat (map g xs))"
  by (auto simp: collect_options_def cong: map_cong)

text \<open>Expanding the text of a use tree gives its paths: every group is expanded under its prefix, groups
  within groups included, and the expansion does not fail.\<close>

theorem expand_braces_paths:
  assumes "use_ok t"
  shows "expand_braces (show_use t) = Some (use_paths t)"
  using assms
proof (induction t)
  case (UsePath s)
  then have "list_all (\<lambda>c. \<not> is_space c) s" "CHR ''{'' \<notin> set s" by (auto simp: plain_text_def list_all_iff)
  with UsePath show ?case by (subst expand_braces.simps) (simp add: trim_space_def trim_chars_id without_as_plain)
next
  case (UseGroup p ts)
  let ?lead = "if p = [] then [] else p @ ''::''" and ?inner = "join_with '','' (map show_use ts)"
  have shown: "show_use (UseGroup p ts) = ?lead @ CHR ''{'' # ?inner @ ''}''" by simp
  have trim: "trim_space (show_use (UseGroup p ts)) = show_use (UseGroup p ts)"
    unfolding trim_space_def by (rule trim_chars_id [OF show_no_space [OF UseGroup.prems]])
  have lead: "CHR ''{'' \<notin> set ?lead" "list_all (\<lambda>c. \<not> is_space c) ?lead"
  proof -
    have "\<not> is_space (CHR '':'')" by code_simp
    then show "CHR ''{'' \<notin> set ?lead" "list_all (\<lambda>c. \<not> is_space c) ?lead"
      using UseGroup.prems by (auto simp: plain_text_def list_all_iff)
  qed
  have "takeWhile (\<lambda>c. c \<noteq> CHR ''{'') (?lead @ CHR ''{'' # ?inner @ ''}'') = ?lead"
    using lead(1) by (subst takeWhile_append2) auto
  then have before: "before_brace (show_use (UseGroup p ts)) = ?lead" unfolding before_brace_def shown .
  have prefix: "trim_end_str (trim_space ?lead) ''::'' = p"
    using UseGroup.prems trim_end_once [of p] lead(2)
    by (auto simp: trim_space_def trim_chars_id trim_end_str.simps [of "[]"] strip_suffix_def)
  have close: "last_close (show_use (UseGroup p ts)) = length ?lead + 1 + length ?inner"
    unfolding last_close_def shown by simp
  have items: "take (last_close (show_use (UseGroup p ts)) - (length ?lead + 1)) (drop (length ?lead + 1) (show_use (UseGroup p ts))) = ?inner"
    unfolding close unfolding shown by simp
  have kids: "collect_options (map expand_braces (group_items 0 [] ?inner)) = Some (concat (map use_paths ts))"
  proof (cases "ts = []")
    case True
    have "expand_braces [] = Some []" by code_simp
    then show ?thesis by (simp add: True collect_options_def)
  next
    case False
    have "collect_options (map (\<lambda>t. expand_braces (show_use t)) ts) = Some (concat (map use_paths ts))"
      by (rule collect_options_Some) (use UseGroup in \<open>auto simp: list_all_iff\<close>)
    moreover have "group_items 0 [] ?inner = map show_use ts" using group_items_join False UseGroup.prems by simp
    ultimately show ?thesis by (simp add: comp_def)
  qed
  have braces: "CHR ''{'' \<in> set (show_use (UseGroup p ts))" "CHR ''}'' \<in> set (show_use (UseGroup p ts))" by simp_all
  show ?case
    unfolding expand_braces.simps [of "show_use (UseGroup p ts)"] Let_def trim before prefix items close
    using braces kids by (simp del: show_use.simps use_paths.simps) (simp add: map_concat)
qed

section \<open>Concrete statements\<close>

definition sample_files :: "string \<Rightarrow> bool" where
  "sample_files p \<longleftrightarrow> p \<in> set [''src/a.rs'', ''src/lib.rs'', ''src/b/mod.rs'', ''src/b/c.rs'']"

lemma sample_imports:
  "imported_paths ''src/a.rs'' [''use crate::{a, b::{c, self}};'', ''use std::fmt;''] sample_files =
   Some [''src/b/c.rs'', ''src/b/mod.rs'', ''src/lib.rs'']"
  by code_simp

theorem imported_paths_sound_witness: "list_all sample_files [''src/b/c.rs'', ''src/b/mod.rs'', ''src/lib.rs'']"
  using imported_paths_sound [OF sample_imports] by (simp add: list_all_iff)

lemma sample_relative:
  "\<forall>s \<in> set (split_on (CHR ''/'') ''src/b''). s \<noteq> ''.'' \<and> s \<noteq> ''..''"
  "relative ''src/b'' ''.././x'' = Some ''src/x''"
  by code_simp+

theorem relative_stays_inside_witness: "list_all proper_part (split_on (CHR ''/'') ''src/x'')"
  using relative_stays_inside [OF sample_relative(1), of "''.././x''"] by (simp add: sample_relative(2))

definition sample_use :: use_tree where
  "sample_use = UseGroup ''a'' [UsePath ''b'', UseGroup ''c'' [UsePath ''d'', UsePath ''self'']]"

theorem expand_braces_paths_witness:
  "expand_braces ''a::{b,c::{d,self}}'' = Some [''a::b'', ''a::c::d'', ''a::c::self'']"
proof -
  have "use_ok sample_use" "show_use sample_use = ''a::{b,c::{d,self}}''"
    "use_paths sample_use = [''a::b'', ''a::c::d'', ''a::c::self'']" by code_simp+
  with expand_braces_paths [of sample_use] show ?thesis by simp
qed

text \<open>Braces inside of comments are taken for those of a group: this declaration is valid, and fails.\<close>

lemma commented_braces_fail: "rust ''src/a.rs'' ''use a /* } */ as b /* { */;'' exists = None"
  by code_simp

end
