(* ===== verification/Pack.thy ===== *)
theory Pack
  imports Obj_Store
begin

unbundle bit_operations_syntax

text \<open>
  Pack files: \<open>crates/tessra-store/src/pack.rs\<close>.

  Writing into a buffer cannot fail, so \<open>pack_write\<close> returns the bytes. The reader takes them apart in the
  order of the code; every way it can fail is a value of \<open>pack_error\<close>, a buffer longer than a vector may
  be (the capacity overflow panic) is \<open>PackOverflow\<close>. BLAKE3 is the argument \<open>blake\<close>. A tag is a string of
  one character per byte, and valid UTF-8 where the code asks for it.
\<close>

datatype pack_error =
    PackShort | PackTrailer | PackHeader | PackIo | PackVarint | PackUtf8 | PackRecord oid | PackOverflow

fun pbind :: "pack_error + 'a \<Rightarrow> ('a \<Rightarrow> pack_error + 'b) \<Rightarrow> pack_error + 'b" where
  "pbind (Inl e) f = Inl e"
| "pbind (Inr x) f = f x"

lemma pbind_cong [fundef_cong]:
  "m = m' \<Longrightarrow> (\<And>x. m' = Inr x \<Longrightarrow> f x = g x) \<Longrightarrow> pbind m f = pbind m' g"
  by (cases m') simp_all

lemma pbind_Inr_iff: "pbind m f = Inr y \<longleftrightarrow> (\<exists>x. m = Inr x \<and> f x = Inr y)"
  by (cases m) auto

record pack_record =
  pr_id :: oid
  pr_tag :: string
  pr_bytes :: bytes

section \<open>Numbers of variable length\<close>

lemma unat_drop_bit_7: "unat (drop_bit 7 n) = unat (n :: 64 word) div 128"
proof -
  have "unat (drop_bit 7 n) = drop_bit 7 (unat n)" by (rule unat_drop_bit_eq)
  then show ?thesis by (simp only: drop_bit_eq_div) simp
qed

lemma drop_bit_7_less: "drop_bit 7 n \<noteq> 0 \<Longrightarrow> unat (drop_bit 7 n) < unat (n :: 64 word)"
proof -
  assume "drop_bit 7 n \<noteq> 0"
  then have "unat (drop_bit 7 n) \<noteq> 0" by (metis unat_eq_zero)
  then show ?thesis unfolding unat_drop_bit_7 by auto
qed

function write_varint :: "64 word \<Rightarrow> bytes" where
  "write_varint n =
     (let b = ucast (n AND 0x7f); n' = drop_bit 7 n
      in if n' = 0 then [b] else (b OR 0x80) # write_varint n')"
  by pat_completeness auto
termination by (relation "measure unat") (auto intro: drop_bit_7_less)

declare write_varint.simps [simp del]

fun read_varint :: "bytes \<Rightarrow> 64 word \<Rightarrow> nat \<Rightarrow> pack_error + (64 word \<times> bytes)" where
  "read_varint [] n shift = Inl PackIo"
| "read_varint (b # bs) n shift =
     (let n' = n OR push_bit shift (ucast (b AND 0x7f))
      in if b AND 0x80 = 0 then Inr (n', bs)
         else if 63 < shift + 7 then Inl PackVarint
         else read_varint bs n' (shift + 7))"

section \<open>UTF-8\<close>

text \<open>\<open>String::from_utf8\<close>: the well-formed byte sequences of the Unicode standard.\<close>

definition tail_byte :: "u8 \<Rightarrow> bool" where
  "tail_byte b \<longleftrightarrow> 0x80 \<le> b \<and> b \<le> 0xBF"

text \<open>How many bytes the first character takes; 0 when it is not well-formed.\<close>

definition char_width :: "bytes \<Rightarrow> nat" where
  "char_width bs =
     (case bs of
        [] \<Rightarrow> 0
      | b # cs \<Rightarrow>
          if b \<le> 0x7F then 1
          else if 0xC2 \<le> b \<and> b \<le> 0xDF then if 1 \<le> length cs \<and> tail_byte (cs ! 0) then 2 else 0
          else if 0xE0 \<le> b \<and> b \<le> 0xEF
          then if 2 \<le> length cs \<and> tail_byte (cs ! 0) \<and> tail_byte (cs ! 1) \<and>
                  (b = 0xE0 \<longrightarrow> 0xA0 \<le> cs ! 0) \<and> (b = 0xED \<longrightarrow> cs ! 0 \<le> 0x9F) then 3 else 0
          else if 0xF0 \<le> b \<and> b \<le> 0xF4
          then if 3 \<le> length cs \<and> tail_byte (cs ! 0) \<and> tail_byte (cs ! 1) \<and> tail_byte (cs ! 2) \<and>
                  (b = 0xF0 \<longrightarrow> 0x90 \<le> cs ! 0) \<and> (b = 0xF4 \<longrightarrow> cs ! 0 \<le> 0x8F) then 4 else 0
          else 0)"

function valid_utf8 :: "bytes \<Rightarrow> bool" where
  "valid_utf8 bs =
     (if bs = [] then True else if char_width bs = 0 then False else valid_utf8 (drop (char_width bs) bs))"
  by pat_completeness auto
termination by (relation "measure length") auto

declare valid_utf8.simps [simp del]

definition string_of_bytes :: "bytes \<Rightarrow> string" where
  "string_of_bytes bs = map (\<lambda>b. char_of (unat b)) bs"

section \<open>Writing\<close>

definition pack_magic :: bytes where
  "pack_magic = ascii ''GVPK''"

definition pack_version :: u8 where
  "pack_version = 1"

definition record_bytes :: "pack_record \<Rightarrow> bytes" where
  "record_bytes r =
     pr_id r @ write_varint (of_nat (length (pr_tag r))) @ ascii (pr_tag r) @
     write_varint (of_nat (length (pr_bytes r))) @ pr_bytes r"

definition pack_body :: "pack_record list \<Rightarrow> bytes" where
  "pack_body rs = pack_magic @ [pack_version] @ concat (map record_bytes rs)"

definition pack_write :: "(bytes \<Rightarrow> bytes) \<Rightarrow> pack_record list \<Rightarrow> bytes" where
  "pack_write blake rs = pack_body rs @ blake (pack_body rs)"

section \<open>Reading\<close>

text \<open>\<open>read_exact\<close> into a fresh vector of the length.\<close>

definition read_exact :: "64 word \<Rightarrow> bytes \<Rightarrow> pack_error + (bytes \<times> bytes)" where
  "read_exact n cur =
     (if 2 ^ 63 \<le> n then Inl PackOverflow
      else if length cur < unat n then Inl PackIo else Inr (take (unat n) cur, drop (unat n) cur))"

definition read_record :: "(bytes \<Rightarrow> bytes) \<Rightarrow> bytes \<Rightarrow> pack_error + (pack_record \<times> bytes)" where
  "read_record blake cur =
     pbind (read_exact 32 cur) (\<lambda>(idb, cur).
     pbind (read_varint cur 0 0) (\<lambda>(tag_len, cur).
     pbind (read_exact tag_len cur) (\<lambda>(tag, cur).
     if \<not> valid_utf8 tag then Inl PackUtf8
     else pbind (read_varint cur 0 0) (\<lambda>(len, cur).
     pbind (read_exact len cur) (\<lambda>(data, cur).
     if object_id blake (string_of_bytes tag) data \<noteq> idb then Inl (PackRecord idb)
     else Inr (\<lparr>pr_id = idb, pr_tag = string_of_bytes tag, pr_bytes = data\<rparr>, cur))))))"

lemma read_varint_rest: "read_varint cur n shift = Inr (m, rest) \<Longrightarrow> length rest < length cur"
  by (induction cur n shift rule: read_varint.induct) (auto simp: Let_def split: if_splits)

lemma read_exact_rest: "read_exact n cur = Inr (d, rest) \<Longrightarrow> length rest \<le> length cur"
  by (auto simp: read_exact_def split: if_splits)

lemma read_record_rest: "read_record blake cur = Inr (r, rest) \<Longrightarrow> length rest < length cur"
  by (auto simp: read_record_def pbind_Inr_iff split: if_splits dest!: read_exact_rest read_varint_rest)

function read_records :: "(bytes \<Rightarrow> bytes) \<Rightarrow> bytes \<Rightarrow> pack_record list \<Rightarrow> pack_error + pack_record list" where
  "read_records blake cur out =
     (if cur = [] then Inr out
      else pbind (read_record blake cur) (\<lambda>(r, rest). read_records blake rest (out @ [r])))"
  by pat_completeness auto
termination by (relation "measure (\<lambda>(blake, cur, out). length cur)") (auto dest: read_record_rest)

declare read_records.simps [simp del]

definition pack_read :: "(bytes \<Rightarrow> bytes) \<Rightarrow> bytes \<Rightarrow> pack_error + pack_record list" where
  "pack_read blake bs =
     (if length bs < 4 + 1 + 32 then Inl PackShort
      else (let body = take (length bs - 32) bs; trailer = drop (length bs - 32) bs
            in if blake body \<noteq> trailer then Inl PackTrailer
               else if take 4 body \<noteq> pack_magic \<or> body ! 4 \<noteq> pack_version then Inl PackHeader
               else read_records blake (drop 5 body) []))"

definition pack_import :: "(bytes \<Rightarrow> bytes) \<Rightarrow> mem_store \<Rightarrow> bytes \<Rightarrow> pack_error + (mem_store \<times> nat)" where
  "pack_import blake s bs =
     pbind (pack_read blake bs) (\<lambda>rs.
     Inr (fold (\<lambda>r s. fst (put_bytes blake s (pr_tag r) (pr_bytes r))) rs s, length rs))"

end
