(* ===== verification/Pack_Props.thy ===== *)
theory Pack_Props
  imports Pack
begin

text \<open>
  Pack files: what is written is read back, what is read was verified, and importing a pack makes every
  record of it readable.
\<close>

section \<open>Numbers\<close>

lemma low_byte:
  fixes n :: "64 word"
  shows "ucast ((ucast (n AND 0x7f) :: u8) AND 0x7f) = n AND 0x7f"
    and "ucast (((ucast (n AND 0x7f) :: u8) OR 0x80) AND 0x7f) = n AND 0x7f"
    and "(ucast (n AND 0x7f) :: u8) AND 0x80 = 0"
    and "((ucast (n AND 0x7f) :: u8) OR 0x80) AND 0x80 \<noteq> 0"
proof -
  have low: "(0x7f :: 64 word) = mask 7" "(0x7f :: u8) = mask 7" by (simp_all add: mask_eq_exp_minus_1)
  have high: "bit (0x80 :: u8) k \<longleftrightarrow> k = 7" "bit (0x80 :: 64 word) k \<longleftrightarrow> k = 7" for k
  proof -
    have "(0x80 :: u8) = push_bit 7 1" "(0x80 :: 64 word) = push_bit 7 1" by simp_all
    then show "bit (0x80 :: u8) k \<longleftrightarrow> k = 7" "bit (0x80 :: 64 word) k \<longleftrightarrow> k = 7"
      by (auto simp only: bit_push_bit_iff bit_1_iff possible_bit_word) auto
  qed
  show "ucast ((ucast (n AND 0x7f) :: u8) AND 0x7f) = n AND 0x7f"
    unfolding low by (intro bit_word_eqI) (auto simp: bit_simps)
  moreover have "((ucast (n AND 0x7f) :: u8) OR 0x80) AND 0x7f = (ucast (n AND 0x7f) :: u8) AND 0x7f"
    by (simp add: bit.conj_disj_distrib2)
  ultimately show "ucast (((ucast (n AND 0x7f) :: u8) OR 0x80) AND 0x7f) = n AND 0x7f" by simp
  have "(ucast (n AND 0x7f) :: u8) = ucast n AND 0x7f" by (simp add: unsigned_and_eq)
  then have "(ucast (n AND 0x7f) :: u8) AND 0x80 = ucast n AND (0x7f AND 0x80)" by (simp only: and.assoc)
  then show "(ucast (n AND 0x7f) :: u8) AND 0x80 = 0" by simp
  have "bit (((ucast (n AND 0x7f) :: u8) OR 0x80) AND 0x80) 7" by (simp add: bit_simps high)
  then show "((ucast (n AND 0x7f) :: u8) OR 0x80) AND 0x80 \<noteq> 0" by auto
qed

lemma join_bits: "push_bit s (n AND 0x7f) OR push_bit (s + 7) (drop_bit 7 n) = push_bit s (n :: 64 word)"
proof (rule bit_word_eqI)
  have low: "(0x7f :: 64 word) = mask 7" by (simp add: mask_eq_exp_minus_1)
  fix k assume "k < LENGTH(64)"
  then show "bit (push_bit s (n AND 0x7f) OR push_bit (s + 7) (drop_bit 7 n)) k \<longleftrightarrow> bit (push_bit s n) k"
    unfolding low by (cases "k < s + 7") (auto simp: bit_simps)
qed

lemma read_write_varint:
  "unat n < 2 ^ (64 - s) \<Longrightarrow> s \<le> 63 \<Longrightarrow>
   read_varint (write_varint n @ rest) acc s = Inr (acc OR push_bit s n, rest)"
proof (induction n arbitrary: acc s rule: write_varint.induct)
  case (1 n)
  let ?n = "drop_bit 7 n"
  note part = unat_drop_bit_7 [of n]
  show ?case
  proof (cases "?n = 0")
    case True
    then have "push_bit s (n AND 0x7f) = push_bit s n" using join_bits [of s n] by simp
    then show ?thesis using True by (subst write_varint.simps) (simp add: Let_def low_byte)
  next
    case False
    then have "unat ?n \<noteq> 0" by (metis unat_eq_zero)
    then have "128 \<le> unat n" unfolding part by auto
    then have big: "2 ^ 7 < (2 :: nat) ^ (64 - s)" using "1.prems"(1) by simp
    then have s: "s + 7 \<le> 63" using power_less_imp_less_exp [of "2 :: nat" 7 "64 - s"] by simp
    have "64 - s = (64 - (s + 7)) + 7" using s by simp
    then have "(2 :: nat) ^ (64 - s) = 2 ^ (64 - (s + 7)) * 2 ^ 7" by (simp only: power_add)
    then have "unat ?n < 2 ^ (64 - (s + 7))" unfolding part using "1.prems"(1) by auto
    with "1.IH" [OF refl refl] False s have
      "read_varint (write_varint ?n @ rest) (acc OR push_bit s (n AND 0x7f)) (s + 7) =
        Inr ((acc OR push_bit s (n AND 0x7f)) OR push_bit (s + 7) ?n, rest)" by simp
    moreover have "(acc OR push_bit s (n AND 0x7f)) OR push_bit (s + 7) ?n = acc OR push_bit s n"
      by (simp only: or.assoc join_bits)
    ultimately show ?thesis using False s
      by (subst write_varint.simps) (simp add: Let_def low_byte)
  qed
qed

lemma varint_round_trip: "read_varint (write_varint n @ rest) 0 0 = Inr (n, rest)"
  using read_write_varint [of n 0 rest 0] unsigned_less [of n] by simp

section \<open>Records\<close>

lemma string_of_ascii [simp]: "string_of_bytes (ascii s) = s"
proof -
  have "char_of (unat (of_nat (of_char c) :: u8)) = c" for c :: char
  proof -
    have "unat (of_nat (of_char c) :: u8) = (of_char c :: nat) mod 256" by (simp only: unat_of_nat) simp
    then show ?thesis by simp
  qed
  then show ?thesis by (simp add: string_of_bytes_def ascii_def comp_def)
qed

lemma length_ascii [simp]: "length (ascii s) = length s"
  by (simp add: ascii_def)

text \<open>A record that may be written: its id is its hash, its tag is valid, and its parts fit into a vector.\<close>

definition record_ok :: "(bytes \<Rightarrow> bytes) \<Rightarrow> pack_record \<Rightarrow> bool" where
  "record_ok blake r \<longleftrightarrow>
     pr_id r = object_id blake (pr_tag r) (pr_bytes r) \<and> valid_utf8 (ascii (pr_tag r)) \<and>
     length (pr_tag r) < 2 ^ 63 \<and> length (pr_bytes r) < 2 ^ 63"

lemma unat_length: "n < 2 ^ 63 \<Longrightarrow> unat (of_nat n :: 64 word) = n"
  by (simp only: unat_of_nat) simp

lemma read_exact_append:
  assumes "length d < 2 ^ 63"
  shows "read_exact (of_nat (length d)) (d @ rest) = Inr (d, rest)"
proof -
  have "\<not> 2 ^ 63 \<le> (of_nat (length d) :: 64 word)"
    unfolding word_le_nat_alt unat_length [OF assms] using assms by simp
  then show ?thesis by (simp add: read_exact_def unat_length [OF assms])
qed

lemma read_record_written:
  assumes "record_ok blake r" and "\<And>bs. length (blake bs) = 32"
  shows "read_record blake (record_bytes r @ rest) = Inr (r, rest)"
proof -
  have len: "length (pr_id r) = 32" and fits: "length (pr_tag r) < 2 ^ 63" "length (pr_bytes r) < 2 ^ 63"
    and utf8: "valid_utf8 (ascii (pr_tag r))" and i: "pr_id r = object_id blake (pr_tag r) (pr_bytes r)"
    using assms by (auto simp: record_ok_def object_id_def)
  let ?tag = "write_varint (of_nat (length (pr_tag r)))" and ?len = "write_varint (of_nat (length (pr_bytes r)))"
  have "read_exact 32 (record_bytes r @ rest) = Inr (pr_id r, ?tag @ ascii (pr_tag r) @ ?len @ pr_bytes r @ rest)"
    using read_exact_append [of "pr_id r"] len by (simp add: record_bytes_def)
  moreover have "read_exact (of_nat (length (pr_tag r))) (ascii (pr_tag r) @ ?len @ pr_bytes r @ rest) =
      Inr (ascii (pr_tag r), ?len @ pr_bytes r @ rest)"
    using read_exact_append [of "ascii (pr_tag r)"] fits(1) by simp
  moreover have "read_exact (of_nat (length (pr_bytes r))) (pr_bytes r @ rest) = Inr (pr_bytes r, rest)"
    by (rule read_exact_append [OF fits(2)])
  ultimately show ?thesis
    using i utf8 by (simp add: read_record_def varint_round_trip)
qed

lemma record_bytes_nonempty: "length (pr_id r) = 32 \<Longrightarrow> record_bytes r \<noteq> []"
  by (cases "pr_id r") (auto simp: record_bytes_def)

lemma read_records_written:
  assumes "\<And>bs. length (blake bs) = 32" and "\<forall>r \<in> set rs. record_ok blake r"
  shows "read_records blake (concat (map record_bytes rs)) out = Inr (out @ rs)"
  using assms(2)
proof (induction rs arbitrary: out)
  case Nil
  show ?case by (subst read_records.simps) simp
next
  case (Cons r rs)
  have "length (pr_id r) = 32" using Cons.prems assms(1) by (auto simp: record_ok_def object_id_def)
  then have "concat (map record_bytes (r # rs)) \<noteq> []" using record_bytes_nonempty by simp
  moreover have "read_record blake (concat (map record_bytes (r # rs))) = Inr (r, concat (map record_bytes rs))"
    using read_record_written [OF _ assms(1)] Cons.prems by simp
  ultimately show ?case using Cons by (subst read_records.simps) simp
qed

text \<open>C35: what is written as a pack is read back, record by record and in order, for records filed under their
  hash, with valid tags and of any contents.\<close>

theorem pack_round_trip:
  assumes "\<And>bs. length (blake bs) = 32" and "list_all (record_ok blake) rs"
  shows "pack_read blake (pack_write blake rs) = Inr rs"
proof -
  let ?body = "pack_body rs"
  have len: "length (pack_write blake rs) = length ?body + 32" "5 \<le> length ?body"
    by (simp_all add: pack_write_def assms(1) pack_body_def pack_magic_def)
  then have parts: "take (length (pack_write blake rs) - 32) (pack_write blake rs) = ?body"
    "drop (length (pack_write blake rs) - 32) (pack_write blake rs) = blake ?body"
    by (simp_all add: pack_write_def)
  have "take 4 ?body = pack_magic" "?body ! 4 = pack_version" "drop 5 ?body = concat (map record_bytes rs)"
    by (simp_all add: pack_body_def pack_magic_def ascii_def)
  then show ?thesis
    unfolding pack_read_def Let_def parts
    using len read_records_written [where blake = blake and rs = rs and out = "[]", OF assms(1)] assms(2)
    by (simp add: list_all_iff)
qed

section \<open>What is accepted\<close>

lemma read_record_verified:
  "read_record blake cur = Inr (r, rest) \<Longrightarrow> pr_id r = object_id blake (pr_tag r) (pr_bytes r) \<and> length (pr_id r) = 32"
  by (auto simp: read_record_def pbind_Inr_iff read_exact_def split: if_splits)

lemma read_records_verified:
  "read_records blake cur out = Inr rs \<Longrightarrow>
   \<forall>r \<in> set out. pr_id r = object_id blake (pr_tag r) (pr_bytes r) \<Longrightarrow>
   \<forall>r \<in> set rs. pr_id r = object_id blake (pr_tag r) (pr_bytes r)"
proof (induction blake cur out rule: read_records.induct)
  case (1 blake cur out)
  show ?case
  proof (cases "cur = []")
    case False
    with "1.prems"(1) obtain r rest where r: "read_record blake cur = Inr (r, rest)"
      and rest: "read_records blake rest (out @ [r]) = Inr rs"
      by (subst (asm) read_records.simps) (auto simp: pbind_Inr_iff)
    have "\<forall>r \<in> set (out @ [r]). pr_id r = object_id blake (pr_tag r) (pr_bytes r)"
      using "1.prems"(2) read_record_verified [OF r] by simp
    from "1.IH" [OF False r refl rest this] show ?thesis .
  qed (use 1 in \<open>simp add: read_records.simps [of blake "[]"]\<close>)
qed

text \<open>C36: a pack that is accepted is intact: every record has the id that its tag and bytes hash to, and other
  bytes under the same trailer are refused.\<close>

theorem pack_read_verified:
  assumes "pack_read blake bs = Inr rs" and "inj blake"
  shows "(\<forall>r \<in> set rs. pr_id r = object_id blake (pr_tag r) (pr_bytes r)) \<and>
    (\<forall>cs. 37 \<le> length cs \<longrightarrow> drop (length cs - 32) cs = drop (length bs - 32) bs \<longrightarrow> cs \<noteq> bs \<longrightarrow>
       pack_read blake cs = Inl PackTrailer)"
proof (intro conjI allI impI)
  obtain cur where "read_records blake cur [] = Inr rs"
    using assms(1) by (auto simp: pack_read_def Let_def split: if_splits)
  then show "\<forall>r \<in> set rs. pr_id r = object_id blake (pr_tag r) (pr_bytes r)"
    by (rule read_records_verified) simp
  fix cs assume cs: "37 \<le> length cs" "drop (length cs - 32) cs = drop (length bs - 32) bs" "cs \<noteq> bs"
  have b: "blake (take (length bs - 32) bs) = drop (length bs - 32) bs"
    using assms(1) by (simp add: pack_read_def Let_def split: if_splits)
  have "take (length cs - 32) cs \<noteq> take (length bs - 32) bs"
    using cs(2,3) by (metis append_take_drop_id)
  then have "blake (take (length cs - 32) cs) \<noteq> drop (length cs - 32) cs"
    unfolding cs(2) b [symmetric] using assms(2) by (simp add: inj_eq)
  with cs(1) show "pack_read blake cs = Inl PackTrailer" by (simp add: pack_read_def Let_def)
qed

section \<open>Import\<close>

definition import_step :: "(bytes \<Rightarrow> bytes) \<Rightarrow> pack_record \<Rightarrow> mem_store \<Rightarrow> mem_store" where
  "import_step blake r s = fst (put_bytes blake s (pr_tag r) (pr_bytes r))"

text \<open>Every entry of a store is filed under its hash by a tag of one line.\<close>

definition filed :: "(bytes \<Rightarrow> bytes) \<Rightarrow> mem_store \<Rightarrow> bool" where
  "filed blake s \<longleftrightarrow> (\<forall>i bs. s i = Some bs \<longrightarrow> (\<exists>tag. plain_tag tag \<and> i = object_id blake tag bs))"

lemma import_step_filed:
  assumes "inj blake" "filed blake s" "plain_tag (pr_tag r)"
  shows "filed blake (import_step blake r s) \<and>
    import_step blake r s = s(object_id blake (pr_tag r) (pr_bytes r) \<mapsto> pr_bytes r)"
proof -
  let ?i = "object_id blake (pr_tag r) (pr_bytes r)"
  have same: "b = pr_bytes r" if "s ?i = Some b" for b
  proof -
    from assms(2) that obtain tag where "plain_tag tag" "?i = object_id blake tag b" unfolding filed_def by blast
    with object_id_inject [OF assms(1,3)] show ?thesis by blast
  qed
  have new: "import_step blake r s = s(?i \<mapsto> pr_bytes r)"
    using same by (cases "s ?i") (auto simp: import_step_def put_bytes_def Let_def)
  moreover have "filed blake (s(?i \<mapsto> pr_bytes r))" using assms(2,3) by (auto simp: filed_def)
  ultimately show ?thesis by simp
qed

lemma import_fold:
  assumes "inj blake" "filed blake s" "\<forall>r \<in> set rs. plain_tag (pr_tag r)"
  shows "filed blake (fold (import_step blake) rs s) \<and>
    (\<forall>i b. s i = Some b \<longrightarrow> fold (import_step blake) rs s i = Some b) \<and>
    (\<forall>r \<in> set rs. fold (import_step blake) rs s (object_id blake (pr_tag r) (pr_bytes r)) = Some (pr_bytes r))"
  using assms(2,3)
proof (induction rs arbitrary: s)
  case (Cons r rs)
  let ?i = "object_id blake (pr_tag r) (pr_bytes r)"
  have "plain_tag (pr_tag r)" using Cons.prems(2) by simp
  note both = import_step_filed [OF assms(1) Cons.prems(1) this]
  note step = conjunct1 [OF both] conjunct2 [OF both]
  have kept: "import_step blake r s i = Some b" if "s i = Some b" for i b
  proof -
    have "s ?i = Some c \<Longrightarrow> import_step blake r s = s" for c
      by (simp add: import_step_def put_bytes_def Let_def)
    with that step(2) show ?thesis by (cases "i = ?i") simp_all
  qed
  have "import_step blake r s ?i = Some (pr_bytes r)" by (simp add: step(2))
  with Cons.IH [OF step(1)] Cons.prems(2) kept show ?case by auto
qed simp

text \<open>Importing a pack whose tags are one line each makes every record of it readable by its id, with its
  bytes, and keeps what the store had.\<close>

theorem pack_import_readable:
  assumes "pack_import blake s bs = Inr (s', n)" and "pack_read blake bs = Inr rs"
    and "inj blake" and "filed blake s" and "list_all (\<lambda>r. plain_tag (pr_tag r)) rs"
  shows "n = length rs \<and> (\<forall>r \<in> set rs. get_bytes s' (pr_id r) = Some (pr_bytes r)) \<and>
    (\<forall>i b. get_bytes s i = Some b \<longrightarrow> get_bytes s' i = Some b) \<and> filed blake s'"
proof -
  have "s' = fold (import_step blake) rs s" "n = length rs"
    using assms(1,2) by (auto simp: pack_import_def import_step_def [abs_def])
  moreover obtain cur where "read_records blake cur [] = Inr rs"
    using assms(2) by (auto simp: pack_read_def Let_def split: if_splits)
  then have "\<forall>r \<in> set rs. pr_id r = object_id blake (pr_tag r) (pr_bytes r)"
    by (rule read_records_verified) simp
  ultimately show ?thesis
    using import_fold [OF assms(3,4), of rs] assms(5) by (auto simp: list_all_iff get_bytes_def)
qed

section \<open>A concrete pack\<close>

text \<open>The identity with two pairs of values exchanged: injective, and of 32 bytes where the pack needs it.\<close>

definition exchange :: "'a \<Rightarrow> 'a \<Rightarrow> ('a \<Rightarrow> 'a) \<Rightarrow> 'a \<Rightarrow> 'a" where
  "exchange a b f x = (if x = a then f b else if x = b then f a else f x)"

lemma inj_exchange: "inj f \<Longrightarrow> inj (exchange a b f)"
proof (rule injI)
  fix x y assume f: "inj f" and eq: "exchange a b f x = exchange a b f y"
  let ?swap = "\<lambda>x. if x = a then b else if x = b then a else x"
  have "exchange a b f z = f (?swap z)" for z by (simp add: exchange_def)
  with eq have "f (?swap x) = f (?swap y)" by simp
  then have "?swap x = ?swap y" by (rule injD [OF f])
  then show "x = y" by (simp split: if_splits)
qed

definition pack_data :: bytes where
  "pack_data = ascii ''hello''"

definition one_record :: pack_record where
  "one_record = \<lparr>pr_id = replicate 32 7, pr_tag = ''blob'', pr_bytes = pack_data\<rparr>"

definition pack_hash :: "bytes \<Rightarrow> bytes" where
  "pack_hash = exchange (ascii ''tessra:blob'' @ [10] @ pack_data) (replicate 32 7)
     (exchange (pack_body [one_record]) (replicate 32 9) id)"

definition one_pack :: bytes where
  "one_pack = pack_body [one_record] @ replicate 32 9"

lemma one_pack_read: "pack_read pack_hash one_pack = Inr [one_record]"
  by code_simp

lemma inj_pack_hash: "inj pack_hash"
  unfolding pack_hash_def by (intro inj_exchange inj_on_id)

theorem pack_read_verified_witness: "pr_id one_record = object_id pack_hash ''blob'' pack_data"
  using pack_read_verified [OF one_pack_read inj_pack_hash] by (simp add: one_record_def)

theorem pack_import_readable_witness:
  "get_bytes (fst (projr (pack_import pack_hash mem_new one_pack))) (replicate 32 7) = Some pack_data"
proof -
  obtain s' n where run: "pack_import pack_hash mem_new one_pack = Inr (s', n)"
    by (simp add: pack_import_def one_pack_read)
  have "filed pack_hash mem_new" by (simp add: filed_def mem_new_def)
  moreover have "list_all (\<lambda>r. plain_tag (pr_tag r)) [one_record]" by code_simp
  ultimately have "\<forall>r \<in> set [one_record]. get_bytes s' (pr_id r) = Some (pr_bytes r)"
    using pack_import_readable [OF run one_pack_read inj_pack_hash] by blast
  then show ?thesis by (simp add: run one_record_def)
qed

definition short_hash :: "bytes \<Rightarrow> bytes" where
  "short_hash bs = take 32 (rev bs @ replicate 32 0)"

definition two_records :: "pack_record list" where
  "two_records =
     [\<lparr>pr_id = object_id short_hash ''blob'' (ascii ''a''), pr_tag = ''blob'', pr_bytes = ascii ''a''\<rparr>,
      \<lparr>pr_id = object_id short_hash ''tree'' (replicate 200 1), pr_tag = ''tree'', pr_bytes = replicate 200 1\<rparr>]"

theorem pack_round_trip_witness: "pack_read short_hash (pack_write short_hash two_records) = Inr two_records"
proof (rule pack_round_trip)
  show "length (short_hash bs) = 32" for bs by (simp add: short_hash_def)
  have "valid_utf8 (ascii ''blob'')" "valid_utf8 (ascii ''tree'')" by code_simp+
  then show "list_all (record_ok short_hash) two_records" by (simp add: record_ok_def two_records_def)
qed

section \<open>What the format does not catch\<close>

text \<open>
  A tag of two lines: the record hashes to the id of another blob, is accepted, and importing it files the
  rest of the bytes under the id of that blob.
\<close>

definition split_tag :: pack_record where
  "split_tag = \<lparr>pr_id = blob_id short_hash (ascii (''x'' @ [CHR 0x0A] @ ''y'')), pr_tag = ''blob'' @ [CHR 0x0A] @ ''x'',
     pr_bytes = ascii ''y''\<rparr>"

lemma tag_of_two_lines:
  "pack_read short_hash (pack_write short_hash [split_tag]) = Inr [split_tag]"
  "get_bytes (fst (projr (pack_import short_hash mem_new (pack_write short_hash [split_tag]))))
     (blob_id short_hash (ascii (''x'' @ [CHR 0x0A] @ ''y''))) = Some (ascii ''y'')"
  by code_simp+

text \<open>A length that no vector can have is not refused: the reader asks for the space first.\<close>

lemma huge_length_overflows:
  "pack_read short_hash (let body = pack_magic @ [pack_version] @ replicate 32 0 @ replicate 9 0xff @ [1]
     in body @ short_hash body) = Inl PackOverflow"
  by code_simp

end
