(* ===== verification/Durable.thy ===== *)
theory Durable
  imports Obj_Store Pack_Props
begin

text \<open>
  The durable object store: \<open>crates/tessra-store/src/lib.rs\<close>.

  The database is its three tables, sorted by key as redb keeps them; a transaction that commits is one
  update of the record. Opening the file, waiting for its lock and the errors of the database are not
  modelled. \<open>rs_pending\<close> is the batch: \<open>None\<close> while none is open. A record of an object is the length of its
  tag in one byte, the tag and the bytes; taking apart a record that is too short panics.
\<close>

record rstore =
  rs_objects :: "(oid, bytes) btree"
  rs_meta :: "(string, bytes) btree"
  rs_idem :: "(bytes, bytes) btree"
  rs_pending :: "(oid, bytes) btree option"

definition rs_new :: rstore where
  "rs_new = \<lparr>rs_objects = [], rs_meta = [], rs_idem = [], rs_pending = None\<rparr>"

section \<open>Records\<close>

definition make_record :: "string \<Rightarrow> bytes \<Rightarrow> bytes" where
  "make_record tag bs = of_nat (length tag) # ascii tag @ bs"

definition split_record :: "bytes \<Rightarrow> (string \<times> bytes) res" where
  "split_record rec =
     (case rec of
        [] \<Rightarrow> Inl Panic
      | b # rest \<Rightarrow>
          if length rest < unat b then Inl Panic
          else Inr (string_of_bytes (take (unat b) rest), drop (unat b) rest))"

section \<open>Batches\<close>

definition begin_batch :: "rstore \<Rightarrow> rstore" where
  "begin_batch s = (case rs_pending s of None \<Rightarrow> s\<lparr>rs_pending := Some []\<rparr> | Some _ \<Rightarrow> s)"

definition write_absent :: "(oid, bytes) btree \<Rightarrow> (oid, bytes) btree \<Rightarrow> (oid, bytes) btree" where
  "write_absent batch table =
     fold (\<lambda>(i, rec) t. case map_of t i of None \<Rightarrow> bt_insert i rec t | Some _ \<Rightarrow> t) batch table"

definition end_batch :: "rstore \<Rightarrow> rstore \<times> nat" where
  "end_batch s =
     (case rs_pending s of
        None \<Rightarrow> (s, 0)
      | Some batch \<Rightarrow> (s\<lparr>rs_objects := write_absent batch (rs_objects s), rs_pending := None\<rparr>, length batch))"

section \<open>Objects\<close>

definition rs_put_bytes :: "(bytes \<Rightarrow> bytes) \<Rightarrow> rstore \<Rightarrow> string \<Rightarrow> bytes \<Rightarrow> rstore \<times> oid" where
  "rs_put_bytes blake s tag bs =
     (let i = object_id blake tag bs
      in case rs_pending s of
           Some batch \<Rightarrow>
             (s\<lparr>rs_pending := Some (case map_of batch i of None \<Rightarrow> bt_insert i (make_record tag bs) batch | Some _ \<Rightarrow> batch)\<rparr>, i)
         | None \<Rightarrow> (s\<lparr>rs_objects := write_absent [(i, make_record tag bs)] (rs_objects s)\<rparr>, i))"

definition read_payload :: "bytes \<Rightarrow> bytes option res" where
  "read_payload rec = rbind (split_record rec) (\<lambda>(_, bs). Inr (Some bs))"

definition rs_get_bytes :: "rstore \<Rightarrow> oid \<Rightarrow> bytes option res" where
  "rs_get_bytes s i =
     (case (case rs_pending s of None \<Rightarrow> None | Some batch \<Rightarrow> map_of batch i) of
        Some rec \<Rightarrow> read_payload rec
      | None \<Rightarrow> (case map_of (rs_objects s) i of None \<Rightarrow> Inr None | Some rec \<Rightarrow> read_payload rec))"

definition get_tagged :: "rstore \<Rightarrow> oid \<Rightarrow> (string \<times> bytes) option res" where
  "get_tagged s i =
     (case map_of (rs_objects s) i of
        None \<Rightarrow> Inr None
      | Some rec \<Rightarrow> rbind (split_record rec) (\<lambda>r. Inr (Some r)))"

definition rs_len :: "rstore \<Rightarrow> nat" where
  "rs_len s = length (rs_objects s)"

definition rs_is_empty :: "rstore \<Rightarrow> bool" where
  "rs_is_empty s \<longleftrightarrow> rs_len s = 0"

definition rs_ids :: "rstore \<Rightarrow> oid list" where
  "rs_ids s = filter (\<lambda>i. length i = 32) (map fst (rs_objects s))"

section \<open>Heads, metadata and idempotency\<close>

definition get_meta :: "rstore \<Rightarrow> string \<Rightarrow> bytes option" where
  "get_meta s key = map_of (rs_meta s) key"

definition set_meta :: "rstore \<Rightarrow> string \<Rightarrow> bytes \<Rightarrow> rstore" where
  "set_meta s key v = s\<lparr>rs_meta := bt_insert key v (rs_meta s)\<rparr>"

function chunks_of :: "nat \<Rightarrow> 'a list \<Rightarrow> 'a list list" where
  "chunks_of n xs = (if n = 0 \<or> length xs < n then [] else take n xs # chunks_of n (drop n xs))"
  by pat_completeness auto
termination by (relation "measure (\<lambda>(n, xs). length xs)") auto

declare chunks_of.simps [simp del]

definition rs_heads :: "rstore \<Rightarrow> oid list" where
  "rs_heads s = (case get_meta s ''heads'' of None \<Rightarrow> [] | Some v \<Rightarrow> chunks_of 32 v)"

definition set_heads :: "rstore \<Rightarrow> oid list \<Rightarrow> rstore" where
  "set_heads s heads = set_meta s ''heads'' (concat heads)"

definition idem_get :: "rstore \<Rightarrow> eid \<Rightarrow> bytes \<Rightarrow> oid option" where
  "idem_get s author idem =
     (case map_of (rs_idem s) (author @ idem) of
        None \<Rightarrow> None
      | Some v \<Rightarrow> (case oid_from_slice v of Inr i \<Rightarrow> Some i | Inl _ \<Rightarrow> None))"

definition idem_put :: "rstore \<Rightarrow> eid \<Rightarrow> bytes \<Rightarrow> oid \<Rightarrow> rstore" where
  "idem_put s author idem i = s\<lparr>rs_idem := bt_insert (author @ idem) i (rs_idem s)\<rparr>"

text \<open>What is left after the process is gone: the tables, without the batch.\<close>

definition crash :: "rstore \<Rightarrow> rstore" where
  "crash s = s\<lparr>rs_pending := None\<rparr>"

section \<open>Typed access, as the trait provides it\<close>

definition rs_put :: "(bytes \<Rightarrow> bytes) \<Rightarrow> (value \<Rightarrow> bytes res) \<Rightarrow> 'a codec \<Rightarrow> rstore \<Rightarrow> 'a \<Rightarrow> (rstore \<times> oid) res" where
  "rs_put blake ser c s x =
     rbind (encode blake ser c x) (\<lambda>(bs, i). Inr (rs_put_bytes blake s (tag_of c) bs))"

definition rs_get ::
  "(bytes \<Rightarrow> bytes) \<Rightarrow> (value \<Rightarrow> bytes res) \<Rightarrow> (bytes \<Rightarrow> value res) \<Rightarrow> 'a codec \<Rightarrow> rstore \<Rightarrow> oid \<Rightarrow> 'a res" where
  "rs_get blake ser de c s i =
     rbind (rs_get_bytes s i) (\<lambda>found.
     rbind (of_opt (NotFound i) found) (\<lambda>bs.
     if object_id blake (tag_of c) bs \<noteq> i then Inl StoreErr else decode ser de c bs))"

end
