(* ===== verification/Durable_Props.thy ===== *)
theory Durable_Props
  imports Durable
begin

text \<open>
  The durable store is the store in memory: with batches open or closed it answers alike, and what was
  written before a batch closed survives the end of the process.
\<close>

section \<open>Records\<close>

definition small_tag :: "string \<Rightarrow> bool" where
  "small_tag tag \<longleftrightarrow> plain_tag tag \<and> length tag < 256"

lemma split_make_record: "length tag < 256 \<Longrightarrow> split_record (make_record tag bs) = Inr (tag, bs)"
proof -
  assume "length tag < 256"
  then have "unat (of_nat (length tag) :: u8) = length tag" by (simp only: unat_of_nat) simp
  then show ?thesis by (simp add: split_record_def make_record_def)
qed

text \<open>A table files every record under its hash.\<close>

definition table_ok :: "(bytes \<Rightarrow> bytes) \<Rightarrow> (oid, bytes) btree \<Rightarrow> bool" where
  "table_ok blake t \<longleftrightarrow> bt_ok t \<and>
     (\<forall>i rec. map_of t i = Some rec \<longrightarrow> (\<exists>tag bs. small_tag tag \<and> rec = make_record tag bs \<and> i = object_id blake tag bs))"

definition payload :: "bytes \<Rightarrow> bytes" where
  "payload rec = (case split_record rec of Inr (_, bs) \<Rightarrow> bs | Inl _ \<Rightarrow> [])"

definition table_view :: "(oid, bytes) btree \<Rightarrow> mem_store" where
  "table_view t i = map_option payload (map_of t i)"

lemma table_okE:
  assumes "table_ok blake t" "map_of t i = Some rec"
  obtains tag bs where "small_tag tag" "rec = make_record tag bs" "i = object_id blake tag bs" "payload rec = bs"
proof -
  from assms obtain tag bs where r: "small_tag tag" "rec = make_record tag bs" "i = object_id blake tag bs"
    unfolding table_ok_def by blast
  then have "payload rec = bs" by (simp add: payload_def split_make_record small_tag_def)
  with r that show thesis by blast
qed

lemma read_payload_ok: "table_ok blake t \<Longrightarrow> map_of t i = Some rec \<Longrightarrow> read_payload rec = Inr (Some (payload rec))"
  by (erule (1) table_okE) (simp add: read_payload_def split_make_record small_tag_def)

lemma table_ok_insert:
  "table_ok blake t \<Longrightarrow> small_tag tag \<Longrightarrow> table_ok blake (bt_insert (object_id blake tag bs) (make_record tag bs) t)"
  by (auto simp: table_ok_def)

text \<open>Under one id two tables have one payload.\<close>

lemma tables_agree:
  assumes "inj blake" "table_ok blake t" "table_ok blake t'" "map_of t i = Some rec" "map_of t' i = Some rec'"
  shows "rec = rec'"
proof -
  obtain tag bs where 1: "small_tag tag" "rec = make_record tag bs" "i = object_id blake tag bs"
    by (rule table_okE [OF assms(2,4)])
  obtain tag' bs' where 2: "small_tag tag'" "rec' = make_record tag' bs'" "i = object_id blake tag' bs'"
    by (rule table_okE [OF assms(3,5)])
  from object_id_inject [OF assms(1), of tag tag' bs bs'] 1 2 show ?thesis by (simp add: small_tag_def)
qed

lemma write_absent_spec:
  assumes "inj blake" "table_ok blake batch" "table_ok blake t"
  shows "table_ok blake (write_absent batch t) \<and>
    (\<forall>i. map_of (write_absent batch t) i = (case map_of batch i of Some rec \<Rightarrow> Some rec | None \<Rightarrow> map_of t i))"
  using assms(2,3)
proof (induction batch arbitrary: t)
  case (Cons b batch)
  obtain i rec where b: "b = (i, rec)" by (cases b)
  let ?t = "case map_of t i of None \<Rightarrow> bt_insert i rec t | Some _ \<Rightarrow> t"
  have head: "map_of (b # batch) i = Some rec" and later: "map_of batch i = None"
    using Cons.prems(1) by (auto simp: b table_ok_def bt_ok_def map_of_eq_None_iff)
  obtain tag bs where r: "small_tag tag" "rec = make_record tag bs" "i = object_id blake tag bs"
    by (rule table_okE [OF Cons.prems(1) head])
  have "map_of (b # batch) j = Some r" if "map_of batch j = Some r" for j r
    using later that by (cases "j = i") (auto simp: b)
  then have rest: "table_ok blake batch"
    using Cons.prems(1) unfolding table_ok_def by (metis b bt_ok_Cons)
  have t: "table_ok blake ?t" using Cons.prems(2) r by (auto simp: table_ok_insert split: option.split)
  have "map_of ?t j = (if j = i then Some rec else map_of t j)" for j
    using tables_agree [OF assms(1) Cons.prems(1,2) head] by (auto split: option.split)
  moreover have "write_absent (b # batch) t = write_absent batch ?t" by (simp add: write_absent_def b)
  ultimately show ?case using Cons.IH [OF rest t] later by (auto simp: b split: option.split)
qed (simp add: write_absent_def)

section \<open>The view\<close>

definition rs_ok :: "(bytes \<Rightarrow> bytes) \<Rightarrow> rstore \<Rightarrow> bool" where
  "rs_ok blake s \<longleftrightarrow> table_ok blake (rs_objects s) \<and> (\<forall>batch. rs_pending s = Some batch \<longrightarrow> table_ok blake batch)"

definition rs_view :: "rstore \<Rightarrow> mem_store" where
  "rs_view s i =
     (case (case rs_pending s of None \<Rightarrow> None | Some batch \<Rightarrow> map_of batch i) of
        Some rec \<Rightarrow> Some (payload rec)
      | None \<Rightarrow> table_view (rs_objects s) i)"

lemma rs_get_bytes_view: "rs_ok blake s \<Longrightarrow> rs_get_bytes s i = Inr (get_bytes (rs_view s) i)"
  by (auto simp: rs_ok_def rs_get_bytes_def rs_view_def get_bytes_def table_view_def
      dest: read_payload_ok split: option.splits)

lemma rs_view_filed:
  assumes "rs_ok blake s" "rs_view s i = Some bs"
  shows "\<exists>tag. small_tag tag \<and> i = object_id blake tag bs"
proof -
  have "\<exists>t rec. table_ok blake t \<and> map_of t i = Some rec \<and> payload rec = bs"
  proof (cases "case rs_pending s of None \<Rightarrow> None | Some batch \<Rightarrow> map_of batch i")
    case None
    with assms show ?thesis by (auto simp: rs_view_def table_view_def rs_ok_def)
  next
    case (Some rec)
    then obtain batch where "rs_pending s = Some batch" "map_of batch i = Some rec" by (cases "rs_pending s") auto
    with assms show ?thesis by (auto simp: rs_view_def rs_ok_def)
  qed
  then obtain t rec where "table_ok blake t" "map_of t i = Some rec" "payload rec = bs" by blast
  then show ?thesis by (metis table_okE)
qed

lemma rs_view_tables [simp]:
  "rs_view (rs_meta_update f s) = rs_view s" "rs_view (rs_idem_update g s) = rs_view s"
  by (simp_all add: rs_view_def [abs_def] fun_eq_iff split: option.split)

lemma rs_ok_tables [simp]:
  "rs_ok blake (rs_meta_update f s) = rs_ok blake s" "rs_ok blake (rs_idem_update g s) = rs_ok blake s"
  by (simp_all add: rs_ok_def)

text \<open>Writing is writing to the view.\<close>

lemma rs_put_bytes_refines:
  assumes "inj blake" "rs_ok blake s" "small_tag tag"
  shows "rs_ok blake (fst (rs_put_bytes blake s tag bs)) \<and>
    rs_view (fst (rs_put_bytes blake s tag bs)) = fst (put_bytes blake (rs_view s) tag bs) \<and>
    snd (rs_put_bytes blake s tag bs) = snd (put_bytes blake (rs_view s) tag bs)"
proof -
  let ?i = "object_id blake tag bs" and ?rec = "make_record tag bs"
  have same: "b = bs" if found: "rs_view s ?i = Some b" for b
  proof -
    obtain tag' where "small_tag tag'" "?i = object_id blake tag' b" using rs_view_filed [OF assms(2) found] by blast
    with object_id_inject [OF assms(1), of tag tag' bs b] assms(3) show ?thesis by (simp add: small_tag_def)
  qed
  then have put: "fst (put_bytes blake (rs_view s) tag bs) = (rs_view s)(?i \<mapsto> bs)"
    by (cases "rs_view s ?i") (auto simp: put_bytes_def Let_def)
  have pay: "payload ?rec = bs" using assms(3) by (simp add: payload_def split_make_record small_tag_def)
  have objects: "table_ok blake (rs_objects s)" using assms(2) by (simp add: rs_ok_def)
  show ?thesis
  proof (cases "rs_pending s")
    case None
    have one: "table_ok blake [(?i, ?rec)]" using assms(3) by (auto simp: table_ok_def)
    note spec = write_absent_spec [OF assms(1) one objects]
    have "rs_view (fst (rs_put_bytes blake s tag bs)) = (rs_view s)(?i \<mapsto> bs)"
      using spec pay by (auto simp: fun_eq_iff rs_put_bytes_def Let_def None rs_view_def table_view_def)
    then show ?thesis
      using spec put by (simp add: rs_ok_def rs_put_bytes_def put_bytes_def Let_def None)
  next
    case (Some batch)
    have batch: "table_ok blake batch" using assms(2) Some by (simp add: rs_ok_def)
    let ?batch = "case map_of batch ?i of None \<Rightarrow> bt_insert ?i ?rec batch | Some _ \<Rightarrow> batch"
    have ok: "table_ok blake ?batch" using table_ok_insert [OF batch assms(3)] batch by (simp split: option.split)
    have old: "payload r = bs" if "map_of batch ?i = Some r" for r
      using same [of "payload r"] that by (simp add: rs_view_def Some)
    have "rs_view (fst (rs_put_bytes blake s tag bs)) = (rs_view s)(?i \<mapsto> bs)"
      using pay old by (auto simp: fun_eq_iff rs_put_bytes_def Let_def Some rs_view_def split: option.splits)
    then show ?thesis
      using ok objects put by (simp add: rs_ok_def rs_put_bytes_def put_bytes_def Let_def Some)
  qed
qed

lemma begin_batch_view: "rs_ok blake s \<Longrightarrow> rs_ok blake (begin_batch s) \<and> rs_view (begin_batch s) = rs_view s"
  by (cases "rs_pending s") (auto simp: begin_batch_def rs_ok_def rs_view_def table_ok_def fun_eq_iff)

lemma end_batch_view:
  assumes "inj blake" "rs_ok blake s"
  shows "rs_ok blake (fst (end_batch s)) \<and> rs_view (fst (end_batch s)) = rs_view s \<and> rs_pending (fst (end_batch s)) = None"
proof (cases "rs_pending s")
  case (Some batch)
  have "table_ok blake batch" "table_ok blake (rs_objects s)" using assms(2) Some by (simp_all add: rs_ok_def)
  from write_absent_spec [OF assms(1) this] show ?thesis
    by (auto simp: end_batch_def Some rs_ok_def rs_view_def table_view_def fun_eq_iff split: option.split)
qed (use assms in \<open>simp add: end_batch_def\<close>)

section \<open>Runs\<close>

datatype store_call =
    PutBytes string bytes | BeginBatch | EndBatch | SetMeta string bytes | SetHeads "oid list" | IdemPut eid bytes oid

fun rs_call :: "(bytes \<Rightarrow> bytes) \<Rightarrow> store_call \<Rightarrow> rstore \<Rightarrow> rstore" where
  "rs_call blake (PutBytes tag bs) s = fst (rs_put_bytes blake s tag bs)"
| "rs_call blake BeginBatch s = begin_batch s"
| "rs_call blake EndBatch s = fst (end_batch s)"
| "rs_call blake (SetMeta k v) s = set_meta s k v"
| "rs_call blake (SetHeads hs) s = set_heads s hs"
| "rs_call blake (IdemPut a k i) s = idem_put s a k i"

fun mem_call :: "(bytes \<Rightarrow> bytes) \<Rightarrow> store_call \<Rightarrow> mem_store \<Rightarrow> mem_store" where
  "mem_call blake (PutBytes tag bs) s = fst (put_bytes blake s tag bs)"
| "mem_call blake _ s = s"

fun small_call :: "store_call \<Rightarrow> bool" where
  "small_call (PutBytes tag bs) \<longleftrightarrow> small_tag tag"
| "small_call _ \<longleftrightarrow> True"

lemma rs_call_refines:
  assumes "inj blake" "rs_ok blake s" "small_call c"
  shows "rs_ok blake (rs_call blake c s) \<and> rs_view (rs_call blake c s) = mem_call blake c (rs_view s)"
proof (cases c)
  case (PutBytes tag bs)
  with rs_put_bytes_refines [OF assms(1,2), of tag bs] assms(3) show ?thesis by simp
next
  case BeginBatch
  with begin_batch_view [OF assms(2)] show ?thesis by simp
next
  case EndBatch
  with end_batch_view [OF assms(1,2)] show ?thesis by simp
qed (use assms in \<open>simp_all add: set_heads_def set_meta_def idem_put_def\<close>)

lemma rs_run_refines:
  "inj blake \<Longrightarrow> rs_ok blake s \<Longrightarrow> list_all small_call cs \<Longrightarrow>
   rs_ok blake (fold (rs_call blake) cs s) \<and> rs_view (fold (rs_call blake) cs s) = fold (mem_call blake) cs (rs_view s)"
proof (induction cs arbitrary: s)
  case (Cons c cs)
  then have "small_call c" by simp
  from rs_call_refines [OF Cons.prems(1,2) this] Cons show ?case by simp
qed simp

lemma rs_ok_new: "rs_ok blake rs_new" "rs_view rs_new = mem_new"
  by (simp_all add: rs_new_def rs_ok_def table_ok_def rs_view_def table_view_def mem_new_def fun_eq_iff)

text \<open>C33: the durable store answers as the store in memory does after any sequence of calls, with batches
  opened and closed anywhere: what was put is read, what was not is absent, and reading never fails.\<close>

theorem durable_refines_memory:
  assumes "inj blake" and "list_all small_call cs"
  shows "rs_get_bytes (fold (rs_call blake) cs rs_new) i = Inr (get_bytes (fold (mem_call blake) cs mem_new) i)"
  using rs_run_refines [OF assms(1) rs_ok_new(1) assms(2)] rs_get_bytes_view [of blake "fold (rs_call blake) cs rs_new" i]
  by (simp add: rs_ok_new)

section \<open>What survives\<close>

lemma rs_objects_grow:
  assumes "inj blake" "rs_ok blake s" "small_call c" "map_of (rs_objects s) i = Some rec"
  shows "map_of (rs_objects (rs_call blake c s)) i = Some rec"
proof (cases c)
  case (PutBytes tag bs)
  let ?j = "object_id blake tag bs"
  have ok: "table_ok blake (rs_objects s)" using assms(2) by (simp add: rs_ok_def)
  have one: "table_ok blake [(?j, make_record tag bs)]" using assms(3) PutBytes by (auto simp: table_ok_def)
  have "rec = make_record tag bs" if "i = ?j"
    using tables_agree [OF assms(1) ok one assms(4)] that by simp
  with write_absent_spec [OF assms(1) one ok] assms(4) show ?thesis
    by (auto simp: PutBytes rs_put_bytes_def Let_def split: option.split)
next
  case EndBatch
  show ?thesis
  proof (cases "rs_pending s")
    case (Some batch)
    have ok: "table_ok blake batch" "table_ok blake (rs_objects s)" using assms(2) Some by (simp_all add: rs_ok_def)
    have "map_of batch i = Some r \<Longrightarrow> r = rec" for r using tables_agree [OF assms(1) ok] assms(4) by blast
    with write_absent_spec [OF assms(1) ok] assms(4) show ?thesis
      by (auto simp: EndBatch end_batch_def Some split: option.split)
  qed (use assms in \<open>simp add: EndBatch end_batch_def\<close>)
qed (use assms in \<open>simp_all add: begin_batch_def set_heads_def set_meta_def idem_put_def split: option.split\<close>)

lemma rs_run_grow:
  "inj blake \<Longrightarrow> rs_ok blake s \<Longrightarrow> list_all small_call cs \<Longrightarrow> map_of (rs_objects s) i = Some rec \<Longrightarrow>
   map_of (rs_objects (fold (rs_call blake) cs s)) i = Some rec"
proof (induction cs arbitrary: s)
  case (Cons c cs)
  then have c: "small_call c" by simp
  have "rs_ok blake (rs_call blake c s)" using rs_call_refines [OF Cons.prems(1,2) c] by blast
  with Cons.IH [OF Cons.prems(1) this] rs_objects_grow [OF Cons.prems(1,2) c Cons.prems(4)] Cons.prems(3)
  show ?case by simp
qed simp

text \<open>C34: what was in the store when a batch closed is in it for good: whatever is called afterwards, and when
  the process ends in the middle of a batch, the object is read from the tables that are left.\<close>

theorem closed_batch_is_durable:
  assumes "inj blake" and "list_all small_call cs" and "list_all small_call ds"
    and "get_bytes (fold (mem_call blake) cs mem_new) i = Some bs"
  shows "rs_get_bytes (crash (fold (rs_call blake) (cs @ [EndBatch] @ ds) rs_new)) i = Inr (Some bs)"
proof -
  let ?s = "fold (rs_call blake) cs rs_new"
  let ?e = "fst (end_batch ?s)"
  have s: "rs_ok blake ?s" "rs_view ?s = fold (mem_call blake) cs mem_new"
    using rs_run_refines [OF assms(1) rs_ok_new(1) assms(2)] by (simp_all add: rs_ok_new)
  have e: "rs_ok blake ?e" "rs_view ?e = rs_view ?s" "rs_pending ?e = None"
    using end_batch_view [OF assms(1) s(1)] by simp_all
  have "rs_view ?e i = Some bs" using assms(4) s(2) e(2) by (simp add: get_bytes_def)
  then obtain rec where rec: "map_of (rs_objects ?e) i = Some rec" "payload rec = bs"
    using e(3) by (auto simp: rs_view_def table_view_def)
  let ?f = "fold (rs_call blake) ds ?e"
  have f: "rs_ok blake ?f" "map_of (rs_objects ?f) i = Some rec"
    using rs_run_refines [OF assms(1) e(1) assms(3)] rs_run_grow [OF assms(1) e(1) assms(3) rec(1)] by simp_all
  have "rs_ok blake (crash ?f)" using f(1) by (simp add: rs_ok_def crash_def)
  moreover have "rs_view (crash ?f) i = Some bs" using f(2) rec(2) by (simp add: rs_view_def crash_def table_view_def)
  ultimately show ?thesis using rs_get_bytes_view [of blake "crash ?f" i] by (simp add: get_bytes_def)
qed

section \<open>Heads and idempotency\<close>

lemma chunks_of_concat: "\<forall>x \<in> set xs. length x = n \<Longrightarrow> 0 < n \<Longrightarrow> chunks_of n (concat xs) = xs"
  by (induction xs) (auto simp: chunks_of.simps)

text \<open>The heads of the log and the operation of an idempotency key are read back as they were written,
  and a key of one author never answers for another.\<close>

theorem heads_and_keys_round_trip:
  assumes "\<forall>h \<in> set hs. length h = 32" and "length i = 32" and "length a = 16" and "length a' = 16"
  shows "rs_heads (set_heads s hs) = hs \<and>
    idem_get (idem_put s a k i) a' k' = (if a = a' \<and> k = k' then Some i else idem_get s a' k')"
  using assms by (auto simp: rs_heads_def set_heads_def set_meta_def get_meta_def chunks_of_concat
      idem_get_def idem_put_def oid_from_slice_def)

section \<open>The contract of the trie\<close>

lemma rs_get_view: "rs_ok blake s \<Longrightarrow> rs_get blake ser de c s i = mem_get blake ser de c (rs_view s) i"
  by (simp add: rs_get_def mem_get_def rs_get_bytes_view get_bytes_def)

lemma rs_put_view:
  assumes "inj blake" "rs_ok blake s" "small_tag (tag_of c)"
  shows "rs_put blake ser c s x = Inr (s', i) \<Longrightarrow> rs_ok blake s' \<and> mem_put blake ser c (rs_view s) x = Inr (rs_view s', i)"
proof -
  assume put: "rs_put blake ser c s x = Inr (s', i)"
  then obtain bs j where "encode blake ser c x = Inr (bs, j)" "rs_put_bytes blake s (tag_of c) bs = (s', i)"
    by (auto simp: rs_put_def result_simps)
  with rs_put_bytes_refines [OF assms, of bs] show ?thesis
    by (auto simp: mem_put_def prod_eq_iff)
qed

definition rs_sound :: "(bytes \<Rightarrow> bytes) \<Rightarrow> (value \<Rightarrow> bytes res) \<Rightarrow> (bytes \<Rightarrow> value res) \<Rightarrow> 'a codec \<Rightarrow> bool" where
  "rs_sound blake ser de c \<longleftrightarrow> mem_sound blake ser de c \<and> small_tag (tag_of c)"

definition rs_valid :: "(bytes \<Rightarrow> bytes) \<Rightarrow> (value \<Rightarrow> bytes res) \<Rightarrow> (bytes \<Rightarrow> value res) \<Rightarrow> 'a codec \<Rightarrow> rstore \<Rightarrow> bool" where
  "rs_valid blake ser de c s \<longleftrightarrow> rs_ok blake s \<and> mem_ok blake ser de c (rs_view s)"

text \<open>The durable store keeps the contract by which the trie reads and writes its nodes.\<close>

interpretation durable: node_store "rs_put blake ser c" "rs_get blake ser de c" "mem_addr blake ser c"
  "rs_valid blake ser de c" "rs_sound blake ser de c" for blake ser de c
proof
  fix s n assume sound: "rs_sound blake ser de c"
  then obtain bs where "encode blake ser c n = Inr (bs, object_id blake (tag_of c) bs)"
    unfolding rs_sound_def mem_sound_def by blast
  then show "\<exists>s'. rs_put blake ser c s n = Inr (s', mem_addr blake ser c n)"
    by (cases "rs_put_bytes blake s (tag_of c) bs")
       (auto simp: rs_put_def mem_addr_def rs_put_bytes_def Let_def split: option.splits)
next
  fix s n s' i
  assume A: "rs_sound blake ser de c" "rs_valid blake ser de c s" "rs_put blake ser c s n = Inr (s', i)"
  then have pre: "inj blake" "rs_ok blake s" "small_tag (tag_of c)" "mem_sound blake ser de c" "mem_ok blake ser de c (rs_view s)"
    by (auto simp: rs_sound_def rs_valid_def mem_sound_def)
  from rs_put_view [OF pre(1-3) A(3)] have s': "rs_ok blake s'" "mem_put blake ser c (rs_view s) n = Inr (rs_view s', i)" by auto
  show "rs_valid blake ser de c s'" using s' mem.put_ok [OF pre(4,5) s'(2)] by (simp add: rs_valid_def)
  show "rs_get blake ser de c s' i = Inr n" using mem.get_put [OF pre(4,5) s'(2)] by (simp add: rs_get_view [OF s'(1)])
  fix j m assume "rs_get blake ser de c s j = Inr m"
  with mem.get_mono [OF pre(4,5) s'(2)] show "rs_get blake ser de c s' j = Inr m"
    by (simp add: rs_get_view [OF s'(1)] rs_get_view [OF pre(2)])
next
  fix s i n
  assume "rs_sound blake ser de c" "rs_valid blake ser de c s" "rs_get blake ser de c s i = Inr n"
  then show "i = mem_addr blake ser c n"
    using mem.get_addr [of blake ser de c "rs_view s" i n] by (simp add: rs_sound_def rs_valid_def rs_get_view)
qed

section \<open>A concrete run\<close>

definition store_calls :: "store_call list" where
  "store_calls = [PutBytes ''blob'' [1], BeginBatch, PutBytes ''tree'' [2], PutBytes ''blob'' [1]]"

lemma store_calls_small: "list_all small_call store_calls" "list_all small_call [BeginBatch, PutBytes ''blob'' [3]]"
  by code_simp+

lemma store_calls_mem:
  "get_bytes (fold (mem_call id) store_calls mem_new) (object_id id ''tree'' [2]) = Some [2]"
  by code_simp

theorem durable_refines_memory_witness:
  "rs_get_bytes (fold (rs_call id) store_calls rs_new) (object_id id ''tree'' [2]) = Inr (Some [2])"
  using durable_refines_memory [OF inj_on_id store_calls_small(1), of "object_id id ''tree'' [2]"]
  by (simp add: store_calls_mem)

theorem closed_batch_is_durable_witness:
  "rs_get_bytes (crash (fold (rs_call id) (store_calls @ [EndBatch] @ [BeginBatch, PutBytes ''blob'' [3]]) rs_new))
     (object_id id ''tree'' [2]) = Inr (Some [2])"
  by (rule closed_batch_is_durable [OF inj_on_id store_calls_small store_calls_mem])

theorem heads_and_keys_round_trip_witness:
  "rs_heads (set_heads rs_new [replicate 32 1, replicate 32 2]) = [replicate 32 1, replicate 32 2]"
  using heads_and_keys_round_trip [of "[replicate 32 1, replicate 32 2]" "replicate 32 3" "replicate 16 4" "replicate 16 5" rs_new]
  by simp

text \<open>Reading the bytes of an object sees what a batch holds; reading it with its tag does not.\<close>

lemma get_tagged_misses_batch:
  "let (s, i) = rs_put_bytes id (begin_batch rs_new) ''blob'' [1]
   in rs_get_bytes s i = Inr (Some [1]) \<and> get_tagged s i = Inr None"
  by code_simp

end
