(* ===== verification/Trees.thy ===== *)
theory Trees
  imports Verify
begin

text \<open>
  Trees as maps of paths: \<open>crates/tessra-daemon/src/tree.rs\<close>.

  \<open>entries\<close> of that file is the function \<open>load_entries\<close> of the theory of verification, which the code
  repeats. The walk is a partial function, since stored trees are not known to be without cycles. Emitting
  a directory threads the store through its subdirectories.
\<close>

record leaf =
  lf_kind :: entry_kind
  lf_mode :: "u8 option"
  lf_ref :: "oid option"
  lf_terms :: "conflict_term list option"

definition leaf_file :: "oid \<Rightarrow> bool \<Rightarrow> leaf" where
  "leaf_file i executable =
     \<lparr>lf_kind = File, lf_mode = Some (if executable then 1 else 0), lf_ref = Some i, lf_terms = None\<rparr>"

definition leaf_is_conflict :: "leaf \<Rightarrow> bool" where
  "leaf_is_conflict l \<longleftrightarrow> lf_kind l = KConflict"

type_synonym flat = "(string, leaf) btree"

section \<open>From a tree to its paths\<close>

definition leaf_of :: "tree_entry \<Rightarrow> leaf" where
  "leaf_of e = \<lparr>lf_kind = te_kind e, lf_mode = te_mode e, lf_ref = te_ref e, lf_terms = te_terms e\<rparr>"

partial_function (option) walk_tree :: "ext \<Rightarrow> objs \<Rightarrow> oid \<Rightarrow> string \<Rightarrow> flat \<Rightarrow> flat res option" where
  "walk_tree x s i prefix out =
     obind (Some (load_entries x s i)) (\<lambda>es.
     ofold (\<lambda>e out.
         if te_kind e = Dir
         then (case te_ref e of
                 Some r \<Rightarrow> walk_tree x s r (join_path prefix (te_name e)) out
               | None \<Rightarrow> Some (Inr out))
         else Some (Inr (bt_insert (join_path prefix (te_name e)) (leaf_of e) out)))
       es out)"

definition flatten :: "ext \<Rightarrow> objs \<Rightarrow> oid \<Rightarrow> flat res" where
  "flatten x s i = returned (walk_tree x s i [] [])"

section \<open>From paths to a tree\<close>

datatype dir = Directory "tree_entry list" "(string \<times> dir) list"

definition entry_of :: "string \<Rightarrow> leaf \<Rightarrow> tree_entry" where
  "entry_of name l =
     \<lparr>te_name = name, te_kind = lf_kind l, te_mode = lf_mode l, te_ref = lf_ref l, te_terms = lf_terms l\<rparr>"

fun dir_put :: "string list \<Rightarrow> leaf \<Rightarrow> dir \<Rightarrow> dir" where
  "dir_put [] l d = d"
| "dir_put [name] l (Directory files dirs) = Directory (files @ [entry_of name l]) dirs"
| "dir_put (p # q # ps) l (Directory files dirs) =
     Directory files
       (bt_insert p (dir_put (q # ps) l (case map_of dirs p of Some d \<Rightarrow> d | None \<Rightarrow> Directory [] [])) dirs)"

definition dir_entry :: "string \<Rightarrow> oid \<Rightarrow> tree_entry" where
  "dir_entry name i = \<lparr>te_name = name, te_kind = Dir, te_mode = None, te_ref = Some i, te_terms = None\<rparr>"

fun put_shards :: "ext \<Rightarrow> objs \<Rightarrow> tree_entry list list \<Rightarrow> objs \<times> oid option list" where
  "put_shards x s [] = (s, [])"
| "put_shards x s (b # bs) =
     (if b = [] then (case put_shards x s bs of (s, is) \<Rightarrow> (s, None # is))
      else (case obj_put (ext_hash x) s (OTree (tree_flat b)) of
              (s, i) \<Rightarrow> (case put_shards x s bs of (s, is) \<Rightarrow> (s, Some i # is))))"

definition shard_buckets :: "ext \<Rightarrow> tree_entry list \<Rightarrow> tree_entry list list" where
  "shard_buckets x es = map (\<lambda>k. filter (\<lambda>e. unat (shard_slot (ext_blake x) (te_name e)) = k) es) [0..<256]"

definition put_entries :: "ext \<Rightarrow> objs \<Rightarrow> tree_entry list \<Rightarrow> objs \<times> oid" where
  "put_entries x s es =
     (if shard_threshold < length es
      then (case put_shards x s (shard_buckets x es) of
              (s, shards) \<Rightarrow> obj_put (ext_hash x) s (OTree \<lparr>tree_entries = None, tree_shards = Some shards\<rparr>))
      else obj_put (ext_hash x) s (OTree (tree_flat es)))"

fun emit :: "ext \<Rightarrow> objs \<Rightarrow> dir \<Rightarrow> objs \<times> oid"
and emit_dirs :: "ext \<Rightarrow> objs \<Rightarrow> (string \<times> dir) list \<Rightarrow> objs \<times> tree_entry list" where
  "emit x s (Directory files dirs) =
     (case emit_dirs x s dirs of (s, es) \<Rightarrow> put_entries x s (files @ es))"
| "emit_dirs x s [] = (s, [])"
| "emit_dirs x s ((name, d) # ds) =
     (case emit x s d of
        (s, i) \<Rightarrow> (case emit_dirs x s ds of (s, es) \<Rightarrow> (s, dir_entry name i # es)))"

definition dir_of_flat :: "flat \<Rightarrow> dir" where
  "dir_of_flat flat = fold (\<lambda>(path, l) d. dir_put (split_on (CHR ''/'') path) l d) flat (Directory [] [])"

definition build_tree :: "ext \<Rightarrow> objs \<Rightarrow> flat \<Rightarrow> objs \<times> oid" where
  "build_tree x s flat = emit x s (dir_of_flat flat)"

section \<open>Merging by paths\<close>

definition side_term :: "int \<Rightarrow> leaf \<Rightarrow> conflict_term" where
  "side_term sign l =
     \<lparr>ct_sign = sign, ct_kind = lf_kind l, ct_mode = lf_mode l,
      ct_ref = (case lf_ref l of Some i \<Rightarrow> i | None \<Rightarrow> replicate 32 0)\<rparr>"

definition positive_terms :: "conflict_term list \<Rightarrow> nat" where
  "positive_terms ts = length (filter (\<lambda>t. 0 < ct_sign t) ts)"

definition negative_terms :: "conflict_term list \<Rightarrow> nat" where
  "negative_terms ts = length (filter (\<lambda>t. ct_sign t < 0) ts)"

definition empty_add :: "(bytes \<Rightarrow> bytes) \<Rightarrow> conflict_term" where
  "empty_add blake = \<lparr>ct_sign = 1, ct_kind = File, ct_mode = Some 0, ct_ref = blob_id blake []\<rparr>"

lemma terms_snoc [simp]:
  "positive_terms (ts @ [t]) = positive_terms ts + (if 0 < ct_sign t then 1 else 0)"
  "negative_terms (ts @ [t]) = negative_terms ts + (if ct_sign t < 0 then 1 else 0)"
  by (simp_all add: positive_terms_def negative_terms_def)

lemma empty_add_sign [simp]: "ct_sign (empty_add blake) = 1"
  by (simp add: empty_add_def)

function pad_terms :: "(bytes \<Rightarrow> bytes) \<Rightarrow> conflict_term list \<Rightarrow> conflict_term list" where
  "pad_terms blake ts =
     (if positive_terms ts < negative_terms ts + 1 then pad_terms blake (ts @ [empty_add blake]) else ts)"
  by pat_completeness auto
termination by (relation "measure (\<lambda>(blake, ts). negative_terms ts + 1 - positive_terms ts)") auto

declare pad_terms.simps [simp del]

definition opt_list :: "'a option \<Rightarrow> 'a list" where
  "opt_list m = (case m of None \<Rightarrow> [] | Some x \<Rightarrow> [x])"

definition conflict_terms :: "(bytes \<Rightarrow> bytes) \<Rightarrow> leaf option \<Rightarrow> leaf option \<Rightarrow> leaf option \<Rightarrow> conflict_term list" where
  "conflict_terms blake lb la lb2 =
     pad_terms blake (map (side_term (- 1)) (opt_list lb) @ map (side_term 1) (opt_list la @ opt_list lb2))"

definition pick_leaf :: "(bytes \<Rightarrow> bytes) \<Rightarrow> leaf option \<Rightarrow> leaf option \<Rightarrow> leaf option \<Rightarrow> leaf option \<times> bool" where
  "pick_leaf blake lb la lb2 =
     (if la = lb then (lb2, False)
      else if lb2 = lb \<or> la = lb2 then (la, False)
      else (Some \<lparr>lf_kind = KConflict, lf_mode = None, lf_ref = None,
                  lf_terms = Some (conflict_terms blake lb la lb2)\<rparr>, True))"

definition merge_paths :: "(bytes \<Rightarrow> bytes) \<Rightarrow> flat \<Rightarrow> flat \<Rightarrow> flat \<Rightarrow> flat \<times> string list" where
  "merge_paths blake base a b =
     fold (\<lambda>p (out, conflicts).
         case pick_leaf blake (map_of base p) (map_of a p) (map_of b p) of
           (pick, clash) \<Rightarrow>
             (case pick of None \<Rightarrow> out | Some l \<Rightarrow> bt_insert p l out, if clash then conflicts @ [p] else conflicts))
       (btree_list (map fst base @ map fst a @ map fst b)) ([], [])"

end
