(* ===== verification/Tree_Props.thy ===== *)
theory Tree_Props
  imports Trees
begin

text \<open>
  Building a tree and flattening it give the paths back; the merge of paths is decided path by path.

  The round trip goes through the directories as a relation between part lists and leaves, \<open>at_dir\<close>.
  Inserting a path adds one pair to it, and walking an emitted directory updates the map of paths with
  exactly its pairs, whatever the store grew to in between and however the entries were sharded.
\<close>

section \<open>Paths and their parts\<close>

lemma split_on_path: "s = hd (split_on c s) @ concat (map (\<lambda>p. c # p) (tl (split_on c s)))"
proof (induction s)
  case (Cons y s)
  then show ?case by (cases "split_on c s") auto
qed simp

lemma split_on_sep_free: "p \<in> set (split_on c s) \<Longrightarrow> c \<notin> set p"
proof (induction s arbitrary: p)
  case (Cons y s)
  then show ?case by (cases "split_on c s") (auto split: if_splits)
qed simp

lemma foldl_join: "prefix \<noteq> [] \<Longrightarrow> foldl join_path prefix ps = prefix @ concat (map (\<lambda>p. CHR ''/'' # p) ps)"
  by (induction ps arbitrary: prefix) (simp_all add: join_path_def)

definition rooted :: "string \<Rightarrow> bool" where
  "rooted path \<longleftrightarrow> path \<noteq> [] \<and> hd path = CHR ''/''"

lemma join_split:
  assumes "\<not> rooted path"
  shows "foldl join_path [] (split_on (CHR ''/'') path) = path"
proof -
  obtain p ps where ps: "split_on (CHR ''/'') path = p # ps" by (cases "split_on (CHR ''/'') path") simp_all
  have path: "path = p @ concat (map (\<lambda>p. CHR ''/'' # p) ps)" using split_on_path [of path "CHR ''/''"] ps by simp
  show ?thesis
  proof (cases "p = []")
    case True
    with assms path ps have "ps = []" by (cases ps) (auto simp: rooted_def)
    with True path ps show ?thesis by (simp add: join_path_def)
  next
    case False
    with path ps show ?thesis by (simp add: foldl_join) (simp add: join_path_def foldl_join)
  qed
qed

section \<open>The leaves of a directory\<close>

inductive at_dir :: "dir \<Rightarrow> string list \<Rightarrow> leaf \<Rightarrow> bool" where
  at_file: "e \<in> set fs \<Longrightarrow> at_dir (Directory fs ds) [te_name e] (leaf_of e)"
| at_sub: "map_of ds n = Some d \<Longrightarrow> at_dir d ps l \<Longrightarrow> at_dir (Directory fs ds) (n # ps) l"

inductive_simps at_dir_simps: "at_dir (Directory fs ds) ps l"

lemma at_dir_not_Nil [simp]: "\<not> at_dir d [] l"
  by (cases d) (simp add: at_dir_simps)

lemma leaf_of_entry [simp]: "leaf_of (entry_of n l) = l" "te_name (entry_of n l) = n" "te_kind (entry_of n l) = lf_kind l"
  by (simp_all add: leaf_of_def entry_of_def)

lemma at_dir_put:
  "ps \<noteq> [] \<Longrightarrow> at_dir (dir_put ps l d) qs l' \<longleftrightarrow> ps = qs \<and> l = l' \<or> at_dir d qs l'"
proof (induction ps l d arbitrary: qs rule: dir_put.induct)
  case (2 name l fs ds)
  have "(\<exists>e. qs = [te_name e] \<and> l' = leaf_of e \<and> (e = entry_of name l \<or> e \<in> set fs)) \<longleftrightarrow>
      [name] = qs \<and> l = l' \<or> (\<exists>e. qs = [te_name e] \<and> l' = leaf_of e \<and> e \<in> set fs)"
    using leaf_of_entry by metis
  then show ?case by (auto simp: at_dir_simps)
next
  case (3 p q ps l fs ds)
  let ?sub = "case map_of ds p of Some d \<Rightarrow> d | None \<Rightarrow> Directory [] []"
  have sub: "at_dir ?sub rs l' \<longleftrightarrow> (\<exists>d. map_of ds p = Some d \<and> at_dir d rs l')" for rs
    by (auto simp: at_dir_simps split: option.split)
  show ?case
    by (cases qs) (auto simp: at_dir_simps 3 sub)
qed simp

fun dir_ok :: "dir \<Rightarrow> bool" where
  "dir_ok (Directory fs ds) \<longleftrightarrow>
     (\<forall>e \<in> set fs. te_kind e \<noteq> Dir) \<and> bt_ok ds \<and> (\<forall>nd \<in> set ds. dir_ok (snd nd))"

lemma set_bt_insert_sub: "set (bt_insert k v m) \<subseteq> insert (k, v) (set m)"
  by (induction k v m rule: bt_insert.induct) auto

lemma dir_ok_put: "dir_ok d \<Longrightarrow> lf_kind l \<noteq> Dir \<Longrightarrow> dir_ok (dir_put ps l d)"
proof (induction ps l d rule: dir_put.induct)
  case (3 p q ps l fs ds)
  let ?sub = "case map_of ds p of Some d \<Rightarrow> d | None \<Rightarrow> Directory [] []"
  have "dir_ok ?sub"
    using 3(2) by (force split: option.split dest: map_of_SomeD)
  then have "dir_ok (dir_put (q # ps) l ?sub)" using 3 by blast
  then show ?case
    using 3(2) set_bt_insert_sub [of p "dir_put (q # ps) l ?sub" ds] by fastforce
qed auto

lemma dir_of_flat_ok:
  assumes "\<forall>(p, l) \<in> set flat. lf_kind l \<noteq> Dir" and "dir_ok d"
  shows "dir_ok (fold (\<lambda>(path, l) d. dir_put (split_on (CHR ''/'') path) l d) flat d)"
  using assms by (induction flat arbitrary: d) (auto simp: dir_ok_put)

lemma at_dir_of_flat:
  "at_dir (fold (\<lambda>(path, l) d. dir_put (split_on (CHR ''/'') path) l d) flat d) qs l' \<longleftrightarrow>
     (\<exists>path. (path, l') \<in> set flat \<and> qs = split_on (CHR ''/'') path) \<or> at_dir d qs l'"
  by (induction flat arbitrary: d) (auto simp: at_dir_put)

section \<open>What emitting stores\<close>

definition tree_hash_sound :: "(obj \<Rightarrow> oid) \<Rightarrow> bool" where
  "tree_hash_sound h \<longleftrightarrow> (\<forall>t y. h y = h (OTree t) \<longrightarrow> y = OTree t)"

lemma put_tree:
  assumes "tree_hash_sound h" and "objs_ok h s" and "obj_put h s (OTree t) = (s', i)"
  shows "objs_ok h s' \<and> kept s s'" and "kept s' s'' \<Longrightarrow> obj_get h as_tree s'' i = Inr t"
proof -
  have s': "s' = fst (obj_put h s (OTree t))" and i: "i = h (OTree t)"
    using assms(3) by (auto simp: obj_put_def)
  show "objs_ok h s' \<and> kept s s'" using assms(2) by (simp add: s' objs_ok_put)
  have "s' i = Some (OTree t)"
    unfolding s' i using assms(1,2) by (intro obj_put_stored) (auto simp: tree_hash_sound_def)
  then show "kept s' s'' \<Longrightarrow> obj_get h as_tree s'' i = Inr t"
    by (simp add: obj_get_Inr_iff kept_def i)
qed

lemma set_sort_key [simp]: "set (sort_key f xs) = set xs"
  by simp

definition load_shard :: "ext \<Rightarrow> objs \<Rightarrow> oid \<Rightarrow> tree_entry list \<Rightarrow> tree_entry list res" where
  "load_shard x s shard all =
     rbind (obj_get (ext_hash x) as_tree s shard) (\<lambda>st.
     Inr (all @ (case tree_entries st of None \<Rightarrow> [] | Some es \<Rightarrow> es)))"

lemma load_entries_cases:
  assumes "obj_get (ext_hash x) as_tree s i = Inr t"
  shows "tree_entries t = Some es \<Longrightarrow> load_entries x s i = Inr es"
    and "tree_entries t = None \<Longrightarrow> tree_shards t = Some sh \<Longrightarrow>
      rfold (load_shard x s) (List.map_filter id sh) [] = Inr all \<Longrightarrow> load_entries x s i = Inr (sort_key te_name all)"
  using assms by (simp_all add: load_entries_def load_shard_def [abs_def])

lemma put_shards_loads:
  assumes "tree_hash_sound (ext_hash x)" and "objs_ok (ext_hash x) s" and "put_shards x s bs = (s', is)"
  shows "objs_ok (ext_hash x) s' \<and> kept s s' \<and>
    (\<forall>s'' all. kept s' s'' \<longrightarrow> (\<exists>all'. rfold (load_shard x s'') (List.map_filter id is) all = Inr all' \<and> set all' = set all \<union> \<Union> (set ` set bs)))"
  using assms(2,3)
proof (induction bs arbitrary: s s' "is")
  case Nil
  then show ?case by (auto simp: map_filter_simps)
next
  case (Cons b bs)
  show ?case
  proof (cases "b = []")
    case True
    with Cons.prems obtain js where js: "put_shards x s bs = (s', js)" "is = None # js"
      by (auto split: prod.splits)
    with Cons.IH [OF Cons.prems(1) js(1)] True show ?thesis by (simp add: map_filter_simps)
  next
    case False
    with Cons.prems obtain s1 i js where i: "obj_put (ext_hash x) s (OTree (tree_flat b)) = (s1, i)"
      and js: "put_shards x s1 bs = (s', js)" "is = Some i # js"
      by (auto split: prod.splits)
    note one = put_tree [OF assms(1) Cons.prems(1) i]
    note rest = Cons.IH [OF conjunct1 [OF one(1)] js(1)]
    show ?thesis
    proof (intro conjI allI impI)
      show "objs_ok (ext_hash x) s'" "kept s s'" using one(1) rest by (auto intro: kept_trans)
      fix s'' all assume later: "kept s' s''"
      with rest have "kept s1 s''" using kept_trans by blast
      from one(2) [OF this] have "load_shard x s'' i all = Inr (all @ sort_key te_name b)"
        by (simp add: load_shard_def tree_flat_def)
      moreover obtain all' where "rfold (load_shard x s'') (List.map_filter id js) (all @ sort_key te_name b) = Inr all'"
        and "set all' = set (all @ sort_key te_name b) \<union> \<Union> (set ` set bs)"
        using rest later by blast
      ultimately show "\<exists>all'. rfold (load_shard x s'') (List.map_filter id is) all = Inr all' \<and>
          set all' = set all \<union> \<Union> (set ` set (b # bs))"
        by (auto simp: js(2) map_filter_simps)
    qed
  qed
qed

lemma shard_buckets_all [simp]: "\<Union> (set ` set (shard_buckets x es)) = set es"
proof -
  have "unat (shard_slot b n) < 256" for b n using unsigned_less [of "shard_slot b n"] by simp
  then show ?thesis by (auto simp: shard_buckets_def)
qed

lemma put_entries_loads:
  assumes "tree_hash_sound (ext_hash x)" and "objs_ok (ext_hash x) s" and "put_entries x s es = (s', i)"
  shows "objs_ok (ext_hash x) s' \<and> kept s s'"
    and "kept s' s'' \<Longrightarrow> \<exists>es'. load_entries x s'' i = Inr es' \<and> set es' = set es"
proof -
  have "objs_ok (ext_hash x) s' \<and> kept s s' \<and>
      (\<forall>s''. kept s' s'' \<longrightarrow> (\<exists>es'. load_entries x s'' i = Inr es' \<and> set es' = set es))"
  proof (cases "shard_threshold < length es")
    case False
    with assms(3) have i: "obj_put (ext_hash x) s (OTree (tree_flat es)) = (s', i)"
      by (simp add: put_entries_def)
    from put_tree [OF assms(1,2) i] load_entries_cases(1) show ?thesis
      by (metis set_sort_key tree.select_convs(1) tree_flat_def)
  next
    case True
    with assms(3) obtain s1 sh where sh: "put_shards x s (shard_buckets x es) = (s1, sh)"
      and i: "obj_put (ext_hash x) s1 (OTree \<lparr>tree_entries = None, tree_shards = Some sh\<rparr>) = (s', i)"
      by (auto simp: put_entries_def split: prod.splits)
    note shards = put_shards_loads [OF assms(1,2) sh]
    note root = put_tree [OF assms(1) conjunct1 [OF shards] i]
    show ?thesis
    proof (intro conjI allI impI)
      show "objs_ok (ext_hash x) s'" "kept s s'" using shards root(1) kept_trans by blast+
      fix s'' assume later: "kept s' s''"
      then have "kept s1 s''" using root(1) kept_trans by blast
      with shards obtain all' where "rfold (load_shard x s'') (List.map_filter id sh) [] = Inr all'" "set all' = set es"
        by (metis empty_set shard_buckets_all sup_bot.left_neutral)
      with load_entries_cases(2) [OF root(2) [OF later]]
      show "\<exists>es'. load_entries x s'' i = Inr es' \<and> set es' = set es" by (metis set_sort_key tree.select_convs)
    qed
  qed
  then show "objs_ok (ext_hash x) s' \<and> kept s s'"
    and "kept s' s'' \<Longrightarrow> \<exists>es'. load_entries x s'' i = Inr es' \<and> set es' = set es" by blast+
qed

section \<open>What walking reads\<close>

text \<open>The map is updated with some pair of \<open>S\<close> for every path \<open>S\<close> names, and nowhere else.\<close>

definition upd_by :: "(string \<times> leaf) set \<Rightarrow> flat \<Rightarrow> flat \<Rightarrow> bool" where
  "upd_by S out out' \<longleftrightarrow> (bt_ok out \<longrightarrow> bt_ok out') \<and>
     (\<forall>k. (\<exists>l. (k, l) \<in> S \<and> map_of out' k = Some l) \<or> (k \<notin> fst ` S \<and> map_of out' k = map_of out k))"

lemma upd_by_empty [simp]: "upd_by {} out out"
  by (simp add: upd_by_def)

lemma upd_by_insert: "upd_by {(k, l)} out (bt_insert k l out)"
  by (auto simp: upd_by_def)

lemma upd_by_trans:
  assumes "upd_by S a b" and "upd_by T b c"
  shows "upd_by (S \<union> T) a c"
  unfolding upd_by_def
proof (intro conjI allI impI)
  show "bt_ok a \<Longrightarrow> bt_ok c" using assms by (simp add: upd_by_def)
  fix k
  from assms(2) consider l where "(k, l) \<in> T" "map_of c k = Some l" | "k \<notin> fst ` T" "map_of c k = map_of b k"
    unfolding upd_by_def by blast
  then show "(\<exists>l. (k, l) \<in> S \<union> T \<and> map_of c k = Some l) \<or> (k \<notin> fst ` (S \<union> T) \<and> map_of c k = map_of a k)"
  proof cases
    case 2
    with assms(1) show ?thesis unfolding upd_by_def by (metis Un_iff image_Un)
  qed blast
qed

definition steps_by :: "('e \<Rightarrow> flat \<Rightarrow> flat res option) \<Rightarrow> 'e \<Rightarrow> (string \<times> leaf) set \<Rightarrow> bool" where
  "steps_by f e S \<longleftrightarrow> (\<forall>out. \<exists>out'. f e out = Some (Inr out') \<and> upd_by S out out')"

lemma ofold_upd_by:
  assumes "\<And>e. e \<in> set es \<Longrightarrow> steps_by f e (S e)"
  shows "\<exists>out'. ofold f es out = Some (Inr out') \<and> upd_by (\<Union>e \<in> set es. S e) out out'"
  using assms
proof (induction es arbitrary: out)
  case (Cons e es)
  from Cons.prems [of e] obtain out1 where one: "f e out = Some (Inr out1)" "upd_by (S e) out out1"
    by (auto simp: steps_by_def)
  from Cons.IH [of out1] Cons.prems obtain out' where "ofold f es out1 = Some (Inr out')"
    "upd_by (\<Union>e \<in> set es. S e) out1 out'" by auto
  with one upd_by_trans show ?case by fastforce
qed simp

definition paths_of :: "string \<Rightarrow> dir \<Rightarrow> (string \<times> leaf) set" where
  "paths_of prefix d = {(foldl join_path prefix ps, l) | ps l. at_dir d ps l}"

definition walks :: "ext \<Rightarrow> objs \<Rightarrow> oid \<Rightarrow> dir \<Rightarrow> bool" where
  "walks x s i d \<longleftrightarrow> (\<forall>s' prefix. kept s s' \<longrightarrow> steps_by (walk_tree x s' i) prefix (paths_of prefix d))"

lemma walks_later: "walks x s i d \<Longrightarrow> kept s s' \<Longrightarrow> walks x s' i d"
  by (meson kept_trans walks_def)

lemma paths_of_entries:
  assumes fs: "\<forall>e \<in> set fs. te_kind e \<noteq> Dir" and ds: "map fst ds = map te_name es"
    and es: "\<forall>e \<in> set es. te_kind e = Dir"
  shows "paths_of prefix (Directory fs ds) =
    (\<Union>e \<in> set (fs @ es). if te_kind e = Dir
       then \<Union>d \<in> set_option (map_of ds (te_name e)). paths_of (join_path prefix (te_name e)) d
       else {(join_path prefix (te_name e), leaf_of e)})"
    (is "_ = (\<Union>e \<in> _. ?S e)")
proof (rule set_eqI)
  fix kl
  have files: "(\<exists>e \<in> set fs. kl = (join_path prefix (te_name e), leaf_of e)) \<longleftrightarrow> (\<exists>e \<in> set fs. kl \<in> ?S e)"
    using fs by auto
  have names: "(\<exists>e \<in> set es. te_name e = n) \<longleftrightarrow> n \<in> fst ` set ds" for n
    using ds by (metis image_iff list.set_map)
  have "(\<exists>n d. map_of ds n = Some d \<and> kl \<in> paths_of (join_path prefix n) d) \<longleftrightarrow>
      (\<exists>e \<in> set es. \<exists>d. map_of ds (te_name e) = Some d \<and> kl \<in> paths_of (join_path prefix (te_name e)) d)"
    by (metis domI dom_map_of_conv_image_fst names)
  also have "\<dots> \<longleftrightarrow> (\<exists>e \<in> set es. kl \<in> ?S e)" using es by fastforce
  finally have subs: "(\<exists>n d. map_of ds n = Some d \<and> kl \<in> paths_of (join_path prefix n) d) \<longleftrightarrow> (\<exists>e \<in> set es. kl \<in> ?S e)" .
  have "kl \<in> paths_of prefix (Directory fs ds) \<longleftrightarrow> (\<exists>e \<in> set fs. kl = (join_path prefix (te_name e), leaf_of e)) \<or>
      (\<exists>n d. map_of ds n = Some d \<and> kl \<in> paths_of (join_path prefix n) d)"
    by (auto simp: paths_of_def at_dir_simps) force+
  then show "kl \<in> paths_of prefix (Directory fs ds) \<longleftrightarrow> kl \<in> (\<Union>e \<in> set (fs @ es). ?S e)"
    unfolding files subs by auto
qed

lemma walk_loaded:
  assumes "load_entries x s i = Inr es'"
    and "\<And>e. e \<in> set es' \<Longrightarrow> te_kind e \<noteq> Dir \<Longrightarrow> S e = {(join_path prefix (te_name e), leaf_of e)}"
    and "\<And>e. e \<in> set es' \<Longrightarrow> te_kind e = Dir \<Longrightarrow>
      \<exists>r. te_ref e = Some r \<and> steps_by (walk_tree x s r) (join_path prefix (te_name e)) (S e)"
  shows "steps_by (walk_tree x s i) prefix (\<Union>e \<in> set es'. S e)"
proof -
  let ?f = "\<lambda>e out. if te_kind e = Dir
         then (case te_ref e of
                 Some r \<Rightarrow> walk_tree x s r (join_path prefix (te_name e)) out
               | None \<Rightarrow> Some (Inr out))
         else Some (Inr (bt_insert (join_path prefix (te_name e)) (leaf_of e) out))"
  have "steps_by ?f e (S e)" if e: "e \<in> set es'" for e
  proof (cases "te_kind e = Dir")
    case True
    with assms(3) [OF e] show ?thesis by (auto simp: steps_by_def)
  next
    case False
    with assms(2) [OF e] show ?thesis by (simp add: steps_by_def upd_by_insert)
  qed
  then have "\<exists>out'. ofold ?f es' out = Some (Inr out') \<and> upd_by (\<Union>e \<in> set es'. S e) out out'" for out
    by (rule ofold_upd_by)
  moreover have "walk_tree x s i prefix out = ofold ?f es' out" for out
    by (subst walk_tree.simps) (simp add: assms(1))
  ultimately show ?thesis by (simp add: steps_by_def)
qed

lemma dir_entry_simps [simp]:
  "te_kind (dir_entry n i) = Dir" "te_name (dir_entry n i) = n" "te_ref (dir_entry n i) = Some i"
  by (simp_all add: dir_entry_def)

lemma list_all2_fst_names:
  "list_all2 (\<lambda>nd e. \<exists>i. e = dir_entry (fst nd) i \<and> P i nd) ds es \<Longrightarrow>
    map fst ds = map te_name es \<and> (\<forall>e \<in> set es. \<exists>nd \<in> set ds. \<exists>i. e = dir_entry (fst nd) i \<and> P i nd)"
  by (induction ds es rule: list_all2_induct) auto

text \<open>One directory, once its subdirectories are known to walk.\<close>

lemma emit_dir_walks:
  assumes sound: "tree_hash_sound (ext_hash x)" and s: "objs_ok (ext_hash x) s"
    and d: "dir_ok (Directory fs ds)"
    and subs: "list_all2 (\<lambda>nd e. \<exists>i. e = dir_entry (fst nd) i \<and> walks x s i (snd nd)) ds es"
    and put: "put_entries x s (fs @ es) = (s', i)"
  shows "walks x s' i (Directory fs ds)"
  unfolding walks_def
proof (intro allI impI)
  fix s'' prefix assume later: "kept s' s''"
  from subs have names: "map fst ds = map te_name es"
    and each: "\<And>e. e \<in> set es \<Longrightarrow> \<exists>n d i. (n, d) \<in> set ds \<and> e = dir_entry n i \<and> walks x s i d"
    using list_all2_fst_names [of "\<lambda>i nd. walks x s i (snd nd)" ds es] by fastforce+
  have es: "\<forall>e \<in> set es. te_kind e = Dir" using each by fastforce
  have fs: "\<forall>e \<in> set fs. te_kind e \<noteq> Dir" and ds: "bt_ok ds" using d by auto
  from put_entries_loads(1) [OF sound s put] later have kept: "kept s s''" using kept_trans by blast
  from put_entries_loads(2) [OF sound s put later] obtain es' where
    load: "load_entries x s'' i = Inr es'" "set es' = set (fs @ es)" by blast
  show "steps_by (walk_tree x s'' i) prefix (paths_of prefix (Directory fs ds))"
    unfolding paths_of_entries [OF fs names es] load(2) [symmetric]
  proof (rule walk_loaded [OF load(1)])
    fix e assume e: "e \<in> set es'" "te_kind e = Dir"
    with load(2) fs each obtain n d r where nd: "(n, d) \<in> set ds" "e = dir_entry n r" "walks x s r d"
      by auto blast
    have "map_of ds n = Some d" using ds nd(1) by (simp add: bt_ok_def)
    moreover have "steps_by (walk_tree x s'' r) (join_path prefix n) (paths_of (join_path prefix n) d)"
      using nd(3) kept by (simp add: walks_def)
    ultimately show "\<exists>r. te_ref e = Some r \<and> steps_by (walk_tree x s'' r) (join_path prefix (te_name e))
        (if te_kind e = Dir
         then \<Union>d \<in> set_option (map_of ds (te_name e)). paths_of (join_path prefix (te_name e)) d
         else {(join_path prefix (te_name e), leaf_of e)})"
      using nd(2) by simp
  qed simp
qed

lemma emit_walks:
  shows "tree_hash_sound (ext_hash x) \<Longrightarrow> objs_ok (ext_hash x) s \<Longrightarrow> dir_ok d \<Longrightarrow> emit x s d = (s', i) \<Longrightarrow>
      objs_ok (ext_hash x) s' \<and> kept s s' \<and> walks x s' i d"
    and "tree_hash_sound (ext_hash x) \<Longrightarrow> objs_ok (ext_hash x) s \<Longrightarrow> (\<forall>nd \<in> set ds. dir_ok (snd nd)) \<Longrightarrow>
      emit_dirs x s ds = (s', es) \<Longrightarrow>
      objs_ok (ext_hash x) s' \<and> kept s s' \<and>
      list_all2 (\<lambda>nd e. \<exists>i. e = dir_entry (fst nd) i \<and> walks x s' i (snd nd)) ds es"
proof (induction x s d and x s ds arbitrary: s' i and s' es rule: emit_emit_dirs.induct)
  case (1 x s fs ds)
  obtain s1 es where es: "emit_dirs x s ds = (s1, es)" by fastforce
  with 1(5) have put: "put_entries x s1 (fs @ es) = (s', i)" by simp
  from 1(4) have "\<forall>nd \<in> set ds. dir_ok (snd nd)" by simp
  note subs = 1(1) [OF 1(2,3) this es]
  then have "objs_ok (ext_hash x) s1" by blast
  from put_entries_loads(1) [OF 1(2) this put] emit_dir_walks [OF 1(2) this 1(4) _ put] subs
  show ?case using kept_trans by blast
next
  case (2 x s)
  then show ?case by simp
next
  case (3 x s name d ds)
  obtain s1 i where i: "emit x s d = (s1, i)" by fastforce
  obtain s2 es2 where es2: "emit_dirs x s1 ds = (s2, es2)" by fastforce
  have eqs: "s' = s2" "es = dir_entry name i # es2" using 3(6) i es2 by simp_all
  have first: "objs_ok (ext_hash x) s1 \<and> kept s s1 \<and> walks x s1 i d"
    using 3(1) [OF 3(3,4) _ i] 3(5) by simp
  have rest: "objs_ok (ext_hash x) s2 \<and> kept s1 s2 \<and>
      list_all2 (\<lambda>nd e. \<exists>i. e = dir_entry (fst nd) i \<and> walks x s2 i (snd nd)) ds es2"
    using 3(2) [OF i [symmetric] 3(3) _ _ es2] first 3(5) by simp
  have "walks x s2 i d" using first rest walks_later by blast
  with first rest show ?case unfolding eqs using kept_trans by auto
qed

section \<open>The round trip\<close>

definition leaves_only :: "flat \<Rightarrow> bool" where
  "leaves_only flat \<longleftrightarrow> (\<forall>(path, l) \<in> set flat. lf_kind l \<noteq> Dir \<and> \<not> rooted path)"

lemma paths_of_flat:
  assumes "leaves_only flat"
  shows "paths_of [] (dir_of_flat flat) = set flat"
proof -
  have at: "at_dir (dir_of_flat flat) qs l \<longleftrightarrow> (\<exists>path. (path, l) \<in> set flat \<and> qs = split_on (CHR ''/'') path)" for qs l
    by (simp add: dir_of_flat_def at_dir_of_flat at_dir_simps)
  have "foldl join_path [] (split_on (CHR ''/'') path) = path" if "(path, l) \<in> set flat" for path l
    using assms that join_split by (auto simp: leaves_only_def)
  then show ?thesis by (force simp: paths_of_def at)
qed

text \<open>C31: building the tree of a map of paths and flattening it, in the store it was built in or any later one,
  gives the map back, whether or not its directories were sharded: paths that do not begin with a slash,
  leaves that are not directories, and trees told apart by their hash.\<close>

theorem build_flatten:
  assumes "tree_hash_sound (ext_hash x)" and "objs_ok (ext_hash x) s"
    and "bt_ok flat" and "leaves_only flat"
    and "build_tree x s flat = (s', i)" and "kept s' s''"
  shows "flatten x s'' i = Inr flat"
proof -
  have "dir_ok (dir_of_flat flat)"
    unfolding dir_of_flat_def using assms(4) by (intro dir_of_flat_ok) (auto simp: leaves_only_def)
  from emit_walks(1) [OF assms(1,2) this] assms(5) have "walks x s' i (dir_of_flat flat)"
    by (simp add: build_tree_def)
  with assms(6) obtain out where out: "walk_tree x s'' i [] [] = Some (Inr out)"
    and upd: "upd_by (set flat) [] out"
    unfolding walks_def steps_by_def using paths_of_flat [OF assms(4)] by metis
  have "map_of out k = map_of flat k" for k
    using upd assms(3) unfolding upd_by_def bt_ok_def
    by (metis map_of_eq_Some_iff map_of_eq_None_iff map_of.simps(1))
  then have "out = flat" using upd assms(3) by (intro bt_ok_eqI) (auto simp: upd_by_def)
  with out show ?thesis by (simp add: flatten_def)
qed

section \<open>The merge of paths\<close>

lemma pad_terms_counts:
  "negative_terms (pad_terms blake ts) = negative_terms ts \<and>
   positive_terms (pad_terms blake ts) = max (positive_terms ts) (negative_terms ts + 1)"
proof (induction blake ts rule: pad_terms.induct)
  case (1 blake ts)
  show ?case
  proof (cases "positive_terms ts < negative_terms ts + 1")
    case True
    then have "pad_terms blake ts = pad_terms blake (ts @ [empty_add blake])" by (subst pad_terms.simps) (rule if_P)
    with 1 [OF True] True show ?thesis by auto
  next
    case False
    then have "pad_terms blake ts = ts" by (subst pad_terms.simps) (rule if_not_P)
    with False show ?thesis by auto
  qed
qed

lemma side_terms_counts:
  "positive_terms (map (side_term (- 1)) bs @ map (side_term 1) ss) = length ss"
  "negative_terms (map (side_term (- 1)) bs @ map (side_term 1) ss) = length bs"
  by (simp_all add: positive_terms_def negative_terms_def filter_map comp_def side_term_def)

lemma conflict_terms_counts:
  "negative_terms (conflict_terms blake lb la lb2) = length (opt_list lb)"
  "positive_terms (conflict_terms blake lb la lb2) = max (length (opt_list la) + length (opt_list lb2)) (length (opt_list lb) + 1)"
  using side_terms_counts [of "opt_list lb" "opt_list la @ opt_list lb2"]
  by (simp_all only: conflict_terms_def pad_terms_counts length_append)

definition both_changed :: "flat \<Rightarrow> flat \<Rightarrow> flat \<Rightarrow> string \<Rightarrow> bool" where
  "both_changed base a b p \<longleftrightarrow>
     map_of a p \<noteq> map_of base p \<and> map_of b p \<noteq> map_of base p \<and> map_of a p \<noteq> map_of b p"

lemma pick_leaf_cases:
  "snd (pick_leaf blake (map_of base p) (map_of a p) (map_of b p)) \<longleftrightarrow> both_changed base a b p"
  by (auto simp: pick_leaf_def both_changed_def)

lemma merge_paths_fold:
  assumes "distinct ps" and "bt_ok out"
  shows "fold (\<lambda>p (out, conflicts).
         case pick_leaf blake (map_of base p) (map_of a p) (map_of b p) of
           (pick, clash) \<Rightarrow>
             (case pick of None \<Rightarrow> out | Some l \<Rightarrow> bt_insert p l out, if clash then conflicts @ [p] else conflicts))
       ps (out, cs) = (out', cs') \<Longrightarrow>
     bt_ok out' \<and> cs' = cs @ filter (both_changed base a b) ps \<and>
     (\<forall>p. map_of out' p = (case fst (pick_leaf blake (map_of base p) (map_of a p) (map_of b p)) of
        Some l \<Rightarrow> if p \<in> set ps then Some l else map_of out p | None \<Rightarrow> map_of out p))"
  using assms
proof (induction ps arbitrary: out cs)
  case Nil
  then show ?case by (auto split: option.split)
next
  case (Cons q ps)
  let ?pick = "\<lambda>p. pick_leaf blake (map_of base p) (map_of a p) (map_of b p)"
  let ?out = "case fst (?pick q) of None \<Rightarrow> out | Some l \<Rightarrow> bt_insert q l out"
  let ?cs = "if both_changed base a b q then cs @ [q] else cs"
  have ok: "bt_ok ?out" using Cons.prems(3) by (simp split: option.split)
  have "bt_ok out' \<and> cs' = ?cs @ filter (both_changed base a b) ps \<and>
     (\<forall>p. map_of out' p = (case fst (?pick p) of
        Some l \<Rightarrow> if p \<in> set ps then Some l else map_of ?out p | None \<Rightarrow> map_of ?out p))"
  proof (rule Cons.IH)
    show "fold (\<lambda>p (out, conflicts).
         case ?pick p of
           (pick, clash) \<Rightarrow>
             (case pick of None \<Rightarrow> out | Some l \<Rightarrow> bt_insert p l out, if clash then conflicts @ [p] else conflicts))
       ps (?out, ?cs) = (out', cs')"
      using Cons.prems(1) by (cases "?pick q") (simp add: pick_leaf_cases [of blake, symmetric])
  qed (use Cons.prems(2) ok in simp_all)
  then show ?case using Cons.prems(2) by (auto split: option.split)
qed

text \<open>
  The terms of a conflict, side by side: what was there with sign -1, then the leaf of each side that
  has one with sign 1, and the empty file for a side that deleted the path. A leaf without a reference
  counts with the all-zero id.
\<close>

definition term_of_leaf :: "int \<Rightarrow> leaf \<Rightarrow> conflict_term" where
  "term_of_leaf s l =
     (case lf_ref l of
        Some i \<Rightarrow> \<lparr>ct_sign = s, ct_kind = lf_kind l, ct_mode = lf_mode l, ct_ref = i\<rparr>
      | None \<Rightarrow> \<lparr>ct_sign = s, ct_kind = lf_kind l, ct_mode = lf_mode l, ct_ref = replicate 32 0\<rparr>)"

definition clash_terms :: "oid \<Rightarrow> leaf option \<Rightarrow> leaf option \<Rightarrow> leaf option \<Rightarrow> conflict_term list" where
  "clash_terms empty_file base a b =
     (let deleted = \<lparr>ct_sign = 1, ct_kind = File, ct_mode = Some 0, ct_ref = empty_file\<rparr>
      in case (base, a, b) of
           (None, Some x, Some y) \<Rightarrow> [term_of_leaf 1 x, term_of_leaf 1 y]
         | (Some l, Some x, Some y) \<Rightarrow> [term_of_leaf (- 1) l, term_of_leaf 1 x, term_of_leaf 1 y]
         | (Some l, Some x, None) \<Rightarrow> [term_of_leaf (- 1) l, term_of_leaf 1 x, deleted]
         | (Some l, None, Some y) \<Rightarrow> [term_of_leaf (- 1) l, term_of_leaf 1 y, deleted]
         | _ \<Rightarrow> [])"

lemma side_term_leaf: "side_term s l = term_of_leaf s l"
  by (simp add: side_term_def term_of_leaf_def split: option.split)

lemma term_of_leaf_sign [simp]: "ct_sign (term_of_leaf s l) = s"
  by (simp add: term_of_leaf_def split: option.split)

lemma conflict_terms_clash:
  assumes "la \<noteq> lb" "lb2 \<noteq> lb" "la \<noteq> lb2"
  shows "conflict_terms blake lb la lb2 = clash_terms (blob_id blake []) lb la lb2"
  using assms
  by (cases lb; cases la; cases lb2)
     (simp_all add: conflict_terms_def clash_terms_def opt_list_def side_term_leaf pad_terms.simps positive_terms_def
        negative_terms_def empty_add_def Let_def)


end
