(* ===== verification/Tree_Witnesses.thy ===== *)
theory Tree_Witnesses
  imports Tree_Props World
begin

text \<open>
  The round trip of trees applied to a small map of paths, under a hash that tells trees apart, and what
  the merge of paths does where a name is a file on one side and a directory on the other, and where a
  side already holds a conflict.
\<close>

section \<open>A hash of trees\<close>

instance entry_kind :: countable
  by countable_datatype

definition term_code :: "conflict_term \<Rightarrow> nat" where
  "term_code c = to_nat (ct_sign c, ct_kind c, ct_mode c, ct_ref c)"

definition entry_code :: "tree_entry \<Rightarrow> nat" where
  "entry_code e = to_nat (te_name e, te_kind e, te_mode e, te_ref e, map_option (map term_code) (te_terms e))"

definition tree_code :: "tree \<Rightarrow> nat" where
  "tree_code t = to_nat (map_option (map entry_code) (tree_entries t), tree_shards t)"

lemma inj_term_code: "inj term_code"
  by (rule injI) (simp add: term_code_def)

lemma inj_entry_code: "inj entry_code"
proof (rule injI)
  fix d e assume "entry_code d = entry_code e"
  with injD [OF option.inj_map [OF list.inj_map [OF inj_term_code]]] show "d = e" by (simp add: entry_code_def)
qed

lemma inj_tree_code: "inj tree_code"
proof (rule injI)
  fix t u assume "tree_code t = tree_code u"
  with injD [OF option.inj_map [OF list.inj_map [OF inj_entry_code]]] show "t = u" by (simp add: tree_code_def)
qed

fun coded_tree_hash :: "obj \<Rightarrow> oid" where
  "coded_tree_hash (OTree t) = 1 # replicate (tree_code t) 0"
| "coded_tree_hash y = [0]"

lemma tree_hash_sound: "tree_hash_sound coded_tree_hash"
  unfolding tree_hash_sound_def
proof (intro allI impI)
  fix t y assume "coded_tree_hash y = coded_tree_hash (OTree t)"
  then show "y = OTree t" using injD [OF inj_tree_code] by (cases y) simp_all
qed

definition tree_world :: ext where
  "tree_world = world\<lparr>ext_hash := coded_tree_hash\<rparr>"

lemma tree_world_sound: "tree_hash_sound (ext_hash tree_world)"
  by (simp add: tree_world_def tree_hash_sound)

section \<open>The round trip\<close>

definition two_files :: flat where
  "two_files = [(''a'', leaf_file (replicate 32 1) False), (''src/b'', leaf_file (replicate 32 2) True)]"

lemma build_flatten_witness:
  "flatten tree_world (fst (build_tree tree_world Map.empty two_files)) (snd (build_tree tree_world Map.empty two_files))
     = Inr two_files"
  by (rule build_flatten [OF tree_world_sound objs_ok_empty _ _ prod.collapse [symmetric] kept_refl])
    (simp_all add: two_files_def leaves_only_def rooted_def leaf_file_def)

section \<open>Paths that clash\<close>

text \<open>
  A file \<open>x\<close> added on one side and a file \<open>x/y\<close> added on the other merge without a conflict, into a
  directory with two entries named \<open>x\<close>.
\<close>

lemma file_and_directory_merge:
  fixes blake :: "bytes \<Rightarrow> bytes" and f g :: leaf
  defines "m \<equiv> merge_paths blake [] [(''x'', f)] [(''x/y'', g)]"
  assumes "tree_hash_sound (ext_hash x)" and "objs_ok (ext_hash x) s" and "build_tree x s (fst m) = (s', i)"
  shows "snd m = [] \<and> (\<exists>es. load_entries x s' i = Inr es \<and> map te_name es = [''x'', ''x''])"
proof -
  have m: "m = ([(''x'', f), (''x/y'', g)], [])"
    by (simp add: m_def merge_paths_def pick_leaf_def btree_list_def)
  obtain s1 j where j: "emit x s (Directory [entry_of ''y'' g] []) = (s1, j)" by fastforce
  have dirs: "dir_of_flat (fst m) = Directory [entry_of ''x'' f] [(''x'', Directory [entry_of ''y'' g] [])]"
    by (simp add: m dir_of_flat_def)
  have "objs_ok (ext_hash x) s1"
    using put_entries_loads(1) [OF assms(2,3)] j by simp
  moreover have "put_entries x s1 [entry_of ''x'' f, dir_entry ''x'' j] = (s', i)"
    using assms(4) j unfolding build_tree_def dirs by simp
  then have "obj_put (ext_hash x) s1 (OTree (tree_flat [entry_of ''x'' f, dir_entry ''x'' j])) = (s', i)"
    by (simp add: put_entries_def shard_threshold_def)
  ultimately have "obj_get (ext_hash x) as_tree s' i = Inr (tree_flat [entry_of ''x'' f, dir_entry ''x'' j])"
    using put_tree(2) [OF assms(2)] by simp
  then show ?thesis
    by (simp add: load_entries_cases(1) m tree_flat_def)
qed

text \<open>A conflict merged with another change keeps nothing of its own terms: its term has no content.\<close>

lemma conflict_terms_lost:
  "conflict_terms blake (Some \<lparr>lf_kind = KConflict, lf_mode = None, lf_ref = None, lf_terms = Some ts\<rparr>) None None' =
   conflict_terms blake (Some \<lparr>lf_kind = KConflict, lf_mode = None, lf_ref = None, lf_terms = Some []\<rparr>) None None'"
  by (simp add: conflict_terms_def opt_list_def side_term_def)

text \<open>Two additions make a conflict without a negative term, and two positive ones.\<close>

lemma added_twice_unbalanced:
  assumes "la \<noteq> lb"
  shows "\<exists>ts. pick_leaf blake None (Some la) (Some lb) = (Some \<lparr>lf_kind = KConflict, lf_mode = None, lf_ref = None, lf_terms = Some ts\<rparr>, True) \<and>
    positive_terms ts = 2 \<and> negative_terms ts = 0"
  using assms by (simp add: pick_leaf_def conflict_terms_counts opt_list_def)

text \<open>One path changed on both sides, one on the first only, and one that a side deleted and the other changed.\<close>

definition plain_file :: "u8 \<Rightarrow> leaf" where
  "plain_file n = leaf_file (replicate 32 n) False"

definition flat_blake :: "bytes \<Rightarrow> bytes" where
  "flat_blake bs = replicate 32 7"

definition merged_paths :: "flat \<times> string list" where
  "merged_paths = merge_paths flat_blake
     [(''x'', plain_file 1), (''y'', plain_file 1), (''z'', plain_file 1)]
     [(''x'', plain_file 2), (''y'', plain_file 2)]
     [(''x'', plain_file 3), (''y'', plain_file 1), (''z'', plain_file 3)]"


end
