(* ===== verification/Partition.thy ===== *)
theory Partition
  imports Search Glob Renames Objects
begin

text \<open>
  The partition of a swarm: \<open>partition\<close> of \<open>crates/tessra-daemon/src/swarm.rs\<close>.

  A forest is the vector of parents of the code. Its two loops, to the root and back for compressing the
  path, are partial functions: an index out of range is the error \<open>Panic\<close>, a loop that does not end is
  \<open>None\<close>. The components come out of a \<open>HashMap\<close> in an order that is not fixed; \<open>order\<close> stands for it
  and permutes a list.
\<close>

section \<open>The forest\<close>

partial_function (option) climb :: "nat list \<Rightarrow> nat \<Rightarrow> nat res option" where
  "climb p r =
     (if length p \<le> r then Some (Inl Panic)
      else if p ! r \<noteq> r then climb p (p ! r) else Some (Inr r))"

partial_function (option) compress :: "nat list \<Rightarrow> nat \<Rightarrow> nat \<Rightarrow> nat list res option" where
  "compress p r c =
     (if length p \<le> c then Some (Inl Panic)
      else if p ! c \<noteq> r then compress (p[c := r]) r (p ! c) else Some (Inr p))"

definition find_root :: "nat list \<Rightarrow> nat \<Rightarrow> (nat list \<times> nat) res option" where
  "find_root p i =
     obind (climb p i) (\<lambda>r.
     obind (compress p r i) (\<lambda>p'. Some (Inr (p', r))))"

definition join_roots :: "nat \<times> nat \<Rightarrow> nat list \<Rightarrow> nat list res option" where
  "join_roots e p =
     obind (find_root p (fst e)) (\<lambda>(p, a).
     obind (find_root p (snd e)) (\<lambda>(p, b).
     Some (Inr (if a \<noteq> b then p[a := b] else p))))"

section \<open>Candidates and their edges\<close>

definition not_units :: "string list" where
  "not_units = [''import'', ''chunk'', ''test'', ''test.skipped'', ''module'', ''variant'', ''field'', ''impl'']"

definition plan_candidates :: "node_index \<Rightarrow> string list \<Rightarrow> node list" where
  "plan_candidates idx paths =
     filter (\<lambda>n. any_match paths (node_path n) \<and> node_kind n \<notin> set not_units \<and> is_identifier (node_name n))
       (ni_nodes idx)"

definition unit_index :: "node list \<Rightarrow> eid \<Rightarrow> nat option" where
  "unit_index cands = map_of (rev (zip (map node_nid cands) [0..<length cands]))"

definition deps_list :: "node \<Rightarrow> eid list" where
  "deps_list n = (case node_deps n of None \<Rightarrow> [] | Some ds \<Rightarrow> ds)"

definition dep_edges :: "node list \<Rightarrow> (nat \<times> nat) list" where
  "dep_edges cands =
     concat (map (\<lambda>i. List.map_filter (\<lambda>d. map_option (\<lambda>j. (i, j)) (unit_index cands d)) (deps_list (cands ! i)))
       [0..<length cands])"

section \<open>Components, largest first\<close>

definition collect_roots :: "nat \<Rightarrow> nat list \<Rightarrow> (nat list \<times> (nat, nat list) btree) res option" where
  "collect_roots n p =
     ofold (\<lambda>i (p, m).
         obind (find_root p i) (\<lambda>(p, r).
         Some (Inr (p, bt_insert r ((case map_of m r of None \<Rightarrow> [] | Some is \<Rightarrow> is) @ [i]) m))))
       [0..<n] (p, [])"

definition components_of :: "node list \<Rightarrow> nat list list res option" where
  "components_of cands =
     obind (ofold join_roots (dep_edges cands) [0..<length cands]) (\<lambda>p.
     obind (collect_roots (length cands) p) (\<lambda>(p, m).
     Some (Inr (map snd m))))"

definition comp_key :: "node list \<Rightarrow> nat list \<Rightarrow> int \<times> string \<times> string" where
  "comp_key cands c = (- int (length c), node_path (cands ! (c ! 0)), node_name (cands ! (c ! 0)))"

section \<open>Balancing\<close>

text \<open>\<open>min_by_key\<close> over length and position: the first of the shortest groups.\<close>

fun smallest :: "'a list list \<Rightarrow> nat" where
  "smallest [] = 0"
| "smallest [g] = 0"
| "smallest (g # gs) = (if length g \<le> length (gs ! smallest gs) then 0 else Suc (smallest gs))"

definition place :: "nat list \<Rightarrow> nat list list \<Rightarrow> nat list list" where
  "place c groups = (let i = smallest groups in groups[i := groups ! i @ c])"

definition balance :: "nat \<Rightarrow> nat list list \<Rightarrow> nat list list" where
  "balance agents comps =
     fold place comps (replicate (min (max agents 1) (max (length comps) 1)) [])"

section \<open>The groups\<close>

record swarm_group =
  sg_units :: "(string \<times> string \<times> eid) list"
  sg_paths :: "string list"
  sg_dependents :: nat

definition unit_triple :: "node \<Rightarrow> string \<times> string \<times> eid" where
  "unit_triple n = (node_path n, node_name n, node_nid n)"

definition group_of_indices :: "node_index \<Rightarrow> node list \<Rightarrow> nat list \<Rightarrow> swarm_group" where
  "group_of_indices idx cands g =
     (let units = sort (map (\<lambda>i. unit_triple (cands ! i)) g);
          nids = set (map (snd \<circ> snd) units)
      in \<lparr>sg_units = units,
          sg_paths = btree_list (map fst units),
          sg_dependents = length (filter (\<lambda>n. node_nid n \<notin> nids \<and> node_kind n \<noteq> ''test'' \<and>
              list_ex (\<lambda>d. d \<in> nids) (deps_list n)) (ni_nodes idx))\<rparr>)"

definition partition_units ::
  "(nat list list \<Rightarrow> nat list list) \<Rightarrow> node_index \<Rightarrow> string list \<Rightarrow> nat \<Rightarrow> swarm_group list res" where
  "partition_units order idx paths agents =
     returned
       (let cands = plan_candidates idx paths
        in obind (components_of cands) (\<lambda>comps.
           Some (Inr
             (map (group_of_indices idx cands)
               (filter (\<lambda>g. g \<noteq> []) (balance agents (sort_key (comp_key cands) (order comps))))))))"

text \<open>
  The partition of a swarm keeps dependent units together and its groups balanced.

  \<open>climbs\<close> is the path from a node of the forest to its root, with its length; compressing a path and
  joining two roots are shown to change only what they should. From there on the components are the
  classes of \<open>conn\<close>, the least equivalence around the edges.
\<close>

section \<open>Paths to the root\<close>

inductive climbs :: "nat list \<Rightarrow> nat \<Rightarrow> nat \<Rightarrow> nat \<Rightarrow> bool" for p where
  top: "i < length p \<Longrightarrow> p ! i = i \<Longrightarrow> climbs p i i 0"
| up: "i < length p \<Longrightarrow> p ! i \<noteq> i \<Longrightarrow> climbs p (p ! i) r n \<Longrightarrow> climbs p i r (Suc n)"

definition root_of :: "nat list \<Rightarrow> nat \<Rightarrow> nat \<Rightarrow> bool" where
  "root_of p i r \<longleftrightarrow> (\<exists>n. climbs p i r n)"

definition forest :: "nat list \<Rightarrow> bool" where
  "forest p \<longleftrightarrow> (\<forall>i < length p. \<exists>r. root_of p i r)"

lemma forestD: "forest p \<Longrightarrow> i < length p \<Longrightarrow> \<exists>r. root_of p i r"
  by (simp add: forest_def)

lemma climbs_fun: "climbs p i r n \<Longrightarrow> climbs p i q m \<Longrightarrow> q = r"
  by (induction arbitrary: m rule: climbs.induct) (auto elim: climbs.cases)

lemma root_of_fun: "root_of p i r \<Longrightarrow> root_of p i q \<Longrightarrow> q = r"
  unfolding root_of_def using climbs_fun by blast

lemma climbs_top: "climbs p i r n \<Longrightarrow> i < length p \<and> r < length p \<and> p ! r = r"
  by (induction rule: climbs.induct) auto

lemma root_of_top: "root_of p i r \<Longrightarrow> i < length p \<and> r < length p \<and> p ! r = r"
  unfolding root_of_def using climbs_top by blast

lemma root_of_self: "r < length p \<Longrightarrow> p ! r = r \<Longrightarrow> root_of p r r"
  unfolding root_of_def using top by blast

lemma climb_root: "climbs p i r n \<Longrightarrow> climb p i = Some (Inr r)"
  by (induction rule: climbs.induct) (subst climb.simps, simp)+

lemma climbs_shortcut:
  "climbs p j q m \<Longrightarrow> climbs p c r k \<Longrightarrow> c \<noteq> r \<Longrightarrow> \<exists>m' \<le> m. climbs (p[c := r]) j q m'"
proof (induction rule: climbs.induct)
  case (top j)
  then have "j \<noteq> c" using climbs_fun climbs.top by blast
  with top have "climbs (p[c := r]) j j 0" by (intro climbs.top) auto
  then show ?case by blast
next
  case (up j q n)
  show ?case
  proof (cases "j = c")
    case True
    from up climbs.up True have "climbs p c q (Suc n)" by blast
    with up.prems(1) climbs_fun have "q = r" by blast
    from climbs_top [OF up.prems(1)] up.prems(2) have "climbs (p[c := r]) r r 0" by (intro climbs.top) auto
    moreover from climbs_top [OF up.prems(1)] up.prems(2) have "p[c := r] ! c = r" "c < length (p[c := r])" by auto
    ultimately have "climbs (p[c := r]) c r (Suc 0)" using up.prems(2) climbs.up [of c "p[c := r]" r 0] by simp
    with True \<open>q = r\<close> show ?thesis by (metis One_nat_def le_add1 plus_1_eq_Suc)
  next
    case False
    from up.IH [OF up.prems] obtain m' where "m' \<le> n" "climbs (p[c := r]) (p ! j) q m'" by blast
    moreover have "p[c := r] ! j = p ! j" using False by simp
    ultimately have "climbs (p[c := r]) j q (Suc m')" using up(1,2) by (intro climbs.up) auto
    with \<open>m' \<le> n\<close> show ?thesis by (meson Suc_le_mono)
  qed
qed

definition same_forest :: "nat list \<Rightarrow> nat list \<Rightarrow> bool" where
  "same_forest p p' \<longleftrightarrow> length p' = length p \<and> forest p' \<and> (\<forall>j r. root_of p' j r \<longleftrightarrow> root_of p j r)"

lemma same_forest_refl: "forest p \<Longrightarrow> same_forest p p"
  by (simp add: same_forest_def)

lemma same_forest_trans: "same_forest p p' \<Longrightarrow> same_forest p' p'' \<Longrightarrow> same_forest p p''"
  by (simp add: same_forest_def)

lemma same_forest_shortcut:
  assumes "forest p" and "climbs p c r k" and "c \<noteq> r"
  shows "same_forest p (p[c := r])"
proof -
  have fwd: "root_of p j q \<Longrightarrow> root_of (p[c := r]) j q" for j q
    using climbs_shortcut assms(2,3) unfolding root_of_def by blast
  then have "forest (p[c := r])" unfolding forest_def using forestD [OF assms(1)] by (metis length_list_update)
  moreover have "root_of p j q" if "root_of (p[c := r]) j q" for j q
  proof -
    from root_of_top [OF that] obtain q' where "root_of p j q'" using forestD [OF assms(1)] by (metis length_list_update)
    with fwd [OF this] that root_of_fun show ?thesis by metis
  qed
  ultimately show ?thesis using fwd by (auto simp: same_forest_def)
qed

lemma compress_same:
  "forest p \<Longrightarrow> climbs p c r n \<Longrightarrow> \<exists>p'. compress p r c = Some (Inr p') \<and> same_forest p p'"
proof (induction n arbitrary: p c rule: less_induct)
  case (less n)
  from climbs_top [OF less.prems(2)] have c: "c < length p" by blast
  show ?case
  proof (cases "p ! c = r")
    case True
    with c have "compress p r c = Some (Inr p)" by (subst compress.simps) simp
    with same_forest_refl [OF less.prems(1)] show ?thesis by blast
  next
    case False
    with less.prems(2) obtain m where m: "n = Suc m" "climbs p (p ! c) r m" "p ! c \<noteq> c"
      by (auto elim: climbs.cases)
    have "c \<noteq> r" using False m climbs_top [OF less.prems(2)] by blast
    note same = same_forest_shortcut [OF less.prems(1,2) this]
    from climbs_shortcut [OF m(2) less.prems(2) \<open>c \<noteq> r\<close>] obtain m' where
      m': "m' < n" "climbs (p[c := r]) (p ! c) r m'" using m(1) by (metis less_Suc_eq_le)
    from less.IH [OF this(1) _ this(2)] same obtain p' where
      "compress (p[c := r]) r (p ! c) = Some (Inr p')" "same_forest (p[c := r]) p'"
      by (auto simp: same_forest_def)
    with same same_forest_trans c False show ?thesis by (subst compress.simps) auto
  qed
qed

lemma find_root_spec:
  assumes "forest p" and "i < length p"
  obtains p' r where "find_root p i = Some (Inr (p', r))" and "root_of p i r" and "same_forest p p'"
proof -
  from assms obtain r n where r: "climbs p i r n" unfolding forest_def root_of_def by blast
  from compress_same [OF assms(1) r] obtain p' where "compress p r i = Some (Inr p')" "same_forest p p'" by blast
  with r that show thesis unfolding find_root_def root_of_def by (auto simp: climb_root [OF r])
qed

section \<open>Joining\<close>

definition together :: "nat list \<Rightarrow> nat \<Rightarrow> nat \<Rightarrow> bool" where
  "together p u v \<longleftrightarrow> (\<exists>r. root_of p u r \<and> root_of p v r)"

lemma together_same: "same_forest p p' \<Longrightarrow> together p' u v \<longleftrightarrow> together p u v"
  by (simp add: together_def same_forest_def)

lemma together_roots: "root_of p x c \<Longrightarrow> root_of p y d \<Longrightarrow> together p x y \<longleftrightarrow> c = d"
  unfolding together_def using root_of_fun by blast

lemma root_of_union:
  assumes "a \<noteq> b" and "b < length p" and "p ! b = b" and "p ! a = a" and "a < length p"
  shows "root_of p j q \<Longrightarrow> root_of (p[a := b]) j (if q = a then b else q)"
proof -
  have b: "climbs (p[a := b]) b b 0" using assms by (intro top) auto
  have "\<exists>m. climbs (p[a := b]) j (if q = a then b else q) m" if "climbs p j q n" for n
    using that
  proof (induction rule: climbs.induct)
    case (top i)
    show ?case
    proof (cases "i = a")
      case True
      with assms b have "climbs (p[a := b]) a b (Suc 0)" using up [of a "p[a := b]" b 0] by simp
      with True show ?thesis by auto
    next
      case False
      with top have "climbs (p[a := b]) i i 0" by (intro climbs.top) auto
      with False show ?thesis by auto
    qed
  next
    case (up i r n)
    then have "i \<noteq> a" using assms(4) by auto
    from up obtain m where "climbs (p[a := b]) (p ! i) (if r = a then b else r) m" by blast
    with up(1,2) \<open>i \<noteq> a\<close> have "climbs (p[a := b]) i (if r = a then b else r) (Suc m)"
      by (intro climbs.up) auto
    then show ?case by blast
  qed
  then show "root_of p j q \<Longrightarrow> root_of (p[a := b]) j (if q = a then b else q)" unfolding root_of_def by blast
qed

lemma union_spec:
  assumes "forest p" and "a \<noteq> b" and "root_of p i a" and "root_of p j b"
  shows "forest (p[a := b]) \<and> (\<forall>u v. together (p[a := b]) u v \<longleftrightarrow>
    together p u v \<or> together p u i \<and> together p v j \<or> together p u j \<and> together p v i)"
proof -
  note tops = root_of_top [OF assms(3)] root_of_top [OF assms(4)]
  have new: "root_of p u q \<Longrightarrow> root_of (p[a := b]) u (if q = a then b else q)" for u q
    using root_of_union assms(2) tops by blast
  have f: "forest (p[a := b])"
    unfolding forest_def using assms(1) new by (metis forest_def length_list_update)
  have "together (p[a := b]) u v \<longleftrightarrow>
    together p u v \<or> together p u i \<and> together p v j \<or> together p u j \<and> together p v i" for u v
  proof (cases "u < length p \<and> v < length p")
    case True
    then obtain q r where q: "root_of p u q" and r: "root_of p v r" using forestD [OF assms(1)] by meson
    note tog = together_roots
    show ?thesis
      unfolding tog [OF new [OF q] new [OF r]] tog [OF q r] tog [OF q assms(3)] tog [OF q assms(4)]
        tog [OF r assms(3)] tog [OF r assms(4)]
      using assms(2) by auto
  next
    case False
    have "together s x y \<Longrightarrow> x < length s \<and> y < length s" for s x y
      unfolding together_def using root_of_top by blast
    with False show ?thesis by (metis length_list_update)
  qed
  with f show ?thesis by blast
qed

lemma together_refl: "forest p \<Longrightarrow> u < length p \<Longrightarrow> together p u u"
  unfolding together_def forest_def by blast

lemma together_sym: "together p u v \<Longrightarrow> together p v u"
  unfolding together_def by blast

lemma together_trans: "together p u v \<Longrightarrow> together p v w \<Longrightarrow> together p u w"
  unfolding together_def using root_of_fun by metis

lemma join_spec:
  assumes "forest p" and "i < length p" and "j < length p"
  shows "\<exists>p'. join_roots (i, j) p = Some (Inr p') \<and> length p' = length p \<and> forest p' \<and>
    (\<forall>u v. together p' u v \<longleftrightarrow>
      together p u v \<or> together p u i \<and> together p v j \<or> together p u j \<and> together p v i)"
proof -
  from find_root_spec [OF assms(1,2)] obtain p1 a where
    one: "find_root p i = Some (Inr (p1, a))" "root_of p i a" "same_forest p p1" .
  then have "forest p1" "j < length p1" using assms(3) by (simp_all add: same_forest_def)
  from find_root_spec [OF this] obtain p2 b where
    two: "find_root p1 j = Some (Inr (p2, b))" "root_of p1 j b" "same_forest p1 p2" .
  from one(3) two(3) have same: "same_forest p p2" by (rule same_forest_trans)
  from one(2) same have a: "root_of p2 i a" by (simp add: same_forest_def)
  from two(2,3) have b: "root_of p2 j b" by (simp add: same_forest_def)
  from same have f: "forest p2" "length p2 = length p" by (simp_all add: same_forest_def)
  have join: "join_roots (i, j) p = Some (Inr (if a \<noteq> b then p2[a := b] else p2))"
    using one(1) two(1) by (simp add: join_roots_def)
  note tog = together_same [OF same]
  show ?thesis
  proof (cases "a = b")
    case True
    have "together p2 i j" using a b True unfolding together_def by blast
    then have ij: "together p i j" unfolding tog .
    have "together p u v" if "together p u i \<and> together p v j \<or> together p u j \<and> together p v i" for u v
      using that
    proof
      assume "together p u i \<and> together p v j"
      then show ?thesis using ij together_sym together_trans by metis
    next
      assume "together p u j \<and> together p v i"
      then show ?thesis using ij together_sym together_trans by metis
    qed
    then have "\<forall>u v. together p2 u v \<longleftrightarrow>
      together p u v \<or> together p u i \<and> together p v j \<or> together p u j \<and> together p v i" unfolding tog by blast
    with True join f show ?thesis by simp
  next
    case False
    from union_spec [OF f(1) False a b] join f False show ?thesis unfolding tog by simp
  qed
qed

section \<open>Classes of the edges\<close>

definition conn :: "(nat \<times> nat) set \<Rightarrow> (nat \<times> nat) set" where
  "conn E = (E \<union> E\<inverse>)\<^sup>*"

lemma conn_sym: "(u, v) \<in> conn E \<Longrightarrow> (v, u) \<in> conn E"
  unfolding conn_def by (metis Un_commute converse_Un converse_converse converse_iff rtrancl_converse)

lemma conn_trans: "(x, y) \<in> conn E \<Longrightarrow> (y, z) \<in> conn E \<Longrightarrow> (x, z) \<in> conn E"
  unfolding conn_def by (rule rtrancl_trans)

lemma conn_refl [simp]: "(x, x) \<in> conn E"
  by (simp add: conn_def)

lemma conn_mono: "E \<subseteq> F \<Longrightarrow> (x, y) \<in> conn E \<Longrightarrow> (x, y) \<in> conn F"
  unfolding conn_def by (rule subsetD [OF rtrancl_mono]) auto

lemma conn_edge: "(i, j) \<in> E \<Longrightarrow> (i, j) \<in> conn E"
  by (auto simp: conn_def)

definition joined :: "(nat \<times> nat) set \<Rightarrow> nat \<Rightarrow> nat \<Rightarrow> nat \<Rightarrow> nat \<Rightarrow> bool" where
  "joined E i j u v \<longleftrightarrow>
    (u, v) \<in> conn E \<or> (u, i) \<in> conn E \<and> (v, j) \<in> conn E \<or> (u, j) \<in> conn E \<and> (v, i) \<in> conn E"

lemma joined_step: "joined E i j u v \<Longrightarrow> (v, w) \<in> conn E \<Longrightarrow> joined E i j u w"
  unfolding joined_def by (blast intro: conn_trans conn_sym)

lemma joined_edge: "joined E i j u i \<Longrightarrow> joined E i j u j" "joined E i j u j \<Longrightarrow> joined E i j u i"
  unfolding joined_def by (blast intro: conn_trans conn_sym conn_refl)+

lemma conn_insert: "(u, v) \<in> conn (insert (i, j) E) \<longleftrightarrow> joined E i j u v"
proof
  let ?c = "conn (insert (i, j) E)"
  have sub: "(x, y) \<in> conn E \<Longrightarrow> (x, y) \<in> ?c" for x y by (rule conn_mono) auto
  have ij: "(i, j) \<in> ?c" by (rule conn_edge) simp
  assume "joined E i j u v"
  then consider "(u, v) \<in> ?c" | "(u, i) \<in> ?c" "(v, j) \<in> ?c" | "(u, j) \<in> ?c" "(v, i) \<in> ?c"
    unfolding joined_def using sub by blast
  then show "(u, v) \<in> ?c"
  proof cases
    case 2
    from conn_trans [OF conn_trans [OF 2(1) ij] conn_sym [OF 2(2)]] show ?thesis .
  next
    case 3
    from conn_trans [OF conn_trans [OF 3(1) conn_sym [OF ij]] conn_sym [OF 3(2)]] show ?thesis .
  qed
next
  assume "(u, v) \<in> conn (insert (i, j) E)"
  then show "joined E i j u v"
    unfolding conn_def [of "insert (i, j) E"]
  proof (induction rule: rtrancl_induct)
    case base
    then show ?case by (simp add: joined_def)
  next
    case (step v w)
    from step(2) consider "(v, w) \<in> E \<union> E\<inverse>" | "v = i" "w = j" | "v = j" "w = i" by auto
    then show ?case
    proof cases
      case 1
      then have "(v, w) \<in> conn E" by (auto simp: conn_def)
      with step.IH show ?thesis by (rule joined_step)
    qed (use step.IH joined_edge in simp_all)
  qed
qed

lemma join_all:
  assumes "forest p" and "set es \<subseteq> {..<length p} \<times> {..<length p}"
    and "\<And>u v. together p u v \<longleftrightarrow> u < length p \<and> v < length p \<and> (u, v) \<in> conn E"
  shows "\<exists>p'. ofold join_roots es p = Some (Inr p') \<and> length p' = length p \<and> forest p' \<and>
    (\<forall>u v. together p' u v \<longleftrightarrow> u < length p \<and> v < length p \<and> (u, v) \<in> conn (E \<union> set es))"
  using assms
proof (induction es arbitrary: p E)
  case (Cons e es)
  obtain i j where e: "e = (i, j)" by (cases e)
  with Cons.prems(2) have ij: "i < length p" "j < length p" by auto
  from join_spec [OF Cons.prems(1) ij] obtain p' where p': "join_roots (i, j) p = Some (Inr p')"
    "length p' = length p" "forest p'" "\<forall>u v. together p' u v \<longleftrightarrow>
      together p u v \<or> together p u i \<and> together p v j \<or> together p u j \<and> together p v i" by blast
  have tog: "together p' u v \<longleftrightarrow> u < length p' \<and> v < length p' \<and> (u, v) \<in> conn (insert (i, j) E)" for u v
    using spec [OF spec [OF p'(4)], of u v] ij unfolding p'(2) Cons.prems(3) conn_insert joined_def by blast
  have "set es \<subseteq> {..<length p'} \<times> {..<length p'}" using Cons.prems(2) p'(2) by simp
  from Cons.IH [OF p'(3) this tog] p'(1,2) show ?case by (simp add: e)
qed simp

section \<open>The components\<close>

lemma ofold_append: "ofold f (xs @ ys) b = obind (ofold f xs b) (ofold f ys)"
proof (induction xs arbitrary: b)
  case (Cons x xs)
  show ?case
  proof (cases "f x b")
    case (Some r)
    then show ?thesis using Cons.IH by (cases r) simp_all
  qed simp
qed simp

definition roots_upto :: "nat list \<Rightarrow> nat \<Rightarrow> nat \<Rightarrow> nat list" where
  "roots_upto p k r = filter (\<lambda>i. root_of p i r) [0..<k]"

lemma collect_spec:
  assumes "forest p" and "k \<le> length p"
  shows "\<exists>p' m. collect_roots k p = Some (Inr (p', m)) \<and> same_forest p p' \<and> bt_ok m \<and>
    (\<forall>r. map_of m r = (if roots_upto p k r = [] then None else Some (roots_upto p k r)))"
  using assms(2)
proof (induction k)
  case 0
  then show ?case using same_forest_refl [OF assms(1)] by (simp add: collect_roots_def roots_upto_def)
next
  case (Suc k)
  then obtain p1 m where p1: "collect_roots k p = Some (Inr (p1, m))" "same_forest p p1" "bt_ok m"
    and m: "\<And>r. map_of m r = (if roots_upto p k r = [] then None else Some (roots_upto p k r))" by auto
  then have "forest p1" "k < length p1" using Suc.prems by (simp_all add: same_forest_def)
  from find_root_spec [OF this] obtain p2 r where
    two: "find_root p1 k = Some (Inr (p2, r))" "root_of p1 k r" "same_forest p1 p2" .
  then have r: "root_of p k r" using p1(2) by (simp add: same_forest_def)
  let ?m = "bt_insert r ((case map_of m r of None \<Rightarrow> [] | Some is \<Rightarrow> is) @ [k]) m"
  have "collect_roots (Suc k) p = Some (Inr (p2, ?m))"
    using p1(1) two(1) by (simp add: collect_roots_def ofold_append)
  moreover have "roots_upto p (Suc k) q = (if q = r then roots_upto p k r @ [k] else roots_upto p k q)" for q
    using r root_of_fun by (auto simp: roots_upto_def)
  then have "map_of ?m q = (if roots_upto p (Suc k) q = [] then None else Some (roots_upto p (Suc k) q))" for q
    by (simp add: m)
  moreover have "same_forest p p2" "bt_ok ?m" using p1(2,3) two(3) same_forest_trans by simp_all
  ultimately show ?case by (intro exI conjI allI)
qed

definition comps_ok :: "nat \<Rightarrow> (nat \<times> nat) set \<Rightarrow> nat list list \<Rightarrow> bool" where
  "comps_ok n E comps \<longleftrightarrow> mset (concat comps) = mset [0..<n] \<and> [] \<notin> set comps \<and>
    (\<forall>c \<in> set comps. \<forall>u \<in> set c. \<forall>v < n. v \<in> set c \<longleftrightarrow> (u, v) \<in> conn E)"

lemma comps_ok_cong: "mset cs = mset ds \<Longrightarrow> comps_ok n E cs \<Longrightarrow> comps_ok n E ds"
  unfolding comps_ok_def mset_concat by (metis mset_eq_setD mset_map sum_mset_sum_list)

lemma comps_ok_nonempty: "comps_ok n E comps \<Longrightarrow> comps = [] \<longleftrightarrow> n = 0"
proof -
  assume ok: "comps_ok n E comps"
  then have "set (concat comps) = {..<n}" unfolding comps_ok_def
    by (metis atLeast0LessThan atLeastLessThan_upt set_mset_mset)
  moreover have "comps = [] \<longleftrightarrow> set (concat comps) = {}" using ok by (cases comps) (auto simp: comps_ok_def)
  ultimately show ?thesis by auto
qed

lemma roots_partition:
  assumes "forest p" and "length p = n"
    and tog: "\<And>u v. together p u v \<longleftrightarrow> u < n \<and> v < n \<and> (u, v) \<in> conn E"
    and "bt_ok m" and m: "\<And>r. map_of m r = (if roots_upto p n r = [] then None else Some (roots_upto p n r))"
  shows "comps_ok n E (map snd m)"
proof -
  have entry: "(r, c) \<in> set m \<Longrightarrow> c = roots_upto p n r \<and> c \<noteq> []" for r c
    using assms(4) m [of r] by (metis bt_ok_def map_of_eq_Some_iff option.distinct(1) option.inject)
  have mem: "u \<in> set (roots_upto p n r) \<longleftrightarrow> root_of p u r" for u r
    using root_of_top assms(2) by (auto simp: roots_upto_def)
  have disj: "r = r'" if "(r, c) \<in> set m" "(r', c') \<in> set m" "u \<in> set c" "u \<in> set c'" for r c r' c' u
    using entry [OF that(1)] entry [OF that(2)] that(3,4) mem root_of_fun by metis
  have "distinct (map snd m)"
    unfolding distinct_map
  proof
    show "distinct m" using assms(4) by (auto simp: bt_ok_def distinct_map)
    show "inj_on snd (set m)"
    proof (rule inj_onI)
      fix x y assume xy: "x \<in> set m" "y \<in> set m" "snd x = snd y"
      obtain r c where x: "x = (r, c)" by (cases x)
      obtain r' where y: "y = (r', c)" using xy(3) x by (cases y) simp
      from entry xy(1) x obtain u where "u \<in> set c" by (metis list.set_intros(1) neq_Nil_conv)
      with disj xy(1,2) x y show "x = y" by metis
    qed
  qed
  then have "distinct (concat (map snd m))"
  proof (rule distinct_concat)
    fix ys assume "ys \<in> set (map snd m)"
    then obtain r where "(r, ys) \<in> set m" by auto
    with entry have "ys = roots_upto p n r" by blast
    then show "distinct ys" by (simp add: roots_upto_def)
  next
    fix ys zs assume "ys \<in> set (map snd m)" "zs \<in> set (map snd m)" "ys \<noteq> zs"
    then obtain r s where rs: "(r, ys) \<in> set m" "(s, zs) \<in> set m" by auto
    show "set ys \<inter> set zs = {}"
    proof (rule equals0I)
      fix u assume "u \<in> set ys \<inter> set zs"
      with disj [OF rs, of u] have "r = s" by blast
      with entry rs \<open>ys \<noteq> zs\<close> show False by metis
    qed
  qed
  moreover have "u \<in> set (concat (map snd m)) \<longleftrightarrow> u < n" for u
  proof
    assume "u \<in> set (concat (map snd m))"
    then obtain r c where "(r, c) \<in> set m" "u \<in> set c" by auto
    with entry have "u \<in> set (roots_upto p n r)" by blast
    then show "u < n" by (simp add: roots_upto_def)
  next
    assume "u < n"
    with forestD [OF assms(1)] assms(2) obtain r where r: "root_of p u r" by blast
    then have "map_of m r = Some (roots_upto p n r)" using m [of r] mem by (metis empty_iff list.set(1))
    then have "(r, roots_upto p n r) \<in> set m" by (rule map_of_SomeD)
    moreover have "u \<in> set (roots_upto p n r)" using r mem by blast
    ultimately show "u \<in> set (concat (map snd m))" by force
  qed
  ultimately have "mset (concat (map snd m)) = mset [0..<n]"
    by (metis atLeastLessThan_iff distinct_upt le0 set_eq_iff set_eq_iff_mset_eq_distinct set_upt)
  moreover have "v \<in> set c \<longleftrightarrow> (u, v) \<in> conn E" if c: "c \<in> set (map snd m)" "u \<in> set c" "v < n" for c u v
  proof -
    from c obtain r where "(r, c) \<in> set m" by auto
    with entry have cr: "c = roots_upto p n r" by blast
    with c(2) mem have u: "root_of p u r" by blast
    have "v \<in> set c \<longleftrightarrow> together p u v" unfolding cr mem together_def using u root_of_fun by metis
    moreover have "u < n" using root_of_top [OF u] assms(2) by simp
    ultimately show ?thesis using tog c(3) by blast
  qed
  moreover have "[] \<notin> set (map snd m)" using entry by fastforce
  ultimately show ?thesis unfolding comps_ok_def by blast
qed

lemma dep_edges_bound: "set (dep_edges cands) \<subseteq> {..<length cands} \<times> {..<length cands}"
proof -
  have "j < length cands" if "unit_index cands d = Some j" for d j
    using map_of_SomeD [OF that [unfolded unit_index_def]] by (auto simp: set_zip)
  then show ?thesis by (auto simp: dep_edges_def List.map_filter_def)
qed

lemma components_spec: "\<exists>comps. components_of cands = Some (Inr comps) \<and> comps_ok (length cands) (set (dep_edges cands)) comps"
proof -
  let ?n = "length cands"
  have self: "root_of [0..<?n] i i" if "i < ?n" for i using that by (intro root_of_self) simp_all
  then have f: "forest [0..<?n]" by (auto simp: forest_def)
  have tog: "together [0..<?n] u v \<longleftrightarrow> u < length [0..<?n] \<and> v < length [0..<?n] \<and> (u, v) \<in> conn {}" for u v
  proof -
    have "u < ?n \<and> v < ?n" if "together [0..<?n] u v"
      using that root_of_top unfolding together_def by (metis diff_zero length_upt)
    moreover have "u = v" if "together [0..<?n] u v" "u < ?n" "v < ?n"
      using that(1) together_roots [OF self [OF that(2)] self [OF that(3)]] by blast
    moreover have "together [0..<?n] u u" if "u < ?n" using self [OF that] unfolding together_def by blast
    ultimately show ?thesis by (auto simp: conn_def)
  qed
  from join_all [OF f _ tog, of "dep_edges cands"] dep_edges_bound [of cands] obtain p where
    p: "ofold join_roots (dep_edges cands) [0..<?n] = Some (Inr p)" "length p = ?n" "forest p"
      "\<forall>u v. together p u v \<longleftrightarrow> u < ?n \<and> v < ?n \<and> (u, v) \<in> conn (set (dep_edges cands))" by auto
  from collect_spec [OF p(3), of ?n] p(2) obtain p' m where
    m: "collect_roots ?n p = Some (Inr (p', m))" "bt_ok m"
      "\<forall>r. map_of m r = (if roots_upto p ?n r = [] then None else Some (roots_upto p ?n r))" by auto
  have "comps_ok ?n (set (dep_edges cands)) (map snd m)"
    by (rule roots_partition [OF p(3,2)]) (use p(4) m in blast)+
  with p(1) m(1) show ?thesis by (simp add: components_of_def)
qed

section \<open>Balancing\<close>

lemma smallest_least:
  "gs \<noteq> [] \<Longrightarrow> smallest gs < length gs \<and> (\<forall>g \<in> set gs. length (gs ! smallest gs) \<le> length g)"
proof (induction gs rule: smallest.induct)
  case (3 g h gs)
  then have IH: "smallest (h # gs) < length (h # gs)"
    "\<forall>x \<in> set (h # gs). length ((h # gs) ! smallest (h # gs)) \<le> length x" by simp_all
  show ?case
  proof (cases "length g \<le> length ((h # gs) ! smallest (h # gs))")
    case True
    then show ?thesis using IH by (auto dest: order_trans)
  next
    case False
    then show ?thesis using IH by auto
  qed
qed simp_all

definition balanced :: "nat \<Rightarrow> nat list list \<Rightarrow> bool" where
  "balanced M gs \<longleftrightarrow> (\<forall>g \<in> set gs. \<forall>h \<in> set gs. length g \<le> length h + M)"

definition empties :: "nat list list \<Rightarrow> nat" where
  "empties gs = length (filter (\<lambda>g. g = []) gs)"

lemma place_split:
  assumes "gs \<noteq> []"
  obtains as g bs where "gs = as @ g # bs" and "place c gs = as @ (g @ c) # bs" and "\<forall>h \<in> set gs. length g \<le> length h"
proof -
  let ?i = "smallest gs"
  from smallest_least [OF assms] have i: "?i < length gs" "\<forall>h \<in> set gs. length (gs ! ?i) \<le> length h" by blast+
  then have "gs = take ?i gs @ gs ! ?i # drop (Suc ?i) gs" by (simp add: id_take_nth_drop)
  moreover have "place c gs = take ?i gs @ (gs ! ?i @ c) # drop (Suc ?i) gs"
    using i(1) by (simp add: place_def Let_def upd_conv_take_nth_drop)
  ultimately show thesis using that i(2) by blast
qed

definition inside_one :: "nat list list \<Rightarrow> nat list \<Rightarrow> bool" where
  "inside_one gs c \<longleftrightarrow> (\<exists>g \<in> set gs. set c \<subseteq> set g)"

text \<open>One component placed: what was inside one group stays so, and the component is.\<close>

lemma place_spec:
  assumes "gs \<noteq> []"
  shows "place c gs \<noteq> [] \<and> length (place c gs) = length gs \<and>
    mset (concat (place c gs)) = mset (concat gs) + mset c \<and>
    inside_one (place c gs) c \<and> (\<forall>d. inside_one gs d \<longrightarrow> inside_one (place c gs) d) \<and>
    (\<forall>M. balanced M gs \<and> length c \<le> M \<longrightarrow> balanced M (place c gs)) \<and>
    (c \<noteq> [] \<longrightarrow> empties (place c gs) = empties gs - 1) \<and>
    (0 < empties gs \<longrightarrow> set (place c gs) \<subseteq> insert c (set gs))"
proof -
  from place_split [OF assms] obtain as g bs where
    gs: "gs = as @ g # bs" and new: "place c gs = as @ (g @ c) # bs" and least: "\<forall>h \<in> set gs. length g \<le> length h" .
  have "inside_one (place c gs) d" if d: "inside_one gs d" for d
  proof -
    from d obtain h where "h \<in> set gs" "set d \<subseteq> set h" by (auto simp: inside_one_def)
    then consider "set d \<subseteq> set (g @ c)" | "h \<in> set as \<union> set bs" unfolding gs by auto
    then show ?thesis using \<open>set d \<subseteq> set h\<close> unfolding inside_one_def new by cases auto
  qed
  moreover have "balanced M (place c gs)" if b: "balanced M gs" and c: "length c \<le> M" for M
    unfolding balanced_def
  proof (intro ballI)
    fix x y assume xy: "x \<in> set (place c gs)" "y \<in> set (place c gs)"
    have old: "z \<in> set gs \<or> z = g @ c" if "z \<in> set (place c gs)" for z using that unfolding new by (auto simp: gs)
    have g: "g \<in> set gs" by (simp add: gs)
    have low: "length g \<le> length y" using old [OF xy(2)] least by auto
    show "length x \<le> length y + M"
    proof (cases "x = g @ c")
      case True
      with low c show ?thesis by simp
    next
      case False
      with old [OF xy(1)] have x: "x \<in> set gs" by blast
      show ?thesis
      proof (cases "y = g @ c")
        case True
        have "length x \<le> length g + M" using b x g unfolding balanced_def by blast
        with True show ?thesis by simp
      next
        case False
        with old [OF xy(2)] b x show ?thesis unfolding balanced_def by blast
      qed
    qed
  qed
  moreover have "g = []" if "0 < empties gs"
  proof -
    from that have "[] \<in> set gs" unfolding empties_def by (metis (mono_tags) filter_False length_0_conv less_irrefl)
    with least show ?thesis by (metis le_zero_eq length_0_conv list.size(3))
  qed
  moreover have "empties gs = 0" if "g \<noteq> []"
    using that \<open>0 < empties gs \<Longrightarrow> g = []\<close> by auto
  then have "empties (place c gs) = empties gs - 1" if "c \<noteq> []"
    using that unfolding new by (cases "g = []") (auto simp: empties_def gs)
  moreover have "place c (as @ g # bs) = as @ (g @ c) # bs" using new gs by simp
  ultimately show ?thesis unfolding inside_one_def by (auto simp: gs)
qed

lemma place_all:
  assumes "gs \<noteq> []" and "[] \<notin> set cs" and "balanced M gs" and "\<forall>c \<in> set cs. length c \<le> M"
  shows "length (fold place cs gs) = length gs \<and> mset (concat (fold place cs gs)) = mset (concat gs) + mset (concat cs) \<and>
    (\<forall>d. d \<in> set cs \<or> inside_one gs d \<longrightarrow> inside_one (fold place cs gs) d) \<and>
    balanced M (fold place cs gs) \<and> empties (fold place cs gs) = empties gs - length cs \<and>
    (length cs \<le> empties gs \<longrightarrow> set (fold place cs gs) \<subseteq> set cs \<union> set gs)"
  using assms
proof (induction cs arbitrary: gs)
  case (Cons c cs)
  note one = place_spec [OF Cons.prems(1), of c]
  have c: "c \<noteq> []" "length c \<le> M" using Cons.prems(2,4) by auto
  have rest: "[] \<notin> set cs" "\<forall>c \<in> set cs. length c \<le> M" using Cons.prems(2,4) by auto
  have "place c gs \<noteq> []" "balanced M (place c gs)" using one Cons.prems(3) c by blast+
  note IH = Cons.IH [OF this(1) rest(1) this(2) rest(2)]
  have emp: "empties (place c gs) = empties gs - 1" using one c by blast
  have "set (fold place cs (place c gs)) \<subseteq> set (c # cs) \<union> set gs" if le: "length (c # cs) \<le> empties gs"
  proof -
    from le have "set (place c gs) \<subseteq> insert c (set gs)" using one by simp
    moreover have "set (fold place cs (place c gs)) \<subseteq> set cs \<union> set (place c gs)"
      using IH emp le by simp
    ultimately show ?thesis by auto
  qed
  moreover have "inside_one (fold place cs (place c gs)) d" if "d \<in> set (c # cs) \<or> inside_one gs d" for d
    using that one IH by auto
  ultimately show ?case using one IH emp by (simp del: append_Nil)
qed (simp add: inside_one_def)

lemma balance_spec:
  fixes agents :: nat
  assumes "comps_ok n E comps" and "\<forall>c \<in> set comps. length c \<le> M"
  defines "gs \<equiv> filter (\<lambda>g. g \<noteq> []) (balance agents comps)"
  shows "mset (concat gs) = mset [0..<n]" and "length gs \<le> max agents 1"
    and "d \<in> set comps \<Longrightarrow> inside_one gs d" and "balanced M gs"
    and "length gs < max agents 1 \<Longrightarrow> set gs \<subseteq> set comps"
proof -
  let ?k = "min (max agents 1) (max (length comps) 1)"
  let ?gs = "replicate ?k ([] :: nat list)"
  have "0 < ?k" by linarith
  then have ne: "?gs \<noteq> []" by (metis length_greater_0_conv length_replicate)
  have c: "[] \<notin> set comps" using assms(1) by (simp add: comps_ok_def)
  have b: "balanced M ?gs" by (simp add: balanced_def)
  have emp: "empties ?gs = ?k" by (simp add: empties_def)
  note all = place_all [OF ne c b assms(2)]
  have conc: "concat (filter (\<lambda>g. g \<noteq> []) xs) = concat xs" for xs :: "nat list list" by (induction xs) auto
  have "mset (concat (balance agents comps)) = mset (concat comps)"
    using all by (simp add: balance_def concat_replicate_trivial)
  with assms(1) show "mset (concat gs) = mset [0..<n]" by (simp add: gs_def conc comps_ok_def)
  have len: "length (balance agents comps) = ?k" using all by (simp add: balance_def)
  have le: "length gs \<le> ?k" unfolding gs_def using length_filter_le len by metis
  then show "length gs \<le> max agents 1" by linarith
  show "inside_one gs d" if d: "d \<in> set comps"
  proof -
    have "inside_one (balance agents comps) d" using all d unfolding balance_def by blast
    then obtain g where "g \<in> set (balance agents comps)" "set d \<subseteq> set g" unfolding inside_one_def by blast
    moreover have "d \<noteq> []" using d c by metis
    ultimately show ?thesis unfolding inside_one_def gs_def by (metis (mono_tags, lifting) filter_set list.set(1) mem_Collect_eq set_filter set_empty subset_empty)
  qed
  show "balanced M gs" using all unfolding balance_def gs_def balanced_def by auto
  show "set gs \<subseteq> set comps" if few: "length gs < max agents 1"
  proof (cases "comps = []")
    case True
    then show ?thesis by (simp add: gs_def balance_def)
  next
    case False
    then have k: "?k \<le> length comps" by (cases comps) auto
    then have "empties (balance agents comps) = 0" using all emp by (simp add: balance_def)
    then have "gs = balance agents comps"
      unfolding gs_def empties_def by (metis (mono_tags, lifting) filter_True filter_empty_conv length_0_conv)
    with len few have "?k < max agents 1" by simp
    with k False have "length comps \<le> ?k" by linarith
    then have "set (balance agents comps) \<subseteq> set comps \<union> set ?gs" using all emp unfolding balance_def by simp
    then show ?thesis unfolding gs_def by auto
  qed
qed

section \<open>The partition\<close>

text \<open>Two units are linked when one names the other among its dependencies.\<close>

definition linked_units :: "node list \<Rightarrow> (node \<times> node) set" where
  "linked_units cands = {(u, v). u \<in> set cands \<and> v \<in> set cands \<and>
     (node_nid v \<in> set (deps_list u) \<or> node_nid u \<in> set (deps_list v))}"

definition component_of :: "node list \<Rightarrow> node \<Rightarrow> node set" where
  "component_of cands u = {v. (u, v) \<in> (linked_units cands)\<^sup>*}"

lemma index_of_iff:
  assumes "distinct (map node_nid cands)"
  shows "unit_index cands d = Some j \<longleftrightarrow> j < length cands \<and> node_nid (cands ! j) = d"
proof -
  have "distinct (map fst (rev (zip (map node_nid cands) [0..<length cands])))"
    using assms by (simp add: rev_map [symmetric])
  then show ?thesis unfolding unit_index_def
    by (subst map_of_eq_Some_iff) (force simp: set_zip)+
qed

lemma dep_edges_iff:
  assumes "distinct (map node_nid cands)"
  shows "(i, j) \<in> set (dep_edges cands) \<longleftrightarrow>
    i < length cands \<and> j < length cands \<and> node_nid (cands ! j) \<in> set (deps_list (cands ! i))"
proof -
  have filt: "(i, j) \<in> set (List.map_filter (\<lambda>d. map_option (\<lambda>j. (k, j)) (unit_index cands d)) ds) \<longleftrightarrow>
      i = k \<and> (\<exists>d \<in> set ds. unit_index cands d = Some j)" for k ds
    by (induction ds) (auto simp: map_filter_simps split: option.splits)
  have "(i, j) \<in> set (dep_edges cands) \<longleftrightarrow> i < length cands \<and> (\<exists>d \<in> set (deps_list (cands ! i)). unit_index cands d = Some j)"
    by (simp add: dep_edges_def filt)
  then show ?thesis unfolding index_of_iff [OF assms] by blast
qed

lemma conn_linked:
  assumes "distinct (map node_nid cands)" and "(i, j) \<in> conn (set (dep_edges cands))"
  shows "(cands ! i, cands ! j) \<in> (linked_units cands)\<^sup>*"
  using assms(2) unfolding conn_def
proof (induction rule: rtrancl_induct)
  case (step j k)
  have "(cands ! j, cands ! k) \<in> linked_units cands"
    using step(2) dep_edges_iff [OF assms(1)] by (auto simp: linked_units_def)
  with step.IH show ?case by (rule rtrancl_into_rtrancl)
qed simp

lemma partition_result:
  assumes "\<And>xs. mset (order xs) = mset xs"
  obtains comps where "comps_ok (length (plan_candidates idx paths)) (set (dep_edges (plan_candidates idx paths))) comps"
    and "partition_units order idx paths agents = Inr (map (group_of_indices idx (plan_candidates idx paths))
      (filter (\<lambda>g. g \<noteq> []) (balance agents comps)))"
proof -
  let ?cands = "plan_candidates idx paths"
  from components_spec obtain comps where comps: "components_of ?cands = Some (Inr comps)"
    "comps_ok (length ?cands) (set (dep_edges ?cands)) comps" by blast
  have "mset comps = mset (sort_key (comp_key ?cands) (order comps))" using assms by simp
  from comps_ok_cong [OF this comps(2)] show thesis
    by (rule that) (simp add: partition_units_def comps(1) Let_def)
qed

lemma sg_units_set [simp]: "set (sg_units (group_of_indices idx cands g)) = (\<lambda>i. unit_triple (cands ! i)) ` set g"
  by (simp add: group_of_indices_def Let_def)

lemma sg_units_mset [simp]: "mset (sg_units (group_of_indices idx cands g)) = image_mset (\<lambda>i. unit_triple (cands ! i)) (mset g)"
  by (simp add: group_of_indices_def Let_def)

lemma sg_units_length [simp]: "length (sg_units (group_of_indices idx cands g)) = length g"
  by (simp add: group_of_indices_def Let_def)

lemma unit_triple_inj:
  "distinct (map node_nid cands) \<Longrightarrow> i < length cands \<Longrightarrow> j < length cands \<Longrightarrow>
    unit_triple (cands ! i) = unit_triple (cands ! j) \<Longrightarrow> i = j"
  unfolding unit_triple_def by (metis distinct_conv_nth length_map nth_map prod.inject)

text \<open>Lists of positions that share out all positions.\<close>

lemma position_bound: "mset (concat gs) = mset [0..<n] \<Longrightarrow> g \<in> set gs \<Longrightarrow> i \<in> set g \<Longrightarrow> i < n"
  by (metis UN_I atLeastLessThan_iff mset_eq_setD set_concat set_upt)

lemma one_position:
  "mset (concat gs) = mset [0..<n] \<Longrightarrow> g \<in> set gs \<Longrightarrow> h \<in> set gs \<Longrightarrow> i \<in> set g \<Longrightarrow> i \<in> set h \<Longrightarrow> g = h"
  by (metis IntI distinct_concat_iff distinct_upt empty_iff mset_eq_imp_distinct_iff)

lemma groups_units:
  assumes "mset (concat gs) = mset [0..<length cands]"
  shows "mset (concat (map sg_units (map (group_of_indices idx cands) gs))) = mset (map unit_triple cands)"
proof -
  have flat: "mset (concat (map sg_units (map (group_of_indices idx cands) gs))) =
      image_mset (\<lambda>i. unit_triple (cands ! i)) (mset (concat gs))"
    by (induction gs) simp_all
  have "map (\<lambda>i. unit_triple (cands ! i)) [0..<length cands] = map unit_triple cands"
    by (rule nth_equalityI) simp_all
  then have "image_mset (\<lambda>i. unit_triple (cands ! i)) (mset [0..<length cands]) = mset (map unit_triple cands)"
    by (metis mset_map)
  then show ?thesis unfolding flat assms .
qed

text \<open>C39: a partition always succeeds, makes at most as many groups as there are agents, hands out every
  candidate unit exactly once, and never separates a unit from one it depends on.\<close>

theorem partition_keeps_dependents:
  assumes "\<And>xs. mset (order xs) = mset xs" and "distinct (map node_nid (ni_nodes idx))"
  shows "\<exists>groups. partition_units order idx paths agents = Inr groups \<and> length groups \<le> max agents 1 \<and>
    mset (concat (map sg_units groups)) = mset (map unit_triple (plan_candidates idx paths)) \<and>
    (\<forall>g \<in> set groups. \<forall>u \<in> set (plan_candidates idx paths). \<forall>v \<in> set (plan_candidates idx paths).
       node_nid v \<in> set (deps_list u) \<longrightarrow>
       (unit_triple u \<in> set (sg_units g) \<longleftrightarrow> unit_triple v \<in> set (sg_units g)))"
proof -
  let ?cands = "plan_candidates idx paths" and ?n = "length (plan_candidates idx paths)"
  have dist: "distinct (map node_nid ?cands)" using assms(2) by (simp add: plan_candidates_def distinct_map_filter)
  from partition_result [of order idx paths agents, OF assms(1)] obtain comps where
    ok: "comps_ok ?n (set (dep_edges ?cands)) comps"
    and res: "partition_units order idx paths agents =
      Inr (map (group_of_indices idx ?cands) (filter (\<lambda>g. g \<noteq> []) (balance agents comps)))" .
  let ?gs = "filter (\<lambda>g. g \<noteq> []) (balance agents comps)"
  have M: "\<forall>c \<in> set comps. length c \<le> Max (insert 0 (length ` set comps))" by simp
  note bal = balance_spec [where agents = agents, OF ok M]
  have all: "mset (concat (map sg_units (map (group_of_indices idx ?cands) ?gs))) = mset (map unit_triple ?cands)"
    by (rule groups_units [OF bal(1)])
  note disj = one_position [OF bal(1)] and bound = position_bound [OF bal(1)]
  have iff: "unit_triple (?cands ! i) \<in> set (sg_units (group_of_indices idx ?cands g)) \<longleftrightarrow> i \<in> set g"
    if "i < ?n" "g \<in> set ?gs" for i g
    using unit_triple_inj [OF dist that(1)] bound [OF that(2)] by auto
  have "unit_triple u \<in> set (sg_units (group_of_indices idx ?cands g)) \<longleftrightarrow>
      unit_triple v \<in> set (sg_units (group_of_indices idx ?cands g))"
    if g: "g \<in> set ?gs" and u: "u \<in> set ?cands" and v: "v \<in> set ?cands" and dep: "node_nid v \<in> set (deps_list u)" for g u v
  proof -
    from u v obtain i j where ij: "i < ?n" "u = ?cands ! i" "j < ?n" "v = ?cands ! j" by (metis in_set_conv_nth)
    then have "(i, j) \<in> conn (set (dep_edges ?cands))" using dep dep_edges_iff [OF dist] conn_edge by blast
    moreover obtain c where c: "c \<in> set comps" "i \<in> set c"
    proof -
      have "i \<in> set (concat comps)" using ok ij(1) unfolding comps_ok_def
        by (metis atLeastLessThan_iff le0 mset_eq_setD set_upt)
      then show thesis using that by auto
    qed
    ultimately have "j \<in> set c" using ok ij(3) unfolding comps_ok_def by blast
    obtain h where "h \<in> set ?gs" "set c \<subseteq> set h" using bal(3) [OF c(1)] unfolding inside_one_def by blast
    then have "i \<in> set g \<longleftrightarrow> j \<in> set g" using disj [OF g] c(2) \<open>j \<in> set c\<close> by blast
    then show ?thesis using iff [OF ij(1) g] iff [OF ij(3) g] ij(2,4) by blast
  qed
  with res all bal(2) show ?thesis by (intro exI [of _ "map (group_of_indices idx ?cands) ?gs"]) auto
qed

text \<open>The groups of a partition differ in size by no more than the largest set of units that hang together,
  and when there are fewer groups than agents, every group is one such set, so nothing more could be split.\<close>

theorem partition_balanced:
  assumes "\<And>xs. mset (order xs) = mset xs" and "distinct (map node_nid (ni_nodes idx))"
    and "\<forall>u \<in> set (plan_candidates idx paths). card (component_of (plan_candidates idx paths) u) \<le> M"
    and "partition_units order idx paths agents = Inr groups"
  shows "(\<forall>g \<in> set groups. \<forall>h \<in> set groups. length (sg_units g) \<le> length (sg_units h) + M) \<and>
    (length groups < max agents 1 \<longrightarrow> (\<forall>g \<in> set groups. \<forall>x \<in> set (sg_units g). \<forall>y \<in> set (sg_units g).
       \<exists>u v. x = unit_triple u \<and> y = unit_triple v \<and> v \<in> component_of (plan_candidates idx paths) u))"
proof -
  let ?cands = "plan_candidates idx paths" and ?n = "length (plan_candidates idx paths)"
  have dist: "distinct (map node_nid ?cands)" using assms(2) by (simp add: plan_candidates_def distinct_map_filter)
  from partition_result [of order idx paths agents, OF assms(1)] obtain comps where
    ok: "comps_ok ?n (set (dep_edges ?cands)) comps"
    and res: "partition_units order idx paths agents =
      Inr (map (group_of_indices idx ?cands) (filter (\<lambda>g. g \<noteq> []) (balance agents comps)))" .
  let ?gs = "filter (\<lambda>g. g \<noteq> []) (balance agents comps)"
  have groups: "groups = map (group_of_indices idx ?cands) ?gs" using res assms(4) by simp
  have part: "mset (concat comps) = mset [0..<?n]" using ok by (simp add: comps_ok_def)
  note bound = position_bound [OF part]
  have reach: "?cands ! j \<in> component_of ?cands (?cands ! i)" if "c \<in> set comps" "i \<in> set c" "j \<in> set c" for c i j
  proof -
    have "(i, j) \<in> conn (set (dep_edges ?cands))" using ok that bound [OF that(1,3)] unfolding comps_ok_def by blast
    from conn_linked [OF dist this] show ?thesis by (simp add: component_of_def)
  qed
  have "length c \<le> M" if c: "c \<in> set comps" for c
  proof (cases "c = []")
    case False
    then obtain i where i: "i \<in> set c" by (cases c) auto
    have u: "?cands ! i \<in> set ?cands" using bound [OF c i] by simp
    have "component_of ?cands (?cands ! i) \<subseteq> insert (?cands ! i) (set ?cands)"
      unfolding component_of_def by (auto elim!: rtranclE simp: linked_units_def)
    then have fin: "finite (component_of ?cands (?cands ! i))" by (rule finite_subset) simp
    have "distinct (concat comps)" using part by (metis distinct_upt mset_eq_imp_distinct_iff)
    then have "distinct c" using c by (simp add: distinct_concat_iff)
    moreover have "inj_on ((!) ?cands) (set c)"
      using bound [OF c] dist by (auto intro!: inj_onI simp: nth_eq_iff_index_eq distinct_map)
    ultimately have "length c = card ((!) ?cands ` set c)" by (simp add: card_image distinct_card)
    also have "\<dots> \<le> card (component_of ?cands (?cands ! i))" using reach [OF c i] by (intro card_mono fin) blast
    also have "\<dots> \<le> M" using assms(3) u by blast
    finally show ?thesis .
  qed simp
  then have M: "\<forall>c \<in> set comps. length c \<le> M" by blast
  note bal = balance_spec [where agents = agents, OF ok M]
  have "\<forall>g \<in> set groups. \<forall>h \<in> set groups. length (sg_units g) \<le> length (sg_units h) + M"
    using bal(4) unfolding groups balanced_def by auto
  moreover have "\<exists>u v. x = unit_triple u \<and> y = unit_triple v \<and> v \<in> component_of ?cands u"
    if "length groups < max agents 1" "g \<in> set groups" "x \<in> set (sg_units g)" "y \<in> set (sg_units g)" for g x y
  proof -
    from that(1) have "set ?gs \<subseteq> set comps" using bal(5) unfolding groups by simp
    with that(2) obtain c where "c \<in> set comps" "g = group_of_indices idx ?cands c" unfolding groups by auto
    with that(3,4) reach show ?thesis by auto blast
  qed
  ultimately show ?thesis by blast
qed

section \<open>A small index\<close>

definition swarm_unit :: "u8 \<Rightarrow> string \<Rightarrow> eid list \<Rightarrow> node" where
  "swarm_unit b name deps =
     \<lparr>node_nid = replicate 16 b, node_path = ''src/x'', node_kind = ''function'', node_name = name,
      node_span = (0, 0), node_body = replicate 32 b, node_parent = None, node_deps = Some deps, node_setlike = None\<rparr>"

definition swarm_index :: node_index where
  "swarm_index =
     \<lparr>ni_root = replicate 32 0, ni_grammars = ''g'', ni_parents = [],
      ni_nodes = [swarm_unit 1 ''a'' [replicate 16 2], swarm_unit 2 ''b'' [], swarm_unit 3 ''c'' []], ni_aliases = None\<rparr>"

lemma swarm_index_distinct: "distinct (map node_nid (ni_nodes swarm_index))"
  by (simp add: swarm_index_def swarm_unit_def)

theorem partition_keeps_dependents_witness:
  "\<exists>groups. partition_units rev swarm_index [''src/*''] 2 = Inr groups \<and> length groups \<le> 2 \<and>
    mset (concat (map sg_units groups)) = mset (map unit_triple (plan_candidates swarm_index [''src/*'']))"
  using partition_keeps_dependents [of rev swarm_index "[''src/*'']" 2, OF _ swarm_index_distinct] by auto

theorem partition_balanced_witness:
  "\<exists>groups. partition_units rev swarm_index [''src/*''] 2 = Inr groups \<and>
    (\<forall>g \<in> set groups. \<forall>h \<in> set groups. length (sg_units g) \<le> length (sg_units h) + 3)"
proof -
  let ?cands = "plan_candidates swarm_index [''src/*'']"
  have rev: "mset (rev xs) = mset xs" for xs :: "nat list list" by simp
  have "card (component_of ?cands u) \<le> 3" if "u \<in> set ?cands" for u
  proof -
    have "component_of ?cands u \<subseteq> set ?cands"
      using that unfolding component_of_def by (auto elim!: rtranclE simp: linked_units_def)
    also have "\<dots> \<subseteq> set (ni_nodes swarm_index)" by (auto simp: plan_candidates_def)
    finally have "card (component_of ?cands u) \<le> card (set (ni_nodes swarm_index))" by (intro card_mono) simp_all
    also have "\<dots> \<le> length (ni_nodes swarm_index)" by (rule card_length)
    finally show ?thesis by (simp add: swarm_index_def)
  qed
  then have M: "\<forall>u \<in> set ?cands. card (component_of ?cands u) \<le> 3" by blast
  obtain groups where groups: "partition_units rev swarm_index [''src/*''] 2 = Inr groups"
    by (rule partition_result [of rev swarm_index "[''src/*'']" 2, OF rev]) blast
  from partition_balanced [OF rev swarm_index_distinct M groups] groups show ?thesis by blast
qed

end
