(* ===== verification/Sem_Index.thy ===== *)
theory Sem_Index
  imports Matching Imports Trees Merge_File Standards
begin

text \<open>
  The semantic index of the daemon: the first half of \<open>crates/tessra-daemon/src/semantic.rs\<close>.

  The nodes of a tree are built file by file. A file that did not change keeps the nodes of the parent's
  index, another is extracted and matched; what a file could not resolve is looked up afterwards in the
  files it imports. \<open>fresh\<close> gives the ids drawn at random for a path. A hash map collected from nodes keeps
  the last node of a key.
\<close>

section \<open>Blobs\<close>

definition blob_of :: "ext \<Rightarrow> objs \<Rightarrow> oid \<Rightarrow> bytes option" where
  "blob_of x s i =
     (case s i of
        None \<Rightarrow> None
      | Some (OBlob b) \<Rightarrow> Some b
      | Some y \<Rightarrow> (case ext_bytes x y of Inr b \<Rightarrow> Some b | Inl _ \<Rightarrow> None))"

definition nodes_for_path :: "node list \<Rightarrow> string \<Rightarrow> node list" where
  "nodes_for_path nodes path = filter (\<lambda>n. node_path n = path) nodes"

section \<open>The nodes of a tree\<close>

record build_state =
  bs_out :: "node list"
  bs_pending :: "(nat \<times> string list) list"
  bs_imports :: "(string, string list) btree"

definition leaf_ref_at :: "flat \<Rightarrow> string \<Rightarrow> oid option" where
  "leaf_ref_at flat path = Option.bind (map_of flat path) lf_ref"

definition unchanged_from :: "(flat \<times> node_index) option \<Rightarrow> bool \<Rightarrow> string \<Rightarrow> oid \<Rightarrow> bool" where
  "unchanged_from parent refresh path blob \<longleftrightarrow>
     (case parent of None \<Rightarrow> False | Some (pflat, _) \<Rightarrow> \<not> refresh \<and> leaf_ref_at pflat path = Some blob)"

definition parent_nodes :: "(flat \<times> node_index) option \<Rightarrow> string \<Rightarrow> node list" where
  "parent_nodes parent path = (case parent of None \<Rightarrow> [] | Some (_, idx) \<Rightarrow> nodes_for_path (ni_nodes idx) path)"

definition parent_source :: "ext \<Rightarrow> objs \<Rightarrow> (flat \<times> node_index) option \<Rightarrow> string \<Rightarrow> bytes option" where
  "parent_source x s parent path =
     (case parent of
        None \<Rightarrow> None
      | Some (pflat, _) \<Rightarrow>
          if parent_nodes parent path = [] then None
          else Option.bind (leaf_ref_at pflat path) (blob_of x s))"

text \<open>What a file leaves unresolved, with the position of the unit in the whole list.\<close>

definition left_over :: "nat \<Rightarrow> string list list \<Rightarrow> (nat \<times> string list) list" where
  "left_over start unresolved = filter (\<lambda>(_, l). l \<noteq> []) (zip [start..<start + length unresolved] unresolved)"

definition import_statements :: "raw_node list \<Rightarrow> string list" where
  "import_statements raw = map rw_name (filter (\<lambda>r. rw_kind r = ''import'' \<or> rw_kind r = ''export'') raw)"

definition extract_step ::
  "ext \<Rightarrow> sem_ext \<Rightarrow> (string \<Rightarrow> nat \<Rightarrow> eid) \<Rightarrow> objs \<Rightarrow> flat \<Rightarrow> (flat \<times> node_index) option \<Rightarrow>
     string \<Rightarrow> bytes \<Rightarrow> build_state \<Rightarrow> build_state res" where
  "extract_step x sx fresh s flat parent path src st =
     rbind (of_opt Other (extract_units sx path src)) (\<lambda>raw.
     (case assign_ids_with_refs sx (fresh path) path raw (parent_nodes parent path) (parent_source x s parent path) of
        (nodes, unresolved) \<Rightarrow>
          (let left = left_over (length (bs_out st)) unresolved
           in rbind (if left = [] then Inr (bs_imports st)
                     else rbind (of_opt Panic (imported_paths path (import_statements raw) (\<lambda>p. map_of flat p \<noteq> None)))
                            (\<lambda>is. Inr (bt_insert path is (bs_imports st)))) (\<lambda>imports.
              Inr \<lparr>bs_out = bs_out st @ nodes, bs_pending = bs_pending st @ left, bs_imports = imports\<rparr>))))"

definition file_step ::
  "ext \<Rightarrow> sem_ext \<Rightarrow> (string \<Rightarrow> nat \<Rightarrow> eid) \<Rightarrow> objs \<Rightarrow> flat \<Rightarrow> (flat \<times> node_index) option \<Rightarrow> bool \<Rightarrow>
     string \<times> leaf \<Rightarrow> build_state \<Rightarrow> build_state res" where
  "file_step x sx fresh s flat parent refresh pl st =
     (case pl of (path, l) \<Rightarrow>
        if lf_kind l \<noteq> File then Inr st
        else (case lf_ref l of
                None \<Rightarrow> Inr st
              | Some blob \<Rightarrow>
                  if unchanged_from parent refresh path blob
                  then Inr (st\<lparr>bs_out := bs_out st @ parent_nodes parent path\<rparr>)
                  else (case blob_of x s blob of
                          None \<Rightarrow> Inr st
                        | Some src \<Rightarrow> extract_step x sx fresh s flat parent path src st)))"

section \<open>References across files\<close>

definition top_named :: "node list \<Rightarrow> string \<Rightarrow> string \<Rightarrow> eid list" where
  "top_named nodes path name =
     map node_nid (filter (\<lambda>n. node_parent n = None \<and> is_identifier (node_name n) \<and>
       node_kind n \<noteq> ''test'' \<and> node_kind n \<noteq> ''test.skipped'' \<and> node_path n = path \<and> node_name n = name) nodes)"

definition resolve_name :: "node list \<Rightarrow> string list \<Rightarrow> eid \<Rightarrow> string \<Rightarrow> eid option" where
  "resolve_name nodes files own name =
     (case btree_list (concat (map (\<lambda>f. top_named nodes f name) files)) of
        [one] \<Rightarrow> if one \<noteq> own then Some one else None
      | _ \<Rightarrow> None)"

definition resolve_pending :: "node list \<Rightarrow> (string, string list) btree \<Rightarrow> nat \<times> string list \<Rightarrow> nat \<times> eid list" where
  "resolve_pending out imports p =
     (let u = out ! fst p;
          files = (case map_of imports (node_path u) of None \<Rightarrow> [] | Some fs \<Rightarrow> fs)
      in (fst p, List.map_filter (resolve_name out files (node_nid u)) (snd p)))"

definition add_deps :: "eid list \<Rightarrow> node \<Rightarrow> node" where
  "add_deps ids n =
     (if ids = [] then n
      else n\<lparr>node_deps := Some (btree_list ((case node_deps n of None \<Rightarrow> [] | Some ds \<Rightarrow> ds) @ ids))\<rparr>)"

definition resolve_across :: "build_state \<Rightarrow> node list" where
  "resolve_across st =
     fold (\<lambda>(i, ids) out. out[i := add_deps ids (out ! i)])
       (map (resolve_pending (bs_out st) (bs_imports st)) (bs_pending st)) (bs_out st)"

definition build_nodes_with ::
  "ext \<Rightarrow> sem_ext \<Rightarrow> (string \<Rightarrow> nat \<Rightarrow> eid) \<Rightarrow> objs \<Rightarrow> flat \<Rightarrow> (flat \<times> node_index) option \<Rightarrow> bool \<Rightarrow> node list res" where
  "build_nodes_with x sx fresh s flat parent refresh =
     rbind (rfold (file_step x sx fresh s flat parent refresh) flat \<lparr>bs_out = [], bs_pending = [], bs_imports = []\<rparr>) (\<lambda>st.
     Inr (sort_key (\<lambda>n. (node_path n, fst (node_span n))) (resolve_across st)))"

definition build_nodes ::
  "ext \<Rightarrow> sem_ext \<Rightarrow> (string \<Rightarrow> nat \<Rightarrow> eid) \<Rightarrow> objs \<Rightarrow> flat \<Rightarrow> (flat \<times> node_index) option \<Rightarrow> node list res" where
  "build_nodes x sx fresh s flat parent = build_nodes_with x sx fresh s flat parent False"

section \<open>Aliases\<close>

definition aliases_of :: "node_index option list \<Rightarrow> (eid, eid) btree" where
  "aliases_of indexes =
     fold (\<lambda>(k, v) m. case eid_from_slice k of Inr k \<Rightarrow> bt_insert k v m | Inl _ \<Rightarrow> m)
       (concat (map (\<lambda>idx. case ni_aliases idx of None \<Rightarrow> [] | Some as \<Rightarrow> as) (List.map_filter id indexes))) []"

fun resolve_alias :: "nat \<Rightarrow> (eid, eid) btree \<Rightarrow> eid \<Rightarrow> eid" where
  "resolve_alias 0 m i = i"
| "resolve_alias (Suc n) m i =
     (case map_of m i of Some next \<Rightarrow> if next \<noteq> i then resolve_alias n m next else i | None \<Rightarrow> i)"

definition canonical_nodes :: "node list \<Rightarrow> (eid, eid) btree \<Rightarrow> node list" where
  "canonical_nodes nodes aliases =
     (if aliases = [] then nodes
      else map (\<lambda>n. n\<lparr>node_nid := resolve_alias 64 aliases (node_nid n),
                      node_parent := map_option (resolve_alias 64 aliases) (node_parent n)\<rparr>) nodes)"

text \<open>The other unit is looked for among the merged ones that are new and not taken yet.\<close>

definition alias_candidate :: "node list \<Rightarrow> eid list \<Rightarrow> eid list \<Rightarrow> node \<Rightarrow> node option" where
  "alias_candidate merged base_ids taken u =
     (let free = filter (\<lambda>m. node_path m = node_path u \<and> node_nid m \<notin> set base_ids \<and> node_nid m \<notin> set taken) merged
      in case List.find (\<lambda>m. node_kind m = node_kind u \<and> node_name m = node_name u \<and>
             (node_parent m \<noteq> None) = (node_parent u \<noteq> None)) free of
           Some m \<Rightarrow> Some m
         | None \<Rightarrow> List.find (\<lambda>m. node_kind m = node_kind u \<and> node_body m = node_body u) free)"

record alias_state =
  as_taken :: "eid list"
  as_aliases :: "(eid, eid) btree"
  as_renumber :: "(eid, eid) btree"

definition alias_step :: "node list \<Rightarrow> eid list \<Rightarrow> node \<Rightarrow> alias_state \<Rightarrow> alias_state" where
  "alias_step merged base_ids u st =
     (if node_nid u \<in> set base_ids \<or> node_nid u \<in> node_nid ` set merged then st
      else (case alias_candidate merged base_ids (as_taken st) u of
              None \<Rightarrow> st
            | Some m \<Rightarrow>
                (let st = st\<lparr>as_taken := node_nid m # as_taken st\<rparr>
                 in if node_nid u < node_nid m
                    then st\<lparr>as_renumber := bt_insert (node_nid m) (node_nid u) (as_renumber st),
                            as_aliases := bt_insert (node_nid m) (node_nid u) (as_aliases st)\<rparr>
                    else st\<lparr>as_aliases := bt_insert (node_nid u) (node_nid m) (as_aliases st)\<rparr>)))"

definition renumbered :: "(eid, eid) btree \<Rightarrow> eid \<Rightarrow> eid" where
  "renumbered m i = (case map_of m i of Some j \<Rightarrow> j | None \<Rightarrow> i)"

definition renumber_node :: "(eid, eid) btree \<Rightarrow> node \<Rightarrow> node" where
  "renumber_node m n =
     n\<lparr>node_nid := renumbered m (node_nid n),
       node_parent := map_option (renumbered m) (node_parent n),
       node_deps := map_option (\<lambda>ds. btree_list (map (renumbered m) ds)) (node_deps n)\<rparr>"

definition reconcile_aliases :: "node list \<Rightarrow> node_index option \<Rightarrow> node_index \<Rightarrow> node list \<times> (eid, eid) btree" where
  "reconcile_aliases merged base other =
     (let base_ids = (case base of None \<Rightarrow> [] | Some b \<Rightarrow> map node_nid (ni_nodes b));
          st = fold (alias_step merged base_ids) (ni_nodes other) \<lparr>as_taken = [], as_aliases = [], as_renumber = []\<rparr>
      in (if as_renumber st = [] then merged else map (renumber_node (as_renumber st)) merged, as_aliases st))"

section \<open>Renames\<close>

definition index_paths :: "node_index \<Rightarrow> string list" where
  "index_paths idx = btree_list (map node_path (ni_nodes idx))"

text \<open>The paths of the side come out of a hash map: \<open>order\<close> permutes them.\<close>

definition renames_between :: "(string list \<Rightarrow> string list) \<Rightarrow> node_index \<Rightarrow> node_index \<Rightarrow> rename list" where
  "renames_between order base side =
     (let aliases = aliases_of [Some base, Some side]
      in concat (map (\<lambda>path.
           if path \<notin> set (index_paths base) then []
           else (let before = canonical_nodes (nodes_for_path (ni_nodes base) path) aliases;
                     after = canonical_nodes (nodes_for_path (ni_nodes side) path) aliases
                 in map (\<lambda>(nid, r).
                      if list_ex (\<lambda>n. node_nid n = nid \<and> node_parent n = None) after then r\<lparr>rn_path := None\<rparr> else r)
                    (inferred_renames path before after)))
         (order (index_paths side))))"

definition recorded_renames :: "sem_op list \<Rightarrow> rename list" where
  "recorded_renames ops =
     List.map_filter (\<lambda>op.
       if so_kind op \<noteq> ''rename'' then None
       else (let txt = (\<lambda>k. Option.bind (map_of (so_args op) k) as_text)
             in Option.bind (txt ''from'') (\<lambda>f. Option.bind (txt ''to'') (\<lambda>t.
                Some \<lparr>rn_from = f, rn_to = t, rn_path = txt ''path''\<rparr>))))
     ops"

definition rename_op :: "string \<Rightarrow> string \<Rightarrow> string option \<Rightarrow> sem_op" where
  "rename_op f t path =
     \<lparr>so_kind = ''rename'',
      so_args = (let args = bt_insert ''to'' (VText t) (bt_insert ''from'' (VText f) [])
                 in case path of None \<Rightarrow> args | Some p \<Rightarrow> bt_insert ''path'' (VText p) args)\<rparr>"

section \<open>Differences and coverage\<close>

datatype unit_change_kind = UAdded | URemoved | UChanged | URenamed string

record unit_change =
  uc_path :: string
  uc_kind :: string
  uc_name :: string
  uc_nid :: eid
  uc_change :: unit_change_kind

definition change_of :: "node \<Rightarrow> unit_change_kind \<Rightarrow> unit_change" where
  "change_of n k = \<lparr>uc_path = node_path n, uc_kind = node_kind n, uc_name = node_name n, uc_nid = node_nid n, uc_change = k\<rparr>"

definition after_change :: "node_index \<Rightarrow> node \<Rightarrow> unit_change option" where
  "after_change before n =
     (case node_by_id (ni_nodes before) (node_nid n) of
        None \<Rightarrow> Some (change_of n UAdded)
      | Some p \<Rightarrow>
          if node_name p \<noteq> node_name n then Some (change_of n (URenamed (node_name p)))
          else if node_body p \<noteq> node_body n then Some (change_of n UChanged)
          else None)"

definition diff_indexes :: "node_index \<Rightarrow> node_index \<Rightarrow> unit_change list" where
  "diff_indexes before after =
     sort_key (\<lambda>c. (uc_path c, uc_name c))
       (List.map_filter (after_change before) (ni_nodes after) @
        map (\<lambda>n. change_of n URemoved)
          (filter (\<lambda>n. node_nid n \<notin> node_nid ` set (ni_nodes after)) (ni_nodes before)))"

definition covering_tests :: "node_index \<Rightarrow> eid \<Rightarrow> node list" where
  "covering_tests idx d =
     concat (map (\<lambda>t. replicate (length (filter (\<lambda>e. e = d) (case node_deps t of None \<Rightarrow> [] | Some ds \<Rightarrow> ds))) t)
       (filter (\<lambda>n. node_kind n = ''test'') (ni_nodes idx)))"

end
