(* ===== verification/Alias_Props.thy ===== *)
theory Alias_Props
  imports Sem_Index
begin

text \<open>
  Two sides that give one unit two ids agree on one of them.

  \<open>alias_inv\<close> is the invariant of the loop of \<open>reconcile_aliases\<close> over the units of the other side.
\<close>

section \<open>The loop\<close>

abbreviation nids :: "node list \<Rightarrow> eid set" where
  "nids ns \<equiv> node_nid ` set ns"

definition base_nids :: "node_index option \<Rightarrow> eid list" where
  "base_nids base = (case base of None \<Rightarrow> [] | Some b \<Rightarrow> map node_nid (ni_nodes b))"

definition renum_inv :: "node list \<Rightarrow> eid list \<Rightarrow> node list \<Rightarrow> alias_state \<Rightarrow> bool" where
  "renum_inv merged base us st \<longleftrightarrow>
     set (as_taken st) \<subseteq> nids merged - set base \<and>
     (\<forall>k v. map_of (as_renumber st) k = Some v \<longrightarrow>
        k \<in> set (as_taken st) \<and> v \<in> nids us \<and> v \<notin> nids merged \<and> v \<notin> set base \<and> v < k) \<and>
     (\<forall>k k' v. map_of (as_renumber st) k = Some v \<longrightarrow> map_of (as_renumber st) k' = Some v \<longrightarrow> k = k')"

definition alias_entry :: "node list \<Rightarrow> node list \<Rightarrow> alias_state \<Rightarrow> eid \<Rightarrow> eid \<Rightarrow> bool" where
  "alias_entry merged us st k v \<longleftrightarrow>
     map_of (as_renumber st) k = Some v \<or>
     k \<in> nids us \<and> k \<notin> nids merged \<and> v \<in> set (as_taken st) \<and> map_of (as_renumber st) v = None \<and>
     (\<forall>j. map_of (as_renumber st) j \<noteq> Some k)"

definition alias_inv :: "node list \<Rightarrow> eid list \<Rightarrow> node list \<Rightarrow> alias_state \<Rightarrow> bool" where
  "alias_inv merged base us st \<longleftrightarrow>
     renum_inv merged base us st \<and>
     (\<forall>k v. map_of (as_aliases st) k = Some v \<longrightarrow>
        v < k \<and> k \<notin> set base \<and> v \<notin> set base \<and> alias_entry merged us st k v)"

lemma alias_candidateD:
  assumes "alias_candidate merged base taken u = Some m"
  shows "m \<in> set merged \<and> node_nid m \<notin> set base \<and> node_nid m \<notin> set taken \<and> node_path m = node_path u \<and> node_kind m = node_kind u"
  using assms by (auto simp: alias_candidate_def Let_def find_Some_iff split: option.splits dest!: nth_mem)

lemma renum_inv_mono: "renum_inv merged base us st \<Longrightarrow> renum_inv merged base (us @ [u]) st"
  unfolding renum_inv_def by auto

lemma alias_entry_mono: "alias_entry merged us st k v \<Longrightarrow> alias_entry merged (us @ [u]) st k v"
  unfolding alias_entry_def by auto

lemma alias_inv_mono: "alias_inv merged base us st \<Longrightarrow> alias_inv merged base (us @ [u]) st"
  unfolding alias_inv_def using renum_inv_mono alias_entry_mono by blast

lemma alias_inv_lower:
  assumes inv: "alias_inv merged base us st" and m: "alias_candidate merged base (as_taken st) u = Some m"
    and u: "node_nid u \<notin> nids us" "node_nid u \<notin> set base" "node_nid u \<notin> nids merged" "node_nid u < node_nid m"
  shows "alias_inv merged base (us @ [u]) (st\<lparr>as_taken := node_nid m # as_taken st,
     as_renumber := bt_insert (node_nid m) (node_nid u) (as_renumber st),
     as_aliases := bt_insert (node_nid m) (node_nid u) (as_aliases st)\<rparr>)" (is "alias_inv _ _ _ ?st")
proof -
  note c = alias_candidateD [OF m]
  have "renum_inv merged base (us @ [u]) ?st"
    using inv c u unfolding alias_inv_def renum_inv_def by (simp add: image_iff) blast
  moreover have "v < k \<and> k \<notin> set base \<and> v \<notin> set base \<and> alias_entry merged (us @ [u]) ?st k v"
    if kv: "map_of (as_aliases ?st) k = Some v" for k v
  proof (cases "k = node_nid m")
    case True
    with kv c u show ?thesis by (simp add: alias_entry_def)
  next
    case False
    with kv inv have "v < k \<and> k \<notin> set base \<and> v \<notin> set base" and e: "alias_entry merged us st k v"
      unfolding alias_inv_def by auto
    moreover have "alias_entry merged (us @ [u]) ?st k v"
      using e False c u(1) by (auto simp: alias_entry_def)
    ultimately show ?thesis by blast
  qed
  ultimately show ?thesis unfolding alias_inv_def by blast
qed

lemma alias_inv_higher:
  assumes inv: "alias_inv merged base us st" and m: "alias_candidate merged base (as_taken st) u = Some m"
    and u: "node_nid u \<notin> nids us" "node_nid u \<notin> set base" "node_nid u \<notin> nids merged" "\<not> node_nid u < node_nid m"
  shows "alias_inv merged base (us @ [u]) (st\<lparr>as_taken := node_nid m # as_taken st,
     as_aliases := bt_insert (node_nid u) (node_nid m) (as_aliases st)\<rparr>)" (is "alias_inv _ _ _ ?st")
proof -
  note c = alias_candidateD [OF m]
  from c u have lt: "node_nid m < node_nid u" by (metis image_eqI linorder_cases)
  from inv have ri: "renum_inv merged base us st" by (simp add: alias_inv_def)
  then have fresh: "map_of (as_renumber st) (node_nid m) = None" "\<And>j. map_of (as_renumber st) j \<noteq> Some (node_nid u)"
    using c u(1) unfolding renum_inv_def by (metis not_None_eq, metis)
  have "renum_inv merged base (us @ [u]) ?st"
    using ri c unfolding renum_inv_def by (simp add: image_iff) blast
  moreover have "v < k \<and> k \<notin> set base \<and> v \<notin> set base \<and> alias_entry merged (us @ [u]) ?st k v"
    if kv: "map_of (as_aliases ?st) k = Some v" for k v
  proof (cases "k = node_nid u")
    case True
    with kv c u fresh lt show ?thesis by (simp add: alias_entry_def)
  next
    case False
    with kv inv have "v < k \<and> k \<notin> set base \<and> v \<notin> set base" and e: "alias_entry merged us st k v"
      unfolding alias_inv_def by auto
    moreover have "alias_entry merged (us @ [u]) ?st k v" using e by (auto simp: alias_entry_def)
    ultimately show ?thesis by blast
  qed
  ultimately show ?thesis unfolding alias_inv_def by blast
qed

lemma alias_inv_step:
  assumes "alias_inv merged base us st" "node_nid u \<notin> nids us"
  shows "alias_inv merged base (us @ [u]) (alias_step merged base u st)"
proof (cases "node_nid u \<in> set base \<or> node_nid u \<in> nids merged \<or> alias_candidate merged base (as_taken st) u = None")
  case True
  then have "alias_step merged base u st = st" by (auto simp: alias_step_def)
  with alias_inv_mono [OF assms(1)] show ?thesis by simp
next
  case False
  then obtain m where m: "alias_candidate merged base (as_taken st) u = Some m" by auto
  from alias_inv_lower [OF assms(1) m assms(2)] alias_inv_higher [OF assms(1) m assms(2)] False m show ?thesis
    by (auto simp: alias_step_def Let_def)
qed

lemma alias_inv_loop:
  "alias_inv merged base us st \<Longrightarrow> distinct (map node_nid (us @ vs)) \<Longrightarrow>
     alias_inv merged base (us @ vs) (fold (alias_step merged base) vs st)"
proof (induction vs arbitrary: us st)
  case (Cons v vs)
  then have "alias_inv merged base (us @ [v]) (alias_step merged base v st)" by (intro alias_inv_step) auto
  from Cons.IH [OF this] Cons.prems(2) show ?case by simp
qed simp

section \<open>The renumbered units\<close>

lemma renumbered_in:
  assumes "renum_inv merged base us st" "k \<in> nids merged"
  shows "renumbered (as_renumber st) k \<notin> nids merged \<and> map_of (as_renumber st) k = Some (renumbered (as_renumber st) k) \<or>
         renumbered (as_renumber st) k = k \<and> map_of (as_renumber st) k = None"
  using assms unfolding renum_inv_def renumbered_def by (cases "map_of (as_renumber st) k") auto

lemma renumbered_inj:
  assumes "renum_inv merged base us st"
  shows "inj_on (renumbered (as_renumber st)) (nids merged)"
proof (rule inj_onI)
  fix j k assume jk: "j \<in> nids merged" "k \<in> nids merged" "renumbered (as_renumber st) j = renumbered (as_renumber st) k"
  from renumbered_in [OF assms jk(1)] renumbered_in [OF assms jk(2)] jk assms show "j = k"
    unfolding renum_inv_def by (metis (no_types, lifting))
qed

lemma alias_retired:
  assumes inv: "alias_inv merged base us st" and a: "map_of (as_aliases st) k = Some v"
  shows "k \<notin> renumbered (as_renumber st) ` nids merged \<and> v \<in> renumbered (as_renumber st) ` nids merged"
proof -
  from inv have ri: "renum_inv merged base us st" by (simp add: alias_inv_def)
  from inv a have "alias_entry merged us st k v" by (auto simp: alias_inv_def)
  then show ?thesis unfolding alias_entry_def
  proof
    assume k: "map_of (as_renumber st) k = Some v"
    with ri have "k \<in> nids merged" unfolding renum_inv_def by blast
    moreover from k have "renumbered (as_renumber st) k = v" by (simp add: renumbered_def)
    ultimately have "v \<in> renumbered (as_renumber st) ` nids merged" by blast
    moreover have "k \<notin> renumbered (as_renumber st) ` nids merged"
    proof
      assume "k \<in> renumbered (as_renumber st) ` nids merged"
      then obtain j where "j \<in> nids merged" "k = renumbered (as_renumber st) j" by blast
      with renumbered_in [OF ri] k \<open>k \<in> nids merged\<close> show False by fastforce
    qed
    ultimately show ?thesis by blast
  next
    assume k: "k \<in> nids us \<and> k \<notin> nids merged \<and> v \<in> set (as_taken st) \<and> map_of (as_renumber st) v = None \<and>
      (\<forall>j. map_of (as_renumber st) j \<noteq> Some k)"
    with ri have "v \<in> nids merged" unfolding renum_inv_def by blast
    moreover from k have "renumbered (as_renumber st) v = v" by (simp add: renumbered_def)
    ultimately have "v \<in> renumbered (as_renumber st) ` nids merged" by (metis imageI)
    moreover have "k \<notin> renumbered (as_renumber st) ` nids merged"
      using renumbered_in [OF ri] k by (metis imageE)
    ultimately show ?thesis by blast
  qed
qed


definition node_refs :: "node \<Rightarrow> eid set" where
  "node_refs n = set_option (node_parent n) \<union> (case node_deps n of None \<Rightarrow> {} | Some ds \<Rightarrow> set ds)"

definition node_shape :: "node \<Rightarrow> string \<times> string \<times> string \<times> (u64 \<times> u64) \<times> oid" where
  "node_shape n = (node_path n, node_kind n, node_name n, node_span n, node_body n)"

lemma node_refs_renumber: "node_refs (renumber_node m n) = renumbered m ` node_refs n"
  by (cases "node_parent n"; cases "node_deps n") (auto simp: node_refs_def renumber_node_def)

lemma node_nid_renumber [simp]: "node_nid (renumber_node m n) = renumbered m (node_nid n)"
  by (simp add: renumber_node_def)

lemma node_shape_renumber [simp]: "node_shape (renumber_node m n) = node_shape n"
  by (simp add: renumber_node_def node_shape_def)

lemma renumbered_Nil [simp]: "renumbered [] = id"
  by (rule ext) (simp add: renumbered_def)

text \<open>What the loop leaves, as the result of \<open>reconcile_aliases\<close>.\<close>

lemma reconcile_loop:
  assumes "distinct (map node_nid (ni_nodes other))" "reconcile_aliases merged base other = (nodes, aliases)"
  obtains st where "alias_inv merged (base_nids base) (ni_nodes other) st" "aliases = as_aliases st"
    "map node_nid nodes = map (\<lambda>n. renumbered (as_renumber st) (node_nid n)) merged"
    "map node_shape nodes = map node_shape merged"
    "\<And>n. n \<in> set nodes \<Longrightarrow> \<exists>n' \<in> set merged. node_refs n = renumbered (as_renumber st) ` node_refs n'"
proof -
  let ?st = "fold (alias_step merged (base_nids base)) (ni_nodes other) \<lparr>as_taken = [], as_aliases = [], as_renumber = []\<rparr>"
  have "alias_inv merged (base_nids base) [] \<lparr>as_taken = [], as_aliases = [], as_renumber = []\<rparr>"
    by (simp add: alias_inv_def renum_inv_def)
  from alias_inv_loop [OF this, of "ni_nodes other"] assms(1)
  have inv: "alias_inv merged (base_nids base) (ni_nodes other) ?st" by simp
  have al: "aliases = as_aliases ?st"
    and no: "nodes = (if as_renumber ?st = [] then merged else map (renumber_node (as_renumber ?st)) merged)"
    using assms(2) by (auto simp: reconcile_aliases_def Let_def base_nids_def)
  have refs: "\<exists>n' \<in> set merged. node_refs n = renumbered (as_renumber ?st) ` node_refs n'" if "n \<in> set nodes" for n
  proof (cases "as_renumber ?st = []")
    case True
    with that no show ?thesis by auto
  next
    case False
    with no that obtain n' where "n' \<in> set merged" "n = renumber_node (as_renumber ?st) n'" by auto
    then show ?thesis using node_refs_renumber by blast
  qed
  show thesis
    by (rule that [OF inv al _ _ refs]) (use no in \<open>auto simp: comp_def\<close>)
qed

lemma resolve_once: "map_of m k = Some v \<Longrightarrow> map_of m v = None \<Longrightarrow> v \<noteq> k \<Longrightarrow> resolve_alias 64 m k = v"
  using resolve_alias.simps(2) [of 63 m k] resolve_alias.simps(2) [of 62 m v] by simp

text \<open>Reconciling a merge keeps the merged units and their distinct ids, retires for every unit known by two
  ids the higher one, and leaves aliases that lead from retired ids to living ones in a single step, never
  touching an id of the base; references among the merged units stay references among them.\<close>

theorem reconciled_aliases:
  assumes "distinct (map node_nid merged)" "distinct (map node_nid (ni_nodes other))"
    "reconcile_aliases merged base other = (nodes, aliases)"
  shows "distinct (map node_nid nodes) \<and> map node_shape nodes = map node_shape merged \<and>
    (\<forall>k v. map_of aliases k = Some v \<longrightarrow> v < k \<and> k \<notin> nids nodes \<and> v \<in> nids nodes \<and>
       resolve_alias 64 aliases k = v \<and> k \<notin> set (base_nids base) \<and> v \<notin> set (base_nids base)) \<and>
    ((\<forall>n \<in> set merged. node_refs n \<subseteq> nids merged) \<longrightarrow> (\<forall>n \<in> set nodes. node_refs n \<subseteq> nids nodes))"
proof -
  obtain st where st: "alias_inv merged (base_nids base) (ni_nodes other) st" "aliases = as_aliases st"
    "map node_nid nodes = map (\<lambda>n. renumbered (as_renumber st) (node_nid n)) merged"
    "map node_shape nodes = map node_shape merged"
    "\<And>n. n \<in> set nodes \<Longrightarrow> \<exists>n' \<in> set merged. node_refs n = renumbered (as_renumber st) ` node_refs n'"
    using reconcile_loop [OF assms(2,3)] by metis
  from st(1) have ri: "renum_inv merged (base_nids base) (ni_nodes other) st" by (simp add: alias_inv_def)
  from arg_cong [OF st(3), of set] have ids: "nids nodes = renumbered (as_renumber st) ` nids merged"
    by (simp add: image_image)
  have "distinct (map node_nid nodes)"
    using assms(1) renumbered_inj [OF ri] unfolding st(3) by (simp add: distinct_map comp_inj_on_iff [symmetric] inj_on_def)
  moreover have "v < k \<and> k \<notin> nids nodes \<and> v \<in> nids nodes \<and> resolve_alias 64 aliases k = v \<and>
      k \<notin> set (base_nids base) \<and> v \<notin> set (base_nids base)" if a: "map_of aliases k = Some v" for k v
  proof -
    from a st have lt: "v < k \<and> k \<notin> set (base_nids base) \<and> v \<notin> set (base_nids base)" by (auto simp: alias_inv_def)
    from alias_retired [OF st(1)] a st(2) ids have r: "k \<notin> nids nodes" "v \<in> nids nodes" by auto
    from alias_retired [OF st(1), of v] st(2) ids r(2) have "map_of aliases v = None"
      by (cases "map_of aliases v") auto
    with a lt have "resolve_alias 64 aliases k = v" by (intro resolve_once) auto
    with r lt show ?thesis by blast
  qed
  moreover have "(\<forall>n \<in> set merged. node_refs n \<subseteq> nids merged) \<longrightarrow> (\<forall>n \<in> set nodes. node_refs n \<subseteq> nids nodes)"
    unfolding ids using image_mono st(5) by metis
  ultimately show ?thesis using st(4) by blast
qed


definition wit_unit :: "eid \<Rightarrow> node" where
  "wit_unit i = \<lparr>node_nid = i, node_path = ''a.rs'', node_kind = ''function'', node_name = ''f'', node_span = (0, 9),
     node_body = [7], node_parent = None, node_deps = None, node_setlike = None\<rparr>"

definition wit_other :: node_index where
  "wit_other = \<lparr>ni_root = [], ni_grammars = [], ni_parents = [], ni_nodes = [wit_unit [1]], ni_aliases = None\<rparr>"

lemma reconciled_aliases_witness:
  "reconcile_aliases [wit_unit [2]] None wit_other = ([wit_unit [1]], [([2], [1])]) \<and>
   resolve_alias 64 [([2], [1])] [2] = [1]"
proof -
  have r: "reconcile_aliases [wit_unit [2]] None wit_other = ([wit_unit [1]], [([2], [1])])" by code_simp
  from reconciled_aliases [OF _ _ r] show ?thesis using r by (simp add: wit_other_def)
qed

end
