(* ===== verification/Sem_Props.thy ===== *)
theory Sem_Props
  imports Alias_Props
begin

text \<open>
  The index of a tree file by file, the references across files, and the differences of two indexes.

  \<open>units_of_file\<close> says what one file contributes; the loop over the files is shown to put these
  contributions one after the other, and the look-ups afterwards to change dependencies only, and only of
  files that were read again.
\<close>

section \<open>What one file contributes\<close>

definition units_of_file ::
  "ext \<Rightarrow> sem_ext \<Rightarrow> (string \<Rightarrow> nat \<Rightarrow> eid) \<Rightarrow> objs \<Rightarrow> (flat \<times> node_index) option \<Rightarrow> bool \<Rightarrow> string \<Rightarrow> leaf \<Rightarrow> node list" where
  "units_of_file x sx fresh s parent refresh path l =
     (case lf_ref l of
        None \<Rightarrow> []
      | Some blob \<Rightarrow>
          if lf_kind l \<noteq> File then []
          else if unchanged_from parent refresh path blob then parent_nodes parent path
          else (case blob_of x s blob of
                  None \<Rightarrow> []
                | Some src \<Rightarrow>
                    (case extract_units sx path src of
                       None \<Rightarrow> []
                     | Some raw \<Rightarrow> fst (assign_ids_with_refs sx (fresh path) path raw (parent_nodes parent path)
                                      (parent_source x s parent path)))))"

definition kept_file :: "(flat \<times> node_index) option \<Rightarrow> bool \<Rightarrow> string \<times> leaf \<Rightarrow> bool" where
  "kept_file parent refresh pl \<longleftrightarrow>
     lf_kind (snd pl) = File \<and> (\<exists>blob. lf_ref (snd pl) = Some blob \<and> unchanged_from parent refresh (fst pl) blob)"

lemma assigned_paths: "n \<in> set (fst (assign_ids_with_refs sx f path raw prev src)) \<Longrightarrow> node_path n = path"
  by (auto simp: assign_ids_with_refs_def assign_only_def Let_def set_zip node_of_raw_def split: prod.splits)

lemma assigned_lengths:
  "length (fst (assign_ids_with_refs sx f path raw prev src)) = length (snd (assign_ids_with_refs sx f path raw prev src))"
  by (simp add: assign_ids_with_refs_def Let_def)

lemma units_of_file_path: "n \<in> set (units_of_file x sx fresh s parent refresh path l) \<Longrightarrow> node_path n = path \<and> lf_kind l = File"
  by (auto simp: units_of_file_def parent_nodes_def nodes_for_path_def dest!: assigned_paths split: option.split_asm if_split_asm)

text \<open>The positions that are looked up later are those of units read again, each once.\<close>

definition pending_ok :: "string set \<Rightarrow> build_state \<Rightarrow> bool" where
  "pending_ok stay st \<longleftrightarrow>
     (\<forall>i \<in> fst ` set (bs_pending st). i < length (bs_out st) \<and> node_path (bs_out st ! i) \<notin> stay) \<and>
     distinct (map fst (bs_pending st))"

lemma left_over_range: "i \<in> fst ` set (left_over a u) \<Longrightarrow> a \<le> i \<and> i < a + length u"
  by (auto simp: left_over_def set_zip)

lemma distinct_left_over: "distinct (map fst (left_over a u))"
  unfolding left_over_def by (rule distinct_map_filter) simp

lemma pending_ok_more:
  assumes "pending_ok stay st"
  shows "pending_ok stay (st\<lparr>bs_out := bs_out st @ ns\<rparr>)"
  using assms by (auto simp: pending_ok_def nth_append)

lemma pending_ok_read:
  assumes "pending_ok stay st" "length ns = length u" "\<forall>n \<in> set ns. node_path n = path" "path \<notin> stay"
  shows "pending_ok stay \<lparr>bs_out = bs_out st @ ns, bs_pending = bs_pending st @ left_over (length (bs_out st)) u, bs_imports = im\<rparr>"
proof -
  have "\<forall>i \<in> fst ` set (left_over (length (bs_out st)) u). i < length (bs_out st @ ns) \<and> node_path ((bs_out st @ ns) ! i) \<notin> stay"
  proof
    fix i assume i: "i \<in> fst ` set (left_over (length (bs_out st)) u)"
    from left_over_range [OF i] assms(2) have "length (bs_out st) \<le> i" "i < length (bs_out st) + length ns" by auto
    with assms(3,4) show "i < length (bs_out st @ ns) \<and> node_path ((bs_out st @ ns) ! i) \<notin> stay"
      by (auto simp: nth_append)
  qed
  moreover have "\<forall>i \<in> fst ` set (bs_pending st). i < length (bs_out st @ ns) \<and> node_path ((bs_out st @ ns) ! i) \<notin> stay"
    using assms(1) by (auto simp: pending_ok_def nth_append)
  moreover have "fst ` set (bs_pending st) \<inter> fst ` set (left_over (length (bs_out st)) u) = {}"
    using assms(1) left_over_range unfolding pending_ok_def by fastforce
  ultimately show ?thesis
    using assms(1) distinct_left_over [of "length (bs_out st)" u]
    unfolding pending_ok_def by (simp only: build_state.simps set_append image_Un ball_Un map_append distinct_append set_map)
qed

lemma file_step_out:
  assumes "file_step x sx fresh s flat parent refresh (path, l) st = Inr st'"
    and "pending_ok stay st" and "kept_file parent refresh (path, l) \<or> path \<notin> stay"
  shows "bs_out st' = bs_out st @ units_of_file x sx fresh s parent refresh path l \<and> pending_ok stay st'"
proof (cases "lf_kind l = File \<and> (\<exists>blob. lf_ref l = Some blob \<and> \<not> unchanged_from parent refresh path blob \<and> blob_of x s blob \<noteq> None)")
  case False
  with assms show ?thesis
    by (auto simp: file_step_def units_of_file_def pending_ok_more split: if_splits option.splits)
next
  case True
  then obtain blob src where b: "lf_kind l = File" "lf_ref l = Some blob" "\<not> unchanged_from parent refresh path blob"
    "blob_of x s blob = Some src" by auto
  with assms(3) have p: "path \<notin> stay" by (auto simp: kept_file_def)
  from assms(1) b have "extract_step x sx fresh s flat parent path src st = Inr st'" by (simp add: file_step_def)
  then obtain raw im where r: "extract_units sx path src = Some raw"
    "st' = \<lparr>bs_out = bs_out st @ fst (assign_ids_with_refs sx (fresh path) path raw (parent_nodes parent path) (parent_source x s parent path)),
       bs_pending = bs_pending st @ left_over (length (bs_out st))
         (snd (assign_ids_with_refs sx (fresh path) path raw (parent_nodes parent path) (parent_source x s parent path))),
       bs_imports = im\<rparr>"
    by (auto simp: extract_step_def result_simps Let_def case_prod_beta)
  with b have "bs_out st' = bs_out st @ units_of_file x sx fresh s parent refresh path l" by (simp add: units_of_file_def)
  moreover have "pending_ok stay st'"
    unfolding r(2) by (rule pending_ok_read [OF assms(2) assigned_lengths _ p]) (use assigned_paths in blast)
  ultimately show ?thesis by blast
qed

lemma file_loop_out:
  assumes "rfold (file_step x sx fresh s flat parent refresh) files st = Inr st'"
    and "pending_ok stay st" and "\<forall>f \<in> set files. kept_file parent refresh f \<or> fst f \<notin> stay"
  shows "bs_out st' = bs_out st @ concat (map (\<lambda>(p, l). units_of_file x sx fresh s parent refresh p l) files) \<and> pending_ok stay st'"
  using assms
proof (induction files arbitrary: st)
  case (Cons f files)
  obtain p l where f: "f = (p, l)" by (cases f)
  with Cons.prems(1) obtain st1 where st1: "file_step x sx fresh s flat parent refresh (p, l) st = Inr st1"
    "rfold (file_step x sx fresh s flat parent refresh) files st1 = Inr st'" by (auto simp: result_simps)
  from Cons.prems(3) f have "kept_file parent refresh (p, l) \<or> p \<notin> stay" by auto
  from file_step_out [OF st1(1) Cons.prems(2) this] Cons.IH [OF st1(2)] Cons.prems(3) f show ?case by auto
qed simp


section \<open>What the look-ups change\<close>

definition bare :: "node \<Rightarrow> node" where
  "bare n = n\<lparr>node_deps := None\<rparr>"

lemma bare_simps [simp]: "node_path (bare n) = node_path n" "node_span (bare n) = node_span n" "node_nid (bare n) = node_nid n"
  by (simp_all add: bare_def)

lemma bare_add_deps [simp]: "bare (add_deps ids n) = bare n"
  by (simp add: bare_def add_deps_def)

lemma path_add_deps [simp]: "node_path (add_deps ids n) = node_path n"
  by (simp add: add_deps_def)

lemma update_fold:
  "distinct (map fst ps) \<Longrightarrow> length (fold (\<lambda>(i, v) xs. xs[i := f v (xs ! i)]) ps xs) = length xs \<and>
     (\<forall>j < length xs. fold (\<lambda>(i, v) xs. xs[i := f v (xs ! i)]) ps xs ! j =
        (case map_of ps j of None \<Rightarrow> xs ! j | Some v \<Rightarrow> f v (xs ! j)))"
proof (induction ps arbitrary: xs)
  case (Cons q ps)
  obtain i v where q: "q = (i, v)" by (cases q)
  with Cons.prems have "map_of ps i = None" by (auto simp: map_of_eq_None_iff)
  moreover from Cons.IH [of "xs[i := f v (xs ! i)]"] Cons.prems q
  have "length (fold (\<lambda>(i, v) xs. xs[i := f v (xs ! i)]) ps (xs[i := f v (xs ! i)])) = length xs \<and>
    (\<forall>j < length xs. fold (\<lambda>(i, v) xs. xs[i := f v (xs ! i)]) ps (xs[i := f v (xs ! i)]) ! j =
        (case map_of ps j of None \<Rightarrow> xs[i := f v (xs ! i)] ! j | Some w \<Rightarrow> f w (xs[i := f v (xs ! i)] ! j)))" by simp
  ultimately show ?case using q by (auto simp: nth_list_update split: option.splits)
qed simp

lemma map_of_resolved: "map_of (map (resolve_pending out im) ps) i = map_option (\<lambda>left. snd (resolve_pending out im (i, left))) (map_of ps i)"
  by (induction ps) (auto simp: resolve_pending_def Let_def)

lemma fst_resolved: "map fst (map (resolve_pending out im) ps) = map fst ps"
  by (simp add: resolve_pending_def Let_def comp_def)

lemma resolve_across_nth:
  assumes "distinct (map fst (bs_pending st))"
  shows "length (resolve_across st) = length (bs_out st)"
    and "i < length (bs_out st) \<Longrightarrow> resolve_across st ! i =
      (case map_of (bs_pending st) i of None \<Rightarrow> bs_out st ! i
       | Some left \<Rightarrow> add_deps (snd (resolve_pending (bs_out st) (bs_imports st) (i, left))) (bs_out st ! i))"
  using update_fold [of "map (resolve_pending (bs_out st) (bs_imports st)) (bs_pending st)" add_deps "bs_out st"] assms
  by (auto simp: resolve_across_def map_of_resolved fst_resolved comp_def split: option.splits simp del: map_map)

lemma resolve_across_keeps:
  assumes "pending_ok stay st"
  shows "list_all2 (\<lambda>n m. bare m = bare n \<and> node_path m = node_path n \<and> (node_path n \<in> stay \<longrightarrow> m = n)) (bs_out st) (resolve_across st)"
proof -
  from assms have d: "distinct (map fst (bs_pending st))" by (simp add: pending_ok_def)
  have "map_of (bs_pending st) i = None" if "i < length (bs_out st)" "node_path (bs_out st ! i) \<in> stay" for i
    using assms that by (force simp: pending_ok_def map_of_eq_None_iff)
  then show ?thesis
    using resolve_across_nth [OF d] by (auto simp: list_all2_conv_all_nth split: option.splits)
qed

lemma filter_bare:
  "list_all2 (\<lambda>n m. bare m = bare n \<and> node_path m = node_path n \<and> (node_path n \<in> stay \<longrightarrow> m = n)) ns ms \<Longrightarrow>
     map bare (filter (\<lambda>n. node_path n = p) ms) = map bare (filter (\<lambda>n. node_path n = p) ns) \<and>
     (p \<in> stay \<longrightarrow> filter (\<lambda>n. node_path n = p) ms = filter (\<lambda>n. node_path n = p) ns)"
  by (induction rule: list_all2_induct) auto

section \<open>Sorting\<close>

lemma insort_key_cong: "(\<And>y. y \<in> set ys \<Longrightarrow> f x \<le> f y \<longleftrightarrow> g x \<le> g y) \<Longrightarrow> insort_key f x ys = insort_key g x ys"
  by (induction ys) auto

lemma sort_key_order_cong:
  "(\<And>x y. x \<in> set xs \<Longrightarrow> y \<in> set xs \<Longrightarrow> f x \<le> f y \<longleftrightarrow> g x \<le> g y) \<Longrightarrow> sort_key f xs = sort_key g xs"
proof (induction xs)
  case (Cons x xs)
  then have "sort_key f xs = sort_key g xs" by auto
  moreover have "insort_key f x (sort_key g xs) = insort_key g x (sort_key g xs)"
    by (rule insort_key_cong) (use Cons.prems in auto)
  ultimately show ?case by simp
qed simp

lemma map_insort_key: "(\<And>x. f (h x) = f x) \<Longrightarrow> map h (insort_key f x xs) = insort_key f (h x) (map h xs)"
  by (induction xs) auto

lemma map_sort_key: "(\<And>x. f (h x) = f x) \<Longrightarrow> map h (sort_key f xs) = sort_key f (map h xs)"
  by (induction xs) (simp_all add: map_insort_key)

abbreviation by_place :: "node list \<Rightarrow> node list" where
  "by_place \<equiv> sort_key (\<lambda>n. (node_path n, fst (node_span n)))"

abbreviation by_start :: "node list \<Rightarrow> node list" where
  "by_start \<equiv> sort_key (\<lambda>n. fst (node_span n))"

lemma filter_by_place:
  "filter (\<lambda>n. node_path n = p) (by_place ns) = by_start (filter (\<lambda>n. node_path n = p) ns)"
proof -
  have "filter (\<lambda>n. node_path n = p) (by_place ns) = by_place (filter (\<lambda>n. node_path n = p) ns)" by (rule filter_sort)
  also have "\<dots> = by_start (filter (\<lambda>n. node_path n = p) ns)"
    by (rule sort_key_order_cong) auto
  finally show ?thesis .
qed

lemma concat_at_path:
  assumes "distinct (map fst files)" "\<And>p l n. n \<in> set (f p l) \<Longrightarrow> node_path n = p"
  shows "filter (\<lambda>n. node_path n = p) (concat (map (\<lambda>(p, l). f p l) files)) =
    (case map_of files p of None \<Rightarrow> [] | Some l \<Rightarrow> f p l)"
  using assms(1)
proof (induction files)
  case (Cons q files)
  obtain r l where q: "q = (r, l)" by (cases q)
  have "filter (\<lambda>n. node_path n = p) (f r l) = (if r = p then f r l else [])"
    using assms(2) [of _ r l] by (auto simp: filter_id_conv filter_empty_conv)
  moreover from Cons.prems q have "r = p \<Longrightarrow> map_of files p = None" by (auto simp: map_of_eq_None_iff)
  ultimately show ?case using Cons q by (cases "r = p") simp_all
qed simp

section \<open>The index of a tree\<close>

text \<open>An index holds, for every file of the tree, the units of that file in the order of the text, and no
  other unit. A file that is the same in the tree of the parent keeps its units as they are, with their
  references; of a file read again, the look-ups across files change the references only.\<close>

theorem built_index:
  assumes "build_nodes_with x sx fresh s flat parent refresh = Inr nodes" "distinct (map fst flat)"
  shows "sorted (map (\<lambda>n. (node_path n, fst (node_span n))) nodes) \<and>
    (\<forall>n \<in> set nodes. \<exists>l. map_of flat (node_path n) = Some l \<and> lf_kind l = File) \<and>
    (\<forall>p l. map_of flat p = Some l \<longrightarrow>
       map bare (filter (\<lambda>n. node_path n = p) nodes) = by_start (map bare (units_of_file x sx fresh s parent refresh p l)) \<and>
       (kept_file parent refresh (p, l) \<longrightarrow> filter (\<lambda>n. node_path n = p) nodes = by_start (parent_nodes parent p)))"
proof -
  let ?stay = "fst ` {f \<in> set flat. kept_file parent refresh f}"
  let ?u = "\<lambda>p l. units_of_file x sx fresh s parent refresh p l"
  from assms(1) obtain st where st: "rfold (file_step x sx fresh s flat parent refresh) flat
      \<lparr>bs_out = [], bs_pending = [], bs_imports = []\<rparr> = Inr st" and nodes: "nodes = by_place (resolve_across st)"
    by (auto simp: build_nodes_with_def result_simps)
  have files: "\<forall>f \<in> set flat. kept_file parent refresh f \<or> fst f \<notin> ?stay"
    using assms(2) by (auto dest: eq_key_imp_eq_value)
  have init: "pending_ok ?stay \<lparr>bs_out = [], bs_pending = [], bs_imports = []\<rparr>" by (simp add: pending_ok_def)
  from file_loop_out [OF st init files] have out: "bs_out st = concat (map (\<lambda>(p, l). ?u p l) flat)" and ok: "pending_ok ?stay st"
    by simp_all
  have at: "filter (\<lambda>n. node_path n = p) (bs_out st) = (case map_of flat p of None \<Rightarrow> [] | Some l \<Rightarrow> ?u p l)" for p
    unfolding out by (rule concat_at_path [OF assms(2)]) (use units_of_file_path in blast)
  note same = filter_bare [OF resolve_across_keeps [OF ok]]
  have "\<exists>l. map_of flat (node_path n) = Some l \<and> lf_kind l = File" if "n \<in> set nodes" for n
  proof -
    let ?at = "filter (\<lambda>m. node_path m = node_path n)"
    from that nodes have "n \<in> set (?at (resolve_across st))" by simp
    with same [of "node_path n"] have "?at (bs_out st) \<noteq> []" by (metis empty_iff list.map_disc_iff list.set(1))
    with at [of "node_path n"] obtain l where l: "map_of flat (node_path n) = Some l" "?u (node_path n) l \<noteq> []"
      by (auto split: option.splits)
    then show ?thesis using units_of_file_path by (metis list.set_intros(1) neq_Nil_conv)
  qed
  moreover have "map bare (filter (\<lambda>n. node_path n = p) nodes) = by_start (map bare (?u p l)) \<and>
       (kept_file parent refresh (p, l) \<longrightarrow> filter (\<lambda>n. node_path n = p) nodes = by_start (parent_nodes parent p))"
    if l: "map_of flat p = Some l" for p l
  proof -
    have "map bare (filter (\<lambda>n. node_path n = p) nodes) = by_start (map bare (?u p l))"
      unfolding nodes filter_by_place using same [of p] at [of p] l by (simp add: map_sort_key)
    moreover have "filter (\<lambda>n. node_path n = p) nodes = by_start (parent_nodes parent p)" if k: "kept_file parent refresh (p, l)"
    proof -
      from k have "?u p l = parent_nodes parent p" by (auto simp: kept_file_def units_of_file_def)
      moreover from k map_of_SomeD [OF l] have "p \<in> ?stay" by force
      ultimately show ?thesis unfolding nodes filter_by_place using same [of p] at [of p] l by simp
    qed
    ultimately show ?thesis by blast
  qed
  ultimately show ?thesis using nodes by simp
qed


text \<open>
  Indexing a tree against its own index gives the same units, with their ids, references and order,
  whatever the extraction would say.
\<close>

lemma count_of_filters:
  fixes xs ys :: "node list"
  assumes "\<And>p. filter (\<lambda>n. node_path n = p) xs = filter (\<lambda>n. node_path n = p) ys"
  shows "mset xs = mset ys"
proof (rule multiset_eqI)
  fix n :: node
  have "count (mset (filter (\<lambda>m. node_path m = node_path n) zs)) n = count (mset zs) n" for zs by simp
  with assms [of "node_path n"] show "count (mset xs) n = count (mset ys) n" by metis
qed

lemma sort_by_place:
  fixes xs ys :: "node list"
  assumes "\<And>p. filter (\<lambda>n. node_path n = p) xs = filter (\<lambda>n. node_path n = p) ys"
    and "sorted (map (\<lambda>n. (node_path n, fst (node_span n))) ys)"
  shows "by_place xs = ys"
proof (rule properties_for_sort_key)
  show "mset ys = mset xs" using count_of_filters assms(1) by metis
  show "sorted (map (\<lambda>n. (node_path n, fst (node_span n))) ys)" by fact
next
  fix k assume "k \<in> set ys"
  let ?k = "(node_path k, fst (node_span k))"
  have eq: "filter (\<lambda>n. ?k = (node_path n, fst (node_span n))) zs =
      filter (\<lambda>n. fst (node_span n) = fst (node_span k)) (filter (\<lambda>n. node_path n = node_path k) zs)" for zs :: "node list"
    by (simp, rule filter_cong) auto
  show "filter (\<lambda>n. ?k = (node_path n, fst (node_span n))) ys = filter (\<lambda>n. ?k = (node_path n, fst (node_span n))) xs"
    by (simp only: eq assms(1))
qed

lemma keep_loop:
  assumes "\<forall>f \<in> set files. kept_file parent refresh f \<or> lf_kind (snd f) \<noteq> File \<or> lf_ref (snd f) = None"
  shows "\<exists>st'. rfold (file_step x sx fresh s flat parent refresh) files st = Inr st' \<and> bs_pending st' = bs_pending st"
  using assms
proof (induction files arbitrary: st)
  case (Cons f files)
  obtain p l where f: "f = (p, l)" by (cases f)
  with Cons.prems have "\<exists>st1. file_step x sx fresh s flat parent refresh f st = Inr st1 \<and> bs_pending st1 = bs_pending st"
    by (auto simp: file_step_def kept_file_def)
  then obtain st1 where "file_step x sx fresh s flat parent refresh f st = Inr st1" "bs_pending st1 = bs_pending st" by blast
  with Cons.IH [of st1] Cons.prems show ?case by auto
qed simp

text \<open>Building the index of a tree that has not changed, against its own index, gives the nodes of that index
  back: ids, spans, bodies and references, whatever random ids are drawn.\<close>

theorem reindex_unchanged:
  assumes "distinct (map fst flat)" "sorted (map (\<lambda>n. (node_path n, fst (node_span n))) (ni_nodes idx))"
    "\<forall>n \<in> set (ni_nodes idx). \<exists>l. map_of flat (node_path n) = Some l \<and> lf_kind l = File \<and> lf_ref l \<noteq> None"
  shows "build_nodes x sx fresh s flat (Some (flat, idx)) = Inr (ni_nodes idx)"
proof -
  have keep: "kept_file (Some (flat, idx)) False (p, l) \<longleftrightarrow> lf_kind l = File \<and> lf_ref l \<noteq> None" if "map_of flat p = Some l" for p l
    using that by (auto simp: kept_file_def unchanged_from_def leaf_ref_at_def)
  have "\<forall>f \<in> set flat. kept_file (Some (flat, idx)) False f \<or> lf_kind (snd f) \<noteq> File \<or> lf_ref (snd f) = None"
    using keep assms(1) by (metis map_of_eq_Some_iff prod.collapse)
  then obtain st where st: "rfold (file_step x sx fresh s flat (Some (flat, idx)) False) flat
      \<lparr>bs_out = [], bs_pending = [], bs_imports = []\<rparr> = Inr st" and "bs_pending st = []"
    using keep_loop [of flat "Some (flat, idx)" False] by fastforce
  then have b: "build_nodes x sx fresh s flat (Some (flat, idx)) = Inr (by_place (bs_out st))"
    by (simp add: build_nodes_def build_nodes_with_def resolve_across_def)
  have init: "pending_ok {} \<lparr>bs_out = [], bs_pending = [], bs_imports = []\<rparr>" by (simp add: pending_ok_def)
  from file_loop_out [OF st init]
  have out: "bs_out st = concat (map (\<lambda>(p, l). units_of_file x sx fresh s (Some (flat, idx)) False p l) flat)" by simp
  have "filter (\<lambda>n. node_path n = p) (bs_out st) = filter (\<lambda>n. node_path n = p) (ni_nodes idx)" for p
  proof (cases "filter (\<lambda>n. node_path n = p) (ni_nodes idx) = []")
    case False
    then obtain n where "n \<in> set (ni_nodes idx)" "node_path n = p" by (auto simp: filter_empty_conv)
    with assms(3) obtain l where l: "map_of flat p = Some l" "lf_kind l = File \<and> lf_ref l \<noteq> None" by blast
    with keep [OF l(1)] have "units_of_file x sx fresh s (Some (flat, idx)) False p l = parent_nodes (Some (flat, idx)) p"
      by (auto simp: units_of_file_def kept_file_def)
    with l(1) show ?thesis
      unfolding out by (subst concat_at_path [OF assms(1)]) (auto dest: units_of_file_path simp: parent_nodes_def nodes_for_path_def)
  next
    case True
    have "units_of_file x sx fresh s (Some (flat, idx)) False p l = []" if l: "map_of flat p = Some l" for l
      using True keep [OF l] by (auto simp: units_of_file_def kept_file_def parent_nodes_def nodes_for_path_def
          unchanged_from_def leaf_ref_at_def l split: option.splits)
    with True show ?thesis
      unfolding out by (subst concat_at_path [OF assms(1)]) (auto dest: units_of_file_path split: option.splits)
  qed
  from sort_by_place [OF this assms(2)] b show ?thesis by simp
qed


section \<open>References across files\<close>

definition deps_of :: "node \<Rightarrow> eid set" where
  "deps_of n = (case node_deps n of None \<Rightarrow> {} | Some ds \<Rightarrow> set ds)"

text \<open>The only unit of a name at the top level of some files, tests left out, and not the one that refers to it.\<close>

definition the_unit :: "node list \<Rightarrow> string list \<Rightarrow> eid \<Rightarrow> string \<Rightarrow> eid \<Rightarrow> bool" where
  "the_unit out files own name i \<longleftrightarrow>
     i \<noteq> own \<and>
     {node_nid n |n. n \<in> set out \<and> node_parent n = None \<and> is_identifier (node_name n) \<and> node_kind n \<noteq> ''test'' \<and>
        node_kind n \<noteq> ''test.skipped'' \<and> node_path n \<in> set files \<and> node_name n = name} = {i}"

lemma btree_list_single: "btree_list xs = [i] \<longleftrightarrow> set xs = {i}"
  using btree_list_eq_iff [of xs "[i]"] btree_list_id [of "[i]"] by simp

lemma resolve_name_iff: "resolve_name out files own name = Some i \<longleftrightarrow> the_unit out files own name i"
proof -
  have s: "set (concat (map (\<lambda>f. top_named out f name) files)) =
    {node_nid n |n. n \<in> set out \<and> node_parent n = None \<and> is_identifier (node_name n) \<and> node_kind n \<noteq> ''test'' \<and>
        node_kind n \<noteq> ''test.skipped'' \<and> node_path n \<in> set files \<and> node_name n = name}"
    by (auto simp: top_named_def)
  have "resolve_name out files own name = Some i \<longleftrightarrow>
     i \<noteq> own \<and> btree_list (concat (map (\<lambda>f. top_named out f name) files)) = [i]"
    by (auto simp: resolve_name_def split: list.splits if_splits)
  then show ?thesis unfolding btree_list_single s the_unit_def .
qed

lemma deps_of_add: "deps_of (add_deps ids n) = deps_of n \<union> set ids"
  by (auto simp: deps_of_def add_deps_def split: option.splits)

lemma set_map_filter: "set (List.map_filter f xs) = {y. \<exists>x \<in> set xs. f x = Some y}"
  by (force simp: List.map_filter_def)

lemma set_resolve_pending:
  "set (snd (resolve_pending out im (i, left))) =
     {d. \<exists>name \<in> set left. the_unit out (case map_of im (node_path (out ! i)) of None \<Rightarrow> [] | Some fs \<Rightarrow> fs) (node_nid (out ! i)) name d}"
  by (auto simp: resolve_pending_def Let_def set_map_filter resolve_name_iff)

text \<open>A reference that a file leaves open becomes a dependency exactly when the files it imports hold one
  unit of that name at their top level, tests left out, and that unit is not the one that refers; nothing
  else about the units changes.\<close>

theorem cross_references:
  assumes "pending_ok {} st"
  shows "map bare (resolve_across st) = map bare (bs_out st) \<and>
    (\<forall>i < length (bs_out st). deps_of (resolve_across st ! i) = deps_of (bs_out st ! i) \<union>
       {d. \<exists>left name. (i, left) \<in> set (bs_pending st) \<and> name \<in> set left \<and>
          the_unit (bs_out st) (case map_of (bs_imports st) (node_path (bs_out st ! i)) of None \<Rightarrow> [] | Some fs \<Rightarrow> fs)
            (node_nid (bs_out st ! i)) name d})"
proof -
  from assms have d: "distinct (map fst (bs_pending st))" by (simp add: pending_ok_def)
  note nth = resolve_across_nth [OF d]
  have "map bare (resolve_across st) = map bare (bs_out st)"
    by (rule nth_equalityI) (use nth in \<open>auto split: option.splits\<close>)
  moreover have "deps_of (resolve_across st ! i) = deps_of (bs_out st ! i) \<union>
       {d. \<exists>left name. (i, left) \<in> set (bs_pending st) \<and> name \<in> set left \<and>
          the_unit (bs_out st) (case map_of (bs_imports st) (node_path (bs_out st ! i)) of None \<Rightarrow> [] | Some fs \<Rightarrow> fs)
            (node_nid (bs_out st ! i)) name d}" if i: "i < length (bs_out st)" for i
  proof (cases "map_of (bs_pending st) i")
    case None
    then have "\<And>left. (i, left) \<notin> set (bs_pending st)" by (force simp: map_of_eq_None_iff)
    with None nth(2) [OF i] show ?thesis by simp
  next
    case (Some left)
    then have "\<And>l. (i, l) \<in> set (bs_pending st) \<longleftrightarrow> l = left"
      using map_of_eq_Some_iff [OF d] by (metis option.inject)
    with Some nth(2) [OF i] show ?thesis by (simp add: deps_of_add set_resolve_pending Bex_def)
  qed
  ultimately show ?thesis by blast
qed

section \<open>Differences of two indexes\<close>

lemma set_diff_indexes:
  "set (diff_indexes before after) =
     {c. \<exists>n \<in> set (ni_nodes after). after_change before n = Some c} \<union>
     {change_of n URemoved |n. n \<in> set (ni_nodes before) \<and> node_nid n \<notin> nids (ni_nodes after)}"
  by (auto simp: diff_indexes_def set_map_filter)

lemma nid_after_change: "after_change before n = Some c \<Longrightarrow> uc_nid c = node_nid n"
  by (auto simp: after_change_def change_of_def split: option.splits if_splits)

lemma distinct_changes: "distinct (map node_nid ns) \<Longrightarrow> distinct (map uc_nid (List.map_filter (after_change before) ns))"
proof (induction ns)
  case (Cons n ns)
  then show ?case
    by (auto simp: map_filter_simps set_map_filter dest!: nid_after_change split: option.splits)
       (metis (no_types) image_eqI nid_after_change)
qed (simp add: map_filter_simps)

lemma node_by_id_iff:
  assumes "distinct (map node_nid ns)"
  shows "node_by_id ns i = Some p \<longleftrightarrow> p \<in> set ns \<and> node_nid p = i"
proof -
  have "distinct (map fst (rev (map (\<lambda>n. (node_nid n, n)) ns)))" using assms by (simp add: rev_map [symmetric] comp_def)
  from map_of_eq_Some_iff [OF this] show ?thesis unfolding node_by_id_def by auto
qed

text \<open>The differences of two indexes are the units added, removed, renamed and changed, each of them once,
  sorted by path and name. A unit that is renamed and changed counts as renamed.\<close>

theorem diff_indexes_exact:
  assumes "distinct (map node_nid (ni_nodes before))" "distinct (map node_nid (ni_nodes after))"
  shows "distinct (map uc_nid (diff_indexes before after)) \<and>
    sorted (map (\<lambda>c. (uc_path c, uc_name c)) (diff_indexes before after)) \<and>
    set (diff_indexes before after) =
      {change_of n UAdded |n. n \<in> set (ni_nodes after) \<and> node_nid n \<notin> nids (ni_nodes before)} \<union>
      {change_of n URemoved |n. n \<in> set (ni_nodes before) \<and> node_nid n \<notin> nids (ni_nodes after)} \<union>
      {change_of n (URenamed (node_name p)) |n p. n \<in> set (ni_nodes after) \<and> p \<in> set (ni_nodes before) \<and>
         node_nid p = node_nid n \<and> node_name p \<noteq> node_name n} \<union>
      {change_of n UChanged |n p. n \<in> set (ni_nodes after) \<and> p \<in> set (ni_nodes before) \<and>
         node_nid p = node_nid n \<and> node_name p = node_name n \<and> node_body p \<noteq> node_body n}"
    (is "_ \<and> _ \<and> _ = ?added \<union> ?removed \<union> ?renamed \<union> ?changed")
proof -
  have b: "node_by_id (ni_nodes before) i = Some p \<longleftrightarrow> p \<in> set (ni_nodes before) \<and> node_nid p = i" for i p
    by (rule node_by_id_iff [OF assms(1)])
  then have none: "node_by_id (ni_nodes before) i = None \<longleftrightarrow> i \<notin> nids (ni_nodes before)" for i
    by (metis (mono_tags, lifting) image_iff not_None_eq)
  have "after_change before n = Some c \<longleftrightarrow>
      node_nid n \<notin> nids (ni_nodes before) \<and> c = change_of n UAdded \<or>
      (\<exists>p \<in> set (ni_nodes before). node_nid p = node_nid n \<and>
         (node_name p \<noteq> node_name n \<and> c = change_of n (URenamed (node_name p)) \<or>
          node_name p = node_name n \<and> node_body p \<noteq> node_body n \<and> c = change_of n UChanged))" for n c
  proof (cases "node_by_id (ni_nodes before) (node_nid n)")
    case None
    with none have "node_nid n \<notin> nids (ni_nodes before)" by blast
    moreover from this have "\<forall>p \<in> set (ni_nodes before). node_nid p \<noteq> node_nid n" by (metis image_eqI)
    ultimately show ?thesis using None by (auto simp: after_change_def)
  next
    case (Some p)
    with b have p: "p \<in> set (ni_nodes before)" "node_nid p = node_nid n" "\<And>q. q \<in> set (ni_nodes before) \<and> node_nid q = node_nid n \<longleftrightarrow> q = p"
      by (metis option.inject)+
    from p have one: "(\<exists>q \<in> set (ni_nodes before). node_nid q = node_nid n \<and> Q q) \<longleftrightarrow> Q p" for Q by metis
    from p(1,2) have "node_nid n \<in> nids (ni_nodes before)" by (metis image_eqI)
    then show ?thesis unfolding one using Some by (auto simp: after_change_def)
  qed
  then have "set (diff_indexes before after) = ?added \<union> ?removed \<union> ?renamed \<union> ?changed"
    unfolding set_diff_indexes by blast
  moreover have "distinct (map uc_nid (diff_indexes before after))"
  proof -
    let ?ca = "List.map_filter (after_change before) (ni_nodes after)"
    let ?cr = "map (\<lambda>n. change_of n URemoved) (filter (\<lambda>n. node_nid n \<notin> node_nid ` set (ni_nodes after)) (ni_nodes before))"
    have "distinct (map uc_nid ?cr)" using assms(1) by (auto simp: comp_def change_of_def intro: distinct_map_filter)
    moreover have "uc_nid ` set ?ca \<inter> uc_nid ` set ?cr = {}"
    proof -
      have "uc_nid ` set ?ca \<subseteq> nids (ni_nodes after)" using nid_after_change by (fastforce simp: set_map_filter)
      moreover have "uc_nid ` set ?cr \<inter> nids (ni_nodes after) = {}" by (auto simp: change_of_def)
      ultimately show ?thesis by blast
    qed
    ultimately have "distinct (map uc_nid (?ca @ ?cr))" 
      unfolding map_append distinct_append set_map using distinct_changes [OF assms(2)] by blast
    moreover have "mset (map uc_nid (diff_indexes before after)) = mset (map uc_nid (?ca @ ?cr))"
      by (simp add: diff_indexes_def image_mset.compositionality)
    ultimately show ?thesis using mset_eq_imp_distinct_iff by blast
  qed
  ultimately show ?thesis by (simp add: diff_indexes_def)
qed

end
