(* ===== verification/Tree_Merge.thy ===== *)
theory Tree_Merge
  imports Sem_Index
begin

text \<open>
  Indexes of snapshots and revisions, and the merge of trees: the second half of
  \<open>crates/tessra-daemon/src/semantic.rs\<close>.

  The store is the objects and the entries \<open>idx:\<close> of the metadata, keyed by the snapshot. \<open>fresh\<close> gives the
  random ids of a snapshot and path. Opening and closing the batch around an index changes nothing that
  is read inside it, and is left out.
\<close>

section \<open>Indexes\<close>

record index_store =
  is_objs :: objs
  is_meta :: "(oid, bytes) btree"

type_synonym fresh_ids = "oid \<Rightarrow> string \<Rightarrow> nat \<Rightarrow> eid"

definition grammars :: string where
  "grammars = ''tessra-semantic/2 tree-sitter-0.27 rust-0.24 python-0.25 javascript-0.25 typescript-0.23''"

definition put_index_with_aliases ::
  "ext \<Rightarrow> objs \<Rightarrow> oid \<Rightarrow> oid list \<Rightarrow> node list \<Rightarrow> (bytes, eid) btree option \<Rightarrow> objs \<times> oid" where
  "put_index_with_aliases x s tree_root parents nodes aliases =
     obj_put (ext_hash x) s (ONodeIndex \<lparr>ni_root = tree_root, ni_grammars = grammars, ni_parents = parents, ni_nodes = nodes,
       ni_aliases = (if aliases = Some [] then None else aliases)\<rparr>)"

definition put_index :: "ext \<Rightarrow> objs \<Rightarrow> oid \<Rightarrow> oid list \<Rightarrow> node list \<Rightarrow> objs \<times> oid" where
  "put_index x s tree_root parents nodes = put_index_with_aliases x s tree_root parents nodes None"

definition index_current :: "node_index \<Rightarrow> bool" where
  "index_current idx \<longleftrightarrow> ni_grammars idx = grammars"

text \<open>Storing an index for a snapshot and naming it under the key of the snapshot.\<close>

definition save_index :: "ext \<Rightarrow> index_store \<Rightarrow> oid \<Rightarrow> objs \<times> oid \<Rightarrow> (index_store \<times> oid \<times> node_index) res" where
  "save_index x st snap_id put =
     (case put of (s, i) \<Rightarrow>
        rbind (obj_get (ext_hash x) as_node_index s i) (\<lambda>idx.
        Inr (st\<lparr>is_objs := s, is_meta := bt_insert snap_id i (is_meta st)\<rparr>, i, idx)))"

definition refresh_index ::
  "ext \<Rightarrow> sem_ext \<Rightarrow> fresh_ids \<Rightarrow> index_store \<Rightarrow> oid \<Rightarrow> snapshot \<Rightarrow> node_index \<Rightarrow> (index_store \<times> oid \<times> node_index) res" where
  "refresh_index x sx fresh st snap_id snap stale =
     rbind (flatten x (is_objs st) (snap_root snap)) (\<lambda>flat.
     rbind (build_nodes_with x sx (fresh snap_id) (is_objs st) flat (Some (flat, stale)) True) (\<lambda>nodes.
     save_index x st snap_id
       (put_index_with_aliases x (is_objs st) (snap_root snap) (ni_parents stale) nodes (ni_aliases stale))))"

definition index_under_key :: "ext \<Rightarrow> index_store \<Rightarrow> oid \<Rightarrow> (oid \<times> node_index) option" where
  "index_under_key x st snap_id =
     Option.bind (map_of (is_meta st) snap_id) (\<lambda>bs.
     case oid_from_slice bs of
       Inl _ \<Rightarrow> None
     | Inr i \<Rightarrow> (case obj_get (ext_hash x) as_node_index (is_objs st) i of Inr idx \<Rightarrow> Some (i, idx) | Inl _ \<Rightarrow> None))"

definition found_index :: "ext \<Rightarrow> index_store \<Rightarrow> oid \<Rightarrow> snapshot \<Rightarrow> (oid \<times> node_index) option res" where
  "found_index x st snap_id snap =
     (let found = index_under_key x st snap_id
      in if (case found of Some (_, idx) \<Rightarrow> index_current idx | None \<Rightarrow> False) then Inr found
         else (case snap_index snap of
                 None \<Rightarrow> Inr found
               | Some i \<Rightarrow>
                   rbind (obj_get (ext_hash x) as_node_index (is_objs st) i) (\<lambda>idx.
                   Inr (if index_current idx \<or> found = None then Some (i, idx) else found))))"

definition cached_index ::
  "ext \<Rightarrow> sem_ext \<Rightarrow> fresh_ids \<Rightarrow> index_store \<Rightarrow> oid \<Rightarrow> (index_store \<times> (oid \<times> node_index) option) res" where
  "cached_index x sx fresh st snap_id =
     rbind (obj_get (ext_hash x) as_snapshot (is_objs st) snap_id) (\<lambda>snap.
     rbind (found_index x st snap_id snap) (\<lambda>found.
     case found of
       None \<Rightarrow> Inr (st, None)
     | Some (i, idx) \<Rightarrow>
         rbind (if index_current idx then Inr (st, i, idx) else refresh_index x sx fresh st snap_id snap idx)
           (\<lambda>(st', i, idx).
           Inr (if map_option fst (index_under_key x st snap_id) \<noteq> Some i
                then st'\<lparr>is_meta := bt_insert snap_id i (is_meta st')\<rparr> else st',
                Some (i, idx)))))"

text \<open>\<open>build_index\<close>, once the index of the parent snapshot is known.\<close>

definition build_against ::
  "ext \<Rightarrow> sem_ext \<Rightarrow> fresh_ids \<Rightarrow> index_store \<Rightarrow> oid \<Rightarrow> (flat \<times> oid \<times> node_index) option \<Rightarrow>
     (index_store \<times> oid \<times> node_index) res" where
  "build_against x sx fresh st snap_id parent =
     rbind (obj_get (ext_hash x) as_snapshot (is_objs st) snap_id) (\<lambda>snap.
     rbind (flatten x (is_objs st) (snap_root snap)) (\<lambda>flat.
     rbind (build_nodes x sx (fresh snap_id) (is_objs st) flat (map_option (\<lambda>(f, _, i). (f, i)) parent)) (\<lambda>nodes.
     save_index x st snap_id
       (put_index x (is_objs st) (snap_root snap) (case parent of None \<Rightarrow> [] | Some (_, i, _) \<Rightarrow> [i]) nodes))))"

definition index_for_snapshot ::
  "ext \<Rightarrow> sem_ext \<Rightarrow> fresh_ids \<Rightarrow> index_store \<Rightarrow> oid \<Rightarrow> (index_store \<times> oid \<times> node_index) res" where
  "index_for_snapshot x sx fresh st snap_id =
     rbind (cached_index x sx fresh st snap_id) (\<lambda>(st, found).
     case found of
       Some r \<Rightarrow> Inr (st, r)
     | None \<Rightarrow> build_against x sx fresh st snap_id None)"

definition build_index ::
  "ext \<Rightarrow> sem_ext \<Rightarrow> fresh_ids \<Rightarrow> index_store \<Rightarrow> oid \<Rightarrow> oid option \<Rightarrow> (index_store \<times> oid \<times> node_index) res" where
  "build_index x sx fresh st snap_id parent_snap =
     (case parent_snap of
        None \<Rightarrow> build_against x sx fresh st snap_id None
      | Some p \<Rightarrow>
          rbind (index_for_snapshot x sx fresh st p) (\<lambda>(st, pid, pidx).
          rbind (obj_get (ext_hash x) as_snapshot (is_objs st) p) (\<lambda>psnap.
          rbind (flatten x (is_objs st) (snap_root psnap)) (\<lambda>pflat.
          build_against x sx fresh st snap_id (Some (pflat, pid, pidx))))))"

definition snap_of :: "revision \<Rightarrow> oid option" where
  "snap_of r = map_of (rev_snapshots r) []"

text \<open>The ancestors without an index, nearest first, each with the snapshot of its first parent.\<close>

function todo_loop ::
  "ext \<Rightarrow> sem_ext \<Rightarrow> fresh_ids \<Rightarrow> nat \<Rightarrow> index_store \<Rightarrow> oid \<Rightarrow> oid list \<Rightarrow> (oid \<times> oid option) list \<Rightarrow>
     (index_store \<times> (oid \<times> oid option) list) res" where
  "todo_loop x sx fresh limit st cur parents todo =
     rbind (cached_index x sx fresh st cur) (\<lambda>(st, found).
     if found \<noteq> None then Inr (st, todo)
     else rbind (case parents of
                   [] \<Rightarrow> Inr (None, parents)
                 | p # _ \<Rightarrow>
                     rbind (obj_get (ext_hash x) as_revision (is_objs st) p) (\<lambda>pr.
                     Inr (snap_of pr, rev_parents pr)))
            (\<lambda>(psnap, parents').
            case psnap of
              None \<Rightarrow> Inr (st, todo @ [(cur, psnap)])
            | Some ps \<Rightarrow>
                if Suc (length todo) < limit
                then todo_loop x sx fresh limit st ps parents' (todo @ [(cur, psnap)])
                else Inr (st, todo @ [(cur, psnap)])))"
  by pat_completeness auto
termination by (relation "measure (\<lambda>(x, sx, fresh, limit, st, cur, parents, todo). limit - length todo)") auto

declare todo_loop.simps [simp del]

definition build_all ::
  "ext \<Rightarrow> sem_ext \<Rightarrow> fresh_ids \<Rightarrow> (oid \<times> oid option) list \<Rightarrow> index_store \<Rightarrow> index_store res" where
  "build_all x sx fresh todo st =
     rfold (\<lambda>(snap, parent) st. rbind (build_index x sx fresh st snap parent) (\<lambda>(st, _). Inr st)) (rev todo) st"

definition index_for_revision ::
  "ext \<Rightarrow> sem_ext \<Rightarrow> fresh_ids \<Rightarrow> index_store \<Rightarrow> revision \<Rightarrow> (index_store \<times> oid \<times> node_index) res" where
  "index_for_revision x sx fresh st rv =
     rbind (of_opt Other (snap_of rv)) (\<lambda>snap_id.
     rbind (todo_loop x sx fresh 100000 st snap_id (rev_parents rv) []) (\<lambda>(st, todo).
     rbind (build_all x sx fresh todo st) (\<lambda>st.
     index_for_snapshot x sx fresh st snap_id)))"

section \<open>The merge of trees\<close>

record tree_merge =
  tm_flat :: flat
  tm_conflicts :: "string list"
  tm_resolved :: "string list"

definition add_renames :: "rename list \<Rightarrow> rename list \<Rightarrow> rename list" where
  "add_renames between known =
     fold (\<lambda>r rs. if list_ex (\<lambda>y. rn_from y = rn_from r \<and> rn_to y = rn_to r) rs then rs else rs @ [r]) between known"

definition renamed_note :: "string \<Rightarrow> rename \<Rightarrow> string" where
  "renamed_note path r = path @ '': '' @ rn_from r @ '' renamed to '' @ rn_to r"

text \<open>What a file that only one side changed becomes: the other side's renames applied, when any applies.\<close>

definition carried_file ::
  "ext \<Rightarrow> parser \<Rightarrow> objs \<Rightarrow> flat \<Rightarrow> flat \<Rightarrow> flat \<Rightarrow> rename list \<Rightarrow> rename list \<Rightarrow> string \<times> leaf \<Rightarrow>
     (bytes \<times> rename list) option" where
  "carried_file x parse s base a b ren_a ren_b pl =
     (case pl of (path, l) \<Rightarrow>
        if lf_kind l \<noteq> File then None
        else Option.bind (language_of_path path) (\<lambda>lang.
             Option.bind (lf_ref l) (\<lambda>blob.
             let base_ref = leaf_ref_at base path; a_ref = leaf_ref_at a path; b_ref = leaf_ref_at b path;
                 from_b_only = (b_ref = Some blob \<and> a_ref = base_ref \<and> b_ref \<noteq> base_ref);
                 from_a_only = (a_ref = Some blob \<and> b_ref = base_ref \<and> a_ref \<noteq> base_ref);
                 rens = filter (\<lambda>r. rename_applies_to r path) (if from_b_only then ren_a else ren_b)
             in if \<not> from_b_only \<and> \<not> from_a_only \<or> rens = [] then None
                else Option.bind (blob_of x s blob) (\<lambda>src.
                     if \<not> list_ex (\<lambda>r. contains_ident src (rn_from r)) rens then None
                     else (case rename_source parse lang src rens of
                             (cur, applied) \<Rightarrow> if applied = [] then None else Some (cur, map snd applied))))))"

definition carry_step ::
  "ext \<Rightarrow> parser \<Rightarrow> flat \<Rightarrow> flat \<Rightarrow> flat \<Rightarrow> rename list \<Rightarrow> rename list \<Rightarrow> objs \<Rightarrow> string \<times> leaf \<Rightarrow>
     (string \<times> bytes) list \<times> string list \<Rightarrow> (string \<times> bytes) list \<times> string list" where
  "carry_step x parse base a b ren_a ren_b s pl st =
     (case carried_file x parse s base a b ren_a ren_b pl of
        None \<Rightarrow> st
      | Some (cur, applied) \<Rightarrow>
          (fst st @ [(fst pl, cur)], snd st @ map (renamed_note (fst pl)) applied))"

definition executable_mode :: "leaf option \<Rightarrow> bool" where
  "executable_mode l = odd (unat (case Option.bind l lf_mode of Some m \<Rightarrow> m | None \<Rightarrow> 0))"

definition store_carried :: "ext \<Rightarrow> string \<times> bytes \<Rightarrow> objs \<times> flat \<Rightarrow> objs \<times> flat" where
  "store_carried x pt st =
     (case obj_put (ext_hash x) (fst st) (OBlob (snd pt)) of
        (s, i) \<Rightarrow> (s, bt_insert (fst pt) (leaf_file i (executable_mode (map_of (snd st) (fst pt)))) (snd st)))"

definition file_side :: "(eid, eid) btree \<Rightarrow> node_index \<Rightarrow> string \<Rightarrow> bytes \<Rightarrow> file_nodes" where
  "file_side aliases idx path src =
     \<lparr>fl_text = src, fl_nodes = canonical_nodes (nodes_for_path (ni_nodes idx) path) aliases\<rparr>"

definition base_side :: "ext \<Rightarrow> objs \<Rightarrow> (eid, eid) btree \<Rightarrow> node_index option \<Rightarrow> flat \<Rightarrow> string \<Rightarrow> file_nodes option" where
  "base_side x s aliases base_idx base path =
     (case map_of base path of
        None \<Rightarrow> None
      | Some l \<Rightarrow>
          if lf_kind l \<noteq> File then None
          else map_option (\<lambda>src. \<lparr>fl_text = src,
                   fl_nodes = (case base_idx of None \<Rightarrow> []
                     | Some bi \<Rightarrow> canonical_nodes (nodes_for_path (ni_nodes bi) path) aliases)\<rparr>)
                 (Option.bind (lf_ref l) (blob_of x s)))"

definition both_changed_note :: "string \<Rightarrow> string" where
  "both_changed_note path = path @ '': both sides changed''"

definition deleted_note :: "string \<Rightarrow> string" where
  "deleted_note path = path @ '': deleted on one side, changed on the other''"

definition file_text :: "ext \<Rightarrow> objs \<Rightarrow> oid \<Rightarrow> bytes" where
  "file_text x s i = (case blob_of x s i of Some b \<Rightarrow> b | None \<Rightarrow> [])"

text \<open>One path that both sides changed in two ways.\<close>

definition conflict_step ::
  "ext \<Rightarrow> parser \<Rightarrow> flat \<Rightarrow> flat \<Rightarrow> flat \<Rightarrow> node_index option \<Rightarrow> node_index \<Rightarrow> node_index \<Rightarrow> (eid, eid) btree \<Rightarrow>
     rename list \<Rightarrow> rename list \<Rightarrow> string \<Rightarrow> objs \<times> tree_merge \<Rightarrow> (objs \<times> tree_merge) res" where
  "conflict_step x parse base a b base_idx a_idx b_idx aliases ren_a ren_b path st =
     (case st of (s, tm) \<Rightarrow>
        let note = (\<lambda>c. Inr (s, tm\<lparr>tm_conflicts := tm_conflicts tm @ [c]\<rparr>))
        in case (map_of a path, map_of b path) of
             (Some la, Some lb) \<Rightarrow>
               (case (lf_ref la, lf_ref lb) of
                  (Some ra, Some rb) \<Rightarrow>
                    if lf_kind la \<noteq> File \<or> lf_kind lb \<noteq> File then note (both_changed_note path)
                    else rbind (merge_file parse (language_of_path path) (base_side x s aliases base_idx base path)
                            (file_side aliases a_idx path (file_text x s ra)) (file_side aliases b_idx path (file_text x s rb))
                            (filter (\<lambda>r. rename_applies_to r path) ren_a) (filter (\<lambda>r. rename_applies_to r path) ren_b))
                          (\<lambda>m.
                          let tm = tm\<lparr>tm_resolved := tm_resolved tm @ map (\<lambda>r. path @ '': '' @ r) (mg_resolved m)\<rparr>
                          in if mg_conflicts m = []
                             then (case obj_put (ext_hash x) s (OBlob (mg_text m)) of
                                     (s, i) \<Rightarrow>
                                       Inr (s, tm\<lparr>tm_flat := bt_insert path (leaf_file i (executable_mode (Some la))) (tm_flat tm)\<rparr>))
                             else Inr (s, tm\<lparr>tm_conflicts := tm_conflicts tm @ [path @ '': '' @ join_with '', '' (mg_conflicts m)]\<rparr>))
                | _ \<Rightarrow> note (both_changed_note path))
           | _ \<Rightarrow> note (deleted_note path))"

definition side_renames :: "(string list \<Rightarrow> string list) \<Rightarrow> node_index option \<Rightarrow> node_index \<Rightarrow> rename list \<Rightarrow> rename list" where
  "side_renames order base_idx idx ops =
     (case base_idx of None \<Rightarrow> ops | Some bi \<Rightarrow> add_renames (renames_between order bi idx) ops)"

definition merge_trees ::
  "ext \<Rightarrow> parser \<Rightarrow> (string list \<Rightarrow> string list) \<Rightarrow> objs \<Rightarrow> flat \<Rightarrow> flat \<Rightarrow> flat \<Rightarrow> node_index option \<Rightarrow> node_index \<Rightarrow> node_index \<Rightarrow>
     rename list \<Rightarrow> rename list \<Rightarrow> (objs \<times> tree_merge) res" where
  "merge_trees x parse order s base a b base_idx a_idx b_idx ops_a ops_b =
     (let ren_a = side_renames order base_idx a_idx ops_a;
          ren_b = side_renames order base_idx b_idx ops_b;
          (merged, clashes) = merge_paths (ext_blake x) base a b;
          aliases = aliases_of [base_idx, Some a_idx, Some b_idx];
          (carried, resolved) = fold (carry_step x parse base a b ren_a ren_b s) merged ([], []);
          (s1, merged1) = fold (store_carried x) carried (s, merged)
      in rfold (conflict_step x parse base a b base_idx a_idx b_idx aliases ren_a ren_b) clashes
           (s1, \<lparr>tm_flat = merged1, tm_conflicts = [], tm_resolved = resolved\<rparr>))"

end
