(* ===== verification/Blame.thy ===== *)
theory Blame
  imports Tree_Merge
begin

text \<open>
  Who last changed each unit of a path: \<open>blame\<close> of \<open>crates/tessra-daemon/src/semantic.rs\<close>.

  The three caches of the walk are maps in the state, beside the store of indexes. The walk from a unit
  ends after 1000 revisions; the counter of the code is the argument that decreases.
\<close>

record blame_state =
  bl_store :: index_store
  bl_revs :: "oid \<rightharpoonup> revision"
  bl_nodes :: "oid \<rightharpoonup> node list"
  bl_aliases :: "oid \<rightharpoonup> (eid, eid) btree"

record blame_entry =
  be_nid :: eid
  be_kind :: string
  be_name :: string
  be_span :: "64 word \<times> 64 word"
  be_revision :: oid
  be_author :: eid
  be_title :: string
  be_intent :: "eid option"
  be_time :: int

definition rev_of :: "ext \<Rightarrow> blame_state \<Rightarrow> oid \<Rightarrow> (blame_state \<times> revision) res" where
  "rev_of x st i =
     (case bl_revs st i of
        Some r \<Rightarrow> Inr (st, r)
      | None \<Rightarrow> rbind (obj_get (ext_hash x) as_revision (is_objs (bl_store st)) i) (\<lambda>r.
                Inr (st\<lparr>bl_revs := (bl_revs st)(i \<mapsto> r)\<rparr>, r)))"

definition index_aliases :: "node_index \<Rightarrow> (eid, eid) btree" where
  "index_aliases idx = aliases_of [Some idx]"

definition nodes_of ::
  "ext \<Rightarrow> sem_ext \<Rightarrow> fresh_ids \<Rightarrow> string \<Rightarrow> blame_state \<Rightarrow> oid \<Rightarrow> (blame_state \<times> node list) res" where
  "nodes_of x sx fresh path st i =
     (case bl_nodes st i of
        Some ns \<Rightarrow> Inr (st, ns)
      | None \<Rightarrow>
          rbind (rev_of x st i) (\<lambda>(st, r).
          case snap_of r of
            None \<Rightarrow> Inr (st\<lparr>bl_nodes := (bl_nodes st)(i \<mapsto> [])\<rparr>, [])
          | Some _ \<Rightarrow>
              rbind (index_for_revision x sx fresh (bl_store st) r) (\<lambda>(store, _, idx).
              let ns = nodes_for_path (ni_nodes idx) path
              in Inr (st\<lparr>bl_store := store, bl_aliases := (bl_aliases st)(i \<mapsto> index_aliases idx),
                         bl_nodes := (bl_nodes st)(i \<mapsto> ns)\<rparr>, ns))))"

text \<open>The unit of a parent that is the one tracked, by id, by alias, or as the only one of its kind and name.\<close>

definition same_unit :: "node \<Rightarrow> (eid, eid) btree \<Rightarrow> eid \<Rightarrow> node list \<Rightarrow> node option" where
  "same_unit n aliases track pn =
     (case List.find (\<lambda>q. node_nid q = track \<or> map_of aliases (node_nid q) = Some track) pn of
        Some q \<Rightarrow> Some q
      | None \<Rightarrow> (case filter (\<lambda>q. node_kind q = node_kind n \<and> node_name q = node_name n) pn of
                   [q] \<Rightarrow> Some q
                 | _ \<Rightarrow> None))"

definition carried_by :: "node \<Rightarrow> (eid, eid) btree \<Rightarrow> eid \<Rightarrow> node list \<Rightarrow> eid option" where
  "carried_by n aliases track pn =
     Option.bind (same_unit n aliases track pn) (\<lambda>q. if node_body q = node_body n then Some (node_nid q) else None)"

fun find_parent ::
  "ext \<Rightarrow> sem_ext \<Rightarrow> fresh_ids \<Rightarrow> string \<Rightarrow> node \<Rightarrow> (eid, eid) btree \<Rightarrow> eid \<Rightarrow> blame_state \<Rightarrow> oid list \<Rightarrow>
     (blame_state \<times> (oid \<times> eid) option) res" where
  "find_parent x sx fresh path n aliases track st [] = Inr (st, None)"
| "find_parent x sx fresh path n aliases track st (p # ps) =
     rbind (nodes_of x sx fresh path st p) (\<lambda>(st, pn).
     case carried_by n aliases track pn of
       Some i \<Rightarrow> Inr (st, Some (p, i))
     | None \<Rightarrow> find_parent x sx fresh path n aliases track st ps)"

fun blame_walk ::
  "ext \<Rightarrow> sem_ext \<Rightarrow> fresh_ids \<Rightarrow> string \<Rightarrow> node \<Rightarrow> nat \<Rightarrow> blame_state \<Rightarrow> oid \<Rightarrow> eid \<Rightarrow> (blame_state \<times> oid) res" where
  "blame_walk x sx fresh path n 0 st cur track = Inr (st, cur)"
| "blame_walk x sx fresh path n (Suc d) st cur track =
     rbind (rev_of x st cur) (\<lambda>(st, r).
     rbind (find_parent x sx fresh path n (case bl_aliases st cur of Some m \<Rightarrow> m | None \<Rightarrow> []) track st (rev_parents r))
       (\<lambda>(st, next).
       case next of
         None \<Rightarrow> Inr (st, cur)
       | Some (p, i) \<Rightarrow> blame_walk x sx fresh path n d st p i))"

definition blame_unit ::
  "ext \<Rightarrow> sem_ext \<Rightarrow> fresh_ids \<Rightarrow> oid \<Rightarrow> string \<Rightarrow> node \<Rightarrow> blame_state \<times> blame_entry list \<Rightarrow> (blame_state \<times> blame_entry list) res" where
  "blame_unit x sx fresh rid path n acc =
     rbind (blame_walk x sx fresh path n 1000 (fst acc) rid (node_nid n)) (\<lambda>(st, cur).
     rbind (rev_of x st cur) (\<lambda>(st, r).
     Inr (st, snd acc @ [\<lparr>be_nid = node_nid n, be_kind = node_kind n, be_name = node_name n, be_span = node_span n,
       be_revision = cur, be_author = rev_author r, be_title = rev_title r, be_intent = rev_intent r,
       be_time = rev_time r\<rparr>])))"

definition blame :: "ext \<Rightarrow> sem_ext \<Rightarrow> fresh_ids \<Rightarrow> index_store \<Rightarrow> oid \<Rightarrow> string \<Rightarrow> (index_store \<times> blame_entry list) res" where
  "blame x sx fresh store rid path =
     rbind (nodes_of x sx fresh path \<lparr>bl_store = store, bl_revs = Map.empty, bl_nodes = Map.empty, bl_aliases = Map.empty\<rparr> rid)
       (\<lambda>(st, ns).
       rbind (rfold (blame_unit x sx fresh rid path) ns (st, [])) (\<lambda>(st, out).
       Inr (bl_store st, sort_key (\<lambda>e. fst (be_span e)) out)))"

end
