(* ===== verification/Tree_Merge_Props.thy ===== *)
theory Tree_Merge_Props
  imports Blame Tree_Props
begin

text \<open>
  The merge of trees path by path, the index of a snapshot once found, and what blame answers.
\<close>

section \<open>Stores that grow\<close>

lemma obj_put_le: "obj_put h s y = (s', i) \<Longrightarrow> s \<subseteq>\<^sub>m s' \<and> i = h y"
  by (auto simp: obj_put_def map_le_def split: option.splits)

lemma obj_get_le: "obj_get h sel s i = Inr y \<Longrightarrow> s \<subseteq>\<^sub>m s' \<Longrightarrow> obj_get h sel s' i = Inr y"
  by (auto simp: obj_get_Inr_iff map_le_def dom_def)

section \<open>Paths that both sides changed\<close>

text \<open>The merge of one such file at a store \<open>s\<close>: the units merge without a conflict into the text of the leaf.\<close>

definition clean_at ::
  "ext \<Rightarrow> parser \<Rightarrow> flat \<Rightarrow> flat \<Rightarrow> flat \<Rightarrow> node_index option \<Rightarrow> node_index \<Rightarrow> node_index \<Rightarrow> rename list \<Rightarrow> rename list \<Rightarrow>
     objs \<Rightarrow> string \<Rightarrow> leaf \<Rightarrow> bool" where
  "clean_at x parse base a b base_idx a_idx b_idx ren_a ren_b s path l \<longleftrightarrow>
     (\<exists>la lb ra rb m. map_of a path = Some la \<and> map_of b path = Some lb \<and> lf_kind la = File \<and> lf_kind lb = File \<and>
        lf_ref la = Some ra \<and> lf_ref lb = Some rb \<and>
        merge_file parse (language_of_path path) (base_side x s (aliases_of [base_idx, Some a_idx, Some b_idx]) base_idx base path)
          (file_side (aliases_of [base_idx, Some a_idx, Some b_idx]) a_idx path (file_text x s ra))
          (file_side (aliases_of [base_idx, Some a_idx, Some b_idx]) b_idx path (file_text x s rb))
          (filter (\<lambda>r. rename_applies_to r path) ren_a) (filter (\<lambda>r. rename_applies_to r path) ren_b) = Inr m \<and>
        mg_conflicts m = [] \<and> l = leaf_file (ext_hash x (OBlob (mg_text m))) (executable_mode (Some la)))"

definition noted :: "tree_merge \<Rightarrow> string \<Rightarrow> bool" where
  "noted tm path \<longleftrightarrow> (\<exists>note. path @ '': '' @ note \<in> set (tm_conflicts tm))"

lemma note_texts: "both_changed_note path = path @ '': '' @ ''both sides changed''"
  "deleted_note path = path @ '': '' @ ''deleted on one side, changed on the other''"
  by (simp_all add: both_changed_note_def deleted_note_def)

lemma conflict_step_at:
  assumes "conflict_step x parse base a b base_idx a_idx b_idx (aliases_of [base_idx, Some a_idx, Some b_idx]) ren_a ren_b path (s, tm)
     = Inr (s', tm')"
  shows "s \<subseteq>\<^sub>m s' \<and> set (tm_conflicts tm) \<subseteq> set (tm_conflicts tm') \<and>
    (\<forall>q. q \<noteq> path \<longrightarrow> map_of (tm_flat tm') q = map_of (tm_flat tm) q) \<and>
    ((\<exists>l. clean_at x parse base a b base_idx a_idx b_idx ren_a ren_b s path l \<and> map_of (tm_flat tm') path = Some l) \<or>
     noted tm' path \<and> map_of (tm_flat tm') path = map_of (tm_flat tm) path)"
proof -
  let ?no = "\<lambda>c. (s', tm') = (s, tm\<lparr>tm_conflicts := tm_conflicts tm @ [path @ '': '' @ c]\<rparr>)"
  have no: ?thesis if "?no c" for c
    using that by (auto simp: noted_def)
  show ?thesis
  proof (cases "\<exists>la lb ra rb. map_of a path = Some la \<and> map_of b path = Some lb \<and> lf_kind la = File \<and> lf_kind lb = File \<and>
      lf_ref la = Some ra \<and> lf_ref lb = Some rb")
    case False
    then have "\<exists>c. ?no c"
      using assms by (auto simp: conflict_step_def Let_def note_texts split: option.splits if_splits)
    with no show ?thesis by blast
  next
    case True
    then obtain la lb ra rb where ab: "map_of a path = Some la" "map_of b path = Some lb" "lf_kind la = File" "lf_kind lb = File"
      "lf_ref la = Some ra" "lf_ref lb = Some rb" by blast
    let ?m = "merge_file parse (language_of_path path) (base_side x s (aliases_of [base_idx, Some a_idx, Some b_idx]) base_idx base path)
          (file_side (aliases_of [base_idx, Some a_idx, Some b_idx]) a_idx path (file_text x s ra))
          (file_side (aliases_of [base_idx, Some a_idx, Some b_idx]) b_idx path (file_text x s rb))
          (filter (\<lambda>r. rename_applies_to r path) ren_a) (filter (\<lambda>r. rename_applies_to r path) ren_b)"
    from assms ab obtain m where m: "?m = Inr m" by (auto simp: conflict_step_def Let_def result_simps)
    show ?thesis
    proof (cases "mg_conflicts m = []")
      case True
      then have c: "clean_at x parse base a b base_idx a_idx b_idx ren_a ren_b s path
          (leaf_file (ext_hash x (OBlob (mg_text m))) (executable_mode (Some la)))"
        using ab m unfolding clean_at_def by blast
      obtain t i where p: "obj_put (ext_hash x) s (OBlob (mg_text m)) = (t, i)" by fastforce
      with assms ab m True have "s' = t \<and> tm_conflicts tm' = tm_conflicts tm \<and>
          tm_flat tm' = bt_insert path (leaf_file i (executable_mode (Some la))) (tm_flat tm)"
        by (auto simp: conflict_step_def Let_def)
      with c obj_put_le [OF p] show ?thesis by auto
    next
      case False
      with assms ab m show ?thesis by (auto simp: conflict_step_def Let_def noted_def)
    qed
  qed
qed

lemma noted_mono: "noted tm p \<Longrightarrow> set (tm_conflicts tm) \<subseteq> set (tm_conflicts tm') \<Longrightarrow> noted tm' p"
  unfolding noted_def by blast

lemma conflict_loop:
  assumes "rfold (conflict_step x parse base a b base_idx a_idx b_idx (aliases_of [base_idx, Some a_idx, Some b_idx]) ren_a ren_b)
      ps (s, tm) = Inr (s', tm')" and "distinct ps"
  shows "s \<subseteq>\<^sub>m s' \<and> set (tm_conflicts tm) \<subseteq> set (tm_conflicts tm') \<and>
    (\<forall>q. q \<notin> set ps \<longrightarrow> map_of (tm_flat tm') q = map_of (tm_flat tm) q) \<and>
    (\<forall>p \<in> set ps. (\<exists>s0 l. s \<subseteq>\<^sub>m s0 \<and> clean_at x parse base a b base_idx a_idx b_idx ren_a ren_b s0 p l \<and>
        map_of (tm_flat tm') p = Some l) \<or>
      noted tm' p \<and> map_of (tm_flat tm') p = map_of (tm_flat tm) p)"
  using assms
proof (induction ps arbitrary: s tm)
  case (Cons p ps)
  then obtain s1 tm1 where 1: "conflict_step x parse base a b base_idx a_idx b_idx (aliases_of [base_idx, Some a_idx, Some b_idx])
      ren_a ren_b p (s, tm) = Inr (s1, tm1)"
    and 2: "rfold (conflict_step x parse base a b base_idx a_idx b_idx (aliases_of [base_idx, Some a_idx, Some b_idx]) ren_a ren_b)
      ps (s1, tm1) = Inr (s', tm')" by (auto simp: result_simps)
  note step = conflict_step_at [OF 1]
  note rest = Cons.IH [OF 2]
  from Cons.prems(2) have d: "distinct ps" "p \<notin> set ps" by auto
  have le: "s \<subseteq>\<^sub>m s'" "set (tm_conflicts tm) \<subseteq> set (tm_conflicts tm')"
    using step rest [OF d(1)] by (blast intro: map_le_trans)+
  have other: "map_of (tm_flat tm') q = map_of (tm_flat tm) q" if "q \<notin> set (p # ps)" for q
    using that step rest [OF d(1)] by auto
  have at_p: "(\<exists>s0 l. s \<subseteq>\<^sub>m s0 \<and> clean_at x parse base a b base_idx a_idx b_idx ren_a ren_b s0 p l \<and>
        map_of (tm_flat tm') p = Some l) \<or> noted tm' p \<and> map_of (tm_flat tm') p = map_of (tm_flat tm) p"
    using step rest [OF d(1)] d(2) noted_mono map_le_refl by metis
  have "(\<exists>s0 l. s \<subseteq>\<^sub>m s0 \<and> clean_at x parse base a b base_idx a_idx b_idx ren_a ren_b s0 q l \<and>
        map_of (tm_flat tm') q = Some l) \<or> noted tm' q \<and> map_of (tm_flat tm') q = map_of (tm_flat tm) q" if "q \<in> set ps" for q
  proof -
    from that d(2) step have "map_of (tm_flat tm1) q = map_of (tm_flat tm) q" "s \<subseteq>\<^sub>m s1" by auto
    with that rest [OF d(1)] show ?thesis by (metis map_le_trans)
  qed
  with le other at_p show ?case by simp
qed simp


section \<open>Files that one side changed\<close>

lemma carry_fold:
  "fst (fold (carry_step x parse base a b ren_a ren_b s) pls acc) = fst acc @
     List.map_filter (\<lambda>pl. map_option (\<lambda>ca. (fst pl, fst ca)) (carried_file x parse s base a b ren_a ren_b pl)) pls"
  by (induction pls arbitrary: acc)
     (auto simp: carry_step_def map_filter_simps split: option.splits prod.splits)

lemma map_of_carried:
  "distinct (map fst pls) \<Longrightarrow>
     map_of (List.map_filter (\<lambda>pl. map_option (\<lambda>ca. (fst pl, fst ca)) (f pl)) pls) q =
       Option.bind (map_of pls q) (\<lambda>l. map_option fst (f (q, l)))"
proof (induction pls)
  case (Cons pl pls)
  obtain p l where pl: "pl = (p, l)" by (cases pl)
  with Cons.prems have "map_of pls p = None" by (simp add: map_of_eq_None_iff)
  with Cons pl show ?case by (auto simp: map_filter_simps split: option.splits)
qed (simp add: map_filter_simps)

lemma distinct_carried:
  "distinct (map fst pls) \<Longrightarrow> distinct (map fst (List.map_filter (\<lambda>pl. map_option (\<lambda>ca. (fst pl, fst ca)) (f pl)) pls))"
proof (induction pls)
  case (Cons pl pls)
  have "fst ` set (List.map_filter (\<lambda>pl. map_option (\<lambda>ca. (fst pl, fst ca)) (f pl)) pls) \<subseteq> fst ` set pls"
    by (force simp: List.map_filter_def)
  with Cons show ?case by (auto simp: map_filter_simps split: option.splits)
qed (simp add: map_filter_simps)

lemma store_fold:
  "distinct (map fst cs) \<Longrightarrow> fold (store_carried x) cs (s, f) = (s', f') \<Longrightarrow>
     s \<subseteq>\<^sub>m s' \<and> (\<forall>q. map_of f' q = (case map_of cs q of None \<Rightarrow> map_of f q
        | Some cont \<Rightarrow> Some (leaf_file (ext_hash x (OBlob cont)) (executable_mode (map_of f q)))))"
proof (induction cs arbitrary: s f)
  case (Cons c cs)
  obtain p cont where c: "c = (p, cont)" by (cases c)
  obtain s1 i where p: "obj_put (ext_hash x) s (OBlob cont) = (s1, i)" by fastforce
  note le = obj_put_le [OF p]
  have "store_carried x (p, cont) (s, f) = (s1, bt_insert p (leaf_file i (executable_mode (map_of f p))) f)"
    using p by (simp add: store_carried_def)
  with Cons.prems(2) c have "fold (store_carried x) cs (s1, bt_insert p (leaf_file i (executable_mode (map_of f p))) f) = (s', f')"
    by simp
  moreover from Cons.prems(1) c have "distinct (map fst cs)" "map_of cs p = None" by (auto simp: map_of_eq_None_iff)
  ultimately show ?case using Cons.IH [of s1 "bt_insert p (leaf_file i (executable_mode (map_of f p))) f"] c le
    by (auto intro: map_le_trans split: option.splits)
qed simp

lemma merge_paths_parts:
  assumes "merge_paths blake base a b = (out, clashes)"
  shows "distinct (map fst out) \<and> distinct clashes \<and> set clashes = {p. both_changed base a b p} \<and>
    (\<forall>p. \<not> both_changed base a b p \<longrightarrow> map_of out p = (if map_of a p = map_of base p then map_of b p else map_of a p)) \<and>
    (\<forall>p. both_changed base a b p \<longrightarrow> (\<exists>l. map_of out p = Some l \<and> lf_kind l = KConflict))"
proof -
  let ?ps = "btree_list (map fst base @ map fst a @ map fst b)"
  have none: "map_of base p = None \<and> map_of a p = None \<and> map_of b p = None" if "p \<notin> set ?ps" for p
    using that by (simp add: map_of_eq_None_iff)
  have spec: "bt_ok out \<and> clashes = [] @ filter (both_changed base a b) ?ps \<and>
     (\<forall>p. map_of out p = (case fst (pick_leaf blake (map_of base p) (map_of a p) (map_of b p)) of
        Some l \<Rightarrow> if p \<in> set ?ps then Some l else map_of [] p | None \<Rightarrow> map_of [] p))"
    by (rule merge_paths_fold) (use assms in \<open>simp_all add: merge_paths_def del: map_append\<close>)
  have "set clashes = {p. both_changed base a b p}"
    using spec none by (auto simp: both_changed_def simp del: set_btree_list) metis
  moreover have pick: "map_of out p = fst (pick_leaf blake (map_of base p) (map_of a p) (map_of b p))" for p
    using spec none [of p] by (cases "p \<in> set ?ps") (auto simp: pick_leaf_def split: option.split)
  moreover have "map_of out p = (if map_of a p = map_of base p then map_of b p else map_of a p)"
    if "\<not> both_changed base a b p" for p
    using that unfolding pick by (auto simp: both_changed_def pick_leaf_def)
  moreover have "\<exists>l. map_of out p = Some l \<and> lf_kind l = KConflict" if "both_changed base a b p" for p
    using that unfolding pick by (auto simp: both_changed_def pick_leaf_def)
  ultimately show ?thesis using spec by (auto simp: bt_ok_def strict_sorted_iff)
qed

definition base_or_changed :: "flat \<Rightarrow> flat \<Rightarrow> flat \<Rightarrow> string \<Rightarrow> leaf option" where
  "base_or_changed base a b p = (if map_of a p = map_of base p then map_of b p else map_of a p)"

lemma if_intro: "(c \<Longrightarrow> p) \<Longrightarrow> (\<not> c \<Longrightarrow> q) \<Longrightarrow> if c then p else q"
  by simp


end
