(* ===== verification/Blame_Props.thy ===== *)
theory Blame_Props
  imports Tree_Merge_Props Blame
begin

text \<open>
  The index of a snapshot, once found, is the answer for good, and blame quotes ancestors.

  \<open>answered\<close> is what a store knows of a snapshot whose index is filed under its key.
\<close>

section \<open>The index of a snapshot\<close>

text \<open>Hashes are 32 bytes, and nothing stored has the hash of an index but that index.\<close>

definition index_hash_sound :: "(obj \<Rightarrow> oid) \<Rightarrow> objs \<Rightarrow> bool" where
  "index_hash_sound h s \<longleftrightarrow> (\<forall>n. \<forall>y \<in> ran s. h y = h (ONodeIndex n) \<longrightarrow> y = ONodeIndex n) \<and> (\<forall>y. length (h y) = 32)"

definition answered :: "ext \<Rightarrow> index_store \<Rightarrow> oid \<Rightarrow> oid \<Rightarrow> node_index \<Rightarrow> bool" where
  "answered x st snap i idx \<longleftrightarrow>
     map_of (is_meta st) snap = Some i \<and> obj_get (ext_hash x) as_node_index (is_objs st) i = Inr idx \<and>
     index_current idx \<and> (\<exists>sn. obj_get (ext_hash x) as_snapshot (is_objs st) snap = Inr sn)"

lemma index_id_length:
  assumes "\<forall>y. length (ext_hash x y) = 32" "obj_get (ext_hash x) as_node_index s i = Inr idx"
  shows "length i = 32"
  using assms by (auto simp: index_hash_sound_def obj_get_Inr_iff)

lemma index_under_key_answered:
  assumes "\<forall>y. length (ext_hash x y) = 32" "map_of (is_meta st) snap = Some i"
    "obj_get (ext_hash x) as_node_index (is_objs st) i = Inr idx"
  shows "index_under_key x st snap = Some (i, idx)"
  using assms index_id_length [OF assms(1,3)] by (simp add: index_under_key_def oid_from_slice_def)

lemma index_under_keyD:
  assumes "index_under_key x st snap = Some (i, idx)"
  shows "map_of (is_meta st) snap = Some i \<and> obj_get (ext_hash x) as_node_index (is_objs st) i = Inr idx"
proof -
  from assms obtain bs where 1: "map_of (is_meta st) snap = Some bs"
    and 2: "(case oid_from_slice bs of Inl _ \<Rightarrow> None
      | Inr i \<Rightarrow> (case obj_get (ext_hash x) as_node_index (is_objs st) i of Inr idx \<Rightarrow> Some (i, idx) | Inl _ \<Rightarrow> None)) = Some (i, idx)"
    unfolding index_under_key_def bind_eq_Some_conv by blast
  from 2 have "oid_from_slice bs = Inr i \<and> obj_get (ext_hash x) as_node_index (is_objs st) i = Inr idx"
    by (auto split: sum.split_asm)
  with 1 show ?thesis by (auto simp: oid_from_slice_def split: if_split_asm)
qed

lemma answered_again:
  assumes "\<forall>y. length (ext_hash x y) = 32" "answered x st snap i idx"
  shows "index_for_snapshot x sx fresh st snap = Inr (st, i, idx)"
proof -
  from assms index_under_key_answered [of x st snap i idx] have "index_under_key x st snap = Some (i, idx)"
    by (simp add: answered_def)
  with assms(2) show ?thesis
    by (auto simp: index_for_snapshot_def cached_index_def found_index_def answered_def Let_def)
qed

text \<open>What a step may do to a store: objects are added, and of the keys only that of \<open>snap\<close> changes.\<close>

definition adds :: "oid \<Rightarrow> index_store \<Rightarrow> index_store \<Rightarrow> bool" where
  "adds snap st st' \<longleftrightarrow> is_objs st \<subseteq>\<^sub>m is_objs st' \<and> (\<forall>k. k \<noteq> snap \<longrightarrow> map_of (is_meta st') k = map_of (is_meta st) k)"

lemma adds_refl: "adds snap st st"
  by (simp add: adds_def)

lemma answered_adds: "answered x st snap i idx \<Longrightarrow> adds k st st' \<Longrightarrow> k \<noteq> snap \<Longrightarrow> answered x st' snap i idx"
  unfolding answered_def adds_def using obj_get_le by metis

lemma save_index_answers:
  assumes "index_hash_sound (ext_hash x) (is_objs st)" "ni_grammars n = grammars"
    "save_index x st snap (obj_put (ext_hash x) (is_objs st) (ONodeIndex n)) = Inr (st', i, idx)"
    "obj_get (ext_hash x) as_snapshot (is_objs st) snap = Inr sn"
  shows "answered x st' snap i idx \<and> adds snap st st'"
proof -
  obtain s where p: "obj_put (ext_hash x) (is_objs st) (ONodeIndex n) = (s, ext_hash x (ONodeIndex n))"
    by (simp add: obj_put_def)
  with assms(3) have r: "obj_get (ext_hash x) as_node_index s (ext_hash x (ONodeIndex n)) = Inr idx"
    "i = ext_hash x (ONodeIndex n)" "st' = st\<lparr>is_objs := s, is_meta := bt_insert snap i (is_meta st)\<rparr>"
    by (auto simp: save_index_def result_simps)
  from r(1) obtain y where y: "ext_hash x y = ext_hash x (ONodeIndex n)" "as_node_index y = Some idx"
    "s (ext_hash x (ONodeIndex n)) = Some y"
    by (auto simp: obj_get_Inr_iff)
  from p have "s = (case is_objs st (ext_hash x (ONodeIndex n)) of None \<Rightarrow> (is_objs st)(ext_hash x (ONodeIndex n) \<mapsto> ONodeIndex n)
      | Some _ \<Rightarrow> is_objs st)" by (simp add: obj_put_def)
  with y(3) have "y = ONodeIndex n \<or> y \<in> ran (is_objs st)"
    by (cases "is_objs st (ext_hash x (ONodeIndex n))") (simp, simp add: ranI)
  with assms(1) y(1) have "y = ONodeIndex n" unfolding index_hash_sound_def by blast
  with y(2) have "idx = n" by simp
  moreover from obj_put_le [OF p] have le: "is_objs st \<subseteq>\<^sub>m s" by blast
  ultimately show ?thesis
    using r assms(2) obj_get_le [OF assms(4) le] le by (simp add: answered_def adds_def index_current_def)
qed

lemma build_against_answers:
  assumes "index_hash_sound (ext_hash x) (is_objs st)" "build_against x sx fresh st snap parent = Inr (st', i, idx)"
  shows "answered x st' snap i idx \<and> adds snap st st'"
proof -
  from assms(2) obtain n sn where "save_index x st snap (obj_put (ext_hash x) (is_objs st) (ONodeIndex n)) = Inr (st', i, idx)"
    "ni_grammars n = grammars" "obj_get (ext_hash x) as_snapshot (is_objs st) snap = Inr sn"
    unfolding build_against_def put_index_def put_index_with_aliases_def by (auto simp: result_simps)
  then show ?thesis by (intro save_index_answers [OF assms(1)])
qed

lemma found_index_get:
  assumes "found_index x st snap sn = Inr (Some (i, idx))"
  shows "obj_get (ext_hash x) as_node_index (is_objs st) i = Inr idx"
  using assms index_under_keyD by (auto simp: found_index_def Let_def result_simps split: if_splits option.splits)

lemma cached_indexE:
  assumes "cached_index x sx fresh st snap = Inr (st', Some (i, idx))"
  obtains sn j jdx st1 where "obj_get (ext_hash x) as_snapshot (is_objs st) snap = Inr sn"
    "found_index x st snap sn = Inr (Some (j, jdx))"
    "(if index_current jdx then Inr (st, j, jdx) else refresh_index x sx fresh st snap sn jdx) = Inr (st1, i, idx)"
    "st' = (if map_option fst (index_under_key x st snap) \<noteq> Some i then st1\<lparr>is_meta := bt_insert snap i (is_meta st1)\<rparr> else st1)"
proof -
  from assms obtain sn j jdx where sn: "obj_get (ext_hash x) as_snapshot (is_objs st) snap = Inr sn"
    and f: "found_index x st snap sn = Inr (Some (j, jdx))"
    by (auto simp: cached_index_def result_simps split: option.splits)
  with assms that show thesis by (auto simp: cached_index_def result_simps)
qed

lemma cached_index_answers:
  assumes "index_hash_sound (ext_hash x) (is_objs st)" "cached_index x sx fresh st snap = Inr (st', Some (i, idx))"
  shows "answered x st' snap i idx \<and> adds snap st st'"
proof -
  obtain sn j jdx st1 where sn: "obj_get (ext_hash x) as_snapshot (is_objs st) snap = Inr sn"
    and f: "found_index x st snap sn = Inr (Some (j, jdx))"
    and 1: "(if index_current jdx then Inr (st, j, jdx) else refresh_index x sx fresh st snap sn jdx) = Inr (st1, i, idx)"
    and 2: "st' = (if map_option fst (index_under_key x st snap) \<noteq> Some i then st1\<lparr>is_meta := bt_insert snap i (is_meta st1)\<rparr> else st1)"
    using cached_indexE [OF assms(2)] by metis
  show ?thesis
  proof (cases "index_current jdx")
    case True
    with 1 have e: "st1 = st" "i = j" "idx = jdx" by auto
    from found_index_get [OF f] have g: "obj_get (ext_hash x) as_node_index (is_objs st) j = Inr jdx" .
    have "map_of (is_meta st) snap = Some i" if "map_option fst (index_under_key x st snap) = Some i"
      using that index_under_keyD by auto
    with 2 e g sn True show ?thesis by (auto simp: answered_def adds_def)
  next
    case False
    with 1 have "refresh_index x sx fresh st snap sn jdx = Inr (st1, i, idx)" by simp
    then obtain n where n: "save_index x st snap (obj_put (ext_hash x) (is_objs st) (ONodeIndex n)) = Inr (st1, i, idx)"
      "ni_grammars n = grammars"
      unfolding refresh_index_def put_index_with_aliases_def by (auto simp: result_simps)
    from save_index_answers [OF assms(1) n(2,1) sn] have "answered x st1 snap i idx \<and> adds snap st st1" .
    with 2 show ?thesis by (auto simp: answered_def adds_def)
  qed
qed

lemma cached_index_none: "cached_index x sx fresh st snap = Inr (st', None) \<Longrightarrow> st' = st"
  by (auto simp: cached_index_def result_simps split: option.splits)

lemma index_for_snapshot_answers:
  assumes "index_hash_sound (ext_hash x) (is_objs st)" "index_for_snapshot x sx fresh st snap = Inr (st', i, idx)"
  shows "answered x st' snap i idx \<and> adds snap st st'"
proof -
  from assms(2) obtain st1 found where c: "cached_index x sx fresh st snap = Inr (st1, found)"
    and r: "(case found of Some r \<Rightarrow> Inr (st1, r) | None \<Rightarrow> build_against x sx fresh st1 snap None) = Inr (st', i, idx)"
    by (auto simp: index_for_snapshot_def result_simps)
  show ?thesis
  proof (cases found)
    case None
    with c have "st1 = st" using cached_index_none by blast
    with r None have "build_against x sx fresh st snap None = Inr (st', i, idx)" by simp
    then show ?thesis by (rule build_against_answers [OF assms(1)])
  next
    case (Some q)
    with c r cached_index_answers [OF assms(1)] show ?thesis by simp
  qed
qed

text \<open>Whatever collides, only objects and the key of the snapshot are added.\<close>

lemma save_index_adds:
  "save_index x st snap (obj_put (ext_hash x) (is_objs st) y) = Inr (st', r) \<Longrightarrow> adds snap st st'"
  by (auto simp: save_index_def obj_put_def result_simps map_le_def adds_def split: option.splits)

lemma build_against_adds: "build_against x sx fresh st snap parent = Inr (st', r) \<Longrightarrow> adds snap st st'"
  unfolding build_against_def put_index_def put_index_with_aliases_def
  by (auto simp: result_simps dest!: save_index_adds)

lemma refresh_index_adds: "refresh_index x sx fresh st snap sn stale = Inr (st', r) \<Longrightarrow> adds snap st st'"
  unfolding refresh_index_def put_index_with_aliases_def
  by (auto simp: result_simps dest!: save_index_adds)

lemma cached_index_adds:
  assumes "cached_index x sx fresh st snap = Inr (st', r)"
  shows "adds snap st st'"
proof (cases r)
  case None
  with assms have "st' = st" using cached_index_none by blast
  then show ?thesis by (simp add: adds_refl)
next
  case (Some q)
  obtain i idx where "r = Some (i, idx)" using Some by (cases q) simp
  with assms obtain sn j jdx st1 where
    1: "(if index_current jdx then Inr (st, j, jdx) else refresh_index x sx fresh st snap sn jdx) = Inr (st1, i, idx)"
    and 2: "st' = (if map_option fst (index_under_key x st snap) \<noteq> Some i then st1\<lparr>is_meta := bt_insert snap i (is_meta st1)\<rparr> else st1)"
    using cached_indexE by metis
  from 1 refresh_index_adds adds_refl have "adds snap st st1" by (cases "index_current jdx") auto
  with 2 show ?thesis by (simp add: adds_def)
qed

lemma index_for_snapshot_adds:
  assumes "index_for_snapshot x sx fresh st snap = Inr (st', r)"
  shows "adds snap st st'"
proof -
  from assms obtain st1 found where c: "cached_index x sx fresh st snap = Inr (st1, found)"
    and r: "(case found of Some r \<Rightarrow> Inr (st1, r) | None \<Rightarrow> build_against x sx fresh st1 snap None) = Inr (st', r)"
    by (auto simp: index_for_snapshot_def result_simps)
  show ?thesis
  proof (cases found)
    case None
    with c have "st1 = st" using cached_index_none by blast
    with r None have "build_against x sx fresh st snap None = Inr (st', r)" by simp
    then show ?thesis by (rule build_against_adds)
  next
    case (Some q)
    with r cached_index_adds [OF c] show ?thesis by simp
  qed
qed

text \<open>The index of a snapshot, once answered, is the answer for good: whatever ids are drawn later, asking
  again gives the same index and changes nothing, also after the index of any other snapshot was asked
  for. It is always one that the current grammars made.\<close>

theorem index_is_stable:
  assumes "index_hash_sound (ext_hash x) (is_objs st)" "index_for_snapshot x sx fresh st snap = Inr (st1, i, idx)"
  shows "index_current idx \<and> index_for_snapshot x sx fresh2 st1 snap = Inr (st1, i, idx) \<and>
    (\<forall>snap2 st2 r. index_for_snapshot x sx fresh3 st1 snap2 = Inr (st2, r) \<longrightarrow>
       index_for_snapshot x sx fresh4 st2 snap = Inr (st2, i, idx))"
proof -
  from index_for_snapshot_answers [OF assms] have a: "answered x st1 snap i idx" by blast
  from assms(1) have "\<forall>y. length (ext_hash x y) = 32" by (simp add: index_hash_sound_def)
  note same = answered_again [OF this]
  have "index_for_snapshot x sx fresh4 st2 snap = Inr (st2, i, idx)"
    if r: "index_for_snapshot x sx fresh3 st1 snap2 = Inr (st2, r)" for snap2 st2 r
  proof (cases "snap2 = snap")
    case True
    with r same [OF a] have "st2 = st1" by simp
    with same [OF a] show ?thesis by simp
  next
    case False
    from index_for_snapshot_adds [OF r] have "adds snap2 st1 st2" .
    from answered_adds [OF a this False] show ?thesis by (rule same)
  qed
  with a same [OF a] show ?thesis unfolding answered_def by blast
qed

text \<open>
  Blame names, for every unit of a path, an ancestor in which a unit of the same body stands at that path.

  \<open>blame_ok\<close> says that the caches hold what the store holds; every step keeps it and only adds to the store.
\<close>

section \<open>Indexing only adds objects\<close>

abbreviation objs_grown :: "index_store \<Rightarrow> index_store \<Rightarrow> bool" where
  "objs_grown st st' \<equiv> is_objs st \<subseteq>\<^sub>m is_objs st'"

lemma adds_grown: "adds snap st st' \<Longrightarrow> objs_grown st st'"
  by (simp add: adds_def)

lemmas build_against_grown = build_against_adds [THEN adds_grown]
lemmas cached_index_grown = cached_index_adds [THEN adds_grown]
lemmas index_for_snapshot_grown = index_for_snapshot_adds [THEN adds_grown]

lemma build_index_grown: "build_index x sx fresh st snap parent = Inr (st', r) \<Longrightarrow> objs_grown st st'"
  unfolding build_index_def
  by (auto simp: result_simps dest!: index_for_snapshot_grown build_against_grown intro: map_le_trans split: option.splits)

lemma todo_loop_grown:
  "todo_loop x sx fresh limit st cur parents todo = Inr (st', todo') \<Longrightarrow> objs_grown st st'"
proof (induction x sx fresh limit st cur parents todo rule: todo_loop.induct)
  case (1 x sx fresh limit st cur parents todo)
  note run = 1(2) [unfolded todo_loop.simps [of x sx fresh limit st cur parents todo]]
  from run obtain st1 found where c: "cached_index x sx fresh st cur = Inr (st1, found)"
    by (auto simp: result_simps)
  note g = cached_index_grown [OF c]
  show ?case
  proof (cases "st' = st1")
    case True
    with g show ?thesis by simp
  next
    case False
    with run c obtain parents' ps where "found = None" "Suc (length todo) < limit"
      "(case parents of [] \<Rightarrow> Inr (None, parents)
        | p # _ \<Rightarrow> rbind (obj_get (ext_hash x) as_revision (is_objs st1) p) (\<lambda>pr. Inr (snap_of pr, rev_parents pr))) = Inr (Some ps, parents')"
      "todo_loop x sx fresh limit st1 ps parents' (todo @ [(cur, Some ps)]) = Inr (st', todo')"
      by (cases found) (auto simp: result_simps split: option.split_asm if_split_asm)
    with 1(1) [OF c] have "objs_grown st1 st'" by simp
    with g show ?thesis by (rule map_le_trans)
  qed
qed

lemma build_all_grown: "build_all x sx fresh todo st = Inr st' \<Longrightarrow> objs_grown st st'"
proof -
  have "rfold (\<lambda>(snap, parent) st. rbind (build_index x sx fresh st snap parent) (\<lambda>(st, _). Inr st)) ps st = Inr st' \<Longrightarrow> objs_grown st st'"
    for ps
    by (induction ps arbitrary: st)
       (auto simp: result_simps dest!: build_index_grown intro: map_le_trans)
  then show "build_all x sx fresh todo st = Inr st' \<Longrightarrow> objs_grown st st'" by (simp add: build_all_def)
qed

lemma index_for_revision_grown: "index_for_revision x sx fresh st rv = Inr (st', r) \<Longrightarrow> objs_grown st st'"
  unfolding index_for_revision_def
  by (auto simp: result_simps dest!: todo_loop_grown build_all_grown index_for_snapshot_grown intro: map_le_trans)


section \<open>The caches\<close>

text \<open>The units of a path at a revision, as the walk learns them.\<close>

definition units_at :: "ext \<Rightarrow> sem_ext \<Rightarrow> fresh_ids \<Rightarrow> string \<Rightarrow> objs \<Rightarrow> oid \<Rightarrow> node list \<Rightarrow> bool" where
  "units_at x sx fresh path s i ns \<longleftrightarrow>
     (\<exists>r. obj_get (ext_hash x) as_revision s i = Inr r \<and>
       (if snap_of r = None then ns = []
        else \<exists>st st' j idx. index_for_revision x sx fresh st r = Inr (st', j, idx) \<and> is_objs st' \<subseteq>\<^sub>m s \<and>
               ns = nodes_for_path (ni_nodes idx) path))"

definition blame_ok :: "ext \<Rightarrow> sem_ext \<Rightarrow> fresh_ids \<Rightarrow> string \<Rightarrow> blame_state \<Rightarrow> bool" where
  "blame_ok x sx fresh path st \<longleftrightarrow>
     (\<forall>i r. bl_revs st i = Some r \<longrightarrow> obj_get (ext_hash x) as_revision (is_objs (bl_store st)) i = Inr r) \<and>
     (\<forall>i ns. bl_nodes st i = Some ns \<longrightarrow> units_at x sx fresh path (is_objs (bl_store st)) i ns)"

lemma units_at_le: "units_at x sx fresh path s i ns \<Longrightarrow> s \<subseteq>\<^sub>m s' \<Longrightarrow> units_at x sx fresh path s' i ns"
  unfolding units_at_def using obj_get_le map_le_trans by (metis (no_types, lifting))

lemma rev_of_ok:
  assumes "rev_of x st i = Inr (st', r)" "blame_ok x sx fresh path st"
  shows "blame_ok x sx fresh path st' \<and> bl_store st' = bl_store st \<and> bl_nodes st' = bl_nodes st \<and>
    obj_get (ext_hash x) as_revision (is_objs (bl_store st)) i = Inr r"
  using assms by (auto simp: rev_of_def blame_ok_def result_simps split: option.splits if_splits)

lemma nodes_of_ok:
  assumes "nodes_of x sx fresh path st i = Inr (st', ns)" "blame_ok x sx fresh path st"
  shows "blame_ok x sx fresh path st' \<and> objs_grown (bl_store st) (bl_store st') \<and>
    units_at x sx fresh path (is_objs (bl_store st')) i ns"
proof (cases "bl_nodes st i")
  case (Some ms)
  with assms show ?thesis by (auto simp: nodes_of_def blame_ok_def)
next
  case None
  with assms(1) obtain st1 r where r: "rev_of x st i = Inr (st1, r)"
    and rest: "(case snap_of r of None \<Rightarrow> Inr (st1\<lparr>bl_nodes := (bl_nodes st1)(i \<mapsto> [])\<rparr>, [])
      | Some _ \<Rightarrow> rbind (index_for_revision x sx fresh (bl_store st1) r) (\<lambda>(store, _, idx).
              let ns = nodes_for_path (ni_nodes idx) path
              in Inr (st1\<lparr>bl_store := store, bl_aliases := (bl_aliases st1)(i \<mapsto> index_aliases idx),
                         bl_nodes := (bl_nodes st1)(i \<mapsto> ns)\<rparr>, ns))) = Inr (st', ns)"
    by (auto simp: nodes_of_def result_simps)
  note ok = rev_of_ok [OF r assms(2)]
  show ?thesis
  proof (cases "snap_of r")
    case None
    with ok have u: "units_at x sx fresh path (is_objs (bl_store st)) i []" by (simp add: units_at_def)
    with None rest ok show ?thesis by (auto simp: blame_ok_def split: if_split_asm)
  next
    case (Some sn)
    with rest obtain store j idx where s: "index_for_revision x sx fresh (bl_store st1) r = Inr (store, j, idx)"
      "ns = nodes_for_path (ni_nodes idx) path"
      "st' = st1\<lparr>bl_store := store, bl_aliases := (bl_aliases st1)(i \<mapsto> index_aliases idx), bl_nodes := (bl_nodes st1)(i \<mapsto> ns)\<rparr>"
      by (auto simp: result_simps Let_def)
    from index_for_revision_grown [OF s(1)] have g: "objs_grown (bl_store st1) store" .
    from ok obj_get_le [OF _ g, of "ext_hash x" as_revision i r] have r': "obj_get (ext_hash x) as_revision (is_objs store) i = Inr r" by simp
    have "is_objs store \<subseteq>\<^sub>m is_objs store" by simp
    with r' s(1,2) Some have u: "units_at x sx fresh path (is_objs store) i ns"
      unfolding units_at_def by (metis option.distinct(1))
    moreover have "blame_ok x sx fresh path st'"
      using ok u s(3) obj_get_le [OF _ g, of "ext_hash x" as_revision] units_at_le [OF _ g] by (auto simp: blame_ok_def split: if_split_asm)
    ultimately show ?thesis using s(3) ok g by simp
  qed
qed

section \<open>The walk\<close>

definition carries :: "ext \<Rightarrow> sem_ext \<Rightarrow> fresh_ids \<Rightarrow> string \<Rightarrow> node \<Rightarrow> objs \<Rightarrow> oid \<Rightarrow> bool" where
  "carries x sx fresh path n s i \<longleftrightarrow> (\<exists>ns. units_at x sx fresh path s i ns \<and> (\<exists>q \<in> set ns. node_body q = node_body n))"

lemma carries_le: "carries x sx fresh path n s i \<Longrightarrow> s \<subseteq>\<^sub>m s' \<Longrightarrow> carries x sx fresh path n s' i"
  unfolding carries_def using units_at_le by blast

lemma carried_byD: "carried_by n aliases track pn = Some i \<Longrightarrow> \<exists>q \<in> set pn. node_body q = node_body n"
  unfolding carried_by_def same_unit_def
  by (auto simp: bind_eq_Some_conv find_Some_iff filter_eq_Cons_iff split: option.split_asm list.split_asm if_split_asm)

lemma find_parent_ok:
  assumes "find_parent x sx fresh path n aliases track st ps = Inr (st', next)" "blame_ok x sx fresh path st"
  shows "blame_ok x sx fresh path st' \<and> objs_grown (bl_store st) (bl_store st') \<and>
    (\<forall>p i. next = Some (p, i) \<longrightarrow> p \<in> set ps \<and> carries x sx fresh path n (is_objs (bl_store st')) p)"
  using assms
proof (induction ps arbitrary: st)
  case (Cons p ps)
  then obtain st1 pn where n: "nodes_of x sx fresh path st p = Inr (st1, pn)" by (auto simp: result_simps)
  note ok = nodes_of_ok [OF n Cons.prems(2)]
  show ?case
  proof (cases "carried_by n aliases track pn")
    case None
    with Cons.prems n have "find_parent x sx fresh path n aliases track st1 ps = Inr (st', next)" by simp
    from Cons.IH [OF this] ok show ?thesis by (auto intro: map_le_trans)
  next
    case (Some i)
    with Cons.prems n have "st' = st1" "next = Some (p, i)" by auto
    with ok carried_byD [OF Some] show ?thesis by (auto simp: carries_def)
  qed
qed simp

definition child_parent :: "ext \<Rightarrow> objs \<Rightarrow> (oid \<times> oid) set" where
  "child_parent x s = {(c, p). \<exists>r. obj_get (ext_hash x) as_revision s c = Inr r \<and> p \<in> set (rev_parents r)}"

lemma child_parent_le: "s \<subseteq>\<^sub>m s' \<Longrightarrow> child_parent x s \<subseteq> child_parent x s'"
  by (auto simp: child_parent_def intro: obj_get_le)

lemma blame_walk_ok:
  assumes "blame_walk x sx fresh path n d st cur track = Inr (st', cur')" "blame_ok x sx fresh path st"
    "carries x sx fresh path n (is_objs (bl_store st)) cur"
  shows "blame_ok x sx fresh path st' \<and> objs_grown (bl_store st) (bl_store st') \<and>
    (cur, cur') \<in> (child_parent x (is_objs (bl_store st')))\<^sup>* \<and>
    carries x sx fresh path n (is_objs (bl_store st')) cur'"
  using assms
proof (induction d arbitrary: st cur track)
  case (Suc d)
  then obtain st1 r st2 found where r: "rev_of x st cur = Inr (st1, r)"
    and f: "find_parent x sx fresh path n (case bl_aliases st1 cur of Some m \<Rightarrow> m | None \<Rightarrow> []) track st1 (rev_parents r) = Inr (st2, found)"
    and rest: "(case found of None \<Rightarrow> Inr (st2, cur) | Some (p, i) \<Rightarrow> blame_walk x sx fresh path n d st2 p i) = Inr (st', cur')"
    by (auto simp: result_simps)
  note ok1 = rev_of_ok [OF r Suc.prems(2)]
  note ok2 = find_parent_ok [OF f] ok1
  then have g: "objs_grown (bl_store st) (bl_store st2)" by simp
  show ?case
  proof (cases found)
    case None
    with rest ok2 g carries_le [OF Suc.prems(3) g] show ?thesis by auto
  next
    case (Some q)
    obtain p i where q: "found = Some (p, i)" using Some by (cases q) simp
    with rest have w: "blame_walk x sx fresh path n d st2 p i = Inr (st', cur')" by simp
    from ok2 q have p: "p \<in> set (rev_parents r)" "carries x sx fresh path n (is_objs (bl_store st2)) p" by auto
    with Suc.IH [OF w] ok2 have ih: "blame_ok x sx fresh path st' \<and> objs_grown (bl_store st2) (bl_store st') \<and>
      (p, cur') \<in> (child_parent x (is_objs (bl_store st')))\<^sup>* \<and> carries x sx fresh path n (is_objs (bl_store st')) cur'" by simp
    with g have g': "objs_grown (bl_store st) (bl_store st')" by (blast intro: map_le_trans)
    with ok1 p(1) have "(cur, p) \<in> child_parent x (is_objs (bl_store st'))"
      by (auto simp: child_parent_def intro: obj_get_le)
    with ih g' show ?thesis by (blast intro: converse_rtrancl_into_rtrancl)
  qed
qed simp


section \<open>The answer\<close>

definition unit_key :: "node \<Rightarrow> eid \<times> string \<times> string \<times> (u64 \<times> u64)" where
  "unit_key n = (node_nid n, node_kind n, node_name n, node_span n)"

definition entry_key :: "blame_entry \<Rightarrow> eid \<times> string \<times> string \<times> (u64 \<times> u64)" where
  "entry_key e = (be_nid e, be_kind e, be_name e, be_span e)"

definition quotes :: "ext \<Rightarrow> objs \<Rightarrow> blame_entry \<Rightarrow> bool" where
  "quotes x s e \<longleftrightarrow> (\<exists>r. obj_get (ext_hash x) as_revision s (be_revision e) = Inr r \<and> be_author e = rev_author r \<and>
     be_title e = rev_title r \<and> be_intent e = rev_intent r \<and> be_time e = rev_time r)"

definition blames :: "ext \<Rightarrow> sem_ext \<Rightarrow> fresh_ids \<Rightarrow> oid \<Rightarrow> string \<Rightarrow> objs \<Rightarrow> node \<Rightarrow> blame_entry \<Rightarrow> bool" where
  "blames x sx fresh rid path s n e \<longleftrightarrow>
     entry_key e = unit_key n \<and> quotes x s e \<and> (rid, be_revision e) \<in> (child_parent x s)\<^sup>* \<and>
     carries x sx fresh path n s (be_revision e)"

lemma blames_le: "blames x sx fresh rid path s n e \<Longrightarrow> s \<subseteq>\<^sub>m s' \<Longrightarrow> blames x sx fresh rid path s' n e"
  unfolding blames_def quotes_def
  using obj_get_le carries_le rtrancl_mono [OF child_parent_le] by (metis (no_types, lifting) subset_iff)

lemma blame_unit_ok:
  assumes "blame_unit x sx fresh rid path n (st, out) = Inr (st', out')" "blame_ok x sx fresh path st"
    "carries x sx fresh path n (is_objs (bl_store st)) rid"
  shows "blame_ok x sx fresh path st' \<and> objs_grown (bl_store st) (bl_store st') \<and>
    (\<exists>e. out' = out @ [e] \<and> blames x sx fresh rid path (is_objs (bl_store st')) n e)"
proof -
  from assms(1) obtain st1 cur r where w: "blame_walk x sx fresh path n 1000 st rid (node_nid n) = Inr (st1, cur)"
    and r: "rev_of x st1 cur = Inr (st', r)"
    and out: "out' = out @ [\<lparr>be_nid = node_nid n, be_kind = node_kind n, be_name = node_name n, be_span = node_span n,
       be_revision = cur, be_author = rev_author r, be_title = rev_title r, be_intent = rev_intent r, be_time = rev_time r\<rparr>]"
    by (auto simp: blame_unit_def result_simps)
  from blame_walk_ok [OF w assms(2,3)] rev_of_ok [OF r] show ?thesis
    unfolding out blames_def quotes_def by (auto simp: entry_key_def unit_key_def)
qed

lemma blame_loop_ok:
  assumes "rfold (blame_unit x sx fresh rid path) ns (st, out) = Inr (st', out')" "blame_ok x sx fresh path st"
    "\<forall>n \<in> set ns. carries x sx fresh path n (is_objs (bl_store st)) rid"
  shows "blame_ok x sx fresh path st' \<and> objs_grown (bl_store st) (bl_store st') \<and>
    (\<exists>es. out' = out @ es \<and> list_all2 (blames x sx fresh rid path (is_objs (bl_store st'))) ns es)"
  using assms
proof (induction ns arbitrary: st out)
  case (Cons n ns)
  then obtain st1 out1 where u: "blame_unit x sx fresh rid path n (st, out) = Inr (st1, out1)"
    and l: "rfold (blame_unit x sx fresh rid path) ns (st1, out1) = Inr (st', out')" by (auto simp: result_simps)
  from blame_unit_ok [OF u] Cons.prems obtain e where e: "out1 = out @ [e]" "blames x sx fresh rid path (is_objs (bl_store st1)) n e"
    and ok: "blame_ok x sx fresh path st1" "objs_grown (bl_store st) (bl_store st1)" by auto
  have "\<forall>m \<in> set ns. carries x sx fresh path m (is_objs (bl_store st1)) rid"
    using Cons.prems(3) carries_le [OF _ ok(2)] by auto
  from Cons.IH [OF l ok(1) this] obtain es where es: "out' = out1 @ es"
    "list_all2 (blames x sx fresh rid path (is_objs (bl_store st'))) ns es" "blame_ok x sx fresh path st'" "objs_grown (bl_store st1) (bl_store st')"
    by blast
  from blames_le [OF e(2) es(4)] es e(1) ok(2) show ?case
    by (auto intro: map_le_trans)
qed simp

text \<open>Blame gives one entry for every unit of the path, in the order of the text. The revision of an entry is
  the one asked about or an ancestor of it, holds a unit of the same body at that path, and is the one
  whose author, title, intent and time the entry quotes.\<close>

theorem blame_quotes_ancestors:
  assumes "blame x sx fresh store rid path = Inr (store', out)"
  shows "sorted (map (\<lambda>e. fst (be_span e)) out) \<and>
    (\<exists>ns es. units_at x sx fresh path (is_objs store') rid ns \<and> mset es = mset out \<and>
       list_all2 (blames x sx fresh rid path (is_objs store')) ns es)"
proof -
  let ?st = "\<lparr>bl_store = store, bl_revs = Map.empty, bl_nodes = Map.empty, bl_aliases = Map.empty\<rparr>"
  from assms obtain st1 ns st2 es where n: "nodes_of x sx fresh path ?st rid = Inr (st1, ns)"
    and l: "rfold (blame_unit x sx fresh rid path) ns (st1, []) = Inr (st2, es)"
    and out: "store' = bl_store st2" "out = sort_key (\<lambda>e. fst (be_span e)) es"
    by (auto simp: blame_def result_simps)
  have "blame_ok x sx fresh path ?st" by (simp add: blame_ok_def)
  note ok = nodes_of_ok [OF n this]
  then have c: "\<forall>n \<in> set ns. carries x sx fresh path n (is_objs (bl_store st1)) rid" unfolding carries_def by blast
  from blame_loop_ok [OF l _ c] ok have "list_all2 (blames x sx fresh rid path (is_objs store')) ns es"
    "units_at x sx fresh path (is_objs store') rid ns"
    using units_at_le out(1) by auto
  then show ?thesis using out(2) by (metis mset_sort sorted_sort_key)
qed

end
