(* ===== verification/Daemon_Witnesses.thy ===== *)
theory Daemon_Witnesses
  imports Sem_Props Blame_Props Matching_Witnesses World
begin

text \<open>Concrete trees, indexes and states for the properties of the index.\<close>

section \<open>A tree with one file kept and one read\<close>

definition lib_units :: "node list" where
  "lib_units = map (\<lambda>n. n\<lparr>node_path := ''src/lib.rs''\<rparr>) old_units"

definition blob_store :: objs where
  "blob_store = [[1] \<mapsto> OBlob sample_source]"

definition sample_flat :: flat where
  "sample_flat = [(''src/a.rs'', leaf_file [1] False), (''src/lib.rs'', leaf_file [2] False)]"

definition old_flat :: flat where
  "old_flat = [(''src/a.rs'', leaf_file [3] False), (''src/lib.rs'', leaf_file [2] False)]"

definition old_index :: node_index where
  "old_index = \<lparr>ni_root = [], ni_grammars = [], ni_parents = [], ni_nodes = lib_units, ni_aliases = None\<rparr>"

lemma found_imports: "imported_paths path (import_statements found_units) P = Some []"
proof -
  have "import_statements found_units = []" by code_simp
  then show ?thesis by (simp add: imported_paths_def btree_list_def collect_options_def split: option.splits language.splits)
qed

lemma built: "\<exists>nodes. build_nodes_with world file_ext (\<lambda>_. new_ids) blob_store sample_flat (Some (old_flat, old_index)) False = Inr nodes"
proof -
  have a: "\<not> unchanged_from (Some (old_flat, old_index)) False ''src/a.rs'' [1]"
    "unchanged_from (Some (old_flat, old_index)) False ''src/lib.rs'' [2]"
    "blob_of world blob_store [1] = Some sample_source"
    by (simp_all add: unchanged_from_def leaf_ref_at_def old_flat_def leaf_file_def blob_of_def blob_store_def)
  then show ?thesis
    by (simp add: build_nodes_with_def sample_flat_def file_step_def leaf_file_def extract_step_def sample_extract
        found_imports Let_def case_prod_beta)
qed

lemma built_index_witness:
  "\<exists>nodes. build_nodes_with world file_ext (\<lambda>_. new_ids) blob_store sample_flat (Some (old_flat, old_index)) False = Inr nodes \<and>
     filter (\<lambda>n. node_path n = ''src/lib.rs'') nodes = by_start lib_units"
proof -
  obtain nodes where n: "build_nodes_with world file_ext (\<lambda>_. new_ids) blob_store sample_flat (Some (old_flat, old_index)) False = Inr nodes"
    using built by blast
  have "kept_file (Some (old_flat, old_index)) False (''src/lib.rs'', leaf_file [2] False)"
    by (simp add: kept_file_def unchanged_from_def leaf_ref_at_def old_flat_def leaf_file_def)
  moreover have "parent_nodes (Some (old_flat, old_index)) ''src/lib.rs'' = lib_units" by code_simp
  moreover have "map_of sample_flat ''src/lib.rs'' = Some (leaf_file [2] False)" "distinct (map fst sample_flat)"
    by (simp_all add: sample_flat_def)
  ultimately show ?thesis using n built_index [OF n, THEN conjunct2, THEN conjunct2, rule_format] by auto
qed

lemma reindex_unchanged_witness:
  "build_nodes world file_ext (\<lambda>_. new_ids) Map.empty old_flat (Some (old_flat, old_index)) = Inr lib_units"
proof -
  have "ni_nodes old_index = lib_units" by (simp add: old_index_def)
  with reindex_unchanged [of old_flat old_index world file_ext "\<lambda>_. new_ids" Map.empty] show ?thesis
    by (simp add: old_flat_def lib_units_def old_units_def recorded_def leaf_file_def)
qed

section \<open>A reference to another file\<close>

definition caller :: node where
  "caller = (recorded ''function'' ''run'' 4 None [9])\<lparr>node_path := ''src/b.rs''\<rparr>"

definition open_state :: build_state where
  "open_state = \<lparr>bs_out = old_units @ [caller], bs_pending = [(3, [''foo'', ''bar''])], bs_imports = [(''src/b.rs'', [''src/a.rs''])]\<rparr>"

lemma cross_references_witness:
  "deps_of (resolve_across open_state ! 3) = {[3]} \<and> map bare (resolve_across open_state) = old_units @ [caller]"
proof -
  have "pending_ok {} open_state" by (simp add: pending_ok_def open_state_def old_units_def)
  from cross_references [OF this] have "map bare (resolve_across open_state) = map bare (bs_out open_state)" by blast
  moreover have "map bare (bs_out open_state) = old_units @ [caller]" by code_simp
  moreover have "node_deps (resolve_across open_state ! 3) = Some [[3]]" by code_simp
  ultimately show ?thesis by (simp add: deps_of_def)
qed

section \<open>A difference of every kind\<close>

definition after_index :: node_index where
  "after_index = old_index\<lparr>ni_nodes := [recorded ''module'' ''b'' 1 None [1], recorded ''function'' ''foo'' 7 (Some [1]) [2],
     recorded ''function'' ''bar'' 8 None [4]]\<rparr>"

lemma diff_indexes_exact_witness:
  "map (\<lambda>c. (uc_name c, uc_nid c, uc_change c)) (diff_indexes old_index after_index) =
     [(''b'', [1], URenamed ''a''), (''bar'', [4], UAdded), (''foo'', [2], UChanged), (''foo'', [3], URemoved)] \<and>
   distinct (map uc_nid (diff_indexes old_index after_index))"
proof -
  have "distinct (map node_nid (ni_nodes old_index))" "distinct (map node_nid (ni_nodes after_index))" by code_simp+
  from diff_indexes_exact [OF this] have "distinct (map uc_nid (diff_indexes old_index after_index))" by blast
  moreover have "map (\<lambda>c. (uc_name c, uc_nid c, uc_change c)) (diff_indexes old_index after_index) =
     [(''b'', [1], URenamed ''a''), (''bar'', [4], UAdded), (''foo'', [2], UChanged), (''foo'', [3], URemoved)]" by code_simp
  ultimately show ?thesis by blast
qed

text \<open>Concrete stores for the merge of trees, the index of a snapshot and blame.\<close>

section \<open>A store with one snapshot\<close>

definition id_of :: "u8 \<Rightarrow> oid" where
  "id_of k = replicate 32 k"

fun tiny_hash :: "obj \<Rightarrow> oid" where
  "tiny_hash (OTree _) = id_of 1"
| "tiny_hash (OSnapshot _) = id_of 2"
| "tiny_hash (ORevision r) = id_of (3 + of_nat (length (rev_title r)))"
| "tiny_hash _ = id_of 0"

definition tiny_world :: ext where
  "tiny_world = world\<lparr>ext_hash := tiny_hash\<rparr>"

lemma tiny_world_hash [simp]: "ext_hash tiny_world = tiny_hash"
  by (simp add: tiny_world_def)

definition tiny_snapshot :: snapshot where
  "tiny_snapshot = \<lparr>snap_root = id_of 1, snap_rules = [], snap_env = None, snap_index = None\<rparr>"

definition tiny_store :: index_store where
  "tiny_store = \<lparr>is_objs = [id_of 1 \<mapsto> OTree tree_empty, id_of 2 \<mapsto> OSnapshot tiny_snapshot], is_meta = []\<rparr>"

lemma id_of_eq [simp]: "id_of j = id_of k \<longleftrightarrow> j = k"
  by (simp add: id_of_def)

lemma tiny_length: "length (tiny_hash y) = 32"
  by (cases y) (simp_all add: id_of_def)

lemma tiny_sound: "index_hash_sound tiny_hash (is_objs tiny_store)"
  by (auto simp: index_hash_sound_def tiny_length tiny_store_def ran_def split: if_splits)

lemma tiny_get:
  "obj_get tiny_hash as_tree (is_objs tiny_store) (id_of 1) = Inr tree_empty"
  "obj_get tiny_hash as_snapshot (is_objs tiny_store) (id_of 2) = Inr tiny_snapshot"
  by (simp_all add: obj_get_Inr_iff tiny_store_def)

lemma tiny_flatten: "flatten tiny_world (is_objs tiny_store) (id_of 1) = Inr []"
proof -
  have "load_entries tiny_world (is_objs tiny_store) (id_of 1) = Inr []"
    by (rule load_entries_cases(1) [where t = tree_empty]) (simp_all add: tiny_get tree_empty_def tree_flat_def)
  then show ?thesis by (simp add: flatten_def walk_tree.simps)
qed

lemma tiny_index: "\<exists>st i idx. index_for_snapshot tiny_world file_ext (\<lambda>_ _. new_ids) tiny_store (id_of 2) = Inr (st, i, idx)"
proof -
  have none: "cached_index tiny_world file_ext (\<lambda>_ _. new_ids) tiny_store (id_of 2) = Inr (tiny_store, None)"
    by (simp add: cached_index_def tiny_get found_index_def index_under_key_def tiny_snapshot_def)
       (simp add: tiny_store_def)
  have new: "is_objs tiny_store (id_of 0) = None" by (simp add: tiny_store_def)
  have "build_nodes tiny_world file_ext new (is_objs tiny_store) [] None = Inr []" for new
    by (simp add: build_nodes_def build_nodes_with_def resolve_across_def)
  then have "\<exists>st i idx. build_against tiny_world file_ext (\<lambda>_ _. new_ids) tiny_store (id_of 2) None = Inr (st, i, idx)"
    using tiny_flatten new
    by (simp add: build_against_def tiny_get tiny_snapshot_def put_index_def put_index_with_aliases_def obj_put_def
        save_index_def obj_get_Inr_iff result_simps)
  with none show ?thesis by (simp add: index_for_snapshot_def)
qed

lemma index_is_stable_witness:
  "\<exists>st i idx. index_for_snapshot tiny_world file_ext (\<lambda>_ _. new_ids) tiny_store (id_of 2) = Inr (st, i, idx) \<and>
     index_for_snapshot tiny_world file_ext (\<lambda>_ _ _. []) st (id_of 2) = Inr (st, i, idx)"
proof -
  obtain st i idx where i: "index_for_snapshot tiny_world file_ext (\<lambda>_ _. new_ids) tiny_store (id_of 2) = Inr (st, i, idx)"
    using tiny_index by blast
  have "index_hash_sound (ext_hash tiny_world) (is_objs tiny_store)" using tiny_sound by simp
  from index_is_stable [OF this i, of "\<lambda>_ _ _. []" "\<lambda>_ _ _. []" "\<lambda>_ _ _. []"] i show ?thesis by metis
qed

section \<open>Two revisions with one unit\<close>

definition tiny_units :: node_index where
  "tiny_units = \<lparr>ni_root = id_of 1, ni_grammars = grammars, ni_parents = [], ni_nodes = [recorded ''function'' ''foo'' 3 None [3]],
     ni_aliases = None\<rparr>"

definition tiny_revision :: "string \<Rightarrow> oid list \<Rightarrow> revision" where
  "tiny_revision title parents = \<lparr>rev_id = [], rev_prev = None, rev_snapshots = [([], id_of 2)], rev_parents = parents,
     rev_intent = None, rev_title = title, rev_body = None, rev_author = [7], rev_time = 0, rev_ops = None, rev_flags = None\<rparr>"

definition two_revisions :: index_store where
  "two_revisions = \<lparr>is_objs = [id_of 0 \<mapsto> ONodeIndex tiny_units, id_of 2 \<mapsto> OSnapshot tiny_snapshot,
       id_of 3 \<mapsto> ORevision (tiny_revision [] []), id_of 4 \<mapsto> ORevision (tiny_revision ''b'' [id_of 3])],
     is_meta = [(id_of 2, id_of 0)]\<rparr>"

lemma two_get:
  "obj_get tiny_hash as_node_index (is_objs two_revisions) (id_of 0) = Inr tiny_units"
  "obj_get tiny_hash as_snapshot (is_objs two_revisions) (id_of 2) = Inr tiny_snapshot"
  "obj_get tiny_hash as_revision (is_objs two_revisions) (id_of 3) = Inr (tiny_revision [] [])"
  "obj_get tiny_hash as_revision (is_objs two_revisions) (id_of 4) = Inr (tiny_revision ''b'' [id_of 3])"
  by (simp_all add: obj_get_Inr_iff two_revisions_def tiny_revision_def)

lemma two_cached:
  "cached_index tiny_world file_ext fresh two_revisions (id_of 2) = Inr (two_revisions, Some (id_of 0, tiny_units))"
proof -
  have "index_under_key tiny_world two_revisions (id_of 2) = Some (id_of 0, tiny_units)"
    by (rule index_under_key_answered) (simp_all add: tiny_length two_get, simp add: two_revisions_def)
  then show ?thesis
    by (simp add: cached_index_def two_get found_index_def index_current_def tiny_units_def)
qed

lemma two_index:
  "index_for_revision tiny_world file_ext fresh two_revisions (tiny_revision title parents) = Inr (two_revisions, id_of 0, tiny_units)"
  by (subst index_for_revision_def, subst todo_loop.simps)
     (simp add: snap_of_def tiny_revision_def two_cached build_all_def index_for_snapshot_def)


lemma two_revisions_blamed:
  "\<exists>e. blame tiny_world file_ext fresh two_revisions (id_of 4) ''src/a.rs'' = Inr (two_revisions, [e]) \<and> be_revision e = id_of 3"
proof -
  have walk: "blame_walk x sx f p n (numeral k) st cur track =
     rbind (rev_of x st cur) (\<lambda>(st, r).
     rbind (find_parent x sx f p n (case bl_aliases st cur of Some m \<Rightarrow> m | None \<Rightarrow> []) track st (rev_parents r))
       (\<lambda>(st, next). case next of None \<Rightarrow> Inr (st, cur) | Some (p', i) \<Rightarrow> blame_walk x sx f p n (pred_numeral k) st p' i))"
    for x sx f p n k st cur track
    using blame_walk.simps(2) [of x sx f p n "pred_numeral k" st cur track] by (simp only: numeral_eq_Suc)
  let ?u = "recorded ''function'' ''foo'' 3 None [3]"
  have units: "nodes_for_path (ni_nodes tiny_units) ''src/a.rs'' = [?u]" by (simp add: tiny_units_def nodes_for_path_def recorded_def)
  have renamed: "index_aliases tiny_units = []" by (simp add: index_aliases_def aliases_of_def tiny_units_def map_filter_simps)
  have snap: "snap_of (tiny_revision title parents) = Some (id_of 2)" for title parents
    by (simp add: snap_of_def tiny_revision_def)
  have carried: "carried_by ?u [] [3] [?u] = Some [3]" by (simp add: carried_by_def same_unit_def recorded_def)
  have parents: "rev_parents (tiny_revision title parents) = parents" for title parents by (simp add: tiny_revision_def)
  have nid: "node_nid ?u = [3]" by (simp add: recorded_def)
  show ?thesis
    by (simp add: blame_def nodes_of_def rev_of_def two_get two_index snap units renamed blame_unit_def walk carried parents nid Let_def)
qed

lemma blame_quotes_ancestors_witness:
  "\<exists>out. blame tiny_world file_ext (\<lambda>_ _. new_ids) two_revisions (id_of 4) ''src/a.rs'' = Inr (two_revisions, out) \<and>
     map be_revision out = [id_of 3] \<and> sorted (map (\<lambda>e. fst (be_span e)) out)"
proof -
  obtain e where b: "blame tiny_world file_ext (\<lambda>_ _. new_ids) two_revisions (id_of 4) ''src/a.rs'' = Inr (two_revisions, [e])"
    and e: "be_revision e = id_of 3" using two_revisions_blamed by blast
  from blame_quotes_ancestors [OF b] have "sorted (map (\<lambda>e. fst (be_span e)) [e])" by blast
  with b e show ?thesis by (intro exI [of _ "[e]"]) simp
qed

section \<open>A file changed on one side and deleted on the other\<close>

definition no_units :: node_index where
  "no_units = tiny_units\<lparr>ni_nodes := []\<rparr>"


end
