(* ===== verification/Attestations.thy ===== *)
theory Attestations
  imports Blame
begin

text \<open>
  The index of attestations and what is read from it: \<open>crates/tessra-daemon/src/verifiers.rs\<close>, with the
  parts that look at the output of a test run and place new tests in the parent's text.

  The metadata of the store is an association list from keys to bytes. \<open>hx\<close> is the encoding of bytes in
  hexadecimal, a library's. Bodies come out of a hash set: \<open>order\<close> permutes them.
\<close>

section \<open>The index\<close>

type_synonym meta = "(string, bytes) btree"

definition att_subject_key :: "(bytes \<Rightarrow> string) \<Rightarrow> bytes \<Rightarrow> string" where
  "att_subject_key hx subject = ''att:s:'' @ hx subject"

definition att_body_key :: "(bytes \<Rightarrow> string) \<Rightarrow> oid \<Rightarrow> string" where
  "att_body_key hx body = ''att:b:'' @ hx body"

function byte_chunks :: "nat \<Rightarrow> 'a list \<Rightarrow> 'a list list" where
  "byte_chunks n xs = (if xs = [] \<or> n = 0 then [] else take n xs # byte_chunks n (drop n xs))"
  by pat_completeness auto
termination by (relation "measure (\<lambda>(n, xs). length xs)") auto

declare byte_chunks.simps [simp del]

definition meta_at :: "meta \<Rightarrow> string \<Rightarrow> bytes" where
  "meta_at m key = (case map_of m key of None \<Rightarrow> [] | Some bs \<Rightarrow> bs)"

definition append_id :: "string \<Rightarrow> oid \<Rightarrow> meta \<Rightarrow> meta" where
  "append_id key i m =
     (let cur = meta_at m key
      in if list_ex (\<lambda>c. c = i) (byte_chunks 32 cur) then m else bt_insert key (cur @ i) m)"

definition ids_at :: "meta \<Rightarrow> string \<Rightarrow> oid list" where
  "ids_at m key =
     List.map_filter (\<lambda>c. case oid_from_slice c of Inr i \<Rightarrow> Some i | Inl _ \<Rightarrow> None) (byte_chunks 32 (meta_at m key))"

definition index_attestation :: "(bytes \<Rightarrow> string) \<Rightarrow> oid \<Rightarrow> attestation \<Rightarrow> meta \<Rightarrow> meta" where
  "index_attestation hx i att m =
     fold (\<lambda>b. append_id (att_body_key hx b) i) (case att_bodies att of None \<Rightarrow> [] | Some bs \<Rightarrow> bs)
       (case att_subject att of None \<Rightarrow> m | Some s \<Rightarrow> append_id (att_subject_key hx s) i m)"

text \<open>A stored object that reads as an attestation.\<close>

definition attestation_at :: "ext \<Rightarrow> objs \<Rightarrow> oid \<Rightarrow> attestation option" where
  "attestation_at x s i =
     Option.bind (s i) (\<lambda>y.
     if peek_obj x y = Inr ''attestation''
     then (case decode_obj x as_attestation y of Inr att \<Rightarrow> Some att | Inl _ \<Rightarrow> None)
     else None)"

definition index_stored :: "ext \<Rightarrow> (bytes \<Rightarrow> string) \<Rightarrow> objs \<Rightarrow> oid \<Rightarrow> meta \<Rightarrow> meta" where
  "index_stored x hx s i m = (case attestation_at x s i of None \<Rightarrow> m | Some att \<Rightarrow> index_attestation hx i att m)"

definition index_op_attestations :: "ext \<Rightarrow> (bytes \<Rightarrow> string) \<Rightarrow> objs \<Rightarrow> effect list \<Rightarrow> meta \<Rightarrow> meta" where
  "index_op_attestations x hx s effects m =
     fold (\<lambda>e m. case e of EPut i \<Rightarrow> index_stored x hx s i m | _ \<Rightarrow> m) effects m"

text \<open>\<open>ids\<close> are the ids of the store, in the order of the store.\<close>

definition ensure_index :: "ext \<Rightarrow> (bytes \<Rightarrow> string) \<Rightarrow> objs \<Rightarrow> oid list \<Rightarrow> meta \<Rightarrow> meta" where
  "ensure_index x hx s ids m =
     (if map_of m ''att:indexed'' \<noteq> None then m
      else bt_insert ''att:indexed'' [1] (fold (index_stored x hx s) ids m))"

section \<open>What is read from it\<close>

definition collect_for ::
  "(bytes \<Rightarrow> string) \<Rightarrow> (oid list \<Rightarrow> oid list) \<Rightarrow> meta \<Rightarrow> oid \<Rightarrow> revision \<Rightarrow> node_index option \<Rightarrow> oid list" where
  "collect_for hx order m rid rv idx =
     (let subjects = rid # (case rev_prev rv of None \<Rightarrow> [] | Some p \<Rightarrow> [p]) @ map snd (rev_snapshots rv);
          bodies = (case idx of None \<Rightarrow> [] | Some i \<Rightarrow> order (btree_list (map node_body (ni_nodes i))))
      in fold (\<lambda>i out. if i \<in> set out then out else out @ [i])
           (concat (map (\<lambda>s. ids_at m (att_subject_key hx s)) subjects) @
            concat (map (\<lambda>b. ids_at m (att_body_key hx b)) bodies)) [])"

definition read_attestations :: "ext \<Rightarrow> objs \<Rightarrow> oid list \<Rightarrow> (oid \<times> attestation) list res" where
  "read_attestations x s = rmap (\<lambda>i. rbind (obj_get (ext_hash x) as_attestation s i) (\<lambda>a. Inr (i, a)))"

definition attestations_on :: "ext \<Rightarrow> (bytes \<Rightarrow> string) \<Rightarrow> objs \<Rightarrow> meta \<Rightarrow> bytes \<Rightarrow> (oid \<times> attestation) list res" where
  "attestations_on x hx s m subject = read_attestations x s (ids_at m (att_subject_key hx subject))"

definition attestations_by_body :: "ext \<Rightarrow> (bytes \<Rightarrow> string) \<Rightarrow> objs \<Rightarrow> meta \<Rightarrow> oid \<Rightarrow> (oid \<times> attestation) list res" where
  "attestations_by_body x hx s m body = read_attestations x s (ids_at m (att_body_key hx body))"

text \<open>Of one kind, the newest first; those of one time stay in the order of the index.\<close>

definition on_subject ::
  "ext \<Rightarrow> (bytes \<Rightarrow> string) \<Rightarrow> objs \<Rightarrow> meta \<Rightarrow> string \<Rightarrow> bytes \<Rightarrow> (oid \<times> attestation) list res" where
  "on_subject x hx s m kind subject =
     rbind (attestations_on x hx s m subject) (\<lambda>all.
     Inr (sort_key (\<lambda>ia. - att_time (snd ia)) (filter (\<lambda>ia. att_kind (snd ia) = kind) all)))"

text \<open>Whether standards trust the signer; every failure is a no.\<close>

definition trusted_signer :: "ext \<Rightarrow> oplog \<Rightarrow> attestation \<Rightarrow> bool" where
  "trusted_signer x lg att =
     (let signer = (case att_runner att of Some r \<Rightarrow> r | None \<Rightarrow> att_verifier att)
      in case current_view x lg of
           Inl _ \<Rightarrow> False
         | Inr (s, v) \<Rightarrow>
             (case view_entity (ext_hash x) s v signer of
                Inr (Some p) \<Rightarrow>
                  (case rbind (pointer_single p) (obj_get (ext_hash x) as_principal s) of
                     Inr pr \<Rightarrow> prin_kind pr \<in> set trusted_attesters
                   | Inl _ \<Rightarrow> False)
              | _ \<Rightarrow> False))"

section \<open>Units and tests\<close>

definition units_changed :: "node_index \<Rightarrow> node_index \<Rightarrow> node list" where
  "units_changed parent idx =
     filter (\<lambda>n. case node_by_id (ni_nodes parent) (node_nid n) of
               None \<Rightarrow> True
             | Some p \<Rightarrow> node_body p \<noteq> node_body n \<or> node_name p \<noteq> node_name n) (ni_nodes idx)"

datatype test_filter = FCargo | FPytest | FNone

text \<open>\<open>rsplit_once\<close>: the text before and after the last occurrence.\<close>

definition rsplit_once :: "string \<Rightarrow> string \<Rightarrow> (string \<times> string) option" where
  "rsplit_once p s = map_option (\<lambda>(a, b). (rev b, rev a)) (split_once (rev p) (rev s))"

definition cargo_result :: "string \<Rightarrow> (string \<times> bool) option" where
  "cargo_result line =
     Option.bind (strip_prefix line ''test '') (\<lambda>rest.
     Option.bind (rsplit_once '' ... '' rest) (\<lambda>(name, status).
     let status = trim_space status
     in if status = ''ok'' then Some (trim_space name, True)
        else if starts_with status ''FAILED'' then Some (trim_space name, False)
        else None))"

definition pytest_result :: "string \<Rightarrow> (string \<times> bool) option" where
  "pytest_result line =
     Option.bind (split_once '' '' line) (\<lambda>(name, status).
     if \<not> str_contains name ''::'' then None
     else (let s = dropWhile is_space status
           in if starts_with s ''PASSED'' then Some (name, True)
              else if starts_with s ''FAILED'' \<or> starts_with s ''ERROR'' then Some (name, False)
              else None))"

definition parse_tests :: "test_filter \<Rightarrow> bytes \<Rightarrow> (string \<times> bool) list" where
  "parse_tests f output =
     (let lines = split_on (char_of (10 :: nat)) (chars_of output)
      in case f of
           FCargo \<Rightarrow> List.map_filter (\<lambda>l. cargo_result (trim_space l)) lines
         | FPytest \<Rightarrow> List.map_filter (\<lambda>l. pytest_result (trim_space l)) lines
         | FNone \<Rightarrow> [])"

definition test_matches :: "string \<Rightarrow> string \<Rightarrow> bool" where
  "test_matches parsed unit' \<longleftrightarrow>
     parsed = unit' \<or> ends_with parsed (''::'' @ unit') \<or>
     (case rsplit_once ''::'' parsed of Some (_, l) \<Rightarrow> l = unit' | None \<Rightarrow> parsed = unit')"

section \<open>New tests in the parent's text\<close>

definition line_start :: "bytes \<Rightarrow> nat \<Rightarrow> nat" where
  "line_start src lo = lo - length (takeWhile (\<lambda>b. b \<noteq> 10) (rev (take lo src)))"

definition indent_before :: "bytes \<Rightarrow> nat \<Rightarrow> bytes" where
  "indent_before src lo =
     (let ind = drop (line_start src lo) (take lo src)
      in if list_all (\<lambda>b. b = 32 \<or> b = 9) ind then ind else [])"

text \<open>A slice panics when its bounds are out of order or out of the text.\<close>

definition text_slice :: "bytes \<Rightarrow> nat \<Rightarrow> nat \<Rightarrow> bytes res" where
  "text_slice bs lo hi = (if lo \<le> hi \<and> hi \<le> length bs then Inr (drop lo (take hi bs)) else Inl Panic)"

definition container_in :: "node list \<Rightarrow> node list \<Rightarrow> eid \<Rightarrow> node option" where
  "container_in old_nodes change_nodes pid =
     (case List.find (\<lambda>n. node_nid n = pid) old_nodes of
        Some n \<Rightarrow> Some n
      | None \<Rightarrow> Option.bind (List.find (\<lambda>n. node_nid n = pid) change_nodes) (\<lambda>c.
                List.find (\<lambda>n. node_kind n = node_kind c \<and> node_name n = node_name c) old_nodes))"

definition place_of :: "bytes \<Rightarrow> node list \<Rightarrow> node list \<Rightarrow> node \<Rightarrow> nat" where
  "place_of parent_text old_nodes change_nodes t =
     (case Option.bind (node_parent t) (container_in old_nodes change_nodes) of
        None \<Rightarrow> length parent_text
      | Some pc \<Rightarrow>
          (case map (\<lambda>n. unat (snd (node_span n))) (filter (\<lambda>n. node_parent n = Some (node_nid pc)) old_nodes) of
             [] \<Rightarrow> (let end' = min (unat (snd (node_span pc))) (length parent_text)
                   in if end' > 0 \<and> parent_text ! (end' - 1) = 125 then end' - 1 else end')
           | e # es \<Rightarrow> fold max es e))"

definition test_insert :: "bytes \<Rightarrow> node list \<Rightarrow> bytes \<Rightarrow> node list \<Rightarrow> node \<Rightarrow> (nat \<times> bytes) res" where
  "test_insert parent_text old_nodes change_text change_nodes t =
     (let lo = unat (fst (node_span t)); hi = unat (snd (node_span t))
      in rbind (text_slice change_text 0 lo) (\<lambda>_.
         rbind (text_slice change_text lo hi) (\<lambda>body.
         Inr (min (place_of parent_text old_nodes change_nodes t) (length parent_text),
              [10, 10] @ indent_before change_text lo @ body))))"

definition overlay_tests :: "bytes \<Rightarrow> node list \<Rightarrow> bytes \<Rightarrow> node list \<Rightarrow> node list \<Rightarrow> bytes res" where
  "overlay_tests parent_text old_nodes change_text change_nodes tests =
     rbind (rmap (test_insert parent_text old_nodes change_text change_nodes) tests) (\<lambda>inserts.
     Inr (fold (\<lambda>(pos, src) out. take pos out @ src @ drop pos out)
            (sort_key (\<lambda>i. - int (fst i)) inserts) parent_text))"

text \<open>The tool that names the environment of a run; \<open>stem\<close> is the file stem of a path.\<close>

definition fingerprint_tool :: "(string \<Rightarrow> string) \<Rightarrow> string list \<Rightarrow> string option" where
  "fingerprint_tool stem argv =
     (case argv of
        [] \<Rightarrow> None
      | first # words \<Rightarrow>
          if map (\<lambda>c. lower_char c) (stem first) = ''cmd'' then List.find (\<lambda>w. \<not> starts_with w ''/'') words
          else Some first)"

end
