(* ===== verification/Events.thy ===== *)
theory Events
  imports Attestations
begin

text \<open>
  Hooks on events: \<open>crates/tessra-daemon/src/hooks.rs\<close>, up to running an action, which is a parameter.

  \<open>'j\<close> stands for the extra data an event carries, which only the payload of an action shows.
\<close>

section \<open>Events\<close>

record 'j event =
  ev_kind :: string
  ev_change :: eid
  ev_revision :: oid
  ev_snapshot :: oid
  ev_title :: string
  ev_author :: eid
  ev_paths :: "string list"
  ev_extra :: 'j

definition flat_of_snapshot :: "ext \<Rightarrow> objs \<Rightarrow> oid \<Rightarrow> flat res" where
  "flat_of_snapshot x s i = rbind (obj_get (ext_hash x) as_snapshot s i) (\<lambda>sn. flatten x s (snap_root sn))"

definition parent_flat :: "ext \<Rightarrow> objs \<Rightarrow> revision \<Rightarrow> flat res" where
  "parent_flat x s rv =
     (case rev_parents rv of
        [] \<Rightarrow> Inr []
      | p # _ \<Rightarrow>
          rbind (obj_get (ext_hash x) as_revision s p) (\<lambda>pr.
          case snap_of pr of None \<Rightarrow> Inr [] | Some i \<Rightarrow> flat_of_snapshot x s i))"

definition paths_changed :: "ext \<Rightarrow> objs \<Rightarrow> revision \<Rightarrow> string list res" where
  "paths_changed x s rv =
     (case snap_of rv of
        None \<Rightarrow> Inr []
      | Some i \<Rightarrow>
          rbind (flat_of_snapshot x s i) (\<lambda>cur.
          rbind (parent_flat x s rv) (\<lambda>par.
          Inr (btree_list
            (map fst (filter (\<lambda>(p, l). map_of par p \<noteq> Some l) cur) @
             filter (\<lambda>p. map_of cur p = None) (map fst par))))))"

definition event_new :: "ext \<Rightarrow> objs \<Rightarrow> string \<Rightarrow> oid \<Rightarrow> revision \<Rightarrow> 'j \<Rightarrow> 'j event res" where
  "event_new x s kind rid rv extra =
     rbind (of_opt Other (snap_of rv)) (\<lambda>snap.
     rbind (paths_changed x s rv) (\<lambda>paths.
     Inr \<lparr>ev_kind = kind, ev_change = rev_id rv, ev_revision = rid, ev_snapshot = snap, ev_title = rev_title rv,
          ev_author = rev_author rv, ev_paths = paths, ev_extra = extra\<rparr>))"

section \<open>Which hooks answer\<close>

definition on_matches :: "string \<Rightarrow> string \<Rightarrow> bool" where
  "on_matches pattern kind \<longleftrightarrow>
     pattern = kind \<or> pattern = ''*'' \<or>
     (case strip_suffix pattern ''.*'' of None \<Rightarrow> False | Some p \<Rightarrow> kind = p \<or> starts_with kind (p @ ''.''))"

function where_matches :: "predicate \<Rightarrow> 'j event \<Rightarrow> bool" where
  "where_matches p ev =
     (let name = (case pred_name p of None \<Rightarrow> [] | Some n \<Rightarrow> n)
      in if pred_kind p = ''scope'' then list_ex (glob_matches name) (ev_paths ev)
         else if pred_kind p = ''author'' then starts_with (chars_of (to_letters (ev_author ev))) name
         else if pred_kind p = ''title'' then str_contains (ev_title ev) name
         else if pred_kind p = ''event'' then on_matches name (ev_kind ev)
         else if pred_kind p = ''all'' then list_all (\<lambda>q. where_matches q ev) (sub_preds p)
         else if pred_kind p = ''any'' then list_ex (\<lambda>q. where_matches q ev) (sub_preds p)
         else if pred_kind p = ''not'' then
           \<not> (case map (\<lambda>q. where_matches q ev) (sub_preds p) of [] \<Rightarrow> False | b # _ \<Rightarrow> b)
         else False)"
  by pat_completeness auto
termination
  by (relation "measure (\<lambda>(p, ev). pred_size p)") (auto dest: sub_preds_size)

declare where_matches.simps [simp del]

text \<open>Every hook of the view, by order and name. An entity that is no single readable hook is passed over.\<close>

definition hook_at :: "ext \<Rightarrow> objs \<Rightarrow> eid \<times> pointer \<Rightarrow> (eid \<times> oid \<times> hook) option" where
  "hook_at x s e =
     (case pointer_single (snd e) of
        Inl _ \<Rightarrow> None
      | Inr i \<Rightarrow> Option.bind (s i) (\<lambda>y.
          if peek_obj x y = Inr ''hook''
          then (case decode_obj x as_hook y of Inr h \<Rightarrow> Some (fst e, i, h) | Inl _ \<Rightarrow> None)
          else None))"

definition hook_rank :: "hook \<Rightarrow> int \<times> string" where
  "hook_rank h = ((case hook_order h of None \<Rightarrow> 0 | Some n \<Rightarrow> n), hook_name h)"

definition all_hooks :: "ext \<Rightarrow> oplog \<Rightarrow> (eid \<times> oid \<times> hook) list res" where
  "all_hooks x lg =
     rbind (current_view x lg) (\<lambda>(s, v).
     rbind (view_entities_list (ext_hash x) s v) (\<lambda>es.
     Inr (sort_key (\<lambda>(_, _, h). hook_rank h) (List.map_filter (hook_at x s) es))))"

definition answers :: "'j event \<Rightarrow> hook \<Rightarrow> bool" where
  "answers ev h \<longleftrightarrow>
     hook_enabled h \<and> on_matches (hook_on h) (ev_kind ev) \<and>
     (case hook_where h of None \<Rightarrow> True | Some w \<Rightarrow> where_matches w ev)"

record 'r fired =
  fi_hook :: string
  fi_action :: string
  fi_result :: "'r res"

text \<open>Running an action changes the state of the repository whether it succeeds or fails.\<close>

definition fire ::
  "ext \<Rightarrow> ('st \<Rightarrow> hook \<Rightarrow> hook_action \<Rightarrow> 'j event \<Rightarrow> 'st \<times> 'r res) \<Rightarrow> oplog \<Rightarrow> 'j event \<Rightarrow> 'st \<Rightarrow> ('st \<times> 'r fired list) res" where
  "fire x run lg ev st =
     rbind (all_hooks x lg) (\<lambda>hooks.
     Inr (fold (\<lambda>(h, a) (st, out).
              case run st h a ev of (st', r) \<Rightarrow> (st', out @ [\<lparr>fi_hook = hook_name h, fi_action = ha_kind a, fi_result = r\<rparr>]))
            (concat (map (\<lambda>(_, _, h). map (Pair h) (hook_do h)) (filter (\<lambda>(_, _, h). answers ev h) hooks)))
            (st, [])))"

definition arg_text :: "hook_action \<Rightarrow> string \<Rightarrow> string option" where
  "arg_text a key = (case map_of (ha_args a) key of Some (VText t) \<Rightarrow> Some t | _ \<Rightarrow> None)"

end
