(* ===== verification/Risk.thy ===== *)
theory Risk
  imports Events
begin

text \<open>
  The score of a change: \<open>crates/tessra-daemon/src/risk.rs\<close>.

  Points and scores are \<open>u32\<close> words. \<open>assess\<close> reads the store of indexes, the configuration, the log and the
  workspaces of the repository, which are the fields of \<open>risk_env\<close>; every signal is a definition that
  gives no factor or one.
\<close>

section \<open>Levels and factors\<close>

record factor =
  fa_name :: string
  fa_points :: "32 word"
  fa_detail :: string
  fa_lower :: string

record risk_score =
  rs_score :: "32 word"
  rs_level :: string
  rs_factors :: "factor list"

definition level_of :: "32 word \<Rightarrow> string" where
  "level_of score =
     (if score \<le> 19 then ''low'' else if score \<le> 44 then ''medium'' else if score \<le> 74 then ''high'' else ''critical'')"

definition default_sensitive :: "string list" where
  "default_sensitive = [''**/auth/**'', ''**/payments/**'', ''**/security/**'', ''**/secrets/**'', ''**/*.pem'', ''**/*.key'',
     ''**/migrations/**'']"

definition manifests :: "string list" where
  "manifests = [''Cargo.toml'', ''package.json'', ''pyproject.toml'', ''requirements.txt'', ''go.mod'', ''Gemfile'', ''pom.xml'',
     ''build.gradle'']"

fun decimal :: "nat \<Rightarrow> string" where
  "decimal n = (if n < 10 then [char_of (48 + n)] else decimal (n div 10) @ [char_of (48 + n mod 10)])"

declare decimal.simps [simp del]

definition names_shown :: "node list \<Rightarrow> string" where
  "names_shown us =
     (let v = btree_list (map node_name us)
      in join_with '', '' (take 6 v) @
         (if length v > 6 then '' and '' @ decimal (length v - 6) @ '' more'' else []))"

section \<open>The signals of the units\<close>

text \<open>\<open>count as u32 * weight\<close>, at most a bound.\<close>

definition capped :: "nat \<Rightarrow> 32 word \<Rightarrow> 32 word \<Rightarrow> 32 word" where
  "capped n weight bound = min (of_nat n * weight) bound"

definition counted_units :: "node_index \<Rightarrow> node_index \<Rightarrow> node list" where
  "counted_units parent idx = filter (\<lambda>n. node_kind n \<noteq> ''import'' \<and> node_kind n \<noteq> ''chunk'') (units_changed parent idx)"

definition code_units :: "node list \<Rightarrow> node list" where
  "code_units touched =
     filter (\<lambda>n. node_kind n \<notin> {''test'', ''test.skipped'', ''impl'', ''module'', ''variant'', ''field''}) touched"

definition size_factor :: "node list \<Rightarrow> factor list" where
  "size_factor code =
     (if length code \<ge> 4
      then [\<lparr>fa_name = ''size'', fa_points = capped (length code) 3 30,
             fa_detail = decimal (length code) @ '' units changed: '' @ names_shown code,
             fa_lower = ''split the change so each lands on its own''\<rparr>] else [])"

definition dependents_of :: "node_index \<Rightarrow> node list \<Rightarrow> node list" where
  "dependents_of idx touched =
     (let ids = node_nid ` set touched
      in filter (\<lambda>n. node_nid n \<notin> ids \<and> node_kind n \<noteq> ''test'' \<and>
           list_ex (\<lambda>d. d \<in> ids) (case node_deps n of None \<Rightarrow> [] | Some ds \<Rightarrow> ds)) (ni_nodes idx))"

definition blast_factor :: "node list \<Rightarrow> factor list" where
  "blast_factor deps =
     (if deps \<noteq> []
      then [\<lparr>fa_name = ''blast_radius'', fa_points = capped (length deps) 2 25,
             fa_detail = decimal (length deps) @ '' dependents of the changed units: '' @ names_shown deps,
             fa_lower = ''keep the public shape of what changed, or land the callers' updates in the same change''\<rparr>] else [])"

definition untested_units :: "node_index \<Rightarrow> node list \<Rightarrow> node list" where
  "untested_units idx code = filter (\<lambda>n. is_identifier (node_name n) \<and> covering_tests idx (node_nid n) = []) code"

definition untested_factor :: "node list \<Rightarrow> factor list" where
  "untested_factor us =
     (if us \<noteq> []
      then [\<lparr>fa_name = ''untested'', fa_points = capped (length us) 8 30,
             fa_detail = ''changed units no test calls: '' @ names_shown us,
             fa_lower = ''add tests that call '' @ names_shown us\<rparr>] else [])"

definition weakened_tests :: "node_index \<Rightarrow> node_index \<Rightarrow> node list \<Rightarrow> node list" where
  "weakened_tests parent idx touched =
     filter (\<lambda>n. is_test_kind (node_kind n) \<and> node_nid n \<in> node_nid ` set (ni_nodes parent)) touched @
     filter (\<lambda>n. is_test_kind (node_kind n) \<and> node_nid n \<notin> node_nid ` set (ni_nodes idx)) (ni_nodes parent)"

definition weakened_factor :: "node list \<Rightarrow> factor list" where
  "weakened_factor us =
     (if us \<noteq> []
      then [\<lparr>fa_name = ''tests_weakened'', fa_points = capped (length us) 15 30,
             fa_detail = ''existing tests modified or deleted: '' @ names_shown us,
             fa_lower = ''restore the tests, or land the test change separately with approval''\<rparr>] else [])"

section \<open>The signals of paths and flags\<close>

definition manifest_factor :: "string list \<Rightarrow> factor list" where
  "manifest_factor paths =
     (let ms = filter (\<lambda>p. list_ex (\<lambda>m. ends_with p m) manifests) paths
      in if ms \<noteq> []
         then [\<lparr>fa_name = ''dependencies'', fa_points = 15,
                fa_detail = ''dependency manifest changed: '' @ join_with '', '' ms,
                fa_lower = ''land dependency changes on their own, with approval''\<rparr>] else [])"

definition sensitive_patterns :: "(string, value) btree \<Rightarrow> string list" where
  "sensitive_patterns cfg =
     (case map_of cfg ''risk_sensitive'' of
        Some (VArray vs) \<Rightarrow> List.map_filter as_text vs
      | Some (VText t) \<Rightarrow> filter (\<lambda>p. p \<noteq> []) (map trim_space (split_on (CHR '','') t))
      | _ \<Rightarrow> default_sensitive)"

definition sensitive_factor :: "string list \<Rightarrow> string list \<Rightarrow> factor list" where
  "sensitive_factor patterns paths =
     (let hit = filter (any_match patterns) paths
      in if hit \<noteq> []
         then [\<lparr>fa_name = ''sensitive_scope'', fa_points = 25,
                fa_detail = ''touches a sensitive scope: '' @ join_with '', '' hit,
                fa_lower = ''get a human approval for this scope, or keep the change out of it''\<rparr>] else [])"

definition flag_factors :: "revision \<Rightarrow> factor list" where
  "flag_factors rv =
     (case rev_flags rv of
        None \<Rightarrow> []
      | Some f \<Rightarrow>
          (if fl_secrets f \<noteq> None \<and> fl_secrets f \<noteq> Some []
           then [\<lparr>fa_name = ''secrets'', fa_points = 30, fa_detail = ''content that looks like a secret'',
                  fa_lower = ''remove the secret and snapshot again''\<rparr>] else []) @
          (if fl_out_of_scope f \<noteq> None \<and> fl_out_of_scope f \<noteq> Some []
           then [\<lparr>fa_name = ''out_of_scope'', fa_points = 20, fa_detail = ''paths outside the author's write scope'',
                  fa_lower = ''stay inside the capability's write scope''\<rparr>] else []))"

section \<open>Collisions\<close>

record risk_env =
  rk_index :: index_store
  rk_log :: oplog
  rk_cache :: landed_cache
  rk_config :: "(string, value) btree"
  rk_currents :: "oid option list"

definition index_of_rev ::
  "ext \<Rightarrow> sem_ext \<Rightarrow> fresh_ids \<Rightarrow> index_store \<Rightarrow> revision \<Rightarrow> (index_store \<times> node_index option) res" where
  "index_of_rev x sx fresh st rv =
     (case snap_of rv of
        None \<Rightarrow> Inr (st, None)
      | Some i \<Rightarrow> rbind (index_for_snapshot x sx fresh st i) (\<lambda>(st, _, idx). Inr (st, Some idx)))"

definition parent_revision :: "ext \<Rightarrow> objs \<Rightarrow> revision \<Rightarrow> revision option res" where
  "parent_revision x s rv =
     (case rev_parents rv of
        [] \<Rightarrow> Inr None
      | p # _ \<Rightarrow> rbind (obj_get (ext_hash x) as_revision s p) (\<lambda>r. Inr (Some r)))"

text \<open>The work of one workspace: whatever cannot be read is passed over.\<close>

definition collide_step ::
  "ext \<Rightarrow> sem_ext \<Rightarrow> fresh_ids \<Rightarrow> oid \<Rightarrow> revision \<Rightarrow> oid list \<Rightarrow> eid set \<Rightarrow> oid option \<Rightarrow>
     index_store \<times> string list \<Rightarrow> index_store \<times> string list" where
  "collide_step x sx fresh rid rv landed changed_ids cur acc =
     (case acc of (st, out) \<Rightarrow>
      case cur of
        None \<Rightarrow> acc
      | Some c \<Rightarrow>
          if c = rid \<or> c \<in> set landed then acc
          else (case obj_get (ext_hash x) as_revision (is_objs st) c of
                  Inl _ \<Rightarrow> acc
                | Inr other \<Rightarrow>
                    if rev_id other = rev_id rv then acc
                    else (case index_of_rev x sx fresh st other of
                            Inr (st1, Some oidx) \<Rightarrow>
                              (case parent_revision x (is_objs st1) other of
                                 Inr (Some opr) \<Rightarrow>
                                   (case index_of_rev x sx fresh st1 opr of
                                      Inr (st2, Some opidx) \<Rightarrow>
                                        (st2, if list_ex (\<lambda>n. node_nid n \<in> changed_ids) (units_changed opidx oidx)
                                              then out @ [chars_of (to_letters (rev_author other))] else out)
                                    | _ \<Rightarrow> (st1, out))
                               | _ \<Rightarrow> (st1, out))
                          | _ \<Rightarrow> acc)))"

definition collision_factor :: "string list \<Rightarrow> factor list" where
  "collision_factor colliding =
     (if colliding \<noteq> []
      then [\<lparr>fa_name = ''collision'', fa_points = 10,
             fa_detail = ''other unlanded work changes the same units, by '' @ join_with '', '' (btree_list colliding),
             fa_lower = ''land or coordinate with the other change first''\<rparr>] else [])"

section \<open>The assessment\<close>

definition total_score :: "factor list \<Rightarrow> 32 word" where
  "total_score fs = min (sum_list (map fa_points fs)) 100"

definition ranked :: "factor list \<Rightarrow> factor list" where
  "ranked fs = sort_key (\<lambda>f. (- int (unat (fa_points f)), fa_name f)) fs"

definition scored :: "factor list \<Rightarrow> risk_score" where
  "scored fs = \<lparr>rs_score = total_score (ranked fs), rs_level = level_of (total_score (ranked fs)), rs_factors = ranked fs\<rparr>"

definition unit_factors :: "node_index \<Rightarrow> node_index \<Rightarrow> factor list" where
  "unit_factors parent idx =
     (let touched = counted_units parent idx; code = code_units touched
      in size_factor code @ blast_factor (dependents_of idx touched) @ untested_factor (untested_units idx code) @
         weakened_factor (weakened_tests parent idx touched))"

definition assess ::
  "ext \<Rightarrow> sem_ext \<Rightarrow> fresh_ids \<Rightarrow> risk_env \<Rightarrow> oid \<Rightarrow> revision \<Rightarrow> (index_store \<times> risk_score) res" where
  "assess x sx fresh env rid rv =
     (case snap_of rv of
        None \<Rightarrow> Inr (rk_index env, \<lparr>rs_score = 0, rs_level = ''low'', rs_factors = []\<rparr>)
      | Some snap \<Rightarrow>
          rbind (index_for_snapshot x sx fresh (rk_index env) snap) (\<lambda>(st, _, idx).
          rbind (parent_revision x (is_objs st) rv) (\<lambda>pr.
          rbind (case pr of None \<Rightarrow> Inr (st, None) | Some r \<Rightarrow> index_of_rev x sx fresh st r) (\<lambda>(st, pidx).
          let parent = (case pidx of None \<Rightarrow> empty_index | Some i \<Rightarrow> i)
          in rbind (paths_changed x (is_objs st) rv) (\<lambda>paths.
             rbind (current_view x ((rk_log env)\<lparr>log_store := is_objs st\<rparr>)) (\<lambda>(s, v).
             rbind (landed_revisions x (rk_cache env) s v) (\<lambda>(landed, _).
             let acc = fold (collide_step x sx fresh rid rv landed (node_nid ` set (counted_units parent idx)))
                   (rk_currents env) (st\<lparr>is_objs := s\<rparr>, [])
             in Inr (fst acc, scored (unit_factors parent idx @ manifest_factor paths @
                  sensitive_factor (sensitive_patterns (rk_config env)) paths @ flag_factors rv @
                  collision_factor (snd acc))))))))))"

section \<open>The attested form\<close>

definition factor_to_cbor :: "factor \<Rightarrow> value" where
  "factor_to_cbor f =
     VMap [(VText ''name'', VText (fa_name f)), (VText ''points'', VInt (uint (fa_points f))),
           (VText ''detail'', VText (fa_detail f)), (VText ''lower'', VText (fa_lower f))]"

definition risk_to_cbor :: "risk_score \<Rightarrow> value" where
  "risk_to_cbor r =
     VMap [(VText ''score'', VInt (uint (rs_score r))), (VText ''level'', VText (rs_level r)),
           (VText ''factors'', VArray (map factor_to_cbor (rs_factors r)))]"

definition text_at :: "(value \<times> value) list \<Rightarrow> string \<Rightarrow> string" where
  "text_at m k = (case Option.bind (map_get m k) as_text of Some t \<Rightarrow> t | None \<Rightarrow> [])"

definition factor_from_cbor :: "value \<Rightarrow> factor option" where
  "factor_from_cbor v =
     (case v of
        VMap m \<Rightarrow> Some \<lparr>fa_name = text_at m ''name'',
          fa_points = (case map_get m ''points'' of Some (VInt i) \<Rightarrow> as_u32 i | _ \<Rightarrow> 0),
          fa_detail = text_at m ''detail'', fa_lower = text_at m ''lower''\<rparr>
      | _ \<Rightarrow> None)"

definition risk_from_cbor :: "value \<Rightarrow> risk_score option" where
  "risk_from_cbor v =
     (case v of
        VMap m \<Rightarrow>
          (case map_get m ''score'' of
             Some (VInt i) \<Rightarrow>
               Some \<lparr>rs_score = as_u32 i, rs_level = level_of (as_u32 i),
                     rs_factors = (case map_get m ''factors'' of
                       Some (VArray a) \<Rightarrow> List.map_filter factor_from_cbor a | _ \<Rightarrow> [])\<rparr>
           | _ \<Rightarrow> None)
      | _ \<Rightarrow> None)"

end
