(* ===== verification/Attest_Props.thy ===== *)
theory Attest_Props
  imports Risk
begin

text \<open>
  The index of attestations is exact, events show exactly the paths that differ, and hooks run to the end.
\<close>

section \<open>Ids in a row of bytes\<close>

lemma chunks_concat: "\<forall>i \<in> set ids. length i = n \<Longrightarrow> 0 < n \<Longrightarrow> byte_chunks n (concat ids) = ids"
proof (induction ids)
  case (Cons i ids)
  then have "byte_chunks n (i @ concat ids) = i # byte_chunks n (concat ids)"
    by (subst byte_chunks.simps) auto
  with Cons show ?case by simp
qed (simp add: byte_chunks.simps)

definition meta_ok :: "meta \<Rightarrow> bool" where
  "meta_ok m \<longleftrightarrow> (\<forall>k. \<exists>ids. meta_at m k = concat ids \<and> (\<forall>i \<in> set ids. length i = 32))"

lemma meta_okE:
  assumes "meta_ok m"
  obtains ids where "meta_at m k = concat ids" "\<forall>i \<in> set ids. length i = 32" "ids_at m k = ids" "byte_chunks 32 (meta_at m k) = ids"
proof -
  from assms obtain ids where ids: "meta_at m k = concat ids" "\<forall>i \<in> set ids. length i = 32" unfolding meta_ok_def by blast
  then have c: "byte_chunks 32 (meta_at m k) = ids" by (simp add: chunks_concat)
  from ids(2) have "List.map_filter (\<lambda>c. case oid_from_slice c of Inr i \<Rightarrow> Some i | Inl _ \<Rightarrow> None) ids = ids"
    by (induction ids) (auto simp: map_filter_simps oid_from_slice_def)
  then have "ids_at m k = ids" unfolding ids_at_def c .
  with ids c that show thesis by blast
qed

lemma meta_at_insert: "meta_at (bt_insert key bs m) k = (if k = key then bs else meta_at m k)"
  by (simp add: meta_at_def)

lemma append_id_ok:
  assumes "meta_ok m" "length i = 32"
  shows "meta_ok (append_id key i m) \<and>
    ids_at (append_id key i m) k = (if k = key \<and> i \<notin> set (ids_at m key) then ids_at m key @ [i] else ids_at m k)"
proof -
  obtain ids where ids: "meta_at m key = concat ids" "\<forall>j \<in> set ids. length j = 32" "ids_at m key = ids" "byte_chunks 32 (meta_at m key) = ids"
    using meta_okE [OF assms(1)] by metis
  show ?thesis
  proof (cases "i \<in> set ids")
    case True
    then have "append_id key i m = m" using ids(4) by (auto simp: append_id_def Let_def list_ex_iff)
    with assms(1) ids(3) True show ?thesis by simp
  next
    case False
    then have a: "append_id key i m = bt_insert key (concat (ids @ [i])) m"
      using ids(1,4) by (auto simp: append_id_def Let_def list_ex_iff)
    have l: "\<forall>j \<in> set (ids @ [i]). length j = 32" using ids(2) assms(2) by auto
    have ok: "meta_ok (bt_insert key (concat (ids @ [i])) m)"
      using assms(1) l unfolding meta_ok_def meta_at_insert by (metis (full_types))
    obtain js where js: "meta_at (bt_insert key (concat (ids @ [i])) m) k = concat js"
      "ids_at (bt_insert key (concat (ids @ [i])) m) k = js" "byte_chunks 32 (meta_at (bt_insert key (concat (ids @ [i])) m) k) = js"
      using meta_okE [OF ok] by metis
    have "ids_at (bt_insert key (concat (ids @ [i])) m) k = (if k = key then ids @ [i] else ids_at m k)"
      using js chunks_concat [OF l] by (auto simp: meta_at_insert ids_at_def)
    with ok a False ids(3) show ?thesis by simp
  qed
qed

section \<open>The keys of an attestation\<close>

definition att_keys :: "(bytes \<Rightarrow> string) \<Rightarrow> attestation \<Rightarrow> string set" where
  "att_keys hx att = (case att_subject att of None \<Rightarrow> {} | Some s \<Rightarrow> {att_subject_key hx s}) \<union>
     (case att_bodies att of None \<Rightarrow> {} | Some bs \<Rightarrow> att_body_key hx ` set bs)"

lemma append_ids:
  "meta_ok m \<Longrightarrow> length i = 32 \<Longrightarrow> distinct (ids_at m k) \<Longrightarrow>
     meta_ok (fold (\<lambda>key. append_id key i) keys m) \<and> distinct (ids_at (fold (\<lambda>key. append_id key i) keys m) k) \<and>
     set (ids_at (fold (\<lambda>key. append_id key i) keys m) k) = set (ids_at m k) \<union> (if k \<in> set keys then {i} else {})"
proof (induction keys arbitrary: m)
  case (Cons key keys)
  note step = append_id_ok [OF Cons.prems(1,2)]
  have "distinct (ids_at (append_id key i m) k)" using step [of key k] Cons.prems(3) by auto
  from Cons.IH [OF _ Cons.prems(2) this] step [of key k] show ?case by auto
qed simp

lemma index_attestation_keys:
  "index_attestation hx i att m = fold (\<lambda>key. append_id key i)
     ((case att_subject att of None \<Rightarrow> [] | Some s \<Rightarrow> [att_subject_key hx s]) @
      map (att_body_key hx) (case att_bodies att of None \<Rightarrow> [] | Some bs \<Rightarrow> bs)) m"
  by (simp add: index_attestation_def fold_map comp_def split: option.split)

definition index_atts :: "(bytes \<Rightarrow> string) \<Rightarrow> (oid \<times> attestation) list \<Rightarrow> meta \<Rightarrow> meta" where
  "index_atts hx atts m = fold (\<lambda>(i, att). index_attestation hx i att) atts m"

lemma index_all:
  assumes "\<forall>(i, att) \<in> set atts. length i = 32" "meta_ok m" "distinct (ids_at m k)"
  shows "meta_ok (index_atts hx atts m) \<and> distinct (ids_at (index_atts hx atts m) k) \<and>
    set (ids_at (index_atts hx atts m) k) = set (ids_at m k) \<union> {i. \<exists>att. (i, att) \<in> set atts \<and> k \<in> att_keys hx att}"
  using assms
proof (induction atts arbitrary: m)
  case (Cons ia atts)
  obtain i att where ia: "ia = (i, att)" by (cases ia)
  with Cons.prems(1) have l: "length i = 32" by auto
  have keys: "set ((case att_subject att of None \<Rightarrow> [] | Some s \<Rightarrow> [att_subject_key hx s]) @
      map (att_body_key hx) (case att_bodies att of None \<Rightarrow> [] | Some bs \<Rightarrow> bs)) = att_keys hx att"
    by (auto simp: att_keys_def split: option.splits)
  note step = append_ids [OF Cons.prems(2) l Cons.prems(3),
      of "(case att_subject att of None \<Rightarrow> [] | Some s \<Rightarrow> [att_subject_key hx s]) @
      map (att_body_key hx) (case att_bodies att of None \<Rightarrow> [] | Some bs \<Rightarrow> bs)", folded index_attestation_keys, unfolded keys]
  from Cons.prems(1) have "\<forall>(i, att) \<in> set atts. length i = 32" by simp
  moreover have "index_atts hx (ia # atts) m = index_atts hx atts (index_attestation hx i att m)"
    by (simp add: index_atts_def ia)
  ultimately show ?case using Cons.IH [of "index_attestation hx i att m"] step unfolding ia by auto
qed (simp add: index_atts_def)

lemma keys_inject:
  assumes "inj hx"
  shows "att_subject_key hx s \<in> att_keys hx att \<longleftrightarrow> att_subject att = Some s"
    and "att_body_key hx b \<in> att_keys hx att \<longleftrightarrow> (\<exists>bs. att_bodies att = Some bs \<and> b \<in> set bs)"
  using injD [OF assms] by (auto simp: att_keys_def att_subject_key_def att_body_key_def split: option.splits)

lemma collect_fold:
  "distinct out \<Longrightarrow> distinct (fold (\<lambda>i out. if i \<in> set out then out else out @ [i]) xs out) \<and>
     set (fold (\<lambda>i out. if i \<in> set out then out else out @ [i]) xs out) = set out \<union> set xs"
  by (induction xs arbitrary: out) auto

text \<open>What is collected for a revision is exactly the attestations indexed whose subject is the revision, the
  one before it or one of its snapshots, or that name a body of its index; each once, in whatever order
  they were indexed and however often.\<close>

theorem collect_for_exact:
  assumes "inj hx" "\<forall>(i, att) \<in> set atts. length i = 32" "\<And>xs. set (order xs) = set xs"
  shows "distinct (collect_for hx order (index_atts hx atts []) rid rv idx) \<and>
    set (collect_for hx order (index_atts hx atts []) rid rv idx) = {i. \<exists>att. (i, att) \<in> set atts \<and>
      (att_subject att \<in> Some ` ({rid} \<union> set_option (rev_prev rv) \<union> snd ` set (rev_snapshots rv)) \<or>
       (\<exists>ix bs. idx = Some ix \<and> att_bodies att = Some bs \<and> set bs \<inter> node_body ` set (ni_nodes ix) \<noteq> {}))}"
proof -
  let ?m = "index_atts hx atts []"
  have empty: "meta_ok []" "\<And>k. ids_at [] k = []"
    by (auto simp: meta_ok_def meta_at_def ids_at_def byte_chunks.simps map_filter_simps intro: exI [of _ "[]"])
  have at: "set (ids_at ?m k) = {i. \<exists>att. (i, att) \<in> set atts \<and> k \<in> att_keys hx att}" for k
    using index_all [OF assms(2) empty(1), of k hx] empty(2) by simp
  have "set (collect_for hx order ?m rid rv idx) =
      (\<Union>s \<in> {rid} \<union> set_option (rev_prev rv) \<union> snd ` set (rev_snapshots rv). set (ids_at ?m (att_subject_key hx s))) \<union>
      (\<Union>b \<in> (case idx of None \<Rightarrow> {} | Some ix \<Rightarrow> node_body ` set (ni_nodes ix)). set (ids_at ?m (att_body_key hx b)))"
    by (cases "rev_prev rv"; cases idx) (simp_all add: collect_for_def Let_def collect_fold assms(3) Un_ac)
  moreover have "distinct (collect_for hx order ?m rid rv idx)" by (simp add: collect_for_def Let_def collect_fold)
  ultimately show ?thesis unfolding at keys_inject [OF assms(1)]
    by (cases idx) (auto simp: image_iff, blast+)
qed


section \<open>Events\<close>

text \<open>
  The paths of an event are exactly the paths at which the tree of the revision and that of its first
  parent differ, sorted and each once; without a parent, or a parent without a tree, these are all paths.
\<close>

theorem event_paths_exact:
  assumes "event_new x s kind rid rv extra = Inr ev"
  shows "\<exists>i cur par. snap_of rv = Some i \<and> flat_of_snapshot x s i = Inr cur \<and> parent_flat x s rv = Inr par \<and>
    sorted (ev_paths ev) \<and> distinct (ev_paths ev) \<and>
    (distinct (map fst cur) \<longrightarrow> set (ev_paths ev) = {p. map_of cur p \<noteq> map_of par p})"
proof -
  from assms obtain i where i: "snap_of rv = Some i" by (auto simp: event_new_def result_simps)
  with assms obtain cur par where f: "flat_of_snapshot x s i = Inr cur" "parent_flat x s rv = Inr par"
    and e: "ev_paths ev = btree_list (map fst (filter (\<lambda>(p, l). map_of par p \<noteq> Some l) cur) @
             filter (\<lambda>p. map_of cur p = None) (map fst par))"
    by (auto simp: event_new_def paths_changed_def result_simps)
  have "set (ev_paths ev) = {p. map_of cur p \<noteq> map_of par p}" if d: "distinct (map fst cur)"
  proof -
    have "p \<in> fst ` set (filter (\<lambda>(p, l). map_of par p \<noteq> Some l) cur) \<longleftrightarrow> (\<exists>l. map_of cur p = Some l \<and> map_of par p \<noteq> Some l)" for p
      using map_of_eq_Some_iff [OF d] by force
    moreover have "p \<in> set (filter (\<lambda>p. map_of cur p = None) (map fst par)) \<longleftrightarrow> map_of cur p = None \<and> map_of par p \<noteq> None" for p
      by (auto simp: map_of_eq_None_iff)
    ultimately have "p \<in> set (ev_paths ev) \<longleftrightarrow> (\<exists>l. map_of cur p = Some l \<and> map_of par p \<noteq> Some l) \<or>
        map_of cur p = None \<and> map_of par p \<noteq> None" for p
      unfolding e set_btree_list set_append set_map by blast
    moreover have "(\<exists>l. map_of cur p = Some l \<and> map_of par p \<noteq> Some l) \<or> map_of cur p = None \<and> map_of par p \<noteq> None \<longleftrightarrow>
        map_of cur p \<noteq> map_of par p" for p
      by (cases "map_of cur p"; cases "map_of par p") auto
    ultimately show ?thesis by blast
  qed
  with i f e show ?thesis by simp
qed

section \<open>Hooks\<close>

lemma fire_fold:
  "snd (fold (\<lambda>(h, a) (st, out). case run st h a ev of (st', r) \<Rightarrow> (st', out @ [\<lparr>fi_hook = hook_name h, fi_action = ha_kind a, fi_result = r\<rparr>]))
     has (st, out)) = out @ rs \<Longrightarrow> map (\<lambda>f. (fi_hook f, fi_action f)) rs = map (\<lambda>(h, a). (hook_name h, ha_kind a)) has"
proof (induction has arbitrary: st out rs)
  case (Cons ha has)
  obtain h a where ha: "ha = (h, a)" by (cases ha)
  obtain st' r where r: "run st h a ev = (st', r)" by fastforce
  from Cons.prems ha r have "snd (fold (\<lambda>(h, a) (st, out). case run st h a ev of (st', r) \<Rightarrow>
      (st', out @ [\<lparr>fi_hook = hook_name h, fi_action = ha_kind a, fi_result = r\<rparr>]))
      has (st', out @ [\<lparr>fi_hook = hook_name h, fi_action = ha_kind a, fi_result = r\<rparr>])) = out @ rs" by simp
  moreover have "\<exists>zs. snd (fold (\<lambda>(h, a) (st, out). case run st h a ev of (st', r) \<Rightarrow>
      (st', out @ [\<lparr>fi_hook = hook_name h, fi_action = ha_kind a, fi_result = r\<rparr>])) ps (st, ys)) = ys @ zs" for ps st ys
    by (induction ps arbitrary: st ys) (auto split: prod.splits, metis append.assoc snd_conv)
  ultimately obtain zs where "rs = \<lparr>fi_hook = hook_name h, fi_action = ha_kind a, fi_result = r\<rparr> # zs"
    "snd (fold (\<lambda>(h, a) (st, out). case run st h a ev of (st', r) \<Rightarrow>
      (st', out @ [\<lparr>fi_hook = hook_name h, fi_action = ha_kind a, fi_result = r\<rparr>]))
      has (st', out @ [\<lparr>fi_hook = hook_name h, fi_action = ha_kind a, fi_result = r\<rparr>])) =
      (out @ [\<lparr>fi_hook = hook_name h, fi_action = ha_kind a, fi_result = r\<rparr>]) @ zs"
    by (metis append.assoc append_Cons append_Nil same_append_eq)
  from Cons.IH [OF this(2)] this(1) ha show ?case by simp
qed simp

text \<open>Firing an event runs every action of every enabled hook that answers it, in the order of the hooks, and
  reports each one: an action that fails stops neither the others nor the event.\<close>

theorem fire_runs_all:
  "case all_hooks x lg of
     Inl e \<Rightarrow> fire x run lg ev st = Inl e
   | Inr hooks \<Rightarrow> \<exists>st' out. fire x run lg ev st = Inr (st', out) \<and>
       map (\<lambda>f. (fi_hook f, fi_action f)) out =
         concat (map (\<lambda>(_, _, h). map (\<lambda>a. (hook_name h, ha_kind a)) (if answers ev h then hook_do h else [])) hooks) \<and>
       sorted (map (\<lambda>(_, _, h). hook_rank h) hooks)"
proof (cases "all_hooks x lg")
  case (Inl e)
  then show ?thesis by (simp add: fire_def)
next
  case (Inr hooks)
  let ?has = "concat (map (\<lambda>(_, _, h). map (Pair h) (hook_do h)) (filter (\<lambda>(_, _, h). answers ev h) hooks))"
  obtain st' out where f: "fold (\<lambda>(h, a) (st, out). case run st h a ev of (st', r) \<Rightarrow>
      (st', out @ [\<lparr>fi_hook = hook_name h, fi_action = ha_kind a, fi_result = r\<rparr>])) ?has (st, []) = (st', out)" by fastforce
  have "map (\<lambda>(h, a). (hook_name h, ha_kind a)) ?has =
      concat (map (\<lambda>(_, _, h). map (\<lambda>a. (hook_name h, ha_kind a)) (if answers ev h then hook_do h else [])) hooks)"
    by (induction hooks) (auto simp: comp_def)
  moreover have "map (\<lambda>f. (fi_hook f, fi_action f)) out = map (\<lambda>(h, a). (hook_name h, ha_kind a)) ?has"
    by (rule fire_fold [where out = "[]" and st = st and run = run and ev = ev]) (use f in simp)
  moreover from Inr have "sorted (map (\<lambda>(_, _, h). hook_rank h) hooks)"
    by (auto simp: all_hooks_def result_simps)
  ultimately show ?thesis using Inr f by (simp add: fire_def)
qed

end
