(* ===== verification/Risk_Props.thy ===== *)
theory Risk_Props
  imports Attest_Props Sem_Props
begin

text \<open>
  The score of a change is bounded and explained, weakened tests count, and what is attested is what the
  standards read.

  \<open>one_of\<close> says of a signal that it gives no factor or one, of its name and at most 30 points.
\<close>

section \<open>One factor for a signal\<close>

definition one_of :: "string \<Rightarrow> factor list \<Rightarrow> bool" where
  "one_of name fs \<longleftrightarrow> fs = [] \<or> (\<exists>f. fs = [f] \<and> fa_name f = name \<and> fa_points f \<le> 30)"

lemma capped_le: "bound \<le> 30 \<Longrightarrow> capped n w bound \<le> 30"
  unfolding capped_def by (metis min.cobounded2 order_trans)

lemma unit_signals:
  "one_of ''size'' (size_factor us)" "one_of ''blast_radius'' (blast_factor us)" "one_of ''untested'' (untested_factor us)"
  "one_of ''tests_weakened'' (weakened_factor us)"
  by (auto simp: one_of_def size_factor_def blast_factor_def untested_factor_def weakened_factor_def intro: capped_le)

definition secret_factor :: "revision \<Rightarrow> factor list" where
  "secret_factor rv = filter (\<lambda>f. fa_name f = ''secrets'') (flag_factors rv)"

definition scope_factor :: "revision \<Rightarrow> factor list" where
  "scope_factor rv = filter (\<lambda>f. fa_name f = ''out_of_scope'') (flag_factors rv)"

lemma flag_signals: "flag_factors rv = secret_factor rv @ scope_factor rv"
  "one_of ''secrets'' (secret_factor rv)" "one_of ''out_of_scope'' (scope_factor rv)"
  by (auto simp: one_of_def flag_factors_def secret_factor_def scope_factor_def split: option.splits)

lemma path_signals:
  "one_of ''dependencies'' (manifest_factor ps)" "one_of ''sensitive_scope'' (sensitive_factor pats ps)"
  "one_of ''collision'' (collision_factor cs)"
  by (auto simp: one_of_def manifest_factor_def sensitive_factor_def collision_factor_def Let_def)

lemma signals_together:
  "list_all2 one_of ns fss \<Longrightarrow> distinct ns \<Longrightarrow>
     distinct (map fa_name (concat fss)) \<and> set (map fa_name (concat fss)) \<subseteq> set ns \<and> length (concat fss) \<le> length ns \<and>
     (\<forall>f \<in> set (concat fss). fa_points f \<le> 30)"
proof (induction rule: list_all2_induct)
  case (Cons n ns fs fss)
  then show ?case unfolding one_of_def by fastforce
qed simp

definition signal_names :: "string list" where
  "signal_names = [''size'', ''blast_radius'', ''untested'', ''tests_weakened'', ''dependencies'', ''sensitive_scope'', ''secrets'',
     ''out_of_scope'', ''collision'']"

lemma all_signals:
  fixes parent idx :: node_index and pats paths colliding :: "string list" and rv :: revision
  defines "fs \<equiv> unit_factors parent idx @ manifest_factor paths @ sensitive_factor pats paths @ flag_factors rv @
    collision_factor colliding"
  shows "distinct (map fa_name fs) \<and> set (map fa_name fs) \<subseteq> set signal_names \<and> length fs \<le> 9 \<and> (\<forall>f \<in> set fs. fa_points f \<le> 30)"
proof -
  let ?t = "counted_units parent idx"
  let ?fss = "[size_factor (code_units ?t), blast_factor (dependents_of idx ?t), untested_factor (untested_units idx (code_units ?t)),
    weakened_factor (weakened_tests parent idx ?t), manifest_factor paths, sensitive_factor pats paths, secret_factor rv,
    scope_factor rv, collision_factor colliding]"
  have "list_all2 one_of signal_names ?fss"
    by (simp add: signal_names_def unit_signals flag_signals path_signals)
  moreover have "distinct signal_names" by (simp add: signal_names_def)
  ultimately have "distinct (map fa_name (concat ?fss)) \<and> set (map fa_name (concat ?fss)) \<subseteq> set signal_names \<and>
      length (concat ?fss) \<le> length signal_names \<and> (\<forall>f \<in> set (concat ?fss). fa_points f \<le> 30)"
    by (rule signals_together)
  moreover have "fs = concat ?fss" by (simp add: fs_def unit_factors_def Let_def flag_signals(1))
  ultimately show ?thesis by (simp add: signal_names_def)
qed

section \<open>The sum\<close>

lemma points_sum:
  "\<forall>f \<in> set fs. fa_points f \<le> 30 \<Longrightarrow> length fs \<le> 9 \<Longrightarrow>
     unat (sum_list (map fa_points fs)) = sum_list (map (\<lambda>f. unat (fa_points f)) fs) \<and>
     sum_list (map (\<lambda>f. unat (fa_points f)) fs) \<le> 30 * length fs"
proof (induction fs)
  case (Cons f fs)
  then have ih: "unat (sum_list (map fa_points fs)) = sum_list (map (\<lambda>f. unat (fa_points f)) fs)"
    "sum_list (map (\<lambda>f. unat (fa_points f)) fs) \<le> 30 * length fs" by auto
  from Cons.prems have "unat (fa_points f) \<le> 30" by (simp add: word_le_nat_alt)
  moreover have "unat (fa_points f + sum_list (map fa_points fs)) = unat (fa_points f) + unat (sum_list (map fa_points fs))"
    by (rule unat_add_lem [THEN iffD1]) (use ih Cons.prems \<open>unat (fa_points f) \<le> 30\<close> in simp)
  ultimately show ?case using ih by simp
qed simp

lemma unat_total:
  "\<forall>f \<in> set fs. fa_points f \<le> 30 \<Longrightarrow> length fs \<le> 9 \<Longrightarrow>
     unat (total_score fs) = min 100 (sum_list (map (\<lambda>f. unat (fa_points f)) fs))"
  using points_sum [of fs] by (auto simp: total_score_def min_def word_le_nat_alt)


lemma assessE:
  assumes "assess x sx fresh env rid rv = Inr (st, r)" "snap_of rv = Some snap"
  obtains st1 i idx pr st2 pidx paths colliding where
    "index_for_snapshot x sx fresh (rk_index env) snap = Inr (st1, i, idx)"
    "parent_revision x (is_objs st1) rv = Inr pr"
    "(case pr of None \<Rightarrow> Inr (st1, None) | Some r \<Rightarrow> index_of_rev x sx fresh st1 r) = Inr (st2, pidx)"
    "paths_changed x (is_objs st2) rv = Inr paths"
    "r = scored (unit_factors (case pidx of None \<Rightarrow> empty_index | Some i \<Rightarrow> i) idx @ manifest_factor paths @
       sensitive_factor (sensitive_patterns (rk_config env)) paths @ flag_factors rv @ collision_factor colliding)"
  using assms by (auto simp: assess_def result_simps Let_def)

lemma scored_parts:
  "set (rs_factors (scored fs)) = set fs" "mset (rs_factors (scored fs)) = mset fs"
  "rs_level (scored fs) = level_of (rs_score (scored fs))" "rs_score (scored fs) = total_score (rs_factors (scored fs))"
  "sorted_wrt (\<lambda>f g. fa_points g \<le> fa_points f) (rs_factors (scored fs))"
proof -
  have "sorted (map (\<lambda>f. (- int (unat (fa_points f)), fa_name f)) (ranked fs))" by (simp add: ranked_def)
  then have "sorted_wrt (\<lambda>f g. fa_points g \<le> fa_points f) (ranked fs)"
    by (auto simp: sorted_wrt_map word_le_def less_eq_prod_def elim!: sorted_wrt_mono_rel [rotated])
  then show "sorted_wrt (\<lambda>f g. fa_points g \<le> fa_points f) (rs_factors (scored fs))" by (simp add: scored_def)
qed (simp_all add: scored_def ranked_def)

lemma scored_sum:
  assumes "r = scored (unit_factors parent idx @ manifest_factor paths @ sensitive_factor pats paths @ flag_factors rv @
    collision_factor colliding)"
  shows "unat (rs_score r) = min 100 (sum_list (map (\<lambda>f. unat (fa_points f)) (rs_factors r)))"
    and "\<forall>f \<in> set (rs_factors r). fa_points f \<le> 30" and "distinct (map fa_name (rs_factors r))"
    and "set (map fa_name (rs_factors r)) \<subseteq> set signal_names"
proof -
  let ?fs = "unit_factors parent idx @ manifest_factor paths @ sensitive_factor pats paths @ flag_factors rv @ collision_factor colliding"
  note sig = all_signals [of parent idx paths pats rv colliding]
  note parts = scored_parts [of ?fs, folded assms]
  have len: "length (rs_factors r) \<le> 9" using sig parts(2) by (metis size_mset)
  show pts: "\<forall>f \<in> set (rs_factors r). fa_points f \<le> 30" using sig parts(1) by blast
  show "distinct (map fa_name (rs_factors r))"
    using sig parts(2) by (metis mset_eq_imp_distinct_iff mset_map)
  show "set (map fa_name (rs_factors r)) \<subseteq> set signal_names" using sig parts(1) by (metis set_map)
  show "unat (rs_score r) = min 100 (sum_list (map (\<lambda>f. unat (fa_points f)) (rs_factors r)))"
    using unat_total [OF pts len] parts(4) by simp
qed

text \<open>The score of a change is the sum of the points of its factors, at most 100, and never wraps around; the
  level is that of the score. Every signal gives at most one factor, of at most 30 points, and the factors
  come with the highest points first.\<close>

theorem score_explained:
  assumes "assess x sx fresh env rid rv = Inr (st, r)"
  shows "unat (rs_score r) = min 100 (sum_list (map (\<lambda>f. unat (fa_points f)) (rs_factors r))) \<and>
    rs_level r = level_of (rs_score r) \<and> distinct (map fa_name (rs_factors r)) \<and>
    set (map fa_name (rs_factors r)) \<subseteq> set signal_names \<and> (\<forall>f \<in> set (rs_factors r). unat (fa_points f) \<le> 30) \<and>
    sorted_wrt (\<lambda>f g. fa_points g \<le> fa_points f) (rs_factors r)"
proof (cases "snap_of rv")
  case None
  with assms show ?thesis by (auto simp: assess_def level_of_def)
next
  case (Some snap)
  from assessE [OF assms Some] obtain parent idx paths colliding where
    r: "r = scored (unit_factors parent idx @ manifest_factor paths @ sensitive_factor (sensitive_patterns (rk_config env)) paths @
      flag_factors rv @ collision_factor colliding)" by metis
  from scored_sum [OF r] scored_parts(3,5) r show ?thesis by (simp add: word_le_nat_alt)
qed

section \<open>Weakened tests\<close>

lemma capped_ge:
  assumes "0 < n" "n < 2 ^ 28"
  shows "15 \<le> unat (capped n 15 30)"
proof -
  have "unat (of_nat n * 15 :: 32 word) = n * 15"
    using assms(2) by (simp add: unat_word_ariths unat_of_nat)
  with assms(1) show ?thesis by (auto simp: capped_def min_def)
qed

text \<open>A change that deletes a test of its parent, or keeps it as a test with another body or name, gets the
  factor \<open>tests_weakened\<close> and with it a score of at least 15.\<close>

theorem weakened_tests_count:
  assumes "assess x sx fresh env rid rv = Inr (st, r)" "snap_of rv = Some snap"
    and "index_for_snapshot x sx fresh (rk_index env) snap = Inr (st1, i, idx)"
    and "parent_revision x (is_objs st1) rv = Inr (Some pr)" "index_of_rev x sx fresh st1 pr = Inr (st2, Some pidx)"
    and "distinct (map node_nid (ni_nodes pidx))" "t \<in> set (ni_nodes pidx)" "is_test_kind (node_kind t)"
    and "node_nid t \<notin> nids (ni_nodes idx) \<or>
      (\<exists>n \<in> set (ni_nodes idx). node_nid n = node_nid t \<and> is_test_kind (node_kind n) \<and>
         (node_body n \<noteq> node_body t \<or> node_name n \<noteq> node_name t))"
    and "length (ni_nodes idx) + length (ni_nodes pidx) < 2 ^ 28"
  shows "15 \<le> unat (rs_score r) \<and> (\<exists>f \<in> set (rs_factors r). fa_name f = ''tests_weakened'' \<and> 15 \<le> unat (fa_points f))"
proof -
  obtain st1' i' idx' pr' st2' pidx' paths colliding where
    a: "index_for_snapshot x sx fresh (rk_index env) snap = Inr (st1', i', idx')" "parent_revision x (is_objs st1') rv = Inr pr'"
    "(case pr' of None \<Rightarrow> Inr (st1', None) | Some r \<Rightarrow> index_of_rev x sx fresh st1' r) = Inr (st2', pidx')"
    and r': "r = scored (unit_factors (case pidx' of None \<Rightarrow> empty_index | Some i \<Rightarrow> i) idx' @ manifest_factor paths @ sensitive_factor (sensitive_patterns (rk_config env)) paths @
      flag_factors rv @ collision_factor colliding)"
    by (rule assessE [OF assms(1,2)])
  from a assms(3-5) have "idx' = idx" "pidx' = Some pidx" by auto
  with r' have r: "r = scored (unit_factors pidx idx @ manifest_factor paths @
      sensitive_factor (sensitive_patterns (rk_config env)) paths @ flag_factors rv @ collision_factor colliding)" by simp
  let ?ws = "weakened_tests pidx idx (counted_units pidx idx)"
  have "?ws \<noteq> []"
  proof (cases "node_nid t \<in> nids (ni_nodes idx)")
    case True
    with assms(9) obtain n where n: "n \<in> set (ni_nodes idx)" "node_nid n = node_nid t" "is_test_kind (node_kind n)"
      "node_body n \<noteq> node_body t \<or> node_name n \<noteq> node_name t" by blast
    from assms(6,7) have "node_by_id (ni_nodes pidx) (node_nid t) = Some t" by (simp add: node_by_id_iff)
    with n have "n \<in> set (counted_units pidx idx)"
      by (auto simp: counted_units_def units_changed_def is_test_kind_def)
    with n assms(7) have "n \<in> set ?ws" by (auto simp: weakened_tests_def intro: rev_image_eqI)
    then show ?thesis by auto
  next
    case False
    with assms(7,8) have "t \<in> set ?ws" by (auto simp: weakened_tests_def)
    then show ?thesis by auto
  qed
  then obtain f where f: "f \<in> set (weakened_factor ?ws)" "fa_name f = ''tests_weakened''" "fa_points f = capped (length ?ws) 15 30"
    by (auto simp: weakened_factor_def)
  have "length ?ws \<le> length (ni_nodes idx) + length (ni_nodes pidx)"
    unfolding weakened_tests_def counted_units_def units_changed_def length_append
    by (intro add_mono) (meson length_filter_le order_trans)+
  with assms(10) \<open>?ws \<noteq> []\<close> have pts: "15 \<le> unat (fa_points f)"
    unfolding f(3) by (intro capped_ge) auto
  have "f \<in> set (rs_factors r)" using f(1) scored_parts(1) r by (simp add: unit_factors_def Let_def)
  moreover from this have "unat (fa_points f) \<le> sum_list (map (\<lambda>f. unat (fa_points f)) (rs_factors r))"
    by (simp add: member_le_sum_list)
  ultimately show ?thesis using scored_sum(1) [OF r] f(2) pts by auto
qed

section \<open>What is attested\<close>

lemma factor_round_trip: "factor_from_cbor (factor_to_cbor f) = Some f"
  by (simp add: factor_from_cbor_def factor_to_cbor_def text_at_def map_get_def as_u32_def)

text \<open>
  What the daemon attests is what it reads back, and what the standards read: score and level of the
  attested risk are those of the assessment.
\<close>

theorem risk_round_trip:
  assumes "rs_level r = level_of (rs_score r)"
  shows "risk_from_cbor (risk_to_cbor r) = Some r \<and>
    (\<forall>cx att. latest_risk cx = Some att \<longrightarrow> att_result att = risk_to_cbor r \<longrightarrow> risk cx = Some (rs_score r, rs_level r))"
proof -
  have "List.map_filter factor_from_cbor (map factor_to_cbor fs) = fs" for fs
    by (induction fs) (simp_all add: map_filter_simps factor_round_trip)
  with assms show ?thesis
    by (simp add: risk_from_cbor_def risk_to_cbor_def map_get_def as_u32_def risk_def)
qed

section \<open>Manifests\<close>

text \<open>A manifest is found by the end of its path, so a file whose name only ends that way counts too.\<close>

lemma manifest_by_suffix: "map fa_name (manifest_factor [''docs/notpackage.json'']) = [''dependencies'']"
  by (simp add: manifest_factor_def manifests_def Let_def ends_with_def strip_suffix_def)


end
