(* ===== verification/Anomaly.thy ===== *)
theory Anomaly
  imports Standards
begin

text \<open>
  Anomalies of agents: \<open>crates/tessra-daemon/src/anomaly.rs\<close>.

  The file of an agent is its entry in a map; an agent without a readable file has the empty state. Times are
  nanoseconds in \<open>i64\<close>, whose arithmetic wraps; a call reads the clock where the code does, and every
  reading is an argument. What a throttle or a revocation sets off beyond the file, the revocation of the
  agent and the hooks, is not here: the outcome says which of them follows.
\<close>

section \<open>State\<close>

record anomaly_state =
  an_score :: "32 word"
  an_events :: "(int \<times> string) list"
  an_until :: int
  an_throttles :: "32 word"
  an_charged :: "string list"

definition no_anomalies :: anomaly_state where
  "no_anomalies = \<lparr>an_score = 0, an_events = [], an_until = 0, an_throttles = 0, an_charged = []\<rparr>"

type_synonym anomalies = "eid \<rightharpoonup> anomaly_state"

definition anomaly_load :: "anomalies \<Rightarrow> eid \<Rightarrow> anomaly_state" where
  "anomaly_load fs agent = (case fs agent of None \<Rightarrow> no_anomalies | Some s \<Rightarrow> s)"

definition anomaly_save :: "anomalies \<Rightarrow> eid \<Rightarrow> anomaly_state \<Rightarrow> anomalies" where
  "anomaly_save fs agent s = fs(agent \<mapsto> s)"

section \<open>Configuration\<close>

definition parse_u64 :: "string \<Rightarrow> nat option" where
  "parse_u64 s =
     (let ds = (case s of c # cs \<Rightarrow> if c = CHR ''+'' then cs else s | [] \<Rightarrow> [])
      in if ds = [] then None
         else case digits 0 ds of None \<Rightarrow> None | Some n \<Rightarrow> if n < 2 ^ 64 then Some n else None)"

definition config_u64 :: "(string, value) btree \<Rightarrow> string \<Rightarrow> 64 word \<Rightarrow> 64 word" where
  "config_u64 cfg key fallback =
     (case map_of cfg key of
        Some (VInt i) \<Rightarrow> word_of_int (max i 0)
      | Some (VText t) \<Rightarrow> (case parse_u64 t of Some n \<Rightarrow> of_nat n | None \<Rightarrow> fallback)
      | _ \<Rightarrow> fallback)"

definition throttle_at :: "(string, value) btree \<Rightarrow> 32 word" where
  "throttle_at cfg = ucast (config_u64 cfg ''anomaly_throttle'' 3)"

definition revoke_at :: "(string, value) btree \<Rightarrow> 32 word" where
  "revoke_at cfg = ucast (config_u64 cfg ''anomaly_revoke'' 6)"

definition cooldown_s :: "(string, value) btree \<Rightarrow> int" where
  "cooldown_s cfg = sint (config_u64 cfg ''anomaly_cooldown_s'' 60)"

section \<open>Operations\<close>

text \<open>Division of \<open>i64\<close> rounds towards zero.\<close>

definition trunc_div :: "int \<Rightarrow> int \<Rightarrow> int" where
  "trunc_div a b = (if a < 0 then - (- a div b) else a div b)"

datatype verdict = Allowed | Refused int "string list"

definition check_throttle :: "(eid \<Rightarrow> eid option) \<Rightarrow> anomalies \<Rightarrow> int \<Rightarrow> int \<Rightarrow> eid \<Rightarrow> verdict" where
  "check_throttle agent_of fs now1 now2 who =
     (case agent_of who of
        None \<Rightarrow> Allowed
      | Some agent \<Rightarrow>
          (let s = anomaly_load fs agent
           in if an_until s > now1
              then Refused (trunc_div (as_i64 (an_until s - now2)) 1000000000) (map snd (take 3 (rev (an_events s))))
              else Allowed))"

definition charge :: "string \<Rightarrow> anomaly_state \<Rightarrow> anomaly_state" where
  "charge key s =
     (let ks = an_charged s @ [key] in s\<lparr>an_charged := (if length ks > 200 then drop 1 ks else ks)\<rparr>)"

definition score_anomaly :: "int \<Rightarrow> string \<Rightarrow> 32 word \<Rightarrow> anomaly_state \<Rightarrow> anomaly_state" where
  "score_anomaly now1 what points s =
     (let es = an_events s @ [(now1, what)]
      in s\<lparr>an_score := an_score s + points, an_events := (if length es > 50 then drop 1 es else es)\<rparr>)"

datatype outcome = NotASession | Charged_Before | Recorded "32 word" | Throttled "32 word" int | Revoked "32 word"

definition record_anomaly ::
  "(string, value) btree \<Rightarrow> (eid \<Rightarrow> eid option) \<Rightarrow> int \<Rightarrow> int \<Rightarrow> eid \<Rightarrow> string \<Rightarrow> 32 word \<Rightarrow> anomalies \<Rightarrow> anomalies \<times> outcome" where
  "record_anomaly cfg agent_of now1 now2 who what points fs =
     (case agent_of who of
        None \<Rightarrow> (fs, NotASession)
      | Some agent \<Rightarrow>
          (let s = score_anomaly now1 what points (anomaly_load fs agent)
           in if an_score s \<ge> revoke_at cfg then (anomaly_save fs agent s, Revoked (an_score s))
              else if an_score s \<ge> throttle_at cfg
              then (anomaly_save fs agent
                      (s\<lparr>an_until := as_i64 (now2 + as_i64 (cooldown_s cfg * 1000000000)), an_throttles := an_throttles s + 1\<rparr>),
                    Throttled (an_score s) (cooldown_s cfg))
              else (anomaly_save fs agent s, Recorded (an_score s))))"

definition record_once ::
  "(string, value) btree \<Rightarrow> (eid \<Rightarrow> eid option) \<Rightarrow> int \<Rightarrow> int \<Rightarrow> eid \<Rightarrow> string \<Rightarrow> 32 word \<Rightarrow> string \<Rightarrow> anomalies \<Rightarrow>
     anomalies \<times> outcome" where
  "record_once cfg agent_of now1 now2 who what points key fs =
     (case agent_of who of
        None \<Rightarrow> (fs, NotASession)
      | Some agent \<Rightarrow>
          (let s = anomaly_load fs agent
           in if key \<in> set (an_charged s) then (fs, Charged_Before)
              else record_anomaly cfg agent_of now1 now2 who what points (anomaly_save fs agent (charge key s))))"

text \<open>
  Agents as a state machine: anomalies are recorded as time goes by, under one configuration. The
  invariants hold in every state it reaches, and a throttle ends.
\<close>

section \<open>Steps\<close>

text \<open>One reading of the clock never comes before the last one.\<close>

inductive anomaly_step ::
  "(string, value) btree \<Rightarrow> (eid \<Rightarrow> eid option) \<Rightarrow> int \<times> anomalies \<Rightarrow> int \<times> anomalies \<Rightarrow> bool" for cfg agent_of where
  wait: "t \<le> t' \<Longrightarrow> anomaly_step cfg agent_of (t, fs) (t', fs)"
| report: "t \<le> t1 \<Longrightarrow> t1 \<le> t2 \<Longrightarrow>
    anomaly_step cfg agent_of (t, fs) (t2, fst (record_anomaly cfg agent_of t1 t2 p what points fs))"
| once: "t \<le> t1 \<Longrightarrow> t1 \<le> t2 \<Longrightarrow>
    anomaly_step cfg agent_of (t, fs) (t2, fst (record_once cfg agent_of t1 t2 p what points key fs))"

inductive anomaly_reach :: "(string, value) btree \<Rightarrow> (eid \<Rightarrow> eid option) \<Rightarrow> int \<times> anomalies \<Rightarrow> bool" for cfg agent_of where
  start: "0 \<le> t \<Longrightarrow> anomaly_reach cfg agent_of (t, Map.empty)"
| step: "anomaly_reach cfg agent_of c \<Longrightarrow> anomaly_step cfg agent_of c c' \<Longrightarrow> anomaly_reach cfg agent_of c'"

section \<open>Invariants\<close>

text \<open>The cooldown fits into the clock, up to a time \<open>horizon\<close>.\<close>

definition clock_fits :: "(string, value) btree \<Rightarrow> int \<Rightarrow> bool" where
  "clock_fits cfg horizon \<longleftrightarrow> 0 \<le> cooldown_s cfg \<and> horizon + cooldown_s cfg * 1000000000 < 2 ^ 63"

definition state_ok :: "(string, value) btree \<Rightarrow> int \<Rightarrow> anomaly_state \<Rightarrow> bool" where
  "state_ok cfg t s \<longleftrightarrow>
     length (an_events s) \<le> 50 \<and> length (an_charged s) \<le> 200 \<and> distinct (an_charged s) \<and>
     an_until s \<le> t + cooldown_s cfg * 1000000000"

definition files_ok :: "(string, value) btree \<Rightarrow> int \<times> anomalies \<Rightarrow> bool" where
  "files_ok cfg c \<longleftrightarrow> 0 \<le> fst c \<and> (\<forall>a. state_ok cfg (fst c) (anomaly_load (snd c) a))"

lemma as_i64_fits: "- (2 ^ 63) \<le> i \<Longrightarrow> i < 2 ^ 63 \<Longrightarrow> as_i64 i = i"
  unfolding as_i64_def sint_sbintrunc' by (rule signed_take_bit_int_eq_self) simp_all

lemma load_save [simp]: "anomaly_load (anomaly_save fs a s) b = (if b = a then s else anomaly_load fs b)"
  by (simp add: anomaly_load_def anomaly_save_def)

lemma state_ok_later: "state_ok cfg t s \<Longrightarrow> t \<le> t' \<Longrightarrow> state_ok cfg t' s"
  by (simp add: state_ok_def)

lemma state_ok_score: "state_ok cfg t s \<Longrightarrow> state_ok cfg t (score_anomaly n what points s)"
  by (auto simp: state_ok_def score_anomaly_def Let_def)

lemma state_ok_charge: "state_ok cfg t s \<Longrightarrow> key \<notin> set (an_charged s) \<Longrightarrow> state_ok cfg t (charge key s)"
  by (auto simp: state_ok_def charge_def Let_def distinct_tl dest: in_set_dropD simp flip: drop_Suc)

lemma state_ok_throttle:
  assumes "state_ok cfg t s" "t \<le> t2" "0 \<le> t2" "clock_fits cfg t2"
  shows "state_ok cfg t2 (s\<lparr>an_until := as_i64 (t2 + as_i64 (cooldown_s cfg * 1000000000)), an_throttles := n\<rparr>)"
proof -
  have "as_i64 (cooldown_s cfg * 1000000000) = cooldown_s cfg * 1000000000"
    by (rule as_i64_fits) (use assms(3,4) in \<open>auto simp: clock_fits_def\<close>)
  moreover have "as_i64 (t2 + cooldown_s cfg * 1000000000) = t2 + cooldown_s cfg * 1000000000"
    by (rule as_i64_fits) (use assms(3,4) in \<open>auto simp: clock_fits_def\<close>)
  ultimately show ?thesis using assms(1) by (simp add: state_ok_def)
qed

lemma files_ok_record:
  assumes "files_ok cfg (t, fs)" "t \<le> t1" "t1 \<le> t2" "clock_fits cfg t2"
  shows "files_ok cfg (t2, fst (record_anomaly cfg agent_of t1 t2 p what points fs))"
proof (cases "agent_of p")
  case None
  with assms show ?thesis by (auto simp: record_anomaly_def files_ok_def intro: state_ok_later)
next
  case (Some a)
  let ?s = "score_anomaly t1 what points (anomaly_load fs a)"
  from assms(1-3) have t: "0 \<le> t2" "t \<le> t2" and ok: "\<And>b. state_ok cfg t (anomaly_load fs b)" by (auto simp: files_ok_def)
  from ok t have later: "\<And>b. state_ok cfg t2 (anomaly_load fs b)" and s: "state_ok cfg t2 ?s"
    using state_ok_later state_ok_score by blast+
  from state_ok_throttle [OF s order_refl t(1) assms(4)] later s t(1) Some show ?thesis
    by (simp add: record_anomaly_def files_ok_def Let_def)
qed

lemma files_ok_once:
  assumes "files_ok cfg (t, fs)" "t \<le> t1" "t1 \<le> t2" "clock_fits cfg t2"
  shows "files_ok cfg (t2, fst (record_once cfg agent_of t1 t2 p what points key fs))"
proof (cases "agent_of p")
  case None
  with assms show ?thesis by (auto simp: record_once_def files_ok_def intro: state_ok_later)
next
  case (Some a)
  show ?thesis
  proof (cases "key \<in> set (an_charged (anomaly_load fs a))")
    case True
    with Some assms show ?thesis by (auto simp: record_once_def files_ok_def Let_def intro: state_ok_later)
  next
    case False
    with assms(1) have "files_ok cfg (t, anomaly_save fs a (charge key (anomaly_load fs a)))"
      by (simp add: files_ok_def state_ok_charge)
    from files_ok_record [OF this assms(2-4)] Some False show ?thesis by (simp add: record_once_def Let_def)
  qed
qed

lemma step_time: "anomaly_step cfg agent_of c c' \<Longrightarrow> fst c \<le> fst c'"
  by (induction rule: anomaly_step.induct) auto

lemma reach_ok:
  "anomaly_reach cfg agent_of c \<Longrightarrow> clock_fits cfg (fst c) \<Longrightarrow> files_ok cfg c"
proof (induction rule: anomaly_reach.induct)
  case (start t)
  then show ?case by (simp add: files_ok_def state_ok_def anomaly_load_def no_anomalies_def clock_fits_def)
next
  case (step c c')
  from step_time [OF step.hyps(2)] step.prems have fits: "clock_fits cfg (fst c)" by (simp add: clock_fits_def)
  with step.IH have ok: "files_ok cfg c" by blast
  from step.hyps(2) step.prems ok show ?case
  proof (cases rule: anomaly_step.cases)
    case (wait t t' fs)
    with ok show ?thesis by (auto simp: files_ok_def intro: state_ok_later)
  next
    case (report t t1 t2 fs p what points)
    with files_ok_record ok step.prems show ?thesis by simp
  next
    case (once t t1 t2 fs p what points key)
    with files_ok_once ok step.prems show ?thesis by simp
  qed
qed

text \<open>A throttle ends: from the last anomaly on, an agent is refused for at most the cooldown, whatever was
  recorded before, and every call after that is allowed. Until then the log of an agent keeps its last 50
  anomalies and its last 200 charged keys, each once.\<close>

theorem throttle_ends:
  assumes "anomaly_reach cfg agent_of (t, fs)" "clock_fits cfg t"
  shows "(\<forall>who now1 now2. t + cooldown_s cfg * 1000000000 \<le> now1 \<longrightarrow> check_throttle agent_of fs now1 now2 who = Allowed) \<and>
    (\<forall>a. length (an_events (anomaly_load fs a)) \<le> 50 \<and> length (an_charged (anomaly_load fs a)) \<le> 200 \<and>
       distinct (an_charged (anomaly_load fs a)))"
proof -
  from reach_ok [OF assms(1)] assms(2) have ok: "\<And>a. state_ok cfg t (anomaly_load fs a)" by (simp add: files_ok_def)
  have "check_throttle agent_of fs now1 now2 who = Allowed" if n: "t + cooldown_s cfg * 1000000000 \<le> now1" for who now1 now2
  proof (cases "agent_of who")
    case (Some a)
    from ok [of a] n have "\<not> an_until (anomaly_load fs a) > now1" by (simp add: state_ok_def)
    with Some show ?thesis by (simp add: check_throttle_def Let_def)
  qed (simp add: check_throttle_def)
  with ok show ?thesis by (simp add: state_ok_def)
qed

section \<open>Outcomes\<close>

text \<open>An anomaly of a session adds its points to the score of its agent only. At the upper threshold the agent
  is revoked; between the thresholds it is throttled, and refused from then until the cooldown is over;
  below, nothing else happens.\<close>

theorem anomaly_outcome:
  assumes "agent_of who = Some a" "0 \<le> now2" "clock_fits cfg now2"
    and "record_anomaly cfg agent_of now1 now2 who what points fs = (fs', out)"
  shows "let s = anomaly_load fs a; s' = anomaly_load fs' a; n = an_score s + points in
    an_score s' = n \<and> (\<forall>b. b \<noteq> a \<longrightarrow> anomaly_load fs' b = anomaly_load fs b) \<and>
    (if n \<ge> revoke_at cfg then out = Revoked n \<and> an_until s' = an_until s
     else if n \<ge> throttle_at cfg
     then out = Throttled n (cooldown_s cfg) \<and>
       (\<forall>t1 t2. check_throttle agent_of fs' t1 t2 who = Allowed \<longleftrightarrow> now2 + cooldown_s cfg * 1000000000 \<le> t1)
     else out = Recorded n \<and> an_until s' = an_until s)"
proof -
  have c: "as_i64 (cooldown_s cfg * 1000000000) = cooldown_s cfg * 1000000000"
    by (rule as_i64_fits) (use assms(2,3) in \<open>auto simp: clock_fits_def\<close>)
  have d: "as_i64 (now2 + cooldown_s cfg * 1000000000) = now2 + cooldown_s cfg * 1000000000"
    by (rule as_i64_fits) (use assms(2,3) in \<open>auto simp: clock_fits_def\<close>)
  from assms(1,4) show ?thesis
    by (auto simp: record_anomaly_def Let_def score_anomaly_def check_throttle_def c d not_less split: if_split_asm)
qed

section \<open>What the thresholds and the list of keys do at their bounds\<close>

text \<open>A threshold of \<open>2 ^ 32\<close> is cut to zero, so the first anomaly revokes.\<close>

lemma threshold_cut:
  "map_of cfg ''anomaly_revoke'' = Some (VInt (2 ^ 32)) \<Longrightarrow> agent_of who = Some a \<Longrightarrow>
     \<exists>n. snd (record_anomaly cfg agent_of t1 t2 who what points fs) = Revoked n"
proof -
  assume a: "map_of cfg ''anomaly_revoke'' = Some (VInt (2 ^ 32))" "agent_of who = Some a"
  have "(ucast (word_of_int (2 ^ 32) :: 64 word) :: 32 word) = 0" by (simp add: ucast_eq)
  with a have "revoke_at cfg = 0" by (simp add: revoke_at_def config_u64_def)
  with a(2) show ?thesis by (simp add: record_anomaly_def Let_def)
qed

text \<open>The 201st key pushes the first one out, which is then charged again.\<close>

lemma key_forgotten:
  "length (an_charged s) = 200 \<Longrightarrow> an_charged s = k # ks \<Longrightarrow> k \<notin> set ks \<Longrightarrow> key \<noteq> k \<Longrightarrow> k \<notin> set (an_charged (charge key s))"
  by (simp add: charge_def Let_def)

end
