(* ===== verification/Risk_Witnesses.thy ===== *)
theory Risk_Witnesses
  imports Risk_Props Anomaly Daemon_Witnesses
begin

text \<open>A change that deletes a test, attestations of a revision, and an agent that is throttled.\<close>

section \<open>A deleted test\<close>

fun risk_hash :: "obj \<Rightarrow> oid" where
  "risk_hash (OTree _) = id_of 1"
| "risk_hash (OSnapshot sn) = id_of (20 + of_nat (length (snap_rules sn)))"
| "risk_hash (ONodeIndex n) = id_of (30 + of_nat (length (ni_nodes n)))"
| "risk_hash (ORevision r) = id_of (3 + of_nat (length (rev_title r)))"
| "risk_hash _ = id_of 0"

definition risk_world :: ext where
  "risk_world = world\<lparr>ext_hash := risk_hash\<rparr>"

lemma risk_world_hash [simp]: "ext_hash risk_world = risk_hash"
  by (simp add: risk_world_def)

lemma risk_length: "length (risk_hash y) = 32"
  by (cases y) (simp_all add: id_of_def)

definition the_test :: node where
  "the_test = recorded ''test'' ''checks'' 3 None [3]"

definition index_with :: "node list \<Rightarrow> node_index" where
  "index_with ns = \<lparr>ni_root = id_of 1, ni_grammars = grammars, ni_parents = [], ni_nodes = ns, ni_aliases = None\<rparr>"

definition snap_with :: "oid \<Rightarrow> snapshot" where
  "snap_with ru = \<lparr>snap_root = id_of 1, snap_rules = ru, snap_env = None, snap_index = None\<rparr>"

definition rev_with :: "oid \<Rightarrow> string \<Rightarrow> oid list \<Rightarrow> revision" where
  "rev_with snap title parents = (tiny_revision title parents)\<lparr>rev_snapshots := [([], snap)]\<rparr>"

definition risk_store :: index_store where
  "risk_store = \<lparr>is_objs = [id_of 1 \<mapsto> OTree tree_empty, id_of 20 \<mapsto> OSnapshot (snap_with []), id_of 21 \<mapsto> OSnapshot (snap_with [0]),
       id_of 30 \<mapsto> ONodeIndex (index_with []), id_of 31 \<mapsto> ONodeIndex (index_with [the_test]),
       id_of 3 \<mapsto> ORevision (rev_with (id_of 21) [] []), id_of 4 \<mapsto> ORevision (rev_with (id_of 20) ''b'' [id_of 3])],
     is_meta = [(id_of 20, id_of 30), (id_of 21, id_of 31)]\<rparr>"

lemma risk_get:
  "obj_get risk_hash as_node_index (is_objs risk_store) (id_of 30) = Inr (index_with [])"
  "obj_get risk_hash as_node_index (is_objs risk_store) (id_of 31) = Inr (index_with [the_test])"
  "obj_get risk_hash as_snapshot (is_objs risk_store) (id_of 20) = Inr (snap_with [])"
  "obj_get risk_hash as_snapshot (is_objs risk_store) (id_of 21) = Inr (snap_with [0])"
  "obj_get risk_hash as_revision (is_objs risk_store) (id_of 3) = Inr (rev_with (id_of 21) [] [])"
  "obj_get risk_hash as_tree (is_objs risk_store) (id_of 1) = Inr tree_empty"
  by (simp_all add: obj_get_Inr_iff risk_store_def rev_with_def tiny_revision_def index_with_def snap_with_def)

lemma risk_answered:
  "answered risk_world risk_store (id_of 20) (id_of 30) (index_with [])"
  "answered risk_world risk_store (id_of 21) (id_of 31) (index_with [the_test])"
  by (simp_all add: answered_def risk_get index_current_def) (simp_all add: index_with_def risk_store_def)

lemma risk_cached:
  "index_for_snapshot risk_world file_ext fresh risk_store (id_of 20) = Inr (risk_store, id_of 30, index_with [])"
  "index_for_snapshot risk_world file_ext fresh risk_store (id_of 21) = Inr (risk_store, id_of 31, index_with [the_test])"
  using answered_again [OF _ risk_answered(1)] answered_again [OF _ risk_answered(2)] by (simp_all add: risk_length)

lemma risk_flat: "flat_of_snapshot risk_world (is_objs risk_store) (id_of 20) = Inr []"
  "flat_of_snapshot risk_world (is_objs risk_store) (id_of 21) = Inr []"
proof -
  have "load_entries risk_world (is_objs risk_store) (id_of 1) = Inr []"
    by (rule load_entries_cases(1) [where t = tree_empty]) (simp_all add: risk_get tree_empty_def tree_flat_def)
  then have "flatten risk_world (is_objs risk_store) (id_of 1) = Inr []" by (simp add: flatten_def walk_tree.simps)
  then show "flat_of_snapshot risk_world (is_objs risk_store) (id_of 20) = Inr []"
    "flat_of_snapshot risk_world (is_objs risk_store) (id_of 21) = Inr []"
    by (simp_all add: flat_of_snapshot_def risk_get snap_with_def)
qed

definition risk_rev :: revision where
  "risk_rev = rev_with (id_of 20) ''b'' [id_of 3]"

definition the_env :: risk_env where
  "the_env = \<lparr>rk_index = risk_store, rk_log = log_new Map.empty, rk_cache = [], rk_config = [], rk_currents = []\<rparr>"

lemma risk_parts:
  "snap_of risk_rev = Some (id_of 20)"
  "parent_revision risk_world (is_objs risk_store) risk_rev = Inr (Some (rev_with (id_of 21) [] []))"
  "index_of_rev risk_world file_ext fresh risk_store (rev_with (id_of 21) [] []) = Inr (risk_store, Some (index_with [the_test]))"
  "paths_changed risk_world (is_objs risk_store) risk_rev = Inr []"
proof -
  have s: "snap_of risk_rev = Some (id_of 20)" "snap_of (rev_with (id_of 21) [] []) = Some (id_of 21)" "rev_parents risk_rev = [id_of 3]"
    by (simp_all add: snap_of_def risk_rev_def rev_with_def tiny_revision_def)
  then show "snap_of risk_rev = Some (id_of 20)"
    "parent_revision risk_world (is_objs risk_store) risk_rev = Inr (Some (rev_with (id_of 21) [] []))"
    "index_of_rev risk_world file_ext fresh risk_store (rev_with (id_of 21) [] []) = Inr (risk_store, Some (index_with [the_test]))"
    "paths_changed risk_world (is_objs risk_store) risk_rev = Inr []"
    by (simp_all add: parent_revision_def risk_get index_of_rev_def risk_cached paths_changed_def parent_flat_def risk_flat btree_list_def)
qed

lemma risk_view:
  "\<exists>s v c. current_view risk_world ((rk_log the_env)\<lparr>log_store := s0\<rparr>) = Inr (s, v) \<and> landed_revisions risk_world [] s v = Inr ([], c)"
proof -
  obtain s e where e: "empty_root (node_put risk_hash) s0 = Inr (s, e)"
    by (simp add: empty_root_def node_put_def obj_put_def)
  then show ?thesis
    by (simp add: current_view_def merged_view_def the_env_def log_new_def btree_list_def view_empty_def
        landed_revisions_def landed_key_def landed_walk_def)
qed

lemma risk_assessed: "\<exists>st r. assess risk_world file_ext (\<lambda>_ _. new_ids) the_env (id_of 4) risk_rev = Inr (st, r)"
proof -
  obtain s v c where v: "current_view risk_world ((rk_log the_env)\<lparr>log_store := is_objs risk_store\<rparr>) = Inr (s, v)"
    "landed_revisions risk_world [] s v = Inr ([], c)" using risk_view by blast
  have "rk_index the_env = risk_store" "rk_cache the_env = []" by (simp_all add: the_env_def)
  with v show ?thesis by (simp add: assess_def risk_parts risk_cached Let_def)
qed

lemma score_explained_witness:
  "\<exists>st r. assess risk_world file_ext (\<lambda>_ _. new_ids) the_env (id_of 4) risk_rev = Inr (st, r) \<and> unat (rs_score r) \<le> 100"
  using risk_assessed score_explained [of risk_world file_ext "\<lambda>_ _. new_ids" the_env "id_of 4" risk_rev] by (metis min.cobounded1)

lemma weakened_tests_count_witness:
  "\<exists>st r. assess risk_world file_ext (\<lambda>_ _. new_ids) the_env (id_of 4) risk_rev = Inr (st, r) \<and> 15 \<le> unat (rs_score r)"
proof -
  obtain st r where a: "assess risk_world file_ext (\<lambda>_ _. new_ids) the_env (id_of 4) risk_rev = Inr (st, r)"
    using risk_assessed by blast
  have i: "index_for_snapshot risk_world file_ext (\<lambda>_ _. new_ids) (rk_index the_env) (id_of 20) = Inr (risk_store, id_of 30, index_with [])"
    by (simp add: the_env_def risk_cached)
  have "15 \<le> unat (rs_score r)"
    by (rule conjunct1, rule weakened_tests_count [OF a risk_parts(1) i risk_parts(2,3), where t = the_test])
       (simp_all add: index_with_def the_test_def recorded_def is_test_kind_def)
  with a show ?thesis by blast
qed

lemma risk_round_trip_witness:
  "risk_from_cbor (risk_to_cbor \<lparr>rs_score = 55, rs_level = ''high'', rs_factors = [\<lparr>fa_name = ''untested'', fa_points = 30,
     fa_detail = ''x'', fa_lower = ''add tests''\<rparr>]\<rparr>) = Some \<lparr>rs_score = 55, rs_level = ''high'', rs_factors = [\<lparr>fa_name = ''untested'',
     fa_points = 30, fa_detail = ''x'', fa_lower = ''add tests''\<rparr>]\<rparr>"
  by (rule risk_round_trip [THEN conjunct1]) (simp add: level_of_def)

section \<open>Attestations of a revision\<close>

definition att_on :: "oid \<Rightarrow> oid list \<Rightarrow> attestation" where
  "att_on subject bodies = \<lparr>att_kind = ''tests.pass'', att_subject = Some subject, att_bodies = Some bodies, att_subject_type = None,
     att_scope = None, att_result = VBool True, att_env = None, att_verifier = [], att_runner = None, att_evidence = None,
     att_time = 0, att_sigkind = [], att_sig = None\<rparr>"

lemma inj_chars_of: "inj chars_of"
proof -
  have "inj (\<lambda>b :: u8. (char_of (unat b) :: char))"
  proof (rule injI)
    fix b c :: u8 assume e: "(char_of (unat b) :: char) = char_of (unat c)"
    have "(of_char (char_of (unat x) :: char) :: nat) = unat x" for x :: u8
      using unsigned_less [where ?'a = nat, of x] by (simp add: of_char_of)
    with e have "unat b = unat c" by metis
    then show "b = c" by (rule unsigned_word_eqI)
  qed
  then have "inj (map (\<lambda>b. (char_of (unat (b :: u8)) :: char)))" by (simp add: inj_mapI)
  then show ?thesis by (simp add: inj_def chars_of_def)
qed

lemma risk_fields:
  "rev_prev risk_rev = None" "rev_snapshots risk_rev = [([], id_of 20)]" "att_subject (att_on s b) = Some s"
  "att_bodies (att_on s b) = Some b" "ni_nodes (index_with ns) = ns" "node_body the_test = [3]"
  by (simp_all add: risk_rev_def rev_with_def tiny_revision_def att_on_def index_with_def the_test_def recorded_def)

lemma collect_for_exact_witness:
  "set (collect_for chars_of rev (index_atts chars_of [(id_of 1, att_on (id_of 4) []), (id_of 2, att_on (id_of 9) [[3]]),
       (id_of 3, att_on (id_of 9) [])] []) (id_of 4) risk_rev (Some (index_with [the_test]))) = {id_of 1, id_of 2}"
  (is "set (collect_for _ _ (index_atts _ ?atts _) _ _ ?idx) = _")
proof -
  have l: "\<forall>(i, att) \<in> set ?atts. length i = 32" by (simp add: id_of_def)
  have "set (collect_for chars_of rev (index_atts chars_of ?atts []) (id_of 4) risk_rev ?idx) =
    {i. \<exists>att. (i, att) \<in> set ?atts \<and>
      (att_subject att \<in> Some ` ({id_of 4} \<union> set_option (rev_prev risk_rev) \<union> snd ` set (rev_snapshots risk_rev)) \<or>
       (\<exists>ix bs. ?idx = Some ix \<and> att_bodies att = Some bs \<and> set bs \<inter> node_body ` set (ni_nodes ix) \<noteq> {}))}"
    by (rule collect_for_exact [OF inj_chars_of l, THEN conjunct2]) simp
  also have "\<dots> = {id_of 1, id_of 2}" by (rule set_eqI) (auto simp: risk_fields)
  finally show ?thesis .
qed

lemma event_paths_exact_witness:
  "\<exists>ev. event_new risk_world (is_objs risk_store) ''land'' (id_of 4) risk_rev () = Inr ev \<and> sorted (ev_paths ev)"
proof -
  obtain ev :: "unit event" where e: "event_new risk_world (is_objs risk_store) ''land'' (id_of 4) risk_rev () = Inr ev"
    by (simp add: event_new_def risk_parts)
  with event_paths_exact [OF e] show ?thesis by blast
qed

section \<open>A throttled agent\<close>

definition an_agent :: "eid \<Rightarrow> eid option" where
  "an_agent p = (if p = [1] then Some [2] else None)"

lemma default_cooldown: "cooldown_s [] = 60"
  by (simp add: cooldown_s_def config_u64_def)

lemma throttled_once:
  "anomaly_reach [] an_agent (7, fst (record_anomaly [] an_agent 5 7 [1] ''x'' 3 Map.empty))"
  by (rule anomaly_reach.step [OF anomaly_reach.start [of 0]], simp, rule anomaly_step.report) simp_all

lemma throttle_ends_witness:
  "check_throttle an_agent (fst (record_anomaly [] an_agent 5 7 [1] ''x'' 3 Map.empty)) 60000000007 60000000007 [1] = Allowed"
  by (rule throttle_ends [OF throttled_once, THEN conjunct1, rule_format]) (simp_all add: clock_fits_def default_cooldown)

lemma anomaly_outcome_witness:
  "\<exists>fs'. record_anomaly [] an_agent 5 7 [1] ''x'' 3 Map.empty = (fs', Throttled 3 60) \<and>
     check_throttle an_agent fs' 8 8 [1] \<noteq> Allowed"
proof -
  obtain fs' out where r: "record_anomaly [] an_agent 5 7 [1] ''x'' 3 Map.empty = (fs', out)" by fastforce
  have "revoke_at [] = 6" "throttle_at [] = 3" by (simp_all add: revoke_at_def throttle_at_def config_u64_def)
  with anomaly_outcome [OF _ _ _ r, of "[2]"] r show ?thesis
    by (auto simp: an_agent_def clock_fits_def default_cooldown anomaly_load_def no_anomalies_def Let_def)
qed

end
