(* ===== verification/Workdir.thy ===== *)
theory Workdir
  imports Sem_Index Pack
begin

text \<open>
  Snapshots of a directory: \<open>crates/tessra-daemon/src/fs.rs\<close>.

  A directory is the list of its entries in the order the file system gives them; a file has its bytes and
  whether it is executable, a symbolic link its target. A link in the place of a conflict sidecar counts
  as no sidecar, and names are ASCII where they are compared without case. Chunks of large files are kept
  beside the objects, by id. \<open>de\<close> reads the terms of a conflict from canonical bytes, a library's.
\<close>

datatype fsnode = FsFile bytes bool | FsLink bytes | FsDir "(string \<times> fsnode) list"

type_synonym listing = "(string \<times> fsnode) list"

section \<open>Names\<close>

definition always_skip :: "string list" where
  "always_skip = [''.git'', ''.tessra'']"

definition sidecar_suffix :: string where
  "sidecar_suffix = ''.tessra-conflict''"

definition skipped_name :: "string \<Rightarrow> bool" where
  "skipped_name name \<longleftrightarrow> name \<in> set always_skip \<or> ends_with name sidecar_suffix"

text \<open>\<open>trim_end_matches\<close> on a slash.\<close>

definition trim_end_slashes :: "string \<Rightarrow> string" where
  "trim_end_slashes s = rev (dropWhile (\<lambda>c. c = CHR ''/'') (rev s))"

definition ignored :: "tracking_rules \<Rightarrow> string \<Rightarrow> bool \<Rightarrow> bool" where
  "ignored rules rel is_dir \<longleftrightarrow>
     fold (\<lambda>r class.
         if ends_with (rule_pattern r) ''/'' \<and> \<not> is_dir then class
         else if glob_matches (trim_end_slashes (rule_pattern r)) rel then rule_class r else class)
       (tr_rules rules) 0 = 1"

definition slashes :: "string \<Rightarrow> string" where
  "slashes s = map (\<lambda>c. if c = CHR 0x5C then CHR ''/'' else c) s"

definition upper_char :: "char \<Rightarrow> char" where
  "upper_char c = (let n = of_char c :: nat in if 97 \<le> n \<and> n \<le> 122 then char_of (n - 32) else c)"

definition reserved :: "string list" where
  "reserved = [''CON'', ''PRN'', ''AUX'', ''NUL'', ''COM1'', ''COM2'', ''COM3'', ''COM4'', ''COM5'', ''COM6'', ''COM7'',
     ''COM8'', ''COM9'', ''LPT1'', ''LPT2'', ''LPT3'', ''LPT4'', ''LPT5'', ''LPT6'', ''LPT7'', ''LPT8'', ''LPT9'']"

definition unportable :: "string \<Rightarrow> bool" where
  "unportable name \<longleftrightarrow>
     map upper_char (takeWhile (\<lambda>c. c \<noteq> CHR ''.'') name) \<in> set reserved \<or>
     ends_with name ''.'' \<or> ends_with name '' '' \<or>
     list_ex (\<lambda>c. c \<in> {CHR ''<'', CHR ''>'', CHR '':'', CHR 0x22, CHR ''|'', CHR ''?'', CHR ''*''}) name"

text \<open>Names that differ in case only, group by group.\<close>

definition case_groups :: "string list \<Rightarrow> string list list" where
  "case_groups names =
     filter (\<lambda>g. 1 < length g)
       (map (\<lambda>k. filter (\<lambda>n. map lower_char n = k) names) (btree_list (map (map lower_char) names)))"

section \<open>Text\<close>

definition is_text :: "bytes \<Rightarrow> bool" where
  "is_text bs \<longleftrightarrow> 0 \<notin> set (take 8192 bs)"

fun drop_cr :: "bytes \<Rightarrow> bytes" where
  "drop_cr (a # b # bs) = (if a = 13 \<and> b = 10 then drop_cr (b # bs) else a # drop_cr (b # bs))"
| "drop_cr bs = bs"

definition normalize_eol :: "bytes \<Rightarrow> bytes" where
  "normalize_eol bs = (if 13 \<notin> set bs then bs else drop_cr bs)"

section \<open>Secrets\<close>

definition is_alnum :: "char \<Rightarrow> bool" where
  "is_alnum c \<longleftrightarrow> (let n = of_char c :: nat in 48 \<le> n \<and> n \<le> 57 \<or> 65 \<le> n \<and> n \<le> 90 \<or> 97 \<le> n \<and> n \<le> 122)"

definition token_char :: "char \<Rightarrow> bool" where
  "token_char c \<longleftrightarrow> is_alnum c \<or> c = CHR ''_'' \<or> c = CHR ''-''"

lemma split_once_shorter: "split_once p s = Some (a, b) \<Longrightarrow> p \<noteq> [] \<Longrightarrow> length b < length s"
  by (induction p s arbitrary: a b rule: split_once.induct) (auto split: if_splits)

text \<open>The search for a prefix that is followed by a run of token characters. No prefix of the code is empty.\<close>

function token_after :: "string \<Rightarrow> nat \<Rightarrow> string \<Rightarrow> bool" where
  "token_after p run s =
     (if p = [] then False
      else (case split_once p s of
              None \<Rightarrow> False
            | Some (_, rest) \<Rightarrow> if run \<le> length (takeWhile token_char rest) then True else token_after p run rest))"
  by pat_completeness auto
termination by (relation "measure (\<lambda>(p, run, s). length s)") (auto intro: split_once_shorter)

declare token_after.simps [simp del]

definition pem_head :: string where
  "pem_head = ''-----BEG'' @ ''IN ''"

definition pem_end :: string where
  "pem_end = ''-----E'' @ ''ND ''"

definition pem_tail :: string where
  "pem_tail = ''PRIVATE K'' @ ''EY-----''"

definition is_base64 :: "string \<Rightarrow> bool" where
  "is_base64 s \<longleftrightarrow> list_all (\<lambda>c. is_alnum c \<or> c \<in> {CHR ''+'', CHR ''/'', CHR ''='', CHR ''-'', CHR ''_''}) s"

text \<open>One line of a text. The state is the length of the body read so far inside a block.\<close>

definition pem_line :: "string \<Rightarrow> nat option \<Rightarrow> bool \<times> nat option" where
  "pem_line t block =
     (case block of
        None \<Rightarrow>
          (False, case split_once pem_head t of
                    Some (_, after) \<Rightarrow> if str_contains after pem_tail then Some 0 else None
                  | None \<Rightarrow> None)
      | Some body \<Rightarrow>
          if str_contains t pem_end \<and> str_contains t pem_tail then (64 \<le> body, None)
          else if t = [] \<or> body = 0 \<and> str_contains t '': '' then (False, Some body)
          else if is_base64 t then (False, Some (body + length t))
          else (False, None))"

fun pem_scan :: "string list \<Rightarrow> nat option \<Rightarrow> bool" where
  "pem_scan [] block = False"
| "pem_scan (l # ls) block = (case pem_line (trim_space l) block of (found, block) \<Rightarrow> if found then True else pem_scan ls block)"

definition pem_lines :: "string \<Rightarrow> string list" where
  "pem_lines s = concat (map (split_sep [CHR 0x5C, CHR ''n''] [] 0) (split_on (char_of (10 :: nat)) s))"

definition has_private_key_block :: "string \<Rightarrow> bool" where
  "has_private_key_block s = pem_scan (pem_lines s) None"

definition token_checks :: "(string \<times> nat \<times> string) list" where
  "token_checks = [(''AKIA'', 16, ''aws-access-key''), (''ghp_'', 36, ''github-token''), (''xoxb-'', 20, ''slack-token''),
     (''sk-'', 32, ''api-key'')]"

definition scan_secrets :: "string \<Rightarrow> string list" where
  "scan_secrets s =
     (if has_private_key_block s then [''private-key-block''] else []) @
     map (\<lambda>(p, n, l). l) (filter (\<lambda>(p, n, l). token_after p n s) token_checks)"

definition scope_secrets_to_changes :: "flags \<Rightarrow> flat \<Rightarrow> flat \<Rightarrow> flags" where
  "scope_secrets_to_changes f flat base =
     (case fl_secrets f of
        None \<Rightarrow> f
      | Some ss \<Rightarrow>
          (let ss = filter (\<lambda>s. map_of base (sm_path s) \<noteq> map_of flat (sm_path s)) ss
           in f\<lparr>fl_secrets := (if ss = [] then None else Some ss)\<rparr>))"

section \<open>Large files\<close>

type_synonym chunk_store = "oid \<rightharpoonup> bytes"

function mib_chunks :: "bytes \<Rightarrow> bytes list" where
  "mib_chunks bs = (if bs = [] then [] else take 1048576 bs # mib_chunks (drop 1048576 bs))"
  by pat_completeness auto
termination by (relation "measure length") auto

declare mib_chunks.simps [simp del]

definition put_chunk :: "ext \<Rightarrow> bytes \<Rightarrow> chunk_store \<times> oid list \<Rightarrow> chunk_store \<times> oid list" where
  "put_chunk x c acc =
     (let i = chunk_id (ext_blake x) c
      in ((case fst acc i of None \<Rightarrow> (fst acc)(i \<mapsto> c) | Some _ \<Rightarrow> fst acc), snd acc @ [i]))"

definition artifact_put :: "ext \<Rightarrow> objs \<times> chunk_store \<Rightarrow> bytes \<Rightarrow> (objs \<times> chunk_store) \<times> oid" where
  "artifact_put x st bs =
     (case fold (put_chunk x) (mib_chunks bs) (snd st, []) of
        (cs, is) \<Rightarrow>
          (case obj_put (ext_hash x) (fst st)
                  (OArtifact \<lparr>art_hash = artifact_content_hash (ext_blake x) bs, art_size = of_nat (length bs), art_chunks = is\<rparr>) of
             (s, i) \<Rightarrow> ((s, cs), i)))"

fun as_artifact :: "obj \<Rightarrow> artifact option" where
  "as_artifact (OArtifact a) = Some a"
| "as_artifact _ = None"

text \<open>The bytes that materializing writes for a large file.\<close>

definition artifact_bytes :: "ext \<Rightarrow> objs \<times> chunk_store \<Rightarrow> oid \<Rightarrow> bytes res" where
  "artifact_bytes x st i =
     rbind (obj_get (ext_hash x) as_artifact (fst st) i) (\<lambda>a.
     rbind (rmap (\<lambda>c. of_opt (NotFound c) (snd st c)) (art_chunks a)) (\<lambda>cs. Inr (concat cs)))"

section \<open>The walk\<close>

record snap_state =
  sn_objs :: objs
  sn_chunks :: chunk_store
  sn_flat :: flat
  sn_secrets :: "secret_match list"
  sn_collisions :: "string list list"
  sn_unportable :: "string list"

definition plain_leaf :: "entry_kind \<Rightarrow> oid option \<Rightarrow> conflict_term list option \<Rightarrow> leaf" where
  "plain_leaf k i ts = \<lparr>lf_kind = k, lf_mode = None, lf_ref = i, lf_terms = ts\<rparr>"

definition snap_leaf :: "string \<Rightarrow> leaf \<Rightarrow> snap_state \<Rightarrow> snap_state" where
  "snap_leaf rel l st = st\<lparr>sn_flat := bt_insert rel l (sn_flat st)\<rparr>"

definition snap_blob :: "ext \<Rightarrow> string \<Rightarrow> bytes \<Rightarrow> (oid \<Rightarrow> leaf) \<Rightarrow> snap_state \<Rightarrow> snap_state" where
  "snap_blob x rel bs mk st =
     (case obj_put (ext_hash x) (sn_objs st) (OBlob bs) of (s, i) \<Rightarrow> snap_leaf rel (mk i) (st\<lparr>sn_objs := s\<rparr>))"

definition snap_content :: "ext \<Rightarrow> tracking_rules \<Rightarrow> string \<Rightarrow> bytes \<Rightarrow> bool \<Rightarrow> snap_state \<Rightarrow> snap_state" where
  "snap_content x rules rel bs executable st =
     (let is_txt = is_text bs;
          bs = (if tr_eol rules = ''lf'' \<and> is_txt then normalize_eol bs else bs);
          hits = (if is_txt \<and> valid_utf8 bs then scan_secrets (chars_of bs) else []);
          st = st\<lparr>sn_secrets := sn_secrets st @ map (\<lambda>h. \<lparr>sm_path = rel, sm_pattern = h\<rparr>) hits\<rparr>;
          threshold = (case tr_artifact_threshold rules of None \<Rightarrow> 8388608 | Some t \<Rightarrow> unat t)
      in if threshold < length bs
         then (case artifact_put x (sn_objs st, sn_chunks st) bs of
                 ((s, cs), i) \<Rightarrow> snap_leaf rel (plain_leaf KArtifact (Some i) None) (st\<lparr>sn_objs := s, sn_chunks := cs\<rparr>))
         else snap_blob x rel bs (\<lambda>i. leaf_file i executable) st)"

definition snap_file ::
  "ext \<Rightarrow> (bytes \<Rightarrow> conflict_term list res) \<Rightarrow> tracking_rules \<Rightarrow> listing \<Rightarrow> string \<Rightarrow> string \<Rightarrow> bytes \<Rightarrow> bool \<Rightarrow>
     snap_state \<Rightarrow> snap_state res" where
  "snap_file x de rules es name rel bs executable st =
     (case map_of es (name @ sidecar_suffix) of
        Some (FsFile side _) \<Rightarrow>
          rbind (de side) (\<lambda>ts. Inr (snap_leaf rel (plain_leaf KConflict None (Some ts)) st))
      | Some (FsDir _) \<Rightarrow> Inl Other
      | _ \<Rightarrow> Inr (snap_content x rules rel bs executable st))"

fun is_fsdir :: "fsnode \<Rightarrow> bool" where
  "is_fsdir (FsDir _) = True"
| "is_fsdir _ = False"

lemma listing_size [termination_simp]: "(name, FsDir es') \<in> set es \<Longrightarrow> size_list (size_prod (\<lambda>_. 0) size) es' < size_list (size_prod (\<lambda>_. 0) size) es"
  by (induction es) auto

definition note_entry :: "tracking_rules \<Rightarrow> string \<Rightarrow> string \<Rightarrow> snap_state \<Rightarrow> snap_state" where
  "note_entry rules name rel st =
     (if tr_portable_names rules \<and> unportable name then st\<lparr>sn_unportable := sn_unportable st @ [rel]\<rparr> else st)"

definition note_listing :: "tracking_rules \<Rightarrow> listing \<Rightarrow> snap_state \<Rightarrow> snap_state" where
  "note_listing rules es st =
     (if tr_case rules = ''check'' then st\<lparr>sn_collisions := sn_collisions st @ case_groups (map fst es)\<rparr> else st)"

function walk_dir ::
  "ext \<Rightarrow> (bytes \<Rightarrow> conflict_term list res) \<Rightarrow> tracking_rules \<Rightarrow> string \<Rightarrow> listing \<Rightarrow> snap_state \<Rightarrow> snap_state res" where
  "walk_dir x de rules pre es st =
     rfold (\<lambda>(name, n) st.
         if skipped_name name \<or> ignored rules (slashes (join_path pre name)) (is_fsdir n) then Inr st
         else (case n of
                 FsLink target \<Rightarrow>
                   Inr (snap_blob x (slashes (join_path pre name)) target (\<lambda>i. plain_leaf Symlink (Some i) None)
                     (note_entry rules name (slashes (join_path pre name)) st))
               | FsDir es' \<Rightarrow>
                   walk_dir x de rules (join_path pre name) es' (note_entry rules name (slashes (join_path pre name)) st)
               | FsFile bs executable \<Rightarrow>
                   snap_file x de rules es name (slashes (join_path pre name)) bs executable
                     (note_entry rules name (slashes (join_path pre name)) st)))
       (sort_key fst es) (note_listing rules (sort_key fst es) st)"
  by pat_completeness auto
termination
  by (relation "measure (\<lambda>(x, de, rules, pre, es, st). size_list (size_prod (\<lambda>_. 0) size) es)") (auto intro: listing_size)

declare walk_dir.simps [simp del]

section \<open>Snapshots\<close>

record snapshot_outcome =
  so_tree :: oid
  so_flat :: flat
  so_flags :: flags
  so_files :: nat

definition out_of_scope :: "string list option \<Rightarrow> flat option \<Rightarrow> flat \<Rightarrow> string list option" where
  "out_of_scope scope base flat =
     (case (scope, base) of
        (Some sc, Some b) \<Rightarrow>
          (let out = map fst (filter (\<lambda>(p, l). map_of b p \<noteq> Some l \<and> \<not> any_match sc p) flat) @
                 filter (\<lambda>p. map_of flat p = None \<and> \<not> any_match sc p) (map fst b)
           in if out = [] then None else Some (sort out))
      | _ \<Rightarrow> None)"

definition some_unless_empty :: "'a list \<Rightarrow> 'a list option" where
  "some_unless_empty xs = (if xs = [] then None else Some xs)"

definition snapshot_dir ::
  "ext \<Rightarrow> (bytes \<Rightarrow> conflict_term list res) \<Rightarrow> objs \<times> chunk_store \<Rightarrow> listing \<Rightarrow> tracking_rules \<Rightarrow> string list option \<Rightarrow>
     flat option \<Rightarrow> ((objs \<times> chunk_store) \<times> snapshot_outcome) res" where
  "snapshot_dir x de store d rules scope base =
     rbind (walk_dir x de rules [] d \<lparr>sn_objs = fst store, sn_chunks = snd store, sn_flat = [], sn_secrets = [],
         sn_collisions = [], sn_unportable = []\<rparr>) (\<lambda>st.
     case build_tree x (sn_objs st) (sn_flat st) of
       (s, i) \<Rightarrow> Inr ((s, sn_chunks st),
         \<lparr>so_tree = i, so_flat = sn_flat st,
          so_flags = \<lparr>fl_out_of_scope = out_of_scope scope base (sn_flat st),
            fl_secrets = some_unless_empty (sn_secrets st), fl_case_collisions = some_unless_empty (sn_collisions st),
            fl_unportable_names = some_unless_empty (sn_unportable st), fl_generated_drift = None\<rparr>,
          so_files = length (sn_flat st)\<rparr>))"

text \<open>Every tracked file, with the path it is found at.\<close>

function tracked_in :: "tracking_rules \<Rightarrow> string \<Rightarrow> listing \<Rightarrow> (string \<times> string) list" where
  "tracked_in rules pre es =
     concat (map (\<lambda>(name, n).
         if skipped_name name \<or> ignored rules (slashes (join_path pre name)) (is_fsdir n) then []
         else (case n of
                 FsLink _ \<Rightarrow> []
               | FsDir es' \<Rightarrow> tracked_in rules (join_path pre name) es'
               | FsFile _ _ \<Rightarrow> [(slashes (join_path pre name), join_path pre name)]))
       (sort_key fst es))"
  by pat_completeness auto
termination
  by (relation "measure (\<lambda>(rules, pre, es). size_list (size_prod (\<lambda>_. 0) size) es)") (auto intro: listing_size)

declare tracked_in.simps [simp del]

definition tracked_files :: "tracking_rules \<Rightarrow> listing \<Rightarrow> (string \<times> string) list" where
  "tracked_files rules d = tracked_in rules [] d"

section \<open>Conflicts in the working copy\<close>

definition end_line :: "string \<Rightarrow> string" where
  "end_line s = (if ends_with s [char_of (10 :: nat)] then s else s @ [char_of (10 :: nat)])"

definition side_text :: "ext \<Rightarrow> objs \<Rightarrow> oid \<Rightarrow> string" where
  "side_text x s i = chars_of (case blob_of x s i of Some b \<Rightarrow> b | None \<Rightarrow> [])"

text \<open>The text of a conflict: the sides, the bases after the first one. The letter of a side is a byte.\<close>

definition side_part :: "ext \<Rightarrow> objs \<Rightarrow> conflict_term list \<Rightarrow> nat \<times> conflict_term \<Rightarrow> string \<Rightarrow> string" where
  "side_part x s removes ia out =
     (let out = end_line (out @ ''<<<<<<< side '' @ [char_of (unat (65 + of_nat (fst ia) :: u8))] @
            [char_of (10 :: nat)] @ side_text x s (ct_ref (snd ia)))
      in if fst ia = 0
         then fold (\<lambda>r out. end_line (out @ ''||||||| base'' @ [char_of (10 :: nat)] @ side_text x s (ct_ref r))) removes out @
              ''======='' @ [char_of (10 :: nat)]
         else out)"

definition conflict_text :: "ext \<Rightarrow> objs \<Rightarrow> conflict_term list \<Rightarrow> string" where
  "conflict_text x s ts =
     (let adds = filter (\<lambda>t. 0 < ct_sign t) ts; removes = filter (\<lambda>t. ct_sign t < 0) ts
      in fold (side_part x s removes) (zip [0..<length adds] adds) [] @ ''>>>>>>> end'' @ [char_of (10 :: nat)])"

end
