(* ===== verification/Workdir_Props.thy ===== *)
theory Workdir_Props
  imports Workdir "HOL-Library.Countable"
begin

text \<open>What a snapshot of a directory holds, which secrets are found, and large files.\<close>

section \<open>The paths of a snapshot\<close>

lemma rfold_collect:
  assumes "rfold f xs b = Inr b'" "P b"
    and "\<And>x b b'. x \<in> set xs \<Longrightarrow> f x b = Inr b' \<Longrightarrow> P b \<Longrightarrow> P b' \<and> keys b' = keys b \<union> g x"
  shows "P b' \<and> keys b' = keys b \<union> (\<Union>x \<in> set xs. g x)"
  using assms
proof (induction xs arbitrary: b)
  case (Cons y ys)
  from Cons.prems(1) obtain b1 where b1: "f y b = Inr b1" "rfold f ys b1 = Inr b'" by (auto simp: result_simps)
  from Cons.prems(3) [OF _ b1(1) Cons.prems(2)] have "P b1 \<and> keys b1 = keys b \<union> g y" by simp
  with Cons.IH [OF b1(2)] Cons.prems(3) show ?case by auto
qed simp

definition flat_keys_of :: "snap_state \<Rightarrow> string set" where
  "flat_keys_of st = fst ` set (sn_flat st)"

lemma snap_leaf_keys [simp]: "flat_keys_of (snap_leaf rel l st) = insert rel (flat_keys_of st)"
  using set_bt_insert [of rel l "sn_flat st"] by (simp add: flat_keys_of_def snap_leaf_def)

lemma snap_leaf_ok [simp]: "bt_ok (sn_flat st) \<Longrightarrow> bt_ok (sn_flat (snap_leaf rel l st))"
  by (simp add: snap_leaf_def)

lemma notes_flat [simp]:
  "sn_flat (note_entry rules name rel st) = sn_flat st" "sn_flat (note_listing rules es st) = sn_flat st"
  "flat_keys_of (note_entry rules name rel st) = flat_keys_of st" "flat_keys_of (note_listing rules es st) = flat_keys_of st"
  by (simp_all add: note_entry_def note_listing_def flat_keys_of_def)

lemma flat_keys_of_updates [simp]:
  "flat_keys_of (st\<lparr>sn_objs := s\<rparr>) = flat_keys_of st" "flat_keys_of (st\<lparr>sn_chunks := c\<rparr>) = flat_keys_of st"
  "flat_keys_of (st\<lparr>sn_secrets := z\<rparr>) = flat_keys_of st"
  by (simp_all add: flat_keys_of_def)

lemma snap_blob_keys:
  "flat_keys_of (snap_blob x rel bs mk st) = insert rel (flat_keys_of st)"
  "bt_ok (sn_flat st) \<Longrightarrow> bt_ok (sn_flat (snap_blob x rel bs mk st))"
  by (simp_all add: snap_blob_def split: prod.split)

lemma snap_content_keys:
  "flat_keys_of (snap_content x rules rel bs e st) = insert rel (flat_keys_of st)"
  "bt_ok (sn_flat st) \<Longrightarrow> bt_ok (sn_flat (snap_content x rules rel bs e st))"
  by (simp_all add: snap_content_def Let_def snap_blob_keys split: prod.split)

lemma snap_file_keys:
  "snap_file x de rules es name rel bs e st = Inr st' \<Longrightarrow> bt_ok (sn_flat st) \<Longrightarrow>
     bt_ok (sn_flat st') \<and> flat_keys_of st' = insert rel (flat_keys_of st)"
  by (auto simp: snap_file_def snap_content_keys result_simps split: option.splits fsnode.splits)

text \<open>The symbolic links of a directory, at the paths the walk gives them.\<close>

function links_in :: "tracking_rules \<Rightarrow> string \<Rightarrow> listing \<Rightarrow> string list" where
  "links_in rules pre es =
     concat (map (\<lambda>(name, n).
         if skipped_name name \<or> ignored rules (slashes (join_path pre name)) (is_fsdir n) then []
         else (case n of
                 FsLink _ \<Rightarrow> [slashes (join_path pre name)]
               | FsDir es' \<Rightarrow> links_in rules (join_path pre name) es'
               | FsFile _ _ \<Rightarrow> []))
       es)"
  by pat_completeness auto
termination
  by (relation "measure (\<lambda>(rules, pre, es). size_list (size_prod (\<lambda>_. 0) size) es)") (auto intro: listing_size)

declare links_in.simps [simp del]

definition passed_over :: "tracking_rules \<Rightarrow> string \<Rightarrow> string \<Rightarrow> fsnode \<Rightarrow> bool" where
  "passed_over rules pre name n \<longleftrightarrow> skipped_name name \<or> ignored rules (slashes (join_path pre name)) (is_fsdir n)"

definition entry_tracked :: "tracking_rules \<Rightarrow> string \<Rightarrow> string \<times> fsnode \<Rightarrow> (string \<times> string) list" where
  "entry_tracked rules pre = (\<lambda>(name, n).
     if passed_over rules pre name n then []
     else (case n of FsLink _ \<Rightarrow> [] | FsDir es' \<Rightarrow> tracked_in rules (join_path pre name) es'
           | FsFile _ _ \<Rightarrow> [(slashes (join_path pre name), join_path pre name)]))"

definition entry_links :: "tracking_rules \<Rightarrow> string \<Rightarrow> string \<times> fsnode \<Rightarrow> string list" where
  "entry_links rules pre = (\<lambda>(name, n).
     if passed_over rules pre name n then []
     else (case n of FsLink _ \<Rightarrow> [slashes (join_path pre name)] | FsDir es' \<Rightarrow> links_in rules (join_path pre name) es'
           | FsFile _ _ \<Rightarrow> []))"

definition walk_entry ::
  "ext \<Rightarrow> (bytes \<Rightarrow> conflict_term list res) \<Rightarrow> tracking_rules \<Rightarrow> string \<Rightarrow> listing \<Rightarrow> string \<times> fsnode \<Rightarrow> snap_state \<Rightarrow> snap_state res" where
  "walk_entry x de rules pre es = (\<lambda>(name, n) st.
     if passed_over rules pre name n then Inr st
     else (case n of
             FsLink target \<Rightarrow>
               Inr (snap_blob x (slashes (join_path pre name)) target (\<lambda>i. plain_leaf Symlink (Some i) None)
                 (note_entry rules name (slashes (join_path pre name)) st))
           | FsDir es' \<Rightarrow>
               walk_dir x de rules (join_path pre name) es' (note_entry rules name (slashes (join_path pre name)) st)
           | FsFile bs executable \<Rightarrow>
               snap_file x de rules es name (slashes (join_path pre name)) bs executable
                 (note_entry rules name (slashes (join_path pre name)) st)))"

lemma walks_by_entry:
  "tracked_in rules pre es = concat (map (entry_tracked rules pre) (sort_key fst es))"
  "links_in rules pre es = concat (map (entry_links rules pre) es)"
  "walk_dir x de rules pre es st =
     rfold (walk_entry x de rules pre es) (sort_key fst es) (note_listing rules (sort_key fst es) st)"
  unfolding entry_tracked_def entry_links_def walk_entry_def passed_over_def
  by (rule tracked_in.simps, rule links_in.simps, rule walk_dir.simps)

definition entry_paths :: "tracking_rules \<Rightarrow> string \<Rightarrow> string \<times> fsnode \<Rightarrow> string set" where
  "entry_paths rules pre e = fst ` set (entry_tracked rules pre e) \<union> set (entry_links rules pre e)"

lemma entry_paths_all:
  "(\<Union>e \<in> set es. entry_paths rules pre e) = fst ` set (tracked_in rules pre es) \<union> set (links_in rules pre es)"
  unfolding walks_by_entry(1,2) by (simp add: entry_paths_def image_UN UN_Un_distrib)

lemma walk_entry_keys:
  assumes "walk_entry x de rules pre es (name, n) st = Inr st'" "bt_ok (sn_flat st)"
    and "\<And>es' st st'. n = FsDir es' \<Longrightarrow> walk_dir x de rules (join_path pre name) es' st = Inr st' \<Longrightarrow> bt_ok (sn_flat st) \<Longrightarrow>
      bt_ok (sn_flat st') \<and> flat_keys_of st' = flat_keys_of st \<union>
        (fst ` set (tracked_in rules (join_path pre name) es') \<union> set (links_in rules (join_path pre name) es'))"
  shows "bt_ok (sn_flat st') \<and> flat_keys_of st' = flat_keys_of st \<union> entry_paths rules pre (name, n)"
proof (cases "passed_over rules pre name n")
  case True
  with assms(1,2) show ?thesis by (auto simp: walk_entry_def entry_paths_def entry_tracked_def entry_links_def)
next
  case False
  note e = walk_entry_def entry_paths_def entry_tracked_def entry_links_def
  show ?thesis
  proof (cases n)
    case (FsFile bs executable)
    with False assms(1) have "snap_file x de rules es name (slashes (join_path pre name)) bs executable
        (note_entry rules name (slashes (join_path pre name)) st) = Inr st'" by (simp add: e)
    from snap_file_keys [OF this] assms(2) False FsFile show ?thesis by (simp add: e)
  next
    case (FsLink target)
    with False assms(1,2) show ?thesis by (auto simp: e snap_blob_keys)
  next
    case (FsDir es')
    with False assms(1) have "walk_dir x de rules (join_path pre name) es'
        (note_entry rules name (slashes (join_path pre name)) st) = Inr st'" by (simp add: e)
    from assms(3) [OF FsDir this] assms(2) False FsDir show ?thesis by (simp add: e)
  qed
qed

lemma walk_dir_keys:
  "walk_dir x de rules pre es st = Inr st' \<Longrightarrow> bt_ok (sn_flat st) \<Longrightarrow>
     bt_ok (sn_flat st') \<and>
     flat_keys_of st' = flat_keys_of st \<union> (fst ` set (tracked_in rules pre es) \<union> set (links_in rules pre es))"
proof (induction "size_list (size_prod (\<lambda>_. 0) size) es" arbitrary: pre es st st' rule: less_induct)
  case less
  have "bt_ok (sn_flat st') \<and> flat_keys_of st' =
      flat_keys_of (note_listing rules (sort_key fst es) st) \<union> (\<Union>e \<in> set (sort_key fst es). entry_paths rules pre e)"
  proof (rule rfold_collect [OF less(2) [unfolded walks_by_entry(3)], where P = "\<lambda>st. bt_ok (sn_flat st)"])
    fix e b b'
    assume e: "e \<in> set (sort_key fst es)" "walk_entry x de rules pre es e b = Inr b'" "bt_ok (sn_flat b)"
    obtain name n where en: "e = (name, n)" by (cases e)
    from e(1) en have m: "(name, n) \<in> set es" by simp
    show "bt_ok (sn_flat b') \<and> flat_keys_of b' = flat_keys_of b \<union> entry_paths rules pre e"
      unfolding en
    proof (rule walk_entry_keys [OF e(2) [unfolded en] e(3)])
      fix es' st st'
      assume n: "n = FsDir es'" and r: "walk_dir x de rules (join_path pre name) es' st = Inr st'" "bt_ok (sn_flat st)"
      from listing_size [OF m [unfolded n]]
      have "size_list (size_prod (\<lambda>_. 0) size) es' < size_list (size_prod (\<lambda>_. 0) size) es" .
      from less(1) [OF this r] show "bt_ok (sn_flat st') \<and> flat_keys_of st' = flat_keys_of st \<union>
        (fst ` set (tracked_in rules (join_path pre name) es') \<union> set (links_in rules (join_path pre name) es'))" .
    qed
  qed (use less(3) in simp)
  then show ?case by (simp add: entry_paths_all)
qed

lemma outside_set:
  assumes "bt_ok flat"
  shows "set (map fst (filter (\<lambda>(p, l). map_of b p \<noteq> Some l \<and> \<not> any_match sc p) flat) @
       filter (\<lambda>p. map_of flat p = None \<and> \<not> any_match sc p) (map fst b)) =
     {p. map_of flat p \<noteq> map_of b p \<and> \<not> any_match sc p}"
proof -
  from assms have m: "(p, l) \<in> set flat \<longleftrightarrow> map_of flat p = Some l" for p l by (simp add: bt_ok_def)
  have n: "p \<in> fst ` set b \<longleftrightarrow> (\<exists>l. map_of b p = Some l)" for p
    using map_of_eq_None_iff [of b p] by auto
  have "fst ` {pl \<in> set flat. case pl of (p, l) \<Rightarrow> map_of b p \<noteq> Some l \<and> \<not> any_match sc p} =
      {p. \<exists>l. map_of flat p = Some l \<and> map_of b p \<noteq> Some l \<and> \<not> any_match sc p}"
    by (force simp: m)
  then show ?thesis by (auto simp: n)
qed


section \<open>Tokens\<close>

definition holds_token :: "string \<Rightarrow> nat \<Rightarrow> string \<Rightarrow> bool" where
  "holds_token p run s \<longleftrightarrow> (\<exists>u v. s = u @ p @ v \<and> run \<le> length (takeWhile token_char v))"

lemma split_once_Some: "split_once p s = Some (a, b) \<Longrightarrow> s = a @ p @ b"
proof (induction p s arbitrary: a b rule: split_once.induct)
  case (2 p c cs)
  show ?case
  proof (cases "starts_with (c # cs) p")
    case True
    with 2(2) have "a = []" "b = drop (length p) (c # cs)" by auto
    with True show ?thesis by (metis append_Nil append_take_drop_id starts_with_def)
  next
    case False
    with 2(2) obtain a' where "split_once p cs = Some (a', b)" "a = c # a'" by auto
    with 2(1) [OF False] show ?thesis by simp
  qed
qed (auto split: if_splits)

lemma split_once_hit: "starts_with s p \<Longrightarrow> split_once p s = Some ([], drop (length p) s)"
  by (cases s) (auto simp: starts_with_def)

lemma split_once_first: "split_once p (u @ p @ v) \<noteq> None"
proof (induction u)
  case Nil
  show ?case using split_once_hit [of "p @ v" p] by (simp add: starts_with_def)
next
  case (Cons c u)
  then show ?case by (auto simp del: not_None_eq)
qed

text \<open>The first occurrence is at or before any other, so what follows it holds what follows the other.\<close>

lemma split_once_earliest: "split_once p (u @ p @ v) = Some (a, b) \<Longrightarrow> length a \<le> length u"
proof (induction u arbitrary: a)
  case Nil
  then show ?case using split_once_hit [of "p @ v" p] by (simp add: starts_with_def)
qed (auto split: if_splits)

lemma run_mono:
  assumes "w @ v = x @ p @ y" "length x < length w" "length w < length x + length p" "list_all token_char p"
  shows "length (takeWhile token_char y) \<le> length (takeWhile token_char v)"
proof -
  define k where "k = length w - length x"
  have "v = drop (length w) (x @ p @ y)" using assms(1) by (metis append_eq_conv_conj)
  then have "v = drop k p @ y" using assms(2,3) by (simp add: k_def)
  moreover have "\<forall>c \<in> set (drop k p). token_char c" using assms(4) by (auto simp: list_all_iff dest: in_set_dropD)
  ultimately show ?thesis by (simp add: takeWhile_append)
qed

text \<open>The search skips what a prefix covers; as every prefix is made of token characters, it misses nothing.\<close>

lemma token_after_iff:
  assumes "p \<noteq> []" "list_all token_char p"
  shows "token_after p run s \<longleftrightarrow> holds_token p run s"
proof (induction "length s" arbitrary: s rule: less_induct)
  case less
  show ?case
  proof (cases "split_once p s")
    case None
    then have "\<not> holds_token p run s" using split_once_first unfolding holds_token_def by blast
    with None show ?thesis by (subst token_after.simps) simp
  next
    case (Some ab)
    obtain a b where ab: "split_once p s = Some (a, b)" using Some by (cases ab) simp
    from split_once_Some [OF ab] have s: "s = a @ p @ b" .
    have step: "token_after p run s \<longleftrightarrow> run \<le> length (takeWhile token_char b) \<or> token_after p run b"
      using assms(1) ab by (subst token_after.simps) simp
    have ih: "token_after p run b \<longleftrightarrow> holds_token p run b"
      using less split_once_shorter [OF ab assms(1)] by blast
    have "holds_token p run s" if "holds_token p run b"
    proof -
      from that obtain u v where "b = u @ p @ v" "run \<le> length (takeWhile token_char v)" by (auto simp: holds_token_def)
      then show ?thesis unfolding holds_token_def s by (intro exI [of _ "a @ p @ u"] exI [of _ v]) simp
    qed
    moreover have "run \<le> length (takeWhile token_char b) \<or> holds_token p run b" if "holds_token p run s"
    proof -
      from that obtain u v where uv: "s = u @ p @ v" "run \<le> length (takeWhile token_char v)" by (auto simp: holds_token_def)
      with ab split_once_earliest have le: "length a \<le> length u" by metis
      consider "u = a" | "length a < length u" "length u < length (a @ p)" | "length (a @ p) \<le> length u"
        using le uv(1) s by (metis append_eq_append_conv linorder_le_less_linear order_le_less)
      then show ?thesis
      proof cases
        case 1
        with uv s show ?thesis by simp
      next
        case 2
        have "(a @ p) @ b = u @ p @ v" using s uv(1) by simp
        show ?thesis
        proof (cases "b = []")
          case True
          with 2 s uv(1) show ?thesis by (metis append_Nil2 length_append less_not_refl nat_add_left_cancel_less add_less_cancel_right trans_less_add1)
        next
          case False
          from run_mono [OF \<open>(a @ p) @ b = u @ p @ v\<close>] 2 assms(2) uv(2) show ?thesis by simp
        qed
      next
        case 3
        define w where "w = drop (length (a @ p)) u"
        have "u = (a @ p) @ w" using 3 s uv(1) unfolding w_def
          by (metis append_assoc append_eq_append_conv_if append_take_drop_id)
        with s uv show ?thesis unfolding holds_token_def by auto
      qed
    qed
    moreover have "holds_token p run s" if "run \<le> length (takeWhile token_char b)"
      using that s by (auto simp: holds_token_def)
    ultimately show ?thesis using step ih by blast
  qed
qed

text \<open>
  The scanner reports each kind of token exactly when its prefix stands somewhere in the text before a run
  of token characters of the length that kind needs, each kind once.
\<close>

theorem token_scan_exact:
  assumes "(p, run, label) \<in> set token_checks"
  shows "(label \<in> set (scan_secrets s) \<longleftrightarrow> (\<exists>u v. s = u @ p @ v \<and> run \<le> length (takeWhile token_char v))) \<and>
    distinct (scan_secrets s)"
proof -
  have tc: "p \<noteq> [] \<and> list_all token_char p" if "(p, run, label) \<in> set token_checks" for p run label
    using that by (auto simp: token_checks_def token_char_def is_alnum_def)
  have d: "distinct (map (\<lambda>(p, n, l). l) token_checks)" by (simp add: token_checks_def)
  have np: "label \<noteq> ''private-key-block''" if "(p, run, label) \<in> set token_checks" for p run label
    using that by (auto simp: token_checks_def)
  have "label \<in> set (scan_secrets s) \<longleftrightarrow> (\<exists>p' run'. (p', run', label) \<in> set token_checks \<and> token_after p' run' s)"
    using np [OF assms] by (force simp: scan_secrets_def)
  also have "\<dots> \<longleftrightarrow> token_after p run s"
    using assms d by (auto simp: distinct_map inj_on_def)
  also have "\<dots> \<longleftrightarrow> holds_token p run s" using token_after_iff tc [OF assms] by blast
  finally show ?thesis using d np
    by (auto simp: holds_token_def scan_secrets_def distinct_map inj_on_def)
qed

section \<open>Large files\<close>

lemma mib_chunks_concat: "concat (mib_chunks bs) = bs"
  by (induction bs rule: mib_chunks.induct) (subst mib_chunks.simps, simp)

definition chunks_ok :: "ext \<Rightarrow> chunk_store \<Rightarrow> bool" where
  "chunks_ok x cs \<longleftrightarrow> (\<forall>i c. cs i = Some c \<longrightarrow> chunk_id (ext_blake x) c = i)"

lemma put_chunks:
  assumes "inj (chunk_id (ext_blake x))" "chunks_ok x cs" "fold (put_chunk x) bss (cs, is) = (cs', is')"
  shows "chunks_ok x cs' \<and> cs \<subseteq>\<^sub>m cs' \<and>
    (\<exists>new. is' = is @ new \<and> rmap (\<lambda>c. of_opt (NotFound c) (cs' c)) new = Inr bss)"
  using assms(2,3)
proof (induction bss arbitrary: cs "is")
  case (Cons c bss)
  let ?i = "chunk_id (ext_blake x) c"
  define cs1 where "cs1 = (case cs ?i of None \<Rightarrow> cs(?i \<mapsto> c) | Some _ \<Rightarrow> cs)"
  have c1: "cs1 ?i = Some c" "chunks_ok x cs1" "cs \<subseteq>\<^sub>m cs1"
  proof -
    have "cs ?i = Some c' \<Longrightarrow> c' = c" for c' using Cons.prems(1) assms(1) unfolding chunks_ok_def by (metis injD)
    then show "cs1 ?i = Some c" by (auto simp: cs1_def split: option.split)
    show "chunks_ok x cs1" "cs \<subseteq>\<^sub>m cs1"
      using Cons.prems(1) by (auto simp: cs1_def chunks_ok_def map_le_def split: option.splits)
  qed
  have "put_chunk x c (cs, is) = (cs1, is @ [?i])" by (simp add: put_chunk_def Let_def cs1_def split: option.split)
  with Cons.prems(2) have "fold (put_chunk x) bss (cs1, is @ [?i]) = (cs', is')" by simp
  from Cons.IH [OF c1(2) this] c1(3) obtain new where "chunks_ok x cs'" "cs1 \<subseteq>\<^sub>m cs'" "is' = is @ [?i] @ new"
    "rmap (\<lambda>c. of_opt (NotFound c) (cs' c)) new = Inr bss" by auto
  moreover from this(2) c1(1) have "cs' ?i = Some c" by (metis domI map_le_def)
  ultimately show ?case using c1(3) by (auto intro: map_le_trans exI [of _ "?i # new"])
qed (auto simp: map_le_def)

text \<open>
  A large file is read back as it was stored, whatever its length, and storing it loses no chunk and no
  object that was there before.
\<close>

theorem artifact_round_trip:
  assumes "inj (chunk_id (ext_blake x))" "chunks_ok x cs" "objs_ok (ext_hash x) s"
    and "\<And>y a. ext_hash x y = ext_hash x (OArtifact a) \<Longrightarrow> y = OArtifact a"
    and "artifact_put x (s, cs) bs = ((s', cs'), i)"
  shows "artifact_bytes x (s', cs') i = Inr bs \<and> s \<subseteq>\<^sub>m s' \<and> cs \<subseteq>\<^sub>m cs'"
proof -
  obtain "is" where f: "fold (put_chunk x) (mib_chunks bs) (cs, []) = (cs', is)"
    and p: "obj_put (ext_hash x) s (OArtifact \<lparr>art_hash = artifact_content_hash (ext_blake x) bs,
      art_size = of_nat (length bs), art_chunks = is\<rparr>) = (s', i)"
    using assms(5) by (auto simp: artifact_put_def split: prod.splits)
  from put_chunks [OF assms(1,2) f] have c: "cs \<subseteq>\<^sub>m cs'"
    "rmap (\<lambda>c. of_opt (NotFound c) (cs' c)) is = Inr (mib_chunks bs)" by auto
  from obj_put_stored [OF assms(3) assms(4)] p
  have "s' i = Some (OArtifact \<lparr>art_hash = artifact_content_hash (ext_blake x) bs, art_size = of_nat (length bs), art_chunks = is\<rparr>)"
    "i = ext_hash x (OArtifact \<lparr>art_hash = artifact_content_hash (ext_blake x) bs, art_size = of_nat (length bs), art_chunks = is\<rparr>)"
    unfolding obj_put_def by (metis fst_conv snd_conv)+
  then have o: "obj_get (ext_hash x) as_artifact s' i = Inr \<lparr>art_hash = artifact_content_hash (ext_blake x) bs,
      art_size = of_nat (length bs), art_chunks = is\<rparr>"
    by (simp add: obj_get_Inr_iff)
  have "s \<subseteq>\<^sub>m s'" using p by (auto simp: obj_put_def map_le_def split: option.splits)
  then show ?thesis using o c by (simp add: artifact_bytes_def mib_chunks_concat)
qed

section \<open>Where the code falls short\<close>

text \<open>Line ends are not settled after one snapshot: what is written back is normalized again.\<close>

lemma eol_not_settled: "normalize_eol [13, 13, 10] = [13, 10] \<and> normalize_eol (normalize_eol [13, 13, 10]) = [10]"
  by (simp add: normalize_eol_def)

text \<open>A key whose first line follows a mere mention of such a line is not found.\<close>

definition key_lines :: "string list" where
  "key_lines = [pem_head @ pem_tail, replicate 64 (CHR ''A''), pem_end @ pem_tail]"

lemma mentioned_key_missed:
  "pem_scan key_lines None \<and> \<not> pem_scan ((pem_head @ pem_tail) # [] # key_lines) None"
  by code_simp

text \<open>A directory with a file outside the scope, a text with a token, and a hash without collisions among artifacts.\<close>

lemma token_scan_exact_witness: "''api-key'' \<in> set (scan_secrets (''k = sk-'' @ replicate 40 (CHR ''a'') @ '' end''))"
proof -
  have c: "(''sk-'', 32, ''api-key'') \<in> set token_checks" by (simp add: token_checks_def)
  have t: "token_char (CHR ''a'')" by (simp add: token_char_def is_alnum_def)
  have "32 \<le> length (takeWhile token_char (replicate 40 (CHR ''a'') @ '' end''))"
    by (subst takeWhile_append2) (use t in \<open>auto simp: set_replicate_conv_if split: if_splits\<close>)
  then have "\<exists>u v. ''k = sk-'' @ replicate 40 (CHR ''a'') @ '' end'' = u @ ''sk-'' @ v \<and> 32 \<le> length (takeWhile token_char v)"
    by (intro exI [of _ "''k = ''"] exI [of _ "replicate 40 (CHR ''a'') @ '' end''"]) simp
  with token_scan_exact [OF c] show ?thesis by blast
qed

definition artifact_code :: "artifact \<Rightarrow> nat" where
  "artifact_code a = to_nat (art_hash a, uint (art_size a), art_chunks a)"

lemma artifact_code_inject: "artifact_code a = artifact_code b \<Longrightarrow> a = b"
  by (cases a; cases b) (auto simp: artifact_code_def intro: unsigned_word_eqI)

fun artifact_hash :: "obj \<Rightarrow> oid" where
  "artifact_hash (OArtifact a) = 1 # replicate (artifact_code a) 0"
| "artifact_hash _ = [0]"

lemma artifact_hash_sound: "artifact_hash y = artifact_hash (OArtifact a) \<Longrightarrow> y = OArtifact a"
  by (cases y) (auto dest: artifact_code_inject)

definition artifact_ext :: ext where
  "artifact_ext = sample_ext\<lparr>ext_hash := artifact_hash\<rparr>"

lemma artifact_ext_simps [simp]: "ext_hash artifact_ext = artifact_hash" "ext_blake artifact_ext = id"
  by (simp_all add: artifact_ext_def sample_ext_def)

lemma artifact_round_trip_witness:
  "\<exists>s cs i. artifact_put artifact_ext (Map.empty, Map.empty) [1, 2, 3] = ((s, cs), i) \<and>
     artifact_bytes artifact_ext (s, cs) i = Inr [1, 2, 3]"
proof -
  obtain s cs i where p: "artifact_put artifact_ext (Map.empty, Map.empty) [1, 2, 3] = ((s, cs), i)"
    by (metis surj_pair)
  have "artifact_bytes artifact_ext (s, cs) i = Inr [1, 2, 3] \<and> Map.empty \<subseteq>\<^sub>m s \<and> Map.empty \<subseteq>\<^sub>m cs"
  proof (rule artifact_round_trip [OF _ _ _ _ p])
    show "inj (chunk_id (ext_blake artifact_ext))" by (simp add: inj_def chunk_id_def object_id_def)
    show "chunks_ok artifact_ext Map.empty" by (simp add: chunks_ok_def)
    show "objs_ok (ext_hash artifact_ext) Map.empty" by (simp add: objs_ok_def)
    show "ext_hash artifact_ext y = ext_hash artifact_ext (OArtifact a) \<Longrightarrow> y = OArtifact a" for y a
      by (simp add: artifact_hash_sound)
  qed
  with p show ?thesis by blast
qed

definition small_dir :: listing where
  "small_dir = [(''a'', FsFile [97] False)]"

lemma small_dir_snapshot:
  "\<exists>st' out. snapshot_dir artifact_ext (\<lambda>_. Inl Decode) (Map.empty, Map.empty) small_dir default_rules (Some [''src'']) (Some []) = Inr (st', out)"
proof -
  have "\<exists>st'. walk_dir artifact_ext (\<lambda>_. Inl Decode) default_rules [] small_dir st = Inr st'" for st
    by (subst walk_dir.simps) (simp add: small_dir_def snap_file_def sidecar_suffix_def)
  then obtain st where w: "walk_dir artifact_ext (\<lambda>_. Inl Decode) default_rules [] small_dir \<lparr>sn_objs = Map.empty, sn_chunks = Map.empty,
      sn_flat = [], sn_secrets = [], sn_collisions = [], sn_unportable = []\<rparr> = Inr st" by blast
  obtain s i where b: "build_tree artifact_ext (sn_objs st) (sn_flat st) = (s, i)" by fastforce
  have "snapshot_dir artifact_ext (\<lambda>_. Inl Decode) (Map.empty, Map.empty) small_dir default_rules (Some [''src'']) (Some []) =
      Inr ((s, sn_chunks st), \<lparr>so_tree = i, so_flat = sn_flat st,
          so_flags = \<lparr>fl_out_of_scope = out_of_scope (Some [''src'']) (Some []) (sn_flat st),
            fl_secrets = some_unless_empty (sn_secrets st), fl_case_collisions = some_unless_empty (sn_collisions st),
            fl_unportable_names = some_unless_empty (sn_unportable st), fl_generated_drift = None\<rparr>,
          so_files = length (sn_flat st)\<rparr>)"
    by (simp add: snapshot_dir_def w b)
  then show ?thesis by blast
qed


end
