(* ===== verification/Principals.thy ===== *)
theory Principals
  imports Workdir Build Oplog
begin

text \<open>
  Principals of the daemon: \<open>crates/tessra-daemon/src/principals.rs\<close>.

  The files beside the keys are maps from directory and name to their text and to keys. \<open>hex_read\<close> reads a
  hash or an id written in hexadecimal, a library's; \<open>nonce\<close> is the random id of a capability. Creating
  agents, sessions and grants, which write these files around one operation each, is not here.
\<close>

section \<open>Actors and credentials\<close>

record actor =
  ac_signer :: signer
  ac_cap :: "oid option"
  ac_write_paths :: "string list option"
  ac_workspace :: "eid option"
  ac_kind :: string
  ac_credentialed :: bool

text \<open>The hash of a credential, before it is written in hexadecimal.\<close>

definition credential_hash :: "(bytes \<Rightarrow> bytes) \<Rightarrow> string \<Rightarrow> bytes" where
  "credential_hash blake secret = blake (ascii (trim_space secret))"

definition credential_matches :: "(bytes \<Rightarrow> bytes) \<Rightarrow> (string \<Rightarrow> bytes option) \<Rightarrow> string \<Rightarrow> string \<Rightarrow> bool" where
  "credential_matches blake hex_read on_file presented =
     (case hex_read (trim_space on_file) of
        Some h \<Rightarrow> h = credential_hash blake presented
      | None \<Rightarrow> False)"

definition owner_credential_ok ::
  "(bytes \<Rightarrow> bytes) \<Rightarrow> (string \<Rightarrow> bytes option) \<Rightarrow> string option \<Rightarrow> string option \<Rightarrow> bool" where
  "owner_credential_ok blake hex_read on_file presented =
     (case presented of
        None \<Rightarrow> False
      | Some p \<Rightarrow> (case on_file of Some s \<Rightarrow> credential_matches blake hex_read s p | None \<Rightarrow> False))"

definition safe_name :: "string \<Rightarrow> string" where
  "safe_name name = map (\<lambda>c. if is_alnum c \<or> c = CHR ''-'' \<or> c = CHR ''_'' then c else CHR ''_'') name"

section \<open>Who a principal is\<close>

definition resolved :: "ext \<Rightarrow> oplog \<Rightarrow> eid \<Rightarrow> principal option" where
  "resolved x lg i =
     (case current_view x lg of
        Inl _ \<Rightarrow> None
      | Inr (s, v) \<Rightarrow> (case resolve_principal x s v i of Inr (Some (_, p)) \<Rightarrow> Some p | _ \<Rightarrow> None))"

definition principal_name :: "ext \<Rightarrow> oplog \<Rightarrow> eid \<Rightarrow> string option" where
  "principal_name x lg i =
     Option.bind (resolved x lg i) (\<lambda>p.
     if prin_kind p = ''session''
     then Option.bind (prin_parent p) (\<lambda>a. map_option prin_name (resolved x lg a))
     else Some (prin_name p))"

definition session_agent :: "ext \<Rightarrow> oplog \<Rightarrow> eid \<Rightarrow> eid option" where
  "session_agent x lg session =
     Option.bind (resolved x lg session) (\<lambda>p. if prin_kind p = ''session'' then prin_parent p else None)"

definition is_revoked :: "ext \<Rightarrow> oplog \<Rightarrow> eid \<Rightarrow> bool" where
  "is_revoked x lg i =
     (case current_view x lg of
        Inl _ \<Rightarrow> False
      | Inr (s, v) \<Rightarrow> (case principal_revoked (ext_hash x) s v i of Inr b \<Rightarrow> b | Inl _ \<Rightarrow> False))"

section \<open>The grant of a session\<close>

record grant_template =
  gt_verbs :: "string list"
  gt_paths :: "string list"
  gt_delegable :: bool
  gt_ops :: "u64 option"

record assignment =
  as_agent :: eid
  as_intent :: eid
  as_title :: string
  as_paths :: "string list"
  as_units :: "string list"
  as_ops :: u64

definition effective_write_paths :: "assignment option \<Rightarrow> grant_template option \<Rightarrow> string list \<Rightarrow> string list" where
  "effective_write_paths assigned template asked =
     (let granted = (case template of Some t \<Rightarrow> if gt_paths t \<noteq> [] then gt_paths t else asked | None \<Rightarrow> asked)
      in case assigned of Some a \<Rightarrow> if as_paths a \<noteq> [] then as_paths a else granted | None \<Rightarrow> granted)"

definition default_capability :: "eid \<Rightarrow> eid \<Rightarrow> string list \<Rightarrow> eid \<Rightarrow> int \<Rightarrow> capability" where
  "default_capability issuer subject write_paths nonce time =
     \<lparr>cap_issuer = issuer, cap_subject = subject,
      cap_verbs = [''attest'', ''edit'', ''promote'', ''remember'', ''try'', ''verify''],
      cap_write = \<lparr>wsc_roots = Some [''''], wsc_paths = Some write_paths, wsc_nodes = None, wsc_lines = None,
        wsc_targets = None, wsc_stages = Some [''proposed''],
        wsc_memory_scopes = Some [''node'', ''path'', ''intent'', ''root'']\<rparr>,
      cap_read = \<lparr>rsc_roots = Some [''''], rsc_paths = Some [''**''], rsc_memory = Some ''shared''\<rparr>,
      cap_hard = Some [(''ops'', 10000), (''workspaces'', 8)], cap_advisory = None, cap_delegable = False,
      cap_parent = None, cap_nonce = nonce, cap_time = time, cap_sig = None\<rparr>"

definition set_hard_ops :: "u64 \<Rightarrow> capability \<Rightarrow> capability" where
  "set_hard_ops n c = c\<lparr>cap_hard := Some (bt_insert ''ops'' (max n 1) (case cap_hard c of None \<Rightarrow> [] | Some h \<Rightarrow> h))\<rparr>"

text \<open>What the grant of the owner adds to the default, and the budget of the planner's assignment.\<close>

definition apply_template :: "grant_template \<Rightarrow> capability \<Rightarrow> capability" where
  "apply_template t c =
     (let verbs = sort (fold (\<lambda>v vs. if v \<in> set vs then vs else vs @ [v]) (gt_verbs t) (cap_verbs c));
          c = c\<lparr>cap_verbs := verbs, cap_delegable := gt_delegable t\<rparr>
      in case gt_ops t of None \<Rightarrow> c | Some n \<Rightarrow> set_hard_ops n c)"

definition session_capability ::
  "eid \<Rightarrow> eid \<Rightarrow> assignment option \<Rightarrow> grant_template option \<Rightarrow> string list \<Rightarrow> eid \<Rightarrow> int \<Rightarrow> capability" where
  "session_capability issuer session assigned template asked nonce time =
     (let c = default_capability issuer session (effective_write_paths assigned template asked) nonce time;
          c = (case template of None \<Rightarrow> c | Some t \<Rightarrow> apply_template t c)
      in case assigned of None \<Rightarrow> c | Some a \<Rightarrow> set_hard_ops (as_ops a) c)"

section \<open>Acting as a human or an external\<close>

datatype open_error = NoPrincipal | Damaged | NoCredential | CredentialMissing | CredentialBad | KeyUnreadable

text \<open>\<open>str::lines\<close>: the text after the last newline counts only when there is any.\<close>

definition text_lines :: "string \<Rightarrow> string list" where
  "text_lines s = (let ls = split_on (char_of (10 :: nat)) s in if last ls = [] then butlast ls else ls)"

definition letters_at :: "string \<Rightarrow> eid option" where
  "letters_at l = (case from_letters (ascii (trim_space l)) of Inr i \<Rightarrow> Some i | Inl _ \<Rightarrow> None)"

definition hex_id_at :: "(string \<Rightarrow> bytes option) \<Rightarrow> string \<Rightarrow> oid option" where
  "hex_id_at hex_read l =
     Option.bind (hex_read (trim_space l)) (\<lambda>b. case oid_from_slice b of Inr i \<Rightarrow> Some i | Inl _ \<Rightarrow> None)"

definition stored_credential :: "string list \<Rightarrow> string option" where
  "stored_credential ls = (case ls of _ # _ # h # _ \<Rightarrow> if trim_space h = [] then None else Some (trim_space h) | _ \<Rightarrow> None)"

definition open_external ::
  "(bytes \<Rightarrow> bytes) \<Rightarrow> (string \<Rightarrow> bytes option) \<Rightarrow> (string \<times> string \<rightharpoonup> string) \<Rightarrow> (string \<times> string \<rightharpoonup> bytes) \<Rightarrow>
     string \<Rightarrow> string option \<Rightarrow> open_error + actor" where
  "open_external blake hex_read metas keys name credential =
     (let safe = safe_name name;
          human = (metas (''humans'', safe) \<noteq> None);
          dir = (if human then ''humans'' else ''externals'')
      in case metas (dir, safe) of
           None \<Rightarrow> Inl NoPrincipal
         | Some meta \<Rightarrow>
             (case text_lines meta of
                i # c # rest \<Rightarrow>
                  (case (letters_at i, hex_id_at hex_read c) of
                     (Some i, Some c) \<Rightarrow>
                       (case (stored_credential (text_lines meta), credential) of
                          (None, _) \<Rightarrow> Inl NoCredential
                        | (Some _, None) \<Rightarrow> Inl CredentialMissing
                        | (Some h, Some p) \<Rightarrow>
                            if \<not> credential_matches blake hex_read h p then Inl CredentialBad
                            else (case keys (dir, safe) of
                                    None \<Rightarrow> Inl KeyUnreadable
                                  | Some k \<Rightarrow> Inr \<lparr>ac_signer = \<lparr>sg_principal = i, sg_key = k\<rparr>, ac_cap = Some c,
                                      ac_write_paths = Some [], ac_workspace = None,
                                      ac_kind = (if human then ''human'' else ''external''), ac_credentialed = True\<rparr>))
                   | _ \<Rightarrow> Inl Damaged)
              | _ \<Rightarrow> Inl Damaged))"

definition named_principal :: "(string \<times> string \<rightharpoonup> string) \<Rightarrow> string \<Rightarrow> eid option" where
  "named_principal metas name =
     (let first = (\<lambda>dir. Option.bind (metas (dir, safe_name name)) (\<lambda>m. case text_lines m of l # _ \<Rightarrow> letters_at l | [] \<Rightarrow> None))
      in case first ''humans'' of Some i \<Rightarrow> Some i | None \<Rightarrow> first ''externals'')"

section \<open>Properties\<close>

text \<open>
  Nobody acts as a human or an external without the credential issued to that principal: the actor that is
  opened is the one of the record under that name, its credential is on record, and what was presented
  hashes to it. A name with a record among the humans never opens an external.
\<close>

theorem external_needs_credential:
  assumes "open_external blake hex_read metas keys name credential = Inr a"
  shows "\<exists>dir meta h p. metas (dir, safe_name name) = Some meta \<and> credential = Some p \<and>
      stored_credential (text_lines meta) = Some h \<and> hex_read (trim_space h) = Some (blake (ascii (trim_space p))) \<and>
      letters_at (hd (text_lines meta)) = Some (sg_principal (ac_signer a)) \<and>
      keys (dir, safe_name name) = Some (sg_key (ac_signer a)) \<and>
      hex_id_at hex_read (text_lines meta ! 1) = ac_cap a \<and> ac_cap a \<noteq> None \<and> ac_write_paths a = Some [] \<and>
      dir = (if ac_kind a = ''human'' then ''humans'' else ''externals'') \<and>
      (ac_kind a = ''human'' \<longleftrightarrow> metas (''humans'', safe_name name) \<noteq> None)"
proof -
  define human where "human = (metas (''humans'', safe_name name) \<noteq> None)"
  define dir where "dir = (if human then ''humans'' else ''externals'')"
  from assms obtain meta i c rest i' c' h p k where
    m: "metas (dir, safe_name name) = Some meta" "text_lines meta = i # c # rest" "letters_at i = Some i'" "hex_id_at hex_read c = Some c'"
    and h: "stored_credential (text_lines meta) = Some h" "credential = Some p" "credential_matches blake hex_read h p"
    and k: "keys (dir, safe_name name) = Some k"
    and a: "a = \<lparr>ac_signer = \<lparr>sg_principal = i', sg_key = k\<rparr>, ac_cap = Some c', ac_write_paths = Some [], ac_workspace = None,
       ac_kind = (if human then ''human'' else ''external''), ac_credentialed = True\<rparr>"
    unfolding open_external_def Let_def human_def [symmetric] dir_def [symmetric]
    by (simp split: option.splits list.splits if_splits)
  from h(3) have hr: "hex_read (trim_space h) = Some (blake (ascii (trim_space p)))"
    by (simp add: credential_matches_def credential_hash_def split: option.splits)
  have d: "dir = (if ac_kind a = ''human'' then ''humans'' else ''externals'')" "ac_kind a = ''human'' \<longleftrightarrow> human"
    by (simp_all add: a dir_def)
  show ?thesis
    by (rule exI [of _ dir], rule exI [of _ meta], rule exI [of _ h], rule exI [of _ p])
       (use m h(1,2) k hr d(2) in \<open>simp add: a dir_def human_def\<close>)
qed

text \<open>Names that differ in a special character share their files, and with them principal and credential.\<close>

lemma safe_name_collides: "safe_name ''ci.prod'' = safe_name ''ci_prod'' \<and> ''ci.prod'' \<noteq> ''ci_prod''"
  by (simp add: safe_name_def is_alnum_def)

definition human_record :: string where
  "human_record = replicate 32 (CHR ''k'') @ char_of (10 :: nat) # replicate 32 (CHR ''a'') @ char_of (10 :: nat) # ''pw'' @ [char_of (10 :: nat)]"

definition open_ana :: "string option \<Rightarrow> open_error + actor" where
  "open_ana credential = open_external id (\<lambda>s. Some (ascii s)) [(''humans'', ''ana'') \<mapsto> human_record] [(''humans'', ''ana'') \<mapsto> [1]] ''ana'' credential"

lemma ana_opens: "map_sum id ac_kind (open_ana (Some '' pw'')) = Inr ''human'' \<and> open_ana None = Inl CredentialMissing \<and>
  open_ana (Some ''guess'') = Inl CredentialBad"
  by code_simp

lemma external_needs_credential_witness:
  "\<exists>a. open_ana (Some '' pw'') = Inr a \<and> ac_cap a \<noteq> None \<and> ac_write_paths a = Some []"
proof -
  obtain a where a: "open_ana (Some '' pw'') = Inr a" using ana_opens by (cases "open_ana (Some '' pw'')") auto
  with external_needs_credential [of id "\<lambda>s. Some (ascii s)" "[(''humans'', ''ana'') \<mapsto> human_record]"
      "[(''humans'', ''ana'') \<mapsto> [1]]" "''ana''" "Some '' pw''" a]
  show ?thesis unfolding open_ana_def by blast
qed


end
