(* ===== verification/Revoke.thy ===== *)
theory Revoke
  imports Principals View_Props
begin

text \<open>
  Claims that overlap, and the revocation of an agent: \<open>overlapping_claims\<close> and \<open>revoke_agent\<close> of
  \<open>crates/tessra-daemon/src/swarm.rs\<close>.

  The workspaces of the repository are a list; removing their directories is not here. The random key of
  the operation, the signer and the time are arguments.
\<close>

section \<open>Overlapping claims\<close>

record claim_overlap =
  co_principal :: eid
  co_who :: string
  co_paths :: "string list"
  co_overlap :: "string list"
  co_exclusive :: bool
  co_note :: "string option"
  co_expires :: int

definition claimed_paths :: "claim \<Rightarrow> string list" where
  "claimed_paths c = List.map_filter (\<lambda>t. case ctg_ref t of VText s \<Rightarrow> Some s | _ \<Rightarrow> None) (claim_targets c)"

definition patterns_meet :: "string \<Rightarrow> string \<Rightarrow> bool" where
  "patterns_meet p q \<longleftrightarrow> contained p q \<or> contained q p \<or> glob_matches q p \<or> glob_matches p q"

definition overlap_of :: "ext \<Rightarrow> oplog \<Rightarrow> eid \<Rightarrow> int \<Rightarrow> string list \<Rightarrow> claim \<Rightarrow> claim_overlap list" where
  "overlap_of x lg mine now paths c =
     (let hit = filter (\<lambda>p. list_ex (patterns_meet p) (claimed_paths c)) paths
      in if claim_principal c = mine \<or> claim_expires c \<le> now \<or> hit = [] then []
         else [\<lparr>co_principal = claim_principal c,
                co_who = (case principal_name x lg (claim_principal c) of Some n \<Rightarrow> n | None \<Rightarrow> chars_of (to_letters (claim_principal c))),
                co_paths = claimed_paths c, co_overlap = hit, co_exclusive = claim_exclusive c, co_note = claim_note c,
                co_expires = claim_expires c\<rparr>])"

definition overlapping_claims :: "ext \<Rightarrow> oplog \<Rightarrow> eid \<Rightarrow> int \<Rightarrow> string list \<Rightarrow> claim_overlap list res" where
  "overlapping_claims x lg mine now paths =
     rbind (current_view x lg) (\<lambda>(s, v).
     rbind (trie_entries (node_get (ext_hash x)) trie_fuel s (view_claims v)) (\<lambda>es.
     rbind (rmap (\<lambda>(_, w). case pointer_from_trie w of
                    Some (PId i) \<Rightarrow> rbind (obj_get (ext_hash x) as_claim s i) (\<lambda>c. Inr (overlap_of x lg mine now paths c))
                  | _ \<Rightarrow> Inr []) es) (\<lambda>out. Inr (concat out))))"

section \<open>What an agent has\<close>

definition active_session :: "ext \<Rightarrow> objs \<Rightarrow> eid \<Rightarrow> eid \<times> pointer \<Rightarrow> eid option" where
  "active_session x s agent e =
     (case pointer_single (snd e) of
        Inl _ \<Rightarrow> None
      | Inr i \<Rightarrow> Option.bind (s i) (\<lambda>y.
          if peek_obj x y = Inr ''principal''
          then (case decode_obj x as_principal y of
                  Inr p \<Rightarrow> if prin_kind p = ''session'' \<and> prin_parent p = Some agent \<and> prin_status p = ''active''
                          then Some (fst e) else None
                | Inl _ \<Rightarrow> None)
          else None))"

definition memory_at :: "ext \<Rightarrow> objs \<Rightarrow> oid \<Rightarrow> memory option" where
  "memory_at x s i =
     Option.bind (s i) (\<lambda>y.
     if peek_obj x y = Inr ''memory'' then (case decode_obj x as_memory y of Inr m \<Rightarrow> Some m | Inl _ \<Rightarrow> None) else None)"

definition memory_entry :: "ext \<Rightarrow> objs \<Rightarrow> eid \<times> pointer \<Rightarrow> (eid \<times> oid \<times> memory) option" where
  "memory_entry x s e =
     (case pointer_single (snd e) of
        Inl _ \<Rightarrow> None
      | Inr i \<Rightarrow> map_option (\<lambda>m. (fst e, i, m)) (memory_at x s i))"

record unwound =
  uw_effects :: "effect list"
  uw_changes :: "eid list"
  uw_drops :: "eid list"

text \<open>One workspace. A change is unpointed once, with the first workspace that holds a revision of it.\<close>

definition unwind_change :: "ext \<Rightarrow> objs \<Rightarrow> view \<Rightarrow> eid list \<Rightarrow> oid \<Rightarrow> unwound \<Rightarrow> unwound res" where
  "unwind_change x s v mine cur u =
     rbind (obj_get (ext_hash x) as_revision s cur) (\<lambda>r.
     if rev_author r \<notin> set mine \<or> rev_id r \<in> set (uw_changes u) then Inr u
     else rbind (in_set (ext_hash x) s (view_proposed v) cur) (\<lambda>proposed.
          rbind (view_entity (ext_hash x) s v (rev_id r)) (\<lambda>ptr.
          Inr (u\<lparr>uw_effects := uw_effects u @ (if proposed then [EUnpropose cur] else []) @
                   (if ptr \<noteq> None then [EUnpoint (rev_id r)] else []),
                 uw_changes := uw_changes u @ [rev_id r]\<rparr>))))"

definition unwind_workspace :: "ext \<Rightarrow> objs \<Rightarrow> view \<Rightarrow> oid list \<Rightarrow> eid list \<Rightarrow> workspace \<Rightarrow> unwound \<Rightarrow> unwound res" where
  "unwind_workspace x s v landed mine w u =
     (if ws_principal w \<notin> set mine then Inr u
      else (let u = u\<lparr>uw_drops := uw_drops u @ [ws_id w]\<rparr>
            in case ws_current w of
                 None \<Rightarrow> Inr u
               | Some cur \<Rightarrow> if cur \<in> set landed then Inr u else unwind_change x s v mine cur u))"

definition unclaim_effects :: "ext \<Rightarrow> objs \<Rightarrow> view \<Rightarrow> eid list \<Rightarrow> effect list res" where
  "unclaim_effects x s v mine =
     rbind (trie_entries (node_get (ext_hash x)) trie_fuel s (view_claims v)) (\<lambda>es.
     rbind (rmap (\<lambda>(k, w). case (eid_from_slice k, pointer_from_trie w) of
                    (Inr c, Some (PId i)) \<Rightarrow>
                      rbind (obj_get (ext_hash x) as_claim s i) (\<lambda>cl.
                      Inr (if claim_principal cl \<in> set mine then [EUnclaim c] else []))
                  | _ \<Rightarrow> Inr []) es) (\<lambda>out. Inr (concat out)))"

definition retired_memory :: "oid \<Rightarrow> memory \<Rightarrow> memory" where
  "retired_memory i m = m\<lparr>memo_prev := Some i, memo_status := ''retired''\<rparr>"

definition retire_step :: "ext \<Rightarrow> eid list \<Rightarrow> eid \<times> oid \<times> memory \<Rightarrow> objs \<times> effect list \<Rightarrow> objs \<times> effect list" where
  "retire_step x mine e acc =
     (case e of (ent, i, m) \<Rightarrow>
        if memo_author m \<notin> set mine \<or> memo_status m \<noteq> ''active'' then acc
        else (case obj_put (ext_hash x) (fst acc) (OMemory (retired_memory i m)) of
                (s, j) \<Rightarrow> (s, snd acc @ [EPut j, EPoint ent j (Some (pointer_to_value (PId i)))])))"

section \<open>The revocation\<close>

definition revoke_effects ::
  "ext \<Rightarrow> objs \<Rightarrow> view \<Rightarrow> oid list \<Rightarrow> workspace list \<Rightarrow> eid \<Rightarrow> (objs \<times> effect list \<times> unwound) res" where
  "revoke_effects x s v landed wss agent =
     rbind (view_entities_list (ext_hash x) s v) (\<lambda>es.
     let sessions = List.map_filter (active_session x s agent) es;
         memories = List.map_filter (memory_entry x s) es;
         mine = agent # sessions
     in rbind (rfold (unwind_workspace x s v landed mine) wss \<lparr>uw_effects = [], uw_changes = [], uw_drops = []\<rparr>) (\<lambda>u.
        rbind (unclaim_effects x s v mine) (\<lambda>unclaims.
        case fold (retire_step x mine) memories (s, []) of
          (s', retired) \<Rightarrow> Inr (s', map ERevoke mine @ uw_effects u @ unclaims @ retired, u))))"

definition revoke_agent ::
  "ext \<Rightarrow> landed_cache \<Rightarrow> oplog \<Rightarrow> signer \<Rightarrow> oid option \<Rightarrow> bytes \<Rightarrow> int \<Rightarrow> workspace list \<Rightarrow> eid \<Rightarrow>
     (oplog \<times> landed_cache \<times> oid \<times> workspace list) res" where
  "revoke_agent x cache lg sg cap idem now wss agent =
     rbind (current_view x lg) (\<lambda>(s, v).
     rbind (landed_revisions x cache s v) (\<lambda>(landed, cache).
     rbind (revoke_effects x s v landed wss agent) (\<lambda>(s, effs, u).
     let lg = lg\<lparr>log_store := s\<rparr>
     in rbind (build_op x lg sg cap ''revoke'' (args_with_idem idem []) effs now) (\<lambda>(s, p).
        rbind (accept x cache (lg\<lparr>log_store := s\<rparr>) p) (\<lambda>(lg, i).
        Inr (lg, cache, i, filter (\<lambda>w. ws_id w \<notin> set (uw_drops u)) wss))))))"

end
