(* ===== verification/Revoke_Props.thy ===== *)
theory Revoke_Props
  imports Revoke
begin

text \<open>What is left of an agent in the view once the effects of its revocation are applied.\<close>

section \<open>Lists of effects, one part of the view at a time\<close>

lemma a_effects_fold: "a_effects op es = rfold (a_effect op) es"
  by (rule ext) (simp add: a_effects_def)

lemma a_effects_Cons: "a_effects op (e # es) av = rbind (a_effect op e av) (a_effects op es)"
  by (simp add: a_effects_fold)

lemma a_effects_ConsE:
  assumes "a_effects op (e # es) av = Inr av'"
  obtains av1 where "a_effect op e av = Inr av1" "a_effects op es av1 = Inr av'"
  using assms by (auto simp: a_effects_Cons result_simps)

lemma a_head_parts:
  "a_head av l to sq i = Inr av' \<Longrightarrow> av_entities av' = av_entities av \<and> av_claims av' = av_claims av \<and>
     av_proposed av' = av_proposed av \<and> av_revoked av' = av_revoked av"
  by (auto simp: a_head_def Let_def split: option.splits)

lemma a_pause_parts [simp]:
  "av_entities (a_pause av sc op) = av_entities av" "av_claims (a_pause av sc op) = av_claims av"
  "av_proposed (a_pause av sc op) = av_proposed av" "av_revoked (a_pause av sc op) = av_revoked av"
  by (simp_all add: a_pause_def Let_def)

lemma a_resume_parts [simp]:
  "av_entities (a_resume av sc) = av_entities av" "av_claims (a_resume av sc) = av_claims av"
  "av_proposed (a_resume av sc) = av_proposed av" "av_revoked (a_resume av sc) = av_revoked av"
  by (simp_all add: a_resume_def Let_def split: option.split)

lemma effects_total:
  "\<forall>e \<in> set effs. case e of EHead _ _ _ _ _ _ \<Rightarrow> False | _ \<Rightarrow> True \<Longrightarrow> \<exists>av'. a_effects op effs av = Inr av'"
proof (induction effs arbitrary: av)
  case (Cons e effs)
  then have "\<exists>av1. a_effect op e av = Inr av1" by (cases e) auto
  with Cons show ?case by (auto simp: a_effects_Cons)
qed (simp add: a_effects_def)

lemma effect_revoked: "a_effect op e av = Inr av1 \<Longrightarrow> p \<in> av_revoked av1 \<longleftrightarrow> p \<in> av_revoked av \<or> e = ERevoke p"
  by (cases e) (auto dest: a_head_parts)

lemma effect_proposed:
  "a_effect op e av = Inr av1 \<Longrightarrow> e \<noteq> EPropose r \<Longrightarrow> r \<in> av_proposed av1 \<longleftrightarrow> r \<in> av_proposed av \<and> e \<noteq> EUnpropose r"
  by (cases e) (auto dest: a_head_parts)

lemma effect_claims:
  "a_effect op e av = Inr av1 \<Longrightarrow> \<forall>i. e \<noteq> EClaim c i \<Longrightarrow> av_claims av1 c = (if e = EUnclaim c then None else av_claims av c)"
  by (cases e) (auto dest: a_head_parts)

lemma effect_entity:
  "a_effect op e av = Inr av1 \<Longrightarrow> av_entities av1 c =
     (case e of EPoint i j f \<Rightarrow> if i = c then Some (TId j) else av_entities av c
      | EUnpoint i \<Rightarrow> if i = c then None else av_entities av c | _ \<Rightarrow> av_entities av c)"
  by (cases e) (auto dest: a_head_parts)

lemma effects_revoked:
  "a_effects op effs av = Inr av' \<Longrightarrow> p \<in> av_revoked av' \<longleftrightarrow> p \<in> av_revoked av \<or> ERevoke p \<in> set effs"
proof (induction effs arbitrary: av)
  case (Cons e effs)
  from Cons.prems obtain av1 where e: "a_effect op e av = Inr av1" "a_effects op effs av1 = Inr av'" by (rule a_effects_ConsE)
  from Cons.IH [OF e(2)] effect_revoked [OF e(1), of p] show ?case by auto
qed (simp add: a_effects_def)

lemma effects_proposed:
  "a_effects op effs av = Inr av' \<Longrightarrow> EPropose r \<notin> set effs \<Longrightarrow>
     r \<in> av_proposed av' \<longleftrightarrow> r \<in> av_proposed av \<and> EUnpropose r \<notin> set effs"
proof (induction effs arbitrary: av)
  case (Cons e effs)
  from Cons.prems(1) obtain av1 where e: "a_effect op e av = Inr av1" "a_effects op effs av1 = Inr av'" by (rule a_effects_ConsE)
  from Cons.prems(2) have "EPropose r \<notin> set effs" "e \<noteq> EPropose r" by auto
  with Cons.IH [OF e(2)] effect_proposed [OF e(1), of r] show ?case by auto
qed (simp add: a_effects_def)

lemma effects_claims:
  "a_effects op effs av = Inr av' \<Longrightarrow> \<forall>i. EClaim c i \<notin> set effs \<Longrightarrow>
     av_claims av' c = (if EUnclaim c \<in> set effs then None else av_claims av c)"
proof (induction effs arbitrary: av)
  case (Cons e effs)
  from Cons.prems(1) obtain av1 where e: "a_effect op e av = Inr av1" "a_effects op effs av1 = Inr av'" by (rule a_effects_ConsE)
  from Cons.prems(2) have "\<forall>i. EClaim c i \<notin> set effs" "\<forall>i. e \<noteq> EClaim c i" by auto
  with Cons.IH [OF e(2)] effect_claims [OF e(1), of c] show ?case by auto
qed (simp add: a_effects_def)

lemma effects_unpoint:
  "a_effects op effs av = Inr av' \<Longrightarrow> \<forall>j f. EPoint c j f \<notin> set effs \<Longrightarrow>
     av_entities av' c = (if EUnpoint c \<in> set effs then None else av_entities av c)"
proof (induction effs arbitrary: av)
  case (Cons e effs)
  from Cons.prems(1) obtain av1 where e: "a_effect op e av = Inr av1" "a_effects op effs av1 = Inr av'" by (rule a_effects_ConsE)
  from Cons.prems(2) have n: "\<forall>j f. EPoint c j f \<notin> set effs" "\<forall>j f. e \<noteq> EPoint c j f" by auto
  from n(2) effect_entity [OF e(1), of c] have "av_entities av1 c = (if e = EUnpoint c then None else av_entities av c)"
    by (cases e) auto
  with Cons.IH [OF e(2) n(1)] show ?case by auto
qed (simp add: a_effects_def)

lemma effects_point:
  "a_effects op effs av = Inr av' \<Longrightarrow> EUnpoint c \<notin> set effs \<Longrightarrow>
     (\<exists>j f. EPoint c j f \<in> set effs \<and> av_entities av' c = Some (TId j)) \<or>
     (\<forall>j f. EPoint c j f \<notin> set effs) \<and> av_entities av' c = av_entities av c"
proof (induction effs arbitrary: av)
  case (Cons e effs)
  from Cons.prems(1) obtain av1 where e: "a_effect op e av = Inr av1" "a_effects op effs av1 = Inr av'" by (rule a_effects_ConsE)
  from Cons.prems(2) have n: "EUnpoint c \<notin> set effs" "e \<noteq> EUnpoint c" by auto
  from n(2) effect_entity [OF e(1), of c]
  have "(\<exists>j f. e = EPoint c j f \<and> av_entities av1 c = Some (TId j)) \<or> (\<forall>j f. e \<noteq> EPoint c j f) \<and> av_entities av1 c = av_entities av c"
    by (cases e) auto
  with Cons.IH [OF e(2) n(1)] show ?case by auto
qed (simp add: a_effects_def)

section \<open>The entries of a view\<close>

lemma root_rep_keys: "root_rep get s N i m \<Longrightarrow> m k \<noteq> None \<Longrightarrow> 2 * length k = N"
proof -
  assume "root_rep get s N i m" "m k \<noteq> None"
  then obtain nd where "node_rep get s N [] nd m" "k \<in> dom m" by (auto simp: root_rep_def)
  from node_rep_dom [OF this(1)] this(2) show ?thesis by (metis below_Nil subsetD)
qed

lemma entries_of_rep:
  assumes "root_rep (node_get h) s N i m" "N \<le> 64"
  obtains es where "trie_entries (node_get h) trie_fuel s i = Inr es" "\<And>k w. (k, w) \<in> set es \<longleftrightarrow> m k = Some w"
proof -
  obtain es where es: "trie_entries (node_get h) trie_fuel s i = Inr es" "sorted_wrt (<) (map fst es)" "map_of es = m"
    using entries_keys [OF assms] by blast
  then have "distinct (map fst es)" by (simp add: strict_sorted_iff)
  with es that show thesis by (metis map_of_eq_Some_iff)
qed

lemma entities_of_rep:
  assumes "view_rep h s v av"
  obtains es where "view_entities_list h s v = Inr es"
    "\<And>i p. (i, p) \<in> set es \<longleftrightarrow> Option.bind (av_entities av i) pointer_from_trie = Some p"
proof -
  from assms have r: "root_rep (node_get h) s 32 (view_entities v) (av_entities av)"
    by (simp add: view_rep_def tries_rep_def nibs_defs)
  then obtain es where es: "trie_entries (node_get h) trie_fuel s (view_entities v) = Inr es"
    "\<And>k w. (k, w) \<in> set es \<longleftrightarrow> av_entities av k = Some w" by (rule entries_of_rep) auto
  let ?f = "\<lambda>(k, w). case (eid_from_slice k, pointer_from_trie w) of (Inr i, Some p) \<Rightarrow> Some (i, p) | _ \<Rightarrow> None"
  have "(i, p) \<in> set (List.map_filter ?f es) \<longleftrightarrow> Option.bind (av_entities av i) pointer_from_trie = Some p" for i p
  proof -
    have "(i, p) \<in> set (List.map_filter ?f es) \<longleftrightarrow> (\<exists>k w. av_entities av k = Some w \<and> ?f (k, w) = Some (i, p))"
      using es(2) by (force simp: List.map_filter_def)
    also have "\<dots> \<longleftrightarrow> Option.bind (av_entities av i) pointer_from_trie = Some p"
    proof
      assume "\<exists>k w. av_entities av k = Some w \<and> ?f (k, w) = Some (i, p)"
      then show "Option.bind (av_entities av i) pointer_from_trie = Some p"
        by (auto simp: eid_from_slice_def split: option.splits sum.splits if_splits)
    next
      assume "Option.bind (av_entities av i) pointer_from_trie = Some p"
      then obtain w where w: "av_entities av i = Some w" "pointer_from_trie w = Some p" by (auto simp: bind_eq_Some_conv)
      with root_rep_keys [OF r, of i] have "?f (i, w) = Some (i, p)" by (simp add: eid_from_slice_def)
      with w(1) show "\<exists>k w. av_entities av k = Some w \<and> ?f (k, w) = Some (i, p)" by blast
    qed
    finally show ?thesis .
  qed
  with es(1) that [of "List.map_filter ?f es"] show thesis by (simp add: view_entities_list_def)
qed

lemma proposed_rep: "view_rep h s v av \<Longrightarrow> in_set h s (view_proposed v) i = Inr (i \<in> av_proposed av)"
  using trie_get_correct [of "node_get h" s oid_nibs "view_proposed v" "set_map (av_proposed av)" i]
  by (simp add: in_set_def view_rep_def tries_rep_def)

section \<open>The changes of the workspaces\<close>

definition unlanded_by :: "ext \<Rightarrow> objs \<Rightarrow> oid list \<Rightarrow> eid list \<Rightarrow> workspace \<Rightarrow> oid \<Rightarrow> revision \<Rightarrow> bool" where
  "unlanded_by x s landed mine w cur r \<longleftrightarrow>
     ws_principal w \<in> set mine \<and> ws_current w = Some cur \<and> cur \<notin> set landed \<and>
     obj_get (ext_hash x) as_revision s cur = Inr r \<and> rev_author r \<in> set mine"

text \<open>A change is off the view when its entity and one of its revisions are.\<close>

definition taken_off :: "ext \<Rightarrow> objs \<Rightarrow> view \<Rightarrow> oid list \<Rightarrow> eid list \<Rightarrow> workspace set \<Rightarrow> effect set \<Rightarrow> eid \<Rightarrow> bool" where
  "taken_off x s v landed mine W E c \<longleftrightarrow>
     (view_entity (ext_hash x) s v c = Inr None \<or> EUnpoint c \<in> E) \<and>
     (\<exists>w \<in> W. \<exists>cur r. unlanded_by x s landed mine w cur r \<and> rev_id r = c \<and>
        (in_set (ext_hash x) s (view_proposed v) cur = Inr False \<or> EUnpropose cur \<in> E))"

definition taking_off :: "ext \<Rightarrow> objs \<Rightarrow> oid list \<Rightarrow> eid list \<Rightarrow> workspace set \<Rightarrow> effect \<Rightarrow> bool" where
  "taking_off x s landed mine W e \<longleftrightarrow>
     (\<exists>w \<in> W. \<exists>cur r. unlanded_by x s landed mine w cur r \<and> (e = EUnpoint (rev_id r) \<or> e = EUnpropose cur))"

definition unwound_ok :: "ext \<Rightarrow> objs \<Rightarrow> view \<Rightarrow> oid list \<Rightarrow> eid list \<Rightarrow> workspace set \<Rightarrow> unwound \<Rightarrow> bool" where
  "unwound_ok x s v landed mine W u \<longleftrightarrow>
     set (uw_drops u) = ws_id ` {w \<in> W. ws_principal w \<in> set mine} \<and>
     set (uw_changes u) = {rev_id r | w cur r. w \<in> W \<and> unlanded_by x s landed mine w cur r} \<and>
     (\<forall>e \<in> set (uw_effects u). taking_off x s landed mine W e) \<and>
     (\<forall>c \<in> set (uw_changes u). taken_off x s v landed mine W (set (uw_effects u)) c)"

lemma taken_off_mono: "taken_off x s v landed mine W E c \<Longrightarrow> W \<subseteq> W' \<Longrightarrow> E \<subseteq> E' \<Longrightarrow> taken_off x s v landed mine W' E' c"
  unfolding taken_off_def by blast

lemma taking_off_mono: "taking_off x s landed mine W e \<Longrightarrow> W \<subseteq> W' \<Longrightarrow> taking_off x s landed mine W' e"
  unfolding taking_off_def by blast

lemma unlanded_changes_insert:
  assumes "unlanded_by x s landed mine w cur r"
  shows "{rev_id r | w' cur r. w' \<in> insert w W \<and> unlanded_by x s landed mine w' cur r} =
    insert (rev_id r) {rev_id r | w' cur r. w' \<in> W \<and> unlanded_by x s landed mine w' cur r}"
proof -
  have "cur' = cur \<and> r' = r" if "unlanded_by x s landed mine w cur' r'" for cur' r'
    using assms that by (auto simp: unlanded_by_def)
  with assms show ?thesis by blast
qed

lemma unwound_ok_none:
  assumes "unwound_ok x s v landed mine W u" "\<And>cur r. \<not> unlanded_by x s landed mine w cur r"
    and "uw_effects u' = uw_effects u" "uw_changes u' = uw_changes u"
    and "uw_drops u' = uw_drops u @ (if ws_principal w \<in> set mine then [ws_id w] else [])"
  shows "unwound_ok x s v landed mine (insert w W) u'"
  using assms taken_off_mono [OF _ subset_insertI subset_refl] taking_off_mono [OF _ subset_insertI]
  unfolding unwound_ok_def by auto

lemma unwound_ok_again:
  assumes "unwound_ok x s v landed mine W u" "unlanded_by x s landed mine w cur r" "rev_id r \<in> set (uw_changes u)"
    and "uw_effects u' = uw_effects u" "uw_changes u' = uw_changes u" "uw_drops u' = uw_drops u @ [ws_id w]"
  shows "unwound_ok x s v landed mine (insert w W) u'"
proof -
  have w: "ws_principal w \<in> set mine" using assms(2) by (simp add: unlanded_by_def)
  note ch = unlanded_changes_insert [OF assms(2)]
  show ?thesis using assms(1,3-) w taken_off_mono [OF _ subset_insertI subset_refl] taking_off_mono [OF _ subset_insertI]
    unfolding unwound_ok_def ch by auto
qed

lemma unwound_ok_new:
  assumes "unwound_ok x s v landed mine W u" "unlanded_by x s landed mine w cur r"
    and "in_set (ext_hash x) s (view_proposed v) cur = Inr proposed" "view_entity (ext_hash x) s v (rev_id r) = Inr ptr"
    and "uw_effects u' = uw_effects u @ (if proposed then [EUnpropose cur] else []) @ (if ptr \<noteq> None then [EUnpoint (rev_id r)] else [])"
    and "uw_changes u' = uw_changes u @ [rev_id r]" "uw_drops u' = uw_drops u @ [ws_id w]"
  shows "unwound_ok x s v landed mine (insert w W) u'"
proof -
  have w: "ws_principal w \<in> set mine" using assms(2) by (simp add: unlanded_by_def)
  note ch = unlanded_changes_insert [OF assms(2)]
  have sub: "set (uw_effects u) \<subseteq> set (uw_effects u')" using assms(5) by auto
  have new: "taken_off x s v landed mine (insert w W) (set (uw_effects u')) (rev_id r)"
    unfolding taken_off_def using assms(2-5) by auto
  have old: "taken_off x s v landed mine (insert w W) (set (uw_effects u')) c" if "c \<in> set (uw_changes u)" for c
    using assms(1) that taken_off_mono [OF _ subset_insertI sub] by (simp add: unwound_ok_def)
  have eff: "taking_off x s landed mine (insert w W) e" if "e \<in> set (uw_effects u')" for e
  proof (cases "e \<in> set (uw_effects u)")
    case True
    then show ?thesis using assms(1) taking_off_mono [OF _ subset_insertI] by (simp add: unwound_ok_def)
  next
    case False
    with that assms(5) have "e = EUnpropose cur \<or> e = EUnpoint (rev_id r)" by (auto split: if_splits)
    with assms(2) show ?thesis unfolding taking_off_def by blast
  qed
  show ?thesis using assms(1,6,7) new old eff w unfolding unwound_ok_def ch by auto
qed

lemma unwound_ok_step:
  assumes "unwound_ok x s v landed mine W u" "unwind_workspace x s v landed mine w u = Inr u'"
  shows "unwound_ok x s v landed mine (insert w W) u'"
proof -
  let ?u = "u\<lparr>uw_drops := uw_drops u @ [ws_id w]\<rparr>"
  consider "ws_principal w \<notin> set mine" | "ws_principal w \<in> set mine" "ws_current w = None"
    | cur where "ws_principal w \<in> set mine" "ws_current w = Some cur" "cur \<in> set landed"
    | cur where "ws_principal w \<in> set mine" "ws_current w = Some cur" "cur \<notin> set landed" by blast
  then show ?thesis
  proof cases
    case (3 cur)
    then have "\<not> unlanded_by x s landed mine w cur' r'" for cur' r' by (auto simp: unlanded_by_def)
    then show ?thesis using unwound_ok_none [OF assms(1)] assms(2) 3 by (auto simp: unwind_workspace_def Let_def)
  next
    case (4 cur)
    with assms(2) have c: "unwind_change x s v mine cur ?u = Inr u'" by (simp add: unwind_workspace_def Let_def)
    then obtain r where r: "obj_get (ext_hash x) as_revision s cur = Inr r" by (auto simp: unwind_change_def result_simps)
    show ?thesis
    proof (cases "rev_author r \<in> set mine")
      case False
      with 4 r have "\<not> unlanded_by x s landed mine w cur' r'" for cur' r' by (auto simp: unlanded_by_def)
      then show ?thesis using unwound_ok_none [OF assms(1)] c r False 4(1) by (auto simp: unwind_change_def)
    next
      case True
      with 4 r have ul: "unlanded_by x s landed mine w cur r" by (simp add: unlanded_by_def)
      show ?thesis
      proof (cases "rev_id r \<in> set (uw_changes u)")
        case True
        then show ?thesis using unwound_ok_again [OF assms(1) ul] c r by (auto simp: unwind_change_def)
      next
        case False
        with c r True obtain proposed ptr where "in_set (ext_hash x) s (view_proposed v) cur = Inr proposed"
          "view_entity (ext_hash x) s v (rev_id r) = Inr ptr"
          "u' = ?u\<lparr>uw_effects := uw_effects u @ (if proposed then [EUnpropose cur] else []) @
             (if ptr \<noteq> None then [EUnpoint (rev_id r)] else []), uw_changes := uw_changes u @ [rev_id r]\<rparr>"
          by (auto simp: unwind_change_def result_simps)
        then show ?thesis using unwound_ok_new [OF assms(1) ul] by simp
      qed
    qed
  qed (use unwound_ok_none [OF assms(1)] assms(2) in \<open>auto simp: unwind_workspace_def unlanded_by_def Let_def\<close>)
qed

lemma unwound_ok_all:
  "rfold (unwind_workspace x s v landed mine) wss u = Inr u' \<Longrightarrow> unwound_ok x s v landed mine W u \<Longrightarrow>
     unwound_ok x s v landed mine (W \<union> set wss) u'"
proof (induction wss arbitrary: W u)
  case (Cons w wss)
  from Cons.prems(1) obtain u1 where "unwind_workspace x s v landed mine w u = Inr u1"
    "rfold (unwind_workspace x s v landed mine) wss u1 = Inr u'" by (auto simp: result_simps)
  with Cons.IH [of u1 "insert w W"] unwound_ok_step [OF Cons.prems(2)] show ?case by simp
qed simp

lemma unwound_ok_start: "unwound_ok x s v landed mine {} \<lparr>uw_effects = [], uw_changes = [], uw_drops = []\<rparr>"
  by (simp add: unwound_ok_def)

section \<open>Claims and memories\<close>

lemma claims_of_rep:
  assumes "view_rep h s v av"
  shows "\<exists>es. trie_entries (node_get h) trie_fuel s (view_claims v) = Inr es \<and>
    (\<forall>k w. (k, w) \<in> set es \<longleftrightarrow> av_claims av k = Some w) \<and> (\<forall>k w. (k, w) \<in> set es \<longrightarrow> eid_from_slice k = Inr k)"
proof -
  from assms have r: "root_rep (node_get h) s 32 (view_claims v) (av_claims av)"
    by (simp add: view_rep_def tries_rep_def nibs_defs)
  then obtain es where es: "trie_entries (node_get h) trie_fuel s (view_claims v) = Inr es"
    "\<And>k w. (k, w) \<in> set es \<longleftrightarrow> av_claims av k = Some w" by (rule entries_of_rep) auto
  have "eid_from_slice k = Inr k" if "(k, w) \<in> set es" for k w
    using root_rep_keys [OF r, of k] es(2) that by (simp add: eid_from_slice_def)
  with es show ?thesis by blast
qed

text \<open>The claim an entity of the view points at, when it is one object.\<close>

definition claim_by :: "ext \<Rightarrow> objs \<Rightarrow> aview \<Rightarrow> eid list \<Rightarrow> eid \<Rightarrow> bool" where
  "claim_by x s av mine c \<longleftrightarrow>
     (\<exists>i cl. av_claims av c = Some (TId i) \<and> obj_get (ext_hash x) as_claim s i = Inr cl \<and> claim_principal cl \<in> set mine)"

lemma unclaim_effects_set:
  assumes "view_rep (ext_hash x) s v av" "unclaim_effects x s v mine = Inr effs"
  shows "set effs = EUnclaim ` {c. claim_by x s av mine c}"
proof -
  obtain es where es: "trie_entries (node_get (ext_hash x)) trie_fuel s (view_claims v) = Inr es"
    "\<And>k w. (k, w) \<in> set es \<longleftrightarrow> av_claims av k = Some w" "\<And>k w. (k, w) \<in> set es \<Longrightarrow> eid_from_slice k = Inr k"
    using claims_of_rep [OF assms(1)] by blast
  let ?f = "\<lambda>(k, w). case (eid_from_slice k, pointer_from_trie w) of
      (Inr c, Some (PId i)) \<Rightarrow> rbind (obj_get (ext_hash x) as_claim s i) (\<lambda>cl.
         Inr (if claim_principal cl \<in> set mine then [EUnclaim c] else [])) | _ \<Rightarrow> Inr []"
  from assms(2) es(1) obtain out where out: "rmap ?f es = Inr out" "effs = concat out"
    by (auto simp: unclaim_effects_def result_simps)
  have one: "e \<in> set ys \<longleftrightarrow> (\<exists>i cl. e = EUnclaim k \<and> w = TId i \<and> obj_get (ext_hash x) as_claim s i = Inr cl \<and> claim_principal cl \<in> set mine)"
    if "(k, w) \<in> set es" "?f (k, w) = Inr ys" for k w ys e
    using that(2) es(3) [OF that(1)] by (cases w) (auto simp: result_simps split: if_splits)
  show ?thesis
  proof (rule set_eqI, rule iffI)
    fix e assume "e \<in> set effs"
    with out obtain ys k w where "e \<in> set ys" "(k, w) \<in> set es" "?f (k, w) = Inr ys" by (fastforce dest: rmap_Inr_setD)
    with one [OF this(2,3), of e] es(2) show "e \<in> EUnclaim ` {c. claim_by x s av mine c}" by (auto simp: claim_by_def)
  next
    fix e assume "e \<in> EUnclaim ` {c. claim_by x s av mine c}"
    then obtain c i cl where c: "e = EUnclaim c" "av_claims av c = Some (TId i)" "obj_get (ext_hash x) as_claim s i = Inr cl"
      "claim_principal cl \<in> set mine" by (auto simp: claim_by_def)
    then have k: "(c, TId i) \<in> set es" by (simp add: es(2))
    then have "[EUnclaim c] = projr (?f (c, TId i))" using c es(3) [OF k] by simp
    then have "[EUnclaim c] \<in> set out" unfolding rmap_Inr_map [OF out(1)] set_map using k by (rule image_eqI)
    with c(1) out(2) show "e \<in> set effs" by force
  qed
qed

definition retired_at :: "objs \<Rightarrow> oid \<Rightarrow> bool" where
  "retired_at s j \<longleftrightarrow> (\<exists>i m. s j = Some (OMemory (retired_memory i m)))"

definition retiring :: "eid list \<Rightarrow> eid \<times> oid \<times> memory \<Rightarrow> bool" where
  "retiring mine e \<longleftrightarrow> (case e of (ent, i, m) \<Rightarrow> memo_author m \<in> set mine \<and> memo_status m = ''active'')"

text \<open>What the loop over the memories has done after some of them.\<close>

definition retired_ok :: "ext \<Rightarrow> objs \<Rightarrow> eid list \<Rightarrow> (eid \<times> oid \<times> memory) set \<Rightarrow> objs \<times> effect list \<Rightarrow> bool" where
  "retired_ok x s mine M acc \<longleftrightarrow>
     objs_ok (ext_hash x) (fst acc) \<and> s \<subseteq>\<^sub>m fst acc \<and>
     (\<forall>j. fst acc j \<noteq> s j \<longrightarrow> retired_at (fst acc) j) \<and>
     (\<forall>e \<in> set (snd acc). (\<exists>j. e = EPut j) \<or> (\<exists>ent j f. e = EPoint ent j f \<and> retired_at (fst acc) j)) \<and>
     {ent. \<exists>j f. EPoint ent j f \<in> set (snd acc)} = fst ` {e \<in> M. retiring mine e}"

lemma memory_at_retired: "retired_at s j \<Longrightarrow> memory_at x s j = Some m \<Longrightarrow> memo_status m = ''retired''"
  by (auto simp: retired_at_def memory_at_def peek_obj_def decode_obj_def retired_memory_def split: if_splits)

lemma memory_at_retired_ex: "retired_at s j \<Longrightarrow> memory_at x s j \<noteq> None"
  by (auto simp: retired_at_def memory_at_def peek_obj_def decode_obj_def retired_memory_def)

lemma retired_ok_start: "objs_ok (ext_hash x) s \<Longrightarrow> retired_ok x s mine {} (s, [])"
  by (simp add: retired_ok_def)

lemma retired_ok_skip: "retired_ok x s mine M acc \<Longrightarrow> \<not> retiring mine e \<Longrightarrow> retired_ok x s mine (insert e M) acc"
proof -
  assume r: "retired_ok x s mine M acc" "\<not> retiring mine e"
  then have "{e' \<in> insert e M. retiring mine e'} = {e' \<in> M. retiring mine e'}" by auto
  with r(1) show ?thesis unfolding retired_ok_def by simp
qed

lemma retired_at_mono: "retired_at s j \<Longrightarrow> s \<subseteq>\<^sub>m s' \<Longrightarrow> retired_at s' j"
  unfolding retired_at_def map_le_def by (metis domI)

lemma retired_put:
  assumes "\<And>m y. ext_hash x y = ext_hash x (OMemory m) \<Longrightarrow> y = OMemory m" "objs_ok (ext_hash x) s"
    and "obj_put (ext_hash x) s (OMemory (retired_memory i m)) = (s', j)"
  shows "retired_at s' j" "s \<subseteq>\<^sub>m s'" "objs_ok (ext_hash x) s'" "\<And>k. s' k \<noteq> s k \<Longrightarrow> retired_at s' k"
proof -
  let ?y = "OMemory (retired_memory i m)"
  from assms(3) have j: "j = ext_hash x ?y" by (simp add: obj_put_def)
  have "s' j = Some ?y"
  proof (cases "s j")
    case (Some y)
    with assms(2) j have "ext_hash x y = ext_hash x ?y" by (simp add: objs_ok_def)
    from assms(1) [OF this] Some assms(3) j show ?thesis by (auto simp: obj_put_def)
  qed (use assms(3) j in \<open>auto simp: obj_put_def\<close>)
  then show a: "retired_at s' j" unfolding retired_at_def by blast
  show "s \<subseteq>\<^sub>m s'" using assms(3) by (auto simp: obj_put_def map_le_def split: option.splits)
  show "objs_ok (ext_hash x) s'" using objs_ok_put [OF assms(2), of ?y] assms(3) by simp
  show "retired_at s' k" if "s' k \<noteq> s k" for k
  proof -
    from that assms(3) have "k = j" by (auto simp: obj_put_def split: option.splits if_splits)
    with a show ?thesis by simp
  qed
qed

lemma retired_ok_step:
  assumes "\<And>m y. ext_hash x y = ext_hash x (OMemory m) \<Longrightarrow> y = OMemory m" "retired_ok x s mine M acc"
  shows "retired_ok x s mine (insert e M) (retire_step x mine e acc)"
proof (cases "retiring mine e")
  case False
  then have "retire_step x mine e acc = acc" by (auto simp: retire_step_def retiring_def split: prod.split)
  with retired_ok_skip [OF assms(2) False] show ?thesis by simp
next
  case True
  obtain ent i m where e: "e = (ent, i, m)" by (cases e)
  obtain s' j where p: "obj_put (ext_hash x) (fst acc) (OMemory (retired_memory i m)) = (s', j)" by fastforce
  from True e p have st: "retire_step x mine e acc = (s', snd acc @ [EPut j, EPoint ent j (Some (pointer_to_value (PId i)))])"
    by (simp add: retire_step_def retiring_def)
  from assms(2) have a: "objs_ok (ext_hash x) (fst acc)" "s \<subseteq>\<^sub>m fst acc" "\<And>j. fst acc j \<noteq> s j \<Longrightarrow> retired_at (fst acc) j"
    "\<And>e. e \<in> set (snd acc) \<Longrightarrow> (\<exists>j. e = EPut j) \<or> (\<exists>ent j f. e = EPoint ent j f \<and> retired_at (fst acc) j)"
    "{ent. \<exists>j f. EPoint ent j f \<in> set (snd acc)} = fst ` {e \<in> M. retiring mine e}" by (auto simp: retired_ok_def)
  note r = retired_put [OF assms(1) a(1) p]
  have new: "retired_at s' k" if "s' k \<noteq> s k" for k
    using that r(4) [of k] a(3) [of k] retired_at_mono [OF _ r(2)] by metis
  have effs: "(\<exists>j. e' = EPut j) \<or> (\<exists>ent j f. e' = EPoint ent j f \<and> retired_at s' j)"
    if "e' \<in> set (snd acc) \<union> {EPut j, EPoint ent j (Some (pointer_to_value (PId i)))}" for e'
    using that a(4) [of e'] r(1) retired_at_mono [OF _ r(2)] by blast
  have ents: "{ent'. \<exists>j' f. EPoint ent' j' f \<in> set (snd acc) \<union> {EPut j, EPoint ent j (Some (pointer_to_value (PId i)))}} =
      fst ` {e' \<in> insert e M. retiring mine e'}"
  proof -
    have "{e' \<in> insert e M. retiring mine e'} = insert e {e' \<in> M. retiring mine e'}" using True by auto
    then have "fst ` {e' \<in> insert e M. retiring mine e'} = insert ent (fst ` {e' \<in> M. retiring mine e'})" by (simp add: e)
    then show ?thesis unfolding a(5) [symmetric] by auto
  qed
  show ?thesis unfolding st retired_ok_def
    using r(2,3) map_le_trans [OF a(2) r(2)] new effs ents by simp
qed

lemma retired_ok_all:
  assumes "\<And>m y. ext_hash x y = ext_hash x (OMemory m) \<Longrightarrow> y = OMemory m"
  shows "retired_ok x s mine M acc \<Longrightarrow> retired_ok x s mine (M \<union> set ms) (fold (retire_step x mine) ms acc)"
proof (induction ms arbitrary: M acc)
  case (Cons e ms)
  from Cons.IH [OF retired_ok_step [OF assms Cons.prems, of e]] show ?case by simp
qed simp

section \<open>The effects of a revocation\<close>

text \<open>The entities the view points at a memory of those revoked that is active.\<close>

definition memory_by :: "ext \<Rightarrow> objs \<Rightarrow> aview \<Rightarrow> eid list \<Rightarrow> eid \<Rightarrow> bool" where
  "memory_by x s av mine e \<longleftrightarrow>
     (\<exists>i m. av_entities av e = Some (TId i) \<and> memory_at x s i = Some m \<and> retiring mine (e, i, m))"

lemma revoke_parts:
  assumes "view_rep (ext_hash x) s v av" "objs_ok (ext_hash x) s" "\<And>m y. ext_hash x y = ext_hash x (OMemory m) \<Longrightarrow> y = OMemory m"
    and "view_entities_list (ext_hash x) s v = Inr es" "revoke_effects x s v landed wss agent = Inr (s', effs, u)"
    and "mine = agent # List.map_filter (active_session x s agent) es"
  shows "\<exists>unclaims retired. effs = (map ERevoke mine @ uw_effects u @ unclaims) @ retired \<and>
    unwound_ok x s v landed mine (set wss) u \<and> set unclaims = EUnclaim ` {c. claim_by x s av mine c} \<and>
    retired_ok x s mine (set (List.map_filter (memory_entry x s) es)) (s', retired)"
proof -
  let ?ms = "List.map_filter (memory_entry x s) es"
  let ?u0 = "\<lparr>uw_effects = [], uw_changes = [], uw_drops = []\<rparr>"
  obtain s2 retired where f: "fold (retire_step x mine) ?ms (s, []) = (s2, retired)" by fastforce
  have "revoke_effects x s v landed wss agent =
      rbind (rfold (unwind_workspace x s v landed mine) wss ?u0) (\<lambda>u. rbind (unclaim_effects x s v mine) (\<lambda>unclaims.
        Inr (s2, map ERevoke mine @ uw_effects u @ unclaims @ retired, u)))"
    unfolding revoke_effects_def assms(4) Let_def rbind.simps assms(6) [symmetric] f prod.case by simp
  with assms(5) obtain unclaims where p: "rfold (unwind_workspace x s v landed mine) wss ?u0 = Inr u"
    "unclaim_effects x s v mine = Inr unclaims" "effs = map ERevoke mine @ uw_effects u @ unclaims @ retired" "s2 = s'"
    by (auto simp: rbind_Inr_iff)
  have "retired_ok x s mine (set ?ms) (s', retired)"
    using retired_ok_all [OF assms(3) retired_ok_start [OF assms(2)], of mine ?ms] f p(4) by simp
  with p(3) unwound_ok_all [OF p(1) unwound_ok_start] unclaim_effects_set [OF assms(1) p(2)] show ?thesis by auto
qed

lemma memory_entries:
  assumes "view_rep (ext_hash x) s v av" "view_entities_list (ext_hash x) s v = Inr es"
  shows "fst ` {e \<in> set (List.map_filter (memory_entry x s) es). retiring mine e} = {e. memory_by x s av mine e}"
proof -
  have es: "(i, p) \<in> set es \<longleftrightarrow> Option.bind (av_entities av i) pointer_from_trie = Some p" for i p
    using entities_of_rep [OF assms(1)] assms(2) by (metis Inr_inject)
  have pid: "pointer_from_trie w = Some (PId i) \<longleftrightarrow> w = TId i" for w i by (cases w) auto
  have entry: "memory_entry x s (e, p) = Some (ent, i, m) \<longleftrightarrow> ent = e \<and> p = PId i \<and> memory_at x s i = Some m" for e p ent i m
    by (cases p) (auto simp: memory_entry_def)
  have mem: "(ent, i, m) \<in> set (List.map_filter (memory_entry x s) es) \<longleftrightarrow> av_entities av ent = Some (TId i) \<and> memory_at x s i = Some m"
    for ent i m
  proof -
    have "(ent, i, m) \<in> set (List.map_filter (memory_entry x s) es) \<longleftrightarrow> (\<exists>e p. (e, p) \<in> set es \<and> memory_entry x s (e, p) = Some (ent, i, m))"
      by (force simp: List.map_filter_def)
    also have "\<dots> \<longleftrightarrow> (ent, PId i) \<in> set es \<and> memory_at x s i = Some m" using entry by auto
    also have "\<dots> \<longleftrightarrow> av_entities av ent = Some (TId i) \<and> memory_at x s i = Some m"
      by (auto simp: es bind_eq_Some_conv pid)
    finally show ?thesis .
  qed
  show ?thesis
  proof (intro set_eqI iffI)
    fix e assume "e \<in> fst ` {e \<in> set (List.map_filter (memory_entry x s) es). retiring mine e}"
    then obtain i m where "(e, i, m) \<in> set (List.map_filter (memory_entry x s) es)" "retiring mine (e, i, m)" by auto
    with mem show "e \<in> {e. memory_by x s av mine e}" by (auto simp: memory_by_def)
  next
    fix e assume "e \<in> {e. memory_by x s av mine e}"
    then obtain i m where "(e, i, m) \<in> set (List.map_filter (memory_entry x s) es)" "retiring mine (e, i, m)"
      using mem by (auto simp: memory_by_def)
    then show "e \<in> fst ` {e \<in> set (List.map_filter (memory_entry x s) es). retiring mine e}" by (auto intro: rev_image_eqI)
  qed
qed

text \<open>The effects are two lists: what takes something away, and the memories put back retired.\<close>

definition taking_away :: "ext \<Rightarrow> objs \<Rightarrow> view \<Rightarrow> oid list \<Rightarrow> eid list \<Rightarrow> workspace set \<Rightarrow> aview \<Rightarrow> effect set \<Rightarrow> bool" where
  "taking_away x s v landed mine W av E \<longleftrightarrow>
     (\<forall>e \<in> E. (\<exists>p \<in> set mine. e = ERevoke p) \<or> taking_off x s landed mine W e \<or> (\<exists>c. e = EUnclaim c \<and> claim_by x s av mine c)) \<and>
     ERevoke ` set mine \<subseteq> E \<and> EUnclaim ` {c. claim_by x s av mine c} \<subseteq> E \<and>
     (\<forall>w \<in> W. \<forall>cur r. unlanded_by x s landed mine w cur r \<longrightarrow> taken_off x s v landed mine W E (rev_id r))"

definition putting_back :: "ext \<Rightarrow> objs \<Rightarrow> eid list \<Rightarrow> aview \<Rightarrow> objs \<Rightarrow> effect set \<Rightarrow> bool" where
  "putting_back x s mine av s' E \<longleftrightarrow>
     (\<forall>e \<in> E. (\<exists>j. e = EPut j) \<or> (\<exists>ent j f. e = EPoint ent j f \<and> retired_at s' j)) \<and>
     {ent. \<exists>j f. EPoint ent j f \<in> E} = {e. memory_by x s av mine e} \<and>
     s \<subseteq>\<^sub>m s' \<and> (\<forall>j. s' j \<noteq> s j \<longrightarrow> retired_at s' j)"

lemma revoke_summary:
  assumes "view_rep (ext_hash x) s v av" "objs_ok (ext_hash x) s" "\<And>m y. ext_hash x y = ext_hash x (OMemory m) \<Longrightarrow> y = OMemory m"
    and "view_entities_list (ext_hash x) s v = Inr es" "revoke_effects x s v landed wss agent = Inr (s', effs, u)"
    and "mine = agent # List.map_filter (active_session x s agent) es"
  obtains pre retired where "effs = pre @ retired" "taking_away x s v landed mine (set wss) av (set pre)"
    "putting_back x s mine av s' (set retired)" "set (uw_drops u) = ws_id ` {w \<in> set wss. ws_principal w \<in> set mine}"
proof -
  from revoke_parts [OF assms] obtain unclaims retired where
    p: "effs = (map ERevoke mine @ uw_effects u @ unclaims) @ retired"
      "unwound_ok x s v landed mine (set wss) u" "set unclaims = EUnclaim ` {c. claim_by x s av mine c}"
      "retired_ok x s mine (set (List.map_filter (memory_entry x s) es)) (s', retired)" by blast
  let ?E = "set (map ERevoke mine @ uw_effects u @ unclaims)"
  from p(2) have u: "\<And>e. e \<in> set (uw_effects u) \<Longrightarrow> taking_off x s landed mine (set wss) e"
    "\<And>c. c \<in> set (uw_changes u) \<Longrightarrow> taken_off x s v landed mine (set wss) (set (uw_effects u)) c"
    "set (uw_changes u) = {rev_id r | w cur r. w \<in> set wss \<and> unlanded_by x s landed mine w cur r}"
    "set (uw_drops u) = ws_id ` {w \<in> set wss. ws_principal w \<in> set mine}" by (simp_all add: unwound_ok_def)
  have "taken_off x s v landed mine (set wss) ?E (rev_id r)" if "w \<in> set wss" "unlanded_by x s landed mine w cur r" for w cur r
  proof (rule taken_off_mono)
    show "taken_off x s v landed mine (set wss) (set (uw_effects u)) (rev_id r)" using that by (intro u(2)) (auto simp: u(3))
  qed auto
  moreover have "(\<exists>p \<in> set mine. e = ERevoke p) \<or> taking_off x s landed mine (set wss) e \<or> (\<exists>c. e = EUnclaim c \<and> claim_by x s av mine c)"
    if "e \<in> ?E" for e using that u(1) [of e] p(3) by auto
  ultimately have "taking_away x s v landed mine (set wss) av ?E" unfolding taking_away_def using p(3) by auto
  moreover have "putting_back x s mine av s' (set retired)"
    using p(4) memory_entries [OF assms(1,4), of mine] unfolding retired_ok_def putting_back_def by simp
  ultimately show thesis using p(1) u(4) by (intro that) auto
qed

lemma taking_off_cases:
  assumes "taking_off x s landed mine W e"
  obtains c where "e = EUnpoint c" | r where "e = EUnpropose r"
  using assms unfolding taking_off_def by blast

lemma taking_off_not [simp]:
  "\<not> taking_off x s landed mine W (ERevoke p)" "\<not> taking_off x s landed mine W (EUnclaim c)"
  by (simp_all add: taking_off_def)

lemma taking_away_mem:
  assumes t: "taking_away x s v landed mine W av E"
  shows "ERevoke p \<in> E \<longleftrightarrow> p \<in> set mine" "EUnclaim c \<in> E \<longleftrightarrow> claim_by x s av mine c"
proof -
  from t have a: "\<forall>e \<in> E. (\<exists>p \<in> set mine. e = ERevoke p) \<or> taking_off x s landed mine W e \<or> (\<exists>c. e = EUnclaim c \<and> claim_by x s av mine c)"
    and b: "ERevoke ` set mine \<subseteq> E" "EUnclaim ` {c. claim_by x s av mine c} \<subseteq> E" by (simp_all add: taking_away_def)
  show "ERevoke p \<in> E \<longleftrightarrow> p \<in> set mine" using bspec [OF a, of "ERevoke p"] b(1) by auto
  show "EUnclaim c \<in> E \<longleftrightarrow> claim_by x s av mine c" using bspec [OF a, of "EUnclaim c"] b(2) by auto
qed

lemma taking_away_no:
  assumes "taking_away x s v landed mine W av E"
  shows "EPropose r \<notin> E" "EPoint c j f \<notin> E" "EClaim c j \<notin> E"
  using assms unfolding taking_away_def taking_off_def by blast+

lemma putting_back_no:
  assumes "putting_back x s mine av s' E"
  shows "EPropose r \<notin> E" "EUnpropose r \<notin> E" "EUnpoint c \<notin> E" "EClaim c j \<notin> E" "EUnclaim c \<notin> E" "ERevoke p \<notin> E"
  using assms unfolding putting_back_def by blast+

lemma revoke_applies:
  assumes "taking_away x s v landed mine W av (set pre)" "putting_back x s mine av s' (set retired)"
  obtains av1 av' where "a_effects op pre av = Inr av1" "a_effects op retired av1 = Inr av'" "a_effects op (pre @ retired) av = Inr av'"
proof -
  have "\<forall>e \<in> set pre. case e of EHead _ _ _ _ _ _ \<Rightarrow> False | _ \<Rightarrow> True"
    using assms(1) unfolding taking_away_def taking_off_def by fastforce
  then obtain av1 where a: "a_effects op pre av = Inr av1" using effects_total by blast
  have "\<forall>e \<in> set retired. case e of EHead _ _ _ _ _ _ \<Rightarrow> False | _ \<Rightarrow> True"
    using assms(2) unfolding putting_back_def by fastforce
  then obtain av' where "a_effects op retired av1 = Inr av'" using effects_total by blast
  with a that show thesis by (simp add: a_effects_append)
qed

text \<open>Every part of the view after a revocation.\<close>

lemma revoke_after:
  assumes t: "taking_away x s v landed mine W av (set pre)" and b: "putting_back x s mine av s' (set retired)"
    and e: "a_effects op pre av = Inr av1" "a_effects op retired av1 = Inr av'"
  shows "av_revoked av' = av_revoked av \<union> set mine"
    and "av_claims av' c = (if claim_by x s av mine c then None else av_claims av c)"
    and "r \<in> av_proposed av' \<longleftrightarrow> r \<in> av_proposed av \<and> EUnpropose r \<notin> set pre"
    and "memory_by x s av mine c \<Longrightarrow> \<exists>j. av_entities av' c = Some (TId j) \<and> retired_at s' j"
    and "\<not> memory_by x s av mine c \<Longrightarrow> av_entities av' c = (if EUnpoint c \<in> set pre then None else av_entities av c)"
proof -
  show "av_revoked av' = av_revoked av \<union> set mine"
    by (rule set_eqI) (simp add: effects_revoked [OF e(1)] effects_revoked [OF e(2)] taking_away_mem(1) [OF t] putting_back_no(6) [OF b])
  show "av_claims av' c = (if claim_by x s av mine c then None else av_claims av c)"
    using effects_claims [OF e(1), of c] effects_claims [OF e(2), of c] taking_away_mem(2) [OF t] taking_away_no(3) [OF t] putting_back_no(4,5) [OF b] by simp
  show "r \<in> av_proposed av' \<longleftrightarrow> r \<in> av_proposed av \<and> EUnpropose r \<notin> set pre"
    using effects_proposed [OF e(1), of r] effects_proposed [OF e(2), of r] taking_away_no(1) [OF t] putting_back_no(1,2) [OF b] by simp
  note pt = effects_point [OF e(2) putting_back_no(3) [OF b], of c]
  have ents: "memory_by x s av mine c \<longleftrightarrow> (\<exists>j f. EPoint c j f \<in> set retired)" using b unfolding putting_back_def by blast
  show "\<exists>j. av_entities av' c = Some (TId j) \<and> retired_at s' j" if "memory_by x s av mine c"
  proof -
    from that ents pt obtain j f where j: "EPoint c j f \<in> set retired" "av_entities av' c = Some (TId j)" by blast
    with b have "retired_at s' j" unfolding putting_back_def by blast
    with j(2) show ?thesis by blast
  qed
  show "av_entities av' c = (if EUnpoint c \<in> set pre then None else av_entities av c)" if "\<not> memory_by x s av mine c"
    using that ents pt effects_unpoint [OF e(1), of c] taking_away_no(2) [OF t] by auto
qed

lemma active_memory_gone:
  assumes t: "taking_away x s v landed mine W av (set pre)" and b: "putting_back x s mine av s' (set retired)"
    and e: "a_effects op pre av = Inr av1" "a_effects op retired av1 = Inr av'"
    and m: "av_entities av' c = Some (TId i)" "memory_at x s' i = Some m" "memo_author m \<in> set mine"
  shows "memo_status m \<noteq> ''active''"
proof (cases "retired_at s' i")
  case True
  from memory_at_retired [OF this m(2)] show ?thesis by simp
next
  case False
  then have same: "s' i = s i" using b unfolding putting_back_def by blast
  then have "memory_at x s i = Some m" using m(2) by (simp add: memory_at_def)
  moreover have nb: "\<not> memory_by x s av mine c" using revoke_after(4) [OF t b e, of c] m(1) False by auto
  have "av_entities av c = Some (TId i)" using revoke_after(5) [OF t b e nb] m(1) by (auto split: if_splits)
  ultimately show ?thesis using nb m(3) unfolding memory_by_def retiring_def by auto
qed

lemma change_gone:
  assumes rep: "view_rep (ext_hash x) s v av"
    and t: "taking_away x s v landed mine W av (set pre)" and b: "putting_back x s mine av s' (set retired)"
    and e: "a_effects op pre av = Inr av1" "a_effects op retired av1 = Inr av'"
    and w: "w \<in> W" "unlanded_by x s landed mine w cur r"
  shows "Option.bind (av_entities av' (rev_id r)) pointer_from_trie = None \<or>
      (\<exists>j. av_entities av' (rev_id r) = Some (TId j) \<and> retired_at s' j)"
    and "\<exists>w' \<in> W. \<exists>cur' r'. unlanded_by x s landed mine w' cur' r' \<and> rev_id r' = rev_id r \<and> cur' \<notin> av_proposed av'"
proof -
  from t w have off: "taken_off x s v landed mine W (set pre) (rev_id r)" unfolding taking_away_def by blast
  show "Option.bind (av_entities av' (rev_id r)) pointer_from_trie = None \<or>
      (\<exists>j. av_entities av' (rev_id r) = Some (TId j) \<and> retired_at s' j)"
  proof (cases "memory_by x s av mine (rev_id r)")
    case True
    from revoke_after(4) [OF t b e this] show ?thesis ..
  next
    case False
    from off have "Option.bind (av_entities av (rev_id r)) pointer_from_trie = None \<or> EUnpoint (rev_id r) \<in> set pre"
      by (simp add: taken_off_def view_entity_rep [OF rep])
    with revoke_after(5) [OF t b e False] show ?thesis by auto
  qed
  from off obtain w' cur' r' where c: "w' \<in> W" "unlanded_by x s landed mine w' cur' r'" "rev_id r' = rev_id r"
    "in_set (ext_hash x) s (view_proposed v) cur' = Inr False \<or> EUnpropose cur' \<in> set pre" unfolding taken_off_def by blast
  from c(4) have "cur' \<notin> av_proposed av'"
    by (auto simp: proposed_rep [OF rep] revoke_after(3) [OF t b e])
  with c(1-3) show "\<exists>w' \<in> W. \<exists>cur' r'. unlanded_by x s landed mine w' cur' r' \<and> rev_id r' = rev_id r \<and> cur' \<notin> av_proposed av'" by blast
qed

lemma others_kept:
  assumes t: "taking_away x s v landed mine W av (set pre)" and b: "putting_back x s mine av s' (set retired)"
    and e: "a_effects op pre av = Inr av1" "a_effects op retired av1 = Inr av'"
  shows "\<not> memory_by x s av mine c \<Longrightarrow> (\<And>w cur r. w \<in> W \<Longrightarrow> unlanded_by x s landed mine w cur r \<Longrightarrow> rev_id r \<noteq> c) \<Longrightarrow>
      av_entities av' c = av_entities av c"
    and "p \<in> av_proposed av \<Longrightarrow> p \<notin> av_proposed av' \<Longrightarrow> \<exists>w \<in> W. \<exists>r. unlanded_by x s landed mine w p r"
proof -
  have mem: "taking_off x s landed mine W f" if "f \<in> set pre" "f = EUnpoint c \<or> f = EUnpropose p" for f
    using t that unfolding taking_away_def by auto
  show "av_entities av' c = av_entities av c" if "\<not> memory_by x s av mine c"
    and "\<And>w cur r. w \<in> W \<Longrightarrow> unlanded_by x s landed mine w cur r \<Longrightarrow> rev_id r \<noteq> c"
  proof -
    have "EUnpoint c \<notin> set pre" using mem [of "EUnpoint c"] that(2) unfolding taking_off_def by auto
    with revoke_after(5) [OF t b e that(1)] show ?thesis by simp
  qed
  show "\<exists>w \<in> W. \<exists>r. unlanded_by x s landed mine w p r" if "p \<in> av_proposed av" "p \<notin> av_proposed av'"
  proof -
    have "EUnpropose p \<in> set pre" using that revoke_after(3) [OF t b e, of p] by simp
    from mem [OF this] show ?thesis unfolding taking_off_def by auto
  qed
qed


text \<open>
  Revoking an agent touches nothing of anyone else. Only the agent and its active sessions are newly
  revoked; every claim that is not theirs stays as it was; the pointer of an entity changes only for an
  active memory of theirs or a change one of their workspaces holds an unlanded revision of, by one of
  them; and only such revisions lose their proposal.
\<close>

theorem revocation_spares_others:
  assumes "view_rep (ext_hash x) s v av" "objs_ok (ext_hash x) s"
    and "\<And>m y. ext_hash x y = ext_hash x (OMemory m) \<Longrightarrow> y = OMemory m"
    and "view_entities_list (ext_hash x) s v = Inr es"
    and "revoke_effects x s v landed wss agent = Inr (s', effs, u)"
    and "mine = agent # List.map_filter (active_session x s agent) es"
    and "a_effects op effs av = Inr av'"
  shows "av_revoked av' = av_revoked av \<union> set mine \<and>
    (\<forall>c. \<not> claim_by x s av mine c \<longrightarrow> av_claims av' c = av_claims av c) \<and>
    (\<forall>e. \<not> memory_by x s av mine e \<and> (\<forall>w \<in> set wss. \<forall>cur r. unlanded_by x s landed mine w cur r \<longrightarrow> rev_id r \<noteq> e) \<longrightarrow>
       av_entities av' e = av_entities av e) \<and>
    av_proposed av' \<subseteq> av_proposed av \<and>
    (\<forall>p \<in> av_proposed av - av_proposed av'. \<exists>w \<in> set wss. \<exists>r. unlanded_by x s landed mine w p r)"
proof -
  obtain pre retired where p: "effs = pre @ retired"
    "taking_away x s v landed mine (set wss) av (set pre)" "putting_back x s mine av s' (set retired)"
    "set (uw_drops u) = ws_id ` {w \<in> set wss. ws_principal w \<in> set mine}" by (rule revoke_summary [OF assms(1-6)])
  obtain av1 av2 where e: "a_effects op pre av = Inr av1" "a_effects op retired av1 = Inr av2"
    "a_effects op (pre @ retired) av = Inr av2" by (rule revoke_applies [OF p(2,3), of op])
  with p(1) assms(7) have "av2 = av'" by simp
  note after = revoke_after [OF p(2,3) e(1,2)] and others = others_kept [OF p(2,3) e(1,2)]
  have "av_claims av2 c = av_claims av c" if "\<not> claim_by x s av mine c" for c using after(2) [of c] that by simp
  moreover have "av_proposed av2 \<subseteq> av_proposed av" using after(3) by auto
  moreover have "\<exists>w \<in> set wss. \<exists>r. unlanded_by x s landed mine w p r" if "p \<in> av_proposed av - av_proposed av2" for p
    using others(2) that by simp
  moreover have "av_entities av2 c = av_entities av c" if "\<not> memory_by x s av mine c"
    "\<forall>w \<in> set wss. \<forall>cur r. unlanded_by x s landed mine w cur r \<longrightarrow> rev_id r \<noteq> c" for c
    using others(1) [of c] that by simp
  ultimately show ?thesis using after(1) \<open>av2 = av'\<close> by simp
qed

end
