(* ===== verification/Revoke_Witnesses.thy ===== *)
theory Revoke_Witnesses
  imports Revoke_Props World
begin

text \<open>
  An agent with a session that has an unlanded revision in a workspace, a claim and a memory, beside a
  claim of the owner: its revocation, on a hash without collisions among memories and trie nodes.
\<close>

section \<open>The hash\<close>

definition memory_code :: "memory \<Rightarrow> nat" where
  "memory_code m = to_nat ((memo_id m, memo_prev m, memo_kind m, ms_kind (memo_scope m), ms_ref (memo_scope m), memo_body m),
     (memo_anchor m, uint (memo_confidence m), memo_author m, memo_time m, memo_expires m),
     memo_proposed m, memo_status m, memo_links m, memo_visibility m)"

lemma memory_code_inject: "memory_code m = memory_code n \<Longrightarrow> m = n"
  by (cases m; cases n) (auto simp: memory_code_def intro: unsigned_word_eqI memory_scope.equality)

fun revoke_hash :: "obj \<Rightarrow> oid" where
  "revoke_hash (OMemory m) = 9 # replicate (memory_code m) 0"
| "revoke_hash (OClaim c) = 10 # claim_id c"
| "revoke_hash y = world_hash y"

lemma revoke_hash_memory: "revoke_hash y = revoke_hash (OMemory m) \<Longrightarrow> y = OMemory m"
  by (cases y) (auto dest: memory_code_inject)

lemma collision_free_revoke: "collision_free revoke_hash"
  unfolding collision_free_def
proof (intro allI impI)
  fix n y assume "revoke_hash y = revoke_hash (OTrie n)"
  then show "y = OTrie n" by (cases y) (auto dest: code_node_inject)
qed

definition revoke_ext :: ext where
  "revoke_ext = world\<lparr>ext_hash := revoke_hash\<rparr>"

lemma revoke_ext_hash [simp]: "ext_hash revoke_ext = revoke_hash"
  by (simp add: revoke_ext_def)

section \<open>When the effects are computed\<close>

lemma unclaim_total:
  assumes "view_rep (ext_hash x) s v av" "\<And>c i. av_claims av c = Some (TId i) \<Longrightarrow> \<exists>cl. obj_get (ext_hash x) as_claim s i = Inr cl"
  shows "\<exists>effs. unclaim_effects x s v mine = Inr effs"
proof -
  obtain es where es: "trie_entries (node_get (ext_hash x)) trie_fuel s (view_claims v) = Inr es"
    "\<And>k w. (k, w) \<in> set es \<longleftrightarrow> av_claims av k = Some w" "\<And>k w. (k, w) \<in> set es \<Longrightarrow> eid_from_slice k = Inr k"
    using claims_of_rep [OF assms(1)] by blast
  let ?f = "\<lambda>(k, w). case (eid_from_slice k, pointer_from_trie w) of
      (Inr c, Some (PId i)) \<Rightarrow> rbind (obj_get (ext_hash x) as_claim s i) (\<lambda>cl.
         Inr (if claim_principal cl \<in> set mine then [EUnclaim c] else [])) | _ \<Rightarrow> Inr []"
  have "\<exists>y. ?f e = Inr y" if e: "e \<in> set es" for e
  proof -
    obtain k w where kw: "e = (k, w)" by (cases e)
    with e es(3) have k: "eid_from_slice k = Inr k" by blast
    show ?thesis
    proof (cases w)
      case (TId i)
      with e kw es(2) have "av_claims av k = Some (TId i)" by blast
      with assms(2) obtain cl where "obj_get (ext_hash x) as_claim s i = Inr cl" by blast
      with kw k TId show ?thesis by simp
    qed (use kw k in simp_all)
  qed
  then have "\<exists>out. rmap ?f es = Inr out" by (simp add: rmap_Inr_iff_all)
  with es(1) show ?thesis by (auto simp: unclaim_effects_def)
qed

lemma revoke_total:
  assumes "view_entities_list (ext_hash x) s v = Inr es" "mine = agnt # List.map_filter (active_session x s agnt) es"
    and "rfold (unwind_workspace x s v landed mine) wss \<lparr>uw_effects = [], uw_changes = [], uw_drops = []\<rparr> = Inr u"
    and "unclaim_effects x s v mine = Inr unclaims"
  shows "\<exists>s' effs. revoke_effects x s v landed wss agnt = Inr (s', effs, u)"
proof -
  obtain s2 retired where f: "fold (retire_step x mine) (List.map_filter (memory_entry x s) es) (s, []) = (s2, retired)" by fastforce
  show ?thesis unfolding revoke_effects_def assms(1) Let_def rbind.simps assms(2) [symmetric] assms(3,4) f prod.case by simp
qed

lemma revoke_keeps: "revoke_effects x s v landed wss agnt = Inr (s', effs, u) \<Longrightarrow> kept s s'"
proof -
  assume r: "revoke_effects x s v landed wss agnt = Inr (s', effs, u)"
  have k: "kept (fst acc) (fst (fold (retire_step x mine) ms acc))" for mine ms acc
  proof (induction ms arbitrary: acc)
    case (Cons e ms)
    have "kept (fst acc) (fst (retire_step x mine e acc))"
      by (auto simp: retire_step_def kept_def obj_put_def split: prod.split option.split)
    with Cons [of "retire_step x mine e acc"] kept_trans show ?case by simp
  qed simp
  from r obtain es where es: "view_entities_list (ext_hash x) s v = Inr es" by (auto simp: revoke_effects_def result_simps)
  let ?mine = "agnt # List.map_filter (active_session x s agnt) es" and ?ms = "List.map_filter (memory_entry x s) es"
  obtain s2 retired where f: "fold (retire_step x ?mine) ?ms (s, []) = (s2, retired)" by fastforce
  from r have "s2 = s'" unfolding revoke_effects_def es Let_def rbind.simps f prod.case by (auto simp: rbind_Inr_iff)
  with f k [of "(s, [])" ?mine ?ms] show ?thesis by simp
qed

section \<open>The agent\<close>

abbreviation work_id :: eid where "work_id \<equiv> sample_key 8"

definition its_session :: principal where
  "its_session = (world_principal 10 ''session'')\<lparr>prin_parent := Some agent\<rparr>"

definition its_memory :: memory where
  "its_memory = \<lparr>memo_id = sample_key 11, memo_prev = None, memo_kind = ''fact'', memo_scope = \<lparr>ms_kind = ''repo'', ms_ref = VText []\<rparr>,
     memo_body = ''b'', memo_anchor = None, memo_confidence = 5, memo_author = sample_key 10, memo_time = 0, memo_expires = None,
     memo_proposed = None, memo_status = ''active'', memo_links = None, memo_visibility = ''all''\<rparr>"

definition its_revision :: revision where
  "its_revision = world_rev ''a'' (sample_key 12) None [] (sample_key 10)"

definition claim_of :: "nat \<Rightarrow> nat \<Rightarrow> claim" where
  "claim_of n p = \<lparr>claim_id = sample_key n, claim_prev = None, claim_principal = sample_key p, claim_targets = [],
     claim_intent = None, claim_exclusive = False, claim_expires = 0, claim_note = None\<rparr>"

definition its_workspace :: workspace where
  "its_workspace = \<lparr>ws_id = work_id, ws_principal = sample_key 10, ws_base = [], ws_current = Some (rev_oid 1), ws_paths = [],
     ws_env = None, ws_created = 0, ws_expires = None, ws_holder = None\<rparr>"

abbreviation note_oid :: oid where "note_oid \<equiv> revoke_hash (OMemory its_memory)"
abbreviation claim_oid :: "nat \<Rightarrow> oid" where "claim_oid n \<equiv> 10 # sample_key n"

definition its_objects :: objs where
  "its_objects = [prin_oid 10 \<mapsto> OPrincipal its_session, note_oid \<mapsto> OMemory its_memory, rev_oid 1 \<mapsto> ORevision its_revision,
     claim_oid 13 \<mapsto> OClaim (claim_of 13 10), claim_oid 14 \<mapsto> OClaim (claim_of 14 1)]"

definition its_effects :: "effect list" where
  "its_effects = [EPoint (sample_key 10) (prin_oid 10) None, EPoint (sample_key 11) note_oid None,
     EPoint (sample_key 12) (rev_oid 1) None, EPropose (rev_oid 1), EClaim (sample_key 13) (claim_oid 13),
     EClaim (sample_key 14) (claim_oid 14)]"

definition its_view :: aview where
  "its_view = a_empty\<lparr>av_entities := [sample_key 10 \<mapsto> TId (prin_oid 10), sample_key 11 \<mapsto> TId note_oid, sample_key 12 \<mapsto> TId (rev_oid 1)],
     av_proposed := {rev_oid 1}, av_claims := [sample_key 13 \<mapsto> TId (claim_oid 13), sample_key 14 \<mapsto> TId (claim_oid 14)]\<rparr>"

lemma its_objects_ok: "objs_ok revoke_hash its_objects"
  by (auto simp: objs_ok_def its_objects_def prin_oid_def rev_oid_def its_session_def world_principal_def its_revision_def
      world_rev_def claim_of_def split: if_splits)

lemma its_view_stored: "\<exists>s v. objs_ok revoke_hash s \<and> kept its_objects s \<and> view_rep revoke_hash s v its_view"
proof -
  obtain s v where 1: "step_ok revoke_hash its_objects s" "view_rep revoke_hash s v a_empty"
    using view_empty_rep [OF collision_free_revoke its_objects_ok] by blast
  have "refines revoke_hash s (apply_effects revoke_hash s v its_effects None) (a_effects None its_effects a_empty)"
    by (rule apply_effects_refines_aux [OF collision_free_revoke]) (use 1 in \<open>simp_all add: its_effects_def sample_key_def rev_oid_def\<close>)
  moreover have "a_effects None its_effects a_empty = Inr its_view"
    by (simp add: a_effects_def its_effects_def its_view_def a_empty_def)
  ultimately obtain s' v' where "step_ok revoke_hash s s'" "view_rep revoke_hash s' v' its_view" by (auto simp: refines_def)
  with 1(1) kept_trans show ?thesis by blast
qed

lemma its_stored:
  assumes "kept its_objects s"
  shows "s (prin_oid 10) = Some (OPrincipal its_session)" "s note_oid = Some (OMemory its_memory)"
    "obj_get revoke_hash as_revision s (rev_oid 1) = Inr its_revision"
    "obj_get revoke_hash as_claim s (claim_oid 13) = Inr (claim_of 13 10)"
    "obj_get revoke_hash as_claim s (claim_oid 14) = Inr (claim_of 14 1)"
    "s (rev_oid 1) = Some (ORevision its_revision)"
proof -
  have a: "its_objects (prin_oid 10) = Some (OPrincipal its_session)" "its_objects note_oid = Some (OMemory its_memory)"
    "its_objects (rev_oid 1) = Some (ORevision its_revision)" "its_objects (claim_oid 13) = Some (OClaim (claim_of 13 10))"
    "its_objects (claim_oid 14) = Some (OClaim (claim_of 14 1))"
    by (simp_all add: its_objects_def prin_oid_def rev_oid_def)
  with assms have s: "s (prin_oid 10) = Some (OPrincipal its_session)" "s note_oid = Some (OMemory its_memory)"
    "s (rev_oid 1) = Some (ORevision its_revision)" "s (claim_oid 13) = Some (OClaim (claim_of 13 10))"
    "s (claim_oid 14) = Some (OClaim (claim_of 14 1))" unfolding kept_def by blast+
  then show "s (prin_oid 10) = Some (OPrincipal its_session)" "s note_oid = Some (OMemory its_memory)"
    "s (rev_oid 1) = Some (ORevision its_revision)" by blast+
  from s show "obj_get revoke_hash as_revision s (rev_oid 1) = Inr its_revision"
    "obj_get revoke_hash as_claim s (claim_oid 13) = Inr (claim_of 13 10)"
    "obj_get revoke_hash as_claim s (claim_oid 14) = Inr (claim_of 14 1)"
    by (simp_all add: obj_get_def its_revision_def world_rev_def rev_oid_def claim_of_def)
qed

lemma its_claims_stored:
  assumes "obj_get revoke_hash as_claim s (claim_oid 13) = Inr (claim_of 13 10)"
    "obj_get revoke_hash as_claim s (claim_oid 14) = Inr (claim_of 14 1)" "av_claims its_view k = Some (TId i)"
  shows "\<exists>cl. obj_get (ext_hash revoke_ext) as_claim s i = Inr cl"
proof -
  have "i = claim_oid 13 \<or> i = claim_oid 14" using assms(3) by (auto simp: its_view_def split: if_splits)
  with assms(1,2) show ?thesis by (auto simp del: revoke_hash.simps)
qed

lemma only_session:
  assumes "set es = {a, b, d}" "f a = Some k" "f b = None" "f d = None"
  shows "set (List.map_filter f es) = {k}"
proof -
  have "set (List.map_filter f xs) = {y. \<exists>e \<in> set xs. f e = Some y}" for xs
    by (induction xs) (auto simp: List.map_filter_simps split: option.splits)
  with assms show ?thesis by auto
qed

lemma its_revocation:
  assumes "kept its_objects s" "view_rep revoke_hash s v its_view"
  shows "\<exists>es s' effs u. view_entities_list revoke_hash s v = Inr es \<and>
    set (agent # List.map_filter (active_session revoke_ext s agent) es) = {agent, sample_key 10} \<and>
    revoke_effects revoke_ext s v [] [its_workspace] agent = Inr (s', effs, u)"
proof -
  note st = its_stored [OF assms(1)]
  have rep: "view_rep (ext_hash revoke_ext) s v its_view" using assms(2) by simp
  obtain es where es: "view_entities_list revoke_hash s v = Inr es"
    "\<And>i p. (i, p) \<in> set es \<longleftrightarrow> Option.bind (av_entities its_view i) pointer_from_trie = Some p"
    by (rule entities_of_rep [OF assms(2)]) blast
  let ?f = "active_session revoke_ext s agent"
  have ents: "(i, p) \<in> set es \<longleftrightarrow> (i, p) \<in> {(sample_key 10, PId (prin_oid 10)), (sample_key 11, PId note_oid), (sample_key 12, PId (rev_oid 1))}" for i p
    unfolding es(2) by (auto simp: its_view_def)
  have own: "?f (sample_key 10, PId (prin_oid 10)) = Some (sample_key 10)"
    by (simp add: active_session_def st peek_obj_def decode_obj_def its_session_def world_principal_def)
  have memo: "?f (sample_key 11, PId note_oid) = None" by (simp add: active_session_def st(2) peek_obj_def del: revoke_hash.simps)
  have revn: "?f (sample_key 12, PId (rev_oid 1)) = None" using st(6) by (simp add: active_session_def peek_obj_def del: One_nat_def)
  have "set es = {(sample_key 10, PId (prin_oid 10)), (sample_key 11, PId note_oid), (sample_key 12, PId (rev_oid 1))}"
    using ents by (auto simp: set_eq_iff simp del: revoke_hash.simps)
  from only_session [of es _ _ _ ?f, OF this own memo revn] have "set (List.map_filter ?f es) = {sample_key 10}" .
  define mine where "mine = agent # List.map_filter ?f es"
  with \<open>set (List.map_filter ?f es) = {sample_key 10}\<close> have mine: "set mine = {agent, sample_key 10}" by simp
  have offered: "in_set revoke_hash s (view_proposed v) (rev_oid 1) = Inr True" by (simp add: proposed_rep [OF assms(2)] its_view_def)
  have ent: "view_entity revoke_hash s v (sample_key 12) = Inr (Some (PId (rev_oid 1)))"
    by (simp add: view_entity_rep [OF assms(2)] its_view_def)
  have "\<exists>u. rfold (unwind_workspace revoke_ext s v [] mine) [its_workspace] \<lparr>uw_effects = [], uw_changes = [], uw_drops = []\<rparr> = Inr u"
    using st(3) offered ent mine
    by (simp add: unwind_workspace_def unwind_change_def its_workspace_def its_revision_def world_rev_def)
  then obtain u where u: "rfold (unwind_workspace revoke_ext s v [] mine) [its_workspace] \<lparr>uw_effects = [], uw_changes = [], uw_drops = []\<rparr> = Inr u" ..
  obtain unclaims where "unclaim_effects revoke_ext s v mine = Inr unclaims"
    using unclaim_total [OF rep, of mine] its_claims_stored [OF st(4,5)] by blast
  from revoke_total [OF _ mine_def u this] es(1) obtain s' effs where
    "revoke_effects revoke_ext s v [] [its_workspace] agent = Inr (s', effs, u)" by auto
  with es(1) mine show ?thesis unfolding mine_def by blast
qed

section \<open>The revocation of the agent\<close>


end
