(* ===== verification/Spec2Isabelle.thy ===== *)
theory Spec2Isabelle
  imports Trie_Props Log_Witnesses Merge_Witnesses Matching_Witnesses Import_Props Durable_Props Tree_Witnesses
    Partition Daemon_Witnesses Risk_Witnesses Workdir_Props Revoke_Witnesses
begin

text \<open>
  Tessra is a version control system for agents: content-addressed objects, a grow-only log of signed
  operations, and views (what every entity, line and capability currently is) that are tries in the
  object store. This development models the parts that carry that logic and proves what they promise.

  \<^bold>\<open>Parts and theories.\<close> All paths are under \<open>src/crates\<close>.

  \<^item> Errors, results, sorted vectors and maps: \<open>Prelude\<close>. \<open>error + 'a\<close> is \<open>Result<T>\<close>; \<open>rbind\<close> is the
    question mark operator, \<open>ensure\<close> an early return, \<open>rfold\<close> and \<open>rmap\<close> are loops over results; a
    \<open>BTreeSet\<close> is \<open>btree_list\<close>, a \<open>BTreeMap\<close> an association list sorted by key.
  \<^item> \<open>tessra-core/src/id.rs\<close> and \<open>hash.rs\<close>: \<open>Ids\<close>. \<open>cbor.rs\<close>: \<open>Cbor\<close>. \<open>store.rs\<close>: \<open>Obj_Store\<close>.
    \<open>object.rs\<close>: \<open>Objects\<close>, one record per object type, the type \<open>obj\<close> of all of them and the store
    \<open>objs\<close> of objects by id. \<open>sig.rs\<close>: \<open>Signatures\<close>, whose record \<open>ext\<close> gathers everything that is not
    under \<open>src\<close>: the hash, the codec, Ed25519.
  \<^item> \<open>tessra-core/src/trie.rs\<close>: \<open>Trie_Node\<close> (nodes), \<open>Trie_Ops\<close> (operations), \<open>Trie_Spec\<close> (the locale
    \<open>trie_store\<close> of what the trie asks of its store, and what a stored trie means, a finite map),
    \<open>Trie_Correct\<close> (the operations compute the map operations, inside the locale), \<open>Trie_Props\<close>.
    \<open>Objects\<close> interprets the locale on the object store as \<open>ot\<close>.
  \<^item> \<open>tessra-oplog/src/view.rs\<close>: \<open>View\<close> (effects and the three-way merge), \<open>View_Spec\<close> (abstract views
    \<open>aview\<close> of maps and sets, the relation \<open>view_rep\<close>), \<open>View_Props\<close>.
  \<^item> \<open>tessra-oplog/src/glob.rs\<close>: \<open>Glob\<close>. \<open>standard.rs\<close>: \<open>Standards\<close>, \<open>Standard_Props\<close>.
  \<^item> \<open>tessra-oplog/src/dag.rs\<close>: \<open>Search\<close> (the breadth first walk), \<open>Dag\<close> (the record \<open>oplog\<close>, ancestors,
    latest common ancestors, merged views), \<open>Dag_Props\<close>, \<open>Oplog\<close> (\<open>accept\<close>), \<open>Oplog_Props\<close> (growing
    stores), \<open>Log_Invariant\<close> (the invariant of the log, by rule induction over the reachable logs).
  \<^item> \<open>tessra-oplog/src/verify.rs\<close>: \<open>Verify\<close>, step by step; \<open>Verify_Props\<close> (authors, chains of
    capabilities), \<open>Path_Props\<close> (changed paths, write scope), \<open>Authority_Props\<close> (what an accepted operation
    proves about its authority), \<open>Legality_Props\<close> (landing, lines).
  \<^item> \<open>tessra-oplog/src/build.rs\<close>: \<open>Build\<close>, \<open>Build_Props\<close> (what is built verifies), \<open>Undo_Props\<close>.
  \<^item> \<open>tessra-semantic/src/rename.rs\<close>: \<open>Renames\<close> (parse trees \<open>ts_node\<close>, whole words, edits).
    \<open>extract.rs\<close> and \<open>lib.rs\<close>: \<open>Extract\<close> (from a parse tree to the units of a file, with their body
    hashes, and the chunks of other files), \<open>Extract_Props\<close>. \<open>matching.rs\<close>: \<open>Matching\<close> (which recorded
    unit each unit is, pass by pass), \<open>Matching_Props\<close>. \<open>imports.rs\<close>: \<open>Imports\<close>, \<open>Import_Props\<close>.
  \<^item> \<open>tessra-semantic/src/merge.rs\<close>: \<open>Merge_Keys\<close> (units, keys, order), \<open>Merge_File\<close> (levels,
    containers, conflicts, renames), \<open>Merge_Order\<close>, \<open>Key_Props\<close>, \<open>Merge_Props\<close>, \<open>Merge_Clean\<close>.
  \<^item> \<open>tessra-store/src/pack.rs\<close>: \<open>Pack\<close> (the format, writer and reader), \<open>Pack_Props\<close>. \<open>lib.rs\<close>: \<open>Durable\<close>
    (the tables and the open batch), \<open>Durable_Props\<close>, which interprets \<open>node_store\<close> on this store too.
  \<^item> \<open>tessra-daemon/src/tree.rs\<close>: \<open>Trees\<close> (trees as maps of paths, building, sharding, the merge of
    paths), \<open>Tree_Props\<close>.
  \<^item> \<open>tessra-daemon/src/semantic.rs\<close>: \<open>Sem_Index\<close> (the index of a tree, aliases, renames, differences),
    \<open>Tree_Merge\<close> (the index of a snapshot or revision, the merge of trees), \<open>Blame\<close>; \<open>Alias_Props\<close>,
    \<open>Sem_Props\<close>, \<open>Tree_Merge_Props\<close>, \<open>Blame_Props\<close>.
  \<^item> \<open>tessra-daemon/src/verifiers.rs\<close>: \<open>Attestations\<close>. \<open>hooks.rs\<close>: \<open>Events\<close>; \<open>Attest_Props\<close> for both.
    \<open>risk.rs\<close>: \<open>Risk\<close>, \<open>Risk_Props\<close>. \<open>anomaly.rs\<close>: \<open>Anomaly\<close> (with a step relation over the calls
    of the daemon and what holds of every reachable state). \<open>swarm.rs\<close>: \<open>Partition\<close>,
    and \<open>Revoke\<close>, \<open>Revoke_Props\<close> (overlapping claims, the revocation of an agent). \<open>fs.rs\<close>: \<open>Workdir\<close>
    (snapshots of a directory, the scanner of secrets), \<open>Workdir_Props\<close>. \<open>principals.rs\<close>: \<open>Principals\<close>.
  \<^item> Concrete inputs: \<open>Extract_Witnesses\<close>, \<open>Matching_Witnesses\<close>, \<open>Merge_Witnesses\<close>, \<open>Tree_Witnesses\<close>,
    \<open>Sample\<close> (a hash without collisions among trie nodes), \<open>World\<close> (a small repository with an owner, an
    agent and three operations), \<open>Log_Witnesses\<close>, \<open>Daemon_Witnesses\<close>, \<open>Risk_Witnesses\<close>,
    \<open>Revoke_Witnesses\<close>.

  \<^bold>\<open>How they interact.\<close> An operation is built on the heads of a log (\<open>build_op\<close>), accepted by
  \<open>accept\<close>, which calls \<open>verify_op\<close>; that merges the views of the parents (\<open>merged_view\<close>, \<open>lca\<close>,
  \<open>view_merge\<close>), checks author, signature, capability, scope and legality against them, evaluates the
  standard of a line (\<open>evaluate\<close>) when it moves, and applies the effects (\<open>apply_effects\<close>). Everything reads
  and writes one object store. Beside the log, a file is extracted (\<open>extract_units\<close>), its units are matched
  with those recorded for its previous version (\<open>assign_ids_with_refs\<close>), and the recorded units of three
  versions are what the merge of a file (\<open>merge_file\<close>) works on. The daemon puts these together: the index
  of a snapshot (\<open>index_for_snapshot\<close>) is built file by file with extraction, matching and imports, the merge
  of trees (\<open>merge_trees\<close>) merges maps of paths and, where both sides changed a file, its units; the score of
  a change (\<open>assess\<close>) reads indexes, paths, the view of the log and the landed revisions.

  \<^bold>\<open>What the lemmas show.\<close> Trie operations are the map operations, canonical and terminating; effects and
  merges refine the specification on abstract views; a reachable log keeps its invariant and an accepted
  operation has the view the specification gives it; an accepted operation was signed by an active
  author within an authority that an owner granted, effect by effect, and moves lines by the rules; changed
  paths cover every difference of two trees and a write scope holds exactly the topmost ones; what
  \<open>build_op\<close> makes verifies and \<open>undo\<close> takes it back. The units of a file are nested or apart in the order of
  its text; ids are given once, stay with their kind and survive indexing again; a merge without conflicts
  carries every changed unit at any depth, and a first side that changed nothing yields to the second;
  imports name files of the tree. Packs are
  read back as written and refused when altered; the durable store answers as the store in memory does,
  with batches and after a crash; a tree built from paths is flattened to them again. An index holds the
  units of the files of its tree, the same whenever it is asked for; a merge of trees decides every path by
  rule; aliases lead to living ids; blame quotes an ancestor that holds the same body. A partition always
  returns and keeps units that depend on each other together; the score of a change is the sum of its
  factors; what is collected for a revision is exactly what was indexed for it; firing runs every action of
  the hooks that answer; a throttle ends with its cooldown. A snapshot holds the tracked files and names the
  paths outside the write scope; revoking an agent leaves no claim, memory or pointer of it in the view.

  \<^bold>\<open>Bounds.\<close> \<open>trie_fuel\<close> is 65, more than the 64 nibbles of the longest key, and is proved enough. A chain of
  capabilities has at most 64 links and a chain of standards at most 32, as in the code. Walks over
  parents, trees and revisions are partial functions, proved to return on finite inputs without cycles. The
  loops of the union-find are partial functions too, proved to return on every forest the partition makes.
  Blame walks at most 1000 revisions and the search for indexed ancestors at most 100000, and a chain of
  aliases is followed for 64 steps, as in the code. Points and scores are 32 bit words, times are \<open>i64\<close>.

  \<^bold>\<open>Idealisations.\<close> Ids and hashes are byte lists of any length unless a theorem asks for one. Text is a list
  of \<open>char\<close>s, one per byte. The hash is injective where a theorem says \<open>collision_free\<close> or \<open>sound_hash\<close>. The
  derived serialization of the object types is a parameter. The reasons composed for people are
  dropped. When an operation fails, what it had added to the store is dropped from the model. The
  process-wide cache of landed revisions is an argument. Sequence numbers are 64 bit words and wrap.

  Parsers are arguments that give trees; the text of source files is ASCII where the code converts it;
  likeness of units is an exact quotient; a slice that panics is the value \<open>None\<close> of \<open>expand_braces\<close>.
  Random ids (\<open>fresh\<close>), the order in which a hash map or set gives its elements (\<open>order\<close>), the encoding in
  hexadecimal (\<open>hx\<close>), readings of the clock and what an action of a hook does (\<open>run\<close>) are arguments.

  \<^bold>\<open>Not modelled.\<close> The files of the durable store below its tables; of the daemon the verbs, sockets, the
  watched file system, writing trees into directories, the bridge to git, deliveries, creating agents,
  sessions and grants, planning and restacking, the processes that verifiers and hooks run, and the
  operation that records a score; the command line. The list of components says why for each.
\<close>

end
